(* ===== verification/Prelude.thy ===== *)
theory Prelude
  imports Main "HOL-Library.Word" "HOL-Library.Monad_Syntax"
begin

text \<open>
  What the components share: the C integer types of \<open>rtdef.h\<close> as words, the error codes,
  the alignment macros, \<open>memcpy\<close> on byte arrays with its bounds made explicit, and the lemmas
  on lists and words that several components need.
  \<^item> \<open>word_simps\<close> collects the equations that move a word expression to \<open>nat\<close> or \<open>int\<close>;
  \<^item> \<open>mem_simps\<close> collects the facts about \<open>memcpy_at\<close> and \<open>mem_slice\<close>.
\<close>

unbundle bit_operations_syntax

named_theorems word_simps "word expressions read as numbers"
named_theorems mem_simps "copies between byte arrays"

section \<open>C types and error codes\<close>

type_synonym u8 = "8 word"
type_synonym u16 = "16 word"
type_synonym u32 = "32 word"

text \<open>The error codes of \<open>rtdef.h\<close>; \<open>rt_err_t\<close> is a signed \<open>long\<close> and the kernel returns
  them negated.\<close>

abbreviation (input) RT_EOK :: int where "RT_EOK \<equiv> 0"
abbreviation (input) RT_ERROR :: int where "RT_ERROR \<equiv> 1"
abbreviation (input) RT_ETIMEOUT :: int where "RT_ETIMEOUT \<equiv> 2"
abbreviation (input) RT_EFULL :: int where "RT_EFULL \<equiv> 3"
abbreviation (input) RT_EEMPTY :: int where "RT_EEMPTY \<equiv> 4"

section \<open>Alignment\<close>

text \<open>\<open>RT_ALIGN(size, align)\<close> and \<open>RT_ALIGN_DOWN(size, align)\<close> with
  \<open>RT_ALIGN_SIZE = 4\<close> (\<open>rtconfig.h\<close>), on the 32-bit \<open>rt_size_t\<close>: the addition wraps.\<close>

definition rt_align :: "u32 \<Rightarrow> u32" where
  "rt_align s = (s + 4 - 1) AND NOT (4 - 1)"

definition rt_align_down :: "u32 \<Rightarrow> u32" where
  "rt_align_down s = s AND NOT (4 - 1)"

lemma word_and_not_mask: "(x :: 'a::len word) AND NOT (mask n) = x - take_bit n x"
proof -
  have "(x AND NOT (mask n)) + take_bit n x = (x AND NOT (mask n)) OR take_bit n x"
    by (rule disjunctive_add) (auto simp: bit_simps)
  also have "\<dots> = x"
    by (rule bit_eqI) (auto simp: bit_simps)
  finally show ?thesis by (simp add: eq_diff_eq)
qed

lemma unat_and_not_mask:
  "unat ((x :: 'a::len word) AND NOT (mask n)) = unat x div 2 ^ n * 2 ^ n"
proof -
  have t: "unat (take_bit n x) = unat x mod 2 ^ n"
    by (metis take_bit_eq_mod unsigned_take_bit_eq)
  have "take_bit n x \<le> x"
    by (simp add: word_le_nat_alt t)
  then have "unat (x - take_bit n x) = unat x - unat x mod 2 ^ n"
    by (simp add: unat_sub t)
  then show ?thesis
    by (simp add: word_and_not_mask minus_mod_eq_div_mult)
qed

lemma unat_rt_align_down [word_simps]: "unat (rt_align_down s) = unat s div 4 * 4"
proof -
  have m: "(4 - 1 :: u32) = mask 2" by (simp add: mask_eq_exp_minus_1)
  show ?thesis unfolding rt_align_down_def m unat_and_not_mask by simp
qed

lemma rt_align_eq: "rt_align s = rt_align_down (s + 3)"
  by (simp add: rt_align_def rt_align_down_def add.commute)

lemma unat_rt_align:
  assumes "unat s + 3 < 2 ^ 32"
  shows "unat (rt_align s) = (unat s + 3) div 4 * 4"
proof -
  have "unat (s + 3) = unat s + 3"
    using assms by (simp add: unat_word_ariths)
  then show ?thesis by (simp add: rt_align_eq unat_rt_align_down)
qed

lemma unat_rt_align_ge:
  assumes "unat s + 3 < 2 ^ 32"
  shows "unat s \<le> unat (rt_align s)" "unat (rt_align s) < unat s + 4" "unat (rt_align s) mod 4 = 0"
  unfolding unat_rt_align [OF assms] by presburger+

text \<open>Sizes within three bytes of the top of the address space align to 0: the addition of the
  macro wraps.\<close>

lemma rt_align_wraps: "2 ^ 32 \<le> unat s + 3 \<Longrightarrow> rt_align s = 0"
proof -
  assume a: "2 ^ 32 \<le> unat s + 3"
  have "unat s < 2 ^ 32" using unsigned_less [of s] by simp
  with a have "(unat s + 3) mod 2 ^ 32 < 3" by (simp add: le_mod_geq)
  then have "unat (s + 3) < 3" by (simp add: unat_word_ariths)
  then have "unat (rt_align s) = 0" by (simp add: rt_align_eq unat_rt_align_down)
  then show ?thesis by (simp add: unat_eq_0)
qed

lemma word_eq_unat: "(a :: 'a::len word) = b \<longleftrightarrow> unat a = unat b"
  by (auto intro: unsigned_word_eqI)

lemma unat_word_of_nat: "k < 2 ^ LENGTH('a) \<Longrightarrow> unat (of_nat k :: 'a::len word) = k"
  by (simp add: unsigned_of_nat take_bit_nat_eq_self)

lemma ucast_of_nat: "ucast (x :: 'a::len word) = (of_nat (unat x) :: 'b::len word)"
  by (simp add: word_eq_unat unsigned_ucast_eq unsigned_of_nat)

lemma unat_ucast: "unat (ucast (x :: 'a::len word) :: 'b::len word) = unat x mod 2 ^ LENGTH('b)"
  by (subst ucast_of_nat) (simp only: unat_of_nat)

lemma unat_u8: "unat (x :: u8) < 256"
  and unat_u16: "unat (y :: u16) < 65536"
  and unat_u32: "unat (z :: u32) < 4294967296"
proof -
  have "unat x < 2 ^ LENGTH(8)" "unat y < 2 ^ LENGTH(16)" "unat z < 2 ^ LENGTH(32)"
    by (rule unsigned_less)+
  then show "unat x < 256" "unat y < 65536" "unat z < 4294967296" by simp_all
qed

lemma sint_of_nonneg: "0 \<le> sint (w :: 'a::len word) \<Longrightarrow> sint w = int (unat w)"
proof -
  assume a: "0 \<le> sint w"
  have "sint w < 2 ^ (LENGTH('a) - 1)" by (rule sint_lt)
  also have "(2 :: int) ^ (LENGTH('a) - 1) \<le> 2 ^ LENGTH('a)" by (simp add: power_increasing)
  finally have "take_bit LENGTH('a) (sint w) = sint w"
    using a by (simp add: take_bit_int_eq_self)
  then have "uint w = sint w" by (simp add: uint_sint)
  then show ?thesis by simp
qed

lemma sint_of_small: "unat (w :: 'a::len word) < 2 ^ (LENGTH('a) - 1) \<Longrightarrow> sint w = int (unat w)"
proof -
  assume "unat w < 2 ^ (LENGTH('a) - 1)"
  then have "int (unat w) < int (2 ^ (LENGTH('a) - 1))" by linarith
  then have "uint w < 2 ^ (LENGTH('a) - 1)" by simp
  then have "signed_take_bit (LENGTH('a) - 1) (uint w) = uint w"
    by (intro signed_take_bit_int_eq_self) (simp_all add: order.trans [of _ 0])
  then show ?thesis by (simp add: sint_uint)
qed

section \<open>Copies between arrays\<close>

text \<open>
  \<open>memcpy(&dst[i], &src[j], n)\<close>. Reading or writing outside an array is undefined in C; here it
  is \<open>None\<close>, so that a theorem that an operation returns \<open>Some\<close> states its memory safety.
\<close>

definition splice :: "'a list \<Rightarrow> nat \<Rightarrow> 'a list \<Rightarrow> nat \<Rightarrow> nat \<Rightarrow> 'a list" where
  "splice dst i src j n = take i dst @ take n (drop j src) @ drop (i + n) dst"

definition memcpy_at :: "'a list \<Rightarrow> nat \<Rightarrow> 'a list \<Rightarrow> nat \<Rightarrow> nat \<Rightarrow> 'a list option" where
  "memcpy_at dst i src j n =
     (if i + n \<le> length dst \<and> j + n \<le> length src
      then Some (splice dst i src j n) else None)"

text \<open>The same copy where the code computes the offsets and the count as C \<open>int\<close>s: a negative
  one would convert to a huge \<open>size_t\<close>, so it is a fault too.\<close>

definition c_memcpy :: "'a list \<Rightarrow> int \<Rightarrow> 'a list \<Rightarrow> int \<Rightarrow> int \<Rightarrow> 'a list option" where
  "c_memcpy dst i src j n =
     (if 0 \<le> i \<and> 0 \<le> j \<and> 0 \<le> n then memcpy_at dst (nat i) src (nat j) (nat n) else None)"

text \<open>\<open>n\<close> bytes read from \<open>&src[i]\<close> into a buffer of the caller.\<close>

definition c_read :: "'a list \<Rightarrow> int \<Rightarrow> int \<Rightarrow> 'a list option" where
  "c_read src i n =
     (if 0 \<le> i \<and> 0 \<le> n \<and> nat (i + n) \<le> length src
      then Some (take (nat n) (drop (nat i) src)) else None)"

definition store_at :: "'a list \<Rightarrow> nat \<Rightarrow> 'a \<Rightarrow> 'a list option" where
  "store_at dst i x = (if i < length dst then Some (dst[i := x]) else None)"

definition load_at :: "'a list \<Rightarrow> nat \<Rightarrow> 'a option" where
  "load_at src i = (if i < length src then Some (src ! i) else None)"

lemma memcpy_at_Some [mem_simps]:
  "i + n \<le> length dst \<Longrightarrow> j + n \<le> length src \<Longrightarrow>
   memcpy_at dst i src j n = Some (splice dst i src j n)"
  by (simp add: memcpy_at_def)

lemma store_at_Some [mem_simps]: "i < length dst \<Longrightarrow> store_at dst i x = Some (dst[i := x])"
  by (simp add: store_at_def)

lemma load_at_Some [mem_simps]: "i < length src \<Longrightarrow> load_at src i = Some (src ! i)"
  by (simp add: load_at_def)

lemma c_memcpy_Some [mem_simps]:
  "0 \<le> i \<Longrightarrow> 0 \<le> j \<Longrightarrow> 0 \<le> n \<Longrightarrow> nat i + nat n \<le> length dst \<Longrightarrow> nat j + nat n \<le> length src \<Longrightarrow>
   c_memcpy dst i src j n = Some (splice dst (nat i) src (nat j) (nat n))"
  by (simp add: c_memcpy_def mem_simps)

lemma c_read_Some [mem_simps]:
  "0 \<le> i \<Longrightarrow> 0 \<le> n \<Longrightarrow> nat (i + n) \<le> length src \<Longrightarrow>
   c_read src i n = Some (take (nat n) (drop (nat i) src))"
  by (simp add: c_read_def)

lemma length_splice [simp]:
  "i + n \<le> length dst \<Longrightarrow> j + n \<le> length src \<Longrightarrow> length (splice dst i src j n) = length dst"
  by (simp add: splice_def)

lemma nth_splice:
  assumes "i + n \<le> length dst" "j + n \<le> length src" "k < length dst"
  shows "splice dst i src j n ! k =
    (if k < i then dst ! k else if k < i + n then src ! (j + (k - i)) else dst ! k)"
proof -
  have l: "length (take i dst) = i" "length (take n (drop j src)) = n"
    using assms by auto
  consider "k < i" | "i \<le> k" "k < i + n" | "i + n \<le> k" by linarith
  then show ?thesis
  proof cases
    case 1
    then show ?thesis by (simp only: splice_def nth_append l) simp
  next
    case 2
    then have "k - i < n" by linarith
    with 2 assms show ?thesis by (simp only: splice_def nth_append l) simp
  next
    case 3
    then have "\<not> k < i" "\<not> k - i < n" by linarith+
    with 3 assms show ?thesis by (simp only: splice_def nth_append l) (simp add: nth_drop)
  qed
qed

section \<open>The newest elements\<close>

text \<open>What a bounded buffer that drops its oldest elements keeps of a list.\<close>

definition newest :: "nat \<Rightarrow> 'a list \<Rightarrow> 'a list" where
  "newest n xs = drop (length xs - n) xs"

lemma newest_short: "length xs \<le> n \<Longrightarrow> newest n xs = xs"
  by (simp add: newest_def)

lemma newest_newest: "newest n (newest n xs @ ys) = newest n (xs @ ys)"
  by (cases "length xs \<le> n") (simp_all add: newest_def add.commute)

lemma newest_snoc: "0 < n \<Longrightarrow> n \<le> length xs \<Longrightarrow> newest n (xs @ [x]) = tl (newest n xs) @ [x]"
  by (simp add: newest_def tl_drop Suc_diff_le drop_Suc)

lemma length_newest [simp]: "length (newest n xs) = min n (length xs)"
  by (auto simp: newest_def)

lemma map_newest: "map f (newest n xs) = newest n (map f xs)"
  by (simp add: newest_def drop_map)

end
