(* ===== verification/Fifo_Interface.thy ===== *)
theory Fifo_Interface
  imports Prelude
begin

text \<open>
  The contract of a bounded first-in first-out buffer, the interface between the kernel's byte and
  message buffers and the code that uses them. A provider gives its state, a well-formedness
  invariant, the list it holds and its capacity; the clients' facts (a run of operations behaves
  like a list, nothing is lost, reordered or invented) are proved once here.
  \<open>ringbuffer.c\<close> and the mailbox and message queue of \<open>ipc.c\<close> interpret it.
\<close>

section \<open>Operations and their runs\<close>

datatype 'a fifo_op = Enq 'a | Deq

datatype 'a fifo_result = Accepted | Full | Got 'a | Empty

text \<open>The reference: a list of at most \<open>cap\<close> elements.\<close>

fun spec_step :: "nat \<Rightarrow> 'a list \<Rightarrow> 'a fifo_op \<Rightarrow> 'a fifo_result \<times> 'a list" where
  "spec_step cap q (Enq x) = (if length q < cap then (Accepted, q @ [x]) else (Full, q))"
| "spec_step cap [] Deq = (Empty, [])"
| "spec_step cap (x # q) Deq = (Got x, q)"

fun spec_run :: "nat \<Rightarrow> 'a list \<Rightarrow> 'a fifo_op list \<Rightarrow> 'a fifo_result list \<times> 'a list" where
  "spec_run cap q [] = ([], q)"
| "spec_run cap q (e # es) =
     (let (r, q') = spec_step cap q e; (rs, q'') = spec_run cap q' es in (r # rs, q''))"

text \<open>What a run took in and gave out, read off its operations and results.\<close>

fun accepted :: "'a fifo_op list \<Rightarrow> 'a fifo_result list \<Rightarrow> 'a list" where
  "accepted (Enq x # es) (Accepted # rs) = x # accepted es rs"
| "accepted (_ # es) (_ # rs) = accepted es rs"
| "accepted _ _ = []"

fun delivered :: "'a fifo_result list \<Rightarrow> 'a list" where
  "delivered (Got x # rs) = x # delivered rs"
| "delivered (_ # rs) = delivered rs"
| "delivered [] = []"

lemma spec_run_conserves:
  "spec_run cap q es = (rs, q') \<Longrightarrow> q @ accepted es rs = delivered rs @ q'"
proof (induction es arbitrary: q rs q')
  case Nil
  then show ?case by simp
next
  case (Cons e es)
  obtain r q1 where s: "spec_step cap q e = (r, q1)" by fastforce
  obtain rs1 q2 where t: "spec_run cap q1 es = (rs1, q2)" by fastforce
  from Cons.IH [OF t] have "q1 @ accepted es rs1 = delivered rs1 @ q2" .
  with s t Cons.prems show ?case
    by (cases e; cases q) (auto split: if_splits)
qed

lemma spec_step_bound: "length q \<le> cap \<Longrightarrow> length (snd (spec_step cap q e)) \<le> cap"
  by (cases e; cases q) auto

text \<open>A run over any implementation, given by its two operations.\<close>

fun fifo_step :: "('s \<Rightarrow> 'a \<Rightarrow> 's option) \<Rightarrow> ('s \<Rightarrow> ('a \<times> 's) option) \<Rightarrow> 's \<Rightarrow> 'a fifo_op \<Rightarrow>
    'a fifo_result \<times> 's" where
  "fifo_step enq deq s (Enq x) = (case enq s x of None \<Rightarrow> (Full, s) | Some s' \<Rightarrow> (Accepted, s'))"
| "fifo_step enq deq s Deq = (case deq s of None \<Rightarrow> (Empty, s) | Some (x, s') \<Rightarrow> (Got x, s'))"

fun fifo_run :: "('s \<Rightarrow> 'a \<Rightarrow> 's option) \<Rightarrow> ('s \<Rightarrow> ('a \<times> 's) option) \<Rightarrow> 's \<Rightarrow> 'a fifo_op list \<Rightarrow>
    'a fifo_result list \<times> 's" where
  "fifo_run enq deq s [] = ([], s)"
| "fifo_run enq deq s (e # es) =
     (let (r, s') = fifo_step enq deq s e; (rs, s'') = fifo_run enq deq s' es in (r # rs, s''))"

text \<open>Which elements the operations may be used with (a message queue takes messages of one size).\<close>

fun op_fits :: "('a \<Rightarrow> bool) \<Rightarrow> 'a fifo_op \<Rightarrow> bool" where
  "op_fits fits (Enq x) = fits x"
| "op_fits fits Deq = True"

lemma op_fits_True [simp]: "op_fits (\<lambda>_. True) e"
  by (cases e) simp_all

section \<open>The interface\<close>

locale bounded_fifo =
  fixes inv :: "'s \<Rightarrow> bool"
    and contents :: "'s \<Rightarrow> 'a list"
    and capacity :: "'s \<Rightarrow> nat"
    and enq :: "'s \<Rightarrow> 'a \<Rightarrow> 's option"
    and deq :: "'s \<Rightarrow> ('a \<times> 's) option"
    and fits :: "'a \<Rightarrow> bool"
  assumes enq_room: "inv s \<Longrightarrow> fits x \<Longrightarrow> length (contents s) < capacity s \<Longrightarrow>
      \<exists>s'. enq s x = Some s' \<and> inv s' \<and> contents s' = contents s @ [x] \<and> capacity s' = capacity s"
    and enq_full: "inv s \<Longrightarrow> fits x \<Longrightarrow> \<not> length (contents s) < capacity s \<Longrightarrow> enq s x = None"
    and deq_Cons: "inv s \<Longrightarrow> contents s = x # xs \<Longrightarrow>
      \<exists>s'. deq s = Some (x, s') \<and> inv s' \<and> contents s' = xs \<and> capacity s' = capacity s"
    and deq_Nil: "inv s \<Longrightarrow> contents s = [] \<Longrightarrow> deq s = None"
begin

lemma step_refines:
  assumes "inv s" "op_fits fits e" "fifo_step enq deq s e = (r, s')"
  shows "inv s' \<and> capacity s' = capacity s
    \<and> spec_step (capacity s) (contents s) e = (r, contents s')"
proof (cases e)
  case (Enq x)
  with assms show ?thesis
    using enq_room [OF assms(1), of x] enq_full [OF assms(1), of x]
    by (cases "length (contents s) < capacity s") auto
next
  case Deq
  with assms show ?thesis
    using deq_Cons [OF assms(1)] deq_Nil [OF assms(1)]
    by (cases "contents s") fastforce+
qed

lemma run_refines:
  assumes "inv s" "list_all (op_fits fits) es" "fifo_run enq deq s es = (rs, s')"
  shows "inv s' \<and> capacity s' = capacity s
    \<and> spec_run (capacity s) (contents s) es = (rs, contents s')"
  using assms
proof (induction es arbitrary: s rs s')
  case Nil
  then show ?case by simp
next
  case (Cons e es)
  obtain r s1 where s: "fifo_step enq deq s e = (r, s1)" by fastforce
  obtain rs1 s2 where t: "fifo_run enq deq s1 es = (rs1, s2)" by fastforce
  from step_refines [OF Cons.prems(1) _ s] Cons.prems(2) have st: "inv s1" "capacity s1 = capacity s"
    "spec_step (capacity s) (contents s) e = (r, contents s1)" by auto
  from Cons.IH [OF st(1) _ t] s t st Cons.prems show ?case by auto
qed

text \<open>A provider neither loses, invents nor reorders anything.\<close>

lemma run_conserves:
  assumes "inv s" "list_all (op_fits fits) es" "fifo_run enq deq s es = (rs, s')"
  shows "contents s @ accepted es rs = delivered rs @ contents s'"
  using run_refines [OF assms] by (auto dest: spec_run_conserves)

end

end
