(* ===== verification/Ring_Slice.thy ===== *)
theory Ring_Slice
  imports Prelude
begin

text \<open>
  Reading a cyclic array: the elements from a position on, wrapping at the end. The contents of the
  byte ring of \<open>ringbuffer.c\<close> and of the mailbox of \<open>ipc.c\<close> are such slices.
\<close>

text \<open>\<open>n\<close> elements of a cyclic array from position \<open>i\<close>.\<close>

definition ring_slice :: "'a list \<Rightarrow> nat \<Rightarrow> nat \<Rightarrow> 'a list" where
  "ring_slice b i n = map (\<lambda>k. b ! ((i + k) mod length b)) [0..<n]"

lemma mod_wrap:
  "a < n \<Longrightarrow> k \<le> n \<Longrightarrow> (a + k) mod n = (if a + k < n then a + k else a + k - n)" for n :: nat
  by (simp add: mod_if [of "a + k"])

lemma length_ring_slice [simp]: "length (ring_slice b i n) = n"
  by (simp add: ring_slice_def)

lemma ring_slice_0 [simp]: "ring_slice b i 0 = []"
  by (simp add: ring_slice_def)

lemma nth_ring_slice [simp]: "k < n \<Longrightarrow> ring_slice b i n ! k = b ! ((i + k) mod length b)"
  by (simp add: ring_slice_def)

lemma ring_slice_add: "ring_slice b i (m + n) = ring_slice b i m @ ring_slice b (i + m) n"
  by (rule nth_equalityI) (auto simp: nth_append add.assoc)

lemma ring_slice_mod [simp]: "ring_slice b (i mod length b) n = ring_slice b i n"
  by (simp add: ring_slice_def mod_add_left_eq)

lemma ring_slice_flat: "i + n \<le> length b \<Longrightarrow> ring_slice b i n = take n (drop i b)"
  by (rule nth_equalityI) auto

lemma ring_slice_take: "m \<le> n \<Longrightarrow> take m (ring_slice b i n) = ring_slice b i m"
  by (rule nth_equalityI) auto

lemma ring_slice_drop: "m \<le> n \<Longrightarrow> drop m (ring_slice b i n) = ring_slice b (i + m) (n - m)"
  by (rule nth_equalityI) (auto simp: add.assoc)

text \<open>A slice that runs over the end of the array is a piece at the end and one at the start.\<close>

lemma ring_slice_wrap:
  assumes "i \<le> length b" "length b \<le> i + n" "n \<le> length b"
  shows "ring_slice b i n = drop i b @ take (i + n - length b) b"
proof -
  have "ring_slice b i n = ring_slice b i (length b - i) @ ring_slice b (length b) (i + n - length b)"
    using ring_slice_add [of b i "length b - i" "i + n - length b"] assms by simp
  also have "ring_slice b i (length b - i) = drop i b"
    using assms by (subst ring_slice_flat) auto
  also have "ring_slice b (length b) (i + n - length b) = take (i + n - length b) b"
    using assms ring_slice_mod [of b "length b"] ring_slice_flat [of 0 "i + n - length b" b]
    by simp
  finally show ?thesis .
qed

text \<open>Writing \<open>n\<close> elements behind the occupied part appends them to the contents.\<close>

lemma ring_slice_written:
  assumes "length b' = length b" "n \<le> length xs" "(r + m) mod length b = w mod length b"
    and "\<And>j. j < n \<Longrightarrow> b' ! ((w + j) mod length b) = xs ! j"
    and "\<And>k. k < m \<Longrightarrow> b' ! ((r + k) mod length b) = b ! ((r + k) mod length b)"
  shows "ring_slice b' r (m + n) = ring_slice b r m @ take n xs"
proof -
  have a: "ring_slice b' r m = ring_slice b r m"
    by (rule nth_equalityI) (auto simp: assms)
  have "ring_slice b' (r + m) n = ring_slice b' w n"
    using ring_slice_mod [of b' "r + m" n] ring_slice_mod [of b' w n] assms(1,3) by simp
  also have "\<dots> = take n xs"
    using assms by (intro nth_equalityI) auto
  finally show ?thesis using a by (simp add: ring_slice_add)
qed

text \<open>Storing one element right behind a slice, and taking the first element off it.\<close>

lemma ring_slice_snoc:
  assumes "n < length b" "w = (i + n) mod length b"
  shows "ring_slice (b[w := x]) i (Suc n) = ring_slice b i n @ [x]"
proof -
  have l: "0 < length b" using assms(1) by linarith
  have w: "w < length b" using assms(2) l by simp
  have "(i + k) mod length b \<noteq> w" if "k < n" for k
  proof
    assume e: "(i + k) mod length b = w"
    then have "(i + n) mod length b = (i + k) mod length b" using assms(2) by simp
    moreover have "k \<le> n" "n - k < length b" "0 < n - k" using that assms(1) by simp_all
    ultimately have "length b dvd n - k"
      by (metis add_diff_cancel_left add_le_cancel_left mod_eq_dvd_iff_nat nat_add_left_cancel_le)
    then show False using \<open>n - k < length b\<close> \<open>0 < n - k\<close> by (auto dest: dvd_imp_le)
  qed
  then have ne: "w \<noteq> (i + k) mod length b" if "k < n" for k using that by metis
  have "ring_slice (b[w := x]) i (n + 1) = ring_slice b i n @ take 1 [x]"
  proof (rule ring_slice_written)
    show "(i + n) mod length b = w mod length b" using assms(2) by simp
    show "b[w := x] ! ((w + j) mod length b) = [x] ! j" if "j < 1" for j using that w by simp
    show "b[w := x] ! ((i + k) mod length b) = b ! ((i + k) mod length b)" if "k < n" for k
      using ne [OF that] by (rule nth_list_update_neq)
  qed simp_all
  then show ?thesis by simp
qed

lemma ring_slice_Cons: "ring_slice b i (Suc n) = b ! (i mod length b) # ring_slice b (Suc i) n"
  using ring_slice_add [of b i 1 n] by (simp add: ring_slice_def)

end
