(* ===== verification/RingBuffer.thy ===== *)
theory RingBuffer
  imports Fifo_Interface Ring_Slice
begin

text \<open>
  \<open>components/drivers/src/ringbuffer.c\<close> and \<open>ringbuffer.h\<close>: the byte ring with mirror bits that
  the serial driver and the pipes use. The 15-bit indices and the 1-bit mirrors are words of that
  width, the signed 16-bit size is a word read with \<open>sint\<close>, and the C \<open>int\<close> expressions
  over them are computed in \<open>int\<close> (they cannot overflow 32 bits). The pool is the list of its
  bytes; every access goes through the bounds-checked copies of the prelude, so an operation that
  returns \<open>Some\<close> stayed inside the pool and the caller's array.
\<close>

unbundle bit_operations_syntax

section \<open>State and operations\<close>

record ringbuffer =
  buffer_ptr :: "u8 list"
  read_mirror :: "1 word"
  read_index :: "15 word"
  write_mirror :: "1 word"
  write_index :: "15 word"
  buffer_size :: "16 word"

datatype rt_ringbuffer_state = RT_RINGBUFFER_EMPTY | RT_RINGBUFFER_FULL | RT_RINGBUFFER_HALFFULL

definition rt_ringbuffer_status :: "ringbuffer \<Rightarrow> rt_ringbuffer_state" where
  "rt_ringbuffer_status rb =
     (if read_index rb = write_index rb
      then (if read_mirror rb = write_mirror rb then RT_RINGBUFFER_EMPTY else RT_RINGBUFFER_FULL)
      else RT_RINGBUFFER_HALFFULL)"

text \<open>\<open>RT_ASSERT(size > 0)\<close> is the \<open>None\<close> branch; \<open>RT_ALIGN_DOWN\<close> drops the two low bits. The
  part of the pool beyond the aligned size is never used, so the model keeps the used part only.\<close>

definition rt_ringbuffer_init :: "u8 list \<Rightarrow> u16 \<Rightarrow> ringbuffer option" where
  "rt_ringbuffer_init pool sz =
     (if 0 < sint sz
      then Some \<lparr>buffer_ptr = take (unat (sz AND NOT (4 - 1))) pool, read_mirror = 0, read_index = 0, write_mirror = 0,
                 write_index = 0, buffer_size = sz AND NOT (4 - 1)\<rparr>
      else None)"

definition rt_ringbuffer_data_len :: "ringbuffer \<Rightarrow> u32" where
  "rt_ringbuffer_data_len rb =
     (case rt_ringbuffer_status rb of
        RT_RINGBUFFER_EMPTY \<Rightarrow> 0
      | RT_RINGBUFFER_FULL \<Rightarrow> word_of_int (sint (buffer_size rb))
      | RT_RINGBUFFER_HALFFULL \<Rightarrow>
          (if read_index rb < write_index rb
           then word_of_int (uint (write_index rb) - uint (read_index rb))
           else word_of_int (sint (buffer_size rb) - (uint (read_index rb) - uint (write_index rb)))))"

definition rt_ringbuffer_space_len :: "ringbuffer \<Rightarrow> u32" where
  "rt_ringbuffer_space_len rb = word_of_int (sint (buffer_size rb)) - rt_ringbuffer_data_len rb"

definition rt_ringbuffer_put :: "ringbuffer \<Rightarrow> u8 list \<Rightarrow> u16 \<Rightarrow> (u32 \<times> ringbuffer) option" where
  "rt_ringbuffer_put rb ptr length0 =
     (let sz = (ucast (rt_ringbuffer_space_len rb) :: u16) in
      if sz = 0 then Some (0, rb)
      else
        let len = (if sz < length0 then sz else length0);
            w = uint (write_index rb);
            room = sint (buffer_size rb) - w in
        if uint len < room then do {
          buf \<leftarrow> c_memcpy (buffer_ptr rb) w ptr 0 (uint len);
          Some (ucast len,
                rb\<lparr>buffer_ptr := buf, write_index := write_index rb + ucast len\<rparr>)
        } else do {
          buf1 \<leftarrow> c_memcpy (buffer_ptr rb) w ptr 0 room;
          buf2 \<leftarrow> c_memcpy buf1 0 ptr room (uint len - room);
          Some (ucast len,
                rb\<lparr>buffer_ptr := buf2, write_mirror := NOT (write_mirror rb),
                   write_index := word_of_int (uint len - room)\<rparr>)
        })"

definition rt_ringbuffer_put_force :: "ringbuffer \<Rightarrow> u8 list \<Rightarrow> u16 \<Rightarrow> (u32 \<times> ringbuffer) option" where
  "rt_ringbuffer_put_force rb ptr0 length0 =
     (let space_length = (ucast (rt_ringbuffer_space_len rb) :: u16);
          (ptr, len) =
            (if sint (buffer_size rb) < uint length0
             then (drop (nat (uint length0 - sint (buffer_size rb))) ptr0, buffer_size rb)
             else (ptr0, length0));
          w = uint (write_index rb);
          room = sint (buffer_size rb) - w in
      if uint len < room then do {
        buf \<leftarrow> c_memcpy (buffer_ptr rb) w ptr 0 (uint len);
        let rb1 = rb\<lparr>buffer_ptr := buf, write_index := write_index rb + ucast len\<rparr>;
        Some (ucast len,
              if space_length < len then rb1\<lparr>read_index := write_index rb1\<rparr> else rb1)
      } else do {
        buf1 \<leftarrow> c_memcpy (buffer_ptr rb) w ptr 0 room;
        buf2 \<leftarrow> c_memcpy buf1 0 ptr room (uint len - room);
        let rb1 = rb\<lparr>buffer_ptr := buf2, write_mirror := NOT (write_mirror rb),
                     write_index := word_of_int (uint len - room)\<rparr>;
        Some (ucast len,
              if space_length < len
              then rb1\<lparr>read_mirror := NOT (read_mirror rb1), read_index := write_index rb1\<rparr>
              else rb1)
      })"

text \<open>\<open>rt_ringbuffer_get\<close> returns the count and the bytes it stored at \<open>ptr[0]\<close> onwards.\<close>

definition rt_ringbuffer_get :: "ringbuffer \<Rightarrow> u16 \<Rightarrow> (u32 \<times> u8 list \<times> ringbuffer) option" where
  "rt_ringbuffer_get rb length0 =
     (let sz = rt_ringbuffer_data_len rb in
      if sz = 0 then Some (0, [], rb)
      else
        let len = (if sz < ucast length0 then ucast sz else length0);
            r = uint (read_index rb);
            room = sint (buffer_size rb) - r in
        if uint len < room then do {
          out \<leftarrow> c_read (buffer_ptr rb) r (uint len);
          Some (ucast len, out, rb\<lparr>read_index := read_index rb + ucast len\<rparr>)
        } else do {
          out1 \<leftarrow> c_read (buffer_ptr rb) r room;
          out2 \<leftarrow> c_read (buffer_ptr rb) 0 (uint len - room);
          Some (ucast len, out1 @ out2,
                rb\<lparr>read_mirror := NOT (read_mirror rb),
                   read_index := word_of_int (uint len - room)\<rparr>)
        })"

definition rt_ringbuffer_putchar :: "ringbuffer \<Rightarrow> u8 \<Rightarrow> (u32 \<times> ringbuffer) option" where
  "rt_ringbuffer_putchar rb ch =
     (if rt_ringbuffer_space_len rb = 0 then Some (0, rb)
      else do {
        buf \<leftarrow> store_at (buffer_ptr rb) (unat (write_index rb)) ch;
        let rb1 = rb\<lparr>buffer_ptr := buf\<rparr>;
        Some (1,
          if uint (write_index rb1) = sint (buffer_size rb1) - 1
          then rb1\<lparr>write_mirror := NOT (write_mirror rb1), write_index := 0\<rparr>
          else rb1\<lparr>write_index := write_index rb1 + 1\<rparr>)
      })"

definition rt_ringbuffer_putchar_force :: "ringbuffer \<Rightarrow> u8 \<Rightarrow> (u32 \<times> ringbuffer) option" where
  "rt_ringbuffer_putchar_force rb ch =
     (let old_state = rt_ringbuffer_status rb in do {
        buf \<leftarrow> store_at (buffer_ptr rb) (unat (write_index rb)) ch;
        let rb1 = rb\<lparr>buffer_ptr := buf\<rparr>;
        Some (1,
          if uint (write_index rb1) = sint (buffer_size rb1) - 1
          then
            (let rb2 = rb1\<lparr>write_mirror := NOT (write_mirror rb1), write_index := 0\<rparr> in
             if old_state = RT_RINGBUFFER_FULL
             then rb2\<lparr>read_mirror := NOT (read_mirror rb2), read_index := write_index rb2\<rparr>
             else rb2)
          else
            (let rb2 = rb1\<lparr>write_index := write_index rb1 + 1\<rparr> in
             if old_state = RT_RINGBUFFER_FULL
             then rb2\<lparr>read_index := write_index rb2\<rparr>
             else rb2))
      })"

definition rt_ringbuffer_getchar :: "ringbuffer \<Rightarrow> (u32 \<times> u8 list \<times> ringbuffer) option" where
  "rt_ringbuffer_getchar rb =
     (if rt_ringbuffer_data_len rb = 0 then Some (0, [], rb)
      else do {
        ch \<leftarrow> load_at (buffer_ptr rb) (unat (read_index rb));
        Some (1, [ch],
          if uint (read_index rb) = sint (buffer_size rb) - 1
          then rb\<lparr>read_mirror := NOT (read_mirror rb), read_index := 0\<rparr>
          else rb\<lparr>read_index := read_index rb + 1\<rparr>)
      })"

definition rt_ringbuffer_reset :: "ringbuffer \<Rightarrow> ringbuffer" where
  "rt_ringbuffer_reset rb = rb\<lparr>read_mirror := 0, read_index := 0, write_mirror := 0, write_index := 0\<rparr>"

section \<open>Invariant and contents\<close>

definition rb_size :: "ringbuffer \<Rightarrow> nat" where
  "rb_size rb = nat (sint (buffer_size rb))"

definition rb_used :: "ringbuffer \<Rightarrow> nat" where
  "rb_used rb =
     (if read_mirror rb = write_mirror rb then unat (write_index rb) - unat (read_index rb)
      else rb_size rb - (unat (read_index rb) - unat (write_index rb)))"

text \<open>In the same mirror the reader is at or behind the writer, across mirrors at or ahead of it.\<close>

definition rb_inv :: "ringbuffer \<Rightarrow> bool" where
  "rb_inv rb \<longleftrightarrow>
     0 < sint (buffer_size rb) \<and> length (buffer_ptr rb) = rb_size rb
     \<and> unat (read_index rb) < rb_size rb \<and> unat (write_index rb) < rb_size rb
     \<and> (if read_mirror rb = write_mirror rb then unat (read_index rb) \<le> unat (write_index rb)
        else unat (write_index rb) \<le> unat (read_index rb))"

definition rb_contents :: "ringbuffer \<Rightarrow> u8 list" where
  "rb_contents rb = ring_slice (buffer_ptr rb) (unat (read_index rb)) (rb_used rb)"

section \<open>The lengths under the invariant\<close>

lemma rb_size_int: "rb_inv rb \<Longrightarrow> sint (buffer_size rb) = int (rb_size rb)"
  by (simp add: rb_inv_def rb_size_def)

lemma rb_size_bound: "rb_size rb < 32768"
  using sint_lt [of "buffer_size rb"] by (simp add: rb_size_def)

lemma rb_size_pos: "rb_inv rb \<Longrightarrow> 0 < rb_size rb"
  by (simp add: rb_inv_def rb_size_def)

lemma rb_used_le: "rb_inv rb \<Longrightarrow> rb_used rb \<le> rb_size rb"
  by (auto simp: rb_inv_def rb_used_def split: if_splits)

text \<open>The occupied part, additively: from the reader up to the writer, or to the writer of the next
  mirror.\<close>

lemma rb_used_same:
  "rb_inv rb \<Longrightarrow> read_mirror rb = write_mirror rb \<Longrightarrow>
   unat (read_index rb) + rb_used rb = unat (write_index rb)"
  by (simp add: rb_inv_def rb_used_def)

lemma rb_used_diff:
  "rb_inv rb \<Longrightarrow> read_mirror rb \<noteq> write_mirror rb \<Longrightarrow>
   unat (read_index rb) + rb_used rb = rb_size rb + unat (write_index rb)"
  by (simp add: rb_inv_def rb_used_def)

lemma rb_inv_used:
  assumes "0 < sint (buffer_size rb)" "length (buffer_ptr rb) = rb_size rb"
    and "unat (read_index rb) < rb_size rb" "unat (write_index rb) < rb_size rb" "u \<le> rb_size rb"
    and "unat (read_index rb) + u =
      (if read_mirror rb = write_mirror rb then unat (write_index rb)
       else rb_size rb + unat (write_index rb))"
  shows "rb_inv rb \<and> rb_used rb = u"
  using assms by (auto simp: rb_inv_def rb_used_def split: if_splits)

lemma length_rb_contents [simp]: "length (rb_contents rb) = rb_used rb"
  by (simp add: rb_contents_def)

lemma rb_data_len_word:
  assumes "rb_inv rb"
  shows "rt_ringbuffer_data_len rb = of_nat (rb_used rb)"
proof -
  have u: "uint (read_index rb) = int (unat (read_index rb))"
    "uint (write_index rb) = int (unat (write_index rb))" by simp_all
  have bounds: "unat (read_index rb) < rb_size rb" "unat (write_index rb) < rb_size rb"
    using assms by (auto simp: rb_inv_def)
  show ?thesis
  proof (cases "read_index rb = write_index rb")
    case True
    then show ?thesis
      by (simp add: rt_ringbuffer_data_len_def rt_ringbuffer_status_def rb_used_def
          rb_size_int [OF assms])
  next
    case False
    then have ne: "unat (read_index rb) \<noteq> unat (write_index rb)" by (simp add: word_eq_unat)
    show ?thesis
    proof (cases "read_mirror rb = write_mirror rb")
      case True
      with assms ne have lt: "unat (read_index rb) < unat (write_index rb)"
        by (auto simp: rb_inv_def)
      then have "uint (write_index rb) - uint (read_index rb) = int (rb_used rb)"
        using True unfolding u by (simp add: rb_used_def of_nat_diff)
      with lt False show ?thesis
        by (simp add: rt_ringbuffer_data_len_def rt_ringbuffer_status_def word_less_nat_alt
            del: uint_nat)
    next
      case diff: False
      with assms ne have lt: "unat (write_index rb) < unat (read_index rb)"
        by (auto simp: rb_inv_def)
      then have "sint (buffer_size rb) - (uint (read_index rb) - uint (write_index rb))
          = int (rb_used rb)"
        using diff bounds unfolding u rb_size_int [OF assms] by (simp add: rb_used_def of_nat_diff)
      with lt False show ?thesis
        by (simp add: rt_ringbuffer_data_len_def rt_ringbuffer_status_def word_less_nat_alt
            del: uint_nat)
    qed
  qed
qed

lemma rb_data_len [word_simps]:
  assumes "rb_inv rb"
  shows "unat (rt_ringbuffer_data_len rb) = rb_used rb"
  using rb_used_le [OF assms] rb_size_bound [of rb]
  by (simp add: rb_data_len_word [OF assms] unat_word_of_nat)

lemma rb_space_len [word_simps]:
  assumes "rb_inv rb"
  shows "unat (rt_ringbuffer_space_len rb) = rb_size rb - rb_used rb"
proof -
  have "rt_ringbuffer_space_len rb = of_nat (rb_size rb - rb_used rb)"
    using rb_used_le [OF assms]
    by (simp only: rt_ringbuffer_space_len_def rb_size_int [OF assms] rb_data_len_word [OF assms])
      (simp add: of_nat_diff)
  then show ?thesis
    using rb_size_bound [of rb] by (simp add: unat_word_of_nat)
qed

lemma bit1_cases: "(m :: 1 word) = 0 \<or> m = 1"
proof -
  have "unat m < 2 ^ LENGTH(1)" by (rule unsigned_less)
  then show ?thesis by (auto simp: word_eq_unat)
qed

lemma bit1_not: "NOT (0 :: 1 word) = 1" "NOT (1 :: 1 word) = 0"
proof -
  show *: "NOT (0 :: 1 word) = 1"
    using bit1_cases [of "NOT 0"] by auto
  show "NOT (1 :: 1 word) = 0"
    unfolding * [symmetric] by simp
qed

lemma bit1_not_neq [simp]: "(m :: 1 word) \<noteq> NOT m" "NOT m \<noteq> m"
  using bit1_cases [of m] by (auto simp: bit1_not)

lemma bit1_not_eq: "m \<noteq> n \<Longrightarrow> NOT m = n" for m n :: "1 word"
  using bit1_cases [of m] bit1_cases [of n] by (auto simp: bit1_not)

section \<open>Storing a block\<close>

lemma rb_write_flat:
  assumes inv: "rb_inv rb" and n: "rb_used rb + n \<le> rb_size rb" "n \<le> length ptr"
    and flat: "unat (write_index rb) + n < rb_size rb"
  defines "rb' \<equiv> rb\<lparr>buffer_ptr := splice (buffer_ptr rb) (unat (write_index rb)) ptr 0 n,
      write_index := write_index rb + of_nat n\<rparr>"
  shows "rb_inv rb' \<and> rb_used rb' = rb_used rb + n \<and> rb_contents rb' = rb_contents rb @ take n ptr"
proof -
  let ?b = "buffer_ptr rb" and ?R = "unat (read_index rb)" and ?S = "rb_size rb"
  define W where "W = unat (write_index rb)"
  have S: "0 < sint (buffer_size rb)" "length ?b = ?S" "?R < ?S" "W < ?S"
    using inv by (auto simp: rb_inv_def W_def)
  have w': "unat (write_index rb') = W + n"
    using flat rb_size_bound [of rb] by (simp add: rb'_def W_def unat_word_ariths unat_of_nat)
  have f: "rb_size rb' = ?S" "read_index rb' = read_index rb" "read_mirror rb' = read_mirror rb"
    "write_mirror rb' = write_mirror rb" "buffer_size rb' = buffer_size rb"
    by (simp_all add: rb'_def rb_size_def)
  have nth: "buffer_ptr rb' ! k = (if k < W then ?b ! k else if k < W + n then ptr ! (k - W) else ?b ! k)"
    if "k < ?S" for k
    using nth_splice [of W n ?b 0 ptr k] that S(2) n(2) flat by (simp add: rb'_def W_def)
  have len: "length (buffer_ptr rb') = ?S" using S(2) n(2) flat by (simp add: rb'_def)
  have eq: "?R + rb_used rb = (if read_mirror rb = write_mirror rb then W else ?S + W)"
    using rb_used_same [OF inv] rb_used_diff [OF inv] by (simp add: W_def)
  have inv': "rb_inv rb' \<and> rb_used rb' = rb_used rb + n"
    using S(1,3) eq n(1) w' flat by (intro rb_inv_used) (auto simp: f len W_def)
  have "ring_slice (buffer_ptr rb') ?R (rb_used rb + n) = ring_slice ?b ?R (rb_used rb) @ take n ptr"
  proof (rule ring_slice_written)
    show "(?R + rb_used rb) mod length ?b = W mod length ?b" using eq S(2) by simp
  next
    fix j assume "j < n"
    with flat S(2) show "buffer_ptr rb' ! ((W + j) mod length ?b) = ptr ! j"
      by (simp add: nth W_def)
  next
    fix k assume k: "k < rb_used rb"
    have "k \<le> ?S" using k n(1) by simp
    have "(?R + k) mod ?S < W \<or> W + n \<le> (?R + k) mod ?S"
      using k n(1) eq unfolding mod_wrap [OF S(3) \<open>k \<le> ?S\<close>] by (auto split: if_splits)
    moreover have "(?R + k) mod ?S < ?S" using S(3) by simp
    ultimately show "buffer_ptr rb' ! ((?R + k) mod length ?b) = ?b ! ((?R + k) mod length ?b)"
      using S(2) by (auto simp: nth)
  qed (use S(2) n(2) len in simp_all)
  then show ?thesis
    using inv' by (simp add: rb_contents_def f)
qed

lemma rb_write_wrap:
  assumes inv: "rb_inv rb" and n: "rb_used rb + (room + e) \<le> rb_size rb" "room + e \<le> length ptr"
    and room: "unat (write_index rb) + room = rb_size rb"
  defines "rb' \<equiv> rb\<lparr>buffer_ptr :=
        splice (splice (buffer_ptr rb) (unat (write_index rb)) ptr 0 room) 0 ptr room e,
      write_mirror := NOT (write_mirror rb), write_index := of_nat e\<rparr>"
  shows "rb_inv rb' \<and> rb_used rb' = rb_used rb + (room + e)
    \<and> rb_contents rb' = rb_contents rb @ take (room + e) ptr"
proof -
  let ?b = "buffer_ptr rb" and ?R = "unat (read_index rb)" and ?S = "rb_size rb"
  define W where "W = unat (write_index rb)"
  have S: "0 < sint (buffer_size rb)" "length ?b = ?S" "?R < ?S" "W < ?S"
    using inv by (auto simp: rb_inv_def W_def)
  have same: "read_mirror rb = write_mirror rb"
    using rb_used_diff [OF inv] n(1) room S(3) by fastforce
  have eq: "?R + rb_used rb = W" using rb_used_same [OF inv same] by (simp add: W_def)
  have WS: "W + room = ?S" using room by (simp add: W_def)
  have le: "e \<le> ?R" using n(1) eq WS by linarith
  have w': "unat (write_index rb') = e"
    using le S(3) rb_size_bound [of rb] by (simp add: rb'_def unat_of_nat)
  have f: "rb_size rb' = ?S" "read_index rb' = read_index rb" "read_mirror rb' \<noteq> write_mirror rb'"
    "buffer_size rb' = buffer_size rb"
    using same by (simp_all add: rb'_def rb_size_def)
  have len: "length (buffer_ptr rb') = ?S"
    using S(2) n(2) le S(3) WS by (simp add: rb'_def W_def)
  have inv': "rb_inv rb' \<and> rb_used rb' = rb_used rb + (room + e)"
    using S(1,3) f(3) le n(1) eq WS by (intro rb_inv_used) (simp_all add: f(1,2,4) len w')
  have nth: "buffer_ptr rb' ! k = (if k < e then ptr ! (room + k) else if k < W then ?b ! k
      else ptr ! (k - W))" if k: "k < ?S" for k
  proof -
    have b1: "length (splice ?b W ptr 0 room) = ?S" using S(2) n(2) WS by simp
    have "splice ?b W ptr 0 room ! k = (if k < W then ?b ! k else ptr ! (k - W))"
      using nth_splice [of W room ?b 0 ptr k] S(2) n(2) WS k by simp
    with nth_splice [of 0 e "splice ?b W ptr 0 room" room ptr k] b1 n(2) k le S(3)
    show ?thesis by (simp add: rb'_def W_def)
  qed
  have "ring_slice (buffer_ptr rb') ?R (rb_used rb + (room + e))
      = ring_slice ?b ?R (rb_used rb) @ take (room + e) ptr"
  proof (rule ring_slice_written)
    show "(?R + rb_used rb) mod length ?b = W mod length ?b" using eq S(2) by simp
  next
    fix j assume j: "j < room + e"
    show "buffer_ptr rb' ! ((W + j) mod length ?b) = ptr ! j"
    proof (cases "j < room")
      case True
      with WS have "W + j < ?S" by linarith
      with True le eq S(2) show ?thesis by (simp add: nth)
    next
      case False
      then obtain i where i: "j = room + i" "i < e" using j by (metis less_diff_conv2 le_add_diff_inverse not_less add.commute)
      have "(W + j) mod ?S = i mod ?S" unfolding i(1) add.assoc [symmetric] WS by simp
      with i le S(2,3) show ?thesis by (simp add: nth)
    qed
  next
    fix k assume "k < rb_used rb"
    then have "?R + k < W" "e \<le> ?R + k" using eq le by auto
    with S(2,4) show "buffer_ptr rb' ! ((?R + k) mod length ?b) = ?b ! ((?R + k) mod length ?b)"
      by (simp add: nth)
  qed (use S(2) n(2) len in simp_all)
  then show ?thesis
    using inv' by (simp add: rb_contents_def f)
qed

section \<open>Taking a block\<close>

lemma rb_read_flat:
  assumes inv: "rb_inv rb" and n: "n \<le> rb_used rb"
    and flat: "unat (read_index rb) + n < rb_size rb"
  defines "rb' \<equiv> rb\<lparr>read_index := read_index rb + of_nat n\<rparr>"
  shows "rb_inv rb' \<and> rb_used rb' = rb_used rb - n \<and> rb_contents rb' = drop n (rb_contents rb)
    \<and> take n (drop (unat (read_index rb)) (buffer_ptr rb)) = take n (rb_contents rb)"
proof -
  let ?b = "buffer_ptr rb" and ?S = "rb_size rb"
  define R where "R = unat (read_index rb)"
  have S: "0 < sint (buffer_size rb)" "length ?b = ?S" "R < ?S" "unat (write_index rb) < ?S"
    using inv by (auto simp: rb_inv_def R_def)
  have r': "unat (read_index rb') = R + n"
    using flat rb_size_bound [of rb] by (simp add: rb'_def R_def unat_word_ariths unat_of_nat)
  have f: "rb_size rb' = ?S" "write_index rb' = write_index rb" "read_mirror rb' = read_mirror rb"
    "write_mirror rb' = write_mirror rb" "buffer_size rb' = buffer_size rb" "buffer_ptr rb' = ?b"
    by (simp_all add: rb'_def rb_size_def)
  have eq: "R + rb_used rb = (if read_mirror rb = write_mirror rb then unat (write_index rb)
      else ?S + unat (write_index rb))"
    using rb_used_same [OF inv] rb_used_diff [OF inv] by (simp add: R_def)
  have inv': "rb_inv rb' \<and> rb_used rb' = rb_used rb - n"
    using S eq n flat rb_used_le [OF inv] by (intro rb_inv_used) (simp_all add: f r' R_def)
  then have "rb_contents rb' = drop n (rb_contents rb)"
    using n by (simp add: rb_contents_def r' f ring_slice_drop R_def)
  moreover have "take n (drop R ?b) = take n (rb_contents rb)"
    using n flat S(2) by (simp add: rb_contents_def ring_slice_take ring_slice_flat R_def)
  ultimately show ?thesis using inv' by (simp add: R_def)
qed

lemma rb_read_wrap:
  assumes inv: "rb_inv rb" and n: "room + e \<le> rb_used rb"
    and room: "unat (read_index rb) + room = rb_size rb"
  defines "rb' \<equiv> rb\<lparr>read_mirror := NOT (read_mirror rb), read_index := of_nat e\<rparr>"
  shows "rb_inv rb' \<and> rb_used rb' = rb_used rb - (room + e)
    \<and> rb_contents rb' = drop (room + e) (rb_contents rb)
    \<and> take room (drop (unat (read_index rb)) (buffer_ptr rb)) @ take e (buffer_ptr rb)
      = take (room + e) (rb_contents rb)"
proof -
  let ?b = "buffer_ptr rb" and ?S = "rb_size rb" and ?W = "unat (write_index rb)"
  define R where "R = unat (read_index rb)"
  have S: "0 < sint (buffer_size rb)" "length ?b = ?S" "R < ?S" "?W < ?S"
    using inv by (auto simp: rb_inv_def R_def)
  have RS: "R + room = ?S" using room by (simp add: R_def)
  have diff: "read_mirror rb \<noteq> write_mirror rb"
    using rb_used_same [OF inv] n room S(4) by fastforce
  have eq: "R + rb_used rb = ?S + ?W" using rb_used_diff [OF inv diff] by (simp add: R_def)
  have le: "e \<le> ?W" using n eq RS by linarith
  have r': "unat (read_index rb') = e"
    using le S(4) rb_size_bound [of rb] by (simp add: rb'_def unat_of_nat)
  have f: "rb_size rb' = ?S" "write_index rb' = write_index rb" "read_mirror rb' = write_mirror rb'"
    "buffer_size rb' = buffer_size rb" "buffer_ptr rb' = ?b"
    using bit1_not_eq [OF diff] by (simp_all add: rb'_def rb_size_def)
  have "e + (rb_used rb - (room + e)) = ?W" using n eq RS by linarith
  then have inv': "rb_inv rb' \<and> rb_used rb' = rb_used rb - (room + e)"
    using S le rb_used_le [OF inv] by (intro rb_inv_used) (simp_all add: f r')
  have "(R + (room + e)) mod length ?b = e mod length ?b"
    unfolding add.assoc [symmetric] RS S(2) by simp
  then have "ring_slice ?b (R + (room + e)) m = ring_slice ?b e m" for m
    using ring_slice_mod [of ?b "R + (room + e)" m] ring_slice_mod [of ?b e m] by simp
  then have "rb_contents rb' = drop (room + e) (rb_contents rb)"
    using n inv' by (simp add: rb_contents_def r' f ring_slice_drop R_def add.assoc)
  moreover have "take room (drop R ?b) @ take e ?b = take (room + e) (rb_contents rb)"
  proof -
    have "ring_slice ?b R (room + e) = drop R ?b @ take e ?b"
      using ring_slice_wrap [of R ?b "room + e"] RS S(2,3) n rb_used_le [OF inv]
      by (simp flip: add.assoc)
    then show ?thesis
      using n S(2) RS by (simp add: rb_contents_def ring_slice_take R_def)
  qed
  ultimately show ?thesis using inv' by (simp add: R_def)
qed

section \<open>Functional correctness of the operations\<close>

text \<open>\<open>rt_ringbuffer_put\<close> appends as much of the block as fits and reports how much that was.\<close>

lemma rb_put_spec:
  assumes inv: "rb_inv rb" and ptr: "unat n \<le> length ptr"
  defines "m \<equiv> min (unat n) (rb_size rb - rb_used rb)"
  shows "\<exists>rb'. rt_ringbuffer_put rb ptr n = Some (of_nat m, rb') \<and> rb_inv rb'
    \<and> rb_contents rb' = rb_contents rb @ take m ptr \<and> rb_size rb' = rb_size rb"
proof -
  let ?sz = "ucast (rt_ringbuffer_space_len rb) :: u16"
  define len where "len = (if ?sz < n then ?sz else n)"
  have sz: "unat ?sz = rb_size rb - rb_used rb"
    using rb_size_bound [of rb] rb_space_len [OF inv] by (simp add: unat_ucast)
  have len: "unat len = m"
    using sz by (simp add: len_def m_def word_less_nat_alt min_def)
  have m: "rb_used rb + m \<le> rb_size rb" "m \<le> length ptr"
    using ptr rb_used_le [OF inv] by (auto simp: m_def)
  have uw: "uint (write_index rb) = int (unat (write_index rb))" "uint len = int m"
    by (simp_all flip: len)
  have W: "unat (write_index rb) < rb_size rb" "length (buffer_ptr rb) = rb_size rb"
    using inv by (auto simp: rb_inv_def)
  show ?thesis
  proof (cases "?sz = 0")
    case True
    with sz have "m = 0" by (simp add: m_def)
    with True inv show ?thesis by (simp add: rt_ringbuffer_put_def Let_def)
  next
    case False
    note put = rt_ringbuffer_put_def [of rb ptr n, unfolded Let_def if_not_P [OF False],
        folded len_def, unfolded uw rb_size_int [OF inv]]
    show ?thesis
    proof (cases "unat (write_index rb) + m < rb_size rb")
      case True
      have "rt_ringbuffer_put rb ptr n = Some (of_nat m,
          rb\<lparr>buffer_ptr := splice (buffer_ptr rb) (unat (write_index rb)) ptr 0 m,
             write_index := write_index rb + of_nat m\<rparr>)"
        unfolding put using True W m
        by (simp add: mem_simps ucast_of_nat len of_nat_diff del: of_nat_unat)
      with rb_write_flat [OF inv m True] show ?thesis by (simp add: rb_size_def)
    next
      case wrap: False
      let ?room = "rb_size rb - unat (write_index rb)"
      have e: "?room + (m - ?room) = m" "unat (write_index rb) + ?room = rb_size rb"
        using W wrap by simp_all
      have r: "int (rb_size rb) - int (unat (write_index rb)) = int ?room"
        "int m - int ?room = int (m - ?room)" "\<not> int m < int ?room"
        using W wrap by (simp_all add: of_nat_diff del: of_nat_unat)
      have "rt_ringbuffer_put rb ptr n = Some (of_nat m,
          rb\<lparr>buffer_ptr := splice (splice (buffer_ptr rb) (unat (write_index rb)) ptr 0 ?room) 0
              ptr ?room (m - ?room),
             write_mirror := NOT (write_mirror rb), write_index := of_nat (m - ?room)\<rparr>)"
        unfolding put r using wrap W m
        by (simp add: mem_simps ucast_of_nat len nat_diff_distrib del: of_nat_unat of_nat_diff)
      with rb_write_wrap [of rb ?room "m - ?room" ptr, unfolded e] inv m show ?thesis
        by (simp add: rb_size_def)
    qed
  qed
qed

text \<open>\<open>rt_ringbuffer_get\<close> hands out the oldest bytes, as many as asked for and present.\<close>

lemma rb_get_spec:
  fixes n :: u16
  assumes inv: "rb_inv rb"
  defines "m \<equiv> min (unat n) (rb_used rb)"
  shows "\<exists>rb'. rt_ringbuffer_get rb n = Some (of_nat m, take m (rb_contents rb), rb') \<and> rb_inv rb'
    \<and> rb_contents rb' = drop m (rb_contents rb) \<and> rb_size rb' = rb_size rb"
proof -
  let ?sz = "rt_ringbuffer_data_len rb"
  define len where "len = (if ?sz < ucast n then ucast ?sz else n)"
  have sz: "unat ?sz = rb_used rb" by (rule rb_data_len [OF inv])
  have used: "rb_used rb < 32768" using rb_used_le [OF inv] rb_size_bound [of rb] by simp
  have un: "unat (ucast n :: u32) = unat n"
    using unat_u16 [of n] by (simp add: unat_ucast)
  have len: "unat len = m"
    using sz used un by (simp add: len_def m_def word_less_nat_alt min_def unat_ucast)
  have m: "m \<le> rb_used rb" by (simp add: m_def)
  have ur: "uint (read_index rb) = int (unat (read_index rb))" "uint len = int m"
    by (simp_all flip: len)
  have R: "unat (read_index rb) < rb_size rb" "length (buffer_ptr rb) = rb_size rb"
    using inv by (auto simp: rb_inv_def)
  show ?thesis
  proof (cases "?sz = 0")
    case True
    with sz have "m = 0" by (simp add: m_def)
    with True inv show ?thesis by (simp add: rt_ringbuffer_get_def Let_def)
  next
    case False
    note get = rt_ringbuffer_get_def [of rb n, unfolded Let_def if_not_P [OF False],
        folded len_def, unfolded ur rb_size_int [OF inv]]
    show ?thesis
    proof (cases "unat (read_index rb) + m < rb_size rb")
      case True
      have "rt_ringbuffer_get rb n = Some (of_nat m,
          take m (drop (unat (read_index rb)) (buffer_ptr rb)),
          rb\<lparr>read_index := read_index rb + of_nat m\<rparr>)"
        unfolding get using True R m
        by (simp add: mem_simps ucast_of_nat len of_nat_diff nat_add_distrib del: of_nat_unat)
      with rb_read_flat [OF inv m True] show ?thesis by (simp add: rb_size_def)
    next
      case wrap: False
      let ?room = "rb_size rb - unat (read_index rb)"
      have e: "?room + (m - ?room) = m" "unat (read_index rb) + ?room = rb_size rb"
        using R wrap by simp_all
      have r: "int (rb_size rb) - int (unat (read_index rb)) = int ?room"
        "int m - int ?room = int (m - ?room)" "\<not> int m < int ?room"
        using R wrap by (simp_all add: of_nat_diff del: of_nat_unat)
      have b: "m - ?room \<le> rb_size rb"
        using m rb_used_le [OF inv] by linarith
      have "rt_ringbuffer_get rb n = Some (of_nat m,
          take ?room (drop (unat (read_index rb)) (buffer_ptr rb)) @ take (m - ?room) (buffer_ptr rb),
          rb\<lparr>read_mirror := NOT (read_mirror rb), read_index := of_nat (m - ?room)\<rparr>)"
        unfolding get r using r(3) R e(2) b
        by (simp add: mem_simps ucast_of_nat len nat_add_distrib del: of_nat_unat of_nat_diff)
      with rb_read_wrap [of rb ?room "m - ?room", unfolded e] inv m show ?thesis
        by (simp add: rb_size_def)
    qed
  qed
qed

text \<open>The one-byte routines, written out separately in the C code, do what the block routines do
  for one byte.\<close>

lemma rb_putchar_eq_put:
  assumes inv: "rb_inv rb"
  shows "rt_ringbuffer_putchar rb ch = rt_ringbuffer_put rb [ch] 1"
proof -
  let ?sp = "rt_ringbuffer_space_len rb"
  have W: "unat (write_index rb) < rb_size rb" "length (buffer_ptr rb) = rb_size rb"
    using inv by (auto simp: rb_inv_def)
  have sp: "unat ?sp < 65536" using rb_space_len [OF inv] rb_size_bound [of rb] by simp
  then have z: "(ucast ?sp :: u16) = 0 \<longleftrightarrow> ?sp = 0"
    by (simp add: word_eq_unat unat_ucast)
  have nl: "\<not> (ucast ?sp :: u16) < 1" if "?sp \<noteq> 0"
    using that z by (metis word_less_1)
  have one: "splice b i [ch] 0 1 = b[i := ch]" if "i < length b" for b :: "u8 list" and i
    using that by (simp add: splice_def upd_conv_take_nth_drop)
  show ?thesis
  proof (cases "?sp = 0")
    case True
    then show ?thesis by (simp add: rt_ringbuffer_putchar_def rt_ringbuffer_put_def)
  next
    case False
    have w: "uint (write_index rb) = int (unat (write_index rb))" by simp
    show ?thesis
    proof (cases "unat (write_index rb) + 1 < rb_size rb")
      case True
      then have b: "1 < int (rb_size rb) - int (unat (write_index rb))" by linarith
      have "rt_ringbuffer_put rb [ch] 1 = Some (1,
          rb\<lparr>buffer_ptr := (buffer_ptr rb)[unat (write_index rb) := ch],
             write_index := write_index rb + 1\<rparr>)"
        unfolding rt_ringbuffer_put_def Let_def w rb_size_int [OF inv]
        using False nl z W one b by (simp add: mem_simps del: of_nat_unat)
      moreover have "rt_ringbuffer_putchar rb ch = Some (1,
          rb\<lparr>buffer_ptr := (buffer_ptr rb)[unat (write_index rb) := ch],
             write_index := write_index rb + 1\<rparr>)"
        unfolding rt_ringbuffer_putchar_def Let_def
        using False W b w by (simp add: mem_simps rb_size_int [OF inv] del: of_nat_unat)
      ultimately show ?thesis by simp
    next
      case last: False
      with W have eq: "unat (write_index rb) + 1 = rb_size rb" by simp
      have b: "int (rb_size rb) - int (unat (write_index rb)) = 1"
        unfolding eq [symmetric] by simp
      have n0: "splice b 0 [ch] 1 0 = b" for b :: "u8 list" by (simp add: splice_def)
      have "rt_ringbuffer_put rb [ch] 1 = Some (1,
          rb\<lparr>buffer_ptr := (buffer_ptr rb)[unat (write_index rb) := ch],
             write_mirror := NOT (write_mirror rb), write_index := 0\<rparr>)"
        unfolding rt_ringbuffer_put_def Let_def w rb_size_int [OF inv] b
        using False nl z W one n0 eq by (simp add: mem_simps del: of_nat_unat)
      moreover have "rt_ringbuffer_putchar rb ch = Some (1,
          rb\<lparr>buffer_ptr := (buffer_ptr rb)[unat (write_index rb) := ch],
             write_mirror := NOT (write_mirror rb), write_index := 0\<rparr>)"
        unfolding rt_ringbuffer_putchar_def Let_def
        using False W b w by (simp add: mem_simps rb_size_int [OF inv] del: of_nat_unat)
      ultimately show ?thesis by simp
    qed
  qed
qed

lemma rb_getchar_eq_get:
  assumes inv: "rb_inv rb"
  shows "rt_ringbuffer_getchar rb = rt_ringbuffer_get rb 1"
proof -
  let ?dl = "rt_ringbuffer_data_len rb"
  have R: "unat (read_index rb) < rb_size rb" "length (buffer_ptr rb) = rb_size rb"
    using inv by (auto simp: rb_inv_def)
  have r: "uint (read_index rb) = int (unat (read_index rb))" by simp
  have one: "take 1 (drop i b) = [b ! i]" if "i < length b" for b :: "u8 list" and i
    using that by (simp add: take_Suc_conv_app_nth take_Suc hd_drop_conv_nth)
  show ?thesis
  proof (cases "?dl = 0")
    case True
    then show ?thesis by (simp add: rt_ringbuffer_getchar_def rt_ringbuffer_get_def)
  next
    case False
    then have nl: "\<not> ?dl < ucast (1 :: u16)" by (simp add: word_less_1)
    show ?thesis
    proof (cases "unat (read_index rb) + 1 < rb_size rb")
      case True
      then have b: "1 < int (rb_size rb) - int (unat (read_index rb))" by linarith
      have "rt_ringbuffer_get rb 1 = Some (1, [buffer_ptr rb ! unat (read_index rb)],
          rb\<lparr>read_index := read_index rb + 1\<rparr>)"
        unfolding rt_ringbuffer_get_def Let_def r rb_size_int [OF inv]
        using False nl R one b by (simp add: mem_simps nat_add_distrib del: of_nat_unat)
      moreover have "rt_ringbuffer_getchar rb = Some (1, [buffer_ptr rb ! unat (read_index rb)],
          rb\<lparr>read_index := read_index rb + 1\<rparr>)"
        unfolding rt_ringbuffer_getchar_def Let_def
        using False R b r by (simp add: mem_simps rb_size_int [OF inv] del: of_nat_unat)
      ultimately show ?thesis by simp
    next
      case last: False
      with R have eq: "unat (read_index rb) + 1 = rb_size rb" by simp
      have b: "int (rb_size rb) - int (unat (read_index rb)) = 1"
        unfolding eq [symmetric] by simp
      have "rt_ringbuffer_get rb 1 = Some (1, [buffer_ptr rb ! unat (read_index rb)],
          rb\<lparr>read_mirror := NOT (read_mirror rb), read_index := 0\<rparr>)"
        unfolding rt_ringbuffer_get_def Let_def r rb_size_int [OF inv] b
        using False nl R one by (simp add: mem_simps nat_add_distrib del: of_nat_unat)
      moreover have "rt_ringbuffer_getchar rb = Some (1, [buffer_ptr rb ! unat (read_index rb)],
          rb\<lparr>read_mirror := NOT (read_mirror rb), read_index := 0\<rparr>)"
        unfolding rt_ringbuffer_getchar_def Let_def
        using False R b r by (simp add: mem_simps rb_size_int [OF inv] del: of_nat_unat)
      ultimately show ?thesis by simp
    qed
  qed
qed

section \<open>The byte ring is a bounded FIFO\<close>

text \<open>The two calls as a client sees them: a count of 0 is a refusal.\<close>

definition rb_enq :: "ringbuffer \<Rightarrow> u8 \<Rightarrow> ringbuffer option" where
  "rb_enq rb ch = (case rt_ringbuffer_putchar rb ch of
     Some (c, rb') \<Rightarrow> if c = 0 then None else Some rb' | None \<Rightarrow> None)"

definition rb_deq :: "ringbuffer \<Rightarrow> (u8 \<times> ringbuffer) option" where
  "rb_deq rb = (case rt_ringbuffer_getchar rb of
     Some (c, ch # _, rb') \<Rightarrow> if c = 0 then None else Some (ch, rb') | _ \<Rightarrow> None)"

lemma rb_enq_cases:
  assumes inv: "rb_inv rb"
  shows "rb_used rb < rb_size rb \<Longrightarrow> \<exists>rb'. rb_enq rb ch = Some rb' \<and> rb_inv rb'
      \<and> rb_contents rb' = rb_contents rb @ [ch] \<and> rb_size rb' = rb_size rb"
    and "\<not> rb_used rb < rb_size rb \<Longrightarrow> rb_enq rb ch = None"
  using rb_put_spec [OF inv, of 1 "[ch]"]
  by (auto simp: rb_enq_def rb_putchar_eq_put [OF inv] min_def)

lemma rb_deq_cases:
  assumes inv: "rb_inv rb"
  shows "rb_contents rb = x # xs \<Longrightarrow> \<exists>rb'. rb_deq rb = Some (x, rb') \<and> rb_inv rb'
      \<and> rb_contents rb' = xs \<and> rb_size rb' = rb_size rb"
    and "rb_contents rb = [] \<Longrightarrow> rb_deq rb = None"
proof -
  have l: "length (rb_contents rb) = rb_used rb" by simp
  note g = rb_get_spec [OF inv, of 1, folded l]
  show "\<exists>rb'. rb_deq rb = Some (x, rb') \<and> rb_inv rb' \<and> rb_contents rb' = xs
      \<and> rb_size rb' = rb_size rb" if "rb_contents rb = x # xs"
    using g unfolding that by (auto simp: rb_deq_def rb_getchar_eq_get [OF inv])
  show "rb_deq rb = None" if "rb_contents rb = []"
    using g unfolding that by (auto simp: rb_deq_def rb_getchar_eq_get [OF inv])
qed

interpretation rbq: bounded_fifo rb_inv rb_contents rb_size rb_enq rb_deq "\<lambda>_. True"
  by unfold_locales (auto dest: rb_enq_cases rb_deq_cases)

section \<open>Initialisation, reset and the overwriting variants\<close>

lemma rb_init_spec:
  assumes "4 \<le> sint n" "nat (sint n) \<le> length pool"
  shows "\<exists>rb. rt_ringbuffer_init pool n = Some rb \<and> rb_inv rb \<and> rb_contents rb = []
    \<and> rb_size rb = nat (sint n) div 4 * 4"
proof -
  have n: "sint n = int (unat n)" using assms(1) by (intro sint_of_nonneg) simp
  have "unat n < 32768" using sint_lt [of n] n by (simp del: of_nat_unat)
  have m: "(4 - 1 :: u16) = mask 2" by (simp add: mask_eq_exp_minus_1)
  have u: "unat (n AND NOT (4 - 1)) = unat n div 4 * 4"
    unfolding m unat_and_not_mask by simp
  have s: "sint (n AND NOT (4 - 1)) = int (unat n div 4 * 4)"
    unfolding u [symmetric] using \<open>unat n < 32768\<close> by (intro sint_of_small) (simp only: u, simp)
  have "4 \<le> unat n" using assms(1) n by linarith
  then have q: "0 < unat n div 4" by (simp add: div_greater_zero_iff)
  define rb where "rb = \<lparr>buffer_ptr = take (unat (n AND NOT (4 - 1))) pool, read_mirror = 0,
    read_index = 0, write_mirror = 0, write_index = 0, buffer_size = n AND NOT (4 - 1)\<rparr>"
  have sz: "rb_size rb = unat n div 4 * 4"
    unfolding rb_size_def rb_def ringbuffer.simps s by simp
  have "length (buffer_ptr rb) = unat n div 4 * 4"
    using assms(2) n unfolding rb_def ringbuffer.simps u by simp
  then have "rb_inv rb \<and> rb_contents rb = []"
    using q sz s by (simp add: rb_inv_def rb_contents_def rb_used_def rb_def del: of_nat_mult)
  then show ?thesis
    using assms(1) sz n by (simp add: rt_ringbuffer_init_def rb_def)
qed

lemma rb_reset_spec:
  "rb_inv rb \<Longrightarrow> rb_inv (rt_ringbuffer_reset rb) \<and> rb_contents (rt_ringbuffer_reset rb) = []
    \<and> rb_size (rt_ringbuffer_reset rb) = rb_size rb"
  by (auto simp: rb_inv_def rt_ringbuffer_reset_def rb_contents_def rb_used_def rb_size_def)

text \<open>A full ring has its indices equal and its mirrors different.\<close>

lemma rb_full_iff:
  assumes "rb_inv rb"
  shows "rb_used rb = rb_size rb \<longleftrightarrow>
    read_index rb = write_index rb \<and> read_mirror rb \<noteq> write_mirror rb"
  using assms by (auto simp: rb_inv_def rb_used_def word_eq_unat split: if_splits)

lemma rb_empty_iff:
  assumes "rb_inv rb"
  shows "rb_used rb = 0 \<longleftrightarrow> read_index rb = write_index rb \<and> read_mirror rb = write_mirror rb"
  using assms by (auto simp: rb_inv_def rb_used_def word_eq_unat split: if_splits)

text \<open>Discarding the oldest \<open>d\<close> bytes, as a state: what the overwriting variants ought to do
  before they store.\<close>

lemma rb_discard:
  assumes inv: "rb_inv rb" and d: "d \<le> rb_used rb"
  shows "\<exists>ri rm. rb_inv (rb\<lparr>read_index := ri, read_mirror := rm\<rparr>)
    \<and> rb_used (rb\<lparr>read_index := ri, read_mirror := rm\<rparr>) = rb_used rb - d
    \<and> rb_contents (rb\<lparr>read_index := ri, read_mirror := rm\<rparr>) = drop d (rb_contents rb)"
proof (cases "unat (read_index rb) + d < rb_size rb")
  case True
  have "rb\<lparr>read_index := read_index rb + of_nat d, read_mirror := read_mirror rb\<rparr>
      = rb\<lparr>read_index := read_index rb + of_nat d\<rparr>" by simp
  then show ?thesis using rb_read_flat [OF inv d True] by metis
next
  case False
  let ?room = "rb_size rb - unat (read_index rb)"
  have R: "unat (read_index rb) < rb_size rb" using inv by (simp add: rb_inv_def)
  have e: "?room + (d - ?room) = d" "unat (read_index rb) + ?room = rb_size rb"
    using R False by simp_all
  have "rb\<lparr>read_index := of_nat (d - ?room), read_mirror := NOT (read_mirror rb)\<rparr>
      = rb\<lparr>read_mirror := NOT (read_mirror rb), read_index := of_nat (d - ?room)\<rparr>" by simp
  then show ?thesis using rb_read_wrap [of rb ?room "d - ?room", unfolded e] inv d by metis
qed

text \<open>The two writing branches of \<open>rt_ringbuffer_put_force\<close>, before it looks at the reader.\<close>

definition rb_force_write :: "ringbuffer \<Rightarrow> u8 list \<Rightarrow> nat \<Rightarrow> ringbuffer" where
  "rb_force_write rb ptr m =
     (let W = unat (write_index rb); room = rb_size rb - W in
      if W + m < rb_size rb
      then rb\<lparr>buffer_ptr := splice (buffer_ptr rb) W ptr 0 m, write_index := write_index rb + of_nat m\<rparr>
      else rb\<lparr>buffer_ptr := splice (splice (buffer_ptr rb) W ptr 0 room) 0 ptr room (m - room),
              write_mirror := NOT (write_mirror rb), write_index := of_nat (m - room)\<rparr>)"

lemma rb_force_write_inv:
  assumes inv: "rb_inv rb" and m: "rb_used rb + m \<le> rb_size rb" "m \<le> length ptr"
  shows "rb_inv (rb_force_write rb ptr m) \<and> rb_used (rb_force_write rb ptr m) = rb_used rb + m
    \<and> rb_contents (rb_force_write rb ptr m) = rb_contents rb @ take m ptr"
proof (cases "unat (write_index rb) + m < rb_size rb")
  case True
  with rb_write_flat [OF inv m True] show ?thesis by (simp add: rb_force_write_def Let_def)
next
  case False
  let ?room = "rb_size rb - unat (write_index rb)"
  have "unat (write_index rb) < rb_size rb" using inv by (simp add: rb_inv_def)
  then have e: "?room + (m - ?room) = m" "unat (write_index rb) + ?room = rb_size rb"
    using False by simp_all
  have "m - ?room \<le> m" by simp
  with rb_write_wrap [of rb ?room "m - ?room" ptr, unfolded e, OF inv m refl]
  show ?thesis unfolding rb_force_write_def Let_def if_not_P [OF False] by blast
qed

lemma rb_force_write_reader:
  "rb_force_write (rb\<lparr>read_index := ri, read_mirror := rm\<rparr>) ptr m =
     (rb_force_write rb ptr m)\<lparr>read_index := ri, read_mirror := rm\<rparr>"
  by (simp add: rb_force_write_def Let_def rb_size_def)

lemma rb_force_write_size [simp]: "rb_size (rb_force_write rb ptr m) = rb_size rb"
  by (simp add: rb_force_write_def Let_def rb_size_def)

lemma rb_force_write_mirrors:
  "read_mirror (rb_force_write rb ptr m) = read_mirror rb"
  "write_mirror (rb_force_write rb ptr m) =
     (if unat (write_index rb) + m < rb_size rb then write_mirror rb else NOT (write_mirror rb))"
  by (simp_all add: rb_force_write_def Let_def)

text \<open>Writing over the oldest bytes and leaving the reader on the writer, one mirror apart, keeps the
  newest bytes in a full ring.\<close>

lemma rb_force_over:
  assumes inv: "rb_inv rb" and m: "m \<le> rb_size rb" "m \<le> length p"
    and over: "rb_size rb < rb_used rb + m"
  defines "rb1 \<equiv> rb_force_write rb p m"
  defines "rb2 \<equiv> rb1\<lparr>read_index := write_index rb1, read_mirror := NOT (write_mirror rb1)\<rparr>"
  shows "rb_inv rb2 \<and> rb_contents rb2 = drop (rb_used rb + m - rb_size rb) (rb_contents rb) @ take m p"
proof -
  have used: "rb_used rb \<le> rb_size rb" by (rule rb_used_le [OF inv])
  define ov where "ov = rb_used rb + m - rb_size rb"
  have "ov \<le> rb_used rb" using m by (simp add: ov_def)
  then obtain ri rm where d: "rb_inv (rb\<lparr>read_index := ri, read_mirror := rm\<rparr>)"
    "rb_used (rb\<lparr>read_index := ri, read_mirror := rm\<rparr>) = rb_used rb - ov"
    "rb_contents (rb\<lparr>read_index := ri, read_mirror := rm\<rparr>) = drop ov (rb_contents rb)"
    using rb_discard [OF inv] by blast
  let ?rb0 = "rb\<lparr>read_index := ri, read_mirror := rm\<rparr>"
    and ?rb3 = "rb1\<lparr>read_index := ri, read_mirror := rm\<rparr>"
  have s0: "rb_size ?rb0 = rb_size rb" by (simp add: rb_size_def)
  have full: "rb_used rb - ov + m = rb_size rb" using over used m by (simp add: ov_def)
  have fw: "rb_force_write ?rb0 p m = ?rb3" by (simp add: rb_force_write_reader rb1_def)
  from rb_force_write_inv [OF d(1) _ m(2)] full d(2,3) s0 fw
  have r3: "rb_inv ?rb3" "rb_used ?rb3 = rb_size rb"
    "rb_contents ?rb3 = drop ov (rb_contents rb) @ take m p" by simp_all
  have "rb_size ?rb3 = rb_size rb" by (simp add: rb_size_def rb1_def rb_force_write_def Let_def)
  with rb_full_iff [OF r3(1)] r3(2) have "ri = write_index rb1" "rm \<noteq> write_mirror rb1" by auto
  then have "?rb3 = rb2"
    using bit1_cases [of rm] bit1_cases [of "write_mirror rb1"]
    by (auto simp: rb2_def bit1_not)
  with r3 show ?thesis by (simp add: ov_def)
qed

text \<open>What the code computes: the write, then the reader moved onto the writer when the block was
  longer than the free space, with its mirror flipped in the wrapping branch only.\<close>

lemma rb_put_force_eq:
  fixes n :: u16
  assumes inv: "rb_inv rb" and ptr: "unat n \<le> length ptr"
  defines "m \<equiv> min (unat n) (rb_size rb)"
  defines "rb1 \<equiv> rb_force_write rb (drop (unat n - m) ptr) m"
  shows "rt_ringbuffer_put_force rb ptr n = Some (of_nat m,
    if rb_size rb - rb_used rb < m
    then (if unat (write_index rb) + m < rb_size rb then rb1\<lparr>read_index := write_index rb1\<rparr>
          else rb1\<lparr>read_mirror := NOT (read_mirror rb), read_index := write_index rb1\<rparr>)
    else rb1)"
proof -
  define sp where "sp = (ucast (rt_ringbuffer_space_len rb) :: u16)"
  define p where "p = drop (unat n - m) ptr"
  define len where "len = (if sint (buffer_size rb) < uint n then buffer_size rb else n)"
  have W: "unat (write_index rb) < rb_size rb" "length (buffer_ptr rb) = rb_size rb"
    using inv by (auto simp: rb_inv_def)
  have sp: "unat sp = rb_size rb - rb_used rb"
    using rb_space_len [OF inv] rb_size_bound [of rb] by (simp add: sp_def unat_ucast)
  have un: "uint n = int (unat n)" by simp
  have S: "unat (buffer_size rb) = rb_size rb"
    using rb_size_int [OF inv] sint_of_nonneg [of "buffer_size rb"] by (simp del: of_nat_unat)
  have len: "unat len = m"
    unfolding len_def m_def un rb_size_int [OF inv] by (simp add: S min_def del: of_nat_unat)
  have pr: "(if sint (buffer_size rb) < uint n
      then (drop (nat (uint n - sint (buffer_size rb))) ptr, buffer_size rb) else (ptr, n)) = (p, len)"
    unfolding len_def p_def m_def un rb_size_int [OF inv]
    by (simp add: nat_diff_distrib min_def del: of_nat_unat)
  have pl: "m \<le> length p" using ptr by (simp add: p_def m_def)
  have w: "uint (write_index rb) = int (unat (write_index rb))" "uint len = int m"
    by (simp_all flip: len)
  have cmp: "sp < len \<longleftrightarrow> rb_size rb - rb_used rb < m"
    by (simp add: word_less_nat_alt sp len)
  note pf = rt_ringbuffer_put_force_def [of rb ptr n, folded sp_def,
      unfolded pr, unfolded Let_def prod.case cmp w rb_size_int [OF inv]]
  show ?thesis
  proof (cases "unat (write_index rb) + m < rb_size rb")
    case True
    then show ?thesis
      unfolding pf rb1_def p_def [symmetric] using W pl
      by (simp add: mem_simps ucast_of_nat len of_nat_diff rb_force_write_def Let_def
          del: of_nat_unat)
  next
    case wrap: False
    let ?room = "rb_size rb - unat (write_index rb)"
    have r: "int (rb_size rb) - int (unat (write_index rb)) = int ?room"
      "int m - int ?room = int (m - ?room)" "\<not> int m < int ?room"
      using W wrap by (simp_all add: of_nat_diff del: of_nat_unat)
    have "m \<le> rb_size rb" by (simp add: m_def)
    then show ?thesis
      unfolding pf r rb1_def p_def [symmetric] using wrap W pl r(3)
      by (simp add: mem_simps ucast_of_nat len rb_force_write_def Let_def
          del: of_nat_unat of_nat_diff)
  qed
qed

text \<open>
  The effect of \<open>rt_ringbuffer_put_force\<close> (``When the buffer is full, it will discard the old
  data''). It keeps the newest bytes, except when the block overruns the free space while reader
  and writer are in the same mirror: then both mirrors flip, the ring looks empty, and everything is
  lost.
\<close>

lemma rb_put_force_spec:
  fixes n :: u16
  assumes inv: "rb_inv rb" and ptr: "unat n \<le> length ptr"
  defines "over \<equiv> rb_used rb + min (unat n) (rb_size rb) - rb_size rb"
  shows "\<exists>rb'. rt_ringbuffer_put_force rb ptr n = Some (of_nat (min (unat n) (rb_size rb)), rb')
    \<and> rb_inv rb' \<and> rb_size rb' = rb_size rb
    \<and> rb_contents rb' =
        (if 0 < over \<and> read_mirror rb = write_mirror rb then []
         else drop (rb_used rb + unat n - rb_size rb) (rb_contents rb @ take (unat n) ptr))"
proof -
  define m where "m = min (unat n) (rb_size rb)"
  define p where "p = drop (unat n - m) ptr"
  define rb1 where "rb1 = rb_force_write rb p m"
  have used: "rb_used rb \<le> rb_size rb" by (rule rb_used_le [OF inv])
  have pl: "m \<le> length p" using ptr by (simp add: p_def m_def)
  have ov: "over = rb_used rb + m - rb_size rb" by (simp add: over_def m_def)
  have ov_le: "over \<le> rb_used rb" by (simp add: ov m_def)
  have tail: "drop over (rb_contents rb) @ take m p
      = drop (rb_used rb + unat n - rb_size rb) (rb_contents rb @ take (unat n) ptr)"
  proof (cases "unat n \<le> rb_size rb")
    case True
    then show ?thesis by (simp add: ov m_def p_def)
  next
    case False
    then have "over = rb_used rb" "m = rb_size rb" by (simp_all add: ov m_def)
    with False ptr show ?thesis
      by (simp add: p_def drop_take min_def)
  qed
  note eq = rb_put_force_eq [OF inv ptr, folded m_def, folded p_def, folded rb1_def]
  have s1: "rb_size rb1 = rb_size rb" by (simp add: rb1_def)
  show ?thesis
  proof (cases "0 < over")
    case False
    then have fit: "rb_used rb + m \<le> rb_size rb" "\<not> rb_size rb - rb_used rb < m"
      using used by (auto simp: ov)
    have "over = 0" using False by simp
    with rb_force_write_inv [OF inv fit(1) pl, folded rb1_def] tail eq fit(2) s1
    show ?thesis unfolding m_def [symmetric] by (simp only: drop_0) simp
  next
    case True
    then have gt: "rb_size rb - rb_used rb < m" using used by (simp add: ov)
    let ?rb2 = "rb1\<lparr>read_index := write_index rb1, read_mirror := NOT (write_mirror rb1)\<rparr>"
    from rb_force_over [OF inv _ pl, folded rb1_def] True tail
    have r2: "rb_inv ?rb2" "rb_contents ?rb2 =
        drop (rb_used rb + unat n - rb_size rb) (rb_contents rb @ take (unat n) ptr)"
      by (simp_all add: ov m_def)
    have s2: "rb_size ?rb2 = rb_size rb" using s1 by (simp add: rb_size_def)
    show ?thesis
    proof (cases "read_mirror rb = write_mirror rb")
      case False
      define rb' where "rb' = (if unat (write_index rb) + m < rb_size rb
          then rb1\<lparr>read_index := write_index rb1\<rparr>
          else rb1\<lparr>read_mirror := NOT (read_mirror rb), read_index := write_index rb1\<rparr>)"
      have "rb' = ?rb2"
        using False bit1_cases [of "read_mirror rb"]
          bit1_cases [of "write_mirror rb"]
        by (auto simp: rb'_def rb1_def rb_force_write_mirrors bit1_not intro!: ringbuffer.equality
            split: if_splits)
      with False eq gt r2 s2 show ?thesis by (simp add: rb'_def m_def)
    next
      case same: True
      have wrap: "\<not> unat (write_index rb) + m < rb_size rb"
        using rb_used_same [OF inv same] gt used by linarith
      define rb' where
        "rb' = rb1\<lparr>read_mirror := NOT (read_mirror rb), read_index := write_index rb1\<rparr>"
      have wm: "write_mirror rb1 = NOT (read_mirror rb)"
        using wrap same by (simp add: rb1_def rb_force_write_mirrors)
      have i2: "length (buffer_ptr rb1) = rb_size rb" "0 < sint (buffer_size rb1)"
        "unat (write_index rb1) < rb_size rb"
        using r2(1) s1 s2 by (auto simp: rb_inv_def rb_size_def)
      have s': "rb_size rb' = rb_size rb" using s1 by (simp add: rb'_def rb_size_def)
      have "rb_used rb' = 0" by (simp add: rb_used_def rb'_def wm)
      moreover have "rb_inv rb'"
        unfolding rb_inv_def s' using i2 by (simp add: rb'_def wm)
      ultimately show ?thesis
        using eq gt same wrap True s' by (simp add: rb'_def m_def rb_contents_def)
    qed
  qed
qed

text \<open>The single-byte overwriting variant looks at the state before the write, and is right on every
  branch.\<close>

lemma rb_putchar_force_spec:
  assumes inv: "rb_inv rb"
  shows "\<exists>rb'. rt_ringbuffer_putchar_force rb ch = Some (1, rb') \<and> rb_inv rb'
    \<and> rb_contents rb' = drop (rb_used rb + 1 - rb_size rb) (rb_contents rb @ [ch])"
proof -
  define rb1 where "rb1 = rb_force_write rb [ch] 1"
  have W: "unat (write_index rb) < rb_size rb" "length (buffer_ptr rb) = rb_size rb"
    using inv by (auto simp: rb_inv_def)
  have used: "rb_used rb \<le> rb_size rb" by (rule rb_used_le [OF inv])
  have last: "uint (write_index rb) = sint (buffer_size rb) - 1
      \<longleftrightarrow> \<not> unat (write_index rb) + 1 < rb_size rb"
    unfolding rb_size_int [OF inv] uint_nat using W(1) by linarith
  have sp: "splice (buffer_ptr rb) (unat (write_index rb)) [ch] 0 1
      = (buffer_ptr rb)[unat (write_index rb) := ch]"
    using W by (simp add: splice_def upd_conv_take_nth_drop)
  have full: "rt_ringbuffer_status rb = RT_RINGBUFFER_FULL \<longleftrightarrow> rb_used rb = rb_size rb"
    unfolding rb_full_iff [OF inv] by (simp add: rt_ringbuffer_status_def)
  have sp0: "splice b 0 [ch] 1 0 = b" for b by (simp add: splice_def)
  have eq: "rt_ringbuffer_putchar_force rb ch = Some (1,
      if rb_used rb = rb_size rb
      then rb1\<lparr>read_index := write_index rb1, read_mirror := NOT (write_mirror rb1)\<rparr> else rb1)"
  proof -
    have nm: "NOT (write_mirror rb) = read_mirror rb" if "rb_used rb = rb_size rb"
      using that rb_full_iff [OF inv] bit1_cases [of "read_mirror rb"]
        bit1_cases [of "write_mirror rb"] by (auto simp: bit1_not)
    have room: "\<not> unat (write_index rb) + 1 < rb_size rb
        \<Longrightarrow> rb_size rb - unat (write_index rb) = 1" using W(1) by linarith
    show ?thesis
      using W nm room unfolding rt_ringbuffer_putchar_force_def Let_def rb1_def rb_force_write_def
      by (auto simp: mem_simps last full sp sp0 simp del: One_nat_def)
  qed
  show ?thesis
  proof (cases "rb_used rb = rb_size rb")
    case True
    have "1 \<le> rb_size rb" using W(1) by simp
    with rb_force_over [OF inv, of 1 "[ch]", folded rb1_def] True eq show ?thesis by auto
  next
    case False
    then have "rb_used rb + 1 \<le> rb_size rb" using used by simp
    with rb_force_write_inv [OF inv, of 1 "[ch]", folded rb1_def] False eq show ?thesis by simp
  qed
qed

section \<open>The properties\<close>

text \<open>C1. Any sequence of \<open>rt_ringbuffer_putchar\<close> and \<open>rt_ringbuffer_getchar\<close> calls on a well-formed
  ring keeps it well formed and answers exactly like a list bounded by the ring's size: a byte is
  refused only when the list is full, the oldest byte is handed out first, and what was stored
  together with what was accepted equals what was delivered followed by what is left.\<close>

theorem ringbuffer_run_is_bounded_fifo:
  assumes "rb_inv rb" and "fifo_run rb_enq rb_deq rb es = (rs, rb')"
  shows "rb_inv rb' \<and> rb_size rb' = rb_size rb
    \<and> spec_run (rb_size rb) (rb_contents rb) es = (rs, rb_contents rb')
    \<and> rb_contents rb @ accepted es rs = delivered rs @ rb_contents rb'"
  using rbq.run_refines [OF assms(1) _ assms(2)] rbq.run_conserves [OF assms(1) _ assms(2)]
  by (simp add: list_all_def)

text \<open>A ring of four bytes with its reader at 2 and its writer wrapped to 1: the run wraps the writer
  and the reader and hits both the full and the empty answer.\<close>

definition rb_example :: ringbuffer where
  "rb_example = \<lparr>buffer_ptr = [7, 0, 5, 6], read_mirror = 0, read_index = 2, write_mirror = 1,
     write_index = 1, buffer_size = 4\<rparr>"

lemma rb_example_inv: "rb_inv rb_example"
  by (simp add: rb_example_def rb_inv_def rb_size_def)

theorem ringbuffer_run_is_bounded_fifo_witness:
  "rb_inv (snd (fifo_run rb_enq rb_deq rb_example [Deq, Enq 8, Enq 9, Enq 10, Deq]))"
  using ringbuffer_run_is_bounded_fifo [OF rb_example_inv surjective_pairing] by blast

text \<open>The block operations. \<open>rt_ringbuffer_put\<close> stores as many of the leading bytes as there is room
  for, behind the bytes already there, and returns that count; \<open>rt_ringbuffer_get\<close> hands out the
  oldest bytes, as many as asked for and present, and leaves the rest; both stay inside the pool and
  the caller's array, also across the end of the pool, and keep the ring well formed.\<close>

theorem ringbuffer_put_get_functional:
  assumes "rb_inv rb" and "unat n \<le> length ptr"
  shows "(\<exists>rb'. rt_ringbuffer_put rb ptr n
        = Some (of_nat (min (unat n) (rb_size rb - rb_used rb)), rb') \<and> rb_inv rb'
      \<and> rb_contents rb' = rb_contents rb @ take (min (unat n) (rb_size rb - rb_used rb)) ptr
      \<and> rb_size rb' = rb_size rb)
    \<and> (\<exists>rb'. rt_ringbuffer_get rb k
        = Some (of_nat (min (unat k) (rb_used rb)), take (unat k) (rb_contents rb), rb') \<and> rb_inv rb'
      \<and> rb_contents rb' = drop (unat k) (rb_contents rb) \<and> rb_size rb' = rb_size rb)"
  using rb_put_spec [OF assms] rb_get_spec [OF assms(1), of k] by (simp add: min_def split: if_splits)

theorem ringbuffer_put_get_functional_witness:
  "rb_inv rb_example \<and> unat (3 :: u16) \<le> length [1 :: u8, 2, 3]
    \<and> (\<exists>rb'. rt_ringbuffer_get rb_example 2
        = Some (2, take 2 (rb_contents rb_example), rb'))"
  using ringbuffer_put_get_functional [OF rb_example_inv, of 3 "[1, 2, 3]" 2]
  by (auto simp: rb_example_inv rb_used_def rb_size_def) (auto simp: rb_example_def)

text \<open>The overwriting operations. \<open>rt_ringbuffer_putchar_force\<close> always keeps the newest bytes, as
  the ring's documentation promises. \<open>rt_ringbuffer_put_force\<close> does so too, except when the block
  overruns the free space while reader and writer are in the same mirror: then it flips both mirrors
  with equal indices and the ring reads as empty, so the new and the old bytes are lost.\<close>

theorem ringbuffer_force_keeps_newest_or_loses_all:
  fixes n :: u16
  assumes "rb_inv rb" and "unat n \<le> length ptr"
  shows "(\<exists>rb'. rt_ringbuffer_putchar_force rb ch = Some (1, rb') \<and> rb_inv rb'
      \<and> rb_contents rb' = drop (rb_used rb + 1 - rb_size rb) (rb_contents rb @ [ch]))
    \<and> (\<exists>rb'. rt_ringbuffer_put_force rb ptr n = Some (of_nat (min (unat n) (rb_size rb)), rb')
      \<and> rb_inv rb'
      \<and> rb_contents rb' =
          (if rb_size rb < rb_used rb + min (unat n) (rb_size rb) \<and> read_mirror rb = write_mirror rb
           then []
           else drop (rb_used rb + unat n - rb_size rb) (rb_contents rb @ take (unat n) ptr)))"
  using rb_putchar_force_spec [OF assms(1), of ch] rb_put_force_spec [OF assms]
  unfolding zero_less_diff by blast

definition rb_example_same :: ringbuffer where
  "rb_example_same = \<lparr>buffer_ptr = [1, 2, 0, 0], read_mirror = 0, read_index = 0, write_mirror = 0,
     write_index = 2, buffer_size = 4\<rparr>"

theorem ringbuffer_force_keeps_newest_or_loses_all_witness:
  "\<exists>rb'. rt_ringbuffer_put_force rb_example_same [3, 4, 5] 3 = Some (3, rb') \<and> rb_contents rb' = []"
proof -
  have "rb_inv rb_example_same" "rb_used rb_example_same = 2" "rb_size rb_example_same = 4"
    "read_mirror rb_example_same = write_mirror rb_example_same"
    by (simp_all add: rb_example_same_def rb_inv_def rb_size_def rb_used_def)
  with ringbuffer_force_keeps_newest_or_loses_all [of rb_example_same 3 "[3, 4, 5]" 0]
  show ?thesis by auto
qed

end
