(* ===== verification/Block_Allocator.thy ===== *)
theory Block_Allocator
  imports Prelude
begin

text \<open>
  The contract of an allocator: it hands out blocks that nobody holds, keeps the regions of the blocks
  in use apart and in place, and takes blocks back. The client's fact, that whatever sequence of
  requests and releases it makes it owns exactly the blocks it was given and not yet gave back, in
  disjoint regions, is proved once here. The memory pool and the heap interpret it.
\<close>

datatype ('r, 'a) alloc_op = Alloc 'r | Free 'a

text \<open>A client with its own record of the blocks it holds; it only frees those.\<close>

fun client_step :: "('s \<Rightarrow> 'r \<Rightarrow> ('a \<times> 's) option) \<Rightarrow> ('s \<Rightarrow> 'a \<Rightarrow> 's option) \<Rightarrow> 's \<times> 'a set \<Rightarrow>
    ('r, 'a) alloc_op \<Rightarrow> 's \<times> 'a set" where
  "client_step alloc free (s, T) (Alloc r) =
     (case alloc s r of None \<Rightarrow> (s, T) | Some (b, s') \<Rightarrow> (s', insert b T))"
| "client_step alloc free (s, T) (Free b) =
     (if b \<in> T then (case free s b of None \<Rightarrow> (s, T) | Some s' \<Rightarrow> (s', T - {b})) else (s, T))"

definition client_run :: "('s \<Rightarrow> 'r \<Rightarrow> ('a \<times> 's) option) \<Rightarrow> ('s \<Rightarrow> 'a \<Rightarrow> 's option) \<Rightarrow> 's \<times> 'a set \<Rightarrow>
    ('r, 'a) alloc_op list \<Rightarrow> 's \<times> 'a set" where
  "client_run alloc free = foldl (client_step alloc free)"

fun request_ok :: "('r \<Rightarrow> bool) \<Rightarrow> ('r, 'a) alloc_op \<Rightarrow> bool" where
  "request_ok ok (Alloc r) = ok r"
| "request_ok ok (Free b) = True"

lemma request_ok_True [simp]: "request_ok (\<lambda>_. True) e"
  by (cases e) simp_all

text \<open>Regions that do not overlap.\<close>

definition apart :: "('a \<Rightarrow> nat set) \<Rightarrow> 'a set \<Rightarrow> bool" where
  "apart reg T \<longleftrightarrow> (\<forall>b \<in> T. \<forall>c \<in> T. b \<noteq> c \<longrightarrow> reg b \<inter> reg c = {})"

locale block_allocator =
  fixes inv :: "'s \<Rightarrow> bool"
    and live :: "'s \<Rightarrow> 'a set"
    and region :: "'s \<Rightarrow> 'a \<Rightarrow> nat set"
    and alloc :: "'s \<Rightarrow> 'r \<Rightarrow> ('a \<times> 's) option"
    and free :: "'s \<Rightarrow> 'a \<Rightarrow> 's option"
    and ok :: "'r \<Rightarrow> bool"
  assumes alloc_fresh: "inv s \<Longrightarrow> ok r \<Longrightarrow> alloc s r = Some (b, s') \<Longrightarrow>
      inv s' \<and> b \<notin> live s \<and> live s' = insert b (live s) \<and> (\<forall>c \<in> live s. region s' c = region s c)"
    and free_live: "inv s \<Longrightarrow> b \<in> live s \<Longrightarrow>
      \<exists>s'. free s b = Some s' \<and> inv s' \<and> live s' = live s - {b} \<and> (\<forall>c \<in> live s'. region s' c = region s c)"
    and regions_apart: "inv s \<Longrightarrow> apart (region s) (live s)"
begin

lemma client_step_owns:
  assumes "inv s" "live s = T" "request_ok ok e" "client_step alloc free (s, T) e = (s', T')"
  shows "inv s' \<and> live s' = T' \<and> (\<forall>c \<in> T \<inter> T'. region s' c = region s c)"
proof (cases e)
  case (Alloc r)
  with assms show ?thesis
    using alloc_fresh [of s r] by (auto split: option.splits)
next
  case (Free b)
  with assms show ?thesis
    using free_live [of s b] by (fastforce split: if_splits)
qed

lemma client_run_owns:
  assumes "inv s" "live s = T" "list_all (request_ok ok) es" "client_run alloc free (s, T) es = (s', T')"
  shows "inv s' \<and> live s' = T' \<and> apart (region s') T'"
  using assms
proof (induction es arbitrary: s T)
  case Nil
  then show ?case using regions_apart [of s] by (simp add: client_run_def)
next
  case (Cons e es)
  obtain s1 T1 where e: "client_step alloc free (s, T) e = (s1, T1)" by fastforce
  with client_step_owns [OF Cons.prems(1,2) _ e] Cons.prems(3) have "inv s1" "live s1 = T1" by auto
  moreover have "client_run alloc free (s1, T1) es = (s', T')"
    using Cons.prems(4) e by (simp add: client_run_def)
  ultimately show ?case using Cons.IH Cons.prems(3) by simp
qed

end

end
