(* ===== verification/Linked.thy ===== *)
theory Linked
  imports Prelude
begin

text \<open>
  Singly linked, \<open>NULL\<close>-terminated lists, as the kernel threads them through the blocks of a pool: a
  \<open>next\<close> field per block and a pointer to the first block. \<open>chain\<close> says that a pointer heads a given
  list of blocks, \<open>walk\<close> reads the list off. Shared by the message queue and the memory pool.
\<close>

primrec chain :: "('a \<Rightarrow> 'a option) \<Rightarrow> 'a option \<Rightarrow> 'a list \<Rightarrow> bool" where
  "chain nx p [] \<longleftrightarrow> p = None"
| "chain nx p (x # xs) \<longleftrightarrow> p = Some x \<and> chain nx (nx x) xs"

primrec walk :: "nat \<Rightarrow> ('a \<Rightarrow> 'a option) \<Rightarrow> 'a option \<Rightarrow> 'a list" where
  "walk 0 nx p = []"
| "walk (Suc n) nx p = (case p of None \<Rightarrow> [] | Some x \<Rightarrow> x # walk n nx (nx x))"

lemma chain_walk: "chain nx p xs \<Longrightarrow> walk (length xs) nx p = xs"
  by (induction xs arbitrary: p) auto

lemma chain_walk_ge: "chain nx p xs \<Longrightarrow> length xs \<le> n \<Longrightarrow> walk n nx p = xs"
proof (induction xs arbitrary: p n)
  case Nil
  then show ?case by (cases n) auto
next
  case (Cons x xs)
  then show ?case by (cases n) auto
qed

lemma chain_None [simp]: "chain nx None xs \<longleftrightarrow> xs = []"
  by (cases xs) auto

lemma chain_Some: "chain nx (Some x) xs \<longleftrightarrow> (\<exists>ys. xs = x # ys \<and> chain nx (nx x) ys)"
  by (cases xs) auto

lemma chain_fun_upd [simp]: "x \<notin> set xs \<Longrightarrow> chain (nx(x := v)) p xs = chain nx p xs"
  by (induction xs arbitrary: p) auto

lemma chain_cong: "(\<And>x. x \<in> set xs \<Longrightarrow> f x = g x) \<Longrightarrow> chain f p xs = chain g p xs"
  by (induction xs arbitrary: p) auto

lemma chain_push: "chain nx p xs \<Longrightarrow> x \<notin> set xs \<Longrightarrow> chain (nx(x := p)) (Some x) (x # xs)"
  by simp

lemma chain_snoc:
  "chain nx p xs \<Longrightarrow> xs \<noteq> [] \<Longrightarrow> distinct xs \<Longrightarrow> y \<notin> set xs \<Longrightarrow> nx y = None \<Longrightarrow>
   chain (nx(last xs := Some y)) p (xs @ [y])"
proof (induction xs arbitrary: p)
  case Nil
  then show ?case by simp
next
  case (Cons x xs)
  show ?case
  proof (cases "xs = []")
    case True
    with Cons.prems show ?thesis by auto
  next
    case False
    then have "chain (nx(last xs := Some y)) (nx x) (xs @ [y])"
      using Cons.prems by (intro Cons.IH) simp_all
    moreover have "last xs \<noteq> x" using Cons.prems(3) False last_in_set [of xs] by auto
    then have "(nx(last xs := Some y)) x = nx x" by simp
    ultimately have "chain (nx(last xs := Some y)) p (x # (xs @ [y]))"
      using Cons.prems(1) by (simp only: chain.simps)
    then show ?thesis using False by (simp del: chain.simps fun_upd_apply)
  qed
qed

text \<open>Blocks laid out one after the other, each linked to the next.\<close>

lemma chain_upt:
  assumes "\<And>i. i < n \<Longrightarrow> nx (f i) = (if Suc i < n then Some (f (Suc i)) else None)" "j \<le> n"
  shows "chain nx (if j < n then Some (f j) else None) (map f [j..<n])"
  using assms(2)
proof (induction "n - j" arbitrary: j)
  case 0
  then show ?case by simp
next
  case (Suc d)
  then have "j < n" by linarith
  with Suc.hyps(1) [of "Suc j"] Suc.hyps(2) assms(1) [of j] show ?case
    by (simp add: upt_conv_Cons)
qed

end
