(* ===== verification/Mem_Ops.thy ===== *)
theory Mem_Ops
  imports Prelude
begin

text \<open>
  The memory functions of \<open>kservice.c\<close> on a byte-addressed memory of 32-bit addresses, word-wise loops,
  alignment tests and all. \<open>RT_USING_TINY_SIZE\<close> is not defined, \<open>long\<close> has four bytes and words are
  stored little endian. The references are \<open>mem_fill\<close> and \<open>mem_copy\<close>, which read every source byte
  before any is written.
\<close>

unbundle bit_operations_syntax

type_synonym memory = "u32 \<Rightarrow> u8"

section \<open>Operations\<close>

definition store_word :: "u32 \<Rightarrow> u32 \<Rightarrow> memory \<Rightarrow> memory" where
  "store_word a w m = m(a := ucast w, a + 1 := ucast (drop_bit 8 w), a + 2 := ucast (drop_bit 16 w),
     a + 3 := ucast (drop_bit 24 w))"

definition load_word :: "memory \<Rightarrow> u32 \<Rightarrow> u32" where
  "load_word m a = ucast (m a) OR push_bit 8 (ucast (m (a + 1))) OR push_bit 16 (ucast (m (a + 2)))
     OR push_bit 24 (ucast (m (a + 3)))"

definition unaligned :: "u32 \<Rightarrow> bool" where
  "unaligned x \<longleftrightarrow> x AND 3 \<noteq> 0"

function memset_quads :: "u32 \<Rightarrow> u32 \<Rightarrow> u32 \<Rightarrow> memory \<Rightarrow> u32 \<times> u32 \<times> memory" where
  "memset_quads a buffer count m =
     (if 16 \<le> count
      then memset_quads (a + 16) buffer (count - 16)
             (store_word (a + 12) buffer (store_word (a + 8) buffer (store_word (a + 4) buffer (store_word a buffer m))))
      else (a, count, m))"
  by auto
termination by (relation "measure (\<lambda>(a, b, count, m). unat count)") (auto simp: unat_sub word_le_nat_alt)

function memset_words :: "u32 \<Rightarrow> u32 \<Rightarrow> u32 \<Rightarrow> memory \<Rightarrow> u32 \<times> u32 \<times> memory" where
  "memset_words a buffer count m =
     (if 4 \<le> count then memset_words (a + 4) buffer (count - 4) (store_word a buffer m) else (a, count, m))"
  by auto
termination by (relation "measure (\<lambda>(a, b, count, m). unat count)") (auto simp: unat_sub word_le_nat_alt)

function memset_bytes :: "u32 \<Rightarrow> u8 \<Rightarrow> u32 \<Rightarrow> memory \<Rightarrow> memory" where
  "memset_bytes a d count m =
     (if count \<noteq> 0 then memset_bytes (a + 1) d (count - 1) (m(a := d)) else m)"
  by auto
termination by (relation "measure (\<lambda>(a, d, count, m). unat count)") (auto simp: unat_gt_0 measure_unat)

definition memset_buffer :: "u32 \<Rightarrow> u32" where
  "memset_buffer d = (let b = push_bit 8 d OR d in b OR push_bit 16 b)"

definition rt_memset :: "u32 \<Rightarrow> u32 \<Rightarrow> u32 \<Rightarrow> memory \<Rightarrow> memory" where
  "rt_memset s c count m =
     (let d = c AND 0xff in
      if \<not> count < 4 \<and> \<not> unaligned s
      then
        (let (a1, n1, m1) = memset_quads s (memset_buffer d) count m;
             (a2, n2, m2) = memset_words a1 (memset_buffer d) n1 m1 in
         memset_bytes a2 (ucast d) n2 m2)
      else memset_bytes s (ucast d) count m)"

definition copy_word :: "u32 \<Rightarrow> u32 \<Rightarrow> memory \<Rightarrow> memory" where
  "copy_word dst src m = store_word dst (load_word m src) m"

function memcpy_quads :: "u32 \<Rightarrow> u32 \<Rightarrow> u32 \<Rightarrow> memory \<Rightarrow> u32 \<times> u32 \<times> u32 \<times> memory" where
  "memcpy_quads dst src len m =
     (if 16 \<le> len
      then memcpy_quads (dst + 16) (src + 16) (len - 16)
             (copy_word (dst + 12) (src + 12) (copy_word (dst + 8) (src + 8)
               (copy_word (dst + 4) (src + 4) (copy_word dst src m))))
      else (dst, src, len, m))"
  by auto
termination by (relation "measure (\<lambda>(d, s, len, m). unat len)") (auto simp: unat_sub word_le_nat_alt)

function memcpy_words :: "u32 \<Rightarrow> u32 \<Rightarrow> u32 \<Rightarrow> memory \<Rightarrow> u32 \<times> u32 \<times> u32 \<times> memory" where
  "memcpy_words dst src len m =
     (if 4 \<le> len then memcpy_words (dst + 4) (src + 4) (len - 4) (copy_word dst src m) else (dst, src, len, m))"
  by auto
termination by (relation "measure (\<lambda>(d, s, len, m). unat len)") (auto simp: unat_sub word_le_nat_alt)

text \<open>The bytewise loop upwards, of \<open>rt_memcpy\<close> and \<open>rt_memmove\<close>.\<close>

function copy_up :: "u32 \<Rightarrow> u32 \<Rightarrow> u32 \<Rightarrow> memory \<Rightarrow> memory" where
  "copy_up dst src n m =
     (if n \<noteq> 0 then copy_up (dst + 1) (src + 1) (n - 1) (m(dst := m src)) else m)"
  by auto
termination by (relation "measure (\<lambda>(d, s, n, m). unat n)") (auto simp: measure_unat)

definition rt_memcpy :: "u32 \<Rightarrow> u32 \<Rightarrow> u32 \<Rightarrow> memory \<Rightarrow> memory" where
  "rt_memcpy dst src count m =
     (if \<not> count < 16 \<and> \<not> (unaligned src \<or> unaligned dst)
      then
        (let (d1, s1, n1, m1) = memcpy_quads dst src count m;
             (d2, s2, n2, m2) = memcpy_words d1 s1 n1 m1 in
         copy_up d2 s2 n2 m2)
      else copy_up dst src count m)"

function copy_down :: "u32 \<Rightarrow> u32 \<Rightarrow> u32 \<Rightarrow> memory \<Rightarrow> memory" where
  "copy_down dst src n m =
     (if n \<noteq> 0 then copy_down (dst - 1) (src - 1) (n - 1) (m(dst - 1 := m (src - 1))) else m)"
  by auto
termination by (relation "measure (\<lambda>(d, s, n, m). unat n)") (auto simp: measure_unat)

definition rt_memmove :: "u32 \<Rightarrow> u32 \<Rightarrow> u32 \<Rightarrow> memory \<Rightarrow> memory" where
  "rt_memmove dest s n m =
     (if s < dest \<and> dest < s + n then copy_down (dest + n) (s + n) n m else copy_up dest s n m)"

function rt_memcmp :: "u32 \<Rightarrow> u32 \<Rightarrow> u32 \<Rightarrow> memory \<Rightarrow> int" where
  "rt_memcmp cs ct count m =
     (if 0 < count
      then (let res = uint (m cs) - uint (m ct) in
            if res \<noteq> 0 then res else rt_memcmp (cs + 1) (ct + 1) (count - 1) m)
      else 0)"
  by auto
termination by (relation "measure (\<lambda>(d, s, n, m). unat n)") (auto simp: measure_unat)

lemmas [simp del] = memset_quads.simps memset_words.simps memset_bytes.simps memcpy_quads.simps
  memcpy_words.simps copy_up.simps copy_down.simps rt_memcmp.simps

section \<open>References\<close>

definition mem_fill :: "u32 \<Rightarrow> u8 \<Rightarrow> u32 \<Rightarrow> memory \<Rightarrow> memory" where
  "mem_fill s v n m = (\<lambda>a. if a - s < n then v else m a)"

definition mem_copy :: "u32 \<Rightarrow> u32 \<Rightarrow> u32 \<Rightarrow> memory \<Rightarrow> memory" where
  "mem_copy dst src n m = (\<lambda>a. if a - dst < n then m (src + (a - dst)) else m a)"

text \<open>Copying upwards is right unless the destination starts inside the source.\<close>

definition up_safe :: "u32 \<Rightarrow> u32 \<Rightarrow> u32 \<Rightarrow> bool" where
  "up_safe dst src n \<longleftrightarrow> dst = src \<or> n \<le> dst - src"

lemma unat_minus: "unat (x - y :: u32) = (if unat y \<le> unat x then unat x - unat y else unat x + 2 ^ 32 - unat y)"
  by (simp add: unat_sub_if_size word_size)

lemma unat_plus: "unat (x + y :: u32) = (if unat x + unat y < 2 ^ 32 then unat x + unat y else unat x + unat y - 2 ^ 32)"
  by (simp add: unat_plus_if_size word_size)

lemma less_shift: "k \<le> n \<Longrightarrow> (x :: u32) - k < n - k \<longleftrightarrow> k \<le> x \<and> x < n"
  using unat_u32 [of x] unat_u32 [of n] by (auto simp: word_le_nat_alt word_less_nat_alt unat_minus)

lemma not_less_wrap: "n \<le> d \<Longrightarrow> k \<le> x \<Longrightarrow> x < n \<Longrightarrow> \<not> (x :: u32) - d < k"
  using unat_u32 [of x] unat_u32 [of d] by (simp add: word_le_nat_alt word_less_nat_alt unat_minus)

lemma mem_fill_0 [simp]: "mem_fill s v 0 m = m"
  by (simp add: mem_fill_def)

lemma mem_fill_step: "k \<le> n \<Longrightarrow> mem_fill (s + k) v (n - k) (mem_fill s v k m) = mem_fill s v n m"
proof (rule ext)
  fix a assume k: "k \<le> n"
  have e: "a - (s + k) = a - s - k" by simp
  from less_shift [OF k, of "a - s"] k show "mem_fill (s + k) v (n - k) (mem_fill s v k m) a = mem_fill s v n m a"
    unfolding mem_fill_def e by (auto simp: not_le)
qed

lemma mem_copy_0 [simp]: "mem_copy dst src 0 m = m"
  by (simp add: mem_copy_def)

lemma mem_copy_same [simp]: "mem_copy a a n m = m"
  by (auto simp: mem_copy_def)

lemma mem_copy_step:
  assumes k: "k \<le> n" and s: "up_safe dst src n"
  shows "mem_copy (dst + k) (src + k) (n - k) (mem_copy dst src k m) = mem_copy dst src n m"
proof (cases "dst = src")
  case False
  then have s: "n \<le> dst - src" using s by (simp add: up_safe_def)
  show ?thesis
  proof (rule ext)
    fix a
    define x where "x = a - dst"
    have e: "a - (dst + k) = x - k" "src + k + (x - k) = src + x" by (simp_all add: x_def)
    have "\<not> src + x - dst < k" if "k \<le> x" "x < n"
    proof -
      have e: "src + x - dst = x - (dst - src)" by simp
      show ?thesis unfolding e by (rule not_less_wrap [OF s that])
    qed
    with less_shift [OF k, of x] k
    show "mem_copy (dst + k) (src + k) (n - k) (mem_copy dst src k m) a = mem_copy dst src n m a"
      unfolding mem_copy_def e x_def [symmetric] by (auto simp: not_le)
  qed
qed simp

lemma up_safe_step: "up_safe dst src n \<Longrightarrow> k \<le> n \<Longrightarrow> up_safe (dst + k) (src + k) (n - k)"
  using unat_u32 [of n] by (auto simp: up_safe_def word_le_nat_alt unat_minus)

lemma up_safe_le: "up_safe dst src n \<Longrightarrow> k \<le> n \<Longrightarrow> up_safe dst src k"
  by (auto simp: up_safe_def)

section \<open>Words\<close>

lemma less_4: "(x :: u32) < 4 \<longleftrightarrow> x = 0 \<or> x = 1 \<or> x = 2 \<or> x = 3"
proof -
  have "unat x < 4 \<longleftrightarrow> unat x = 0 \<or> unat x = 1 \<or> unat x = 2 \<or> unat x = 3" by auto
  then show ?thesis by (simp add: word_less_nat_alt word_eq_unat)
qed

lemma store_word_bytes:
  "store_word a w m = (\<lambda>x. if x - a < 4
     then (if x - a = 0 then ucast w else if x - a = 1 then ucast (drop_bit 8 w)
       else if x - a = 2 then ucast (drop_bit 16 w) else ucast (drop_bit 24 w))
     else m x)"
proof (rule ext)
  fix x
  have e: "x = a \<longleftrightarrow> x - a = 0" "x = a + 1 \<longleftrightarrow> x - a = 1" "x = a + 2 \<longleftrightarrow> x - a = 2" "x = a + 3 \<longleftrightarrow> x - a = 3"
    by (auto simp: algebra_simps)
  show "store_word a w m x = (if x - a < 4
     then (if x - a = 0 then ucast w else if x - a = 1 then ucast (drop_bit 8 w)
       else if x - a = 2 then ucast (drop_bit 16 w) else ucast (drop_bit 24 w))
     else m x)"
    unfolding store_word_def fun_upd_apply e less_4 by auto
qed

lemma bit_u8: "\<not> bit (w :: u8) (8 + n)" "\<not> bit w (16 + n)" "\<not> bit w (24 + n)"
  by (auto dest: bit_imp_le_length)

lemma bytes_of_load_word:
  "(ucast (load_word m a) :: u8) = m a" "(ucast (drop_bit 8 (load_word m a)) :: u8) = m (a + 1)"
  "(ucast (drop_bit 16 (load_word m a)) :: u8) = m (a + 2)" "(ucast (drop_bit 24 (load_word m a)) :: u8) = m (a + 3)"
  by (auto intro!: bit_eqI simp: load_word_def bit_simps bit_u8)

lemma copy_word_eq: "copy_word dst src m = mem_copy dst src 4 m"
proof (rule ext)
  fix x
  show "copy_word dst src m x = mem_copy dst src 4 m x"
    unfolding copy_word_def store_word_bytes mem_copy_def bytes_of_load_word by (auto simp: less_4)
qed

lemma bytes_of_buffer:
  "(ucast (memset_buffer (c AND 0xff)) :: u8) = ucast c"
  "(ucast (drop_bit 8 (memset_buffer (c AND 0xff))) :: u8) = ucast c"
  "(ucast (drop_bit 16 (memset_buffer (c AND 0xff))) :: u8) = ucast c"
  "(ucast (drop_bit 24 (memset_buffer (c AND 0xff))) :: u8) = ucast c"
proof -
  have m: "(0xff :: u32) = mask 8" by (simp add: mask_eq_exp_minus_1)
  show "(ucast (memset_buffer (c AND 0xff)) :: u8) = ucast c"
    "(ucast (drop_bit 8 (memset_buffer (c AND 0xff))) :: u8) = ucast c"
    "(ucast (drop_bit 16 (memset_buffer (c AND 0xff))) :: u8) = ucast c"
    "(ucast (drop_bit 24 (memset_buffer (c AND 0xff))) :: u8) = ucast c"
    unfolding memset_buffer_def m by (auto intro!: bit_eqI simp: bit_simps Let_def)
qed

lemma store_buffer_eq: "store_word a (memset_buffer (c AND 0xff)) m = mem_fill a (ucast c) 4 m"
  unfolding store_word_bytes bytes_of_buffer mem_fill_def by auto

section \<open>The loops\<close>

lemma one_le: "(n :: u32) \<noteq> 0 \<Longrightarrow> 1 \<le> n"
  by (simp add: word_le_nat_alt Suc_le_eq unat_gt_0)

lemma memset_bytes_eq: "memset_bytes a d n m = mem_fill a d n m"
proof (induction a d n m rule: memset_bytes.induct)
  case (1 a d n m)
  show ?case
  proof (cases "n = 0")
    case False
    then have "1 \<le> n" by (rule one_le)
    moreover have "m(a := d) = mem_fill a d 1 m" by (auto simp: mem_fill_def fun_eq_iff)
    ultimately show ?thesis
      using 1 False mem_fill_step [of 1 n a d m] by (subst memset_bytes.simps) simp
  qed (simp add: memset_bytes.simps)
qed

lemma memset_words_eq:
  "case memset_words a (memset_buffer (c AND 0xff)) n m of (a', n', m') \<Rightarrow>
     mem_fill a' (ucast c) n' m' = mem_fill a (ucast c) n m"
proof (induction a "memset_buffer (c AND 0xff)" n m rule: memset_words.induct)
  case (1 a n m)
  then show ?case
    using mem_fill_step [of 4 n a "ucast c" m] by (subst memset_words.simps) (auto simp: store_buffer_eq)
qed

lemma memset_quads_eq:
  "case memset_quads a (memset_buffer (c AND 0xff)) n m of (a', n', m') \<Rightarrow>
     mem_fill a' (ucast c) n' m' = mem_fill a (ucast c) n m"
proof (induction a "memset_buffer (c AND 0xff)" n m rule: memset_quads.induct)
  case (1 a n m)
  let ?f = "\<lambda>a k. mem_fill a (ucast c) k"
  have "?f (a + 12) 4 (?f (a + 8) 4 (?f (a + 4) 4 (?f a 4 m))) = ?f a 16 m"
    using mem_fill_step [of 4 8 a "ucast c" m] mem_fill_step [of 8 12 a "ucast c" m] mem_fill_step [of 12 16 a "ucast c" m]
    by simp
  with 1 show ?case
    using mem_fill_step [of 16 n a "ucast c" m] by (subst memset_quads.simps) (auto simp: store_buffer_eq)
qed

lemma rt_memset_eq: "rt_memset s c n m = mem_fill s (ucast c) n m"
proof -
  have d: "(ucast (c AND 0xff) :: u8) = ucast c"
  proof -
    have m: "(0xff :: u32) = mask 8" by (simp add: mask_eq_exp_minus_1)
    show ?thesis unfolding m by (auto intro!: bit_eqI simp: bit_simps)
  qed
  obtain a1 n1 m1 where q: "memset_quads s (memset_buffer (c AND 0xff)) n m = (a1, n1, m1)"
    by (cases "memset_quads s (memset_buffer (c AND 0xff)) n m")
  obtain a2 n2 m2 where w: "memset_words a1 (memset_buffer (c AND 0xff)) n1 m1 = (a2, n2, m2)"
    by (cases "memset_words a1 (memset_buffer (c AND 0xff)) n1 m1")
  show ?thesis
    using memset_quads_eq [where a = s and c = c and n = n and m = m]
      memset_words_eq [where a = a1 and c = c and n = n1 and m = m1]
    by (simp add: rt_memset_def Let_def q w d memset_bytes_eq)
qed

lemma copy_byte_eq: "m(dst := m src) = mem_copy dst src 1 m"
  by (auto simp: mem_copy_def fun_eq_iff)

lemma copy_up_eq: "up_safe dst src n \<Longrightarrow> copy_up dst src n m = mem_copy dst src n m"
proof (induction dst src n m rule: copy_up.induct)
  case (1 dst src n m)
  show ?case
  proof (cases "n = 0")
    case False
    then show ?thesis
      using 1 mem_copy_step [OF one_le 1(2)] up_safe_step [OF 1(2) one_le]
      by (subst copy_up.simps) (simp add: copy_byte_eq)
  qed (simp add: copy_up.simps)
qed

definition copy_rest :: "u32 \<Rightarrow> u32 \<Rightarrow> u32 \<Rightarrow> memory \<Rightarrow> u32 \<times> u32 \<times> u32 \<times> memory \<Rightarrow> bool" where
  "copy_rest dst src n m r \<longleftrightarrow> (case r of (d', s', n', m') \<Rightarrow>
     up_safe d' s' n' \<and> mem_copy d' s' n' m' = mem_copy dst src n m)"

lemma memcpy_words_eq: "up_safe dst src n \<Longrightarrow> copy_rest dst src n m (memcpy_words dst src n m)"
proof (induction dst src n m rule: memcpy_words.induct)
  case (1 dst src n m)
  then show ?case
    using mem_copy_step [of 4 n dst src m] up_safe_step [of dst src n 4]
    by (subst memcpy_words.simps) (auto simp: copy_word_eq copy_rest_def)
qed

lemma memcpy_quads_eq: "up_safe dst src n \<Longrightarrow> copy_rest dst src n m (memcpy_quads dst src n m)"
proof (induction dst src n m rule: memcpy_quads.induct)
  case (1 dst src n m)
  show ?case
  proof (cases "16 \<le> n")
    case True
    let ?f = "\<lambda>k. mem_copy (dst + k) (src + k) 4"
    have s: "up_safe dst src 16" using up_safe_le [OF 1(2) True] .
    have "up_safe dst src 8" "up_safe dst src 12" using up_safe_le [OF s] by simp_all
    then have "?f 12 (?f 8 (?f 4 (mem_copy dst src 4 m))) = mem_copy dst src 16 m"
      using mem_copy_step [of 4 8 dst src m] mem_copy_step [of 8 12 dst src m] mem_copy_step [of 12 16 dst src m] s
      by simp
    with 1 True show ?thesis
      using mem_copy_step [OF True 1(2)] up_safe_step [OF 1(2) True]
      by (subst memcpy_quads.simps) (auto simp: copy_word_eq copy_rest_def)
  next
    case False
    with 1(2) show ?thesis by (subst memcpy_quads.simps) (simp add: copy_rest_def)
  qed
qed

lemma rt_memcpy_eq:
  assumes "up_safe dst src n" shows "rt_memcpy dst src n m = mem_copy dst src n m"
proof -
  obtain d1 s1 n1 m1 where q: "memcpy_quads dst src n m = (d1, s1, n1, m1)" by (cases "memcpy_quads dst src n m")
  obtain d2 s2 n2 m2 where w: "memcpy_words d1 s1 n1 m1 = (d2, s2, n2, m2)" by (cases "memcpy_words d1 s1 n1 m1")
  have 1: "up_safe d1 s1 n1" "mem_copy d1 s1 n1 m1 = mem_copy dst src n m"
    using memcpy_quads_eq [OF assms, of m] by (simp_all add: copy_rest_def q)
  have "up_safe d2 s2 n2" "mem_copy d2 s2 n2 m2 = mem_copy d1 s1 n1 m1"
    using memcpy_words_eq [OF 1(1), of m1] by (simp_all add: copy_rest_def w)
  with 1 show ?thesis by (simp add: rt_memcpy_def q w copy_up_eq assms)
qed

lemma copy_down_eq: "n \<le> src - dst \<Longrightarrow> copy_down (dst + n) (src + n) n m = mem_copy dst src n m"
proof (induction "dst + n" "src + n" n m rule: copy_down.induct)
  case (1 n m)
  show ?case
  proof (cases "n = 0")
    case False
    let ?m = "m(dst + n - 1 := m (src + n - 1))"
    have n1: "unat (n - 1) = unat n - 1" using one_le [OF False] by (simp add: unat_sub)
    then have le: "n - 1 \<le> src - dst" using 1(2) by (simp add: word_le_nat_alt)
    have "copy_down (dst + n - 1) (src + n - 1) (n - 1) ?m = mem_copy dst src (n - 1) ?m"
      using 1(1) [OF False] le by (simp add: add_diff_eq)
    also have "\<dots> = mem_copy dst src n m"
    proof (rule ext)
      fix a
      define x where "x = a - dst"
      have b: "x < n - 1 \<Longrightarrow> src + x \<noteq> dst + n - 1"
      proof
        assume x: "x < n - 1" and "src + x = dst + n - 1"
        then have "src - dst = n - 1 - x" by (simp add: algebra_simps)
        then have "unat (src - dst) = unat n - 1 - unat x" using x n1 by (simp add: unat_sub word_less_nat_alt word_le_nat_alt)
        then show False using 1(2) False x n1 by (simp add: word_le_nat_alt word_less_nat_alt)
      qed
      have c: "x < n \<longleftrightarrow> x < n - 1 \<or> x = n - 1"
      proof -
        have "unat n \<noteq> 0" using False by (simp add: unat_eq_0)
        then show ?thesis unfolding word_less_nat_alt word_eq_unat [of x] n1 by linarith
      qed
      have "a = dst + n - 1 \<longleftrightarrow> x = n - 1" by (auto simp: x_def algebra_simps)
      then show "mem_copy dst src (n - 1) ?m a = mem_copy dst src n m a"
        using b c by (auto simp: mem_copy_def x_def [symmetric] add_diff_eq)
    qed
    finally show ?thesis using False by (subst copy_down.simps) simp
  qed (simp add: copy_down.simps)
qed

text \<open>\<open>rt_memmove\<close> copies as if through a third buffer, however the areas overlap.\<close>

lemma rt_memmove_eq:
  assumes "unat dst + unat n \<le> 2 ^ 32" "unat src + unat n < 2 ^ 32"
  shows "rt_memmove dst src n m = mem_copy dst src n m"
proof (cases "src < dst \<and> dst < src + n")
  case True
  have "unat (src + n) = unat src + unat n" using assms(2) by (simp add: unat_plus)
  then have "n \<le> src - dst"
    using True assms(1) by (auto simp: word_less_nat_alt word_le_nat_alt unat_minus)
  with True show ?thesis by (simp add: rt_memmove_def copy_down_eq)
next
  case False
  have "unat (src + n) = unat src + unat n" using assms(2) by (simp add: unat_plus)
  then have "up_safe dst src n"
    using False assms(2) by (auto simp: up_safe_def word_less_nat_alt word_le_nat_alt unat_minus word_eq_unat)
  with False show ?thesis by (auto simp: rt_memmove_def copy_up_eq)
qed

text \<open>Areas that do not overlap.\<close>

lemma disjoint_up_safe:
  assumes "unat src + unat n \<le> 2 ^ 32"
    and "{unat src ..< unat src + unat n} \<inter> {unat dst ..< unat dst + unat n} = {}"
  shows "up_safe dst src n"
proof (cases "unat n = 0")
  case True
  then show ?thesis by (simp add: up_safe_def word_le_nat_alt)
next
  case False
  have "unat src + unat n \<le> unat dst \<or> unat dst + unat n \<le> unat src"
  proof (rule ccontr)
    assume "\<not> ?thesis"
    then have "max (unat src) (unat dst) \<in> {unat src ..< unat src + unat n} \<inter> {unat dst ..< unat dst + unat n}"
      using False by (auto simp: max_def)
    with assms(2) show False by blast
  qed
  with assms(1) show ?thesis by (auto simp: up_safe_def word_le_nat_alt unat_minus)
qed

section \<open>Comparison\<close>

primrec bytes_at :: "memory \<Rightarrow> u32 \<Rightarrow> nat \<Rightarrow> u8 list" where
  "bytes_at m p 0 = []"
| "bytes_at m p (Suc n) = m p # bytes_at m (p + 1) n"

lemma length_bytes_at [simp]: "length (bytes_at m p n) = n"
  by (induction n arbitrary: p) simp_all

lemma unat_dec: "(n :: u32) \<noteq> 0 \<Longrightarrow> unat n = Suc (unat (n - 1))"
  using one_le [of n] by (simp add: unat_sub unat_gt_0 Suc_le_eq)

lemma rt_memcmp_spec:
  "(rt_memcmp p q n m = 0 \<longleftrightarrow> bytes_at m p (unat n) = bytes_at m q (unat n))
   \<and> (rt_memcmp p q n m < 0 \<longleftrightarrow> ord_class.lexordp (bytes_at m p (unat n)) (bytes_at m q (unat n)))"
proof (induction p q n m rule: rt_memcmp.induct)
  case (1 p q n m)
  show ?case
  proof (cases "n = 0")
    case False
    then have s: "0 < n" "unat n = Suc (unat (n - 1))" by (simp_all add: unat_dec word_gt_0)
    show ?thesis
    proof (cases "m p = m q")
      case True
      with 1 [OF s(1) refl] s show ?thesis by (subst (1 2) rt_memcmp.simps) simp
    next
      case ne: False
      then have "uint (m p) - uint (m q) \<noteq> 0" using unsigned_word_eqI [of "m p" "m q"] by auto
      with s ne show ?thesis by (subst (1 2) rt_memcmp.simps) (auto simp: word_less_alt)
    qed
  qed (simp add: rt_memcmp.simps)
qed

section \<open>The property\<close>

text \<open>C15. The optimised memory functions are their bytewise references: \<open>rt_memset\<close> always, \<open>rt_memcpy\<close>
  unless the destination starts inside the source, \<open>rt_memmove\<close> for any two areas that do not run
  over the end of the address space; and \<open>rt_memcmp\<close> orders two areas lexicographically as unsigned
  bytes.\<close>

theorem memory_functions_equal_references:
  shows "rt_memset dst c n m = mem_fill dst (ucast c) n m
    \<and> (up_safe dst src n \<longrightarrow> rt_memcpy dst src n m = mem_copy dst src n m)
    \<and> (unat dst + unat n \<le> 2 ^ 32 \<and> unat src + unat n < 2 ^ 32 \<longrightarrow> rt_memmove dst src n m = mem_copy dst src n m)
    \<and> (rt_memcmp dst src n m = 0 \<longleftrightarrow> bytes_at m dst (unat n) = bytes_at m src (unat n))
    \<and> (rt_memcmp dst src n m < 0 \<longleftrightarrow> ord_class.lexordp (bytes_at m dst (unat n)) (bytes_at m src (unat n)))"
  using rt_memset_eq rt_memcpy_eq rt_memmove_eq rt_memcmp_spec by blast

theorem memory_functions_equal_references_witness:
  "rt_memcpy 0x2000 0x1004 22 (\<lambda>a. ucast a) 0x2014 = 0x18
    \<and> rt_memmove 0x1002 0x1000 22 (\<lambda>a. ucast a) 0x1014 = 0x12"
proof -
  let ?m = "(\<lambda>a. ucast a) :: memory"
  have s: "up_safe 0x2000 0x1004 22" by (simp add: up_safe_def)
  have b: "unat (0x1002 :: u32) + unat (22 :: u32) \<le> 2 ^ 32 \<and> unat (0x1000 :: u32) + unat (22 :: u32) < 2 ^ 32" by simp
  have "rt_memcpy 0x2000 0x1004 22 ?m = mem_copy 0x2000 0x1004 22 ?m"
    "rt_memmove 0x1002 0x1000 22 ?m = mem_copy 0x1002 0x1000 22 ?m"
    using memory_functions_equal_references [of "0x2000" 0 22 ?m "0x1004"]
      memory_functions_equal_references [of "0x1002" 0 22 ?m "0x1000"] s b by blast+
  then show ?thesis by (simp add: mem_copy_def)
qed

end
