(* ===== verification/SmallMem.thy ===== *)
theory SmallMem
  imports Linked Block_Allocator Mem_Ops
begin

text \<open>
  \<open>mem.c\<close>, the kernel's heap: one memory cut into consecutive blocks, each with a header that holds
  the offsets of the next and previous header and a used flag; \<open>lfree\<close> is a hint for the lowest free
  block. Headers are found by their offset from \<open>heap_ptr\<close> (\<open>hdr\<close>), the user bytes by their address
  (\<open>bytes\<close>). Each operation holds the heap semaphore throughout and is one step here; the semaphore
  and the context check are left out. \<open>None\<close> is a failed assertion.
\<close>

unbundle bit_operations_syntax

section \<open>Operations\<close>

record heap_mem =
  magic :: u16
  used :: u16
  hnext :: u32
  hprev :: u32

record heap =
  heap_ptr :: u32
  mem_size_aligned :: u32
  lfree :: u32
  hdr :: "u32 \<Rightarrow> heap_mem"
  used_mem :: u32
  max_mem :: u32
  bytes :: "u32 \<Rightarrow> u8"

abbreviation (input) HEAP_MAGIC :: u16 where "HEAP_MAGIC \<equiv> 0x1ea0"
abbreviation (input) SIZEOF_STRUCT_MEM :: u32 where "SIZEOF_STRUCT_MEM \<equiv> 12"
abbreviation (input) MIN_SIZE_ALIGNED :: u32 where "MIN_SIZE_ALIGNED \<equiv> 12"

definition heap_end :: "heap \<Rightarrow> u32" where
  "heap_end h = mem_size_aligned h + SIZEOF_STRUCT_MEM"

text \<open>Merging the free block \<open>b\<close> into the free block \<open>a\<close> before it.\<close>

definition merge :: "u32 \<Rightarrow> u32 \<Rightarrow> heap \<Rightarrow> heap" where
  "merge a b h =
     (let nn = hnext (hdr h b);
          hd1 = (hdr h)(a := (hdr h a)\<lparr>hnext := nn\<rparr>) in
      h\<lparr>lfree := (if lfree h = b then a else lfree h),
        hdr := hd1(nn := (hd1 nn)\<lparr>hprev := a\<rparr>)\<rparr>)"

definition plug_holes :: "u32 \<Rightarrow> heap \<Rightarrow> heap option" where
  "plug_holes m h =
     (if heap_ptr h \<le> heap_ptr h + m \<and> heap_ptr h + m < heap_ptr h + heap_end h \<and> used (hdr h m) = 0
      then
        (let n = hnext (hdr h m);
             h1 = (if m \<noteq> n \<and> used (hdr h n) = 0 \<and> n \<noteq> heap_end h then merge m n h else h);
             p = hprev (hdr h1 m) in
         Some (if p \<noteq> m \<and> used (hdr h1 p) = 0 then merge p m h1 else h1))
      else None)"

definition rt_system_heap_init :: "u32 \<Rightarrow> u32 \<Rightarrow> heap \<Rightarrow> heap" where
  "rt_system_heap_init begin_addr end_addr h =
     (let begin_align = rt_align begin_addr; end_align = rt_align_down end_addr in
      if 2 * SIZEOF_STRUCT_MEM < end_align \<and> begin_align \<le> end_align - 2 * SIZEOF_STRUCT_MEM
      then
        (let n = end_align - begin_align - 2 * SIZEOF_STRUCT_MEM; e = n + SIZEOF_STRUCT_MEM in
         h\<lparr>heap_ptr := begin_align, mem_size_aligned := n, lfree := 0,
           hdr := (hdr h)(0 := \<lparr>magic = HEAP_MAGIC, used = 0, hnext = e, hprev = 0\<rparr>,
                          e := \<lparr>magic = HEAP_MAGIC, used = 1, hnext = e, hprev = e\<rparr>)\<rparr>)
      else h)"

text \<open>The search of \<open>rt_malloc\<close>, from a block on: the offset of the first block that fits, if any.\<close>

partial_function (option) find_fit :: "heap \<Rightarrow> u32 \<Rightarrow> u32 \<Rightarrow> u32 option option" where
  "find_fit h len p =
     (if p < mem_size_aligned h - len
      then
        (if used (hdr h p) = 0 \<and> len \<le> hnext (hdr h p) - (p + SIZEOF_STRUCT_MEM) then Some (Some p)
         else find_fit h len (hnext (hdr h p)))
      else Some None)"

partial_function (option) skip_used :: "heap \<Rightarrow> u32 \<Rightarrow> u32 option" where
  "skip_used h l = (if used (hdr h l) \<noteq> 0 \<and> l \<noteq> heap_end h then skip_used h (hnext (hdr h l)) else Some l)"

text \<open>The header of a new free block at \<open>m2\<close>, linked in behind \<open>m\<close>.\<close>

definition split_block :: "u32 \<Rightarrow> u32 \<Rightarrow> heap \<Rightarrow> heap" where
  "split_block m m2 h =
     (let nn = hnext (hdr h m);
          hd1 = (hdr h)(m2 := \<lparr>magic = HEAP_MAGIC, used = 0, hnext = nn, hprev = m\<rparr>);
          hd2 = hd1(m := (hd1 m)\<lparr>hnext := m2\<rparr>) in
      h\<lparr>hdr := (if nn \<noteq> heap_end h then hd2(nn := (hd2 nn)\<lparr>hprev := m2\<rparr>) else hd2)\<rparr>)"

definition set_used :: "u32 \<Rightarrow> u16 \<Rightarrow> heap \<Rightarrow> heap" where
  "set_used m u h = h\<lparr>hdr := (hdr h)(m := (hdr h m)\<lparr>magic := HEAP_MAGIC, used := u\<rparr>)\<rparr>"

text \<open>What \<open>rt_malloc\<close> does with the block it has found; \<open>n\<close> is the number of bytes taken off the heap.\<close>

definition take_block :: "u32 \<Rightarrow> u32 \<Rightarrow> heap \<Rightarrow> heap option" where
  "take_block m len h =
     (let splits = (len + SIZEOF_STRUCT_MEM + MIN_SIZE_ALIGNED \<le> hnext (hdr h m) - (m + SIZEOF_STRUCT_MEM));
          h1 = (if splits then split_block m (m + SIZEOF_STRUCT_MEM + len) h else h);
          n = (if splits then len + SIZEOF_STRUCT_MEM else hnext (hdr h m) - m);
          u = used_mem h + n;
          h2 = set_used m 1 h1\<lparr>used_mem := u, max_mem := (if max_mem h < u then u else max_mem h)\<rparr> in
      if m = lfree h then do {
        l \<leftarrow> skip_used h2 (lfree h2);
        if l = heap_end h2 \<or> used (hdr h2 l) = 0 then Some (h2\<lparr>lfree := l\<rparr>) else None
      }
      else Some h2)"

definition rt_malloc :: "u32 \<Rightarrow> heap \<Rightarrow> (u32 \<times> heap) option" where
  "rt_malloc sz h =
     (if sz = 0 then Some (0, h)
      else if mem_size_aligned h < rt_align sz then Some (0, h)
      else
        (let len = (if rt_align sz < MIN_SIZE_ALIGNED then MIN_SIZE_ALIGNED else rt_align sz) in do {
           r \<leftarrow> find_fit h len (lfree h);
           case r of
             None \<Rightarrow> Some (0, h)
           | Some m \<Rightarrow> do {
               h' \<leftarrow> take_block m len h;
               let p = heap_ptr h + m + SIZEOF_STRUCT_MEM;
               if p + len \<le> heap_ptr h + heap_end h \<and> unat p mod 4 = 0 \<and> (heap_ptr h + m) AND 3 = 0
               then Some (p, h') else None
             }
         }))"

definition rt_free :: "u32 \<Rightarrow> heap \<Rightarrow> heap option" where
  "rt_free rmem h =
     (if rmem = 0 then Some h
      else if \<not> (rmem AND 3 = 0 \<and> heap_ptr h \<le> rmem \<and> rmem < heap_ptr h + heap_end h) then None
      else
        (let m = rmem - SIZEOF_STRUCT_MEM - heap_ptr h in
         if used (hdr h m) = 0 \<or> magic (hdr h m) \<noteq> HEAP_MAGIC then None
         else
           (let h1 = set_used m 0 h in
            plug_holes m (h1\<lparr>lfree := (if heap_ptr h + m < heap_ptr h + lfree h then m else lfree h),
                             used_mem := used_mem h - (hnext (hdr h m) - m)\<rparr>))))"

text \<open>\<open>rt_memcpy\<close> and \<open>rt_memset\<close> on the user bytes.\<close>

definition copy_bytes :: "u32 \<Rightarrow> u32 \<Rightarrow> u32 \<Rightarrow> heap \<Rightarrow> heap" where
  "copy_bytes dst src n h = h\<lparr>bytes := rt_memcpy dst src n (bytes h)\<rparr>"

definition fill_bytes :: "u32 \<Rightarrow> u32 \<Rightarrow> u32 \<Rightarrow> heap \<Rightarrow> heap" where
  "fill_bytes dst v n h = h\<lparr>bytes := rt_memset dst v n (bytes h)\<rparr>"

definition rt_realloc :: "u32 \<Rightarrow> u32 \<Rightarrow> heap \<Rightarrow> (u32 \<times> heap) option" where
  "rt_realloc rmem sz h =
     (let newsize = rt_align sz in
      if mem_size_aligned h < newsize then Some (0, h)
      else if newsize = 0 then map_option (Pair 0) (rt_free rmem h)
      else if rmem = 0 then rt_malloc newsize h
      else if rmem < heap_ptr h \<or> heap_ptr h + heap_end h \<le> rmem then Some (rmem, h)
      else
        (let m = rmem - SIZEOF_STRUCT_MEM - heap_ptr h; len = hnext (hdr h m) - m - SIZEOF_STRUCT_MEM in
         if len = newsize then Some (rmem, h)
         else if newsize + SIZEOF_STRUCT_MEM + 12 < len then
           (let m2 = m + SIZEOF_STRUCT_MEM + newsize in
            map_option (Pair rmem) (plug_holes m2
              (split_block m m2 (h\<lparr>used_mem := used_mem h - (len - newsize)\<rparr>))))
         else do {
           (nmem, h1) \<leftarrow> rt_malloc newsize h;
           if nmem \<noteq> 0 then do {
             h2 \<leftarrow> rt_free rmem (copy_bytes nmem rmem (if len < newsize then len else newsize) h1);
             Some (nmem, h2)
           }
           else Some (nmem, h1)
         }))"

definition rt_calloc :: "u32 \<Rightarrow> u32 \<Rightarrow> heap \<Rightarrow> (u32 \<times> heap) option" where
  "rt_calloc count sz h = do {
     (p, h1) \<leftarrow> rt_malloc (count * sz) h;
     if p \<noteq> 0 then Some (p, fill_bytes p 0 (count * sz) h1) else Some (p, h1)
   }"

definition rt_memory_info :: "heap \<Rightarrow> u32 \<times> u32 \<times> u32" where
  "rt_memory_info h = (mem_size_aligned h, used_mem h, max_mem h)"

section \<open>The block list\<close>

definition blk_ok :: "(u32 \<Rightarrow> heap_mem) \<Rightarrow> u32 \<Rightarrow> bool" where
  "blk_ok hm x \<longleftrightarrow> magic (hm x) = HEAP_MAGIC \<and> 4 dvd unat x \<and> unat x + 16 \<le> unat (hnext (hm x))"

fun hpath :: "(u32 \<Rightarrow> heap_mem) \<Rightarrow> u32 \<Rightarrow> u32 list \<Rightarrow> u32 \<Rightarrow> bool" where
  "hpath hm a [] b \<longleftrightarrow> a = b"
| "hpath hm a (x # xs) b \<longleftrightarrow> a = x \<and> blk_ok hm x \<and> hpath hm (hnext (hm x)) xs b"

fun hprevs :: "(u32 \<Rightarrow> heap_mem) \<Rightarrow> u32 \<Rightarrow> u32 list \<Rightarrow> bool" where
  "hprevs hm p [] \<longleftrightarrow> True"
| "hprevs hm p (x # xs) \<longleftrightarrow> hprev (hm x) = p \<and> hprevs hm x xs"

definition calm :: "(u32 \<Rightarrow> heap_mem) \<Rightarrow> u32 list \<Rightarrow> bool" where
  "calm hm os \<longleftrightarrow> successively (\<lambda>x y. used (hm x) \<noteq> 0 \<or> used (hm y) \<noteq> 0) os"

definition blk_size :: "(u32 \<Rightarrow> heap_mem) \<Rightarrow> u32 \<Rightarrow> u32" where
  "blk_size hm x = hnext (hm x) - x"

definition geom :: "heap \<Rightarrow> u32 list \<Rightarrow> bool" where
  "geom h os \<longleftrightarrow> hpath (hdr h) 0 os (heap_end h) \<and> hprevs (hdr h) 0 os \<and> used (hdr h (heap_end h)) \<noteq> 0
     \<and> 12 \<le> unat (mem_size_aligned h) \<and> unat (heap_ptr h) + unat (mem_size_aligned h) + 24 < 2 ^ 32
     \<and> 4 dvd unat (heap_ptr h) \<and> 4 dvd unat (mem_size_aligned h)"

definition lfree_ok :: "heap \<Rightarrow> u32 list \<Rightarrow> bool" where
  "lfree_ok h os \<longleftrightarrow> lfree h = heap_end h \<or> lfree h \<in> set os \<and> used (hdr h (lfree h)) = 0"

text \<open>\<open>lfree\<close> is the lowest free block: kept by \<open>rt_malloc\<close> and \<open>rt_free\<close>, but not by \<open>rt_realloc\<close>.\<close>

definition lfree_low :: "heap \<Rightarrow> u32 list \<Rightarrow> bool" where
  "lfree_low h os \<longleftrightarrow> (\<forall>z \<in> set os. used (hdr h z) = 0 \<longrightarrow> unat (lfree h) \<le> unat z)"

definition used_sum :: "(u32 \<Rightarrow> heap_mem) \<Rightarrow> u32 list \<Rightarrow> u32" where
  "used_sum hm os = sum_list (map (blk_size hm) (filter (\<lambda>x. used (hm x) \<noteq> 0) os))"

definition heap_blocks :: "heap \<Rightarrow> u32 list \<Rightarrow> bool" where
  "heap_blocks h os \<longleftrightarrow> geom h os \<and> calm (hdr h) os \<and> lfree_ok h os \<and> used_mem h = used_sum (hdr h) os"

lemma hpath_append: "hpath hm a (xs @ ys) b \<longleftrightarrow> (\<exists>c. hpath hm a xs c \<and> hpath hm c ys b)"
  by (induction xs arbitrary: a) auto

lemma hpath_Cons_end: "hpath hm a (xs @ x # ys) b \<longleftrightarrow>
    hpath hm a xs x \<and> blk_ok hm x \<and> hpath hm (hnext (hm x)) ys b"
  by (auto simp: hpath_append)

lemma hpath_bounds:
  "hpath hm a xs b \<Longrightarrow> unat a \<le> unat b
    \<and> (\<forall>x \<in> set xs. unat a \<le> unat x \<and> unat x + 16 \<le> unat (hnext (hm x)) \<and> unat (hnext (hm x)) \<le> unat b)"
proof (induction xs arbitrary: a)
  case Nil
  then show ?case by simp
next
  case (Cons x xs)
  then have "a = x" "unat x + 16 \<le> unat (hnext (hm x))" "hpath hm (hnext (hm x)) xs b" by (auto simp: blk_ok_def)
  with Cons.IH [OF this(3)] show ?case by fastforce
qed

lemma hpath_cong:
  "(\<And>x. x \<in> set xs \<Longrightarrow> hnext (f x) = hnext (g x) \<and> magic (f x) = magic (g x)) \<Longrightarrow>
   hpath f a xs b = hpath g a xs b"
  by (induction xs arbitrary: a) (auto simp: blk_ok_def)

lemma hprevs_cong: "(\<And>x. x \<in> set xs \<Longrightarrow> hprev (f x) = hprev (g x)) \<Longrightarrow> hprevs f p xs = hprevs g p xs"
  by (induction xs arbitrary: p) auto

lemma hprevs_append: "hprevs hm p (xs @ ys) \<longleftrightarrow> hprevs hm p xs \<and> hprevs hm (last (p # xs)) ys"
  by (induction xs arbitrary: p) auto

lemma calm_cong: "(\<And>x. x \<in> set os \<Longrightarrow> used (f x) = used (g x)) \<Longrightarrow> calm f os = calm g os"
  unfolding calm_def by (intro successively_cong) auto

lemma used_sum_append: "used_sum hm (xs @ ys) = used_sum hm xs + used_sum hm ys"
  by (simp add: used_sum_def)

lemma used_sum_Cons: "used_sum hm (x # xs) = (if used (hm x) = 0 then 0 else blk_size hm x) + used_sum hm xs"
  by (simp add: used_sum_def)

lemma used_sum_cong:
  assumes "\<And>x. x \<in> set os \<Longrightarrow> used (f x) = used (g x) \<and> hnext (f x) = hnext (g x)"
  shows "used_sum f os = used_sum g os"
proof -
  have "filter (\<lambda>x. used (f x) \<noteq> 0) os = filter (\<lambda>x. used (g x) \<noteq> 0) os"
    using assms by (intro filter_cong) auto
  then show ?thesis
    using assms unfolding used_sum_def by (auto simp: blk_size_def intro!: arg_cong [of _ _ sum_list] map_cong)
qed

text \<open>The neighbourhood of a block.\<close>

lemma geom_split:
  assumes "geom h (xs @ x # ys)"
  shows "hpath (hdr h) 0 xs x" "blk_ok (hdr h) x" "hpath (hdr h) (hnext (hdr h x)) ys (heap_end h)"
    "x \<notin> set xs" "x \<notin> set ys" "x \<noteq> heap_end h" "heap_end h \<notin> set xs" "heap_end h \<notin> set ys"
    "set xs \<inter> set ys = {}" "hnext (hdr h x) \<noteq> x" "hnext (hdr h x) \<notin> set xs"
    "\<And>y. y \<in> set xs \<Longrightarrow> hnext (hdr h x) \<noteq> y"
proof -
  have g: "hpath (hdr h) 0 (xs @ x # ys) (heap_end h)" using assms by (simp add: geom_def)
  then show p: "hpath (hdr h) 0 xs x" "blk_ok (hdr h) x" "hpath (hdr h) (hnext (hdr h x)) ys (heap_end h)"
    by (simp_all add: hpath_Cons_end)
  note b = hpath_bounds [OF p(1)] hpath_bounds [OF p(3)] p(2) [unfolded blk_ok_def]
  then show "x \<notin> set xs" "x \<notin> set ys" "x \<noteq> heap_end h" "heap_end h \<notin> set xs" "heap_end h \<notin> set ys"
    "set xs \<inter> set ys = {}" "hnext (hdr h x) \<noteq> x" "hnext (hdr h x) \<notin> set xs"
    "\<And>y. y \<in> set xs \<Longrightarrow> hnext (hdr h x) \<noteq> y"
    by fastforce+
qed

lemma geom_prev: "geom h (xs @ x # ys) \<Longrightarrow> hprev (hdr h x) = last (0 # xs)"
  by (auto simp: geom_def hprevs_append)

lemma geom_first: "geom h (x # ys) \<Longrightarrow> x = 0"
  by (simp add: geom_def)

lemma geom_next:
  assumes "geom h (xs @ x # ys)"
  shows "hnext (hdr h x) = (case ys of [] \<Rightarrow> heap_end h | y # _ \<Rightarrow> y)"
  using geom_split(3) [OF assms] by (cases ys) auto

lemma unat_heap_end: "geom h os \<Longrightarrow> unat (heap_end h) = unat (mem_size_aligned h) + 12"
  by (simp add: geom_def heap_end_def unat_word_ariths)

text \<open>Addresses of the heap do not wrap.\<close>

lemma heap_addr:
  assumes g: "geom h os" and x: "unat x \<le> unat (heap_end h) + 12" "unat (heap_ptr h) + unat x < 2 ^ 32"
  shows "unat (heap_ptr h + x) = unat (heap_ptr h) + unat x"
  using x(2) by (simp add: unat_word_ariths)

lemma geom_member:
  assumes "geom h os" "x \<in> set os"
  shows "unat x + 16 \<le> unat (hnext (hdr h x))" "unat (hnext (hdr h x)) \<le> unat (heap_end h)"
    "unat (heap_ptr h + x) = unat (heap_ptr h) + unat x"
    "unat (heap_ptr h) + unat (heap_end h) + 12 \<le> 2 ^ 32" "magic (hdr h x) = HEAP_MAGIC" "4 dvd unat x"
proof -
  have p: "hpath (hdr h) 0 os (heap_end h)" using assms(1) by (simp add: geom_def)
  show b: "unat x + 16 \<le> unat (hnext (hdr h x))" "unat (hnext (hdr h x)) \<le> unat (heap_end h)"
    using hpath_bounds [OF p] assms(2) by auto
  show e: "unat (heap_ptr h) + unat (heap_end h) + 12 \<le> 2 ^ 32"
    using assms(1) unat_heap_end [OF assms(1)] by (simp add: geom_def)
  show "unat (heap_ptr h + x) = unat (heap_ptr h) + unat x" using b e by (simp add: unat_word_ariths)
  obtain xs ys where "os = xs @ x # ys" using assms(2) by (auto simp: in_set_conv_decomp)
  with geom_split(2) [of h xs x ys] assms(1) show "magic (hdr h x) = HEAP_MAGIC" "4 dvd unat x"
    by (simp_all add: blk_ok_def)
qed

lemma calm_split: "calm hm (xs @ m # ys) \<longleftrightarrow> calm hm xs \<and> calm hm ys
    \<and> (xs = [] \<or> used (hm (last xs)) \<noteq> 0 \<or> used (hm m) \<noteq> 0)
    \<and> (case ys of [] \<Rightarrow> True | y # _ \<Rightarrow> used (hm m) \<noteq> 0 \<or> used (hm y) \<noteq> 0)"
  by (cases ys) (auto simp: calm_def successively_append_iff)

section \<open>Merging and splitting\<close>

definition same_heap :: "heap \<Rightarrow> heap \<Rightarrow> bool" where
  "same_heap h h' \<longleftrightarrow> heap_ptr h' = heap_ptr h \<and> mem_size_aligned h' = mem_size_aligned h"

lemma same_heap_end: "same_heap h h' \<Longrightarrow> heap_end h' = heap_end h"
  by (simp add: same_heap_def heap_end_def)

lemma merge_fields [simp]:
  "heap_ptr (merge a b h) = heap_ptr h" "mem_size_aligned (merge a b h) = mem_size_aligned h"
  "heap_end (merge a b h) = heap_end h" "used_mem (merge a b h) = used_mem h"
  "max_mem (merge a b h) = max_mem h" "bytes (merge a b h) = bytes h"
  "used (hdr (merge a b h) x) = used (hdr h x)" "magic (hdr (merge a b h) x) = magic (hdr h x)"
  "hnext (hdr (merge a b h) x) = (if x = a then hnext (hdr h b) else hnext (hdr h x))"
  "hprev (hdr (merge a b h) x) = (if x = hnext (hdr h b) then a else hprev (hdr h x))"
  "lfree (merge a b h) = (if lfree h = b then a else lfree h)"
  by (simp_all add: merge_def Let_def heap_end_def)

lemma merge_geom:
  assumes g: "geom h (xs @ a # b # ys)"
  shows "geom (merge a b h) (xs @ a # ys)"
proof -
  let ?H = "hdr (merge a b h)"
  note sa = geom_split [OF g] and sb = geom_split [of h "xs @ [a]" b ys, simplified, OF g]
  have nb: "hnext (hdr h a) = b" using geom_next [OF g] by simp
  have "hpath ?H 0 xs a = hpath (hdr h) 0 xs a" by (rule hpath_cong) (use sa(4) in auto)
  then have "hpath ?H 0 xs a" using sa(1) by simp
  moreover have "blk_ok ?H a" using sa(2) sb(2) nb by (auto simp: blk_ok_def)
  moreover have "hpath ?H (hnext (hdr h b)) ys (heap_end h) = hpath (hdr h) (hnext (hdr h b)) ys (heap_end h)"
    by (rule hpath_cong) (use sa(5) in auto)
  ultimately have p: "hpath ?H 0 (xs @ a # ys) (heap_end h)" using sb(3) by (simp add: hpath_Cons_end)
  have pr: "hprevs (hdr h) 0 (xs @ a # b # ys)" using g by (simp add: geom_def)
  have nn: "hnext (hdr h b) = (case ys of [] \<Rightarrow> heap_end h | y # _ \<Rightarrow> y)"
    using geom_next [of h "xs @ [a]" b ys] g by simp
  have nx: "hnext (hdr h b) \<notin> set (xs @ [a])" using sb(11) by simp
  have "hprevs ?H 0 xs = hprevs (hdr h) 0 xs" by (rule hprevs_cong) (use nx in auto)
  then have "hprevs ?H 0 xs" "hprev (?H a) = hprev (hdr h a)"
    using pr nx by (auto simp: hprevs_append)
  moreover have "hprevs ?H a ys"
  proof (cases ys)
    case (Cons y zs)
    have "y \<notin> set zs" using geom_split(5) [of h "xs @ [a, b]" y zs] g Cons by simp
    then have "hprevs ?H y zs = hprevs (hdr h) y zs" using nn Cons by (intro hprevs_cong) auto
    then have "hprevs ?H y zs" using pr Cons by (simp add: hprevs_append)
    then show ?thesis using Cons nn by simp
  qed simp
  ultimately have "hprevs ?H 0 (xs @ a # ys)" using pr by (simp add: hprevs_append)
  with p g show ?thesis by (simp add: geom_def)
qed

lemma merge_rest:
  assumes g: "geom h (xs @ a # b # ys)" and u: "used (hdr h a) = 0" "used (hdr h b) = 0"
  shows "lfree_ok h (xs @ a # b # ys) \<Longrightarrow> lfree_ok (merge a b h) (xs @ a # ys)"
    "used_sum (hdr (merge a b h)) (xs @ a # ys) = used_sum (hdr h) (xs @ a # b # ys)"
    "calm (hdr (merge a b h)) zs = calm (hdr h) zs"
    "lfree_low h (xs @ a # b # ys) \<Longrightarrow> lfree_low (merge a b h) (xs @ a # ys)"
proof -
  note sa = geom_split [OF g] and sb = geom_split [of h "xs @ [a]" b ys, simplified, OF g]
  show "lfree_ok h (xs @ a # b # ys) \<Longrightarrow> lfree_ok (merge a b h) (xs @ a # ys)"
    using u sb(6) by (auto simp: lfree_ok_def)
  have "used_sum (hdr (merge a b h)) zs = used_sum (hdr h) zs" if "a \<notin> set zs" for zs
    using that by (intro used_sum_cong) auto
  then show "used_sum (hdr (merge a b h)) (xs @ a # ys) = used_sum (hdr h) (xs @ a # b # ys)"
    using sa(4,5) u by (simp add: used_sum_append used_sum_Cons)
  show "calm (hdr (merge a b h)) zs = calm (hdr h) zs" by (rule calm_cong) simp
  have "unat a < unat b" using geom_next [OF g] sa(2) by (simp add: blk_ok_def)
  then show "lfree_low h (xs @ a # b # ys) \<Longrightarrow> lfree_low (merge a b h) (xs @ a # ys)"
    using u by (fastforce simp: lfree_low_def)
qed

text \<open>The blocks in use, with their extent.\<close>

definition used_blocks :: "heap \<Rightarrow> u32 list \<Rightarrow> (u32 \<times> u32) set" where
  "used_blocks h os = (\<lambda>x. (x, hnext (hdr h x))) ` {x \<in> set os. used (hdr h x) \<noteq> 0}"

lemma merge_used_blocks:
  "used (hdr h a) = 0 \<Longrightarrow> used (hdr h b) = 0 \<Longrightarrow>
   used_blocks (merge a b h) (xs @ a # ys) = used_blocks h (xs @ a # b # ys)"
  by (auto simp: used_blocks_def image_iff)

text \<open>A freed block between two calm halves.\<close>

lemma plug_holes_spec:
  assumes g: "geom h (xs @ m # ys)" and u: "used (hdr h m) = 0" and c: "calm (hdr h) xs" "calm (hdr h) ys"
    and lf: "lfree_ok h (xs @ m # ys)" and st: "used_mem h = used_sum (hdr h) (xs @ m # ys)"
  shows "\<exists>h' os'. plug_holes m h = Some h' \<and> heap_blocks h' os' \<and> same_heap h h' \<and> bytes h' = bytes h
    \<and> used_mem h' = used_mem h \<and> used_blocks h' os' = used_blocks h (xs @ m # ys)
    \<and> (lfree_low h (xs @ m # ys) \<longrightarrow> lfree_low h' os')"
proof -
  note s = geom_split [OF g]
  have mo: "m \<in> set (xs @ m # ys)" by simp
  have e: "unat (heap_ptr h + heap_end h) = unat (heap_ptr h) + unat (heap_end h)"
    using geom_member(4) [OF g mo] by (simp add: unat_word_ariths)
  have asrt: "heap_ptr h \<le> heap_ptr h + m \<and> heap_ptr h + m < heap_ptr h + heap_end h"
    using geom_member(1-3) [OF g mo] e by (simp add: word_le_nat_alt word_less_nat_alt)
  define n where "n = hnext (hdr h m)"
  define h1 where "h1 = (if m \<noteq> n \<and> used (hdr h n) = 0 \<and> n \<noteq> heap_end h then merge m n h else h)"
  have "\<exists>ys1. geom h1 (xs @ m # ys1) \<and> lfree_ok h1 (xs @ m # ys1) \<and> used_sum (hdr h1) (xs @ m # ys1) = used_mem h1
      \<and> calm (hdr h1) xs \<and> calm (hdr h1) ys1 \<and> (case ys1 of [] \<Rightarrow> True | y # _ \<Rightarrow> used (hdr h1 y) \<noteq> 0)
      \<and> used_blocks h1 (xs @ m # ys1) = used_blocks h (xs @ m # ys)
      \<and> (lfree_low h (xs @ m # ys) \<longrightarrow> lfree_low h1 (xs @ m # ys1))"
  proof (cases "ys \<noteq> [] \<and> used (hdr h (List.hd ys)) = 0")
    case True
    then obtain y zs where ys: "ys = y # zs" and uy: "used (hdr h y) = 0" by (cases ys) auto
    have n: "n = y" using geom_next [OF g] ys by (simp add: n_def)
    have yE: "y \<noteq> heap_end h" "y \<noteq> m" using s(5,8) ys by auto
    then have h1: "h1 = merge m y h" using n uy by (simp add: h1_def)
    note mg = merge_geom [OF g [unfolded ys]] and mr = merge_rest [OF g [unfolded ys] u uy]
    have "calm (hdr h) zs \<and> (case zs of [] \<Rightarrow> True | z # _ \<Rightarrow> used (hdr h z) \<noteq> 0)"
      using c(2) uy ys by (cases zs) (auto simp: calm_def)
    then show ?thesis
      using mg mr lf st c(1) merge_used_blocks [OF u uy] ys by (intro exI [of _ zs]) (auto simp: h1 split: list.splits)
  next
    case False
    then have "h1 = h" using geom_next [OF g] by (cases ys) (auto simp: h1_def n_def)
    moreover have "case ys of [] \<Rightarrow> True | y # _ \<Rightarrow> used (hdr h y) \<noteq> 0" using False by (cases ys) auto
    ultimately show ?thesis using g lf st c by (intro exI [of _ ys]) auto
  qed
  then obtain ys1 where g1: "geom h1 (xs @ m # ys1)" "lfree_ok h1 (xs @ m # ys1)"
    "used_sum (hdr h1) (xs @ m # ys1) = used_mem h1" "calm (hdr h1) xs" "calm (hdr h1) ys1"
    "case ys1 of [] \<Rightarrow> True | y # _ \<Rightarrow> used (hdr h1 y) \<noteq> 0"
    "used_blocks h1 (xs @ m # ys1) = used_blocks h (xs @ m # ys)"
    "lfree_low h (xs @ m # ys) \<longrightarrow> lfree_low h1 (xs @ m # ys1)" by blast
  have f1: "same_heap h h1" "bytes h1 = bytes h" "used_mem h1 = used_mem h" "used (hdr h1 x) = used (hdr h x)" for x
    by (simp_all add: h1_def same_heap_def)
  have um: "used (hdr h1 m) = 0" using f1(4) u by simp
  define p where "p = hprev (hdr h1 m)"
  define h2 where "h2 = (if p \<noteq> m \<and> used (hdr h1 p) = 0 then merge p m h1 else h1)"
  have pl: "plug_holes m h = Some h2"
    using asrt u by (simp add: plug_holes_def Let_def n_def [symmetric] h1_def [symmetric] p_def [symmetric]
        h2_def)
  have p: "p = last (0 # xs)" using geom_prev [OF g1(1)] by (simp add: p_def)
  show ?thesis
  proof (cases "xs \<noteq> [] \<and> used (hdr h1 (last xs)) = 0")
    case True
    then obtain ws q where xs: "xs = ws @ [q]" and uq: "used (hdr h1 q) = 0"
      by (metis append_butlast_last_id)
    have "p = q" "q \<noteq> m" using p xs s(4) by auto
    then have h2: "h2 = merge q m h1" using uq by (simp add: h2_def)
    have g1': "geom h1 (ws @ q # m # ys1)" using g1(1) xs by simp
    note mg = merge_geom [OF g1'] and mr = merge_rest [OF g1' uq um]
    have "calm (hdr h1) (ws @ [q])" using g1(4) xs by simp
    then have "calm (hdr h1) (ws @ q # ys1)"
      using g1(5,6) uq unfolding calm_split [of _ ws q ys1] by (auto simp: calm_def successively_append_iff split: list.splits)
    then have "heap_blocks h2 (ws @ q # ys1)"
      using mg mr g1(2,3) xs by (simp add: heap_blocks_def h2)
    moreover have "used_blocks h2 (ws @ q # ys1) = used_blocks h (xs @ m # ys)"
      using merge_used_blocks [OF uq um, of ws ys1] g1(7) xs by (simp add: h2)
    moreover have "lfree_low h (xs @ m # ys) \<longrightarrow> lfree_low h2 (ws @ q # ys1)"
      using mr(4) g1(8) xs by (simp add: h2)
    ultimately show ?thesis using pl f1 by (intro exI [of _ h2] exI [of _ "ws @ q # ys1"]) (simp add: h2 same_heap_def)
  next
    case False
    have "h2 = h1"
    proof (cases "xs = []")
      case True
      then have "m = 0" using g1(1) geom_first by simp
      then show ?thesis using p True by (simp add: h2_def)
    next
      case Fx: False
      then show ?thesis using False p by (simp add: h2_def)
    qed
    moreover have "calm (hdr h1) (xs @ m # ys1)"
      using g1(4-6) False unfolding calm_split by (auto split: list.splits)
    ultimately show ?thesis using pl g1 f1 by (intro exI [of _ h1] exI [of _ "xs @ m # ys1"]) (simp add: heap_blocks_def)
  qed
qed

text \<open>Splitting a block: the remainder becomes a free block of its own.\<close>

lemma split_geom:
  assumes g: "geom h (xs @ m # ys)" and len: "unat m + 12 + unat len + 16 \<le> unat (hnext (hdr h m))"
    "4 dvd unat len" "4 \<le> unat len"
  defines "m2 \<equiv> m + 12 + len"
  shows "geom (split_block m m2 h) (xs @ m # m2 # ys)" "m2 \<notin> set (xs @ m # ys)" "m2 \<noteq> heap_end h"
    "unat m2 = unat m + 12 + unat len"
    "\<And>x. x \<noteq> m2 \<Longrightarrow> used (hdr (split_block m m2 h) x) = used (hdr h x)"
    "\<And>x. x \<noteq> m \<Longrightarrow> x \<noteq> m2 \<Longrightarrow> hnext (hdr (split_block m m2 h) x) = hnext (hdr h x)"
    "used (hdr (split_block m m2 h) m2) = 0" "hnext (hdr (split_block m m2 h) m2) = hnext (hdr h m)"
    "hnext (hdr (split_block m m2 h) m) = m2"
proof -
  let ?H = "hdr (split_block m m2 h)" and ?n = "hnext (hdr h m)"
  note s = geom_split [OF g]
  have mo: "m \<in> set (xs @ m # ys)" by simp
  have "unat ?n < 2 ^ 32" using unat_u32 [of ?n] by simp
  then show u: "unat m2 = unat m + 12 + unat len"
    using len(1) unfolding m2_def by (simp add: unat_word_ariths)
  have bx: "z \<in> set xs \<Longrightarrow> unat z < unat m" for z using hpath_bounds [OF s(1)] by fastforce
  have b: "z \<in> set ys \<Longrightarrow> unat ?n \<le> unat z" for z using hpath_bounds [OF s(3)] by blast
  have e: "unat ?n \<le> unat (heap_end h)" using geom_member(2) [OF g mo] .
  have ne: "m2 \<noteq> m" "m2 \<noteq> ?n" using u len(1) by auto
  show n2: "m2 \<notin> set (xs @ m # ys)" using bx b u len(1) by fastforce
  show m2e: "m2 \<noteq> heap_end h" using e u len(1) by auto
  have H: "?H x = (if x = m then (hdr h m)\<lparr>hnext := m2\<rparr>
      else if x = m2 then \<lparr>magic = HEAP_MAGIC, used = 0, hnext = ?n, hprev = m\<rparr>
      else if x = ?n \<and> ?n \<noteq> heap_end h then (hdr h x)\<lparr>hprev := m2\<rparr> else hdr h x)" for x
    using s(10) ne by (simp add: split_block_def Let_def)
  show uu: "\<And>x. x \<noteq> m2 \<Longrightarrow> used (?H x) = used (hdr h x)"
    and nx: "\<And>x. x \<noteq> m \<Longrightarrow> x \<noteq> m2 \<Longrightarrow> hnext (?H x) = hnext (hdr h x)"
    and "used (?H m2) = 0" "hnext (?H m2) = hnext (hdr h m)" "hnext (?H m) = m2"
    using ne by (simp_all add: H)
  have eq: "heap_end (split_block m m2 h) = heap_end h" by (simp add: split_block_def heap_end_def Let_def)
  have "hpath ?H 0 xs m = hpath (hdr h) 0 xs m" by (rule hpath_cong) (use s(4) n2 in \<open>auto simp: H\<close>)
  then have p1: "hpath ?H 0 xs m" using s(1) by simp
  have "hpath ?H ?n ys (heap_end h) = hpath (hdr h) ?n ys (heap_end h)"
    by (rule hpath_cong) (use s(5) n2 in \<open>auto simp: H\<close>)
  then have p2: "hpath ?H ?n ys (heap_end h)" using s(3) by simp
  have "blk_ok ?H m" "blk_ok ?H m2" using s(2) u len ne by (auto simp: blk_ok_def H)
  then have path: "hpath ?H 0 (xs @ m # m2 # ys) (heap_end h)"
    using p1 p2 ne by (simp add: hpath_Cons_end) (simp add: H)
  have pr: "hprevs (hdr h) 0 xs" "hprev (hdr h m) = last (0 # xs)" "hprevs (hdr h) m ys"
    using g geom_prev [OF g] by (simp_all add: geom_def hprevs_append)
  have "hprevs ?H 0 xs = hprevs (hdr h) 0 xs"
    by (rule hprevs_cong) (use s(4,11) n2 in \<open>auto simp: H\<close>)
  moreover have "hprevs ?H m2 ys"
  proof (cases ys)
    case (Cons y zs)
    have "?n = y" using geom_next [OF g] Cons by simp
    moreover have "y \<notin> set zs" using geom_split(5) [of h "xs @ [m]" y zs] g Cons by simp
    then have "hprevs ?H y zs = hprevs (hdr h) y zs"
      using Cons s(5) n2 \<open>?n = y\<close> by (intro hprevs_cong) (auto simp: H)
    moreover have "y \<noteq> heap_end h" "y \<noteq> m" "y \<noteq> m2" using s(8,5) n2 Cons by auto
    ultimately show ?thesis using pr(3) Cons by (simp add: H)
  qed simp
  ultimately have "hprevs ?H 0 (xs @ m # m2 # ys)"
    using pr ne by (simp add: hprevs_append H)
  moreover have "used (?H (heap_end h)) \<noteq> 0" using uu [of "heap_end h"] m2e g by (simp add: geom_def)
  ultimately show "geom (split_block m m2 h) (xs @ m # m2 # ys)"
    using path g eq by (simp add: geom_def) (simp add: split_block_def Let_def)
qed

section \<open>The searches end\<close>

definition fits :: "heap \<Rightarrow> u32 \<Rightarrow> u32 \<Rightarrow> bool" where
  "fits h len x \<longleftrightarrow> used (hdr h x) = 0 \<and> unat x + unat len < unat (mem_size_aligned h)
     \<and> unat x + 12 + unat len \<le> unat (hnext (hdr h x))"

lemma find_fit_spec:
  assumes "hpath (hdr h) p zs (heap_end h)" and "len \<le> mem_size_aligned h"
    and "unat (heap_end h) = unat (mem_size_aligned h) + 12"
  shows "\<exists>r. find_fit h len p = Some r \<and> (case r of
      None \<Rightarrow> \<forall>z \<in> set zs. \<not> fits h len z
    | Some x \<Rightarrow> x \<in> set zs \<and> fits h len x \<and> (\<forall>z \<in> set zs. unat z < unat x \<longrightarrow> \<not> fits h len z))"
  using assms(1)
proof (induction zs arbitrary: p)
  have lim: "unat (mem_size_aligned h - len) = unat (mem_size_aligned h) - unat len"
    using assms(2) by (simp add: unat_sub)
  {
    case Nil
    then have "\<not> p < mem_size_aligned h - len" using lim assms(3) by (simp add: word_less_nat_alt)
    then show ?case by (subst find_fit.simps) simp
  next
    case (Cons x xs)
    then have p: "p = x" "blk_ok (hdr h) x" "hpath (hdr h) (hnext (hdr h x)) xs (heap_end h)" by simp_all
    have b: "unat x + 16 \<le> unat (hnext (hdr h x))" using p(2) by (simp add: blk_ok_def)
    have later: "unat (hnext (hdr h x)) \<le> unat z" if "z \<in> set xs" for z using hpath_bounds [OF p(3)] that by blast
    have inrange: "p < mem_size_aligned h - len \<longleftrightarrow> unat x + unat len < unat (mem_size_aligned h)"
      using lim p(1) by (auto simp: word_less_nat_alt)
    have fit: "used (hdr h x) = 0 \<and> len \<le> hnext (hdr h x) - (x + 12) \<longleftrightarrow> fits h len x"
      if "unat x + unat len < unat (mem_size_aligned h)"
    proof -
      have "unat (x + 12) = unat x + 12" using b unat_u32 [of "hnext (hdr h x)"] by (simp add: unat_word_ariths)
      then have "unat (hnext (hdr h x) - (x + 12)) = unat (hnext (hdr h x)) - (unat x + 12)"
        using b by (simp add: unat_sub word_le_nat_alt)
      then show ?thesis using that b by (auto simp: fits_def word_le_nat_alt)
    qed
    show ?case
    proof (cases "p < mem_size_aligned h - len")
      case False
      then have "find_fit h len p = Some None" by (subst find_fit.simps) simp
      moreover have "\<not> fits h len z" if "z \<in> set (x # xs)" for z
      proof -
        have "unat x \<le> unat z" using that later [of z] b by fastforce
        then show ?thesis using False inrange by (auto simp: fits_def)
      qed
      ultimately show ?thesis by auto
    next
      case True
      show ?thesis
      proof (cases "fits h len x")
        case F: True
        then have "find_fit h len p = Some (Some x)"
          using True fit inrange p(1) by (subst find_fit.simps) simp
        then show ?thesis using F later b by fastforce
      next
        case F: False
        then have "find_fit h len p = find_fit h len (hnext (hdr h x))"
          using True fit inrange p(1) by (subst find_fit.simps) auto
        with Cons.IH [OF p(3)] F later b show ?thesis by (fastforce split: option.splits)
      qed
    qed
  }
qed

lemma skip_used_spec:
  "hpath (hdr h) p zs (heap_end h) \<Longrightarrow>
   \<exists>l. skip_used h p = Some l \<and> (l = heap_end h \<or> l \<in> set zs \<and> used (hdr h l) = 0)
     \<and> (\<forall>z \<in> set zs. used (hdr h z) = 0 \<longrightarrow> unat l \<le> unat z)"
proof (induction zs arbitrary: p)
  case Nil
  then show ?case by (subst skip_used.simps) simp
next
  case (Cons x xs)
  then have p: "p = x" "unat x + 16 \<le> unat (hnext (hdr h x))" "hpath (hdr h) (hnext (hdr h x)) xs (heap_end h)"
    by (auto simp: blk_ok_def)
  note b = hpath_bounds [OF p(3)]
  show ?case
  proof (cases "used (hdr h x) = 0")
    case True
    then have "skip_used h p = Some x" using p(1) by (subst skip_used.simps) simp
    moreover have "\<forall>z \<in> set xs. unat x \<le> unat z" using b p(2) by fastforce
    ultimately show ?thesis using True by auto
  next
    case False
    moreover have "x \<noteq> heap_end h" using b p(2) by auto
    ultimately have "skip_used h p = skip_used h (hnext (hdr h x))" using p(1) by (subst skip_used.simps) simp
    with Cons.IH [OF p(3)] False show ?thesis by auto
  qed
qed

section \<open>Allocating\<close>

lemma set_used_fields [simp]:
  "heap_ptr (set_used m u h) = heap_ptr h" "mem_size_aligned (set_used m u h) = mem_size_aligned h"
  "heap_end (set_used m u h) = heap_end h" "used_mem (set_used m u h) = used_mem h"
  "max_mem (set_used m u h) = max_mem h" "bytes (set_used m u h) = bytes h" "lfree (set_used m u h) = lfree h"
  "used (hdr (set_used m u h) x) = (if x = m then u else used (hdr h x))"
  "magic (hdr (set_used m u h) x) = (if x = m then HEAP_MAGIC else magic (hdr h x))"
  "hnext (hdr (set_used m u h) x) = hnext (hdr h x)" "hprev (hdr (set_used m u h) x) = hprev (hdr h x)"
  by (simp_all add: set_used_def heap_end_def)

lemma geom_cong:
  assumes "\<And>x. x \<in> set os \<Longrightarrow> hnext (hdr h' x) = hnext (hdr h x) \<and> magic (hdr h' x) = magic (hdr h x)
      \<and> hprev (hdr h' x) = hprev (hdr h x)"
    and "same_heap h h'" "used (hdr h' (heap_end h)) = used (hdr h (heap_end h))"
  shows "geom h' os = geom h os"
proof -
  have "hpath (hdr h') 0 os e = hpath (hdr h) 0 os e" for e by (rule hpath_cong) (use assms(1) in auto)
  moreover have "hprevs (hdr h') 0 os = hprevs (hdr h) 0 os" by (rule hprevs_cong) (use assms(1) in auto)
  ultimately show ?thesis
    using assms(2,3) same_heap_end [OF assms(2)] by (simp add: geom_def same_heap_def)
qed

lemma set_used_geom: "geom h (xs @ m # ys) \<Longrightarrow> geom (set_used m u h) (xs @ m # ys)"
  using geom_member(5) [of h "xs @ m # ys"] geom_split(6) [of h xs m ys]
  by (subst geom_cong [where h = h]) (auto simp: same_heap_def)

text \<open>Taking a free block out of two calm halves; \<open>nx\<close> is where it ends.\<close>

lemma set_used_blocks:
  assumes g: "geom h (xs @ m # zs)" and u: "used (hdr h m) = 0" and c: "calm (hdr h) xs" "calm (hdr h) zs"
  shows "calm (hdr (set_used m 1 h)) (xs @ m # zs)"
    "used_sum (hdr (set_used m 1 h)) (xs @ m # zs) = used_sum (hdr h) (xs @ m # zs) + blk_size (hdr h) m"
    "used_blocks (set_used m 1 h) (xs @ m # zs) = insert (m, hnext (hdr h m)) (used_blocks h (xs @ m # zs))"
proof -
  note s = geom_split [OF g]
  have "calm (hdr (set_used m 1 h)) ws = calm (hdr h) ws" if "m \<notin> set ws" for ws
    by (rule calm_cong) (use that in auto)
  then show "calm (hdr (set_used m 1 h)) (xs @ m # zs)"
    using c s(4,5) unfolding calm_split by (auto split: list.splits)
  have "used_sum (hdr (set_used m 1 h)) ws = used_sum (hdr h) ws" if "m \<notin> set ws" for ws
    by (rule used_sum_cong) (use that in auto)
  then show "used_sum (hdr (set_used m 1 h)) (xs @ m # zs) = used_sum (hdr h) (xs @ m # zs) + blk_size (hdr h) m"
    using s(4,5) u by (simp add: used_sum_append used_sum_Cons blk_size_def)
  show "used_blocks (set_used m 1 h) (xs @ m # zs) = insert (m, hnext (hdr h m)) (used_blocks h (xs @ m # zs))"
    using u by (auto simp: used_blocks_def)
qed

lemma split_fields [simp]:
  "heap_ptr (split_block m m2 h) = heap_ptr h" "mem_size_aligned (split_block m m2 h) = mem_size_aligned h"
  "heap_end (split_block m m2 h) = heap_end h" "used_mem (split_block m m2 h) = used_mem h"
  "max_mem (split_block m m2 h) = max_mem h" "bytes (split_block m m2 h) = bytes h"
  "lfree (split_block m m2 h) = lfree h"
  by (simp_all add: split_block_def heap_end_def Let_def)

text \<open>The block that \<open>take_block\<close> marks, after the split if there is one.\<close>

lemma split_found:
  assumes hb: "heap_blocks h (xs @ m # ys)" and u: "used (hdr h m) = 0" and f: "fits h len m"
    and len: "unat m + 12 + unat len \<le> unat (hnext (hdr h m))" "4 dvd unat len" "4 \<le> unat len"
  defines "sp \<equiv> len + 12 + 12 \<le> hnext (hdr h m) - (m + 12)"
  defines "h1 \<equiv> (if sp then split_block m (m + 12 + len) h else h)"
  shows "\<exists>zs. geom h1 (xs @ m # zs) \<and> used (hdr h1 m) = 0 \<and> calm (hdr h1) xs \<and> calm (hdr h1) zs
    \<and> lfree_ok h1 (xs @ m # zs) \<and> (lfree_low h (xs @ m # ys) \<longrightarrow> lfree_low h1 (xs @ m # zs)) \<and> used_sum (hdr h1) (xs @ m # zs) = used_mem h
    \<and> used_blocks h1 (xs @ m # zs) = used_blocks h (xs @ m # ys)
    \<and> unat m + 12 + unat len \<le> unat (hnext (hdr h1 m))
    \<and> blk_size (hdr h1) m = (if sp then len + 12 else hnext (hdr h m) - m)"
proof -
  have g: "geom h (xs @ m # ys)" "calm (hdr h) (xs @ m # ys)" "lfree_ok h (xs @ m # ys)"
    "used_mem h = used_sum (hdr h) (xs @ m # ys)" using hb by (auto simp: heap_blocks_def)
  note s = geom_split [OF g(1)]
  have c: "calm (hdr h) xs" "calm (hdr h) ys" "case ys of [] \<Rightarrow> True | y # _ \<Rightarrow> used (hdr h y) \<noteq> 0"
    using g(2) u unfolding calm_split by (auto split: list.splits)
  show ?thesis
  proof (cases sp)
    case False
    with g c u len show ?thesis by (intro exI [of _ ys]) (simp add: h1_def blk_size_def)
  next
    case True
    let ?m2 = "m + 12 + len" and ?S = "split_block m (m + 12 + len) h"
    have mo: "m \<in> set (xs @ m # ys)" by simp
    have "unat (len + 12 + 12) = unat len + 24"
      using geom_member(4) [OF g(1) mo] unat_heap_end [OF g(1)] f by (simp add: unat_word_ariths fits_def)
    moreover have "unat (m + 12) = unat m + 12"
      using len(1) unat_u32 [of "hnext (hdr h m)"] by (simp add: unat_word_ariths)
    then have "unat (hnext (hdr h m) - (m + 12)) = unat (hnext (hdr h m)) - (unat m + 12)"
      using len(1) by (simp add: unat_sub word_le_nat_alt)
    ultimately have room: "unat m + 12 + unat len + 16 \<le> unat (hnext (hdr h m))"
      using True len(1) by (simp add: sp_def word_le_nat_alt)
    note sp = split_geom [OF g(1) room len(2,3)]
    have eq: "calm (hdr ?S) ws = calm (hdr h) ws" "used_sum (hdr ?S) ws = used_sum (hdr h) ws"
      if "?m2 \<notin> set ws" "m \<notin> set ws" for ws
    proof -
      have ne: "x \<noteq> ?m2" "x \<noteq> m" if "x \<in> set ws" for x using that \<open>?m2 \<notin> set ws\<close> \<open>m \<notin> set ws\<close> by auto
      show "calm (hdr ?S) ws = calm (hdr h) ws" by (rule calm_cong) (use ne sp(5) in auto)
      show "used_sum (hdr ?S) ws = used_sum (hdr h) ws" by (rule used_sum_cong) (use ne sp(5,6) in auto)
    qed
    have n: "?m2 \<notin> set xs" "?m2 \<notin> set ys" "?m2 \<noteq> m" using sp(2) by auto
    have uS: "used (hdr ?S x) = (if x = ?m2 then 0 else used (hdr h x))" for x using sp(5,7) by simp
    have um: "used (hdr ?S m) = 0" using sp(5) [of m] n u by simp
    have "calm (hdr ?S) (?m2 # ys)"
      using c sp(5) n eq(1) [of ys] s(5) unfolding calm_split [of _ "[]", simplified]
      by (auto simp: calm_def split: list.splits)
    moreover have "lfree_ok ?S (xs @ m # ?m2 # ys)"
    proof -
      have "lfree h \<noteq> ?m2" using g(3) sp(2,3) by (auto simp: lfree_ok_def)
      with sp(5) have "used (hdr ?S (lfree h)) = used (hdr h (lfree h))" by blast
      with g(3) show ?thesis by (auto simp: lfree_ok_def)
    qed
    moreover have "lfree_low h (xs @ m # ys) \<longrightarrow> lfree_low ?S (xs @ m # ?m2 # ys)"
      using uS u sp(4) by (auto simp: lfree_low_def)
    moreover have "used_sum (hdr ?S) (xs @ m # ?m2 # ys) = used_mem h"
      using g(4) eq(2) [of xs] eq(2) [of ys] n s(4,5) u um sp(7) by (simp add: used_sum_append used_sum_Cons)
    moreover have "used_blocks ?S (xs @ m # ?m2 # ys) = used_blocks h (xs @ m # ys)"
    proof -
      have "{x \<in> set (xs @ m # ?m2 # ys). used (hdr ?S x) \<noteq> 0} = {x \<in> set (xs @ m # ys). used (hdr h x) \<noteq> 0}"
        using uS n by auto
      moreover have "hnext (hdr ?S x) = hnext (hdr h x)" if "x \<in> set (xs @ m # ys)" "used (hdr h x) \<noteq> 0" for x
      proof -
        have "x \<noteq> m" "x \<noteq> ?m2" using that sp(2) u by auto
        then show ?thesis by (rule sp(6))
      qed
      ultimately show ?thesis unfolding used_blocks_def by (intro image_cong) auto
    qed
    ultimately show ?thesis
      using sp(1,4,9) um eq(1) [of xs] n s(4) c(1) True
      by (intro exI [of _ "?m2 # ys"]) (simp add: h1_def blk_size_def)
  qed
qed

text \<open>Taking the block found: it and only it is in use afterwards, with room for \<open>len\<close> bytes.\<close>

lemma take_block_spec:
  assumes hb: "heap_blocks h os" and m: "m \<in> set os" "fits h len m" and len: "4 dvd unat len" "4 \<le> unat len"
  shows "\<exists>h' os' nx. take_block m len h = Some h' \<and> heap_blocks h' os' \<and> same_heap h h' \<and> bytes h' = bytes h
    \<and> used_blocks h' os' = insert (m, nx) (used_blocks h os) \<and> unat m + 12 + unat len \<le> unat nx
    \<and> used_mem h' = used_mem h + (nx - m) \<and> max_mem h' = max (max_mem h) (used_mem h')
    \<and> (lfree_low h os \<longrightarrow> lfree_low h' os')"
proof -
  obtain xs ys where os: "os = xs @ m # ys" using m(1) by (auto simp: in_set_conv_decomp)
  have u: "used (hdr h m) = 0" and b: "unat m + 12 + unat len \<le> unat (hnext (hdr h m))"
    using m(2) by (auto simp: fits_def)
  define h1 where "h1 = (if len + 12 + 12 \<le> hnext (hdr h m) - (m + 12) then split_block m (m + 12 + len) h else h)"
  define n where "n = (if len + 12 + 12 \<le> hnext (hdr h m) - (m + 12) then len + 12 else hnext (hdr h m) - m)"
  from split_found [OF hb [unfolded os] u m(2) b len] obtain zs where
    z: "geom h1 (xs @ m # zs)" "used (hdr h1 m) = 0" "calm (hdr h1) xs" "calm (hdr h1) zs"
    "lfree_ok h1 (xs @ m # zs)" "used_sum (hdr h1) (xs @ m # zs) = used_mem h"
    "used_blocks h1 (xs @ m # zs) = used_blocks h os" "unat m + 12 + unat len \<le> unat (hnext (hdr h1 m))"
    "blk_size (hdr h1) m = n" "lfree_low h os \<longrightarrow> lfree_low h1 (xs @ m # zs)"
    unfolding h1_def n_def os by blast
  have f1: "heap_ptr h1 = heap_ptr h" "mem_size_aligned h1 = mem_size_aligned h" "bytes h1 = bytes h"
    "lfree h1 = lfree h" "used_mem h1 = used_mem h" "max_mem h1 = max_mem h"
    by (simp_all add: h1_def)
  define v where "v = used_mem h + n"
  define h2 where "h2 = set_used m 1 h1\<lparr>used_mem := v, max_mem := (if max_mem h < v then v else max_mem h)\<rparr>"
  have e2: "heap_end h2 = heap_end h1" by (simp add: h2_def heap_end_def set_used_def)
  have h2u: "lfree h2 = lfree h" "h2\<lparr>lfree := lfree h\<rparr> = h2" using f1(4) by (simp_all add: h2_def)
  note sb = set_used_blocks [OF z(1-4)]
  have blocks: "heap_blocks (h2\<lparr>lfree := l\<rparr>) (xs @ m # zs)"
    if "l = heap_end h2 \<or> l \<in> set (xs @ m # zs) \<and> used (hdr h2 l) = 0" for l
  proof -
    have "geom (h2\<lparr>lfree := l\<rparr>) (xs @ m # zs)"
      using set_used_geom [OF z(1), of 1] by (subst geom_cong [where h = "set_used m 1 h1"])
        (auto simp: h2_def same_heap_def)
    then show ?thesis
      using that sb(1,2) z(6,9) by (simp add: heap_blocks_def lfree_ok_def h2_def v_def heap_end_def)
  qed
  have res: "same_heap h (h2\<lparr>lfree := l\<rparr>)" "bytes (h2\<lparr>lfree := l\<rparr>) = bytes h"
    "used_blocks (h2\<lparr>lfree := l\<rparr>) (xs @ m # zs) = insert (m, hnext (hdr h1 m)) (used_blocks h os)"
    "used_mem (h2\<lparr>lfree := l\<rparr>) = used_mem h + (hnext (hdr h1 m) - m)"
    "max_mem (h2\<lparr>lfree := l\<rparr>) = max (max_mem h) (used_mem (h2\<lparr>lfree := l\<rparr>))" for l
    using sb(3) z(7,9) f1 by (auto simp: h2_def same_heap_def used_blocks_def v_def blk_size_def max_def)
  have tb: "take_block m len h = (if m = lfree h then do {
        l \<leftarrow> skip_used h2 (lfree h2);
        if l = heap_end h2 \<or> used (hdr h2 l) = 0 then Some (h2\<lparr>lfree := l\<rparr>) else None
      } else Some (h2\<lparr>lfree := lfree h\<rparr>))"
    unfolding take_block_def Let_def h1_def [symmetric] n_def [symmetric] v_def [symmetric] h2_def [symmetric]
    using h2u by simp
  have "\<exists>l. take_block m len h = Some (h2\<lparr>lfree := l\<rparr>)
      \<and> (l = heap_end h2 \<or> l \<in> set (xs @ m # zs) \<and> used (hdr h2 l) = 0)
      \<and> (lfree_low h os \<longrightarrow> lfree_low (h2\<lparr>lfree := l\<rparr>) (xs @ m # zs))"
  proof (cases "m = lfree h")
    case True
    have "hpath (hdr h1) m (m # zs) (heap_end h1)" using geom_split(2,3) [OF z(1)] by simp
    moreover have "hpath (hdr h2) m (m # zs) (heap_end h1) = hpath (hdr h1) m (m # zs) (heap_end h1)"
      by (rule hpath_cong) (use geom_member(5) [OF z(1)] in \<open>auto simp: h2_def\<close>)
    ultimately have "hpath (hdr h2) m (m # zs) (heap_end h2)" using e2 by simp
    from skip_used_spec [OF this] obtain l where
      "skip_used h2 m = Some l" and l: "l = heap_end h2 \<or> l \<in> set (m # zs) \<and> used (hdr h2 l) = 0"
      "\<forall>z \<in> set (m # zs). used (hdr h2 z) = 0 \<longrightarrow> unat l \<le> unat z" by blast
    moreover from this have "l = heap_end h2 \<or> used (hdr h2 l) = 0" by blast
    ultimately have "take_block m len h = Some (h2\<lparr>lfree := l\<rparr>)"
      using True h2u(1) tb by simp
    moreover have "used (hdr h2 x) \<noteq> 0" if "lfree_low h1 (xs @ m # zs)" "x \<in> set xs" for x
    proof -
      have "unat x < unat m" using hpath_bounds [OF geom_split(1) [OF z(1)]] that(2) by fastforce
      with that True f1(4) show ?thesis by (auto simp: lfree_low_def h2_def)
    qed
    then have "lfree_low h os \<longrightarrow> lfree_low (h2\<lparr>lfree := l\<rparr>) (xs @ m # zs)"
      using z(10) l(2) by (auto simp: lfree_low_def)
    ultimately show ?thesis using l(1) by auto
  next
    case False
    then show ?thesis using z(5,10) f1(4) e2 by (intro exI [of _ "lfree h"]) (auto simp: tb lfree_ok_def lfree_low_def h2_def)
  qed
  then obtain l where l: "take_block m len h = Some (h2\<lparr>lfree := l\<rparr>)"
    "l = heap_end h2 \<or> l \<in> set (xs @ m # zs) \<and> used (hdr h2 l) = 0"
    "lfree_low h os \<longrightarrow> lfree_low (h2\<lparr>lfree := l\<rparr>) (xs @ m # zs)" by blast
  show ?thesis
    using l(1,3) blocks [OF l(2)] res z(8)
    by (intro exI [of _ "h2\<lparr>lfree := l\<rparr>"] exI [of _ "xs @ m # zs"] exI [of _ "hnext (hdr h1 m)"]) blast
qed


lemma and_3_eq_0: "(w :: 'a::len word) AND 3 = 0 \<longleftrightarrow> 4 dvd unat w" if "2 < LENGTH('a)"
proof -
  have m: "(3 :: 'a word) = mask 2" by (simp add: mask_eq_exp_minus_1)
  have "unat (w AND 3) = unat w mod 4"
    unfolding m take_bit_eq_mask [symmetric] by (subst unsigned_take_bit_eq) (simp add: take_bit_eq_mod)
  then show ?thesis by (metis dvd_eq_mod_eq_0 unat_eq_0)
qed

lemma dvd_rt_align: "4 dvd unat (rt_align s)"
  by (simp add: rt_align_eq unat_rt_align_down)

text \<open>The length \<open>rt_malloc\<close> looks for.\<close>

definition req_len :: "u32 \<Rightarrow> u32" where
  "req_len sz = (if rt_align sz < MIN_SIZE_ALIGNED then MIN_SIZE_ALIGNED else rt_align sz)"

lemma req_len_facts: "4 dvd unat (req_len sz)" "12 \<le> unat (req_len sz)" "unat (rt_align sz) \<le> unat (req_len sz)"
  using dvd_rt_align [of sz] by (auto simp: req_len_def word_less_nat_alt)

definition user_ptr :: "heap \<Rightarrow> u32 \<Rightarrow> u32" where
  "user_ptr h m = heap_ptr h + m + SIZEOF_STRUCT_MEM"

lemma user_ptr_facts:
  assumes g: "geom h os" and m: "m \<in> set os"
  shows "unat (user_ptr h m) = unat (heap_ptr h) + unat m + 12" "4 dvd unat (user_ptr h m)" "user_ptr h m \<noteq> 0"
    "heap_ptr h \<le> user_ptr h m" "user_ptr h m < heap_ptr h + heap_end h" "user_ptr h m - 12 - heap_ptr h = m"
    "unat (heap_ptr h + heap_end h) = unat (heap_ptr h) + unat (heap_end h)"
proof -
  note b = geom_member [OF g m]
  show e: "unat (heap_ptr h + heap_end h) = unat (heap_ptr h) + unat (heap_end h)"
    using b(4) by (simp add: unat_word_ariths)
  show u: "unat (user_ptr h m) = unat (heap_ptr h) + unat m + 12"
    using b(1-4) by (simp add: user_ptr_def unat_word_ariths)
  show "4 dvd unat (user_ptr h m)" using u b(6) g by (simp add: geom_def)
  show "user_ptr h m \<noteq> 0" using u by (metis add_eq_0_iff_both_eq_0 unsigned_0 zero_neq_numeral)
  show "heap_ptr h \<le> user_ptr h m" "user_ptr h m < heap_ptr h + heap_end h"
    using u e b(1,2) by (simp_all add: word_le_nat_alt word_less_nat_alt)
  show "user_ptr h m - 12 - heap_ptr h = m" by (simp add: user_ptr_def)
qed

definition no_fit :: "heap \<Rightarrow> u32 list \<Rightarrow> u32 \<Rightarrow> bool" where
  "no_fit h os len \<longleftrightarrow> (\<forall>z \<in> set os. unat (lfree h) \<le> unat z \<longrightarrow> \<not> fits h len z)"

definition first_fit :: "heap \<Rightarrow> u32 list \<Rightarrow> u32 \<Rightarrow> u32 \<Rightarrow> bool" where
  "first_fit h os len m \<longleftrightarrow> m \<in> set os \<and> unat (lfree h) \<le> unat m \<and> fits h len m
     \<and> (\<forall>z \<in> set os. unat (lfree h) \<le> unat z \<and> unat z < unat m \<longrightarrow> \<not> fits h len z)"

text \<open>The search starts at \<open>lfree\<close>.\<close>

lemma find_fit_first:
  assumes hb: "heap_blocks h os" and len: "len \<le> mem_size_aligned h"
  shows "\<exists>r. find_fit h len (lfree h) = Some r
    \<and> (case r of None \<Rightarrow> no_fit h os len | Some m \<Rightarrow> first_fit h os len m)"
proof -
  have g: "geom h os" "lfree_ok h os" using hb by (auto simp: heap_blocks_def)
  have p: "hpath (hdr h) 0 os (heap_end h)" using g(1) by (simp add: geom_def)
  obtain xs zs where os: "os = xs @ zs" "hpath (hdr h) (lfree h) zs (heap_end h)"
    "\<forall>x \<in> set xs. unat x < unat (lfree h)"
  proof (cases "lfree h = heap_end h")
    case True
    then show ?thesis using that [of os "[]"] hpath_bounds [OF p] by fastforce
  next
    case False
    then obtain xs ys where o: "os = xs @ lfree h # ys" using g(2) by (auto simp: lfree_ok_def in_set_conv_decomp)
    note s = geom_split [OF g(1) [unfolded o]]
    have "\<forall>x \<in> set xs. unat x < unat (lfree h)" using hpath_bounds [OF s(1)] by fastforce
    with that [of xs "lfree h # ys"] s(2,3) o show ?thesis by simp
  qed
  have zs: "\<forall>z \<in> set zs. unat (lfree h) \<le> unat z" using hpath_bounds [OF os(2)] by blast
  from find_fit_spec [OF os(2) len unat_heap_end [OF g(1)]] obtain r where
    "find_fit h len (lfree h) = Some r" "case r of
      None \<Rightarrow> \<forall>z \<in> set zs. \<not> fits h len z
    | Some x \<Rightarrow> x \<in> set zs \<and> fits h len x \<and> (\<forall>z \<in> set zs. unat z < unat x \<longrightarrow> \<not> fits h len z)" by blast
  then show ?thesis
    using os(1,3) zs by (intro exI [of _ r]) (fastforce simp: no_fit_def first_fit_def split: option.splits)
qed

lemma rt_malloc_spec:
  assumes hb: "heap_blocks h os"
  shows "rt_malloc sz h = Some (0, h) \<and> (sz = 0 \<or> mem_size_aligned h < rt_align sz \<or> no_fit h os (req_len sz))
    \<or> (\<exists>m h' os' nx. rt_malloc sz h = Some (user_ptr h m, h') \<and> first_fit h os (req_len sz) m
        \<and> heap_blocks h' os' \<and> same_heap h h' \<and> bytes h' = bytes h
        \<and> used_blocks h' os' = insert (m, nx) (used_blocks h os) \<and> unat m + 12 + unat (req_len sz) \<le> unat nx
        \<and> used_mem h' = used_mem h + (nx - m) \<and> max_mem h' = max (max_mem h) (used_mem h')
        \<and> (lfree_low h os \<longrightarrow> lfree_low h' os'))"
proof (cases "sz = 0 \<or> mem_size_aligned h < rt_align sz")
  case True
  then show ?thesis by (auto simp: rt_malloc_def)
next
  case False
  have g: "geom h os" using hb by (simp add: heap_blocks_def)
  have "req_len sz \<le> mem_size_aligned h"
    using False g by (auto simp: req_len_def geom_def word_le_nat_alt word_less_nat_alt)
  from find_fit_first [OF hb this] obtain r where r: "find_fit h (req_len sz) (lfree h) = Some r"
    "case r of None \<Rightarrow> no_fit h os (req_len sz) | Some m \<Rightarrow> first_fit h os (req_len sz) m" by blast
  show ?thesis
  proof (cases r)
    case None
    with False r show ?thesis by (auto simp: rt_malloc_def req_len_def [symmetric])
  next
    case (Some m)
    then have ff: "first_fit h os (req_len sz) m" and m: "m \<in> set os" "fits h (req_len sz) m"
      using r(2) by (auto simp: first_fit_def)
    obtain h' os' nx where t: "take_block m (req_len sz) h = Some h'" "heap_blocks h' os'" "same_heap h h'"
      "bytes h' = bytes h" "used_blocks h' os' = insert (m, nx) (used_blocks h os)"
      "unat m + 12 + unat (req_len sz) \<le> unat nx" "used_mem h' = used_mem h + (nx - m)"
      "max_mem h' = max (max_mem h) (used_mem h')" "lfree_low h os \<longrightarrow> lfree_low h' os'"
      using take_block_spec [OF hb m req_len_facts(1)] req_len_facts(2) [of sz] by fastforce
    note b = geom_member [OF g m(1)] and u = user_ptr_facts [OF g m(1)]
    have "unat (user_ptr h m + req_len sz) = unat (user_ptr h m) + unat (req_len sz)"
      using u(1) b(2,4) m(2) by (simp add: fits_def unat_word_ariths)
    then have "user_ptr h m + req_len sz \<le> heap_ptr h + heap_end h"
      using u(1,7) b(2) m(2) by (simp add: fits_def word_le_nat_alt)
    moreover have "(heap_ptr h + m) AND 3 = 0"
      using b(3,6) g by (subst and_3_eq_0) (auto simp: geom_def)
    ultimately have "rt_malloc sz h = Some (user_ptr h m, h')"
      using False r(1) Some t(1) u(2) unfolding rt_malloc_def
      by (simp add: req_len_def [symmetric] user_ptr_def [symmetric])
    with t ff show ?thesis by metis
  qed
qed

section \<open>Releasing\<close>

lemma rt_free_spec:
  assumes hb: "heap_blocks h os" and m: "m \<in> set os" "used (hdr h m) \<noteq> 0"
  shows "\<exists>h' os'. rt_free (user_ptr h m) h = Some h' \<and> heap_blocks h' os' \<and> same_heap h h' \<and> bytes h' = bytes h
    \<and> used_blocks h' os' = used_blocks h os - {(m, hnext (hdr h m))}
    \<and> used_mem h' = used_mem h - blk_size (hdr h) m \<and> (lfree_low h os \<longrightarrow> lfree_low h' os')"
proof -
  obtain xs ys where os: "os = xs @ m # ys" using m(1) by (auto simp: in_set_conv_decomp)
  have g: "geom h (xs @ m # ys)" "calm (hdr h) (xs @ m # ys)" "lfree_ok h os" "used_mem h = used_sum (hdr h) (xs @ m # ys)"
    using hb os by (auto simp: heap_blocks_def)
  note s = geom_split [OF g(1)] and u = user_ptr_facts [OF g(1)[folded os] m(1)]
  let ?f = "if heap_ptr h + m < heap_ptr h + lfree h then m else lfree h"
  let ?h = "set_used m 0 h\<lparr>lfree := ?f, used_mem := used_mem h - blk_size (hdr h) m\<rparr>"
  have g': "geom ?h (xs @ m # ys)"
    using set_used_geom [OF g(1), of 0] by (subst geom_cong [where h = "set_used m 0 h"]) (auto simp: same_heap_def)
  have um: "used (hdr ?h m) = 0" by simp
  have eq: "calm (hdr ?h) ws = calm (hdr h) ws" "used_sum (hdr ?h) ws = used_sum (hdr h) ws" if "m \<notin> set ws" for ws
  proof -
    show "calm (hdr ?h) ws = calm (hdr h) ws" by (rule calm_cong) (use that in auto)
    show "used_sum (hdr ?h) ws = used_sum (hdr h) ws" by (rule used_sum_cong) (use that in auto)
  qed
  have c: "calm (hdr ?h) xs" "calm (hdr ?h) ys" using g(2) eq(1) s(4,5) unfolding calm_split by auto
  have "heap_end ?h = heap_end h" by (simp add: heap_end_def)
  then have lf: "lfree_ok ?h (xs @ m # ys)" using g(3) os by (auto simp: lfree_ok_def)
  have st: "used_mem ?h = used_sum (hdr ?h) (xs @ m # ys)"
    using g(4) eq(2) s(4,5) m(2) by (simp add: used_sum_append used_sum_Cons)
  from plug_holes_spec [OF g' um c lf st] obtain h' os' where h': "plug_holes m ?h = Some h'" "heap_blocks h' os'"
    "same_heap ?h h'" "bytes h' = bytes ?h" "used_mem h' = used_mem ?h"
    "used_blocks h' os' = used_blocks ?h (xs @ m # ys)"
    "lfree_low ?h (xs @ m # ys) \<longrightarrow> lfree_low h' os'" by blast
  have lfm: "unat (lfree h) \<le> unat (heap_end h)"
    using g(3) geom_member(1,2) [OF g(1)[folded os]] by (fastforce simp: lfree_ok_def)
  then have "unat (heap_ptr h + lfree h) = unat (heap_ptr h) + unat (lfree h)"
    using geom_member(4) [OF g(1)[folded os] m(1)] by (simp add: unat_word_ariths)
  then have "heap_ptr h + m < heap_ptr h + lfree h \<longleftrightarrow> unat m < unat (lfree h)"
    using geom_member(3) [OF g(1)[folded os] m(1)] by (simp add: word_less_nat_alt)
  then have low: "lfree_low h os \<longrightarrow> lfree_low ?h (xs @ m # ys)" using os by (auto simp: lfree_low_def)
  have "user_ptr h m AND 3 = 0" using u(2) by (subst and_3_eq_0) auto
  then have "rt_free (user_ptr h m) h = Some h'"
    using u(3-6) m(2) geom_member(5) [OF g(1) m(1)[unfolded os]] h'(1) unfolding blk_size_def
    by (simp add: rt_free_def Let_def)
  moreover have "used_blocks ?h (xs @ m # ys) = used_blocks h os - {(m, hnext (hdr h m))}"
    using s(4,5) os m(2) by (auto simp: used_blocks_def)
  ultimately show ?thesis using h' low by (intro exI [of _ h'] exI [of _ os']) (simp add: same_heap_def)
qed

section \<open>The heap as an allocator\<close>

text \<open>The blocks in address order, read off the headers.\<close>

definition heap_next :: "heap \<Rightarrow> u32 \<Rightarrow> u32 option" where
  "heap_next h x = (if hnext (hdr h x) = heap_end h then None else Some (hnext (hdr h x)))"

definition heap_offsets :: "heap \<Rightarrow> u32 list" where
  "heap_offsets h = walk (unat (heap_end h)) (heap_next h) (Some 0)"

lemma hpath_chain:
  "hpath (hdr h) a os (heap_end h) \<Longrightarrow> chain (heap_next h) (if a = heap_end h then None else Some a) os"
proof (induction os arbitrary: a)
  case Nil
  then show ?case by simp
next
  case (Cons x xs)
  then have p: "a = x" "unat x + 16 \<le> unat (hnext (hdr h x))" "hpath (hdr h) (hnext (hdr h x)) xs (heap_end h)"
    by (auto simp: blk_ok_def)
  have "x \<noteq> heap_end h" using hpath_bounds [OF p(3)] p(2) by auto
  with Cons.IH [OF p(3)] p(1) show ?case by (simp add: heap_next_def)
qed

lemma hpath_length: "hpath hm a os b \<Longrightarrow> unat a + 16 * length os \<le> unat b"
  by (induction os arbitrary: a) (fastforce simp: blk_ok_def)+

lemma heap_offsets_eq:
  assumes "geom h os" shows "heap_offsets h = os"
proof -
  have p: "hpath (hdr h) 0 os (heap_end h)" using assms by (simp add: geom_def)
  have "heap_end h \<noteq> 0" using unat_heap_end [OF assms] by (metis add_is_0 unsigned_0 zero_neq_numeral)
  then have "chain (heap_next h) (Some 0) os" using hpath_chain [OF p] by simp
  then show ?thesis using hpath_length [OF p] by (simp add: heap_offsets_def chain_walk_ge)
qed

lemma geom_nonempty: "geom h os \<Longrightarrow> os \<noteq> []"
  using unat_heap_end [of h os] by (auto simp: geom_def)

definition heap_ok :: "heap \<Rightarrow> bool" where
  "heap_ok h \<longleftrightarrow> heap_blocks h (heap_offsets h)"

definition heap_tidy :: "heap \<Rightarrow> bool" where
  "heap_tidy h \<longleftrightarrow> heap_ok h \<and> lfree_low h (heap_offsets h)"

definition heap_live :: "heap \<Rightarrow> u32 set" where
  "heap_live h = (\<lambda>b. user_ptr h (fst b)) ` used_blocks h (heap_offsets h)"

text \<open>The addresses of the bytes a caller may use.\<close>

definition heap_region :: "heap \<Rightarrow> u32 \<Rightarrow> nat set" where
  "heap_region h p = {unat p ..< unat (heap_ptr h) + unat (hnext (hdr h (p - SIZEOF_STRUCT_MEM - heap_ptr h)))}"

lemma heap_ok_I: "heap_blocks h os \<Longrightarrow> heap_ok h \<and> heap_offsets h = os \<and> (heap_tidy h \<longleftrightarrow> lfree_low h os)"
  using heap_offsets_eq [of h os] by (auto simp: heap_ok_def heap_tidy_def heap_blocks_def)

lemma user_ptr_eq [simp]: "user_ptr h x = user_ptr h y \<longleftrightarrow> x = y"
  by (simp add: user_ptr_def)

lemma user_ptr_same: "same_heap h h' \<Longrightarrow> user_ptr h' = user_ptr h"
  by (auto simp: user_ptr_def same_heap_def fun_eq_iff)

lemma heap_region_user: "heap_region h (user_ptr h m) = {unat (user_ptr h m) ..< unat (heap_ptr h) + unat (hnext (hdr h m))}"
  by (simp add: heap_region_def user_ptr_def)

lemma heap_live_iff: "heap_blocks h os \<Longrightarrow>
    p \<in> heap_live h \<longleftrightarrow> (\<exists>m \<in> set os. p = user_ptr h m \<and> used (hdr h m) \<noteq> 0)"
  using heap_ok_I [of h os] by (auto simp: heap_live_def used_blocks_def image_iff)

text \<open>A step that changes the blocks in use by a set difference or an insertion.\<close>

lemma live_after:
  assumes "heap_blocks h os" "heap_blocks h' os'" "same_heap h h'" "used_blocks h' os' = B"
  shows "heap_live h' = (\<lambda>b. user_ptr h (fst b)) ` B"
    "\<And>b. b \<in> used_blocks h os \<inter> B \<Longrightarrow> heap_region h' (user_ptr h (fst b)) = heap_region h (user_ptr h (fst b))"
proof -
  show "heap_live h' = (\<lambda>b. user_ptr h (fst b)) ` B"
    using heap_ok_I [OF assms(2)] user_ptr_same [OF assms(3)] assms(4) by (simp add: heap_live_def)
  fix b assume b: "b \<in> used_blocks h os \<inter> B"
  then have "hnext (hdr h' (fst b)) = hnext (hdr h (fst b))"
    using assms(4) by (auto simp: used_blocks_def)
  then show "heap_region h' (user_ptr h (fst b)) = heap_region h (user_ptr h (fst b))"
    using assms(3) by (simp add: heap_region_def user_ptr_def same_heap_def)
qed

definition heap_alloc :: "heap \<Rightarrow> u32 \<Rightarrow> (u32 \<times> heap) option" where
  "heap_alloc h sz = Option.bind (rt_malloc sz h) (\<lambda>(p, h'). if p = 0 then None else Some (p, h'))"

definition heap_free :: "heap \<Rightarrow> u32 \<Rightarrow> heap option" where
  "heap_free h p = rt_free p h"

lemma heap_alloc_fresh:
  assumes "heap_ok h" "heap_alloc h sz = Some (p, h')"
  shows "heap_ok h' \<and> p \<notin> heap_live h \<and> heap_live h' = insert p (heap_live h)
    \<and> (\<forall>c \<in> heap_live h. heap_region h' c = heap_region h c)
    \<and> {unat p ..< unat p + unat (req_len sz)} \<subseteq> heap_region h' p \<and> (heap_tidy h \<longrightarrow> heap_tidy h')"
proof -
  let ?os = "heap_offsets h"
  have hb: "heap_blocks h ?os" and g: "geom h ?os" using assms(1) by (auto simp: heap_ok_def heap_blocks_def)
  from rt_malloc_spec [OF hb, of sz] assms(2) obtain m os' nx where m: "p = user_ptr h m" "p \<noteq> 0"
    "first_fit h ?os (req_len sz) m" "heap_blocks h' os'" "same_heap h h'"
    "used_blocks h' os' = insert (m, nx) (used_blocks h ?os)" "unat m + 12 + unat (req_len sz) \<le> unat nx"
    "lfree_low h ?os \<longrightarrow> lfree_low h' os'"
    by (auto simp: heap_alloc_def split: option.splits if_splits)
  note la = live_after [OF hb m(4-6)]
  have mo: "m \<in> set ?os" "used (hdr h m) = 0" using m(3) by (auto simp: first_fit_def fits_def)
  have "(m, nx) \<in> used_blocks h' os'" using m(6) by simp
  then have nx: "nx = hnext (hdr h' m)" by (auto simp: used_blocks_def)
  have "{unat p ..< unat p + unat (req_len sz)} \<subseteq> heap_region h' p"
    using m(1,7) nx heap_region_user [of h' m] user_ptr_same [OF m(5)] user_ptr_facts(1) [OF g mo(1)] m(5)
    by (auto simp: same_heap_def)
  moreover have "p \<notin> heap_live h" using heap_live_iff [OF hb] mo(2) m(1) by auto
  moreover have "heap_live h' = insert p (heap_live h)" using la(1) m(1) by (simp add: heap_live_def)
  moreover have "\<forall>c \<in> heap_live h. heap_region h' c = heap_region h c" using la(2) by (auto simp: heap_live_def)
  ultimately show ?thesis using heap_ok_I [OF m(4)] heap_ok_I [OF hb] m(8) by blast
qed

lemma heap_free_live:
  assumes "heap_ok h" "p \<in> heap_live h"
  shows "\<exists>h'. heap_free h p = Some h' \<and> heap_ok h' \<and> heap_live h' = heap_live h - {p}
    \<and> (\<forall>c \<in> heap_live h'. heap_region h' c = heap_region h c) \<and> same_heap h h' \<and> bytes h' = bytes h
    \<and> (heap_tidy h \<longrightarrow> heap_tidy h')"
proof -
  let ?os = "heap_offsets h"
  have hb: "heap_blocks h ?os" using assms(1) by (simp add: heap_ok_def)
  from assms(2) heap_live_iff [OF hb] obtain m where m: "m \<in> set ?os" "p = user_ptr h m" "used (hdr h m) \<noteq> 0"
    by blast
  obtain h' os' where h': "rt_free (user_ptr h m) h = Some h'" "heap_blocks h' os'" "same_heap h h'" "bytes h' = bytes h"
    "used_blocks h' os' = used_blocks h ?os - {(m, hnext (hdr h m))}" "lfree_low h ?os \<longrightarrow> lfree_low h' os'"
    using rt_free_spec [OF hb m(1,3)] by blast
  note la = live_after [OF hb h'(2,3,5)]
  have "heap_live h' = heap_live h - {p}"
    using la(1) m(2) by (auto simp: heap_live_def used_blocks_def)
  moreover have "\<forall>c \<in> heap_live h'. heap_region h' c = heap_region h c"
    using la by auto
  ultimately show ?thesis using h'(1,3,4,6) m(2) heap_ok_I [OF h'(2)] heap_ok_I [OF hb] by (auto simp: heap_free_def)
qed

lemma hpath_apart:
  assumes "hpath hm a os b" "x \<in> set os" "y \<in> set os" "unat x < unat y"
  shows "unat (hnext (hm x)) \<le> unat y"
proof -
  obtain xs ys where os: "os = xs @ x # ys" using assms(2) by (auto simp: in_set_conv_decomp)
  then have p: "hpath hm a xs x" "hpath hm (hnext (hm x)) ys b" using assms(1) by (auto simp: hpath_Cons_end)
  have "y \<notin> set xs" "y \<noteq> x" using hpath_bounds [OF p(1)] assms(4) by fastforce+
  then have "y \<in> set ys" using assms(3) os by auto
  with hpath_bounds [OF p(2)] show ?thesis by blast
qed

lemma heap_regions_apart:
  assumes "heap_ok h" shows "apart (heap_region h) (heap_live h)"
proof -
  let ?os = "heap_offsets h"
  have hb: "heap_blocks h ?os" and g: "geom h ?os" using assms by (auto simp: heap_ok_def heap_blocks_def)
  have p: "hpath (hdr h) 0 ?os (heap_end h)" using g by (simp add: geom_def)
  have d: "heap_region h (user_ptr h x) \<inter> heap_region h (user_ptr h y) = {}"
    if "x \<in> set ?os" "y \<in> set ?os" "unat x < unat y" for x y
    using hpath_apart [OF p that] user_ptr_facts(1) [OF g that(2)] by (auto simp: heap_region_user)
  have "heap_region h b \<inter> heap_region h c = {}" if bc: "b \<in> heap_live h" "c \<in> heap_live h" "b \<noteq> c" for b c
  proof -
    obtain x y where x: "x \<in> set ?os" "b = user_ptr h x" and y: "y \<in> set ?os" "c = user_ptr h y"
      using bc(1,2) heap_live_iff [OF hb] by blast
    then have "unat x < unat y \<or> unat y < unat x" using bc(3) by (metis linorder_neqE_nat word_eq_unat)
    then show ?thesis using d [OF x(1) y(1)] d [OF y(1) x(1)] x(2) y(2) by (auto simp: Int_commute)
  qed
  then show ?thesis by (simp add: apart_def)
qed

text \<open>The heap keeps the contract of an allocator, with and without the lowest-free hint.\<close>

interpretation hpa: block_allocator heap_ok heap_live heap_region heap_alloc heap_free "\<lambda>_. True"
  by unfold_locales (use heap_alloc_fresh heap_free_live heap_regions_apart in blast)+

interpretation hpt: block_allocator heap_tidy heap_live heap_region heap_alloc heap_free "\<lambda>_. True"
  by unfold_locales (use heap_alloc_fresh heap_free_live heap_regions_apart heap_tidy_def in blast)+

section \<open>Start, coalescing, resizing\<close>

lemma rt_system_heap_init_tidy:
  assumes "unat (rt_align b) + 36 \<le> unat (rt_align_down e)" and "used_mem h = 0"
  defines "h' \<equiv> rt_system_heap_init b e h"
  shows "heap_tidy h'" "heap_offsets h' = [0]" "heap_live h' = {}" "heap_ptr h' = rt_align b"
    "unat (mem_size_aligned h') = unat (rt_align_down e) - unat (rt_align b) - 24"
proof -
  let ?b = "rt_align b" and ?e = "rt_align_down e"
  have u: "unat (?e - 24) = unat ?e - 24" "unat (?e - ?b) = unat ?e - unat ?b"
    using assms(1) by (simp_all add: unat_sub word_le_nat_alt)
  then have n: "unat (?e - ?b - 24) = unat ?e - unat ?b - 24"
    using assms(1) by (simp add: unat_sub word_le_nat_alt)
  have c: "24 < ?e \<and> ?b \<le> ?e - 24" using assms(1) u by (simp add: word_less_nat_alt word_le_nat_alt)
  have u12: "unat (?e - ?b - 24 + 12) = unat ?e - unat ?b - 12"
  proof -
    have "unat (?e - ?b - 24) + 12 < 4294967296" using n assms(1) unat_u32 [of ?e] by linarith
    then have "unat (?e - ?b - 24 + 12) = unat (?e - ?b - 24) + 12" by (simp only: unat_word_ariths) simp
    with n assms(1) show ?thesis by linarith
  qed
  define x where "x = ?e - ?b - 24 + 12"
  have h': "h' = h\<lparr>heap_ptr := ?b, mem_size_aligned := ?e - ?b - 24, lfree := 0,
      hdr := (hdr h)(0 := \<lparr>magic = HEAP_MAGIC, used = 0, hnext = x, hprev = 0\<rparr>,
                     x := \<lparr>magic = HEAP_MAGIC, used = 1, hnext = x, hprev = x\<rparr>)\<rparr>"
    using c by (simp add: h'_def rt_system_heap_init_def Let_def x_def)
  have "unat x \<noteq> 0" using u12 assms(1) by (simp add: x_def)
  then have x0: "x \<noteq> 0" by auto
  have e: "heap_end h' = x" by (simp add: h' heap_end_def x_def)
  have d: "4 dvd unat ?b" "4 dvd unat ?e" by (simp_all add: dvd_rt_align unat_rt_align_down)
  then have d2: "4 dvd unat ?e - unat ?b - 24" by (intro dvd_diff_nat) auto
  show sz: "unat (mem_size_aligned h') = unat ?e - unat ?b - 24" and hp: "heap_ptr h' = ?b"
    using n by (simp_all add: h')
  have hn: "hdr h' 0 = \<lparr>magic = HEAP_MAGIC, used = 0, hnext = x, hprev = 0\<rparr>" "used (hdr h' x) \<noteq> 0"
    "lfree h' = 0" "used_mem h' = 0" using x0 assms(2) by (simp_all add: h')
  have "blk_ok (hdr h') 0" using hn(1) u12 assms(1) by (simp add: blk_ok_def x_def)
  then have "geom h' [0]"
    using e hn(1,2) sz hp d d2 assms(1) unat_u32 [of ?e] by (simp add: geom_def)
  then have hb: "heap_blocks h' [0]"
    using hn by (simp add: heap_blocks_def calm_def lfree_ok_def used_sum_def)
  then show "heap_tidy h'" "heap_offsets h' = [0]" using heap_ok_I [OF hb] hn(3) by (simp_all add: lfree_low_def)
  then show "heap_live h' = {}" using hn(1) by (simp add: heap_live_def used_blocks_def)
qed

text \<open>When nothing is in use, the heap is one free block again.\<close>

lemma heap_all_free:
  assumes t: "heap_tidy h" and l: "heap_live h = {}"
  shows "heap_offsets h = [0]" "used (hdr h 0) = 0" "hnext (hdr h 0) = heap_end h" "lfree h = 0" "used_mem h = 0"
proof -
  let ?os = "heap_offsets h"
  have hb: "heap_blocks h ?os" and low: "lfree_low h ?os" using t by (auto simp: heap_tidy_def heap_ok_def)
  then have g: "geom h ?os" "calm (hdr h) ?os" "used_mem h = used_sum (hdr h) ?os" by (auto simp: heap_blocks_def)
  have f: "\<forall>x \<in> set ?os. used (hdr h x) = 0" using l by (auto simp: heap_live_def used_blocks_def)
  obtain x xs where os: "?os = x # xs" using geom_nonempty [OF g(1)] by (cases ?os) auto
  have "xs = []" using g(2) f os by (cases xs) (auto simp: calm_def)
  moreover have x: "x = 0" using geom_first [of h x xs] g(1) os by simp
  ultimately show o: "?os = [0]" using os by simp
  show u: "used (hdr h 0) = 0" using f o by simp
  show "hnext (hdr h 0) = heap_end h" using geom_next [of h "[]" 0 "[]"] g(1) o by simp
  have "unat (lfree h) \<le> 0" using low u o by (auto simp: lfree_low_def)
  then show "lfree h = 0" by (simp add: unat_eq_0)
  show "used_mem h = 0" using g(3) u o by (simp add: used_sum_def)
qed

text \<open>The user bytes are no part of the block structure.\<close>

lemma bytes_irrelevant [simp]:
  "heap_offsets (h\<lparr>bytes := f\<rparr>) = heap_offsets h" "heap_ok (h\<lparr>bytes := f\<rparr>) = heap_ok h"
  "heap_live (h\<lparr>bytes := f\<rparr>) = heap_live h" "heap_region (h\<lparr>bytes := f\<rparr>) = heap_region h"
proof -
  have n: "heap_next (h\<lparr>bytes := f\<rparr>) = heap_next h" "heap_end (h\<lparr>bytes := f\<rparr>) = heap_end h"
    by (auto simp: heap_next_def heap_end_def fun_eq_iff)
  then show o: "heap_offsets (h\<lparr>bytes := f\<rparr>) = heap_offsets h" by (simp add: heap_offsets_def)
  show "heap_ok (h\<lparr>bytes := f\<rparr>) = heap_ok h"
    using o n by (simp add: heap_ok_def heap_blocks_def geom_def lfree_ok_def)
  show "heap_live (h\<lparr>bytes := f\<rparr>) = heap_live h"
    using o by (auto simp: heap_live_def used_blocks_def user_ptr_def)
  show "heap_region (h\<lparr>bytes := f\<rparr>) = heap_region h" by (auto simp: heap_region_def fun_eq_iff)
qed

text \<open>Shrinking in place by more than a minimal block.\<close>

lemma shrink_spec:
  assumes hb: "heap_blocks h os" and m: "m \<in> set os" "used (hdr h m) \<noteq> 0"
    and n: "4 dvd unat n" "4 \<le> unat n" "unat m + 12 + unat n + 24 < unat (hnext (hdr h m))"
  defines "m2 \<equiv> m + 12 + n"
  defines "h0 \<equiv> h\<lparr>used_mem := used_mem h - (hnext (hdr h m) - m - 12 - n)\<rparr>"
  shows "\<exists>h' os'. plug_holes m2 (split_block m m2 h0) = Some h' \<and> heap_blocks h' os' \<and> same_heap h h'
    \<and> bytes h' = bytes h \<and> used_blocks h' os' = insert (m, m2) (used_blocks h os - {(m, hnext (hdr h m))})"
proof -
  obtain xs ys where os: "os = xs @ m # ys" using m(1) by (auto simp: in_set_conv_decomp)
  have g: "geom h (xs @ m # ys)" "calm (hdr h) (xs @ m # ys)" "lfree_ok h (xs @ m # ys)"
    "used_mem h = used_sum (hdr h) (xs @ m # ys)" using hb os by (auto simp: heap_blocks_def)
  note s = geom_split [OF g(1)]
  have g0: "geom h0 (xs @ m # ys)" using g(1) by (subst geom_cong [where h = h]) (auto simp: h0_def same_heap_def)
  have n0: "unat m + 12 + unat n + 16 \<le> unat (hnext (hdr h0 m))" using n(3) by (simp add: h0_def)
  let ?S = "split_block m m2 h0"
  note sp = split_geom [OF g0 n0 n(1,2), folded m2_def]
  have ne: "m2 \<notin> set xs" "m2 \<notin> set ys" "m2 \<noteq> m" using sp(2) by auto
  have uS: "used (hdr ?S x) = (if x = m2 then 0 else used (hdr h x))" for x
    using sp(5) [of x] sp(7) by (simp add: h0_def)
  have nS: "hnext (hdr ?S x) = (if x = m then m2 else hnext (hdr h x))" if "x \<noteq> m2" for x
    using sp(6) [of x] sp(9) that by (simp add: h0_def)
  have eq: "calm (hdr ?S) ws = calm (hdr h) ws" "m \<notin> set ws \<Longrightarrow> used_sum (hdr ?S) ws = used_sum (hdr h) ws"
    if "m2 \<notin> set ws" for ws
  proof -
    have "x \<noteq> m2" if "x \<in> set ws" for x using that \<open>m2 \<notin> set ws\<close> by auto
    note w = this
    show "calm (hdr ?S) ws = calm (hdr h) ws" by (rule calm_cong) (use w uS in auto)
    assume "m \<notin> set ws"
    then have "x \<noteq> m" if "x \<in> set ws" for x using that by auto
    then show "used_sum (hdr ?S) ws = used_sum (hdr h) ws" by (intro used_sum_cong) (use w uS nS in auto)
  qed
  have "calm (hdr h) (xs @ [m])" "calm (hdr h) ys"
    using g(2) calm_split [of "hdr h" xs m "[]"] unfolding calm_split by (auto simp: calm_def)
  then have c: "calm (hdr ?S) (xs @ [m])" "calm (hdr ?S) ys" using eq(1) [of "xs @ [m]"] eq(1) [of ys] ne by auto
  have g1: "geom ?S ((xs @ [m]) @ m2 # ys)" using sp(1) by simp
  have lf: "lfree_ok ?S ((xs @ [m]) @ m2 # ys)"
  proof -
    have e: "heap_end ?S = heap_end h" "lfree ?S = lfree h" by (simp_all add: h0_def heap_end_def)
    then have "lfree h \<noteq> m2 \<or> lfree h = heap_end h" using g(3) sp(2) by (auto simp: lfree_ok_def)
    with g(3) uS e show ?thesis by (auto simp: lfree_ok_def)
  qed
  have "blk_size (hdr ?S) m = n + 12" using nS [of m] ne(3) by (simp add: blk_size_def m2_def)
  then have st: "used_mem ?S = used_sum (hdr ?S) ((xs @ [m]) @ m2 # ys)"
    using g(4) eq(2) [of xs] eq(2) [of ys] ne s(4,5) uS [of m] uS [of m2] m(2)
    by (simp add: used_sum_append used_sum_Cons h0_def blk_size_def)
  from plug_holes_spec [OF g1 sp(7) c lf st] obtain h' os' where h': "plug_holes m2 ?S = Some h'" "heap_blocks h' os'"
    "same_heap ?S h'" "bytes h' = bytes ?S" "used_blocks h' os' = used_blocks ?S ((xs @ [m]) @ m2 # ys)" by blast
  have "used_blocks ?S ((xs @ [m]) @ m2 # ys) = insert (m, m2) (used_blocks h os - {(m, hnext (hdr h m))})"
    unfolding os used_blocks_def
    using uS nS ne s(4,5) m(2) by (auto simp: image_iff split: if_splits)
  then show ?thesis using h' by (intro exI [of _ h'] exI [of _ os']) (simp add: same_heap_def h0_def)
qed

lemma rt_align_dvd: "4 dvd unat s \<Longrightarrow> rt_align s = s"
proof -
  assume d: "4 dvd unat s"
  have "unat s + 3 < 2 ^ 32" using d unat_u32 [of s] by (auto elim!: dvdE)
  then have "unat (rt_align s) = (unat s + 3) div 4 * 4" by (rule unat_rt_align)
  also obtain k where k: "unat s = 4 * k" using d by (elim dvdE)
  have "(4 * k + 3) div 4 * 4 = 4 * k" by simp
  then have "(unat s + 3) div 4 * 4 = unat s" by (simp only: k)
  finally show ?thesis by (rule unsigned_word_eqI)
qed

lemma rt_align_idem: "rt_align (rt_align s) = rt_align s"
  by (rule rt_align_dvd [OF dvd_rt_align])

text \<open>The number of bytes a block can hold.\<close>

definition user_size :: "heap \<Rightarrow> u32 \<Rightarrow> nat" where
  "user_size h p = card (heap_region h p)"

lemma user_size_eq:
  "geom h os \<Longrightarrow> m \<in> set os \<Longrightarrow> user_size h (user_ptr h m) = unat (hnext (hdr h m)) - unat m - 12"
  using user_ptr_facts(1) [of h os m] by (simp add: user_size_def heap_region_user)

lemma live_region:
  assumes "heap_ok h" "p \<in> heap_live h"
  shows "heap_region h p = {unat p ..< unat p + user_size h p}" "unat p + user_size h p < 2 ^ 32" "4 dvd unat p"
proof -
  have hb: "heap_blocks h (heap_offsets h)" and g: "geom h (heap_offsets h)"
    using assms(1) by (auto simp: heap_ok_def heap_blocks_def)
  from assms(2) heap_live_iff [OF hb] obtain m where m: "m \<in> set (heap_offsets h)" "p = user_ptr h m" by blast
  note b = geom_member [OF g m(1)] and u = user_ptr_facts(1) [OF g m(1)]
  show "4 dvd unat p" using user_ptr_facts(2) [OF g m(1)] m(2) by simp
  show "heap_region h p = {unat p ..< unat p + user_size h p}" "unat p + user_size h p < 2 ^ 32"
    using b(1,2,4) u user_size_eq [OF g m(1)] m(2) by (auto simp: heap_region_user)
qed

text \<open>Moving a block: allocate, copy, release.\<close>

lemma realloc_move:
  assumes ok: "heap_ok h" and p: "p \<in> heap_live h" and a: "heap_alloc h n = Some (q, h1)"
    and k: "unat k \<le> user_size h p" "unat k \<le> unat (req_len n)"
  shows "\<exists>h2. rt_free p (copy_bytes q p k h1) = Some h2 \<and> heap_ok h2
    \<and> heap_live h2 = insert q (heap_live h - {p}) \<and> {unat q ..< unat q + unat (req_len n)} \<subseteq> heap_region h2 q
    \<and> (\<forall>c \<in> heap_live h - {p}. heap_region h2 c = heap_region h c)
    \<and> (\<forall>i. i < k \<longrightarrow> bytes h2 (q + i) = bytes h1 (p + i))"
proof -
  note f = heap_alloc_fresh [OF ok a]
  let ?h = "copy_bytes q p k h1"
  have h: "heap_ok ?h" "heap_live ?h = heap_live h1" "heap_region ?h = heap_region h1"
    using f by (simp_all add: copy_bytes_def)
  have "p \<in> heap_live ?h" using f p h(2) by simp
  from heap_free_live [OF h(1) this] obtain h2 where h2: "rt_free p ?h = Some h2" "heap_ok h2"
    "heap_live h2 = heap_live ?h - {p}" "\<forall>c \<in> heap_live h2. heap_region h2 c = heap_region ?h c" "bytes h2 = bytes ?h"
    by (auto simp: heap_free_def)
  have "q \<noteq> p" using f p by auto
  then have l: "heap_live h2 = insert q (heap_live h - {p})" using h2(3) h(2) f by auto
  moreover have "\<forall>c \<in> heap_live h - {p}. heap_region h2 c = heap_region h c" using l h2(4) h(3) f by auto
  moreover have "\<forall>i. i < k \<longrightarrow> bytes h2 (q + i) = bytes h1 (p + i)"
  proof -
    note r = live_region [OF ok p]
    have "heap_region h1 p \<inter> heap_region h1 q = {}"
      using heap_regions_apart [of h1] f p \<open>q \<noteq> p\<close> by (auto simp: apart_def)
    moreover have "{unat p ..< unat p + unat k} \<subseteq> heap_region h1 p" using r f p k(1) by auto
    moreover have "{unat q ..< unat q + unat k} \<subseteq> heap_region h1 q" using f k(2) by fastforce
    ultimately have "{unat p ..< unat p + unat k} \<inter> {unat q ..< unat q + unat k} = {}" by blast
    then have "up_safe q p k" using r(2) k(1) by (intro disjoint_up_safe) simp_all
    then show ?thesis using h2(5) by (simp add: copy_bytes_def rt_memcpy_eq mem_copy_def)
  qed
  ultimately show ?thesis using h2(1,2,4) h(3) f by auto
qed

text \<open>What a resize does to the client's block \<open>p\<close>, when it does not fail.\<close>

definition resized :: "heap \<Rightarrow> heap \<Rightarrow> u32 \<Rightarrow> u32 \<Rightarrow> u32 \<Rightarrow> bool" where
  "resized h h' p q n \<longleftrightarrow> heap_ok h' \<and> heap_live h' = insert q (heap_live h - {p})
     \<and> {unat q ..< unat q + unat n} \<subseteq> heap_region h' q
     \<and> (\<forall>c \<in> heap_live h - {p}. heap_region h' c = heap_region h c)
     \<and> (\<forall>i. unat i < user_size h p \<and> i < n \<longrightarrow> bytes h' (q + i) = bytes h (p + i))"

lemma realloc_shrink:
  assumes ok: "heap_ok h" and m: "m \<in> set (heap_offsets h)" "used (hdr h m) \<noteq> 0"
    and n: "4 dvd unat n" "4 \<le> unat n" "unat n + 24 < user_size h (user_ptr h m)"
  defines "m2 \<equiv> m + 12 + n"
  shows "\<exists>h'. plug_holes m2 (split_block m m2
      (h\<lparr>used_mem := used_mem h - (hnext (hdr h m) - m - 12 - n)\<rparr>)) = Some h' \<and> resized h h' (user_ptr h m) (user_ptr h m) n"
proof -
  let ?os = "heap_offsets h" and ?p = "user_ptr h m"
  have hb: "heap_blocks h ?os" and g: "geom h ?os" using ok by (auto simp: heap_ok_def heap_blocks_def)
  note b = geom_member [OF g m(1)]
  have n3: "unat m + 12 + unat n + 24 < unat (hnext (hdr h m))"
    using n(3) user_size_eq [OF g m(1)] by linarith
  from shrink_spec [OF hb m n(1,2) n3] obtain h' os' where h': "plug_holes m2 (split_block m m2
      (h\<lparr>used_mem := used_mem h - (hnext (hdr h m) - m - 12 - n)\<rparr>)) = Some h'" "heap_blocks h' os'"
    "same_heap h h'" "bytes h' = bytes h"
    "used_blocks h' os' = insert (m, m2) (used_blocks h ?os - {(m, hnext (hdr h m))})"
    unfolding m2_def by blast
  note la = live_after [OF hb h'(2,3,5)]
  have "(m, m2) \<in> used_blocks h' os'" using h'(5) by simp
  then have "hnext (hdr h' m) = m2" by (auto simp: used_blocks_def)
  moreover have "unat m2 = unat m + 12 + unat n"
    using n3 unat_u32 [of "hnext (hdr h m)"] by (simp add: m2_def unat_word_ariths)
  ultimately have "{unat ?p ..< unat ?p + unat n} \<subseteq> heap_region h' ?p"
    using heap_region_user [of h' m] user_ptr_same [OF h'(3)] user_ptr_facts(1) [OF g m(1)] h'(3)
    by (auto simp: same_heap_def)
  moreover have "heap_live h' = insert ?p (heap_live h - {?p})"
    using la(1) by (auto simp: heap_live_def used_blocks_def)
  moreover have "\<forall>c \<in> heap_live h - {?p}. heap_region h' c = heap_region h c"
  proof
    fix c assume "c \<in> heap_live h - {?p}"
    then obtain x where x: "c = user_ptr h x" "x \<noteq> m" "(x, hnext (hdr h x)) \<in> used_blocks h ?os"
      by (auto simp: heap_live_def used_blocks_def)
    with la(2) [of "(x, hnext (hdr h x))"] show "heap_region h' c = heap_region h c" by simp
  qed
  ultimately show ?thesis using h'(1,4) heap_ok_I [OF h'(2)] by (auto simp: resized_def)
qed

lemma rt_realloc_spec:
  assumes ok: "heap_ok h" and p: "p \<in> heap_live h" and n: "rt_align sz \<noteq> 0" "rt_align sz \<le> mem_size_aligned h"
  shows "\<exists>q h'. rt_realloc p sz h = Some (q, h') \<and>
    (q = 0 \<and> h' = h \<and> no_fit h (heap_offsets h) (req_len (rt_align sz)) \<or> resized h h' p q (rt_align sz))"
proof -
  let ?os = "heap_offsets h" and ?n = "rt_align sz"
  have hb: "heap_blocks h ?os" and g: "geom h ?os" using ok by (auto simp: heap_ok_def heap_blocks_def)
  from p heap_live_iff [OF hb] obtain m where m: "m \<in> set ?os" "p = user_ptr h m" "used (hdr h m) \<noteq> 0" by blast
  note b = geom_member [OF g m(1)] and u = user_ptr_facts [OF g m(1), folded m(2)]
  let ?l = "hnext (hdr h m) - m - 12"
  have "unat (hnext (hdr h m) - m) = unat (hnext (hdr h m)) - unat m"
    using b(1) by (simp add: unat_sub word_le_nat_alt)
  then have l: "unat ?l = user_size h p"
    using b(1) user_size_eq [OF g m(1)] m(2) by (simp add: unat_sub word_le_nat_alt)
  have n4: "4 dvd unat ?n" "unat ?n \<noteq> 0" using dvd_rt_align n(1) by (auto simp: unat_eq_0)
  have "unat ?n + 24 < 2 ^ 32" using g n(2) by (simp add: geom_def word_le_nat_alt)
  then have "unat (?n + 12 + 12) = unat ?n + 24" by (simp add: unat_word_ariths)
  then have c: "?n + 12 + 12 < ?l \<longleftrightarrow> unat ?n + 24 < user_size h p" using l by (simp add: word_less_nat_alt)
  have guards: "(mem_size_aligned h < ?n) = False" "(?n = 0) = False" "(p = 0) = False"
    "(p < heap_ptr h \<or> heap_ptr h + heap_end h \<le> p) = False"
    using n u(3-5) by auto
  have re: "rt_realloc p sz h =
      (if ?l = ?n then Some (p, h)
       else if ?n + 12 + 12 < ?l then map_option (Pair p) (plug_holes (m + 12 + ?n)
           (split_block m (m + 12 + ?n) (h\<lparr>used_mem := used_mem h - (?l - ?n)\<rparr>)))
       else do {
         (nmem, h1) \<leftarrow> rt_malloc ?n h;
         if nmem \<noteq> 0 then do {
           h2 \<leftarrow> rt_free p (copy_bytes nmem p (if ?l < ?n then ?l else ?n) h1);
           Some (nmem, h2)
         } else Some (nmem, h1)
       })"
    unfolding rt_realloc_def Let_def guards u(6) if_False ..
  consider "?l = ?n" | "?l \<noteq> ?n" "?n + 12 + 12 < ?l" | "?l \<noteq> ?n" "\<not> ?n + 12 + 12 < ?l" by blast
  then show ?thesis
  proof cases
    case 1
    then have "{unat p ..< unat p + unat ?n} \<subseteq> heap_region h p"
      using l user_size_eq [OF g m(1)] m(2) heap_region_user [of h m] u(1) b(1) by auto
    with 1 re ok p show ?thesis by (auto simp: resized_def)
  next
    case 2
    have "4 \<le> unat ?n" using n4 by (auto elim!: dvdE)
    from realloc_shrink [OF ok m(1,3) n4(1) this] 2 c m(2) re show ?thesis by auto
  next
    case 3
    consider (no) "rt_malloc ?n h = Some (0, h)" "?n = 0 \<or> mem_size_aligned h < rt_align ?n \<or> no_fit h ?os (req_len ?n)"
      | (yes) k h1 where "rt_malloc ?n h = Some (user_ptr h k, h1)" "first_fit h ?os (req_len ?n) k" "bytes h1 = bytes h"
      using rt_malloc_spec [OF hb, of ?n] by blast
    then show ?thesis
    proof cases
      case no
      with 3 re n show ?thesis by (auto simp: rt_align_idem)
    next
      case (yes k h1)
      then have q: "rt_malloc ?n h = Some (user_ptr h k, h1)" "user_ptr h k \<noteq> 0" "bytes h1 = bytes h"
        using user_ptr_facts(3) [OF g, of k] by (auto simp: first_fit_def)
      then have "heap_alloc h ?n = Some (user_ptr h k, h1)" by (simp add: heap_alloc_def)
      moreover have "unat ?n \<le> unat (req_len ?n)" using req_len_facts(3) [of ?n] by (simp add: rt_align_idem)
      then have "unat (if ?l < ?n then ?l else ?n) \<le> user_size h p"
        "unat (if ?l < ?n then ?l else ?n) \<le> unat (req_len ?n)"
        using l by (auto simp: word_less_nat_alt)
      ultimately obtain h2 where
        h2: "rt_free p (copy_bytes (user_ptr h k) p (if ?l < ?n then ?l else ?n) h1) = Some h2" "heap_ok h2"
        "heap_live h2 = insert (user_ptr h k) (heap_live h - {p})"
        "{unat (user_ptr h k) ..< unat (user_ptr h k) + unat (req_len ?n)} \<subseteq> heap_region h2 (user_ptr h k)"
        "\<forall>c \<in> heap_live h - {p}. heap_region h2 c = heap_region h c"
        "\<And>i. i < (if ?l < ?n then ?l else ?n) \<Longrightarrow> bytes h2 (user_ptr h k + i) = bytes h1 (p + i)"
        using realloc_move [OF ok p, of ?n "user_ptr h k" h1 "if ?l < ?n then ?l else ?n"] by blast
      have "unat ?n \<le> unat (req_len ?n)" using req_len_facts(3) [of ?n] by (simp add: rt_align_idem)
      then have "resized h h2 p (user_ptr h k) ?n"
        using h2(2-6) q(3) l by (auto simp: resized_def word_less_nat_alt)
      with 3 re q h2(1) show ?thesis by auto
    qed
  qed
qed

lemma rt_calloc_spec:
  assumes "heap_alloc h (count * sz) = Some (p, h1)"
  shows "\<exists>h'. rt_calloc count sz h = Some (p, h') \<and> (\<forall>i < count * sz. bytes h' (p + i) = 0)
    \<and> heap_ok h' = heap_ok h1 \<and> heap_live h' = heap_live h1 \<and> heap_region h' = heap_region h1"
proof -
  have "rt_malloc (count * sz) h = Some (p, h1)" "p \<noteq> 0"
    using assms unfolding heap_alloc_def by (cases "rt_malloc (count * sz) h"; auto split: if_splits)+
  then have "rt_calloc count sz h = Some (p, fill_bytes p 0 (count * sz) h1)" by (simp add: rt_calloc_def)
  then show ?thesis by (simp add: fill_bytes_def rt_memset_eq mem_fill_def)
qed

section \<open>The properties\<close>

text \<open>With the lowest-free hint right, a request fails only if no block fits at all.\<close>

lemma rt_malloc_tidy:
  assumes t: "heap_tidy h"
  defines "os \<equiv> heap_offsets h"
  shows "if sz = 0 \<or> mem_size_aligned h < rt_align sz \<or> (\<forall>z \<in> set os. \<not> fits h (req_len sz) z)
    then rt_malloc sz h = Some (0, h)
    else \<exists>m h'. rt_malloc sz h = Some (user_ptr h m, h') \<and> m \<in> set os \<and> fits h (req_len sz) m
      \<and> (\<forall>z \<in> set os. unat z < unat m \<longrightarrow> \<not> fits h (req_len sz) z) \<and> user_ptr h m \<noteq> 0
      \<and> used_mem h' = used_mem h + blk_size (hdr h') m \<and> max_mem h' = max (max_mem h) (used_mem h')"
proof -
  have hb: "heap_blocks h os" and low: "lfree_low h os" and g: "geom h os"
    using t by (auto simp: heap_tidy_def heap_ok_def heap_blocks_def os_def)
  have nf: "no_fit h os len \<longleftrightarrow> (\<forall>z \<in> set os. \<not> fits h len z)" for len
    using low by (auto simp: no_fit_def lfree_low_def fits_def)
  have ff: "first_fit h os len m \<longleftrightarrow> m \<in> set os \<and> fits h len m \<and> (\<forall>z \<in> set os. unat z < unat m \<longrightarrow> \<not> fits h len z)" for len m
    using low by (auto simp: first_fit_def lfree_low_def fits_def)
  from rt_malloc_spec [OF hb, of sz] show ?thesis
  proof
    assume "rt_malloc sz h = Some (0, h) \<and> (sz = 0 \<or> mem_size_aligned h < rt_align sz \<or> no_fit h os (req_len sz))"
    then show ?thesis by (simp add: nf)
  next
    assume "\<exists>m h' os' nx. rt_malloc sz h = Some (user_ptr h m, h') \<and> first_fit h os (req_len sz) m
        \<and> heap_blocks h' os' \<and> same_heap h h' \<and> bytes h' = bytes h
        \<and> used_blocks h' os' = insert (m, nx) (used_blocks h os) \<and> unat m + 12 + unat (req_len sz) \<le> unat nx
        \<and> used_mem h' = used_mem h + (nx - m) \<and> max_mem h' = max (max_mem h) (used_mem h')
        \<and> (lfree_low h os \<longrightarrow> lfree_low h' os')"
    then obtain m h' os' nx where m: "rt_malloc sz h = Some (user_ptr h m, h')" "first_fit h os (req_len sz) m"
      "used_blocks h' os' = insert (m, nx) (used_blocks h os)" "used_mem h' = used_mem h + (nx - m)"
      "max_mem h' = max (max_mem h) (used_mem h')" by blast
    have p: "user_ptr h m \<noteq> 0" using user_ptr_facts(3) [OF g] m(2) by (simp add: first_fit_def)
    have "(m, nx) \<in> used_blocks h' os'" using m(3) by simp
    then have "blk_size (hdr h') m = nx - m" by (auto simp: used_blocks_def blk_size_def)
    moreover have "sz \<noteq> 0 \<and> \<not> mem_size_aligned h < rt_align sz" using m(1) p by (auto simp: rt_malloc_def split: if_splits)
    ultimately show ?thesis using m p unfolding ff by auto
  qed
qed

lemma rt_malloc_empty:
  assumes t: "heap_tidy h" "heap_live h = {}" and sz: "sz \<noteq> 0" "unat (req_len sz) < unat (mem_size_aligned h)"
  shows "\<exists>h'. rt_malloc sz h = Some (user_ptr h 0, h') \<and> user_ptr h 0 \<noteq> 0"
proof -
  note f = heap_all_free [OF t]
  have "unat (heap_end h) = unat (mem_size_aligned h) + 12"
    using t(1) unat_heap_end by (auto simp: heap_tidy_def heap_ok_def heap_blocks_def)
  then have "fits h (req_len sz) 0" using f(2,3) sz(2) by (simp add: fits_def)
  moreover have "\<not> mem_size_aligned h < rt_align sz"
    using sz(2) req_len_facts(3) [of sz] by (simp add: word_less_nat_alt)
  ultimately show ?thesis using rt_malloc_tidy [OF t(1), of sz] sz(1) f(1) by (auto split: if_splits)
qed

text \<open>A heap of 256 bytes.\<close>

definition demo_heap :: heap where
  "demo_heap = rt_system_heap_init 0x1000 0x1100
     \<lparr>heap_ptr = 0, mem_size_aligned = 0, lfree = 0, hdr = (\<lambda>_. \<lparr>magic = 0, used = 0, hnext = 0, hprev = 0\<rparr>),
      used_mem = 0, max_mem = 0, bytes = (\<lambda>_. 0)\<rparr>"

lemma demo_heap_facts: "heap_tidy demo_heap" "heap_live demo_heap = {}" "heap_offsets demo_heap = [0]"
  "heap_ptr demo_heap = 0x1000" "unat (mem_size_aligned demo_heap) = 232"
proof -
  have a: "rt_align 0x1000 = 0x1000" "rt_align_down 0x1100 = 0x1100" by (simp_all add: rt_align_def rt_align_down_def)
  let ?h = "\<lparr>heap_ptr = 0, mem_size_aligned = 0, lfree = 0, hdr = (\<lambda>_. \<lparr>magic = 0, used = 0, hnext = 0, hprev = 0\<rparr>),
      used_mem = 0, max_mem = 0, bytes = (\<lambda>_. 0)\<rparr> :: heap"
  have c: "unat (rt_align 0x1000) + 36 \<le> unat (rt_align_down 0x1100)" "used_mem ?h = 0" by (simp_all add: a)
  from rt_system_heap_init_tidy [OF c, folded demo_heap_def] show "heap_tidy demo_heap" "heap_live demo_heap = {}"
    "heap_offsets demo_heap = [0]" "heap_ptr demo_heap = 0x1000" "unat (mem_size_aligned demo_heap) = 232"
    by (simp_all add: a)
qed

lemma demo_req_len: "req_len 20 = 20" "req_len 1 = 12" "req_len 0xFFFFFFFE = 12"
  by (simp_all add: req_len_def rt_align_def)





text \<open>C14. Freeing undoes fragmentation. After any sequence of requests and releases that leaves nothing
  allocated, the heap is one free block, no bytes count as used, the search starts at that block, and
  every request smaller than the heap succeeds.\<close>

theorem heap_coalesces:
  assumes "heap_tidy h" and "client_run heap_alloc heap_free (h, heap_live h) es = (h', {})"
  shows "heap_offsets h' = [0] \<and> used (hdr h' 0) = 0 \<and> hnext (hdr h' 0) = heap_end h' \<and> lfree h' = 0
    \<and> rt_memory_info h' = (mem_size_aligned h', 0, max_mem h')
    \<and> (\<forall>sz. sz \<noteq> 0 \<and> unat (req_len sz) < unat (mem_size_aligned h') \<longrightarrow>
        (\<exists>h''. rt_malloc sz h' = Some (user_ptr h' 0, h'')))"
proof -
  have "list_all (request_ok (\<lambda>_. True)) es" by (simp add: list_all_iff)
  from hpt.client_run_owns [OF assms(1) _ this assms(2)] have t: "heap_tidy h'" "heap_live h' = {}" by simp_all
  show ?thesis using heap_all_free [OF t] rt_malloc_empty [OF t] by (auto simp: rt_memory_info_def)
qed

theorem heap_coalesces_witness:
  "\<exists>h'. client_run heap_alloc heap_free (demo_heap, {}) [Alloc 20, Free 0x100C] = (h', {})
    \<and> heap_offsets h' = [0] \<and> lfree h' = 0 \<and> used_mem h' = 0"
proof -
  have "unat (req_len 20) < unat (mem_size_aligned demo_heap)" by (simp add: demo_req_len demo_heap_facts(5))
  then obtain h1 where a: "heap_alloc demo_heap 20 = Some (0x100C, h1)"
    using rt_malloc_empty [OF demo_heap_facts(1,2), of 20] by (auto simp: heap_alloc_def user_ptr_def demo_heap_facts(4))
  have ok: "heap_ok demo_heap" using demo_heap_facts(1) by (simp add: heap_tidy_def)
  from heap_alloc_fresh [OF ok a] have "heap_ok h1" "0x100C \<in> heap_live h1" by auto
  from heap_free_live [OF this] obtain h2 where "heap_free h1 0x100C = Some h2" by blast
  with a have r: "client_run heap_alloc heap_free (demo_heap, heap_live demo_heap) [Alloc 20, Free 0x100C] = (h2, {})"
    by (simp add: client_run_def demo_heap_facts(2))
  from heap_coalesces [OF demo_heap_facts(1) this] r show ?thesis by (auto simp: demo_heap_facts(2) rt_memory_info_def)
qed

text \<open>\<open>rt_realloc\<close> on a block of the client. Too large a size fails and keeps the block; size 0, and
  the last three sizes, whose rounding wraps, free it. Otherwise it fails for lack of memory and changes
  nothing, or the client owns a block with room for the new size in place of the old one, its contents
  copied, and no other block is touched.\<close>

theorem heap_realloc:
  assumes "heap_ok h" and "p \<in> heap_live h"
  shows "(mem_size_aligned h < rt_align sz \<longrightarrow> rt_realloc p sz h = Some (0, h))
    \<and> (sz = 0 \<or> 2 ^ 32 \<le> unat sz + 3 \<longrightarrow>
        (\<exists>h'. rt_realloc p sz h = Some (0, h') \<and> heap_ok h' \<and> heap_live h' = heap_live h - {p}))
    \<and> (rt_align sz \<noteq> 0 \<and> rt_align sz \<le> mem_size_aligned h \<longrightarrow> (\<exists>q h'. rt_realloc p sz h = Some (q, h') \<and>
        (q = 0 \<and> h' = h \<and> no_fit h (heap_offsets h) (req_len (rt_align sz)) \<or> resized h h' p q (rt_align sz))))"
proof (intro conjI impI)
  show "mem_size_aligned h < rt_align sz \<Longrightarrow> rt_realloc p sz h = Some (0, h)" by (simp add: rt_realloc_def)
  assume "sz = 0 \<or> 2 ^ 32 \<le> unat sz + 3"
  then have "rt_align sz = 0" using rt_align_wraps [of sz] by (auto simp: rt_align_def)
  then show "\<exists>h'. rt_realloc p sz h = Some (0, h') \<and> heap_ok h' \<and> heap_live h' = heap_live h - {p}"
    using heap_free_live [OF assms] by (auto simp: rt_realloc_def heap_free_def)
next
  assume "rt_align sz \<noteq> 0 \<and> rt_align sz \<le> mem_size_aligned h"
  with rt_realloc_spec [OF assms] show "\<exists>q h'. rt_realloc p sz h = Some (q, h') \<and>
      (q = 0 \<and> h' = h \<and> no_fit h (heap_offsets h) (req_len (rt_align sz)) \<or> resized h h' p q (rt_align sz))" by simp
qed

theorem heap_realloc_witness:
  "\<exists>h h'. heap_alloc demo_heap 20 = Some (0x100C, h) \<and> rt_realloc 0x100C 0xFFFFFFFE h = Some (0, h') \<and> heap_live h' = {}"
proof -
  have "unat (req_len 20) < unat (mem_size_aligned demo_heap)" by (simp add: demo_req_len demo_heap_facts(5))
  then obtain h where a: "heap_alloc demo_heap 20 = Some (0x100C, h)"
    using rt_malloc_empty [OF demo_heap_facts(1,2), of 20] by (auto simp: heap_alloc_def user_ptr_def demo_heap_facts(4))
  have ok: "heap_ok demo_heap" using demo_heap_facts(1) by (simp add: heap_tidy_def)
  from heap_alloc_fresh [OF ok a] have "heap_ok h" "0x100C \<in> heap_live h" "heap_live h = {0x100C}"
    by (auto simp: demo_heap_facts(2))
  with heap_realloc [of h "0x100C" "0xFFFFFFFE"] a show ?thesis by auto
qed

end
