(* ===== verification/RingBlock.thy ===== *)
theory RingBlock
  imports Block_Allocator SmallMem
begin

text \<open>
  \<open>components/drivers/src/ringblk_buf.c\<close>: a buffer cut into blocks that are allocated in ring order, filled,
  handed to a consumer and freed. A block is named by its index in \<open>blk_set\<close>; \<open>blk_list\<close> holds the indices
  of the blocks on the single list, in list order. \<open>rt_slist_remove\<close> leaves the removed node's own link in
  place, so the loop of \<open>rt_rbb_blk_queue_get\<close>, which removes the node it stands on, still visits the list
  as it was at its start. A failed assertion is \<open>None\<close>.
\<close>

section \<open>Operations\<close>

datatype rt_rbb_status = RT_RBB_BLK_UNUSED | RT_RBB_BLK_INITED | RT_RBB_BLK_PUT | RT_RBB_BLK_GET

record rt_rbb_blk =
  bstatus :: rt_rbb_status
  bsize :: u32
  bbuf :: u32

record rt_rbb =
  rbb_buf :: u32
  rbb_buf_size :: u32
  blk_set :: "rt_rbb_blk list"
  blk_max_num :: u32
  blk_list :: "nat list"

record rt_rbb_blk_queue =
  blocks :: nat
  blk_num :: u32

abbreviation blk :: "rt_rbb \<Rightarrow> nat \<Rightarrow> rt_rbb_blk" where
  "blk r i \<equiv> blk_set r ! i"

definition upd_blk :: "nat \<Rightarrow> (rt_rbb_blk \<Rightarrow> rt_rbb_blk) \<Rightarrow> rt_rbb \<Rightarrow> rt_rbb" where
  "upd_blk i f r = r\<lparr>blk_set := (blk_set r)[i := f (blk r i)]\<rparr>"

definition set_status :: "nat \<Rightarrow> rt_rbb_status \<Rightarrow> rt_rbb \<Rightarrow> rt_rbb" where
  "set_status i s = upd_blk i (\<lambda>b. b\<lparr>bstatus := s\<rparr>)"

definition rt_rbb_init :: "u32 \<Rightarrow> u32 \<Rightarrow> rt_rbb_blk list \<Rightarrow> u32 \<Rightarrow> rt_rbb option" where
  "rt_rbb_init buf sz bs n =
     (if buf \<noteq> 0 \<and> unat n \<le> length bs
      then Some \<lparr>rbb_buf = buf, rbb_buf_size = sz,
        blk_set = map (\<lambda>b. b\<lparr>bstatus := RT_RBB_BLK_UNUSED\<rparr>) (take (unat n) bs) @ drop (unat n) bs,
        blk_max_num = n, blk_list = []\<rparr>
      else None)"

fun find_unused :: "rt_rbb_blk list \<Rightarrow> nat \<Rightarrow> nat option" where
  "find_unused [] i = None"
| "find_unused (b # bs) i = (if bstatus b = RT_RBB_BLK_UNUSED then Some i else find_unused bs (Suc i))"

definition find_empty_blk_in_set :: "rt_rbb \<Rightarrow> nat option" where
  "find_empty_blk_in_set r = find_unused (take (unat (blk_max_num r)) (blk_set r)) 0"

text \<open>The four lines that each successful branch of the allocation consists of.\<close>

definition append_blk :: "nat \<Rightarrow> u32 \<Rightarrow> u32 \<Rightarrow> rt_rbb \<Rightarrow> rt_rbb" where
  "append_blk i a sz r =
     (upd_blk i (\<lambda>b. b\<lparr>bstatus := RT_RBB_BLK_INITED, bbuf := a, bsize := sz\<rparr>) r)
       \<lparr>blk_list := blk_list r @ [i]\<rparr>"

definition rt_rbb_blk_alloc :: "u32 \<Rightarrow> rt_rbb \<Rightarrow> (nat option \<times> rt_rbb) option" where
  "rt_rbb_blk_alloc sz r =
     (if sz < 2 ^ 24 then Some
        (case find_empty_blk_in_set r of
           Some i \<Rightarrow>
             (if length (blk_list r) < unat (blk_max_num r) then
                (if blk_list r \<noteq> [] then
                   (let head = blk r (hd (blk_list r)); tail = blk r (last (blk_list r)) in
                    if bbuf head \<le> bbuf tail then
                      (let empty1 = (rbb_buf r + rbb_buf_size r) - (bbuf tail + bsize tail);
                           empty2 = bbuf head - rbb_buf r in
                       if sz \<le> empty1 then (Some i, append_blk i (bbuf tail + bsize tail) sz r)
                       else if sz \<le> empty2 then (Some i, append_blk i (rbb_buf r) sz r)
                       else (None, r))
                    else
                      (let empty1 = bbuf head - (bbuf tail + bsize tail) in
                       if sz \<le> empty1 then (Some i, append_blk i (bbuf tail + bsize tail) sz r)
                       else (None, r)))
                 else (Some i, append_blk i (rbb_buf r) sz r))
              else (None, r))
         | None \<Rightarrow> (None, r))
      else None)"

definition rt_rbb_blk_put :: "nat \<Rightarrow> rt_rbb \<Rightarrow> rt_rbb option" where
  "rt_rbb_blk_put i r =
     (if bstatus (blk r i) = RT_RBB_BLK_INITED then Some (set_status i RT_RBB_BLK_PUT r) else None)"

fun first_put :: "rt_rbb \<Rightarrow> nat list \<Rightarrow> nat option" where
  "first_put r [] = None"
| "first_put r (i # is) = (if bstatus (blk r i) = RT_RBB_BLK_PUT then Some i else first_put r is)"

definition rt_rbb_blk_get :: "rt_rbb \<Rightarrow> nat option \<times> rt_rbb" where
  "rt_rbb_blk_get r =
     (case first_put r (blk_list r) of
        None \<Rightarrow> (None, r)
      | Some i \<Rightarrow> (Some i, set_status i RT_RBB_BLK_GET r))"

definition rt_rbb_blk_size :: "nat \<Rightarrow> rt_rbb \<Rightarrow> u32" where
  "rt_rbb_blk_size i r = bsize (blk r i)"

definition rt_rbb_blk_buf :: "nat \<Rightarrow> rt_rbb \<Rightarrow> u32" where
  "rt_rbb_blk_buf i r = bbuf (blk r i)"

definition slist_remove :: "nat \<Rightarrow> rt_rbb \<Rightarrow> rt_rbb" where
  "slist_remove i r = r\<lparr>blk_list := remove1 i (blk_list r)\<rparr>"

definition rt_rbb_blk_free :: "nat \<Rightarrow> rt_rbb \<Rightarrow> rt_rbb option" where
  "rt_rbb_blk_free i r =
     (if bstatus (blk r i) \<noteq> RT_RBB_BLK_UNUSED
      then Some (set_status i RT_RBB_BLK_UNUSED (slist_remove i r)) else None)"

text \<open>The loop of \<open>rt_rbb_blk_queue_get\<close> over the remaining nodes, with the last block taken and the size
  so far.\<close>

definition take_blk :: "nat \<Rightarrow> rt_rbb \<Rightarrow> rt_rbb" where
  "take_blk i r = set_status i RT_RBB_BLK_GET (slist_remove i r)"

fun queue_get_loop :: "nat list \<Rightarrow> nat option \<Rightarrow> u32 \<Rightarrow> u32 \<Rightarrow> rt_rbb_blk_queue \<Rightarrow> rt_rbb \<Rightarrow>
    u32 \<times> rt_rbb_blk_queue \<times> rt_rbb" where
  "queue_get_loop [] l acc lim q r = (acc, q, r)"
| "queue_get_loop (i # is) None acc lim q r =
     (if bstatus (blk r i) = RT_RBB_BLK_PUT
      then queue_get_loop is (Some i) (acc + bsize (blk r i)) lim
             (q\<lparr>blocks := i, blk_num := 0 + 1\<rparr>) (take_blk i r)
      else queue_get_loop is None acc lim q r)"
| "queue_get_loop (i # is) (Some l) acc lim q r =
     (if bstatus (blk r i) \<noteq> RT_RBB_BLK_PUT \<or> bbuf (blk r i) < bbuf (blk r l)
         \<or> lim < acc + bsize (blk r i)
      then (acc, q, r)
      else queue_get_loop is (Some i) (acc + bsize (blk r i)) lim
             (q\<lparr>blk_num := blk_num q + 1\<rparr>) (take_blk i r))"

definition rt_rbb_blk_queue_get :: "u32 \<Rightarrow> rt_rbb_blk_queue \<Rightarrow> rt_rbb \<Rightarrow> u32 \<times> rt_rbb_blk_queue \<times> rt_rbb" where
  "rt_rbb_blk_queue_get lim q r = queue_get_loop (blk_list r) None 0 lim q r"

text \<open>\<open>blocks[i]\<close> counts on from the first block in \<open>blk_set\<close>, not along the list.\<close>

fun queue_len_loop :: "nat \<Rightarrow> rt_rbb_blk_queue \<Rightarrow> rt_rbb \<Rightarrow> u32 option" where
  "queue_len_loop 0 q r = Some 0"
| "queue_len_loop (Suc n) q r = do {
     s \<leftarrow> queue_len_loop n q r;
     b \<leftarrow> load_at (blk_set r) (blocks q + n);
     Some (s + bsize b)
   }"

definition rt_rbb_blk_queue_len :: "rt_rbb_blk_queue \<Rightarrow> rt_rbb \<Rightarrow> u32 option" where
  "rt_rbb_blk_queue_len q r = queue_len_loop (unat (blk_num q)) q r"

definition rt_rbb_blk_queue_buf :: "rt_rbb_blk_queue \<Rightarrow> rt_rbb \<Rightarrow> u32" where
  "rt_rbb_blk_queue_buf q r = bbuf (blk r (blocks q + 0))"

fun queue_free_loop :: "nat \<Rightarrow> rt_rbb_blk_queue \<Rightarrow> rt_rbb \<Rightarrow> rt_rbb option" where
  "queue_free_loop 0 q r = Some r"
| "queue_free_loop (Suc n) q r = do {
     r' \<leftarrow> queue_free_loop n q r;
     _ \<leftarrow> load_at (blk_set r') (blocks q + n);
     rt_rbb_blk_free (blocks q + n) r'
   }"

definition rt_rbb_blk_queue_free :: "rt_rbb_blk_queue \<Rightarrow> rt_rbb \<Rightarrow> rt_rbb option" where
  "rt_rbb_blk_queue_free q r = queue_free_loop (unat (blk_num q)) q r"

fun queue_len_next :: "nat list \<Rightarrow> nat option \<Rightarrow> u32 \<Rightarrow> rt_rbb \<Rightarrow> u32" where
  "queue_len_next [] l acc r = acc"
| "queue_len_next (i # is) None acc r =
     (if bstatus (blk r i) \<noteq> RT_RBB_BLK_PUT then queue_len_next is None acc r
      else queue_len_next is (Some i) (acc + bsize (blk r i)) r)"
| "queue_len_next (i # is) (Some l) acc r =
     (if bstatus (blk r i) \<noteq> RT_RBB_BLK_PUT \<or> bbuf (blk r i) < bbuf (blk r l) then acc
      else queue_len_next is (Some i) (acc + bsize (blk r i)) r)"

definition rt_rbb_next_blk_queue_len :: "rt_rbb \<Rightarrow> u32" where
  "rt_rbb_next_blk_queue_len r = queue_len_next (blk_list r) None 0 r"

definition rt_rbb_get_buf_size :: "rt_rbb \<Rightarrow> u32" where
  "rt_rbb_get_buf_size r = rbb_buf_size r"

text \<open>
  Creation on the heap of \<open>mem.c\<close>. \<open>sizeof(struct rt_rbb)\<close> is 20 and \<open>sizeof(struct rt_rbb_blk)\<close> 12; the
  product wraps. The fresh block set holds whatever the memory held (\<open>junk\<close>). The result gives the
  addresses of the object and of the block set.
\<close>

definition rt_rbb_create :: "(nat \<Rightarrow> rt_rbb_blk) \<Rightarrow> u32 \<Rightarrow> u32 \<Rightarrow> heap \<Rightarrow>
    ((u32 \<times> u32 \<times> rt_rbb) option \<times> heap) option" where
  "rt_rbb_create junk buf_size n h = do {
     (rbb, h1) \<leftarrow> rt_malloc 20 h;
     if rbb = 0 then Some (None, h1)
     else do {
       (buf, h2) \<leftarrow> rt_malloc buf_size h1;
       if buf = 0 then do { h3 \<leftarrow> rt_free rbb h2; Some (None, h3) }
       else do {
         (blks, h3) \<leftarrow> rt_malloc (12 * n) h2;
         if blks = 0 then do { h4 \<leftarrow> rt_free buf h3; h5 \<leftarrow> rt_free rbb h4; Some (None, h5) }
         else do {
           r \<leftarrow> rt_rbb_init buf buf_size (map junk [0..<unat (12 * n) div 12]) n;
           Some (Some (rbb, blks, r), h3)
         }
       }
     }
   }"

definition rt_rbb_destroy :: "u32 \<Rightarrow> u32 \<Rightarrow> rt_rbb \<Rightarrow> heap \<Rightarrow> heap option" where
  "rt_rbb_destroy rbb blks r h = do {
     h1 \<leftarrow> rt_free (rbb_buf r) h;
     h2 \<leftarrow> rt_free blks h1;
     rt_free rbb h2
   }"

section \<open>Well-formed ring block buffers\<close>

definition bstart :: "rt_rbb_blk \<Rightarrow> nat" where
  "bstart b = unat (bbuf b)"

definition bend :: "rt_rbb_blk \<Rightarrow> nat" where
  "bend b = unat (bbuf b) + unat (bsize b)"

text \<open>The blocks follow one another in the buffer; the list may wrap around the end of the buffer once.\<close>

definition ascending :: "rt_rbb_blk list \<Rightarrow> bool" where
  "ascending = sorted_wrt (\<lambda>a b. bend a \<le> bstart b)"

definition ring_ordered :: "rt_rbb_blk list \<Rightarrow> bool" where
  "ring_ordered bs \<longleftrightarrow> (\<exists>k \<le> length bs. ascending (drop k bs @ take k bs))"

definition blk_inside :: "rt_rbb \<Rightarrow> rt_rbb_blk \<Rightarrow> bool" where
  "blk_inside r b \<longleftrightarrow> 0 < unat (bsize b) \<and> unat (rbb_buf r) \<le> bstart b
     \<and> bend b \<le> unat (rbb_buf r) + unat (rbb_buf_size r)"

definition rbb_ok :: "rt_rbb \<Rightarrow> bool" where
  "rbb_ok r \<longleftrightarrow> unat (rbb_buf r) + unat (rbb_buf_size r) < 2 ^ 32
     \<and> unat (blk_max_num r) = length (blk_set r) \<and> distinct (blk_list r)
     \<and> (\<forall>i \<in> set (blk_list r). i < length (blk_set r) \<and> bstatus (blk r i) \<noteq> RT_RBB_BLK_UNUSED
          \<and> blk_inside r (blk r i))
     \<and> ring_ordered (map (blk r) (blk_list r))"

lemma ring_orderedI: "ascending (B @ A) \<Longrightarrow> ring_ordered (A @ B)"
  by (auto simp: ring_ordered_def intro!: exI [of _ "length A"])

lemma ring_orderedE:
  assumes "ring_ordered bs" obtains A B where "bs = A @ B" "ascending (B @ A)"
  using assms by (metis append_take_drop_id ring_ordered_def)

lemma ascending_snoc: "ascending (bs @ [b]) \<longleftrightarrow> ascending bs \<and> (\<forall>a \<in> set bs. bend a \<le> bstart b)"
  by (auto simp: ascending_def sorted_wrt_append)

lemma ascending_Cons: "ascending (b # bs) \<longleftrightarrow> ascending bs \<and> (\<forall>a \<in> set bs. bend b \<le> bstart a)"
  by (auto simp: ascending_def)

lemma bstart_le_bend: "bstart b \<le> bend b"
  by (simp add: bstart_def bend_def)

lemma ascending_last:
  "ascending bs \<Longrightarrow> a \<in> set bs \<Longrightarrow> bend a \<le> bend (last bs)"
proof (induction bs rule: rev_induct)
  case (snoc b bs)
  then show ?case using bstart_le_bend [of b] by (fastforce simp: ascending_snoc)
qed simp

lemma ascending_hd: "ascending bs \<Longrightarrow> a \<in> set bs \<Longrightarrow> bstart (hd bs) \<le> bstart a"
  by (cases bs) (auto simp: ascending_Cons intro: order_trans [OF bstart_le_bend])

text \<open>Removing blocks keeps the order.\<close>

lemma ring_ordered_filter:
  assumes "ring_ordered (map f xs)" shows "ring_ordered (map f (filter P xs))"
proof -
  obtain A B where AB: "map f xs = A @ B" "ascending (B @ A)" using assms by (rule ring_orderedE)
  then obtain ys zs where x: "xs = ys @ zs" "map f ys = A" "map f zs = B"
    by (auto simp: map_eq_append_conv)
  have "ascending (map f (zs @ ys))" using AB(2) x by simp
  then have "ascending (map f (filter P (zs @ ys)))"
    unfolding ascending_def sorted_wrt_map by (rule sorted_wrt_filter)
  then have "ascending (map f (filter P zs) @ map f (filter P ys))" by simp
  from ring_orderedI [OF this] show ?thesis by (simp add: x(1))
qed

text \<open>Where a block may be appended: behind the last one, or at the start of the buffer, or in the gap
  between the last and the first.\<close>

lemma not_wrapped:
  assumes "ring_ordered bs" "bs \<noteq> []" "\<forall>b \<in> set bs. 0 < unat (bsize b)" "bstart (hd bs) \<le> bstart (last bs)"
  shows "ascending bs"
proof -
  obtain A B where AB: "bs = A @ B" "ascending (B @ A)" using assms(1) by (rule ring_orderedE)
  have "A = [] \<or> B = []"
  proof (rule ccontr)
    assume n: "\<not> (A = [] \<or> B = [])"
    then have m: "hd A \<in> set A" "last B \<in> set B" by auto
    then have "bend (last B) \<le> bstart (hd A)"
      using AB(2) by (auto simp: ascending_def sorted_wrt_append)
    moreover have "bstart (last B) < bend (last B)"
      using assms(3) m(2) AB(1) by (auto simp: bstart_def bend_def)
    ultimately show False using assms(4) n AB(1) by simp
  qed
  then show ?thesis using AB by auto
qed

lemma ring_behind_last:
  assumes "ring_ordered bs" "bs \<noteq> []" "\<forall>b \<in> set bs. 0 < unat (bsize b)" "bstart (hd bs) \<le> bstart (last bs)"
    and "bend (last bs) \<le> bstart b"
  shows "ring_ordered (bs @ [b])"
proof -
  have a: "ascending bs" by (rule not_wrapped [OF assms(1-4)])
  have "\<forall>c \<in> set bs. bend c \<le> bstart b" using ascending_last [OF a] assms(5) by fastforce
  with a have "ascending ([] @ bs @ [b])" by (simp add: ascending_snoc)
  from ring_orderedI [OF this] show ?thesis by simp
qed

lemma ring_at_start:
  assumes "ring_ordered bs" "bs \<noteq> []" "\<forall>b \<in> set bs. 0 < unat (bsize b)" "bstart (hd bs) \<le> bstart (last bs)"
    and "bend b \<le> bstart (hd bs)"
  shows "ring_ordered (bs @ [b])"
proof -
  have a: "ascending bs" by (rule not_wrapped [OF assms(1-4)])
  have "\<forall>c \<in> set bs. bend b \<le> bstart c" using ascending_hd [OF a] assms(5) by fastforce
  with a have "ascending ([b] @ bs)" by (simp add: ascending_Cons)
  from ring_orderedI [OF this] show ?thesis .
qed

lemma ring_in_gap:
  assumes "ring_ordered bs" "bs \<noteq> []" "bstart (last bs) < bstart (hd bs)"
    and b: "bend (last bs) \<le> bstart b" "bend b \<le> bstart (hd bs)"
  shows "ring_ordered (bs @ [b])"
proof -
  obtain A B where AB: "bs = A @ B" "ascending (B @ A)" using assms(1) by (rule ring_orderedE)
  have "\<not> ascending bs" using assms(2,3) ascending_hd [of bs "last bs"] by fastforce
  then have n: "A \<noteq> []" "B \<noteq> []" using AB by auto
  have AB': "ascending A" "ascending B" "\<forall>c \<in> set B. \<forall>a \<in> set A. bend c \<le> bstart a"
    using AB(2) by (auto simp: ascending_def sorted_wrt_append)
  have "\<forall>c \<in> set B. bend c \<le> bstart b" "\<forall>a \<in> set A. bend b \<le> bstart a"
    using ascending_last [OF AB'(2)] ascending_hd [OF AB'(1)] b n AB(1) by fastforce+
  then have "ascending ((B @ [b]) @ A)"
    using AB' unfolding ascending_def sorted_wrt_append by auto
  from ring_orderedI [OF this] show ?thesis by (simp add: AB(1))
qed

lemma ring_gap:
  assumes "ring_ordered bs" "bs \<noteq> []" "bstart (last bs) < bstart (hd bs)"
  shows "bend (last bs) \<le> bstart (hd bs)"
proof -
  obtain A B where AB: "bs = A @ B" "ascending (B @ A)" using assms(1) by (rule ring_orderedE)
  have "\<not> ascending bs" using assms(2,3) ascending_hd [of bs "last bs"] by fastforce
  then have "A \<noteq> []" "B \<noteq> []" using AB by auto
  then show ?thesis using AB by (simp add: ascending_def sorted_wrt_append)
qed

lemma blk_upd [simp]:
  "i < length (blk_set r) \<Longrightarrow> blk (upd_blk i f r) j = (if j = i then f (blk r i) else blk r j)"
  "length (blk_set (upd_blk i f r)) = length (blk_set r)" "blk_list (upd_blk i f r) = blk_list r"
  "rbb_buf (upd_blk i f r) = rbb_buf r" "rbb_buf_size (upd_blk i f r) = rbb_buf_size r"
  "blk_max_num (upd_blk i f r) = blk_max_num r"
  by (simp_all add: upd_blk_def)

lemma slist_remove_fields [simp]:
  "blk_set (slist_remove i r) = blk_set r" "blk_list (slist_remove i r) = remove1 i (blk_list r)"
  "rbb_buf (slist_remove i r) = rbb_buf r" "rbb_buf_size (slist_remove i r) = rbb_buf_size r"
  "blk_max_num (slist_remove i r) = blk_max_num r"
  by (simp_all add: slist_remove_def)

lemma blk_inside_cong: "rbb_buf r' = rbb_buf r \<Longrightarrow> rbb_buf_size r' = rbb_buf_size r \<Longrightarrow>
   blk_inside r' = blk_inside r"
  by (simp add: blk_inside_def fun_eq_iff)

lemma rbb_ok_blk:
  assumes "rbb_ok r" "i \<in> set (blk_list r)"
  shows "i < length (blk_set r)" "bstatus (blk r i) \<noteq> RT_RBB_BLK_UNUSED" "blk_inside r (blk r i)"
    "unat (bbuf (blk r i) + bsize (blk r i)) = bend (blk r i)"
proof -
  show b: "i < length (blk_set r)" "bstatus (blk r i) \<noteq> RT_RBB_BLK_UNUSED" "blk_inside r (blk r i)"
    using assms by (auto simp: rbb_ok_def)
  then have "bend (blk r i) < 2 ^ 32" using assms(1) by (simp add: blk_inside_def rbb_ok_def)
  then show "unat (bbuf (blk r i) + bsize (blk r i)) = bend (blk r i)"
    by (simp add: bend_def unat_word_ariths)
qed

text \<open>Changing the status of a block, and taking a block off the list.\<close>

lemma rbb_ok_status:
  assumes r: "rbb_ok r" and s: "s \<noteq> RT_RBB_BLK_UNUSED \<or> i \<notin> set (blk_list r)"
  shows "rbb_ok (set_status i s r)"
proof (cases "i < length (blk_set r)")
  case True
  define g where "g = (\<lambda>j. if j = i then s else bstatus (blk r j))"
  have f: "blk (set_status i s r) = (\<lambda>j. (blk r j)\<lparr>bstatus := g j\<rparr>)"
    using True by (auto simp: set_status_def g_def)
  have "ascending (map (\<lambda>j. (blk r j)\<lparr>bstatus := g j\<rparr>) xs) = ascending (map (blk r) xs)" for xs
    by (simp add: ascending_def sorted_wrt_map bstart_def bend_def)
  then have "ring_ordered (map (blk (set_status i s r)) (blk_list r)) = ring_ordered (map (blk r) (blk_list r))"
    by (simp add: f ring_ordered_def drop_map take_map flip: map_append)
  moreover have "\<forall>j \<in> set (blk_list r). g j \<noteq> RT_RBB_BLK_UNUSED"
    using r s by (auto simp: rbb_ok_def g_def)
  moreover have "blk_inside (set_status i s r) (b\<lparr>bstatus := t\<rparr>) = blk_inside r b" for b t
    by (simp add: blk_inside_def bstart_def bend_def set_status_def)
  ultimately show ?thesis
    using r unfolding rbb_ok_def f by (simp add: set_status_def)
next
  case False
  then have "set_status i s r = r" by (simp add: set_status_def upd_blk_def list_update_beyond)
  then show ?thesis using r by simp
qed

lemma rbb_ok_remove:
  assumes "rbb_ok r" shows "rbb_ok (slist_remove i r)"
proof -
  have d: "remove1 i (blk_list r) = filter (\<lambda>j. j \<noteq> i) (blk_list r)"
    using assms by (simp add: rbb_ok_def distinct_remove1_removeAll removeAll_filter_not_eq)
      (simp add: eq_commute)
  have "ring_ordered (map (blk r) (blk_list r))" using assms by (simp add: rbb_ok_def)
  from ring_ordered_filter [OF this] have "ring_ordered (map (blk r) (remove1 i (blk_list r)))"
    by (simp add: d)
  then show ?thesis using assms by (auto simp: rbb_ok_def blk_inside_def dest: notin_set_remove1)
qed

lemma rt_rbb_blk_free_ok:
  "rbb_ok r \<Longrightarrow> rt_rbb_blk_free i r = Some r' \<Longrightarrow>
   rbb_ok r' \<and> set (blk_list r') = set (blk_list r) - {i} \<and> (\<forall>j. j \<noteq> i \<longrightarrow> blk r' j = blk r j)"
  using rbb_ok_status [OF rbb_ok_remove [of r i], of RT_RBB_BLK_UNUSED i]
  by (cases "i < length (blk_set r)") (auto simp: rt_rbb_blk_free_def set_status_def rbb_ok_def upd_blk_def split: if_splits)

lemma find_unused_Some:
  "find_unused bs i = Some j \<Longrightarrow> i \<le> j \<and> j < i + length bs \<and> bstatus (bs ! (j - i)) = RT_RBB_BLK_UNUSED"
proof (induction bs arbitrary: i)
  case (Cons b bs)
  show ?case
  proof (cases "bstatus b = RT_RBB_BLK_UNUSED")
    case False
    then have "find_unused bs (Suc i) = Some j" using Cons.prems by simp
    from Cons.IH [OF this] show ?thesis by (auto simp: Suc_diff_le nth_Cons')
  qed (use Cons.prems in auto)
qed simp

lemma find_unused_None: "find_unused bs i = None \<longleftrightarrow> (\<forall>b \<in> set bs. bstatus b \<noteq> RT_RBB_BLK_UNUSED)"
  by (induction bs arbitrary: i) auto

lemma find_empty_spec:
  assumes "rbb_ok r"
  shows "find_empty_blk_in_set r = Some i \<Longrightarrow> i < length (blk_set r) \<and> bstatus (blk r i) = RT_RBB_BLK_UNUSED \<and> i \<notin> set (blk_list r)"
    "find_empty_blk_in_set r = None \<longleftrightarrow> (\<forall>b \<in> set (blk_set r). bstatus b \<noteq> RT_RBB_BLK_UNUSED)"
  using assms find_unused_Some [of "blk_set r" 0 i] rbb_ok_blk(2) [OF assms, of i]
  by (auto simp: find_empty_blk_in_set_def rbb_ok_def find_unused_None)

lemma append_blk_fields [simp]:
  "i < length (blk_set r) \<Longrightarrow> blk (append_blk i a sz r) j =
     (if j = i then (blk r i)\<lparr>bstatus := RT_RBB_BLK_INITED, bbuf := a, bsize := sz\<rparr> else blk r j)"
  "length (blk_set (append_blk i a sz r)) = length (blk_set r)"
  "blk_list (append_blk i a sz r) = blk_list r @ [i]"
  "rbb_buf (append_blk i a sz r) = rbb_buf r" "rbb_buf_size (append_blk i a sz r) = rbb_buf_size r"
  "blk_max_num (append_blk i a sz r) = blk_max_num r"
  by (simp_all add: append_blk_def)

lemma append_blk_ok:
  assumes r: "rbb_ok r" and i: "i < length (blk_set r)" "i \<notin> set (blk_list r)"
    and b: "unat (rbb_buf r) \<le> unat a" "unat a + unat sz \<le> unat (rbb_buf r) + unat (rbb_buf_size r)" "0 < unat sz"
    and o: "\<And>b. bbuf b = a \<Longrightarrow> bsize b = sz \<Longrightarrow> ring_ordered (map (blk r) (blk_list r) @ [b])"
  shows "rbb_ok (append_blk i a sz r)"
proof -
  let ?b = "(blk r i)\<lparr>bstatus := RT_RBB_BLK_INITED, bbuf := a, bsize := sz\<rparr>"
  have m: "map (blk (append_blk i a sz r)) (blk_list r) = map (blk r) (blk_list r)"
    using i by (intro map_cong) auto
  have "ring_ordered (map (blk r) (blk_list r) @ [?b])" by (rule o) simp_all
  moreover have "blk_inside (append_blk i a sz r) = blk_inside r" by (rule blk_inside_cong) simp_all
  moreover have "blk_inside r ?b" using b by (simp add: blk_inside_def bstart_def bend_def)
  ultimately show ?thesis using r i unfolding rbb_ok_def by (simp add: m)
qed

lemma rt_rbb_blk_alloc_ok:
  assumes r: "rbb_ok r" and sz: "0 < unat sz" "unat sz \<le> unat (rbb_buf_size r)"
    and a: "rt_rbb_blk_alloc sz r = Some (Some i, r')"
  shows "\<exists>a. r' = append_blk i a sz r \<and> find_empty_blk_in_set r = Some i \<and> rbb_ok r'
    \<and> unat (rbb_buf r) \<le> unat a \<and> unat a + unat sz \<le> unat (rbb_buf r) + unat (rbb_buf_size r)"
proof -
  have e: "find_empty_blk_in_set r = Some i"
    using a by (auto simp: rt_rbb_blk_alloc_def Let_def split: option.splits if_splits)
  note i = find_empty_spec(1) [OF r e]
  have app: ?thesis if "r' = append_blk i a sz r" "unat (rbb_buf r) \<le> unat a"
    "unat a + unat sz \<le> unat (rbb_buf r) + unat (rbb_buf_size r)"
    "\<And>b. bbuf b = a \<Longrightarrow> bsize b = sz \<Longrightarrow> ring_ordered (map (blk r) (blk_list r) @ [b])" for a
    using that append_blk_ok [OF r, of i a sz] i sz(1) e by blast
  show ?thesis
  proof (cases "blk_list r = []")
    case True
    then have "r' = append_blk i (rbb_buf r) sz r"
      using a e by (auto simp: rt_rbb_blk_alloc_def split: if_splits)
    moreover have "ring_ordered [b]" for b by (auto simp: ring_ordered_def ascending_def intro!: exI [of _ 0])
    ultimately show ?thesis using app [of "rbb_buf r"] sz(2) True by simp
  next
    case False
    let ?bs = "map (blk r) (blk_list r)"
    define h where "h = blk r (hd (blk_list r))"
    define t where "t = blk r (last (blk_list r))"
    have ht: "hd ?bs = h" "last ?bs = t" "?bs \<noteq> []" using False by (simp_all add: h_def t_def hd_map last_map)
    have o: "ring_ordered ?bs" "\<forall>b \<in> set ?bs. 0 < unat (bsize b)"
      using r by (auto simp: rbb_ok_def blk_inside_def)
    have in_h: "blk_inside r h" and in_t: "blk_inside r t" and te: "unat (bbuf t + bsize t) = bend t"
      using rbb_ok_blk [OF r] False by (simp_all add: h_def t_def)
    have be: "unat (rbb_buf r + rbb_buf_size r) = unat (rbb_buf r) + unat (rbb_buf_size r)"
      using r by (simp add: rbb_ok_def unat_word_ariths)
    have empty1: "unat (rbb_buf r + rbb_buf_size r - (bbuf t + bsize t)) = unat (rbb_buf r) + unat (rbb_buf_size r) - bend t"
      using in_t by (subst unat_sub) (simp_all add: word_le_nat_alt te be blk_inside_def)
    have empty2: "unat (bbuf h - rbb_buf r) = bstart h - unat (rbb_buf r)"
      using in_h by (subst unat_sub) (simp_all add: word_le_nat_alt blk_inside_def bstart_def)
    note alloc = a [unfolded rt_rbb_blk_alloc_def Let_def e option.case if_P [OF False] h_def [symmetric] t_def [symmetric]]
    have tin: "unat (rbb_buf r) \<le> bend t" using in_t bstart_le_bend [of t] by (simp add: blk_inside_def)
    show ?thesis
    proof (cases "bbuf h \<le> bbuf t")
      case True
      then have ord: "bstart (hd ?bs) \<le> bstart (last ?bs)" by (simp add: ht(1,2) bstart_def word_le_nat_alt)
      show ?thesis
      proof (cases "sz \<le> rbb_buf r + rbb_buf_size r - (bbuf t + bsize t)")
        case room: True
        then have "bend t + unat sz \<le> unat (rbb_buf r) + unat (rbb_buf_size r)"
          using empty1 sz(1) by (simp add: word_le_nat_alt)
        moreover have "r' = append_blk i (bbuf t + bsize t) sz r"
          using alloc room True by (auto split: if_splits)
        moreover have "ring_ordered (?bs @ [b])" if "bbuf b = bbuf t + bsize t" for b
          using that te ht(2) by (intro ring_behind_last [OF o(1) ht(3) o(2) ord]) (simp add: bstart_def)
        ultimately show ?thesis using tin te by (intro app [of "bbuf t + bsize t"]) simp_all
      next
        case no_room: False
        then have "sz \<le> bbuf h - rbb_buf r" "r' = append_blk i (rbb_buf r) sz r"
          using alloc True by (auto split: if_splits)
        then have fit: "unat (rbb_buf r) + unat sz \<le> bstart h" 
          using empty2 sz(1) by (simp add: word_le_nat_alt)
        moreover have "ring_ordered (?bs @ [b])" if "bbuf b = rbb_buf r" "bsize b = sz" for b
          using that fit ht(1) by (intro ring_at_start [OF o(1) ht(3) o(2) ord]) (simp add: bend_def)
        ultimately show ?thesis using \<open>r' = append_blk i (rbb_buf r) sz r\<close> sz(2)
          by (intro app [of "rbb_buf r"]) simp_all
      qed
    next
      case wrapped: False
      then have lt: "bstart (last ?bs) < bstart (hd ?bs)" by (simp add: ht(1,2) bstart_def word_le_nat_alt)
      have fit: "sz \<le> bbuf h - (bbuf t + bsize t)" "r' = append_blk i (bbuf t + bsize t) sz r"
        using alloc wrapped by (auto split: if_splits)
      have gap: "bend t \<le> bstart h" by (rule ring_gap [OF o(1) ht(3) lt, unfolded ht])
      have "unat (bbuf h - (bbuf t + bsize t)) = bstart h - bend t"
        using gap by (subst unat_sub) (simp_all add: word_le_nat_alt te bstart_def)
      then have "bend t + unat sz \<le> bstart h" using fit(1) sz(1) by (simp add: word_le_nat_alt)
      moreover have "bstart h \<le> unat (rbb_buf r) + unat (rbb_buf_size r)"
        using in_h bstart_le_bend [of h] by (simp add: blk_inside_def)
      moreover have "ring_ordered (?bs @ [b])" if "bbuf b = bbuf t + bsize t" "bsize b = sz" for b
        using that te ht calculation(1) by (intro ring_in_gap [OF o(1) ht(3) lt]) (simp_all add: bstart_def bend_def)
      ultimately show ?thesis using fit(2) tin te by (intro app [of "bbuf t + bsize t"]) simp_all
    qed
  qed
qed

text \<open>Two blocks on the list do not overlap, and all of them together fit into the buffer.\<close>

definition rbb_region :: "rt_rbb \<Rightarrow> nat \<Rightarrow> nat set" where
  "rbb_region r i = {bstart (blk r i) ..< bend (blk r i)}"

lemma ascending_apart:
  "ascending (map f xs) \<Longrightarrow> i \<in> set xs \<Longrightarrow> j \<in> set xs \<Longrightarrow> i \<noteq> j \<Longrightarrow>
   {bstart (f i) ..< bend (f i)} \<inter> {bstart (f j) ..< bend (f j)} = {}"
  by (induction xs) (fastforce simp: ascending_def)+

lemma ring_ascending:
  assumes "ring_ordered (map f xs)"
  obtains ys where "ascending (map f ys)" "set ys = set xs" "length ys = length xs"
proof -
  obtain A B where AB: "map f xs = A @ B" "ascending (B @ A)" using assms by (rule ring_orderedE)
  then obtain ys zs where x: "xs = ys @ zs" "map f ys = A" "map f zs = B"
    by (auto simp: map_eq_append_conv)
  then show ?thesis using AB(2) that [of "zs @ ys"] by auto
qed

lemma rbb_regions_apart: "rbb_ok r \<Longrightarrow> apart (rbb_region r) (set (blk_list r))"
proof -
  assume "rbb_ok r"
  then have "ring_ordered (map (blk r) (blk_list r))" by (simp add: rbb_ok_def)
  then obtain ys where "ascending (map (blk r) ys)" "set ys = set (blk_list r)"
    by (rule ring_ascending)
  then show ?thesis using ascending_apart [of "blk r" ys] by (simp add: apart_def rbb_region_def)
qed

text \<open>The contract of an allocator, for requests that are neither empty nor larger than the buffer.\<close>

definition rbb_alloc :: "rt_rbb \<Rightarrow> u32 \<Rightarrow> (nat \<times> rt_rbb) option" where
  "rbb_alloc r sz = (case rt_rbb_blk_alloc sz r of Some (Some i, r') \<Rightarrow> Some (i, r') | _ \<Rightarrow> None)"

definition rbb_free :: "rt_rbb \<Rightarrow> nat \<Rightarrow> rt_rbb option" where
  "rbb_free r i = rt_rbb_blk_free i r"

definition fits_buffer :: "u32 \<Rightarrow> u32 \<Rightarrow> bool" where
  "fits_buffer cap sz \<longleftrightarrow> sz \<noteq> 0 \<and> sz \<le> cap"

interpretation rba: block_allocator "\<lambda>r. rbb_ok r \<and> rbb_buf_size r = cap" "\<lambda>r. set (blk_list r)" rbb_region
    rbb_alloc rbb_free "fits_buffer cap" for cap
proof
  fix r r' :: rt_rbb and sz :: u32 and i
  assume r: "rbb_ok r \<and> rbb_buf_size r = cap"
  show "apart (rbb_region r) (set (blk_list r))" using r rbb_regions_apart by blast
  show "\<exists>r'. rbb_free r i = Some r' \<and> (rbb_ok r' \<and> rbb_buf_size r' = cap) \<and> set (blk_list r') = set (blk_list r) - {i}
      \<and> (\<forall>j \<in> set (blk_list r'). rbb_region r' j = rbb_region r j)" if i: "i \<in> set (blk_list r)"
  proof -
    have "rt_rbb_blk_free i r = Some (set_status i RT_RBB_BLK_UNUSED (slist_remove i r))"
      using rbb_ok_blk(2) [of r i] r i by (simp add: rt_rbb_blk_free_def)
    then obtain r' where r': "rt_rbb_blk_free i r = Some r'" "rbb_buf_size r' = rbb_buf_size r"
      by (simp add: set_status_def)
    from rt_rbb_blk_free_ok [OF _ r'(1)] r have "rbb_ok r'" "set (blk_list r') = set (blk_list r) - {i}"
      "\<forall>j. j \<noteq> i \<longrightarrow> blk r' j = blk r j" by simp_all
    then show ?thesis using r r' by (simp add: rbb_free_def rbb_region_def)
  qed
  show "(rbb_ok r' \<and> rbb_buf_size r' = cap) \<and> i \<notin> set (blk_list r) \<and> set (blk_list r') = insert i (set (blk_list r))
      \<and> (\<forall>j \<in> set (blk_list r). rbb_region r' j = rbb_region r j)"
    if sz: "fits_buffer cap sz" and a: "rbb_alloc r sz = Some (i, r')"
  proof -
    have "rt_rbb_blk_alloc sz r = Some (Some i, r')"
      using a by (auto simp: rbb_alloc_def split: option.splits)
    moreover have "0 < unat sz" "unat sz \<le> unat (rbb_buf_size r)"
      using sz r by (simp_all add: fits_buffer_def unat_gt_0 word_le_nat_alt)
    ultimately obtain x where x: "r' = append_blk i x sz r" "find_empty_blk_in_set r = Some i" "rbb_ok r'"
      using rt_rbb_blk_alloc_ok r by blast
    have "i < length (blk_set r)" "i \<notin> set (blk_list r)" using find_empty_spec(1) [OF _ x(2)] r by simp_all
    then show ?thesis using x r by (auto simp: rbb_region_def)
  qed
qed

section \<open>The block queue\<close>

lemma take_blk_fields [simp]:
  "blk_list (take_blk i r) = remove1 i (blk_list r)" "length (blk_set (take_blk i r)) = length (blk_set r)"
  "rbb_buf (take_blk i r) = rbb_buf r" "rbb_buf_size (take_blk i r) = rbb_buf_size r"
  "i < length (blk_set r) \<Longrightarrow> blk (take_blk i r) j =
     (if j = i then (blk r i)\<lparr>bstatus := RT_RBB_BLK_GET\<rparr> else blk r j)"
  by (simp_all add: take_blk_def set_status_def)

lemma take_blks_fields:
  "length (blk_set (fold take_blk ts r)) = length (blk_set r)"
  "rbb_buf (fold take_blk ts r) = rbb_buf r" "rbb_buf_size (fold take_blk ts r) = rbb_buf_size r"
  "blk_list (fold take_blk ts r) = fold remove1 ts (blk_list r)"
  by (induction ts arbitrary: r) simp_all

lemma take_blks_blk:
  "\<forall>i \<in> set ts. i < length (blk_set r) \<Longrightarrow> blk (fold take_blk ts r) j =
     (if j \<in> set ts then (blk r j)\<lparr>bstatus := RT_RBB_BLK_GET\<rparr> else blk r j)"
  by (induction ts arbitrary: r) auto

lemma take_blks_ok: "rbb_ok r \<Longrightarrow> rbb_ok (fold take_blk ts r)"
  by (induction ts arbitrary: r) (simp_all add: take_blk_def rbb_ok_status rbb_ok_remove)

lemma fold_remove1_mid: "distinct (ys @ ts @ zs) \<Longrightarrow> fold remove1 ts (ys @ ts @ zs) = ys @ zs"
  by (induction ts) (simp_all add: remove1_append)

text \<open>Why the loop stops in front of a list of remaining nodes.\<close>

definition queue_stops :: "rt_rbb \<Rightarrow> u32 \<Rightarrow> nat \<Rightarrow> u32 \<Rightarrow> nat list \<Rightarrow> bool" where
  "queue_stops r lim l n zs \<longleftrightarrow> (case zs of [] \<Rightarrow> True
     | j # _ \<Rightarrow> bstatus (blk r j) \<noteq> RT_RBB_BLK_PUT \<or> bbuf (blk r j) < bbuf (blk r l) \<or> lim < n + bsize (blk r j))"

definition put_run :: "rt_rbb \<Rightarrow> nat list \<Rightarrow> bool" where
  "put_run r ts \<longleftrightarrow> (\<forall>i \<in> set ts. bstatus (blk r i) = RT_RBB_BLK_PUT)
     \<and> successively (\<lambda>i j. bbuf (blk r i) \<le> bbuf (blk r j)) ts"

definition run_size :: "rt_rbb \<Rightarrow> nat list \<Rightarrow> u32" where
  "run_size r ts = sum_list (map (\<lambda>i. bsize (blk r i)) ts)"

lemma queue_get_loop_Some:
  assumes "distinct js" "l \<notin> set js" "\<forall>i \<in> set js. i < length (blk_set r)"
    "queue_get_loop js (Some l) acc lim q r = (n, q', r')"
  shows "\<exists>ts zs. js = ts @ zs \<and> (\<forall>i \<in> set ts. bstatus (blk r i) = RT_RBB_BLK_PUT)
    \<and> successively (\<lambda>i j. bbuf (blk r i) \<le> bbuf (blk r j)) (l # ts)
    \<and> n = acc + run_size r ts \<and> (ts \<noteq> [] \<longrightarrow> n \<le> lim) \<and> queue_stops r lim (last (l # ts)) n zs
    \<and> q' = q\<lparr>blk_num := blk_num q + of_nat (length ts)\<rparr> \<and> r' = fold take_blk ts r"
  using assms
proof (induction "js" arbitrary: l acc q r)
  case Nil
  then show ?case by (auto simp: run_size_def queue_stops_def)
next
  case (Cons i js)
  show ?case
  proof (cases "bstatus (blk r i) \<noteq> RT_RBB_BLK_PUT \<or> bbuf (blk r i) < bbuf (blk r l) \<or> lim < acc + bsize (blk r i)")
    case True
    then show ?thesis using Cons.prems(4)
      by (intro exI [of _ "[]"] exI [of _ "i # js"]) (auto simp: run_size_def queue_stops_def)
  next
    case False
    let ?r = "take_blk i r"
    have i: "i < length (blk_set r)" using Cons.prems(3) by simp
    have "queue_get_loop js (Some i) (acc + bsize (blk r i)) lim (q\<lparr>blk_num := blk_num q + 1\<rparr>) ?r = (n, q', r')"
      using Cons.prems(4) False by simp
    from Cons.IH [OF _ _ _ this] Cons.prems obtain ts zs where t: "js = ts @ zs"
      "\<forall>j \<in> set ts. bstatus (blk ?r j) = RT_RBB_BLK_PUT"
      "successively (\<lambda>i j. bbuf (blk ?r i) \<le> bbuf (blk ?r j)) (i # ts)"
      "n = acc + bsize (blk r i) + run_size ?r ts" "ts \<noteq> [] \<longrightarrow> n \<le> lim" "queue_stops ?r lim (last (i # ts)) n zs"
      "q' = q\<lparr>blk_num := blk_num q + 1 + of_nat (length ts)\<rparr>" "r' = fold take_blk ts ?r"
      by auto
    have b: "bbuf (blk ?r j) = bbuf (blk r j)" "bsize (blk ?r j) = bsize (blk r j)" for j using i by simp_all
    have st: "bstatus (blk ?r j) = bstatus (blk r j)" if "j \<in> set js" for j
      using i that Cons.prems(1) by auto
    have "queue_stops ?r lim k n zs = queue_stops r lim k n zs" for k
      using st t(1) b by (cases zs) (auto simp: queue_stops_def)
    moreover have "run_size ?r ts = run_size r ts" by (simp add: run_size_def b)
    moreover have "\<forall>j \<in> set ts. bstatus (blk r j) = RT_RBB_BLK_PUT" using t(1,2) st by auto
    ultimately show ?thesis
      using t False b by (intro exI [of _ "i # ts"] exI [of _ zs]) (auto simp: run_size_def add.assoc not_less)
  qed
qed

lemma queue_get_loop_None:
  assumes "distinct js" "\<forall>i \<in> set js. i < length (blk_set r)"
    "queue_get_loop js None 0 lim q r = (n, q', r')"
  shows "\<exists>ys ts zs. js = ys @ ts @ zs \<and> (\<forall>i \<in> set ys. bstatus (blk r i) \<noteq> RT_RBB_BLK_PUT) \<and> put_run r ts
    \<and> n = run_size r ts \<and> (1 < length ts \<longrightarrow> n \<le> lim) \<and> r' = fold take_blk ts r
    \<and> (ts = [] \<longrightarrow> zs = [] \<and> q' = q)
    \<and> (ts \<noteq> [] \<longrightarrow> blocks q' = hd ts \<and> blk_num q' = of_nat (length ts) \<and> queue_stops r lim (last ts) n zs)"
  using assms
proof (induction "js")
  case Nil
  then show ?case by (auto simp: run_size_def put_run_def)
next
  case (Cons i js)
  show ?case
  proof (cases "bstatus (blk r i) = RT_RBB_BLK_PUT")
    case False
    with Cons obtain ys ts zs where "js = ys @ ts @ zs" "\<forall>i \<in> set ys. bstatus (blk r i) \<noteq> RT_RBB_BLK_PUT"
      and rest: "put_run r ts" "n = run_size r ts" "1 < length ts \<longrightarrow> n \<le> lim" "r' = fold take_blk ts r"
        "ts = [] \<longrightarrow> zs = [] \<and> q' = q"
        "ts \<noteq> [] \<longrightarrow> blocks q' = hd ts \<and> blk_num q' = of_nat (length ts) \<and> queue_stops r lim (last ts) n zs"
      by auto
    then show ?thesis using False by (intro exI [of _ "i # ys"] exI [of _ ts] exI [of _ zs]) simp
  next
    case True
    let ?r = "take_blk i r"
    have i: "i < length (blk_set r)" using Cons.prems(2) by simp
    have "queue_get_loop js (Some i) (bsize (blk r i)) lim (q\<lparr>blocks := i, blk_num := 1\<rparr>) ?r = (n, q', r')"
      using Cons.prems(3) True by simp
    from queue_get_loop_Some [OF _ _ _ this] Cons.prems obtain ts zs where t: "js = ts @ zs"
      "\<forall>j \<in> set ts. bstatus (blk ?r j) = RT_RBB_BLK_PUT"
      "successively (\<lambda>i j. bbuf (blk ?r i) \<le> bbuf (blk ?r j)) (i # ts)"
      "n = bsize (blk r i) + run_size ?r ts" "ts \<noteq> [] \<longrightarrow> n \<le> lim" "queue_stops ?r lim (last (i # ts)) n zs"
      "q' = q\<lparr>blocks := i, blk_num := 1 + of_nat (length ts)\<rparr>" "r' = fold take_blk ts ?r"
      by auto
    have b: "bbuf (blk ?r j) = bbuf (blk r j)" "bsize (blk ?r j) = bsize (blk r j)" for j using i by simp_all
    have st: "bstatus (blk ?r j) = bstatus (blk r j)" if "j \<in> set js" for j
      using i that Cons.prems(1) by auto
    have "queue_stops ?r lim k n zs = queue_stops r lim k n zs" for k
      using st t(1) b by (cases zs) (auto simp: queue_stops_def)
    moreover have "run_size ?r ts = run_size r ts" by (simp add: run_size_def b)
    moreover have "\<forall>j \<in> set ts. bstatus (blk r j) = RT_RBB_BLK_PUT" using t(1,2) st by auto
    ultimately show ?thesis
      using t True b by (intro exI [of _ "[]"] exI [of _ "i # ts"] exI [of _ zs]) (auto simp: run_size_def put_run_def)
  qed
qed

text \<open>The blocks on the list fit into the buffer together, so no sum of their sizes wraps.\<close>

lemma ascending_sum:
  "ascending bs \<Longrightarrow> \<forall>b \<in> set bs. lo \<le> bstart b \<and> bend b \<le> hi \<Longrightarrow> lo \<le> hi \<Longrightarrow>
   lo + sum_list (map (\<lambda>b. unat (bsize b)) bs) \<le> hi"
proof (induction bs arbitrary: lo)
  case (Cons b bs)
  then have "bend b + sum_list (map (\<lambda>b. unat (bsize b)) bs) \<le> hi"
    by (intro Cons.IH) (auto simp: ascending_Cons)
  moreover have "lo + unat (bsize b) \<le> bend b" using Cons.prems(2) by (simp add: bstart_def bend_def)
  ultimately show ?case by simp
qed simp

lemma rbb_sizes_fit:
  assumes "rbb_ok r"
  shows "sum_list (map (\<lambda>i. unat (bsize (blk r i))) (blk_list r)) \<le> unat (rbb_buf_size r)"
proof -
  have "ring_ordered (map (blk r) (blk_list r))" using assms by (simp add: rbb_ok_def)
  then obtain A B where AB: "map (blk r) (blk_list r) = A @ B" "ascending (B @ A)" by (rule ring_orderedE)
  have "\<forall>b \<in> set (B @ A). unat (rbb_buf r) \<le> bstart b \<and> bend b \<le> unat (rbb_buf r) + unat (rbb_buf_size r)"
  proof -
    have "set (B @ A) = blk r ` set (blk_list r)" using AB(1) by (metis set_map set_append Un_commute)
    then show ?thesis using assms by (auto simp: rbb_ok_def blk_inside_def)
  qed
  from ascending_sum [OF AB(2) this]
  have "sum_list (map (\<lambda>b. unat (bsize b)) (A @ B)) \<le> unat (rbb_buf_size r)" by simp
  then show ?thesis by (simp add: o_def flip: AB(1))
qed

lemma unat_sum_list:
  "sum_list (map (\<lambda>i. unat (f i :: u32)) xs) < 2 ^ 32 \<Longrightarrow> unat (sum_list (map f xs)) = sum_list (map (\<lambda>i. unat (f i)) xs)"
  by (induction xs) (simp_all add: unat_word_ariths)

lemma unat_run_size:
  assumes "rbb_ok r" "set ts \<subseteq> set (blk_list r)" "distinct ts"
  shows "unat (run_size r ts) = sum_list (map (\<lambda>i. unat (bsize (blk r i))) ts)"
    "unat (run_size r ts) \<le> unat (rbb_buf_size r)"
proof -
  let ?f = "\<lambda>i. unat (bsize (blk r i))"
  have d: "distinct (blk_list r)" using assms(1) by (simp add: rbb_ok_def)
  have "sum_list (map ?f ts) = sum ?f (set ts)" using assms(3) by (simp add: sum_list_distinct_conv_sum_set)
  also have "\<dots> \<le> sum ?f (set (blk_list r))" using assms(2) by (intro sum_mono2) auto
  also have "\<dots> = sum_list (map ?f (blk_list r))" using d by (simp add: sum_list_distinct_conv_sum_set)
  also have "\<dots> \<le> unat (rbb_buf_size r)" by (rule rbb_sizes_fit [OF assms(1)])
  finally have le: "sum_list (map ?f ts) \<le> unat (rbb_buf_size r)" .
  then show "unat (run_size r ts) = sum_list (map ?f ts)" 
    unfolding run_size_def using unat_u32 [of "rbb_buf_size r"] by (intro unat_sum_list) simp
  with le show "unat (run_size r ts) \<le> unat (rbb_buf_size r)" by simp
qed

lemma successively_ascending:
  assumes r: "ascending (map (blk r) js)" and sub: "set ts \<subseteq> set js" "distinct ts"
    and s: "successively (\<lambda>i j. bbuf (blk r i) \<le> bbuf (blk r j)) ts" and z: "\<forall>i \<in> set ts. 0 < unat (bsize (blk r i))"
  shows "ascending (map (blk r) ts)"
proof -
  have "bend (blk r i) \<le> bstart (blk r j)" if "i \<in> set js" "j \<in> set js" "i \<noteq> j" "bbuf (blk r i) \<le> bbuf (blk r j)"
    "0 < unat (bsize (blk r i))" "0 < unat (bsize (blk r j))" for i j
    using r that(1-3)
  proof (induction js)
    case (Cons k js)
    then show ?case using that(4-6)
      by (auto simp: ascending_Cons bstart_def bend_def word_le_nat_alt)
  qed simp
  with s sub z have "successively (\<lambda>i j. bend (blk r i) \<le> bstart (blk r j)) ts"
  proof (induction ts)
    case (Cons i ts)
    then show ?case by (cases ts) auto
  qed simp
  then have "successively (\<lambda>a b. bend a \<le> bstart b) (map (blk r) ts)" by (simp add: successively_map)
  moreover have "transp (\<lambda>a b. bend a \<le> bstart b)"
    by (rule transpI) (meson bstart_le_bend order_trans)
  ultimately show ?thesis by (simp add: ascending_def successively_conv_sorted_wrt)
qed

lemma rt_rbb_blk_queue_get_spec:
  assumes r: "rbb_ok r" and g: "rt_rbb_blk_queue_get lim q r = (n, q', r')"
  shows "\<exists>ys ts zs. blk_list r = ys @ ts @ zs \<and> (\<forall>i \<in> set ys. bstatus (blk r i) \<noteq> RT_RBB_BLK_PUT)
    \<and> put_run r ts \<and> ascending (map (blk r) ts)
    \<and> unat n = sum_list (map (\<lambda>i. unat (bsize (blk r i))) ts) \<and> unat n \<le> unat (rbb_buf_size r)
    \<and> (1 < length ts \<longrightarrow> n \<le> lim)
    \<and> (ts = [] \<longrightarrow> zs = [] \<and> q' = q)
    \<and> (ts \<noteq> [] \<longrightarrow> blocks q' = hd ts \<and> unat (blk_num q') = length ts \<and> queue_stops r lim (last ts) n zs)
    \<and> rbb_ok r' \<and> blk_list r' = ys @ zs
    \<and> (\<forall>i. blk r' i = (if i \<in> set ts then (blk r i)\<lparr>bstatus := RT_RBB_BLK_GET\<rparr> else blk r i))"
proof -
  have d: "distinct (blk_list r)" and l: "\<forall>i \<in> set (blk_list r). i < length (blk_set r)"
    using r by (auto simp: rbb_ok_def)
  from queue_get_loop_None [OF d l g [unfolded rt_rbb_blk_queue_get_def]] obtain ys ts zs where
    t: "blk_list r = ys @ ts @ zs" "\<forall>i \<in> set ys. bstatus (blk r i) \<noteq> RT_RBB_BLK_PUT" "put_run r ts"
      "n = run_size r ts" "1 < length ts \<longrightarrow> n \<le> lim" "r' = fold take_blk ts r" "ts = [] \<longrightarrow> zs = [] \<and> q' = q"
      "ts \<noteq> [] \<longrightarrow> blocks q' = hd ts \<and> blk_num q' = of_nat (length ts) \<and> queue_stops r lim (last ts) n zs" by blast
  have sub: "set ts \<subseteq> set (blk_list r)" "distinct ts" using t(1) d by auto
  note u = unat_run_size [OF r sub, folded t(4)]
  have "ring_ordered (map (blk r) (blk_list r))" using r by (simp add: rbb_ok_def)
  then obtain js where js: "ascending (map (blk r) js)" "set js = set (blk_list r)" by (rule ring_ascending)
  have "ascending (map (blk r) ts)"
    using t(3) sub js r by (intro successively_ascending [OF js(1)]) (auto simp: put_run_def rbb_ok_def blk_inside_def)
  moreover have "unat (of_nat (length ts) :: u32) = length ts"
  proof -
    have "length ts \<le> length (blk_set r)" 
      using card_mono [of "{..<length (blk_set r)}" "set ts"] sub l distinct_card [OF sub(2)] by auto
    also have "\<dots> < 2 ^ 32" using r unat_u32 [of "blk_max_num r"] by (simp add: rbb_ok_def)
    finally show ?thesis by (simp add: unat_word_of_nat)
  qed
  moreover have "blk_list r' = ys @ zs"
    using d t(1) by (simp only: t(6) take_blks_fields fold_remove1_mid)
  moreover have "blk r' i = (if i \<in> set ts then (blk r i)\<lparr>bstatus := RT_RBB_BLK_GET\<rparr> else blk r i)" for i
    using sub l unfolding t(6) by (intro take_blks_blk) auto
  moreover have "rbb_ok r'" unfolding t(6) by (rule take_blks_ok [OF r])
  ultimately show ?thesis
    using t(1-3,5,7,8) u by (intro exI [of _ ys] exI [of _ ts] exI [of _ zs] conjI) (blast | simp)+
qed

text \<open>The length announced by \<open>rt_rbb_next_blk_queue_len\<close> is what the next queue will hold, if the limit
  does not cut it.\<close>

lemma queue_len_next_loop:
  assumes "distinct js" "l \<notin> Some ` set js" "\<forall>i \<in> set js. i < length (blk_set r) \<and> blk r i = blk r0 i"
    "\<forall>i. bbuf (blk r i) = bbuf (blk r0 i)"
    "unat acc + sum_list (map (\<lambda>i. unat (bsize (blk r0 i))) js) \<le> unat (lim :: u32)"
  shows "fst (queue_get_loop js l acc lim q r) = queue_len_next js l acc r0"
  using assms
proof (induction js arbitrary: l acc q r)
  case (Cons i js)
  have i: "i < length (blk_set r)" "blk r i = blk r0 i" using Cons.prems(3) by simp_all
  let ?acc = "acc + bsize (blk r0 i)"
  have "unat acc + unat (bsize (blk r0 i)) < 2 ^ 32" using Cons.prems(5) unat_u32 [of lim] by simp
  then have u: "unat ?acc = unat acc + unat (bsize (blk r0 i))" by (simp add: unat_word_ariths)
  then have lim: "\<not> lim < ?acc" using Cons.prems(5) by (simp add: word_less_nat_alt)
  have more: "fst (queue_get_loop js (Some i) ?acc lim q2 (take_blk i r)) = queue_len_next js (Some i) ?acc r0" for q2
    using Cons.prems i u by (intro Cons.IH) auto
  have skip: "fst (queue_get_loop js None acc lim q r) = queue_len_next js None acc r0" if "l = None"
    using Cons.prems by (intro Cons.IH) auto
  show ?case
  proof (cases l)
    case None
    then show ?thesis using more skip i by simp
  next
    case (Some k)
    then show ?thesis using more i lim Cons.prems(4) by simp
  qed
qed (cases l; simp)

lemma next_blk_queue_len_eq:
  assumes "rbb_ok r" "rbb_buf_size r \<le> lim"
  shows "rt_rbb_next_blk_queue_len r = fst (rt_rbb_blk_queue_get lim q r)"
  unfolding rt_rbb_next_blk_queue_len_def rt_rbb_blk_queue_get_def
  using assms rbb_sizes_fit [OF assms(1)]
  by (intro queue_len_next_loop [symmetric]) (auto simp: rbb_ok_def word_le_nat_alt)

text \<open>The operations on a queue walk along \<open>blk_set\<close>; they see the queue's blocks if these have consecutive
  indices.\<close>

lemma queue_len_loop_eq:
  "blocks q + m \<le> length (blk_set r) \<Longrightarrow>
   queue_len_loop m q r = Some (run_size r [blocks q ..< blocks q + m])"
  by (induction m) (simp_all add: run_size_def load_at_def)

lemma queue_free_loop_spec:
  assumes "rbb_ok r" "blocks q + m \<le> length (blk_set r)"
    "\<forall>i \<in> {blocks q ..< blocks q + m}. bstatus (blk r i) \<noteq> RT_RBB_BLK_UNUSED"
  shows "\<exists>r'. queue_free_loop m q r = Some r' \<and> rbb_ok r'
    \<and> set (blk_list r') = set (blk_list r) - {blocks q ..< blocks q + m} \<and> length (blk_set r') = length (blk_set r)
    \<and> (\<forall>i. i < length (blk_set r) \<longrightarrow> (bstatus (blk r' i) = RT_RBB_BLK_UNUSED) = (i \<in> {blocks q ..< blocks q + m} \<or> bstatus (blk r i) = RT_RBB_BLK_UNUSED))
    \<and> (\<forall>i. i \<notin> {blocks q ..< blocks q + m} \<longrightarrow> blk r' i = blk r i)"
  using assms
proof (induction m)
  case (Suc m)
  let ?i = "blocks q + m"
  from Suc obtain r1 where r1: "queue_free_loop m q r = Some r1" "rbb_ok r1"
    "set (blk_list r1) = set (blk_list r) - {blocks q ..< ?i}" "length (blk_set r1) = length (blk_set r)"
    "\<forall>i. i < length (blk_set r) \<longrightarrow> (bstatus (blk r1 i) = RT_RBB_BLK_UNUSED) = (i \<in> {blocks q ..< ?i} \<or> bstatus (blk r i) = RT_RBB_BLK_UNUSED)"
    "\<forall>i. i \<notin> {blocks q ..< ?i} \<longrightarrow> blk r1 i = blk r i" by auto
  have i: "?i < length (blk_set r1)" using Suc.prems(2) r1(4) by simp
  have "bstatus (blk r1 ?i) = bstatus (blk r ?i)" using r1(6) by simp
  then have "bstatus (blk r1 ?i) \<noteq> RT_RBB_BLK_UNUSED" using Suc.prems(3) by simp
  then have f: "rt_rbb_blk_free ?i r1 = Some (set_status ?i RT_RBB_BLK_UNUSED (slist_remove ?i r1))"
    by (simp add: rt_rbb_blk_free_def)
  let ?r2 = "set_status ?i RT_RBB_BLK_UNUSED (slist_remove ?i r1)"
  note s = rt_rbb_blk_free_ok [OF r1(2) f]
  have st: "blk ?r2 j = (if j = ?i then (blk r1 j)\<lparr>bstatus := RT_RBB_BLK_UNUSED\<rparr> else blk r1 j)" for j
    using i by (simp add: set_status_def)
  have "queue_free_loop (Suc m) q r = Some ?r2" using r1(1) i f by (simp add: load_at_def)
  moreover have "length (blk_set ?r2) = length (blk_set r)" using r1(4) by (simp add: set_status_def)
  moreover have "set (blk_list ?r2) = set (blk_list r) - {blocks q ..< blocks q + Suc m}" using s r1(3) by auto
  ultimately show ?case
    using s r1(5,6) by (auto simp: st less_Suc_eq)
qed simp

section \<open>Any sequence of operations\<close>

datatype rbb_op = BAlloc u32 | BPut nat | BGet | BFree nat | BQueueGet u32 rt_rbb_blk_queue | BQueueFree rt_rbb_blk_queue

fun rbb_step :: "rt_rbb \<Rightarrow> rbb_op \<Rightarrow> rt_rbb" where
  "rbb_step r (BAlloc sz) = (case rt_rbb_blk_alloc sz r of Some (_, r') \<Rightarrow> r' | None \<Rightarrow> r)"
| "rbb_step r (BPut i) = (case rt_rbb_blk_put i r of Some r' \<Rightarrow> r' | None \<Rightarrow> r)"
| "rbb_step r BGet = snd (rt_rbb_blk_get r)"
| "rbb_step r (BFree i) = (case rt_rbb_blk_free i r of Some r' \<Rightarrow> r' | None \<Rightarrow> r)"
| "rbb_step r (BQueueGet lim q) = snd (snd (rt_rbb_blk_queue_get lim q r))"
| "rbb_step r (BQueueFree q) = (case rt_rbb_blk_queue_free q r of Some r' \<Rightarrow> r' | None \<Rightarrow> r)"

fun rbb_op_fits :: "u32 \<Rightarrow> rbb_op \<Rightarrow> bool" where
  "rbb_op_fits cap (BAlloc sz) = fits_buffer cap sz"
| "rbb_op_fits cap _ = True"

lemma rt_rbb_blk_free_size: "rt_rbb_blk_free i r = Some r' \<Longrightarrow> rbb_buf_size r' = rbb_buf_size r"
  by (auto simp: rt_rbb_blk_free_def set_status_def split: if_splits)

lemma queue_free_loop_ok: "rbb_ok r \<Longrightarrow> queue_free_loop m q r = Some r' \<Longrightarrow> rbb_ok r' \<and> rbb_buf_size r' = rbb_buf_size r"
proof (induction m arbitrary: r')
  case (Suc m)
  then obtain r1 where r1: "rbb_ok r1" "rbb_buf_size r1 = rbb_buf_size r" "rt_rbb_blk_free (blocks q + m) r1 = Some r'"
    by (auto simp: Option.bind_eq_Some_conv)
  with rt_rbb_blk_free_size [OF r1(3)] rt_rbb_blk_free_ok [OF r1(1,3)] show ?case by simp
qed simp

lemma rt_rbb_blk_alloc_None: "rt_rbb_blk_alloc sz r = Some (None, r') \<Longrightarrow> r' = r"
  by (auto simp: rt_rbb_blk_alloc_def Let_def split: option.splits if_splits)

lemma rbb_step_ok:
  assumes r: "rbb_ok r" "rbb_buf_size r = cap" and e: "rbb_op_fits cap e"
  shows "rbb_ok (rbb_step r e) \<and> rbb_buf_size (rbb_step r e) = cap"
proof (cases e)
  case (BAlloc sz)
  then have sz: "0 < unat sz" "unat sz \<le> unat (rbb_buf_size r)"
    using e r by (simp_all add: fits_buffer_def unat_gt_0 word_le_nat_alt)
  show ?thesis
  proof (cases "rt_rbb_blk_alloc sz r")
    case (Some x)
    then obtain o' r' where x: "rt_rbb_blk_alloc sz r = Some (o', r')" by (cases x) simp
    with rt_rbb_blk_alloc_None rt_rbb_blk_alloc_ok [OF r(1) sz] r BAlloc show ?thesis by (cases o') fastforce+
  qed (use BAlloc r in simp)
next
  case (BPut i)
  then show ?thesis using r rbb_ok_status [of r RT_RBB_BLK_PUT i]
    by (auto simp: rt_rbb_blk_put_def) (simp add: set_status_def)
next
  case BGet
  then show ?thesis using r rbb_ok_status [of r RT_RBB_BLK_GET]
    by (auto simp: rt_rbb_blk_get_def split: option.splits) (simp add: set_status_def)
next
  case (BFree i)
  show ?thesis
  proof (cases "rt_rbb_blk_free i r")
    case (Some r')
    from rt_rbb_blk_free_ok [OF r(1) Some] rt_rbb_blk_free_size [OF Some] r BFree Some show ?thesis by simp
  qed (use BFree r in simp)
next
  case (BQueueGet lim q)
  obtain n q' r' where g: "rt_rbb_blk_queue_get lim q r = (n, q', r')" using prod_cases3 by blast
  have d: "distinct (blk_list r)" "\<forall>i \<in> set (blk_list r). i < length (blk_set r)" using r(1) by (auto simp: rbb_ok_def)
  from queue_get_loop_None [OF d g [unfolded rt_rbb_blk_queue_get_def]] obtain ts where "r' = fold take_blk ts r" by blast
  then show ?thesis using BQueueGet g r take_blks_ok [OF r(1), of ts] by (simp add: take_blks_fields)
next
  case (BQueueFree q)
  then show ?thesis using r queue_free_loop_ok [OF r(1), of "unat (blk_num q)" q]
    by (auto simp: rt_rbb_blk_queue_free_def split: option.splits)
qed

lemma rbb_run_ok:
  "rbb_ok r \<Longrightarrow> rbb_buf_size r = cap \<Longrightarrow> list_all (rbb_op_fits cap) es \<Longrightarrow>
   rbb_ok (foldl rbb_step r es) \<and> rbb_buf_size (foldl rbb_step r es) = cap"
  by (induction es arbitrary: r) (simp_all add: rbb_step_ok)

section \<open>Creation on the heap\<close>

lemma rt_malloc_result:
  assumes "heap_ok h"
  shows "rt_malloc sz h = Some (0, h) \<or> (\<exists>p h'. rt_malloc sz h = Some (p, h') \<and> p \<noteq> 0 \<and> heap_ok h'
    \<and> p \<notin> heap_live h \<and> heap_live h' = insert p (heap_live h)
    \<and> (unat sz + 3 < 2 ^ 32 \<longrightarrow> unat p + unat sz < 2 ^ 32))"
proof -
  have hb: "heap_blocks h (heap_offsets h)" and g: "geom h (heap_offsets h)"
    using assms by (auto simp: heap_ok_def heap_blocks_def)
  consider "rt_malloc sz h = Some (0, h)"
    | m h' where "rt_malloc sz h = Some (user_ptr h m, h')" "m \<in> set (heap_offsets h)"
    using rt_malloc_spec [OF hb, of sz] by (auto simp: first_fit_def)
  then show ?thesis
  proof cases
    case 2
    have p: "user_ptr h m \<noteq> 0" by (rule user_ptr_facts(3) [OF g 2(2)])
    with 2(1) have "heap_alloc h sz = Some (user_ptr h m, h')" by (simp add: heap_alloc_def)
    note a = heap_alloc_fresh [OF assms this]
    have ok: "heap_ok h'" and live: "user_ptr h m \<in> heap_live h'" using a by simp_all
    have "unat (user_ptr h m) + unat sz < 2 ^ 32" if "unat sz + 3 < 2 ^ 32"
    proof -
      have "unat sz \<le> unat (req_len sz)" using unat_rt_align_ge(1) [OF that] req_len_facts(3) [of sz] by simp
      moreover have "{unat (user_ptr h m) ..< unat (user_ptr h m) + unat (req_len sz)} \<subseteq>
          {unat (user_ptr h m) ..< unat (user_ptr h m) + user_size h' (user_ptr h m)}"
        using a live_region(1) [OF ok live] by simp
      then have "unat (req_len sz) \<le> user_size h' (user_ptr h m)"
        using req_len_facts(2) [of sz] by (auto simp: atLeastLessThan_subset_iff)
      ultimately show ?thesis using live_region(2) [OF ok live] by linarith
    qed
    with a p 2(1) show ?thesis by blast
  qed simp
qed

lemma rt_free_result:
  "heap_ok h \<Longrightarrow> p \<in> heap_live h \<Longrightarrow> \<exists>h'. rt_free p h = Some h' \<and> heap_ok h' \<and> heap_live h' = heap_live h - {p}"
  using heap_free_live [of h p] by (auto simp: heap_free_def)

lemma rt_rbb_init_ok:
  "rt_rbb_init buf sz bs n = Some r \<Longrightarrow> length bs = unat n \<Longrightarrow> unat buf + unat sz < 2 ^ 32 \<Longrightarrow>
   rbb_ok r \<and> rbb_buf r = buf \<and> rbb_buf_size r = sz \<and> blk_list r = [] \<and> blk_max_num r = n
    \<and> (\<forall>b \<in> set (blk_set r). bstatus b = RT_RBB_BLK_UNUSED)"
  by (auto simp: rt_rbb_init_def rbb_ok_def ring_ordered_def ascending_def split: if_splits)

lemma rt_rbb_destroy_live:
  assumes "heap_ok h" "{o1, b, rbb_buf r} \<subseteq> heap_live h" "o1 \<noteq> b" "o1 \<noteq> rbb_buf r" "b \<noteq> rbb_buf r"
  shows "\<exists>h'. rt_rbb_destroy o1 b r h = Some h' \<and> heap_ok h' \<and> heap_live h' = heap_live h - {o1, b, rbb_buf r}"
proof -
  from rt_free_result [OF assms(1), of "rbb_buf r"] assms(2) obtain h1 where
    h1: "rt_free (rbb_buf r) h = Some h1" "heap_ok h1" "heap_live h1 = heap_live h - {rbb_buf r}" by auto
  from rt_free_result [OF h1(2), of b] h1(3) assms(2,5) obtain h2 where
    h2: "rt_free b h1 = Some h2" "heap_ok h2" "heap_live h2 = heap_live h1 - {b}" by auto
  from rt_free_result [OF h2(2), of o1] h2(3) h1(3) assms(2,3,4) obtain h3 where
    h3: "rt_free o1 h2 = Some h3" "heap_ok h3" "heap_live h3 = heap_live h2 - {o1}" by auto
  show ?thesis using h1 h2 h3 by (auto simp: rt_rbb_destroy_def)
qed

lemma rt_rbb_create_spec:
  assumes h: "heap_ok h" and sz: "unat sz + 3 < 2 ^ 32" and n: "12 * unat n < 2 ^ 32"
  shows "\<exists>res h'. rt_rbb_create junk sz n h = Some (res, h') \<and> heap_ok h' \<and>
    (case res of None \<Rightarrow> heap_live h' = heap_live h
     | Some (o1, b, r) \<Rightarrow> rbb_ok r \<and> rbb_buf_size r = sz \<and> blk_list r = [] \<and> blk_max_num r = n
         \<and> {o1, b, rbb_buf r} \<inter> heap_live h = {} \<and> o1 \<noteq> b \<and> o1 \<noteq> rbb_buf r \<and> b \<noteq> rbb_buf r
         \<and> heap_live h' = heap_live h \<union> {o1, b, rbb_buf r})"
proof (cases "rt_malloc 20 h = Some (0, h)")
  case True
  then show ?thesis using h by (simp add: rt_rbb_create_def)
next
  case False
  with rt_malloc_result [OF h, of 20] obtain o1 h1 where h1: "rt_malloc 20 h = Some (o1, h1)" "o1 \<noteq> 0" "heap_ok h1"
    "o1 \<notin> heap_live h" "heap_live h1 = insert o1 (heap_live h)" by auto
  show ?thesis
  proof (cases "rt_malloc sz h1 = Some (0, h1)")
    case True
    from rt_free_result [OF h1(3), of o1] h1 obtain h2 where
      "rt_free o1 h1 = Some h2" "heap_ok h2" "heap_live h2 = heap_live h" by auto
    with True h1 show ?thesis by (simp add: rt_rbb_create_def)
  next
    case False
    with rt_malloc_result [OF h1(3), of sz] sz obtain buf h2 where h2: "rt_malloc sz h1 = Some (buf, h2)" "buf \<noteq> 0"
      "heap_ok h2" "buf \<notin> heap_live h1" "heap_live h2 = insert buf (heap_live h1)" "unat buf + unat sz < 2 ^ 32"
      by auto
    show ?thesis
    proof (cases "rt_malloc (12 * n) h2 = Some (0, h2)")
      case True
      from rt_free_result [OF h2(3), of buf] h2 obtain h3 where
        h3: "rt_free buf h2 = Some h3" "heap_ok h3" "heap_live h3 = heap_live h1" by auto
      from rt_free_result [OF h3(2), of o1] h3 h1 obtain h4 where
        "rt_free o1 h3 = Some h4" "heap_ok h4" "heap_live h4 = heap_live h" by auto
      with True h1 h2 h3 show ?thesis by (simp add: rt_rbb_create_def)
    next
      case False
      with rt_malloc_result [OF h2(3), of "12 * n"] obtain b h3 where h3: "rt_malloc (12 * n) h2 = Some (b, h3)"
        "b \<noteq> 0" "heap_ok h3" "b \<notin> heap_live h2" "heap_live h3 = insert b (heap_live h2)" by auto
      have "unat (12 * n) div 12 = unat n" using n by (simp add: unat_word_ariths)
      then obtain r where r: "rt_rbb_init buf sz (map junk [0..<unat (12 * n) div 12]) n = Some r"
        using h2(2) by (simp add: rt_rbb_init_def)
      from rt_rbb_init_ok [OF r _ h2(6)] \<open>unat (12 * n) div 12 = unat n\<close> have "rbb_ok r" "rbb_buf r = buf"
        "rbb_buf_size r = sz" "blk_list r = []" "blk_max_num r = n" by simp_all
      then show ?thesis using h1 h2 h3 r by (auto simp: rt_rbb_create_def)
    qed
  qed
qed

lemma queue_get_length:
  assumes "rbb_ok r" "rt_rbb_blk_queue_get lim q r = (n, q', r')"
  shows "length (blk_set r') = length (blk_set r)"
proof -
  have d: "distinct (blk_list r)" "\<forall>i \<in> set (blk_list r). i < length (blk_set r)" using assms(1) by (auto simp: rbb_ok_def)
  from queue_get_loop_None [OF d assms(2) [unfolded rt_rbb_blk_queue_get_def]] obtain ts where "r' = fold take_blk ts r" by blast
  then show ?thesis by (simp add: take_blks_fields)
qed

lemma queue_end:
  assumes "ts \<noteq> []" "ts = [a ..< a + m]" "\<forall>i \<in> set ts. i < k" shows "a + m \<le> k"
proof -
  have "0 < m" using assms(1,2) by (cases m) simp_all
  then have "a + m - 1 \<in> set ts" by (subst assms(2)) simp
  with assms(3) \<open>0 < m\<close> show ?thesis by fastforce
qed

lemma alloc_on_empty_list:
  assumes "rbb_ok r" "blk_list r = []" "find_empty_blk_in_set r = Some i" "sz < 2 ^ 24"
  shows "rt_rbb_blk_alloc sz r = Some (Some i, append_blk i (rbb_buf r) sz r)"
proof -
  have "0 < unat (blk_max_num r)" using assms(1) find_empty_spec(1) [OF assms(1,3)] by (auto simp: rbb_ok_def)
  then show ?thesis using assms(2-4) by (simp add: rt_rbb_blk_alloc_def)
qed

lemma queue_consecutive:
  assumes r: "rbb_ok r" and g: "rt_rbb_blk_queue_get lim q r = (n, q', r')" and l: "blk_list r = ys @ ts @ zs"
    and n: "unat n = sum_list (map (\<lambda>i. unat (bsize (blk r i))) ts)"
    and c: "ts \<noteq> []" "ts = [hd ts ..< hd ts + length ts]"
    and r': "rbb_ok r'" "blk_list r' = ys @ zs"
      "\<forall>i. blk r' i = (if i \<in> set ts then (blk r i)\<lparr>bstatus := RT_RBB_BLK_GET\<rparr> else blk r i)"
    and q': "blocks q' = hd ts" "unat (blk_num q') = length ts"
  shows "rt_rbb_blk_queue_len q' r' = Some n \<and> (\<exists>r2. rt_rbb_blk_queue_free q' r' = Some r2 \<and> rbb_ok r2
      \<and> set (blk_list r2) = set (ys @ zs)
      \<and> (\<forall>i. (i < length (blk_set r) \<and> i \<in> set ts \<longrightarrow> bstatus (blk r2 i) = RT_RBB_BLK_UNUSED)
          \<and> (i \<notin> set ts \<longrightarrow> blk r2 i = blk r i)))"
proof -
  have len: "length (blk_set r') = length (blk_set r)" by (rule queue_get_length [OF r g])
  have q: "[blocks q' ..< blocks q' + unat (blk_num q')] = ts" using q' c(2) by simp
  then have qs: "{blocks q' ..< blocks q' + unat (blk_num q')} = set ts" by (metis set_upt)
  have in_r: "set ts \<subseteq> set (blk_list r)" and d: "distinct ts" using l r by (auto simp: rbb_ok_def)
  have "\<forall>i \<in> set ts. i < length (blk_set r')" using in_r r len by (auto simp: rbb_ok_def)
  from queue_end [OF c this] have b: "blocks q' + unat (blk_num q') \<le> length (blk_set r')" by (simp add: q')
  have "run_size r' ts = run_size r ts" using r'(3) by (simp add: run_size_def cong: map_cong)
  moreover have "run_size r ts = n" using unat_run_size(1) [OF r in_r d] n by (simp add: word_eq_unat)
  ultimately have "rt_rbb_blk_queue_len q' r' = Some n"
    using queue_len_loop_eq [OF b] by (simp add: rt_rbb_blk_queue_len_def q)
  moreover have "\<forall>i \<in> {blocks q' ..< blocks q' + unat (blk_num q')}. bstatus (blk r' i) \<noteq> RT_RBB_BLK_UNUSED"
    unfolding qs using r'(3) by simp
  from queue_free_loop_spec [OF r'(1) b this, folded rt_rbb_blk_queue_free_def, unfolded qs]
  obtain r2 where "rt_rbb_blk_queue_free q' r' = Some r2" "rbb_ok r2" "set (blk_list r2) = set (blk_list r') - set ts"
    "\<forall>i. i < length (blk_set r') \<longrightarrow> (bstatus (blk r2 i) = RT_RBB_BLK_UNUSED) = (i \<in> set ts \<or> bstatus (blk r' i) = RT_RBB_BLK_UNUSED)"
    "\<forall>i. i \<notin> set ts \<longrightarrow> blk r2 i = blk r' i" by blast
  moreover have "set (ys @ zs) - set ts = set (ys @ zs)" using l r by (auto simp: rbb_ok_def)
  ultimately show ?thesis using r' len by auto
qed

lemma find_unused_cong:
  "length bs = length cs \<Longrightarrow> \<forall>i < length bs. (bstatus (bs ! i) = RT_RBB_BLK_UNUSED) = (bstatus (cs ! i) = RT_RBB_BLK_UNUSED) \<Longrightarrow>
   find_unused bs k = find_unused cs k"
proof (induction bs cs arbitrary: k rule: list_induct2)
  case (Cons b bs c cs)
  have "(bstatus b = RT_RBB_BLK_UNUSED) = (bstatus c = RT_RBB_BLK_UNUSED)" using Cons.prems by force
  moreover have "find_unused bs (Suc k) = find_unused cs (Suc k)" using Cons.prems by (intro Cons.IH) force
  ultimately show ?case by simp
qed simp

text \<open>Taking a queue leaves the unused blocks and the buffer as they are.\<close>

lemma find_empty_after_get:
  assumes r: "rbb_ok r" and g: "rt_rbb_blk_queue_get lim q r = (n, q', r')"
  shows "find_empty_blk_in_set r' = find_empty_blk_in_set r" "rbb_buf r' = rbb_buf r" "rbb_buf_size r' = rbb_buf_size r"
proof -
  have d: "distinct (blk_list r)" "\<forall>i \<in> set (blk_list r). i < length (blk_set r)" using r by (auto simp: rbb_ok_def)
  from queue_get_loop_None [OF d g [unfolded rt_rbb_blk_queue_get_def]] obtain ys ts zs where
    l: "blk_list r = ys @ ts @ zs" and ts: "r' = fold take_blk ts r" by blast
  then have ts: "r' = fold take_blk ts r" "\<forall>i \<in> set ts. i \<in> set (blk_list r)" by simp_all
  show b: "rbb_buf r' = rbb_buf r" "rbb_buf_size r' = rbb_buf_size r" by (simp_all add: ts(1) take_blks_fields)
  have len: "length (blk_set r') = length (blk_set r)" by (rule queue_get_length [OF r g])
  have ok: "rbb_ok r'" using take_blks_ok [OF r] ts(1) by simp
  have "(bstatus (blk r' i) = RT_RBB_BLK_UNUSED) = (bstatus (blk r i) = RT_RBB_BLK_UNUSED)" for i
    using take_blks_blk [of ts r i] ts r by (auto simp: rbb_ok_def)
  with len ok r show "find_empty_blk_in_set r' = find_empty_blk_in_set r"
    by (auto simp: find_empty_blk_in_set_def rbb_ok_def intro!: find_unused_cong)
qed

section \<open>Properties\<close>

definition demo_rbb :: rt_rbb where
  "demo_rbb = \<lparr>rbb_buf = 0x1000, rbb_buf_size = 12,
     blk_set = replicate 4 \<lparr>bstatus = RT_RBB_BLK_UNUSED, bsize = 0, bbuf = 0\<rparr>, blk_max_num = 4, blk_list = []\<rparr>"

text \<open>Three blocks, the middle one released, the other two filled.\<close>

definition demo_ops :: "rbb_op list" where
  "demo_ops = [BAlloc 4, BAlloc 4, BAlloc 4, BPut 0, BPut 1, BPut 2, BGet, BFree 0, BAlloc 4, BPut 0]"

definition demo_hole :: rt_rbb where
  "demo_hole = foldl rbb_step demo_rbb [BAlloc 4, BAlloc 4, BAlloc 4, BPut 0, BPut 2, BFree 1]"

lemma demo_rbb_ok: "rbb_ok demo_rbb"
  by (auto simp: demo_rbb_def rbb_ok_def ring_ordered_def ascending_def)

lemma upt_4: "[0..<4] = [0, 1, 2, 3 :: nat]" "replicate 4 x = [x, x, x, x]"
  by (simp_all add: upt_rec eval_nat_numeral)

lemmas rbb_eval = rt_rbb_blk_alloc_def rt_rbb_blk_put_def rt_rbb_blk_get_def rt_rbb_blk_free_def
  find_empty_blk_in_set_def append_blk_def upd_blk_def set_status_def slist_remove_def take_blk_def
  rt_rbb_blk_queue_get_def demo_rbb_def upt_4

lemma demo_hole_eq: "demo_hole = \<lparr>rbb_buf = 0x1000, rbb_buf_size = 12,
    blk_set = [\<lparr>bstatus = RT_RBB_BLK_PUT, bsize = 4, bbuf = 0x1000\<rparr>, \<lparr>bstatus = RT_RBB_BLK_UNUSED, bsize = 4, bbuf = 0x1004\<rparr>,
       \<lparr>bstatus = RT_RBB_BLK_PUT, bsize = 4, bbuf = 0x1008\<rparr>, \<lparr>bstatus = RT_RBB_BLK_UNUSED, bsize = 0, bbuf = 0\<rparr>],
    blk_max_num = 4, blk_list = [0, 2]\<rparr>"
  by (simp add: demo_hole_def rbb_eval)

lemma demo_hole_ok: "rbb_ok demo_hole"
proof -
  have "list_all (rbb_op_fits (rbb_buf_size demo_rbb)) [BAlloc 4, BAlloc 4, BAlloc 4, BPut 0, BPut 2, BFree 1]"
    by (simp add: fits_buffer_def demo_rbb_def)
  from rbb_run_ok [OF demo_rbb_ok refl this] show ?thesis unfolding demo_hole_def by (rule conjunct1)
qed



text \<open>What \<open>rt_rbb_blk_queue_get\<close> returns: behind the leading blocks that are not filled, the longest run of
  filled blocks in ascending order whose sizes add up to at most the limit, except that the first
  one is taken whatever its size; they leave the list. The announced length agrees. If the blocks of
  the queue have consecutive indices, \<open>rt_rbb_blk_queue_len\<close> is their size and
  \<open>rt_rbb_blk_queue_free\<close> frees exactly them.\<close>

theorem rbb_queue_get_takes_run:
  assumes r: "rbb_ok r" and g: "rt_rbb_blk_queue_get lim q r = (n, q', r')"
  shows "\<exists>ys ts zs. blk_list r = ys @ ts @ zs \<and> (\<forall>i \<in> set ys. bstatus (blk r i) \<noteq> RT_RBB_BLK_PUT)
    \<and> put_run r ts \<and> ascending (map (blk r) ts)
    \<and> unat n = sum_list (map (\<lambda>i. unat (bsize (blk r i))) ts) \<and> (1 < length ts \<longrightarrow> n \<le> lim)
    \<and> (if ts = [] then zs = [] \<and> q' = q
       else blocks q' = hd ts \<and> unat (blk_num q') = length ts \<and> queue_stops r lim (last ts) n zs)
    \<and> blk_list r' = ys @ zs
    \<and> (\<forall>i. blk r' i = (if i \<in> set ts then (blk r i)\<lparr>bstatus := RT_RBB_BLK_GET\<rparr> else blk r i))
    \<and> (rbb_buf_size r \<le> lim \<longrightarrow> rt_rbb_next_blk_queue_len r = n)
    \<and> (ts \<noteq> [] \<and> ts = [hd ts ..< hd ts + length ts] \<longrightarrow> rt_rbb_blk_queue_len q' r' = Some n
        \<and> (\<exists>r2. rt_rbb_blk_queue_free q' r' = Some r2 \<and> rbb_ok r2 \<and> set (blk_list r2) = set (ys @ zs)
            \<and> (\<forall>i. (i < length (blk_set r) \<and> i \<in> set ts \<longrightarrow> bstatus (blk r2 i) = RT_RBB_BLK_UNUSED)
                \<and> (i \<notin> set ts \<longrightarrow> blk r2 i = blk r i))))"
proof -
  obtain ys ts zs where t: "blk_list r = ys @ ts @ zs" "\<forall>i \<in> set ys. bstatus (blk r i) \<noteq> RT_RBB_BLK_PUT"
    "put_run r ts" "ascending (map (blk r) ts)" "unat n = sum_list (map (\<lambda>i. unat (bsize (blk r i))) ts)"
    "1 < length ts \<longrightarrow> n \<le> lim" "ts = [] \<longrightarrow> zs = [] \<and> q' = q"
    "ts \<noteq> [] \<longrightarrow> blocks q' = hd ts \<and> unat (blk_num q') = length ts \<and> queue_stops r lim (last ts) n zs"
    and r': "rbb_ok r'" "blk_list r' = ys @ zs"
      "\<forall>i. blk r' i = (if i \<in> set ts then (blk r i)\<lparr>bstatus := RT_RBB_BLK_GET\<rparr> else blk r i)"
    using rt_rbb_blk_queue_get_spec [OF r g] by blast
  have "rt_rbb_next_blk_queue_len r = n" if "rbb_buf_size r \<le> lim"
    using next_blk_queue_len_eq [OF r that, of q] g by simp
  moreover note queue_consecutive [OF r g t(1,5) _ _ r']
  ultimately show ?thesis using t r'
    by (intro exI [of _ ys] exI [of _ ts] exI [of _ zs] conjI) (blast | simp)+
qed

theorem rbb_queue_get_takes_run_witness:
  "rt_rbb_blk_queue_get 2 \<lparr>blocks = 0, blk_num = 0\<rparr> demo_hole
      = (4, \<lparr>blocks = 0, blk_num = 1\<rparr>, snd (snd (rt_rbb_blk_queue_get 2 \<lparr>blocks = 0, blk_num = 0\<rparr> demo_hole)))
    \<and> (\<exists>ys ts zs. blk_list demo_hole = ys @ ts @ zs \<and> put_run demo_hole ts \<and> (1 < length ts \<longrightarrow> 4 \<le> (2 :: u32)))
    \<and> fst (rt_rbb_blk_queue_get 8 \<lparr>blocks = 0, blk_num = 0\<rparr> demo_hole) = 8
    \<and> bend (blk demo_hole 0) < bstart (blk demo_hole 2)"
proof -
  let ?q = "\<lparr>blocks = 0, blk_num = 0\<rparr> :: rt_rbb_blk_queue"
  have g: "rt_rbb_blk_queue_get 2 ?q demo_hole
      = (4, \<lparr>blocks = 0, blk_num = 1\<rparr>, snd (snd (rt_rbb_blk_queue_get 2 ?q demo_hole)))"
    by (simp add: demo_hole_eq rbb_eval)
  obtain ys ts zs where "blk_list demo_hole = ys @ ts @ zs" "put_run demo_hole ts" "1 < length ts \<longrightarrow> 4 \<le> (2 :: u32)"
    using rbb_queue_get_takes_run [OF demo_hole_ok g] by blast
  moreover have "fst (rt_rbb_blk_queue_get 8 ?q demo_hole) = 8" by (simp add: demo_hole_eq rbb_eval)
  moreover have "bend (blk demo_hole 0) < bstart (blk demo_hole 2)"
    by (simp add: demo_hole_eq bend_def bstart_def)
  ultimately show ?thesis using g by blast
qed

text \<open>What is not protected. The blocks of a queue leave the list while the consumer still holds them, so
  once a queue has taken the whole list the next allocation hands out memory of that queue; and the
  allocation from an empty list does not check the size of the buffer at all.\<close>

theorem rbb_hands_out_held_memory:
  assumes r: "rbb_ok r" and g: "rt_rbb_blk_queue_get lim q r = (n, q', r')" and taken: "n \<noteq> 0" "blk_list r' = []"
    and start: "bbuf (blk r (blocks q')) = rbb_buf r" and free: "find_empty_blk_in_set r = Some i"
    and sz: "sz \<noteq> 0" "sz < 2 ^ 24"
  shows "\<exists>r2. rt_rbb_blk_alloc sz r' = Some (Some i, r2) \<and> i \<noteq> blocks q'
    \<and> bstatus (blk r2 (blocks q')) = RT_RBB_BLK_GET \<and> unat (rbb_buf r) \<in> rbb_region r2 i \<inter> rbb_region r2 (blocks q')
    \<and> (rbb_buf_size r < sz \<longrightarrow> \<not> blk_inside r2 (blk r2 i))"
proof -
  obtain ys ts zs where l: "blk_list r = ys @ ts @ zs" and n: "unat n = sum_list (map (\<lambda>i. unat (bsize (blk r i))) ts)"
    and hd: "ts \<noteq> [] \<longrightarrow> blocks q' = hd ts"
    and r': "rbb_ok r'" "\<forall>i. blk r' i = (if i \<in> set ts then (blk r i)\<lparr>bstatus := RT_RBB_BLK_GET\<rparr> else blk r i)"
    using rt_rbb_blk_queue_get_spec [OF r g] by blast
  have t: "set ts \<subseteq> set (blk_list r)" "ts = [] \<longrightarrow> n = 0" "ts \<noteq> [] \<longrightarrow> blocks q' = hd ts"
    using l n hd by (auto simp: word_eq_unat)
  have h: "blocks q' \<in> set ts" using t taken(1) by (cases ts) auto
  have s: "0 < unat (bsize (blk r (blocks q')))" using h t(1) r by (auto simp: rbb_ok_def blk_inside_def)
  note i = find_empty_spec(1) [OF r free]
  have f: "find_empty_blk_in_set r' = Some i" "rbb_buf r' = rbb_buf r" "rbb_buf_size r' = rbb_buf_size r"
    using find_empty_after_get [OF r g] free by simp_all
  note a = alloc_on_empty_list [OF r'(1) taken(2) f(1) sz(2)]
  have i': "i < length (blk_set r')" "i \<noteq> blocks q'" using i h t(1) queue_get_length [OF r g] by auto
  have "0 < unat sz" using sz(1) by (simp add: unat_gt_0)
  with a i' h s start r'(2) f show ?thesis
    by (auto simp: rbb_region_def bstart_def bend_def blk_inside_def word_less_nat_alt)
qed

theorem rbb_hands_out_held_memory_witness:
  "\<exists>q' r' r2. rt_rbb_blk_queue_get 8 \<lparr>blocks = 0, blk_num = 0\<rparr> demo_hole = (8, q', r')
    \<and> rt_rbb_blk_alloc 100 r' = Some (Some 1, r2)
    \<and> unat (rbb_buf demo_hole) \<in> rbb_region r2 1 \<inter> rbb_region r2 0 \<and> \<not> blk_inside r2 (blk r2 1)"
proof -
  let ?g = "rt_rbb_blk_queue_get 8 \<lparr>blocks = 0, blk_num = 0\<rparr> demo_hole"
  have g: "?g = (8, \<lparr>blocks = 0, blk_num = 2\<rparr>, snd (snd ?g))" and e: "blk_list (snd (snd ?g)) = []"
    by (simp_all add: demo_hole_eq rbb_eval)
  have p: "bbuf (blk demo_hole (blocks \<lparr>blocks = 0, blk_num = 2\<rparr>)) = rbb_buf demo_hole"
    "find_empty_blk_in_set demo_hole = Some 1" "rbb_buf_size demo_hole < 100"
    by (simp_all add: demo_hole_eq rbb_eval)
  show ?thesis
    using rbb_hands_out_held_memory [OF demo_hole_ok g _ e p(1,2), of 100] p(3) g by auto
qed

text \<open>Creation never leaks: it returns on every path, and when any of its three requests fails the heap
  holds exactly what it held before. On success the object, its block set and its buffer are three
  fresh blocks, the ring is well formed and empty, and destruction gives the three blocks back.\<close>

theorem rbb_create_destroy:
  assumes "heap_ok h" "unat sz + 3 < 2 ^ 32" "12 * unat n < 2 ^ 32"
  shows "\<exists>res h'. rt_rbb_create junk sz n h = Some (res, h') \<and> heap_ok h' \<and>
    (case res of None \<Rightarrow> heap_live h' = heap_live h
     | Some (o1, b, r) \<Rightarrow> rbb_ok r \<and> rbb_buf_size r = sz \<and> blk_list r = [] \<and> blk_max_num r = n
         \<and> heap_live h' = heap_live h \<union> {o1, b, rbb_buf r} \<and> card {o1, b, rbb_buf r} = 3
         \<and> {o1, b, rbb_buf r} \<inter> heap_live h = {}
         \<and> (\<exists>h2. rt_rbb_destroy o1 b r h' = Some h2 \<and> heap_ok h2 \<and> heap_live h2 = heap_live h))"
proof -
  obtain res h' where c: "rt_rbb_create junk sz n h = Some (res, h')" "heap_ok h'"
    "case res of None \<Rightarrow> heap_live h' = heap_live h
     | Some (o1, b, r) \<Rightarrow> rbb_ok r \<and> rbb_buf_size r = sz \<and> blk_list r = [] \<and> blk_max_num r = n
         \<and> {o1, b, rbb_buf r} \<inter> heap_live h = {} \<and> o1 \<noteq> b \<and> o1 \<noteq> rbb_buf r \<and> b \<noteq> rbb_buf r
         \<and> heap_live h' = heap_live h \<union> {o1, b, rbb_buf r}"
    using rt_rbb_create_spec [OF assms] by blast
  show ?thesis
  proof (cases res)
    case None
    then show ?thesis using c by simp
  next
    case (Some x)
    obtain o1 b r where x: "x = (o1, b, r)" by (cases x)
    from c(3) have d: "heap_live h' - {o1, b, rbb_buf r} = heap_live h" "{o1, b, rbb_buf r} \<subseteq> heap_live h'"
      and e: "o1 \<noteq> b" "o1 \<noteq> rbb_buf r" "b \<noteq> rbb_buf r" by (auto simp: Some x)
    from rt_rbb_destroy_live [OF c(2) d(2) e] d(1) c Some x e show ?thesis by auto
  qed
qed

theorem rbb_create_destroy_witness:
  "\<exists>res h'. rt_rbb_create (\<lambda>_. \<lparr>bstatus = RT_RBB_BLK_GET, bsize = 7, bbuf = 9\<rparr>) 64 2 demo_heap = Some (res, h') \<and> heap_ok h'
    \<and> (case res of None \<Rightarrow> heap_live h' = {} | Some (o1, b, r) \<Rightarrow> heap_live h' = {o1, b, rbb_buf r})"
proof -
  have "heap_ok demo_heap" using demo_heap_facts(1) by (simp add: heap_tidy_def)
  from rbb_create_destroy [OF this, of 64 2 "\<lambda>_. \<lparr>bstatus = RT_RBB_BLK_GET, bsize = 7, bbuf = 9\<rparr>"]
  show ?thesis by (fastforce simp: demo_heap_facts(2) split: option.splits)
qed

end
