(* ===== verification/KState.thy ===== *)
theory KState
  imports Prelude
begin

text \<open>
  The kernel's shared state: the threads (\<open>struct rt_thread\<close> of \<open>rtdef.h\<close>), the timers
  (\<open>struct rt_timer\<close>), the list heads that a thread's \<open>tlist\<close> node can be linked into, and the
  globals of \<open>scheduler.c\<close>, \<open>clock.c\<close>, \<open>timer.c\<close> and \<open>irq.c\<close>. Threads and kernel objects
  are named by their addresses (\<open>nat\<close>). A \<open>tlist\<close> node is on at most one list, so
  \<open>rt_list_remove\<close> takes the thread off whichever list it is on. Interrupt locking makes every
  operation atomic on this single-processor configuration and has no counterpart. The hooks are
  unset and an identifier stands for an initialised object of its class; the registry of objects
  (\<open>object.c\<close>) is the subject of \<open>ObjectReg\<close>.
\<close>

unbundle bit_operations_syntax

section \<open>Data\<close>

type_synonym tid = nat

text \<open>\<open>rt_thread_priority_table[p]\<close>, \<open>rt_thread_defunct\<close>, the \<open>suspend_thread\<close> list of the
  object at an address, and the \<open>suspend_sender_thread\<close> list of the mailbox or message queue at an
  address.\<close>

datatype qhead = Prio nat | Defunct | WaitQ nat | SendQ nat

text \<open>The timer embedded in a thread (its callback is \<open>rt_thread_timeout\<close>), and any other.\<close>

datatype tmid = ThreadTimer tid | OwnTimer nat

record rt_timer =
  tm_flag :: u8
  tm_init_tick :: u32
  tm_timeout_tick :: u32

record rt_thread =
  error :: int
  stat :: u8
  current_priority :: u8
  init_priority :: u8
  number_mask :: u32
  event_set :: u32
  event_info :: u8
  init_tick :: u32
  remaining_tick :: u32
  systemobject :: bool
  cleanup :: bool

record kernel =
  threads :: "tid \<Rightarrow> rt_thread"
  lists :: "qhead \<Rightarrow> tid list"
  ready_group :: u32
  current :: "tid option"
  cur_prio :: u8
  lock_nest :: "16 word"
  int_nest :: u8
  tick :: u32
  timers :: "tmid \<Rightarrow> rt_timer"
  timer_list :: "tmid list"

abbreviation (input) RT_THREAD_INIT :: u8 where "RT_THREAD_INIT \<equiv> 0"
abbreviation (input) RT_THREAD_READY :: u8 where "RT_THREAD_READY \<equiv> 1"
abbreviation (input) RT_THREAD_SUSPEND :: u8 where "RT_THREAD_SUSPEND \<equiv> 2"
abbreviation (input) RT_THREAD_RUNNING :: u8 where "RT_THREAD_RUNNING \<equiv> 3"
abbreviation (input) RT_THREAD_CLOSE :: u8 where "RT_THREAD_CLOSE \<equiv> 4"
abbreviation (input) RT_THREAD_STAT_MASK :: u8 where "RT_THREAD_STAT_MASK \<equiv> 7"
abbreviation (input) RT_THREAD_STAT_YIELD :: u8 where "RT_THREAD_STAT_YIELD \<equiv> 8"
abbreviation (input) RT_THREAD_STAT_YIELD_MASK :: u8 where "RT_THREAD_STAT_YIELD_MASK \<equiv> 8"
abbreviation (input) RT_THREAD_PRIORITY_MAX :: nat where "RT_THREAD_PRIORITY_MAX \<equiv> 32"
abbreviation (input) RT_TICK_MAX :: u32 where "RT_TICK_MAX \<equiv> 0xffffffff"
abbreviation (input) RT_TIMER_FLAG_ACTIVATED :: u8 where "RT_TIMER_FLAG_ACTIVATED \<equiv> 1"
abbreviation (input) RT_TIMER_FLAG_PERIODIC :: u8 where "RT_TIMER_FLAG_PERIODIC \<equiv> 2"

section \<open>Elementary updates\<close>

definition upd_thread :: "tid \<Rightarrow> (rt_thread \<Rightarrow> rt_thread) \<Rightarrow> kernel \<Rightarrow> kernel" where
  "upd_thread t f k = k\<lparr>threads := (threads k)(t := f (threads k t))\<rparr>"

definition upd_timer :: "tmid \<Rightarrow> (rt_timer \<Rightarrow> rt_timer) \<Rightarrow> kernel \<Rightarrow> kernel" where
  "upd_timer tm f k = k\<lparr>timers := (timers k)(tm := f (timers k tm))\<rparr>"

text \<open>\<open>rt_list_remove(&thread->tlist)\<close>, \<open>rt_list_insert_before(head, &thread->tlist)\<close> (at the
  tail) and \<open>rt_list_insert_after(head, &thread->tlist)\<close> (at the front).\<close>

definition rt_list_remove :: "tid \<Rightarrow> kernel \<Rightarrow> kernel" where
  "rt_list_remove t k = k\<lparr>lists := (\<lambda>q. removeAll t (lists k q))\<rparr>"

definition rt_list_insert_before :: "qhead \<Rightarrow> tid \<Rightarrow> kernel \<Rightarrow> kernel" where
  "rt_list_insert_before q t k = k\<lparr>lists := (lists k)(q := lists k q @ [t])\<rparr>"

definition rt_list_insert_after :: "qhead \<Rightarrow> tid \<Rightarrow> kernel \<Rightarrow> kernel" where
  "rt_list_insert_after q t k = k\<lparr>lists := (lists k)(q := t # lists k q)\<rparr>"

text \<open>\<open>thread->stat & RT_THREAD_STAT_MASK\<close>, and the assignment
  \<open>thread->stat = s | (thread->stat & ~RT_THREAD_STAT_MASK)\<close>.\<close>

definition tstat :: "kernel \<Rightarrow> tid \<Rightarrow> u8" where
  "tstat k t = stat (threads k t) AND RT_THREAD_STAT_MASK"

definition set_stat :: "u8 \<Rightarrow> rt_thread \<Rightarrow> rt_thread" where
  "set_stat s th = th\<lparr>stat := s OR (stat th AND NOT RT_THREAD_STAT_MASK)\<rparr>"

abbreviation prio :: "kernel \<Rightarrow> tid \<Rightarrow> nat" where
  "prio k t \<equiv> unat (current_priority (threads k t))"

definition is_linked :: "kernel \<Rightarrow> tid \<Rightarrow> bool" where
  "is_linked k t \<longleftrightarrow> (\<exists>q. t \<in> set (lists k q))"

lemma stat_mask_or [simp]: "(s OR (x AND - 8)) AND 7 = s AND (7 :: u8)"
proof -
  have "(- 8 :: u8) = NOT 7" by simp
  then show ?thesis by (simp only:) (rule bit_eqI, auto simp: bit_simps simp del: bit_not_iff_eq)
qed

lemma stat_mask_not_yield [simp]: "(x AND - 9) AND 7 = x AND (7 :: u8)"
proof -
  have "(- 9) AND (7 :: u8) = 7" by simp
  then show ?thesis by (metis and.assoc)
qed

lemma upd_thread_simps [simp]:
  "lists (upd_thread t f k) = lists k" "ready_group (upd_thread t f k) = ready_group k"
  "current (upd_thread t f k) = current k" "cur_prio (upd_thread t f k) = cur_prio k"
  "lock_nest (upd_thread t f k) = lock_nest k" "int_nest (upd_thread t f k) = int_nest k"
  "tick (upd_thread t f k) = tick k" "timers (upd_thread t f k) = timers k"
  "timer_list (upd_thread t f k) = timer_list k"
  "threads (upd_thread t f k) = (threads k)(t := f (threads k t))"
  by (simp_all add: upd_thread_def)

lemma upd_timer_simps [simp]:
  "lists (upd_timer tm g k) = lists k" "ready_group (upd_timer tm g k) = ready_group k"
  "current (upd_timer tm g k) = current k" "cur_prio (upd_timer tm g k) = cur_prio k"
  "lock_nest (upd_timer tm g k) = lock_nest k" "int_nest (upd_timer tm g k) = int_nest k"
  "tick (upd_timer tm g k) = tick k" "threads (upd_timer tm g k) = threads k"
  "timer_list (upd_timer tm g k) = timer_list k"
  "timers (upd_timer tm g k) = (timers k)(tm := g (timers k tm))"
  by (simp_all add: upd_timer_def)

lemma list_op_simps [simp]:
  "threads (rt_list_remove t k) = threads k" "ready_group (rt_list_remove t k) = ready_group k"
  "current (rt_list_remove t k) = current k" "cur_prio (rt_list_remove t k) = cur_prio k"
  "lock_nest (rt_list_remove t k) = lock_nest k" "int_nest (rt_list_remove t k) = int_nest k"
  "tick (rt_list_remove t k) = tick k" "timers (rt_list_remove t k) = timers k"
  "timer_list (rt_list_remove t k) = timer_list k"
  "lists (rt_list_remove t k) = (\<lambda>q. removeAll t (lists k q))"
  "threads (rt_list_insert_before q t k) = threads k"
  "ready_group (rt_list_insert_before q t k) = ready_group k"
  "current (rt_list_insert_before q t k) = current k"
  "cur_prio (rt_list_insert_before q t k) = cur_prio k"
  "lock_nest (rt_list_insert_before q t k) = lock_nest k"
  "int_nest (rt_list_insert_before q t k) = int_nest k"
  "tick (rt_list_insert_before q t k) = tick k" "timers (rt_list_insert_before q t k) = timers k"
  "timer_list (rt_list_insert_before q t k) = timer_list k"
  "lists (rt_list_insert_before q t k) = (lists k)(q := lists k q @ [t])"
  "threads (rt_list_insert_after q t k) = threads k"
  "ready_group (rt_list_insert_after q t k) = ready_group k"
  "current (rt_list_insert_after q t k) = current k"
  "cur_prio (rt_list_insert_after q t k) = cur_prio k"
  "lock_nest (rt_list_insert_after q t k) = lock_nest k"
  "int_nest (rt_list_insert_after q t k) = int_nest k"
  "tick (rt_list_insert_after q t k) = tick k" "timers (rt_list_insert_after q t k) = timers k"
  "timer_list (rt_list_insert_after q t k) = timer_list k"
  "lists (rt_list_insert_after q t k) = (lists k)(q := t # lists k q)"
  by (simp_all add: rt_list_remove_def rt_list_insert_before_def rt_list_insert_after_def)

lemma set_stat_simps [simp]:
  "current_priority (set_stat s th) = current_priority th"
  "init_priority (set_stat s th) = init_priority th"
  "number_mask (set_stat s th) = number_mask th"
  "error (set_stat s th) = error th" "event_set (set_stat s th) = event_set th"
  "event_info (set_stat s th) = event_info th" "init_tick (set_stat s th) = init_tick th"
  "remaining_tick (set_stat s th) = remaining_tick th"
  "stat (set_stat s th) AND 7 = s AND 7"
  by (simp_all add: set_stat_def)

section \<open>The kernel invariant\<close>

text \<open>
  What holds of the lists as such: a thread is on at most one list and at most once, bit \<open>p\<close> of
  the ready group is set exactly if the ready list of priority \<open>p\<close> is not empty, and a linked
  timer is flagged as activated.
\<close>

definition lists_ok :: "kernel \<Rightarrow> bool" where
  "lists_ok k \<longleftrightarrow>
     (\<forall>q. distinct (lists k q))
     \<and> (\<forall>q q' t. t \<in> set (lists k q) \<longrightarrow> t \<in> set (lists k q') \<longrightarrow> q = q')
     \<and> (\<forall>p. bit (ready_group k) p \<longleftrightarrow> p < RT_THREAD_PRIORITY_MAX \<and> lists k (Prio p) \<noteq> [])
     \<and> (\<forall>p \<ge> RT_THREAD_PRIORITY_MAX. lists k (Prio p) = [])
     \<and> distinct (timer_list k)
     \<and> (\<forall>tm \<in> set (timer_list k). tm_flag (timers k tm) AND RT_TIMER_FLAG_ACTIVATED \<noteq> 0)"

text \<open>
  What holds of one thread: the state it is in agrees with the list it is on (a ready list of its
  priority, the defunct list, or a wait queue), a thread past initialisation has a priority in range
  and its bit as mask, only the current thread is running, and only a suspended thread has its timer
  armed.
\<close>

definition list_stat :: "kernel \<Rightarrow> tid \<Rightarrow> qhead \<Rightarrow> bool" where
  "list_stat k t q \<longleftrightarrow> (case q of
     Prio p \<Rightarrow> tstat k t = RT_THREAD_READY \<and> prio k t = p
   | Defunct \<Rightarrow> tstat k t = RT_THREAD_CLOSE
   | WaitQ a \<Rightarrow> tstat k t = RT_THREAD_SUSPEND
   | SendQ a \<Rightarrow> tstat k t = RT_THREAD_SUSPEND)"

definition prio_ok :: "kernel \<Rightarrow> tid \<Rightarrow> bool" where
  "prio_ok k t \<longleftrightarrow> prio k t < RT_THREAD_PRIORITY_MAX
     \<and> number_mask (threads k t) = push_bit (prio k t) 1"

definition thread_ok :: "kernel \<Rightarrow> tid \<Rightarrow> bool" where
  "thread_ok k t \<longleftrightarrow>
     (\<forall>q. t \<in> set (lists k q) \<longrightarrow> list_stat k t q)
     \<and> (tstat k t = RT_THREAD_READY \<longrightarrow> t \<in> set (lists k (Prio (prio k t))))
     \<and> (tstat k t \<noteq> RT_THREAD_INIT \<longrightarrow> prio_ok k t)
     \<and> (tstat k t = RT_THREAD_RUNNING \<longrightarrow> current k = Some t)
     \<and> (current k = Some t \<longrightarrow> tstat k t \<noteq> RT_THREAD_READY \<and> tstat k t \<noteq> RT_THREAD_INIT)
     \<and> (ThreadTimer t \<in> set (timer_list k) \<longrightarrow> tstat k t = RT_THREAD_SUSPEND)"

text \<open>\<open>kinv_x X\<close>: the invariant while the threads of \<open>X\<close> are being moved.\<close>

definition kinv_x :: "tid set \<Rightarrow> kernel \<Rightarrow> bool" where
  "kinv_x X k \<longleftrightarrow> lists_ok k \<and> (\<forall>t. t \<notin> X \<longrightarrow> thread_ok k t)"

definition kinv :: "kernel \<Rightarrow> bool" where
  "kinv k \<longleftrightarrow> kinv_x {} k"

lemma kinv_x_mono: "kinv_x X k \<Longrightarrow> X \<subseteq> Y \<Longrightarrow> kinv_x Y k"
  by (auto simp: kinv_x_def)

lemma kinv_x_of: "kinv k \<Longrightarrow> kinv_x X k"
  by (auto simp: kinv_def intro: kinv_x_mono)

lemma kinv_x_leave: "kinv_x (insert t X) k \<Longrightarrow> thread_ok k t \<Longrightarrow> kinv_x (X - {t}) k"
  by (auto simp: kinv_x_def)

lemma kinv_I: "kinv_x {t} k \<Longrightarrow> thread_ok k t \<Longrightarrow> kinv k"
  by (auto simp: kinv_def kinv_x_def)

lemma kinv_thread: "kinv k \<Longrightarrow> thread_ok k t"
  by (auto simp: kinv_def kinv_x_def)

lemma kinv_lists: "kinv k \<Longrightarrow> lists_ok k"
  by (auto simp: kinv_def kinv_x_def)

lemma kinv_x_lists: "kinv_x X k \<Longrightarrow> lists_ok k"
  by (auto simp: kinv_x_def)

lemma kinv_current: "kinv k \<Longrightarrow> current k = Some c \<Longrightarrow> t \<in> set (lists k (Prio p)) \<Longrightarrow> t \<noteq> c"
  using kinv_thread [of k c] by (auto simp: thread_ok_def list_stat_def)

lemma kinv_ready:
  "kinv k \<Longrightarrow> t \<in> set (lists k (Prio p)) \<longleftrightarrow> tstat k t = RT_THREAD_READY \<and> prio k t = p"
  using kinv_thread [of k t] by (auto simp: thread_ok_def list_stat_def)

lemma one_list:
  "lists_ok k \<Longrightarrow> t \<in> set (lists k q) \<Longrightarrow> t \<in> set (lists k q') \<Longrightarrow> q = q'"
  unfolding lists_ok_def by blast

lemma linked_stat:
  "thread_ok k t \<Longrightarrow> t \<in> set (lists k q) \<Longrightarrow>
    tstat k t = RT_THREAD_READY \<or> tstat k t = RT_THREAD_SUSPEND \<or> tstat k t = RT_THREAD_CLOSE"
  by (cases q) (auto simp: thread_ok_def list_stat_def)

text \<open>A change that leaves a thread and its links alone leaves its part of the invariant alone.\<close>

lemma thread_ok_frame:
  assumes "threads k' u = threads k u" "\<And>q. u \<in> set (lists k' q) \<longleftrightarrow> u \<in> set (lists k q)"
    and "current k' = current k \<or> (current k \<noteq> Some u \<and> current k' \<noteq> Some u)"
    and "ThreadTimer u \<in> set (timer_list k') \<longleftrightarrow> ThreadTimer u \<in> set (timer_list k)"
    and "thread_ok k u"
  shows "thread_ok k' u"
proof -
  have t: "tstat k' u = tstat k u" using assms(1) by (simp add: tstat_def)
  have l: "list_stat k' u q = list_stat k u q" for q
    using assms(1) by (simp add: list_stat_def t split: qhead.splits)
  have c: "current k' = Some u \<longleftrightarrow> current k = Some u" using assms(3) by auto
  show ?thesis
    using assms(5) unfolding thread_ok_def prio_ok_def assms(1,2,4) t l c .
qed

lemma kinv_x_upd_thread:
  assumes "kinv_x X k" "t \<in> X"
  shows "kinv_x X (upd_thread t f k)"
proof -
  have "thread_ok (upd_thread t f k) u" if "u \<notin> X" for u
    by (rule thread_ok_frame [of _ _ k]) (use assms that in \<open>auto simp: kinv_x_def\<close>)
  with assms show ?thesis by (auto simp: kinv_x_def lists_ok_def)
qed

lemma kinv_x_upd_timer:
  assumes "kinv_x X k" "\<And>x. tm_flag (g x) AND 1 = tm_flag x AND 1"
  shows "kinv_x X (upd_timer tm g k)"
proof -
  have "thread_ok (upd_timer tm g k) u" if "u \<notin> X" for u
    by (rule thread_ok_frame [of _ _ k]) (use assms that in \<open>auto simp: kinv_x_def\<close>)
  with assms show ?thesis by (auto simp: kinv_x_def lists_ok_def)
qed

text \<open>Changes of fields the invariant does not read.\<close>

lemma kinv_x_cong:
  assumes "threads k' = threads k" "lists k' = lists k" "ready_group k' = ready_group k"
    "current k' = current k" "timers k' = timers k" "timer_list k' = timer_list k"
  shows "kinv_x X k' = kinv_x X k"
  unfolding kinv_x_def lists_ok_def thread_ok_def list_stat_def prio_ok_def tstat_def assms ..

lemma kinv_cong:
  assumes "threads k' = threads k" "lists k' = lists k" "ready_group k' = ready_group k"
    "current k' = current k" "timers k' = timers k" "timer_list k' = timer_list k"
  shows "kinv k' = kinv k"
  unfolding kinv_def by (rule kinv_x_cong [OF assms])

text \<open>Unlinking a thread from a wait queue or the defunct list, and linking an unlinked thread that
  is being moved.\<close>

lemma not_linked_remove [simp]: "\<not> is_linked (rt_list_remove t k) t"
  by (simp add: is_linked_def)

lemma kinv_x_list_remove:
  assumes "kinv_x X k" "t \<in> X" "\<And>p. t \<notin> set (lists k (Prio p))"
  shows "kinv_x X (rt_list_remove t k)"
proof -
  have "removeAll t (lists k (Prio p)) = lists k (Prio p)" for p
    using assms(3) [of p] by simp
  then have "lists_ok (rt_list_remove t k)"
    using assms(1) by (auto simp: kinv_x_def lists_ok_def distinct_removeAll)
  moreover have "thread_ok (rt_list_remove t k) u" if "u \<notin> X" for u
    by (rule thread_ok_frame [of _ _ k]) (use assms that in \<open>auto simp: kinv_x_def\<close>)
  ultimately show ?thesis by (auto simp: kinv_x_def)
qed

lemma kinv_x_link:
  assumes "kinv_x X k" "t \<in> X" "\<not> is_linked k t" "\<And>p. q \<noteq> Prio p"
    and "set xs = insert t (set (lists k q))" "distinct xs"
  shows "kinv_x X (k\<lparr>lists := (lists k)(q := xs)\<rparr>)"
proof -
  have "lists_ok (k\<lparr>lists := (lists k)(q := xs)\<rparr>)"
    using assms unfolding kinv_x_def lists_ok_def is_linked_def by (auto split: if_splits)
  moreover have "thread_ok (k\<lparr>lists := (lists k)(q := xs)\<rparr>) u" if "u \<notin> X" for u
    by (rule thread_ok_frame [of _ _ k]) (use assms that in \<open>auto simp: kinv_x_def\<close>)
  ultimately show ?thesis by (auto simp: kinv_x_def)
qed

lemma kinv_x_insert_after:
  assumes "kinv_x X k" "t \<in> X" "\<not> is_linked k t" "\<And>p. q \<noteq> Prio p"
  shows "kinv_x X (rt_list_insert_after q t k)"
  unfolding rt_list_insert_after_def
  by (rule kinv_x_link) (use assms kinv_x_lists [OF assms(1)] in \<open>auto simp: is_linked_def lists_ok_def\<close>)

lemma kinv_x_insert_before:
  assumes "kinv_x X k" "t \<in> X" "\<not> is_linked k t" "\<And>p. q \<noteq> Prio p"
  shows "kinv_x X (rt_list_insert_before q t k)"
  unfolding rt_list_insert_before_def
  by (rule kinv_x_link) (use assms kinv_x_lists [OF assms(1)] in \<open>auto simp: is_linked_def lists_ok_def\<close>)

end
