(* ===== verification/Scheduler.thy ===== *)
theory Scheduler
  imports KState
begin

text \<open>
  \<open>scheduler.c\<close> for one processor and 32 priorities: the ready table with its bitmap, the
  preemptive switch \<open>rt_schedule\<close>, insertion and removal of a thread, and the scheduler lock. The
  stack check, the hooks and the register switch itself are not modelled: after \<open>rt_schedule\<close> the
  processor runs \<open>current\<close>.
\<close>

unbundle bit_operations_syntax

section \<open>Operations\<close>

text \<open>\<open>__rt_ffs\<close>: one more than the index of the lowest set bit, 0 for 0 (the CLZ-based routine of
  the Cortex-M4 port).\<close>

definition rt_ffs :: "u32 \<Rightarrow> nat" where
  "rt_ffs v = (case find (bit v) [0..<32] of None \<Rightarrow> 0 | Some i \<Rightarrow> Suc i)"

text \<open>\<open>None\<close>: the list entry is computed from an empty list head.\<close>

definition get_highest_priority_thread :: "kernel \<Rightarrow> (tid \<times> nat) option" where
  "get_highest_priority_thread k =
     (let p = rt_ffs (ready_group k) - 1 in
      case lists k (Prio p) of [] \<Rightarrow> None | t # _ \<Rightarrow> Some (t, p))"

definition rt_schedule_insert_thread :: "tid \<Rightarrow> kernel \<Rightarrow> kernel" where
  "rt_schedule_insert_thread t k =
     (if current k = Some t then upd_thread t (set_stat RT_THREAD_RUNNING) k
      else
        (let k1 = upd_thread t (set_stat RT_THREAD_READY) k;
             k2 = rt_list_insert_before (Prio (prio k1 t)) t k1 in
         k2\<lparr>ready_group := ready_group k2 OR number_mask (threads k2 t)\<rparr>))"

definition rt_schedule_remove_thread :: "tid \<Rightarrow> kernel \<Rightarrow> kernel" where
  "rt_schedule_remove_thread t k =
     (let k1 = rt_list_remove t k in
      if lists k1 (Prio (prio k1 t)) = []
      then k1\<lparr>ready_group := ready_group k1 AND NOT (number_mask (threads k1 t))\<rparr>
      else k1)"

definition rt_schedule :: "kernel \<Rightarrow> kernel option" where
  "rt_schedule k =
     (if lock_nest k = 0 \<and> ready_group k \<noteq> 0 then do {
        (hd_thread, hp) \<leftarrow> get_highest_priority_thread k;
        cur \<leftarrow> current k;
        let c = threads k cur;
        let (to_thread, k1, need_insert_from) =
          (if stat c AND RT_THREAD_STAT_MASK = RT_THREAD_RUNNING
           then
             (if unat (current_priority c) < hp then (cur, k, False)
              else if unat (current_priority c) = hp \<and> stat c AND RT_THREAD_STAT_YIELD_MASK = 0
              then (cur, k, False)
              else (hd_thread,
                    upd_thread cur (\<lambda>x. x\<lparr>stat := stat x AND NOT RT_THREAD_STAT_YIELD_MASK\<rparr>) k,
                    True))
           else (hd_thread, k, False));
        if to_thread \<noteq> cur then
          (let k2 = k1\<lparr>cur_prio := of_nat hp, current := Some to_thread\<rparr>;
               k3 = (if need_insert_from then rt_schedule_insert_thread cur k2 else k2);
               k4 = rt_schedule_remove_thread to_thread k3 in
           Some (upd_thread to_thread (set_stat RT_THREAD_RUNNING) k4))
        else Some (upd_thread cur (set_stat RT_THREAD_RUNNING) (rt_schedule_remove_thread cur k1))
      }
      else Some k)"

definition rt_system_scheduler_init :: "kernel \<Rightarrow> kernel" where
  "rt_system_scheduler_init k =
     k\<lparr>lock_nest := 0, lists := (\<lambda>q. case q of Prio p \<Rightarrow> (if p < RT_THREAD_PRIORITY_MAX then [] else lists k q)
          | Defunct \<Rightarrow> [] | _ \<Rightarrow> lists k q), ready_group := 0\<rparr>"

definition rt_system_scheduler_start :: "kernel \<Rightarrow> kernel option" where
  "rt_system_scheduler_start k = do {
     (to_thread, hp) \<leftarrow> get_highest_priority_thread k;
     let k1 = rt_schedule_remove_thread to_thread (k\<lparr>current := Some to_thread\<rparr>);
     Some (upd_thread to_thread (\<lambda>x. x\<lparr>stat := RT_THREAD_RUNNING\<rparr>) k1)
   }"

definition rt_enter_critical :: "kernel \<Rightarrow> kernel" where
  "rt_enter_critical k = k\<lparr>lock_nest := lock_nest k + 1\<rparr>"

definition rt_exit_critical :: "kernel \<Rightarrow> kernel option" where
  "rt_exit_critical k =
     (let k1 = k\<lparr>lock_nest := lock_nest k - 1\<rparr> in
      if sint (lock_nest k1) \<le> 0
      then
        (let k2 = k1\<lparr>lock_nest := 0\<rparr> in
         if current k2 \<noteq> None then rt_schedule k2 else Some k2)
      else Some k1)"

definition rt_critical_level :: "kernel \<Rightarrow> u16" where
  "rt_critical_level k = lock_nest k"

section \<open>The bitmap\<close>

lemma rt_ffs_0 [simp]: "rt_ffs 0 = 0"
proof -
  have "find (bit (0 :: u32)) [0..<32] = None" by (simp add: find_None_iff)
  then show ?thesis by (simp only: rt_ffs_def option.case)
qed

lemma rt_ffs_Some:
  assumes "v \<noteq> 0"
  shows "\<exists>i < 32. rt_ffs v = Suc i \<and> bit v i \<and> (\<forall>j < i. \<not> bit v j)"
proof -
  obtain i where "bit v i" using assms by (auto simp: bit_eq_iff)
  then have "i < 32" by (auto dest: bit_imp_le_length)
  with \<open>bit v i\<close> have "find (bit v) [0..<32] \<noteq> None"
    by (auto simp: find_None_iff)
  then obtain n where "find (bit v) [0..<32] = Some n" by auto
  then have "rt_ffs v = Suc n" "n < 32" "bit v n" "\<forall>j < n. \<not> bit v j"
    by (simp_all add: rt_ffs_def) (auto simp: find_Some_iff)
  then show ?thesis by blast
qed

lemma highest_ready:
  assumes "kinv k" "ready_group k \<noteq> 0"
  shows "\<exists>t ts p. get_highest_priority_thread k = Some (t, p) \<and> lists k (Prio p) = t # ts \<and> p < 32
    \<and> (\<forall>u. tstat k u = RT_THREAD_READY \<longrightarrow> p \<le> prio k u)"
proof -
  obtain p where p: "p < 32" "rt_ffs (ready_group k) = Suc p" "bit (ready_group k) p"
    "\<forall>j < p. \<not> bit (ready_group k) j"
    using rt_ffs_Some [OF assms(2)] by auto
  have g: "bit (ready_group k) q \<longleftrightarrow> q < 32 \<and> lists k (Prio q) \<noteq> []" for q
    using kinv_lists [OF assms(1)] by (simp add: lists_ok_def)
  obtain t ts where t: "lists k (Prio p) = t # ts" using g [of p] p by (cases "lists k (Prio p)") auto
  have "p \<le> prio k u" if u: "tstat k u = RT_THREAD_READY" for u
  proof -
    have "u \<in> set (lists k (Prio (prio k u)))" using kinv_ready [OF assms(1)] u by simp
    moreover have "prio k u < 32"
      using kinv_thread [OF assms(1), of u] u by (simp add: thread_ok_def prio_ok_def)
    ultimately have "bit (ready_group k) (prio k u)" using g by fastforce
    then show ?thesis using p(4) not_less by blast
  qed
  with p t show ?thesis by (auto simp: get_highest_priority_thread_def)
qed

lemma no_ready:
  assumes "kinv k"
  shows "ready_group k = 0 \<longleftrightarrow> (\<forall>u. tstat k u \<noteq> RT_THREAD_READY)"
proof
  assume z: "ready_group k = 0"
  show "\<forall>u. tstat k u \<noteq> RT_THREAD_READY"
  proof (rule ccontr)
    assume "\<not> ?thesis"
    then obtain u where u: "tstat k u = RT_THREAD_READY" by auto
    then have "lists k (Prio (prio k u)) \<noteq> []"
      using kinv_ready [OF assms, of u "prio k u"] by auto
    moreover have "prio k u < 32"
      using kinv_thread [OF assms, of u] u by (simp add: thread_ok_def prio_ok_def)
    ultimately have "bit (ready_group k) (prio k u)"
      using kinv_lists [OF assms] by (simp add: lists_ok_def)
    with z show False by simp
  qed
next
  assume a: "\<forall>u. tstat k u \<noteq> RT_THREAD_READY"
  show "ready_group k = 0"
  proof (rule ccontr)
    assume "ready_group k \<noteq> 0"
    from highest_ready [OF assms this] obtain t ts p where "lists k (Prio p) = t # ts" by blast
    then show False using kinv_ready [OF assms, of t p] a by simp
  qed
qed

section \<open>Insertion and removal\<close>

lemma sched_remove_simps [simp]:
  "threads (rt_schedule_remove_thread t k) = threads k"
  "current (rt_schedule_remove_thread t k) = current k"
  "cur_prio (rt_schedule_remove_thread t k) = cur_prio k"
  "lock_nest (rt_schedule_remove_thread t k) = lock_nest k"
  "int_nest (rt_schedule_remove_thread t k) = int_nest k"
  "tick (rt_schedule_remove_thread t k) = tick k"
  "timers (rt_schedule_remove_thread t k) = timers k"
  "timer_list (rt_schedule_remove_thread t k) = timer_list k"
  "lists (rt_schedule_remove_thread t k) = (\<lambda>q. removeAll t (lists k q))"
  by (simp_all add: rt_schedule_remove_thread_def Let_def)

lemma sched_insert_simps [simp]:
  "current (rt_schedule_insert_thread t k) = current k"
  "cur_prio (rt_schedule_insert_thread t k) = cur_prio k"
  "lock_nest (rt_schedule_insert_thread t k) = lock_nest k"
  "int_nest (rt_schedule_insert_thread t k) = int_nest k"
  "tick (rt_schedule_insert_thread t k) = tick k"
  "timers (rt_schedule_insert_thread t k) = timers k"
  "timer_list (rt_schedule_insert_thread t k) = timer_list k"
  "u \<noteq> t \<Longrightarrow> threads (rt_schedule_insert_thread t k) u = threads k u"
  by (simp_all add: rt_schedule_insert_thread_def Let_def)

lemma bit_push_1: "bit (push_bit p (1 :: u32)) q \<longleftrightarrow> p = q \<and> q < 32"
  by (auto simp: bit_simps)

text \<open>Removal leaves a consistent table even if the thread is in the middle of a move, provided its
  ready list, if any, is that of its priority.\<close>

lemma kinv_x_sched_remove:
  assumes k: "kinv_x X k" and t: "t \<in> X" "prio_ok k t"
    and p: "\<And>p. t \<in> set (lists k (Prio p)) \<Longrightarrow> p = prio k t"
  shows "kinv_x X (rt_schedule_remove_thread t k)"
proof -
  let ?k = "rt_schedule_remove_thread t k"
  have l: "lists_ok k" using k by (rule kinv_x_lists)
  have b: "bit (ready_group k) q \<longleftrightarrow> q < 32 \<and> lists k (Prio q) \<noteq> []" for q
    using l by (simp add: lists_ok_def)
  have "bit (ready_group ?k) q \<longleftrightarrow> q < 32 \<and> lists ?k (Prio q) \<noteq> []" for q
  proof (cases "q = prio k t")
    case True
    then show ?thesis
      using b [of q] t(2)
      by (auto simp: rt_schedule_remove_thread_def Let_def prio_ok_def bit_simps)
  next
    case False
    then have "t \<notin> set (lists k (Prio q))" using p [of q] by blast
    then have "removeAll t (lists k (Prio q)) = lists k (Prio q)" by simp
    then show ?thesis
      using b [of q] t(2) False
      by (auto simp: rt_schedule_remove_thread_def Let_def prio_ok_def bit_simps)
  qed
  then have "lists_ok ?k" using l by (auto simp: lists_ok_def distinct_removeAll)
  moreover have "thread_ok ?k u" if "u \<notin> X" for u
    by (rule thread_ok_frame [of _ _ k]) (use k t that in \<open>auto simp: kinv_x_def\<close>)
  ultimately show ?thesis by (simp add: kinv_x_def)
qed

lemma not_linked_sched_remove [simp]: "\<not> is_linked (rt_schedule_remove_thread t k) t"
  by (simp add: is_linked_def)

text \<open>Taking a settled thread off its list and marking it as being moved.\<close>

lemma kinv_sched_remove:
  assumes "kinv k" "tstat k t \<noteq> RT_THREAD_INIT"
  shows "kinv_x {t} (rt_schedule_remove_thread t k)"
proof (rule kinv_x_sched_remove)
  show "kinv_x {t} k" by (rule kinv_x_of [OF assms(1)])
  show "prio_ok k t" using kinv_thread [OF assms(1), of t] assms(2) by (simp add: thread_ok_def)
  show "p = prio k t" if "t \<in> set (lists k (Prio p))" for p
    using that kinv_ready [OF assms(1)] by simp
qed simp

text \<open>Insertion settles a thread that is on no list and whose timer is not armed.\<close>

lemma kinv_x_sched_insert:
  assumes k: "kinv_x X k" and X: "t \<in> X" and l: "\<not> is_linked k t" and p: "prio_ok k t"
    and tm: "ThreadTimer t \<notin> set (timer_list k)"
  shows "kinv_x (X - {t}) (rt_schedule_insert_thread t k)"
proof (cases "current k = Some t")
  case True
  have "kinv_x X (upd_thread t (set_stat RT_THREAD_RUNNING) k)"
    by (rule kinv_x_upd_thread [OF k X])
  moreover have "thread_ok (upd_thread t (set_stat RT_THREAD_RUNNING) k) t"
    using l p tm True by (simp add: thread_ok_def is_linked_def tstat_def prio_ok_def)
  ultimately show ?thesis using True X
    by (simp add: rt_schedule_insert_thread_def kinv_x_leave insert_absorb)
next
  case False
  let ?k = "rt_schedule_insert_thread t k"
  have th: "threads ?k = (threads k)(t := set_stat RT_THREAD_READY (threads k t))"
    "lists ?k = (lists k)(Prio (prio k t) := lists k (Prio (prio k t)) @ [t])"
    "ready_group ?k = ready_group k OR number_mask (threads k t)"
    using False by (simp_all add: rt_schedule_insert_thread_def Let_def)
  have lo: "lists_ok k" using k by (rule kinv_x_lists)
  have nl: "t \<notin> set (lists k q)" for q using l by (simp add: is_linked_def)
  have pr: "prio k t < 32" "number_mask (threads k t) = push_bit (prio k t) 1"
    using p by (simp_all add: prio_ok_def)
  have "bit (ready_group ?k) q \<longleftrightarrow> q < 32 \<and> lists ?k (Prio q) \<noteq> []" for q
    using lo pr unfolding th lists_ok_def bit_or_iff pr(2) bit_push_1 by auto
  then have "lists_ok ?k"
    using lo nl pr unfolding lists_ok_def th by (auto split: if_splits)
  moreover have "thread_ok ?k u" if "u \<notin> X" for u
    by (rule thread_ok_frame [of _ _ k]) (use k X that in \<open>auto simp: kinv_x_def th\<close>)
  moreover have "thread_ok ?k t"
    using nl p tm False
    by (auto simp: thread_ok_def list_stat_def tstat_def prio_ok_def th split: if_splits)
  ultimately show ?thesis unfolding kinv_x_def by blast
qed

lemma kinv_sched_insert:
  "kinv_x {t} k \<Longrightarrow> \<not> is_linked k t \<Longrightarrow> prio_ok k t \<Longrightarrow> ThreadTimer t \<notin> set (timer_list k)
    \<Longrightarrow> kinv (rt_schedule_insert_thread t k)"
  using kinv_x_sched_insert [of "{t}" k t] by (simp add: kinv_def)

section \<open>The switch\<close>

text \<open>Whether \<open>rt_schedule\<close> keeps the current thread: it is running and no ready thread has a better
  priority, or an equal one while the current thread has used up its time slice.\<close>

definition keeps_running :: "kernel \<Rightarrow> tid \<Rightarrow> nat \<Rightarrow> bool" where
  "keeps_running k c p \<longleftrightarrow> tstat k c = RT_THREAD_RUNNING
     \<and> (prio k c < p \<or> prio k c = p \<and> stat (threads k c) AND RT_THREAD_STAT_YIELD_MASK = 0)"

text \<open>The state after a switch from \<open>c\<close> to \<open>t\<close>, the first thread of priority \<open>p\<close>.\<close>

definition switched :: "kernel \<Rightarrow> tid \<Rightarrow> tid \<Rightarrow> nat \<Rightarrow> kernel" where
  "switched k c t p =
     (let run = (tstat k c = RT_THREAD_RUNNING);
          k1 = (if run then upd_thread c (\<lambda>x. x\<lparr>stat := stat x AND NOT RT_THREAD_STAT_YIELD_MASK\<rparr>) k
                else k);
          k2 = k1\<lparr>cur_prio := of_nat p, current := Some t\<rparr>;
          k3 = (if run then rt_schedule_insert_thread c k2 else k2) in
      upd_thread t (set_stat RT_THREAD_RUNNING) (rt_schedule_remove_thread t k3))"

lemma set_stat_same: "tstat k t = s \<Longrightarrow> set_stat s (threads k t) = threads k t"
proof -
  assume "tstat k t = s"
  then have e: "s = stat (threads k t) AND 7" by (simp add: tstat_def)
  have "s OR (stat (threads k t) AND NOT 7) = stat (threads k t)"
    unfolding e by (rule bit_eqI) (auto simp only: bit_simps)
  then show ?thesis by (simp add: set_stat_def)
qed

lemma sched_remove_unlinked:
  assumes "kinv k" "\<And>q. t \<notin> set (lists k q)" "prio_ok k t"
  shows "rt_schedule_remove_thread t k = k"
proof -
  have l: "(\<lambda>q. removeAll t (lists k q)) = lists k" using assms(2) by simp
  have r: "ready_group k AND NOT (number_mask (threads k t)) = ready_group k"
    if "lists k (Prio (prio k t)) = []"
    by (rule bit_eqI) (use that assms(3) kinv_lists [OF assms(1)] in
        \<open>auto simp: prio_ok_def lists_ok_def bit_simps\<close>)
  show ?thesis
    using r by (simp add: rt_schedule_remove_thread_def Let_def rt_list_remove_def l)
qed

lemma kinv_current_unlinked:
  assumes "kinv k" "current k = Some c" "tstat k c = RT_THREAD_RUNNING"
  shows "c \<notin> set (lists k q)"
proof
  assume "c \<in> set (lists k q)"
  then have "list_stat k c q" using kinv_thread [OF assms(1), of c] by (simp add: thread_ok_def)
  then show False using assms(3) by (simp add: list_stat_def split: qhead.splits)
qed

lemma rt_schedule_cases:
  assumes k: "kinv k" and c: "current k = Some c"
  shows "rt_schedule k = Some
    (if lock_nest k = 0 \<and> ready_group k \<noteq> 0 then
       (let (t, p) = the (get_highest_priority_thread k) in
        if keeps_running k c p then k else switched k c t p)
     else k)"
proof (cases "lock_nest k = 0 \<and> ready_group k \<noteq> 0")
  case True
  then obtain t ts p where h: "get_highest_priority_thread k = Some (t, p)"
    "lists k (Prio p) = t # ts" "p < 32"
    using highest_ready [OF k] by blast
  have "t \<noteq> c" using kinv_current [OF k c, of t p] h(2) by simp
  have st: "stat (threads k c) AND 7 = tstat k c" by (simp add: tstat_def)
  have same: "upd_thread c (set_stat RT_THREAD_RUNNING) (rt_schedule_remove_thread c k) = k"
    if "tstat k c = RT_THREAD_RUNNING"
  proof -
    have "prio_ok k c" using kinv_thread [OF k, of c] that by (simp add: thread_ok_def)
    then have "rt_schedule_remove_thread c k = k"
      using sched_remove_unlinked [OF k] kinv_current_unlinked [OF k c that] by blast
    then show ?thesis by (simp add: upd_thread_def set_stat_same that)
  qed
  consider (keep) "tstat k c = RT_THREAD_RUNNING" "keeps_running k c p"
    | (give) "tstat k c = RT_THREAD_RUNNING" "\<not> keeps_running k c p"
    | (other) "tstat k c \<noteq> RT_THREAD_RUNNING" "\<not> keeps_running k c p"
    by (auto simp: keeps_running_def)
  then show ?thesis
  proof cases
    case keep
    then show ?thesis
      using True h \<open>t \<noteq> c\<close> same unfolding rt_schedule_def Let_def
      by (auto simp: c st keeps_running_def)
  next
    case give
    then show ?thesis
      using True h \<open>t \<noteq> c\<close> unfolding rt_schedule_def Let_def
      by (auto simp: c st keeps_running_def switched_def Let_def)
  next
    case other
    then show ?thesis
      using True h \<open>t \<noteq> c\<close> unfolding rt_schedule_def Let_def
      by (auto simp: c st keeps_running_def switched_def Let_def)
  qed
next
  case False
  then show ?thesis unfolding rt_schedule_def by (simp only: if_False)
qed

lemma yield_cleared [simp]: "(x AND - 9) AND 8 = (0 :: u8)"
  by (simp add: and.assoc)

lemma switched_spec:
  assumes k: "kinv k" and c: "current k = Some c" and t: "t \<in> set (lists k (Prio p))"
  defines "k' \<equiv> switched k c t p"
  shows "kinv k'" "current k' = Some t" "tstat k' t = RT_THREAD_RUNNING"
    "tick k' = tick k" "timers k' = timers k" "timer_list k' = timer_list k"
    "lock_nest k' = lock_nest k" "int_nest k' = int_nest k"
    "\<And>u. u \<noteq> c \<Longrightarrow> u \<noteq> t \<Longrightarrow> threads k' u = threads k u"
    "threads k' t = set_stat RT_THREAD_RUNNING (threads k t)"
    "tstat k' c = (if tstat k c = RT_THREAD_RUNNING then RT_THREAD_READY else tstat k c)"
    "\<And>q. lists k' q = (if tstat k c = RT_THREAD_RUNNING \<and> q = Prio (prio k c)
        then removeAll t (lists k q) @ [c] else removeAll t (lists k q))"
    "\<And>u. prio k' u = prio k u"
proof -
  have tc: "t \<noteq> c" using kinv_current [OF k c t] .
  have t1: "tstat k t = RT_THREAD_READY" "prio k t = p" using kinv_ready [OF k] t by simp_all
  then have pt: "prio_ok k t" using kinv_thread [OF k, of t] by (simp add: thread_ok_def)
  have ntt: "ThreadTimer t \<notin> set (timer_list k)"
    using kinv_thread [OF k, of t] t1 by (auto simp: thread_ok_def)
  define run where "run = (tstat k c = RT_THREAD_RUNNING)"
  define k1 where "k1 = (if run
    then upd_thread c (\<lambda>x. x\<lparr>stat := stat x AND NOT RT_THREAD_STAT_YIELD_MASK\<rparr>) k else k)"
  define k2 where "k2 = k1\<lparr>cur_prio := of_nat p, current := Some t\<rparr>"
  define k3 where "k3 = (if run then rt_schedule_insert_thread c k2 else k2)"
  define k4 where "k4 = rt_schedule_remove_thread t k3"
  have k': "k' = upd_thread t (set_stat RT_THREAD_RUNNING) k4"
    by (simp add: k'_def switched_def Let_def k4_def k3_def k2_def k1_def run_def)
  have i1: "kinv_x {c, t} k1"
    by (cases run) (simp_all add: k1_def kinv_x_of [OF k] kinv_x_upd_thread)
  have i2: "kinv_x {c, t} k2"
  proof -
    have "lists_ok k2" using i1 by (auto simp: kinv_x_def lists_ok_def k2_def)
    moreover have "thread_ok k2 u" if "u \<notin> {c, t}" for u
      by (rule thread_ok_frame [of _ _ k1])
        (use i1 c that in \<open>auto simp: kinv_x_def k2_def k1_def\<close>)
    ultimately show ?thesis by (simp add: kinv_x_def)
  qed
  have f2: "lists k2 = lists k" "timer_list k2 = timer_list k" "current k2 = Some t"
    "prio k2 = prio k" "tick k2 = tick k" "timers k2 = timers k" "lock_nest k2 = lock_nest k"
    "int_nest k2 = int_nest k" "prio_ok k2 = prio_ok k" "tstat k2 = tstat k"
    "\<And>u. u \<noteq> c \<Longrightarrow> threads k2 u = threads k u"
    by (auto simp: k2_def k1_def prio_ok_def fun_eq_iff tstat_def)
  have f3: "lists k3 = (if run then (lists k)(Prio (prio k c) := lists k (Prio (prio k c)) @ [c])
      else lists k)" "current k3 = Some t" "timer_list k3 = timer_list k" "prio k3 = prio k"
    "tick k3 = tick k" "timers k3 = timers k" "lock_nest k3 = lock_nest k"
    "int_nest k3 = int_nest k" "prio_ok k3 = prio_ok k"
    "\<And>u. u \<noteq> c \<Longrightarrow> threads k3 u = threads k u"
    "tstat k3 c = (if run then RT_THREAD_READY else tstat k c)"
    using f2 tc unfolding k3_def rt_schedule_insert_thread_def Let_def
    by (auto simp: fun_eq_iff prio_ok_def tstat_def)
  have i3: "kinv_x {t} k3"
  proof (cases run)
    case True
    then have r: "tstat k c = RT_THREAD_RUNNING" by (simp add: run_def)
    have "prio_ok k c" "ThreadTimer c \<notin> set (timer_list k)"
      using kinv_thread [OF k, of c] r by (auto simp: thread_ok_def)
    moreover have "\<not> is_linked k2 c"
      using kinv_current_unlinked [OF k c r] by (simp add: is_linked_def f2)
    ultimately have "kinv_x ({c, t} - {c}) k3"
      using kinv_x_sched_insert [OF i2, of c] True by (simp add: f2 k3_def)
    then show ?thesis using tc by (simp add: insert_Diff_if)
  next
    case False
    then have r: "tstat k c \<noteq> RT_THREAD_RUNNING" by (simp add: run_def)
    have "list_stat k2 c = list_stat k c"
      by (auto simp: fun_eq_iff list_stat_def f2 fun_cong [OF f2(4)] split: qhead.splits)
    then have "thread_ok k2 c"
      using kinv_thread [OF k, of c] r tc c unfolding thread_ok_def f2(1-3,9,10) fun_cong [OF f2(4)]
      by auto
    then have "kinv_x ({c, t} - {c}) k2" using i2 by (simp add: kinv_x_leave)
    then show ?thesis using tc False by (simp add: insert_Diff_if k3_def)
  qed
  have i4: "kinv_x {t} k4"
    unfolding k4_def
  proof (rule kinv_x_sched_remove [OF i3])
    show "prio_ok k3 t" using pt f3 by simp
    show "q = prio k3 t" if "t \<in> set (lists k3 (Prio q))" for q
      using that tc kinv_ready [OF k, of t q] fun_cong [OF f3(4)] by (auto simp: f3(1) split: if_splits)
  qed simp
  have f4: "lists k4 = (\<lambda>q. removeAll t (lists k3 q))" "threads k4 = threads k3"
    by (simp_all add: k4_def)
  have "thread_ok k' t"
    using pt ntt by (simp add: k' thread_ok_def f4 tstat_def prio_ok_def f3 k4_def)
      (simp add: f3(10) [OF tc])
  then show "kinv k'"
    using kinv_x_upd_thread [OF i4, of t] unfolding k' by (intro kinv_I) simp_all
  show "current k' = Some t" "tick k' = tick k" "timers k' = timers k"
    "timer_list k' = timer_list k" "lock_nest k' = lock_nest k" "int_nest k' = int_nest k"
    "tstat k' t = RT_THREAD_RUNNING"
    by (simp_all add: k' k4_def f3 tstat_def)
  show "threads k' u = threads k u" if "u \<noteq> c" "u \<noteq> t" for u using that f3 by (simp add: k' f4)
  show "threads k' t = set_stat RT_THREAD_RUNNING (threads k t)" using f3(10) [OF tc] by (simp add: k' f4)
  show "tstat k' c = (if tstat k c = RT_THREAD_RUNNING then RT_THREAD_READY else tstat k c)"
    using f3(11) tc by (simp add: k' f4 tstat_def run_def)
  show "lists k' q = (if tstat k c = RT_THREAD_RUNNING \<and> q = Prio (prio k c)
        then removeAll t (lists k q) @ [c] else removeAll t (lists k q))" for q
    using tc by (simp add: k' f4 f3 run_def)
  show "prio k' u = prio k u" for u using fun_cong [OF f3(4), of u] by (auto simp: k' f4)
qed

text \<open>What a call of \<open>rt_schedule\<close> leaves as it was, whatever it decides: time, everything in a
  thread but its state, who can run and who waits where.\<close>

definition runnable :: "kernel \<Rightarrow> tid \<Rightarrow> bool" where
  "runnable k t \<longleftrightarrow> tstat k t = RT_THREAD_READY \<or> tstat k t = RT_THREAD_RUNNING"

definition same_time :: "kernel \<Rightarrow> kernel \<Rightarrow> bool" where
  "same_time k k' \<longleftrightarrow> tick k' = tick k \<and> timers k' = timers k \<and> timer_list k' = timer_list k
     \<and> lock_nest k' = lock_nest k \<and> int_nest k' = int_nest k"

definition sched_rel :: "kernel \<Rightarrow> kernel \<Rightarrow> bool" where
  "sched_rel k k' \<longleftrightarrow> same_time k k'
     \<and> (\<forall>u. (threads k' u)\<lparr>stat := 0\<rparr> = (threads k u)\<lparr>stat := 0\<rparr>)
     \<and> (\<forall>u. if runnable k u then runnable k' u else threads k' u = threads k u)
     \<and> (\<forall>q. (\<forall>p. q \<noteq> Prio p) \<longrightarrow> lists k' q = lists k q)"

lemma same_time_refl [simp]: "same_time k k"
  by (simp add: same_time_def)

lemma sched_rel_refl [simp]: "sched_rel k k"
  by (simp add: sched_rel_def)

lemma same_but_stat:
  "(x\<lparr>stat := 0\<rparr> = y\<lparr>stat := 0\<rparr>) \<longleftrightarrow> error x = error y \<and> current_priority x = current_priority y
     \<and> init_priority x = init_priority y \<and> number_mask x = number_mask y \<and> event_set x = event_set y
     \<and> event_info x = event_info y \<and> init_tick x = init_tick y \<and> remaining_tick x = remaining_tick y
     \<and> systemobject x = systemobject y \<and> cleanup x = cleanup y"
  for x y :: rt_thread
  by (cases x; cases y) auto

lemma sched_relD:
  assumes "sched_rel k k'"
  shows "tick k' = tick k" "timers k' = timers k" "timer_list k' = timer_list k"
    "lock_nest k' = lock_nest k" "int_nest k' = int_nest k"
    "error (threads k' u) = error (threads k u)" "prio k' u = prio k u"
    "event_set (threads k' u) = event_set (threads k u)"
    "event_info (threads k' u) = event_info (threads k u)"
    "runnable k' u = runnable k u"
    "\<not> runnable k u \<Longrightarrow> threads k' u = threads k u" "\<not> runnable k u \<Longrightarrow> tstat k' u = tstat k u"
    "lists k' (WaitQ a) = lists k (WaitQ a)" "lists k' (SendQ a) = lists k (SendQ a)"
    "lists k' Defunct = lists k Defunct"
proof -
  note r = assms [unfolded sched_rel_def same_but_stat same_time_def]
  show "tick k' = tick k" "timers k' = timers k" "timer_list k' = timer_list k"
    "lock_nest k' = lock_nest k" "int_nest k' = int_nest k"
    "error (threads k' u) = error (threads k u)" "prio k' u = prio k u"
    "event_set (threads k' u) = event_set (threads k u)"
    "event_info (threads k' u) = event_info (threads k u)"
    "lists k' (WaitQ a) = lists k (WaitQ a)" "lists k' (SendQ a) = lists k (SendQ a)"
    "lists k' Defunct = lists k Defunct" using r by simp_all
  have u: "if runnable k u then runnable k' u else threads k' u = threads k u" using r by blast
  then show n: "threads k' u = threads k u" if "\<not> runnable k u" using that by simp
  then show "tstat k' u = tstat k u" if "\<not> runnable k u" using that by (simp add: tstat_def)
  then show "runnable k' u = runnable k u" using u by (auto simp: runnable_def split: if_splits)
qed

lemma sched_rel_trans:
  assumes "sched_rel k k1" "sched_rel k1 k2"
  shows "sched_rel k k2"
  using assms sched_relD(10) [OF assms(1)] unfolding sched_rel_def same_time_def
  by (auto split: if_splits)

lemma switched_sched_rel:
  assumes k: "kinv k" and c: "current k = Some c" and t: "t \<in> set (lists k (Prio p))"
  shows "sched_rel k (switched k c t p)"
proof -
  let ?k = "switched k c t p"
  note sw = switched_spec [OF k c t]
  have tc: "t \<noteq> c" using kinv_current [OF k c t] .
  have pt: "tstat k t = RT_THREAD_READY" using kinv_ready [OF k] t by simp
  have eqc: "(threads ?k c)\<lparr>stat := 0\<rparr> = (threads k c)\<lparr>stat := 0\<rparr>"
    "tstat k c \<noteq> RT_THREAD_RUNNING \<Longrightarrow> threads ?k c = threads k c"
    using tc by (auto simp: switched_def Let_def rt_schedule_insert_thread_def set_stat_def)
  have eqt: "(threads ?k t)\<lparr>stat := 0\<rparr> = (threads k t)\<lparr>stat := 0\<rparr>"
    by (simp add: sw set_stat_def)
  have "(threads ?k u)\<lparr>stat := 0\<rparr> = (threads k u)\<lparr>stat := 0\<rparr>" for u
    using eqc eqt sw(9) [of u] by (cases "u = c"; cases "u = t") auto
  moreover have "if runnable k u then runnable ?k u else threads ?k u = threads k u" for u
  proof (cases "u = c \<or> u = t")
    case True
    then show ?thesis
      using sw(3,11) pt eqc(2) kinv_thread [OF k, of c] c
      by (auto simp: runnable_def thread_ok_def)
  next
    case False
    then show ?thesis using sw(9) [of u] by (simp add: runnable_def tstat_def)
  qed
  moreover have "lists ?k q = lists k q" if "\<forall>p. q \<noteq> Prio p" for q
  proof -
    have "t \<notin> set (lists k q)"
      using that one_list [OF kinv_lists [OF k] t, of q] by metis
    then show ?thesis using that by (simp add: sw(12))
  qed
  ultimately show ?thesis by (simp add: sched_rel_def same_time_def sw)
qed

text \<open>The scheduler's contract: it never fails on a consistent kernel, and unless the scheduler is
  locked it leaves a thread running to which no ready thread is preferred.\<close>

lemma rt_schedule_spec:
  assumes k: "kinv k" and c: "current k = Some c"
  shows "\<exists>k' n. rt_schedule k = Some k' \<and> kinv k' \<and> current k' = Some n \<and> sched_rel k k'
    \<and> (n = c \<longrightarrow> k' = k)
    \<and> (n \<noteq> c \<longrightarrow> (\<exists>ts. lists k (Prio (prio k n)) = n # ts) \<and> k' = switched k c n (prio k n))
    \<and> (lock_nest k = 0 \<longrightarrow> (\<exists>u. runnable k u) \<longrightarrow> tstat k' n = RT_THREAD_RUNNING
        \<and> (\<forall>u. runnable k' u \<longrightarrow> prio k' n \<le> prio k' u))"
proof (cases "lock_nest k = 0 \<and> ready_group k \<noteq> 0")
  case True
  then obtain t ts p where h: "get_highest_priority_thread k = Some (t, p)"
    "lists k (Prio p) = t # ts" "p < 32" "\<forall>u. tstat k u = RT_THREAD_READY \<longrightarrow> p \<le> prio k u"
    using highest_ready [OF k] by blast
  have t: "t \<in> set (lists k (Prio p))" using h(2) by simp
  have pt: "tstat k t = RT_THREAD_READY" "prio k t = p" using kinv_ready [OF k] t by simp_all
  have eq: "rt_schedule k = Some (if keeps_running k c p then k else switched k c t p)"
    using rt_schedule_cases [OF k c] True h(1) by simp
  have only: "tstat k u = RT_THREAD_RUNNING \<Longrightarrow> u = c" for u
    using kinv_thread [OF k, of u] c by (simp add: thread_ok_def)
  show ?thesis
  proof (cases "keeps_running k c p")
    case stay: True
    then have r: "tstat k c = RT_THREAD_RUNNING" "prio k c \<le> p" by (auto simp: keeps_running_def)
    have "prio k c \<le> prio k u" if u: "runnable k u" for u
    proof (cases "u = c")
      case False
      then have "tstat k u = RT_THREAD_READY" using u only [of u] by (auto simp: runnable_def)
      then have "p \<le> prio k u" using h(4) by blast
      with r(2) show ?thesis by (rule order.trans)
    qed simp
    with stay eq k c r show ?thesis by (intro exI [of _ k] exI [of _ c]) simp
  next
    case False
    let ?k = "switched k c t p"
    note sw = switched_spec [OF k c t] and rel = switched_sched_rel [OF k c t]
    have tc: "t \<noteq> c" using kinv_current [OF k c t] .
    have "p \<le> prio k u" if "runnable ?k u" for u
    proof -
      have "runnable k u" using that sched_relD(10) [OF rel] by simp
      then show ?thesis
      proof (unfold runnable_def, elim disjE)
        assume r: "tstat k u = RT_THREAD_RUNNING"
        then show ?thesis using False only [OF r] by (simp add: keeps_running_def)
      qed (use h(4) in blast)
    qed
    then show ?thesis
      using eq False sw rel pt tc h(2) by (intro exI [of _ ?k] exI [of _ t]) (simp add: sw(13))
  qed
next
  case False
  then have "rt_schedule k = Some k" using rt_schedule_cases [OF k c] by (simp only: if_False)
  moreover have "tstat k c = RT_THREAD_RUNNING \<and> prio k c \<le> prio k u"
    if "lock_nest k = 0" "runnable k v" "runnable k u" for u v
  proof -
    have "\<forall>u. tstat k u \<noteq> RT_THREAD_READY" using False that(1) no_ready [OF k] by blast
    then have "tstat k v = RT_THREAD_RUNNING" "tstat k u = RT_THREAD_RUNNING"
      using that by (auto simp: runnable_def)
    then show ?thesis
      using kinv_thread [OF k, of u] kinv_thread [OF k, of v] c by (auto simp: thread_ok_def)
  qed
  ultimately show ?thesis using k c by (intro exI [of _ k] exI [of _ c]) auto
qed

lemma rt_exit_critical_spec:
  assumes k: "kinv k" and c: "current k = Some c"
  shows "\<exists>k' n. rt_exit_critical k = Some k' \<and> kinv k' \<and> current k' = Some n"
proof -
  have k1: "kinv (k\<lparr>lock_nest := x\<rparr>)" for x
    using kinv_cong [of "k\<lparr>lock_nest := x\<rparr>" k] k by simp
  show ?thesis
    using k1 c rt_schedule_spec [OF k1, of 0 c] by (auto simp: rt_exit_critical_def Let_def)
qed

end
