(* ===== verification/Ordered_Queue.thy ===== *)
theory Ordered_Queue
  imports Prelude
begin

text \<open>
  The contract of an ordered waiting list: a new element goes behind every element whose key is at
  most its own, so the list stays sorted and elements with equal keys stay in arrival order. The
  timer list of \<open>timer.c\<close> (key: remaining ticks) and the suspended threads of an IPC object in
  \<open>RT_IPC_FLAG_PRIO\<close> mode (key: priority) interpret it.
\<close>

locale ordered_queue =
  fixes key :: "'a \<Rightarrow> nat"
    and ok :: "'a \<Rightarrow> 'a list \<Rightarrow> bool"
    and ins :: "'a \<Rightarrow> 'a list \<Rightarrow> 'a list"
  assumes ins_Nil: "ok x [] \<Longrightarrow> ins x [] = [x]"
    and ins_later: "ok x (y # ys) \<Longrightarrow> key y \<le> key x \<Longrightarrow> ins x (y # ys) = y # ins x ys"
    and ins_here: "ok x (y # ys) \<Longrightarrow> key x < key y \<Longrightarrow> ins x (y # ys) = x # y # ys"
    and ok_tl: "ok x (y # ys) \<Longrightarrow> ok x ys"
begin

lemma ins_split:
  "ok x xs \<Longrightarrow> ins x xs =
     takeWhile (\<lambda>y. key y \<le> key x) xs @ x # dropWhile (\<lambda>y. key y \<le> key x) xs"
proof (induction xs)
  case Nil
  then show ?case by (simp add: ins_Nil)
next
  case (Cons y ys)
  then show ?case
    by (cases "key y \<le> key x") (simp_all add: ins_later ins_here ok_tl)
qed

lemma set_ins: "ok x xs \<Longrightarrow> set (ins x xs) = insert x (set xs)"
  unfolding ins_split
  by (subst (3) takeWhile_dropWhile_id [of "\<lambda>y. key y \<le> key x", symmetric])
    (simp del: takeWhile_dropWhile_id)

lemma distinct_ins:
  assumes "ok x xs" "distinct xs" "x \<notin> set xs"
  shows "distinct (ins x xs)"
proof -
  have "distinct (takeWhile (\<lambda>y. key y \<le> key x) xs @ dropWhile (\<lambda>y. key y \<le> key x) xs)"
    using assms by simp
  moreover have "x \<notin> set (takeWhile (\<lambda>y. key y \<le> key x) xs @ dropWhile (\<lambda>y. key y \<le> key x) xs)"
    using assms by (simp del: set_append)
  ultimately show ?thesis using assms by (simp only: ins_split distinct_append set_append) auto
qed

lemma dropWhile_later:
  "sorted (map key xs) \<Longrightarrow> y \<in> set (dropWhile (\<lambda>y. key y \<le> key x) xs) \<Longrightarrow> key x < key y"
  by (induction xs) (auto split: if_splits)

lemma sorted_ins:
  assumes "ok x xs" "sorted (map key xs)"
  shows "sorted (map key (ins x xs))"
proof -
  let ?t = "takeWhile (\<lambda>y. key y \<le> key x) xs" and ?d = "dropWhile (\<lambda>y. key y \<le> key x) xs"
  have s: "sorted (map key ?t @ map key ?d)" using assms(2) by (simp flip: map_append)
  have t: "\<forall>y\<in>set ?t. key y \<le> key x" by (auto dest: set_takeWhileD)
  have d: "\<forall>y\<in>set ?d. key x \<le> key y"
    using dropWhile_later [OF assms(2)] by (auto intro: less_imp_le)
  have st: "sorted (map key ?t)" "sorted (map key ?d)"
    using s by (simp_all only: sorted_append)
  have sd: "sorted (map key (x # ?d))" using st(2) d by simp
  have td: "\<forall>a\<in>set (map key ?t). \<forall>b\<in>set (map key (x # ?d)). a \<le> b"
    using t d by (auto intro: order.trans)
  from st(1) sd td show ?thesis
    unfolding ins_split [OF assms(1)] map_append sorted_append by blast
qed

text \<open>Elements with equal keys keep their arrival order.\<close>

lemma filter_ins:
  assumes "ok x xs" "sorted (map key xs)"
  shows "filter (\<lambda>y. key y = n) (ins x xs) =
    filter (\<lambda>y. key y = n) xs @ (if key x = n then [x] else [])"
proof -
  let ?t = "takeWhile (\<lambda>y. key y \<le> key x) xs" and ?d = "dropWhile (\<lambda>y. key y \<le> key x) xs"
  have "\<forall>y\<in>set ?d. key x < key y"
    using dropWhile_later [OF assms(2)] by blast
  then have "key x = n \<Longrightarrow> filter (\<lambda>y. key y = n) ?d = []" by (auto simp: filter_empty_conv)
  moreover have "filter (\<lambda>y. key y = n) xs
      = filter (\<lambda>y. key y = n) ?t @ filter (\<lambda>y. key y = n) ?d"
    by (metis filter_append takeWhile_dropWhile_id)
  ultimately show ?thesis by (simp add: ins_split [OF assms(1)])
qed

end

end
