(* ===== verification/Timer.thy ===== *)
theory Timer
  imports KState Ordered_Queue
begin

text \<open>
  \<open>timer.c\<close> with \<open>RT_TIMER_SKIP_LIST_LEVEL = 1\<close> and no soft timers: the one list of armed
  timers, ordered by the ticks left until the timeout, compared modulo the wrap of the tick counter.
  \<open>rt_timer_check\<close>, which runs the callbacks, is in theory \<open>Clock\<close>.
\<close>

unbundle bit_operations_syntax

section \<open>Operations\<close>

definition rt_timer_init :: "tmid \<Rightarrow> u32 \<Rightarrow> u8 \<Rightarrow> kernel \<Rightarrow> kernel" where
  "rt_timer_init tm time flag =
     upd_timer tm (\<lambda>_. \<lparr>tm_flag = flag AND NOT RT_TIMER_FLAG_ACTIVATED, tm_init_tick = time,
                        tm_timeout_tick = 0\<rparr>)"

definition rt_timer_list_next_timeout :: "kernel \<Rightarrow> u32" where
  "rt_timer_list_next_timeout k =
     (case timer_list k of [] \<Rightarrow> RT_TICK_MAX | tm # _ \<Rightarrow> tm_timeout_tick (timers k tm))"

definition rt_timer_next_timeout_tick :: "kernel \<Rightarrow> u32" where
  "rt_timer_next_timeout_tick k = rt_timer_list_next_timeout k"

definition rt_timer_remove :: "tmid \<Rightarrow> kernel \<Rightarrow> kernel" where
  "rt_timer_remove tm k = k\<lparr>timer_list := removeAll tm (timer_list k)\<rparr>"

definition clear_activated :: "rt_timer \<Rightarrow> rt_timer" where
  "clear_activated x = x\<lparr>tm_flag := tm_flag x AND NOT RT_TIMER_FLAG_ACTIVATED\<rparr>"

definition set_activated :: "rt_timer \<Rightarrow> rt_timer" where
  "set_activated x = x\<lparr>tm_flag := tm_flag x OR RT_TIMER_FLAG_ACTIVATED\<rparr>"

definition rt_timer_detach :: "tmid \<Rightarrow> kernel \<Rightarrow> int \<times> kernel" where
  "rt_timer_detach tm k = (RT_EOK, rt_timer_remove tm k)"

definition rt_timer_delete :: "tmid \<Rightarrow> kernel \<Rightarrow> int \<times> kernel" where
  "rt_timer_delete tm k = (RT_EOK, rt_timer_remove tm k)"

text \<open>The scan of \<open>rt_timer_start\<close>: over equal timeouts, stopping at the first later one.\<close>

fun timer_insert :: "(tmid \<Rightarrow> u32) \<Rightarrow> tmid \<Rightarrow> tmid list \<Rightarrow> tmid list" where
  "timer_insert T tm [] = [tm]"
| "timer_insert T tm (t # ts) =
     (if T t - T tm = 0 then t # timer_insert T tm ts
      else if T t - T tm < RT_TICK_MAX div 2 then tm # t # ts
      else t # timer_insert T tm ts)"

definition rt_timer_start :: "tmid \<Rightarrow> kernel \<Rightarrow> (int \<times> kernel) option" where
  "rt_timer_start tm k =
     (let k1 = upd_timer tm clear_activated (rt_timer_remove tm k) in
      if tm_init_tick (timers k1 tm) < RT_TICK_MAX div 2
      then
        (let k2 = upd_timer tm (\<lambda>x. x\<lparr>tm_timeout_tick := tick k1 + tm_init_tick x\<rparr>) k1;
             k3 = k2\<lparr>timer_list :=
               timer_insert (\<lambda>t. tm_timeout_tick (timers k2 t)) tm (timer_list k2)\<rparr> in
         Some (RT_EOK, upd_timer tm set_activated k3))
      else None)"

definition rt_timer_stop :: "tmid \<Rightarrow> kernel \<Rightarrow> int \<times> kernel" where
  "rt_timer_stop tm k =
     (if tm_flag (timers k tm) AND RT_TIMER_FLAG_ACTIVATED = 0 then (- RT_ERROR, k)
      else (RT_EOK, upd_timer tm clear_activated (rt_timer_remove tm k)))"

datatype timer_cmd = RT_TIMER_CTRL_SET_TIME | RT_TIMER_CTRL_GET_TIME | RT_TIMER_CTRL_SET_ONESHOT
  | RT_TIMER_CTRL_SET_PERIODIC | RT_TIMER_CTRL_OTHER

text \<open>The tick \<open>*arg\<close> is passed in and handed back.\<close>

fun rt_timer_control :: "tmid \<Rightarrow> timer_cmd \<Rightarrow> u32 \<Rightarrow> kernel \<Rightarrow> int \<times> u32 \<times> kernel" where
  "rt_timer_control tm RT_TIMER_CTRL_GET_TIME arg k = (RT_EOK, tm_init_tick (timers k tm), k)"
| "rt_timer_control tm RT_TIMER_CTRL_SET_TIME arg k =
     (RT_EOK, arg, upd_timer tm (\<lambda>x. x\<lparr>tm_init_tick := arg\<rparr>) k)"
| "rt_timer_control tm RT_TIMER_CTRL_SET_ONESHOT arg k =
     (RT_EOK, arg, upd_timer tm (\<lambda>x. x\<lparr>tm_flag := tm_flag x AND NOT RT_TIMER_FLAG_PERIODIC\<rparr>) k)"
| "rt_timer_control tm RT_TIMER_CTRL_SET_PERIODIC arg k =
     (RT_EOK, arg, upd_timer tm (\<lambda>x. x\<lparr>tm_flag := tm_flag x OR RT_TIMER_FLAG_PERIODIC\<rparr>) k)"
| "rt_timer_control tm RT_TIMER_CTRL_OTHER arg k = (RT_EOK, arg, k)"

definition rt_system_timer_init :: "kernel \<Rightarrow> kernel" where
  "rt_system_timer_init k = k\<lparr>timer_list := []\<rparr>"

section \<open>What the operations leave alone\<close>

lemma timer_remove_simps [simp]:
  "threads (rt_timer_remove tm k) = threads k" "lists (rt_timer_remove tm k) = lists k"
  "ready_group (rt_timer_remove tm k) = ready_group k" "current (rt_timer_remove tm k) = current k"
  "cur_prio (rt_timer_remove tm k) = cur_prio k" "lock_nest (rt_timer_remove tm k) = lock_nest k"
  "int_nest (rt_timer_remove tm k) = int_nest k" "tick (rt_timer_remove tm k) = tick k"
  "timers (rt_timer_remove tm k) = timers k"
  "timer_list (rt_timer_remove tm k) = removeAll tm (timer_list k)"
  by (simp_all add: rt_timer_remove_def)

lemma timer_stop_simps [simp]:
  "threads (snd (rt_timer_stop tm k)) = threads k" "lists (snd (rt_timer_stop tm k)) = lists k"
  "ready_group (snd (rt_timer_stop tm k)) = ready_group k"
  "current (snd (rt_timer_stop tm k)) = current k"
  "cur_prio (snd (rt_timer_stop tm k)) = cur_prio k"
  "lock_nest (snd (rt_timer_stop tm k)) = lock_nest k"
  "int_nest (snd (rt_timer_stop tm k)) = int_nest k" "tick (snd (rt_timer_stop tm k)) = tick k"
  by (simp_all add: rt_timer_stop_def)

lemma timer_flag_cleared [simp]: "tm_flag (clear_activated x) AND 1 = 0"
  by (simp add: clear_activated_def and.assoc)

lemma timer_stop_list:
  "lists_ok k \<Longrightarrow> timer_list (snd (rt_timer_stop tm k)) = removeAll tm (timer_list k)"
  by (auto simp: rt_timer_stop_def lists_ok_def)

lemma lists_ok_timer_remove:
  assumes "lists_ok k" "tm \<notin> set xs" "set xs \<subseteq> set (timer_list k)" "distinct xs"
  shows "lists_ok (k\<lparr>timer_list := xs, timers := (timers k)(tm := y)\<rparr>)"
  using assms by (auto simp: lists_ok_def)

lemma thread_ok_timers:
  assumes "threads k' = threads k" "lists k' = lists k" "current k' = current k"
    and "ThreadTimer u \<in> set (timer_list k') \<Longrightarrow>
      ThreadTimer u \<in> set (timer_list k) \<or> tstat k u = RT_THREAD_SUSPEND"
    and "thread_ok k u"
  shows "thread_ok k' u"
proof -
  have t: "tstat k' = tstat k" "list_stat k' u = list_stat k u"
    using assms(1) by (auto simp: fun_eq_iff tstat_def list_stat_def split: qhead.splits)
  show ?thesis
    using assms(4,5) unfolding thread_ok_def prio_ok_def assms(1,2,3) t by blast
qed

lemma kinv_x_timer_stop:
  assumes "kinv_x X k"
  shows "kinv_x X (snd (rt_timer_stop tm k))"
proof -
  have l: "lists_ok k" using assms by (simp add: kinv_x_def)
  have "lists_ok (snd (rt_timer_stop tm k))"
    using l by (auto simp: rt_timer_stop_def lists_ok_def distinct_removeAll)
  moreover have "thread_ok (snd (rt_timer_stop tm k)) u" if "u \<notin> X" for u
  proof -
    have "thread_ok k u" using assms that by (simp add: kinv_x_def)
    then show ?thesis
      by (rule thread_ok_timers [rotated -1]) (auto simp: timer_stop_list [OF l])
  qed
  ultimately show ?thesis by (simp add: kinv_x_def)
qed

lemma kinv_x_timer_remove:
  assumes "kinv_x X k"
  shows "kinv_x X (rt_timer_remove tm k)"
proof -
  have "lists_ok (rt_timer_remove tm k)"
    using assms by (auto simp: kinv_x_def lists_ok_def distinct_removeAll)
  moreover have "thread_ok (rt_timer_remove tm k) u" if "u \<notin> X" for u
    by (rule thread_ok_timers [of _ k]) (use assms that in \<open>auto simp: kinv_x_def\<close>)
  ultimately show ?thesis by (simp add: kinv_x_def)
qed

section \<open>The order of the timer list\<close>

text \<open>The ticks left, modulo the wrap of the counter. Armed timers are at most
  \<open>RT_TICK_MAX / 2\<close> ahead of the counter.\<close>

definition timer_rem :: "kernel \<Rightarrow> tmid \<Rightarrow> nat" where
  "timer_rem k tm = unat (tm_timeout_tick (timers k tm) - tick k)"

definition timers_sorted :: "kernel \<Rightarrow> bool" where
  "timers_sorted k \<longleftrightarrow> sorted (map (timer_rem k) (timer_list k))
     \<and> (\<forall>tm \<in> set (timer_list k). timer_rem k tm < 0x7fffffff)"

text \<open>Within that window the code's comparison of timeouts is the comparison of remaining ticks.\<close>

lemma rem_compare:
  fixes a b now :: u32
  assumes "unat (a - now) < 0x7fffffff" "unat (b - now) < 0x7fffffff"
  shows "a - b = 0 \<longleftrightarrow> unat (a - now) = unat (b - now)"
    and "a - b \<noteq> 0 \<Longrightarrow> a - b < 0x7fffffff \<longleftrightarrow> unat (b - now) < unat (a - now)"
proof -
  define p q where "p = a - now" and "q = b - now"
  have e: "a - b = p - q" by (simp add: p_def q_def)
  have l: "unat p < 0x7fffffff" "unat q < 0x7fffffff" using assms by (simp_all add: p_def q_def)
  show "a - b = 0 \<longleftrightarrow> unat (a - now) = unat (b - now)"
    by (simp add: word_eq_unat [symmetric])
  show "a - b < 0x7fffffff \<longleftrightarrow> unat (b - now) < unat (a - now)" if "a - b \<noteq> 0"
    using that l unfolding e p_def [symmetric] q_def [symmetric]
    by (auto simp: word_less_nat_alt unat_sub_if_size word_size word_eq_unat)
qed

interpretation timer_queue: ordered_queue "\<lambda>tm. unat (T tm - now)"
    "\<lambda>tm ts. \<forall>t \<in> insert tm (set ts). unat (T t - now) < 0x7fffffff" "timer_insert T"
  for T :: "tmid \<Rightarrow> u32" and now :: u32
proof
  fix x y and ys :: "tmid list"
  assume ok: "\<forall>t\<in>insert x (set (y # ys)). unat (T t - now) < 0x7fffffff"
  then have b: "unat (T y - now) < 0x7fffffff" "unat (T x - now) < 0x7fffffff" by auto
  note c = rem_compare [OF b]
  show "timer_insert T x (y # ys) = y # timer_insert T x ys" if "unat (T y - now) \<le> unat (T x - now)"
    using that c by (auto simp del: right_minus_eq)
  show "timer_insert T x (y # ys) = x # y # ys" if "unat (T x - now) < unat (T y - now)"
    using that c by (auto simp del: right_minus_eq)
qed auto

lemma set_timer_insert [simp]: "set (timer_insert T tm ts) = insert tm (set ts)"
  by (induction ts) auto

lemma distinct_timer_insert: "distinct ts \<Longrightarrow> tm \<notin> set ts \<Longrightarrow> distinct (timer_insert T tm ts)"
  by (induction ts) auto

lemma timer_flag_set [simp]: "tm_flag (set_activated x) AND 1 \<noteq> 0"
proof -
  have "bit (tm_flag (set_activated x) AND 1) 0" by (simp add: set_activated_def bit_simps)
  then show ?thesis by fastforce
qed

text \<open>The timer after \<open>rt_timer_start\<close>, and the whole of its effect.\<close>

definition timer_started :: "kernel \<Rightarrow> tmid \<Rightarrow> kernel" where
  "timer_started k tm =
     (let x = set_activated ((clear_activated (timers k tm))
            \<lparr>tm_timeout_tick := tick k + tm_init_tick (timers k tm)\<rparr>) in
      k\<lparr>timers := (timers k)(tm := x),
        timer_list := timer_insert (\<lambda>t. tm_timeout_tick (((timers k)(tm := x)) t)) tm
          (removeAll tm (timer_list k))\<rparr>)"

lemma timer_insert_cong:
  "(\<And>t. t \<in> insert tm (set ts) \<Longrightarrow> T t = T' t) \<Longrightarrow> timer_insert T tm ts = timer_insert T' tm ts"
  by (induction ts) auto

lemma rt_timer_start_eq:
  "rt_timer_start tm k =
     (if tm_init_tick (timers k tm) < 0x7fffffff then Some (0, timer_started k tm) else None)"
proof -
  have i: "tm_init_tick (clear_activated x) = tm_init_tick x" for x
    by (simp add: clear_activated_def)
  have t: "tm_timeout_tick (set_activated y) = tm_timeout_tick y" for y
    by (simp add: set_activated_def)
  have d: "(0xffffffff :: u32) div 2 = 0x7fffffff" by simp
  let ?x = "(clear_activated (timers k tm))\<lparr>tm_timeout_tick := tick k + tm_init_tick (timers k tm)\<rparr>"
  have c: "timer_insert (\<lambda>t. tm_timeout_tick (((timers k)(tm := ?x)) t)) tm ts
      = timer_insert (\<lambda>t. tm_timeout_tick (((timers k)(tm := set_activated ?x)) t)) tm ts" for ts
    by (rule timer_insert_cong) (simp add: t)
  show ?thesis
    unfolding rt_timer_start_def timer_started_def Let_def d
    by (simp add: i c [unfolded fun_upd_apply] upd_timer_def rt_timer_remove_def)
qed

lemma timer_started_simps [simp]:
  "threads (timer_started k tm) = threads k" "lists (timer_started k tm) = lists k"
  "ready_group (timer_started k tm) = ready_group k" "current (timer_started k tm) = current k"
  "cur_prio (timer_started k tm) = cur_prio k" "lock_nest (timer_started k tm) = lock_nest k"
  "int_nest (timer_started k tm) = int_nest k" "tick (timer_started k tm) = tick k"
  "set (timer_list (timer_started k tm)) = insert tm (set (timer_list k))"
  "tm_timeout_tick (timers (timer_started k tm) tm) = tick k + tm_init_tick (timers k tm)"
  "u \<noteq> tm \<Longrightarrow> timers (timer_started k tm) u = timers k u"
  by (auto simp: timer_started_def Let_def set_activated_def)

lemma kinv_x_timer_started:
  assumes "kinv_x X k" "\<And>t. tm = ThreadTimer t \<Longrightarrow> t \<in> X \<or> tstat k t = RT_THREAD_SUSPEND"
  shows "kinv_x X (timer_started k tm)"
proof -
  have "distinct (timer_list (timer_started k tm))"
    using assms(1) unfolding timer_started_def Let_def
    by (simp add: distinct_timer_insert distinct_removeAll kinv_x_def lists_ok_def)
  moreover have "tm_flag (timers (timer_started k tm) u) AND 1 \<noteq> 0"
    if "u \<in> insert tm (set (timer_list k))" for u
    using assms(1) that by (cases "u = tm") (auto simp: kinv_x_def lists_ok_def timer_started_def Let_def)
  ultimately have "lists_ok (timer_started k tm)"
    using assms(1) by (auto simp: kinv_x_def lists_ok_def)
  moreover have "thread_ok (timer_started k tm) u" if "u \<notin> X" for u
    by (rule thread_ok_timers [of _ k]) (use assms that in \<open>auto simp: kinv_x_def\<close>)
  ultimately show ?thesis by (simp add: kinv_x_def)
qed

lemma timer_started_sorted:
  assumes s: "timers_sorted k" and i: "unat (tm_init_tick (timers k tm)) < 0x7fffffff"
  defines "n \<equiv> unat (tm_init_tick (timers k tm))"
  shows "timers_sorted (timer_started k tm)
    \<and> timer_list (timer_started k tm) =
        takeWhile (\<lambda>t. timer_rem k t \<le> n) (removeAll tm (timer_list k)) @
        tm # dropWhile (\<lambda>t. timer_rem k t \<le> n) (removeAll tm (timer_list k))
    \<and> timer_rem (timer_started k tm) tm = n"
proof -
  let ?k = "timer_started k tm" and ?xs = "removeAll tm (timer_list k)"
  have r: "timer_rem ?k tm = n" by (simp add: timer_rem_def n_def)
  have ru: "timer_rem ?k u = timer_rem k u" if "u \<noteq> tm" for u
    using that by (simp add: timer_rem_def)
  have w: "\<forall>t\<in>insert tm (set ?xs). timer_rem ?k t < 0x7fffffff"
  proof
    fix t
    assume "t \<in> insert tm (set ?xs)"
    then show "timer_rem ?k t < 0x7fffffff"
      using s i r ru [of t] by (cases "t = tm") (auto simp: timers_sorted_def n_def)
  qed
  have "?k = k\<lparr>timers := timers ?k, timer_list := timer_list ?k\<rparr>"
    by (simp add: timer_started_def Let_def)
  have l: "timer_list ?k = timer_insert (\<lambda>t. tm_timeout_tick (timers ?k t)) tm ?xs"
    by (simp add: timer_started_def Let_def)
  have so: "sorted (map (timer_rem ?k) ?xs)"
  proof -
    have "map (timer_rem ?k) ?xs = map (timer_rem k) ?xs" using ru by auto
    moreover have "sorted (map (timer_rem k) (timer_list k))" using s by (simp add: timers_sorted_def)
    then have "sorted (map (timer_rem k) ?xs)" by (simp add: sorted_filter removeAll_filter_not_eq)
    ultimately show ?thesis by (simp only:)
  qed
  have key: "(\<lambda>t. unat (tm_timeout_tick (timers ?k t) - tick ?k)) = timer_rem ?k"
    by (simp add: fun_eq_iff timer_rem_def del: timer_started_simps)
  note q = timer_queue.ins_split timer_queue.sorted_ins
  have sp: "timer_list ?k = takeWhile (\<lambda>t. timer_rem ?k t \<le> timer_rem ?k tm) ?xs
      @ tm # dropWhile (\<lambda>t. timer_rem ?k t \<le> timer_rem ?k tm) ?xs"
    unfolding l using w
    by (intro q(1) [where now = "tick ?k" and T = "\<lambda>t. tm_timeout_tick (timers ?k t)",
          folded timer_rem_def]) auto
  have "sorted (map (timer_rem ?k) (timer_list ?k))"
    unfolding l using w so
    by (intro q(2) [where now = "tick ?k" and T = "\<lambda>t. tm_timeout_tick (timers ?k t)",
          folded timer_rem_def, unfolded key]) auto
  moreover have "takeWhile (\<lambda>t. timer_rem ?k t \<le> n) ?xs = takeWhile (\<lambda>t. timer_rem k t \<le> n) ?xs"
    "dropWhile (\<lambda>t. timer_rem ?k t \<le> n) ?xs = dropWhile (\<lambda>t. timer_rem k t \<le> n) ?xs"
    using ru by (auto intro!: takeWhile_cong dropWhile_cong)
  moreover have "\<forall>t\<in>set (timer_list ?k). timer_rem ?k t < 0x7fffffff" using w r by auto
  ultimately show ?thesis
    using sp r unfolding timers_sorted_def by (simp only:)
qed

end
