(* ===== verification/Thread.thy ===== *)
theory Thread
  imports Scheduler Timer
begin

text \<open>
  \<open>thread.c\<close>: the life cycle of a thread from initialisation to the defunct list, and suspension,
  resumption and sleeping. A thread is named by its identifier and initialised by \<open>rt_thread_init\<close>; its object and stack
  are the subject of \<open>Idle\<close>; an \<open>RT_ASSERT\<close> that fails is \<open>None\<close>.
  An operation that blocks is split where the processor is given up: the part up to and including
  \<open>rt_schedule\<close>, and the part the thread runs when it is scheduled again.
\<close>

unbundle bit_operations_syntax

section \<open>Operations\<close>

definition rt_thread_self :: "kernel \<Rightarrow> tid option" where
  "rt_thread_self k = current k"

definition rt_thread_init :: "tid \<Rightarrow> bool \<Rightarrow> u8 \<Rightarrow> u32 \<Rightarrow> kernel \<Rightarrow> (int \<times> kernel) option" where
  "rt_thread_init t static priority ticks k =
     (if unat priority < RT_THREAD_PRIORITY_MAX
      then Some (RT_EOK,
        rt_timer_init (ThreadTimer t) 0 0
          (upd_thread t (\<lambda>_. \<lparr>error = RT_EOK, stat = RT_THREAD_INIT, current_priority = priority,
             init_priority = priority, number_mask = 0, event_set = 0, event_info = 0,
             init_tick = ticks, remaining_tick = ticks, systemobject = static, cleanup = False\<rparr>) k))
      else None)"

definition rt_thread_suspend :: "tid \<Rightarrow> kernel \<Rightarrow> (int \<times> kernel) option" where
  "rt_thread_suspend t k =
     (let st = tstat k t in
      if st \<noteq> RT_THREAD_READY \<and> st \<noteq> RT_THREAD_RUNNING then Some (- RT_ERROR, k)
      else if st = RT_THREAD_RUNNING \<and> current k \<noteq> Some t then None
      else
        (let k1 = rt_schedule_remove_thread t k;
             k2 = upd_thread t (set_stat RT_THREAD_SUSPEND) k1 in
         Some (RT_EOK, snd (rt_timer_stop (ThreadTimer t) k2))))"

definition rt_thread_resume :: "tid \<Rightarrow> kernel \<Rightarrow> int \<times> kernel" where
  "rt_thread_resume t k =
     (if tstat k t \<noteq> RT_THREAD_SUSPEND then (- RT_ERROR, k)
      else
        (let k1 = rt_list_remove t k;
             k2 = snd (rt_timer_stop (ThreadTimer t) k1) in
         (RT_EOK, rt_schedule_insert_thread t k2)))"

definition rt_thread_startup :: "tid \<Rightarrow> kernel \<Rightarrow> (int \<times> kernel) option" where
  "rt_thread_startup t k =
     (if tstat k t = RT_THREAD_INIT
      then
        (let k1 = upd_thread t (\<lambda>x. x\<lparr>current_priority := init_priority x,
                number_mask := push_bit (unat (init_priority x)) 1, stat := RT_THREAD_SUSPEND\<rparr>) k;
             k2 = snd (rt_thread_resume t k1) in
         if rt_thread_self k2 \<noteq> None then map_option (Pair RT_EOK) (rt_schedule k2)
         else Some (RT_EOK, k2))
      else None)"

definition rt_thread_timeout :: "tid \<Rightarrow> kernel \<Rightarrow> kernel option" where
  "rt_thread_timeout t k =
     (if tstat k t = RT_THREAD_SUSPEND
      then
        (let k1 = upd_thread t (\<lambda>x. x\<lparr>error := - RT_ETIMEOUT\<rparr>) k;
             k2 = rt_list_remove t k1 in
         rt_schedule (rt_schedule_insert_thread t k2))
      else None)"

text \<open>The object of a static thread without cleanup is only detached; any other thread waits on the
  defunct list for the idle thread to free it.\<close>

definition defunct_or_detach :: "tid \<Rightarrow> kernel \<Rightarrow> kernel" where
  "defunct_or_detach t k =
     (if systemobject (threads k t) \<and> \<not> cleanup (threads k t) then k
      else rt_list_insert_after Defunct t k)"

definition rt_thread_exit :: "kernel \<Rightarrow> kernel option" where
  "rt_thread_exit k = do {
     t \<leftarrow> rt_thread_self k;
     let k1 = rt_schedule_remove_thread t k;
     let k2 = upd_thread t (\<lambda>x. x\<lparr>stat := RT_THREAD_CLOSE\<rparr>) k1;
     let k3 = snd (rt_timer_detach (ThreadTimer t) k2);
     rt_schedule (defunct_or_detach t k3)
   }"

definition rt_thread_detach :: "tid \<Rightarrow> kernel \<Rightarrow> (int \<times> kernel) option" where
  "rt_thread_detach t k =
     (if systemobject (threads k t)
      then
        (let k1 = (if tstat k t \<noteq> RT_THREAD_INIT then rt_schedule_remove_thread t k else k);
             k2 = snd (rt_timer_detach (ThreadTimer t) k1);
             k3 = upd_thread t (\<lambda>x. x\<lparr>stat := RT_THREAD_CLOSE\<rparr>) k2 in
         Some (RT_EOK, defunct_or_detach t k3))
      else None)"

definition rt_thread_delete :: "tid \<Rightarrow> kernel \<Rightarrow> (int \<times> kernel) option" where
  "rt_thread_delete t k =
     (if \<not> systemobject (threads k t)
      then
        (let k1 = (if tstat k t \<noteq> RT_THREAD_INIT then rt_schedule_remove_thread t k else k);
             k2 = snd (rt_timer_detach (ThreadTimer t) k1);
             k3 = upd_thread t (\<lambda>x. x\<lparr>stat := RT_THREAD_CLOSE\<rparr>) k2 in
         Some (RT_EOK, rt_list_insert_after Defunct t k3))
      else None)"

definition rt_thread_yield :: "kernel \<Rightarrow> (int \<times> kernel) option" where
  "rt_thread_yield k = map_option (Pair RT_EOK) (rt_schedule k)"

text \<open>Suspend the current thread and arm its timer: the common part of \<open>rt_thread_sleep\<close> and
  \<open>rt_thread_delay_until\<close>, up to the switch.\<close>

definition suspend_and_arm :: "tid \<Rightarrow> u32 \<Rightarrow> kernel \<Rightarrow> kernel option" where
  "suspend_and_arm t ticks k = do {
     (_, k1) \<leftarrow> rt_thread_suspend t k;
     let (_, _, k2) = rt_timer_control (ThreadTimer t) RT_TIMER_CTRL_SET_TIME ticks k1;
     (_, k3) \<leftarrow> rt_timer_start (ThreadTimer t) k2;
     Some k3
   }"

definition rt_thread_sleep_enter :: "u32 \<Rightarrow> kernel \<Rightarrow> kernel option" where
  "rt_thread_sleep_enter ticks k = do {
     t \<leftarrow> rt_thread_self k;
     k1 \<leftarrow> suspend_and_arm t ticks k;
     rt_schedule k1
   }"

text \<open>What the thread does when it runs again: a timeout is the normal end of a sleep.\<close>

definition rt_thread_sleep_resume :: "tid \<Rightarrow> kernel \<Rightarrow> int \<times> kernel" where
  "rt_thread_sleep_resume t k =
     (RT_EOK,
      if error (threads k t) = - RT_ETIMEOUT then upd_thread t (\<lambda>x. x\<lparr>error := RT_EOK\<rparr>) k else k)"

definition rt_thread_delay_enter :: "u32 \<Rightarrow> kernel \<Rightarrow> kernel option" where
  "rt_thread_delay_enter ticks k = rt_thread_sleep_enter ticks k"

text \<open>\<open>rt_thread_delay_until\<close>: the flag tells whether the thread gave up the processor, the word is
  the value of \<open>*tick\<close>. The second part runs at once if it did not.\<close>

definition rt_thread_delay_until_enter :: "u32 \<Rightarrow> u32 \<Rightarrow> kernel \<Rightarrow> (bool \<times> u32 \<times> kernel) option" where
  "rt_thread_delay_until_enter last_tick inc_tick k = do {
     t \<leftarrow> rt_thread_self k;
     if tick k - last_tick < inc_tick
     then do {
       let left = tick k - last_tick + inc_tick;
       k1 \<leftarrow> suspend_and_arm t left k;
       k2 \<leftarrow> rt_schedule k1;
       Some (True, left, k2)
     }
     else Some (False, last_tick, k)
   }"

definition rt_thread_delay_until_resume :: "tid \<Rightarrow> bool \<Rightarrow> kernel \<Rightarrow> int \<times> u32 \<times> kernel" where
  "rt_thread_delay_until_resume t slept k =
     (let k1 = (if slept \<and> error (threads k t) = - RT_ETIMEOUT
                then upd_thread t (\<lambda>x. x\<lparr>error := RT_EOK\<rparr>) k else k) in
      (RT_EOK, tick k1, k1))"

datatype thread_cmd = RT_THREAD_CTRL_CHANGE_PRIORITY u8 | RT_THREAD_CTRL_STARTUP
  | RT_THREAD_CTRL_CLOSE | RT_THREAD_CTRL_OTHER

fun rt_thread_control :: "tid \<Rightarrow> thread_cmd \<Rightarrow> kernel \<Rightarrow> (int \<times> kernel) option" where
  "rt_thread_control t (RT_THREAD_CTRL_CHANGE_PRIORITY p) k =
     (let set_prio = upd_thread t (\<lambda>x. x\<lparr>current_priority := p, number_mask := push_bit (unat p) 1\<rparr>) in
      if tstat k t = RT_THREAD_READY
      then Some (RT_EOK, rt_schedule_insert_thread t (set_prio (rt_schedule_remove_thread t k)))
      else Some (RT_EOK, set_prio k))"
| "rt_thread_control t RT_THREAD_CTRL_STARTUP k = rt_thread_startup t k"
| "rt_thread_control t RT_THREAD_CTRL_CLOSE k = rt_thread_delete t k"
| "rt_thread_control t RT_THREAD_CTRL_OTHER k = Some (RT_EOK, k)"

section \<open>Suspension and resumption\<close>

lemma kinv_settled: "kinv k \<Longrightarrow> tstat k t \<noteq> RT_THREAD_INIT \<Longrightarrow> prio_ok k t"
  using kinv_thread [of k t] by (simp add: thread_ok_def)

lemma suspended_not_ready:
  assumes "kinv k" "tstat k t \<noteq> RT_THREAD_READY"
  shows "t \<notin> set (lists k (Prio p))"
  using kinv_ready [OF assms(1)] assms(2) by simp

text \<open>The state after a successful suspension.\<close>

definition suspended :: "tid \<Rightarrow> kernel \<Rightarrow> kernel" where
  "suspended t k = snd (rt_timer_stop (ThreadTimer t)
     (upd_thread t (set_stat RT_THREAD_SUSPEND) (rt_schedule_remove_thread t k)))"

lemma suspended_simps [simp]:
  "threads (suspended t k) = (threads k)(t := set_stat RT_THREAD_SUSPEND (threads k t))"
  "lists (suspended t k) = (\<lambda>q. removeAll t (lists k q))"
  "current (suspended t k) = current k" "tick (suspended t k) = tick k"
  "lock_nest (suspended t k) = lock_nest k" "int_nest (suspended t k) = int_nest k"
  "cur_prio (suspended t k) = cur_prio k"
  by (simp_all add: suspended_def)

lemma rt_thread_suspend_spec:
  assumes k: "kinv k" and t: "tstat k t = RT_THREAD_READY \<or> tstat k t = RT_THREAD_RUNNING"
  shows "rt_thread_suspend t k = Some (0, suspended t k) \<and> kinv (suspended t k)
    \<and> tstat (suspended t k) t = RT_THREAD_SUSPEND \<and> \<not> is_linked (suspended t k) t
    \<and> timer_list (suspended t k) = removeAll (ThreadTimer t) (timer_list k)"
proof -
  have tok: "thread_ok k t" by (rule kinv_thread [OF k])
  have "tstat k t \<noteq> RT_THREAD_INIT" using t by auto
  let ?k1 = "upd_thread t (set_stat RT_THREAD_SUSPEND) (rt_schedule_remove_thread t k)"
  have i: "kinv_x {t} ?k1"
    by (rule kinv_x_upd_thread [OF kinv_sched_remove [OF k \<open>tstat k t \<noteq> 0\<close>]]) simp
  have tl: "timer_list (suspended t k) = removeAll (ThreadTimer t) (timer_list k)"
    using timer_stop_list [OF kinv_x_lists [OF i]] by (simp add: suspended_def)
  have "prio_ok (suspended t k) t"
    using kinv_settled [OF k \<open>tstat k t \<noteq> 0\<close>] by (simp add: prio_ok_def)
  moreover have s: "tstat (suspended t k) t = RT_THREAD_SUSPEND" by (simp add: tstat_def)
  ultimately have "thread_ok (suspended t k) t" by (simp add: thread_ok_def)
  then have "kinv (suspended t k)"
    using kinv_x_timer_stop [OF i, of "ThreadTimer t"] unfolding suspended_def by (intro kinv_I)
  with s tl tok t show ?thesis
    by (auto simp: rt_thread_suspend_def Let_def suspended_def is_linked_def thread_ok_def)
qed

text \<open>Waking a suspended thread: it leaves its wait queue and its timer and becomes ready (or, if it
  never lost the processor, runs on).\<close>

lemma kinv_wake:
  assumes k: "kinv k" and t: "tstat k t = RT_THREAD_SUSPEND"
  shows "kinv_x {t} (rt_list_remove t (upd_thread t (\<lambda>x. x\<lparr>error := e\<rparr>) k))"
  using suspended_not_ready [OF k, of t] t
  by (intro kinv_x_list_remove kinv_x_upd_thread kinv_x_of [OF k]) simp_all

definition resumed :: "tid \<Rightarrow> kernel \<Rightarrow> kernel" where
  "resumed t k = rt_schedule_insert_thread t (snd (rt_timer_stop (ThreadTimer t) (rt_list_remove t k)))"

lemma resumed_simps [simp]:
  "current (resumed t k) = current k" "tick (resumed t k) = tick k"
  "lock_nest (resumed t k) = lock_nest k" "int_nest (resumed t k) = int_nest k"
  "cur_prio (resumed t k) = cur_prio k"
  "u \<noteq> t \<Longrightarrow> threads (resumed t k) u = threads k u"
  by (simp_all add: resumed_def)

lemma resumed_thread:
  "threads (resumed t k) t =
     set_stat (if current k = Some t then RT_THREAD_RUNNING else RT_THREAD_READY) (threads k t)"
  by (simp add: resumed_def rt_schedule_insert_thread_def Let_def)

lemma resumed_lists:
  "lists (resumed t k) q =
     (if current k \<noteq> Some t \<and> q = Prio (prio k t) then removeAll t (lists k q) @ [t]
      else removeAll t (lists k q))"
  by (simp add: resumed_def rt_schedule_insert_thread_def Let_def)

lemma rt_thread_resume_spec:
  assumes k: "kinv k" and t: "tstat k t = RT_THREAD_SUSPEND"
  shows "rt_thread_resume t k = (0, resumed t k) \<and> kinv (resumed t k)
    \<and> tstat (resumed t k) t = (if current k = Some t then RT_THREAD_RUNNING else RT_THREAD_READY)
    \<and> timer_list (resumed t k) = removeAll (ThreadTimer t) (timer_list k)"
proof -
  let ?k1 = "rt_list_remove t k"
  have "kinv_x {t} ?k1"
    using suspended_not_ready [OF k, of t] t
    by (intro kinv_x_list_remove kinv_x_of [OF k]) simp_all
  then have i: "kinv_x {t} (snd (rt_timer_stop (ThreadTimer t) ?k1))" "lists_ok ?k1"
    by (simp_all add: kinv_x_timer_stop kinv_x_lists)
  have "prio_ok (snd (rt_timer_stop (ThreadTimer t) ?k1)) t"
    using kinv_settled [OF k, of t] t by (simp add: prio_ok_def)
  then have "kinv (resumed t k)"
    unfolding resumed_def
    by (intro kinv_sched_insert [OF i(1)]) (simp_all add: is_linked_def timer_stop_list [OF i(2)])
  then show ?thesis
    using t timer_stop_list [OF i(2)]
    by (auto simp: rt_thread_resume_def Let_def resumed_def tstat_def
        rt_schedule_insert_thread_def)
qed

lemma rt_thread_resume_other:
  "tstat k t \<noteq> RT_THREAD_SUSPEND \<Longrightarrow> rt_thread_resume t k = (- 1, k)"
  by (simp add: rt_thread_resume_def)

text \<open>The timeout of a thread whose timer has just fired.\<close>

definition timed_out :: "tid \<Rightarrow> kernel \<Rightarrow> kernel" where
  "timed_out t k = rt_schedule_insert_thread t
     (rt_list_remove t (upd_thread t (\<lambda>x. x\<lparr>error := - RT_ETIMEOUT\<rparr>) k))"

lemma timed_out_simps [simp]:
  "current (timed_out t k) = current k" "tick (timed_out t k) = tick k"
  "lock_nest (timed_out t k) = lock_nest k" "int_nest (timed_out t k) = int_nest k"
  "timers (timed_out t k) = timers k" "timer_list (timed_out t k) = timer_list k"
  "u \<noteq> t \<Longrightarrow> threads (timed_out t k) u = threads k u"
  "error (threads (timed_out t k) t) = - 2"
  "prio (timed_out t k) u = prio k u"
  by (auto simp: timed_out_def rt_schedule_insert_thread_def Let_def)

lemma timed_out_tstat:
  "tstat (timed_out t k) t = (if current k = Some t then RT_THREAD_RUNNING else RT_THREAD_READY)"
  by (simp add: timed_out_def tstat_def rt_schedule_insert_thread_def Let_def)

lemma timed_out_lists:
  "lists (timed_out t k) q =
     (if current k \<noteq> Some t \<and> q = Prio (prio k t) then removeAll t (lists k q) @ [t]
      else removeAll t (lists k q))"
  by (simp add: timed_out_def rt_schedule_insert_thread_def Let_def)

lemma rt_thread_timeout_eq:
  "tstat k t = RT_THREAD_SUSPEND \<Longrightarrow> rt_thread_timeout t k = rt_schedule (timed_out t k)"
  by (simp add: rt_thread_timeout_def Let_def timed_out_def)

lemma kinv_timed_out:
  assumes k: "kinv k" and t: "tstat k t = RT_THREAD_SUSPEND"
    and tm: "ThreadTimer t \<notin> set (timer_list k)"
  shows "kinv (timed_out t k)"
  unfolding timed_out_def
proof (rule kinv_sched_insert [OF kinv_wake [OF k t]])
  show "prio_ok (rt_list_remove t (upd_thread t (\<lambda>x. x\<lparr>error := - 2\<rparr>) k)) t"
    using kinv_settled [OF k, of t] t by (simp add: prio_ok_def)
qed (simp_all add: is_linked_def tm)

section \<open>Start and end of a thread\<close>

lemma thread_ok_init:
  "thread_ok k t \<Longrightarrow> tstat k t = RT_THREAD_INIT \<Longrightarrow>
    \<not> is_linked k t \<and> ThreadTimer t \<notin> set (timer_list k) \<and> current k \<noteq> Some t"
  using linked_stat [of k t] by (fastforce simp: thread_ok_def is_linked_def)

lemma rt_thread_startup_spec:
  assumes k: "kinv k" and t: "tstat k t = RT_THREAD_INIT"
    and p: "unat (init_priority (threads k t)) < 32"
  shows "\<exists>k'. rt_thread_startup t k = Some (0, k') \<and> kinv k'
    \<and> (current k = None \<longrightarrow> current k' = None \<and> tstat k' t = RT_THREAD_READY)
    \<and> (current k \<noteq> None \<longrightarrow> current k' \<noteq> None)"
proof -
  let ?f = "\<lambda>x :: rt_thread. x\<lparr>current_priority := init_priority x,
                number_mask := push_bit (unat (init_priority x)) 1, stat := RT_THREAD_SUSPEND\<rparr>"
  let ?k1 = "upd_thread t ?f k"
  note nl = thread_ok_init [OF kinv_thread [OF k, of t] t]
  have "kinv_x {t} ?k1" by (intro kinv_x_upd_thread kinv_x_of [OF k]) simp
  moreover have "thread_ok ?k1 t"
    using nl p by (auto simp: thread_ok_def is_linked_def tstat_def prio_ok_def)
  ultimately have k1: "kinv ?k1" by (rule kinv_I)
  have t1: "tstat ?k1 t = RT_THREAD_SUSPEND" by (simp add: tstat_def)
  note r = rt_thread_resume_spec [OF k1 t1]
  have eq: "rt_thread_startup t k = (if current k \<noteq> None
      then map_option (Pair 0) (rt_schedule (resumed t ?k1)) else Some (0, resumed t ?k1))"
    using t r by (simp add: rt_thread_startup_def Let_def rt_thread_self_def)
  show ?thesis
  proof (cases "current k")
    case None
    then show ?thesis using eq r by simp
  next
    case (Some c)
    then have "current (resumed t ?k1) = Some c" by simp
    with rt_schedule_spec [of "resumed t ?k1" c] r eq Some show ?thesis by fastforce
  qed
qed

text \<open>Closing a thread: it leaves its list, its timer is disarmed, and it is linked into the defunct
  list unless it is a static thread without cleanup.\<close>

definition closed :: "tid \<Rightarrow> kernel \<Rightarrow> kernel" where
  "closed t k = defunct_or_detach t (rt_timer_remove (ThreadTimer t)
     (upd_thread t (\<lambda>x. x\<lparr>stat := RT_THREAD_CLOSE\<rparr>) (rt_schedule_remove_thread t k)))"

lemma closed_simps [simp]:
  "current (closed t k) = current k" "tick (closed t k) = tick k"
  "lock_nest (closed t k) = lock_nest k" "int_nest (closed t k) = int_nest k"
  "threads (closed t k) = (threads k)(t := (threads k t)\<lparr>stat := RT_THREAD_CLOSE\<rparr>)"
  "timers (closed t k) = timers k" "timer_list (closed t k) = removeAll (ThreadTimer t) (timer_list k)"
  by (auto simp: closed_def defunct_or_detach_def)

lemma closed_lists:
  "lists (closed t k) q =
     (if q = Defunct \<and> \<not> (systemobject (threads k t) \<and> \<not> cleanup (threads k t))
      then t # removeAll t (lists k q) else removeAll t (lists k q))"
  by (auto simp: closed_def defunct_or_detach_def)

lemma kinv_closed:
  assumes k: "kinv k" and t: "tstat k t \<noteq> RT_THREAD_INIT"
  shows "kinv (closed t k)"
proof -
  let ?k1 = "rt_timer_remove (ThreadTimer t)
    (upd_thread t (\<lambda>x. x\<lparr>stat := RT_THREAD_CLOSE\<rparr>) (rt_schedule_remove_thread t k))"
  have i: "kinv_x {t} ?k1"
    by (intro kinv_x_timer_remove kinv_x_upd_thread kinv_sched_remove [OF k t]) simp
  have nl: "\<not> is_linked ?k1 t" by (simp add: is_linked_def)
  have "kinv_x {t} (defunct_or_detach t ?k1)"
    unfolding defunct_or_detach_def using i nl by (auto intro: kinv_x_insert_after)
  moreover have "thread_ok (closed t k) t"
    using kinv_settled [OF k t]
    by (auto simp: thread_ok_def tstat_def prio_ok_def closed_lists list_stat_def)
  ultimately show ?thesis unfolding closed_def by (rule kinv_I)
qed

lemma timer_remove_upd_thread:
  "rt_timer_remove tm (upd_thread t f k) = upd_thread t f (rt_timer_remove tm k)"
  by (rule kernel.equality) simp_all

lemma rt_thread_detach_eq:
  "tstat k t \<noteq> RT_THREAD_INIT \<Longrightarrow> systemobject (threads k t) \<Longrightarrow>
   rt_thread_detach t k = Some (0, closed t k)"
  by (simp add: rt_thread_detach_def closed_def Let_def rt_timer_detach_def timer_remove_upd_thread)

lemma rt_thread_delete_eq:
  "tstat k t \<noteq> RT_THREAD_INIT \<Longrightarrow> \<not> systemobject (threads k t) \<Longrightarrow>
   rt_thread_delete t k = Some (0, closed t k)"
  by (simp add: rt_thread_delete_def closed_def defunct_or_detach_def Let_def rt_timer_detach_def
      timer_remove_upd_thread)

lemma rt_thread_exit_eq:
  "current k = Some c \<Longrightarrow> rt_thread_exit k = rt_schedule (closed c k)"
  by (simp add: rt_thread_exit_def rt_thread_self_def Let_def closed_def rt_timer_detach_def)

section \<open>Sleeping\<close>

text \<open>The state after the calling thread has suspended itself and armed its timer.\<close>

definition armed :: "tid \<Rightarrow> u32 \<Rightarrow> kernel \<Rightarrow> kernel" where
  "armed t ticks k = timer_started
     (upd_timer (ThreadTimer t) (\<lambda>x. x\<lparr>tm_init_tick := ticks\<rparr>) k) (ThreadTimer t)"

lemma armed_simps [simp]:
  "threads (armed t n k) = threads k" "lists (armed t n k) = lists k"
  "ready_group (armed t n k) = ready_group k" "current (armed t n k) = current k"
  "tick (armed t n k) = tick k" "lock_nest (armed t n k) = lock_nest k"
  "int_nest (armed t n k) = int_nest k"
  "set (timer_list (armed t n k)) = insert (ThreadTimer t) (set (timer_list k))"
  "tm_timeout_tick (timers (armed t n k) (ThreadTimer t)) = tick k + n"
  "tm \<noteq> ThreadTimer t \<Longrightarrow> timers (armed t n k) tm = timers k tm"
  by (simp_all add: armed_def)

lemma kinv_armed:
  assumes "kinv k" "tstat k t = RT_THREAD_SUSPEND"
  shows "kinv (armed t n k)"
  unfolding armed_def kinv_def
  by (intro kinv_x_timer_started kinv_x_upd_timer)
    (use assms in \<open>auto simp: kinv_def tstat_def\<close>)

lemma suspend_and_arm_spec:
  assumes k: "kinv k" and t: "tstat k t = RT_THREAD_READY \<or> tstat k t = RT_THREAD_RUNNING"
    and n: "n < 0x7fffffff"
  shows "suspend_and_arm t n k = Some (armed t n (suspended t k)) \<and> kinv (armed t n (suspended t k))"
proof -
  note s = rt_thread_suspend_spec [OF k t]
  then have "kinv (armed t n (suspended t k))" by (intro kinv_armed) simp_all
  with s n show ?thesis by (simp add: suspend_and_arm_def rt_timer_start_eq armed_def)
qed

lemma rt_thread_control_prio_spec:
  assumes k: "kinv k" and p: "unat p < 32" and t: "tstat k t \<noteq> RT_THREAD_INIT"
  shows "\<exists>k'. rt_thread_control t (RT_THREAD_CTRL_CHANGE_PRIORITY p) k = Some (0, k') \<and> kinv k'
    \<and> prio k' t = unat p \<and> tstat k' t = tstat k t \<and> current k' = current k \<and> same_time k k'
    \<and> (\<forall>u. u \<noteq> t \<longrightarrow> threads k' u = threads k u)
    \<and> (\<forall>a. lists k' (WaitQ a) = lists k (WaitQ a) \<and> lists k' (SendQ a) = lists k (SendQ a))"
proof -
  let ?set = "upd_thread t (\<lambda>x. x\<lparr>current_priority := p, number_mask := push_bit (unat p) 1\<rparr>)"
  have tok: "thread_ok k t" by (rule kinv_thread [OF k])
  show ?thesis
  proof (cases "tstat k t = RT_THREAD_READY")
    case True
    let ?k1 = "?set (rt_schedule_remove_thread t k)"
    let ?k' = "rt_schedule_insert_thread t ?k1"
    have i: "kinv_x {t} ?k1" by (intro kinv_x_upd_thread kinv_sched_remove [OF k t]) simp
    have "kinv ?k'"
      using tok True p by (intro kinv_sched_insert [OF i])
        (auto simp: is_linked_def prio_ok_def thread_ok_def)
    moreover have "current k \<noteq> Some t" using tok True by (auto simp: thread_ok_def)
    moreover have "t \<notin> set (lists k (WaitQ a))" "t \<notin> set (lists k (SendQ a))" for a
      using tok True by (auto simp: thread_ok_def list_stat_def)
    ultimately show ?thesis
      using True
      by (simp add: Let_def rt_schedule_insert_thread_def same_time_def) (simp add: tstat_def)
  next
    case False
    have "kinv_x {t} (?set k)" by (intro kinv_x_upd_thread kinv_x_of [OF k]) simp
    moreover have "list_stat (?set k) t q" if "t \<in> set (lists k q)" for q
      using that tok False suspended_not_ready [OF k False]
      by (auto simp: list_stat_def thread_ok_def tstat_def split: qhead.splits)
    then have "thread_ok (?set k) t"
      using tok p False by (auto simp: thread_ok_def tstat_def prio_ok_def)
    ultimately have "kinv (?set k)" by (rule kinv_I)
    with False show ?thesis by (simp add: Let_def same_time_def) (simp add: tstat_def)
  qed
qed

declare rt_thread_control.simps(1) [simp del]

end
