(* ===== verification/Clock.thy ===== *)
theory Clock
  imports Thread
begin

text \<open>
  \<open>clock.c\<close>, \<open>irq.c\<close> and the part of \<open>timer.c\<close> that runs callbacks: the tick interrupt charges the
  running thread's time slice, lets the scheduler rotate threads of equal priority when it is used
  up, and fires the expired timers. The callback of a timer other than a thread's own is a parameter.
  The loop of \<open>rt_timer_check\<close> need not end (a periodic timer of zero ticks fires for ever), so it
  is a \<open>partial_function\<close>, and that it returns is proved where it is used.
\<close>

unbundle bit_operations_syntax

section \<open>Operations\<close>

definition rt_tick_get :: "kernel \<Rightarrow> u32" where
  "rt_tick_get k = tick k"

definition rt_tick_set :: "u32 \<Rightarrow> kernel \<Rightarrow> kernel" where
  "rt_tick_set n k = k\<lparr>tick := n\<rparr>"

definition rt_tick_from_millisecond :: "32 word \<Rightarrow> u32" where
  "rt_tick_from_millisecond ms =
     (if sint ms < 0 then word_of_int (- 1)
      else word_of_int (1000 * (sint ms div 1000))
           + word_of_int ((1000 * (sint ms mod 1000) + 999) div 1000))"

definition rt_interrupt_enter :: "kernel \<Rightarrow> kernel" where
  "rt_interrupt_enter k = k\<lparr>int_nest := int_nest k + 1\<rparr>"

definition rt_interrupt_leave :: "kernel \<Rightarrow> kernel" where
  "rt_interrupt_leave k = k\<lparr>int_nest := int_nest k - 1\<rparr>"

definition rt_interrupt_get_nest :: "kernel \<Rightarrow> u8" where
  "rt_interrupt_get_nest k = int_nest k"

definition timer_callback :: "(nat \<Rightarrow> kernel \<Rightarrow> kernel option) \<Rightarrow> tmid \<Rightarrow> kernel \<Rightarrow> kernel option" where
  "timer_callback cb tm k = (case tm of ThreadTimer t \<Rightarrow> rt_thread_timeout t k | OwnTimer n \<Rightarrow> cb n k)"

definition timer_expired :: "u32 \<Rightarrow> kernel \<Rightarrow> tmid \<Rightarrow> bool" where
  "timer_expired now k tm \<longleftrightarrow> now - tm_timeout_tick (timers k tm) < RT_TICK_MAX div 2"

text \<open>After the callback: a periodic timer that is still activated is started again, any other is
  flagged as inactive.\<close>

definition timer_rearm :: "tmid \<Rightarrow> kernel \<Rightarrow> kernel option" where
  "timer_rearm tm k =
     (let fl = tm_flag (timers k tm); k1 = upd_timer tm clear_activated k in
      if fl AND RT_TIMER_FLAG_PERIODIC \<noteq> 0 \<and> fl AND RT_TIMER_FLAG_ACTIVATED \<noteq> 0
      then map_option snd (rt_timer_start tm k1)
      else Some k1)"

partial_function (option) rt_timer_check_loop ::
  "(nat \<Rightarrow> kernel \<Rightarrow> kernel option) \<Rightarrow> u32 \<Rightarrow> kernel \<Rightarrow> kernel option" where
  "rt_timer_check_loop cb current_tick k =
     (case timer_list k of
        [] \<Rightarrow> Some k
      | tm # _ \<Rightarrow>
          if timer_expired current_tick k tm
          then Option.bind (timer_callback cb tm (rt_timer_remove tm k)) (\<lambda>k1.
               Option.bind (timer_rearm tm k1) (\<lambda>k2. rt_timer_check_loop cb (tick k1) k2))
          else Some k)"

definition rt_timer_check :: "(nat \<Rightarrow> kernel \<Rightarrow> kernel option) \<Rightarrow> kernel \<Rightarrow> kernel option" where
  "rt_timer_check cb k = rt_timer_check_loop cb (rt_tick_get k) k"

definition rt_tick_increase :: "(nat \<Rightarrow> kernel \<Rightarrow> kernel option) \<Rightarrow> kernel \<Rightarrow> kernel option" where
  "rt_tick_increase cb k = do {
     let k1 = k\<lparr>tick := tick k + 1\<rparr>;
     t \<leftarrow> rt_thread_self k1;
     let k2 = upd_thread t (\<lambda>x. x\<lparr>remaining_tick := remaining_tick x - 1\<rparr>) k1;
     k3 \<leftarrow> (if remaining_tick (threads k2 t) = 0
            then map_option snd (rt_thread_yield
              (upd_thread t (\<lambda>x. x\<lparr>remaining_tick := init_tick x,
                 stat := stat x OR RT_THREAD_STAT_YIELD\<rparr>) k2))
            else Some k2);
     rt_timer_check cb k3
   }"

section \<open>Ticks and milliseconds\<close>

lemma tick_of_ms_nonneg: "0 \<le> sint ms \<Longrightarrow> rt_tick_from_millisecond ms = ms"
proof -
  assume "0 \<le> sint ms"
  have "(1000 * (sint ms mod 1000) + 999) div 1000 = sint ms mod 1000" by simp
  then have "rt_tick_from_millisecond ms =
      word_of_int (1000 * (sint ms div 1000)) + word_of_int (sint ms mod 1000)"
    using \<open>0 \<le> sint ms\<close> by (simp only: rt_tick_from_millisecond_def) simp
  also have "\<dots> = word_of_int (1000 * (sint ms div 1000) + sint ms mod 1000)"
    by (rule wi_hom_add)
  also have "1000 * (sint ms div 1000) + sint ms mod 1000 = sint ms" by simp
  finally show ?thesis by simp
qed

section \<open>The slice of the running thread\<close>

text \<open>Changing the slice or the yield bit of a thread concerns no invariant.\<close>

lemma kinv_upd_thread_same:
  assumes k: "kinv k" and f: "\<And>x. stat (f x) AND 7 = stat x AND 7"
    "\<And>x. current_priority (f x) = current_priority x" "\<And>x. number_mask (f x) = number_mask x"
  shows "kinv (upd_thread t f k)"
proof -
  let ?k = "upd_thread t f k"
  have e: "tstat ?k = tstat k" "\<And>u. prio ?k u = prio k u" "prio_ok ?k = prio_ok k"
    using f by (auto simp: fun_eq_iff tstat_def prio_ok_def)
  have l: "list_stat ?k = list_stat k"
    unfolding list_stat_def e by simp
  have "thread_ok ?k u" for u
    using kinv_thread [OF k, of u] unfolding thread_ok_def e l upd_thread_simps(1,3,9) .
  moreover have "lists_ok ?k" using kinv_lists [OF k] by (simp add: lists_ok_def)
  ultimately show ?thesis by (simp add: kinv_def kinv_x_def)
qed

lemma kinv_tick: "kinv (k\<lparr>tick := n\<rparr>) = kinv k"
  by (rule kinv_cong) simp_all

section \<open>Firing the expired timers\<close>

lemma timer_expired_cong: "timers k' = timers k \<Longrightarrow> timer_expired n k' = timer_expired n k"
  by (simp add: fun_eq_iff timer_expired_def)

lemma clear_activated_expired:
  "timer_expired n (upd_timer tm clear_activated k) u = timer_expired n k u"
  by (simp add: timer_expired_def clear_activated_def)

text \<open>One round of the loop for a thread's own one-shot timer: the thread is woken with
  \<open>-RT_ETIMEOUT\<close> and nothing else changes but who runs.\<close>

lemma fire_thread_timer:
  assumes k: "kinv k" and c: "current k \<noteq> None" and l: "timer_list k = ThreadTimer t # ts"
  shows "\<exists>k1. rt_thread_timeout t (rt_timer_remove (ThreadTimer t) k) = Some k1
    \<and> kinv k1 \<and> current k1 \<noteq> None \<and> timer_list k1 = ts \<and> timers k1 = timers k \<and> tick k1 = tick k
    \<and> lock_nest k1 = lock_nest k \<and> int_nest k1 = int_nest k
    \<and> (\<forall>u. runnable k1 u = (u = t \<or> runnable k u))
    \<and> (\<forall>u. error (threads k1 u) = (if u = t then - 2 else error (threads k u)))"
proof -
  let ?k0 = "rt_timer_remove (ThreadTimer t) k"
  obtain c where c: "current k = Some c" using c by blast
  have k0: "kinv ?k0" using kinv_x_timer_remove [of "{}" k] k by (simp add: kinv_def)
  have d: "distinct (timer_list k)" using kinv_lists [OF k] by (simp add: lists_ok_def)
  have l0: "timer_list ?k0 = ts" "ThreadTimer t \<notin> set ts" using d l by auto
  have s: "tstat k t = RT_THREAD_SUSPEND" "tstat ?k0 = tstat k"
    using kinv_thread [OF k, of t] l by (auto simp: thread_ok_def tstat_def fun_eq_iff)
  let ?k1 = "timed_out t ?k0"
  have s0: "tstat ?k0 t = RT_THREAD_SUSPEND" using s by simp
  have k1: "kinv ?k1" by (rule kinv_timed_out [OF k0 s0]) (use l0 in simp)
  have c1: "current ?k1 = Some c" using c by simp
  obtain k' n where r: "rt_schedule ?k1 = Some k'" "kinv k'" "current k' = Some n" "sched_rel ?k1 k'"
    using rt_schedule_spec [OF k1 c1] by blast
  have run: "runnable ?k1 u = (u = t \<or> runnable k u)" for u
    using timed_out_tstat [of t ?k0] by (cases "u = t") (simp_all add: runnable_def tstat_def)
  have err: "error (threads ?k1 u) = (if u = t then - 2 else error (threads k u))" for u by simp
  note rel = sched_relD [OF r(4)]
  have "runnable k' u = (u = t \<or> runnable k u)" for u using rel(10) run by simp
  moreover have "error (threads k' u) = (if u = t then - 2 else error (threads k u))" for u
    using rel(6) err by simp
  moreover have "timer_list k' = ts" "timers k' = timers k" "tick k' = tick k"
    "lock_nest k' = lock_nest k" "int_nest k' = int_nest k"
    using rel(1-5) l0 by simp_all
  moreover have "rt_thread_timeout t ?k0 = Some k'" using rt_thread_timeout_eq [OF s0] r(1) by simp
  ultimately show ?thesis using r(2,3) by blast
qed

lemma kinv_clear_activated:
  assumes "kinv k" "tm \<notin> set (timer_list k)"
  shows "kinv (upd_timer tm clear_activated k)"
proof -
  have "thread_ok (upd_timer tm clear_activated k) u" for u
    by (rule thread_ok_frame [of _ _ k]) (use kinv_thread [OF assms(1)] in auto)
  moreover have "lists_ok (upd_timer tm clear_activated k)"
    using kinv_lists [OF assms(1)] assms(2) by (auto simp: lists_ok_def)
  ultimately show ?thesis by (simp add: kinv_def kinv_x_def)
qed

definition oneshot_thread_timer :: "kernel \<Rightarrow> tmid \<Rightarrow> bool" where
  "oneshot_thread_timer k tm \<longleftrightarrow> (case tm of ThreadTimer t \<Rightarrow>
     tm_flag (timers k tm) AND RT_TIMER_FLAG_PERIODIC = 0 | OwnTimer n \<Rightarrow> False)"

lemma timer_check_loop_wakes:
  assumes "kinv k" "current k \<noteq> None" "tick k = n"
    and "\<forall>tm \<in> set (takeWhile (timer_expired n k) (timer_list k)). oneshot_thread_timer k tm"
  shows "\<exists>k'. rt_timer_check_loop cb n k = Some k' \<and> kinv k' \<and> current k' \<noteq> None \<and> tick k' = n
    \<and> timer_list k' = dropWhile (timer_expired n k) (timer_list k)
    \<and> (\<forall>t. let fired = (ThreadTimer t \<in> set (takeWhile (timer_expired n k) (timer_list k))) in
         runnable k' t = (fired \<or> runnable k t)
         \<and> error (threads k' t) = (if fired then - 2 else error (threads k t)))"
  using assms
proof (induction "length (timer_list k)" arbitrary: k rule: less_induct)
  case less
  show ?case
  proof (cases "timer_list k")
    case Nil
    then show ?thesis using less.prems by (subst rt_timer_check_loop.simps) simp
  next
    case (Cons tm ts)
    show ?thesis
    proof (cases "timer_expired n k tm")
      case False
      then show ?thesis using less.prems Cons by (subst rt_timer_check_loop.simps) simp
    next
      case True
      then have o: "oneshot_thread_timer k tm" using less.prems(4) Cons by simp
      then obtain t where tm: "tm = ThreadTimer t" "tm_flag (timers k tm) AND 2 = 0"
        by (auto simp: oneshot_thread_timer_def split: tmid.splits)
      obtain k1 where f: "rt_thread_timeout t (rt_timer_remove (ThreadTimer t) k) = Some k1"
        "kinv k1" "current k1 \<noteq> None" "timer_list k1 = ts" "timers k1 = timers k" "tick k1 = tick k"
        "\<And>u. runnable k1 u = (u = t \<or> runnable k u)"
        "\<And>u. error (threads k1 u) = (if u = t then - 2 else error (threads k u))"
        using fire_thread_timer [OF less.prems(1,2)] Cons tm by metis
      let ?k2 = "upd_timer tm clear_activated k1"
      have d: "tm \<notin> set ts" using kinv_lists [OF less.prems(1)] Cons by (auto simp: lists_ok_def)
      have k2: "kinv ?k2" by (rule kinv_clear_activated [OF f(2)]) (use d f(4) in simp)
      have ex: "timer_expired n ?k2 = timer_expired n k"
        using timer_expired_cong [OF f(5)] by (simp add: fun_eq_iff clear_activated_expired)
      have os: "oneshot_thread_timer ?k2 u = oneshot_thread_timer k u" if "u \<in> set ts" for u
      proof -
        have "u \<noteq> tm" using that d by auto
        then have "timers ?k2 u = timers k u" by (simp add: f(5))
        then show ?thesis by (simp only: oneshot_thread_timer_def)
      qed
      have p4: "\<forall>u \<in> set (takeWhile (timer_expired n ?k2) (timer_list ?k2)). oneshot_thread_timer ?k2 u"
        using less.prems(4) Cons True os set_takeWhileD f(4) unfolding ex by fastforce
      have len: "length (timer_list ?k2) < length (timer_list k)" using Cons f(4) by simp
      have p3: "current ?k2 \<noteq> None" "tick ?k2 = n" using f less.prems(3) by simp_all
      note IH = less.hyps [OF len k2 p3 p4, unfolded ex]
      have run2: "runnable ?k2 = runnable k1" by (simp add: fun_eq_iff runnable_def tstat_def)
      have eq: "rt_timer_check_loop cb n k = rt_timer_check_loop cb n ?k2"
        using Cons True f(1,5,6) tm less.prems(3)
        by (subst rt_timer_check_loop.simps) (simp add: timer_callback_def timer_rearm_def Let_def)
      have fl: "ThreadTimer u \<in> set (takeWhile (timer_expired n k) (timer_list k))
          \<longleftrightarrow> u = t \<or> ThreadTimer u \<in> set (takeWhile (timer_expired n k) ts)" for u
        using Cons True tm by auto
      obtain k' where k': "rt_timer_check_loop cb n ?k2 = Some k'" "kinv k'" "current k' \<noteq> None"
        "tick k' = n" "timer_list k' = dropWhile (timer_expired n k) ts"
        "\<And>u. runnable k' u = (ThreadTimer u \<in> set (takeWhile (timer_expired n k) ts) \<or> runnable k1 u)"
        "\<And>u. error (threads k' u) = (if ThreadTimer u \<in> set (takeWhile (timer_expired n k) ts)
           then - 2 else error (threads k1 u))"
        using IH f(4) run2 unfolding Let_def by auto
      have "timer_list k' = dropWhile (timer_expired n k) (timer_list k)"
        using k'(5) Cons True by simp
      then show ?thesis
        using eq k'(1-4) k'(6,7) f(7,8)
        by (intro exI [of _ k']) (simp add: Let_def fl)
    qed
  qed
qed

lemma tick_charge_kinv:
  assumes "kinv k"
  shows "kinv (upd_thread t (\<lambda>x. x\<lparr>remaining_tick := f x\<rparr>) (k\<lparr>tick := n\<rparr>))"
    "kinv (upd_thread t (\<lambda>x. x\<lparr>remaining_tick := f x, stat := stat x OR RT_THREAD_STAT_YIELD\<rparr>) k)"
proof -
  show "kinv (upd_thread t (\<lambda>x. x\<lparr>remaining_tick := f x\<rparr>) (k\<lparr>tick := n\<rparr>))"
    by (rule kinv_upd_thread_same) (simp_all add: kinv_tick assms)
  have "(s OR 8) AND 7 = s AND (7 :: u8)" for s by (simp add: bit.conj_disj_distrib2)
  then show "kinv (upd_thread t (\<lambda>x. x\<lparr>remaining_tick := f x, stat := stat x OR RT_THREAD_STAT_YIELD\<rparr>) k)"
    by (intro kinv_upd_thread_same) (simp_all add: assms)
qed

section \<open>Kernel steps\<close>

text \<open>
  The operations as a step relation: what threads and interrupts can do to the scheduling state, one
  call at a time (a call is atomic: interrupts are off). Blocking operations of the IPC objects are
  added by their own theories, which show that they keep the same invariant. The tick step is taken
  while the armed timers are those of threads.
\<close>

inductive kstep :: "kernel \<Rightarrow> kernel \<Rightarrow> bool" where
  init: "rt_thread_init t static p n k = Some (r, k') \<Longrightarrow> tstat k t = RT_THREAD_INIT \<Longrightarrow> kstep k k'"
| startup: "rt_thread_startup t k = Some (r, k') \<Longrightarrow> unat (init_priority (threads k t)) < 32 \<Longrightarrow>
    kstep k k'"
| start: "current k = None \<Longrightarrow> rt_system_scheduler_start k = Some k' \<Longrightarrow> kstep k k'"
| schedule: "rt_schedule k = Some k' \<Longrightarrow> kstep k k'"
| suspend: "rt_thread_suspend t k = Some (r, k') \<Longrightarrow> kstep k k'"
| resume: "rt_thread_resume t k = (r, k') \<Longrightarrow> kstep k k'"
| exit: "rt_thread_exit k = Some k' \<Longrightarrow> kstep k k'"
| detach: "rt_thread_detach t k = Some (r, k') \<Longrightarrow> tstat k t \<noteq> RT_THREAD_INIT \<Longrightarrow> kstep k k'"
| delete: "rt_thread_delete t k = Some (r, k') \<Longrightarrow> tstat k t \<noteq> RT_THREAD_INIT \<Longrightarrow> kstep k k'"
| priority: "rt_thread_control t (RT_THREAD_CTRL_CHANGE_PRIORITY p) k = Some (r, k') \<Longrightarrow> unat p < 32 \<Longrightarrow>
    tstat k t \<noteq> RT_THREAD_INIT \<Longrightarrow> kstep k k'"
| sleep: "rt_thread_sleep_enter n k = Some k' \<Longrightarrow> current k = Some c \<Longrightarrow>
    tstat k c = RT_THREAD_RUNNING \<Longrightarrow> kstep k k'"
| delay_until: "rt_thread_delay_until_enter n m k = Some (b, n', k') \<Longrightarrow> current k = Some c \<Longrightarrow>
    tstat k c = RT_THREAD_RUNNING \<Longrightarrow> kstep k k'"
| enter_critical: "kstep k (rt_enter_critical k)"
| exit_critical: "rt_exit_critical k = Some k' \<Longrightarrow> kstep k k'"
| interrupt_enter: "kstep k (rt_interrupt_enter k)"
| interrupt_leave: "kstep k (rt_interrupt_leave k)"
| timer_start: "rt_timer_start (OwnTimer i) k = Some (r, k') \<Longrightarrow> kstep k k'"
| timer_stop: "rt_timer_stop tm k = (r, k') \<Longrightarrow> kstep k k'"
| tick: "rt_tick_increase cb k = Some k' \<Longrightarrow> \<forall>tm \<in> set (timer_list k). oneshot_thread_timer k tm \<Longrightarrow>
    kstep k k'"

lemma kinv_rt_schedule: "kinv k \<Longrightarrow> rt_schedule k = Some k' \<Longrightarrow> kinv k' \<and> sched_rel k k'"
proof (cases "current k")
  case None
  assume "kinv k" "rt_schedule k = Some k'"
  then show ?thesis
    using None by (auto simp: rt_schedule_def split: if_splits bind_splits)
next
  case (Some c)
  assume "kinv k" "rt_schedule k = Some k'"
  then show ?thesis using rt_schedule_spec [OF _ Some] by fastforce
qed

lemma kinv_thread_init:
  assumes k: "kinv k" and r: "rt_thread_init t static p n k = Some (r, k')"
    and t: "tstat k t = RT_THREAD_INIT"
  shows "kinv k'"
proof -
  note nl = thread_ok_init [OF kinv_thread [OF k, of t] t]
  let ?f = "\<lambda>_ :: rt_thread. \<lparr>error = 0, stat = RT_THREAD_INIT, current_priority = p,
    init_priority = p, number_mask = 0, event_set = 0, event_info = 0, init_tick = n,
    remaining_tick = n, systemobject = static, cleanup = False\<rparr>"
  let ?g = "\<lambda>_ :: rt_timer. \<lparr>tm_flag = 0, tm_init_tick = 0, tm_timeout_tick = 0\<rparr>"
  have k': "k' = upd_timer (ThreadTimer t) ?g (upd_thread t ?f k)"
    using r by (simp add: rt_thread_init_def rt_timer_init_def split: if_splits)
  have "thread_ok k' t"
    using nl by (auto simp: k' thread_ok_def is_linked_def tstat_def)
  moreover have "thread_ok k' u" if "u \<noteq> t" for u
    by (rule thread_ok_frame [of _ _ k]) (use that kinv_thread [OF k] in \<open>auto simp: k'\<close>)
  moreover have "lists_ok k'" using kinv_lists [OF k] nl by (auto simp: lists_ok_def k')
  ultimately show ?thesis unfolding kinv_def kinv_x_def by metis
qed

lemma kinv_scheduler_start:
  assumes k: "kinv k" and c: "current k = None" and r: "rt_system_scheduler_start k = Some k'"
  shows "kinv k'"
proof -
  obtain t p where h: "get_highest_priority_thread k = Some (t, p)"
    and k': "k' = upd_thread t (\<lambda>x. x\<lparr>stat := RT_THREAD_RUNNING\<rparr>)
      (rt_schedule_remove_thread t (k\<lparr>current := Some t\<rparr>))"
    using r by (auto simp: rt_system_scheduler_start_def Let_def split: bind_splits)
  have t: "t \<in> set (lists k (Prio p))"
    using h by (auto simp: get_highest_priority_thread_def Let_def split: list.splits)
  then have s: "tstat k t = RT_THREAD_READY" using kinv_ready [OF k] by simp
  have pt: "prio_ok k t" using kinv_settled [OF k] s by simp
  have nt: "ThreadTimer t \<notin> set (timer_list k)" using kinv_thread [OF k, of t] s by (auto simp: thread_ok_def)
  let ?k0 = "k\<lparr>current := Some t\<rparr>"
  have "kinv_x {t} ?k0"
  proof -
    have "lists_ok ?k0" using kinv_lists [OF k] by (simp add: lists_ok_def)
    moreover have "thread_ok ?k0 u" if "u \<notin> {t}" for u
      by (rule thread_ok_frame [of _ _ k]) (use c that kinv_thread [OF k] in auto)
    ultimately show ?thesis by (simp add: kinv_x_def)
  qed
  then have "kinv_x {t} (rt_schedule_remove_thread t ?k0)"
    by (rule kinv_x_sched_remove) (use pt kinv_ready [OF k] in \<open>auto simp: prio_ok_def\<close>)
  then have "kinv_x {t} k'" unfolding k' by (rule kinv_x_upd_thread) simp
  moreover have "thread_ok k' t"
    using pt nt by (auto simp: k' thread_ok_def tstat_def prio_ok_def)
  ultimately show ?thesis by (rule kinv_I)
qed

lemma kinv_tick_increase:
  assumes k: "kinv k" and r: "rt_tick_increase cb k = Some k'"
    and o: "\<forall>tm \<in> set (timer_list k). oneshot_thread_timer k tm"
  shows "kinv k'"
proof -
  obtain c where c: "current k = Some c"
    using r by (cases "current k") (auto simp: rt_tick_increase_def rt_thread_self_def)
  let ?k2 = "upd_thread c (\<lambda>x. x\<lparr>remaining_tick := remaining_tick x - 1\<rparr>) (k\<lparr>tick := tick k + 1\<rparr>)"
  have k2: "kinv ?k2" by (rule tick_charge_kinv(1) [OF k])
  have k2y: "kinv (upd_thread c (\<lambda>x. x\<lparr>remaining_tick := init_tick x,
      stat := stat x OR RT_THREAD_STAT_YIELD\<rparr>) ?k2)"
    by (rule tick_charge_kinv(2) [OF k2])
  obtain k3 where k3: "kinv k3" "current k3 \<noteq> None" "timers k3 = timers k" "timer_list k3 = timer_list k"
    "rt_timer_check cb k3 = Some k'"
  proof (cases "remaining_tick (threads k c) - 1 = 0")
    case True
    obtain k3 where s: "rt_schedule (upd_thread c (\<lambda>x. x\<lparr>remaining_tick := init_tick x,
        stat := stat x OR RT_THREAD_STAT_YIELD\<rparr>) ?k2) = Some k3"
      using r c True
      by (auto simp: rt_tick_increase_def rt_thread_self_def rt_thread_yield_def split: bind_splits)
    have cc: "current (upd_thread c (\<lambda>x. x\<lparr>remaining_tick := init_tick x,
        stat := stat x OR RT_THREAD_STAT_YIELD\<rparr>) ?k2) = Some c" using c by simp
    have "kinv k3" "current k3 \<noteq> None"
      using rt_schedule_spec [OF k2y cc] s by auto
    moreover have "sched_rel (upd_thread c (\<lambda>x. x\<lparr>remaining_tick := init_tick x,
        stat := stat x OR RT_THREAD_STAT_YIELD\<rparr>) ?k2) k3"
      using kinv_rt_schedule [OF k2y s] by simp
    then have "timers k3 = timers k" "timer_list k3 = timer_list k"
      using sched_relD(2,3) by fastforce+
    moreover have "rt_timer_check cb k3 = Some k'"
      using r c True s by (simp add: rt_tick_increase_def rt_thread_self_def rt_thread_yield_def)
    ultimately show ?thesis using that by blast
  next
    case False
    then have "rt_timer_check cb ?k2 = Some k'"
      using r c by (simp add: rt_tick_increase_def rt_thread_self_def)
    then show ?thesis using that k2 c by simp
  qed
  have "oneshot_thread_timer k3 = oneshot_thread_timer k"
    unfolding fun_eq_iff oneshot_thread_timer_def k3(3) by simp
  then have "\<forall>tm \<in> set (takeWhile (timer_expired (tick k3) k3) (timer_list k3)). oneshot_thread_timer k3 tm"
    using o k3(4) by (auto dest: set_takeWhileD)
  from timer_check_loop_wakes [OF k3(1,2) refl this, of cb] k3(5) show ?thesis
    by (auto simp: rt_timer_check_def rt_tick_get_def)
qed

lemma kinv_suspend_step:
  assumes "kinv k" "rt_thread_suspend t k = Some (r, k')"
  shows "kinv k'"
  using assms rt_thread_suspend_spec [OF assms(1), of t]
  by (cases "tstat k t = 1 \<or> tstat k t = 3") (auto simp: rt_thread_suspend_def Let_def)

lemma kinv_sleep_step:
  assumes k: "kinv k" and c: "current k = Some c" "tstat k c = RT_THREAD_RUNNING"
    and r: "Option.bind (suspend_and_arm c n k) rt_schedule = Some k'"
  shows "kinv k'"
proof -
  have "n < 0x7fffffff"
    using r rt_thread_suspend_spec [OF k, of c] c(2)
    by (auto simp: suspend_and_arm_def rt_timer_start_eq split: bind_splits if_splits)
  then show ?thesis
    using suspend_and_arm_spec [OF k, of c n] c(2) r kinv_rt_schedule by auto
qed

lemma kstep_kinv:
  assumes "kstep k k'" "kinv k"
  shows "kinv k'"
  using assms
proof (induction rule: kstep.induct)
  case (init t static p n k r k')
  then show ?case using kinv_thread_init by blast
next
  case (startup t k r k')
  then have "tstat k t = RT_THREAD_INIT" by (auto simp: rt_thread_startup_def split: if_splits)
  with startup rt_thread_startup_spec [of k t] show ?case by auto
next
  case (start k k')
  then show ?case using kinv_scheduler_start by blast
next
  case (schedule k k')
  then show ?case using kinv_rt_schedule by blast
next
  case (suspend t k r k')
  then show ?case using kinv_suspend_step by blast
next
  case (resume t k r k')
  then show ?case
    using rt_thread_resume_spec [of k t] rt_thread_resume_other [of k t]
    by (cases "tstat k t = 2") auto
next
  case (exit k k')
  then obtain c where c: "current k = Some c"
    by (cases "current k") (auto simp: rt_thread_exit_def rt_thread_self_def)
  then have "tstat k c \<noteq> 0" using kinv_thread [OF exit.prems, of c] by (simp add: thread_ok_def)
  then show ?case
    using exit kinv_rt_schedule [OF kinv_closed] rt_thread_exit_eq [OF c] by auto
next
  case (detach t k r k')
  then have "systemobject (threads k t)" by (auto simp: rt_thread_detach_def split: if_splits)
  with detach show ?case using rt_thread_detach_eq kinv_closed by auto
next
  case (delete t k r k')
  then have "\<not> systemobject (threads k t)" by (auto simp: rt_thread_delete_def split: if_splits)
  with delete show ?case using rt_thread_delete_eq kinv_closed by auto
next
  case (priority t p k r k')
  then show ?case using rt_thread_control_prio_spec [of k p t] by auto
next
  case (sleep n k k' c)
  then show ?case
    using kinv_sleep_step [of k c n k'] by (simp add: rt_thread_sleep_enter_def rt_thread_self_def)
next
  case (delay_until n m k b n' k' c)
  then show ?case
    using kinv_sleep_step [of k c "tick k - n + m" k']
    by (auto simp: rt_thread_delay_until_enter_def rt_thread_self_def Let_def bind_eq_Some_conv
        split: if_splits)
next
  case (enter_critical k)
  then show ?case
    using kinv_cong [of "rt_enter_critical k" k] by (simp add: rt_enter_critical_def)
next
  case (exit_critical k k')
  have "kinv (k\<lparr>lock_nest := x\<rparr>)" for x
    using kinv_cong [of "k\<lparr>lock_nest := x\<rparr>" k] exit_critical.prems by simp
  with exit_critical.hyps show ?case
    using kinv_rt_schedule by (auto simp: rt_exit_critical_def Let_def split: if_splits)
next
  case (interrupt_enter k)
  then show ?case
    using kinv_cong [of "rt_interrupt_enter k" k] by (simp add: rt_interrupt_enter_def)
next
  case (interrupt_leave k)
  then show ?case
    using kinv_cong [of "rt_interrupt_leave k" k] by (simp add: rt_interrupt_leave_def)
next
  case (timer_start i k r k')
  then show ?case
    using kinv_x_timer_started [of "{}" k "OwnTimer i"]
    by (auto simp: rt_timer_start_eq kinv_def split: if_splits)
next
  case (timer_stop tm k r k')
  then show ?case using kinv_x_timer_stop [of "{}" k tm] by (simp add: kinv_def)
next
  case (tick cb k k')
  then show ?case using kinv_tick_increase by blast
qed

text \<open>A kernel before any thread was started.\<close>

definition initial_kernel :: "kernel \<Rightarrow> bool" where
  "initial_kernel k \<longleftrightarrow> (\<forall>q. lists k q = []) \<and> ready_group k = 0 \<and> current k = None
     \<and> timer_list k = [] \<and> (\<forall>t. stat (threads k t) = RT_THREAD_INIT)"

lemma initial_kinv: "initial_kernel k \<Longrightarrow> kinv k"
  by (auto simp: initial_kernel_def kinv_def kinv_x_def lists_ok_def thread_ok_def tstat_def)

section \<open>A concrete kernel\<close>

text \<open>An idle thread 0 of priority 31 that is running, and two ready threads 1 and 2 of priority 10.\<close>

definition demo_thread :: "u8 \<Rightarrow> u8 \<Rightarrow> rt_thread" where
  "demo_thread st p = \<lparr>error = 0, stat = st, current_priority = p, init_priority = p,
     number_mask = push_bit (unat p) 1, event_set = 0, event_info = 0, init_tick = 10,
     remaining_tick = 10, systemobject = True, cleanup = False\<rparr>"

definition demo_kernel :: kernel where
  "demo_kernel =
     \<lparr>threads = (\<lambda>t. if t = 0 then demo_thread 3 31 else if t = 1 \<or> t = 2 then demo_thread 1 10
                  else demo_thread 0 0),
      lists = (\<lambda>q. if q = Prio 10 then [1, 2] else []), ready_group = push_bit 10 1,
      current = Some 0, cur_prio = 31, lock_nest = 0, int_nest = 0, tick = 100,
      timers = (\<lambda>_. \<lparr>tm_flag = 0, tm_init_tick = 0, tm_timeout_tick = 0\<rparr>), timer_list = []\<rparr>"

lemma demo_kinv: "kinv demo_kernel"
proof -
  have "thread_ok demo_kernel t" for t
    by (simp add: thread_ok_def demo_kernel_def demo_thread_def tstat_def prio_ok_def list_stat_def)
  moreover have "bit (push_bit 10 1 :: u32) p \<longleftrightarrow> p < 32 \<and> Prio p = Prio 10" for p
    unfolding bit_push_1 by auto
  then have "lists_ok demo_kernel"
    by (simp add: lists_ok_def demo_kernel_def del: push_bit_of_1)
  ultimately show ?thesis by (simp add: kinv_def kinv_x_def)
qed

section \<open>The properties\<close>


definition demo_boot :: kernel where
  "demo_boot = demo_kernel\<lparr>threads := (\<lambda>_. demo_thread 0 5), lists := (\<lambda>_. []), ready_group := 0,
     current := None\<rparr>"


text \<open>C3. The scheduler runs the best ready thread, first come first served. On a consistent kernel with
  the scheduler unlocked and some thread able to run, \<open>rt_schedule\<close> returns with a thread running
  whose priority no runnable thread beats; it makes nobody able or unable to run; if it switches, it
  takes the first thread of that thread's ready list, and a thread preempted while running goes to
  the tail of its own ready list.\<close>

theorem rt_schedule_runs_best_ready_thread:
  assumes "kinv k" and "current k = Some c" and "lock_nest k = 0" and "runnable k u"
  shows "\<exists>k' n. rt_schedule k = Some k' \<and> kinv k' \<and> current k' = Some n
    \<and> tstat k' n = RT_THREAD_RUNNING \<and> (\<forall>v. runnable k' v \<longrightarrow> prio k' n \<le> prio k' v)
    \<and> (\<forall>v. runnable k' v = runnable k v)
    \<and> (n \<noteq> c \<longrightarrow> (\<exists>ts. lists k (Prio (prio k n)) = n # ts)
        \<and> (tstat k c = RT_THREAD_RUNNING \<longrightarrow>
            lists k' (Prio (prio k c)) = removeAll n (lists k (Prio (prio k c))) @ [c]))"
proof -
  obtain k' n where r: "rt_schedule k = Some k'" "kinv k'" "current k' = Some n" "sched_rel k k'"
    "n \<noteq> c \<longrightarrow> (\<exists>ts. lists k (Prio (prio k n)) = n # ts) \<and> k' = switched k c n (prio k n)"
    "tstat k' n = RT_THREAD_RUNNING" "\<forall>v. runnable k' v \<longrightarrow> prio k' n \<le> prio k' v"
    using rt_schedule_spec [OF assms(1,2)] assms(3,4) by blast
  have "lists k' (Prio (prio k c)) = removeAll n (lists k (Prio (prio k c))) @ [c]"
    if "n \<noteq> c" "tstat k c = RT_THREAD_RUNNING"
    using r(5) that switched_spec(12) [OF assms(1,2), of n "prio k n" "Prio (prio k c)"] by fastforce
  with r sched_relD(10) [OF r(4)] show ?thesis by metis
qed

theorem rt_schedule_runs_best_ready_thread_witness:
  "\<exists>k' n. rt_schedule demo_kernel = Some k' \<and> current k' = Some n \<and> prio k' n \<le> 10"
proof -
  have "current demo_kernel = Some 0" "lock_nest demo_kernel = 0" "runnable demo_kernel 1"
    by (simp_all add: demo_kernel_def demo_thread_def runnable_def tstat_def)
  from rt_schedule_runs_best_ready_thread [OF demo_kinv this] obtain k' n where
    r: "rt_schedule demo_kernel = Some k'" "current k' = Some n"
    "\<forall>v. runnable k' v \<longrightarrow> prio k' n \<le> prio k' v" "\<forall>v. runnable k' v = runnable demo_kernel v" by blast
  have "sched_rel demo_kernel k'" using kinv_rt_schedule [OF demo_kinv r(1)] by simp
  then have "prio k' 1 = 10" using sched_relD(7) [of demo_kernel k' 1] by (simp add: demo_kernel_def demo_thread_def)
  with r \<open>runnable demo_kernel 1\<close> show ?thesis by metis
qed

text \<open>The best ready priority, when the ready list of the running thread's own priority is not empty and
  nothing better is ready.\<close>

lemma highest_own:
  assumes k: "kinv k" and l: "lists k (Prio p) = t # ts"
    and best: "\<forall>u. tstat k u = RT_THREAD_READY \<longrightarrow> p \<le> prio k u"
  shows "ready_group k \<noteq> 0 \<and> get_highest_priority_thread k = Some (t, p)"
proof -
  have "tstat k t = RT_THREAD_READY" "prio k t = p" using kinv_ready [OF k, of t p] l by simp_all
  then have g: "ready_group k \<noteq> 0" using no_ready [OF k] by blast
  obtain t' ts' q where h: "get_highest_priority_thread k = Some (t', q)" "lists k (Prio q) = t' # ts'"
    "\<forall>u. tstat k u = RT_THREAD_READY \<longrightarrow> q \<le> prio k u"
    using highest_ready [OF k g] by blast
  have "tstat k t' = RT_THREAD_READY" "prio k t' = q" using kinv_ready [OF k, of t' q] h(2) by simp_all
  then have "q = p" using best h(3) \<open>tstat k t = 1\<close> \<open>prio k t = p\<close> by (metis le_antisym)
  with g h l show ?thesis by simp
qed

text \<open>Time slices rotate, voluntary yields do not. When the running thread uses up the last tick of
  its slice while another thread of its priority is ready (and none better), the tick interrupt
  switches to that thread, reloads the slice and queues the preempted thread behind the others. But
  \<open>rt_thread_yield\<close> in the same situation changes nothing: it does not set the yield bit that
  \<open>rt_schedule\<close> asks for, so the caller keeps the processor.\<close>

theorem slice_end_rotates_yield_does_not:
  assumes "kinv k" and "current k = Some c" and "tstat k c = RT_THREAD_RUNNING" and "lock_nest k = 0"
    and "lists k (Prio (prio k c)) = t # ts"
    and "\<forall>u. tstat k u = RT_THREAD_READY \<longrightarrow> prio k c \<le> prio k u"
    and "remaining_tick (threads k c) = 1" and "timer_list k = []"
  shows "(\<exists>k'. rt_tick_increase cb k = Some k' \<and> kinv k' \<and> current k' = Some t
      \<and> lists k' (Prio (prio k c)) = ts @ [c]
      \<and> remaining_tick (threads k' c) = init_tick (threads k c) \<and> tick k' = tick k + 1)
    \<and> (stat (threads k c) AND RT_THREAD_STAT_YIELD = 0 \<longrightarrow> rt_thread_yield k = Some (0, k))"
proof
  let ?k2 = "upd_thread c (\<lambda>x. x\<lparr>remaining_tick := remaining_tick x - 1\<rparr>) (k\<lparr>tick := tick k + 1\<rparr>)"
  let ?k3 = "upd_thread c (\<lambda>x. x\<lparr>remaining_tick := init_tick x,
      stat := stat x OR RT_THREAD_STAT_YIELD\<rparr>) ?k2"
  have k3: "kinv ?k3" by (intro tick_charge_kinv assms(1))
  have s7: "(s OR 8) AND 7 = s AND (7 :: u8)" "(s OR 8) AND 8 = (8 :: u8)" for s
    by (simp_all add: bit.conj_disj_distrib2 and.commute [of _ 8])
  have f: "current ?k3 = Some c" "lists ?k3 = lists k" "tstat ?k3 = tstat k" "prio ?k3 = prio k"
    "lock_nest ?k3 = 0" "stat (threads ?k3 c) AND 8 = 8"
    using assms(2,4) by (auto simp: fun_eq_iff tstat_def s7)
  have h: "ready_group ?k3 \<noteq> 0 \<and> get_highest_priority_thread ?k3 = Some (t, prio k c)"
    by (rule highest_own [OF k3]) (use assms(5,6) f(2,3) fun_cong [OF f(4)] in auto)
  have pc: "prio ?k3 c = prio k c" using fun_cong [OF f(4), of c] .
  have t: "t \<in> set (lists ?k3 (Prio (prio k c)))" using assms(5) f(2) by simp
  have nk: "\<not> keeps_running ?k3 c (prio k c)" using f(6) pc by (simp add: keeps_running_def)
  let ?k' = "switched ?k3 c t (prio k c)"
  note sw = switched_spec [OF k3 f(1) t]
  have r: "rt_schedule ?k3 = Some ?k'"
    using rt_schedule_cases [OF k3 f(1)] h nk f(5) by (simp del: upd_thread_simps)
  have c: "t \<noteq> c" using kinv_current [OF k3 f(1) t] .
  have "t \<notin> set ts" using kinv_lists [OF assms(1)] assms(5) unfolding lists_ok_def by (metis distinct.simps(2))
  then have l: "lists ?k' (Prio (prio k c)) = ts @ [c]"
    using sw(12) [of "Prio (prio k c)"] f(2,3) pc assms(3,5) by (simp del: upd_thread_simps)
  have rem: "remaining_tick (threads ?k' c) = init_tick (threads k c)"
  proof -
    have "(threads ?k' c)\<lparr>stat := 0\<rparr> = (threads ?k3 c)\<lparr>stat := 0\<rparr>"
      using switched_sched_rel [OF k3 f(1) t] unfolding sched_rel_def by blast
    then show ?thesis unfolding same_but_stat by simp
  qed
  have tl: "timer_list ?k' = []" "tick ?k' = tick k + 1" using sw(4,6) assms(8) by simp_all
  have "rt_tick_increase cb k = rt_timer_check cb ?k'"
    using r assms(2,7) by (simp add: rt_tick_increase_def rt_thread_self_def rt_thread_yield_def)
  also have "\<dots> = Some ?k'"
    unfolding rt_timer_check_def by (subst rt_timer_check_loop.simps) (simp add: tl)
  finally show "\<exists>k'. rt_tick_increase cb k = Some k' \<and> kinv k' \<and> current k' = Some t
      \<and> lists k' (Prio (prio k c)) = ts @ [c]
      \<and> remaining_tick (threads k' c) = init_tick (threads k c) \<and> tick k' = tick k + 1"
    using sw(1,2) l rem tl(2) by blast
  show "stat (threads k c) AND RT_THREAD_STAT_YIELD = 0 \<longrightarrow> rt_thread_yield k = Some (0, k)"
    using rt_schedule_cases [OF assms(1,2)] highest_own [OF assms(1,5,6)] assms(3)
    by (simp add: rt_thread_yield_def keeps_running_def)
qed

definition demo_rr :: kernel where
  "demo_rr = demo_kernel\<lparr>threads := (\<lambda>t. if t = 1 then (demo_thread 3 10)\<lparr>remaining_tick := 1\<rparr>
       else if t = 2 then demo_thread 1 10 else demo_thread 0 0),
     lists := (\<lambda>q. if q = Prio 10 then [2] else []), current := Some 1\<rparr>"

lemma demo_rr_kinv: "kinv demo_rr"
proof -
  have "thread_ok demo_rr t" for t
    by (simp add: thread_ok_def demo_rr_def demo_kernel_def demo_thread_def tstat_def prio_ok_def list_stat_def)
  moreover have "bit (push_bit 10 1 :: u32) p \<longleftrightarrow> p < 32 \<and> Prio p = Prio 10" for p
    unfolding bit_push_1 by auto
  then have "lists_ok demo_rr" by (simp add: lists_ok_def demo_rr_def demo_kernel_def del: push_bit_of_1)
  ultimately show ?thesis by (simp add: kinv_def kinv_x_def)
qed

theorem slice_end_rotates_yield_does_not_witness:
  "(\<exists>k'. rt_tick_increase (\<lambda>_. Some) demo_rr = Some k' \<and> current k' = Some 2
      \<and> lists k' (Prio 10) = [1]) \<and> rt_thread_yield demo_rr = Some (0, demo_rr)"
proof -
  have f: "current demo_rr = Some 1" "tstat demo_rr 1 = 3" "lock_nest demo_rr = 0" "prio demo_rr 1 = 10"
    "lists demo_rr (Prio (prio demo_rr 1)) = [2]" "remaining_tick (threads demo_rr 1) = 1"
    "timer_list demo_rr = []" "stat (threads demo_rr 1) AND 8 = 0"
    "\<forall>u. tstat demo_rr u = 1 \<longrightarrow> prio demo_rr 1 \<le> prio demo_rr u"
    by (simp_all add: demo_rr_def demo_kernel_def demo_thread_def tstat_def)
  from slice_end_rotates_yield_does_not [OF demo_rr_kinv f(1,2,3,5,9,6,7), of "\<lambda>_. Some"] f(4,8)
  show ?thesis by auto
qed

text \<open>Timers are kept in the order of their expiry. Starting a timer whose period is below
  \<open>RT_TICK_MAX / 2\<close> takes it out of the list and puts it back behind every timer that expires no
  later and before the others, counted from the present tick, also when the tick counter wraps in
  between; longer periods are refused by the assertion.\<close>

theorem rt_timer_start_keeps_expiry_order:
  assumes "timers_sorted k" and "tm_init_tick (timers k tm) < 0x7fffffff"
  shows "\<exists>k'. rt_timer_start tm k = Some (0, k') \<and> timers_sorted k'
    \<and> (let n = unat (tm_init_tick (timers k tm)); xs = removeAll tm (timer_list k) in
        timer_rem k' tm = n
        \<and> timer_list k' = takeWhile (\<lambda>u. timer_rem k u \<le> n) xs @ tm # dropWhile (\<lambda>u. timer_rem k u \<le> n) xs)
    \<and> (\<forall>p. \<not> p < 0x7fffffff \<longrightarrow>
        rt_timer_start tm (upd_timer tm (\<lambda>x. x\<lparr>tm_init_tick := p\<rparr>) k) = None)"
proof -
  have u: "unat (tm_init_tick (timers k tm)) < 0x7fffffff" using assms(2) by (simp add: word_less_nat_alt)
  show ?thesis
    using timer_started_sorted [OF assms(1) u] assms(2)
    by (simp add: rt_timer_start_eq Let_def)
qed

definition demo_timers :: kernel where
  "demo_timers = demo_kernel\<lparr>tick := 0xfffffff0,
     timers := (\<lambda>tm. if tm = OwnTimer 1 then \<lparr>tm_flag = 1, tm_init_tick = 5, tm_timeout_tick = 0xfffffff5\<rparr>
       else \<lparr>tm_flag = 0, tm_init_tick = 32, tm_timeout_tick = 0\<rparr>), timer_list := [OwnTimer 1]\<rparr>"

theorem rt_timer_start_keeps_expiry_order_witness:
  "\<exists>k'. rt_timer_start (OwnTimer 2) demo_timers = Some (0, k')
     \<and> timer_list k' = [OwnTimer 1, OwnTimer 2]"
proof -
  have "timers_sorted demo_timers" "tm_init_tick (timers demo_timers (OwnTimer 2)) < 0x7fffffff"
    by (simp_all add: timers_sorted_def demo_timers_def timer_rem_def)
  from rt_timer_start_keeps_expiry_order [OF this] show ?thesis
    by (auto simp: Let_def demo_timers_def timer_rem_def)
qed


lemma timer_expired_window:
  fixes now n j :: u32
  assumes "unat n < 0x7fffffff" "unat j \<le> unat n"
  shows "(now + j) - (now + n) < RT_TICK_MAX div 2 \<longleftrightarrow> j = n"
proof -
  have e: "(now + j) - (now + n) = j - n" by simp
  have d: "(0xffffffff :: u32) div 2 = 0x7fffffff" by simp
  show ?thesis
    using assms unfolding e d
    by (auto simp: word_less_nat_alt word_eq_unat unat_sub_if_size word_size)
qed

lemma sleep_state:
  assumes k: "kinv k" and c: "current k = Some c" "tstat k c = RT_THREAD_RUNNING"
    and n: "n < 0x7fffffff"
  shows "\<exists>k'. Option.bind (suspend_and_arm c n k) rt_schedule = Some k' \<and> kinv k'
    \<and> tstat k' c = RT_THREAD_SUSPEND \<and> ThreadTimer c \<in> set (timer_list k') \<and> tick k' = tick k
    \<and> tm_timeout_tick (timers k' (ThreadTimer c)) = tick k + n"
proof -
  let ?k1 = "armed c n (suspended c k)"
  have a: "suspend_and_arm c n k = Some ?k1" "kinv ?k1"
    using suspend_and_arm_spec [OF k _ n, of c] c(2) by simp_all
  have c1: "current ?k1 = Some c" using c(1) by simp
  obtain k' where r: "rt_schedule ?k1 = Some k'" "kinv k'" "sched_rel ?k1 k'"
    using rt_schedule_spec [OF a(2) c1] by blast
  have s: "tstat ?k1 c = RT_THREAD_SUSPEND" by (simp add: tstat_def)
  then have "tstat k' c = RT_THREAD_SUSPEND" using sched_relD(12) [OF r(3), of c] by (simp add: runnable_def)
  with a r sched_relD(1,2,3) [OF r(3)] show ?thesis by simp
qed

text \<open>A sleeping thread wakes at the right tick, \<open>rt_thread_delay_until\<close> does not. After
  \<open>rt_thread_sleep(n)\<close> the caller is suspended, and its timer is not expired before tick \<open>n\<close> from now
  and is expired then. \<open>rt_thread_delay_until(&last, inc)\<close>, called when \<open>e < inc\<close> ticks have passed
  since \<open>last\<close>, sets the timer to \<open>last + inc + 2 e\<close> instead of \<open>last + inc\<close>.\<close>

theorem sleep_wakes_on_time_delay_until_late:
  assumes "kinv k" and "current k = Some c" and "tstat k c = RT_THREAD_RUNNING"
  shows "(n < 0x7fffffff \<longrightarrow>
      (\<exists>k'. rt_thread_sleep_enter n k = Some k' \<and> kinv k' \<and> tstat k' c = RT_THREAD_SUSPEND
        \<and> ThreadTimer c \<in> set (timer_list k')
        \<and> (\<forall>j. unat j \<le> unat n \<longrightarrow> timer_expired (tick k + j) k' (ThreadTimer c) = (j = n))))
    \<and> (tick k - prev < inc \<and> tick k - prev + inc < 0x7fffffff \<longrightarrow>
      (\<exists>k'. rt_thread_delay_until_enter prev inc k = Some (True, tick k - prev + inc, k')
        \<and> tstat k' c = RT_THREAD_SUSPEND
        \<and> tm_timeout_tick (timers k' (ThreadTimer c)) = prev + inc + 2 * (tick k - prev)))"
proof (intro conjI impI)
  assume n: "n < 0x7fffffff"
  then have u: "unat n < 0x7fffffff" by (simp add: word_less_nat_alt)
  obtain k' where k': "Option.bind (suspend_and_arm c n k) rt_schedule = Some k'" "kinv k'"
    "tstat k' c = 2" "ThreadTimer c \<in> set (timer_list k')"
    "tm_timeout_tick (timers k' (ThreadTimer c)) = tick k + n"
    using sleep_state [OF assms n] by blast
  then show "\<exists>k'. rt_thread_sleep_enter n k = Some k' \<and> kinv k' \<and> tstat k' c = RT_THREAD_SUSPEND
        \<and> ThreadTimer c \<in> set (timer_list k')
        \<and> (\<forall>j. unat j \<le> unat n \<longrightarrow> timer_expired (tick k + j) k' (ThreadTimer c) = (j = n))"
    using assms(2) timer_expired_window [OF u]
    by (auto simp: rt_thread_sleep_enter_def rt_thread_self_def timer_expired_def)
next
  assume a: "tick k - prev < inc \<and> tick k - prev + inc < 0x7fffffff"
  then have "tick k - prev + inc < 0x7fffffff" by simp
  from sleep_state [OF assms this] obtain k' where
    "Option.bind (suspend_and_arm c (tick k - prev + inc) k) rt_schedule = Some k'"
    "tstat k' c = 2" "tm_timeout_tick (timers k' (ThreadTimer c)) = tick k + (tick k - prev + inc)" by blast
  then show "\<exists>k'. rt_thread_delay_until_enter prev inc k = Some (True, tick k - prev + inc, k')
        \<and> tstat k' c = RT_THREAD_SUSPEND
        \<and> tm_timeout_tick (timers k' (ThreadTimer c)) = prev + inc + 2 * (tick k - prev)"
    using assms(2) a
    by (auto simp: rt_thread_delay_until_enter_def rt_thread_self_def Let_def bind_eq_Some_conv)
qed

theorem sleep_wakes_on_time_delay_until_late_witness:
  "kinv demo_kernel \<and> (\<exists>k'. rt_thread_sleep_enter 20 demo_kernel = Some k'
      \<and> timer_expired 120 k' (ThreadTimer 0) \<and> \<not> timer_expired 119 k' (ThreadTimer 0))"
proof -
  have f: "current demo_kernel = Some 0" "tstat demo_kernel 0 = 3" "tick demo_kernel = 100"
    by (simp_all add: demo_kernel_def demo_thread_def tstat_def)
  from sleep_wakes_on_time_delay_until_late [OF demo_kinv f(1,2), of 20 0 0] obtain k' where
    k': "rt_thread_sleep_enter 20 demo_kernel = Some k'"
    "\<forall>j. unat j \<le> unat (20 :: u32) \<longrightarrow> timer_expired (100 + j) k' (ThreadTimer 0) = (j = 20)"
    using f(3) by auto
  from k'(2) [rule_format, of 20] k'(2) [rule_format, of 19] k'(1) demo_kinv show ?thesis by auto
qed

definition demo_sleeper :: kernel where
  "demo_sleeper = demo_kernel\<lparr>threads := (threads demo_kernel)(3 := demo_thread 2 7),
     timers := (\<lambda>_. \<lparr>tm_flag = 1, tm_init_tick = 5, tm_timeout_tick = 100\<rparr>),
     timer_list := [ThreadTimer 3]\<rparr>"


text \<open>A one-shot timer that its own callback starts again cannot be stopped any more.
  \<open>rt_timer_check\<close> clears the activated flag after the callback, though the callback has just linked
  the timer again: it stays armed, and \<open>rt_timer_stop\<close> answers \<open>-RT_ERROR\<close> and leaves it armed.\<close>

theorem oneshot_restarted_by_callback_cannot_be_stopped:
  assumes "timer_list k = [OwnTimer i]" and "timer_expired (tick k) k (OwnTimer i)"
    and "tm_flag (timers k (OwnTimer i)) AND RT_TIMER_FLAG_PERIODIC = 0"
    and "0 < tm_init_tick (timers k (OwnTimer i))" and "tm_init_tick (timers k (OwnTimer i)) < 0x7fffffff"
    and "\<And>k. cb i k = map_option snd (rt_timer_start (OwnTimer i) k)"
  shows "\<exists>k'. rt_timer_check cb k = Some k' \<and> timer_list k' = [OwnTimer i]
    \<and> rt_timer_stop (OwnTimer i) k' = (- RT_ERROR, k')"
proof -
  let ?tm = "OwnTimer i"
  let ?k1 = "timer_started (rt_timer_remove ?tm k) ?tm"
  let ?k2 = "upd_timer ?tm clear_activated ?k1"
  have l: "timer_list ?k1 = [?tm]" using assms(1) by (simp add: timer_started_def Let_def)
  have fl: "tm_flag (timers ?k1 ?tm) AND 2 = 0"
  proof -
    have "((f AND - 2) OR 1) AND 2 = f AND (2 :: u8)" for f
    proof -
      have "(- 2) AND (2 :: u8) = 2" by simp
      then have "(f AND - 2) AND 2 = f AND (2 :: u8)" by (metis and.assoc)
      then show ?thesis by (simp add: bit.conj_disj_distrib2)
    qed
    then show ?thesis using assms(3)
      by (simp add: timer_started_def Let_def set_activated_def clear_activated_def)
  qed
  have x: "tm_timeout_tick (timers ?k2 ?tm) = tick k + tm_init_tick (timers k ?tm)"
    by (simp add: clear_activated_def del: fun_upd_apply) (simp add: clear_activated_def)
  let ?n = "tm_init_tick (timers k ?tm)"
  have un: "unat ?n < 0x7fffffff" "(0 :: u32) \<noteq> ?n"
    using assms(5) assms(4) [unfolded word_gt_0] by (simp_all add: word_less_nat_alt)
  have ne: "\<not> timer_expired (tick k) ?k2 ?tm"
    using timer_expired_window [OF un(1), of 0 "tick k"] un(2)
    unfolding timer_expired_def x by simp
  have "rt_timer_check cb k = rt_timer_check_loop cb (tick k) ?k2"
    unfolding rt_timer_check_def rt_tick_get_def using assms(1,2,5) fl
    by (subst rt_timer_check_loop.simps)
      (simp add: timer_callback_def assms(6) rt_timer_start_eq timer_rearm_def Let_def)
  also have "\<dots> = Some ?k2"
    using ne l by (subst rt_timer_check_loop.simps) simp
  finally have "rt_timer_check cb k = Some ?k2" .
  moreover have "rt_timer_stop ?tm ?k2 = (- 1, ?k2)" by (simp add: rt_timer_stop_def)
  ultimately show ?thesis using l by simp
qed

theorem oneshot_restarted_by_callback_cannot_be_stopped_witness:
  "\<exists>k'. rt_timer_check (\<lambda>i k. map_option snd (rt_timer_start (OwnTimer i) k))
      (demo_timers\<lparr>tick := 0xfffffff5\<rparr>) = Some k'
     \<and> rt_timer_stop (OwnTimer 1) k' = (- RT_ERROR, k')"
proof -
  let ?k = "demo_timers\<lparr>tick := 0xfffffff5\<rparr>"
  have "timer_list ?k = [OwnTimer 1]" "timer_expired (tick ?k) ?k (OwnTimer 1)"
    "tm_flag (timers ?k (OwnTimer 1)) AND 2 = 0" "0 < tm_init_tick (timers ?k (OwnTimer 1))"
    "tm_init_tick (timers ?k (OwnTimer 1)) < 0x7fffffff"
    by (simp_all add: demo_timers_def timer_expired_def)
  from oneshot_restarted_by_callback_cannot_be_stopped [OF this,
      of "\<lambda>i k. map_option snd (rt_timer_start (OwnTimer i) k)"] show ?thesis by auto
qed

end
