(* ===== verification/Ipc_Base.thy ===== *)
theory Ipc_Base
  imports Clock
begin

text \<open>
  The part of \<open>ipc.c\<close> that all IPC objects share: suspending the calling thread on an object's list
  in arrival or priority order, waking the first waiter, and waking all of them with
  \<open>-RT_ERROR\<close>. Every blocking call has the same shape: suspend, arm the thread's timer if a timeout was
  given, call the scheduler; that shape is \<open>ipc_block\<close>.
\<close>

unbundle bit_operations_syntax

section \<open>Operations\<close>

abbreviation (input) RT_IPC_FLAG_FIFO :: u8 where "RT_IPC_FLAG_FIFO \<equiv> 0"
abbreviation (input) RT_IPC_FLAG_PRIO :: u8 where "RT_IPC_FLAG_PRIO \<equiv> 1"

text \<open>The outcome of the part of a blocking call up to the switch: it has returned, or the caller is
  suspended and continues later.\<close>

datatype outcome = Returned int | Blocked

datatype ipc_cmd = RT_IPC_CMD_RESET | RT_IPC_CMD_OTHER

text \<open>The scan of \<open>RT_IPC_FLAG_PRIO\<close>: in front of the first thread with a worse priority.\<close>

fun ipc_insert_prio :: "(tid \<Rightarrow> nat) \<Rightarrow> tid \<Rightarrow> tid list \<Rightarrow> tid list" where
  "ipc_insert_prio pr t [] = [t]"
| "ipc_insert_prio pr t (s # ss) = (if pr t < pr s then t # s # ss else s # ipc_insert_prio pr t ss)"

text \<open>A flag that is neither \<open>FIFO\<close> nor \<open>PRIO\<close> links the thread nowhere.\<close>

definition rt_ipc_list_suspend :: "qhead \<Rightarrow> tid \<Rightarrow> u8 \<Rightarrow> kernel \<Rightarrow> (int \<times> kernel) option" where
  "rt_ipc_list_suspend q t flag k = do {
     (_, k1) \<leftarrow> rt_thread_suspend t k;
     Some (RT_EOK,
       if flag = RT_IPC_FLAG_FIFO then rt_list_insert_before q t k1
       else if flag = RT_IPC_FLAG_PRIO
       then k1\<lparr>lists := (lists k1)(q := ipc_insert_prio (prio k1) t (lists k1 q))\<rparr>
       else k1)
   }"

definition rt_ipc_list_resume :: "qhead \<Rightarrow> kernel \<Rightarrow> (int \<times> kernel) option" where
  "rt_ipc_list_resume q k =
     (case lists k q of [] \<Rightarrow> None | t # _ \<Rightarrow> Some (RT_EOK, snd (rt_thread_resume t k)))"

text \<open>The loop ends only if resuming takes the first waiter off the list.\<close>

partial_function (option) rt_ipc_list_resume_all :: "qhead \<Rightarrow> kernel \<Rightarrow> kernel option" where
  "rt_ipc_list_resume_all q k =
     (case lists k q of
        [] \<Rightarrow> Some k
      | t # _ \<Rightarrow> rt_ipc_list_resume_all q
          (snd (rt_thread_resume t (upd_thread t (\<lambda>x. x\<lparr>error := - RT_ERROR\<rparr>) k))))"

text \<open>\<open>RT_DEBUG_IN_THREAD_CONTEXT\<close> and \<open>RT_DEBUG_NOT_IN_INTERRUPT\<close>.\<close>

definition in_thread_context :: "kernel \<Rightarrow> bool" where
  "in_thread_context k \<longleftrightarrow> current k \<noteq> None \<and> int_nest k = 0"

definition not_in_interrupt :: "kernel \<Rightarrow> bool" where
  "not_in_interrupt k \<longleftrightarrow> int_nest k = 0"

text \<open>The timeout is a signed number of ticks: negative waits for ever.\<close>

definition ipc_block :: "qhead \<Rightarrow> tid \<Rightarrow> u8 \<Rightarrow> 32 word \<Rightarrow> kernel \<Rightarrow> kernel option" where
  "ipc_block q t flag time k = do {
     (_, k1) \<leftarrow> rt_ipc_list_suspend q t flag k;
     k2 \<leftarrow> (if 0 < sint time
            then (let (_, _, ka) = rt_timer_control (ThreadTimer t) RT_TIMER_CTRL_SET_TIME time k1 in
                  map_option snd (rt_timer_start (ThreadTimer t) ka))
            else Some k1);
     rt_schedule k2
   }"

text \<open>The loops of the mailbox and message queue recompute a positive timeout after each wait:
  \<open>timeout -= rt_tick_get() - tick_delta; if (timeout < 0) timeout = 0;\<close>\<close>

definition timeout_left :: "32 word \<Rightarrow> u32 \<Rightarrow> kernel \<Rightarrow> 32 word" where
  "timeout_left timeout tick0 k =
     (if 0 < sint timeout
      then (let left = timeout - (rt_tick_get k - tick0) in if sint left < 0 then 0 else left)
      else timeout)"

section \<open>Order of the waiters\<close>

interpretation prio_queue: ordered_queue pr "\<lambda>t ts. True" "ipc_insert_prio pr" for pr :: "tid \<Rightarrow> nat"
  by unfold_locales auto

lemma set_ipc_insert [simp]: "set (ipc_insert_prio pr t ts) = insert t (set ts)"
  by (rule prio_queue.set_ins) simp

text \<open>How a thread is queued under each flag.\<close>

definition queued :: "u8 \<Rightarrow> (tid \<Rightarrow> nat) \<Rightarrow> tid \<Rightarrow> tid list \<Rightarrow> tid list" where
  "queued flag pr t ts = (if flag = RT_IPC_FLAG_FIFO then ts @ [t] else ipc_insert_prio pr t ts)"

lemma set_queued [simp]: "set (queued flag pr t ts) = insert t (set ts)"
  by (simp add: queued_def)

lemma distinct_queued: "distinct ts \<Longrightarrow> t \<notin> set ts \<Longrightarrow> distinct (queued flag pr t ts)"
  by (simp add: queued_def prio_queue.distinct_ins)

lemma queued_cong:
  "(\<And>u. u \<in> insert t (set ts) \<Longrightarrow> pr u = pr' u) \<Longrightarrow> queued flag pr t ts = queued flag pr' t ts"
proof -
  have "ipc_insert_prio pr t ts = ipc_insert_prio pr' t ts"
    if "\<And>u. u \<in> insert t (set ts) \<Longrightarrow> pr u = pr' u"
    using that by (induction ts) auto
  then show "(\<And>u. u \<in> insert t (set ts) \<Longrightarrow> pr u = pr' u) \<Longrightarrow> ?thesis"
    by (simp add: queued_def)
qed

section \<open>Suspending the caller on a list\<close>

definition flag_ok :: "u8 \<Rightarrow> bool" where
  "flag_ok flag \<longleftrightarrow> flag = RT_IPC_FLAG_FIFO \<or> flag = RT_IPC_FLAG_PRIO"

definition wait_queue :: "qhead \<Rightarrow> bool" where
  "wait_queue q \<longleftrightarrow> (case q of WaitQ _ \<Rightarrow> True | SendQ _ \<Rightarrow> True | _ \<Rightarrow> False)"

lemma wait_queue_simps [simp]: "wait_queue (WaitQ a)" "wait_queue (SendQ a)"
  "\<not> wait_queue (Prio p)" "\<not> wait_queue Defunct"
  by (simp_all add: wait_queue_def)

lemma waiter_suspended:
  "kinv k \<Longrightarrow> wait_queue q \<Longrightarrow> t \<in> set (lists k q) \<Longrightarrow> tstat k t = RT_THREAD_SUSPEND"
  using kinv_thread [of k t]
  by (auto simp: thread_ok_def list_stat_def wait_queue_def split: qhead.splits)

text \<open>The state after a thread has been taken off the ready list and linked into a waiting list, which
  then is \<open>ys\<close>; and the state with its timer armed for a positive timeout.\<close>

definition placed :: "qhead \<Rightarrow> tid list \<Rightarrow> tid \<Rightarrow> kernel \<Rightarrow> kernel" where
  "placed q ys t k = (suspended t k)\<lparr>lists := (lists (suspended t k))(q := ys)\<rparr>"

definition blocked_at :: "qhead \<Rightarrow> tid list \<Rightarrow> tid \<Rightarrow> 32 word \<Rightarrow> kernel \<Rightarrow> kernel" where
  "blocked_at q ys t time k =
     (if 0 < sint time then armed t time (placed q ys t k) else placed q ys t k)"

lemma placed_simps [simp]:
  "threads (placed q ys t k) = (threads k)(t := set_stat RT_THREAD_SUSPEND (threads k t))"
  "current (placed q ys t k) = current k" "tick (placed q ys t k) = tick k"
  "lock_nest (placed q ys t k) = lock_nest k" "int_nest (placed q ys t k) = int_nest k"
  "timer_list (placed q ys t k) = timer_list (suspended t k)"
  "timers (placed q ys t k) = timers (suspended t k)"
  "lists (placed q ys t k) = (\<lambda>r. removeAll t (lists k r))(q := ys)"
  by (simp_all add: placed_def)

lemma blocked_at_simps [simp]:
  "threads (blocked_at q ys t time k) = (threads k)(t := set_stat RT_THREAD_SUSPEND (threads k t))"
  "current (blocked_at q ys t time k) = current k" "tick (blocked_at q ys t time k) = tick k"
  "lock_nest (blocked_at q ys t time k) = lock_nest k" "int_nest (blocked_at q ys t time k) = int_nest k"
  "lists (blocked_at q ys t time k) = lists (placed q ys t k)"
  by (simp_all add: blocked_at_def)

lemma runnable_not_waiting:
  "kinv k \<Longrightarrow> runnable k t \<Longrightarrow> wait_queue q \<Longrightarrow> t \<notin> set (lists k q)"
  using waiter_suspended [of k q t] by (auto simp: runnable_def)

lemma placed_spec:
  assumes k: "kinv k" and t: "runnable k t" and q: "wait_queue q"
    and ys: "distinct ys" "set ys = insert t (set (lists k q))"
  shows "kinv (placed q ys t k) \<and> tstat (placed q ys t k) t = RT_THREAD_SUSPEND"
proof -
  have t': "tstat k t = RT_THREAD_READY \<or> tstat k t = RT_THREAD_RUNNING" using t by (simp add: runnable_def)
  note s = rt_thread_suspend_spec [OF k t']
  have st: "tstat (placed q ys t k) t = RT_THREAD_SUSPEND" by (simp add: tstat_def)
  have i: "kinv_x {t} (placed q ys t k)"
    unfolding placed_def
  proof (rule kinv_x_link)
    show "kinv_x {t} (suspended t k)" "\<not> is_linked (suspended t k) t" using s by (auto intro: kinv_x_of)
    show "q \<noteq> Prio p" for p using q by auto
    show "set ys = insert t (set (lists (suspended t k) q))" using ys(2) by auto
  qed (use ys(1) in simp_all)
  have "t \<in> set (lists (placed q ys t k) r) \<longleftrightarrow> r = q" for r using ys(2) by auto
  moreover have "list_stat (placed q ys t k) t q"
    using q st by (simp add: list_stat_def wait_queue_def split: qhead.splits)
  moreover have "prio_ok (placed q ys t k) t"
    using kinv_settled [OF k, of t] t' by (auto simp: prio_ok_def)
  ultimately have "thread_ok (placed q ys t k) t"
    using st by (simp add: thread_ok_def del: placed_simps)
  with i st show ?thesis by (simp add: kinv_I)
qed

lemma rt_ipc_list_suspend_spec:
  assumes k: "kinv k" and t: "runnable k t" and q: "wait_queue q" and f: "flag_ok flag"
  shows "rt_ipc_list_suspend q t flag k = Some (0, placed q (queued flag (prio k) t (lists k q)) t k)"
proof -
  have "tstat k t = RT_THREAD_READY \<or> tstat k t = RT_THREAD_RUNNING" using t by (simp add: runnable_def)
  note s = rt_thread_suspend_spec [OF k this]
  have pr: "prio (suspended t k) = prio k" by (auto simp: fun_eq_iff)
  have l: "removeAll t (lists k q) = lists k q"
    using runnable_not_waiting [OF k t q] by (intro removeAll_id)
  show ?thesis using s f l by (auto simp: rt_ipc_list_suspend_def placed_def queued_def flag_ok_def
        rt_list_insert_before_def pr simp del: suspended_simps(1))
qed

lemma timeout_positive: "0 < sint time \<Longrightarrow> time \<noteq> (0x7fffffff :: 32 word) \<Longrightarrow> time < 0x7fffffff"
proof -
  assume a: "0 < sint time" "time \<noteq> 0x7fffffff"
  then have "unat time < 2147483648"
    using sint_of_nonneg [of time] sint_lt [of time] by (simp del: of_nat_unat)
  then show "time < 0x7fffffff" using a(2) by (simp add: word_less_nat_alt word_eq_unat)
qed

text \<open>Blocking the running thread: it ends up suspended on the list, with its timer armed if a
  positive timeout was given, and another thread runs if one is ready.\<close>

lemma block_and_schedule:
  assumes k: "kinv k" and c: "current k = Some c" and t: "runnable k c" and q: "wait_queue q"
    and ys: "distinct ys" "set ys = insert c (set (lists k q))"
  shows "\<exists>k'. rt_schedule (blocked_at q ys c time k) = Some k' \<and> kinv k' \<and> current k' \<noteq> None
    \<and> tstat k' c = RT_THREAD_SUSPEND \<and> lists k' q = ys
    \<and> (\<forall>r. wait_queue r \<longrightarrow> r \<noteq> q \<longrightarrow> lists k' r = lists k r)
    \<and> (\<forall>u. u \<noteq> c \<longrightarrow> runnable k' u = runnable k u \<and> (\<not> runnable k u \<longrightarrow> threads k' u = threads k u))
    \<and> (\<forall>u. error (threads k' u) = error (threads k u) \<and> prio k' u = prio k u)
    \<and> event_set (threads k' c) = event_set (threads k c) \<and> event_info (threads k' c) = event_info (threads k c)
    \<and> (0 < sint time \<longrightarrow> ThreadTimer c \<in> set (timer_list k')
        \<and> tm_timeout_tick (timers k' (ThreadTimer c)) = tick k + time) \<and> tick k' = tick k"
proof -
  let ?b = "blocked_at q ys c time k"
  note w = placed_spec [OF k t q ys]
  have kb: "kinv ?b" using w kinv_armed [of "placed q ys c k" c time] by (simp add: blocked_at_def)
  have cb: "current ?b = Some c" using c by simp
  obtain k' n where r: "rt_schedule ?b = Some k'" "kinv k'" "current k' = Some n" "sched_rel ?b k'"
    using rt_schedule_spec [OF kb cb] by blast
  have sb: "tstat ?b c = RT_THREAD_SUSPEND" by (simp add: tstat_def)
  then have nr: "\<not> runnable ?b c" by (simp add: runnable_def)
  note rel = sched_relD [OF r(4)]
  have lw: "lists k' r = lists ?b r" if "wait_queue r" for r
    using that rel(13,14) by (cases r) simp_all
  have run: "runnable ?b u = runnable k u" "threads ?b u = threads k u" if "u \<noteq> c" for u
    using that by (simp_all add: runnable_def tstat_def)
  have "runnable k' u = runnable k u \<and> (\<not> runnable k u \<longrightarrow> threads k' u = threads k u)" if "u \<noteq> c" for u
    using rel(10,11) run [OF that] by metis
  moreover have "lists k' q = ys" using lw [OF q] by simp
  moreover have "lists k' r = lists k r" if "wait_queue r" "r \<noteq> q" for r
    using lw [OF that(1)] runnable_not_waiting [OF k t that(1)] that(2) by simp
  moreover have "error (threads k' u) = error (threads k u) \<and> prio k' u = prio k u" for u
    using rel(6,7) [of u] by simp
  moreover have "event_set (threads k' c) = event_set (threads k c)
      \<and> event_info (threads k' c) = event_info (threads k c)"
    using rel(8,9) [of c] by simp
  moreover have "tstat k' c = RT_THREAD_SUSPEND" using rel(12) [OF nr] sb by simp
  moreover have "tick k' = tick k" using rel(1) by simp
  moreover have "ThreadTimer c \<in> set (timer_list k')
        \<and> tm_timeout_tick (timers k' (ThreadTimer c)) = tick k + time" if "0 < sint time"
    using rel(2,3) that by (simp add: blocked_at_def)
  ultimately show ?thesis using r by blast
qed

lemma ipc_block_spec:
  assumes k: "kinv k" and c: "current k = Some c" and t: "runnable k c" and q: "wait_queue q"
    and f: "flag_ok flag" and time: "time \<noteq> 0x7fffffff"
  shows "\<exists>k'. ipc_block q c flag time k = Some k' \<and> kinv k' \<and> current k' \<noteq> None
    \<and> tstat k' c = RT_THREAD_SUSPEND \<and> lists k' q = queued flag (prio k) c (lists k q)
    \<and> (\<forall>r. wait_queue r \<longrightarrow> r \<noteq> q \<longrightarrow> lists k' r = lists k r)
    \<and> (\<forall>u. u \<noteq> c \<longrightarrow> runnable k' u = runnable k u \<and> (\<not> runnable k u \<longrightarrow> threads k' u = threads k u))
    \<and> (\<forall>u. error (threads k' u) = error (threads k u) \<and> prio k' u = prio k u)
    \<and> event_set (threads k' c) = event_set (threads k c) \<and> event_info (threads k' c) = event_info (threads k c)
    \<and> (0 < sint time \<longrightarrow> ThreadTimer c \<in> set (timer_list k')
        \<and> tm_timeout_tick (timers k' (ThreadTimer c)) = tick k + time) \<and> tick k' = tick k"
proof -
  let ?ys = "queued flag (prio k) c (lists k q)"
  have ys: "distinct ?ys" "set ?ys = insert c (set (lists k q))"
    using kinv_lists [OF k] runnable_not_waiting [OF k t q] by (auto simp: lists_ok_def intro: distinct_queued)
  have "ipc_block q c flag time k = rt_schedule (blocked_at q ?ys c time k)"
    using rt_ipc_list_suspend_spec [OF k t q f] timeout_positive [OF _ time]
    by (auto simp: ipc_block_def rt_timer_start_eq blocked_at_def armed_def Let_def)
  with block_and_schedule [OF k c t q ys, of time] show ?thesis by simp
qed

section \<open>Waking waiters\<close>

lemma only_queue:
  assumes "kinv k" "t \<in> set (lists k q)" "r \<noteq> q"
  shows "removeAll t (lists k r) = lists k r"
  using one_list [OF kinv_lists [OF assms(1)] assms(2), of r] assms(3) by (intro removeAll_id) blast

lemma rt_ipc_list_resume_spec:
  assumes k: "kinv k" and q: "wait_queue q" and l: "lists k q = t # ts"
  shows "rt_ipc_list_resume q k = Some (0, resumed t k) \<and> kinv (resumed t k)
    \<and> current (resumed t k) = current k \<and> lists (resumed t k) q = ts
    \<and> (\<forall>r. wait_queue r \<longrightarrow> r \<noteq> q \<longrightarrow> lists (resumed t k) r = lists k r)
    \<and> (\<forall>u. runnable (resumed t k) u = (u = t \<or> runnable k u))
    \<and> (\<forall>u. error (threads (resumed t k) u) = error (threads k u)
        \<and> prio (resumed t k) u = prio k u) \<and> (\<forall>u. u \<noteq> t \<longrightarrow> threads (resumed t k) u = threads k u)
    \<and> event_set (threads (resumed t k) t) = event_set (threads k t)"
proof -
  have tq: "t \<in> set (lists k q)" using l by simp
  have st: "tstat k t = RT_THREAD_SUSPEND" by (rule waiter_suspended [OF k q tq])
  note r = rt_thread_resume_spec [OF k st]
  have "distinct (lists k q)" using kinv_lists [OF k] by (simp add: lists_ok_def)
  then have "removeAll t ts = ts" using l by simp
  then have "lists (resumed t k) q = ts" using q l by (auto simp: resumed_lists)
  moreover have "lists (resumed t k) p = lists k p" if "wait_queue p" "p \<noteq> q" for p
    using that only_queue [OF k tq that(2)] by (auto simp: resumed_lists)
  moreover have "runnable (resumed t k) u = (u = t \<or> runnable k u)" for u
    using r by (cases "u = t") (auto simp: runnable_def tstat_def)
  moreover have "error (threads (resumed t k) u) = error (threads k u) \<and> prio (resumed t k) u = prio k u" for u
    by (cases "u = t") (simp_all add: resumed_thread)
  moreover have "event_set (threads (resumed t k) t) = event_set (threads k t)"
    by (simp add: resumed_thread)
  ultimately show ?thesis using r l by (simp add: rt_ipc_list_resume_def)
qed

lemma kinv_set_error: "kinv k \<Longrightarrow> kinv (upd_thread t (\<lambda>x. x\<lparr>error := e\<rparr>) k)"
  by (rule kinv_upd_thread_same) simp_all

text \<open>Waking all waiters ends, empties the list, and marks exactly those threads.\<close>

lemma rt_ipc_list_resume_all_spec:
  assumes "kinv k" "wait_queue q"
  shows "\<exists>k'. rt_ipc_list_resume_all q k = Some k' \<and> kinv k' \<and> current k' = current k \<and> lists k' q = []
    \<and> (\<forall>r. wait_queue r \<longrightarrow> r \<noteq> q \<longrightarrow> lists k' r = lists k r)
    \<and> (\<forall>u. runnable k' u = (u \<in> set (lists k q) \<or> runnable k u))
    \<and> (\<forall>u. error (threads k' u) = (if u \<in> set (lists k q) then - RT_ERROR else error (threads k u)))
    \<and> (\<forall>u. prio k' u = prio k u)"
  using assms(1)
proof (induction "lists k q" arbitrary: k)
  case Nil
  then show ?case
    by (subst rt_ipc_list_resume_all.simps) (auto intro!: exI [of _ k])
next
  case (Cons t ts)
  let ?k1 = "upd_thread t (\<lambda>x. x\<lparr>error := - 1\<rparr>) k"
  have k1: "kinv ?k1" by (rule kinv_set_error [OF Cons.prems])
  have l1: "lists ?k1 q = t # ts" using Cons.hyps(2) by simp
  note r = rt_ipc_list_resume_spec [OF k1 assms(2) l1]
  have eq: "rt_ipc_list_resume_all q k = rt_ipc_list_resume_all q (resumed t ?k1)"
    using r l1 Cons.hyps(2) [symmetric]
    by (subst rt_ipc_list_resume_all.simps) (simp add: rt_ipc_list_resume_def)
  from Cons.hyps(1) [of "resumed t ?k1"] r obtain k' where k': "rt_ipc_list_resume_all q (resumed t ?k1) = Some k'"
    "kinv k'" "current k' = current k" "lists k' q = []"
    "\<forall>p. wait_queue p \<longrightarrow> p \<noteq> q \<longrightarrow> lists k' p = lists (resumed t ?k1) p"
    "\<forall>u. runnable k' u = (u \<in> set ts \<or> runnable (resumed t ?k1) u)"
    "\<forall>u. error (threads k' u) = (if u \<in> set ts then - 1 else error (threads (resumed t ?k1) u))"
    "\<forall>u. prio k' u = prio (resumed t ?k1) u"
    by auto
  have "runnable ?k1 u = runnable k u" for u by (simp add: runnable_def tstat_def)
  then have "runnable k' u = (u \<in> set (lists k q) \<or> runnable k u)" for u
    using k'(6) r Cons.hyps(2) [symmetric] by auto
  moreover have "error (threads k' u) = (if u \<in> set (lists k q) then - 1 else error (threads k u))" for u
    using k'(7) r Cons.hyps(2) [symmetric] by auto
  moreover have "prio k' u = prio k u" for u
  proof -
    have "prio (resumed t ?k1) u = prio ?k1 u" using r by blast
    then show ?thesis using k'(8) by simp
  qed
  moreover have "lists k' p = lists k p" if "wait_queue p" "p \<noteq> q" for p
  proof -
    have "lists (resumed t ?k1) p = lists ?k1 p" using r that by blast
    then show ?thesis using k'(5) that by simp
  qed
  ultimately show ?case using eq k'(1-4) by auto
qed

text \<open>Waking the first waiter and calling the scheduler, the end of every releasing operation.\<close>

lemma resume_and_schedule:
  assumes k: "kinv k" and c: "current k \<noteq> None" and q: "wait_queue q" and l: "lists k q = t # ts"
  shows "\<exists>k'. rt_schedule (resumed t k) = Some k' \<and> kinv k' \<and> current k' \<noteq> None \<and> lists k' q = ts
    \<and> (\<forall>r. wait_queue r \<longrightarrow> r \<noteq> q \<longrightarrow> lists k' r = lists k r)
    \<and> (\<forall>u. runnable k' u = (u = t \<or> runnable k u))
    \<and> (\<forall>u. error (threads k' u) = error (threads k u) \<and> prio k' u = prio k u)"
proof -
  note r = rt_ipc_list_resume_spec [OF k q l]
  obtain c where "current (resumed t k) = Some c" using c by auto
  with rt_schedule_spec [of "resumed t k" c] r obtain k' n where
    s: "rt_schedule (resumed t k) = Some k'" "kinv k'" "current k' = Some n" "sched_rel (resumed t k) k'"
    by blast
  note rel = sched_relD [OF s(4)]
  have "lists k' p = lists (resumed t k) p" if "wait_queue p" for p
    using that rel(13,14) by (cases p) simp_all
  moreover have "runnable k' u = (u = t \<or> runnable k u)" for u using rel(10) r by simp
  moreover have "error (threads k' u) = error (threads k u) \<and> prio k' u = prio k u" for u
  proof -
    have "error (threads (resumed t k) u) = error (threads k u) \<and> prio (resumed t k) u = prio k u"
      using r by blast
    then show ?thesis using rel(6,7) [of u] by simp
  qed
  ultimately show ?thesis using s r q by auto
qed

text \<open>The tail shared by the operations that put something into an object or take it out: wake the first
  suspended thread, if there is one, and give it a chance to run.\<close>

definition wake_one :: "qhead \<Rightarrow> kernel \<Rightarrow> kernel option" where
  "wake_one q k =
     (if lists k q \<noteq> [] then do { (_, k1) \<leftarrow> rt_ipc_list_resume q k; rt_schedule k1 } else Some k)"

text \<open>What waking the first waiter of a list does to the kernel, whether or not there is one.\<close>

definition wake_first :: "qhead \<Rightarrow> kernel \<Rightarrow> kernel \<Rightarrow> bool" where
  "wake_first q k k' \<longleftrightarrow> kinv k' \<and> current k' \<noteq> None \<and> lists k' q = tl (lists k q)
     \<and> (\<forall>r. wait_queue r \<longrightarrow> r \<noteq> q \<longrightarrow> lists k' r = lists k r)
     \<and> (\<forall>u. runnable k' u = (u \<in> set (take 1 (lists k q)) \<or> runnable k u))
     \<and> (\<forall>u. error (threads k' u) = error (threads k u))"

lemma wake_first_none: "kinv k \<Longrightarrow> current k \<noteq> None \<Longrightarrow> lists k q = [] \<Longrightarrow> wake_first q k k"
  by (simp add: wake_first_def)

lemma wake_first_some:
  assumes "kinv k" "current k \<noteq> None" "wait_queue q" "lists k q \<noteq> []"
  shows "\<exists>k1 k'. rt_ipc_list_resume q k = Some (0, k1) \<and> rt_schedule k1 = Some k' \<and> wake_first q k k'"
proof -
  obtain t ts where l: "lists k q = t # ts" using assms(4) by (cases "lists k q") auto
  from resume_and_schedule [OF assms(1-3) l] rt_ipc_list_resume_spec [OF assms(1,3) l] l show ?thesis
    by (auto simp: wake_first_def)
qed

lemma wake_one_spec:
  assumes "kinv k" "current k \<noteq> None" "wait_queue q"
  shows "\<exists>k'. wake_one q k = Some k' \<and> wake_first q k k'"
  using wake_first_none [OF assms(1,2)] wake_first_some [OF assms]
  by (cases "lists k q = []") (auto simp: wake_one_def)

end
