(* ===== verification/Driver_Wait.thy ===== *)
theory Driver_Wait
  imports Ipc_Base
begin

text \<open>
  How the inter-process communication of \<open>components/drivers\<close> suspends its caller: \<open>completion.c\<close>, which is
  modelled here, and \<open>dataqueue.c\<close> append the thread to a list of their own and arm its timer with the
  same lines, without the queueing flags of \<open>ipc.c\<close>. The lines do what \<open>ipc_block\<close> does for a FIFO object,
  so the facts of \<open>Ipc_Base\<close> carry over. The lists of an object at address \<open>a\<close> are \<open>WaitQ a\<close> and \<open>SendQ a\<close>.
\<close>

section \<open>Suspending the caller\<close>

definition suspend_on :: "qhead \<Rightarrow> tid \<Rightarrow> kernel \<Rightarrow> kernel option" where
  "suspend_on q t k = do {
     (_, k1) \<leftarrow> rt_thread_suspend t k;
     Some (rt_list_insert_before q t k1)
   }"

definition arm_and_schedule :: "tid \<Rightarrow> 32 word \<Rightarrow> kernel \<Rightarrow> kernel option" where
  "arm_and_schedule t timeout k = do {
     k1 \<leftarrow> (if 0 < sint timeout
            then (let (_, _, ka) = rt_timer_control (ThreadTimer t) RT_TIMER_CTRL_SET_TIME timeout k in
                  map_option snd (rt_timer_start (ThreadTimer t) ka))
            else Some k);
     rt_schedule k1
   }"

lemma suspend_arm_eq_ipc_block:
  "Option.bind (suspend_on q t k) (arm_and_schedule t timeout) = ipc_block q t RT_IPC_FLAG_FIFO timeout k"
  by (simp add: suspend_on_def arm_and_schedule_def ipc_block_def rt_ipc_list_suspend_def split_def Let_def
      cong: if_cong)

text \<open>What a caller finds after it has been suspended: it is at the tail of the list, and everything else of
  the kernel is as \<open>ipc_block_spec\<close> says.\<close>

definition suspended_at :: "qhead \<Rightarrow> tid \<Rightarrow> 32 word \<Rightarrow> kernel \<Rightarrow> kernel \<Rightarrow> bool" where
  "suspended_at q c timeout k k' \<longleftrightarrow> kinv k' \<and> current k' \<noteq> None \<and> tstat k' c = RT_THREAD_SUSPEND
     \<and> error (threads k' c) = RT_EOK \<and> lists k' q = lists k q @ [c]
     \<and> (\<forall>r. wait_queue r \<longrightarrow> r \<noteq> q \<longrightarrow> lists k' r = lists k r)
     \<and> (0 < sint timeout \<longrightarrow> ThreadTimer c \<in> set (timer_list k')
         \<and> tm_timeout_tick (timers k' (ThreadTimer c)) = tick k + timeout)"

lemma suspend_on_spec:
  assumes "kinv k" "current k = Some c" "runnable k c" "wait_queue q" "timeout \<noteq> 0x7fffffff"
  shows "\<exists>k1 k'. suspend_on q c (upd_thread c (\<lambda>x. x\<lparr>error := RT_EOK\<rparr>) k) = Some k1
    \<and> int_nest k1 = int_nest k \<and> arm_and_schedule c timeout k1 = Some k' \<and> suspended_at q c timeout k k'"
proof -
  let ?k = "upd_thread c (\<lambda>x. x\<lparr>error := RT_EOK\<rparr>) k"
  have k: "kinv ?k" "current ?k = Some c" "runnable ?k c"
    using kinv_set_error [OF assms(1)] assms(2,3) by (simp_all add: runnable_def tstat_def)
  obtain k' where b: "ipc_block q c RT_IPC_FLAG_FIFO timeout ?k = Some k'" "suspended_at q c timeout k k'"
    using ipc_block_spec [OF k assms(4) _ assms(5), of RT_IPC_FLAG_FIFO]
    by (auto simp: flag_ok_def queued_def suspended_at_def)
  then obtain k1 where "suspend_on q c ?k = Some k1" "arm_and_schedule c timeout k1 = Some k'"
    by (auto simp: Option.bind_eq_Some_conv simp flip: suspend_arm_eq_ipc_block)
  moreover have "tstat ?k c = RT_THREAD_READY \<or> tstat ?k c = RT_THREAD_RUNNING"
    using k(3) by (simp add: runnable_def)
  from rt_thread_suspend_spec [OF k(1) this] calculation(1) have "int_nest k1 = int_nest k"
    by (auto simp: suspend_on_def rt_list_insert_before_def)
  ultimately show ?thesis using b(2) by blast
qed

section \<open>Completions\<close>

text \<open>\<open>completion.c\<close>: one thread waits for an event that another one, or an interrupt, announces.\<close>

record rt_completion =
  cp_addr :: nat
  completed :: bool

definition rt_completion_init :: "nat \<Rightarrow> kernel \<Rightarrow> rt_completion \<times> kernel" where
  "rt_completion_init a k = (\<lparr>cp_addr = a, completed = False\<rparr>, k\<lparr>lists := (lists k)(WaitQ a := [])\<rparr>)"

definition rt_completion_wait_enter ::
  "rt_completion \<Rightarrow> 32 word \<Rightarrow> kernel \<Rightarrow> (outcome \<times> rt_completion \<times> kernel) option" where
  "rt_completion_wait_enter cp timeout k =
     (if \<not> completed cp then
        if lists k (WaitQ (cp_addr cp)) \<noteq> [] then None
        else if timeout = 0 then Some (Returned (- RT_ETIMEOUT), cp, k)
        else do {
          t \<leftarrow> current k;
          k1 \<leftarrow> suspend_on (WaitQ (cp_addr cp)) t (upd_thread t (\<lambda>x. x\<lparr>error := RT_EOK\<rparr>) k);
          if not_in_interrupt k1 then do {
            k2 \<leftarrow> arm_and_schedule t timeout k1;
            Some (Blocked, cp, k2)
          }
          else None
        }
      else Some (Returned RT_EOK, cp\<lparr>completed := False\<rparr>, k))"

text \<open>The woken thread returns the error it was woken with, and clears the flag in any case.\<close>

definition rt_completion_wait_resume :: "tid \<Rightarrow> rt_completion \<Rightarrow> kernel \<Rightarrow> outcome \<times> rt_completion \<times> kernel" where
  "rt_completion_wait_resume t cp k = (Returned (error (threads k t)), cp\<lparr>completed := False\<rparr>, k)"

definition rt_completion_done :: "rt_completion \<Rightarrow> kernel \<Rightarrow> (rt_completion \<times> kernel) option" where
  "rt_completion_done cp k =
     (if completed cp then Some (cp, k)
      else (let cp1 = cp\<lparr>completed := True\<rparr> in
        case lists k (WaitQ (cp_addr cp)) of
          t # _ \<Rightarrow> map_option (Pair cp1) (rt_schedule (snd (rt_thread_resume t k)))
        | [] \<Rightarrow> Some (cp1, k)))"

lemma rt_completion_done_spec:
  assumes "kinv k" "current k \<noteq> None" "\<not> completed cp"
  shows "\<exists>k'. rt_completion_done cp k = Some (cp\<lparr>completed := True\<rparr>, k') \<and> wake_first (WaitQ (cp_addr cp)) k k'"
proof (cases "lists k (WaitQ (cp_addr cp))")
  case Nil
  then show ?thesis using wake_first_none [OF assms(1,2) Nil] assms(3) by (simp add: rt_completion_done_def)
next
  case (Cons t ts)
  with wake_first_some [OF assms(1,2), of "WaitQ (cp_addr cp)"] assms(3) show ?thesis
    by (auto simp: rt_completion_done_def rt_ipc_list_resume_def)
qed

lemma rt_completion_wait_spec:
  assumes k: "kinv k" "current k = Some c" "runnable k c" "int_nest k = 0"
    and w: "\<not> completed cp" "lists k (WaitQ (cp_addr cp)) = []" and t: "timeout \<noteq> 0" "timeout \<noteq> 0x7fffffff"
  shows "\<exists>k'. rt_completion_wait_enter cp timeout k = Some (Blocked, cp, k')
    \<and> suspended_at (WaitQ (cp_addr cp)) c timeout k k'"
proof -
  obtain k1 k' where "suspend_on (WaitQ (cp_addr cp)) c (upd_thread c (\<lambda>x. x\<lparr>error := RT_EOK\<rparr>) k) = Some k1"
    "int_nest k1 = int_nest k" "arm_and_schedule c timeout k1 = Some k'"
    "suspended_at (WaitQ (cp_addr cp)) c timeout k k'"
    using suspend_on_spec [OF k(1-3) _ t(2), of "WaitQ (cp_addr cp)"] by auto
  then show ?thesis using k(2,4) w t(1) by (simp add: rt_completion_wait_enter_def not_in_interrupt_def)
qed

section \<open>The property\<close>

text \<open>A waiting thread whose timer fires leaves the list with \<open>-RT_ETIMEOUT\<close>.\<close>

lemma waiter_times_out:
  assumes k: "kinv k" "current k \<noteq> None" and s: "tstat k c = RT_THREAD_SUSPEND" and q: "wait_queue q"
  shows "\<exists>k'. rt_thread_timeout c (rt_timer_remove (ThreadTimer c) k) = Some k' \<and> kinv k' \<and> current k' \<noteq> None
    \<and> error (threads k' c) = - RT_ETIMEOUT \<and> lists k' q = removeAll c (lists k q)"
proof -
  let ?k0 = "rt_timer_remove (ThreadTimer c) k"
  have k0: "kinv ?k0" using kinv_x_timer_remove [of "{}" k] k by (simp add: kinv_def)
  have s0: "tstat ?k0 c = RT_THREAD_SUSPEND" using s by (simp add: tstat_def)
  have d: "distinct (timer_list k)" using kinv_lists [OF k(1)] by (simp add: lists_ok_def)
  let ?k1 = "timed_out c ?k0"
  have k1: "kinv ?k1" by (rule kinv_timed_out [OF k0 s0]) (use d in simp)
  obtain e where "current ?k1 = Some e" using k(2) by auto
  from rt_schedule_spec [OF k1 this] obtain k' n where
    r: "rt_schedule ?k1 = Some k'" "kinv k'" "current k' = Some n" "sched_rel ?k1 k'" by blast
  note rel = sched_relD [OF r(4)]
  have "lists k' q = lists ?k1 q" using q rel(13,14) by (cases q) simp_all
  also have "\<dots> = removeAll c (lists k q)" using q by (auto simp: timed_out_lists)
  finally have "lists k' q = removeAll c (lists k q)" .
  moreover have "error (threads k' c) = - RT_ETIMEOUT" using rel(6) [of c] by simp
  ultimately show ?thesis using r(1-3) rt_thread_timeout_eq [OF s0] by simp
qed

text \<open>Waiting for a completion. The caller is suspended alone on the completion; the announcement wakes it with
  \<open>RT_EOK\<close> and it takes the flag back. An announcement that comes first is kept, and the next wait returns
  at once. But an announcement between the expiry of the waiter's timer and its next turn is lost:
  the waiter reports \<open>-RT_ETIMEOUT\<close> and clears the flag.\<close>

theorem completion_handshake:
  assumes k: "kinv k" "current k = Some c" "runnable k c" "int_nest k = 0"
    and cp: "\<not> completed cp" "lists k (WaitQ (cp_addr cp)) = []" and t: "timeout \<noteq> 0" "timeout \<noteq> 0x7fffffff"
  shows "\<exists>k1. rt_completion_wait_enter cp timeout k = Some (Blocked, cp, k1)
      \<and> suspended_at (WaitQ (cp_addr cp)) c timeout k k1
    \<and> (\<exists>k2. rt_completion_done cp k1 = Some (cp\<lparr>completed := True\<rparr>, k2) \<and> kinv k2 \<and> runnable k2 c
        \<and> lists k2 (WaitQ (cp_addr cp)) = []
        \<and> rt_completion_wait_resume c (cp\<lparr>completed := True\<rparr>) k2 = (Returned RT_EOK, cp, k2))
    \<and> (\<exists>k2. rt_thread_timeout c (rt_timer_remove (ThreadTimer c) k1) = Some k2 \<and> kinv k2
        \<and> rt_completion_done cp k2 = Some (cp\<lparr>completed := True\<rparr>, k2)
        \<and> rt_completion_wait_resume c (cp\<lparr>completed := True\<rparr>) k2 = (Returned (- RT_ETIMEOUT), cp, k2))
    \<and> rt_completion_done cp k = Some (cp\<lparr>completed := True\<rparr>, k)
    \<and> rt_completion_wait_enter (cp\<lparr>completed := True\<rparr>) timeout k = Some (Returned RT_EOK, cp, k)"
proof -
  let ?q = "WaitQ (cp_addr cp)"
  have clear: "cp\<lparr>completed := False\<rparr> = cp" using cp(1) by simp
  obtain k1 where k1: "rt_completion_wait_enter cp timeout k = Some (Blocked, cp, k1)" "suspended_at ?q c timeout k k1"
    using rt_completion_wait_spec [OF k cp t] by blast
  then have s: "kinv k1" "current k1 \<noteq> None" "tstat k1 c = RT_THREAD_SUSPEND" "error (threads k1 c) = 0"
    "lists k1 ?q = [c]" using cp(2) by (simp_all add: suspended_at_def)
  obtain k2 where "rt_completion_done cp k1 = Some (cp\<lparr>completed := True\<rparr>, k2)" "wake_first ?q k1 k2"
    using rt_completion_done_spec [OF s(1,2) cp(1)] by blast
  moreover from this(2) s have "kinv k2" "runnable k2 c" "lists k2 ?q = []" "error (threads k2 c) = 0"
    by (simp_all add: wake_first_def)
  ultimately have woken: "\<exists>k2. rt_completion_done cp k1 = Some (cp\<lparr>completed := True\<rparr>, k2) \<and> kinv k2 \<and> runnable k2 c
      \<and> lists k2 ?q = [] \<and> rt_completion_wait_resume c (cp\<lparr>completed := True\<rparr>) k2 = (Returned RT_EOK, cp, k2)"
    by (auto simp: rt_completion_wait_resume_def clear)
  obtain k3 where "rt_thread_timeout c (rt_timer_remove (ThreadTimer c) k1) = Some k3" "kinv k3"
    "error (threads k3 c) = - 2" "lists k3 ?q = []"
    using waiter_times_out [OF s(1-3), of ?q] s(5) by auto
  then have lost: "\<exists>k2. rt_thread_timeout c (rt_timer_remove (ThreadTimer c) k1) = Some k2 \<and> kinv k2
      \<and> rt_completion_done cp k2 = Some (cp\<lparr>completed := True\<rparr>, k2)
      \<and> rt_completion_wait_resume c (cp\<lparr>completed := True\<rparr>) k2 = (Returned (- RT_ETIMEOUT), cp, k2)"
    using cp(1) by (simp add: rt_completion_wait_resume_def rt_completion_done_def clear)
  have "rt_completion_done cp k = Some (cp\<lparr>completed := True\<rparr>, k)"
    "rt_completion_wait_enter (cp\<lparr>completed := True\<rparr>) timeout k = Some (Returned RT_EOK, cp, k)"
    using cp by (simp_all add: rt_completion_done_def rt_completion_wait_enter_def clear)
  with k1 woken lost show ?thesis by blast
qed

theorem completion_handshake_witness:
  "\<exists>k1 k2. rt_completion_wait_enter \<lparr>cp_addr = 4, completed = False\<rparr> 20 demo_rr
      = Some (Blocked, \<lparr>cp_addr = 4, completed = False\<rparr>, k1)
    \<and> rt_completion_done \<lparr>cp_addr = 4, completed = False\<rparr> k1 = Some (\<lparr>cp_addr = 4, completed = True\<rparr>, k2) \<and> runnable k2 1"
proof -
  let ?cp = "\<lparr>cp_addr = 4, completed = False\<rparr>"
  have "current demo_rr = Some 1" "runnable demo_rr 1" "int_nest demo_rr = 0" "\<not> completed ?cp"
    "lists demo_rr (WaitQ (cp_addr ?cp)) = []" "(20 :: 32 word) \<noteq> 0" "(20 :: 32 word) \<noteq> 0x7fffffff"
    by (simp_all add: demo_rr_def demo_kernel_def runnable_def tstat_def demo_thread_def)
  from completion_handshake [OF demo_rr_kinv this] show ?thesis by auto
qed

end
