(* ===== verification/DataQueue.thy ===== *)
theory DataQueue
  imports Driver_Wait Ring_Slice Fifo_Interface SmallMem
begin

text \<open>
  \<open>components/drivers/src/dataqueue.c\<close>: a queue of data blocks (pointer and size) with two free-running
  16-bit indices, a list of suspended producers (\<open>SendQ\<close>) and one of suspended consumers (\<open>WaitQ\<close>). C promotes
  the indices to \<open>int\<close>, so their difference is not taken modulo \<open>2 ^ 16\<close>. The loops are split at the switch
  as in the mailbox: \<open>_enter\<close> runs to the first return or suspension, \<open>_resume\<close> continues a suspended call;
  the timeout is armed in full again. The callback runs last, with interrupts enabled; an operation
  returns the event it is called with, if any. An index outside the array is \<open>None\<close>.
\<close>

section \<open>Operations\<close>

datatype dq_event = RT_DATAQUEUE_EVENT_POP | RT_DATAQUEUE_EVENT_PUSH | RT_DATAQUEUE_EVENT_LWM

record rt_data_item =
  data_ptr :: u32
  data_size :: u32

record rt_data_queue =
  dq_addr :: nat
  dq_size :: u16
  lwm :: u16
  dq_get :: u16
  dq_put :: u16
  dq_items :: "rt_data_item list"
  evt_notify :: bool

definition dq_count :: "rt_data_queue \<Rightarrow> int" where
  "dq_count q = int (unat (dq_put q)) - int (unat (dq_get q))"

definition dq_slot :: "u16 \<Rightarrow> rt_data_queue \<Rightarrow> nat" where
  "dq_slot i q = unat i mod unat (dq_size q)"

definition dq_notify :: "rt_data_queue \<Rightarrow> dq_event \<Rightarrow> dq_event option" where
  "dq_notify q e = (if evt_notify q then Some e else None)"

text \<open>\<open>sizeof(struct rt_data_item)\<close> is 8; the array comes from the heap of \<open>mem.c\<close> with whatever it held.\<close>

definition rt_data_queue_init :: "(nat \<Rightarrow> rt_data_item) \<Rightarrow> nat \<Rightarrow> u16 \<Rightarrow> u16 \<Rightarrow> bool \<Rightarrow> heap \<Rightarrow> kernel \<Rightarrow>
    (int \<times> rt_data_queue \<times> heap \<times> kernel) option" where
  "rt_data_queue_init junk a sz low notify h k = do {
     (p, h') \<leftarrow> rt_malloc (8 * ucast sz) h;
     let q = \<lparr>dq_addr = a, dq_size = sz, lwm = low, dq_get = 0, dq_put = 0,
              dq_items = (if p = 0 then [] else map junk [0..<unat sz]), evt_notify = notify\<rparr>;
     let k' = k\<lparr>lists := (lists k)(SendQ a := [], WaitQ a := [])\<rparr>;
     Some (if p = 0 then - 5 else RT_EOK, q, h', k')
   }"

text \<open>The head of both loops: fail at once, or suspend the caller.\<close>

definition dq_wait :: "qhead \<Rightarrow> 32 word \<Rightarrow> rt_data_queue \<Rightarrow> kernel \<Rightarrow>
    (outcome \<times> dq_event option \<times> rt_data_queue \<times> kernel) option" where
  "dq_wait qh timeout q k =
     (if timeout = 0 then Some (Returned (- RT_ETIMEOUT), None, q, k)
      else if not_in_interrupt k then do {
        t \<leftarrow> current k;
        k1 \<leftarrow> suspend_on qh t (upd_thread t (\<lambda>x. x\<lparr>error := RT_EOK\<rparr>) k);
        k2 \<leftarrow> arm_and_schedule t timeout k1;
        Some (Blocked, None, q, k2)
      }
      else None)"

definition dq_store :: "rt_data_item \<Rightarrow> rt_data_queue \<Rightarrow> kernel \<Rightarrow>
    (outcome \<times> dq_event option \<times> rt_data_queue \<times> kernel) option" where
  "dq_store x q k = do {
     items \<leftarrow> store_at (dq_items q) (dq_slot (dq_put q) q) x;
     let q1 = q\<lparr>dq_items := items, dq_put := dq_put q + 1\<rparr>;
     case lists k (WaitQ (dq_addr q)) of
       t # _ \<Rightarrow> do {
         k1 \<leftarrow> rt_schedule (snd (rt_thread_resume t k));
         Some (Returned RT_EOK, None, q1, k1)
       }
     | [] \<Rightarrow> Some (Returned RT_EOK, dq_notify q RT_DATAQUEUE_EVENT_PUSH, q1, k)
   }"

definition dq_push_pass :: "rt_data_item \<Rightarrow> 32 word \<Rightarrow> rt_data_queue \<Rightarrow> kernel \<Rightarrow>
    (outcome \<times> dq_event option \<times> rt_data_queue \<times> kernel) option" where
  "dq_push_pass x timeout q k =
     (if dq_count q = int (unat (dq_size q)) then dq_wait (SendQ (dq_addr q)) timeout q k
      else dq_store x q k)"

definition rt_data_queue_push_enter :: "rt_data_item \<Rightarrow> 32 word \<Rightarrow> rt_data_queue \<Rightarrow> kernel \<Rightarrow>
    (outcome \<times> dq_event option \<times> rt_data_queue \<times> kernel) option" where
  "rt_data_queue_push_enter = dq_push_pass"

definition rt_data_queue_push_resume :: "tid \<Rightarrow> rt_data_item \<Rightarrow> 32 word \<Rightarrow> rt_data_queue \<Rightarrow> kernel \<Rightarrow>
    (outcome \<times> dq_event option \<times> rt_data_queue \<times> kernel) option" where
  "rt_data_queue_push_resume t x timeout q k =
     (if error (threads k t) \<noteq> RT_EOK then Some (Returned (error (threads k t)), None, q, k)
      else dq_push_pass x timeout q k)"

text \<open>Taking out: the first component is what is stored through the two pointers.\<close>

definition dq_fetch :: "rt_data_queue \<Rightarrow> kernel \<Rightarrow>
    (rt_data_item option \<times> outcome \<times> dq_event option \<times> rt_data_queue \<times> kernel) option" where
  "dq_fetch q k = do {
     x \<leftarrow> load_at (dq_items q) (dq_slot (dq_get q) q);
     let q1 = q\<lparr>dq_get := dq_get q + 1\<rparr>;
     if dq_count q1 \<le> int (unat (lwm q)) then do {
       k1 \<leftarrow> (case lists k (SendQ (dq_addr q)) of
                t # _ \<Rightarrow> rt_schedule (snd (rt_thread_resume t k))
              | [] \<Rightarrow> Some k);
       Some (Some x, Returned RT_EOK, dq_notify q RT_DATAQUEUE_EVENT_LWM, q1, k1)
     }
     else Some (Some x, Returned RT_EOK, dq_notify q RT_DATAQUEUE_EVENT_POP, q1, k)
   }"

definition dq_pop_pass :: "32 word \<Rightarrow> rt_data_queue \<Rightarrow> kernel \<Rightarrow>
    (rt_data_item option \<times> outcome \<times> dq_event option \<times> rt_data_queue \<times> kernel) option" where
  "dq_pop_pass timeout q k =
     (if dq_get q = dq_put q then map_option (Pair None) (dq_wait (WaitQ (dq_addr q)) timeout q k)
      else dq_fetch q k)"

definition rt_data_queue_pop_enter :: "32 word \<Rightarrow> rt_data_queue \<Rightarrow> kernel \<Rightarrow>
    (rt_data_item option \<times> outcome \<times> dq_event option \<times> rt_data_queue \<times> kernel) option" where
  "rt_data_queue_pop_enter = dq_pop_pass"

definition rt_data_queue_pop_resume :: "tid \<Rightarrow> 32 word \<Rightarrow> rt_data_queue \<Rightarrow> kernel \<Rightarrow>
    (rt_data_item option \<times> outcome \<times> dq_event option \<times> rt_data_queue \<times> kernel) option" where
  "rt_data_queue_pop_resume t timeout q k =
     (if error (threads k t) \<noteq> RT_EOK then Some (None, Returned (error (threads k t)), None, q, k)
      else dq_pop_pass timeout q k)"

definition rt_data_queue_peak :: "rt_data_queue \<Rightarrow> (rt_data_item option \<times> int) option" where
  "rt_data_queue_peak q =
     (if dq_get q = dq_put q then Some (None, - RT_EEMPTY)
      else do { x \<leftarrow> load_at (dq_items q) (dq_slot (dq_get q) q); Some (Some x, RT_EOK) })"

text \<open>Both lists are emptied, consumers first; the two loops are the one of \<open>rt_ipc_list_resume_all\<close>. The
  data stays in the queue.\<close>

definition rt_data_queue_reset :: "rt_data_queue \<Rightarrow> kernel \<Rightarrow> kernel option" where
  "rt_data_queue_reset q k = do {
     k1 \<leftarrow> rt_ipc_list_resume_all (WaitQ (dq_addr q)) (rt_enter_critical k);
     k2 \<leftarrow> rt_ipc_list_resume_all (SendQ (dq_addr q)) k1;
     k3 \<leftarrow> rt_exit_critical k2;
     rt_schedule k3
   }"

section \<open>Invariant and contents\<close>

text \<open>Before the put index wraps.\<close>

definition dq_ok :: "rt_data_queue \<Rightarrow> bool" where
  "dq_ok q \<longleftrightarrow> 0 < unat (dq_size q) \<and> length (dq_items q) = unat (dq_size q)
     \<and> unat (dq_get q) \<le> unat (dq_put q) \<and> unat (dq_put q) \<le> unat (dq_get q) + unat (dq_size q)"

definition dq_contents :: "rt_data_queue \<Rightarrow> rt_data_item list" where
  "dq_contents q = ring_slice (dq_items q) (unat (dq_get q)) (unat (dq_put q) - unat (dq_get q))"

lemma length_dq_contents [simp]: "length (dq_contents q) = unat (dq_put q) - unat (dq_get q)"
  by (simp add: dq_contents_def)

lemma dq_full: "dq_ok q \<Longrightarrow> dq_count q = int (unat (dq_size q)) \<longleftrightarrow> \<not> length (dq_contents q) < unat (dq_size q)"
  unfolding dq_ok_def dq_count_def length_dq_contents by linarith

lemma dq_empty: "dq_ok q \<Longrightarrow> dq_get q = dq_put q \<longleftrightarrow> dq_contents q = []"
  using length_dq_contents [of q] by (auto simp: dq_ok_def word_eq_unat simp del: length_dq_contents simp flip: length_0_conv)

text \<open>Storing an item, whatever the indices are: no access outside the array, one consumer woken.\<close>

lemma dq_store_runs:
  assumes q: "0 < unat (dq_size q)" "length (dq_items q) = unat (dq_size q)" and k: "kinv k" "current k \<noteq> None"
  shows "\<exists>ev k'. dq_store x q k = Some (Returned RT_EOK, ev,
      q\<lparr>dq_items := (dq_items q)[dq_slot (dq_put q) q := x], dq_put := dq_put q + 1\<rparr>, k')
    \<and> wake_first (WaitQ (dq_addr q)) k k'
    \<and> ev = (if lists k (WaitQ (dq_addr q)) = [] then dq_notify q RT_DATAQUEUE_EVENT_PUSH else None)"
proof -
  have s: "store_at (dq_items q) (dq_slot (dq_put q) q) x = Some ((dq_items q)[dq_slot (dq_put q) q := x])"
    using q by (simp add: store_at_def dq_slot_def)
  show ?thesis
  proof (cases "lists k (WaitQ (dq_addr q))")
    case Nil
    then show ?thesis using wake_first_none [OF k Nil] by (simp add: dq_store_def s)
  next
    case (Cons t ts)
    with wake_first_some [OF k, of "WaitQ (dq_addr q)"] show ?thesis
      by (auto simp: dq_store_def s rt_ipc_list_resume_def)
  qed
qed

lemma dq_store_spec:
  assumes q: "dq_ok q" and k: "kinv k" "current k \<noteq> None" and room: "length (dq_contents q) < unat (dq_size q)"
    and nowrap: "unat (dq_put q) < 65535"
  shows "\<exists>ev q' k'. dq_store x q k = Some (Returned RT_EOK, ev, q', k') \<and> dq_ok q'
    \<and> dq_contents q' = dq_contents q @ [x] \<and> dq_size q' = dq_size q \<and> dq_addr q' = dq_addr q \<and> dq_get q' = dq_get q
    \<and> unat (dq_put q') = Suc (unat (dq_put q)) \<and> wake_first (WaitQ (dq_addr q)) k k'
    \<and> ev = (if lists k (WaitQ (dq_addr q)) = [] then dq_notify q RT_DATAQUEUE_EVENT_PUSH else None)"
proof -
  let ?q = "q\<lparr>dq_items := (dq_items q)[dq_slot (dq_put q) q := x], dq_put := dq_put q + 1\<rparr>"
  have p: "unat (dq_put q + 1) = Suc (unat (dq_put q))" using nowrap by (simp add: unat_word_ariths)
  have g: "unat (dq_get q) \<le> unat (dq_put q)" using q by (simp add: dq_ok_def)
  have "dq_ok ?q" using q room p by (simp add: dq_ok_def)
  moreover have "dq_contents ?q = dq_contents q @ [x]"
    using q room p g ring_slice_snoc [of "unat (dq_put q) - unat (dq_get q)" "dq_items q" "dq_slot (dq_put q) q" "unat (dq_get q)" x]
    by (simp add: dq_contents_def dq_ok_def dq_slot_def Suc_diff_le)
  moreover obtain ev k' where "dq_store x q k = Some (Returned RT_EOK, ev, ?q, k')" "wake_first (WaitQ (dq_addr q)) k k'"
    "ev = (if lists k (WaitQ (dq_addr q)) = [] then dq_notify q RT_DATAQUEUE_EVENT_PUSH else None)"
    using dq_store_runs [OF _ _ k] q unfolding dq_ok_def by blast
  ultimately show ?thesis using p by (intro exI [of _ ev] exI [of _ ?q] exI [of _ k']) simp
qed

text \<open>What a removal does to the producers: the first one is woken only at or below the low water mark.\<close>

definition wake_producer :: "rt_data_queue \<Rightarrow> kernel \<Rightarrow> kernel \<Rightarrow> bool" where
  "wake_producer q k k' \<longleftrightarrow>
     (if length (dq_contents q) - 1 \<le> unat (lwm q) then wake_first (SendQ (dq_addr q)) k k' else k' = k)"

lemma dq_fetch_spec:
  assumes q: "dq_ok q" and k: "kinv k" "current k \<noteq> None" and some: "dq_contents q \<noteq> []"
  shows "\<exists>q' k'. dq_fetch q k = Some (Some (hd (dq_contents q)), Returned RT_EOK,
      dq_notify q (if length (dq_contents q) - 1 \<le> unat (lwm q) then RT_DATAQUEUE_EVENT_LWM else RT_DATAQUEUE_EVENT_POP), q', k')
    \<and> dq_ok q' \<and> dq_contents q' = tl (dq_contents q) \<and> dq_size q' = dq_size q \<and> dq_addr q' = dq_addr q
    \<and> dq_put q' = dq_put q \<and> wake_producer q k k'"
proof -
  let ?q = "q\<lparr>dq_get := dq_get q + 1\<rparr>" and ?l = "length (dq_contents q) - 1"
  have lt: "unat (dq_get q) < unat (dq_put q)" using some length_dq_contents [of q]
    by (metis length_greater_0_conv zero_less_diff)
  then have g: "unat (dq_get q + 1) = Suc (unat (dq_get q))" using unat_u16 [of "dq_put q"] by (simp add: unat_word_ariths)
  have ok: "dq_ok ?q" using q lt g by (simp add: dq_ok_def)
  define n where "n = unat (dq_put q) - Suc (unat (dq_get q))"
  have n: "unat (dq_put q) - unat (dq_get q) = Suc n" using lt by (simp add: n_def)
  have c: "dq_contents q = dq_items q ! dq_slot (dq_get q) q # dq_contents ?q"
    using ring_slice_Cons [of "dq_items q" "unat (dq_get q)" n] q
    by (simp add: dq_contents_def n g n_def [symmetric] dq_slot_def dq_ok_def)
  have l: "load_at (dq_items q) (dq_slot (dq_get q) q) = Some (hd (dq_contents q))"
    using q c by (simp add: load_at_def dq_slot_def dq_ok_def)
  have "dq_count ?q = int ?l" using lt g by (simp add: dq_count_def)
  then have le: "dq_count ?q \<le> int (unat (lwm q)) \<longleftrightarrow> ?l \<le> unat (lwm q)" by (simp only: of_nat_le_iff)
  show ?thesis
  proof (cases "?l \<le> unat (lwm q)")
    case False
    then have "dq_fetch q k = Some (Some (hd (dq_contents q)), Returned RT_EOK, dq_notify q RT_DATAQUEUE_EVENT_POP, ?q, k)"
      by (simp add: dq_fetch_def l le Let_def del: length_dq_contents of_nat_unat)
    with False ok c show ?thesis by (simp add: wake_producer_def del: length_dq_contents)
  next
    case True
    have "\<exists>k'. (case lists k (SendQ (dq_addr q)) of t # _ \<Rightarrow> rt_schedule (snd (rt_thread_resume t k)) | [] \<Rightarrow> Some k) = Some k'
        \<and> wake_first (SendQ (dq_addr q)) k k'"
      using wake_first_none [OF k] wake_first_some [OF k, of "SendQ (dq_addr q)"]
      by (cases "lists k (SendQ (dq_addr q))") (auto simp: rt_ipc_list_resume_def)
    then obtain k' where k': "(case lists k (SendQ (dq_addr q)) of t # _ \<Rightarrow> rt_schedule (snd (rt_thread_resume t k)) | [] \<Rightarrow> Some k) = Some k'"
      "wake_first (SendQ (dq_addr q)) k k'" by blast
    then have "dq_fetch q k = Some (Some (hd (dq_contents q)), Returned RT_EOK, dq_notify q RT_DATAQUEUE_EVENT_LWM, ?q, k')"
      using True by (simp add: dq_fetch_def l le Let_def del: length_dq_contents of_nat_unat)
    with True ok c k'(2) show ?thesis by (simp add: wake_producer_def del: length_dq_contents)
  qed
qed

section \<open>Runs\<close>

definition dq_enq :: "rt_data_queue \<times> kernel \<Rightarrow> rt_data_item \<Rightarrow> (rt_data_queue \<times> kernel) option" where
  "dq_enq = (\<lambda>(q, k) x. case rt_data_queue_push_enter x 0 q k of
     Some (Returned r, _, q', k') \<Rightarrow> (if r = RT_EOK then Some (q', k') else None) | _ \<Rightarrow> None)"

definition dq_deq :: "rt_data_queue \<times> kernel \<Rightarrow> (rt_data_item \<times> rt_data_queue \<times> kernel) option" where
  "dq_deq = (\<lambda>(q, k). case rt_data_queue_pop_enter 0 q k of
     Some (Some x, Returned r, _, q', k') \<Rightarrow> (if r = RT_EOK then Some (x, q', k') else None) | _ \<Rightarrow> None)"

definition pushes :: "'a fifo_op list \<Rightarrow> nat" where
  "pushes es = length (filter (\<lambda>e. e \<noteq> Deq) es)"

lemma pushes_simps [simp]: "pushes [] = 0" "pushes (Enq x # es) = Suc (pushes es)" "pushes (Deq # es) = pushes es"
  "pushes (es @ fs) = pushes es + pushes fs"
  by (simp_all add: pushes_def)

lemma wake_first_kinv: "wake_first q k k' \<Longrightarrow> kinv k' \<and> current k' \<noteq> None"
  by (simp add: wake_first_def)

lemma dq_step_refines:
  assumes q: "dq_ok q" and k: "kinv k" "current k \<noteq> None" and room: "unat (dq_put q) + pushes [e] \<le> 65535"
    and s: "fifo_step dq_enq dq_deq (q, k) e = (r, (q', k'))"
  shows "dq_ok q' \<and> kinv k' \<and> current k' \<noteq> None \<and> dq_size q' = dq_size q
    \<and> unat (dq_put q') = unat (dq_put q) + length (accepted [e] [r])
    \<and> spec_step (unat (dq_size q)) (dq_contents q) e = (r, dq_contents q')"
proof (cases e)
  case (Enq x)
  have nowrap: "unat (dq_put q) < 65535" using room Enq by simp
  show ?thesis
  proof (cases "length (dq_contents q) < unat (dq_size q)")
    case True
    then have "rt_data_queue_push_enter x 0 q k = dq_store x q k"
      using dq_full [OF q] by (simp add: rt_data_queue_push_enter_def dq_push_pass_def)
    with dq_store_spec [OF q k True nowrap, of x] Enq s True show ?thesis
      by (auto simp: dq_enq_def dest: wake_first_kinv)
  next
    case False
    then have "rt_data_queue_push_enter x 0 q k = Some (Returned (- 2), None, q, k)"
      using dq_full [OF q] by (simp add: rt_data_queue_push_enter_def dq_push_pass_def dq_wait_def)
    with Enq s False q k show ?thesis by (auto simp: dq_enq_def)
  qed
next
  case Deq
  show ?thesis
  proof (cases "dq_contents q")
    case Nil
    then have "rt_data_queue_pop_enter 0 q k = Some (None, Returned (- 2), None, q, k)"
      using dq_empty [OF q] by (simp add: rt_data_queue_pop_enter_def dq_pop_pass_def dq_wait_def)
    with Deq s Nil q k show ?thesis by (auto simp: dq_deq_def)
  next
    case (Cons x xs)
    then have "rt_data_queue_pop_enter 0 q k = dq_fetch q k"
      using dq_empty [OF q] by (simp add: rt_data_queue_pop_enter_def dq_pop_pass_def)
    moreover obtain ev q1 k1 where "dq_fetch q k = Some (Some x, Returned 0, ev, q1, k1)" "dq_ok q1" "dq_contents q1 = xs"
      "dq_size q1 = dq_size q" "dq_put q1 = dq_put q" "wake_producer q k k1"
      using dq_fetch_spec [OF q k] Cons by auto
    moreover from this(6) k have "kinv k1" "current k1 \<noteq> None"
      by (auto simp: wake_producer_def dest: wake_first_kinv split: if_splits)
    ultimately show ?thesis using Deq s Cons by (auto simp: dq_deq_def)
  qed
qed

lemma dq_run_refines:
  assumes "dq_ok q" "kinv k" "current k \<noteq> None" "unat (dq_put q) + pushes es \<le> 65535"
    and "fifo_run dq_enq dq_deq (q, k) es = (rs, (q', k'))"
  shows "dq_ok q' \<and> kinv k' \<and> current k' \<noteq> None \<and> dq_size q' = dq_size q
    \<and> unat (dq_put q') = unat (dq_put q) + length (accepted es rs)
    \<and> spec_run (unat (dq_size q)) (dq_contents q) es = (rs, dq_contents q')"
  using assms
proof (induction es arbitrary: q k rs)
  case Nil
  then show ?case by simp
next
  case (Cons e es)
  obtain r q1 k1 where s: "fifo_step dq_enq dq_deq (q, k) e = (r, (q1, k1))" by (metis prod_cases3)
  obtain rs1 where t: "fifo_run dq_enq dq_deq (q1, k1) es = (rs1, (q', k'))" "rs = r # rs1"
    using Cons.prems(5) s by (auto split: prod.splits)
  have p: "pushes (e # es) = pushes [e] + pushes es" "length (accepted (e # es) (r # rs1)) = length (accepted [e] [r]) + length (accepted es rs1)"
    by (simp add: pushes_def) (cases e; cases r; simp)
  have le: "length (accepted [e] [r]) \<le> pushes [e]" by (cases e; cases r) simp_all
  have "unat (dq_put q) + pushes [e] \<le> 65535" using Cons.prems(4) p(1) by simp
  note st = dq_step_refines [OF Cons.prems(1-3) this s]
  have "unat (dq_put q1) + pushes es \<le> 65535" using st le Cons.prems(4) p(1) by linarith
  with Cons.IH [OF _ _ _ this t(1)] st p t(2) show ?case by auto
qed

text \<open>The step that the index arithmetic gets wrong: with the put index wrapped and the get index not, the
  difference is negative and the queue never looks full.\<close>

lemma dq_push_when_wrapped:
  assumes q: "0 < unat (dq_size q)" "length (dq_items q) = unat (dq_size q)" and k: "kinv k" "current k \<noteq> None"
    and w: "unat (dq_put q) < unat (dq_get q)"
  shows "\<exists>k'. dq_enq (q, k) x = Some (q\<lparr>dq_items := (dq_items q)[dq_slot (dq_put q) q := x], dq_put := dq_put q + 1\<rparr>, k')
    \<and> kinv k' \<and> current k' \<noteq> None"
proof -
  have "dq_count q \<noteq> int (unat (dq_size q))" using w unfolding dq_count_def by linarith
  then have "rt_data_queue_push_enter x 0 q k = dq_store x q k"
    by (simp add: rt_data_queue_push_enter_def dq_push_pass_def)
  with dq_store_runs [OF q k, of x] show ?thesis by (auto simp: dq_enq_def dest: wake_first_kinv)
qed

lemma fifo_run_append:
  "fifo_run enq deq s (es @ fs) =
     (let (rs, s') = fifo_run enq deq s es; (rs', s'') = fifo_run enq deq s' fs in (rs @ rs', s''))"
  by (induction es arbitrary: s) (auto simp: split_def Let_def)

lemma spec_run_append:
  "spec_run cap q (es @ fs) =
     (let (rs, q') = spec_run cap q es; (rs', q'') = spec_run cap q' fs in (rs @ rs', q''))"
  by (induction es arbitrary: q) (auto simp: split_def Let_def)

lemma spec_run_pairs:
  "0 < cap \<Longrightarrow> spec_run cap [] (concat (replicate m [Enq x, Deq])) = (concat (replicate m [Accepted, Got x]), [])"
  by (induction m) simp_all

lemma spec_run_fill:
  "length q + m \<le> cap \<Longrightarrow> spec_run cap q (replicate m (Enq x)) = (replicate m Accepted, q @ replicate m x)"
  by (induction m arbitrary: q) simp_all

text \<open>Pairs of a push and a pop bring the indices close to the wrap, then pushes fill the queue.\<close>

definition wrap_ops :: "rt_data_queue \<Rightarrow> rt_data_item \<Rightarrow> rt_data_item fifo_op list" where
  "wrap_ops q x = concat (replicate (65536 - unat (dq_size q)) [Enq x, Deq]) @ replicate (unat (dq_size q) - 1) (Enq x)"

lemma pushes_wrap_ops: "0 < unat (dq_size q) \<Longrightarrow> pushes (wrap_ops q x) = 65535"
proof -
  assume a: "0 < unat (dq_size q)"
  have "pushes (concat (replicate m [Enq x, Deq])) = m" "pushes (replicate m (Enq x)) = m" for m
    by (induction m) simp_all
  then show ?thesis using a unat_u16 [of "dq_size q"] by (simp add: wrap_ops_def)
qed

lemma wrap_ops_result:
  assumes q: "dq_ok q" "dq_get q = 0" "dq_put q = 0" and k: "kinv k" "current k \<noteq> None"
    and r: "fifo_run dq_enq dq_deq (q, k) (wrap_ops q x) = (rs, (q', k'))"
  shows "dq_ok q'" "kinv k'" "current k' \<noteq> None" "dq_size q' = dq_size q" "unat (dq_put q') = 65535"
    "unat (dq_get q') = 65536 - unat (dq_size q)" "dq_contents q' = replicate (unat (dq_size q) - 1) x"
    "set rs \<subseteq> {Accepted, Got x}"
proof -
  let ?n = "unat (dq_size q)"
  have n: "0 < ?n" using q(1) by (simp add: dq_ok_def)
  have "unat (dq_put q) + pushes (wrap_ops q x) \<le> 65535" using pushes_wrap_ops [OF n] q(3) by simp
  note run = dq_run_refines [OF q(1) k this r]
  then show "dq_ok q'" "kinv k'" "current k' \<noteq> None" "dq_size q' = dq_size q" by simp_all
  have c: "dq_contents q = []" using q(2,3) by (simp flip: length_0_conv)
  have spec: "spec_run ?n [] (wrap_ops q x) = (concat (replicate (65536 - ?n) [Accepted, Got x]) @ replicate (?n - 1) Accepted,
      replicate (?n - 1) x)"
    using n spec_run_fill [of "[]" "?n - 1" ?n x] by (simp add: wrap_ops_def spec_run_append spec_run_pairs)
  then have rs: "rs = concat (replicate (65536 - ?n) [Accepted, Got x]) @ replicate (?n - 1) Accepted"
    and c': "dq_contents q' = replicate (?n - 1) x" using run c by simp_all
  show "dq_contents q' = replicate (?n - 1) x" by (rule c')
  show "set rs \<subseteq> {Accepted, Got x}" unfolding rs by auto
  have acc: "length (accepted es ts) = pushes es" if "length ts = length es" "Full \<notin> set ts" "fst (spec_run cap w es) = ts" for es ts cap w
    using that
  proof (induction es arbitrary: ts w)
    case (Cons e es)
    then show ?case by (cases e; cases w) (auto simp: split_def Let_def split: if_splits)
  qed simp
  have "length rs = length (wrap_ops q x)" unfolding rs wrap_ops_def by (simp add: length_concat sum_list_replicate)
  moreover have "Full \<notin> set rs" unfolding rs by auto
  moreover have "fst (spec_run ?n [] (wrap_ops q x)) = rs" using spec rs by simp
  ultimately have "length (accepted (wrap_ops q x) rs) = 65535" using acc pushes_wrap_ops [OF n] by metis
  then show p: "unat (dq_put q') = 65535" using run q(3) by simp
  have "unat (dq_put q') - unat (dq_get q') = ?n - 1" using c' by (metis length_dq_contents length_replicate)
  then have "65535 - unat (dq_get q') = ?n - 1" using p by simp
  moreover have "unat (dq_get q') \<le> 65535" using unat_u16 [of "dq_get q'"] by simp
  ultimately show "unat (dq_get q') = 65536 - ?n" using n by arith
qed

lemma length_fifo_run: "fifo_run enq deq s es = (rs, s') \<Longrightarrow> length rs = length es"
  by (induction es arbitrary: s rs) (auto split: prod.splits)

lemma accepted_append: "length rs = length es \<Longrightarrow> accepted (es @ fs) (rs @ ts) = accepted es rs @ accepted fs ts"
proof (induction es rs rule: list_induct2')
  case (4 e es r rs)
  then show ?case by (cases e; cases r) simp_all
qed simp_all

lemma delivered_append: "delivered (rs @ ts) = delivered rs @ delivered ts"
  by (induction rs rule: delivered.induct) simp_all

text \<open>Of the 65535 blocks put in, all but those of one full queue less one have been taken out.\<close>

lemma wrap_counts:
  assumes q: "dq_ok q" "dq_get q = 0" "dq_put q = 0" and k: "kinv k" "current k \<noteq> None"
    and r: "fifo_run dq_enq dq_deq (q, k) (wrap_ops q x) = (rs, (q', k'))"
  shows "length (accepted (wrap_ops q x) rs) = length (delivered rs) + unat (dq_size q) - 1"
proof -
  have n: "0 < unat (dq_size q)" using q(1) by (simp add: dq_ok_def)
  have "unat (dq_put q) + pushes (wrap_ops q x) \<le> 65535" using pushes_wrap_ops [OF n] q(3) by simp
  from dq_run_refines [OF q(1) k this r] have "dq_contents q @ accepted (wrap_ops q x) rs = delivered rs @ dq_contents q'"
    by (auto dest: spec_run_conserves)
  moreover have "dq_contents q = []" using q(2,3) by (simp flip: length_0_conv)
  ultimately have "accepted (wrap_ops q x) rs = delivered rs @ replicate (unat (dq_size q) - 1) x"
    using wrap_ops_result(7) [OF q k r] by simp
  then show ?thesis using n by simp
qed

lemma dq_peak: "dq_ok q \<Longrightarrow> dq_contents q = y # ys \<Longrightarrow> rt_data_queue_peak q = Some (Some y, RT_EOK)"
proof -
  assume q: "dq_ok q" and c: "dq_contents q = y # ys"
  then have "0 < length (dq_contents q)" by simp
  then have lt: "0 < unat (dq_put q) - unat (dq_get q)" by simp
  have "dq_contents q ! 0 = dq_items q ! dq_slot (dq_get q) q"
    unfolding dq_contents_def using lt q by (simp add: dq_slot_def dq_ok_def)
  then have "dq_items q ! dq_slot (dq_get q) q = y" using c by simp
  moreover have "dq_get q \<noteq> dq_put q" using lt by auto
  ultimately show ?thesis using q by (simp add: rt_data_queue_peak_def load_at_def dq_slot_def dq_ok_def)
qed

section \<open>Properties\<close>

text \<open>C27. Until its 16-bit put index wraps, that is for the first 65535 blocks put in after initialisation, a data queue
  is a bounded first-in first-out queue: any sequence of non-waiting pushes and pops, with whatever
  threads are suspended on either side, answers like a list bounded by the queue's size.\<close>

theorem dataqueue_run_is_bounded_fifo:
  assumes "dq_ok q" "kinv k" "current k \<noteq> None" "unat (dq_put q) + pushes es \<le> 65535"
    and "fifo_run dq_enq dq_deq (q, k) es = (rs, (q', k'))"
  shows "dq_ok q' \<and> kinv k' \<and> dq_size q' = dq_size q
    \<and> spec_run (unat (dq_size q)) (dq_contents q) es = (rs, dq_contents q')
    \<and> dq_contents q @ accepted es rs = delivered rs @ dq_contents q'"
  using dq_run_refines [OF assms] by (auto dest: spec_run_conserves)

definition demo_dq :: rt_data_queue where
  "demo_dq = \<lparr>dq_addr = 4, dq_size = 2, lwm = 1, dq_get = 0, dq_put = 0,
     dq_items = [\<lparr>data_ptr = 0, data_size = 0\<rparr>, \<lparr>data_ptr = 0, data_size = 0\<rparr>], evt_notify = True\<rparr>"

lemma demo_dq_facts: "dq_ok demo_dq" "current demo_rr \<noteq> None" "dq_contents demo_dq = []" "unat (dq_size demo_dq) = 2"
  by (simp_all add: demo_dq_def dq_ok_def demo_rr_def dq_contents_def)

theorem dataqueue_run_is_bounded_fifo_witness:
  "fst (fifo_run dq_enq dq_deq (demo_dq, demo_rr) [Deq, Enq \<lparr>data_ptr = 1, data_size = 8\<rparr>,
      Enq \<lparr>data_ptr = 2, data_size = 8\<rparr>, Enq \<lparr>data_ptr = 3, data_size = 8\<rparr>, Deq])
   = [Empty, Accepted, Accepted, Full, Got \<lparr>data_ptr = 1, data_size = 8\<rparr>]" (is "fst (fifo_run _ _ _ ?es) = _")
proof -
  obtain rs q k where r: "fifo_run dq_enq dq_deq (demo_dq, demo_rr) ?es = (rs, (q, k))" by (metis prod.exhaust)
  have "unat (dq_put demo_dq) + pushes ?es \<le> 65535" by (simp add: demo_dq_def)
  from dataqueue_run_is_bounded_fifo [OF demo_dq_facts(1) demo_rr_kinv demo_dq_facts(2) this r] r show ?thesis
    by (simp add: demo_dq_facts)
qed

text \<open>When the put index wraps the queue loses its bound. After 65535 pushes with the queue full but for
  one block, both that push and the next one are accepted: a queue of any size takes one block more
  than it has room for, and the last one is stored over an older one that has not been taken out.\<close>

theorem dataqueue_overfills_at_wrap:
  assumes q: "dq_ok q" "dq_get q = 0" "dq_put q = 0" and k: "kinv k" "current k \<noteq> None"
    and r: "fifo_run dq_enq dq_deq (q, k) (wrap_ops q x @ [Enq y, Enq z]) = (rs, (q', k'))"
  shows "Full \<notin> set rs \<and> last rs = Accepted \<and> unat (dq_get q') = 65536 - unat (dq_size q) \<and> unat (dq_put q') = 1
    \<and> length (accepted (wrap_ops q x @ [Enq y, Enq z]) rs) = length (delivered rs) + unat (dq_size q) + 1
    \<and> dq_items q' ! 0 = z"
proof -
  obtain rs1 q1 k1 where r1: "fifo_run dq_enq dq_deq (q, k) (wrap_ops q x) = (rs1, (q1, k1))" by (metis prod.exhaust)
  note w = wrap_ops_result [OF q k r1]
  have n: "0 < unat (dq_size q)" using q(1) by (simp add: dq_ok_def)
  have room: "dq_count q1 \<noteq> int (unat (dq_size q1))" using unat_u16 [of "dq_size q"] unfolding dq_count_def w(4-6) by linarith
  have s1: "0 < unat (dq_size q1)" "length (dq_items q1) = unat (dq_size q1)" using w(1) by (simp_all add: dq_ok_def)
  let ?q2 = "q1\<lparr>dq_items := (dq_items q1)[dq_slot (dq_put q1) q1 := y], dq_put := dq_put q1 + 1\<rparr>"
  have "rt_data_queue_push_enter y 0 q1 k1 = dq_store y q1 k1"
    using room by (simp add: rt_data_queue_push_enter_def dq_push_pass_def)
  with dq_store_runs [OF s1 w(2,3), of y] obtain k2 where e1: "dq_enq (q1, k1) y = Some (?q2, k2)" "kinv k2" "current k2 \<noteq> None"
    by (auto simp: dq_enq_def dest: wake_first_kinv)
  have p2: "unat (dq_put ?q2) = 0" using w(5) by (simp add: unat_word_ariths)
  have g2: "unat (dq_get ?q2) = 65536 - unat (dq_size q)" using w(6) by simp
  have "unat (dq_put ?q2) < unat (dq_get ?q2)" using p2 g2 unat_u16 [of "dq_size q"] by simp
  from dq_push_when_wrapped [OF _ _ e1(2,3) this, of z] s1 obtain k3 where
    e2: "dq_enq (?q2, k2) z = Some (?q2\<lparr>dq_items := (dq_items ?q2)[dq_slot (dq_put ?q2) ?q2 := z], dq_put := dq_put ?q2 + 1\<rparr>, k3)"
    by auto
  have f: "rs = rs1 @ [Accepted, Accepted]" "q' = ?q2\<lparr>dq_items := (dq_items ?q2)[dq_slot (dq_put ?q2) ?q2 := z], dq_put := dq_put ?q2 + 1\<rparr>"
    using r r1 e1(1) e2 by (simp_all add: fifo_run_append)
  have "dq_put q1 = 65535" using w(5) by (simp add: word_eq_unat)
  then have "unat (dq_put q') = 1" by (simp add: f(2))
  moreover have "dq_items q' ! 0 = z" using p2 s1 by (simp add: f(2) dq_slot_def)
  moreover have "length (accepted (wrap_ops q x @ [Enq y, Enq z]) rs) = length (delivered rs) + unat (dq_size q) + 1"
    using wrap_counts [OF q k r1] n by (simp add: f(1) accepted_append delivered_append length_fifo_run [OF r1])
  ultimately show ?thesis using w(8) g2 f by auto
qed

theorem dataqueue_overfills_at_wrap_witness:
  "\<exists>rs q' k'. fifo_run dq_enq dq_deq (demo_dq, demo_rr)
      (wrap_ops demo_dq \<lparr>data_ptr = 1, data_size = 8\<rparr> @ [Enq \<lparr>data_ptr = 2, data_size = 8\<rparr>, Enq \<lparr>data_ptr = 3, data_size = 8\<rparr>])
      = (rs, (q', k')) \<and> Full \<notin> set rs \<and> unat (dq_get q') = 65534 \<and> dq_items q' ! 0 = \<lparr>data_ptr = 3, data_size = 8\<rparr>"
proof -
  let ?es = "wrap_ops demo_dq \<lparr>data_ptr = 1, data_size = 8\<rparr> @ [Enq \<lparr>data_ptr = 2, data_size = 8\<rparr>, Enq \<lparr>data_ptr = 3, data_size = 8\<rparr>]"
  obtain rs q k where r: "fifo_run dq_enq dq_deq (demo_dq, demo_rr) ?es = (rs, (q, k))" by (metis prod.exhaust)
  have "dq_get demo_dq = 0" "dq_put demo_dq = 0" by (simp_all add: demo_dq_def)
  from dataqueue_overfills_at_wrap [OF demo_dq_facts(1) this demo_rr_kinv demo_dq_facts(2) r] r show ?thesis
    by (simp add: demo_dq_facts)
qed

text \<open>The waiting ends of a data queue. A push to a full queue suspends the caller with the producers, a
  pop from an empty one with the consumers, both armed for their timeout, or fails at once with
  \<open>-RT_ETIMEOUT\<close> for timeout 0. A push wakes the first consumer; only if there is none the callback
  hears of it. A pop hands out the oldest block and wakes the first producer only when what is left
  does not exceed the low water mark; above it the producers stay suspended though there is room.\<close>

theorem dataqueue_waits:
  assumes q: "dq_ok q" and k: "kinv k" "current k = Some c" "runnable k c" "int_nest k = 0"
    and t: "timeout \<noteq> 0x7fffffff" and w: "unat (dq_put q) < 65535"
  shows "(if length (dq_contents q) < unat (dq_size q) then
        (\<exists>q' k'. rt_data_queue_push_enter x timeout q k = Some (Returned RT_EOK,
            if lists k (WaitQ (dq_addr q)) = [] then dq_notify q RT_DATAQUEUE_EVENT_PUSH else None, q', k')
          \<and> dq_ok q' \<and> dq_contents q' = dq_contents q @ [x] \<and> wake_first (WaitQ (dq_addr q)) k k')
      else if timeout = 0 then rt_data_queue_push_enter x timeout q k = Some (Returned (- RT_ETIMEOUT), None, q, k)
      else (\<exists>k'. rt_data_queue_push_enter x timeout q k = Some (Blocked, None, q, k') \<and> suspended_at (SendQ (dq_addr q)) c timeout k k'))
    \<and> (case dq_contents q of
        y # ys \<Rightarrow> (\<exists>q' k'. rt_data_queue_pop_enter timeout q k = Some (Some y, Returned RT_EOK,
            dq_notify q (if length ys \<le> unat (lwm q) then RT_DATAQUEUE_EVENT_LWM else RT_DATAQUEUE_EVENT_POP), q', k')
          \<and> dq_ok q' \<and> dq_contents q' = ys \<and> wake_producer q k k') \<and> rt_data_queue_peak q = Some (Some y, RT_EOK)
      | [] \<Rightarrow> rt_data_queue_peak q = Some (None, - RT_EEMPTY)
          \<and> (if timeout = 0 then rt_data_queue_pop_enter timeout q k = Some (None, Returned (- RT_ETIMEOUT), None, q, k)
             else (\<exists>k'. rt_data_queue_pop_enter timeout q k = Some (None, Blocked, None, q, k')
               \<and> suspended_at (WaitQ (dq_addr q)) c timeout k k')))"
proof -
  have c: "current k \<noteq> None" using k(2) by simp
  have wait: "\<exists>k'. dq_wait qh timeout q k = Some (Blocked, None, q, k') \<and> suspended_at qh c timeout k k'"
    if "wait_queue qh" "timeout \<noteq> 0" for qh
    using suspend_on_spec [OF k(1-3) that(1) t] k(2,4) that(2) by (auto simp: dq_wait_def not_in_interrupt_def)
  have push: "rt_data_queue_push_enter x timeout q k = (if length (dq_contents q) < unat (dq_size q)
      then dq_store x q k else dq_wait (SendQ (dq_addr q)) timeout q k)"
    using dq_full [OF q] by (simp add: rt_data_queue_push_enter_def dq_push_pass_def)
  have pop: "rt_data_queue_pop_enter timeout q k = (if dq_contents q = []
      then map_option (Pair None) (dq_wait (WaitQ (dq_addr q)) timeout q k) else dq_fetch q k)"
    using dq_empty [OF q] by (simp add: rt_data_queue_pop_enter_def dq_pop_pass_def)
  have at_once: "dq_wait qh 0 q k = Some (Returned (- RT_ETIMEOUT), None, q, k)" for qh by (simp add: dq_wait_def)
  show ?thesis (is "?push \<and> ?pop")
  proof
    show ?push using dq_store_spec [OF q k(1) c _ w, of x] wait [of "SendQ (dq_addr q)"] at_once
      unfolding push by (auto simp del: length_dq_contents)
    show ?pop
    proof (cases "dq_contents q")
      case Nil
      then show ?thesis using wait [of "WaitQ (dq_addr q)"] at_once dq_empty [OF q]
        unfolding pop by (auto simp: rt_data_queue_peak_def)
    next
      case (Cons y ys)
      then show ?thesis using dq_fetch_spec [OF q k(1) c] dq_peak [OF q Cons] unfolding pop by auto
    qed
  qed
qed

theorem dataqueue_waits_witness:
  "\<exists>k'. rt_data_queue_pop_enter 20 demo_dq demo_rr = Some (None, Blocked, None, demo_dq, k')
    \<and> suspended_at (WaitQ 4) 1 20 demo_rr k'"
proof -
  have "current demo_rr = Some 1" "runnable demo_rr 1" "int_nest demo_rr = 0" "(20 :: 32 word) \<noteq> 0x7fffffff"
    "unat (dq_put demo_dq) < 65535" "dq_addr demo_dq = 4"
    by (simp_all add: demo_rr_def demo_kernel_def runnable_def tstat_def demo_thread_def demo_dq_def)
  from dataqueue_waits [OF demo_dq_facts(1) demo_rr_kinv this(1-5)] this(6) show ?thesis
    by (simp add: demo_dq_facts(3))
qed

end
