(* ===== verification/Semaphore.thy ===== *)
theory Semaphore
  imports Ipc_Base
begin

text \<open>
  The counting semaphore of \<open>ipc.c\<close>. The object is its 16-bit value, the queueing flag and the address
  that names its list of suspended threads; \<open>rt_sem_take\<close> is split at the switch. Object creation and
  removal from the registry are left out of \<open>rt_sem_init\<close>, \<open>rt_sem_detach\<close> and \<open>rt_sem_delete\<close>.
\<close>

unbundle bit_operations_syntax

section \<open>Operations\<close>

record rt_semaphore =
  sem_addr :: nat
  sem_flag :: u8
  sem_value :: u16

abbreviation sem_queue :: "rt_semaphore \<Rightarrow> qhead" where
  "sem_queue s \<equiv> WaitQ (sem_addr s)"

definition rt_sem_init :: "nat \<Rightarrow> u32 \<Rightarrow> u8 \<Rightarrow> kernel \<Rightarrow> (int \<times> rt_semaphore \<times> kernel) option" where
  "rt_sem_init addr v flag k =
     (if v < 0x10000
      then Some (RT_EOK, \<lparr>sem_addr = addr, sem_flag = flag, sem_value = ucast v\<rparr>,
                 k\<lparr>lists := (lists k)(WaitQ addr := [])\<rparr>)
      else None)"

definition rt_sem_detach :: "rt_semaphore \<Rightarrow> kernel \<Rightarrow> (int \<times> kernel) option" where
  "rt_sem_detach s k = map_option (Pair RT_EOK) (rt_ipc_list_resume_all (sem_queue s) k)"

definition rt_sem_delete :: "rt_semaphore \<Rightarrow> kernel \<Rightarrow> (int \<times> kernel) option" where
  "rt_sem_delete s k =
     (if not_in_interrupt k
      then map_option (Pair RT_EOK) (rt_ipc_list_resume_all (sem_queue s) k) else None)"

definition rt_sem_take_enter ::
  "rt_semaphore \<Rightarrow> 32 word \<Rightarrow> kernel \<Rightarrow> (outcome \<times> rt_semaphore \<times> kernel) option" where
  "rt_sem_take_enter s time k =
     (if 0 < sem_value s then Some (Returned RT_EOK, s\<lparr>sem_value := sem_value s - 1\<rparr>, k)
      else if time = 0 then Some (Returned (- RT_ETIMEOUT), s, k)
      else if in_thread_context k then do {
        t \<leftarrow> current k;
        let k1 = upd_thread t (\<lambda>x. x\<lparr>error := RT_EOK\<rparr>) k;
        k2 \<leftarrow> ipc_block (sem_queue s) t (sem_flag s) time k1;
        Some (Blocked, s, k2)
      }
      else None)"

text \<open>Back from the switch: the error code tells whether the semaphore was handed over.\<close>

definition rt_sem_take_resume :: "tid \<Rightarrow> kernel \<Rightarrow> int" where
  "rt_sem_take_resume t k =
     (if error (threads k t) \<noteq> RT_EOK then error (threads k t) else RT_EOK)"

definition rt_sem_trytake :: "rt_semaphore \<Rightarrow> kernel \<Rightarrow> (outcome \<times> rt_semaphore \<times> kernel) option" where
  "rt_sem_trytake s k = rt_sem_take_enter s 0 k"

definition rt_sem_release :: "rt_semaphore \<Rightarrow> kernel \<Rightarrow> (int \<times> rt_semaphore \<times> kernel) option" where
  "rt_sem_release s k =
     (if lists k (sem_queue s) \<noteq> [] then do {
        (_, k1) \<leftarrow> rt_ipc_list_resume (sem_queue s) k;
        k2 \<leftarrow> rt_schedule k1;
        Some (RT_EOK, s, k2)
      }
      else Some (RT_EOK, s\<lparr>sem_value := sem_value s + 1\<rparr>, k))"

definition rt_sem_control ::
  "rt_semaphore \<Rightarrow> ipc_cmd \<Rightarrow> u32 \<Rightarrow> kernel \<Rightarrow> (int \<times> rt_semaphore \<times> kernel) option" where
  "rt_sem_control s cmd arg k =
     (case cmd of
        RT_IPC_CMD_RESET \<Rightarrow> do {
          k1 \<leftarrow> rt_ipc_list_resume_all (sem_queue s) k;
          k2 \<leftarrow> rt_schedule k1;
          Some (RT_EOK, s\<lparr>sem_value := ucast arg\<rparr>, k2)
        }
      | RT_IPC_CMD_OTHER \<Rightarrow> Some (- RT_ERROR, s, k))"

section \<open>The effect of each operation\<close>

lemma runnable_current:
  "kinv k \<Longrightarrow> current k = Some c \<Longrightarrow> tstat k c = RT_THREAD_RUNNING \<Longrightarrow> runnable k c"
  by (simp add: runnable_def)

lemma rt_sem_take_blocks:
  assumes k: "kinv k" and c: "current k = Some c" "runnable k c" and i: "int_nest k = 0"
    and v: "sem_value s = 0" and f: "flag_ok (sem_flag s)" and time: "time \<noteq> 0" "time \<noteq> 0x7fffffff"
  shows "\<exists>k'. rt_sem_take_enter s time k = Some (Blocked, s, k') \<and> kinv k' \<and> current k' \<noteq> None
    \<and> tstat k' c = RT_THREAD_SUSPEND \<and> error (threads k' c) = 0
    \<and> lists k' (sem_queue s) = queued (sem_flag s) (prio k) c (lists k (sem_queue s))
    \<and> (0 < sint time \<longrightarrow> ThreadTimer c \<in> set (timer_list k')
        \<and> tm_timeout_tick (timers k' (ThreadTimer c)) = tick k + time)"
proof -
  let ?k1 = "upd_thread c (\<lambda>x. x\<lparr>error := 0\<rparr>) k"
  have k1: "kinv ?k1" by (rule kinv_set_error [OF k])
  have c1: "current ?k1 = Some c" "runnable ?k1 c" using c by (simp_all add: runnable_def tstat_def)
  have pr: "prio ?k1 = prio k" by (simp add: fun_eq_iff)
  from ipc_block_spec [OF k1 c1 _ f time(2), of "sem_queue s"] obtain k' where
    b: "ipc_block (sem_queue s) c (sem_flag s) time ?k1 = Some k'" "kinv k'" "current k' \<noteq> None"
    "tstat k' c = 2" "lists k' (sem_queue s) = queued (sem_flag s) (prio ?k1) c (lists ?k1 (sem_queue s))"
    "error (threads k' c) = error (threads ?k1 c)"
    "0 < sint time \<longrightarrow> ThreadTimer c \<in> set (timer_list k')
        \<and> tm_timeout_tick (timers k' (ThreadTimer c)) = tick ?k1 + time" by auto
  have "rt_sem_take_enter s time k = Some (Blocked, s, k')"
    using v time(1) c(1) i b(1) by (simp add: rt_sem_take_enter_def in_thread_context_def)
  with b(2-7) pr show ?thesis by (intro exI [of _ k']) (simp add: pr)
qed

lemma rt_sem_release_wakes:
  assumes k: "kinv k" and c: "current k \<noteq> None" and l: "lists k (sem_queue s) = t # ts"
  shows "\<exists>k'. rt_sem_release s k = Some (0, s, k') \<and> kinv k' \<and> current k' \<noteq> None
    \<and> lists k' (sem_queue s) = ts \<and> (\<forall>u. runnable k' u = (u = t \<or> runnable k u))
    \<and> (\<forall>u. error (threads k' u) = error (threads k u))"
  using resume_and_schedule [OF k c _ l] rt_ipc_list_resume_spec [OF k _ l] l
  by (auto simp: rt_sem_release_def)

section \<open>Runs of a semaphore\<close>

text \<open>
  The history of one semaphore: takes (the caller running, with a timeout), releases (below the
  16-bit limit), and anything else the kernel does that does not queue a thread on it. The two
  counters are ghosts: takes granted, at once or by hand-over, and releases.
\<close>

inductive sem_step :: "rt_semaphore \<times> kernel \<times> nat \<times> nat \<Rightarrow> rt_semaphore \<times> kernel \<times> nat \<times> nat \<Rightarrow> bool" where
  take: "current k = Some c \<Longrightarrow> runnable k c \<Longrightarrow> time \<noteq> 0x7fffffff \<Longrightarrow>
    rt_sem_take_enter s time k = Some (r, s', k') \<Longrightarrow>
    sem_step (s, k, g, n) (s', k', (if r = Returned RT_EOK then g + 1 else g), n)"
| release: "sem_value s \<noteq> 0xffff \<Longrightarrow> rt_sem_release s k = Some (r, s', k') \<Longrightarrow>
    sem_step (s, k, g, n) (s', k', (if lists k (sem_queue s) \<noteq> [] then g + 1 else g), n + 1)"
| environment: "kinv k' \<Longrightarrow> current k' \<noteq> None \<Longrightarrow>
    set (lists k' (sem_queue s)) \<subseteq> set (lists k (sem_queue s)) \<Longrightarrow> sem_step (s, k, g, n) (s, k', g, n)"

definition sem_inv :: "nat \<Rightarrow> rt_semaphore \<times> kernel \<times> nat \<times> nat \<Rightarrow> bool" where
  "sem_inv v0 = (\<lambda>(s, k, g, n). kinv k \<and> current k \<noteq> None \<and> flag_ok (sem_flag s)
     \<and> (sem_value s \<noteq> 0 \<longrightarrow> lists k (sem_queue s) = [])
     \<and> unat (sem_value s) + g = v0 + n)"

lemma unat_minus_1: "w \<noteq> 0 \<Longrightarrow> unat (w - 1 :: 'a::len word) = unat w - 1"
  by (simp add: unat_minus_one)

lemma unat_u16_plus_1: "w \<noteq> 0xffff \<Longrightarrow> unat (w + 1 :: u16) = unat w + 1"
proof -
  assume "w \<noteq> 0xffff"
  then have "unat w \<noteq> 65535" by (simp add: word_eq_unat)
  then have "unat w + 1 < 65536" using unat_u16 [of w] by linarith
  then show ?thesis by (simp add: unat_word_ariths)
qed

lemma sem_step_inv:
  assumes "sem_step x y" "sem_inv v0 x"
  shows "sem_inv v0 y"
  using assms
proof (induction rule: sem_step.induct)
  case (take k c time s r s' k' g n)
  from take.prems have inv: "kinv k" "flag_ok (sem_flag s)" "current k \<noteq> None"
    "sem_value s \<noteq> 0 \<longrightarrow> lists k (sem_queue s) = []" "unat (sem_value s) + g = v0 + n"
    by (simp_all add: sem_inv_def)
  consider (now) "sem_value s \<noteq> 0" | (fail) "sem_value s = 0" "time = 0"
    | (wait) "sem_value s = 0" "time \<noteq> 0" by blast
  then show ?case
  proof cases
    case now
    then have "0 < sem_value s" "1 \<le> unat (sem_value s)" by (simp_all add: word_gt_0 unat_gt_0 Suc_le_eq)
    then show ?thesis
      using take.hyps(4) inv now by (auto simp: rt_sem_take_enter_def sem_inv_def unat_minus_1)
  next
    case fail
    then show ?thesis using take.hyps(4) inv by (auto simp: rt_sem_take_enter_def sem_inv_def)
  next
    case wait
    then have "int_nest k = 0"
      using take.hyps(4) by (auto simp: rt_sem_take_enter_def in_thread_context_def split: if_splits)
    from rt_sem_take_blocks [OF inv(1) take.hyps(1,2) this wait(1) inv(2) wait(2) take.hyps(3)] take.hyps(4)
    show ?thesis using inv wait(1) by (auto simp: sem_inv_def)
  qed
next
  case (release s k r s' k' g n)
  from release.prems have inv: "kinv k" "flag_ok (sem_flag s)" "current k \<noteq> None"
    "sem_value s \<noteq> 0 \<longrightarrow> lists k (sem_queue s) = []" "unat (sem_value s) + g = v0 + n"
    by (simp_all add: sem_inv_def)
  show ?case
  proof (cases "lists k (sem_queue s)")
    case Nil
    then show ?thesis
      using release.hyps inv by (auto simp: rt_sem_release_def sem_inv_def unat_u16_plus_1)
  next
    case (Cons t ts)
    with inv(4) have z: "sem_value s = 0" by auto
    from rt_sem_release_wakes [OF inv(1,3) Cons] release.hyps(2) show ?thesis
      using inv z Cons by (auto simp: sem_inv_def)
  qed
next
  case (environment k' s k g n)
  then show ?case by (auto simp: sem_inv_def)
qed

section \<open>The properties\<close>

text \<open>What each semaphore operation does. A take of a positive value counts it down and changes
  nothing else; at zero it fails with \<open>-RT_ETIMEOUT\<close> if told not to wait, and otherwise suspends the
  caller on the semaphore's queue (at the tail, or by priority), armed for exactly the given number
  of ticks if that is positive. A release with waiters hands over to the first of them (runnable
  again, its error untouched, so its take returns success) and leaves the value alone; without
  waiters it counts up, modulo the 16 bits of the value.\<close>

theorem semaphore_operations:
  assumes "kinv k" and "current k = Some c" and "runnable k c" and "int_nest k = 0"
    and "flag_ok (sem_flag s)" and "time \<noteq> 0x7fffffff"
  shows "(sem_value s \<noteq> 0 \<longrightarrow>
      rt_sem_take_enter s time k = Some (Returned 0, s\<lparr>sem_value := sem_value s - 1\<rparr>, k))
    \<and> (sem_value s = 0 \<longrightarrow> rt_sem_take_enter s 0 k = Some (Returned (- RT_ETIMEOUT), s, k))
    \<and> (sem_value s = 0 \<and> time \<noteq> 0 \<longrightarrow>
      (\<exists>k'. rt_sem_take_enter s time k = Some (Blocked, s, k') \<and> kinv k' \<and> tstat k' c = RT_THREAD_SUSPEND
        \<and> lists k' (sem_queue s) = queued (sem_flag s) (prio k) c (lists k (sem_queue s))
        \<and> rt_sem_take_resume c k' = 0
        \<and> (0 < sint time \<longrightarrow> ThreadTimer c \<in> set (timer_list k')
            \<and> tm_timeout_tick (timers k' (ThreadTimer c)) = tick k + time)))
    \<and> (case lists k (sem_queue s) of
        [] \<Rightarrow> rt_sem_release s k = Some (0, s\<lparr>sem_value := sem_value s + 1\<rparr>, k)
      | t # ts \<Rightarrow> (\<exists>k'. rt_sem_release s k = Some (0, s, k') \<and> kinv k' \<and> lists k' (sem_queue s) = ts
          \<and> runnable k' t \<and> rt_sem_take_resume t k' = error (threads k t)))"
proof (intro conjI impI)
  show "rt_sem_take_enter s time k = Some (Returned 0, s\<lparr>sem_value := sem_value s - 1\<rparr>, k)"
    if "sem_value s \<noteq> 0"
    using that by (simp add: rt_sem_take_enter_def word_gt_0)
  show "rt_sem_take_enter s 0 k = Some (Returned (- 2), s, k)" if "sem_value s = 0"
    using that by (simp add: rt_sem_take_enter_def)
  show "\<exists>k'. rt_sem_take_enter s time k = Some (Blocked, s, k') \<and> kinv k' \<and> tstat k' c = RT_THREAD_SUSPEND
        \<and> lists k' (sem_queue s) = queued (sem_flag s) (prio k) c (lists k (sem_queue s))
        \<and> rt_sem_take_resume c k' = 0
        \<and> (0 < sint time \<longrightarrow> ThreadTimer c \<in> set (timer_list k')
            \<and> tm_timeout_tick (timers k' (ThreadTimer c)) = tick k + time)"
    if "sem_value s = 0 \<and> time \<noteq> 0"
    using rt_sem_take_blocks [OF assms(1-4) _ assms(5) _ assms(6)] that
    by (auto simp: rt_sem_take_resume_def)
  show "case lists k (sem_queue s) of
        [] \<Rightarrow> rt_sem_release s k = Some (0, s\<lparr>sem_value := sem_value s + 1\<rparr>, k)
      | t # ts \<Rightarrow> (\<exists>k'. rt_sem_release s k = Some (0, s, k') \<and> kinv k' \<and> lists k' (sem_queue s) = ts
          \<and> runnable k' t \<and> rt_sem_take_resume t k' = error (threads k t))"
  proof (cases "lists k (sem_queue s)")
    case Nil
    then show ?thesis by (simp add: rt_sem_release_def)
  next
    case (Cons t ts)
    from assms(2) have "current k \<noteq> None" by simp
    from rt_sem_release_wakes [OF assms(1) this Cons] show ?thesis
      by (auto simp: Cons rt_sem_take_resume_def)
  qed
qed

theorem semaphore_operations_witness:
  "\<exists>k'. rt_sem_take_enter \<lparr>sem_addr = 5, sem_flag = 1, sem_value = 0\<rparr> 50 demo_rr
      = Some (Blocked, \<lparr>sem_addr = 5, sem_flag = 1, sem_value = 0\<rparr>, k')
    \<and> tm_timeout_tick (timers k' (ThreadTimer 1)) = 150"
proof -
  let ?s = "\<lparr>sem_addr = 5, sem_flag = 1, sem_value = 0\<rparr>"
  have p: "current demo_rr = Some 1" "runnable demo_rr 1" "int_nest demo_rr = 0" "flag_ok (sem_flag ?s)"
    "(50 :: 32 word) \<noteq> 0x7fffffff" "tick demo_rr = 100"
    by (simp_all add: demo_rr_def demo_kernel_def demo_thread_def runnable_def tstat_def flag_ok_def)
  from semaphore_operations [OF demo_rr_kinv p(1-5)] p(6) show ?thesis by auto
qed



end
