(* ===== verification/WorkQueue.thy ===== *)
theory WorkQueue
  imports Semaphore
begin

text \<open>
  \<open>components/drivers/src/workqueue.c\<close>: one work queue with its worker thread and its works. A work is
  named by a number; \<open>work_list\<close> holds the works linked into the queue. A work that is not linked points
  to itself, so removing it changes nothing. The worker's endless loop is cut into the steps between
  which an interrupt or another thread may come: the test of the list, the suspension, the switch, the
  removal of the first work, and the end of its function. What a work function itself does is one of
  the things that may happen in between. The timer of work \<open>w\<close> is \<open>OwnTimer w\<close>.
\<close>

unbundle bit_operations_syntax

section \<open>State\<close>

abbreviation (input) RT_WORK_STATE_PENDING :: u16 where "RT_WORK_STATE_PENDING \<equiv> 1"
abbreviation (input) RT_WORK_STATE_SUBMITTING :: u16 where "RT_WORK_STATE_SUBMITTING \<equiv> 2"
abbreviation (input) RT_WORK_TYPE_DELAYED :: u16 where "RT_WORK_TYPE_DELAYED \<equiv> 1"
abbreviation (input) RT_EBUSY :: int where "RT_EBUSY \<equiv> 7"
abbreviation (input) RT_EINVAL :: int where "RT_EINVAL \<equiv> 10"
abbreviation (input) RT_TIMER_FLAG_SOFT_TIMER :: u8 where "RT_TIMER_FLAG_SOFT_TIMER \<equiv> 4"
abbreviation (input) EINVAL :: int where "EINVAL \<equiv> 22"

record rt_work =
  work_flags :: u16
  work_type :: u16
  work_wq :: "nat option"

datatype wq_pc = WCheck | WSuspend | WSwitch | WTake | WRun

record rt_workqueue =
  wq_addr :: nat
  work_list :: "nat list"
  work_current :: "nat option"
  wq_sem :: rt_semaphore
  work_thread :: tid
  works :: "nat \<Rightarrow> rt_work"
  wq_pc :: wq_pc

definition upd_work :: "nat \<Rightarrow> (rt_work \<Rightarrow> rt_work) \<Rightarrow> rt_workqueue \<Rightarrow> rt_workqueue" where
  "upd_work w f s = s\<lparr>works := (works s)(w := f (works s w))\<rparr>"

definition clear_flag :: "u16 \<Rightarrow> rt_work \<Rightarrow> rt_work" where
  "clear_flag m x = x\<lparr>work_flags := work_flags x AND NOT m\<rparr>"

definition set_flag :: "u16 \<Rightarrow> rt_work \<Rightarrow> rt_work" where
  "set_flag m x = x\<lparr>work_flags := work_flags x OR m\<rparr>"

definition rt_work_init :: "nat \<Rightarrow> rt_workqueue \<Rightarrow> rt_workqueue" where
  "rt_work_init w s =
     (upd_work w (\<lambda>_. \<lparr>work_flags = 0, work_type = 0, work_wq = None\<rparr>) s)
       \<lparr>work_list := removeAll w (work_list s)\<rparr>"

section \<open>The worker\<close>

text \<open>The loop of \<open>_workqueue_work_completion\<close>: it may not end, so not returning is \<open>None\<close>.\<close>

partial_function (option) completion_loop :: "rt_semaphore \<Rightarrow> kernel \<Rightarrow> (int \<times> rt_semaphore \<times> kernel) option" where
  "completion_loop s k = do {
     (r, s1, k1) \<leftarrow> rt_sem_trytake s k;
     if r = Returned (- RT_ETIMEOUT) then do {
       (_, s2, k2) \<leftarrow> rt_sem_release s1 k1;
       completion_loop s2 k2
     }
     else if r = Returned RT_EOK then Some (RT_EOK, s1, k1)
     else Some (- RT_ERROR, s1, k1)
   }"

definition work_completion :: "rt_semaphore \<Rightarrow> kernel \<Rightarrow> (int \<times> rt_semaphore \<times> kernel) option" where
  "work_completion s k = do {
     (r, s1, k1) \<leftarrow> completion_loop s (rt_enter_critical k);
     k2 \<leftarrow> rt_exit_critical k1;
     Some (r, s1, k2)
   }"

definition worker_step :: "rt_workqueue \<Rightarrow> kernel \<Rightarrow> (rt_workqueue \<times> kernel) option" where
  "worker_step s k =
     (case wq_pc s of
        WCheck \<Rightarrow> Some (s\<lparr>wq_pc := (if work_list s = [] then WSuspend else WTake)\<rparr>, k)
      | WSuspend \<Rightarrow> do {
          t \<leftarrow> current k;
          (_, k1) \<leftarrow> rt_thread_suspend t k;
          Some (s\<lparr>wq_pc := WSwitch\<rparr>, k1)
        }
      | WSwitch \<Rightarrow> map_option (Pair (s\<lparr>wq_pc := WTake\<rparr>)) (rt_schedule k)
      | WTake \<Rightarrow>
          (case work_list s of
             [] \<Rightarrow> None
           | w # ws \<Rightarrow> Some (upd_work w (\<lambda>x. (clear_flag RT_WORK_STATE_PENDING x)\<lparr>work_wq := None\<rparr>)
               (s\<lparr>work_list := ws, work_current := Some w, wq_pc := WRun\<rparr>), k))
      | WRun \<Rightarrow> do {
          (_, sem, k1) \<leftarrow> work_completion (wq_sem s) k;
          Some (s\<lparr>work_current := None, wq_sem := sem, wq_pc := WCheck\<rparr>, k1)
        })"

section \<open>Submitting and cancelling\<close>

text \<open>The end that \<open>_workqueue_submit_work\<close> and \<open>rt_workqueue_critical_work\<close> share: link the work at the
  tail and wake the worker if it is not working.\<close>

definition wq_wake :: "rt_workqueue \<Rightarrow> kernel \<Rightarrow> kernel option" where
  "wq_wake s k =
     (if work_current s = None then rt_schedule (snd (rt_thread_resume (work_thread s) k)) else Some k)"

definition wq_append :: "nat \<Rightarrow> rt_workqueue \<Rightarrow> rt_workqueue" where
  "wq_append w s = s\<lparr>work_list := removeAll w (work_list s) @ [w]\<rparr>"

definition workqueue_submit_work :: "nat \<Rightarrow> rt_workqueue \<Rightarrow> kernel \<Rightarrow> (int \<times> rt_workqueue \<times> kernel) option" where
  "workqueue_submit_work w s k =
     (if work_flags (works s w) AND RT_WORK_STATE_PENDING \<noteq> 0 then Some (- RT_EBUSY, s, k)
      else if work_current s = Some w then Some (- RT_EBUSY, s, k)
      else do {
        let s1 = upd_work w (set_flag RT_WORK_STATE_PENDING) (wq_append w s);
        k1 \<leftarrow> wq_wake s1 k;
        Some (RT_EOK, s1, k1)
      })"

definition workqueue_cancel_work :: "nat \<Rightarrow> rt_workqueue \<Rightarrow> int \<times> rt_workqueue" where
  "workqueue_cancel_work w s =
     (if work_current s = Some w then (- RT_EBUSY, s)
      else (RT_EOK, upd_work w (clear_flag RT_WORK_STATE_PENDING)
        (s\<lparr>work_list := removeAll w (work_list s)\<rparr>)))"

definition workqueue_cancel_delayed_work :: "nat \<Rightarrow> rt_workqueue \<Rightarrow> kernel \<Rightarrow> int \<times> rt_workqueue \<times> kernel" where
  "workqueue_cancel_delayed_work w s k =
     (if work_wq (works s w) = None then (- EINVAL, s, k)
      else
        (let (ret, s1, k1) =
           (if work_flags (works s w) AND RT_WORK_STATE_PENDING \<noteq> 0
            then (case workqueue_cancel_work w s of (r, s') \<Rightarrow> (r, s', k))
            else if work_flags (works s w) AND RT_WORK_STATE_SUBMITTING \<noteq> 0
            then (RT_EOK, upd_work w (clear_flag RT_WORK_STATE_SUBMITTING) s,
                  snd (rt_timer_detach (OwnTimer w) (snd (rt_timer_stop (OwnTimer w) k))))
            else (RT_EOK, s, k)) in
         if ret \<noteq> RT_EOK then (ret, s1, k1)
         else (RT_EOK, upd_work w (\<lambda>x. (clear_flag RT_WORK_STATE_PENDING x)\<lparr>work_wq := None\<rparr>) s1, k1)))"

definition workqueue_submit_delayed_work ::
  "nat \<Rightarrow> u32 \<Rightarrow> rt_workqueue \<Rightarrow> kernel \<Rightarrow> (int \<times> rt_workqueue \<times> kernel) option" where
  "workqueue_submit_delayed_work w ticks s k =
     (if work_wq (works s w) \<noteq> None \<and> work_wq (works s w) \<noteq> Some (wq_addr s) then Some (- RT_EINVAL, s, k)
      else
        (let (ret, s1, k1) = (if work_wq (works s w) = Some (wq_addr s)
                              then workqueue_cancel_delayed_work w s k else (RT_EOK, s, k)) in
         if ret < 0 then Some (ret, s1, k1)
         else
           (let s2 = upd_work w (\<lambda>x. x\<lparr>work_wq := Some (wq_addr s)\<rparr>) s1 in
            if ticks = 0 then workqueue_submit_work w s2 k1
            else do {
              let k2 = rt_timer_init (OwnTimer w) ticks RT_TIMER_FLAG_SOFT_TIMER k1;
              (_, k3) \<leftarrow> rt_timer_start (OwnTimer w) k2;
              Some (ret, upd_work w (set_flag RT_WORK_STATE_SUBMITTING) s2, k3)
            })))"

definition delayed_work_timeout_handler :: "nat \<Rightarrow> rt_workqueue \<Rightarrow> kernel \<Rightarrow> (int \<times> rt_workqueue \<times> kernel) option" where
  "delayed_work_timeout_handler w s k =
     (let k1 = snd (rt_timer_detach (OwnTimer w) (snd (rt_timer_stop (OwnTimer w) k))) in
      workqueue_submit_work w
        (upd_work w (\<lambda>x. (clear_flag RT_WORK_STATE_SUBMITTING x)\<lparr>work_type := work_type x AND NOT RT_WORK_TYPE_DELAYED\<rparr>) s) k1)"

section \<open>The interface\<close>

definition rt_workqueue_dowork :: "nat \<Rightarrow> rt_workqueue \<Rightarrow> kernel \<Rightarrow> (int \<times> rt_workqueue \<times> kernel) option" where
  "rt_workqueue_dowork = workqueue_submit_work"

definition rt_workqueue_submit_work :: "nat \<Rightarrow> u32 \<Rightarrow> rt_workqueue \<Rightarrow> kernel \<Rightarrow> (int \<times> rt_workqueue \<times> kernel) option" where
  "rt_workqueue_submit_work w time s k =
     (let s1 = (if 0 < time then upd_work w (\<lambda>x. x\<lparr>work_type := work_type x OR RT_WORK_TYPE_DELAYED\<rparr>) s else s) in
      if work_type (works s1 w) AND RT_WORK_TYPE_DELAYED \<noteq> 0 then workqueue_submit_delayed_work w time s1 k
      else workqueue_submit_work w s1 k)"

definition rt_workqueue_critical_work :: "nat \<Rightarrow> rt_workqueue \<Rightarrow> kernel \<Rightarrow> (int \<times> rt_workqueue \<times> kernel) option" where
  "rt_workqueue_critical_work w s k =
     (if work_current s = Some w then Some (- RT_EBUSY, s, k)
      else do {
        let s1 = wq_append w s;
        k1 \<leftarrow> wq_wake s1 k;
        Some (RT_EOK, s1, k1)
      })"

definition rt_workqueue_cancel_work :: "nat \<Rightarrow> rt_workqueue \<Rightarrow> kernel \<Rightarrow> int \<times> rt_workqueue \<times> kernel" where
  "rt_workqueue_cancel_work w s k =
     (if work_type (works s w) AND RT_WORK_TYPE_DELAYED \<noteq> 0 then workqueue_cancel_delayed_work w s k
      else (case workqueue_cancel_work w s of (r, s') \<Rightarrow> (r, s', k)))"

text \<open>A work that is running is waited for on the queue's semaphore; the flag is cleared when the wait is over.\<close>

definition rt_workqueue_cancel_work_sync_enter ::
  "nat \<Rightarrow> rt_workqueue \<Rightarrow> kernel \<Rightarrow> (outcome \<times> rt_workqueue \<times> kernel) option" where
  "rt_workqueue_cancel_work_sync_enter w s k =
     (if work_current s = Some w then do {
        (r, sem, k1) \<leftarrow> rt_sem_take_enter (wq_sem s) 0xFFFFFFFF k;
        let s1 = s\<lparr>wq_sem := sem\<rparr>;
        Some (case r of Blocked \<Rightarrow> (Blocked, s1, k1)
              | Returned _ \<Rightarrow> (Returned RT_EOK, upd_work w (clear_flag RT_WORK_STATE_PENDING) s1, k1))
      }
      else Some (Returned RT_EOK, upd_work w (clear_flag RT_WORK_STATE_PENDING)
        (s\<lparr>work_list := removeAll w (work_list s)\<rparr>), k))"

definition rt_workqueue_cancel_work_sync_resume :: "nat \<Rightarrow> rt_workqueue \<Rightarrow> int \<times> rt_workqueue" where
  "rt_workqueue_cancel_work_sync_resume w s = (RT_EOK, upd_work w (clear_flag RT_WORK_STATE_PENDING) s)"

definition rt_workqueue_cancel_all_work :: "rt_workqueue \<Rightarrow> kernel \<Rightarrow> (int \<times> rt_workqueue \<times> kernel) option" where
  "rt_workqueue_cancel_all_work s k = do {
     k1 \<leftarrow> rt_exit_critical (rt_enter_critical k);
     Some (RT_EOK, s\<lparr>work_list := foldl (\<lambda>ws w. removeAll w ws) (work_list s) (work_list s)\<rparr>, k1)
   }"

text \<open>Creation after both requests of memory have succeeded, and destruction before the queue is freed.\<close>

definition rt_workqueue_create :: "nat \<Rightarrow> tid \<Rightarrow> u8 \<Rightarrow> (nat \<Rightarrow> rt_work) \<Rightarrow> kernel \<Rightarrow> (rt_workqueue \<times> kernel) option" where
  "rt_workqueue_create a t priority ws k = do {
     (_, sem, k1) \<leftarrow> rt_sem_init a 0 RT_IPC_FLAG_FIFO k;
     (_, k2) \<leftarrow> rt_thread_init t False priority 10 k1;
     (_, k3) \<leftarrow> rt_thread_startup t k2;
     Some (\<lparr>wq_addr = a, work_list = [], work_current = None, wq_sem = sem, work_thread = t, works = ws,
            wq_pc = WCheck\<rparr>, k3)
   }"

definition rt_workqueue_destroy :: "rt_workqueue \<Rightarrow> kernel \<Rightarrow> (int \<times> kernel) option" where
  "rt_workqueue_destroy s k = map_option (\<lambda>(_, k1). (RT_EOK, k1)) (rt_thread_delete (work_thread s) k)"

section \<open>The completion loop\<close>

lemma exit_critical_keeps:
  assumes k: "kinv k" "current k \<noteq> None"
  shows "\<exists>k'. rt_exit_critical k = Some k' \<and> kinv k' \<and> current k' \<noteq> None
    \<and> (\<forall>u. runnable k' u = runnable k u) \<and> (\<forall>u. error (threads k' u) = error (threads k u))
    \<and> (\<forall>q. wait_queue q \<longrightarrow> lists k' q = lists k q)"
proof -
  let ?k1 = "k\<lparr>lock_nest := lock_nest k - 1\<rparr>" and ?k2 = "k\<lparr>lock_nest := 0\<rparr>"
  have kx: "kinv (k\<lparr>lock_nest := x\<rparr>)" for x using kinv_cong [of "k\<lparr>lock_nest := x\<rparr>" k] k(1) by simp
  have r: "runnable (k\<lparr>lock_nest := x\<rparr>) u = runnable k u" for x u by (simp add: runnable_def tstat_def)
  obtain c where c: "current ?k2 = Some c" using k(2) by auto
  from rt_schedule_spec [OF kx c] obtain k' n where
    s: "rt_schedule ?k2 = Some k'" "kinv k'" "current k' = Some n" "sched_rel ?k2 k'" by blast
  note rel = sched_relD [OF s(4)]
  have l: "lists k' q = lists k q" if "wait_queue q" for q using that rel(13,14) by (cases q) simp_all
  show ?thesis
  proof (cases "sint (lock_nest ?k1) \<le> 0")
    case True
    then have "rt_exit_critical k = Some k'" using s(1) k(2) by (simp add: rt_exit_critical_def Let_def)
    with s l rel(6,10) r show ?thesis by simp
  next
    case False
    then have "rt_exit_critical k = Some ?k1" by (simp add: rt_exit_critical_def Let_def)
    with kx r k(2) show ?thesis by simp
  qed
qed

lemma completion_loop_spec:
  assumes "kinv k" "current k \<noteq> None" "sem_value s = 0"
  shows "\<exists>k'. completion_loop s k = Some (0, s, k') \<and> kinv k' \<and> current k' \<noteq> None \<and> lists k' (sem_queue s) = []
    \<and> (\<forall>u. runnable k' u = (u \<in> set (lists k (sem_queue s)) \<or> runnable k u))
    \<and> (\<forall>u. error (threads k' u) = error (threads k u))"
  using assms
proof (induction "lists k (sem_queue s)" arbitrary: k)
  case Nil
  let ?s1 = "s\<lparr>sem_value := 1\<rparr>"
  have v: "?s1\<lparr>sem_value := 0\<rparr> = s" using Nil.prems(3) by simp
  have "completion_loop s k = completion_loop ?s1 k"
    using Nil by (subst completion_loop.simps) (simp add: rt_sem_trytake_def rt_sem_take_enter_def rt_sem_release_def)
  also have "\<dots> = Some (0, s, k)"
    by (subst completion_loop.simps) (simp add: rt_sem_trytake_def rt_sem_take_enter_def v)
  finally show ?case using Nil by simp
next
  case (Cons t ts)
  from rt_sem_release_wakes [OF Cons.prems(1,2) Cons.hyps(2) [symmetric]] obtain k1 where k1:
    "rt_sem_release s k = Some (0, s, k1)" "kinv k1" "current k1 \<noteq> None" "lists k1 (sem_queue s) = ts"
    "\<forall>u. runnable k1 u = (u = t \<or> runnable k u)" "\<forall>u. error (threads k1 u) = error (threads k u)" by blast
  have e: "completion_loop s k = completion_loop s k1"
    using Cons.prems(3) k1(1) by (subst completion_loop.simps) (simp add: rt_sem_trytake_def rt_sem_take_enter_def)
  from Cons.hyps(1) [OF k1(4) [symmetric] k1(2,3) Cons.prems(3)] k1 Cons.hyps(2) [symmetric] show ?case
    unfolding e by auto
qed

lemma work_completion_spec:
  assumes k: "kinv k" "current k \<noteq> None" and s: "sem_value s = 0"
  shows "\<exists>k'. work_completion s k = Some (0, s, k') \<and> kinv k' \<and> current k' \<noteq> None \<and> lists k' (sem_queue s) = []
    \<and> (\<forall>u. runnable k' u = (u \<in> set (lists k (sem_queue s)) \<or> runnable k u))
    \<and> (\<forall>u. error (threads k' u) = error (threads k u))"
proof -
  let ?k = "rt_enter_critical k"
  have kc: "kinv ?k" "current ?k \<noteq> None" "lists ?k = lists k" "threads ?k = threads k" "runnable ?k u = runnable k u" for u
    using kinv_cong [of ?k k] k by (simp_all add: rt_enter_critical_def runnable_def tstat_def)
  from completion_loop_spec [OF kc(1,2) s] obtain k1 where k1: "completion_loop s ?k = Some (0, s, k1)" "kinv k1"
    "current k1 \<noteq> None" "lists k1 (sem_queue s) = []"
    "\<forall>u. runnable k1 u = (u \<in> set (lists k (sem_queue s)) \<or> runnable k u)"
    "\<forall>u. error (threads k1 u) = error (threads k u)" by (auto simp: kc)
  from exit_critical_keeps [OF k1(2,3)] k1 show ?thesis by (auto simp: work_completion_def)
qed

section \<open>The worker among interrupts and other threads\<close>

text \<open>Anything else that happens in the system and neither suspends, resumes nor closes the worker.\<close>

definition rely :: "tid \<Rightarrow> kernel \<Rightarrow> kernel \<Rightarrow> bool" where
  "rely t k k' \<longleftrightarrow> kinv k' \<and> current k' \<noteq> None \<and> runnable k' t = runnable k t
     \<and> (tstat k' t = RT_THREAD_SUSPEND) = (tstat k t = RT_THREAD_SUSPEND)"

definition worker_runs :: "rt_workqueue \<Rightarrow> kernel \<Rightarrow> bool" where
  "worker_runs s k \<longleftrightarrow> current k = Some (work_thread s) \<and> (runnable k (work_thread s) \<or> wq_pc s = WSwitch)"

inductive wq_step :: "rt_workqueue \<times> kernel \<Rightarrow> rt_workqueue \<times> kernel \<Rightarrow> bool" where
  submit: "workqueue_submit_work w s k = Some (r, s', k') \<Longrightarrow> wq_step (s, k) (s', k')"
| critical: "rt_workqueue_critical_work w s k = Some (r, s', k') \<Longrightarrow> wq_step (s, k) (s', k')"
| worker: "worker_runs s k \<Longrightarrow> worker_step s k = Some (s', k') \<Longrightarrow> wq_step (s, k) (s', k')"
| other: "rely (work_thread s) k k' \<Longrightarrow> wq_step (s, k) (s, k')"

inductive_cases wq_stepE: "wq_step (s, k) (s', k')"

definition wq_ok :: "rt_workqueue \<Rightarrow> kernel \<Rightarrow> bool" where
  "wq_ok s k \<longleftrightarrow> kinv k \<and> current k \<noteq> None
     \<and> (runnable k (work_thread s) \<or> tstat k (work_thread s) = RT_THREAD_SUSPEND)
     \<and> distinct (work_list s) \<and> (wq_pc s = WRun) = (work_current s \<noteq> None) \<and> sem_value (wq_sem s) = 0
     \<and> (tstat k (work_thread s) = RT_THREAD_SUSPEND \<longrightarrow> wq_pc s \<in> {WSwitch, WTake})
     \<and> (wq_pc s \<in> {WSwitch, WTake} \<longrightarrow> runnable k (work_thread s) \<longrightarrow> work_list s \<noteq> [])"

lemma runnable_not_suspended: "runnable k t \<Longrightarrow> tstat k t \<noteq> RT_THREAD_SUSPEND"
  by (auto simp: runnable_def)

lemma rt_schedule_keeps:
  assumes "kinv k" "current k \<noteq> None"
  shows "\<exists>k'. rt_schedule k = Some k' \<and> kinv k' \<and> current k' \<noteq> None \<and> (\<forall>u. runnable k' u = runnable k u)
    \<and> (\<forall>u. (tstat k' u = RT_THREAD_SUSPEND) = (tstat k u = RT_THREAD_SUSPEND))"
proof -
  obtain c where "current k = Some c" using assms(2) by blast
  from rt_schedule_spec [OF assms(1) this] obtain k' n where
    s: "rt_schedule k = Some k'" "kinv k'" "current k' = Some n" "sched_rel k k'" by blast
  note rel = sched_relD [OF s(4)]
  have "(tstat k' u = RT_THREAD_SUSPEND) = (tstat k u = RT_THREAD_SUSPEND)" for u
    using rel(10,12) [of u] by (cases "runnable k u") (auto dest: runnable_not_suspended)
  with s rel(10) show ?thesis by simp
qed

lemma wq_wake_spec:
  assumes "kinv k" "current k \<noteq> None"
    and t: "runnable k (work_thread s) \<or> tstat k (work_thread s) = RT_THREAD_SUSPEND"
  shows "\<exists>k'. wq_wake s k = Some k' \<and> kinv k' \<and> current k' \<noteq> None
    \<and> (work_current s = None \<longrightarrow> runnable k' (work_thread s)) \<and> (work_current s \<noteq> None \<longrightarrow> k' = k)"
proof (cases "work_current s = None")
  case True
  let ?t = "work_thread s" and ?k1 = "snd (rt_thread_resume (work_thread s) k)"
  have "kinv ?k1 \<and> current ?k1 \<noteq> None \<and> runnable ?k1 ?t"
  proof (cases "tstat k ?t = RT_THREAD_SUSPEND")
    case True
    from rt_thread_resume_spec [OF assms(1) True] assms(2) show ?thesis by (auto simp: runnable_def)
  next
    case False
    then show ?thesis using assms by (simp add: rt_thread_resume_def)
  qed
  with rt_schedule_keeps [of ?k1] True show ?thesis by (auto simp: wq_wake_def)
qed (use assms in \<open>auto simp: wq_wake_def\<close>)

lemma wq_fields [simp]:
  "work_list (upd_work w f s) = work_list s" "work_current (upd_work w f s) = work_current s"
  "work_thread (upd_work w f s) = work_thread s" "wq_pc (upd_work w f s) = wq_pc s" "wq_sem (upd_work w f s) = wq_sem s"
  "works (upd_work w f s) = (works s)(w := f (works s w))" "wq_addr (upd_work w f s) = wq_addr s"
  "work_list (wq_append w s) = removeAll w (work_list s) @ [w]" "work_current (wq_append w s) = work_current s"
  "work_thread (wq_append w s) = work_thread s" "wq_pc (wq_append w s) = wq_pc s" "wq_sem (wq_append w s) = wq_sem s"
  "works (wq_append w s) = works s"
  by (simp_all add: upd_work_def wq_append_def)

text \<open>Linking a work and waking the worker keeps the invariant, whatever happens to the flags.\<close>

lemma append_wake_ok:
  assumes s: "wq_ok s k" and s1: "work_list s1 = removeAll w (work_list s) @ [w]" "work_current s1 = work_current s"
    "work_thread s1 = work_thread s" "wq_pc s1 = wq_pc s" "wq_sem s1 = wq_sem s" and k': "wq_wake s1 k = Some k'"
  shows "wq_ok s1 k'"
proof -
  note i = s [unfolded wq_ok_def]
  from wq_wake_spec [of k s1] i s1(3) k' have "kinv k'" "current k' \<noteq> None"
    "work_current s = None \<longrightarrow> runnable k' (work_thread s)" "work_current s \<noteq> None \<longrightarrow> k' = k"
    by (simp_all add: s1)
  with i s1 show ?thesis
    by (cases "work_current s = None") (auto simp: wq_ok_def distinct_removeAll dest: runnable_not_suspended)
qed

text \<open>The worker's own steps: none of them gets stuck, and all keep the invariant.\<close>

lemma worker_step_ok:
  assumes s: "wq_ok s k" and r: "worker_runs s k"
  shows "\<exists>s' k'. worker_step s k = Some (s', k') \<and> wq_ok s' k' \<and> work_thread s' = work_thread s"
proof -
  let ?t = "work_thread s"
  note i = s [unfolded wq_ok_def] and c = r [unfolded worker_runs_def]
  show ?thesis
  proof (cases "wq_pc s")
    case WCheck
    then show ?thesis using i c by (auto simp: worker_step_def wq_ok_def)
  next
    case WSuspend
    then have t: "tstat k ?t = RT_THREAD_READY \<or> tstat k ?t = RT_THREAD_RUNNING" using c by (simp add: runnable_def)
    from rt_thread_suspend_spec [OF _ t] i WSuspend c show ?thesis
      by (auto simp: worker_step_def wq_ok_def dest: runnable_not_suspended)
  next
    case WSwitch
    from rt_schedule_keeps [of k] i obtain k' where "rt_schedule k = Some k'" "kinv k'" "current k' \<noteq> None"
      "\<forall>u. runnable k' u = runnable k u" "\<forall>u. (tstat k' u = RT_THREAD_SUSPEND) = (tstat k u = RT_THREAD_SUSPEND)" by blast
    with i WSwitch show ?thesis by (auto simp: worker_step_def wq_ok_def)
  next
    case WTake
    then obtain w ws where "work_list s = w # ws" using i c by (cases "work_list s") auto
    with i WTake c show ?thesis
      by (auto simp: worker_step_def wq_ok_def dest: runnable_not_suspended)
  next
    case WRun
    from work_completion_spec [of k "wq_sem s"] i obtain k' where "work_completion (wq_sem s) k = Some (0, wq_sem s, k')"
      "kinv k'" "current k' \<noteq> None" "\<forall>u. runnable k u \<longrightarrow> runnable k' u" by blast
    with i WRun c show ?thesis by (auto simp: worker_step_def wq_ok_def dest: runnable_not_suspended)
  qed
qed

lemma submit_ok:
  assumes "workqueue_submit_work w s k = Some (r, s', k')" "wq_ok s k"
  shows "wq_ok s' k' \<and> work_thread s' = work_thread s"
proof -
  consider "s' = s" "k' = k" | "s' = upd_work w (set_flag RT_WORK_STATE_PENDING) (wq_append w s)" "wq_wake s' k = Some k'"
    using assms(1) by (auto simp: workqueue_submit_work_def bind_eq_Some_conv Let_def split: if_splits)
  then show ?thesis
  proof cases
    case 2
    then have "wq_ok s' k'" by (intro append_wake_ok [OF assms(2), of s' w]) simp_all
    then show ?thesis using 2(1) by simp
  qed (use assms(2) in simp)
qed

lemma critical_ok:
  assumes "rt_workqueue_critical_work w s k = Some (r, s', k')" "wq_ok s k"
  shows "wq_ok s' k' \<and> work_thread s' = work_thread s"
proof -
  consider "s' = s" "k' = k" | "s' = wq_append w s" "wq_wake s' k = Some k'"
    using assms(1) by (auto simp: rt_workqueue_critical_work_def bind_eq_Some_conv Let_def split: if_splits)
  then show ?thesis
  proof cases
    case 2
    then have "wq_ok s' k'" by (intro append_wake_ok [OF assms(2), of s' w]) simp_all
    then show ?thesis using 2(1) by simp
  qed (use assms(2) in simp)
qed

lemma wq_step_ok:
  assumes "wq_step (s, k) (s', k')" "wq_ok s k"
  shows "wq_ok s' k' \<and> work_thread s' = work_thread s"
  using assms(1)
proof (cases rule: wq_stepE [consumes 1, case_names submit critical worker other])
  case (submit w r)
  then show ?thesis using submit_ok assms(2) by blast
next
  case (critical w r)
  then show ?thesis using critical_ok assms(2) by blast
next
  case worker
  with worker_step_ok [OF assms(2)] show ?thesis by auto
next
  case other
  then show ?thesis using assms(2) by (auto simp: wq_ok_def rely_def)
qed

lemma wq_steps_ok:
  assumes "wq_step\<^sup>*\<^sup>* (s, k) (s', k')" "wq_ok s k"
  shows "wq_ok s' k' \<and> work_thread s' = work_thread s"
  using assms(1)
proof (induction "(s', k')" arbitrary: s' k' rule: rtranclp_induct)
  case base
  then show ?case using assms(2) by simp
next
  case (step y)
  obtain s1 k1 where y: "y = (s1, k1)" by fastforce
  from step.hyps(3) [OF y] step.hyps(2) y show ?case using wq_step_ok [of s1 k1 s' k'] by simp
qed

section \<open>Flags and delayed works\<close>

lemma flag_bits: "(x OR m) AND m = (m :: u16)" "(x AND NOT m) AND m = (0 :: u16)"
  by (rule bit_word_eqI; auto simp: bit_simps)+

lemma pending_set: "work_flags (set_flag 1 x) AND 1 \<noteq> 0" "work_flags (clear_flag 1 x) AND 1 = 0"
  "work_flags (set_flag 2 x) AND 2 \<noteq> 0" "work_flags (clear_flag 2 x) AND 2 = 0"
  using flag_bits(2) [of "work_flags x" 1] flag_bits(2) [of "work_flags x" 2]
  by (simp_all add: set_flag_def clear_flag_def flag_bits(1))

lemma other_flag: "work_flags (set_flag 2 x) AND 1 = work_flags x AND 1" "work_flags (clear_flag 2 x) AND 1 = work_flags x AND 1"
  by (rule bit_word_eqI; auto simp: set_flag_def clear_flag_def bit_simps bit_numeral_rec bit_1_iff)+

lemma delayed_type: "(y OR 1) AND 1 \<noteq> (0 :: u16)" "(y AND NOT 1) AND 1 = (0 :: u16)"
  using flag_bits(2) [of y 1] by (simp_all add: flag_bits(1))

lemma timer_flags_set: "tm_flag (timers (timer_started k tm) tm) AND 1 \<noteq> 0"
  by (simp add: timer_started_def Let_def)

text \<open>Stopping and detaching the timer of a work, as cancelling and expiry do.\<close>

lemma stop_detach:
  "snd (rt_timer_detach tm (snd (rt_timer_stop tm k))) =
     (if tm_flag (timers k tm) AND RT_TIMER_FLAG_ACTIVATED = 0 then rt_timer_remove tm k
      else upd_timer tm clear_activated (rt_timer_remove tm k))"
  by (simp add: rt_timer_detach_def rt_timer_stop_def rt_timer_remove_def upd_timer_def)

lemma stop_detach_kernel:
  fixes tm :: tmid
  assumes "kinv k"
  defines "k' \<equiv> snd (rt_timer_detach tm (snd (rt_timer_stop tm k)))"
  shows "kinv k'" "current k' = current k" "threads k' = threads k" "lists k' = lists k"
    "timer_list k' = removeAll tm (timer_list k)"
proof -
  have d: "distinct (timer_list k)" using kinv_lists [OF assms(1)] by (simp add: lists_ok_def)
  have "kinv (rt_timer_remove tm k)" using kinv_x_timer_remove [of "{}" k] assms(1) by (simp add: kinv_def)
  moreover from this have "kinv (upd_timer tm clear_activated (rt_timer_remove tm k))"
    by (rule kinv_clear_activated) (use d in simp)
  ultimately show "kinv k'" by (simp add: k'_def stop_detach)
  show "current k' = current k" "threads k' = threads k" "lists k' = lists k" "timer_list k' = removeAll tm (timer_list k)"
    by (simp_all add: k'_def stop_detach)
qed

lemma kinv_own_timer_init:
  assumes "kinv k" "OwnTimer w \<notin> set (timer_list k)"
  shows "kinv (rt_timer_init (OwnTimer w) n f k)"
proof -
  have "thread_ok (rt_timer_init (OwnTimer w) n f k) u" for u
    by (rule thread_ok_frame [of _ _ k]) (use kinv_thread [OF assms(1)] in \<open>auto simp: rt_timer_init_def\<close>)
  moreover have "lists_ok (rt_timer_init (OwnTimer w) n f k)"
    using kinv_lists [OF assms(1)] assms(2) by (auto simp: lists_ok_def rt_timer_init_def)
  ultimately show ?thesis by (simp add: kinv_def kinv_x_def)
qed

section \<open>Properties\<close>


definition demo_wq :: rt_workqueue where
  "demo_wq = \<lparr>wq_addr = 4, work_list = [], work_current = None,
     wq_sem = \<lparr>sem_addr = 4, sem_flag = 0, sem_value = 0\<rparr>, work_thread = 1,
     works = (\<lambda>_. \<lparr>work_flags = 0, work_type = 0, work_wq = None\<rparr>), wq_pc = WCheck\<rparr>"

lemma demo_wq_facts: "current demo_rr = Some 1" "runnable demo_rr 1" "tstat demo_rr 1 = 3"
  by (simp_all add: demo_rr_def demo_kernel_def runnable_def tstat_def demo_thread_def)

lemma demo_wq_ok: "wq_ok demo_wq demo_rr"
  using demo_rr_kinv demo_wq_facts by (simp add: wq_ok_def demo_wq_def)


text \<open>Two races of the work queue. A work that is submitted to the sleeping worker and cancelled before
  the worker has run leaves a runnable worker that goes to take the first work of an empty list (it
  then treats the list head as a work). And a work submitted between the worker's test of the list
  and its suspension is not run: the worker sleeps on the nonempty list, and submitting the work again
  is refused as busy without waking anyone.\<close>

theorem workqueue_races:
  assumes ok: "wq_ok s k" and e: "work_list s = []" and w: "work_flags (works s w) AND RT_WORK_STATE_PENDING = 0"
    and c: "work_current s = None"
  shows "\<exists>s1 k1. workqueue_submit_work w s k = Some (RT_EOK, s1, k1)
    \<and> (wq_pc s = WTake \<longrightarrow> (\<exists>s2. workqueue_cancel_work w s1 = (RT_EOK, s2) \<and> runnable k1 (work_thread s2)
        \<and> work_list s2 = [] \<and> (\<forall>k2. worker_step s2 k2 = None)))
    \<and> (wq_pc s = WSuspend \<longrightarrow> (\<forall>k2. rely (work_thread s) k1 k2 \<and> current k2 = Some (work_thread s) \<longrightarrow>
        (\<exists>s3 k3. worker_step s1 k2 = Some (s3, k3) \<and> tstat k3 (work_thread s) = RT_THREAD_SUSPEND
          \<and> work_list s3 = [w] \<and> workqueue_submit_work w s3 k3 = Some (- RT_EBUSY, s3, k3))))"
proof -
  let ?s1 = "upd_work w (set_flag RT_WORK_STATE_PENDING) (wq_append w s)" and ?t = "work_thread s"
  note i = ok [unfolded wq_ok_def]
  from wq_wake_spec [of k ?s1] i c obtain k1 where k1: "wq_wake ?s1 k = Some k1" "kinv k1" "current k1 \<noteq> None"
    "runnable k1 ?t" by auto
  have sub: "workqueue_submit_work w s k = Some (RT_EOK, ?s1, k1)"
    using w c k1(1) by (simp add: workqueue_submit_work_def Let_def)
  have cancel: "\<exists>s2. workqueue_cancel_work w ?s1 = (RT_EOK, s2) \<and> runnable k1 (work_thread s2)
        \<and> work_list s2 = [] \<and> (\<forall>k2. worker_step s2 k2 = None)" if "wq_pc s = WTake"
    using that c e k1(4) by (simp add: workqueue_cancel_work_def worker_step_def upd_work_def wq_append_def)
  have lost: "\<exists>s3 k3. worker_step ?s1 k2 = Some (s3, k3) \<and> tstat k3 ?t = RT_THREAD_SUSPEND
          \<and> work_list s3 = [w] \<and> workqueue_submit_work w s3 k3 = Some (- RT_EBUSY, s3, k3)"
    if "wq_pc s = WSuspend" "rely ?t k1 k2" "current k2 = Some ?t" for k2
  proof -
    have k2: "kinv k2" "runnable k2 ?t" using that(2) k1(4) by (simp_all add: rely_def)
    then have "tstat k2 ?t = RT_THREAD_READY \<or> tstat k2 ?t = RT_THREAD_RUNNING" by (simp add: runnable_def)
    from rt_thread_suspend_spec [OF k2(1) this] obtain k3 where
      k3: "rt_thread_suspend ?t k2 = Some (0, k3)" "tstat k3 ?t = RT_THREAD_SUSPEND" by blast
    have "worker_step ?s1 k2 = Some (?s1\<lparr>wq_pc := WSwitch\<rparr>, k3)"
      using that(1,3) k3(1) by (simp add: worker_step_def)
    moreover have "workqueue_submit_work w (?s1\<lparr>wq_pc := WSwitch\<rparr>) k3 = Some (- RT_EBUSY, ?s1\<lparr>wq_pc := WSwitch\<rparr>, k3)"
      using pending_set(1) by (simp add: workqueue_submit_work_def)
    ultimately show ?thesis using k3(2) e by simp
  qed
  show ?thesis using sub cancel lost by blast
qed

theorem workqueue_races_witness:
  "\<exists>s1 k1. workqueue_submit_work 9 (demo_wq\<lparr>wq_pc := WSuspend\<rparr>) demo_rr = Some (RT_EOK, s1, k1)
    \<and> (\<forall>k2. rely 1 k1 k2 \<and> current k2 = Some 1 \<longrightarrow> (\<exists>s3 k3. worker_step s1 k2 = Some (s3, k3)
        \<and> tstat k3 1 = RT_THREAD_SUSPEND \<and> work_list s3 = [9]))"
proof -
  let ?s = "demo_wq\<lparr>wq_pc := WSuspend\<rparr>"
  have p: "wq_ok ?s demo_rr" using demo_rr_kinv demo_wq_facts by (simp add: wq_ok_def demo_wq_def)
  have e: "work_list ?s = []" "work_flags (works ?s 9) AND RT_WORK_STATE_PENDING = 0" "work_current ?s = None"
    "wq_pc ?s = WSuspend" "work_thread ?s = 1" by (simp_all add: demo_wq_def)
  from workqueue_races [OF p e(1-3)] obtain s1 k1 where
    "workqueue_submit_work 9 ?s demo_rr = Some (0, s1, k1)"
    "\<forall>k2. rely (work_thread ?s) k1 k2 \<and> current k2 = Some (work_thread ?s) \<longrightarrow>
        (\<exists>s3 k3. worker_step s1 k2 = Some (s3, k3) \<and> tstat k3 (work_thread ?s) = 2 \<and> work_list s3 = [9])"
    using e(4) by blast
  then show ?thesis unfolding e(5) by blast
qed

text \<open>The acknowledgement loop of the worker ends, with any number of threads waiting for the end of the
  current work: it wakes all of them with a granted semaphore and leaves the semaphore at zero.\<close>

theorem work_completion_terminates:
  assumes "kinv k" "current k \<noteq> None" "sem_value s = 0"
  shows "\<exists>k'. work_completion s k = Some (RT_EOK, s, k') \<and> kinv k' \<and> lists k' (sem_queue s) = []
    \<and> (\<forall>u. runnable k' u = (u \<in> set (lists k (sem_queue s)) \<or> runnable k u))
    \<and> (\<forall>u. rt_sem_take_resume u k' = rt_sem_take_resume u k)"
proof -
  from work_completion_spec [OF assms] obtain k' where k': "work_completion s k = Some (0, s, k')" "kinv k'"
    "lists k' (sem_queue s) = []" "\<forall>u. runnable k' u = (u \<in> set (lists k (sem_queue s)) \<or> runnable k u)"
    "\<forall>u. error (threads k' u) = error (threads k u)" by blast
  then show ?thesis by (auto simp: rt_sem_take_resume_def)
qed

theorem work_completion_terminates_witness:
  "\<exists>k'. work_completion \<lparr>sem_addr = 4, sem_flag = 0, sem_value = 0\<rparr> demo_rr
      = Some (RT_EOK, \<lparr>sem_addr = 4, sem_flag = 0, sem_value = 0\<rparr>, k') \<and> runnable k' 1"
proof -
  have "current demo_rr \<noteq> None" using demo_wq_facts by simp
  from work_completion_terminates [OF demo_rr_kinv this, of "\<lparr>sem_addr = 4, sem_flag = 0, sem_value = 0\<rparr>"] demo_wq_facts(2)
  show ?thesis by auto
qed

text \<open>A delayed work. Submitting an idle work with a delay arms its timer for exactly that many ticks and
  links nothing; when the timer fires the work is appended to the list, pending; cancelled before, its
  timer is disarmed and the work detached, and cancelling once more is refused.\<close>

theorem delayed_work_lifecycle:
  assumes ok: "wq_ok s k" and idle: "works s w = \<lparr>work_flags = 0, work_type = 0, work_wq = None\<rparr>" "work_current s \<noteq> Some w"
    and t: "0 < ticks" "ticks < 0x7fffffff" and off: "OwnTimer w \<notin> set (timer_list k)"
  shows "\<exists>s1 k1. rt_workqueue_submit_work w ticks s k = Some (RT_EOK, s1, k1) \<and> work_list s1 = work_list s
      \<and> OwnTimer w \<in> set (timer_list k1) \<and> tm_timeout_tick (timers k1 (OwnTimer w)) = tick k + ticks
    \<and> (\<exists>s2 k2. delayed_work_timeout_handler w s1 k1 = Some (RT_EOK, s2, k2) \<and> wq_ok s2 k2 \<and> last (work_list s2) = w
        \<and> work_flags (works s2 w) AND RT_WORK_STATE_PENDING \<noteq> 0 \<and> work_type (works s2 w) AND RT_WORK_TYPE_DELAYED = 0)
    \<and> (\<exists>s2 k2. rt_workqueue_cancel_work w s1 k1 = (RT_EOK, s2, k2) \<and> work_list s2 = work_list s
        \<and> OwnTimer w \<notin> set (timer_list k2) \<and> work_wq (works s2 w) = None
        \<and> rt_workqueue_cancel_work w s2 k2 = (- EINVAL, s2, k2))"
proof -
  note i = ok [unfolded wq_ok_def]
  define s1 where "s1 = upd_work w (\<lambda>_. \<lparr>work_flags = 2, work_type = 1, work_wq = Some (wq_addr s)\<rparr>) s"
  let ?k = "rt_timer_init (OwnTimer w) ticks RT_TIMER_FLAG_SOFT_TIMER k"
  let ?k1 = "timer_started ?k (OwnTimer w)"
  have kx: "kinv ?k1" "current ?k1 = current k" "threads ?k1 = threads k" "lists ?k1 = lists k"
  proof -
    have "kinv ?k" by (rule kinv_own_timer_init) (use i off in simp_all)
    then show "kinv ?k1" unfolding kinv_def by (rule kinv_x_timer_started) simp
  qed (simp_all add: rt_timer_init_def)
  have nz: "ticks \<noteq> 0" using t(1) by auto
  have sub: "rt_workqueue_submit_work w ticks s k = Some (RT_EOK, s1, ?k1)"
    using idle t nz by (simp add: rt_workqueue_submit_work_def workqueue_submit_delayed_work_def Let_def
        rt_timer_start_eq rt_timer_init_def upd_timer_def s1_def upd_work_def set_flag_def)
  have arm: "OwnTimer w \<in> set (timer_list ?k1)" "tm_timeout_tick (timers ?k1 (OwnTimer w)) = tick k + ticks"
    by (simp_all add: rt_timer_init_def upd_timer_def)
  have ok1: "wq_ok s1 ?k1" using ok kx by (simp add: wq_ok_def s1_def runnable_def tstat_def)
  let ?k2 = "snd (rt_timer_detach (OwnTimer w) (snd (rt_timer_stop (OwnTimer w) ?k1)))"
  note sd = stop_detach_kernel [OF kx(1), of "OwnTimer w"]
  have fire: "\<exists>s2 k2. delayed_work_timeout_handler w s1 ?k1 = Some (RT_EOK, s2, k2) \<and> wq_ok s2 k2 \<and> last (work_list s2) = w
        \<and> work_flags (works s2 w) AND RT_WORK_STATE_PENDING \<noteq> 0 \<and> work_type (works s2 w) AND RT_WORK_TYPE_DELAYED = 0"
  proof -
    let ?s2 = "upd_work w (\<lambda>_. \<lparr>work_flags = 0, work_type = 0, work_wq = Some (wq_addr s)\<rparr>) s"
    have ok2: "wq_ok ?s2 ?k2" using ok1 sd by (simp add: wq_ok_def s1_def runnable_def tstat_def)
    have h: "delayed_work_timeout_handler w s1 ?k1 = workqueue_submit_work w ?s2 ?k2"
      by (simp add: delayed_work_timeout_handler_def Let_def s1_def upd_work_def clear_flag_def)
    let ?s3 = "upd_work w (set_flag RT_WORK_STATE_PENDING) (wq_append w ?s2)"
    from wq_wake_spec [of ?k2 ?s3] ok2 obtain k3 where "wq_wake ?s3 ?k2 = Some k3" by (auto simp: wq_ok_def)
    then have r: "workqueue_submit_work w ?s2 ?k2 = Some (RT_EOK, ?s3, k3)"
      using idle(2) by (simp add: workqueue_submit_work_def Let_def)
    with submit_ok [OF r ok2] h show ?thesis by (simp add: set_flag_def)
  qed
  have cancel: "\<exists>s2 k2. rt_workqueue_cancel_work w s1 ?k1 = (RT_EOK, s2, k2) \<and> work_list s2 = work_list s
        \<and> OwnTimer w \<notin> set (timer_list k2) \<and> work_wq (works s2 w) = None
        \<and> rt_workqueue_cancel_work w s2 k2 = (- EINVAL, s2, k2)"
    using sd(5) by (simp add: rt_workqueue_cancel_work_def workqueue_cancel_delayed_work_def s1_def Let_def
        upd_work_def clear_flag_def)
  show ?thesis using sub arm fire cancel by (auto simp: s1_def)
qed

theorem delayed_work_lifecycle_witness:
  "\<exists>s1 k1. rt_workqueue_submit_work 9 50 demo_wq demo_rr = Some (RT_EOK, s1, k1)
    \<and> OwnTimer 9 \<in> set (timer_list k1) \<and> (\<exists>s2 k2. delayed_work_timeout_handler 9 s1 k1 = Some (RT_EOK, s2, k2) \<and> last (work_list s2) = 9)"
proof -
  have "works demo_wq 9 = \<lparr>work_flags = 0, work_type = 0, work_wq = None\<rparr>" "work_current demo_wq \<noteq> Some 9"
    "(0 :: u32) < 50" "(50 :: u32) < 0x7fffffff" "OwnTimer 9 \<notin> set (timer_list demo_rr)"
    by (simp_all add: demo_wq_def demo_rr_def demo_kernel_def)
  from delayed_work_lifecycle [OF demo_wq_ok this] show ?thesis by blast
qed

end
