(* ===== verification/Mutex.thy ===== *)
theory Mutex
  imports Ipc_Base
begin

text \<open>
  The recursive mutex of \<open>ipc.c\<close> with its priority inheritance: a blocking take raises the owner to
  the caller's priority, and the final release restores the owner's original priority and hands the
  mutex to the first waiter.
\<close>

unbundle bit_operations_syntax

section \<open>Operations\<close>

abbreviation (input) RT_EINTR :: int where "RT_EINTR \<equiv> 9"

record rt_mutex =
  mx_addr :: nat
  mx_flag :: u8
  mx_value :: u16
  original_priority :: u8
  hold :: u8
  owner :: "tid option"

abbreviation mx_queue :: "rt_mutex \<Rightarrow> qhead" where
  "mx_queue m \<equiv> WaitQ (mx_addr m)"

definition rt_mutex_init :: "nat \<Rightarrow> u8 \<Rightarrow> kernel \<Rightarrow> int \<times> rt_mutex \<times> kernel" where
  "rt_mutex_init addr flag k =
     (RT_EOK, \<lparr>mx_addr = addr, mx_flag = flag, mx_value = 1, original_priority = 0xFF, hold = 0,
               owner = None\<rparr>, k\<lparr>lists := (lists k)(WaitQ addr := [])\<rparr>)"

definition rt_mutex_detach :: "rt_mutex \<Rightarrow> kernel \<Rightarrow> (int \<times> kernel) option" where
  "rt_mutex_detach m k = map_option (Pair RT_EOK) (rt_ipc_list_resume_all (mx_queue m) k)"

definition rt_mutex_delete :: "rt_mutex \<Rightarrow> kernel \<Rightarrow> (int \<times> kernel) option" where
  "rt_mutex_delete m k =
     (if not_in_interrupt k
      then map_option (Pair RT_EOK) (rt_ipc_list_resume_all (mx_queue m) k) else None)"

text \<open>The part of \<open>rt_mutex_take\<close> from the label \<open>__again\<close>, for a caller that is not the owner.\<close>

definition mutex_acquire ::
  "rt_mutex \<Rightarrow> tid \<Rightarrow> 32 word \<Rightarrow> kernel \<Rightarrow> (outcome \<times> rt_mutex \<times> kernel) option" where
  "mutex_acquire m t time k =
     (if 0 < mx_value m
      then Some (Returned RT_EOK,
                 m\<lparr>mx_value := mx_value m - 1, owner := Some t,
                   original_priority := current_priority (threads k t), hold := hold m + 1\<rparr>, k)
      else if time = 0
      then Some (Returned (- RT_ETIMEOUT), m, upd_thread t (\<lambda>x. x\<lparr>error := - RT_ETIMEOUT\<rparr>) k)
      else do {
        ow \<leftarrow> owner m;
        k1 \<leftarrow> (if current_priority (threads k t) < current_priority (threads k ow)
              then map_option snd (rt_thread_control ow
                (RT_THREAD_CTRL_CHANGE_PRIORITY (current_priority (threads k t))) k)
              else Some k);
        k2 \<leftarrow> ipc_block (mx_queue m) t (mx_flag m) time k1;
        Some (Blocked, m, k2)
      })"

definition rt_mutex_take_enter ::
  "rt_mutex \<Rightarrow> 32 word \<Rightarrow> kernel \<Rightarrow> (outcome \<times> rt_mutex \<times> kernel) option" where
  "rt_mutex_take_enter m time k =
     (if in_thread_context k then do {
        t \<leftarrow> current k;
        let k1 = upd_thread t (\<lambda>x. x\<lparr>error := RT_EOK\<rparr>) k;
        if owner m = Some t then Some (Returned RT_EOK, m\<lparr>hold := hold m + 1\<rparr>, k1)
        else mutex_acquire m t time k1
      }
      else None)"

text \<open>Back from the switch; an interrupted wait starts over.\<close>

definition rt_mutex_take_resume ::
  "rt_mutex \<Rightarrow> tid \<Rightarrow> 32 word \<Rightarrow> kernel \<Rightarrow> (outcome \<times> rt_mutex \<times> kernel) option" where
  "rt_mutex_take_resume m t time k =
     (let e = error (threads k t) in
      if e \<noteq> RT_EOK then (if e = - RT_EINTR then mutex_acquire m t time k else Some (Returned e, m, k))
      else Some (Returned RT_EOK, m, k))"

text \<open>The owner gets its original priority back if it was raised.\<close>

definition mutex_restore_prio :: "u8 \<Rightarrow> tid \<Rightarrow> kernel \<Rightarrow> kernel option" where
  "mutex_restore_prio p t k =
     (if p \<noteq> current_priority (threads k t)
      then map_option snd (rt_thread_control t (RT_THREAD_CTRL_CHANGE_PRIORITY p) k)
      else Some k)"

definition rt_mutex_release :: "rt_mutex \<Rightarrow> kernel \<Rightarrow> (int \<times> rt_mutex \<times> kernel) option" where
  "rt_mutex_release m k =
     (if in_thread_context k then do {
        t \<leftarrow> current k;
        if owner m \<noteq> Some t
        then Some (- RT_ERROR, m, upd_thread t (\<lambda>x. x\<lparr>error := - RT_ERROR\<rparr>) k)
        else
          (let m1 = m\<lparr>hold := hold m - 1\<rparr> in
           if hold m1 = 0 then do {
             k1 \<leftarrow> mutex_restore_prio (original_priority m1) t k;
             case lists k1 (mx_queue m) of
               w # _ \<Rightarrow> do {
                 let m2 = m1\<lparr>owner := Some w, original_priority := current_priority (threads k1 w),
                             hold := hold m1 + 1\<rparr>;
                 (_, k2) \<leftarrow> rt_ipc_list_resume (mx_queue m) k1;
                 k3 \<leftarrow> rt_schedule k2;
                 Some (RT_EOK, m2, k3)
               }
             | [] \<Rightarrow> Some (RT_EOK, m1\<lparr>mx_value := mx_value m1 + 1, owner := None,
                                      original_priority := 0xff\<rparr>, k1)
           }
           else Some (RT_EOK, m1, k))
      }
      else None)"

definition rt_mutex_control :: "rt_mutex \<Rightarrow> ipc_cmd \<Rightarrow> u32 \<Rightarrow> int" where
  "rt_mutex_control m cmd arg = - RT_ERROR"

section \<open>Blocking with inheritance\<close>

text \<open>A mutex is free with nobody waiting, or owned by a started thread that is not itself waiting
  for it.\<close>

definition mutex_inv :: "rt_mutex \<Rightarrow> kernel \<Rightarrow> bool" where
  "mutex_inv m k \<longleftrightarrow> kinv k \<and> current k \<noteq> None \<and> flag_ok (mx_flag m)
     \<and> (case owner m of
          None \<Rightarrow> mx_value m = 1 \<and> hold m = 0 \<and> lists k (mx_queue m) = []
        | Some ow \<Rightarrow> mx_value m = 0 \<and> hold m \<noteq> 0 \<and> ow \<notin> set (lists k (mx_queue m))
            \<and> tstat k ow \<noteq> RT_THREAD_INIT \<and> unat (original_priority m) < 32)"

lemma prio_range: "kinv k \<Longrightarrow> tstat k t \<noteq> RT_THREAD_INIT \<Longrightarrow> prio k t < 32"
  using kinv_settled [of k t] by (simp add: prio_ok_def)

lemma mutex_take_blocks:
  assumes k: "kinv k" and c: "current k = Some c" "runnable k c" and ow: "owner m = Some ow" "ow \<noteq> c"
    and nw: "ow \<notin> set (lists k (mx_queue m))"
    and v: "mx_value m = 0" and os: "tstat k ow \<noteq> RT_THREAD_INIT" and f: "flag_ok (mx_flag m)"
    and time: "time \<noteq> 0" "time \<noteq> 0x7fffffff"
  shows "\<exists>k'. mutex_acquire m c time k = Some (Blocked, m, k') \<and> kinv k' \<and> current k' \<noteq> None
    \<and> tstat k' c = RT_THREAD_SUSPEND \<and> error (threads k' c) = error (threads k c)
    \<and> lists k' (mx_queue m) = queued (mx_flag m) (prio k) c (lists k (mx_queue m))
    \<and> prio k' ow = min (prio k ow) (prio k c) \<and> (\<forall>u. u \<noteq> ow \<longrightarrow> prio k' u = prio k u)
    \<and> tstat k' ow \<noteq> RT_THREAD_INIT"
proof -
  have pc: "unat (current_priority (threads k c)) < 32"
    using prio_range [OF k, of c] c(2) by (auto simp: runnable_def)
  define boost where "boost = (current_priority (threads k c) < current_priority (threads k ow))"
  obtain k1 where k1: "(if boost then map_option snd (rt_thread_control ow
          (RT_THREAD_CTRL_CHANGE_PRIORITY (current_priority (threads k c))) k) else Some k) = Some k1"
    "kinv k1" "current k1 = Some c" "tstat k1 ow = tstat k ow" "\<forall>u. u \<noteq> ow \<longrightarrow> threads k1 u = threads k u"
    "lists k1 (mx_queue m) = lists k (mx_queue m)" "prio k1 ow = min (prio k ow) (prio k c)"
  proof (cases boost)
    case True
    with rt_thread_control_prio_spec [OF k pc os] that c(1) show ?thesis
      by (auto simp: boost_def word_less_nat_alt)
  next
    case False
    with that [of k] k c(1) show ?thesis by (simp add: boost_def word_less_nat_alt)
  qed
  have c1: "runnable k1 c" "threads k1 c = threads k c"
    using k1(5) ow(2) c(2) by (auto simp: runnable_def tstat_def)
  have q1: "queued (mx_flag m) (prio k1) c (lists k (mx_queue m))
      = queued (mx_flag m) (prio k) c (lists k (mx_queue m))"
    by (rule queued_cong) (use nw ow(2) k1(5) in auto)
  from ipc_block_spec [OF k1(2,3) c1(1) _ f time(2), of "mx_queue m"] obtain k' where
    b: "ipc_block (mx_queue m) c (mx_flag m) time k1 = Some k'" "kinv k'" "current k' \<noteq> None"
    "tstat k' c = 2" "lists k' (mx_queue m) = queued (mx_flag m) (prio k1) c (lists k1 (mx_queue m))"
    "\<forall>u. error (threads k' u) = error (threads k1 u) \<and> prio k' u = prio k1 u"
    "\<forall>u. u \<noteq> c \<longrightarrow> runnable k' u = runnable k1 u \<and> (\<not> runnable k1 u \<longrightarrow> threads k' u = threads k1 u)"
    by auto
  have e: "mutex_acquire m c time k = Some (Blocked, m, k')"
    using v time(1) ow(1) k1(1) b(1) by (simp add: mutex_acquire_def boost_def)
  have "tstat k' ow \<noteq> 0"
    using b(7) [rule_format, of ow] ow(2) os k1(4) by (auto simp: runnable_def tstat_def)
  then show ?thesis
    using e b(1-5) b(6) c1(2) k1(5-7) q1 by (intro exI [of _ k']) auto
qed

section \<open>Releasing\<close>

lemma mutex_restore:
  assumes k: "kinv k" and c: "current k = Some c" "tstat k c \<noteq> RT_THREAD_INIT" and p: "unat p < 32"
  shows "\<exists>k1. mutex_restore_prio p c k = Some k1
    \<and> kinv k1 \<and> current k1 = Some c \<and> prio k1 c = unat p \<and> tstat k1 c = tstat k c
    \<and> (\<forall>u. u \<noteq> c \<longrightarrow> threads k1 u = threads k u) \<and> (\<forall>a. lists k1 (WaitQ a) = lists k (WaitQ a))
    \<and> int_nest k1 = int_nest k"
proof (cases "p = current_priority (threads k c)")
  case True
  then show ?thesis using k c by (simp add: mutex_restore_prio_def)
next
  case False
  with rt_thread_control_prio_spec [OF k p c(2)] c(1) show ?thesis
    by (auto simp: same_time_def mutex_restore_prio_def)
qed

lemma mutex_release_last:
  assumes inv: "mutex_inv m k" and c: "current k = Some c" and i: "int_nest k = 0"
    and ow: "owner m = Some c" and h: "hold m = 1"
  shows "\<exists>k'. kinv k' \<and> current k' \<noteq> None \<and> prio k' c = unat (original_priority m)
    \<and> (\<forall>u. u \<noteq> c \<longrightarrow> prio k' u = prio k u \<and> error (threads k' u) = error (threads k u))
    \<and> (case lists k (mx_queue m) of
        [] \<Rightarrow> rt_mutex_release m k = Some (0, m\<lparr>mx_value := 1, original_priority := 0xff, hold := 0,
                 owner := None\<rparr>, k') \<and> lists k' (mx_queue m) = []
      | w # ts \<Rightarrow> rt_mutex_release m k = Some (0, m\<lparr>original_priority := current_priority (threads k w),
                 hold := 1, owner := Some w\<rparr>, k')
          \<and> lists k' (mx_queue m) = ts \<and> runnable k' w)"
proof -
  have v: "kinv k" "tstat k c \<noteq> RT_THREAD_INIT" "unat (original_priority m) < 32" "mx_value m = 0"
    "c \<notin> set (lists k (mx_queue m))"
    using inv ow by (auto simp: mutex_inv_def)
  obtain k1 where k1: "mutex_restore_prio (original_priority m) c k = Some k1"
    "kinv k1" "current k1 = Some c" "prio k1 c = unat (original_priority m)"
    "\<forall>u. u \<noteq> c \<longrightarrow> threads k1 u = threads k u" "lists k1 (mx_queue m) = lists k (mx_queue m)"
    using mutex_restore [OF v(1) c v(2,3)] by blast
  have ctx: "in_thread_context k" using c i by (simp add: in_thread_context_def)
  show ?thesis
  proof (cases "lists k (mx_queue m)")
    case Nil
    have "rt_mutex_release m k = Some (0, m\<lparr>mx_value := 1, original_priority := 0xff, hold := 0,
        owner := None\<rparr>, k1)"
      using ctx c ow h k1(1,6) v(4) Nil by (simp add: rt_mutex_release_def Let_def)
    with k1 Nil show ?thesis by (intro exI [of _ k1]) simp
  next
    case (Cons w ts)
    have wc: "w \<noteq> c" using v(5) Cons by auto
    have c1: "current k1 \<noteq> None" using k1(3) by simp
    have l1: "lists k1 (mx_queue m) = w # ts" using k1(6) Cons by simp
    from resume_and_schedule [OF k1(2) c1 _ l1] obtain k' where
      s: "rt_schedule (resumed w k1) = Some k'" "kinv k'" "current k' \<noteq> None" "lists k' (mx_queue m) = ts"
      "\<forall>u. runnable k' u = (u = w \<or> runnable k1 u)"
      "\<forall>u. error (threads k' u) = error (threads k1 u) \<and> prio k' u = prio k1 u" by auto
    have r: "rt_ipc_list_resume (mx_queue m) k1 = Some (0, resumed w k1)"
      using rt_ipc_list_resume_spec [OF k1(2) _ l1] by simp
    have "rt_mutex_release m k = Some (0, m\<lparr>original_priority := current_priority (threads k w),
        hold := 1, owner := Some w\<rparr>, k')"
      using ctx c ow h k1(1,5) l1 r s(1) wc by (simp add: rt_mutex_release_def Let_def)
    with k1 s Cons show ?thesis by (intro exI [of _ k']) simp
  qed
qed

lemma mutex_release_nested:
  assumes "current k = Some c" "int_nest k = 0" "owner m = Some c" "hold m \<noteq> 1"
  shows "rt_mutex_release m k = Some (0, m\<lparr>hold := hold m - 1\<rparr>, k)"
  using assms by (simp add: rt_mutex_release_def in_thread_context_def)

lemma mutex_release_other:
  assumes "current k = Some c" "int_nest k = 0" "owner m \<noteq> Some c"
  shows "rt_mutex_release m k = Some (- 1, m, upd_thread c (\<lambda>x. x\<lparr>error := - 1\<rparr>) k)"
  using assms by (simp add: rt_mutex_release_def in_thread_context_def)

section \<open>Runs of a mutex\<close>

text \<open>Takes (by a running caller, nested less than 255 times), releases, and other kernel activity that
  queues nobody on the mutex and leaves the priorities of its owner and waiters alone.\<close>

inductive mutex_step :: "rt_mutex \<times> kernel \<Rightarrow> rt_mutex \<times> kernel \<Rightarrow> bool" where
  take: "current k = Some c \<Longrightarrow> runnable k c \<Longrightarrow> time \<noteq> 0x7fffffff \<Longrightarrow> hold m \<noteq> 0xff \<Longrightarrow>
    rt_mutex_take_enter m time k = Some (r, m', k') \<Longrightarrow> mutex_step (m, k) (m', k')"
| release: "rt_mutex_release m k = Some (r, m', k') \<Longrightarrow> mutex_step (m, k) (m', k')"
| environment: "kinv k' \<Longrightarrow> current k' \<noteq> None \<Longrightarrow>
    lists k' (mx_queue m) = filter P (lists k (mx_queue m)) \<Longrightarrow>
    (\<And>u. owner m = Some u \<or> u \<in> set (lists k (mx_queue m)) \<Longrightarrow> prio k' u = prio k u) \<Longrightarrow>
    (\<And>u. owner m = Some u \<Longrightarrow> tstat k' u \<noteq> RT_THREAD_INIT) \<Longrightarrow> mutex_step (m, k) (m, k')"

text \<open>No priority inversion: the owner runs at least at the priority of every waiter, and the waiters
  are in order of priority.\<close>

definition inherits :: "rt_mutex \<Rightarrow> kernel \<Rightarrow> bool" where
  "inherits m k \<longleftrightarrow> sorted (map (prio k) (lists k (mx_queue m)))
     \<and> (\<forall>ow w. owner m = Some ow \<longrightarrow> w \<in> set (lists k (mx_queue m)) \<longrightarrow> prio k ow \<le> prio k w)"

lemma mutex_inv_set_error:
  assumes "mutex_inv m k"
  shows "mutex_inv m (upd_thread c (\<lambda>x. x\<lparr>error := e\<rparr>) k)"
    "inherits m (upd_thread c (\<lambda>x. x\<lparr>error := e\<rparr>) k) = inherits m k"
proof -
  let ?k = "upd_thread c (\<lambda>x. x\<lparr>error := e\<rparr>) k"
  have st: "tstat ?k u = tstat k u" "prio ?k u = prio k u" for u by (simp_all add: tstat_def)
  have "kinv ?k" using assms kinv_set_error by (simp add: mutex_inv_def)
  then show "mutex_inv m ?k"
    using assms unfolding mutex_inv_def st by (simp split: option.splits)
  show "inherits m ?k = inherits m k" unfolding inherits_def using st(2) by simp
qed

lemma mutex_take_inv:
  assumes inv: "mutex_inv m k" and c: "current k = Some c" "runnable k c" and time: "time \<noteq> 0x7fffffff"
    and h: "hold m \<noteq> 0xff" and r: "rt_mutex_take_enter m time k = Some (r, m', k')"
  shows "mutex_inv m' k' \<and> mx_flag m' = mx_flag m
    \<and> (mx_flag m = RT_IPC_FLAG_PRIO \<and> inherits m k \<longrightarrow> inherits m' k')"
proof -
  let ?k1 = "upd_thread c (\<lambda>x. x\<lparr>error := 0\<rparr>) k"
  have k: "kinv k" using inv by (simp add: mutex_inv_def)
  have k1: "kinv ?k1" by (rule kinv_set_error [OF k])
  have st: "tstat ?k1 u = tstat k u" "runnable ?k1 u = runnable k u" "prio ?k1 u = prio k u" for u
    by (simp_all add: tstat_def runnable_def)
  have ctx: "in_thread_context k" using r by (auto simp: rt_mutex_take_enter_def split: if_splits)
  have ci: "tstat k c \<noteq> RT_THREAD_INIT" using c(2) by (auto simp: runnable_def)
  have pc: "unat (current_priority (threads k c)) < 32" using prio_range [OF k ci] .
  have h1: "hold m + 1 \<noteq> 0"
  proof -
    have "hold m + 1 = 0 \<longleftrightarrow> hold m = - 1" by (simp add: eq_neg_iff_add_eq_0)
    moreover have "(- 1 :: u8) = 0xff" by simp
    ultimately show ?thesis using h by metis
  qed
  have i1: "inherits m ?k1 = inherits m k" using st(3) by (simp add: inherits_def)
  consider (again) "owner m = Some c" | (free) "owner m = None"
    | (fail) ow where "owner m = Some ow" "ow \<noteq> c" "time = 0"
    | (wait) ow where "owner m = Some ow" "ow \<noteq> c" "time \<noteq> 0" by (cases "owner m") auto
  then show ?thesis
  proof cases
    case again
    then have "m' = m\<lparr>hold := hold m + 1\<rparr>" "k' = ?k1"
      using r c(1) ctx by (simp_all add: rt_mutex_take_enter_def)
    then show ?thesis using inv again h1 k1 c(1) st i1 by (auto simp: mutex_inv_def inherits_def)
  next
    case free
    then have "mx_value m = 1" "hold m = 0" "lists k (mx_queue m) = []" using inv by (auto simp: mutex_inv_def)
    then have "m' = m\<lparr>mx_value := 0, owner := Some c, original_priority := current_priority (threads k c),
        hold := 1\<rparr>" "k' = ?k1"
      using r c(1) ctx free by (simp_all add: rt_mutex_take_enter_def mutex_acquire_def)
    then show ?thesis
      using inv free k1 c(1) st ci pc \<open>lists k (mx_queue m) = []\<close> by (auto simp: mutex_inv_def inherits_def)
  next
    case fail
    then have "m' = m" "k' = upd_thread c (\<lambda>x. x\<lparr>error := - 2\<rparr>) ?k1"
      using r c(1) ctx inv by (auto simp: rt_mutex_take_enter_def mutex_acquire_def mutex_inv_def)
    then show ?thesis
      using mutex_inv_set_error [OF mutex_inv_set_error(1) [OF inv]] mutex_inv_set_error(2) [OF inv] by simp
  next
    case wait
    have m: "mx_value m = 0" "ow \<notin> set (lists ?k1 (mx_queue m))" "tstat ?k1 ow \<noteq> 0" "flag_ok (mx_flag m)"
      using inv wait(1) st by (auto simp: mutex_inv_def)
    have c1: "current ?k1 = Some c" "runnable ?k1 c" using c st by simp_all
    from mutex_take_blocks [OF k1 c1 wait(1,2) m(2,1,3,4) wait(3) time] obtain k2 where
      b: "mutex_acquire m c time ?k1 = Some (Blocked, m, k2)" "kinv k2" "current k2 \<noteq> None"
      "lists k2 (mx_queue m) = queued (mx_flag m) (prio ?k1) c (lists ?k1 (mx_queue m))"
      "prio k2 ow = min (prio ?k1 ow) (prio ?k1 c)" "\<forall>u. u \<noteq> ow \<longrightarrow> prio k2 u = prio ?k1 u"
      "tstat k2 ow \<noteq> 0" by blast
    have mk: "m' = m" "k' = k2" using r c(1) ctx wait(1,2) b(1) by (simp_all add: rt_mutex_take_enter_def)
    note b' = b [unfolded st(3) upd_thread_simps(1)]
    have "inherits m k2" if "mx_flag m = 1" "inherits m k"
    proof -
      have s: "sorted (map (prio k) (queued (mx_flag m) (prio k) c (lists k (mx_queue m))))"
        using that by (simp add: queued_def inherits_def prio_queue.sorted_ins)
      have "prio k2 u = prio k u" if "u \<in> set (lists k2 (mx_queue m))" for u
      proof -
        have "set (lists k2 (mx_queue m)) = insert c (set (lists k (mx_queue m)))"
          unfolding b'(4) by (rule set_queued)
        moreover have "ow \<notin> set (lists k (mx_queue m))" using m(2) by simp
        ultimately have "u \<noteq> ow" using that wait(2) by blast
        then show ?thesis using b'(6) by blast
      qed
      note same = this
      then have "map (prio k2) (lists k2 (mx_queue m)) = map (prio k) (lists k2 (mx_queue m))"
        by (intro map_cong refl)
      with s b'(4) have "sorted (map (prio k2) (lists k2 (mx_queue m)))" by (simp only:)
      moreover have "prio k2 ow \<le> prio k2 w" if w: "w \<in> set (lists k2 (mx_queue m))" for w
      proof (cases "w = c")
        case True
        then show ?thesis using same [OF w] b'(5) by (simp only: min.cobounded2)
      next
        case False
        then have "prio k ow \<le> prio k w"
          using w [unfolded b'(4)] \<open>inherits m k\<close> wait(1) unfolding inherits_def set_queued by blast
        then show ?thesis using same [OF w] b'(5) by (simp only: min.coboundedI1)
      qed
      ultimately show ?thesis using wait(1) unfolding inherits_def by simp
    qed
    then show ?thesis
      using mk b'(2,3,4,7) inv wait(1,2) by (auto simp: mutex_inv_def)
  qed
qed

lemma mutex_release_inv:
  assumes inv: "mutex_inv m k" and r: "rt_mutex_release m k = Some (r, m', k')"
  shows "mutex_inv m' k' \<and> mx_flag m' = mx_flag m
    \<and> (mx_flag m = RT_IPC_FLAG_PRIO \<and> inherits m k \<longrightarrow> inherits m' k')"
proof -
  have k: "kinv k" using inv by (simp add: mutex_inv_def)
  obtain c where c: "current k = Some c" "int_nest k = 0"
    using r by (auto simp: rt_mutex_release_def in_thread_context_def split: if_splits)
  consider (other) "owner m \<noteq> Some c" | (nested) "owner m = Some c" "hold m \<noteq> 1"
    | (free) "owner m = Some c" "hold m = 1" "lists k (mx_queue m) = []"
    | (hand) w ts where "owner m = Some c" "hold m = 1" "lists k (mx_queue m) = w # ts"
    by (cases "lists k (mx_queue m)") auto
  then show ?thesis
  proof cases
    case other
    let ?k1 = "upd_thread c (\<lambda>x. x\<lparr>error := - 1\<rparr>) k"
    have "Some (r, m', k') = Some (- 1, m, ?k1)" using mutex_release_other [OF c other] r by (simp only:)
    then show ?thesis using mutex_inv_set_error [OF inv] by simp
  next
    case nested
    then have "m' = m\<lparr>hold := hold m - 1\<rparr>" "k' = k" using r mutex_release_nested [OF c] by simp_all
    then show ?thesis using inv nested by (auto simp: mutex_inv_def inherits_def)
  next
    case free
    from mutex_release_last [OF inv c free(1,2)] r free(3) show ?thesis
      using inv by (auto simp: mutex_inv_def inherits_def)
  next
    case hand
    from mutex_release_last [OF inv c hand(1,2)] r hand(3) obtain k2 where
      h: "kinv k2" "current k2 \<noteq> None" "\<forall>u. u \<noteq> c \<longrightarrow> prio k2 u = prio k u" "k' = k2"
      "m' = m\<lparr>original_priority := current_priority (threads k w), hold := 1, owner := Some w\<rparr>"
      "lists k2 (mx_queue m) = ts" "runnable k2 w" by auto
    have cw: "c \<notin> set (w # ts)" using inv hand(1,3) by (auto simp: mutex_inv_def)
    have "distinct (lists k (mx_queue m))" using kinv_lists [OF k] by (simp add: lists_ok_def)
    then have dw: "w \<notin> set ts" using hand(3) by simp
    have "tstat k w = RT_THREAD_SUSPEND"
      by (rule waiter_suspended [OF k, of "mx_queue m"]) (simp_all add: hand(3))
    then have pw: "prio k w < 32" using prio_range [OF k, of w] by simp
    moreover have "inherits m' k2" if "mx_flag m = 1" "inherits m k"
    proof -
      have "sorted (map (prio k) (w # ts))" using that hand(3) by (simp add: inherits_def)
      moreover have "map (prio k2) (w # ts) = map (prio k) (w # ts)" using h(3) cw by auto
      ultimately have "sorted (map (prio k2) (w # ts))" by (simp only:)
      then show ?thesis using h(5,6) by (auto simp: inherits_def)
    qed
    moreover have "tstat k2 w \<noteq> 0" using h(7) by (auto simp: runnable_def)
    ultimately show ?thesis
      using h(1,2,4,5,6) inv pw dw hand(1) by (simp add: mutex_inv_def)
  qed
qed

section \<open>The properties\<close>

text \<open>What each mutex operation does. A free mutex goes to the caller, who is recorded with its
  priority; the owner takes it again by counting \<open>hold\<close> up (an 8-bit counter, so the 256th nested take
  wraps it to 0); anyone else fails at once with \<open>-RT_ETIMEOUT\<close> for a zero timeout and otherwise is
  queued, the owner being raised to the caller's priority if that is better. Only the owner can
  release; the last release restores the owner's priority and either frees the mutex or hands it to
  the first waiter, which becomes runnable.\<close>

theorem mutex_operations:
  assumes "mutex_inv m k" and "current k = Some c" and "runnable k c" and "int_nest k = 0"
    and "time \<noteq> 0" and "time \<noteq> 0x7fffffff"
  defines "k1 \<equiv> upd_thread c (\<lambda>x. x\<lparr>error := 0\<rparr>) k"
  shows "(owner m = None \<longrightarrow> rt_mutex_take_enter m time k =
      Some (Returned 0, m\<lparr>mx_value := 0, original_priority := current_priority (threads k c), hold := 1,
        owner := Some c\<rparr>, k1))
    \<and> (owner m = Some c \<longrightarrow> rt_mutex_take_enter m time k = Some (Returned 0, m\<lparr>hold := hold m + 1\<rparr>, k1))
    \<and> (\<forall>ow. owner m = Some ow \<and> ow \<noteq> c \<longrightarrow>
        rt_mutex_take_enter m 0 k =
          Some (Returned (- RT_ETIMEOUT), m, upd_thread c (\<lambda>x. x\<lparr>error := - RT_ETIMEOUT\<rparr>) k1)
        \<and> (\<exists>k'. rt_mutex_take_enter m time k = Some (Blocked, m, k') \<and> kinv k'
          \<and> tstat k' c = RT_THREAD_SUSPEND \<and> prio k' ow = min (prio k ow) (prio k c)
          \<and> lists k' (mx_queue m) = queued (mx_flag m) (prio k) c (lists k (mx_queue m))))
    \<and> (owner m \<noteq> Some c \<longrightarrow> (\<exists>k'. rt_mutex_release m k = Some (- RT_ERROR, m, k')))
    \<and> (owner m = Some c \<and> hold m \<noteq> 1 \<longrightarrow> rt_mutex_release m k = Some (0, m\<lparr>hold := hold m - 1\<rparr>, k))
    \<and> (owner m = Some c \<and> hold m = 1 \<longrightarrow>
        (\<exists>m' k'. rt_mutex_release m k = Some (0, m', k') \<and> prio k' c = unat (original_priority m)
          \<and> (case lists k (mx_queue m) of
              [] \<Rightarrow> owner m' = None \<and> mx_value m' = 1
            | w # ts \<Rightarrow> owner m' = Some w \<and> lists k' (mx_queue m) = ts \<and> runnable k' w)))"
proof -
  note inv = assms(1)
  have k: "kinv k1" unfolding k1_def using inv by (auto simp: mutex_inv_def kinv_set_error)
  have st: "tstat k1 u = tstat k u" "runnable k1 u = runnable k u" "prio k1 u = prio k u" for u
    by (simp_all add: tstat_def runnable_def k1_def)
  have ctx: "in_thread_context k" using assms(2,4) by (simp add: in_thread_context_def)
  have l1: "lists k1 = lists k" by (simp add: k1_def)
  have c1: "current k1 = Some c" "runnable k1 c" using assms(2,3) st(2) by (simp_all add: k1_def)
  have blk: "\<exists>k'. mutex_acquire m c time k1 = Some (Blocked, m, k') \<and> kinv k' \<and> tstat k' c = 2
      \<and> prio k' ow = min (prio k ow) (prio k c)
      \<and> lists k' (mx_queue m) = queued (mx_flag m) (prio k) c (lists k (mx_queue m))"
    if "owner m = Some ow" "ow \<noteq> c" for ow
  proof -
    have m: "mx_value m = 0" "ow \<notin> set (lists k1 (mx_queue m))" "tstat k1 ow \<noteq> 0" "flag_ok (mx_flag m)"
      using inv that(1) st(1) l1 by (auto simp: mutex_inv_def)
    from mutex_take_blocks [OF k c1 that m(2,1,3,4) assms(5,6), unfolded st(3) l1] show ?thesis by blast
  qed
  have last: "\<exists>m' k'. rt_mutex_release m k = Some (0, m', k') \<and> prio k' c = unat (original_priority m)
          \<and> (case lists k (mx_queue m) of
              [] \<Rightarrow> owner m' = None \<and> mx_value m' = 1
            | w # ts \<Rightarrow> owner m' = Some w \<and> lists k' (mx_queue m) = ts \<and> runnable k' w)"
    if "owner m = Some c" "hold m = 1"
    using mutex_release_last [OF inv assms(2,4) that] by (cases "lists k (mx_queue m)") auto
  show ?thesis
    using inv ctx assms(2,5) blk last mutex_release_other [OF assms(2,4)]
      mutex_release_nested [OF assms(2,4)]
    by (auto simp: rt_mutex_take_enter_def mutex_acquire_def k1_def mutex_inv_def)
qed

definition demo_mutex :: rt_mutex where
  "demo_mutex = \<lparr>mx_addr = 5, mx_flag = 1, mx_value = 0, original_priority = 31, hold = 1, owner = Some 0\<rparr>"

definition demo_owner :: kernel where
  "demo_owner = demo_kernel\<lparr>threads := (\<lambda>t. if t = 1 then demo_thread 3 10
       else if t = 0 then demo_thread 1 31 else demo_thread 0 0),
     lists := (\<lambda>q. if q = Prio 31 then [0] else []), ready_group := push_bit 31 1, current := Some 1\<rparr>"

lemma demo_owner_kinv: "kinv demo_owner"
proof -
  have "thread_ok demo_owner t" for t
    by (simp add: thread_ok_def demo_owner_def demo_kernel_def demo_thread_def tstat_def prio_ok_def
        list_stat_def)
  moreover have "bit (push_bit 31 1 :: u32) p \<longleftrightarrow> p < 32 \<and> Prio p = Prio 31" for p
    unfolding bit_push_1 by auto
  then have "lists_ok demo_owner"
    by (simp add: lists_ok_def demo_owner_def demo_kernel_def del: push_bit_of_1)
  ultimately show ?thesis by (simp add: kinv_def kinv_x_def)
qed

lemma demo_mutex_inv: "mutex_inv demo_mutex demo_owner"
  using demo_owner_kinv
  by (simp add: mutex_inv_def demo_mutex_def demo_owner_def demo_kernel_def demo_thread_def flag_ok_def
      tstat_def)

theorem mutex_operations_witness:
  "\<exists>k'. rt_mutex_take_enter demo_mutex 7 demo_owner = Some (Blocked, demo_mutex, k') \<and> prio k' 0 = 10"
proof -
  have p: "current demo_owner = Some 1" "runnable demo_owner 1" "int_nest demo_owner = 0"
    "(7 :: 32 word) \<noteq> 0" "(7 :: 32 word) \<noteq> 0x7fffffff" "owner demo_mutex = Some 0"
    "prio demo_owner 0 = 31" "prio demo_owner 1 = 10"
    by (simp_all add: demo_owner_def demo_kernel_def demo_thread_def runnable_def tstat_def demo_mutex_def)
  from mutex_operations [OF demo_mutex_inv p(1-5)] p(6-8) show ?thesis by auto
qed



text \<open>With a FIFO queue the inheritance is lost at the hand-over. If the first waiter of a mutex
  has a worse priority than one queued behind it, the releasing owner hands the mutex to the first
  waiter without raising it: the new owner runs at its own priority while a better thread waits for
  it.\<close>

theorem mutex_fifo_handover_loses_inheritance:
  assumes "mutex_inv m k" and "current k = Some c" and "int_nest k = 0" and "owner m = Some c"
    and "hold m = 1" and "lists k (mx_queue m) = w # ts" and "u \<in> set ts" and "prio k u < prio k w"
  shows "\<exists>m' k'. rt_mutex_release m k = Some (0, m', k') \<and> owner m' = Some w
    \<and> u \<in> set (lists k' (mx_queue m')) \<and> prio k' u < prio k' w \<and> \<not> inherits m' k'"
proof -
  have "c \<notin> set (w # ts)" using assms(1,4,6) by (auto simp: mutex_inv_def)
  with mutex_release_last [OF assms(1-5)] assms(6,7,8) show ?thesis
    by (fastforce simp: inherits_def)
qed

definition demo_fifo :: kernel where
  "demo_fifo = demo_kernel\<lparr>threads := (\<lambda>t. if t = 1 then demo_thread 3 10 else if t = 2 then demo_thread 2 20
       else if t = 3 then demo_thread 2 5 else demo_thread 0 0),
     lists := (\<lambda>q. if q = WaitQ 5 then [2, 3] else []), ready_group := 0, current := Some 1\<rparr>"

theorem mutex_fifo_handover_loses_inheritance_witness:
  "\<exists>m' k'. rt_mutex_release \<lparr>mx_addr = 5, mx_flag = 0, mx_value = 0, original_priority = 10, hold = 1,
       owner = Some 1\<rparr> demo_fifo = Some (0, m', k') \<and> owner m' = Some 2 \<and> prio k' 3 < prio k' 2"
proof -
  let ?m = "\<lparr>mx_addr = 5, mx_flag = 0, mx_value = 0, original_priority = 10, hold = 1, owner = Some 1\<rparr>"
  have "thread_ok demo_fifo t" for t
    by (simp add: thread_ok_def demo_fifo_def demo_kernel_def demo_thread_def tstat_def prio_ok_def
        list_stat_def)
  moreover have "lists_ok demo_fifo" by (simp add: lists_ok_def demo_fifo_def demo_kernel_def)
  ultimately have "kinv demo_fifo" by (simp add: kinv_def kinv_x_def)
  then have p: "mutex_inv ?m demo_fifo" "current demo_fifo = Some 1" "int_nest demo_fifo = 0"
    "lists demo_fifo (mx_queue ?m) = 2 # [3]" "prio demo_fifo 3 < prio demo_fifo 2"
    by (simp_all add: mutex_inv_def demo_fifo_def demo_kernel_def demo_thread_def flag_ok_def tstat_def)
  from mutex_fifo_handover_loses_inheritance [OF p(1-3) _ _ p(4), of 3] p(5) show ?thesis by auto
qed

end
