(* ===== verification/Event.thy ===== *)
theory Event
  imports Ipc_Base
begin

text \<open>
  The event object of \<open>ipc.c\<close>: a 32-bit set of flags on which threads wait for all or any of a set
  of bits, optionally clearing what they received. \<open>rt_event_send\<close> scans the waiters in queue order and
  each one it wakes may clear bits before the next is looked at.
\<close>

unbundle bit_operations_syntax

section \<open>Operations\<close>

abbreviation (input) RT_EVENT_FLAG_AND :: u8 where "RT_EVENT_FLAG_AND \<equiv> 1"
abbreviation (input) RT_EVENT_FLAG_OR :: u8 where "RT_EVENT_FLAG_OR \<equiv> 2"
abbreviation (input) RT_EVENT_FLAG_CLEAR :: u8 where "RT_EVENT_FLAG_CLEAR \<equiv> 4"

record rt_event =
  ev_addr :: nat
  ev_flag :: u8
  ev_set :: u32

abbreviation ev_queue :: "rt_event \<Rightarrow> qhead" where
  "ev_queue ev \<equiv> WaitQ (ev_addr ev)"

definition rt_event_init :: "nat \<Rightarrow> u8 \<Rightarrow> kernel \<Rightarrow> int \<times> rt_event \<times> kernel" where
  "rt_event_init addr flag k =
     (RT_EOK, \<lparr>ev_addr = addr, ev_flag = flag, ev_set = 0\<rparr>, k\<lparr>lists := (lists k)(WaitQ addr := [])\<rparr>)"

definition rt_event_detach :: "rt_event \<Rightarrow> kernel \<Rightarrow> (int \<times> kernel) option" where
  "rt_event_detach ev k = map_option (Pair RT_EOK) (rt_ipc_list_resume_all (ev_queue ev) k)"

definition rt_event_delete :: "rt_event \<Rightarrow> kernel \<Rightarrow> (int \<times> kernel) option" where
  "rt_event_delete ev k =
     (if not_in_interrupt k
      then map_option (Pair RT_EOK) (rt_ipc_list_resume_all (ev_queue ev) k) else None)"

text \<open>The body of the scan for one waiter: whether it is satisfied, and its \<open>event_set\<close> after the
  \<open>OR\<close> branch has narrowed it.\<close>

definition event_status :: "u32 \<Rightarrow> rt_thread \<Rightarrow> bool \<times> rt_thread" where
  "event_status s th =
     (if event_info th AND RT_EVENT_FLAG_AND \<noteq> 0 then (event_set th AND s = event_set th, th)
      else if event_info th AND RT_EVENT_FLAG_OR \<noteq> 0 then
        (if event_set th AND s \<noteq> 0 then (True, th\<lparr>event_set := event_set th AND s\<rparr>) else (False, th))
      else (False, th))"

fun event_scan :: "tid list \<Rightarrow> u32 \<Rightarrow> bool \<Rightarrow> kernel \<Rightarrow> u32 \<times> bool \<times> kernel" where
  "event_scan [] s need k = (s, need, k)"
| "event_scan (t # ts) s need k =
     (let (status, th) = event_status s (threads k t); k1 = upd_thread t (\<lambda>_. th) k in
      if status then
        (let s1 = (if event_info th AND RT_EVENT_FLAG_CLEAR \<noteq> 0 then s AND NOT (event_set th) else s) in
         event_scan ts s1 True (snd (rt_thread_resume t k1)))
      else event_scan ts s need k1)"

definition rt_event_send :: "rt_event \<Rightarrow> u32 \<Rightarrow> kernel \<Rightarrow> (int \<times> rt_event \<times> kernel) option" where
  "rt_event_send ev bits k =
     (if bits = 0 then Some (- RT_ERROR, ev, k)
      else
        (let s = ev_set ev OR bits;
             (s', need_schedule, k1) = event_scan (lists k (ev_queue ev)) s False k;
             ev' = ev\<lparr>ev_set := s'\<rparr> in
         if need_schedule then map_option (\<lambda>k2. (RT_EOK, ev', k2)) (rt_schedule k1)
         else Some (RT_EOK, ev', k1)))"

text \<open>The third component is what is stored at \<open>*recved\<close>, if anything.\<close>

definition rt_event_recv_enter ::
  "rt_event \<Rightarrow> u32 \<Rightarrow> u8 \<Rightarrow> 32 word \<Rightarrow> kernel \<Rightarrow> (outcome \<times> u32 option \<times> rt_event \<times> kernel) option" where
  "rt_event_recv_enter ev bits opt timeout k =
     (if \<not> in_thread_context k then None
      else if bits = 0 then Some (Returned (- RT_ERROR), None, ev, k)
      else do {
        t \<leftarrow> current k;
        let k1 = upd_thread t (\<lambda>x. x\<lparr>error := RT_EOK\<rparr>) k;
        status \<leftarrow> (if opt AND RT_EVENT_FLAG_AND \<noteq> 0 then Some (ev_set ev AND bits = bits)
                  else if opt AND RT_EVENT_FLAG_OR \<noteq> 0 then Some (ev_set ev AND bits \<noteq> 0)
                  else None);
        if status then
          Some (Returned RT_EOK, Some (ev_set ev AND bits),
                if opt AND RT_EVENT_FLAG_CLEAR \<noteq> 0 then ev\<lparr>ev_set := ev_set ev AND NOT bits\<rparr> else ev, k1)
        else if timeout = 0 then
          Some (Returned (- RT_ETIMEOUT), None, ev, upd_thread t (\<lambda>x. x\<lparr>error := - RT_ETIMEOUT\<rparr>) k1)
        else do {
          let k2 = upd_thread t (\<lambda>x. x\<lparr>event_set := bits, event_info := opt\<rparr>) k1;
          k3 \<leftarrow> ipc_block (ev_queue ev) t (ev_flag ev) timeout k2;
          Some (Blocked, None, ev, k3)
        }
      })"

definition rt_event_recv_resume :: "tid \<Rightarrow> kernel \<Rightarrow> int \<times> u32 option" where
  "rt_event_recv_resume t k =
     (if error (threads k t) \<noteq> RT_EOK then (error (threads k t), None)
      else (error (threads k t), Some (event_set (threads k t))))"

definition rt_event_control :: "rt_event \<Rightarrow> ipc_cmd \<Rightarrow> kernel \<Rightarrow> (int \<times> rt_event \<times> kernel) option" where
  "rt_event_control ev cmd k =
     (case cmd of
        RT_IPC_CMD_RESET \<Rightarrow> do {
          k1 \<leftarrow> rt_ipc_list_resume_all (ev_queue ev) k;
          k2 \<leftarrow> rt_schedule k1;
          Some (RT_EOK, ev\<lparr>ev_set := 0\<rparr>, k2)
        }
      | RT_IPC_CMD_OTHER \<Rightarrow> Some (- RT_ERROR, ev, k))"

section \<open>What a waiter is owed\<close>

text \<open>The specification of a send, over the waiters' wishes only: who is satisfied, what each gets, and
  which bits are left.\<close>

definition satisfied :: "u8 \<Rightarrow> u32 \<Rightarrow> u32 \<Rightarrow> bool" where
  "satisfied info want s \<longleftrightarrow>
     (if info AND RT_EVENT_FLAG_AND \<noteq> 0 then want AND s = want
      else info AND RT_EVENT_FLAG_OR \<noteq> 0 \<and> want AND s \<noteq> 0)"

definition received :: "u8 \<Rightarrow> u32 \<Rightarrow> u32 \<Rightarrow> u32" where
  "received info want s = want AND s"

fun deliver :: "(tid \<Rightarrow> u8) \<Rightarrow> (tid \<Rightarrow> u32) \<Rightarrow> tid list \<Rightarrow> u32 \<Rightarrow> (tid \<times> u32) list \<times> u32" where
  "deliver info want [] s = ([], s)"
| "deliver info want (t # ts) s =
     (if satisfied (info t) (want t) s then
        (let got = received (info t) (want t) s;
             (rest, s') = deliver info want ts
               (if info t AND RT_EVENT_FLAG_CLEAR \<noteq> 0 then s AND NOT got else s) in
         ((t, got) # rest, s'))
      else deliver info want ts s)"

lemma deliver_sat:
  "satisfied (info t) (want t) s \<Longrightarrow> s1 = (if info t AND RT_EVENT_FLAG_CLEAR \<noteq> 0
      then s AND NOT (received (info t) (want t) s) else s) \<Longrightarrow>
   deliver info want (t # ts) s =
     ((t, received (info t) (want t) s) # fst (deliver info want ts s1), snd (deliver info want ts s1))"
  by (simp add: Let_def split_beta)

lemma deliver_unsat:
  "\<not> satisfied (info t) (want t) s \<Longrightarrow> deliver info want (t # ts) s = deliver info want ts s"
  by simp

declare deliver.simps(2) [simp del]

text \<open>Bits only disappear during the scan, so a waiter passed over stays unsatisfied.\<close>

lemma satisfied_mono:
  assumes s: "satisfied i w s" and sub: "s AND s' = s"
  shows "satisfied i w s'"
proof -
  have a: "w AND s' = w" if "w AND s = w"
  proof -
    have "w AND s' = (w AND s) AND s'" using that by simp
    also have "\<dots> = w AND (s AND s')" by (rule and.assoc)
    finally show ?thesis using sub that by simp
  qed
  have b: "w AND s' \<noteq> 0" if "w AND s \<noteq> 0"
  proof
    assume z: "w AND s' = 0"
    have "w AND s = w AND (s AND s')" using sub by simp
    also have "\<dots> = (w AND s') AND s" by (simp only: and.assoc and.commute [of s s'])
    finally show False using that z by simp
  qed
  show ?thesis using s a b by (auto simp: satisfied_def split: if_splits)
qed

lemma deliver_shrinks: "snd (deliver info want ts s) AND s = snd (deliver info want ts s)"
proof (induction ts arbitrary: s)
  case Nil
  then show ?case by simp
next
  case (Cons t ts)
  show ?case
  proof (cases "satisfied (info t) (want t) s")
    case True
    define s1 where "s1 = (if info t AND 4 \<noteq> 0 then s AND NOT (received (info t) (want t) s) else s)"
    have sub: "s1 AND s = s1"
    proof -
      have "(s AND y) AND s = s AND y" for y
        by (rule bit_eqI) (auto simp: bit_simps)
      then show ?thesis by (simp add: s1_def)
    qed
    have "snd (deliver info want ts s1) AND s1 = snd (deliver info want ts s1)" by (rule Cons.IH)
    then have "snd (deliver info want ts s1) AND s = (snd (deliver info want ts s1) AND s1) AND s"
      by simp
    also have "\<dots> = snd (deliver info want ts s1) AND (s1 AND s)" by (rule and.assoc)
    finally have "snd (deliver info want ts s1) AND s = snd (deliver info want ts s1)"
      using Cons.IH [of s1] sub by simp
    then show ?thesis using deliver_sat [of info t want s s1 ts, OF True] by (simp add: s1_def)
  next
    case False
    then show ?thesis using Cons.IH [of s] by (simp add: deliver_unsat)
  qed
qed

lemma deliver_complete:
  "t \<in> set ts \<Longrightarrow> t \<notin> fst ` set (fst (deliver info want ts s)) \<Longrightarrow>
   \<not> satisfied (info t) (want t) (snd (deliver info want ts s))"
proof (induction ts arbitrary: s)
  case Nil
  then show ?case by simp
next
  case (Cons u ts)
  show ?case
  proof (cases "satisfied (info u) (want u) s")
    case True
    define s1 where "s1 = (if info u AND 4 \<noteq> 0 then s AND NOT (received (info u) (want u) s) else s)"
    note d = deliver_sat [of info u want s s1 ts, OF True s1_def]
    have "t \<noteq> u" "t \<notin> fst ` set (fst (deliver info want ts s1))" using Cons.prems(2) by (auto simp: d)
    then show ?thesis using Cons.IH [of s1] Cons.prems(1) by (simp add: d)
  next
    case False
    note d = deliver_unsat [of info u want s ts, OF False]
    show ?thesis
    proof (cases "t \<in> set ts")
      case True
      with Cons False show ?thesis by (simp add: d)
    next
      case nt: False
      then have "t = u" using Cons.prems(1) by simp
      with False satisfied_mono [OF _ deliver_shrinks, of "info u" "want u" info want ts s]
      show ?thesis by (auto simp: d)
    qed
  qed
qed

lemma deliver_subset: "fst ` set (fst (deliver info want ts s)) \<subseteq> set ts"
proof (induction ts arbitrary: s)
  case (Cons u ts)
  then show ?case
    by (cases "satisfied (info u) (want u) s") (auto simp: deliver_sat [OF _ refl] deliver_unsat)
qed simp

lemma deliver_cong:
  "(\<And>t. t \<in> set ts \<Longrightarrow> info t = info' t \<and> want t = want' t) \<Longrightarrow>
   deliver info want ts s = deliver info' want' ts s"
  by (induction ts arbitrary: s) (auto simp: Let_def deliver.simps(2))

section \<open>The scan implements it\<close>

lemma event_status_eq:
  "event_status s th = (satisfied (event_info th) (event_set th) s,
     if satisfied (event_info th) (event_set th) s
     then th\<lparr>event_set := received (event_info th) (event_set th) s\<rparr> else th)"
  by (auto simp: event_status_def satisfied_def received_def)

lemma kinv_set_event: "kinv k \<Longrightarrow> kinv (upd_thread t (\<lambda>x. x\<lparr>event_set := f x\<rparr>) k)"
  by (rule kinv_upd_thread_same) simp_all

text \<open>The scan over a suffix \<open>ts\<close> of the waiters.\<close>

lemma event_scan_spec:
  fixes s :: u32
  assumes "kinv k" "current k \<noteq> None" "distinct ts" "\<And>t. t \<in> set ts \<Longrightarrow> t \<in> set (lists k (WaitQ a))"
  defines "d \<equiv> deliver (\<lambda>t. event_info (threads k t)) (\<lambda>t. event_set (threads k t)) ts s"
  shows "\<exists>k'. event_scan ts s need k = (snd d, need \<or> fst d \<noteq> [], k') \<and> kinv k' \<and> current k' = current k
    \<and> lists k' (WaitQ a) = filter (\<lambda>t. t \<notin> fst ` set (fst d)) (lists k (WaitQ a))
    \<and> (\<forall>r. wait_queue r \<longrightarrow> r \<noteq> WaitQ a \<longrightarrow> lists k' r = lists k r)
    \<and> (\<forall>u. runnable k' u = (u \<in> fst ` set (fst d) \<or> runnable k u))
    \<and> (\<forall>u. error (threads k' u) = error (threads k u))
    \<and> (\<forall>(t, got) \<in> set (fst d). event_set (threads k' t) = got)
    \<and> (\<forall>u. u \<notin> fst ` set (fst d) \<longrightarrow> threads k' u = threads k u)
    \<and> (fst d = [] \<longrightarrow> k' = k)"
  using assms(1-4) unfolding d_def
proof (induction ts arbitrary: s need k)
  case Nil
  then show ?case by auto
next
  case (Cons t ts)
  let ?info = "\<lambda>t. event_info (threads k t)" and ?want = "\<lambda>t. event_set (threads k t)"
  have tq: "t \<in> set (lists k (WaitQ a))" using Cons.prems(4) by simp
  show ?case
  proof (cases "satisfied (?info t) (?want t) s")
    case False
    have same: "upd_thread t (\<lambda>_. threads k t) k = k" by (simp add: upd_thread_def)
    have "event_scan (t # ts) s need k = event_scan ts s need k"
      using False by (simp add: event_status_eq same)
    with Cons.IH [of k s need] Cons.prems False show ?thesis by (simp add: deliver_unsat)
  next
    case True
    let ?got = "received (?info t) (?want t) s"
    let ?k1 = "upd_thread t (\<lambda>x. x\<lparr>event_set := ?got\<rparr>) k"
    let ?s1 = "if ?info t AND 4 \<noteq> 0 then s AND NOT ?got else s"
    have k1: "kinv ?k1" by (rule kinv_set_event [OF Cons.prems(1)])
    have st: "tstat ?k1 t = RT_THREAD_SUSPEND"
      using waiter_suspended [OF Cons.prems(1) _ tq] by (simp add: tstat_def)
    note r = rt_thread_resume_spec [OF k1 st]
    let ?k2 = "resumed t ?k1"
    have eq: "event_scan (t # ts) s need k = event_scan ts ?s1 True ?k2"
    proof -
      have u: "upd_thread t (\<lambda>_. (threads k t)\<lparr>event_set := ?got\<rparr>) k = ?k1" by (simp add: upd_thread_def)
      have f: "event_info (x\<lparr>event_set := y\<rparr>) = event_info x" "event_set (x\<lparr>event_set := y\<rparr>) = y"
        for x :: rt_thread and y by simp_all
      show ?thesis
        by (simp only: event_scan.simps event_status_eq Let_def prod.case True if_True f u
            conjunct1 [OF r] snd_conv)
    qed
    have tn: "t \<notin> set ts" using Cons.prems(3) by simp
    have th2: "threads ?k2 u = threads k u" if "u \<noteq> t" for u using that by simp
    have nc: "t \<notin> set (removeAll t xs)" for xs by simp
    have l2: "lists ?k2 q = removeAll t (lists k q)" if "wait_queue q" for q
      using that by (auto simp: resumed_lists)
    have p4: "u \<in> set (lists ?k2 (WaitQ a))" if "u \<in> set ts" for u
      using that Cons.prems(4) [of u] tn l2 by auto
    have c2: "current ?k2 = current k" by simp
    have dc: "deliver (\<lambda>t. event_info (threads ?k2 t)) (\<lambda>t. event_set (threads ?k2 t)) ts ?s1
        = deliver ?info ?want ts ?s1"
    proof (rule deliver_cong)
      fix u
      assume "u \<in> set ts"
      then have "u \<noteq> t" using tn by auto
      then show "event_info (threads ?k2 u) = ?info u \<and> event_set (threads ?k2 u) = ?want u"
        by (simp only: th2 [OF \<open>u \<noteq> t\<close>])
    qed
    let ?d = "deliver ?info ?want ts ?s1"
    have "kinv ?k2" using r by simp
    from Cons.IH [OF this _ _ p4, of ?s1 True, unfolded dc] Cons.prems(2,3) obtain k' where
      k': "event_scan ts ?s1 True ?k2 = (snd ?d, True, k')" "kinv k'" "current k' = current k"
      "lists k' (WaitQ a) = filter (\<lambda>t. t \<notin> fst ` set (fst ?d)) (lists ?k2 (WaitQ a))"
      "\<forall>r. wait_queue r \<longrightarrow> r \<noteq> WaitQ a \<longrightarrow> lists k' r = lists ?k2 r"
      "\<forall>u. runnable k' u = (u \<in> fst ` set (fst ?d) \<or> runnable ?k2 u)"
      "\<forall>u. error (threads k' u) = error (threads ?k2 u)"
      "\<forall>(t, got) \<in> set (fst ?d). event_set (threads k' t) = got"
      "\<forall>u. u \<notin> fst ` set (fst ?d) \<longrightarrow> threads k' u = threads ?k2 u" by auto
    have d: "deliver ?info ?want (t # ts) s = ((t, ?got) # fst ?d, snd ?d)"
      using True by (rule deliver_sat) simp
    have td: "t \<notin> fst ` set (fst ?d)" using deliver_subset [of ?info ?want ts ?s1] tn by blast
    have "lists k' (WaitQ a) = filter (\<lambda>u. u \<notin> fst ` set ((t, ?got) # fst ?d)) (lists k (WaitQ a))"
      unfolding k'(4) l2 [OF wait_queue_simps(1)] removeAll_filter_not_eq by (auto intro: filter_cong)
    moreover have "lists k' q = lists k q" if "wait_queue q" "q \<noteq> WaitQ a" for q
      using k'(5) that l2 [OF that(1)] only_queue [OF Cons.prems(1) tq that(2)] by simp
    moreover have "runnable k' u = (u \<in> fst ` set ((t, ?got) # fst ?d) \<or> runnable k u)" for u
    proof -
      have "runnable ?k2 u = (u = t \<or> runnable k u)"
        using r th2 [of u] by (cases "u = t") (auto simp: runnable_def tstat_def)
      then show ?thesis using k'(6) by auto
    qed
    moreover have "error (threads k' u) = error (threads k u)" for u
      using k'(7) th2 [of u] by (cases "u = t") (simp_all add: resumed_thread)
    moreover have "event_set (threads k' t) = ?got"
      using k'(9) td by (simp add: resumed_thread)
    moreover have "threads k' u = threads k u" if "u \<notin> fst ` set ((t, ?got) # fst ?d)" for u
      using k'(9) that th2 [of u] by auto
    ultimately show ?thesis
      unfolding d eq k'(1) using k'(2,3,8) by (intro exI [of _ k']) auto
  qed
qed

text \<open>The wishes of the waiters, as recorded in their threads.\<close>

definition ev_deliver :: "kernel \<Rightarrow> tid list \<Rightarrow> u32 \<Rightarrow> (tid \<times> u32) list \<times> u32" where
  "ev_deliver k = deliver (\<lambda>t. event_info (threads k t)) (\<lambda>t. event_set (threads k t))"

definition waiter_satisfied :: "kernel \<Rightarrow> u32 \<Rightarrow> tid \<Rightarrow> bool" where
  "waiter_satisfied k s t = satisfied (event_info (threads k t)) (event_set (threads k t)) s"

section \<open>The properties\<close>

lemma event_send_of_scan:
  assumes "event_scan (lists k (ev_queue ev)) (ev_set ev OR bits) False k = (st, need, k1)"
    and "kinv k1" "current k1 \<noteq> None" "bits \<noteq> 0"
  obtains k' where "rt_event_send ev bits k = Some (0, ev\<lparr>ev_set := st\<rparr>, k')" "kinv k'" "sched_rel k1 k'"
proof (cases need)
  case False
  then have "rt_event_send ev bits k = Some (0, ev\<lparr>ev_set := st\<rparr>, k1)"
    using assms(1,4) by (simp add: rt_event_send_def Let_def)
  with assms(2) show ?thesis using that by simp
next
  case True
  obtain c where c: "current k1 = Some c" using assms(3) by auto
  obtain k2 where "rt_schedule k1 = Some k2" "kinv k2" "sched_rel k1 k2"
    using rt_schedule_spec [OF assms(2) c] by blast
  with True assms(1,4) that show ?thesis by (simp add: rt_event_send_def Let_def)
qed

text \<open>C7. A send wakes exactly the waiters it satisfies. After \<open>rt_event_send\<close> with a non-zero set: the
  waiters, taken in queue order against the bits still set (those cleared by an earlier waiter are
  gone), are runnable and receive the bits they are owed exactly if their condition held; the others
  stay queued and untouched; the event keeps exactly the bits nobody cleared; and nobody whose
  condition holds is left waiting.\<close>

theorem event_send_wakes_satisfied:
  assumes "kinv k" and "current k \<noteq> None" and "bits \<noteq> 0"
  shows "let d = ev_deliver k (lists k (ev_queue ev)) (ev_set ev OR bits); woken = fst ` set (fst d) in
    \<exists>k'. rt_event_send ev bits k = Some (0, ev\<lparr>ev_set := snd d\<rparr>, k') \<and> kinv k'
      \<and> lists k' (ev_queue ev) = filter (\<lambda>t. t \<notin> woken) (lists k (ev_queue ev))
      \<and> (\<forall>(t, got) \<in> set (fst d). runnable k' t
          \<and> (error (threads k t) = 0 \<longrightarrow> rt_event_recv_resume t k' = (0, Some got)))
      \<and> (\<forall>u. u \<notin> woken \<longrightarrow> runnable k' u = runnable k u)
      \<and> (\<forall>t \<in> set (lists k' (ev_queue ev)). \<not> waiter_satisfied k' (snd d) t)"
proof -
  let ?q = "lists k (ev_queue ev)"
  define d where "d = ev_deliver k ?q (ev_set ev OR bits)"
  define woken where "woken = fst ` set (fst d)"
  have "distinct ?q" using kinv_lists [OF assms(1)] by (simp add: lists_ok_def)
  from event_scan_spec [OF assms(1,2) this, of "ev_addr ev" "ev_set ev OR bits" False,
      folded ev_deliver_def, folded d_def, folded woken_def] obtain k1 where
    s: "event_scan ?q (ev_set ev OR bits) False k = (snd d, fst d \<noteq> [], k1)" "kinv k1"
    "current k1 = current k" "lists k1 (ev_queue ev) = filter (\<lambda>t. t \<notin> woken) ?q"
    "\<forall>u. runnable k1 u = (u \<in> woken \<or> runnable k u)" "\<forall>u. error (threads k1 u) = error (threads k u)"
    "\<forall>(t, got) \<in> set (fst d). event_set (threads k1 t) = got"
    "\<forall>u. u \<notin> woken \<longrightarrow> threads k1 u = threads k u" by auto
  have "current k1 \<noteq> None" using s(3) assms(2) by simp
  from event_send_of_scan [OF s(1,2) this assms(3)]
  obtain k' where k': "rt_event_send ev bits k = Some (0, ev\<lparr>ev_set := snd d\<rparr>, k')" "kinv k'" "sched_rel k1 k'" .
  note rel = sched_relD [OF k'(3)]
  have left: "lists k' (ev_queue ev) = filter (\<lambda>t. t \<notin> woken) ?q" using rel(13) s(4) by simp
  have "runnable k' t \<and> (error (threads k t) = 0 \<longrightarrow> rt_event_recv_resume t k' = (0, Some got))"
    if "(t, got) \<in> set (fst d)" for t got
  proof -
    have "t \<in> woken" using that by (force simp: woken_def)
    moreover have "event_set (threads k1 t) = got" using s(7) that by auto
    ultimately show ?thesis using rel(6,8,10) s(5,6) by (simp add: rt_event_recv_resume_def)
  qed
  moreover have "\<not> waiter_satisfied k' (snd d) t" if "t \<in> set (lists k' (ev_queue ev))" for t
  proof -
    have t: "t \<in> set ?q" "t \<notin> woken" using that left by simp_all
    have "\<not> waiter_satisfied k (snd d) t"
      using deliver_complete [OF t(1) t(2) [unfolded woken_def d_def ev_deliver_def]]
      by (simp add: waiter_satisfied_def d_def ev_deliver_def)
    moreover have "threads k1 t = threads k t" using s(8) t(2) by blast
    then have "event_set (threads k' t) = event_set (threads k t)"
      "event_info (threads k' t) = event_info (threads k t)" using rel(8,9) [of t] by simp_all
    ultimately show ?thesis unfolding waiter_satisfied_def by (simp only: not_False_eq_True)
  qed
  moreover have "runnable k' u = runnable k u" if "u \<notin> woken" for u using rel(10) s(5) that by simp
  ultimately show ?thesis
    using k'(1,2) left unfolding d_def [symmetric] woken_def [symmetric] Let_def by blast
qed

definition demo_event :: kernel where
  "demo_event = demo_kernel\<lparr>threads := (\<lambda>t. if t = 0 then demo_thread 3 31
       else if t = 5 then (demo_thread 2 7)\<lparr>event_set := 3, event_info := 1\<rparr>
       else if t = 6 then (demo_thread 2 8)\<lparr>event_set := 6, event_info := 6\<rparr> else demo_thread 0 0),
     lists := (\<lambda>q. if q = WaitQ 9 then [5, 6] else []), ready_group := 0\<rparr>"

lemma demo_event_kinv: "kinv demo_event"
proof -
  have "thread_ok demo_event t" for t
    by (simp add: thread_ok_def demo_event_def demo_kernel_def demo_thread_def tstat_def prio_ok_def
        list_stat_def)
  moreover have "lists_ok demo_event" by (simp add: lists_ok_def demo_event_def demo_kernel_def)
  ultimately show ?thesis by (simp add: kinv_def kinv_x_def)
qed

theorem event_send_wakes_satisfied_witness:
  "\<exists>k'. rt_event_send \<lparr>ev_addr = 9, ev_flag = 0, ev_set = 0\<rparr> 2 demo_event
      = Some (0, \<lparr>ev_addr = 9, ev_flag = 0, ev_set = 0\<rparr>, k')
    \<and> lists k' (WaitQ 9) = [5] \<and> runnable k' 6"
proof -
  let ?ev = "\<lparr>ev_addr = 9, ev_flag = 0, ev_set = 0\<rparr>"
  have d: "ev_deliver demo_event (lists demo_event (ev_queue ?ev)) (ev_set ?ev OR 2) = ([(6, 2)], 0)"
    by (simp add: ev_deliver_def demo_event_def demo_kernel_def demo_thread_def satisfied_def
        received_def deliver.simps(2))
  have "current demo_event \<noteq> None" "(2 :: u32) \<noteq> 0" by (simp_all add: demo_event_def demo_kernel_def)
  from event_send_wakes_satisfied [OF demo_event_kinv this, of ?ev, unfolded d] show ?thesis
    by (auto simp: Let_def demo_event_def)
qed

text \<open>A receive takes what is there or waits for it. If the event satisfies the caller's condition,
  \<open>rt_event_recv\<close> returns the matching bits at once and, with \<open>RT_EVENT_FLAG_CLEAR\<close>, removes the
  requested bits; otherwise it fails with \<open>-RT_ETIMEOUT\<close> for a zero timeout or queues the caller with
  its wish recorded. In every case a state in which no satisfied thread waits stays one.\<close>

theorem event_recv_takes_or_waits:
  assumes "kinv k" and "current k = Some c" and "runnable k c" and "int_nest k = 0" and "bits \<noteq> 0"
    and "opt AND 1 \<noteq> 0 \<or> opt AND 2 \<noteq> 0" and "flag_ok (ev_flag ev)" and "time \<noteq> 0x7fffffff"
    and "\<forall>t \<in> set (lists k (ev_queue ev)). \<not> waiter_satisfied k (ev_set ev) t"
  shows "\<exists>r got ev' k'. rt_event_recv_enter ev bits opt time k = Some (r, got, ev', k')
    \<and> (if satisfied opt bits (ev_set ev)
       then r = Returned 0 \<and> got = Some (ev_set ev AND bits)
         \<and> ev_set ev' = (if opt AND RT_EVENT_FLAG_CLEAR \<noteq> 0 then ev_set ev AND NOT bits else ev_set ev)
         \<and> lists k' = lists k
       else if time = 0 then r = Returned (- RT_ETIMEOUT) \<and> ev' = ev \<and> lists k' = lists k
       else r = Blocked \<and> ev' = ev \<and> tstat k' c = RT_THREAD_SUSPEND
         \<and> lists k' (ev_queue ev) = queued (ev_flag ev) (prio k) c (lists k (ev_queue ev))
         \<and> event_set (threads k' c) = bits \<and> event_info (threads k' c) = opt)
    \<and> kinv k' \<and> (\<forall>t \<in> set (lists k' (ev_queue ev)). \<not> waiter_satisfied k' (ev_set ev') t)"
proof -
  let ?q = "ev_queue ev"
  let ?k1 = "upd_thread c (\<lambda>x. x\<lparr>error := 0\<rparr>) k"
  have k1: "kinv ?k1" by (rule kinv_set_error [OF assms(1)])
  have ctx: "in_thread_context k" using assms(2,4) by (simp add: in_thread_context_def)
  have st: "(if opt AND 1 \<noteq> 0 then Some (ev_set ev AND bits = bits)
        else if opt AND 2 \<noteq> 0 then Some (ev_set ev AND bits \<noteq> 0) else None)
      = Some (satisfied opt bits (ev_set ev))"
    using assms(6) by (auto simp: satisfied_def and.commute)
  have w1: "waiter_satisfied (upd_thread c (\<lambda>x. x\<lparr>error := e\<rparr>) k2) s t = waiter_satisfied k2 s t" for e k2 s t
    by (simp add: waiter_satisfied_def)
  have enter: "rt_event_recv_enter ev bits opt time k =
    (if satisfied opt bits (ev_set ev) then
          Some (Returned 0, Some (ev_set ev AND bits),
                if opt AND 4 \<noteq> 0 then ev\<lparr>ev_set := ev_set ev AND NOT bits\<rparr> else ev, ?k1)
     else if time = 0 then Some (Returned (- 2), None, ev, upd_thread c (\<lambda>x. x\<lparr>error := - 2\<rparr>) ?k1)
     else Option.bind (ipc_block ?q c (ev_flag ev) time
         (upd_thread c (\<lambda>x. x\<lparr>event_set := bits, event_info := opt\<rparr>) ?k1)) (\<lambda>k3. Some (Blocked, None, ev, k3)))"
    using ctx assms(2,5) unfolding rt_event_recv_enter_def st Let_def by simp
  consider (sat) "satisfied opt bits (ev_set ev)" | (fail) "\<not> satisfied opt bits (ev_set ev)" "time = 0"
    | (wait) "\<not> satisfied opt bits (ev_set ev)" "time \<noteq> 0" by blast
  then show ?thesis
  proof cases
    case sat
    have sub: "(ev_set ev AND NOT bits) AND ev_set ev = ev_set ev AND NOT bits"
      by (rule bit_eqI) (auto simp: bit_simps)
    have "\<not> waiter_satisfied k (ev_set ev AND NOT bits) t" if "t \<in> set (lists k ?q)" for t
      using assms(9) that satisfied_mono [OF _ sub] unfolding waiter_satisfied_def by blast
    then show ?thesis using sat k1 assms(9) by (simp add: enter w1)
  next
    case fail
    then show ?thesis unfolding enter using kinv_set_error [OF k1] assms(9) by (simp add: w1)
  next
    case wait
    let ?k2 = "upd_thread c (\<lambda>x. x\<lparr>event_set := bits, event_info := opt\<rparr>) ?k1"
    have k2: "kinv ?k2" by (rule kinv_upd_thread_same [OF k1]) simp_all
    have c2: "current ?k2 = Some c" "runnable ?k2 c" using assms(2,3) by (simp_all add: runnable_def tstat_def)
    have pr: "prio ?k2 u = prio k u" for u by simp
    from ipc_block_spec [OF k2 c2 _ assms(7,8), of ?q, unfolded pr] obtain k' where
      b: "ipc_block ?q c (ev_flag ev) time ?k2 = Some k'" "kinv k'" "tstat k' c = 2"
      "lists k' ?q = queued (ev_flag ev) (prio k) c (lists ?k2 ?q)"
      "\<forall>u. u \<noteq> c \<longrightarrow> runnable k' u = runnable ?k2 u \<and> (\<not> runnable ?k2 u \<longrightarrow> threads k' u = threads ?k2 u)"
      "event_set (threads k' c) = event_set (threads ?k2 c)"
      "event_info (threads k' c) = event_info (threads ?k2 c)" by auto
    have "\<not> waiter_satisfied k' (ev_set ev) t" if t: "t \<in> set (lists k' ?q)" for t
    proof (cases "t = c")
      case True
      then show ?thesis using wait(1) b(6,7) by (simp add: waiter_satisfied_def)
    next
      case False
      then have tq: "t \<in> set (lists k ?q)" using t b(4) by simp
      have "tstat k t = RT_THREAD_SUSPEND" by (rule waiter_suspended [OF assms(1) _ tq]) simp
      then have "\<not> runnable ?k2 t" using False by (simp add: runnable_def tstat_def)
      then have "threads k' t = threads k t" using b(5) False by simp
      then show ?thesis using assms(9) tq by (simp add: waiter_satisfied_def)
    qed
    then show ?thesis using wait b by (simp add: enter)
  qed
qed

theorem event_recv_takes_or_waits_witness:
  "\<exists>k'. rt_event_recv_enter \<lparr>ev_addr = 9, ev_flag = 0, ev_set = 12\<rparr> 4 6 100 demo_rr
      = Some (Returned 0, Some 4, \<lparr>ev_addr = 9, ev_flag = 0, ev_set = 8\<rparr>, k')"
proof -
  let ?ev = "\<lparr>ev_addr = 9, ev_flag = 0, ev_set = 12\<rparr>"
  have p: "current demo_rr = Some 1" "runnable demo_rr 1" "int_nest demo_rr = 0" "(4 :: u32) \<noteq> 0"
    "(6 :: u8) AND 1 \<noteq> 0 \<or> (6 :: u8) AND 2 \<noteq> 0" "flag_ok (ev_flag ?ev)" "(100 :: 32 word) \<noteq> 0x7fffffff"
    "\<forall>t \<in> set (lists demo_rr (ev_queue ?ev)). \<not> waiter_satisfied demo_rr (ev_set ?ev) t"
    "satisfied 6 4 (ev_set ?ev)"
    by (simp_all add: demo_rr_def demo_kernel_def demo_thread_def runnable_def tstat_def flag_ok_def
        satisfied_def)
  from event_recv_takes_or_waits [OF demo_rr_kinv p(1-8)] p(9) obtain got ev' k' where
    r: "rt_event_recv_enter ?ev 4 6 100 demo_rr = Some (Returned 0, got, ev', k')"
    "got = Some (12 AND 4)" "ev_set ev' = 12 AND NOT 4" by auto
  have "ev' = ?ev\<lparr>ev_set := ev_set ev'\<rparr>"
    using r(1) p(1,3,9)
    by (auto simp: rt_event_recv_enter_def in_thread_context_def Let_def)
  with r show ?thesis by simp
qed

end
