(* ===== verification/Mailbox.thy ===== *)
theory Mailbox
  imports Ipc_Base Ring_Slice Fifo_Interface
begin

text \<open>
  The mailbox of \<open>ipc.c\<close>: a cyclic array of 32-bit messages with a list of suspended receivers and a
  list of suspended senders. The blocking loops are split at the switch: \<open>_enter\<close> runs to the first
  return or suspension, \<open>_resume\<close> continues a suspended call with the message, the timeout and the tick at
  which it was suspended.
\<close>

unbundle bit_operations_syntax

section \<open>Operations\<close>

record rt_mailbox =
  mb_addr :: nat
  mb_flag :: u8
  mb_pool :: "u32 list"
  mb_size :: u16
  mb_entry :: u16
  in_offset :: u16
  out_offset :: u16

definition rt_mb_init :: "nat \<Rightarrow> u32 list \<Rightarrow> u32 \<Rightarrow> u8 \<Rightarrow> kernel \<Rightarrow> int \<times> rt_mailbox \<times> kernel" where
  "rt_mb_init addr pool sz flag k =
     (RT_EOK, \<lparr>mb_addr = addr, mb_flag = flag, mb_pool = pool, mb_size = ucast sz, mb_entry = 0,
               in_offset = 0, out_offset = 0\<rparr>,
      k\<lparr>lists := (lists k)(WaitQ addr := [], SendQ addr := [])\<rparr>)"

text \<open>Both lists are emptied; the message pool is freed by \<open>rt_mb_delete\<close>.\<close>

definition mb_resume_all :: "rt_mailbox \<Rightarrow> kernel \<Rightarrow> kernel option" where
  "mb_resume_all mb k = do {
     k1 \<leftarrow> rt_ipc_list_resume_all (WaitQ (mb_addr mb)) k;
     rt_ipc_list_resume_all (SendQ (mb_addr mb)) k1
   }"

definition rt_mb_detach :: "rt_mailbox \<Rightarrow> kernel \<Rightarrow> (int \<times> kernel) option" where
  "rt_mb_detach mb k = map_option (Pair RT_EOK) (mb_resume_all mb k)"

definition rt_mb_delete :: "rt_mailbox \<Rightarrow> kernel \<Rightarrow> (int \<times> kernel) option" where
  "rt_mb_delete mb k =
     (if not_in_interrupt k then map_option (Pair RT_EOK) (mb_resume_all mb k) else None)"

text \<open>The end of \<open>rt_mb_send_wait\<close>, with room in the mailbox.\<close>

definition mb_store :: "rt_mailbox \<Rightarrow> u32 \<Rightarrow> kernel \<Rightarrow> (outcome \<times> rt_mailbox \<times> kernel) option" where
  "mb_store mb v k = do {
     pool \<leftarrow> store_at (mb_pool mb) (unat (in_offset mb)) v;
     let off = in_offset mb + 1;
     let mb' = mb\<lparr>mb_pool := pool, in_offset := (if mb_size mb \<le> off then 0 else off),
                 mb_entry := mb_entry mb + 1\<rparr>;
     if lists k (WaitQ (mb_addr mb)) \<noteq> [] then do {
       (_, k1) \<leftarrow> rt_ipc_list_resume (WaitQ (mb_addr mb)) k;
       k2 \<leftarrow> rt_schedule k1;
       Some (Returned RT_EOK, mb', k2)
     }
     else Some (Returned RT_EOK, mb', k)
   }"

text \<open>One pass of the loop head: store, give up, or suspend the caller as a sender.\<close>

definition mb_send_pass :: "rt_mailbox \<Rightarrow> u32 \<Rightarrow> 32 word \<Rightarrow> kernel \<Rightarrow> (outcome \<times> rt_mailbox \<times> kernel) option" where
  "mb_send_pass mb v timeout k =
     (if mb_entry mb = mb_size mb then do {
        t \<leftarrow> current k;
        let k1 = upd_thread t (\<lambda>x. x\<lparr>error := RT_EOK\<rparr>) k;
        if timeout = 0 then Some (Returned (- RT_EFULL), mb, k1)
        else if in_thread_context k1 then do {
          k2 \<leftarrow> ipc_block (SendQ (mb_addr mb)) t (mb_flag mb) timeout k1;
          Some (Blocked, mb, k2)
        }
        else None
      }
      else mb_store mb v k)"

definition rt_mb_send_wait_enter ::
  "rt_mailbox \<Rightarrow> u32 \<Rightarrow> 32 word \<Rightarrow> kernel \<Rightarrow> (outcome \<times> rt_mailbox \<times> kernel) option" where
  "rt_mb_send_wait_enter mb v timeout k =
     (if mb_entry mb = mb_size mb \<and> timeout = 0 then Some (Returned (- RT_EFULL), mb, k)
      else mb_send_pass mb v timeout k)"

definition rt_mb_send_wait_resume ::
  "tid \<Rightarrow> rt_mailbox \<Rightarrow> u32 \<Rightarrow> 32 word \<Rightarrow> u32 \<Rightarrow> kernel \<Rightarrow> (outcome \<times> rt_mailbox \<times> kernel) option" where
  "rt_mb_send_wait_resume t mb v timeout tick0 k =
     (if error (threads k t) \<noteq> RT_EOK then Some (Returned (error (threads k t)), mb, k)
      else mb_send_pass mb v (timeout_left timeout tick0 k) k)"

definition rt_mb_send :: "rt_mailbox \<Rightarrow> u32 \<Rightarrow> kernel \<Rightarrow> (outcome \<times> rt_mailbox \<times> kernel) option" where
  "rt_mb_send mb v k = rt_mb_send_wait_enter mb v 0 k"

text \<open>Receiving: the second component is what is stored at \<open>*value\<close>.\<close>

definition mb_fetch :: "rt_mailbox \<Rightarrow> kernel \<Rightarrow> (outcome \<times> u32 option \<times> rt_mailbox \<times> kernel) option" where
  "mb_fetch mb k = do {
     v \<leftarrow> load_at (mb_pool mb) (unat (out_offset mb));
     let off = out_offset mb + 1;
     let mb' = mb\<lparr>out_offset := (if mb_size mb \<le> off then 0 else off), mb_entry := mb_entry mb - 1\<rparr>;
     if lists k (SendQ (mb_addr mb)) \<noteq> [] then do {
       (_, k1) \<leftarrow> rt_ipc_list_resume (SendQ (mb_addr mb)) k;
       k2 \<leftarrow> rt_schedule k1;
       Some (Returned RT_EOK, Some v, mb', k2)
     }
     else Some (Returned RT_EOK, Some v, mb', k)
   }"

definition mb_recv_pass ::
  "rt_mailbox \<Rightarrow> 32 word \<Rightarrow> kernel \<Rightarrow> (outcome \<times> u32 option \<times> rt_mailbox \<times> kernel) option" where
  "mb_recv_pass mb timeout k =
     (if mb_entry mb = 0 then do {
        t \<leftarrow> current k;
        let k1 = upd_thread t (\<lambda>x. x\<lparr>error := RT_EOK\<rparr>) k;
        if timeout = 0
        then Some (Returned (- RT_ETIMEOUT), None, mb, upd_thread t (\<lambda>x. x\<lparr>error := - RT_ETIMEOUT\<rparr>) k1)
        else if in_thread_context k1 then do {
          k2 \<leftarrow> ipc_block (WaitQ (mb_addr mb)) t (mb_flag mb) timeout k1;
          Some (Blocked, None, mb, k2)
        }
        else None
      }
      else mb_fetch mb k)"

definition rt_mb_recv_enter ::
  "rt_mailbox \<Rightarrow> 32 word \<Rightarrow> kernel \<Rightarrow> (outcome \<times> u32 option \<times> rt_mailbox \<times> kernel) option" where
  "rt_mb_recv_enter mb timeout k =
     (if mb_entry mb = 0 \<and> timeout = 0 then Some (Returned (- RT_ETIMEOUT), None, mb, k)
      else mb_recv_pass mb timeout k)"

definition rt_mb_recv_resume ::
  "tid \<Rightarrow> rt_mailbox \<Rightarrow> 32 word \<Rightarrow> u32 \<Rightarrow> kernel \<Rightarrow> (outcome \<times> u32 option \<times> rt_mailbox \<times> kernel) option" where
  "rt_mb_recv_resume t mb timeout tick0 k =
     (if error (threads k t) \<noteq> RT_EOK then Some (Returned (error (threads k t)), None, mb, k)
      else mb_recv_pass mb (timeout_left timeout tick0 k) k)"

definition rt_mb_control :: "rt_mailbox \<Rightarrow> ipc_cmd \<Rightarrow> kernel \<Rightarrow> (int \<times> rt_mailbox \<times> kernel) option" where
  "rt_mb_control mb cmd k =
     (case cmd of
        RT_IPC_CMD_RESET \<Rightarrow> do {
          k1 \<leftarrow> mb_resume_all mb k;
          k2 \<leftarrow> rt_schedule k1;
          Some (RT_EOK, mb\<lparr>mb_entry := 0, in_offset := 0, out_offset := 0\<rparr>, k2)
        }
      | RT_IPC_CMD_OTHER \<Rightarrow> Some (- RT_ERROR, mb, k))"

section \<open>Invariant and contents\<close>

definition mb_ok :: "rt_mailbox \<Rightarrow> bool" where
  "mb_ok mb \<longleftrightarrow> 0 < unat (mb_size mb) \<and> length (mb_pool mb) = unat (mb_size mb)
     \<and> unat (mb_entry mb) \<le> unat (mb_size mb) \<and> unat (out_offset mb) < unat (mb_size mb)
     \<and> unat (in_offset mb) = (unat (out_offset mb) + unat (mb_entry mb)) mod unat (mb_size mb)"

definition mb_contents :: "rt_mailbox \<Rightarrow> u32 list" where
  "mb_contents mb = ring_slice (mb_pool mb) (unat (out_offset mb)) (unat (mb_entry mb))"

lemma length_mb_contents [simp]: "length (mb_contents mb) = unat (mb_entry mb)"
  by (simp add: mb_contents_def)

text \<open>Advancing an offset is adding one modulo the size.\<close>

lemma offset_advance:
  fixes off n :: u16
  assumes "unat off < unat n"
  shows "unat (if n \<le> off + 1 then 0 else off + 1) = Suc (unat off) mod unat n"
    "unat (off + 1) = Suc (unat off)"
proof -
  show s: "unat (off + 1) = Suc (unat off)"
    using assms unat_u16 [of n] by (simp add: unat_word_ariths)
  show "unat (if n \<le> off + 1 then 0 else off + 1) = Suc (unat off) mod unat n"
    using assms s by (auto simp: word_le_nat_alt mod_Suc)
qed

lemma mb_store_spec:
  assumes m: "mb_ok mb" and k: "kinv k" "current k \<noteq> None" and room: "mb_entry mb \<noteq> mb_size mb"
  shows "\<exists>mb' k'. mb_store mb v k = Some (Returned 0, mb', k') \<and> mb_ok mb'
    \<and> mb_contents mb' = mb_contents mb @ [v] \<and> mb_size mb' = mb_size mb
    \<and> mb_addr mb' = mb_addr mb \<and> mb_flag mb' = mb_flag mb \<and> wake_first (WaitQ (mb_addr mb)) k k'"
proof -
  let ?n = "unat (mb_size mb)" and ?e = "unat (mb_entry mb)" and ?o = "unat (out_offset mb)"
  have lt: "?e < ?n" using m room by (auto simp: mb_ok_def word_eq_unat)
  have i: "unat (in_offset mb) < ?n" using m by (auto simp: mb_ok_def)
  define mb' where "mb' = mb\<lparr>mb_pool := (mb_pool mb)[unat (in_offset mb) := v],
    in_offset := (if mb_size mb \<le> in_offset mb + 1 then 0 else in_offset mb + 1),
    mb_entry := mb_entry mb + 1\<rparr>"
  have e': "unat (mb_entry mb + 1) = Suc ?e" by (rule offset_advance(2) [OF lt])
  have "unat (in_offset mb') = Suc (unat (in_offset mb)) mod ?n"
    by (simp add: mb'_def offset_advance(1) [OF i])
  also have "\<dots> = (?o + Suc ?e) mod ?n" using m by (simp add: mb_ok_def mod_Suc_eq)
  finally have ok: "mb_ok mb'" using m lt e' by (simp add: mb_ok_def mb'_def)
  have c: "mb_contents mb' = mb_contents mb @ [v]"
    using m lt e' ring_slice_snoc [of ?e "mb_pool mb" "unat (in_offset mb)" ?o v]
    by (simp add: mb_contents_def mb'_def mb_ok_def)
  have f: "mb_size mb' = mb_size mb" "mb_addr mb' = mb_addr mb" "mb_flag mb' = mb_flag mb"
    by (simp_all add: mb'_def)
  have st: "store_at (mb_pool mb) (unat (in_offset mb)) v = Some ((mb_pool mb)[unat (in_offset mb) := v])"
    using m i by (simp add: store_at_def mb_ok_def)
  show ?thesis
  proof (cases "lists k (WaitQ (mb_addr mb)) = []")
    case True
    then have "mb_store mb v k = Some (Returned 0, mb', k)"
      by (simp add: mb_store_def st mb'_def Let_def)
    with ok c f wake_first_none [OF k True] show ?thesis by blast
  next
    case False
    with wake_first_some [OF k _ False] obtain k1 k' where
      "rt_ipc_list_resume (WaitQ (mb_addr mb)) k = Some (0, k1)" "rt_schedule k1 = Some k'"
      "wake_first (WaitQ (mb_addr mb)) k k'" by auto
    with False have "mb_store mb v k = Some (Returned 0, mb', k')"
      by (simp add: mb_store_def st mb'_def Let_def)
    with ok c f \<open>wake_first (WaitQ (mb_addr mb)) k k'\<close> show ?thesis by blast
  qed
qed

lemma mb_fetch_spec:
  assumes m: "mb_ok mb" and k: "kinv k" "current k \<noteq> None" and some: "mb_entry mb \<noteq> 0"
  shows "\<exists>v mb' k'. mb_fetch mb k = Some (Returned 0, Some v, mb', k') \<and> mb_ok mb'
    \<and> mb_contents mb = v # mb_contents mb' \<and> mb_size mb' = mb_size mb
    \<and> mb_addr mb' = mb_addr mb \<and> mb_flag mb' = mb_flag mb \<and> wake_first (SendQ (mb_addr mb)) k k'"
proof -
  let ?n = "unat (mb_size mb)" and ?o = "unat (out_offset mb)" and ?v = "mb_pool mb ! unat (out_offset mb)"
  have o: "?o < ?n" using m by (simp add: mb_ok_def)
  define e where "e = unat (mb_entry mb) - 1"
  have pos: "0 < unat (mb_entry mb)" using some by (simp add: unat_gt_0)
  then have e: "unat (mb_entry mb) = Suc e" by (simp add: e_def)
  have e': "unat (mb_entry mb - 1) = e" using some by (simp add: e_def unat_minus_one)
  define mb' where "mb' = mb\<lparr>out_offset := (if mb_size mb \<le> out_offset mb + 1 then 0 else out_offset mb + 1),
    mb_entry := mb_entry mb - 1\<rparr>"
  have o': "unat (out_offset mb') = Suc ?o mod ?n" by (simp add: mb'_def offset_advance(1) [OF o])
  have ok: "mb_ok mb'"
    using m e e' o' unfolding mb_ok_def
    by (simp add: mb'_def) (simp add: mod_add_left_eq)
  have c: "mb_contents mb = ?v # mb_contents mb'"
    using m e e' o o' ring_slice_Cons [of "mb_pool mb" ?o e] ring_slice_mod [of "mb_pool mb" "Suc ?o" e]
    by (simp add: mb_contents_def mb'_def mb_ok_def)
  have f: "mb_size mb' = mb_size mb" "mb_addr mb' = mb_addr mb" "mb_flag mb' = mb_flag mb"
    by (simp_all add: mb'_def)
  have ld: "load_at (mb_pool mb) ?o = Some ?v" using m by (simp add: load_at_def mb_ok_def)
  show ?thesis
  proof (cases "lists k (SendQ (mb_addr mb)) = []")
    case True
    then have "mb_fetch mb k = Some (Returned 0, Some ?v, mb', k)"
      by (simp add: mb_fetch_def ld mb'_def Let_def)
    with ok c f wake_first_none [OF k True] show ?thesis by blast
  next
    case False
    with wake_first_some [OF k _ False] obtain k1 k' where
      "rt_ipc_list_resume (SendQ (mb_addr mb)) k = Some (0, k1)" "rt_schedule k1 = Some k'"
      "wake_first (SendQ (mb_addr mb)) k k'" by auto
    with False have "mb_fetch mb k = Some (Returned 0, Some ?v, mb', k')"
      by (simp add: mb_fetch_def ld mb'_def Let_def)
    with ok c f \<open>wake_first (SendQ (mb_addr mb)) k k'\<close> show ?thesis by blast
  qed
qed

section \<open>The mailbox as a bounded queue\<close>

text \<open>Sending and receiving without waiting, on the mailbox and the kernel together (a message may wake a
  receiver, a freed place a sender).\<close>

definition mb_enq :: "rt_mailbox \<times> kernel \<Rightarrow> u32 \<Rightarrow> (rt_mailbox \<times> kernel) option" where
  "mb_enq = (\<lambda>(mb, k) v. case rt_mb_send mb v k of
     Some (Returned r, mb', k') \<Rightarrow> (if r = RT_EOK then Some (mb', k') else None) | _ \<Rightarrow> None)"

definition mb_deq :: "rt_mailbox \<times> kernel \<Rightarrow> (u32 \<times> rt_mailbox \<times> kernel) option" where
  "mb_deq = (\<lambda>(mb, k). case rt_mb_recv_enter mb 0 k of
     Some (Returned r, Some v, mb', k') \<Rightarrow> (if r = RT_EOK then Some (v, mb', k') else None) | _ \<Rightarrow> None)"

definition mb_inv :: "rt_mailbox \<times> kernel \<Rightarrow> bool" where
  "mb_inv = (\<lambda>(mb, k). mb_ok mb \<and> kinv k \<and> current k \<noteq> None)"

lemma mb_send_room:
  "mb_ok mb \<Longrightarrow> kinv k \<Longrightarrow> current k \<noteq> None \<Longrightarrow> mb_entry mb \<noteq> mb_size mb \<Longrightarrow>
   rt_mb_send_wait_enter mb v timeout k = mb_store mb v k"
  by (simp add: rt_mb_send_wait_enter_def mb_send_pass_def)

lemma mb_recv_some:
  "mb_entry mb \<noteq> 0 \<Longrightarrow> rt_mb_recv_enter mb timeout k = mb_fetch mb k"
  by (simp add: rt_mb_recv_enter_def mb_recv_pass_def)

interpretation mbq: bounded_fifo mb_inv "\<lambda>(mb, k). mb_contents mb" "\<lambda>(mb, k). unat (mb_size mb)"
    mb_enq mb_deq "\<lambda>_. True"
proof
  fix s :: "rt_mailbox \<times> kernel" and x xs
  obtain mb k where s: "s = (mb, k)" by fastforce
  assume "mb_inv s"
  then have i: "mb_ok mb" "kinv k" "current k \<noteq> None" by (simp_all add: mb_inv_def s)
  have lim: "unat (mb_entry mb) < unat (mb_size mb) \<longleftrightarrow> mb_entry mb \<noteq> mb_size mb"
    using i(1) by (auto simp: mb_ok_def word_eq_unat)
  have nil: "mb_contents mb = [] \<longleftrightarrow> mb_entry mb = 0"
    by (simp add: mb_contents_def ring_slice_def unat_eq_0)
  show "\<exists>s'. mb_enq s x = Some s' \<and> mb_inv s'
      \<and> (case s' of (mb, k) \<Rightarrow> mb_contents mb) = (case s of (mb, k) \<Rightarrow> mb_contents mb) @ [x]
      \<and> (case s' of (mb, k) \<Rightarrow> unat (mb_size mb)) = (case s of (mb, k) \<Rightarrow> unat (mb_size mb))"
    if "length (case s of (mb, k) \<Rightarrow> mb_contents mb) < (case s of (mb, k) \<Rightarrow> unat (mb_size mb))"
  proof -
    from that have room: "mb_entry mb \<noteq> mb_size mb" using lim by (simp add: s)
    from mb_store_spec [OF i room, of x] show ?thesis
      by (auto simp: s mb_enq_def mb_inv_def rt_mb_send_def mb_send_room [OF i room] wake_first_def)
  qed
  show "mb_enq s x = None"
    if "\<not> length (case s of (mb, k) \<Rightarrow> mb_contents mb) < (case s of (mb, k) \<Rightarrow> unat (mb_size mb))"
    using that lim by (simp add: s mb_enq_def rt_mb_send_def rt_mb_send_wait_enter_def)
  show "\<exists>s'. mb_deq s = Some (x, s') \<and> mb_inv s' \<and> (case s' of (mb, k) \<Rightarrow> mb_contents mb) = xs
      \<and> (case s' of (mb, k) \<Rightarrow> unat (mb_size mb)) = (case s of (mb, k) \<Rightarrow> unat (mb_size mb))"
    if "(case s of (mb, k) \<Rightarrow> mb_contents mb) = x # xs"
  proof -
    from that have some: "mb_entry mb \<noteq> 0" using nil by (auto simp: s)
    from mb_fetch_spec [OF i some] that show ?thesis
      by (auto simp: s mb_deq_def mb_inv_def mb_recv_some [OF some] wake_first_def)
  qed
  show "mb_deq s = None" if "(case s of (mb, k) \<Rightarrow> mb_contents mb) = []"
    using that nil by (simp add: s mb_deq_def rt_mb_recv_enter_def)
qed

section \<open>The properties\<close>

text \<open>C8. A mailbox delivers every accepted message once and in order. Any sequence of non-waiting sends
  and receives, with whatever threads are suspended on either side, keeps mailbox and kernel
  consistent and answers like a list bounded by the mailbox's size: \<open>-RT_EFULL\<close> only when it is full,
  \<open>-RT_ETIMEOUT\<close> only when it is empty, the oldest message first, nothing lost or invented.\<close>

theorem mailbox_run_is_bounded_fifo:
  assumes "mb_ok mb" and "kinv k" and "current k \<noteq> None"
    and "fifo_run mb_enq mb_deq (mb, k) es = (rs, (mb', k'))"
  shows "mb_ok mb' \<and> kinv k' \<and> mb_size mb' = mb_size mb
    \<and> spec_run (unat (mb_size mb)) (mb_contents mb) es = (rs, mb_contents mb')
    \<and> mb_contents mb @ accepted es rs = delivered rs @ mb_contents mb'"
proof -
  have i: "mb_inv (mb, k)" using assms(1-3) by (simp add: mb_inv_def)
  have f: "list_all (op_fits (\<lambda>_. True)) es" by (simp add: list_all_def)
  from mbq.run_refines [OF i f assms(4)] mbq.run_conserves [OF i f assms(4)]
  show ?thesis by (auto simp: mb_inv_def word_eq_unat)
qed

definition demo_mb :: rt_mailbox where
  "demo_mb = \<lparr>mb_addr = 4, mb_flag = 0, mb_pool = [7, 8, 9], mb_size = 3, mb_entry = 2, in_offset = 1,
     out_offset = 2\<rparr>"

theorem mailbox_run_is_bounded_fifo_witness:
  "fst (fifo_run mb_enq mb_deq (demo_mb, demo_rr) [Enq 1, Enq 2, Deq, Deq])
     = [Accepted, Full, Got 9, Got 7]"
proof -
  obtain rs mb k where r: "fifo_run mb_enq mb_deq (demo_mb, demo_rr) [Enq 1, Enq 2, Deq, Deq] = (rs, (mb, k))"
    by (metis prod.exhaust)
  have p: "mb_ok demo_mb" "current demo_rr \<noteq> None"
    by (simp_all add: mb_ok_def demo_mb_def demo_rr_def)
  have c: "mb_contents demo_mb = [9, 7]" "unat (mb_size demo_mb) = 3"
    by (simp_all add: mb_contents_def ring_slice_def demo_mb_def upt_rec)
  from mailbox_run_is_bounded_fifo [OF p(1) demo_rr_kinv p(2) r] c r show ?thesis by simp
qed

text \<open>Waiting on a mailbox. A send to a full mailbox with a timeout suspends the caller with the
  senders, a receive from an empty one with the receivers (armed if the timeout is positive), and
  neither touches the messages; a thread woken by its timer gets \<open>-RT_ETIMEOUT\<close>; a receiver woken by a
  message that is still there gets the oldest one, and wakes the first suspended sender.\<close>

theorem mailbox_waits:
  assumes "mb_ok mb" and "kinv k" and "current k = Some c" and "runnable k c" and "int_nest k = 0"
    and "flag_ok (mb_flag mb)" and "time \<noteq> 0" and "time \<noteq> 0x7fffffff"
  shows "(mb_entry mb = mb_size mb \<longrightarrow>
      (\<exists>k'. rt_mb_send_wait_enter mb v time k = Some (Blocked, mb, k') \<and> kinv k'
        \<and> tstat k' c = RT_THREAD_SUSPEND
        \<and> lists k' (SendQ (mb_addr mb)) = queued (mb_flag mb) (prio k) c (lists k (SendQ (mb_addr mb)))
        \<and> lists k' (WaitQ (mb_addr mb)) = lists k (WaitQ (mb_addr mb))))
    \<and> (mb_entry mb = 0 \<longrightarrow>
      (\<exists>k'. rt_mb_recv_enter mb time k = Some (Blocked, None, mb, k') \<and> kinv k'
        \<and> tstat k' c = RT_THREAD_SUSPEND
        \<and> lists k' (WaitQ (mb_addr mb)) = queued (mb_flag mb) (prio k) c (lists k (WaitQ (mb_addr mb)))
        \<and> lists k' (SendQ (mb_addr mb)) = lists k (SendQ (mb_addr mb))))
    \<and> (error (threads k c) = - RT_ETIMEOUT \<longrightarrow>
        rt_mb_recv_resume c mb time tick0 k = Some (Returned (- RT_ETIMEOUT), None, mb, k)
        \<and> rt_mb_send_wait_resume c mb v time tick0 k = Some (Returned (- RT_ETIMEOUT), mb, k))
    \<and> (error (threads k c) = 0 \<and> mb_entry mb \<noteq> 0 \<longrightarrow>
      (\<exists>mb' k'. rt_mb_recv_resume c mb time tick0 k = Some (Returned 0, Some (hd (mb_contents mb)), mb', k')
        \<and> mb_contents mb' = tl (mb_contents mb) \<and> wake_first (SendQ (mb_addr mb)) k k'))"
proof -
  let ?k1 = "upd_thread c (\<lambda>x. x\<lparr>error := 0\<rparr>) k"
  have k1: "kinv ?k1" by (rule kinv_set_error [OF assms(2)])
  have c1: "current ?k1 = Some c" "runnable ?k1 c" "in_thread_context ?k1"
    using assms(3-5) by (simp_all add: runnable_def tstat_def in_thread_context_def)
  have pr: "prio ?k1 u = prio k u" for u by simp
  have cz: "mb_size mb \<noteq> 0" using assms(1) by (auto simp: mb_ok_def)
  have blk: "\<exists>k'. ipc_block q c (mb_flag mb) time ?k1 = Some k' \<and> kinv k' \<and> tstat k' c = 2
      \<and> lists k' q = queued (mb_flag mb) (prio k) c (lists k q)
      \<and> (\<forall>r. wait_queue r \<longrightarrow> r \<noteq> q \<longrightarrow> lists k' r = lists k r)" if "wait_queue q" for q
    using ipc_block_spec [OF k1 c1(1,2) that assms(6,8), unfolded pr] by auto
  have "\<exists>k'. rt_mb_send_wait_enter mb v time k = Some (Blocked, mb, k') \<and> kinv k'
        \<and> tstat k' c = RT_THREAD_SUSPEND
        \<and> lists k' (SendQ (mb_addr mb)) = queued (mb_flag mb) (prio k) c (lists k (SendQ (mb_addr mb)))
        \<and> lists k' (WaitQ (mb_addr mb)) = lists k (WaitQ (mb_addr mb))" if "mb_entry mb = mb_size mb"
    using blk [of "SendQ (mb_addr mb)"] that assms(3,7) c1(3)
    by (auto simp: rt_mb_send_wait_enter_def mb_send_pass_def Let_def)
  moreover have "\<exists>k'. rt_mb_recv_enter mb time k = Some (Blocked, None, mb, k') \<and> kinv k'
        \<and> tstat k' c = RT_THREAD_SUSPEND
        \<and> lists k' (WaitQ (mb_addr mb)) = queued (mb_flag mb) (prio k) c (lists k (WaitQ (mb_addr mb)))
        \<and> lists k' (SendQ (mb_addr mb)) = lists k (SendQ (mb_addr mb))" if "mb_entry mb = 0"
    using blk [of "WaitQ (mb_addr mb)"] that assms(3,7) c1(3)
    by (auto simp: rt_mb_recv_enter_def mb_recv_pass_def Let_def)
  moreover have "\<exists>mb' k'. rt_mb_recv_resume c mb time tick0 k
        = Some (Returned 0, Some (hd (mb_contents mb)), mb', k')
        \<and> mb_contents mb' = tl (mb_contents mb) \<and> wake_first (SendQ (mb_addr mb)) k k'"
    if "error (threads k c) = 0" "mb_entry mb \<noteq> 0"
  proof -
    have "current k \<noteq> None" using assms(3) by simp
    from mb_fetch_spec [OF assms(1,2) this that(2)] that show ?thesis
      by (auto simp: rt_mb_recv_resume_def mb_recv_pass_def)
  qed
  ultimately show ?thesis
    by (auto simp: rt_mb_recv_resume_def rt_mb_send_wait_resume_def)
qed

theorem mailbox_waits_witness:
  "\<exists>k'. rt_mb_send_wait_enter (demo_mb\<lparr>mb_entry := 3, in_offset := 2\<rparr>) 5 20 demo_rr
      = Some (Blocked, demo_mb\<lparr>mb_entry := 3, in_offset := 2\<rparr>, k') \<and> lists k' (SendQ 4) = [1]"
proof -
  let ?mb = "demo_mb\<lparr>mb_entry := 3, in_offset := 2\<rparr>"
  have p: "mb_ok ?mb" "current demo_rr = Some 1" "runnable demo_rr 1" "int_nest demo_rr = 0"
    "flag_ok (mb_flag ?mb)" "(20 :: 32 word) \<noteq> 0" "(20 :: 32 word) \<noteq> 0x7fffffff"
    "mb_entry ?mb = mb_size ?mb" "lists demo_rr (SendQ (mb_addr ?mb)) = []" "mb_addr ?mb = 4"
    "mb_flag ?mb = 0"
    by (simp_all add: mb_ok_def demo_mb_def demo_rr_def demo_kernel_def demo_thread_def runnable_def
        tstat_def flag_ok_def)
  from mailbox_waits [OF p(1) demo_rr_kinv p(2-7), of 5 0] p(8-11) show ?thesis
    by (auto simp: queued_def)
qed

end
