(* ===== verification/MessageQueue.thy ===== *)
theory MessageQueue
  imports Linked Fifo_Interface Ipc_Base
begin

text \<open>
  The message queue of \<open>ipc.c\<close>: fixed-size message blocks in a pool, threaded into a list of pending
  messages (head and tail pointer) and a free list. Block \<open>i\<close> of the pool is named by its index;
  its \<open>next\<close> field and its message bytes are \<open>mq_next i\<close> and \<open>mq_data i\<close>. A send takes a block off the
  free list, fills it with interrupts enabled, and links it; a receive unlinks a block, copies the
  message out with interrupts enabled, and frees the block. The critical sections are definitions
  of their own, so that their interleavings can be stated.
\<close>

unbundle bit_operations_syntax

section \<open>Operations\<close>

record rt_messagequeue =
  mq_addr :: nat
  mq_flag :: u8
  msg_size :: u16
  max_msgs :: u16
  mq_entry :: u16
  q_head :: "nat option"
  q_tail :: "nat option"
  q_free :: "nat option"
  mq_next :: "nat \<Rightarrow> nat option"
  mq_data :: "nat \<Rightarrow> u8 list"

text \<open>One block put on the free list; the receive, the reset and the initialisation share it.\<close>

definition mq_put_free :: "nat \<Rightarrow> rt_messagequeue \<Rightarrow> rt_messagequeue" where
  "mq_put_free s mq = mq\<lparr>mq_next := (mq_next mq)(s := q_free mq), q_free := Some s\<rparr>"

definition mq_block :: "u8 list \<Rightarrow> nat \<Rightarrow> nat \<Rightarrow> u8 list" where
  "mq_block pool sz i = take sz (drop (i * (sz + 4) + 4) pool)"

definition rt_mq_init ::
  "nat \<Rightarrow> u8 list \<Rightarrow> u32 \<Rightarrow> u32 \<Rightarrow> u8 \<Rightarrow> kernel \<Rightarrow> int \<times> rt_messagequeue \<times> kernel" where
  "rt_mq_init addr msgpool msize pool_size flag k =
     (let sz = (ucast (rt_align msize) :: u16);
          n = (ucast (pool_size div (ucast sz + 4)) :: u16);
          mq = \<lparr>mq_addr = addr, mq_flag = flag, msg_size = sz, max_msgs = n, mq_entry = 0,
                q_head = None, q_tail = None, q_free = None, mq_next = (\<lambda>_. None),
                mq_data = mq_block msgpool (unat sz)\<rparr> in
      (RT_EOK, fold mq_put_free [0..<unat n] mq,
       k\<lparr>lists := (lists k)(WaitQ addr := [], SendQ addr := [])\<rparr>))"

definition mq_resume_all :: "rt_messagequeue \<Rightarrow> kernel \<Rightarrow> kernel option" where
  "mq_resume_all mq k = do {
     k1 \<leftarrow> rt_ipc_list_resume_all (WaitQ (mq_addr mq)) k;
     rt_ipc_list_resume_all (SendQ (mq_addr mq)) k1
   }"

definition rt_mq_detach :: "rt_messagequeue \<Rightarrow> kernel \<Rightarrow> (int \<times> kernel) option" where
  "rt_mq_detach mq k = map_option (Pair RT_EOK) (mq_resume_all mq k)"

definition rt_mq_delete :: "rt_messagequeue \<Rightarrow> kernel \<Rightarrow> (int \<times> kernel) option" where
  "rt_mq_delete mq k =
     (if not_in_interrupt k then map_option (Pair RT_EOK) (mq_resume_all mq k) else None)"

text \<open>Sending: the first critical section, the copy, and the second critical section.\<close>

definition mq_reserve :: "rt_messagequeue \<Rightarrow> (nat \<times> rt_messagequeue) option" where
  "mq_reserve mq = (case q_free mq of None \<Rightarrow> None | Some s \<Rightarrow> Some (s, mq\<lparr>q_free := mq_next mq s\<rparr>))"

definition mq_clear_next :: "nat \<Rightarrow> rt_messagequeue \<Rightarrow> rt_messagequeue" where
  "mq_clear_next s mq = mq\<lparr>mq_next := (mq_next mq)(s := None)\<rparr>"

definition mq_copy_in :: "nat \<Rightarrow> u8 list \<Rightarrow> u32 \<Rightarrow> rt_messagequeue \<Rightarrow> rt_messagequeue option" where
  "mq_copy_in s buffer len mq = do {
     d \<leftarrow> memcpy_at (mq_data mq s) 0 buffer 0 (unat len);
     Some (mq\<lparr>mq_data := (mq_data mq)(s := d)\<rparr>)
   }"

definition mq_link_tail :: "nat \<Rightarrow> rt_messagequeue \<Rightarrow> rt_messagequeue" where
  "mq_link_tail s mq =
     mq\<lparr>mq_next := (case q_tail mq of None \<Rightarrow> mq_next mq | Some l \<Rightarrow> (mq_next mq)(l := Some s)),
        q_tail := Some s, q_head := (if q_head mq = None then Some s else q_head mq),
        mq_entry := mq_entry mq + 1\<rparr>"

definition mq_link_head :: "nat \<Rightarrow> rt_messagequeue \<Rightarrow> rt_messagequeue" where
  "mq_link_head s mq =
     mq\<lparr>mq_next := (mq_next mq)(s := q_head mq), q_head := Some s,
        q_tail := (if q_tail mq = None then Some s else q_tail mq), mq_entry := mq_entry mq + 1\<rparr>"

definition mq_send_rest ::
  "rt_messagequeue \<Rightarrow> u8 list \<Rightarrow> u32 \<Rightarrow> kernel \<Rightarrow> (outcome \<times> rt_messagequeue \<times> kernel) option" where
  "mq_send_rest mq buffer len k = do {
     (s, mq1) \<leftarrow> mq_reserve mq;
     mq2 \<leftarrow> mq_copy_in s buffer len (mq_clear_next s mq1);
     k' \<leftarrow> wake_one (WaitQ (mq_addr mq)) k;
     Some (Returned RT_EOK, mq_link_tail s mq2, k')
   }"

definition mq_send_pass ::
  "rt_messagequeue \<Rightarrow> u8 list \<Rightarrow> u32 \<Rightarrow> 32 word \<Rightarrow> kernel \<Rightarrow> (outcome \<times> rt_messagequeue \<times> kernel) option" where
  "mq_send_pass mq buffer len timeout k =
     (if q_free mq = None then do {
        t \<leftarrow> current k;
        let k1 = upd_thread t (\<lambda>x. x\<lparr>error := RT_EOK\<rparr>) k;
        if timeout = 0 then Some (Returned (- RT_EFULL), mq, k1)
        else if in_thread_context k1 then do {
          k2 \<leftarrow> ipc_block (SendQ (mq_addr mq)) t (mq_flag mq) timeout k1;
          Some (Blocked, mq, k2)
        }
        else None
      }
      else mq_send_rest mq buffer len k)"

definition rt_mq_send_wait_enter ::
  "rt_messagequeue \<Rightarrow> u8 list \<Rightarrow> u32 \<Rightarrow> 32 word \<Rightarrow> kernel \<Rightarrow> (outcome \<times> rt_messagequeue \<times> kernel) option" where
  "rt_mq_send_wait_enter mq buffer len timeout k =
     (if len = 0 then None
      else if ucast (msg_size mq) < len then Some (Returned (- RT_ERROR), mq, k)
      else if q_free mq = None \<and> timeout = 0 then Some (Returned (- RT_EFULL), mq, k)
      else mq_send_pass mq buffer len timeout k)"

definition rt_mq_send_wait_resume ::
  "tid \<Rightarrow> rt_messagequeue \<Rightarrow> u8 list \<Rightarrow> u32 \<Rightarrow> 32 word \<Rightarrow> u32 \<Rightarrow> kernel \<Rightarrow>
   (outcome \<times> rt_messagequeue \<times> kernel) option" where
  "rt_mq_send_wait_resume t mq buffer len timeout tick0 k =
     (if error (threads k t) \<noteq> RT_EOK then Some (Returned (error (threads k t)), mq, k)
      else mq_send_pass mq buffer len (timeout_left timeout tick0 k) k)"

definition rt_mq_send ::
  "rt_messagequeue \<Rightarrow> u8 list \<Rightarrow> u32 \<Rightarrow> kernel \<Rightarrow> (outcome \<times> rt_messagequeue \<times> kernel) option" where
  "rt_mq_send mq buffer len k = rt_mq_send_wait_enter mq buffer len 0 k"

definition rt_mq_urgent ::
  "rt_messagequeue \<Rightarrow> u8 list \<Rightarrow> u32 \<Rightarrow> kernel \<Rightarrow> (outcome \<times> rt_messagequeue \<times> kernel) option" where
  "rt_mq_urgent mq buffer len k =
     (if len = 0 then None
      else if ucast (msg_size mq) < len then Some (Returned (- RT_ERROR), mq, k)
      else case mq_reserve mq of
        None \<Rightarrow> Some (Returned (- RT_EFULL), mq, k)
      | Some (s, mq1) \<Rightarrow> do {
          mq2 \<leftarrow> mq_copy_in s buffer len mq1;
          k' \<leftarrow> wake_one (WaitQ (mq_addr mq)) k;
          Some (Returned RT_EOK, mq_link_head s mq2, k')
        })"

text \<open>Receiving. An empty queue with a non-zero entry count would be a null dereference.\<close>

definition mq_unlink :: "rt_messagequeue \<Rightarrow> (nat \<times> rt_messagequeue) option" where
  "mq_unlink mq = (case q_head mq of
     None \<Rightarrow> None
   | Some s \<Rightarrow> Some (s, mq\<lparr>q_head := mq_next mq s, q_tail := (if q_tail mq = Some s then None else q_tail mq),
                          mq_entry := mq_entry mq - 1\<rparr>))"

definition mq_copy_out :: "nat \<Rightarrow> u32 \<Rightarrow> rt_messagequeue \<Rightarrow> u8 list option" where
  "mq_copy_out s len mq =
     c_read (mq_data mq s) 0 (if ucast (msg_size mq) < len then uint (msg_size mq) else uint len)"

definition mq_recv_rest ::
  "rt_messagequeue \<Rightarrow> u32 \<Rightarrow> kernel \<Rightarrow> (outcome \<times> u8 list option \<times> rt_messagequeue \<times> kernel) option" where
  "mq_recv_rest mq len k = do {
     (s, mq1) \<leftarrow> mq_unlink mq;
     buf \<leftarrow> mq_copy_out s len mq1;
     k' \<leftarrow> wake_one (SendQ (mq_addr mq)) k;
     Some (Returned RT_EOK, Some buf, mq_put_free s mq1, k')
   }"

definition mq_recv_pass ::
  "rt_messagequeue \<Rightarrow> u32 \<Rightarrow> 32 word \<Rightarrow> kernel \<Rightarrow> (outcome \<times> u8 list option \<times> rt_messagequeue \<times> kernel) option" where
  "mq_recv_pass mq len timeout k =
     (if mq_entry mq = 0 then
        (if in_thread_context k then do {
           t \<leftarrow> current k;
           let k1 = upd_thread t (\<lambda>x. x\<lparr>error := RT_EOK\<rparr>) k;
           if timeout = 0
           then Some (Returned (- RT_ETIMEOUT), None, mq, upd_thread t (\<lambda>x. x\<lparr>error := - RT_ETIMEOUT\<rparr>) k1)
           else do {
             k2 \<leftarrow> ipc_block (WaitQ (mq_addr mq)) t (mq_flag mq) timeout k1;
             Some (Blocked, None, mq, k2)
           }
         }
         else None)
      else mq_recv_rest mq len k)"

definition rt_mq_recv_enter ::
  "rt_messagequeue \<Rightarrow> u32 \<Rightarrow> 32 word \<Rightarrow> kernel \<Rightarrow> (outcome \<times> u8 list option \<times> rt_messagequeue \<times> kernel) option" where
  "rt_mq_recv_enter mq len timeout k =
     (if len = 0 then None
      else if mq_entry mq = 0 \<and> timeout = 0 then Some (Returned (- RT_ETIMEOUT), None, mq, k)
      else mq_recv_pass mq len timeout k)"

definition rt_mq_recv_resume ::
  "tid \<Rightarrow> rt_messagequeue \<Rightarrow> u32 \<Rightarrow> 32 word \<Rightarrow> u32 \<Rightarrow> kernel \<Rightarrow>
   (outcome \<times> u8 list option \<times> rt_messagequeue \<times> kernel) option" where
  "rt_mq_recv_resume t mq len timeout tick0 k =
     (if error (threads k t) \<noteq> RT_EOK then Some (Returned (error (threads k t)), None, mq, k)
      else mq_recv_pass mq len (timeout_left timeout tick0 k) k)"

partial_function (option) mq_drain :: "rt_messagequeue \<Rightarrow> rt_messagequeue option" where
  "mq_drain mq =
     (case q_head mq of
        None \<Rightarrow> Some mq
      | Some s \<Rightarrow> mq_drain (mq_put_free s
          (mq\<lparr>q_head := mq_next mq s, q_tail := (if q_tail mq = Some s then None else q_tail mq)\<rparr>)))"

definition rt_mq_control :: "rt_messagequeue \<Rightarrow> ipc_cmd \<Rightarrow> kernel \<Rightarrow> (int \<times> rt_messagequeue \<times> kernel) option" where
  "rt_mq_control mq cmd k =
     (case cmd of
        RT_IPC_CMD_RESET \<Rightarrow> do {
          k1 \<leftarrow> mq_resume_all mq k;
          mq1 \<leftarrow> mq_drain mq;
          k2 \<leftarrow> rt_schedule k1;
          Some (RT_EOK, mq1\<lparr>mq_entry := 0\<rparr>, k2)
        }
      | RT_IPC_CMD_OTHER \<Rightarrow> Some (- RT_ERROR, mq, k))"

section \<open>Invariant\<close>

text \<open>The pending blocks in order, the free ones, and those in the hands of an operation that is between its
  two critical sections: together exactly the blocks of the pool.\<close>

definition mq_rep :: "rt_messagequeue \<Rightarrow> nat list \<Rightarrow> nat list \<Rightarrow> nat set \<Rightarrow> bool" where
  "mq_rep mq qs fs H \<longleftrightarrow> chain (mq_next mq) (q_head mq) qs \<and> chain (mq_next mq) (q_free mq) fs
     \<and> q_tail mq = (if qs = [] then None else Some (last qs)) \<and> distinct (qs @ fs)
     \<and> H \<inter> set (qs @ fs) = {} \<and> set qs \<union> set fs \<union> H = {..<unat (max_msgs mq)}
     \<and> length qs = unat (mq_entry mq) \<and> (\<forall>s < unat (max_msgs mq). length (mq_data mq s) = unat (msg_size mq))"

definition same_queue :: "rt_messagequeue \<Rightarrow> rt_messagequeue \<Rightarrow> bool" where
  "same_queue mq mq' \<longleftrightarrow> mq_addr mq' = mq_addr mq \<and> mq_flag mq' = mq_flag mq
     \<and> msg_size mq' = msg_size mq \<and> max_msgs mq' = max_msgs mq"

definition mq_slots :: "rt_messagequeue \<Rightarrow> nat list" where
  "mq_slots mq = walk (unat (mq_entry mq)) (mq_next mq) (q_head mq)"

definition mq_contents :: "rt_messagequeue \<Rightarrow> u8 list list" where
  "mq_contents mq = map (mq_data mq) (mq_slots mq)"

lemma mq_rep_slots: "mq_rep mq qs fs H \<Longrightarrow> mq_slots mq = qs"
  using chain_walk [of "mq_next mq" "q_head mq" qs] by (simp add: mq_rep_def mq_slots_def)

lemma mq_rep_count:
  assumes "mq_rep mq qs fs H"
  shows "unat (mq_entry mq) + length fs + card H = unat (max_msgs mq)"
proof -
  have "card (set qs \<union> set fs \<union> H) = card (set (qs @ fs)) + card H"
    using assms finite_subset [of H "{..<unat (max_msgs mq)}"]
    by (subst card_Un_disjoint [symmetric]) (auto simp: mq_rep_def)
  also have "card (set (qs @ fs)) = length (qs @ fs)" using assms by (intro distinct_card) (simp add: mq_rep_def)
  finally show ?thesis using assms by (simp add: mq_rep_def)
qed

lemma mq_rep_length: "mq_rep mq qs fs H \<Longrightarrow> length qs = unat (mq_entry mq)"
  by (simp add: mq_rep_def)

lemma mq_rep_head: "mq_rep mq qs fs H \<Longrightarrow> q_head mq = None \<longleftrightarrow> qs = []"
  by (cases qs) (auto simp: mq_rep_def)

lemma mq_rep_free: "mq_rep mq qs fs H \<Longrightarrow> q_free mq = None \<longleftrightarrow> fs = []"
  by (cases fs) (auto simp: mq_rep_def)

lemma mq_rep_entry: "mq_rep mq qs fs H \<Longrightarrow> mq_entry mq = 0 \<longleftrightarrow> qs = []"
  by (auto simp: mq_rep_def unat_eq_0)

lemma mq_entry_inc:
  assumes "mq_rep mq qs fs H" "s \<in> H"
  shows "unat (mq_entry mq + 1) = Suc (length qs)"
proof -
  have "finite H" using assms(1) finite_subset [of H "{..<unat (max_msgs mq)}"] by (auto simp: mq_rep_def)
  then have "0 < card H" using assms(2) by (auto simp: card_gt_0_iff)
  then have "Suc (unat (mq_entry mq)) < 65536"
    using mq_rep_count [OF assms(1)] unat_u16 [of "max_msgs mq"] by linarith
  then have "unat (mq_entry mq + 1) = Suc (unat (mq_entry mq))" by (simp add: unat_word_ariths)
  then show ?thesis using assms(1) by (simp add: mq_rep_def)
qed

section \<open>The critical sections\<close>

lemma mq_reserve_rep:
  assumes "mq_rep mq qs (s # fs) H"
  shows "mq_reserve mq = Some (s, mq\<lparr>q_free := mq_next mq s\<rparr>)
    \<and> mq_rep (mq\<lparr>q_free := mq_next mq s\<rparr>) qs fs (insert s H) \<and> s \<notin> H"
  using assms by (auto simp: mq_reserve_def mq_rep_def)

lemma mq_rep_held: "mq_rep mq qs fs H \<Longrightarrow> s \<in> H \<Longrightarrow> s \<notin> set qs \<and> s \<notin> set fs \<and> s < unat (max_msgs mq)"
  by (auto simp: mq_rep_def)

lemma mq_clear_next_rep:
  "mq_rep mq qs fs H \<Longrightarrow> s \<in> H \<Longrightarrow> mq_rep (mq_clear_next s mq) qs fs H"
  using mq_rep_held [of mq qs fs H s] by (simp add: mq_clear_next_def mq_rep_def)

lemma mq_put_free_rep:
  "mq_rep mq qs fs H \<Longrightarrow> s \<in> H \<Longrightarrow> mq_rep (mq_put_free s mq) qs (s # fs) (H - {s})"
  using mq_rep_held [of mq qs fs H s] by (auto simp: mq_put_free_def mq_rep_def)

lemma mq_copy_in_rep:
  assumes "mq_rep mq qs fs H" "s \<in> H" "len \<le> ucast (msg_size mq)" "unat len \<le> length buf"
  shows "\<exists>mq'. mq_copy_in s buf len mq = Some mq' \<and> mq_rep mq' qs fs H \<and> mq_next mq' = mq_next mq
    \<and> same_queue mq mq' \<and> take (unat len) (mq_data mq' s) = take (unat len) buf
    \<and> drop (unat len) (mq_data mq' s) = drop (unat len) (mq_data mq s)
    \<and> (\<forall>t. t \<noteq> s \<longrightarrow> mq_data mq' t = mq_data mq t)"
proof -
  have s: "s < unat (max_msgs mq)" using assms(1,2) by (auto simp: mq_rep_def)
  have l: "unat len \<le> unat (msg_size mq)"
    using assms(3) by (simp add: word_le_nat_alt unat_ucast)
  then have "unat len \<le> length (mq_data mq s)" using assms(1) s by (simp add: mq_rep_def)
  then show ?thesis
    using assms(1,4) by (auto simp: mq_copy_in_def memcpy_at_Some mq_rep_def same_queue_def splice_def)
qed

lemma mq_link_tail_rep:
  assumes r: "mq_rep mq qs fs H" and s: "s \<in> H" and nx: "mq_next mq s = None"
  shows "mq_rep (mq_link_tail s mq) (qs @ [s]) fs (H - {s})"
proof -
  have d: "s \<notin> set qs" "s \<notin> set fs" "distinct qs" using r s by (auto simp: mq_rep_def)
  have l: "last qs \<notin> set fs" if "qs \<noteq> []" using r last_in_set [OF that] by (auto simp: mq_rep_def)
  have "chain (mq_next (mq_link_tail s mq)) (q_head (mq_link_tail s mq)) (qs @ [s])"
    using r d nx chain_snoc [of "mq_next mq" "q_head mq" qs s] mq_rep_head [OF r]
    by (cases "qs = []") (auto simp: mq_link_tail_def mq_rep_def)
  moreover have "chain (mq_next (mq_link_tail s mq)) (q_free (mq_link_tail s mq)) fs"
    using r l by (cases "qs = []") (simp_all add: mq_link_tail_def mq_rep_def)
  moreover have "unat (mq_entry (mq_link_tail s mq)) = length (qs @ [s])"
    using mq_entry_inc [OF r s] by (simp add: mq_link_tail_def)
  ultimately show ?thesis
    using r s d unfolding mq_rep_def by (auto simp: mq_link_tail_def)
qed

lemma mq_link_head_rep:
  assumes r: "mq_rep mq qs fs H" and s: "s \<in> H"
  shows "mq_rep (mq_link_head s mq) (s # qs) fs (H - {s})"
proof -
  have d: "s \<notin> set qs" "s \<notin> set fs" using r s by (auto simp: mq_rep_def)
  then show ?thesis
    using r s mq_entry_inc [OF r s] unfolding mq_rep_def by (auto simp: mq_link_head_def)
qed

lemma mq_unlink_rep:
  assumes r: "mq_rep mq (s # qs) fs H"
  shows "\<exists>mq'. mq_unlink mq = Some (s, mq') \<and> mq_rep mq' qs fs (insert s H) \<and> mq_data mq' = mq_data mq
    \<and> same_queue mq mq' \<and> s \<notin> H"
proof -
  have e: "unat (mq_entry mq - 1) = length qs"
  proof -
    have "mq_entry mq \<noteq> 0" using mq_rep_entry [OF r] by simp
    then have "unat (mq_entry mq - 1) = unat (mq_entry mq) - 1" by (rule unat_minus_one)
    moreover have "unat (mq_entry mq) = Suc (length qs)" using r by (simp add: mq_rep_def)
    ultimately show ?thesis by simp
  qed
  have "last qs \<noteq> s" if "qs \<noteq> []" using r last_in_set [OF that] by (auto simp: mq_rep_def)
  then show ?thesis
    using r e by (auto simp: mq_unlink_def mq_rep_def same_queue_def)
qed

lemma mq_copy_out_rep:
  assumes "mq_rep mq qs fs H" "s < unat (max_msgs mq)"
  shows "mq_copy_out s len mq = Some (take (unat len) (mq_data mq s))"
proof -
  have l: "length (mq_data mq s) = unat (msg_size mq)" using assms by (simp add: mq_rep_def)
  have c: "ucast (msg_size mq) < len \<longleftrightarrow> unat (msg_size mq) < unat len"
    using unat_u16 [of "msg_size mq"] by (simp add: word_less_nat_alt unat_ucast)
  show ?thesis using l unfolding mq_copy_out_def c by (auto simp: c_read_def)
qed

section \<open>Whole operations\<close>

lemma mq_send_rest_spec:
  assumes r: "mq_rep mq qs (s # fs) H" and k: "kinv k" "current k \<noteq> None"
    and len: "len \<le> ucast (msg_size mq)" "unat len \<le> length buf"
  shows "\<exists>mq' k'. mq_send_rest mq buf len k = Some (Returned 0, mq', k') \<and> mq_rep mq' (qs @ [s]) fs H
    \<and> same_queue mq mq' \<and> take (unat len) (mq_data mq' s) = take (unat len) buf
    \<and> (\<forall>t. t \<noteq> s \<longrightarrow> mq_data mq' t = mq_data mq t) \<and> wake_first (WaitQ (mq_addr mq)) k k'"
proof -
  let ?m1 = "mq\<lparr>q_free := mq_next mq s\<rparr>" and ?m2 = "mq_clear_next s (mq\<lparr>q_free := mq_next mq s\<rparr>)"
  note r1 = mq_reserve_rep [OF r]
  then have r2: "mq_rep ?m2 qs fs (insert s H)" by (intro mq_clear_next_rep) auto
  have f: "mq_data ?m2 = mq_data mq" "same_queue mq ?m2" "mq_next ?m2 s = None"
    by (simp_all add: mq_clear_next_def same_queue_def)
  have "len \<le> ucast (msg_size ?m2)" using len(1) by (simp add: mq_clear_next_def)
  from mq_copy_in_rep [OF r2 insertI1 this len(2)] f obtain m3 where
    m3: "mq_copy_in s buf len ?m2 = Some m3" "mq_rep m3 qs fs (insert s H)" "mq_next m3 s = None"
    "same_queue ?m2 m3" "take (unat len) (mq_data m3 s) = take (unat len) buf"
    "\<forall>t. t \<noteq> s \<longrightarrow> mq_data m3 t = mq_data mq t" by auto
  from mq_link_tail_rep [OF m3(2) insertI1 m3(3)] r1 have "mq_rep (mq_link_tail s m3) (qs @ [s]) fs H" by simp
  moreover obtain k' where "wake_one (WaitQ (mq_addr mq)) k = Some k'" "wake_first (WaitQ (mq_addr mq)) k k'"
    using wake_one_spec [OF k, of "WaitQ (mq_addr mq)"] by auto
  ultimately show ?thesis
    using r1 m3 f(2) by (auto simp: mq_send_rest_def mq_link_tail_def same_queue_def)
qed

lemma rt_mq_urgent_spec:
  assumes r: "mq_rep mq qs (s # fs) H" and k: "kinv k" "current k \<noteq> None"
    and len: "len \<noteq> 0" "len \<le> ucast (msg_size mq)" "unat len \<le> length buf"
  shows "\<exists>mq' k'. rt_mq_urgent mq buf len k = Some (Returned 0, mq', k') \<and> mq_rep mq' (s # qs) fs H
    \<and> same_queue mq mq' \<and> take (unat len) (mq_data mq' s) = take (unat len) buf
    \<and> (\<forall>t. t \<noteq> s \<longrightarrow> mq_data mq' t = mq_data mq t) \<and> wake_first (WaitQ (mq_addr mq)) k k'"
proof -
  let ?m1 = "mq\<lparr>q_free := mq_next mq s\<rparr>"
  note r1 = mq_reserve_rep [OF r]
  have "len \<le> ucast (msg_size ?m1)" using len(2) by simp
  from mq_copy_in_rep [OF conjunct1 [OF conjunct2 [OF r1]] insertI1 this len(3)] obtain m3 where
    m3: "mq_copy_in s buf len ?m1 = Some m3" "mq_rep m3 qs fs (insert s H)"
    "same_queue ?m1 m3" "take (unat len) (mq_data m3 s) = take (unat len) buf"
    "\<forall>t. t \<noteq> s \<longrightarrow> mq_data m3 t = mq_data mq t" by auto
  from mq_link_head_rep [OF m3(2) insertI1] r1 have "mq_rep (mq_link_head s m3) (s # qs) fs H" by simp
  moreover obtain k' where "wake_one (WaitQ (mq_addr mq)) k = Some k'" "wake_first (WaitQ (mq_addr mq)) k k'"
    using wake_one_spec [OF k, of "WaitQ (mq_addr mq)"] by auto
  ultimately show ?thesis
    using r1 m3 len by (auto simp: rt_mq_urgent_def mq_link_head_def same_queue_def)
qed

lemma mq_recv_rest_spec:
  assumes r: "mq_rep mq (s # qs) fs H" and k: "kinv k" "current k \<noteq> None"
  shows "\<exists>mq' k'. mq_recv_rest mq len k = Some (Returned 0, Some (take (unat len) (mq_data mq s)), mq', k')
    \<and> mq_rep mq' qs (s # fs) H \<and> same_queue mq mq' \<and> mq_data mq' = mq_data mq
    \<and> wake_first (SendQ (mq_addr mq)) k k'"
proof -
  obtain m1 where m1: "mq_unlink mq = Some (s, m1)" "mq_rep m1 qs fs (insert s H)" "mq_data m1 = mq_data mq"
    "same_queue mq m1" "s \<notin> H" using mq_unlink_rep [OF r] by blast
  have s: "s < unat (max_msgs m1)" using mq_rep_held [OF m1(2)] by blast
  from mq_put_free_rep [OF m1(2) insertI1] m1(5) have "mq_rep (mq_put_free s m1) qs (s # fs) H" by simp
  moreover obtain k' where "wake_one (SendQ (mq_addr mq)) k = Some k'" "wake_first (SendQ (mq_addr mq)) k k'"
    using wake_one_spec [OF k, of "SendQ (mq_addr mq)"] by auto
  ultimately show ?thesis
    using m1 mq_copy_out_rep [OF m1(2) s, of len]
    by (auto simp: mq_recv_rest_def mq_put_free_def same_queue_def)
qed

lemma mq_contents_rep: "mq_rep mq qs fs H \<Longrightarrow> mq_contents mq = map (mq_data mq) qs"
  by (simp add: mq_contents_def mq_rep_slots)

section \<open>Initialisation and reset\<close>

lemma fold_put_free:
  "q_free mq = None \<Longrightarrow>
   (let m = fold mq_put_free [0..<n] mq in chain (mq_next m) (q_free m) (rev [0..<n])
     \<and> q_head m = q_head mq \<and> q_tail m = q_tail mq \<and> mq_entry m = mq_entry mq \<and> mq_data m = mq_data mq
     \<and> same_queue mq m)"
  by (induction n) (auto simp: mq_put_free_def same_queue_def Let_def)

lemma rt_mq_init_rep:
  assumes "unat pool_size \<le> length pool" and "rt_mq_init addr pool msize pool_size flag k = (r, mq, k')"
  shows "r = 0 \<and> mq_rep mq [] (rev [0..<unat (max_msgs mq)]) {} \<and> mq_contents mq = []
    \<and> msg_size mq = ucast (rt_align msize) \<and> max_msgs mq = ucast (pool_size div (ucast (msg_size mq) + 4))
    \<and> mq_addr mq = addr \<and> mq_flag mq = flag"
proof -
  define sz where "sz = (ucast (rt_align msize) :: u16)"
  define n where "n = (ucast (pool_size div (ucast sz + 4)) :: u16)"
  define m0 where "m0 = \<lparr>mq_addr = addr, mq_flag = flag, msg_size = sz, max_msgs = n, mq_entry = 0,
    q_head = None, q_tail = None, q_free = None, mq_next = (\<lambda>_. None), mq_data = mq_block pool (unat sz)\<rparr>"
  have mq: "mq = fold mq_put_free [0..<unat n] m0" and r: "r = 0"
    using assms(2) by (simp_all add: rt_mq_init_def Let_def sz_def n_def m0_def)
  have f: "chain (mq_next mq) (q_free mq) (rev [0..<unat n])" "q_head mq = None" "q_tail mq = None"
    "mq_entry mq = 0" "mq_data mq = mq_block pool (unat sz)" "same_queue m0 mq"
    using fold_put_free [of m0 "unat n"] by (simp_all add: mq m0_def Let_def)
  have "length (mq_block pool (unat sz) s) = unat sz" if "s < unat n" for s
  proof -
    have e: "unat (ucast sz + 4 :: u32) = unat sz + 4"
      using unat_u16 [of sz] by (simp add: unat_word_ariths unat_ucast)
    have "unat n \<le> unat pool_size div (unat sz + 4)"
      by (simp add: n_def unat_ucast unat_div_distrib e)
    then have "unat n * (unat sz + 4) \<le> unat pool_size"
      by (metis div_times_less_eq_dividend le_trans mult_le_mono1)
    moreover have "Suc s * (unat sz + 4) \<le> unat n * (unat sz + 4)" using that by (intro mult_le_mono1) simp
    ultimately have "s * (unat sz + 4) + 4 + unat sz \<le> length pool" using assms(1) by simp
    then show ?thesis by (simp add: mq_block_def)
  qed
  with f r show ?thesis
    by (auto simp: mq_rep_def mq_contents_def mq_slots_def same_queue_def m0_def n_def sz_def)
qed

text \<open>The loop does not count the entries down, so the invariant holds up to the count.\<close>

lemma mq_drain_spec:
  "mq_rep (mq\<lparr>mq_entry := of_nat (length qs)\<rparr>) qs fs H \<Longrightarrow>
   \<exists>m. mq_drain mq = Some m \<and> mq_rep (m\<lparr>mq_entry := 0\<rparr>) [] (rev qs @ fs) H \<and> same_queue mq m"
proof (induction qs arbitrary: mq fs)
  case Nil
  then have "q_head mq = None" by (simp add: mq_rep_def)
  then have "mq_drain mq = Some mq" by (subst mq_drain.simps) simp
  then show ?case using Nil by (auto simp: same_queue_def)
next
  case (Cons s qs)
  let ?m0 = "mq\<lparr>mq_entry := of_nat (length (s # qs))\<rparr>"
  let ?m2 = "mq_put_free s
    (mq\<lparr>q_head := mq_next mq s, q_tail := (if q_tail mq = Some s then None else q_tail mq)\<rparr>)"
  obtain m1 where m1: "mq_unlink ?m0 = Some (s, m1)" "mq_rep m1 qs fs (insert s H)" "s \<notin> H"
    using mq_unlink_rep [OF Cons.prems] by blast
  have h: "q_head mq = Some s" using Cons.prems by (simp add: mq_rep_def)
  with m1(1) have "mq_put_free s m1 = ?m2\<lparr>mq_entry := of_nat (length qs)\<rparr>"
    by (auto simp: mq_unlink_def mq_put_free_def)
  with mq_put_free_rep [OF m1(2) insertI1] m1(3)
  have "mq_rep (?m2\<lparr>mq_entry := of_nat (length qs)\<rparr>) qs (s # fs) H" by simp
  from Cons.IH [OF this] obtain m where
    "mq_drain ?m2 = Some m" "mq_rep (m\<lparr>mq_entry := 0\<rparr>) [] (rev qs @ s # fs) H" "same_queue ?m2 m" by blast
  moreover have "mq_drain mq = mq_drain ?m2" using h by (subst mq_drain.simps) simp
  ultimately show ?case by (auto simp: same_queue_def mq_put_free_def)
qed

section \<open>The message queue as a bounded queue\<close>

definition mq_ok :: "rt_messagequeue \<Rightarrow> bool" where
  "mq_ok mq \<longleftrightarrow> 0 < unat (msg_size mq) \<and> (\<exists>fs. mq_rep mq (mq_slots mq) fs {})"

text \<open>Sending and receiving whole messages without waiting, on the queue and the kernel together.\<close>

definition mq_enq :: "rt_messagequeue \<times> kernel \<Rightarrow> u8 list \<Rightarrow> (rt_messagequeue \<times> kernel) option" where
  "mq_enq = (\<lambda>(mq, k) b. case rt_mq_send mq b (of_nat (length b)) k of
     Some (Returned r, mq', k') \<Rightarrow> (if r = RT_EOK then Some (mq', k') else None) | _ \<Rightarrow> None)"

definition mq_deq :: "rt_messagequeue \<times> kernel \<Rightarrow> (u8 list \<times> rt_messagequeue \<times> kernel) option" where
  "mq_deq = (\<lambda>(mq, k). case rt_mq_recv_enter mq (ucast (msg_size mq)) 0 k of
     Some (Returned r, Some b, mq', k') \<Rightarrow> (if r = RT_EOK then Some (b, mq', k') else None) | _ \<Rightarrow> None)"

definition mq_inv :: "nat \<Rightarrow> rt_messagequeue \<times> kernel \<Rightarrow> bool" where
  "mq_inv n = (\<lambda>(mq, k). mq_ok mq \<and> unat (msg_size mq) = n \<and> kinv k \<and> current k \<noteq> None)"

lemma mq_okI: "mq_rep mq qs fs {} \<Longrightarrow> 0 < unat (msg_size mq) \<Longrightarrow> mq_ok mq"
  using mq_rep_slots [of mq qs fs "{}"] by (auto simp: mq_ok_def)

lemma mq_okE:
  assumes "mq_ok mq"
  obtains qs fs where "mq_rep mq qs fs {}" "mq_contents mq = map (mq_data mq) qs"
    "length qs + length fs = unat (max_msgs mq)" "0 < unat (msg_size mq)"
proof -
  obtain fs where r: "mq_rep mq (mq_slots mq) fs {}" using assms by (auto simp: mq_ok_def)
  have "length (mq_slots mq) = unat (mq_entry mq)" by (rule mq_rep_length [OF r])
  then have "length (mq_slots mq) + length fs = unat (max_msgs mq)" using mq_rep_count [OF r] by simp
  moreover have "0 < unat (msg_size mq)" using assms by (simp only: mq_ok_def)
  ultimately show thesis using that [OF r mq_contents_rep [OF r]] by blast
qed

lemma msg_len_word:
  assumes "length b = unat (msg_size mq)" "0 < unat (msg_size mq)"
  shows "unat (of_nat (length b) :: u32) = length b" "of_nat (length b) \<noteq> (0 :: u32)"
    "of_nat (length b) \<le> (ucast (msg_size mq) :: u32)" "\<not> (ucast (msg_size mq) :: u32) < of_nat (length b)"
proof -
  have "length b < 65536" using assms(1) unat_u16 [of "msg_size mq"] by simp
  then show u: "unat (of_nat (length b) :: u32) = length b" by (intro unat_word_of_nat) simp
  then show "of_nat (length b) \<noteq> (0 :: u32)" using assms by (metis neq0_conv unat_0)
  show "of_nat (length b) \<le> (ucast (msg_size mq) :: u32)"
    using assms(1) unat_u16 [of "msg_size mq"] unfolding word_le_nat_alt u by (simp add: unat_ucast)
  then show "\<not> (ucast (msg_size mq) :: u32) < of_nat (length b)" by simp
qed

lemma mq_enq_room:
  assumes i: "mq_inv n (mq, k)" and b: "length b = n" and room: "length (mq_contents mq) < unat (max_msgs mq)"
  shows "\<exists>mq' k'. mq_enq (mq, k) b = Some (mq', k') \<and> mq_inv n (mq', k')
    \<and> mq_contents mq' = mq_contents mq @ [b] \<and> max_msgs mq' = max_msgs mq"
proof -
  from i have k: "kinv k" "current k \<noteq> None" and n: "unat (msg_size mq) = n" and ok: "mq_ok mq"
    by (simp_all add: mq_inv_def)
  obtain qs fs where r: "mq_rep mq qs fs {}" "mq_contents mq = map (mq_data mq) qs"
    "length qs + length fs = unat (max_msgs mq)" and pos: "0 < unat (msg_size mq)" using ok by (rule mq_okE)
  obtain s fs' where fs: "fs = s # fs'" using r room by (cases fs) auto
  have b': "length b = unat (msg_size mq)" using b n by simp
  note w = msg_len_word [OF b' pos]
  have "unat (of_nat (length b) :: u32) \<le> length b" using w(1) by simp
  from mq_send_rest_spec [OF r(1) [unfolded fs] k w(3) this] obtain mq' k' where
    s: "mq_send_rest mq b (of_nat (length b)) k = Some (Returned 0, mq', k')" "mq_rep mq' (qs @ [s]) fs' {}"
    "same_queue mq mq'" "take (length b) (mq_data mq' s) = b" "\<forall>t. t \<noteq> s \<longrightarrow> mq_data mq' t = mq_data mq t"
    "wake_first (WaitQ (mq_addr mq)) k k'"
    unfolding w(1) by auto
  have sq: "s \<notin> set qs" "length (mq_data mq' s) = unat (msg_size mq')"
    using r(1) s(2) fs by (auto simp: mq_rep_def)
  have e: "msg_size mq' = msg_size mq" "max_msgs mq' = max_msgs mq" using s(3) by (simp_all add: same_queue_def)
  have c: "mq_contents mq' = mq_contents mq @ [b]"
    using mq_contents_rep [OF s(2)] r(2) s(4,5) sq e b' by (auto cong: map_cong)
  have "\<not> q_free mq = None" using mq_rep_free [OF r(1)] fs by simp
  then have "rt_mq_send mq b (of_nat (length b)) k = Some (Returned 0, mq', k')"
    using s(1) w unfolding rt_mq_send_def rt_mq_send_wait_enter_def mq_send_pass_def by (simp del: not_None_eq)
  then show ?thesis
    using c e pos n s(6) mq_okI [OF s(2)] by (auto simp: mq_enq_def mq_inv_def wake_first_def)
qed

lemma mq_enq_full:
  assumes i: "mq_inv n (mq, k)" and b: "length b = n" and full: "\<not> length (mq_contents mq) < unat (max_msgs mq)"
  shows "mq_enq (mq, k) b = None"
proof -
  from i have n: "unat (msg_size mq) = n" and ok: "mq_ok mq" by (simp_all add: mq_inv_def)
  obtain qs fs where r: "mq_rep mq qs fs {}" "mq_contents mq = map (mq_data mq) qs"
    "length qs + length fs = unat (max_msgs mq)" and pos: "0 < unat (msg_size mq)" using ok by (rule mq_okE)
  have "fs = []" using r(2,3) full by (cases fs) auto
  then have "q_free mq = None" using mq_rep_free [OF r(1)] by simp
  moreover have "length b = unat (msg_size mq)" using b n by simp
  ultimately show ?thesis using msg_len_word [of b mq] pos
    by (simp add: mq_enq_def rt_mq_send_def rt_mq_send_wait_enter_def)
qed

lemma mq_deq_Cons:
  assumes i: "mq_inv n (mq, k)" and c: "mq_contents mq = b # bs"
  shows "\<exists>mq' k'. mq_deq (mq, k) = Some (b, mq', k') \<and> mq_inv n (mq', k') \<and> mq_contents mq' = bs
    \<and> max_msgs mq' = max_msgs mq"
proof -
  from i have k: "kinv k" "current k \<noteq> None" and n: "unat (msg_size mq) = n" and ok: "mq_ok mq"
    by (simp_all add: mq_inv_def)
  obtain qs fs where r: "mq_rep mq qs fs {}" "mq_contents mq = map (mq_data mq) qs"
    "length qs + length fs = unat (max_msgs mq)" and pos: "0 < unat (msg_size mq)" using ok by (rule mq_okE)
  obtain s qs' where qs: "qs = s # qs'" using r c by (cases qs) auto
  from mq_recv_rest_spec [OF r(1) [unfolded qs] k, of "ucast (msg_size mq)"] obtain mq' k' where
    s: "mq_recv_rest mq (ucast (msg_size mq)) k
      = Some (Returned 0, Some (take (unat (ucast (msg_size mq) :: u32)) (mq_data mq s)), mq', k')"
    "mq_rep mq' qs' (s # fs) {}" "same_queue mq mq'" "mq_data mq' = mq_data mq"
    "wake_first (SendQ (mq_addr mq)) k k'" by blast
  have l: "length (mq_data mq s) = unat (msg_size mq)" using r(1) qs by (auto simp: mq_rep_def)
  have u: "unat (ucast (msg_size mq) :: u32) = unat (msg_size mq)"
    using unat_u16 [of "msg_size mq"] by (simp add: unat_ucast)
  have "(ucast (msg_size mq) :: u32) \<noteq> 0" using u pos by (metis neq0_conv unat_0)
  moreover have "mq_entry mq \<noteq> 0" using mq_rep_entry [OF r(1)] qs by simp
  ultimately have "rt_mq_recv_enter mq (ucast (msg_size mq)) 0 k = Some (Returned 0, Some b, mq', k')"
    using s(1) l u r(2) qs c by (simp add: rt_mq_recv_enter_def mq_recv_pass_def)
  then show ?thesis
    using s r(2) c qs n pos mq_okI [OF s(2)] mq_contents_rep [OF s(2)]
    by (auto simp: mq_deq_def mq_inv_def wake_first_def same_queue_def)
qed

lemma mq_deq_Nil:
  assumes i: "mq_inv n (mq, k)" and c: "mq_contents mq = []"
  shows "mq_deq (mq, k) = None"
proof -
  from i have ok: "mq_ok mq" by (simp add: mq_inv_def)
  obtain qs fs where r: "mq_rep mq qs fs {}" "mq_contents mq = map (mq_data mq) qs" using ok by (rule mq_okE)
  then have "mq_entry mq = 0" using mq_rep_entry [OF r(1)] c by simp
  then show ?thesis by (simp add: mq_deq_def rt_mq_recv_enter_def)
qed

interpretation mqq: bounded_fifo "mq_inv n" "\<lambda>(mq, k). mq_contents mq" "\<lambda>(mq, k). unat (max_msgs mq)"
    mq_enq mq_deq "\<lambda>b. length b = n" for n
proof
  fix s :: "rt_messagequeue \<times> kernel" and x xs
  obtain mq k where s: "s = (mq, k)" by fastforce
  assume i: "mq_inv n s"
  note i' = i [unfolded s]
  show "\<exists>s'. mq_enq s x = Some s' \<and> mq_inv n s'
      \<and> (case s' of (mq, k) \<Rightarrow> mq_contents mq) = (case s of (mq, k) \<Rightarrow> mq_contents mq) @ [x]
      \<and> (case s' of (mq, k) \<Rightarrow> unat (max_msgs mq)) = (case s of (mq, k) \<Rightarrow> unat (max_msgs mq))"
    if "length x = n"
      "length (case s of (mq, k) \<Rightarrow> mq_contents mq) < (case s of (mq, k) \<Rightarrow> unat (max_msgs mq))"
    using mq_enq_room [OF i' that(1)] that(2) by (auto simp: s)
  show "mq_enq s x = None"
    if "length x = n"
      "\<not> length (case s of (mq, k) \<Rightarrow> mq_contents mq) < (case s of (mq, k) \<Rightarrow> unat (max_msgs mq))"
    using mq_enq_full [OF i' that(1)] that(2) by (simp add: s)
  show "\<exists>s'. mq_deq s = Some (x, s') \<and> mq_inv n s' \<and> (case s' of (mq, k) \<Rightarrow> mq_contents mq) = xs
      \<and> (case s' of (mq, k) \<Rightarrow> unat (max_msgs mq)) = (case s of (mq, k) \<Rightarrow> unat (max_msgs mq))"
    if "(case s of (mq, k) \<Rightarrow> mq_contents mq) = x # xs"
    using mq_deq_Cons [OF i'] that by (auto simp: s)
  show "mq_deq s = None" if "(case s of (mq, k) \<Rightarrow> mq_contents mq) = []"
    using mq_deq_Nil [OF i'] that by (simp add: s)
qed

section \<open>Interleaved operations\<close>

text \<open>The sends and receives in flight: the block each holds, how far it is, and the message (for a receive,
  the message at the head of the queue when it unlinked the block). The last component of the state is
  the abstract queue, the messages in the order in which they will be received.\<close>

datatype flight = Filling bool "u8 list" | Filled bool "u8 list" | Taken "u8 list"

type_synonym mq_state = "rt_messagequeue \<times> kernel \<times> (nat \<Rightarrow> flight option) \<times> u8 list list"

inductive mq_step :: "mq_state \<Rightarrow> mq_state \<Rightarrow> bool" where
  reserve: "mq_reserve mq = Some (s, mq') \<Longrightarrow> b \<noteq> [] \<Longrightarrow> length b \<le> unat (msg_size mq) \<Longrightarrow>
    mq_step (mq, k, F, Q) (mq', k, F(s := Some (Filling urgent b)), Q)"
| fill: "F s = Some (Filling urgent b) \<Longrightarrow>
    mq_copy_in s b (of_nat (length b)) (if urgent then mq else mq_clear_next s mq) = Some mq' \<Longrightarrow>
    mq_step (mq, k, F, Q) (mq', k, F(s := Some (Filled urgent b)), Q)"
| link: "F s = Some (Filled urgent b) \<Longrightarrow> wake_one (WaitQ (mq_addr mq)) k = Some k' \<Longrightarrow>
    mq_step (mq, k, F, Q) (if urgent then mq_link_head s mq else mq_link_tail s mq, k', F(s := None),
                           if urgent then b # Q else Q @ [b])"
| unlink: "mq_entry mq \<noteq> 0 \<Longrightarrow> mq_unlink mq = Some (s, mq') \<Longrightarrow>
    mq_step (mq, k, F, Q) (mq', k, F(s := Some (Taken (hd Q))), tl Q)"
| free: "F s = Some (Taken b) \<Longrightarrow> wake_one (SendQ (mq_addr mq)) k = Some k' \<Longrightarrow>
    mq_step (mq, k, F, Q) (mq_put_free s mq, k', F(s := None), Q)"
| elsewhere: "kinv k' \<Longrightarrow> current k' \<noteq> None \<Longrightarrow> mq_step (mq, k, F, Q) (mq, k', F, Q)"

text \<open>A block's message, up to the bytes of an earlier, longer one.\<close>

definition holds_msg :: "rt_messagequeue \<Rightarrow> nat \<Rightarrow> u8 list \<Rightarrow> bool" where
  "holds_msg mq s b \<longleftrightarrow> take (length b) (mq_data mq s) = b"

fun flight_ok :: "rt_messagequeue \<Rightarrow> nat \<Rightarrow> flight \<Rightarrow> bool" where
  "flight_ok mq s (Filling urgent b) \<longleftrightarrow> b \<noteq> [] \<and> length b \<le> unat (msg_size mq)"
| "flight_ok mq s (Filled urgent b) \<longleftrightarrow> holds_msg mq s b \<and> (urgent \<or> mq_next mq s = None)"
| "flight_ok mq s (Taken b) \<longleftrightarrow> holds_msg mq s b"

definition mq_flights :: "mq_state \<Rightarrow> bool" where
  "mq_flights = (\<lambda>(mq, k, F, Q). kinv k \<and> current k \<noteq> None
     \<and> (\<exists>qs fs. mq_rep mq qs fs (dom F) \<and> list_all2 (holds_msg mq) qs Q)
     \<and> (\<forall>s f. F s = Some f \<longrightarrow> flight_ok mq s f))"

lemma mq_flightsI:
  assumes "mq_rep mq qs fs (dom F)" "list_all2 (holds_msg mq) qs Q" "kinv k" "current k \<noteq> None"
    "\<And>s f. F s = Some f \<Longrightarrow> flight_ok mq s f"
  shows "mq_flights (mq, k, F, Q)"
  using assms by (auto simp: mq_flights_def)

lemma flight_ok_cong:
  "mq_data mq' s = mq_data mq s \<Longrightarrow> msg_size mq' = msg_size mq \<Longrightarrow> mq_next mq' s = mq_next mq s \<Longrightarrow>
   flight_ok mq' s f = flight_ok mq s f"
  by (cases f) (auto simp: holds_msg_def)

lemma holds_all_cong:
  "(\<And>s. s \<in> set qs \<Longrightarrow> mq_data mq' s = mq_data mq s) \<Longrightarrow>
   list_all2 (holds_msg mq') qs Q = list_all2 (holds_msg mq) qs Q"
  by (auto simp: list_all2_conv_all_nth holds_msg_def)

lemma wake_one_kinv:
  "kinv k \<Longrightarrow> current k \<noteq> None \<Longrightarrow> wait_queue q \<Longrightarrow> wake_one q k = Some k' \<Longrightarrow> kinv k' \<and> current k' \<noteq> None"
  using wake_one_spec [of k q] by (auto simp: wake_first_def)

text \<open>Each kind of step keeps the invariant.\<close>

lemma flights_reserve:
  assumes i: "mq_flights (mq, k, F, Q)" and s: "mq_reserve mq = Some (s, mq')"
    and b: "b \<noteq> []" "length b \<le> unat (msg_size mq)"
  shows "mq_flights (mq', k, F(s := Some (Filling u b)), Q)"
proof -
  from i obtain qs fs where r: "mq_rep mq qs fs (dom F)" "list_all2 (holds_msg mq) qs Q" "kinv k"
    "current k \<noteq> None" "\<forall>s f. F s = Some f \<longrightarrow> flight_ok mq s f" using i by (auto simp: mq_flights_def)
  have "q_free mq = Some s" using s by (auto simp: mq_reserve_def split: option.splits)
  then obtain fs' where fs: "fs = s # fs'" using r(1) by (cases fs) (auto simp: mq_rep_def)
  note rr = mq_reserve_rep [OF r(1) [unfolded fs]]
  then have m: "mq' = mq\<lparr>q_free := mq_next mq s\<rparr>" using s by simp
  have fl: "flight_ok mq' t f = flight_ok mq t f" for t f by (rule flight_ok_cong) (simp_all add: m)
  have "list_all2 (holds_msg mq') qs Q" using r(2) holds_all_cong [of qs mq' mq Q] by (simp add: m)
  moreover have "mq_rep mq' qs fs' (dom (F(s := Some (Filling u b))))" using rr by (simp add: m)
  ultimately show ?thesis
    using r(3-5) b unfolding fl [symmetric] by (intro mq_flightsI) (auto simp: m split: if_splits)
qed

lemma flights_fill:
  assumes i: "mq_flights (mq, k, F, Q)" and f: "F s = Some (Filling u b)"
    and s: "mq_copy_in s b (of_nat (length b)) (if u then mq else mq_clear_next s mq) = Some mq'"
  shows "mq_flights (mq', k, F(s := Some (Filled u b)), Q)"
proof -
  from i obtain qs fs where r: "mq_rep mq qs fs (dom F)" "list_all2 (holds_msg mq) qs Q" "kinv k"
    "current k \<noteq> None" using i by (auto simp: mq_flights_def)
  have fl: "flight_ok mq t g" if "F t = Some g" for t g using i that by (simp add: mq_flights_def)
  let ?m = "if u then mq else mq_clear_next s mq"
  have sF: "s \<in> dom F" using f by blast
  have r1: "mq_rep ?m qs fs (dom F)" using r(1) mq_clear_next_rep [OF r(1) sF] by simp
  have m1: "mq_data ?m = mq_data mq" "msg_size ?m = msg_size mq" "\<And>t. t \<noteq> s \<Longrightarrow> mq_next ?m t = mq_next mq t"
    by (simp_all add: mq_clear_next_def)
  have b: "length b \<le> unat (msg_size mq)" using fl [OF f] by simp
  have u: "unat (of_nat (length b) :: u32) = length b"
    using b unat_u16 [of "msg_size mq"] by (intro unat_word_of_nat) simp
  have "of_nat (length b) \<le> (ucast (msg_size ?m) :: u32)"
    using b unat_u16 [of "msg_size mq"] unfolding word_le_nat_alt u m1 by (simp add: unat_ucast)
  from mq_copy_in_rep [OF r1 sF this, of b] u s have c: "mq_rep mq' qs fs (dom F)" "mq_next mq' = mq_next ?m"
    "msg_size mq' = msg_size mq" "take (length b) (mq_data mq' s) = b"
    "\<And>t. t \<noteq> s \<Longrightarrow> mq_data mq' t = mq_data mq t"
    by (auto simp: same_queue_def m1)
  have "s \<notin> set qs" using mq_rep_held [OF r(1) sF] by blast
  then have "list_all2 (holds_msg mq') qs Q" using r(2) c(5) holds_all_cong [of qs mq' mq Q] by metis
  moreover have "flight_ok mq' s (Filled u b)"
    using c(2,4) by (auto simp: holds_msg_def mq_clear_next_def)
  moreover have "flight_ok mq' t g" if "F t = Some g" "t \<noteq> s" for t g
    using fl [OF that(1)] flight_ok_cong [of mq' t mq g] c(2,3,5) m1(3) that(2) by metis
  moreover have "dom (F(s := Some (Filled u b))) = dom F" using sF by auto
  ultimately show ?thesis using r(3,4) c(1) by (intro mq_flightsI) (auto split: if_splits)
qed

lemma flights_link:
  assumes i: "mq_flights (mq, k, F, Q)" and f: "F s = Some (Filled u b)"
    and w: "wake_one (WaitQ (mq_addr mq)) k = Some k'"
  shows "mq_flights (if u then mq_link_head s mq else mq_link_tail s mq, k', F(s := None),
                     if u then b # Q else Q @ [b])"
proof -
  from i obtain qs fs where r: "mq_rep mq qs fs (dom F)" "list_all2 (holds_msg mq) qs Q" "kinv k"
    "current k \<noteq> None" using i by (auto simp: mq_flights_def)
  have fl: "flight_ok mq t g" if "F t = Some g" for t g using i that by (simp add: mq_flights_def)
  let ?m = "if u then mq_link_head s mq else mq_link_tail s mq"
  have sF: "s \<in> dom F" using f by blast
  have k': "kinv k'" "current k' \<noteq> None" using wake_one_kinv [OF r(3,4) _ w] by auto
  have sm: "holds_msg mq s b" "u \<or> mq_next mq s = None" using fl [OF f] by auto
  have d: "mq_data ?m = mq_data mq" "msg_size ?m = msg_size mq"
    by (simp_all add: mq_link_head_def mq_link_tail_def)
  have rep: "mq_rep ?m (if u then s # qs else qs @ [s]) fs (dom (F(s := None)))"
    using mq_link_head_rep [OF r(1) sF] mq_link_tail_rep [OF r(1) sF] sm(2) by (cases u) simp_all
  have ho: "holds_msg ?m = holds_msg mq" by (simp add: holds_msg_def fun_eq_iff d)
  have nx: "mq_next ?m t = mq_next mq t" if "t \<noteq> s" "t \<in> dom F" for t
  proof -
    have "q_tail mq \<noteq> Some t"
      using r(1) mq_rep_held [OF r(1) that(2)] last_in_set [of qs] by (auto simp: mq_rep_def)
    then show ?thesis using that(1) by (auto simp: mq_link_head_def mq_link_tail_def split: option.splits)
  qed
  have "flight_ok ?m t g" if "F t = Some g" "t \<noteq> s" for t g
    using fl [OF that(1)] flight_ok_cong [of ?m t mq g] d nx [OF that(2)] that(1) by (metis domI)
  then show ?thesis
    using rep k' r(2) sm(1) unfolding ho [symmetric]
    by (intro mq_flightsI [where qs = "if u then s # qs else qs @ [s]" and fs = fs])
      (auto split: if_splits intro!: list_all2_appendI)
qed

lemma flights_unlink:
  assumes i: "mq_flights (mq, k, F, Q)" and e: "mq_entry mq \<noteq> 0" and s: "mq_unlink mq = Some (s, mq')"
  shows "mq_flights (mq', k, F(s := Some (Taken (hd Q))), tl Q)"
proof -
  from i obtain qs fs where r: "mq_rep mq qs fs (dom F)" "list_all2 (holds_msg mq) qs Q" "kinv k"
    "current k \<noteq> None" using i by (auto simp: mq_flights_def)
  have fl: "flight_ok mq t g" if "F t = Some g" for t g using i that by (simp add: mq_flights_def)
  obtain t qs' where "qs = t # qs'" using mq_rep_entry [OF r(1)] e by (cases qs) auto
  moreover have "q_head mq = Some s" using s by (auto simp: mq_unlink_def split: option.splits)
  ultimately have qs: "qs = s # qs'" using r(1) by (simp add: mq_rep_def)
  from mq_unlink_rep [OF r(1) [unfolded qs]] s have u: "mq_rep mq' qs' fs (insert s (dom F))"
    "mq_data mq' = mq_data mq" "same_queue mq mq'" by auto
  have nx: "mq_next mq' = mq_next mq" using s by (auto simp: mq_unlink_def split: option.splits)
  obtain b Q' where Q: "Q = b # Q'" "holds_msg mq s b" "list_all2 (holds_msg mq) qs' Q'"
    using r(2) qs by (auto simp: list_all2_Cons1)
  have ho: "holds_msg mq' = holds_msg mq" by (simp add: holds_msg_def fun_eq_iff u)
  have "flight_ok mq' t g = flight_ok mq t g" for t g
    using u nx by (intro flight_ok_cong) (simp_all add: same_queue_def)
  then show ?thesis
    using u(1) r(3,4) Q fl ho by (intro mq_flightsI) (auto split: if_splits)
qed

lemma flights_free:
  assumes i: "mq_flights (mq, k, F, Q)" and f: "F s = Some (Taken b)"
    and w: "wake_one (SendQ (mq_addr mq)) k = Some k'"
  shows "mq_flights (mq_put_free s mq, k', F(s := None), Q)"
proof -
  from i obtain qs fs where r: "mq_rep mq qs fs (dom F)" "list_all2 (holds_msg mq) qs Q" "kinv k"
    "current k \<noteq> None" using i by (auto simp: mq_flights_def)
  have fl: "flight_ok mq t g" if "F t = Some g" for t g using i that by (simp add: mq_flights_def)
  have sF: "s \<in> dom F" using f by blast
  have ho: "holds_msg (mq_put_free s mq) = holds_msg mq"
    by (simp add: holds_msg_def fun_eq_iff mq_put_free_def)
  have "flight_ok (mq_put_free s mq) t g = flight_ok mq t g" if "t \<noteq> s" for t g
    using that by (intro flight_ok_cong) (simp_all add: mq_put_free_def)
  then show ?thesis
    using mq_put_free_rep [OF r(1) sF] wake_one_kinv [OF r(3,4) _ w] r(2) fl ho
    by (intro mq_flightsI) (auto split: if_splits)
qed

lemma mq_step_flights: "mq_step x y \<Longrightarrow> mq_flights x \<Longrightarrow> mq_flights y"
proof (induction rule: mq_step.induct)
  case (elsewhere k' mq k F Q)
  then show ?case by (simp add: mq_flights_def)
qed (blast intro: flights_reserve flights_fill flights_link flights_unlink flights_free)+

section \<open>The properties\<close>

text \<open>C9. A message queue delivers every accepted message once, unchanged and in order. Any sequence of
  non-waiting sends and receives of whole messages, with whatever threads are suspended on either
  side, answers like a list bounded by the number of blocks of the pool, and no block is lost.\<close>

theorem messagequeue_run_is_bounded_fifo:
  assumes "mq_ok mq" and "kinv k" and "current k \<noteq> None"
    and "list_all (op_fits (\<lambda>b. length b = unat (msg_size mq))) es"
    and "fifo_run mq_enq mq_deq (mq, k) es = (rs, (mq', k'))"
  shows "mq_ok mq' \<and> kinv k' \<and> max_msgs mq' = max_msgs mq
    \<and> spec_run (unat (max_msgs mq)) (mq_contents mq) es = (rs, mq_contents mq')
    \<and> mq_contents mq @ accepted es rs = delivered rs @ mq_contents mq'"
proof -
  have i: "mq_inv (unat (msg_size mq)) (mq, k)" using assms(1-3) by (simp add: mq_inv_def)
  from mqq.run_refines [OF i assms(4,5)] mqq.run_conserves [OF i assms(4,5)]
  show ?thesis by (auto simp: mq_inv_def word_eq_unat)
qed

definition demo_mq :: rt_messagequeue where
  "demo_mq = fst (snd (rt_mq_init 4 (replicate 16 0) 4 16 0 demo_rr))"

lemma demo_mq_rep: "mq_rep demo_mq [] [1, 0] {}" "mq_contents demo_mq = []" "unat (msg_size demo_mq) = 4"
  "unat (max_msgs demo_mq) = 2" "mq_addr demo_mq = 4" "mq_flag demo_mq = 0"
proof -
  obtain r mq k' where e: "rt_mq_init 4 (replicate 16 0) 4 16 0 demo_rr = (r, mq, k')"
    by (metis prod.exhaust)
  then have d: "demo_mq = mq" by (simp add: demo_mq_def)
  have "unat (16 :: u32) \<le> length (replicate 16 (0 :: u8))" by simp
  note i = rt_mq_init_rep [OF this e]
  have a: "rt_align 4 = 4" by (simp add: rt_align_def)
  have s: "msg_size mq = 4" using i a by simp
  have n: "max_msgs mq = 2" using i s by simp
  show "mq_rep demo_mq [] [1, 0] {}" using i n by (simp add: d upt_rec)
  show "mq_contents demo_mq = []" "unat (msg_size demo_mq) = 4" "unat (max_msgs demo_mq) = 2"
    "mq_addr demo_mq = 4" "mq_flag demo_mq = 0"
    using i s n by (simp_all add: d)
qed

theorem messagequeue_run_is_bounded_fifo_witness:
  "fst (fifo_run mq_enq mq_deq (demo_mq, demo_rr) [Deq, Enq [1, 2, 3, 4], Enq [5, 6, 7, 8], Enq [9, 9, 9, 9], Deq])
     = [Empty, Accepted, Accepted, Full, Got [1, 2, 3, 4]]"
proof -
  let ?es = "[Deq, Enq [1, 2, 3, 4], Enq [5, 6, 7, 8], Enq [9, 9, 9, 9 :: u8], Deq]"
  obtain rs mq k where r: "fifo_run mq_enq mq_deq (demo_mq, demo_rr) ?es = (rs, (mq, k))"
    by (metis prod.exhaust)
  have p: "mq_ok demo_mq" "current demo_rr \<noteq> None"
    "list_all (op_fits (\<lambda>b. length b = unat (msg_size demo_mq))) ?es"
    using mq_okI [OF demo_mq_rep(1)] by (simp_all add: demo_mq_rep demo_rr_def)
  from messagequeue_run_is_bounded_fifo [OF p(1) demo_rr_kinv p(2,3) r] r show ?thesis
    by (simp add: demo_mq_rep)
qed

text \<open>C10. Message blocks stay consistent when sends and receives interleave. Both leave their critical
  section to copy the message. Whatever other operations run in between, every block of the pool is at
  every moment in exactly one of the queue, the free list and the hands of one operation; the queue
  holds the accepted messages in the order in which they were linked (urgent ones in front); and a
  receiver copies out the message that was first when it took its block.\<close>

theorem messagequeue_interleavings:
  assumes "mq_rep mq0 [] fs0 {}" and "kinv k0" and "current k0 \<noteq> None"
    and "mq_step\<^sup>*\<^sup>* (mq0, k0, Map.empty, []) (mq, k, F, Q)"
  shows "(\<exists>fs. mq_rep mq (mq_slots mq) fs (dom F)
        \<and> unat (mq_entry mq) + length fs + card (dom F) = unat (max_msgs mq))
    \<and> list_all2 (\<lambda>d b. take (length b) d = b) (mq_contents mq) Q
    \<and> (\<forall>s b len. F s = Some (Taken b) \<longrightarrow>
        (\<exists>out. mq_copy_out s len mq = Some out \<and> take (length b) out = take (unat len) b))"
proof -
  have "mq_flights (mq0, k0, Map.empty, [])"
    using assms(1-3) by (intro mq_flightsI) simp_all
  with assms(4) have fl: "mq_flights (mq, k, F, Q)"
    by (induction rule: rtranclp_induct) (auto intro: mq_step_flights)
  then obtain qs fs where r: "mq_rep mq qs fs (dom F)" "list_all2 (holds_msg mq) qs Q"
    by (auto simp: mq_flights_def)
  have "\<exists>out. mq_copy_out s len mq = Some out \<and> take (length b) out = take (unat len) b"
    if "F s = Some (Taken b)" for s b len
  proof -
    have "holds_msg mq s b" using fl that by (auto simp: mq_flights_def dest!: spec)
    then have "take (length b) (take (unat len) (mq_data mq s)) = take (unat len) b"
      by (metis holds_msg_def min.commute take_take)
    moreover have "s < unat (max_msgs mq)" using mq_rep_held [OF r(1) domI [of F, OF that]] by blast
    ultimately show ?thesis using mq_copy_out_rep [OF r(1)] by blast
  qed
  moreover have "list_all2 (\<lambda>d b. take (length b) d = b) (mq_contents mq) Q"
    using r(2) mq_contents_rep [OF r(1)] by (simp add: list_all2_map1 list_all2_conv_all_nth holds_msg_def)
  ultimately show ?thesis using r(1) mq_rep_count [OF r(1)] mq_rep_slots [OF r(1)] by auto
qed

theorem messagequeue_interleavings_witness:
  "\<exists>mq. mq_step\<^sup>*\<^sup>* (demo_mq, demo_rr, Map.empty, []) (mq, demo_rr, [1 \<mapsto> Filling False [7]], [])
    \<and> unat (mq_entry mq) + 1 \<le> 2"
proof -
  obtain mq where r: "mq_reserve demo_mq = Some (1, mq)" "max_msgs mq = max_msgs demo_mq"
    using mq_reserve_rep [OF demo_mq_rep(1)] by auto
  have "mq_step (demo_mq, demo_rr, Map.empty, []) (mq, demo_rr, [1 \<mapsto> Filling False [7]], [])"
    using r(1) by (intro mq_step.reserve) (simp_all add: demo_mq_rep)
  then have s: "mq_step\<^sup>*\<^sup>* (demo_mq, demo_rr, Map.empty, []) (mq, demo_rr, [1 \<mapsto> Filling False [7]], [])"
    by (rule r_into_rtranclp)
  have c: "current demo_rr \<noteq> None" by (simp add: demo_rr_def)
  from messagequeue_interleavings [OF demo_mq_rep(1) demo_rr_kinv c s] s r(2) show ?thesis
    by (auto simp: demo_mq_rep)
qed

lemma mq_block_blocks:
  assumes k: "kinv k" and c: "current k = Some c" "runnable k c" "int_nest k = 0" and q: "wait_queue q"
    and f: "flag_ok flag" and t: "time \<noteq> 0x7fffffff"
  shows "\<exists>k'. ipc_block q c flag time (upd_thread c (\<lambda>x. x\<lparr>error := 0\<rparr>) k) = Some k' \<and> kinv k'
    \<and> tstat k' c = RT_THREAD_SUSPEND \<and> lists k' q = queued flag (prio k) c (lists k q)"
proof -
  let ?k1 = "upd_thread c (\<lambda>x. x\<lparr>error := 0\<rparr>) k"
  have k1: "kinv ?k1" by (rule kinv_set_error [OF k])
  have c1: "current ?k1 = Some c" "runnable ?k1 c" using c by (simp_all add: runnable_def tstat_def)
  have pr: "prio ?k1 u = prio k u" for u by simp
  from ipc_block_spec [OF k1 c1 q f t, unfolded pr] show ?thesis by auto
qed

lemma mq_reset:
  assumes "mq_ok mq" "kinv k" "current k \<noteq> None"
  shows "\<exists>mq' k'. rt_mq_control mq RT_IPC_CMD_RESET k = Some (0, mq', k') \<and> mq_ok mq' \<and> mq_contents mq' = []
    \<and> kinv k' \<and> lists k' (WaitQ (mq_addr mq)) = [] \<and> lists k' (SendQ (mq_addr mq)) = []
    \<and> (\<forall>u \<in> set (lists k (WaitQ (mq_addr mq))). runnable k' u \<and> error (threads k' u) = - RT_ERROR)"
proof -
  obtain qs fs where r: "mq_rep mq qs fs {}" "0 < unat (msg_size mq)" using assms(1) by (rule mq_okE)
  have "mq\<lparr>mq_entry := of_nat (length qs)\<rparr> = mq" using mq_rep_length [OF r(1)] by simp
  with mq_drain_spec [where mq = mq and qs = qs and fs = fs and H = "{}"] r(1) obtain m where
    m: "mq_drain mq = Some m" "mq_rep (m\<lparr>mq_entry := 0\<rparr>) [] (rev qs @ fs) {}" "same_queue mq m" by auto
  from rt_ipc_list_resume_all_spec [OF assms(2), of "WaitQ (mq_addr mq)"] obtain k1 where
    k1: "rt_ipc_list_resume_all (WaitQ (mq_addr mq)) k = Some k1" "kinv k1" "current k1 = current k"
    "lists k1 (WaitQ (mq_addr mq)) = []" "lists k1 (SendQ (mq_addr mq)) = lists k (SendQ (mq_addr mq))"
    "\<forall>u. runnable k1 u = (u \<in> set (lists k (WaitQ (mq_addr mq))) \<or> runnable k u)"
    "\<forall>u. error (threads k1 u) = (if u \<in> set (lists k (WaitQ (mq_addr mq))) then - 1 else error (threads k u))"
    by auto
  from rt_ipc_list_resume_all_spec [OF k1(2), of "SendQ (mq_addr mq)"] obtain k2 where
    k2: "rt_ipc_list_resume_all (SendQ (mq_addr mq)) k1 = Some k2" "kinv k2" "current k2 = current k1"
    "lists k2 (SendQ (mq_addr mq)) = []" "lists k2 (WaitQ (mq_addr mq)) = []"
    "\<forall>u. runnable k2 u = (u \<in> set (lists k1 (SendQ (mq_addr mq))) \<or> runnable k1 u)"
    "\<forall>u. error (threads k2 u) = (if u \<in> set (lists k1 (SendQ (mq_addr mq))) then - 1 else error (threads k1 u))"
    using k1(4) by auto
  obtain c where c: "current k2 = Some c" using assms(3) k1(3) k2(3) by auto
  obtain k3 n where k3: "rt_schedule k2 = Some k3" "kinv k3" "sched_rel k2 k3"
    using rt_schedule_spec [OF k2(2) c] by blast
  note rel = sched_relD [OF k3(3)]
  have "rt_mq_control mq RT_IPC_CMD_RESET k = Some (0, m\<lparr>mq_entry := 0\<rparr>, k3)"
    using k1(1) k2(1) m(1) k3(1) by (simp add: rt_mq_control_def mq_resume_all_def)
  moreover have "mq_ok (m\<lparr>mq_entry := 0\<rparr>)"
    using r(2) m(3) by (intro mq_okI [OF m(2)]) (simp add: same_queue_def)
  moreover have "runnable k3 u \<and> error (threads k3 u) = - 1" if "u \<in> set (lists k (WaitQ (mq_addr mq)))" for u
    using that k1(6,7) k2(6,7) rel(6,10) by auto
  ultimately show ?thesis
    using mq_contents_rep [OF m(2)] k3(2) k2(4,5) rel(13,14) by auto
qed

lemma mq_full_operations:
  assumes "mq_ok mq" and "kinv k" and "current k = Some c" and "runnable k c" and "int_nest k = 0"
    and "flag_ok (mq_flag mq)" and "time \<noteq> 0" and "time \<noteq> 0x7fffffff" and "len \<noteq> 0"
    and "len \<le> ucast (msg_size mq)" and "length (mq_contents mq) = unat (max_msgs mq)"
  shows "rt_mq_send mq buf len k = Some (Returned (- RT_EFULL), mq, k)
    \<and> rt_mq_urgent mq buf len k = Some (Returned (- RT_EFULL), mq, k)
    \<and> (\<exists>k'. rt_mq_send_wait_enter mq buf len time k = Some (Blocked, mq, k') \<and> kinv k'
        \<and> tstat k' c = RT_THREAD_SUSPEND
        \<and> lists k' (SendQ (mq_addr mq)) = queued (mq_flag mq) (prio k) c (lists k (SendQ (mq_addr mq))))"
proof -
  obtain qs fs where r: "mq_rep mq qs fs {}" "mq_contents mq = map (mq_data mq) qs"
    "length qs + length fs = unat (max_msgs mq)" using assms(1) by (rule mq_okE)
  then have "fs = []" using assms(11) by (cases fs) auto
  then have f: "q_free mq = None" using mq_rep_free [OF r(1)] by simp
  have l: "\<not> ucast (msg_size mq) < len" using assms(10) by (simp only: not_less)
  have ctx: "in_thread_context (upd_thread c g k)" for g
    using assms(3,5) by (simp add: in_thread_context_def)
  have "wait_queue (SendQ (mq_addr mq))" by simp
  from mq_block_blocks [OF assms(2-5) this assms(6,8)] show ?thesis
    using f l assms(3,7,9) ctx
    by (auto simp: rt_mq_send_def rt_mq_send_wait_enter_def mq_send_pass_def rt_mq_urgent_def mq_reserve_def)
qed

lemma mq_urgent_first:
  assumes "mq_ok mq" and "kinv k" and "current k \<noteq> None" and "len \<noteq> 0" and "unat len \<le> length buf"
    and "len \<le> ucast (msg_size mq)" and "length (mq_contents mq) < unat (max_msgs mq)"
  shows "\<exists>m mq' k'. rt_mq_urgent mq buf len k = Some (Returned 0, mq', k') \<and> mq_ok mq'
    \<and> mq_contents mq' = m # mq_contents mq \<and> take (unat len) m = take (unat len) buf"
proof -
  obtain qs fs where r: "mq_rep mq qs fs {}" "mq_contents mq = map (mq_data mq) qs"
    "length qs + length fs = unat (max_msgs mq)" "0 < unat (msg_size mq)" using assms(1) by (rule mq_okE)
  obtain s fs' where fs: "fs = s # fs'" using r(2,3) assms(7) by (cases fs) auto
  from rt_mq_urgent_spec [OF r(1) [unfolded fs] assms(2-4,6,5)] obtain mq' k' where
    u: "rt_mq_urgent mq buf len k = Some (Returned 0, mq', k')" "mq_rep mq' (s # qs) fs' {}"
    "same_queue mq mq'" "take (unat len) (mq_data mq' s) = take (unat len) buf"
    "\<forall>t. t \<noteq> s \<longrightarrow> mq_data mq' t = mq_data mq t" by auto
  have "s \<notin> set qs" using u(2) by (simp add: mq_rep_def)
  then have "mq_contents mq' = mq_data mq' s # mq_contents mq"
    using mq_contents_rep [OF u(2)] r(2) u(5) by (auto cong: map_cong)
  moreover have "mq_ok mq'" using r(4) u(3) by (intro mq_okI [OF u(2)]) (simp add: same_queue_def)
  ultimately show ?thesis using u(1,4) by blast
qed

lemma mq_empty_operations:
  assumes "mq_ok mq" and "kinv k" and "current k = Some c" and "runnable k c" and "int_nest k = 0"
    and "flag_ok (mq_flag mq)" and "time \<noteq> 0" and "time \<noteq> 0x7fffffff" and "len \<noteq> 0" and "mq_contents mq = []"
  shows "rt_mq_recv_enter mq len 0 k = Some (Returned (- RT_ETIMEOUT), None, mq, k)
    \<and> (\<exists>k'. rt_mq_recv_enter mq len time k = Some (Blocked, None, mq, k') \<and> kinv k'
        \<and> tstat k' c = RT_THREAD_SUSPEND
        \<and> lists k' (WaitQ (mq_addr mq)) = queued (mq_flag mq) (prio k) c (lists k (WaitQ (mq_addr mq))))"
proof -
  obtain qs fs where r: "mq_rep mq qs fs {}" "mq_contents mq = map (mq_data mq) qs" using assms(1) by (rule mq_okE)
  then have e: "mq_entry mq = 0" using mq_rep_entry [OF r(1)] assms(10) by simp
  have ctx: "in_thread_context k" using assms(3,5) by (simp add: in_thread_context_def)
  have "wait_queue (WaitQ (mq_addr mq))" by simp
  from mq_block_blocks [OF assms(2-5) this assms(6,8)] show ?thesis
    using e assms(3,7,9) ctx by (auto simp: rt_mq_recv_enter_def mq_recv_pass_def)
qed

text \<open>What each message queue operation does on its other branches. \<open>rt_mq_init\<close> puts every block
  that fits the pool on the free list. A message longer than the block size is refused with
  \<open>-RT_ERROR\<close>. On a full queue an urgent or non-waiting send fails with \<open>-RT_EFULL\<close> and a waiting one
  suspends the caller with the senders; on an empty queue a waiting receive suspends it with the
  receivers. An urgent message goes in front of all others. A reset wakes every waiter with
  \<open>-RT_ERROR\<close>, empties the queue and frees every block.\<close>

theorem messagequeue_operations:
  assumes "mq_ok mq" and "kinv k" and "current k = Some c" and "runnable k c" and "int_nest k = 0"
    and "flag_ok (mq_flag mq)" and "time \<noteq> 0" and "time \<noteq> 0x7fffffff"
    and "len \<noteq> 0" and "unat len \<le> length buf" and "unat pool_size \<le> length pool"
  shows "(\<exists>mq' k'. rt_mq_init addr pool msize pool_size flag k = (0, mq', k') \<and> mq_contents mq' = []
      \<and> mq_rep mq' [] (rev [0..<unat (max_msgs mq')]) {})
    \<and> (ucast (msg_size mq) < len \<longrightarrow> rt_mq_send_wait_enter mq buf len time k = Some (Returned (- RT_ERROR), mq, k)
        \<and> rt_mq_urgent mq buf len k = Some (Returned (- RT_ERROR), mq, k))
    \<and> (len \<le> ucast (msg_size mq) \<and> length (mq_contents mq) = unat (max_msgs mq) \<longrightarrow>
        rt_mq_send mq buf len k = Some (Returned (- RT_EFULL), mq, k)
        \<and> rt_mq_urgent mq buf len k = Some (Returned (- RT_EFULL), mq, k)
        \<and> (\<exists>k'. rt_mq_send_wait_enter mq buf len time k = Some (Blocked, mq, k') \<and> kinv k'
            \<and> tstat k' c = RT_THREAD_SUSPEND
            \<and> lists k' (SendQ (mq_addr mq)) = queued (mq_flag mq) (prio k) c (lists k (SendQ (mq_addr mq)))))
    \<and> (len \<le> ucast (msg_size mq) \<and> length (mq_contents mq) < unat (max_msgs mq) \<longrightarrow>
        (\<exists>m mq' k'. rt_mq_urgent mq buf len k = Some (Returned 0, mq', k') \<and> mq_ok mq'
            \<and> mq_contents mq' = m # mq_contents mq \<and> take (unat len) m = take (unat len) buf))
    \<and> (mq_contents mq = [] \<longrightarrow>
        rt_mq_recv_enter mq len 0 k = Some (Returned (- RT_ETIMEOUT), None, mq, k)
        \<and> (\<exists>k'. rt_mq_recv_enter mq len time k = Some (Blocked, None, mq, k') \<and> kinv k'
            \<and> tstat k' c = RT_THREAD_SUSPEND
            \<and> lists k' (WaitQ (mq_addr mq)) = queued (mq_flag mq) (prio k) c (lists k (WaitQ (mq_addr mq)))))
    \<and> (\<exists>mq' k'. rt_mq_control mq RT_IPC_CMD_RESET k = Some (0, mq', k') \<and> mq_ok mq' \<and> mq_contents mq' = []
        \<and> (\<forall>u \<in> set (lists k (WaitQ (mq_addr mq))). runnable k' u \<and> error (threads k' u) = - RT_ERROR))"
proof -
  have cn: "current k \<noteq> None" using assms(3) by simp
  have init: "\<exists>mq' k'. rt_mq_init addr pool msize pool_size flag k = (0, mq', k') \<and> mq_contents mq' = []
      \<and> mq_rep mq' [] (rev [0..<unat (max_msgs mq')]) {}"
    using rt_mq_init_rep [OF assms(11)] by (metis prod.exhaust)
  show ?thesis
    using init mq_full_operations [OF assms(1-9)] mq_urgent_first [OF assms(1,2) cn assms(9,10)]
      mq_empty_operations [OF assms(1-9)] mq_reset [OF assms(1,2) cn] assms(9)
    by (auto simp only: rt_mq_send_wait_enter_def rt_mq_urgent_def if_False if_True)
qed

theorem messagequeue_operations_witness:
  "rt_mq_urgent demo_mq (replicate 9 0) 9 demo_rr = Some (Returned (- 1), demo_mq, demo_rr)
    \<and> (\<exists>m mq k. rt_mq_urgent demo_mq [7, 8] 2 demo_rr = Some (Returned 0, mq, k) \<and> mq_contents mq = [m]
        \<and> take 2 m = [7, 8])"
proof -
  have u: "msg_size demo_mq = 4" using demo_mq_rep(3) by (simp add: word_eq_unat)
  have p: "mq_ok demo_mq" "current demo_rr = Some 1" "runnable demo_rr 1" "int_nest demo_rr = 0"
    "flag_ok (mq_flag demo_mq)" "(20 :: 32 word) \<noteq> 0" "(20 :: 32 word) \<noteq> 0x7fffffff"
    using mq_okI [OF demo_mq_rep(1)]
    by (simp_all add: demo_mq_rep demo_rr_def demo_kernel_def demo_thread_def runnable_def tstat_def flag_ok_def)
  note ops = messagequeue_operations [OF p(1) demo_rr_kinv p(2-7), where pool = "[] :: u8 list" and pool_size = 0]
  from ops [of 9 "replicate 9 0"] have "rt_mq_urgent demo_mq (replicate 9 0) 9 demo_rr = Some (Returned (- 1), demo_mq, demo_rr)"
    by (simp add: u)
  moreover from ops [of 2 "[7, 8]"] have "\<exists>m mq k. rt_mq_urgent demo_mq [7, 8] 2 demo_rr = Some (Returned 0, mq, k)
      \<and> mq_ok mq \<and> mq_contents mq = [m] \<and> take 2 m = [7, 8]"
    by (simp add: u demo_mq_rep)
  ultimately show ?thesis by blast
qed

end
