(* ===== verification/MemPool.thy ===== *)
theory MemPool
  imports Linked Block_Allocator Ipc_Base
begin

text \<open>
  \<open>mempool.c\<close>: pools of fixed-size blocks. Each block is preceded by one word, which links it into the
  pool's free list while it is free and points to the pool while it is allocated. The words at the
  heads of the blocks of all pools are one memory (\<open>mem\<close>), the pool objects are found by their
  addresses (\<open>pools\<close>), so that \<open>rt_mp_free\<close> finds the pool of a block as the code does. A store
  outside the memory given to \<open>rt_mp_init\<close> is \<open>None\<close>.
\<close>

unbundle bit_operations_syntax

section \<open>Operations\<close>

record rt_mempool =
  start_address :: u32
  mp_size :: u32
  block_size :: u32
  block_list :: u32
  block_total_count :: u32
  block_free_count :: u32

record mp_state =
  pools :: "u32 \<Rightarrow> rt_mempool"
  mem :: "u32 \<Rightarrow> u32"

text \<open>What \<open>rt_mp_alloc\<close> comes back with: a pointer (0 is \<open>RT_NULL\<close>), or the caller is suspended.\<close>

datatype mp_outcome = Block u32 | Suspended

definition mp_queue :: "u32 \<Rightarrow> qhead" where
  "mp_queue p = WaitQ (unat p)"

definition mp_store :: "u32 \<Rightarrow> u32 \<Rightarrow> u32 \<Rightarrow> u32 \<Rightarrow> (u32 \<Rightarrow> u32) \<Rightarrow> (u32 \<Rightarrow> u32) option" where
  "mp_store start sz a v m =
     (if unat start \<le> unat a \<and> unat a + 4 \<le> unat start + unat sz then Some (m(a := v)) else None)"

text \<open>The first \<open>n\<close> blocks, each linked to the next one.\<close>

primrec mp_link_blocks :: "u32 \<Rightarrow> u32 \<Rightarrow> u32 \<Rightarrow> nat \<Rightarrow> (u32 \<Rightarrow> u32) \<Rightarrow> (u32 \<Rightarrow> u32) option" where
  "mp_link_blocks start sz step 0 m = Some m"
| "mp_link_blocks start sz step (Suc i) m = do {
     m' \<leftarrow> mp_link_blocks start sz step i m;
     mp_store start sz (start + of_nat i * step) (start + of_nat (Suc i) * step) m'
   }"

definition rt_mp_init :: "u32 \<Rightarrow> u32 \<Rightarrow> u32 \<Rightarrow> u32 \<Rightarrow> mp_state \<Rightarrow> kernel \<Rightarrow> (int \<times> mp_state \<times> kernel) option" where
  "rt_mp_init p start sz bsize S k =
     (let bs = rt_align bsize; asz = rt_align_down sz; step = bs + 4 in
      if start = 0 \<or> sz = 0 \<or> bsize = 0 \<or> step = 0 then None
      else do {
        let n = asz div step;
        m \<leftarrow> mp_link_blocks start sz step (unat n) (mem S);
        m' \<leftarrow> mp_store start sz (start + (n - 1) * step) 0 m;
        Some (RT_EOK,
          S\<lparr>mem := m', pools := (pools S)(p := \<lparr>start_address = start, mp_size = asz, block_size = bs,
             block_list = start, block_total_count = n, block_free_count = n\<rparr>)\<rparr>,
          k\<lparr>lists := (lists k)(mp_queue p := [])\<rparr>)
      })"

text \<open>Detaching wakes the waiters like the other IPC objects do.\<close>

definition rt_mp_detach :: "u32 \<Rightarrow> kernel \<Rightarrow> (int \<times> kernel) option" where
  "rt_mp_detach p k = map_option (Pair RT_EOK) (rt_ipc_list_resume_all (mp_queue p) k)"

definition rt_mp_delete :: "u32 \<Rightarrow> kernel \<Rightarrow> (int \<times> kernel) option" where
  "rt_mp_delete p k =
     (if not_in_interrupt k then map_option (Pair RT_EOK) (rt_ipc_list_resume_all (mp_queue p) k) else None)"

text \<open>\<open>rt_set_errno\<close>; the global error number used outside threads is not modelled.\<close>

definition rt_set_errno :: "int \<Rightarrow> kernel \<Rightarrow> kernel" where
  "rt_set_errno e k =
     (if int_nest k \<noteq> 0 then k
      else case current k of None \<Rightarrow> k | Some t \<Rightarrow> upd_thread t (\<lambda>x. x\<lparr>error := e\<rparr>) k)"

text \<open>The end of \<open>rt_mp_alloc\<close>, with a block on the free list.\<close>

definition mp_take :: "u32 \<Rightarrow> mp_state \<Rightarrow> (u32 \<times> mp_state) option" where
  "mp_take p S =
     (let mp = pools S p; a = block_list mp in
      if a = 0 then None
      else Some (a + 4,
        S\<lparr>pools := (pools S)(p := mp\<lparr>block_free_count := block_free_count mp - 1, block_list := mem S a\<rparr>),
          mem := (mem S)(a := p)\<rparr>))"

definition mp_wait :: "u32 \<Rightarrow> 32 word \<Rightarrow> kernel \<Rightarrow> kernel option" where
  "mp_wait p time k = do {
     t \<leftarrow> current k;
     (_, k1) \<leftarrow> rt_thread_suspend t (upd_thread t (\<lambda>x. x\<lparr>error := RT_EOK\<rparr>) k);
     let k2 = rt_list_insert_after (mp_queue p) t k1;
     k3 \<leftarrow> (if 0 < sint time
            then (let (_, _, ka) = rt_timer_control (ThreadTimer t) RT_TIMER_CTRL_SET_TIME time k2 in
                  map_option snd (rt_timer_start (ThreadTimer t) ka))
            else Some k2);
     rt_schedule k3
   }"

definition rt_mp_alloc_enter :: "u32 \<Rightarrow> 32 word \<Rightarrow> mp_state \<Rightarrow> kernel \<Rightarrow> (mp_outcome \<times> mp_state \<times> kernel) option" where
  "rt_mp_alloc_enter p time S k =
     (if block_free_count (pools S p) = 0 then
        (if time = 0 then Some (Block 0, S, rt_set_errno (- RT_ETIMEOUT) k)
         else if not_in_interrupt k then map_option (\<lambda>k'. (Suspended, S, k')) (mp_wait p time k)
         else None)
      else map_option (\<lambda>(b, S'). (Block b, S', k)) (mp_take p S))"

definition rt_mp_alloc_resume ::
  "tid \<Rightarrow> u32 \<Rightarrow> 32 word \<Rightarrow> u32 \<Rightarrow> mp_state \<Rightarrow> kernel \<Rightarrow> (mp_outcome \<times> mp_state \<times> kernel) option" where
  "rt_mp_alloc_resume t p time before_sleep S k =
     (if error (threads k t) \<noteq> RT_EOK then Some (Block 0, S, k)
      else rt_mp_alloc_enter p (timeout_left time before_sleep k) S k)"

definition rt_mp_free :: "u32 \<Rightarrow> mp_state \<Rightarrow> kernel \<Rightarrow> (mp_state \<times> kernel) option" where
  "rt_mp_free b S k =
     (if b = 0 then Some (S, k)
      else
        (let a = b - 4; p = mem S a; mp = pools S p;
             S' = S\<lparr>pools := (pools S)(p := mp\<lparr>block_free_count := block_free_count mp + 1, block_list := a\<rparr>),
                    mem := (mem S)(a := block_list mp)\<rparr> in
         case lists k (mp_queue p) of
           [] \<Rightarrow> Some (S', k)
         | t # _ \<Rightarrow> map_option (Pair S')
             (rt_schedule (snd (rt_thread_resume t (upd_thread t (\<lambda>x. x\<lparr>error := RT_EOK\<rparr>) k))))))"

section \<open>Invariant\<close>

definition ptr :: "u32 \<Rightarrow> u32 option" where
  "ptr a = (if a = 0 then None else Some a)"

definition mp_block :: "rt_mempool \<Rightarrow> nat \<Rightarrow> u32" where
  "mp_block mp i = start_address mp + of_nat i * (block_size mp + 4)"

definition mp_step :: "rt_mempool \<Rightarrow> nat" where
  "mp_step mp = unat (block_size mp) + 4"

definition mp_blocks :: "rt_mempool \<Rightarrow> u32 set" where
  "mp_blocks mp = mp_block mp ` {..<unat (block_total_count mp)}"

text \<open>The pool lies above address 0 and does not wrap round the address space.\<close>

definition pool_shape :: "rt_mempool \<Rightarrow> bool" where
  "pool_shape mp \<longleftrightarrow> start_address mp \<noteq> 0 \<and> block_size mp \<noteq> 0
     \<and> unat (start_address mp) + unat (block_total_count mp) * mp_step mp \<le> 2 ^ 32"

definition mp_area :: "rt_mempool \<Rightarrow> nat set" where
  "mp_area mp = {unat (start_address mp) ..< unat (start_address mp) + unat (block_total_count mp) * mp_step mp}"

definition pool_rep :: "mp_state \<Rightarrow> u32 \<Rightarrow> u32 list \<Rightarrow> bool" where
  "pool_rep S p fs \<longleftrightarrow> (let mp = pools S p in
     pool_shape mp \<and> chain (\<lambda>a. ptr (mem S a)) (ptr (block_list mp)) fs \<and> distinct fs
     \<and> set fs \<subseteq> mp_blocks mp \<and> length fs = unat (block_free_count mp)
     \<and> (\<forall>a \<in> mp_blocks mp - set fs. mem S a = p))"

definition mp_free_blocks :: "mp_state \<Rightarrow> u32 \<Rightarrow> u32 list" where
  "mp_free_blocks S p =
     walk (unat (block_free_count (pools S p))) (\<lambda>a. ptr (mem S a)) (ptr (block_list (pools S p)))"

definition mp_taken :: "mp_state \<Rightarrow> u32 \<Rightarrow> u32 set" where
  "mp_taken S p = mp_blocks (pools S p) - set (mp_free_blocks S p)"

definition mp_inv :: "u32 set \<Rightarrow> mp_state \<Rightarrow> bool" where
  "mp_inv P S \<longleftrightarrow> (\<forall>p \<in> P. \<exists>fs. pool_rep S p fs)
     \<and> (\<forall>p \<in> P. \<forall>q \<in> P. p \<noteq> q \<longrightarrow> mp_area (pools S p) \<inter> mp_area (pools S q) = {})"

lemma pool_rep_free: "pool_rep S p fs \<Longrightarrow> mp_free_blocks S p = fs"
  by (auto simp: pool_rep_def mp_free_blocks_def Let_def dest: chain_walk)

lemma unat_mp_block:
  assumes "pool_shape mp" "i < unat (block_total_count mp)"
  shows "unat (mp_block mp i) = unat (start_address mp) + i * mp_step mp"
proof -
  have "Suc i * mp_step mp \<le> unat (block_total_count mp) * mp_step mp"
    using assms(2) by (intro mult_le_mono1) simp
  then have "unat (start_address mp) + i * mp_step mp < 2 ^ LENGTH(32)"
    using assms(1) by (simp add: pool_shape_def mp_step_def)
  then have "unat (of_nat (unat (start_address mp) + i * mp_step mp) :: u32)
      = unat (start_address mp) + i * mp_step mp" by (rule unat_word_of_nat)
  moreover have "mp_block mp i = of_nat (unat (start_address mp) + i * mp_step mp)"
    by (simp add: mp_block_def mp_step_def)
  ultimately show ?thesis by simp
qed

lemma mp_block_in_area:
  assumes s: "pool_shape mp" and a: "a \<in> mp_blocks mp"
  shows "{unat a ..< unat a + mp_step mp} \<subseteq> mp_area mp" "a \<noteq> 0"
    "unat a + mp_step mp \<le> 2 ^ 32"
proof -
  obtain i where i: "i < unat (block_total_count mp)" "a = mp_block mp i" using a by (auto simp: mp_blocks_def)
  then have u: "unat a = unat (start_address mp) + i * mp_step mp" using unat_mp_block [OF s] by simp
  have "Suc i * mp_step mp \<le> unat (block_total_count mp) * mp_step mp"
    using i(1) by (intro mult_le_mono1) simp
  then have "unat a + mp_step mp \<le> unat (start_address mp) + unat (block_total_count mp) * mp_step mp"
    using u by simp
  then show "{unat a ..< unat a + mp_step mp} \<subseteq> mp_area mp" "unat a + mp_step mp \<le> 2 ^ 32"
    using u s by (auto simp: mp_area_def pool_shape_def)
  have "0 < unat (start_address mp)" using s by (simp add: pool_shape_def unat_gt_0)
  then show "a \<noteq> 0" using u by (metis add_gr_0 less_irrefl unat_0)
qed

text \<open>Two blocks of one pool do not overlap.\<close>

lemma mp_blocks_apart:
  assumes s: "pool_shape mp" and a: "a \<in> mp_blocks mp" "b \<in> mp_blocks mp" "a \<noteq> b"
  shows "{unat a ..< unat a + mp_step mp} \<inter> {unat b ..< unat b + mp_step mp} = {}"
proof -
  obtain i j where i: "i < unat (block_total_count mp)" "a = mp_block mp i"
    and j: "j < unat (block_total_count mp)" "b = mp_block mp j" using a by (auto simp: mp_blocks_def)
  have u: "unat a = unat (start_address mp) + i * mp_step mp" "unat b = unat (start_address mp) + j * mp_step mp"
    using i j unat_mp_block [OF s] by simp_all
  have "i \<noteq> j" using i j a(3) by auto
  then have "Suc i * mp_step mp \<le> j * mp_step mp \<or> Suc j * mp_step mp \<le> i * mp_step mp"
    by (metis Suc_leI linorder_neqE_nat mult_le_mono1)
  then show ?thesis using u by auto
qed

lemma pool_rep_area: "pool_rep S p fs \<Longrightarrow> a \<in> mp_blocks (pools S p) \<Longrightarrow> unat a \<in> mp_area (pools S p)"
  using mp_block_in_area(1) [of "pools S p" a] by (auto simp: pool_rep_def Let_def mp_step_def)

text \<open>Blocks of different pools are different.\<close>

lemma mp_other_pool:
  "mp_inv P S \<Longrightarrow> p \<in> P \<Longrightarrow> q \<in> P \<Longrightarrow> p \<noteq> q \<Longrightarrow> a \<in> mp_blocks (pools S p) \<Longrightarrow> a \<notin> mp_blocks (pools S q)"
  using pool_rep_area [of S p _ a] pool_rep_area [of S q _ a] unfolding mp_inv_def by blast

text \<open>A store to a block of one pool, and a change of that pool's fields, leave the others alone.\<close>

lemma pool_rep_other:
  assumes "pool_rep S q fs" "a \<notin> mp_blocks (pools S q)" "q \<noteq> p"
  shows "pool_rep (S\<lparr>pools := (pools S)(p := mp'), mem := (mem S)(a := v)\<rparr>) q fs"
proof -
  have "chain (\<lambda>x. ptr (((mem S)(a := v)) x)) (ptr (block_list (pools S q))) fs
      = chain (\<lambda>x. ptr (mem S x)) (ptr (block_list (pools S q))) fs"
    using assms by (intro chain_cong) (auto simp: pool_rep_def Let_def)
  then show ?thesis using assms unfolding pool_rep_def Let_def by auto
qed

lemma mp_inv_update:
  assumes i: "mp_inv P S" and p: "p \<in> P" and a: "a \<in> mp_blocks (pools S p)"
    and s': "S' = S\<lparr>pools := (pools S)(p := mp'), mem := (mem S)(a := v)\<rparr>" and r: "pool_rep S' p fs"
    and f: "start_address mp' = start_address (pools S p)" "block_total_count mp' = block_total_count (pools S p)"
      "block_size mp' = block_size (pools S p)"
  shows "mp_inv P S'" "\<And>q. q \<in> P \<Longrightarrow> q \<noteq> p \<Longrightarrow> mp_taken S' q = mp_taken S q"
    "\<And>q. mp_step (pools S' q) = mp_step (pools S q)"
proof -
  have o: "pool_rep S' q gs" if "pool_rep S q gs" "q \<in> P" "q \<noteq> p" for q gs
    unfolding s' using mp_other_pool [OF i p that(2) _ a] that by (intro pool_rep_other) auto
  have ar: "mp_area (pools S' q) = mp_area (pools S q)" "mp_step (pools S' q) = mp_step (pools S q)" for q
    using f by (simp_all add: s' mp_area_def mp_step_def)
  show "mp_inv P S'"
    using i o r unfolding mp_inv_def ar by metis
  show "mp_step (pools S' q) = mp_step (pools S q)" for q by (rule ar(2))
  show "mp_taken S' q = mp_taken S q" if q: "q \<in> P" "q \<noteq> p" for q
  proof -
    obtain gs where g: "pool_rep S q gs" using i q(1) unfolding mp_inv_def by blast
    then show ?thesis
      using pool_rep_free [OF g] pool_rep_free [OF o [OF g q]] q(2) by (simp add: mp_taken_def s')
  qed
qed

section \<open>Taking and returning a block\<close>

lemma mp_take_rep:
  assumes r: "pool_rep S p (a # fs)"
  shows "\<exists>S'. mp_take p S = Some (a + 4, S') \<and> pool_rep S' p fs \<and> a \<in> mp_blocks (pools S p) - set fs
    \<and> S' = S\<lparr>pools := (pools S)(p := (pools S p)\<lparr>block_free_count := block_free_count (pools S p) - 1,
        block_list := mem S a\<rparr>), mem := (mem S)(a := p)\<rparr>"
proof -
  have l: "block_list (pools S p) = a" "a \<noteq> 0" "chain (\<lambda>x. ptr (mem S x)) (ptr (mem S a)) fs"
    using r by (auto simp: pool_rep_def Let_def ptr_def split: if_splits)
  have c: "unat (block_free_count (pools S p) - 1) = length fs"
  proof -
    have "unat (block_free_count (pools S p)) = Suc (length fs)" using r by (simp add: pool_rep_def Let_def)
    moreover from this have "block_free_count (pools S p) \<noteq> 0" by (metis nat.distinct(1) unat_0)
    then have "unat (block_free_count (pools S p) - 1) = unat (block_free_count (pools S p)) - 1"
      by (rule unat_minus_one)
    ultimately show ?thesis by simp
  qed
  have a: "a \<notin> set fs" "a \<in> mp_blocks (pools S p)" using r by (auto simp: pool_rep_def Let_def)
  have "chain (\<lambda>x. ptr (((mem S)(a := p)) x)) (ptr (mem S a)) fs"
    using l(3) a(1) by (subst chain_cong [where g = "\<lambda>x. ptr (mem S x)"]) auto
  then show ?thesis
    using r l a c by (auto simp: mp_take_def Let_def pool_rep_def mp_blocks_def mp_block_def pool_shape_def mp_step_def)
qed

lemma mp_put_rep:
  assumes r: "pool_rep S p fs" and a: "a \<in> mp_blocks (pools S p) - set fs"
    and s': "S' = S\<lparr>pools := (pools S)(p := (pools S p)\<lparr>block_free_count := block_free_count (pools S p) + 1,
        block_list := a\<rparr>), mem := (mem S)(a := block_list (pools S p))\<rparr>"
  shows "pool_rep S' p (a # fs)"
proof -
  let ?mp = "pools S p"
  have sh: "pool_shape ?mp" and d: "distinct fs" "set fs \<subseteq> mp_blocks ?mp" "length fs = unat (block_free_count ?mp)"
    using r by (simp_all add: pool_rep_def Let_def)
  have "card (mp_blocks ?mp) \<le> unat (block_total_count ?mp)"
    using card_image_le [of "{..<unat (block_total_count ?mp)}" "mp_block ?mp"] by (simp add: mp_blocks_def)
  moreover have "card (insert a (set fs)) \<le> card (mp_blocks ?mp)"
    using a d(2) by (intro card_mono) (auto simp: mp_blocks_def)
  moreover have "card (insert a (set fs)) = Suc (length fs)" using a distinct_card [OF d(1)] by simp
  ultimately have "Suc (length fs) < 2 ^ 32"
    using unat_u32 [of "block_total_count ?mp"] by (simp add: le_less_trans)
  then have c: "unat (block_free_count ?mp + 1) = Suc (length fs)" using d(3) by (simp add: unat_word_ariths)
  have "chain (\<lambda>x. ptr (((mem S)(a := block_list ?mp)) x)) (ptr (block_list ?mp)) fs"
    using r a by (subst chain_cong [where g = "\<lambda>x. ptr (mem S x)"]) (auto simp: pool_rep_def Let_def)
  moreover have "a \<noteq> 0" using mp_block_in_area(2) [OF sh] a by blast
  ultimately show ?thesis
    using r a c by (auto simp: s' Let_def pool_rep_def mp_blocks_def mp_block_def pool_shape_def mp_step_def ptr_def)
qed

section \<open>The pools as an allocator\<close>

definition mp_live :: "u32 set \<Rightarrow> mp_state \<Rightarrow> u32 set" where
  "mp_live P S = (\<lambda>a. a + 4) ` (\<Union>p \<in> P. mp_taken S p)"

definition mp_region :: "mp_state \<Rightarrow> u32 \<Rightarrow> nat set" where
  "mp_region S b = {unat b ..< unat b + unat (block_size (pools S (mem S (b - 4))))}"

definition mp_alloc_now :: "mp_state \<times> kernel \<Rightarrow> u32 \<Rightarrow> (u32 \<times> mp_state \<times> kernel) option" where
  "mp_alloc_now = (\<lambda>(S, k) p. case rt_mp_alloc_enter p 0 S k of
     Some (Block b, S', k') \<Rightarrow> (if b = 0 then None else Some (b, S', k')) | _ \<Rightarrow> None)"

definition mp_free_now :: "mp_state \<times> kernel \<Rightarrow> u32 \<Rightarrow> (mp_state \<times> kernel) option" where
  "mp_free_now = (\<lambda>(S, k) b. rt_mp_free b S k)"

definition mp_sys :: "u32 set \<Rightarrow> mp_state \<times> kernel \<Rightarrow> bool" where
  "mp_sys P = (\<lambda>(S, k). mp_inv P S \<and> kinv k \<and> current k \<noteq> None)"

lemma mp_taken_rep: "pool_rep S p fs \<Longrightarrow> mp_taken S p = mp_blocks (pools S p) - set fs"
  by (simp add: mp_taken_def pool_rep_free)

lemma mp_taken_owner:
  assumes "mp_inv P S" "p \<in> P" "a \<in> mp_taken S p"
  shows "mem S a = p" "a \<in> mp_blocks (pools S p)" "a + 4 \<noteq> 0" "unat (a + 4) = unat a + 4"
proof -
  obtain fs where r: "pool_rep S p fs" using assms(1,2) unfolding mp_inv_def by blast
  then show m: "mem S a = p" "a \<in> mp_blocks (pools S p)"
    using assms(3) mp_taken_rep [OF r] by (auto simp: pool_rep_def Let_def)
  have sh: "pool_shape (pools S p)" using r by (simp add: pool_rep_def Let_def)
  then have "0 < unat (block_size (pools S p))" by (simp add: pool_shape_def unat_gt_0)
  then have "unat a + 4 < 2 ^ 32"
    using mp_block_in_area(3) [OF sh m(2)] by (simp add: mp_step_def)
  then show u: "unat (a + 4) = unat a + 4" by (simp add: unat_word_ariths)
  then show "a + 4 \<noteq> 0" by (metis add_is_0 unat_0 zero_neq_numeral)
qed

lemma mp_region_eq:
  assumes "mp_inv P S" "p \<in> P" "a \<in> mp_taken S p"
  shows "mp_region S (a + 4) = {unat a + 4 ..< unat a + mp_step (pools S p)}"
  using mp_taken_owner [OF assms] by (simp add: mp_region_def mp_step_def add.commute add.left_commute)

lemma mp_regions_apart:
  assumes i: "mp_inv P S"
  shows "apart (mp_region S) (mp_live P S)"
  unfolding apart_def mp_live_def
proof (intro ballI impI)
  fix b c
  assume "b \<in> (\<lambda>a. a + 4) ` (\<Union>p \<in> P. mp_taken S p)" "c \<in> (\<lambda>a. a + 4) ` (\<Union>p \<in> P. mp_taken S p)" "b \<noteq> c"
  then obtain p q x y where b: "p \<in> P" "x \<in> mp_taken S p" "b = x + 4"
    and c: "q \<in> P" "y \<in> mp_taken S q" "c = y + 4" and n: "x \<noteq> y" by auto
  have sh: "pool_shape (pools S r)" if "r \<in> P" for r
    using i that by (auto simp: mp_inv_def pool_rep_def Let_def)
  note x = mp_taken_owner(2) [OF i b(1,2)] and y = mp_taken_owner(2) [OF i c(1,2)]
  have "{unat x ..< unat x + mp_step (pools S p)} \<inter> {unat y ..< unat y + mp_step (pools S q)} = {}"
  proof (cases "p = q")
    case True
    then show ?thesis using mp_blocks_apart [OF sh [OF b(1)] x] y n by simp
  next
    case False
    then have "mp_area (pools S p) \<inter> mp_area (pools S q) = {}" using i b(1) c(1) by (simp add: mp_inv_def)
    then show ?thesis
      using mp_block_in_area(1) [OF sh [OF b(1)] x] mp_block_in_area(1) [OF sh [OF c(1)] y] by blast
  qed
  moreover have "mp_region S b \<subseteq> {unat x ..< unat x + mp_step (pools S p)}"
    "mp_region S c \<subseteq> {unat y ..< unat y + mp_step (pools S q)}"
    using mp_region_eq [OF i b(1,2)] mp_region_eq [OF i c(1,2)] b(3) c(3) by auto
  ultimately show "mp_region S b \<inter> mp_region S c = {}" by blast
qed

text \<open>The regions of blocks whose head words do not change.\<close>

lemma mp_region_cong:
  "mem S' (b - 4) = mem S (b - 4) \<Longrightarrow> mp_step (pools S' (mem S (b - 4))) = mp_step (pools S (mem S (b - 4))) \<Longrightarrow>
   mp_region S' b = mp_region S b"
  by (simp add: mp_region_def mp_step_def)

lemma mp_alloc_fresh:
  assumes i: "mp_inv P S" and p: "p \<in> P" and a: "mp_take p S = Some (b, S')"
    and n: "block_free_count (pools S p) \<noteq> 0"
  shows "mp_inv P S' \<and> b \<notin> mp_live P S \<and> mp_live P S' = insert b (mp_live P S) \<and> b \<noteq> 0
    \<and> (\<forall>c \<in> mp_live P S. mp_region S' c = mp_region S c)"
proof -
  obtain gs where g: "pool_rep S p gs" using i p unfolding mp_inv_def by blast
  have "unat (block_free_count (pools S p)) \<noteq> 0" using n by (simp add: unat_eq_0)
  then obtain x fs where gs: "gs = x # fs" using g by (cases gs) (auto simp: pool_rep_def Let_def)
  from mp_take_rep [OF g [unfolded gs]] a have s: "b = x + 4" "pool_rep S' p fs"
    "x \<in> mp_blocks (pools S p) - set fs"
    "S' = S\<lparr>pools := (pools S)(p := (pools S p)\<lparr>block_free_count := block_free_count (pools S p) - 1,
        block_list := mem S x\<rparr>), mem := (mem S)(x := p)\<rparr>" by auto
  have xb: "x \<in> mp_blocks (pools S p)" using s(3) by blast
  note u = mp_inv_update [OF i p xb s(4,2)]
  have i': "mp_inv P S'" and o: "q \<in> P \<Longrightarrow> q \<noteq> p \<Longrightarrow> mp_taken S' q = mp_taken S q"
    and st: "mp_step (pools S' q) = mp_step (pools S q)" for q using u by simp_all
  have t: "mp_taken S p = mp_blocks (pools S p) - set gs" "mp_taken S' p = mp_blocks (pools S p) - set fs"
    using mp_taken_rep [OF g] mp_taken_rep [OF s(2)] s(4)
    by (simp_all add: mp_blocks_def mp_block_def)
  then have tp: "mp_taken S' p = insert x (mp_taken S p)" "x \<notin> mp_taken S p"
    using s(3) gs by auto
  have xn: "x \<notin> mp_taken S q" if "q \<in> P" for q
    using tp(2) mp_other_pool [OF i p that _ xb] that by (cases "q = p") (auto simp: mp_taken_def)
  have "(\<Union>q \<in> P. mp_taken S' q) = (\<Union>q \<in> P. mp_taken S q \<union> (if q = p then {x} else {}))"
    using tp(1) o by (intro SUP_cong) auto
  also have "\<dots> = insert x (\<Union>q \<in> P. mp_taken S q)" using p by (auto split: if_splits)
  finally have "(\<Union>q \<in> P. mp_taken S' q) = insert x (\<Union>q \<in> P. mp_taken S q)" .
  then have l: "mp_live P S' = insert b (mp_live P S)" by (simp add: mp_live_def s(1))
  have "b \<notin> mp_live P S" using xn by (auto simp: mp_live_def s(1))
  moreover have "mp_region S' c = mp_region S c" if c: "c \<in> mp_live P S" for c
  proof (rule mp_region_cong)
    have "c - 4 \<noteq> x" using c xn by (auto simp: mp_live_def)
    then show "mem S' (c - 4) = mem S (c - 4)" by (simp add: s(4))
  qed (rule st)
  moreover have "b \<noteq> 0" using mp_taken_owner(3) [OF i' p, of x] tp(1) s(1) by simp
  ultimately show ?thesis using i' l by blast
qed

text \<open>Giving a block back, and what that does to the waiters.\<close>

lemma mp_free_wakes:
  assumes k: "kinv k" "current k \<noteq> None"
  shows "\<exists>k'. (case lists k (mp_queue p) of [] \<Rightarrow> Some (S', k)
       | t # _ \<Rightarrow> map_option (Pair S') (rt_schedule (snd (rt_thread_resume t (upd_thread t (\<lambda>x. x\<lparr>error := RT_EOK\<rparr>) k)))))
      = Some (S', k') \<and> kinv k' \<and> current k' \<noteq> None \<and> lists k' (mp_queue p) = tl (lists k (mp_queue p))
    \<and> (\<forall>t \<in> set (take 1 (lists k (mp_queue p))). runnable k' t \<and> error (threads k' t) = 0)"
proof (cases "lists k (mp_queue p)")
  case Nil
  then show ?thesis using k by simp
next
  case (Cons t ts)
  let ?k1 = "upd_thread t (\<lambda>x. x\<lparr>error := 0\<rparr>) k"
  have q: "wait_queue (mp_queue p)" by (simp add: mp_queue_def)
  have k1: "kinv ?k1" "current ?k1 \<noteq> None" "lists ?k1 (mp_queue p) = t # ts"
    using kinv_set_error [OF k(1)] k(2) Cons by simp_all
  have "snd (rt_thread_resume t ?k1) = resumed t ?k1"
    using rt_ipc_list_resume_spec [OF k1(1) q k1(3)] k1(3) by (simp add: rt_ipc_list_resume_def)
  with resume_and_schedule [OF k1(1,2) q k1(3)] Cons show ?thesis by auto
qed

lemma mp_free_live:
  assumes i: "mp_inv P S" and k: "kinv k" "current k \<noteq> None" and b: "b \<in> mp_live P S"
  shows "\<exists>S' k'. rt_mp_free b S k = Some (S', k') \<and> mp_inv P S' \<and> kinv k' \<and> current k' \<noteq> None
    \<and> mp_live P S' = mp_live P S - {b} \<and> (\<forall>c \<in> mp_live P S'. mp_region S' c = mp_region S c)
    \<and> lists k' (mp_queue (mem S (b - 4))) = tl (lists k (mp_queue (mem S (b - 4))))
    \<and> (\<forall>t \<in> set (take 1 (lists k (mp_queue (mem S (b - 4))))). runnable k' t \<and> error (threads k' t) = 0)"
proof -
  obtain p x where p: "p \<in> P" "x \<in> mp_taken S p" "b = x + 4" using b by (auto simp: mp_live_def)
  obtain fs where g: "pool_rep S p fs" using i p(1) unfolding mp_inv_def by blast
  note w = mp_taken_owner [OF i p(1,2)]
  define S' where "S' = S\<lparr>pools := (pools S)(p := (pools S p)\<lparr>block_free_count := block_free_count (pools S p) + 1,
        block_list := x\<rparr>), mem := (mem S)(x := block_list (pools S p))\<rparr>"
  have xf: "x \<in> mp_blocks (pools S p) - set fs" using p(2) mp_taken_rep [OF g] by simp
  note r = mp_put_rep [OF g xf S'_def]
  note u = mp_inv_update [OF i p(1) w(2) S'_def r]
  have i': "mp_inv P S'" and o: "q \<in> P \<Longrightarrow> q \<noteq> p \<Longrightarrow> mp_taken S' q = mp_taken S q"
    and st: "mp_step (pools S' q) = mp_step (pools S q)" for q using u by simp_all
  have tp: "mp_taken S' p = mp_taken S p - {x}"
    using mp_taken_rep [OF g] mp_taken_rep [OF r] by (auto simp: S'_def mp_blocks_def mp_block_def)
  have xn: "x \<notin> mp_taken S' q" if "q \<in> P" for q
    using tp o [OF that] mp_other_pool [OF i p(1) that _ w(2)] by (cases "q = p") (auto simp: mp_taken_def)
  have xm: "x \<notin> mp_taken S q" if "q \<in> P" "q \<noteq> p" for q
    using mp_other_pool [OF i p(1) that(1) _ w(2)] that(2) by (auto simp: mp_taken_def)
  have "(\<Union>q \<in> P. mp_taken S' q) = (\<Union>q \<in> P. mp_taken S q) - {x}"
  proof (intro equalityI subsetI)
    fix y assume "y \<in> (\<Union>q \<in> P. mp_taken S' q)"
    then obtain q where "q \<in> P" "y \<in> mp_taken S' q" by blast
    then show "y \<in> (\<Union>q \<in> P. mp_taken S q) - {x}" using tp o [of q] xn [of q] by (cases "q = p") auto
  next
    fix y assume "y \<in> (\<Union>q \<in> P. mp_taken S q) - {x}"
    then obtain q where "q \<in> P" "y \<in> mp_taken S q" "y \<noteq> x" by blast
    then show "y \<in> (\<Union>q \<in> P. mp_taken S' q)" using tp o [of q] by (cases "q = p") auto
  qed
  then have l: "mp_live P S' = mp_live P S - {b}"
    by (auto simp: mp_live_def p(3))
  have rg: "mp_region S' c = mp_region S c" if c: "c \<in> mp_live P S'" for c
  proof (rule mp_region_cong)
    have "c - 4 \<noteq> x" using c xn by (auto simp: mp_live_def)
    then show "mem S' (c - 4) = mem S (c - 4)" by (simp add: S'_def)
  qed (rule st)
  have e: "b - 4 = x" "mem S x = p" "b \<noteq> 0" using w p(3) by simp_all
  have f: "rt_mp_free b S k = (case lists k (mp_queue p) of [] \<Rightarrow> Some (S', k)
       | t # _ \<Rightarrow> map_option (Pair S') (rt_schedule (snd (rt_thread_resume t (upd_thread t (\<lambda>x. x\<lparr>error := RT_EOK\<rparr>) k)))))"
    using e by (simp add: rt_mp_free_def Let_def S'_def cong: list.case_cong)
  from mp_free_wakes [where p = p and S' = S', OF k] i' l rg show ?thesis unfolding f e by blast
qed

interpretation mpa: block_allocator "mp_sys P" "\<lambda>(S, k). mp_live P S" "\<lambda>(S, k). mp_region S"
    mp_alloc_now mp_free_now "\<lambda>p. p \<in> P" for P
proof
  fix s :: "mp_state \<times> kernel" and r b s'
  obtain S k where s: "s = (S, k)" by fastforce
  assume i: "mp_sys P s"
  then have i': "mp_inv P S" "kinv k" "current k \<noteq> None" by (simp_all add: mp_sys_def s)
  show "apart (case s of (S, k) \<Rightarrow> mp_region S) (case s of (S, k) \<Rightarrow> mp_live P S)"
    using mp_regions_apart [OF i'(1)] by (simp add: s)
  show "\<exists>s'. mp_free_now s b = Some s' \<and> mp_sys P s'
      \<and> (case s' of (S, k) \<Rightarrow> mp_live P S) = (case s of (S, k) \<Rightarrow> mp_live P S) - {b}
      \<and> (\<forall>c \<in> case s' of (S, k) \<Rightarrow> mp_live P S.
           (case s' of (S, k) \<Rightarrow> mp_region S) c = (case s of (S, k) \<Rightarrow> mp_region S) c)"
    if "b \<in> (case s of (S, k) \<Rightarrow> mp_live P S)"
    using mp_free_live [OF i', of b] that by (auto simp: s mp_free_now_def mp_sys_def)
  show "mp_sys P s' \<and> b \<notin> (case s of (S, k) \<Rightarrow> mp_live P S)
      \<and> (case s' of (S, k) \<Rightarrow> mp_live P S) = insert b (case s of (S, k) \<Rightarrow> mp_live P S)
      \<and> (\<forall>c \<in> case s of (S, k) \<Rightarrow> mp_live P S.
           (case s' of (S, k) \<Rightarrow> mp_region S) c = (case s of (S, k) \<Rightarrow> mp_region S) c)"
    if "r \<in> P" "mp_alloc_now s r = Some (b, s')"
  proof -
    from that(2) obtain S' where a: "block_free_count (pools S r) \<noteq> 0" "mp_take r S = Some (b, S')" "s' = (S', k)"
      by (auto simp: s mp_alloc_now_def rt_mp_alloc_enter_def split: if_splits option.splits)
    from mp_alloc_fresh [OF i'(1) that(1) a(2,1)] i'(2,3) show ?thesis
      by (simp add: s a(3) mp_sys_def)
  qed
qed

section \<open>Initialisation\<close>

lemma mp_link_blocks_spec:
  assumes s: "pool_shape mp" and z: "unat (block_total_count mp) * mp_step mp \<le> unat sz"
    and n: "n \<le> unat (block_total_count mp)"
  shows "\<exists>m'. mp_link_blocks (start_address mp) sz (block_size mp + 4) n m = Some m'
    \<and> (\<forall>i < n. m' (mp_block mp i) = mp_block mp (Suc i))"
  using n
proof (induction n)
  case 0
  then show ?case by simp
next
  case (Suc n)
  then obtain m' where m': "mp_link_blocks (start_address mp) sz (block_size mp + 4) n m = Some m'"
    "\<forall>i < n. m' (mp_block mp i) = mp_block mp (Suc i)" by auto
  have u: "unat (mp_block mp i) = unat (start_address mp) + i * mp_step mp" if "i < Suc n" for i
    using unat_mp_block [OF s, of i] that Suc.prems by simp
  have "Suc n * mp_step mp \<le> unat (block_total_count mp) * mp_step mp" using Suc.prems by (rule mult_le_mono1)
  moreover have "4 \<le> mp_step mp" by (simp add: mp_step_def)
  ultimately have "unat (mp_block mp n) + 4 \<le> unat (start_address mp) + unat sz" using z u [of n] by simp
  then have st: "mp_store (start_address mp) sz (mp_block mp n) v m' = Some (m'(mp_block mp n := v))" for v
    using u [of n] by (simp add: mp_store_def)
  have "mp_block mp i \<noteq> mp_block mp n" if "i < n" for i
    using u [of i] u [of n] that by (auto simp: mp_step_def)
  moreover have "mp_link_blocks (start_address mp) sz (block_size mp + 4) (Suc n) m
      = Some (m'(mp_block mp n := mp_block mp (Suc n)))"
    using m'(1) st by (simp only: mp_link_blocks.simps mp_block_def bind.bind_lunit)
  ultimately show ?case using m'(2) by (auto simp: less_Suc_eq)
qed

lemma rt_mp_init_rep:
  assumes "start \<noteq> 0" "sz \<noteq> 0" "bsize \<noteq> 0" "rt_align bsize \<noteq> 0" "unat start + unat sz \<le> 2 ^ 32"
    and fits: "unat (rt_align bsize) + 4 \<le> unat (rt_align_down sz)"
  shows "\<exists>S' k'. rt_mp_init p start sz bsize S k = Some (0, S', k')
    \<and> (let mp = pools S' p in pool_rep S' p (map (mp_block mp) [0..<unat (block_total_count mp)])
        \<and> mp_taken S' p = {} \<and> block_size mp = rt_align bsize \<and> start_address mp = start
        \<and> unat (block_total_count mp) = unat (rt_align_down sz) div (unat (rt_align bsize) + 4))"
proof -
  let ?bs = "rt_align bsize" and ?z = "rt_align_down sz"
  define n where "n = ?z div (?bs + 4)"
  define mp where "mp = \<lparr>start_address = start, mp_size = ?z, block_size = ?bs, block_list = start,
    block_total_count = n, block_free_count = n\<rparr>"
  have st: "unat (?bs + 4) = unat ?bs + 4" using fits unat_u32 [of ?z] by (simp add: unat_word_ariths)
  then have n: "unat n = unat ?z div (unat ?bs + 4)" by (simp add: n_def unat_div_distrib)
  then have pos: "0 < unat n" using fits by (simp add: div_greater_zero_iff)
  have z: "unat ?z \<le> unat sz" by (simp add: unat_rt_align_down)
  have nz: "unat n * (unat ?bs + 4) \<le> unat sz" using z n by (metis div_times_less_eq_dividend le_trans)
  then have sh: "pool_shape mp" using assms(1,4,5) by (simp add: pool_shape_def mp_def mp_step_def)
  have nz': "unat (block_total_count mp) * mp_step mp \<le> unat sz" using nz by (simp add: mp_def mp_step_def)
  from mp_link_blocks_spec [OF sh nz' order.refl, of "mem S"] obtain m where
    m: "mp_link_blocks start sz (?bs + 4) (unat n) (mem S) = Some m"
      "\<forall>i < unat n. m (mp_block mp i) = mp_block mp (Suc i)" by (auto simp: mp_def)
  define l where "l = mp_block mp (unat n - 1)"
  have bl: "block_total_count mp = n" by (simp add: mp_def)
  have un: "unat (mp_block mp i) = unat start + i * mp_step mp" if "i < unat n" for i
    using unat_mp_block [OF sh, of i] that by (simp add: mp_def)
  have "start + (n - 1) * (?bs + 4) = l"
  proof -
    have "of_nat (unat n - 1) = n - 1" using pos by simp
    then show ?thesis by (simp add: l_def mp_block_def mp_def)
  qed
  moreover have "mp_store start sz l 0 m = Some (m(l := 0))"
  proof -
    have "Suc (unat n - 1) * mp_step mp \<le> unat sz" using nz pos by (simp add: mp_def mp_step_def)
    then have "(unat n - 1) * mp_step mp + 4 \<le> unat sz" by (simp add: mp_step_def)
    then show ?thesis using un [of "unat n - 1"] pos by (simp add: mp_store_def l_def)
  qed
  ultimately have e: "rt_mp_init p start sz bsize S k = Some (0, S\<lparr>mem := m(l := 0), pools := (pools S)(p := mp)\<rparr>,
      k\<lparr>lists := (lists k)(mp_queue p := [])\<rparr>)"
    using m(1) assms(1-4) st by (auto simp: rt_mp_init_def Let_def n_def mp_def unat_eq_0)
  let ?S = "S\<lparr>mem := m(l := 0), pools := (pools S)(p := mp)\<rparr>"
  have inj: "mp_block mp i = mp_block mp j \<longleftrightarrow> i = j" if "i < unat n" "j < unat n" for i j
  proof
    assume "mp_block mp i = mp_block mp j"
    then have "i * mp_step mp = j * mp_step mp" using un [OF that(1)] un [OF that(2)] by (metis add_left_cancel)
    moreover have "mp_step mp \<noteq> 0" by (simp add: mp_step_def)
    ultimately show "i = j" by simp
  qed simp
  have nx: "ptr (mem ?S (mp_block mp i)) = (if Suc i < unat n then Some (mp_block mp (Suc i)) else None)"
    if "i < unat n" for i
  proof (cases "Suc i < unat n")
    case True
    then have "mp_block mp i \<noteq> l" using inj [of i "unat n - 1"] by (simp add: l_def)
    moreover have "mp_block mp (Suc i) \<noteq> 0"
      using mp_block_in_area(2) [OF sh] True bl by (auto simp: mp_blocks_def)
    ultimately show ?thesis using m(2) that True by (simp add: ptr_def)
  next
    case False
    then have "i = unat n - 1" using that by linarith
    then have "mp_block mp i = l" by (simp add: l_def)
    then show ?thesis using False by (simp add: ptr_def)
  qed
  have "chain (\<lambda>a. ptr (mem ?S a)) (Some (mp_block mp 0)) (map (mp_block mp) [0..<unat n])"
    using chain_upt [of "unat n" "\<lambda>a. ptr (mem ?S a)" "mp_block mp" 0, OF nx] pos by simp
  moreover have "ptr start = Some (mp_block mp 0)" using assms(1) by (simp add: ptr_def mp_block_def mp_def)
  moreover have "distinct (map (mp_block mp) [0..<unat n])"
    using inj by (auto simp: distinct_map inj_on_def)
  moreover have "set (map (mp_block mp) [0..<unat n]) = mp_blocks mp"
    by (simp add: mp_blocks_def bl atLeast0LessThan)
  ultimately have r: "pool_rep ?S p (map (mp_block mp) [0..<unat n])"
    using sh by (simp add: pool_rep_def Let_def) (simp add: mp_def)
  have "mp_taken ?S p = {}"
    using mp_taken_rep [OF r] by (simp add: mp_blocks_def bl atLeast0LessThan)
  with e r n show ?thesis by (simp add: Let_def bl) (simp add: mp_def)
qed

lemma mp_store_below: "unat a < unat start \<Longrightarrow> mp_store start sz a v m = None"
  by (simp add: mp_store_def)

text \<open>A memory too small for one block: the store behind the loop goes to the block before the first.\<close>

lemma rt_mp_init_too_small:
  assumes "unat (rt_align bsize) + 4 \<le> unat start" "unat (rt_align_down sz) < unat (rt_align bsize) + 4"
  shows "rt_mp_init p start sz bsize S k = None"
proof -
  let ?st = "rt_align bsize + 4"
  have st: "unat ?st = unat (rt_align bsize) + 4"
    using assms(1) unat_u32 [of start] by (simp add: unat_word_ariths)
  then have n: "rt_align_down sz div ?st = 0" using assms(2) by (simp add: unat_eq_0 [symmetric] unat_div_distrib)
  have "unat (start - ?st) = unat start - unat ?st" using assms(1) st by (simp add: unat_sub word_le_nat_alt)
  then have "unat (start - ?st) < unat start" using assms(1) st by simp
  moreover have "start + (0 - 1) * ?st = start - ?st" by simp
  ultimately have "mp_store start sz (start + (0 - 1) * ?st) 0 (mem S) = None"
    using mp_store_below by metis
  then show ?thesis by (simp add: rt_mp_init_def Let_def n)
qed

section \<open>Waiting for a block\<close>

lemma mp_wait_spec:
  assumes k: "kinv k" and c: "current k = Some c" "runnable k c" and t: "time \<noteq> 0x7fffffff"
  shows "\<exists>k'. mp_wait p time k = Some k' \<and> kinv k' \<and> tstat k' c = RT_THREAD_SUSPEND
    \<and> lists k' (mp_queue p) = c # lists k (mp_queue p)
    \<and> (0 < sint time \<longrightarrow> tm_timeout_tick (timers k' (ThreadTimer c)) = tick k + time)"
proof -
  let ?k1 = "upd_thread c (\<lambda>x. x\<lparr>error := 0\<rparr>) k" and ?ys = "c # lists k (mp_queue p)"
  have q: "wait_queue (mp_queue p)" by (simp add: mp_queue_def)
  have k1: "kinv ?k1" by (rule kinv_set_error [OF k])
  have c1: "current ?k1 = Some c" "runnable ?k1 c" using c by (simp_all add: runnable_def tstat_def)
  have ys: "distinct ?ys" "set ?ys = insert c (set (lists ?k1 (mp_queue p)))"
    using kinv_lists [OF k] runnable_not_waiting [OF k c(2) q] by (auto simp: lists_ok_def)
  have t': "tstat ?k1 c = RT_THREAD_READY \<or> tstat ?k1 c = RT_THREAD_RUNNING"
    using c1(2) by (simp add: runnable_def)
  have l: "removeAll c (lists k (mp_queue p)) = lists k (mp_queue p)"
    using runnable_not_waiting [OF k c(2) q] by (intro removeAll_id)
  have "rt_list_insert_after (mp_queue p) c (suspended c ?k1) = placed (mp_queue p) ?ys c ?k1"
    using l by (simp add: rt_list_insert_after_def placed_def)
  then have "mp_wait p time k = rt_schedule (blocked_at (mp_queue p) ?ys c time ?k1)"
    using rt_thread_suspend_spec [OF k1 t'] c timeout_positive [OF _ t]
    by (auto simp: mp_wait_def rt_timer_start_eq blocked_at_def armed_def Let_def)
  with block_and_schedule [OF k1 c1 q ys, of time] show ?thesis by auto
qed

section \<open>The properties\<close>

text \<open>C11. Memory pools never hand out a block twice. With any number of pools, whatever allocations and
  releases a client makes without waiting (and whoever is woken by them), the blocks in use are
  exactly those it was given and has not given back, their regions do not overlap, each is returned
  to the pool it came from, and pools and kernel stay consistent.\<close>

theorem mempool_client_owns_disjoint_blocks:
  assumes "mp_inv P S" and "kinv k" and "current k \<noteq> None"
    and "list_all (request_ok (\<lambda>p. p \<in> P)) es"
    and "client_run mp_alloc_now mp_free_now ((S, k), mp_live P S) es = ((S', k'), T)"
  shows "mp_inv P S' \<and> kinv k' \<and> mp_live P S' = T \<and> apart (mp_region S') T"
proof -
  have i: "mp_sys P (S, k)" using assms(1-3) by (simp add: mp_sys_def)
  from mpa.client_run_owns [OF i _ assms(4), of "mp_live P S" "(S', k')" T] assms(5) show ?thesis
    by (simp add: mp_sys_def)
qed

definition demo_pool0 :: mp_state where
  "demo_pool0 = \<lparr>pools = (\<lambda>_. \<lparr>start_address = 0, mp_size = 0, block_size = 0, block_list = 0,
     block_total_count = 0, block_free_count = 0\<rparr>), mem = (\<lambda>_. 0)\<rparr>"

lemma demo_pool:
  obtains S k where "rt_mp_init 64 256 30 5 demo_pool0 demo_rr = Some (0, S, k)" "mp_inv {64} S"
    "mp_live {64} S = {}" "pool_rep S 64 [256, 268]"
proof -
  have a: "rt_align 5 = 8" "rt_align_down 30 = 28" by (simp_all add: rt_align_def rt_align_down_def)
  from rt_mp_init_rep [of 256 30 5 64 demo_pool0 demo_rr] a obtain S k where
    s: "rt_mp_init 64 256 30 5 demo_pool0 demo_rr = Some (0, S, k)"
    "pool_rep S 64 (map (mp_block (pools S 64)) [0..<unat (block_total_count (pools S 64))])"
    "mp_taken S 64 = {}" "block_size (pools S 64) = 8" "start_address (pools S 64) = 256"
    "unat (block_total_count (pools S 64)) = 2"
    by (auto simp: Let_def)
  have "map (mp_block (pools S 64)) [0..<2] = [256, 268]"
    by (simp add: mp_block_def s(4,5) upt_rec)
  with that [OF s(1)] s(2,3,6) show thesis by (auto simp: mp_inv_def mp_live_def)
qed

theorem mempool_client_owns_disjoint_blocks_witness:
  "\<exists>S k S' k' T. rt_mp_init 64 256 30 5 demo_pool0 demo_rr = Some (0, S, k)
    \<and> client_run mp_alloc_now mp_free_now ((S, demo_rr), {}) [Alloc 64, Alloc 64, Free 260] = ((S', k'), T)
    \<and> mp_live {64} S' = T \<and> apart (mp_region S') T"
proof -
  obtain S k where s: "rt_mp_init 64 256 30 5 demo_pool0 demo_rr = Some (0, S, k)" "mp_inv {64} S"
    "mp_live {64} S = {}" by (rule demo_pool)
  let ?es = "[Alloc 64, Alloc 64, Free 260] :: (u32, u32) alloc_op list"
  obtain S' k' T where r: "client_run mp_alloc_now mp_free_now ((S, demo_rr), mp_live {64} S) ?es = ((S', k'), T)"
    by (metis prod.exhaust)
  have c: "current demo_rr \<noteq> None" "list_all (request_ok (\<lambda>p. p \<in> {64})) ?es" by (simp_all add: demo_rr_def)
  from mempool_client_owns_disjoint_blocks [OF s(2) demo_rr_kinv c r] s r show ?thesis by auto
qed

text \<open>What the pool operations do. \<open>rt_mp_init\<close> makes all of \<open>size / (block_size + 4)\<close> blocks
  free, but on a memory too small for one block it stores outside that memory. An allocation gives out
  the block returned last, or on an empty pool fails with \<open>RT_NULL\<close> and error \<open>-RT_ETIMEOUT\<close>, or
  suspends the caller in front of those already waiting: threads are woken last come, first served.\<close>

theorem mempool_operations:
  assumes "start \<noteq> 0" and "sz \<noteq> 0" and "bsize \<noteq> 0" and "rt_align bsize \<noteq> 0"
    and "unat start + unat sz \<le> 2 ^ 32" and "pool_rep S p fs"
    and "kinv k" and "current k = Some c" and "runnable k c" and "int_nest k = 0"
    and "time \<noteq> 0" and "time \<noteq> 0x7fffffff"
  shows "(unat (rt_align bsize) + 4 \<le> unat (rt_align_down sz) \<longrightarrow>
      (\<exists>S' k'. rt_mp_init p start sz bsize S0 k0 = Some (0, S', k') \<and> mp_taken S' p = {}
        \<and> unat (block_total_count (pools S' p)) = unat (rt_align_down sz) div (unat (rt_align bsize) + 4)
        \<and> length (mp_free_blocks S' p) = unat (block_total_count (pools S' p))))
    \<and> (unat (rt_align_down sz) < unat (rt_align bsize) + 4 \<and> unat (rt_align bsize) + 4 \<le> unat start \<longrightarrow>
        rt_mp_init p start sz bsize S0 k0 = None)
    \<and> (case fs of
        a # fs' \<Rightarrow> (\<exists>S'. rt_mp_alloc_enter p time S k = Some (Block (a + 4), S', k) \<and> pool_rep S' p fs')
      | [] \<Rightarrow> rt_mp_alloc_enter p 0 S k = Some (Block 0, S, upd_thread c (\<lambda>x. x\<lparr>error := - RT_ETIMEOUT\<rparr>) k)
        \<and> (\<exists>k'. rt_mp_alloc_enter p time S k = Some (Suspended, S, k') \<and> kinv k'
            \<and> tstat k' c = RT_THREAD_SUSPEND \<and> lists k' (mp_queue p) = c # lists k (mp_queue p)))"
proof (intro conjI impI)
  show "\<exists>S' k'. rt_mp_init p start sz bsize S0 k0 = Some (0, S', k') \<and> mp_taken S' p = {}
        \<and> unat (block_total_count (pools S' p)) = unat (rt_align_down sz) div (unat (rt_align bsize) + 4)
        \<and> length (mp_free_blocks S' p) = unat (block_total_count (pools S' p))"
    if "unat (rt_align bsize) + 4 \<le> unat (rt_align_down sz)"
    using rt_mp_init_rep [OF assms(1-5) that, of p S0 k0] by (auto simp: Let_def pool_rep_free)
  show "rt_mp_init p start sz bsize S0 k0 = None"
    if "unat (rt_align_down sz) < unat (rt_align bsize) + 4 \<and> unat (rt_align bsize) + 4 \<le> unat start"
    using that by (intro rt_mp_init_too_small) simp_all
  have e: "block_free_count (pools S p) = 0 \<longleftrightarrow> fs = []"
    using assms(6) unat_eq_0 [of "block_free_count (pools S p)"] by (auto simp: pool_rep_def Let_def)
  show "case fs of
        a # fs' \<Rightarrow> (\<exists>S'. rt_mp_alloc_enter p time S k = Some (Block (a + 4), S', k) \<and> pool_rep S' p fs')
      | [] \<Rightarrow> rt_mp_alloc_enter p 0 S k = Some (Block 0, S, upd_thread c (\<lambda>x. x\<lparr>error := - RT_ETIMEOUT\<rparr>) k)
        \<and> (\<exists>k'. rt_mp_alloc_enter p time S k = Some (Suspended, S, k') \<and> kinv k'
            \<and> tstat k' c = RT_THREAD_SUSPEND \<and> lists k' (mp_queue p) = c # lists k (mp_queue p))"
  proof (cases fs)
    case Nil
    with mp_wait_spec [OF assms(7-9,12), of p] e assms(8,10,11) show ?thesis
      by (auto simp: rt_mp_alloc_enter_def rt_set_errno_def not_in_interrupt_def)
  next
    case (Cons a fs')
    with mp_take_rep [OF assms(6) [unfolded Cons]] e show ?thesis
      by (auto simp: rt_mp_alloc_enter_def)
  qed
qed

theorem mempool_operations_witness:
  "rt_mp_init 64 256 8 5 demo_pool0 demo_rr = None
    \<and> (\<exists>S k S'. rt_mp_init 64 256 30 5 demo_pool0 demo_rr = Some (0, S, k)
        \<and> rt_mp_alloc_enter 64 20 S demo_rr = Some (Block 260, S', demo_rr) \<and> pool_rep S' 64 [268])"
proof -
  obtain S k where s: "rt_mp_init 64 256 30 5 demo_pool0 demo_rr = Some (0, S, k)" "pool_rep S 64 [256, 268]"
    by (rule demo_pool)
  have a: "rt_align 5 = 8" "rt_align_down 30 = 28" "rt_align_down 8 = 8"
    by (simp_all add: rt_align_def rt_align_down_def)
  have p: "(256 :: u32) \<noteq> 0" "(8 :: u32) \<noteq> 0" "(5 :: u32) \<noteq> 0" "rt_align 5 \<noteq> 0"
    "unat (256 :: u32) + unat (8 :: u32) \<le> 2 ^ 32"
    using a by simp_all
  have q: "current demo_rr = Some 1" "runnable demo_rr 1" "int_nest demo_rr = 0"
    "(20 :: 32 word) \<noteq> 0" "(20 :: 32 word) \<noteq> 0x7fffffff"
    by (simp_all add: demo_rr_def demo_kernel_def demo_thread_def runnable_def tstat_def)
  from mempool_operations [OF p s(2) demo_rr_kinv q, where ?S0.0 = demo_pool0 and ?k0.0 = demo_rr] s(1) a show ?thesis by auto
qed

end
