(* ===== verification/C_Strings.thy ===== *)
theory C_Strings
  imports Mem_Ops "HOL-Library.Sublist"
begin

text \<open>
  The string functions of \<open>kservice.c\<close> on the memory of \<open>Mem_Ops\<close>. \<open>char\<close> is unsigned, as on ARM. A loop
  that only a \<open>NUL\<close> byte ends is a \<open>partial_function\<close>, so that its not returning is \<open>None\<close>; the lemmas show
  that it returns on every terminated string (\<open>cstr\<close>).
\<close>

section \<open>Operations\<close>

partial_function (option) strlen_from :: "memory \<Rightarrow> u32 \<Rightarrow> u32 \<Rightarrow> u32 option" where
  "strlen_from m s sc = (if m sc \<noteq> 0 then strlen_from m s (sc + 1) else Some (sc - s))"

definition rt_strlen :: "u32 \<Rightarrow> memory \<Rightarrow> u32 option" where
  "rt_strlen s m = strlen_from m s s"

function strnlen_from :: "memory \<Rightarrow> u32 \<Rightarrow> u32 \<Rightarrow> u32 \<Rightarrow> u32" where
  "strnlen_from m s maxlen sc =
     (if m sc \<noteq> 0 \<and> sc - s < maxlen then strnlen_from m s maxlen (sc + 1) else sc - s)"
  by auto
termination
proof (relation "measure (\<lambda>(m, s, maxlen, sc). unat maxlen - unat (sc - s))")
  fix m :: memory and s maxlen sc :: u32
  assume "m sc \<noteq> 0 \<and> sc - s < maxlen"
  then have l: "unat (sc - s) < unat maxlen" by (simp add: word_less_nat_alt)
  moreover have "sc + 1 - s = (sc - s) + 1" by simp
  then have "unat (sc + 1 - s) = unat (sc - s) + 1"
    using l unat_u32 [of maxlen] by (simp only: unat_plus) simp
  ultimately show "((m, s, maxlen, sc + 1), m, s, maxlen, sc) \<in> measure (\<lambda>(m, s, maxlen, sc). unat maxlen - unat (sc - s))"
    by simp
qed simp

definition rt_strnlen :: "u32 \<Rightarrow> u32 \<Rightarrow> memory \<Rightarrow> u32" where
  "rt_strnlen s maxlen m = strnlen_from m s maxlen s"

partial_function (option) rt_strcmp :: "u32 \<Rightarrow> u32 \<Rightarrow> memory \<Rightarrow> int option" where
  "rt_strcmp cs ct m =
     (if m cs \<noteq> 0 \<and> m cs = m ct then rt_strcmp (cs + 1) (ct + 1) m else Some (uint (m cs) - uint (m ct)))"

text \<open>The result is kept in a \<open>signed char\<close>.\<close>

function strncmp_from :: "u32 \<Rightarrow> u32 \<Rightarrow> u32 \<Rightarrow> memory \<Rightarrow> u8 \<Rightarrow> u8" where
  "strncmp_from cs ct count m res =
     (if count \<noteq> 0
      then (let r = word_of_int (uint (m cs) - uint (m ct)) in
            if r \<noteq> 0 \<or> m cs = 0 then r else strncmp_from (cs + 1) (ct + 1) (count - 1) m r)
      else res)"
  by auto
termination by (relation "measure (\<lambda>(cs, ct, n, m, r). unat n)") (auto simp: measure_unat)

definition rt_strncmp :: "u32 \<Rightarrow> u32 \<Rightarrow> u32 \<Rightarrow> memory \<Rightarrow> int" where
  "rt_strncmp cs ct count m = sint (strncmp_from cs ct count m 0)"

definition lower :: "int \<Rightarrow> int" where
  "lower c = (if 65 \<le> c \<and> c \<le> 90 then c + (97 - 65) else c)"

partial_function (option) rt_strcasecmp :: "u32 \<Rightarrow> u32 \<Rightarrow> memory \<Rightarrow> u32 option" where
  "rt_strcasecmp a b m =
     (let ca = lower (uint (m a)); cb = lower (uint (m b)) in
      if ca = cb \<and> ca \<noteq> 0 then rt_strcasecmp (a + 1) (b + 1) m else Some (word_of_int (ca - cb)))"

function strncpy_loop :: "u32 \<Rightarrow> u32 \<Rightarrow> u32 \<Rightarrow> memory \<Rightarrow> memory" where
  "strncpy_loop d s n m =
     (let m1 = m(d := m s) in
      if m s = 0 then memset_bytes (d + 1) 0 (n - 1) m1
      else if n - 1 \<noteq> 0 \<and> n \<noteq> 0 then strncpy_loop (d + 1) (s + 1) (n - 1) m1 else m1)"
  by auto
termination by (relation "measure (\<lambda>(d, s, n, m). unat n)") (auto simp: measure_unat)

definition rt_strncpy :: "u32 \<Rightarrow> u32 \<Rightarrow> u32 \<Rightarrow> memory \<Rightarrow> memory" where
  "rt_strncpy dst src n m = (if n \<noteq> 0 then strncpy_loop dst src n m else m)"

function strstr_loop :: "u32 \<Rightarrow> u32 \<Rightarrow> int \<Rightarrow> int \<Rightarrow> memory \<Rightarrow> u32" where
  "strstr_loop s1 s2 l1 l2 m =
     (if l2 \<le> l1
      then (if rt_memcmp s1 s2 (word_of_int l2) m = 0 then s1 else strstr_loop (s1 + 1) s2 (l1 - 1) l2 m)
      else 0)"
  by auto
termination by (relation "measure (\<lambda>(s1, s2, l1, l2, m). nat (l1 - l2 + 1))") auto

definition rt_strstr :: "u32 \<Rightarrow> u32 \<Rightarrow> memory \<Rightarrow> u32 option" where
  "rt_strstr s1 s2 m = do {
     n2 \<leftarrow> rt_strlen s2 m;
     if sint n2 = 0 then Some s1
     else do {
       n1 \<leftarrow> rt_strlen s1 m;
       Some (strstr_loop s1 s2 (sint n1) (sint n2) m)
     }
   }"

lemmas [simp del] = strnlen_from.simps strncmp_from.simps strncpy_loop.simps strstr_loop.simps

section \<open>Terminated strings\<close>

primrec cstr :: "memory \<Rightarrow> u32 \<Rightarrow> u8 list \<Rightarrow> bool" where
  "cstr m p [] \<longleftrightarrow> m p = 0"
| "cstr m p (c # cs) \<longleftrightarrow> c \<noteq> 0 \<and> m p = c \<and> cstr m (p + 1) cs"

text \<open>The addresses of a string, its terminator included.\<close>

primrec cstr_area :: "u32 \<Rightarrow> u8 list \<Rightarrow> u32 set" where
  "cstr_area p [] = {p}"
| "cstr_area p (c # cs) = insert p (cstr_area (p + 1) cs)"

lemma cstr_upd: "a \<notin> cstr_area p s \<Longrightarrow> cstr (m(a := v)) p s = cstr m p s"
  by (induction s arbitrary: p) auto

lemma strlen_from_spec: "cstr m p s \<Longrightarrow> strlen_from m b p = Some (p + of_nat (length s) - b)"
proof (induction s arbitrary: p)
  case (Cons c s)
  then show ?case by (subst strlen_from.simps) (simp add: algebra_simps)
qed (simp add: strlen_from.simps)

lemma rt_strlen_spec: "cstr m p s \<Longrightarrow> rt_strlen p m = Some (of_nat (length s))"
  by (simp add: rt_strlen_def strlen_from_spec)

lemma strnlen_from_spec:
  "cstr m p s \<Longrightarrow> unat (p - b) + length s < 2 ^ 32 \<Longrightarrow> unat (p - b) \<le> unat n \<Longrightarrow>
   unat (strnlen_from m b n p) = min (unat n) (unat (p - b) + length s)"
proof (induction s arbitrary: p)
  case (Cons c s)
  have e: "p + 1 - b = (p - b) + 1" by simp
  have u: "unat (p + 1 - b) = unat (p - b) + 1"
    unfolding e using Cons.prems(2) by (simp only: unat_plus) simp
  show ?case
  proof (cases "p - b < n")
    case True
    then show ?thesis
      using Cons u by (subst strnlen_from.simps) (simp add: word_less_nat_alt)
  next
    case False
    then show ?thesis
      using Cons.prems by (subst strnlen_from.simps) (simp add: word_less_nat_alt)
  qed
qed (simp add: strnlen_from.simps)

lemma rt_strnlen_spec: "cstr m p s \<Longrightarrow> length s < 2 ^ 32 \<Longrightarrow> unat (rt_strnlen p n m) = min (unat n) (length s)"
  using strnlen_from_spec [of m p s p n] by (simp add: rt_strnlen_def)

lemma uint_eq_iff: "uint (a :: u8) = uint b \<longleftrightarrow> a = b"
  using unsigned_word_eqI by auto

lemma uint_zero_iff: "uint (a :: u8) = 0 \<longleftrightarrow> a = 0"
  using uint_eq_iff [of a 0] by simp

lemma uint_u8: "0 \<le> uint (c :: u8)" "uint c < 256"
  using uint_bounded [of c] by simp_all

lemma rt_strcmp_spec:
  "cstr m p s \<Longrightarrow> cstr m q t \<Longrightarrow>
   \<exists>r. rt_strcmp p q m = Some r \<and> (r = 0 \<longleftrightarrow> s = t) \<and> (r < 0 \<longleftrightarrow> ord_class.lexordp s t)"
proof (induction s arbitrary: p q t)
  case Nil
  then show ?case by (cases t) (auto simp: rt_strcmp.simps word_less_alt uint_u8 uint_eq_iff uint_zero_iff order_less_le)
next
  case (Cons c s)
  show ?case
  proof (cases t)
    case Nil
    with Cons.prems show ?thesis using uint_u8(1) [of c]
      by (subst rt_strcmp.simps) (auto simp: uint_eq_iff uint_zero_iff)
  next
    case (Cons d u)
    show ?thesis
    proof (cases "c = d")
      case True
      then show ?thesis
        using Cons.prems Cons Cons.IH [of "p + 1" "q + 1" u] by (subst rt_strcmp.simps) simp
    next
      case False
      then show ?thesis
        using Cons.prems Cons uint_eq_iff [of c d] by (subst rt_strcmp.simps) (auto simp: word_less_alt)
    qed
  qed
qed


text \<open>A difference of two bytes, kept in eight bits.\<close>

lemma byte_diff_0: "(word_of_int (uint (a :: u8) - uint (b :: u8)) :: u8) = 0 \<longleftrightarrow> a = b"
proof -
  have "(word_of_int (uint a - uint b) :: u8) = a - b" by simp
  then show ?thesis by simp
qed

lemma byte_diff_neg:
  assumes "unat (a :: u8) < 128" "unat (b :: u8) < 128"
  shows "sint (word_of_int (uint a - uint b) :: u8) = uint a - uint b"
proof -
  have "uint a = int (unat a)" "uint b = int (unat b)" by simp_all
  with assms have "uint a < 128" "uint b < 128" "0 \<le> uint a" "0 \<le> uint b" by linarith+
  then have "- 128 \<le> uint a - uint b" "uint a - uint b < 128" by linarith+
  then have "signed_take_bit 7 (uint a - uint b) = uint a - uint b" by (intro signed_take_bit_int_eq_self) simp_all
  moreover have "sint (word_of_int z :: u8) = signed_take_bit 7 z" for z by (simp add: sint_sbintrunc')
  ultimately show ?thesis by (simp only:)
qed

lemma strncmp_from_0:
  "cstr m p s \<Longrightarrow> cstr m q t \<Longrightarrow> strncmp_from p q n m 0 = 0 \<longleftrightarrow> take (unat n) s = take (unat n) t"
proof (induction s arbitrary: p q t n)
  case Nil
  then show ?case by (cases t) (auto simp: strncmp_from.simps byte_diff_0 Let_def unat_eq_0 take_eq_Nil)
next
  case (Cons c s)
  show ?case
  proof (cases "n = 0")
    case False
    then have n: "unat n = Suc (unat (n - 1))" by (rule unat_dec)
    show ?thesis
    proof (cases t)
      case Nil
      then show ?thesis using Cons.prems False n byte_diff_0 [of c 0]
        by (subst strncmp_from.simps) (auto simp: Let_def)
    next
      case (Cons d u)
      show ?thesis
      proof (cases "c = d")
        case True
        then show ?thesis using Cons.prems Cons False n Cons.IH [of "p + 1" "q + 1" u "n - 1"]
          by (subst strncmp_from.simps) (simp add: Let_def)
      next
        case ne: False
        then show ?thesis using Cons.prems Cons False n byte_diff_0 [of c d]
          by (subst strncmp_from.simps) (auto simp: Let_def)
      qed
    qed
  qed (simp add: strncmp_from.simps)
qed

lemma strncmp_from_neg:
  "cstr m p s \<Longrightarrow> cstr m q t \<Longrightarrow> \<forall>c \<in> set s \<union> set t. unat c < 128 \<Longrightarrow>
   sint (strncmp_from p q n m 0) < 0 \<longleftrightarrow> ord_class.lexordp (take (unat n) s) (take (unat n) t)"
proof (induction s arbitrary: p q t n)
  case Nil
  have z: "unat (0 :: u8) < 128" by simp
  show ?case
  proof (cases t)
    case (Cons d u)
    with Nil have d: "unat d < 128" "m q = d" "m p = 0" "d \<noteq> 0" by auto
    show ?thesis
      using byte_diff_neg [OF z d(1)] Cons d uint_u8(1) [of d] uint_zero_iff [of d]
      by (subst strncmp_from.simps) (auto simp: Let_def order_less_le unat_eq_0 take_Cons')
  qed (use Nil in \<open>simp add: strncmp_from.simps Let_def\<close>)
next
  case (Cons c s)
  show ?case
  proof (cases "n = 0")
    case False
    then have n: "unat n = Suc (unat (n - 1))" by (rule unat_dec)
    have c: "unat c < 128" "m p = c" using Cons.prems by auto
    show ?thesis
    proof (cases t)
      case Nil
      then show ?thesis using Cons.prems False n c byte_diff_neg [of c 0] uint_u8(1) [of c] byte_diff_0 [of c 0]
        by (subst strncmp_from.simps) (auto simp: Let_def)
    next
      case (Cons d u)
      then have d: "unat d < 128" "m q = d" using Cons.prems by auto
      show ?thesis
      proof (cases "c = d")
        case True
        then show ?thesis using Cons.prems Cons False n Cons.IH [of "p + 1" "q + 1" u "n - 1"]
          by (subst strncmp_from.simps) (simp add: Let_def)
      next
        case ne: False
        then show ?thesis using Cons False n c d byte_diff_0 [of c d] byte_diff_neg [OF c(1) d(1)] uint_eq_iff [of c d]
          by (subst strncmp_from.simps) (auto simp: Let_def word_less_alt)
      qed
    qed
  qed (simp add: strncmp_from.simps)
qed

definition lower_string :: "u8 list \<Rightarrow> int list" where
  "lower_string s = map (\<lambda>c. lower (uint c)) s"

lemma lower_string_simps [simp]: "lower_string [] = []" "lower_string (c # s) = lower (uint c) # lower_string s"
  "lower_string s = [] \<longleftrightarrow> s = []"
  by (auto simp: lower_string_def)

lemma lower_range: "0 \<le> lower (uint (c :: u8))" "lower (uint c) < 256" "lower (uint c) = 0 \<longleftrightarrow> c = 0"
  using uint_u8 [of c] uint_zero_iff [of c] by (auto simp: lower_def)

lemma small_diff: "0 \<le> x \<Longrightarrow> x < 256 \<Longrightarrow> 0 \<le> y \<Longrightarrow> y < 256 \<Longrightarrow> sint (word_of_int (x - y) :: u32) = x - y"
proof -
  assume "0 \<le> x" "x < 256" "0 \<le> y" "y < 256"
  then have "signed_take_bit 31 (x - y) = x - y" by (intro signed_take_bit_int_eq_self) auto
  moreover have "sint (word_of_int z :: u32) = signed_take_bit 31 z" for z by (simp add: sint_sbintrunc')
  ultimately show ?thesis by (simp only:)
qed

lemma rt_strcasecmp_spec:
  "cstr m p s \<Longrightarrow> cstr m q t \<Longrightarrow>
   \<exists>r. rt_strcasecmp p q m = Some r
     \<and> (r = 0 \<longleftrightarrow> lower_string s = lower_string t)
     \<and> (sint r < 0 \<longleftrightarrow> ord_class.lexordp (lower_string s) (lower_string t))"
proof (induction s arbitrary: p q t)
  case Nil
  have l: "lower (uint (0 :: u8)) = 0" by (simp add: lower_def)
  show ?case
  proof (cases t)
    case (Cons d u)
    with Nil have d: "m q = d" "m p = 0" "d \<noteq> 0" by auto
    have "sint (word_of_int (0 - lower (uint d)) :: u32) = 0 - lower (uint d)"
      using lower_range [of d] by (intro small_diff) auto
    moreover have "lower (uint d) \<noteq> 0" "0 \<le> lower (uint d)" using lower_range [of d] d(3) by auto
    ultimately show ?thesis
      using Cons d l by (subst rt_strcasecmp.simps) (auto simp: Let_def)
  qed (use Nil l in \<open>simp add: rt_strcasecmp.simps Let_def\<close>)
next
  case (Cons c s)
  have c: "m p = c" "c \<noteq> 0" using Cons.prems by auto
  show ?case
  proof (cases t)
    case Nil
    have "sint (word_of_int (lower (uint c) - lower 0) :: u32) = lower (uint c) - lower 0"
      using lower_range [of c] lower_range [of 0] by (intro small_diff) (auto simp: lower_def)
    then show ?thesis
      using Nil c Cons.prems lower_range [of c] by (subst rt_strcasecmp.simps) (auto simp: Let_def lower_def)
  next
    case (Cons d u)
    then have d: "m q = d" "d \<noteq> 0" using Cons.prems by auto
    have sd: "sint (word_of_int (lower (uint c) - lower (uint d)) :: u32) = lower (uint c) - lower (uint d)"
      using lower_range [of c] lower_range [of d] by (intro small_diff) auto
    show ?thesis
    proof (cases "lower (uint c) = lower (uint d)")
      case True
      then show ?thesis
        using Cons.prems Cons Cons.IH [of "p + 1" "q + 1" u] lower_range(3) [of d] d c
        by (subst rt_strcasecmp.simps) (simp add: Let_def)
    next
      case False
      then have "(word_of_int (lower (uint c) - lower (uint d)) :: u32) \<noteq> 0" using sd by (metis right_minus_eq signed_0)
      then show ?thesis
        using Cons c d sd False by (subst rt_strcasecmp.simps) (auto simp: Let_def)
    qed
  qed
qed

section \<open>Copying and searching\<close>

definition padded_copy :: "u32 \<Rightarrow> u32 \<Rightarrow> u8 list \<Rightarrow> memory \<Rightarrow> memory" where
  "padded_copy d n cs m = (\<lambda>a. if a - d < n then (if unat (a - d) < length cs then cs ! unat (a - d) else 0) else m a)"

lemma padded_copy_step:
  assumes "n \<noteq> 0" shows "padded_copy (d + 1) (n - 1) cs (m(d := c)) = padded_copy d n (c # cs) m"
proof (rule ext)
  fix a
  define x where "x = a - d"
  have e: "a - (d + 1) = x - 1" "a = d \<longleftrightarrow> x = 0" by (auto simp: x_def)
  have l: "x - 1 < n - 1 \<longleftrightarrow> 1 \<le> x \<and> x < n" by (rule less_shift [OF one_le [OF assms]])
  show "padded_copy (d + 1) (n - 1) cs (m(d := c)) a = padded_copy d n (c # cs) m a"
  proof (cases "x = 0")
    case True
    with l assms e(2) show ?thesis
      unfolding padded_copy_def e(1) x_def [symmetric] by (simp add: word_gt_0)
  next
    case False
    with l e(2) one_le [OF False] unat_dec [OF False] show ?thesis
      unfolding padded_copy_def e(1) x_def [symmetric] by simp
  qed
qed

lemma strncpy_loop_spec:
  assumes "cstr m s cs" "n \<noteq> 0" "\<And>a. a - d < n \<Longrightarrow> a \<notin> cstr_area s cs"
  shows "strncpy_loop d s n m = padded_copy d n cs m"
  using assms
proof (induction cs arbitrary: d s n m)
  case Nil
  have "strncpy_loop d s n m = mem_fill (d + 1) 0 (n - 1) (m(d := 0))"
    using Nil by (subst strncpy_loop.simps) (simp add: memset_bytes_eq)
  also have "\<dots> = mem_fill d 0 n m"
    using mem_fill_step [OF one_le [OF Nil(2)], of d 0 m] by (simp add: mem_fill_def fun_upd_def)
  also have "\<dots> = padded_copy d n [] m" unfolding mem_fill_def padded_copy_def by (rule ext) simp
  finally show ?case .
next
  case (Cons c cs)
  have c: "m s = c" "c \<noteq> 0" "cstr m (s + 1) cs" using Cons.prems by auto
  have step: "strncpy_loop d s n m = (if n - 1 \<noteq> 0 then strncpy_loop (d + 1) (s + 1) (n - 1) (m(d := c)) else m(d := c))"
    using c Cons.prems(2) by (subst strncpy_loop.simps) simp
  show ?case
  proof (cases "n - 1 = 0")
    case True
    then have n: "n = 1" by simp
    have "padded_copy (d + 1) (n - 1) cs (m(d := c)) = m(d := c)" using True by (simp add: padded_copy_def fun_upd_def)
    then show ?thesis using step True padded_copy_step [of n d cs m c] n by simp
  next
    case False
    have "d \<notin> cstr_area (s + 1) cs" using Cons.prems(3) [of d] Cons.prems(2) by (simp add: word_gt_0)
    then have m1: "cstr (m(d := c)) (s + 1) cs" using c(3) cstr_upd by blast
    have "a \<notin> cstr_area (s + 1) cs" if "a - (d + 1) < n - 1" for a
    proof -
      have e: "a - (d + 1) = a - d - 1" by simp
      have "a - d < n" using that less_shift [OF one_le [OF Cons.prems(2)], of "a - d"] unfolding e by simp
      then show ?thesis using Cons.prems(3) [of a] by simp
    qed
    then have "strncpy_loop (d + 1) (s + 1) (n - 1) (m(d := c)) = padded_copy (d + 1) (n - 1) cs (m(d := c))"
      by (rule Cons.IH [OF m1 False])
    with step False padded_copy_step [OF Cons.prems(2), of d cs m c] show ?thesis by (simp del: fun_upd_apply)
  qed
qed

lemma rt_strncpy_spec:
  "cstr m s cs \<Longrightarrow> (\<And>a. a - d < n \<Longrightarrow> a \<notin> cstr_area s cs) \<Longrightarrow> rt_strncpy d s n m = padded_copy d n cs m"
  using strncpy_loop_spec [of m s cs n d] by (auto simp: rt_strncpy_def padded_copy_def fun_eq_iff)

lemma cstr_bytes_at: "cstr m p s \<Longrightarrow> bytes_at m p (length s) = s"
  by (induction s arbitrary: p) auto

lemma cstr_bytes_at_prefix: "cstr m p s \<Longrightarrow> k \<le> length s \<Longrightarrow> bytes_at m p k = take k s"
proof (induction s arbitrary: p k)
  case (Cons c s)
  then show ?case by (cases k) auto
qed simp

text \<open>Where \<open>t\<close> occurs first in \<open>s\<close>.\<close>

fun first_occurrence :: "u8 list \<Rightarrow> u8 list \<Rightarrow> nat option" where
  "first_occurrence t s = (if prefix t s then Some 0 else
     (case s of [] \<Rightarrow> None | _ # s' \<Rightarrow> map_option Suc (first_occurrence t s')))"

declare first_occurrence.simps [simp del]

lemma first_occurrence_Some: "first_occurrence t s = Some i \<Longrightarrow>
    prefix t (drop i s) \<and> (\<forall>j < i. \<not> prefix t (drop j s))"
proof (induction t s arbitrary: i rule: first_occurrence.induct)
  case (1 t s)
  show ?case
  proof (cases "prefix t s")
    case True
    with 1(2) show ?thesis by (subst (asm) first_occurrence.simps) simp
  next
    case False
    with 1(2) obtain c s' i' where s: "s = c # s'" "first_occurrence t s' = Some i'" "i = Suc i'"
      by (subst (asm) first_occurrence.simps) (auto split: list.splits)
    from 1(1) [OF False s(1,2)] False s(1,3) show ?thesis by (auto simp: less_Suc_eq_0_disj)
  qed
qed

lemma first_occurrence_None: "first_occurrence t s = None \<longleftrightarrow> \<not> sublist t s"
proof (induction t s rule: first_occurrence.induct)
  case (1 t s)
  then show ?case
    by (subst first_occurrence.simps) (auto simp: sublist_Cons_right split: list.splits)
qed

lemma strstr_loop_spec:
  assumes t: "cstr m q t" "t \<noteq> []" "length t < 2 ^ 31"
  shows "cstr m p s \<Longrightarrow> strstr_loop p q (int (length s)) (int (length t)) m =
    (case first_occurrence t s of None \<Rightarrow> 0 | Some i \<Rightarrow> p + of_nat i)"
proof (induction s arbitrary: p)
  case Nil
  then show ?case using t(2) by (subst strstr_loop.simps, subst first_occurrence.simps) (auto simp: prefix_def)
next
  case (Cons c s)
  have l: "unat (word_of_int (int (length t)) :: u32) = length t" using t(3) by (simp add: unsigned_of_nat take_bit_nat_eq_self)
  show ?case
  proof (cases "length t \<le> Suc (length s)")
    case False
    then have "\<not> sublist t (c # s)" using sublist_length_le by fastforce
    then show ?thesis using False by (subst strstr_loop.simps) (simp flip: first_occurrence_None)
  next
    case True
    have "rt_memcmp p q (word_of_int (int (length t))) m = 0 \<longleftrightarrow> prefix t (c # s)"
      using rt_memcmp_spec [of p q "word_of_int (int (length t))" m] l cstr_bytes_at [OF t(1)]
        cstr_bytes_at_prefix [OF Cons.prems, of "length t"] True
      by (auto simp: prefix_def append_eq_conv_conj) (metis append_take_drop_id)
    then show ?thesis
      using True Cons by (subst strstr_loop.simps, subst first_occurrence.simps)
        (auto split: option.splits simp: algebra_simps)
  qed
qed

lemma rt_strstr_spec:
  assumes "cstr m p s" "cstr m q t" "length s < 2 ^ 31" "length t < 2 ^ 31"
  shows "rt_strstr p q m = Some (case first_occurrence t s of None \<Rightarrow> 0 | Some i \<Rightarrow> p + of_nat i)"
proof -
  have l: "sint (of_nat n :: u32) = int n" if "n < 2 ^ 31" for n
    using that sint_of_small [of "of_nat n :: u32"] by (simp add: unsigned_of_nat take_bit_nat_eq_self)
  show ?thesis
  proof (cases "t = []")
    case True
    then show ?thesis using assms(2) by (simp add: rt_strstr_def rt_strlen_spec [OF assms(2)] first_occurrence.simps)
  next
    case False
    then show ?thesis
      using assms strstr_loop_spec [OF assms(2) False assms(4,1)]
      by (simp add: rt_strstr_def rt_strlen_spec [OF assms(1)] rt_strlen_spec [OF assms(2)] l)
  qed
qed

section \<open>The properties\<close>

text \<open>String comparison. On any two terminated strings the comparisons return, \<open>rt_strcmp\<close> orders them as
  dictionaries of unsigned bytes do, \<open>rt_strcasecmp\<close> the strings in lower case, and \<open>rt_strncmp\<close> finds out
  whether the prefixes are equal; its sign is that of the order for 7-bit characters, as it keeps the
  difference in a \<open>signed char\<close>.\<close>

theorem string_comparisons:
  assumes "cstr m p s" and "cstr m q t"
  shows "(\<exists>r. rt_strcmp p q m = Some r \<and> (r = 0 \<longleftrightarrow> s = t) \<and> (r < 0 \<longleftrightarrow> ord_class.lexordp s t))
    \<and> (\<exists>r. rt_strcasecmp p q m = Some r \<and> (r = 0 \<longleftrightarrow> lower_string s = lower_string t)
        \<and> (sint r < 0 \<longleftrightarrow> ord_class.lexordp (lower_string s) (lower_string t)))
    \<and> (rt_strncmp p q n m = 0 \<longleftrightarrow> take (unat n) s = take (unat n) t)
    \<and> ((\<forall>c \<in> set s \<union> set t. unat c < 128) \<longrightarrow>
        (rt_strncmp p q n m < 0 \<longleftrightarrow> ord_class.lexordp (take (unat n) s) (take (unat n) t)))"
proof -
  have "sint w = 0 \<longleftrightarrow> w = 0" for w :: u8 by (metis signed_0 signed_word_eqI)
  then show ?thesis
    using rt_strcmp_spec [OF assms] rt_strcasecmp_spec [OF assms] strncmp_from_0 [OF assms, of n]
      strncmp_from_neg [OF assms, of n]
    unfolding rt_strncmp_def by blast
qed

definition demo_strings :: memory where
  "demo_strings = (\<lambda>_. 0)(0x100 := 0x52, 0x101 := 0x54, 0x200 := 0x72, 0x201 := 0x74, 0x300 := 0x52, 0x301 := 0xE8)"

lemma demo_strings_cstr: "cstr demo_strings 0x100 [0x52, 0x54]" "cstr demo_strings 0x200 [0x72, 0x74]"
  "cstr demo_strings 0x300 [0x52, 0xE8]"
  by (simp_all add: demo_strings_def)

theorem string_comparisons_witness:
  "rt_strcasecmp 0x100 0x200 demo_strings = Some 0 \<and> (\<exists>r < 0. rt_strcmp 0x100 0x200 demo_strings = Some r)
    \<and> rt_strncmp 0x100 0x300 1 demo_strings = 0"
proof -
  have l: "lower_string [0x52, 0x54] = lower_string [0x72, 0x74]" by (simp add: lower_string_def lower_def)
  have o: "ord_class.lexordp [0x52, 0x54] [0x72, 0x74 :: u8]" by simp
  from string_comparisons [OF demo_strings_cstr(1,2), where n = 0] l
  have "rt_strcasecmp 0x100 0x200 demo_strings = Some 0" by metis
  moreover from string_comparisons [OF demo_strings_cstr(1,2), where n = 0] o
  have "\<exists>r < 0. rt_strcmp 0x100 0x200 demo_strings = Some r" by metis
  moreover have "rt_strncmp 0x100 0x300 1 demo_strings = 0 \<longleftrightarrow> take (unat (1 :: u32)) [0x52, 0x54 :: u8] = take (unat (1 :: u32)) [0x52, 0xE8]"
    using string_comparisons [OF demo_strings_cstr(1,3), where n = 1] by metis
  ultimately show ?thesis by simp
qed

text \<open>The sign of \<open>rt_strncmp\<close> is wrong for characters beyond 7 bits.\<close>

lemma rt_strncmp_sign: "rt_strncmp 0x100 0x300 2 demo_strings > 0 \<and> ord_class.lexordp [0x52, 0x54] [0x52, 0xE8 :: u8]"
  unfolding rt_strncmp_def
  by (subst strncmp_from.simps, subst strncmp_from.simps) (simp add: demo_strings_def)

text \<open>Length, copy and search. On terminated strings the functions return; the length is that of the
  string (cut at the bound), \<open>rt_strncpy\<close> writes exactly the \<open>n\<close> bytes of the destination: the string,
  cut or padded with zeros, and \<open>rt_strstr\<close> finds the first occurrence or returns \<open>NULL\<close> if there is
  none.\<close>

theorem string_length_copy_search:
  assumes "cstr m p s" and "length s < 2 ^ 31"
  shows "rt_strlen p m = Some (of_nat (length s)) \<and> unat (rt_strnlen p n m) = min (unat n) (length s)
    \<and> ((\<forall>a. a - d < n \<longrightarrow> a \<notin> cstr_area p s) \<longrightarrow>
        rt_strncpy d p n m = (\<lambda>a. if a - d < n then (if unat (a - d) < length s then s ! unat (a - d) else 0) else m a))
    \<and> (cstr m q t \<and> length t < 2 ^ 31 \<longrightarrow> (\<exists>r. rt_strstr p q m = Some r \<and>
        (if sublist t s then \<exists>i. r = p + of_nat i \<and> prefix t (drop i s) \<and> (\<forall>j < i. \<not> prefix t (drop j s))
         else r = 0)))"
proof (intro conjI impI)
  show "rt_strlen p m = Some (of_nat (length s))" by (rule rt_strlen_spec [OF assms(1)])
  show "unat (rt_strnlen p n m) = min (unat n) (length s)" using rt_strnlen_spec [OF assms(1)] assms(2) by simp
  show "rt_strncpy d p n m = (\<lambda>a. if a - d < n then (if unat (a - d) < length s then s ! unat (a - d) else 0) else m a)"
    if "\<forall>a. a - d < n \<longrightarrow> a \<notin> cstr_area p s"
    using rt_strncpy_spec [OF assms(1), of d n] that by (simp add: padded_copy_def)
  assume "cstr m q t \<and> length t < 2 ^ 31"
  then show "\<exists>r. rt_strstr p q m = Some r \<and>
      (if sublist t s then \<exists>i. r = p + of_nat i \<and> prefix t (drop i s) \<and> (\<forall>j < i. \<not> prefix t (drop j s)) else r = 0)"
    using rt_strstr_spec [of m p s q t] assms first_occurrence_Some [of t s] first_occurrence_None [of t s]
    by (auto split: option.splits)
qed

theorem string_length_copy_search_witness:
  "rt_strlen 0x100 demo_strings = Some 2 \<and> rt_strstr 0x100 0x101 demo_strings = Some 0x101
    \<and> rt_strncpy 0x400 0x100 8 demo_strings 0x401 = 0x54"
proof -
  have c: "cstr demo_strings 0x101 [0x54]" by (simp add: demo_strings_def)
  have s: "sublist [0x54] [0x52, 0x54 :: u8]" by (simp add: sublist_Cons_right prefix_def)
  have a: "\<forall>a. a - 0x400 < 8 \<longrightarrow> a \<notin> cstr_area 0x100 [0x52, 0x54]" by auto
  have l: "length [0x52, 0x54 :: u8] < 2 ^ 31" "length [0x54 :: u8] < 2 ^ 31" by simp_all
  note t = string_length_copy_search [OF demo_strings_cstr(1) l(1), where q = "0x101" and t = "[0x54]" and d = "0x400" and n = 8]
  from t c l(2) s obtain i where i: "rt_strstr 0x100 0x101 demo_strings = Some (0x100 + of_nat i)"
    "prefix [0x54] (drop i [0x52, 0x54 :: u8])" by auto
  then have "i = 1" by (cases i) (auto simp: drop_Cons split: nat.splits)
  with t a i show ?thesis by simp
qed

end
