(* ===== verification/Heap_Service.thy ===== *)
theory Heap_Service
  imports SmallMem C_Strings
begin

text \<open>
  The services of \<open>kservice.c\<close> on top of the heap: aligned allocation, which keeps the block's own address
  in the word before the aligned one, and string duplication.
\<close>

unbundle bit_operations_syntax

section \<open>Operations\<close>

definition align_ptr :: "u32 \<Rightarrow> u32 \<Rightarrow> u32" where
  "align_ptr ptr align =
     (if ptr AND (align - 1) = 0 then ptr + align else (ptr + (align - 1)) AND NOT (align - 1))"

definition rt_malloc_align :: "u32 \<Rightarrow> u32 \<Rightarrow> heap \<Rightarrow> (u32 \<times> heap) option" where
  "rt_malloc_align sz algn h =
     (let align = rt_align algn; align_size = rt_align sz + align in do {
        (ptr, h1) \<leftarrow> rt_malloc align_size h;
        if ptr \<noteq> 0
        then
          (let a = align_ptr ptr align in
           Some (a, h1\<lparr>bytes := store_word (a - 4) ptr (bytes h1)\<rparr>))
        else Some (ptr, h1)
      })"

definition rt_free_align :: "u32 \<Rightarrow> heap \<Rightarrow> heap option" where
  "rt_free_align ptr h = rt_free (load_word (bytes h) (ptr - 4)) h"

definition rt_strdup :: "u32 \<Rightarrow> heap \<Rightarrow> (u32 \<times> heap) option" where
  "rt_strdup s h = do {
     n \<leftarrow> rt_strlen s (bytes h);
     (tmp, h1) \<leftarrow> rt_malloc (n + 1) h;
     if tmp = 0 then Some (0, h1) else Some (tmp, copy_bytes tmp s (n + 1) h1)
   }"

section \<open>Alignment\<close>

lemma exp_minus_1_mask: "(2 :: u32) ^ k - 1 = mask k"
  by (simp add: mask_eq_exp_minus_1)

lemma and_mask_0: "(x :: u32) AND mask k = 0 \<longleftrightarrow> unat x mod 2 ^ k = 0"
proof -
  have "unat (take_bit k x) = unat x mod 2 ^ k" by (metis take_bit_eq_mod unsigned_take_bit_eq)
  then show ?thesis by (simp add: take_bit_eq_mask [symmetric] unat_eq_0 [symmetric])
qed

lemma round_up:
  fixes x d :: nat
  assumes "0 < d" "x mod d \<noteq> 0"
  shows "(x + (d - 1)) div d * d = x + (d - x mod d)"
proof -
  define q r where "q = x div d" and "r = x mod d"
  have x: "x = q * d + r" "r < d" "1 \<le> r" using assms by (simp_all add: q_def r_def)
  have "(x + (d - 1)) div d = ((q + 1) * d + (r - 1)) div d" using x by (simp add: algebra_simps)
  also have "((q + 1) * d + (r - 1)) div d = q + 1" using x by (intro div_nat_eqI) (simp_all add: algebra_simps)
  finally have "(x + (d - 1)) div d = q + 1" .
  then have "(x + (d - 1)) div d * d = (q + 1) * d" by simp
  also have "\<dots> = x + (d - r)" using x by (simp add: algebra_simps)
  finally show ?thesis by (simp add: r_def)
qed

text \<open>The aligned address: a multiple of the alignment, at least a word and at most the alignment above.\<close>

lemma align_ptr_facts:
  assumes k: "2 \<le> k" "k < 32" and p: "4 dvd unat p" "unat p + 2 ^ k < 2 ^ 32"
  shows "unat (align_ptr p (2 ^ k)) mod 2 ^ k = 0" "unat p + 4 \<le> unat (align_ptr p (2 ^ k))"
    "unat (align_ptr p (2 ^ k)) \<le> unat p + 2 ^ k"
proof -
  have e: "unat ((2 :: u32) ^ k) = 2 ^ k" 
  proof -
    have "(2 :: u32) ^ k = of_nat (2 ^ k)" by simp
    moreover have "(2 :: nat) ^ k < 2 ^ 32" using k(2) by (intro power_strict_increasing) auto
    ultimately show ?thesis using unat_word_of_nat [of "2 ^ k", where 'a = 32] by simp
  qed
  have d4: "(4 :: nat) dvd 2 ^ k" using le_imp_power_dvd [OF k(1), of 2] by simp
  then have four: "(4 :: nat) \<le> 2 ^ k" by (simp add: dvd_imp_le)
  have "unat (align_ptr p (2 ^ k)) = (if unat p mod 2 ^ k = 0 then unat p + 2 ^ k else unat p + (2 ^ k - unat p mod 2 ^ k))"
  proof (cases "unat p mod 2 ^ k = 0")
    case True
    have "unat (p + 2 ^ k) = unat p + 2 ^ k" using e p(2) by (simp only: unat_plus) simp
    with True show ?thesis by (simp add: align_ptr_def exp_minus_1_mask and_mask_0)
  next
    case False
    have m: "unat (mask k :: u32) = 2 ^ k - 1"
      unfolding exp_minus_1_mask [symmetric] using e by (simp add: unat_sub word_le_nat_alt)
    have "unat (p + mask k) = unat p + (2 ^ k - 1)" using p(2) m by (simp only: unat_plus) simp
    then have "unat ((p + mask k) AND NOT (mask k)) = unat p + (2 ^ k - unat p mod 2 ^ k)"
      using round_up [of "2 ^ k" "unat p"] False by (simp add: unat_and_not_mask)
    with False show ?thesis by (simp add: align_ptr_def exp_minus_1_mask and_mask_0)
  qed
  moreover have "unat p mod 2 ^ k < 2 ^ k" by simp
  moreover have "4 \<le> (2 :: nat) ^ k - unat p mod 2 ^ k"
  proof -
    have "4 dvd unat p mod 2 ^ k" using p(1) d4 by (simp add: dvd_mod)
    then have "4 dvd 2 ^ k - unat p mod 2 ^ k" using d4 by (simp add: dvd_diff_nat)
    then show ?thesis by (rule dvd_imp_le) simp
  qed
  moreover have "(unat p + (2 ^ k - unat p mod 2 ^ k)) mod 2 ^ k = 0"
  proof -
    have "unat p + (2 ^ k - unat p mod 2 ^ k) = unat p - unat p mod 2 ^ k + 2 ^ k" by simp
    also have "\<dots> mod 2 ^ k = 0" by (simp add: minus_mod_eq_mult_div)
    finally show ?thesis .
  qed
  ultimately show "unat (align_ptr p (2 ^ k)) mod 2 ^ k = 0" "unat p + 4 \<le> unat (align_ptr p (2 ^ k))"
    "unat (align_ptr p (2 ^ k)) \<le> unat p + 2 ^ k"
    using four by auto
qed

lemma load_store_word: "load_word (store_word a w m) a = w"
proof (rule bit_word_eqI)
  fix n assume "n < LENGTH(32)"
  then show "bit (load_word (store_word a w m) a) n = bit w n"
    by (cases "n < 16"; cases "n < 24") (auto simp: load_word_def store_word_bytes bit_simps less_4)
qed


section \<open>The property\<close>

lemma malloc_align_block:
  assumes ok: "heap_ok h" and a: "heap_alloc h (rt_align sz + 2 ^ k) = Some (q, h1)"
    and k: "2 \<le> k" "k < 32" and sz: "unat (rt_align sz) + 2 ^ k < 2 ^ 32" "unat sz + 3 < 2 ^ 32"
  shows "unat (align_ptr q (2 ^ k)) mod 2 ^ k = 0"
    "{unat (align_ptr q (2 ^ k)) - 4 ..< unat (align_ptr q (2 ^ k)) + unat sz} \<subseteq> heap_region h1 q"
proof -
  note f = heap_alloc_fresh [OF ok a]
  have q: "q \<in> heap_live h1" "heap_ok h1" using f by auto
  note r = live_region [OF q(2,1)]
  have d4: "4 dvd (2 :: nat) ^ k" using le_imp_power_dvd [OF k(1), of 2] by simp
  have "(2 :: u32) ^ k = of_nat (2 ^ k)" by simp
  moreover have "(2 :: nat) ^ k < 2 ^ 32" using k(2) by (intro power_strict_increasing) auto
  ultimately have e: "unat ((2 :: u32) ^ k) = 2 ^ k" using unat_word_of_nat [of "2 ^ k", where 'a = 32] by simp
  have s: "unat (rt_align sz + 2 ^ k) = unat (rt_align sz) + 2 ^ k" using sz(1) e by (simp only: unat_plus) simp
  then have "rt_align (rt_align sz + 2 ^ k) = rt_align sz + 2 ^ k" using d4 dvd_rt_align by (intro rt_align_dvd) simp
  then have len: "unat (rt_align sz) + 2 ^ k \<le> unat (req_len (rt_align sz + 2 ^ k))"
    using req_len_facts(3) [of "rt_align sz + 2 ^ k"] s by simp
  have "{unat q ..< unat q + unat (req_len (rt_align sz + 2 ^ k))} \<subseteq> {unat q ..< unat q + user_size h1 q}"
    using f r(1) by auto
  then have us: "unat (req_len (rt_align sz + 2 ^ k)) \<le> user_size h1 q"
    using req_len_facts(2) [of "rt_align sz + 2 ^ k"] by (auto simp: ivl_subset)
  have "unat q + 2 ^ k < 2 ^ 32" using r(2) us len by linarith
  note p = align_ptr_facts [OF k r(3) this]
  show "unat (align_ptr q (2 ^ k)) mod 2 ^ k = 0" by (rule p(1))
  show "{unat (align_ptr q (2 ^ k)) - 4 ..< unat (align_ptr q (2 ^ k)) + unat sz} \<subseteq> heap_region h1 q"
    using p(2,3) us len unat_rt_align_ge(1) [OF sz(2)] unfolding r(1) by (auto simp: ivl_subset)
qed



text \<open>With alignment 0 the word before address 0 is overwritten and the block is lost.\<close>

lemma malloc_align_zero:
  assumes "rt_malloc (rt_align sz) h = Some (q, h1)" "q \<noteq> 0"
  shows "rt_malloc_align sz 0 h = Some (0, h1\<lparr>bytes := store_word (- 4) q (bytes h1)\<rparr>)"
proof -
  have "rt_align 0 = 0" by (simp add: rt_align_def)
  moreover have "align_ptr q 0 = 0" using assms(2) by (simp add: align_ptr_def)
  ultimately show ?thesis using assms by (simp add: rt_malloc_align_def Let_def)
qed

text \<open>Duplicating a string that does not lie in the new block.\<close>

lemma cstr_mem_copy:
  "cstr m p s \<Longrightarrow> \<forall>i \<le> length s. m' (d + of_nat i) = m (p + of_nat i) \<Longrightarrow> cstr m' d s"
proof (induction s arbitrary: p d)
  case (Cons c s)
  have "\<forall>i \<le> length s. m' (d + 1 + of_nat i) = m (p + 1 + of_nat i)"
  proof (intro allI impI)
    fix i assume "i \<le> length s"
    with Cons.prems(2) [rule_format, of "Suc i"] show "m' (d + 1 + of_nat i) = m (p + 1 + of_nat i)"
      by (simp add: algebra_simps)
  qed
  with Cons.IH [of "p + 1" "d + 1"] Cons.prems show ?case by (auto dest: spec [of _ 0])
qed simp

lemma rt_strdup_spec:
  assumes s: "cstr (bytes h) p s" "length s + 1 < 2 ^ 32" and a: "heap_alloc h (of_nat (length s) + 1) = Some (q, h1)"
    and b: "bytes h1 = bytes h" and safe: "up_safe q p (of_nat (length s) + 1)"
  shows "\<exists>h'. rt_strdup p h = Some (q, h') \<and> cstr (bytes h') q s \<and> heap_live h' = heap_live h1"
proof -
  let ?n = "of_nat (length s) + 1 :: u32"
  have m: "rt_malloc ?n h = Some (q, h1)" "q \<noteq> 0"
    using a unfolding heap_alloc_def by (cases "rt_malloc ?n h"; auto split: if_splits)+
  then have r: "rt_strdup p h = Some (q, copy_bytes q p ?n h1)" using rt_strlen_spec [OF s(1)] by (simp add: rt_strdup_def)
  have "of_nat i < ?n" if "i \<le> length s" for i
  proof -
    have e: "?n = of_nat (length s + 1)" by simp
    have "unat ?n = length s + 1" unfolding e by (rule unat_word_of_nat) (use s(2) in simp)
    moreover have "unat (of_nat i :: u32) = i" using s(2) that by (intro unat_word_of_nat) simp
    ultimately show ?thesis using that by (simp add: word_less_nat_alt)
  qed
  then have "cstr (mem_copy q p ?n (bytes h)) q s"
    by (intro cstr_mem_copy [OF s(1)]) (simp add: mem_copy_def)
  then show ?thesis using r b safe by (simp add: copy_bytes_def rt_memcpy_eq)
qed

end
