(* ===== verification/Format_Output.thy ===== *)
theory Format_Output
  imports C_Strings
begin

text \<open>
  The formatted output of \<open>kservice.c\<close> (\<open>RT_PRINTF_PRECISION\<close> defined, \<open>RT_PRINTF_SPECIAL\<close> and
  \<open>RT_PRINTF_LONGLONG\<close> not). The format is the list of its characters, the arguments are words,
  and output goes to the memory: \<open>put\<close> is the code's \<open>if (str < end) *str = c; ++str\<close>. \<open>None\<close> is a missing
  argument or a string argument that is not terminated.
\<close>

unbundle bit_operations_syntax

section \<open>Numbers\<close>

type_synonym out = "memory \<times> u32"

definition put :: "u32 \<Rightarrow> u8 \<Rightarrow> out \<Rightarrow> out" where
  "put e c ot = (case ot of (m, str) \<Rightarrow> (if str < e then m(str := c) else m, str + 1))"

abbreviation (input) ZEROPAD :: u8 where "ZEROPAD \<equiv> 1"
abbreviation (input) SIGN :: u8 where "SIGN \<equiv> 2"
abbreviation (input) PLUS :: u8 where "PLUS \<equiv> 4"
abbreviation (input) SPACE :: u8 where "SPACE \<equiv> 8"
abbreviation (input) LEFT :: u8 where "LEFT \<equiv> 16"
abbreviation (input) SPECIAL :: u8 where "SPECIAL \<equiv> 32"
abbreviation (input) LARGE :: u8 where "LARGE \<equiv> 64"

definition divide :: "u32 \<Rightarrow> int \<Rightarrow> u32 \<times> u32" where
  "divide n base = (if base = 10 then (n mod 10, n div 10) else (n mod 16, n div 16))"

definition is_digit :: "u8 \<Rightarrow> bool" where
  "is_digit c \<longleftrightarrow> (word_of_int (uint c - 0x30) :: u32) < 10"

fun skip_atoi :: "u8 list \<Rightarrow> int \<Rightarrow> int \<times> u8 list" where
  "skip_atoi (c # s) i = (if is_digit c then skip_atoi s (i * 10 + uint c - 0x30) else (i, c # s))"
| "skip_atoi [] i = (i, [])"

definition small_digits :: "u8 list" where
  "small_digits = [0x30, 0x31, 0x32, 0x33, 0x34, 0x35, 0x36, 0x37, 0x38, 0x39, 0x61, 0x62, 0x63, 0x64, 0x65, 0x66]"

definition large_digits :: "u8 list" where
  "large_digits = [0x30, 0x31, 0x32, 0x33, 0x34, 0x35, 0x36, 0x37, 0x38, 0x39, 0x41, 0x42, 0x43, 0x44, 0x45, 0x46]"

text \<open>The digits in \<open>tmp\<close>, the last one first.\<close>

function tmp_digits :: "u8 list \<Rightarrow> int \<Rightarrow> u32 \<Rightarrow> u8 list" where
  "tmp_digits digits base num =
     (if num \<noteq> 0 then digits ! unat (fst (divide num base)) # tmp_digits digits base (snd (divide num base)) else [])"
  by auto
termination by (relation "measure (\<lambda>(d, b, n). unat n)") (auto simp: divide_def unat_div unat_gt_0)

definition print_tmp :: "u8 list \<Rightarrow> int \<Rightarrow> u32 \<Rightarrow> u8 list" where
  "print_tmp digits base num = (if num = 0 then [0x30] else tmp_digits digits base num)"

text \<open>The loops \<open>while (size-- > 0)\<close>, \<open>while (i < precision--)\<close> and \<open>while (i-- > 0 && ...)\<close>.\<close>

function pad_size :: "u32 \<Rightarrow> u8 \<Rightarrow> int \<Rightarrow> out \<Rightarrow> int \<times> out" where
  "pad_size e c sz ot = (if 0 < sz then pad_size e c (sz - 1) (put e c ot) else (sz - 1, ot))"
  by auto
termination by (relation "measure (\<lambda>(e, c, s, ot). nat s)") auto

function pad_precision :: "u32 \<Rightarrow> int \<Rightarrow> int \<Rightarrow> out \<Rightarrow> out" where
  "pad_precision e i prec ot = (if i < prec then pad_precision e i (prec - 1) (put e 0x30 ot) else ot)"
  by auto
termination by (relation "measure (\<lambda>(e, i, p, ot). nat (p - i))") auto

primrec put_tmp :: "u32 \<Rightarrow> u8 list \<Rightarrow> nat \<Rightarrow> out \<Rightarrow> out" where
  "put_tmp e tmp 0 ot = ot"
| "put_tmp e tmp (Suc i) ot = put_tmp e tmp i (put e (tmp ! i) ot)"

definition number_sign :: "u8 \<Rightarrow> u32 \<Rightarrow> u8 \<times> u32" where
  "number_sign type num =
     (if type AND SIGN \<noteq> 0
      then (if sint num < 0 then (0x2D, - num) else if type AND PLUS \<noteq> 0 then (0x2B, num)
            else if type AND SPACE \<noteq> 0 then (0x20, num) else (0, num))
      else (0, num))"

definition pad_first :: "u32 \<Rightarrow> u8 \<Rightarrow> u8 \<Rightarrow> int \<Rightarrow> out \<Rightarrow> int \<times> out" where
  "pad_first e type sign sz ot =
     (if type AND (ZEROPAD OR LEFT) = 0 then pad_size e 0x20 (if sign \<noteq> 0 \<and> 0 < sz then sz - 1 else sz) ot
      else (sz, ot))"

definition put_sign :: "u32 \<Rightarrow> u8 \<Rightarrow> int \<Rightarrow> out \<Rightarrow> int \<times> out" where
  "put_sign e sign sz ot = (if sign \<noteq> 0 then (sz - 1, put e sign ot) else (sz, ot))"

definition pad_right :: "u32 \<Rightarrow> u8 \<Rightarrow> int \<Rightarrow> out \<Rightarrow> int \<times> out" where
  "pad_right e type sz ot =
     (if type AND LEFT = 0 then pad_size e (if type AND ZEROPAD \<noteq> 0 then 0x30 else 0x20) sz ot else (sz, ot))"

definition print_number :: "u32 \<Rightarrow> u32 \<Rightarrow> int \<Rightarrow> int \<Rightarrow> int \<Rightarrow> u8 \<Rightarrow> out \<Rightarrow> out" where
  "print_number e num0 base s prec0 type0 o0 =
     (let digits = (if type0 AND LARGE \<noteq> 0 then large_digits else small_digits);
          type = (if type0 AND LEFT \<noteq> 0 then type0 AND NOT ZEROPAD else type0);
          (sign, num) = number_sign type num0;
          tmp = print_tmp digits base num;
          i = int (length tmp);
          prec = (if prec0 < i then i else prec0);
          (size2, o1) = pad_first e type sign (s - prec) o0;
          (size3, o2) = put_sign e sign size2 o1;
          (size4, o3) = pad_right e type size3 o2;
          o4 = pad_precision e i prec o3;
          o5 = (if prec0 \<noteq> 0 then put_tmp e tmp (length tmp) o4 else o4) in
      snd (pad_size e 0x20 size4 o5))"

section \<open>The format\<close>

fun parse_flags :: "u8 list \<Rightarrow> u8 \<Rightarrow> u8 \<times> u8 list" where
  "parse_flags (c # s) flags =
     (if c = 0x2D then parse_flags s (flags OR LEFT)
      else if c = 0x2B then parse_flags s (flags OR PLUS)
      else if c = 0x20 then parse_flags s (flags OR SPACE)
      else if c = 0x23 then parse_flags s (flags OR SPECIAL)
      else if c = 0x30 then parse_flags s (flags OR ZEROPAD)
      else (flags, c # s))"
| "parse_flags [] flags = (flags, [])"

fun va_arg :: "u32 list \<Rightarrow> (u32 \<times> u32 list) option" where
  "va_arg [] = None"
| "va_arg (a # as) = Some (a, as)"

fun parse_width :: "u8 list \<Rightarrow> u8 \<Rightarrow> u32 list \<Rightarrow> (int \<times> u8 \<times> u8 list \<times> u32 list) option" where
  "parse_width [] flags args = Some (- 1, flags, [], args)"
| "parse_width (c # s) flags args =
     (if is_digit c then (let (w, s') = skip_atoi (c # s) 0 in Some (w, flags, s', args))
      else if c = 0x2A then do {
        (a, args') \<leftarrow> va_arg args;
        Some (if sint a < 0 then (- sint a, flags OR LEFT, s, args') else (sint a, flags, s, args'))
      }
      else Some (- 1, flags, c # s, args))"

fun parse_precision_arg :: "u8 list \<Rightarrow> u32 list \<Rightarrow> (int \<times> u8 list \<times> u32 list) option" where
  "parse_precision_arg [] args = Some (- 1, [], args)"
| "parse_precision_arg (c # s) args =
     (if is_digit c then (let (p, s') = skip_atoi (c # s) 0 in Some (p, s', args))
      else if c = 0x2A then do { (a, args') \<leftarrow> va_arg args; Some (sint a, s, args') }
      else Some (- 1, c # s, args))"

fun parse_precision :: "u8 list \<Rightarrow> u32 list \<Rightarrow> (int \<times> u8 list \<times> u32 list) option" where
  "parse_precision [] args = Some (- 1, [], args)"
| "parse_precision (c # s) args =
     (if c = 0x2E then do {
        (p, s', args') \<leftarrow> parse_precision_arg s args;
        Some (if p < 0 then 0 else p, s', args')
      }
      else Some (- 1, c # s, args))"

fun parse_qualifier :: "u8 list \<Rightarrow> u8 \<times> u8 list" where
  "parse_qualifier [] = (0, [])"
| "parse_qualifier (c # s) = (if c = 0x68 \<or> c = 0x6C then (c, s) else (0, c # s))"

text \<open>The loops \<open>while (--field_width > 0)\<close> and \<open>while (len < field_width--)\<close>.\<close>

function pad_char :: "u32 \<Rightarrow> int \<Rightarrow> out \<Rightarrow> int \<times> out" where
  "pad_char e w ot = (if 0 < w - 1 then pad_char e (w - 1) (put e 0x20 ot) else (w - 1, ot))"
  by auto
termination by (relation "measure (\<lambda>(e, w, ot). nat w)") auto

function pad_string :: "u32 \<Rightarrow> int \<Rightarrow> int \<Rightarrow> out \<Rightarrow> int \<times> out" where
  "pad_string e len w ot = (if len < w then pad_string e len (w - 1) (put e 0x20 ot) else (w - 1, ot))"
  by auto
termination by (relation "measure (\<lambda>(e, len, w, ot). nat (w - len))") auto

definition put_char :: "u32 \<Rightarrow> u8 \<Rightarrow> int \<Rightarrow> u8 \<Rightarrow> out \<Rightarrow> out" where
  "put_char e flags w c o0 =
     (let (w1, o1) = (if flags AND LEFT = 0 then pad_char e w o0 else (w, o0)) in
      snd (pad_char e w1 (put e c o1)))"

primrec put_bytes :: "u32 \<Rightarrow> nat \<Rightarrow> u32 \<Rightarrow> out \<Rightarrow> out" where
  "put_bytes e 0 s ot = ot"
| "put_bytes e (Suc n) s ot = put_bytes e n (s + 1) (put e (fst ot s) ot)"

text \<open>\<open>put_bytes\<close> reads the string from the memory it writes to. The text for a null pointer is a constant.\<close>

definition null_text :: "u8 list" where
  "null_text = [0x28, 0x4E, 0x55, 0x4C, 0x4C, 0x29]"

definition put_string :: "u32 \<Rightarrow> u8 \<Rightarrow> int \<Rightarrow> int \<Rightarrow> u32 \<Rightarrow> out \<Rightarrow> out option" where
  "put_string e flags w prec s o0 = do {
     n \<leftarrow> (if s = 0 then Some 6 else rt_strlen s (fst o0));
     let len = (if 0 < prec \<and> prec < sint n then prec else sint n);
         (w1, o1) = (if flags AND LEFT = 0 then pad_string e len w o0 else (w, o0));
         o2 = (if s = 0 then fold (put e) (take (nat len) null_text) o1 else put_bytes e (nat len) s o1) in
     Some (snd (pad_string e len w1 o2))
   }"

definition conv_base :: "u8 \<Rightarrow> int" where
  "conv_base c = (if c = 0x6F then 8 else if c = 0x58 \<or> c = 0x78 then 16 else 10)"

definition conv_flags :: "u8 \<Rightarrow> u8 \<Rightarrow> u8" where
  "conv_flags c flags =
     (if c = 0x58 then flags OR LARGE else if c = 0x64 \<or> c = 0x69 then flags OR SIGN else flags)"

definition conv_num :: "u8 \<Rightarrow> u8 \<Rightarrow> u32 \<Rightarrow> u32" where
  "conv_num qualifier flags a =
     (if qualifier = 0x68
      then (let h = ucast a :: u16 in if flags AND SIGN \<noteq> 0 then scast h else ucast h)
      else a)"

definition convert :: "u32 \<Rightarrow> u8 \<Rightarrow> int \<Rightarrow> int \<Rightarrow> u8 \<Rightarrow> u8 \<Rightarrow> u32 list \<Rightarrow> out \<Rightarrow> (u32 list \<times> out) option" where
  "convert e flags w prec qualifier c args o0 =
     (if c = 0x63 then do { (a, args') \<leftarrow> va_arg args; Some (args', put_char e flags w (ucast a) o0) }
      else if c = 0x73 then do {
        (a, args') \<leftarrow> va_arg args;
        o1 \<leftarrow> put_string e flags w prec a o0;
        Some (args', o1)
      }
      else if c = 0x70 then do {
        (a, args') \<leftarrow> va_arg args;
        Some (args', print_number e a 16 (if w = - 1 then 8 else w) prec (if w = - 1 then flags OR ZEROPAD else flags) o0)
      }
      else if c = 0x25 then Some (args, put e 0x25 o0)
      else if c \<in> {0x6F, 0x58, 0x78, 0x64, 0x69, 0x75} then do {
        (a, args') \<leftarrow> va_arg args;
        Some (args', print_number e (conv_num qualifier (conv_flags c flags) a) (conv_base c) w prec (conv_flags c flags) o0)
      }
      else Some (args, put e c (put e 0x25 o0)))"

definition parse_spec :: "u8 list \<Rightarrow> u32 list \<Rightarrow> (u8 \<times> int \<times> int \<times> u8 \<times> u8 list \<times> u32 list) option" where
  "parse_spec fmt args = do {
     (w, flags, s2, args2) \<leftarrow> parse_width (snd (parse_flags fmt 0)) (fst (parse_flags fmt 0)) args;
     (prec, s3, args3) \<leftarrow> parse_precision s2 args2;
     Some (flags, w, prec, fst (parse_qualifier s3), snd (parse_qualifier s3), args3)
   }"

definition directive :: "u32 \<Rightarrow> u8 list \<Rightarrow> u32 list \<Rightarrow> out \<Rightarrow> (u8 list \<times> u32 list \<times> out) option" where
  "directive e fmt args o0 = do {
     (flags, w, prec, qualifier, s, args1) \<leftarrow> parse_spec fmt args;
     case s of
       [] \<Rightarrow> Some ([], args1, put e 0x25 o0)
     | c # s' \<Rightarrow> do { (args2, o1) \<leftarrow> convert e flags w prec qualifier c args1 o0; Some (s', args2, o1) }
   }"

lemmas [simp del] = tmp_digits.simps pad_size.simps pad_precision.simps pad_char.simps pad_string.simps skip_atoi.simps

lemma length_skip_atoi: "length (snd (skip_atoi s i)) \<le> length s"
  by (induction s i rule: skip_atoi.induct) (auto simp: skip_atoi.simps intro: le_SucI)

lemma length_parse_flags: "length (snd (parse_flags s f)) \<le> length s"
  by (induction s f rule: parse_flags.induct) (auto intro: le_SucI)

lemma length_parse_width: "parse_width s f args = Some (w, f', s', args') \<Longrightarrow> length s' \<le> length s"
  using length_skip_atoi [of s 0]
  by (cases s) (auto split: if_splits prod.splits simp: Let_def bind_eq_Some_conv)

lemma length_parse_precision: "parse_precision s args = Some (p, s', args') \<Longrightarrow> length s' \<le> length s"
proof (cases s)
  case (Cons c t)
  have "parse_precision_arg t args = Some (p0, s0, args0) \<Longrightarrow> length s0 \<le> length t" for p0 s0 args0
    using length_skip_atoi [of t 0]
    by (cases t) (auto split: if_splits prod.splits simp: Let_def bind_eq_Some_conv)
  moreover assume "parse_precision s args = Some (p, s', args')"
  ultimately show ?thesis using Cons by (fastforce split: if_splits simp: bind_eq_Some_conv)
qed simp

lemma length_parse_qualifier: "length (snd (parse_qualifier s)) \<le> length s"
  by (cases s) simp_all

lemma length_parse_spec:
  assumes "parse_spec fmt args = Some (flags, w, prec, q, s, args1)"
  shows "length s \<le> length fmt"
proof -
  from assms obtain f0 s2 args2 s3 where p:
    "parse_width (snd (parse_flags fmt 0)) (fst (parse_flags fmt 0)) args = Some (w, flags, s2, args2)"
    "parse_precision s2 args2 = Some (prec, s3, args1)" "s = snd (parse_qualifier s3)"
    by (auto simp: parse_spec_def bind_eq_Some_conv)
  from length_parse_width [OF p(1)] length_parse_precision [OF p(2)] length_parse_qualifier [of s3]
    length_parse_flags [of fmt 0] show ?thesis unfolding p(3) by linarith
qed

lemma directive_cases:
  assumes "directive e fmt args o0 = Some (s', args', o1)"
  obtains (stop) flags w prec q where "parse_spec fmt args = Some (flags, w, prec, q, [], args')" "s' = []" "o1 = put e 0x25 o0"
  | (conv) flags w prec q c args1 where "parse_spec fmt args = Some (flags, w, prec, q, c # s', args1)"
      "convert e flags w prec q c args1 o0 = Some (args', o1)"
proof -
  from assms obtain flags w prec q s args1 where p: "parse_spec fmt args = Some (flags, w, prec, q, s, args1)"
    "(case s of [] \<Rightarrow> Some ([], args1, put e 0x25 o0)
     | c # s' \<Rightarrow> do { (args2, o1) \<leftarrow> convert e flags w prec q c args1 o0; Some (s', args2, o1) }) = Some (s', args', o1)"
    unfolding directive_def bind_eq_Some_conv by auto
  show thesis
  proof (cases s)
    case Nil
    with p show thesis by (intro stop) auto
  next
    case (Cons c t)
    with p show thesis by (intro conv [of flags w prec q c args1]) (auto simp: bind_eq_Some_conv)
  qed
qed

lemma length_directive: "directive e fmt args o0 = Some (s', args', o1) \<Longrightarrow> length s' \<le> length fmt"
  by (elim directive_cases) (auto dest: length_parse_spec)

function vsn_loop :: "u32 \<Rightarrow> u8 list \<Rightarrow> u32 list \<Rightarrow> out \<Rightarrow> out option" where
  "vsn_loop e [] args o0 = Some o0"
| "vsn_loop e (c # fmt) args o0 =
     (if c \<noteq> 0x25 then vsn_loop e fmt args (put e c o0)
      else (case directive e fmt args o0 of
          None \<Rightarrow> None
        | Some (fmt', args', o1) \<Rightarrow> vsn_loop e fmt' args' o1))"
  by pat_completeness auto
termination by (relation "measure (\<lambda>(e, fmt, args, o0). length fmt)") (auto dest!: length_directive)

definition rt_vsnprintf :: "u32 \<Rightarrow> u32 \<Rightarrow> u8 list \<Rightarrow> u32 list \<Rightarrow> memory \<Rightarrow> (int \<times> memory) option" where
  "rt_vsnprintf buf sz fmt args m =
     (let e0 = buf + sz;
          (e, sz1) = (if e0 < buf then (- 1, - 1 - buf) else (e0, sz)) in do {
        (m1, str) \<leftarrow> vsn_loop e fmt args (m, buf);
        Some (sint (str - buf), if 0 < sz1 then (if str < e then m1(str := 0) else m1(e - 1 := 0)) else m1)
      })"

definition rt_snprintf :: "u32 \<Rightarrow> u32 \<Rightarrow> u8 list \<Rightarrow> u32 list \<Rightarrow> memory \<Rightarrow> (int \<times> memory) option" where
  "rt_snprintf buf sz fmt args m = rt_vsnprintf buf sz fmt args m"

definition rt_vsprintf :: "u32 \<Rightarrow> u8 list \<Rightarrow> u32 list \<Rightarrow> memory \<Rightarrow> (int \<times> memory) option" where
  "rt_vsprintf buf fmt args m = rt_vsnprintf buf (- 1) fmt args m"

definition rt_sprintf :: "u32 \<Rightarrow> u8 list \<Rightarrow> u32 list \<Rightarrow> memory \<Rightarrow> (int \<times> memory) option" where
  "rt_sprintf buf fmt args m = rt_vsprintf buf fmt args m"

section \<open>Everything is a sequence of puts\<close>

definition emit :: "u32 \<Rightarrow> u8 list \<Rightarrow> out \<Rightarrow> out" where
  "emit e cs ot = fold (put e) cs ot"

lemma emit_simps [simp]: "emit e [] ot = ot" "emit e (c # cs) ot = emit e cs (put e c ot)"
  by (simp_all add: emit_def)

lemma emit_append: "emit e (xs @ ys) ot = emit e ys (emit e xs ot)"
  by (simp add: emit_def)

lemma put_emit: "put e c ot = emit e [c] ot"
  by simp

lemma pad_size_emit: "pad_size e c sz ot = (min (sz - 1) (- 1), emit e (replicate (nat sz) c) ot)"
proof (induction e c sz ot rule: pad_size.induct)
  case (1 e c sz ot)
  show ?case
  proof (cases "0 < sz")
    case True
    then have "nat sz = Suc (nat (sz - 1))" by simp
    with True 1 show ?thesis by (subst pad_size.simps) (auto simp del: emit_def simp: min_def)
  next
    case False
    then show ?thesis by (subst pad_size.simps) simp
  qed
qed

lemma pad_precision_emit: "pad_precision e i p ot = emit e (replicate (nat (p - i)) 0x30) ot"
proof (induction e i p ot rule: pad_precision.induct)
  case (1 e i p ot)
  show ?case
  proof (cases "i < p")
    case True
    then have "nat (p - i) = Suc (nat (p - 1 - i))" by simp
    with True 1 show ?thesis by (subst pad_precision.simps) simp
  next
    case False
    then show ?thesis by (subst pad_precision.simps) simp
  qed
qed

lemma put_tmp_emit: "n \<le> length tmp \<Longrightarrow> put_tmp e tmp n ot = emit e (rev (take n tmp)) ot"
  by (induction n arbitrary: ot) (simp_all add: take_Suc_conv_app_nth)

lemma pad_char_emit: "pad_char e w ot = (min (w - 1) 0, emit e (replicate (nat (w - 1)) 0x20) ot)"
proof (induction e w ot rule: pad_char.induct)
  case (1 e w ot)
  show ?case
  proof (cases "0 < w - 1")
    case True
    then have "nat (w - 1) = Suc (nat (w - 1 - 1))" by simp
    with True 1 show ?thesis by (subst pad_char.simps) (auto simp: min_def)
  next
    case False
    then show ?thesis by (subst pad_char.simps) simp
  qed
qed

lemma pad_string_emit: "pad_string e n w ot = (min (w - 1) (n - 1), emit e (replicate (nat (w - n)) 0x20) ot)"
proof (induction e n w ot rule: pad_string.induct)
  case (1 e n w ot)
  show ?case
  proof (cases "n < w")
    case True
    then have "nat (w - n) = Suc (nat (w - 1 - n))" by simp
    with True 1 show ?thesis by (subst pad_string.simps) (auto simp: min_def)
  next
    case False
    then show ?thesis by (subst pad_string.simps) simp
  qed
qed

text \<open>What the parts of \<open>print_number\<close> put, and the size left after each.\<close>

definition first_size :: "u8 \<Rightarrow> u8 \<Rightarrow> int \<Rightarrow> int" where
  "first_size type sign sz =
     (if type AND (ZEROPAD OR LEFT) = 0 then min ((if sign \<noteq> 0 \<and> 0 < sz then sz - 1 else sz) - 1) (- 1) else sz)"

definition first_text :: "u8 \<Rightarrow> u8 \<Rightarrow> int \<Rightarrow> u8 list" where
  "first_text type sign sz =
     (if type AND (ZEROPAD OR LEFT) = 0 then replicate (nat (if sign \<noteq> 0 \<and> 0 < sz then sz - 1 else sz)) 0x20 else [])"

definition sign_text :: "u8 \<Rightarrow> u8 list" where
  "sign_text sign = (if sign \<noteq> 0 then [sign] else [])"

definition right_size :: "u8 \<Rightarrow> int \<Rightarrow> int" where
  "right_size type sz = (if type AND LEFT = 0 then min (sz - 1) (- 1) else sz)"

definition right_text :: "u8 \<Rightarrow> int \<Rightarrow> u8 list" where
  "right_text type sz =
     (if type AND LEFT = 0 then replicate (nat sz) (if type AND ZEROPAD \<noteq> 0 then 0x30 else 0x20) else [])"

lemma pad_first_emit: "pad_first e type sign sz ot = (first_size type sign sz, emit e (first_text type sign sz) ot)"
  by (simp add: pad_first_def first_size_def first_text_def pad_size_emit)

lemma put_sign_emit: "put_sign e sign sz ot = ((if sign \<noteq> 0 then sz - 1 else sz), emit e (sign_text sign) ot)"
  by (simp add: put_sign_def sign_text_def)

lemma pad_right_emit: "pad_right e type sz ot = (right_size type sz, emit e (right_text type sz) ot)"
  by (simp add: pad_right_def right_size_def right_text_def pad_size_emit)

definition number_text :: "int \<Rightarrow> int \<Rightarrow> int \<Rightarrow> u8 \<Rightarrow> u32 \<Rightarrow> u8 list" where
  "number_text base s prec0 type0 num0 =
     (let digits = (if type0 AND LARGE \<noteq> 0 then large_digits else small_digits);
          type = (if type0 AND LEFT \<noteq> 0 then type0 AND NOT ZEROPAD else type0);
          sign = fst (number_sign type num0);
          tmp = print_tmp digits base (snd (number_sign type num0));
          prec = (if prec0 < int (length tmp) then int (length tmp) else prec0);
          size2 = first_size type sign (s - prec);
          size3 = (if sign \<noteq> 0 then size2 - 1 else size2) in
      first_text type sign (s - prec) @ sign_text sign @ right_text type size3
        @ replicate (nat (prec - int (length tmp))) 0x30 @ (if prec0 \<noteq> 0 then rev tmp else [])
        @ replicate (nat (right_size type size3)) 0x20)"

lemma print_number_emit: "print_number e num base s prec type ot = emit e (number_text base s prec type num) ot"
  unfolding print_number_def number_text_def Let_def case_prod_unfold pad_first_emit put_sign_emit pad_right_emit
    pad_precision_emit pad_size_emit fst_conv snd_conv
  by (simp only: put_tmp_emit [OF order_refl] take_all [OF order_refl] emit_append emit_simps split: if_split) simp

text \<open>The effect of puts, as long as the output does not run over the end of the address space.\<close>

lemma emit_spec:
  assumes "unat str + length cs < 2 ^ 32"
  shows "emit e cs (m, str) =
    ((\<lambda>a. if unat str \<le> unat a \<and> unat a < unat str + length cs \<and> a < e then cs ! (unat a - unat str) else m a),
     str + of_nat (length cs))"
  using assms
proof (induction cs arbitrary: m str)
  case Nil
  then show ?case by (auto simp: fun_eq_iff)
next
  case (Cons c cs)
  have u: "unat (str + 1) = unat str + 1" using Cons.prems by (simp only: unat_plus) simp
  have st: "emit e (c # cs) (m, str) = emit e cs (if str < e then m(str := c) else m, str + 1)"
    by (simp add: put_def)
  have "(if unat (str + 1) \<le> unat a \<and> unat a < unat (str + 1) + length cs \<and> a < e then cs ! (unat a - unat (str + 1))
      else (if str < e then m(str := c) else m) a) =
    (if unat str \<le> unat a \<and> unat a < unat str + length (c # cs) \<and> a < e then (c # cs) ! (unat a - unat str) else m a)" for a
  proof (cases "a = str")
    case True
    with u show ?thesis by simp
  next
    case False
    then have "unat a \<noteq> unat str" by (simp add: word_eq_unat)
    then have "unat str \<le> unat a \<longleftrightarrow> unat str + 1 \<le> unat a" by linarith
    with False u show ?thesis by (auto simp: nth_Cons')
  qed
  with Cons.IH [of "str + 1" "if str < e then m(str := c) else m"] Cons.prems u st show ?case
    by (simp add: algebra_simps)
qed


section \<open>The text of a format\<close>

text \<open>
  The reference: the characters that a format with its arguments stands for, with no memory, buffer or
  end. \<open>rd\<close> gives the string behind a pointer argument.
\<close>

definition char_text :: "u8 \<Rightarrow> int \<Rightarrow> u8 \<Rightarrow> u8 list" where
  "char_text flags w c =
     (if flags AND LEFT = 0 then replicate (nat (w - 1)) 0x20 @ [c] else c # replicate (nat (w - 1)) 0x20)"

definition string_text :: "u8 \<Rightarrow> int \<Rightarrow> int \<Rightarrow> u8 list \<Rightarrow> u8 list" where
  "string_text flags w prec s =
     (let body = (if 0 < prec then take (nat prec) s else s); pad = replicate (nat (w - int (length body))) 0x20 in
      if flags AND LEFT = 0 then pad @ body else body @ pad)"

definition convert_text :: "(u32 \<Rightarrow> u8 list option) \<Rightarrow> u8 \<Rightarrow> int \<Rightarrow> int \<Rightarrow> u8 \<Rightarrow> u8 \<Rightarrow> u32 list \<Rightarrow>
    (u32 list \<times> u8 list) option" where
  "convert_text rd flags w prec qualifier c args =
     (if c = 0x63 then do { (a, args') \<leftarrow> va_arg args; Some (args', char_text flags w (ucast a)) }
      else if c = 0x73 then do {
        (a, args') \<leftarrow> va_arg args;
        s \<leftarrow> (if a = 0 then Some null_text else rd a);
        Some (args', string_text flags w prec s)
      }
      else if c = 0x70 then do {
        (a, args') \<leftarrow> va_arg args;
        Some (args', number_text 16 (if w = - 1 then 8 else w) prec (if w = - 1 then flags OR ZEROPAD else flags) a)
      }
      else if c = 0x25 then Some (args, [0x25])
      else if c \<in> {0x6F, 0x58, 0x78, 0x64, 0x69, 0x75} then do {
        (a, args') \<leftarrow> va_arg args;
        Some (args', number_text (conv_base c) w prec (conv_flags c flags) (conv_num qualifier (conv_flags c flags) a))
      }
      else Some (args, [0x25, c]))"

definition directive_text :: "(u32 \<Rightarrow> u8 list option) \<Rightarrow> u8 list \<Rightarrow> u32 list \<Rightarrow> (u8 list \<times> u32 list \<times> u8 list) option" where
  "directive_text rd fmt args = do {
     (flags, w, prec, qualifier, s, args1) \<leftarrow> parse_spec fmt args;
     case s of
       [] \<Rightarrow> Some ([], args1, [0x25])
     | c # s' \<Rightarrow> do { (args2, t) \<leftarrow> convert_text rd flags w prec qualifier c args1; Some (s', args2, t) }
   }"

lemma length_directive_text: "directive_text rd fmt args = Some (s', args', t) \<Longrightarrow> length s' \<le> length fmt"
  by (auto simp: directive_text_def bind_eq_Some_conv neq_Nil_conv split: list.splits dest!: length_parse_spec)

function vsn_text :: "(u32 \<Rightarrow> u8 list option) \<Rightarrow> u8 list \<Rightarrow> u32 list \<Rightarrow> u8 list option" where
  "vsn_text rd [] args = Some []"
| "vsn_text rd (c # fmt) args =
     (if c \<noteq> 0x25 then map_option (Cons c) (vsn_text rd fmt args)
      else (case directive_text rd fmt args of
          None \<Rightarrow> None
        | Some (fmt', args', t) \<Rightarrow> map_option (append t) (vsn_text rd fmt' args')))"
  by pat_completeness auto
termination by (relation "measure (\<lambda>(rd, fmt, args). length fmt)") (auto dest!: length_directive_text)

section \<open>The code writes that text\<close>

lemma put_char_emit: "put_char e flags w c ot = emit e (char_text flags w c) ot"
  by (simp add: put_char_def char_text_def pad_char_emit emit_append Let_def)

text \<open>Memories that agree outside the output area.\<close>

definition agree :: "u32 \<Rightarrow> u32 \<Rightarrow> memory \<Rightarrow> memory \<Rightarrow> bool" where
  "agree buf e m m1 \<longleftrightarrow> (\<forall>a. \<not> (unat buf \<le> unat a \<and> a < e) \<longrightarrow> m1 a = m a)"

definition clear_of :: "u32 \<Rightarrow> u32 \<Rightarrow> u32 set \<Rightarrow> bool" where
  "clear_of buf e A \<longleftrightarrow> (\<forall>a \<in> A. \<not> (unat buf \<le> unat a \<and> a < e))"

lemma agree_refl [simp]: "agree buf e m m"
  by (simp add: agree_def)

lemma emit_agree:
  assumes "agree buf e m m1" "unat buf \<le> unat str" "unat str + length cs < 2 ^ 32"
  shows "agree buf e m (fst (emit e cs (m1, str)))"
  unfolding emit_spec [OF assms(3)] fst_conv using assms(1,2) unfolding agree_def by simp

lemma unat_emit:
  assumes "unat str + length cs < 2 ^ 32"
  shows "unat (snd (emit e cs (m, str))) = unat str + length cs"
proof -
  have "unat (of_nat (length cs) :: u32) = length cs" using assms by (intro unat_word_of_nat) simp
  then show ?thesis unfolding emit_spec [OF assms] snd_conv using assms by (simp only: unat_plus) simp
qed

lemma cstr_agree: "agree buf e m m1 \<Longrightarrow> clear_of buf e (cstr_area p s) \<Longrightarrow> cstr m1 p s = cstr m p s"
  by (induction s arbitrary: p) (auto simp: agree_def clear_of_def)

lemma put_bytes_emit:
  assumes "cstr m1 p s" "clear_of buf e (cstr_area p s)" "unat buf \<le> unat str" "unat str + n < 2 ^ 32" "n \<le> length s"
  shows "put_bytes e n p (m1, str) = emit e (take n s) (m1, str)"
  using assms
proof (induction n arbitrary: p s m1 str)
  case (Suc n)
  then obtain c t where s: "s = c # t" by (cases s) auto
  have u: "unat (str + 1) = unat str + 1" using Suc.prems(4) by (simp only: unat_plus) simp
  define m2 where "m2 = (if str < e then m1(str := c) else m1)"
  have ag: "agree buf e m1 m2" using Suc.prems(3) by (auto simp: agree_def m2_def)
  have cl: "clear_of buf e (cstr_area (p + 1) t)" using Suc.prems(2) s by (auto simp: clear_of_def)
  have "cstr m2 (p + 1) t" using cstr_agree [OF ag cl] Suc.prems(1) s by simp
  from Suc.IH [OF this cl, of "str + 1"] Suc.prems u s show ?case by (simp add: put_def m2_def)
qed simp

lemma put_string_emit:
  assumes s: "if p = 0 then s = null_text else cstr m p s \<and> length s < 2 ^ 31 \<and> clear_of buf e (cstr_area p s)"
    and a: "agree buf e m m1" "unat buf \<le> unat str" "unat str + length (string_text flags w prec s) < 2 ^ 32"
  shows "put_string e flags w prec p (m1, str) = Some (emit e (string_text flags w prec s) (m1, str))"
proof -
  define len where "len = (if 0 < prec \<and> prec < int (length s) then prec else int (length s))"
  define body where "body = (if 0 < prec then take (nat prec) s else s)"
  have b: "body = take (nat len) s" "length body = nat len" "0 \<le> len" "nat len \<le> length s"
    by (auto simp: body_def len_def)
  define pad where "pad = replicate (nat (w - len)) (0x20 :: u8)"
  have t: "string_text flags w prec s = (if flags AND LEFT = 0 then pad @ body else body @ pad)"
    using b by (simp add: string_text_def body_def [symmetric] pad_def)
  have n: "\<exists>n. (if p = 0 then Some 6 else rt_strlen p m1) = Some n \<and> sint n = int (length s)"
  proof (cases "p = 0")
    case True
    then show ?thesis using s by (simp add: null_text_def)
  next
    case False
    then have c: "cstr m1 p s" "length s < 2 ^ 31" using s cstr_agree [OF a(1)] by auto
    have "sint (of_nat (length s) :: u32) = int (length s)"
      using c(2) sint_of_small [of "of_nat (length s) :: u32"] by (simp add: unsigned_of_nat take_bit_nat_eq_self)
    with False show ?thesis using rt_strlen_spec [OF c(1)] by simp
  qed
  then obtain n where n: "(if p = 0 then Some 6 else rt_strlen p m1) = Some n" "sint n = int (length s)" by blast
  have bytes: "(if p = 0 then fold (put e) (take (nat len) null_text) (m2, str2) else put_bytes e (nat len) p (m2, str2))
      = emit e body (m2, str2)"
    if "agree buf e m m2" "unat buf \<le> unat str2" "unat str2 + length body < 2 ^ 32" for m2 str2
  proof (cases "p = 0")
    case True
    then show ?thesis using s b(1) by (simp add: emit_def)
  next
    case False
    then have c: "cstr m2 p s" "clear_of buf e (cstr_area p s)" using s cstr_agree [OF that(1)] by auto
    show ?thesis using put_bytes_emit [OF c that(2), of "nat len"] False that(3) b by simp
  qed
  show ?thesis
  proof (cases "flags AND LEFT = 0")
    case True
    have l: "unat str + length pad + length body < 2 ^ 32" using a(3) t True by simp
    then have l1: "unat str + length pad < 2 ^ 32" by simp
    obtain m2 str2 where o: "emit e pad (m1, str) = (m2, str2)" by fastforce
    have "agree buf e m m2" "unat str2 = unat str + length pad"
      using emit_agree [OF a(1,2) l1] unat_emit [OF l1, of e m1] o by simp_all
    with bytes [of m2 str2] l a(2) True n o t show ?thesis
      unfolding put_string_def fst_conv n(1) Option.bind.simps n(2) len_def [symmetric] Let_def
      by (simp add: pad_string_emit pad_def [symmetric] emit_append)
  next
    case False
    with bytes [of m1 str] a n t show ?thesis
      unfolding put_string_def fst_conv n(1) Option.bind.simps n(2) len_def [symmetric] Let_def
      by (simp add: pad_string_emit pad_def [symmetric] emit_append)
  qed
qed

definition reads_ok :: "(u32 \<Rightarrow> u8 list option) \<Rightarrow> u32 \<Rightarrow> u32 \<Rightarrow> memory \<Rightarrow> bool" where
  "reads_ok rd buf e m \<longleftrightarrow>
     (\<forall>p s. rd p = Some s \<longrightarrow> cstr m p s \<and> length s < 2 ^ 31 \<and> clear_of buf e (cstr_area p s))"

lemma convert_emit:
  assumes rd: "reads_ok rd buf e m" and t: "convert_text rd flags w prec q c args = Some (args', t)"
    and a: "agree buf e m m1" "unat buf \<le> unat str" "unat str + length t < 2 ^ 32"
  shows "convert e flags w prec q c args (m1, str) = Some (args', emit e t (m1, str))"
proof (cases "c = 0x73")
  case True
  with t obtain p s where p: "va_arg args = Some (p, args')" "(if p = 0 then Some null_text else rd p) = Some s"
    "t = string_text flags w prec s"
    by (auto simp: convert_text_def bind_eq_Some_conv)
  have "if p = 0 then s = null_text else cstr m p s \<and> length s < 2 ^ 31 \<and> clear_of buf e (cstr_area p s)"
    using p(2) rd by (auto simp: reads_ok_def split: if_splits)
  from put_string_emit [OF this a(1,2), of flags w prec] a(3) p True show ?thesis
    by (simp add: convert_def)
next
  case False
  with t show ?thesis
    unfolding convert_text_def convert_def
    by (cases "va_arg args") (auto simp: put_char_emit print_number_emit split: if_split_asm)
qed

lemma directive_emit:
  assumes rd: "reads_ok rd buf e m" and d: "directive_text rd fmt args = Some (s', args', t)"
    and a: "agree buf e m m1" "unat buf \<le> unat str" "unat str + length t < 2 ^ 32"
  shows "directive e fmt args (m1, str) = Some (s', args', emit e t (m1, str))"
proof -
  from d obtain flags w prec q s args1 where p: "parse_spec fmt args = Some (flags, w, prec, q, s, args1)"
    "(case s of [] \<Rightarrow> Some ([], args1, [0x25])
     | c # s' \<Rightarrow> do { (args2, t) \<leftarrow> convert_text rd flags w prec q c args1; Some (s', args2, t) }) = Some (s', args', t)"
    unfolding directive_text_def bind_eq_Some_conv by auto
  show ?thesis
  proof (cases s)
    case Nil
    with p show ?thesis by (auto simp: directive_def)
  next
    case (Cons c u)
    with p(2) have c: "convert_text rd flags w prec q c args1 = Some (args', t)" "u = s'"
      by (auto simp: bind_eq_Some_conv)
    from convert_emit [OF rd c(1) a] p(1) Cons c(2) show ?thesis by (simp add: directive_def)
  qed
qed

lemma vsn_loop_emit:
  "vsn_text rd fmt args = Some t \<Longrightarrow> reads_ok rd buf e m \<Longrightarrow> agree buf e m m1 \<Longrightarrow> unat buf \<le> unat str \<Longrightarrow>
    unat str + length t < 2 ^ 32 \<Longrightarrow> vsn_loop e fmt args (m1, str) = Some (emit e t (m1, str))"
proof (induction rd fmt args arbitrary: t m1 str rule: vsn_text.induct)
  case (2 rd c fmt args)
  note prems = 2(3-7)
  have next_ok: "agree buf e m (fst (emit e u (m1, str))) \<and> unat (snd (emit e u (m1, str))) = unat str + length u"
    if "unat str + length u < 2 ^ 32" for u
    using emit_agree [OF prems(3,4) that] unat_emit [OF that] by simp
  show ?case
  proof (cases "c = 0x25")
    case False
    with prems(1) obtain t' where t': "t = c # t'" "vsn_text rd fmt args = Some t'" by auto
    have l: "unat str + length [c] < 2 ^ 32" using prems(5) t' by simp
    from 2(1) [OF False t'(2) prems(2), of "fst (put e c (m1, str))" "snd (put e c (m1, str))"]
      next_ok [OF l] prems(4,5) t'(1) False show ?thesis by simp
  next
    case True
    with prems(1) obtain s args1 t1 t2 where d: "directive_text rd fmt args = Some (s, args1, t1)"
      "vsn_text rd s args1 = Some t2" "t = t1 @ t2"
      by (auto split: option.splits)
    have l: "unat str + length t1 < 2 ^ 32" using prems(5) d(3) by simp
    note di = directive_emit [OF prems(2) d(1) prems(3,4) l]
    have "vsn_loop e s args1 (emit e t1 (m1, str)) = Some (emit e t2 (emit e t1 (m1, str)))"
      using 2(2) [OF _ d(1) refl refl d(2) prems(2), of "fst (emit e t1 (m1, str))" "snd (emit e t1 (m1, str))"]
        next_ok [OF l] prems(4,5) d(3) True by simp
    with di d(3) True show ?thesis by (simp add: emit_append)
  qed
qed simp

section \<open>The properties\<close>

text \<open>The room before \<open>end\<close>: the buffer, cut at the last address.\<close>

definition out_room :: "u32 \<Rightarrow> u32 \<Rightarrow> nat" where
  "out_room buf sz = min (unat sz) (2 ^ 32 - 1 - unat buf)"

definition out_end :: "u32 \<Rightarrow> u32 \<Rightarrow> u32" where
  "out_end buf sz = (if buf + sz < buf then - 1 else buf + sz)"

lemma unat_max_word: "unat (- 1 :: u32) = 2 ^ 32 - 1"
  by (simp add: unsigned_minus_1_eq_mask mask_eq_exp_minus_1)

lemma out_end_spec: "unat (out_end buf sz) = unat buf + out_room buf sz"
proof (cases "unat buf + unat sz < 2 ^ 32")
  case True
  then have "unat (buf + sz) = unat buf + unat sz" by (simp only: unat_plus) simp
  with True show ?thesis by (simp add: out_end_def out_room_def word_less_nat_alt)
next
  case False
  then have "unat (buf + sz) = unat buf + unat sz - 2 ^ 32" by (simp only: unat_plus) simp
  moreover have "unat sz < 2 ^ 32" "unat buf < 2 ^ 32" using unat_u32 [of sz] unat_u32 [of buf] by simp_all
  moreover have "unat (- 1 :: u32) = 2 ^ 32 - 1" by (rule unat_max_word)
  ultimately show ?thesis using False by (auto simp: out_end_def out_room_def word_less_nat_alt)
qed

lemma rt_vsnprintf_eq:
  "rt_vsnprintf buf sz fmt args m = do {
     (m1, str) \<leftarrow> vsn_loop (out_end buf sz) fmt args (m, buf);
     Some (sint (str - buf), if 0 < out_room buf sz
       then (if str < out_end buf sz then m1(str := 0) else m1(out_end buf sz - 1 := 0)) else m1)
   }"
proof -
  have "(0 < (if buf + sz < buf then - 1 - buf else sz)) = (0 < out_room buf sz)"
  proof (cases "unat buf + unat sz < 2 ^ 32")
    case True
    then have "unat (buf + sz) = unat buf + unat sz" by (simp only: unat_plus) simp
    with True show ?thesis by (auto simp: out_room_def word_less_nat_alt)
  next
    case False
    then have "unat (buf + sz) = unat buf + unat sz - 2 ^ 32" by (simp only: unat_plus) simp
    moreover have "unat sz < 2 ^ 32" "unat buf < 2 ^ 32" using unat_u32 [of sz] unat_u32 [of buf] by simp_all
    moreover have "unat (- 1 - buf) = 2 ^ 32 - 1 - unat buf"
      using unat_u32 [of buf] by (simp only: unat_minus unat_max_word) simp
    ultimately show ?thesis using False by (auto simp: out_room_def word_less_nat_alt)
  qed
  then show ?thesis
    unfolding rt_vsnprintf_def out_end_def by (auto simp: Let_def)
qed

lemma terminator_cell:
  assumes "0 < out_room buf sz" "unat buf + n < 2 ^ 32"
  defines "k \<equiv> min n (out_room buf sz - 1)"
  shows "unat (buf + of_nat k) = unat buf + k"
    "(if buf + of_nat n < out_end buf sz then buf + of_nat n else out_end buf sz - 1) = buf + of_nat k"
proof -
  let ?e = "out_end buf sz" and ?r = "out_room buf sz"
  note e = out_end_spec [of buf sz]
  have plus: "unat (buf + of_nat i) = unat buf + i" if "i \<le> n" for i
  proof -
    have "unat (of_nat i :: u32) = i" using assms(2) that by (intro unat_word_of_nat) simp
    moreover have "unat buf + i < 2 ^ 32" using assms(2) that by simp
    ultimately show ?thesis by (simp only: unat_plus) simp
  qed
  show bk: "unat (buf + of_nat k) = unat buf + k" by (rule plus) (simp add: k_def)
  have lte: "a < ?e \<longleftrightarrow> unat a < unat buf + ?r" for a using e by (simp add: word_less_nat_alt)
  have ue: "unat (?e - 1) = unat buf + ?r - 1" using e assms(1) by (simp add: unat_sub word_le_nat_alt)
  show "(if buf + of_nat n < ?e then buf + of_nat n else ?e - 1) = buf + of_nat k"
  proof (rule unsigned_word_eqI)
    show "unat (if buf + of_nat n < ?e then buf + of_nat n else ?e - 1) = unat (buf + of_nat k)"
      unfolding bk using assms(1) plus [of n] by (cases "n < ?r") (simp_all add: ue lte k_def)
  qed
qed


lemma demo_text: "vsn_text (\<lambda>_. None) [0x3D, 0x25, 0x36, 0x64, 0x7C] [0xFFFFFFD6] =
    Some [0x3D, 0x20, 0x20, 0x20, 0x2D, 0x34, 0x32, 0x7C]"
  by code_simp



section \<open>Numbers read back\<close>

lemma unat_divide: "unat (fst (divide n b)) = unat n mod (if b = 10 then 10 else 16)"
  "unat (snd (divide n b)) = unat n div (if b = 10 then 10 else 16)"
  by (simp_all add: divide_def unat_div unat_mod)

lemma small_digits_decimal: "k < 10 \<Longrightarrow> is_digit (small_digits ! k) \<and> uint (small_digits ! k) - 48 = int k"
proof -
  assume "k < 10"
  moreover have "\<forall>j \<in> set [0..<10]. is_digit (small_digits ! j) \<and> uint (small_digits ! j) - 48 = int j"
    by code_simp
  ultimately show ?thesis by simp
qed

definition hex_digit :: "u8 \<Rightarrow> int" where
  "hex_digit c = (if uint c < 58 then uint c - 48 else if uint c < 91 then uint c - 55 else uint c - 87)"

lemma hex_digits: "k < 16 \<Longrightarrow> hex_digit (small_digits ! k) = int k \<and> hex_digit (large_digits ! k) = int k"
proof -
  assume "k < 16"
  moreover have "\<forall>j \<in> set [0..<16]. hex_digit (small_digits ! j) = int j \<and> hex_digit (large_digits ! j) = int j"
    by code_simp
  ultimately show ?thesis by simp
qed

lemma skip_atoi_digits:
  "\<forall>c \<in> set cs. is_digit c \<Longrightarrow> skip_atoi (cs @ rest) i = skip_atoi rest (fold (\<lambda>c v. v * 10 + uint c - 48) cs i)"
  by (induction cs arbitrary: i) (simp_all add: skip_atoi.simps)

text \<open>Reading the digits in any radix; \<open>tmp\<close> holds the last digit first.\<close>

lemma tmp_digits_value:
  assumes d: "\<And>k. k < (if base = 10 then 10 else 16) \<Longrightarrow> val (digits ! k) = int k"
  shows "foldr (\<lambda>c v. v * (if base = 10 then 10 else 16) + val c) (tmp_digits digits base num) 0 = int (unat num)"
proof (induction "unat num" arbitrary: num rule: less_induct)
  case less
  let ?r = "if base = 10 then 10 else (16 :: nat)"
  show ?case
  proof (cases "num = 0")
    case False
    let ?q = "snd (divide num base)"
    have q: "unat ?q = unat num div ?r" "unat (fst (divide num base)) = unat num mod ?r" by (rule unat_divide)+
    then have "unat ?q < unat num" using False by (simp add: unat_gt_0)
    from less [OF this] d [of "unat num mod ?r"] False q
    have "foldr (\<lambda>c v. v * (if base = 10 then 10 else 16) + val c) (tmp_digits digits base num) 0 =
        int (unat num div ?r) * int ?r + int (unat num mod ?r)"
      by (subst tmp_digits.simps) simp
    also have "\<dots> = int (unat num div ?r * ?r + unat num mod ?r)" by (simp only: of_nat_add of_nat_mult)
    finally show ?thesis by simp
  qed (simp add: tmp_digits.simps)
qed

lemma tmp_digits_set:
  assumes d: "\<And>k. k < (if base = 10 then 10 else 16) \<Longrightarrow> P (digits ! k)"
  shows "c \<in> set (tmp_digits digits base num) \<Longrightarrow> P c"
proof (induction "unat num" arbitrary: num rule: less_induct)
  case less
  let ?r = "if base = 10 then 10 else (16 :: nat)"
  have n: "num \<noteq> 0" using less.prems by (auto simp: tmp_digits.simps [of _ _ num])
  have "unat (snd (divide num base)) < unat num" using n by (simp add: unat_divide unat_gt_0)
  from less.hyps [OF this] less.prems d [of "unat num mod ?r"] n show ?case
    by (subst (asm) tmp_digits.simps) (auto simp: unat_divide)
qed

lemma tmp_digits_length: "num \<noteq> 0 \<Longrightarrow> 10 ^ (length (tmp_digits digits base num) - 1) \<le> unat num"
proof (induction "unat num" arbitrary: num rule: less_induct)
  case less
  let ?q = "snd (divide num base)"
  have l: "length (tmp_digits digits base num) - 1 = length (tmp_digits digits base ?q)"
    using less.prems by (subst tmp_digits.simps) simp
  show ?case
  proof (cases "?q = 0")
    case True
    then show ?thesis using less.prems unfolding l by (simp add: tmp_digits.simps unat_gt_0 Suc_le_eq)
  next
    case False
    have u: "unat ?q \<le> unat num div 10" by (auto simp: unat_divide intro: div_le_mono2)
    then have "unat ?q < unat num" using less.prems by (simp add: unat_gt_0 le_less_trans)
    from less.hyps [OF this False] have "10 ^ (length (tmp_digits digits base ?q) - 1) * 10 \<le> unat num"
      using u by linarith
    moreover have "length (tmp_digits digits base ?q) \<noteq> 0" using False by (simp add: tmp_digits.simps [of _ _ ?q])
    ultimately show ?thesis unfolding l by (metis One_nat_def Suc_pred mult.commute neq0_conv power_Suc)
  qed
qed

lemma print_tmp_length: "length (print_tmp digits base num) \<le> 10"
proof (cases "num = 0")
  case False
  have "(10 :: nat) ^ (length (tmp_digits digits base num) - 1) < 10 ^ 10"
    using tmp_digits_length [OF False, of digits base] unat_u32 [of num] by simp
  then have "length (tmp_digits digits base num) - 1 < 10" by (rule power_less_imp_less_exp [rotated]) simp
  with False show ?thesis by (simp add: print_tmp_def)
qed (simp add: print_tmp_def)

lemma decimal_read: "skip_atoi (rev (print_tmp small_digits 10 num)) 0 = (int (unat num), [])"
proof -
  have d: "k < 10 \<Longrightarrow> is_digit (small_digits ! k)" "k < 10 \<Longrightarrow> uint (small_digits ! k) - 48 = int k" for k
    using small_digits_decimal by auto
  have "\<forall>c \<in> set (rev (tmp_digits small_digits 10 num)). is_digit c"
    using tmp_digits_set [of 10 is_digit small_digits _ num] d by auto
  from skip_atoi_digits [OF this, of "[]" 0]
  have "skip_atoi (rev (tmp_digits small_digits 10 num)) 0 =
      (foldr (\<lambda>c v. v * 10 + (uint c - 48)) (tmp_digits small_digits 10 num) 0, [])"
    by (simp add: skip_atoi.simps foldr_conv_fold algebra_simps)
  with tmp_digits_value [of 10 "\<lambda>c. uint c - 48" small_digits num] d show ?thesis
    by (auto simp: print_tmp_def skip_atoi.simps is_digit_def)
qed

definition read_hex :: "u8 list \<Rightarrow> int" where
  "read_hex cs = fold (\<lambda>c v. v * 16 + hex_digit c) cs 0"

lemma hex_read:
  "read_hex (rev (print_tmp small_digits 16 num)) = int (unat num)"
  "read_hex (rev (print_tmp large_digits 16 num)) = int (unat num)"
  using tmp_digits_value [of 16 hex_digit small_digits num] tmp_digits_value [of 16 hex_digit large_digits num] hex_digits
  by (auto simp: print_tmp_def read_hex_def foldr_conv_fold hex_digit_def)

lemma number_sign_signed: "number_sign SIGN x = (if sint x < 0 then (0x2D, - x) else (0, x))"
  by (simp add: number_sign_def)

lemma sign_value:
  assumes "sint (x :: u32) \<noteq> - (2 ^ 31)" shows "int (unat (snd (number_sign SIGN x))) = \<bar>sint x\<bar>"
proof (cases "sint x < 0")
  case True
  have "- (2 ^ 31) \<le> sint x" using sint_ge [of x] by simp
  then have "signed_take_bit 31 (- sint x) = - sint x"
    using True assms by (intro signed_take_bit_int_eq_self) auto
  moreover have "sint (- x) = signed_take_bit 31 (- sint x)" by (simp add: sint_word_ariths)
  ultimately have "sint (- x) = - sint x" by simp
  then have "int (unat (- x)) = - sint x" using True sint_of_nonneg [of "- x"] by simp
  with True show ?thesis by (simp add: number_sign_def)
next
  case False
  then show ?thesis using sint_of_nonneg [of x] by (simp add: number_sign_def)
qed

lemma number_text_plain:
  assumes "type AND (ZEROPAD OR LEFT) = 0" "type AND LEFT = 0"
  shows "number_text base (- 1) (- 1) type num =
    sign_text (fst (number_sign type num))
      @ rev (print_tmp (if type AND LARGE \<noteq> 0 then large_digits else small_digits) base (snd (number_sign type num)))"
  using assms by (simp add: number_text_def first_text_def first_size_def right_text_def right_size_def Let_def)

lemma plain_text:
  assumes "c \<in> {0x6F, 0x58, 0x78, 0x64, 0x69, 0x75}"
  shows "vsn_text rd [0x25, c] [x] = Some (number_text (conv_base c) (- 1) (- 1) (conv_flags c 0) x)"
proof -
  have "parse_spec [c] [x] = Some (0, - 1, - 1, 0, [c], [x])" using assms by (auto simp: parse_spec_def is_digit_def)
  then show ?thesis
    using assms by (auto simp: directive_text_def convert_text_def conv_num_def)
qed



end
