(* ===== verification/Rc_Motor.thy ===== *)
theory Rc_Motor
  imports Prelude "HOL-Library.Signed_Division"
begin

text \<open>
  The two links of the robot: the remote control's DBUS frames (\<open>packageProcess.c\<close>) and the motors'
  CAN frames (\<open>motor.c\<close>, \<open>packageProcess.c\<close>, \<open>can_rw.c\<close>). A frame is the list of its bytes. \<open>int16_t\<close> and
  \<open>int32_t\<close> fields are words, read by \<open>sint\<close>; C's \<open>int\<close> is the 32-bit word.
\<close>

unbundle bit_operations_syntax

section \<open>The remote control\<close>

record mouse_info =
  mouse_x :: u16
  mouse_y :: u16
  mouse_z :: u16
  press_l :: u8
  press_r :: u8

record rc_info =
  ch1 :: u16
  ch2 :: u16
  ch3 :: u16
  ch4 :: u16
  sw1 :: u8
  sw2 :: u8
  sw :: u16
  mouse :: mouse_info
  key :: u16

definition rc_zero :: rc_info where
  "rc_zero = \<lparr>ch1 = 0, ch2 = 0, ch3 = 0, ch4 = 0, sw1 = 0, sw2 = 0, sw = 0,
     mouse = \<lparr>mouse_x = 0, mouse_y = 0, mouse_z = 0, press_l = 0, press_r = 0\<rparr>, key = 0\<rparr>"

definition off_range :: "u16 \<Rightarrow> bool" where
  "off_range c \<longleftrightarrow> 660 < \<bar>sint c\<bar>"

text \<open>The first part of \<open>RC_Process\<close>: channels and levers.\<close>

definition rc_channels :: "u8 list \<Rightarrow> rc_info \<Rightarrow> rc_info" where
  "rc_channels b rc =
     (let d = (\<lambda>i. ucast (b ! i) :: u32) in
      rc\<lparr>ch1 := ucast ((d 0 OR push_bit 8 (d 1)) AND 0x07FF) - 1024,
         ch2 := ucast ((drop_bit 3 (d 1) OR push_bit 5 (d 2)) AND 0x07FF) - 1024,
         ch3 := ucast ((drop_bit 6 (d 2) OR push_bit 2 (d 3) OR push_bit 10 (d 4)) AND 0x07FF) - 1024,
         ch4 := ucast ((drop_bit 1 (d 4) OR push_bit 7 (d 5)) AND 0x07FF) - 1024,
         sw1 := ucast (drop_bit 2 (drop_bit 4 (d 5) AND 0x000C)),
         sw2 := ucast (drop_bit 4 (d 5) AND 0x0003)\<rparr>)"

definition rc_process :: "u8 list \<Rightarrow> rc_info \<Rightarrow> rc_info" where
  "rc_process b rc =
     (let d = (\<lambda>i. ucast (b ! i) :: u32);
          rc1 = rc_channels b rc;
          rc2 = (if off_range (ch1 rc1) \<or> off_range (ch2 rc1) \<or> off_range (ch3 rc1) \<or> off_range (ch4 rc1)
                 then rc_zero else rc1) in
      rc2\<lparr>mouse := \<lparr>mouse_x = ucast (d 6 OR push_bit 8 (d 7)), mouse_y = ucast (d 8 OR push_bit 8 (d 9)),
                    mouse_z = ucast (d 10 OR push_bit 8 (d 11)), press_l = b ! 12, press_r = b ! 13\<rparr>,
          key := ucast (d 14 OR push_bit 8 (d 15)),
          sw := ucast ((d 16 OR push_bit 8 (d 17)) AND 0x07FF) - 1024\<rparr>)"

text \<open>Reference: the frame of a remote control that packs its channels in 11 bits each.\<close>

definition dbus_frame :: "rc_info \<Rightarrow> u8 list" where
  "dbus_frame rc =
     (let c1 = ch1 rc + 1024; c2 = ch2 rc + 1024; c3 = ch3 rc + 1024; c4 = ch4 rc + 1024; s = sw rc + 1024;
          m = mouse rc in
      [ucast c1, ucast (drop_bit 8 c1 OR push_bit 3 c2), ucast (drop_bit 5 c2 OR push_bit 6 c3),
       ucast (drop_bit 2 c3), ucast (drop_bit 10 c3 OR push_bit 1 c4),
       ucast (drop_bit 7 c4 OR push_bit 4 (ucast (sw2 rc)) OR push_bit 6 (ucast (sw1 rc))),
       ucast (mouse_x m), ucast (drop_bit 8 (mouse_x m)), ucast (mouse_y m), ucast (drop_bit 8 (mouse_y m)),
       ucast (mouse_z m), ucast (drop_bit 8 (mouse_z m)), press_l m, press_r m,
       ucast (key rc), ucast (drop_bit 8 (key rc)), ucast s, ucast (drop_bit 8 s)])"

definition rc_valid :: "rc_info \<Rightarrow> bool" where
  "rc_valid rc \<longleftrightarrow> \<not> off_range (ch1 rc) \<and> \<not> off_range (ch2 rc) \<and> \<not> off_range (ch3 rc) \<and> \<not> off_range (ch4 rc)
     \<and> sw1 rc < 4 \<and> sw2 rc < 4 \<and> \<bar>sint (sw rc)\<bar> < 1024"

section \<open>Unpacking what was packed\<close>

lemma mask_11: "(0x07FF :: u32) = mask 11"
  by (simp add: mask_eq_exp_minus_1)

lemma channel_11:
  assumes "\<bar>sint (c :: u16)\<bar> < 1024" shows "take_bit 11 (c + 1024) = c + 1024"
proof -
  have "c + 1024 = word_of_int (sint c + 1024)" by simp
  then have "uint (c + 1024) = uint (word_of_int (sint c + 1024) :: u16)" by (rule arg_cong)
  also have "\<dots> = (sint c + 1024) mod 65536" by (simp only: uint_word_of_int) simp
  finally have "uint (c + 1024) = (sint c + 1024) mod 65536" .
  then have "uint (c + 1024) = sint c + 1024" using assms by simp
  then have "unat (c + 1024) < 2 ^ 11" using assms by (simp add: unat_eq_nat_uint)
  then show ?thesis by (simp add: word_unat_eq_iff unsigned_take_bit_eq take_bit_nat_eq_self_iff)
qed

lemma no_bit_11: "take_bit 11 (c :: u16) = c \<Longrightarrow> 11 \<le> n \<Longrightarrow> \<not> bit c n"
  by (metis bit_take_bit_iff not_less)

lemma upto_15: "n < 16 \<Longrightarrow> n \<in> {0, 1, 2, 3, 4, 5, 6, 7, 8, 9, 10, 11, 12, 13, 14, 15 :: nat}"
  by (simp add: eval_nat_numeral less_Suc_eq)

lemma u16_eqI:
  fixes v w :: u16
  assumes "bit v 0 \<longleftrightarrow> bit w 0"
    "bit v 1 \<longleftrightarrow> bit w 1"
    "bit v 2 \<longleftrightarrow> bit w 2"
    "bit v 3 \<longleftrightarrow> bit w 3"
    "bit v 4 \<longleftrightarrow> bit w 4"
    "bit v 5 \<longleftrightarrow> bit w 5"
    "bit v 6 \<longleftrightarrow> bit w 6"
    "bit v 7 \<longleftrightarrow> bit w 7"
    "bit v 8 \<longleftrightarrow> bit w 8"
    "bit v 9 \<longleftrightarrow> bit w 9"
    "bit v 10 \<longleftrightarrow> bit w 10"
    "bit v 11 \<longleftrightarrow> bit w 11"
    "bit v 12 \<longleftrightarrow> bit w 12"
    "bit v 13 \<longleftrightarrow> bit w 13"
    "bit v 14 \<longleftrightarrow> bit w 14"
    "bit v 15 \<longleftrightarrow> bit w 15"
  shows "v = w"
proof (rule bit_word_eqI)
  fix n assume "n < LENGTH(16)"
  then have "n \<in> {0, 1, 2, 3, 4, 5, 6, 7, 8, 9, 10, 11, 12, 13, 14, 15}" by (intro upto_15) simp
  then show "bit v n \<longleftrightarrow> bit w n" using assms by auto
qed


lemma u8_eqI:
  fixes v w :: u8
  assumes "bit v 0 \<longleftrightarrow> bit w 0" "bit v 1 \<longleftrightarrow> bit w 1" "bit v 2 \<longleftrightarrow> bit w 2" "bit v 3 \<longleftrightarrow> bit w 3"
    "bit v 4 \<longleftrightarrow> bit w 4" "bit v 5 \<longleftrightarrow> bit w 5" "bit v 6 \<longleftrightarrow> bit w 6" "bit v 7 \<longleftrightarrow> bit w 7"
  shows "v = w"
proof (rule bit_word_eqI)
  fix n assume "n < LENGTH(8)"
  then have "n \<in> {0, 1, 2, 3, 4, 5, 6, 7}" by (simp add: eval_nat_numeral less_Suc_eq)
  then show "bit v n \<longleftrightarrow> bit w n" using assms by auto
qed

lemma bit_twice: "bit (c * 2 :: u16) n \<longleftrightarrow> 0 < n \<and> n < 16 \<and> bit c (n - 1)"
  using bit_push_bit_iff [of 1 c n] by (simp add: push_bit_eq_mult possible_bit_def) linarith

lemmas unpack_simps = mask_11 bit_simps bit_twice

lemma unpack_ch1:
  assumes "take_bit 11 c = (c :: u16)"
  shows "ucast (((ucast (ucast c :: u8) :: u32) OR push_bit 8 (ucast (ucast (drop_bit 8 c OR push_bit 3 x) :: u8))) AND 0x07FF) = c"
  by (rule u16_eqI) (simp_all add: unpack_simps no_bit_11 [OF assms])

lemma unpack_ch2:
  assumes "take_bit 11 c = (c :: u16)" "take_bit 11 a = (a :: u16)"
  shows "ucast ((drop_bit 3 (ucast (ucast (drop_bit 8 a OR push_bit 3 c) :: u8) :: u32)
     OR push_bit 5 (ucast (ucast (drop_bit 5 c OR push_bit 6 x) :: u8))) AND 0x07FF) = c"
  by (rule u16_eqI) (simp_all add: unpack_simps no_bit_11 [OF assms(1)] no_bit_11 [OF assms(2)])

lemma unpack_ch3:
  assumes "take_bit 11 c = (c :: u16)" "take_bit 11 a = (a :: u16)"
  shows "ucast ((drop_bit 6 (ucast (ucast (drop_bit 5 a OR push_bit 6 c) :: u8) :: u32)
     OR push_bit 2 (ucast (ucast (drop_bit 2 c) :: u8)) OR push_bit 10 (ucast (ucast (drop_bit 10 c OR push_bit 1 x) :: u8))) AND 0x07FF) = c"
  by (rule u16_eqI) (simp_all add: unpack_simps no_bit_11 [OF assms(1)] no_bit_11 [OF assms(2)])

lemma unpack_ch4:
  assumes "take_bit 11 c = (c :: u16)" "take_bit 11 a = (a :: u16)"
  shows "ucast ((drop_bit 1 (ucast (ucast (drop_bit 10 a OR push_bit 1 c) :: u8) :: u32)
     OR push_bit 7 (ucast (ucast (drop_bit 7 c OR push_bit 4 x OR push_bit 6 y) :: u8))) AND 0x07FF) = c"
  by (rule u16_eqI) (simp_all add: unpack_simps numeral_2_eq_2 no_bit_11 [OF assms(1)] no_bit_11 [OF assms(2)])

lemma unpack_16: "ucast ((ucast (ucast c :: u8) :: u32) OR push_bit 8 (ucast (ucast (drop_bit 8 c) :: u8))) = (c :: u16)"
  by (rule u16_eqI) (simp_all add: bit_simps)

lemma unpack_sw:
  assumes "take_bit 11 c = (c :: u16)"
  shows "ucast (((ucast (ucast c :: u8) :: u32) OR push_bit 8 (ucast (ucast (drop_bit 8 c) :: u8))) AND 0x07FF) = c"
  by (rule u16_eqI) (simp_all add: unpack_simps no_bit_11 [OF assms])

lemma no_bit_2: "(s :: u8) < 4 \<Longrightarrow> 2 \<le> n \<Longrightarrow> \<not> bit s n"
proof -
  assume "s < 4" "2 \<le> n"
  then have "take_bit 2 s = s" by (simp add: word_unat_eq_iff unsigned_take_bit_eq take_bit_nat_eq_self_iff word_less_nat_alt)
  then show "\<not> bit s n" using \<open>2 \<le> n\<close> by (metis bit_take_bit_iff not_less)
qed

lemma mask_2: "(3 :: u32) = mask 2" "(12 :: u32) = push_bit 2 (mask 2)"
  by (simp_all add: mask_eq_exp_minus_1 push_bit_eq_mult)

lemma unpack_sw1:
  assumes "s < 4" "t < 4" "take_bit 11 c = (c :: u16)"
  shows "ucast (drop_bit 2 (drop_bit 4 (ucast (ucast (drop_bit 7 c OR push_bit 4 (ucast (t :: u8)) OR push_bit 6 (ucast s)) :: u8) :: u32) AND 0x000C)) = (s :: u8)"
  by (rule u8_eqI) (simp_all add: mask_2 bit_simps no_bit_2 [OF assms(1)] no_bit_2 [OF assms(2)] no_bit_11 [OF assms(3)])

lemma unpack_sw2:
  assumes "t < 4" "take_bit 11 c = (c :: u16)"
  shows "ucast (drop_bit 4 (ucast (ucast (drop_bit 7 c OR push_bit 4 (ucast t) OR push_bit 6 (ucast (s :: u8))) :: u8) :: u32) AND 0x0003) = (t :: u8)"
  by (rule u8_eqI) (simp_all add: mask_2 bit_simps no_bit_2 [OF assms(1)] no_bit_11 [OF assms(2)])

lemma frame_nth:
  "dbus_frame rc ! 0 = ucast (ch1 rc + 1024)"
  "dbus_frame rc ! 1 = ucast (drop_bit 8 (ch1 rc + 1024) OR push_bit 3 (ch2 rc + 1024))"
  "dbus_frame rc ! 2 = ucast (drop_bit 5 (ch2 rc + 1024) OR push_bit 6 (ch3 rc + 1024))"
  "dbus_frame rc ! 3 = ucast (drop_bit 2 (ch3 rc + 1024))"
  "dbus_frame rc ! 4 = ucast (drop_bit 10 (ch3 rc + 1024) OR push_bit 1 (ch4 rc + 1024))"
  "dbus_frame rc ! 5 = ucast (drop_bit 7 (ch4 rc + 1024) OR push_bit 4 (ucast (sw2 rc)) OR push_bit 6 (ucast (sw1 rc)))"
  by (simp_all add: dbus_frame_def Let_def)

lemma frame_nth2:
  "dbus_frame rc ! 6 = ucast (mouse_x (mouse rc))"
  "dbus_frame rc ! 7 = ucast (drop_bit 8 (mouse_x (mouse rc)))"
  "dbus_frame rc ! 8 = ucast (mouse_y (mouse rc))"
  "dbus_frame rc ! 9 = ucast (drop_bit 8 (mouse_y (mouse rc)))"
  "dbus_frame rc ! 10 = ucast (mouse_z (mouse rc))"
  "dbus_frame rc ! 11 = ucast (drop_bit 8 (mouse_z (mouse rc)))"
  "dbus_frame rc ! 12 = press_l (mouse rc)"
  "dbus_frame rc ! 13 = press_r (mouse rc)"
  "dbus_frame rc ! 14 = ucast (key rc)"
  "dbus_frame rc ! 15 = ucast (drop_bit 8 (key rc))"
  "dbus_frame rc ! 16 = ucast (sw rc + 1024)"
  "dbus_frame rc ! 17 = ucast (drop_bit 8 (sw rc + 1024))"
  by (simp_all add: dbus_frame_def Let_def)

lemma rc_channels_frame:
  assumes "rc_valid rc"
  shows "rc_channels (dbus_frame rc) r = r\<lparr>ch1 := ch1 rc, ch2 := ch2 rc, ch3 := ch3 rc, ch4 := ch4 rc, sw1 := sw1 rc, sw2 := sw2 rc\<rparr>"
proof -
  have c: "take_bit 11 (ch1 rc + 1024) = ch1 rc + 1024" "take_bit 11 (ch2 rc + 1024) = ch2 rc + 1024"
    "take_bit 11 (ch3 rc + 1024) = ch3 rc + 1024" "take_bit 11 (ch4 rc + 1024) = ch4 rc + 1024"
    using assms by (intro channel_11, simp add: rc_valid_def off_range_def)+
  have s: "sw1 rc < 4" "sw2 rc < 4" using assms by (simp_all add: rc_valid_def)
  show ?thesis
    by (simp only: rc_channels_def Let_def frame_nth unpack_ch1 [OF c(1)] unpack_ch2 [OF c(2) c(1)]
      unpack_ch3 [OF c(3) c(2)] unpack_ch4 [OF c(4) c(3)] unpack_sw1 [OF s c(4)] unpack_sw2 [OF s(2) c(4)] add_diff_cancel_right')
qed

lemma rc_process_frame:
  assumes "rc_valid rc"
  shows "rc_process (dbus_frame rc) r = rc"
proof -
  have s: "take_bit 11 (sw rc + 1024) = sw rc + 1024"
    using assms by (intro channel_11, simp add: rc_valid_def)
  have v: "\<not> off_range (ch1 rc)" "\<not> off_range (ch2 rc)" "\<not> off_range (ch3 rc)" "\<not> off_range (ch4 rc)"
    using assms by (simp_all add: rc_valid_def)
  show ?thesis
    by (simp only: rc_process_def Let_def rc_channels_frame [OF assms] frame_nth2 unpack_16 unpack_sw [OF s] add_diff_cancel_right')
      (simp add: v)
qed

lemma off_range_0: "\<not> off_range 0" by (simp add: off_range_def)

lemma rc_process_bounds:
  "\<not> off_range (ch1 (rc_process b r)) \<and> \<not> off_range (ch2 (rc_process b r)) \<and> \<not> off_range (ch3 (rc_process b r))
    \<and> \<not> off_range (ch4 (rc_process b r))"
  by (simp add: rc_process_def Let_def rc_zero_def off_range_0)

text \<open>
  \<open>dbus_input\<close>, the receive callback of the serial device: the device's read copies the bytes it has to the
  static buffer of 18 (a longer copy leaves it: \<open>None\<close>) and the whole buffer is decoded, whatever was read.
\<close>

record dbus_state =
  dbus_rx_buffer :: "u8 list"
  dbus_rc :: rc_info

definition dbus_input :: "u8 list \<Rightarrow> dbus_state \<Rightarrow> dbus_state option" where
  "dbus_input received s =
     (if length (dbus_rx_buffer s) < length received then None
      else let b = received @ drop (length received) (dbus_rx_buffer s) in
           Some (s\<lparr>dbus_rx_buffer := b, dbus_rc := rc_process b (dbus_rc s)\<rparr>))"

lemma sw_bounds: "sw1 (rc_channels b r) < 4" "sw2 (rc_channels b r) < 4"
proof -
  have a: "\<And>x :: u8. x AND 3 < 4" by (rule le_less_trans [OF word_and_le1]) simp
  have "sw1 (rc_channels b r) = ucast (drop_bit 6 (ucast (b ! 5) :: u32)) AND 3"
    by (simp add: rc_channels_def Let_def) (rule u8_eqI; simp add: mask_2 bit_simps)
  then show "sw1 (rc_channels b r) < 4" by (simp only: a)
  have "sw2 (rc_channels b r) = ucast (drop_bit 4 (ucast (b ! 5) :: u32)) AND 3"
    by (simp add: rc_channels_def Let_def) (rule u8_eqI; simp add: mask_2 bit_simps)
  then show "sw2 (rc_channels b r) < 4" by (simp only: a)
qed

lemma rc_process_levers: "sw1 (rc_process b r) < 4" "sw2 (rc_process b r) < 4"
  by (simp_all add: rc_process_def Let_def rc_zero_def sw_bounds)

section \<open>The motors\<close>

text \<open>\<open>struct rt_can_msg\<close>: its bit fields, and the eight data bytes.\<close>

record can_msg =
  can_id :: u32
  can_ide :: u8
  can_rtr :: u8
  can_len :: u8
  can_data :: "u8 list"

definition be16 :: "u8 \<Rightarrow> u8 \<Rightarrow> u16" where
  "be16 h l = ucast (push_bit 8 (ucast h :: u32) OR ucast l)"

record moto_measure =
  speed_rpm :: u16
  real_current :: u16
  given_current :: u16
  hall :: u8
  angle :: u16
  last_angle :: u16
  correcting_angle :: u16
  offset_angle :: u16
  round_cnt :: u32
  total_angle :: u32

definition get_moto_measure :: "can_msg \<Rightarrow> moto_measure \<Rightarrow> moto_measure" where
  "get_moto_measure msg m =
     (let d = (\<lambda>i. can_data msg ! i);
          a = be16 (d 0) (d 1);
          rcur = be16 (d 2) (d 3);
          step = uint a - uint (angle m);
          rounds = (if 4096 < step then round_cnt m - 1
                    else if step < - 4096 then round_cnt m + 1 else round_cnt m) in
      m\<lparr>last_angle := angle m, angle := a, real_current := rcur, speed_rpm := rcur,
        given_current := word_of_int (sint (be16 (d 4) (d 5)) sdiv (- 5)), hall := d 6,
        round_cnt := rounds,
        total_angle := rounds * 8192 + ucast a - ucast (offset_angle m)\<rparr>)"

definition frame_angle :: "can_msg \<Rightarrow> int" where
  "frame_angle msg = uint (be16 (can_data msg ! 0) (can_data msg ! 1))"

text \<open>The shaft has turned to position \<open>p\<close>, in steps of 1/8192 of a turn.\<close>

definition moto_at :: "int \<Rightarrow> moto_measure \<Rightarrow> bool" where
  "moto_at p m \<longleftrightarrow> uint (angle m) = p mod 8192 \<and> round_cnt m = word_of_int (p div 8192)"

lemma turn_cases_split:
  fixes a b c e :: int
  assumes d: "\<bar>(8192 * c + e) - (8192 * a + b)\<bar> < 4096" and range: "0 \<le> b" "b < 8192" "0 \<le> e" "e < 8192"
  shows "4096 < e - b \<and> c = a - 1 \<or> e - b < - 4096 \<and> c = a + 1 \<or> \<not> 4096 < e - b \<and> \<not> e - b < - 4096 \<and> c = a"
proof -
  consider "c = a - 1" | "c = a + 1" | "c = a" using assms by linarith
  then show ?thesis using assms by cases linarith+
qed

lemma turn_cases:
  fixes p q :: int
  assumes "\<bar>q - p\<bar> < 4096"
  shows "4096 < q mod 8192 - p mod 8192 \<and> q div 8192 = p div 8192 - 1
    \<or> q mod 8192 - p mod 8192 < - 4096 \<and> q div 8192 = p div 8192 + 1
    \<or> \<not> 4096 < q mod 8192 - p mod 8192 \<and> \<not> q mod 8192 - p mod 8192 < - 4096 \<and> q div 8192 = p div 8192"
  by (rule turn_cases_split) (use assms in simp_all)

lemma moto_at_step:
  assumes m: "moto_at p m" and f: "frame_angle msg = q mod 8192" and d: "\<bar>q - p\<bar> < 4096"
  shows "moto_at q (get_moto_measure msg m)"
    and "total_angle (get_moto_measure msg m) = word_of_int (q - uint (offset_angle m))"
    and "offset_angle (get_moto_measure msg m) = offset_angle m"
proof -
  let ?r = "if 4096 < q mod 8192 - p mod 8192 then round_cnt m - 1
                    else if q mod 8192 - p mod 8192 < - 4096 then round_cnt m + 1 else round_cnt m"
  have a: "uint (angle (get_moto_measure msg m)) = q mod 8192" using f by (simp add: get_moto_measure_def Let_def frame_angle_def)
  have rr: "round_cnt (get_moto_measure msg m) = ?r"
    using f m by (simp add: get_moto_measure_def Let_def frame_angle_def moto_at_def)
  consider "4096 < q mod 8192 - p mod 8192" "q div 8192 = p div 8192 - 1"
    | "q mod 8192 - p mod 8192 < - 4096" "q div 8192 = p div 8192 + 1"
    | "\<not> 4096 < q mod 8192 - p mod 8192" "\<not> q mod 8192 - p mod 8192 < - 4096" "q div 8192 = p div 8192"
    using turn_cases [OF d] by blast
  then have r: "?r = word_of_int (q div 8192)"
    using m by cases (simp_all add: moto_at_def)
  have u: "\<And>w :: u16. (ucast w :: u32) = word_of_int (uint w)" by simp
  show "moto_at q (get_moto_measure msg m)" using a rr r by (simp add: moto_at_def)
  have "total_angle (get_moto_measure msg m) = ?r * 8192 + word_of_int (q mod 8192) - word_of_int (uint (offset_angle m))"
    using f m u [of "be16 (can_data msg ! 0) (can_data msg ! 1)"]
    by (simp add: get_moto_measure_def Let_def frame_angle_def moto_at_def)
  also have "\<dots> = word_of_int (q div 8192 * 8192 + q mod 8192 - uint (offset_angle m))"
    by (simp only: r of_int_add of_int_diff of_int_mult of_int_numeral)
  finally show "total_angle (get_moto_measure msg m) = word_of_int (q - uint (offset_angle m))"
    by (simp only: div_mult_mod_eq)
  show "offset_angle (get_moto_measure msg m) = offset_angle m" by (simp add: get_moto_measure_def Let_def)
qed

fun turns_ok :: "int \<Rightarrow> can_msg list \<Rightarrow> int list \<Rightarrow> bool" where
  "turns_ok p [] [] = True"
| "turns_ok p (f # fs) (q # qs) = (frame_angle f = q mod 8192 \<and> \<bar>q - p\<bar> < 4096 \<and> turns_ok q fs qs)"
| "turns_ok p _ _ = False"

lemma moto_run:
  "turns_ok p fs qs \<Longrightarrow> moto_at p m \<Longrightarrow>
    moto_at (last (p # qs)) (fold get_moto_measure fs m) \<and> offset_angle (fold get_moto_measure fs m) = offset_angle m
    \<and> (fs \<noteq> [] \<longrightarrow> total_angle (fold get_moto_measure fs m) = word_of_int (last (p # qs) - uint (offset_angle m)))"
proof (induction p fs qs arbitrary: m rule: turns_ok.induct)
  case (2 p f fs q qs)
  note step = moto_at_step [of p m f q]
  have s: "moto_at q (get_moto_measure f m)" "offset_angle (get_moto_measure f m) = offset_angle m"
    "total_angle (get_moto_measure f m) = word_of_int (q - uint (offset_angle m))"
    using step 2 by auto
  note IH = "2.IH" [OF _ s(1)]
  show ?case
  proof (cases fs)
    case Nil
    then have "qs = []" using 2(2) by (cases qs) auto
    then show ?thesis using s Nil by simp
  next
    case Cons
    then show ?thesis using IH 2 s by (auto simp del: last.simps simp: last_ConsR split: if_splits)
  qed
qed auto

text \<open>The commands to the motor drivers, as the frames handed to \<open>rt_device_write\<close>.\<close>

definition motor_frame :: "u32 \<Rightarrow> u16 \<Rightarrow> u16 \<Rightarrow> u16 \<Rightarrow> u16 \<Rightarrow> can_msg" where
  "motor_frame i v1 v2 v3 v4 =
     \<lparr>can_id = i, can_ide = 0, can_rtr = 0, can_len = 8,
      can_data = [ucast (signed_drop_bit 8 v1), ucast v1, ucast (signed_drop_bit 8 v2), ucast v2,
                  ucast (signed_drop_bit 8 v3), ucast v3, ucast (signed_drop_bit 8 v4), ucast v4]\<rparr>"

definition set_motor_current :: "u8 \<Rightarrow> u16 \<Rightarrow> u16 \<Rightarrow> u16 \<Rightarrow> u16 \<Rightarrow> can_msg" where
  "set_motor_current i iq1 iq2 iq3 iq4 = motor_frame (if i = 0 then 0x200 else 0x1FF) iq1 iq2 iq3 iq4"

definition set_motor_voltage :: "u8 \<Rightarrow> u16 \<Rightarrow> u16 \<Rightarrow> u16 \<Rightarrow> u16 \<Rightarrow> can_msg" where
  "set_motor_voltage id_range v1 v2 v3 v4 = motor_frame (if id_range = 0 then 0x1FF else 0x2FF) v1 v2 v3 v4"

definition frame_values :: "can_msg \<Rightarrow> u16 list" where
  "frame_values msg = map (\<lambda>k. be16 (can_data msg ! (2 * k)) (can_data msg ! (2 * k + 1))) [0..<4]"

text \<open>The globals the receive thread and the motion task share.\<close>

record robot =
  rc :: rc_info
  moto_macnum :: "moto_measure list"
  moto_pit :: moto_measure
  moto_yaw :: moto_measure
  moto_poke :: moto_measure
  current_macnum :: "u16 list"
  set_spd_macnum :: "u16 list"
  voltage_yaw :: u16
  voltage_pit :: u16
  current_poke :: u16
  can_tx :: "can_msg list"

definition can_dispatch :: "can_msg \<Rightarrow> 'a robot_scheme \<Rightarrow> 'a robot_scheme" where
  "can_dispatch msg s =
     (let wheel = (\<lambda>k. s\<lparr>moto_macnum := (moto_macnum s)[k := get_moto_measure msg (moto_macnum s ! k)]\<rparr>) in
      if can_id msg = 0x201 then wheel 0
      else if can_id msg = 0x202 then wheel 1
      else if can_id msg = 0x203 then wheel 2
      else if can_id msg = 0x204 then wheel 3
      else if can_id msg = 0x205 then s\<lparr>moto_yaw := get_moto_measure msg (moto_yaw s)\<rparr>
      else if can_id msg = 0x206 then s\<lparr>moto_pit := get_moto_measure msg (moto_pit s)\<rparr>
      else if can_id msg = 0x207 then s\<lparr>moto_poke := get_moto_measure msg (moto_poke s)\<rparr>
      else s)"

text \<open>One turn of \<open>can_rx_thread\<close>'s loop, on the frame it has read.\<close>

definition can_rx_step :: "can_msg \<Rightarrow> 'a robot_scheme \<Rightarrow> 'a robot_scheme" where
  "can_rx_step rxmsg s =
     (let s1 = can_dispatch rxmsg s; c = current_macnum s1 in
      if sw1 (rc s1) = 1
      then s1\<lparr>can_tx := can_tx s1 @ [set_motor_voltage 0 (voltage_yaw s1) (voltage_pit s1) 0 0,
                                    set_motor_current 0 (c ! 0) (c ! 1) (c ! 2) (c ! 3)]\<rparr>
      else s1)"

lemma be16_bytes: "be16 (ucast (signed_drop_bit 8 v)) (ucast v) = (v :: u16)"
  unfolding be16_def by (rule u16_eqI) (simp_all add: bit_simps bit_signed_drop_bit_iff)

lemma upt_0_4: "[0..<4] = [0, 1, 2, 3 :: nat]" by (simp add: upt_rec)

lemma frame_values_motor: "frame_values (motor_frame i v1 v2 v3 v4) = [v1, v2, v3, v4]"
  by (simp add: frame_values_def motor_frame_def upt_0_4 be16_bytes)

text \<open>The motor a feedback identifier names: the wheels are 0 to 3, then yaw, pitch and poke.\<close>

definition moto_of :: "'a robot_scheme \<Rightarrow> nat \<Rightarrow> moto_measure" where
  "moto_of s k = (if k < 4 then moto_macnum s ! k else if k = 4 then moto_yaw s
                  else if k = 5 then moto_pit s else moto_poke s)"

lemma can_dispatch_motor:
  assumes "length (moto_macnum s) = 4" "k < 7" "j < 7" "can_id msg = 0x201 + of_nat k"
  shows "moto_of (can_dispatch msg s) j = (if j = k then get_moto_measure msg (moto_of s j) else moto_of s j)"
proof -
  have "k \<in> {0, 1, 2, 3, 4, 5, 6}" using assms(2) by (simp add: eval_nat_numeral less_Suc_eq)
  then show ?thesis
    using assms by (elim insertE emptyE) (simp_all add: can_dispatch_def moto_of_def Let_def nth_list_update)
qed

lemma can_dispatch_frame:
  "rc (can_dispatch msg s) = rc s" "current_macnum (can_dispatch msg s) = current_macnum s"
  "voltage_yaw (can_dispatch msg s) = voltage_yaw s" "voltage_pit (can_dispatch msg s) = voltage_pit s"
  "can_tx (can_dispatch msg s) = can_tx s" "length (moto_macnum (can_dispatch msg s)) = length (moto_macnum s)"
  by (simp_all add: can_dispatch_def Let_def)

lemma moto_of_step: "moto_of (can_rx_step msg s) j = moto_of (can_dispatch msg s) j"
  by (simp add: can_rx_step_def Let_def moto_of_def)

lemma motor_frame_id: "can_id (motor_frame i v1 v2 v3 v4) = i"
  by (simp add: motor_frame_def)

section \<open>The properties\<close>

lemma rc_process_guard:
  assumes "off_range (ch1 (rc_channels b r)) \<or> off_range (ch2 (rc_channels b r)) \<or> off_range (ch3 (rc_channels b r))
    \<or> off_range (ch4 (rc_channels b r))"
  shows "ch1 (rc_process b r) = 0 \<and> ch2 (rc_process b r) = 0 \<and> ch3 (rc_process b r) = 0 \<and> ch4 (rc_process b r) = 0
    \<and> sw1 (rc_process b r) = 0"
  using assms by (auto simp: rc_process_def Let_def rc_zero_def)

lemma length_dbus_frame: "length (dbus_frame r) = 18"
  by (simp add: dbus_frame_def Let_def)

lemma dbus_input_frame:
  assumes "length (dbus_rx_buffer s) = 18" "rc_valid r"
  shows "dbus_input (dbus_frame r) s = Some (s\<lparr>dbus_rx_buffer := dbus_frame r, dbus_rc := r\<rparr>)"
  by (simp add: dbus_input_def Let_def length_dbus_frame assms rc_process_frame)

lemma dbus_input_some:
  assumes "length (dbus_rx_buffer s) = 18" "length received \<le> 18"
  shows "dbus_input received s = Some (s\<lparr>dbus_rx_buffer := received @ drop (length received) (dbus_rx_buffer s),
      dbus_rc := rc_process (received @ drop (length received) (dbus_rx_buffer s)) (dbus_rc s)\<rparr>)"
  using assms by (simp add: dbus_input_def Let_def)

text \<open>C19. Decoding is the inverse of packing: the frame of any remote control within range, read whole into the
  callback's buffer, sets the globals to exactly that remote control; and whatever up to 18 bytes are read, the call
  returns, the buffer keeps its length, the four channels are within 660 of the centre, the levers within two bits,
  and a decoded channel out of range stops the robot (all channels and the lever that enables the motors are 0).\<close>

theorem rc_decodes_and_guards:
  assumes "length (dbus_rx_buffer s) = 18"
  shows "(rc_valid r \<longrightarrow> map_option dbus_rc (dbus_input (dbus_frame r) s) = Some r)
    \<and> (length received \<le> 18 \<longrightarrow>
        (\<exists>s'. dbus_input received s = Some s' \<and> length (dbus_rx_buffer s') = 18
          \<and> take (length received) (dbus_rx_buffer s') = received
          \<and> (\<forall>ch \<in> {ch1, ch2, ch3, ch4}. \<not> off_range (ch (dbus_rc s')))
          \<and> sw1 (dbus_rc s') < 4 \<and> sw2 (dbus_rc s') < 4
          \<and> ((\<exists>ch \<in> {ch1, ch2, ch3, ch4}. off_range (ch (rc_channels (dbus_rx_buffer s') (dbus_rc s)))) \<longrightarrow>
               (\<forall>ch \<in> {ch1, ch2, ch3, ch4}. ch (dbus_rc s') = 0) \<and> sw1 (dbus_rc s') = 0)))"
proof (intro conjI impI)
  assume "rc_valid r"
  then show "map_option dbus_rc (dbus_input (dbus_frame r) s) = Some r"
    by (simp add: dbus_input_frame assms)
next
  assume l: "length received \<le> 18"
  let ?b = "received @ drop (length received) (dbus_rx_buffer s)"
  let ?s = "s\<lparr>dbus_rx_buffer := ?b, dbus_rc := rc_process ?b (dbus_rc s)\<rparr>"
  show "\<exists>s'. dbus_input received s = Some s' \<and> length (dbus_rx_buffer s') = 18
          \<and> take (length received) (dbus_rx_buffer s') = received
          \<and> (\<forall>ch \<in> {ch1, ch2, ch3, ch4}. \<not> off_range (ch (dbus_rc s')))
          \<and> sw1 (dbus_rc s') < 4 \<and> sw2 (dbus_rc s') < 4
          \<and> ((\<exists>ch \<in> {ch1, ch2, ch3, ch4}. off_range (ch (rc_channels (dbus_rx_buffer s') (dbus_rc s)))) \<longrightarrow>
               (\<forall>ch \<in> {ch1, ch2, ch3, ch4}. ch (dbus_rc s') = 0) \<and> sw1 (dbus_rc s') = 0)"
    using l assms rc_process_bounds [of ?b "dbus_rc s"] rc_process_guard [of ?b "dbus_rc s"]
    by (intro exI [of _ ?s]) (simp add: dbus_input_some rc_process_levers)
qed

definition rc_sample :: rc_info where
  "rc_sample = rc_zero\<lparr>ch1 := 660, ch2 := - 660, ch3 := - 17, ch4 := 3, sw1 := 1, sw2 := 2, sw := 500,
     mouse := \<lparr>mouse_x = 300, mouse_y = - 2, mouse_z = 7, press_l = 1, press_r = 0\<rparr>, key := 0x8001\<rparr>"

lemma rc_decodes_and_guards_witness:
  "map_option dbus_rc (dbus_input (dbus_frame rc_sample) \<lparr>dbus_rx_buffer = replicate 18 0, dbus_rc = rc_zero\<rparr>) = Some rc_sample"
proof -
  have "rc_valid rc_sample" by code_simp
  then show ?thesis
    using rc_decodes_and_guards [of "\<lparr>dbus_rx_buffer = replicate 18 0, dbus_rc = rc_zero\<rparr>" rc_sample "[]"] by simp
qed

text \<open>C20. The count of turns survives the encoder's wrap: while the shaft moves less than half a turn between two
  feedback frames, which only carry its position modulo 8192, the accumulated angle is the true position less the
  configured offset, the stored angle and turn count are its remainder and quotient, in either direction.\<close>

theorem motor_tracks_turns:
  assumes "turns_ok p frames ps" "moto_at p m" "frames \<noteq> []" "\<bar>last ps\<bar> < 2 ^ 30"
  shows "sint (total_angle (fold get_moto_measure frames m)) = last ps - uint (offset_angle m)
    \<and> uint (angle (fold get_moto_measure frames m)) = last ps mod 8192
    \<and> sint (round_cnt (fold get_moto_measure frames m)) = last ps div 8192"
proof -
  have ne: "ps \<noteq> []" using assms(1,3) by (cases frames; cases ps) auto
  have m: "moto_at (last ps) (fold get_moto_measure frames m)"
    "total_angle (fold get_moto_measure frames m) = word_of_int (last ps - uint (offset_angle m))"
    using moto_run [OF assms(1,2)] ne assms(3) by auto
  have off: "0 \<le> uint (offset_angle m)" "uint (offset_angle m) < 65536"
    using uint_range_size [of "offset_angle m"] by (simp_all add: word_size)
  have last: "last ps < 1073741824" "- 1073741824 < last ps" using assms(4) by auto
  have q: "- 2147483648 \<le> last ps div 8192" "last ps div 8192 < 2147483648" using assms(4) by auto
  have s: "sint (word_of_int z :: u32) = z" if "- 2147483648 \<le> z" "z < 2147483648" for z
    using that by (simp add: sint_sbintrunc' signed_take_bit_int_eq_self)
  have "sint (word_of_int (last ps - uint (offset_angle m)) :: u32) = last ps - uint (offset_angle m)"
    using last off by (intro s) linarith+
  then show ?thesis using m(1) s [OF q] by (simp only: m(2) moto_at_def)
qed

definition moto_zero :: moto_measure where
  "moto_zero = \<lparr>speed_rpm = 0, real_current = 0, given_current = 0, hall = 0, angle = 0, last_angle = 0,
     correcting_angle = 0, offset_angle = 0, round_cnt = 0, total_angle = 0\<rparr>"

definition feedback_frame :: "u32 \<Rightarrow> u8 \<Rightarrow> u8 \<Rightarrow> can_msg" where
  "feedback_frame i h l = \<lparr>can_id = i, can_ide = 0, can_rtr = 0, can_len = 8, can_data = [h, l, 0, 0, 0, 0, 0, 0]\<rparr>"

text \<open>Backwards through zero, then forwards again: 8000 steps of the encoder, then 1000.\<close>

lemma motor_tracks_turns_witness:
  "sint (total_angle (fold get_moto_measure [feedback_frame 0x201 0x1F 0x40, feedback_frame 0x201 0x03 0xE8] moto_zero)) = 1000
    \<and> sint (total_angle (fold get_moto_measure [feedback_frame 0x201 0x1F 0x40] moto_zero)) = - 192"
proof -
  have "turns_ok 0 [feedback_frame 0x201 0x1F 0x40, feedback_frame 0x201 0x03 0xE8] [- 192, 1000]"
    "turns_ok 0 [feedback_frame 0x201 0x1F 0x40] [- 192]"
    "moto_at 0 moto_zero" by code_simp+
  moreover have "uint (offset_angle moto_zero) = 0" by (simp add: moto_zero_def)
  ultimately show ?thesis
    using motor_tracks_turns [of 0 "[feedback_frame 0x201 0x1F 0x40, feedback_frame 0x201 0x03 0xE8]" "[- 192, 1000]" moto_zero]
      motor_tracks_turns [of 0 "[feedback_frame 0x201 0x1F 0x40]" "[- 192]" moto_zero] by simp
qed

text \<open>The receive thread connects motors and commands: a feedback frame with the identifier of motor \<open>k\<close>
  updates that motor's measurements and no other's; a frame with another identifier changes none; and in each turn,
  exactly when the lever selects it, two frames go out from which the yaw and pitch drivers (identifier \<open>0x1FF\<close>) and the
  four wheel drivers (\<open>0x200\<close>) read back the signed values the motion task has set.\<close>

theorem can_thread_connects:
  fixes s :: robot
  assumes "length (moto_macnum s) = 4" "length (current_macnum s) = 4"
  shows "(\<forall>k < 7. can_id msg = 0x201 + of_nat k \<longrightarrow>
            (\<forall>j < 7. moto_of (can_rx_step msg s) j = (if j = k then get_moto_measure msg (moto_of s j) else moto_of s j)))
    \<and> (can_id msg \<notin> {0x201, 0x202, 0x203, 0x204, 0x205, 0x206, 0x207} \<longrightarrow> (\<forall>j < 7. moto_of (can_rx_step msg s) j = moto_of s j))
    \<and> (\<exists>out. can_tx (can_rx_step msg s) = can_tx s @ out
        \<and> map (\<lambda>f. (can_id f, frame_values f)) out =
            (if sw1 (rc s) = 1 then [(0x1FF, [voltage_yaw s, voltage_pit s, 0, 0]), (0x200, current_macnum s)] else []))"
proof (intro conjI allI impI)
  fix k j assume "k < 7" "j < (7 :: nat)" "can_id msg = 0x201 + of_nat k"
  then show "moto_of (can_rx_step msg s) j = (if j = k then get_moto_measure msg (moto_of s j) else moto_of s j)"
    by (simp only: moto_of_step can_dispatch_motor [OF assms(1)])
next
  fix j assume "can_id msg \<notin> {0x201, 0x202, 0x203, 0x204, 0x205, 0x206, 0x207}"
  then show "moto_of (can_rx_step msg s) j = moto_of s j"
    by (simp add: moto_of_step) (simp add: can_dispatch_def Let_def)
next
  have "[current_macnum s ! 0, current_macnum s ! 1, current_macnum s ! 2, current_macnum s ! 3] = current_macnum s"
    using assms(2) by (auto simp: eval_nat_numeral length_Suc_conv)
  then show "\<exists>out. can_tx (can_rx_step msg s) = can_tx s @ out
        \<and> map (\<lambda>f. (can_id f, frame_values f)) out =
            (if sw1 (rc s) = 1 then [(0x1FF, [voltage_yaw s, voltage_pit s, 0, 0]), (0x200, current_macnum s)] else [])"
    by (cases "sw1 (rc s) = 1")
      (simp_all add: can_rx_step_def Let_def can_dispatch_frame set_motor_voltage_def set_motor_current_def
        frame_values_motor motor_frame_id)
qed

definition robot_sample :: robot where
  "robot_sample = \<lparr>rc = rc_sample, moto_macnum = replicate 4 moto_zero, moto_pit = moto_zero, moto_yaw = moto_zero,
     moto_poke = moto_zero, current_macnum = [1, - 2, 30000, - 30000], set_spd_macnum = replicate 4 0,
     voltage_yaw = - 5, voltage_pit = 700, current_poke = 0, can_tx = []\<rparr>"

lemma can_thread_connects_witness:
  "moto_of (can_rx_step (feedback_frame 0x203 0x10 0x00) robot_sample) 2 = get_moto_measure (feedback_frame 0x203 0x10 0x00) moto_zero
    \<and> map (\<lambda>f. (can_id f, frame_values f)) (can_tx (can_rx_step (feedback_frame 0x203 0x10 0x00) robot_sample))
      = [(0x1FF, [- 5, 700, 0, 0]), (0x200, [1, - 2, 30000, - 30000])]"
proof -
  have "length (moto_macnum robot_sample) = 4" "length (current_macnum robot_sample) = 4"
    by (simp_all add: robot_sample_def)
  note c = can_thread_connects [OF this, of "feedback_frame 0x203 0x10 0x00"]
  note m = conjunct1 [OF c, rule_format, of 2 2]
  have "moto_of robot_sample 2 = moto_zero" "can_id (feedback_frame 0x203 0x10 0x00) = 0x201 + of_nat 2"
    by (simp_all add: robot_sample_def moto_of_def feedback_frame_def)
  moreover have "sw1 (rc robot_sample) = 1" "can_tx robot_sample = []" "voltage_yaw robot_sample = - 5"
    "voltage_pit robot_sample = 700" "current_macnum robot_sample = [1, - 2, 30000, - 30000]"
    by (simp_all add: robot_sample_def rc_sample_def)
  ultimately show ?thesis using conjunct2 [OF conjunct2 [OF c]] m by auto
qed

end
