(* ===== verification/Pid_Motion.thy ===== *)
theory Pid_Motion
  imports Complex_Main Rc_Motor
begin

text \<open>
  The controllers of the robot: \<open>pid.c\<close>, and the mecanum mix and control loop of \<open>motionTask.c\<close>. A \<open>float\<close> or
  \<open>double\<close> is the real number it denotes; every operation of the source rounds its exact result, and the
  rounding of the format is written out. Overflow to infinity is not represented: the values here stay far
  below \<open>2 ^ 128\<close>.
\<close>

section \<open>Rounding\<close>

definition round_even :: "real \<Rightarrow> int" where
  "round_even y =
     (let f = \<lfloor>y\<rfloor>; r = y - of_int f in
      if r < 1 / 2 then f else if 1 / 2 < r then f + 1 else if even f then f else f + 1)"

text \<open>Round to nearest, ties to even, to \<open>Suc m\<close> significant bits and multiples of \<open>2 powr emin\<close>.\<close>

definition ieee :: "nat \<Rightarrow> int \<Rightarrow> real \<Rightarrow> real" where
  "ieee m emin x =
     (if x = 0 then 0
      else let u = 2 powr of_int (max (\<lfloor>log 2 \<bar>x\<bar>\<rfloor> - int m) emin) in of_int (round_even (x / u)) * u)"

abbreviation f32 :: "real \<Rightarrow> real" where "f32 \<equiv> ieee 23 (- 149)"
abbreviation f64 :: "real \<Rightarrow> real" where "f64 \<equiv> ieee 52 (- 1074)"

lemma round_even_int [simp]: "round_even (of_int k) = k"
  by (simp add: round_even_def)

lemma ieee_grid:
  assumes "x / 2 powr of_int (max (\<lfloor>log 2 \<bar>x\<bar>\<rfloor> - int m) emin) = of_int k"
  shows "ieee m emin x = x"
proof (cases "x = 0")
  case False
  define u where "u = (2 :: real) powr of_int (max (\<lfloor>log 2 \<bar>x\<bar>\<rfloor> - int m) emin)"
  have x: "x / u = of_int k" and u: "u \<noteq> 0" using assms by (simp_all add: u_def)
  have "ieee m emin x = of_int (round_even (x / u)) * u" using False by (simp add: ieee_def u_def Let_def)
  also have "\<dots> = x / u * u" by (simp add: x)
  finally show ?thesis using u by simp
qed (simp add: ieee_def)

lemma ieee_int:
  assumes "\<bar>k\<bar> < 2 ^ Suc m" "emin \<le> 0"
  shows "ieee m emin (of_int k) = of_int k"
proof (cases "k = 0")
  case False
  define e where "e = max (\<lfloor>log 2 \<bar>of_int k :: real\<bar>\<rfloor> - int m) emin"
  have "(1 :: real) \<le> \<bar>of_int k\<bar>" using False by (simp flip: of_int_abs)
  then have pos: "0 < \<bar>of_int k :: real\<bar>" by linarith
  have "\<bar>of_int k :: real\<bar> < 2 ^ Suc m" using assms(1) by (simp flip: of_int_abs) (metis of_int_less_iff of_int_numeral of_int_power power_Suc of_int_mult)
  then have "\<bar>of_int k :: real\<bar> < 2 powr real (Suc m)" by (simp only: powr_realpow)
  then have "log 2 \<bar>of_int k :: real\<bar> < real (Suc m)" using pos by (simp only: log_less_iff)
  then have "\<lfloor>log 2 \<bar>of_int k :: real\<bar>\<rfloor> < int (Suc m)" by (simp add: floor_less_iff)
  then have e: "e \<le> 0" using assms(2) by (simp add: e_def)
  then have "(2 :: real) powr of_int e = inverse (2 ^ nat (- e))"
    by (simp add: powr_realpow [symmetric] powr_minus [symmetric])
  then have "of_int k / (2 :: real) powr of_int e = of_int (k * 2 ^ nat (- e))" by (simp add: field_simps)
  then show ?thesis unfolding e_def by (rule ieee_grid)
qed (simp add: ieee_def)

lemma f32_int: "\<bar>k\<bar> < 2 ^ 24 \<Longrightarrow> f32 (of_int k) = of_int k"
  by (rule ieee_int) simp_all

section \<open>The controller\<close>

text \<open>
  \<open>pid_t\<close>. The arrays \<open>get\<close>, \<open>set\<close> and \<open>err\<close> are indexed by \<open>LLAST\<close>, \<open>LAST\<close> and \<open>NOW\<close>. The rounding \<open>fl\<close> of
  the arithmetic is an argument of the operations: \<open>f32\<close> in the program, and the identity where the exact
  law of the controller is stated.
\<close>

abbreviation (input) LLAST :: nat where "LLAST \<equiv> 0"
abbreviation (input) LAST :: nat where "LAST \<equiv> 1"
abbreviation (input) NOW :: nat where "NOW \<equiv> 2"
abbreviation (input) POSITION_PID :: u32 where "POSITION_PID \<equiv> 3"
abbreviation (input) DELTA_PID :: u32 where "DELTA_PID \<equiv> 4"

record pid =
  pid_p :: real
  pid_i :: real
  pid_d :: real
  pid_set :: "real list"
  pid_get :: "real list"
  pid_err :: "real list"
  pout :: real
  iout :: real
  dout :: real
  pos_out :: real
  last_pos_out :: real
  delta_u :: real
  delta_out :: real
  last_delta_out :: real
  max_err :: real
  deadband :: real
  pid_mode :: u32
  MaxOutput :: u32
  IntegralLimit :: u32

text \<open>A static \<open>pid_t\<close> before initialisation.\<close>

definition pid_zero :: pid where
  "pid_zero = \<lparr>pid_p = 0, pid_i = 0, pid_d = 0, pid_set = [0, 0, 0], pid_get = [0, 0, 0], pid_err = [0, 0, 0],
     pout = 0, iout = 0, dout = 0, pos_out = 0, last_pos_out = 0, delta_u = 0, delta_out = 0, last_delta_out = 0,
     max_err = 0, deadband = 0, pid_mode = 0, MaxOutput = 0, IntegralLimit = 0\<rparr>"

definition pid_param_init :: "u32 \<Rightarrow> u32 \<Rightarrow> u32 \<Rightarrow> real \<Rightarrow> real \<Rightarrow> real \<Rightarrow> pid \<Rightarrow> pid" where
  "pid_param_init mode maxout integral_limit kp ki kd pid =
     pid\<lparr>IntegralLimit := integral_limit, MaxOutput := maxout, pid_mode := mode, pid_p := kp, pid_i := ki, pid_d := kd\<rparr>"

definition pid_reset :: "real \<Rightarrow> real \<Rightarrow> real \<Rightarrow> pid \<Rightarrow> pid" where
  "pid_reset kp ki kd pid = pid\<lparr>pid_p := kp, pid_i := ki, pid_d := kd\<rparr>"

text \<open>It installs \<open>pid_param_init\<close> and \<open>pid_reset\<close> as the object's methods and calls the first.\<close>

definition PID_struct_init :: "u32 \<Rightarrow> u32 \<Rightarrow> u32 \<Rightarrow> real \<Rightarrow> real \<Rightarrow> real \<Rightarrow> pid \<Rightarrow> pid" where
  "PID_struct_init mode maxout integral_limit kp ki kd pid = pid_param_init mode maxout integral_limit kp ki kd pid"

definition abs_limit :: "real \<Rightarrow> real \<Rightarrow> real" where
  "abs_limit a m = (let a1 = (if m < a then m else a) in if a1 < - m then - m else a1)"

text \<open>The argument of \<open>abs_limit\<close> is a \<open>float\<close>: the limits are converted.\<close>

definition limit_of :: "(real \<Rightarrow> real) \<Rightarrow> u32 \<Rightarrow> real" where
  "limit_of fl l = fl (of_int (uint l))"

definition pid_position :: "(real \<Rightarrow> real) \<Rightarrow> pid \<Rightarrow> pid" where
  "pid_position fl pid =
     (let e = pid_err pid;
          po = fl (pid_p pid * e ! NOW);
          io = abs_limit (fl (iout pid + fl (pid_i pid * e ! NOW))) (limit_of fl (IntegralLimit pid));
          d = fl (pid_d pid * fl (e ! NOW - e ! LAST));
          out = abs_limit (fl (fl (po + io) + d)) (limit_of fl (MaxOutput pid)) in
      pid\<lparr>pout := po, iout := io, dout := d, pos_out := out, last_pos_out := out\<rparr>)"

definition pid_delta :: "(real \<Rightarrow> real) \<Rightarrow> pid \<Rightarrow> pid" where
  "pid_delta fl pid =
     (let e = pid_err pid;
          po = fl (pid_p pid * fl (e ! NOW - e ! LAST));
          io = abs_limit (fl (pid_i pid * e ! NOW)) (limit_of fl (IntegralLimit pid));
          d = fl (pid_d pid * fl (fl (e ! NOW - fl (2 * e ! LAST)) + e ! LLAST));
          du = fl (fl (po + io) + d);
          out = abs_limit (fl (last_delta_out pid + du)) (limit_of fl (MaxOutput pid)) in
      pid\<lparr>pout := po, iout := io, dout := d, delta_u := du, delta_out := out, last_delta_out := out\<rparr>)"

definition shift_history :: "real list \<Rightarrow> real list" where
  "shift_history h = (let h1 = h[LLAST := h ! LAST] in h1[LAST := h1 ! NOW])"

definition pid_sample :: "(real \<Rightarrow> real) \<Rightarrow> pid \<Rightarrow> real \<Rightarrow> real \<Rightarrow> pid" where
  "pid_sample fl pid get target =
     pid\<lparr>pid_get := (pid_get pid)[NOW := get], pid_set := (pid_set pid)[NOW := target],
         pid_err := (pid_err pid)[NOW := fl (target - get)]\<rparr>"

definition pid_active :: "(real \<Rightarrow> real) \<Rightarrow> pid \<Rightarrow> pid" where
  "pid_active fl pid =
     (let pid1 = (if pid_mode pid = POSITION_PID then pid_position fl pid
                  else if pid_mode pid = DELTA_PID then pid_delta fl pid else pid) in
      pid1\<lparr>pid_err := shift_history (pid_err pid1), pid_get := shift_history (pid_get pid1),
           pid_set := shift_history (pid_set pid1)\<rparr>)"

definition pid_calc :: "(real \<Rightarrow> real) \<Rightarrow> pid \<Rightarrow> real \<Rightarrow> real \<Rightarrow> pid \<times> real" where
  "pid_calc fl pid get target =
     (let err = fl (target - get); pid1 = pid_sample fl pid get target in
      if max_err pid1 \<noteq> 0 \<and> max_err pid1 < \<bar>err\<bar> then (pid1, 0)
      else if deadband pid1 \<noteq> 0 \<and> \<bar>err\<bar> < deadband pid1 then (pid1, 0)
      else
        let pid2 = pid_active fl pid1 in
        (pid2, if pid_mode pid2 = POSITION_PID then pos_out pid2 else delta_out pid2))"

lemma abs_limit_bound: "0 \<le> m \<Longrightarrow> \<bar>abs_limit a m\<bar> \<le> m"
  by (auto simp: abs_limit_def Let_def)

lemma abs_limit_id: "\<bar>a\<bar> \<le> m \<Longrightarrow> abs_limit a m = a"
  by (auto simp: abs_limit_def Let_def)

text \<open>What every call keeps, and what it promises of its result.\<close>

definition pid_ok :: "(real \<Rightarrow> real) \<Rightarrow> pid \<Rightarrow> bool" where
  "pid_ok fl pid \<longleftrightarrow> \<bar>pos_out pid\<bar> \<le> limit_of fl (MaxOutput pid) \<and> \<bar>delta_out pid\<bar> \<le> limit_of fl (MaxOutput pid)
     \<and> \<bar>iout pid\<bar> \<le> limit_of fl (IntegralLimit pid)"

lemma pid_position_ok:
  "pid_ok fl pid \<Longrightarrow> 0 \<le> limit_of fl (MaxOutput pid) \<Longrightarrow> 0 \<le> limit_of fl (IntegralLimit pid) \<Longrightarrow> pid_ok fl (pid_position fl pid)"
  by (simp add: pid_ok_def pid_position_def Let_def abs_limit_bound)

lemma pid_delta_ok:
  "pid_ok fl pid \<Longrightarrow> 0 \<le> limit_of fl (MaxOutput pid) \<Longrightarrow> 0 \<le> limit_of fl (IntegralLimit pid) \<Longrightarrow> pid_ok fl (pid_delta fl pid)"
  by (simp add: pid_ok_def pid_delta_def Let_def abs_limit_bound)

lemma pid_modes_keep:
  "pid_mode (pid_position fl pid) = pid_mode pid" "MaxOutput (pid_position fl pid) = MaxOutput pid"
  "IntegralLimit (pid_position fl pid) = IntegralLimit pid"
  "pid_mode (pid_delta fl pid) = pid_mode pid" "MaxOutput (pid_delta fl pid) = MaxOutput pid"
  "IntegralLimit (pid_delta fl pid) = IntegralLimit pid"
  by (simp_all add: pid_position_def pid_delta_def Let_def)

lemma pid_ok_history: "pid_ok fl (pid\<lparr>pid_err := a, pid_get := b, pid_set := c\<rparr>) = pid_ok fl pid"
  by (simp add: pid_ok_def)

lemma pid_sample_keeps:
  "pid_ok fl (pid_sample fl pid get target) = pid_ok fl pid" "pid_mode (pid_sample fl pid get target) = pid_mode pid"
  "MaxOutput (pid_sample fl pid get target) = MaxOutput pid" "IntegralLimit (pid_sample fl pid get target) = IntegralLimit pid"
  by (simp_all add: pid_ok_def pid_sample_def)

lemma pid_active_keeps:
  "pid_mode (pid_active fl pid) = pid_mode pid" "MaxOutput (pid_active fl pid) = MaxOutput pid"
  "IntegralLimit (pid_active fl pid) = IntegralLimit pid"
  by (simp_all add: pid_active_def Let_def pid_modes_keep)

lemma pid_calc_keeps:
  "pid_mode (fst (pid_calc fl pid get target)) = pid_mode pid" "MaxOutput (fst (pid_calc fl pid get target)) = MaxOutput pid"
  "IntegralLimit (fst (pid_calc fl pid get target)) = IntegralLimit pid"
  by (simp_all add: pid_calc_def Let_def pid_sample_keeps pid_active_keeps)

lemma pid_active_ok:
  "pid_ok fl pid \<Longrightarrow> 0 \<le> limit_of fl (MaxOutput pid) \<Longrightarrow> 0 \<le> limit_of fl (IntegralLimit pid) \<Longrightarrow> pid_ok fl (pid_active fl pid)"
  by (simp add: pid_active_def Let_def pid_ok_history pid_position_ok pid_delta_ok)

lemma pid_ok_out: "pid_ok fl pid \<Longrightarrow> \<bar>if q then pos_out pid else delta_out pid\<bar> \<le> limit_of fl (MaxOutput pid)"
  by (simp add: pid_ok_def)

lemma pid_calc_ok:
  assumes "pid_ok fl pid" "0 \<le> limit_of fl (MaxOutput pid)" "0 \<le> limit_of fl (IntegralLimit pid)"
  shows "pid_ok fl (fst (pid_calc fl pid get target))" "\<bar>snd (pid_calc fl pid get target)\<bar> \<le> limit_of fl (MaxOutput pid)"
proof -
  have a: "pid_ok fl (pid_active fl (pid_sample fl pid get target))"
    using assms by (simp add: pid_active_ok pid_sample_keeps)
  show "pid_ok fl (fst (pid_calc fl pid get target))"
    using assms a by (simp add: pid_calc_def Let_def pid_sample_keeps)
  show "\<bar>snd (pid_calc fl pid get target)\<bar> \<le> limit_of fl (MaxOutput pid)"
    using assms(2) pid_ok_out [OF a] by (simp add: pid_calc_def Let_def pid_active_keeps pid_sample_keeps)
qed

text \<open>The quiet zone and the error cut-off answer 0 and keep the controller's outputs, integral and history.\<close>

lemma pid_calc_quiet:
  assumes "deadband pid \<noteq> 0 \<and> \<bar>fl (target - get)\<bar> < deadband pid \<or> max_err pid \<noteq> 0 \<and> max_err pid < \<bar>fl (target - get)\<bar>"
  shows "snd (pid_calc fl pid get target) = 0" "iout (fst (pid_calc fl pid get target)) = iout pid"
    "pos_out (fst (pid_calc fl pid get target)) = pos_out pid" "last_delta_out (fst (pid_calc fl pid get target)) = last_delta_out pid"
    "pid_err (fst (pid_calc fl pid get target)) = (pid_err pid)[NOW := fl (target - get)]"
  using assms by (auto simp: pid_calc_def Let_def pid_sample_def)

section \<open>Two forms of one control law\<close>

text \<open>
  \<open>pid_run\<close> feeds a controller a list of measurements and targets. In exact arithmetic and away from the
  limits, the position form's output is the textbook law, and the delta form accumulates to the same value.
\<close>

fun pid_run :: "(real \<Rightarrow> real) \<Rightarrow> pid \<Rightarrow> (real \<times> real) list \<Rightarrow> pid \<times> real list" where
  "pid_run fl pid [] = (pid, [])"
| "pid_run fl pid ((g, t) # xs) =
     (let (pid1, y) = pid_calc fl pid g t; (pid2, ys) = pid_run fl pid1 xs in (pid2, y # ys))"

text \<open>The law: \<open>p * e + i * (sum of the errors) + d * (e - previous e)\<close>.\<close>

fun pid_law :: "real \<Rightarrow> real \<Rightarrow> real \<Rightarrow> real \<Rightarrow> real \<Rightarrow> real list \<Rightarrow> real list" where
  "pid_law p i d acc before [] = []"
| "pid_law p i d acc before (e # es) =
     (p * e + i * (acc + e) + d * (e - before)) # pid_law p i d (acc + e) e es"

definition errors :: "(real \<times> real) list \<Rightarrow> real list" where
  "errors xs = map (\<lambda>(g, t). t - g) xs"

text \<open>No limit bites: neither the integral nor the output leaves its bounds along the law.\<close>

fun unsaturated :: "real \<Rightarrow> real \<Rightarrow> real \<Rightarrow> real \<Rightarrow> real \<Rightarrow> real \<Rightarrow> real \<Rightarrow> real list \<Rightarrow> bool" where
  "unsaturated p i d il ml acc before [] \<longleftrightarrow> True"
| "unsaturated p i d il ml acc before (e # es) \<longleftrightarrow>
     \<bar>i * (acc + e)\<bar> \<le> il \<and> \<bar>i * e\<bar> \<le> il \<and> \<bar>p * e + i * (acc + e) + d * (e - before)\<bar> \<le> ml
     \<and> unsaturated p i d il ml (acc + e) e es"

definition exact :: "real \<Rightarrow> real" where "exact x = x"

lemma nth_3: "length xs = 3 \<Longrightarrow> \<exists>a b c. xs = [a, b, c]"
  by (auto simp: eval_nat_numeral length_Suc_conv)

lemma pid_run_position:
  assumes "pid_mode pid = POSITION_PID" "max_err pid = 0" "deadband pid = 0"
    "length (pid_err pid) = 3" "iout pid = pid_i pid * acc" "pid_err pid ! LAST = before"
    "unsaturated (pid_p pid) (pid_i pid) (pid_d pid) (limit_of exact (IntegralLimit pid)) (limit_of exact (MaxOutput pid)) acc before (errors xs)"
  shows "snd (pid_run exact pid xs) = pid_law (pid_p pid) (pid_i pid) (pid_d pid) acc before (errors xs)"
  using assms
proof (induction xs arbitrary: pid acc before)
  case (Cons x xs)
  obtain g t where x: "x = (g, t)" by (cases x)
  obtain a b c where h: "pid_err pid = [a, b, c]" using nth_3 Cons.prems(4) by blast
  let ?pid = "fst (pid_calc exact pid g t)"
  have b: "b = before" using Cons.prems(6) h by simp
  have sat: "abs_limit (pid_i pid * acc + pid_i pid * (t - g)) (limit_of exact (IntegralLimit pid)) = pid_i pid * (acc + (t - g))"
    "abs_limit (pid_p pid * (t - g) + pid_i pid * (acc + (t - g)) + pid_d pid * (t - g - before)) (limit_of exact (MaxOutput pid))
      = pid_p pid * (t - g) + pid_i pid * (acc + (t - g)) + pid_d pid * (t - g - before)"
    using Cons.prems(7) by (simp_all add: abs_limit_id errors_def x flip: distrib_left)
  have step: "pid_mode ?pid = pid_mode pid" "max_err ?pid = max_err pid" "deadband ?pid = deadband pid"
    "pid_p ?pid = pid_p pid" "pid_i ?pid = pid_i pid" "pid_d ?pid = pid_d pid" "pid_err ?pid = [before, t - g, t - g]"
    "iout ?pid = pid_i pid * (acc + (t - g))"
    "snd (pid_calc exact pid g t) = pid_p pid * (t - g) + pid_i pid * (acc + (t - g)) + pid_d pid * (t - g - before)"
    using Cons.prems h b by (simp_all add: pid_calc_def pid_sample_def pid_active_def Let_def pid_position_def exact_def shift_history_def sat)
  have rest: "unsaturated (pid_p pid) (pid_i pid) (pid_d pid) (limit_of exact (IntegralLimit pid)) (limit_of exact (MaxOutput pid))
     (acc + (t - g)) (t - g) (errors xs)"
    using Cons.prems(7) by (simp add: x errors_def)
  have "snd (pid_run exact ?pid xs) = pid_law (pid_p pid) (pid_i pid) (pid_d pid) (acc + (t - g)) (t - g) (errors xs)"
    using Cons.IH [of ?pid "acc + (t - g)" "t - g"] Cons.prems rest
    by (simp add: step pid_calc_keeps)
  then show ?case using step(9) by (simp add: x errors_def Let_def case_prod_beta)
qed (simp add: errors_def)

lemma pid_run_delta:
  assumes "pid_mode pid = DELTA_PID" "max_err pid = 0" "deadband pid = 0"
    "length (pid_err pid) = 3" "pid_err pid ! LAST = before"
    "last_delta_out pid = pid_p pid * before + pid_i pid * acc + pid_d pid * (before - pid_err pid ! LLAST)"
    "unsaturated (pid_p pid) (pid_i pid) (pid_d pid) (limit_of exact (IntegralLimit pid)) (limit_of exact (MaxOutput pid)) acc before (errors xs)"
  shows "snd (pid_run exact pid xs) = pid_law (pid_p pid) (pid_i pid) (pid_d pid) acc before (errors xs)"
  using assms
proof (induction xs arbitrary: pid acc before)
  case (Cons x xs)
  obtain g t where x: "x = (g, t)" by (cases x)
  obtain a b c where h: "pid_err pid = [a, b, c]" using nth_3 Cons.prems(4) by blast
  let ?pid = "fst (pid_calc exact pid g t)"
  let ?e = "t - g"
  let ?law = "pid_p pid * ?e + pid_i pid * (acc + ?e) + pid_d pid * (?e - before)"
  have b: "b = before" using Cons.prems(5) h by simp
  have lim: "abs_limit (pid_i pid * ?e) (limit_of exact (IntegralLimit pid)) = pid_i pid * ?e"
    "abs_limit ?law (limit_of exact (MaxOutput pid)) = ?law"
    using Cons.prems(7) by (simp_all add: abs_limit_id errors_def x)
  have sum: "pid_p pid * before + pid_i pid * acc + pid_d pid * (before - a) + (pid_p pid * (?e - before) + pid_i pid * ?e + pid_d pid * (?e - 2 * before + a)) = ?law"
    by (simp add: algebra_simps)
  have step: "pid_mode ?pid = pid_mode pid" "max_err ?pid = max_err pid" "deadband ?pid = deadband pid"
    "pid_p ?pid = pid_p pid" "pid_i ?pid = pid_i pid" "pid_d ?pid = pid_d pid" "pid_err ?pid = [before, ?e, ?e]"
    "last_delta_out ?pid = ?law" "snd (pid_calc exact pid g t) = ?law"
    using Cons.prems h b by (simp_all add: pid_calc_def pid_sample_def pid_active_def Let_def pid_delta_def exact_def shift_history_def sum lim)
  have rest: "unsaturated (pid_p pid) (pid_i pid) (pid_d pid) (limit_of exact (IntegralLimit pid)) (limit_of exact (MaxOutput pid))
     (acc + ?e) ?e (errors xs)"
    using Cons.prems(7) by (simp add: x errors_def)
  have "snd (pid_run exact ?pid xs) = pid_law (pid_p pid) (pid_i pid) (pid_d pid) (acc + ?e) ?e (errors xs)"
    using Cons.IH [of ?pid ?e "acc + ?e"] Cons.prems rest
    by (simp add: step pid_calc_keeps)
  then show ?case using step(9) by (simp add: x errors_def Let_def case_prod_beta)
qed (simp add: errors_def)

section \<open>The chassis\<close>

text \<open>A \<open>float\<close> converted to \<open>int16_t\<close>: truncation, undefined out of range.\<close>

definition to_s16 :: "real \<Rightarrow> u16 option" where
  "to_s16 r = (let k = (if r < 0 then \<lceil>r\<rceil> else \<lfloor>r\<rfloor>) in
     if - 32768 \<le> k \<and> k \<le> 32767 then Some (word_of_int k) else None)"

text \<open>
  The \<open>CHASSIS_OLD\<close> mix. The maximum the source computes after it is not used by any statement, nor is
  \<open>each_max_spd\<close>.
\<close>

definition clamp_speed :: "real \<Rightarrow> real \<Rightarrow> real" where
  "clamp_speed m v = (let v1 = (if m < v then m else v) in if v1 < - m then - m else v1)"

definition Mecanum_calc :: "real \<Rightarrow> real \<Rightarrow> real \<Rightarrow> int \<Rightarrow> u16 list option" where
  "Mecanum_calc vx0 vy0 omega0 each_max_spd =
     (let vx = clamp_speed 14000 vx0; vy = clamp_speed 14000 vy0; om = clamp_speed 10000 omega0 in
      case (to_s16 (f32 (f32 (- vx + vy) - om)), to_s16 (f32 (f32 (- vx - vy) - om)),
            to_s16 (f32 (f32 (vx - vy) - om)), to_s16 (f32 (f32 (vx + vy) - om))) of
        (Some b0, Some b1, Some b2, Some b3) \<Rightarrow> Some [b0, b1, b2, b3]
      | _ \<Rightarrow> None)"

text \<open>
  The whole robot: the shared globals, the callback's buffer, the controllers, and where the motion task stands:
  0 before \<open>PID_Init\<close>, 1 at the head of its loop, then after each assignment of the loop.
\<close>

record robot_sys = robot +
  rx_buffer :: "u8 list"
  pid_macnum :: "pid list"
  pid_yaw :: pid
  pid_pit :: pid
  pid_poke :: pid
  rcch :: "real list"
  motion_pc :: nat

definition PID_Init :: "robot_sys \<Rightarrow> robot_sys" where
  "PID_Init s =
     s\<lparr>pid_macnum := map (PID_struct_init POSITION_PID 30000 5000 (f32 5) (f32 0) (f32 (1 / 10))) (pid_macnum s),
       pid_yaw := PID_struct_init POSITION_PID 30000 5000 (f32 100) (f32 (- 1 / 2)) (f32 (2 / 10)) (pid_yaw s),
       pid_pit := PID_struct_init POSITION_PID 30000 5000 (f32 100) (f32 (- 1 / 2)) (f32 (1 / 10)) (pid_pit s),
       pid_poke := PID_struct_init POSITION_PID 30000 5000 (f32 50) (f32 (- 1 / 2)) (f32 (1 / 10)) (pid_poke s),
       moto_yaw := (moto_yaw s)\<lparr>correcting_angle := 5461, offset_angle := 0\<rparr>,
       moto_pit := (moto_pit s)\<lparr>correcting_angle := 2730, offset_angle := 0\<rparr>\<rparr>"

definition set_rcch :: "nat \<Rightarrow> u16 \<Rightarrow> robot_sys \<Rightarrow> robot_sys" where
  "set_rcch k ch s = s\<lparr>rcch := (rcch s)[k := f64 (of_int (- sint ch) * 9)]\<rparr>"

definition yaw_step :: "robot_sys \<Rightarrow> robot_sys option" where
  "yaw_step s =
     (let (c, out) = pid_calc f32 (pid_yaw s) (f32 (of_int (uint (angle (moto_yaw s))))) (f32 (of_int (sint (sw (rc s)) + 2690))) in
      map_option (\<lambda>v. s\<lparr>pid_yaw := c, voltage_yaw := v\<rparr>) (to_s16 out))"

definition pit_step :: "robot_sys \<Rightarrow> robot_sys option" where
  "pit_step s =
     (let (c, out) = pid_calc f32 (pid_pit s) (f32 (of_int (uint (angle (moto_pit s)))))
            (f32 (f64 (f64 (of_int (sint (ch4 (rc s))) * f64 (9 / 10)) + 2900))) in
      map_option (\<lambda>v. s\<lparr>pid_pit := c, voltage_pit := v\<rparr>) (to_s16 out))"

definition mecanum_step :: "robot_sys \<Rightarrow> robot_sys option" where
  "mecanum_step s =
     map_option (\<lambda>b. s\<lparr>set_spd_macnum := b\<rparr>)
       (Mecanum_calc (f32 (rcch s ! 0)) (f32 (rcch s ! 1)) (f32 (rcch s ! 2)) 6000)"

definition wheel_step :: "nat \<Rightarrow> robot_sys \<Rightarrow> robot_sys option" where
  "wheel_step k s =
     (let (c, out) = pid_calc f32 (pid_macnum s ! k) (f32 (of_int (sint (speed_rpm (moto_macnum s ! k)))))
            (f32 (of_int (sint (set_spd_macnum s ! k)))) in
      map_option (\<lambda>v. s\<lparr>pid_macnum := (pid_macnum s)[k := c], current_macnum := (current_macnum s)[k := v]\<rparr>) (to_s16 out))"

text \<open>
  One assignment of \<open>motionTask_entry\<close>. Between two of them an interrupt or the receive thread may run.
  \<open>None\<close> is a conversion whose result the language does not define.
\<close>

definition motion_body :: "robot_sys \<Rightarrow> robot_sys option" where
  "motion_body s =
     (if motion_pc s = 0 then Some (PID_Init s)
      else if motion_pc s = 1 then Some (set_rcch 0 (ch1 (rc s)) s)
      else if motion_pc s = 2 then Some (set_rcch 1 (ch2 (rc s)) s)
      else if motion_pc s = 3 then Some (set_rcch 2 (ch3 (rc s)) s)
      else if motion_pc s = 4 then yaw_step s
      else if motion_pc s = 5 then pit_step s
      else if motion_pc s = 6 then mecanum_step s
      else wheel_step (motion_pc s - 7) s)"

definition motion_step :: "robot_sys \<Rightarrow> robot_sys option" where
  "motion_step s = map_option (\<lambda>s'. s'\<lparr>motion_pc := (if motion_pc s = 10 then 1 else motion_pc s + 1)\<rparr>) (motion_body s)"

definition remote_step :: "u8 list \<Rightarrow> robot_sys \<Rightarrow> robot_sys option" where
  "remote_step received s =
     map_option (\<lambda>d. s\<lparr>rx_buffer := dbus_rx_buffer d, rc := dbus_rc d\<rparr>)
       (dbus_input received \<lparr>dbus_rx_buffer = rx_buffer s, dbus_rc = rc s\<rparr>)"

definition robot_init :: robot_sys where
  "robot_init = \<lparr>rc = rc_zero, moto_macnum = replicate 4 moto_zero, moto_pit = moto_zero, moto_yaw = moto_zero,
     moto_poke = moto_zero, current_macnum = replicate 4 0, set_spd_macnum = replicate 4 0, voltage_yaw = 0, voltage_pit = 0,
     current_poke = 0, can_tx = [], rx_buffer = replicate 18 0, pid_macnum = replicate 4 pid_zero, pid_yaw = pid_zero,
     pid_pit = pid_zero, pid_poke = pid_zero, rcch = [0, 0, 0], motion_pc = 0\<rparr>"

text \<open>The three activities, in any order: the remote's callback, the receive thread, the motion task.\<close>

inductive sys_step :: "robot_sys \<Rightarrow> robot_sys \<Rightarrow> bool" where
  remote: "remote_step received s = Some s' \<Longrightarrow> sys_step s s'"
| can: "sys_step s (can_rx_step msg s)"
| motion: "motion_step s = Some s' \<Longrightarrow> sys_step s s'"

inductive_cases sys_stepE: "sys_step s s'"

section \<open>Conversions stay in range\<close>

definition small16 :: "u16 \<Rightarrow> bool" where
  "small16 v \<longleftrightarrow> \<bar>sint v\<bar> \<le> 30000"

lemma small16_0 [simp]: "small16 0" by (simp add: small16_def)

lemma sint_s16: "- 32768 \<le> k \<Longrightarrow> k \<le> 32767 \<Longrightarrow> sint (word_of_int k :: u16) = k"
  by (simp add: sint_sbintrunc' signed_take_bit_int_eq_self)

lemma to_s16_small:
  assumes "\<bar>r\<bar> \<le> 30000" shows "\<exists>v. to_s16 r = Some v \<and> small16 v"
proof -
  define k where "k = (if r < 0 then \<lceil>r\<rceil> else \<lfloor>r\<rfloor>)"
  have "- 30000 \<le> k" "k \<le> 30000" using assms by (auto simp: k_def)
  then show ?thesis by (simp add: to_s16_def k_def [symmetric] Let_def small16_def sint_s16)
qed

lemma to_s16_int: "\<bar>k\<bar> \<le> 32767 \<Longrightarrow> to_s16 (of_int k) = Some (word_of_int k)"
  by (auto simp: to_s16_def Let_def)

lemma f32_sum3:
  assumes "\<bar>a\<bar> \<le> 5940" "\<bar>b\<bar> \<le> 5940" "\<bar>c\<bar> \<le> 5940"
  shows "f32 (f32 (of_int a + of_int b) - of_int c) = of_int (a + b - c)"
proof -
  have "f32 (of_int (a + b)) = of_int (a + b)" using assms by (intro f32_int) auto
  moreover have "f32 (of_int (a + b - c)) = of_int (a + b - c)" using assms by (intro f32_int) auto
  ultimately show ?thesis by simp
qed

lemma mix_to_s16:
  assumes "\<bar>a\<bar> \<le> 5940" "\<bar>b\<bar> \<le> 5940" "\<bar>c\<bar> \<le> 5940"
  shows "to_s16 (f32 (f32 (of_int a + of_int b) - of_int c)) = Some (word_of_int (a + b - c))"
  unfolding f32_sum3 [OF assms] by (rule to_s16_int) (use assms in linarith)

lemma Mecanum_calc_ints:
  assumes "\<bar>x\<bar> \<le> 5940" "\<bar>y\<bar> \<le> 5940" "\<bar>z\<bar> \<le> 5940"
  shows "Mecanum_calc (of_int x) (of_int y) (of_int z) m =
    Some [word_of_int (- x + y - z), word_of_int (- x + - y - z), word_of_int (x + - y - z), word_of_int (x + y - z)]"
proof -
  have neg: "\<bar>- x\<bar> \<le> 5940" "\<bar>- y\<bar> \<le> 5940" using assms by auto
  have "clamp_speed 14000 (of_int x) = of_int x" "clamp_speed 14000 (of_int y) = of_int y" "clamp_speed 10000 (of_int z) = of_int z"
    using assms by (auto simp: clamp_speed_def Let_def)
  then show ?thesis
    using mix_to_s16 [OF neg(1) assms(2,3)] mix_to_s16 [OF neg assms(3)] mix_to_s16 [OF assms(1) neg(2) assms(3)]
      mix_to_s16 [OF assms]
    by (simp add: Mecanum_calc_def)
qed

text \<open>The state the activities keep.\<close>

definition pid_safe :: "pid \<Rightarrow> bool" where
  "pid_safe c \<longleftrightarrow> pid_ok f32 c \<and> MaxOutput c = 30000 \<and> IntegralLimit c = 5000"

definition rc_in_range :: "rc_info \<Rightarrow> bool" where
  "rc_in_range r \<longleftrightarrow> \<not> off_range (ch1 r) \<and> \<not> off_range (ch2 r) \<and> \<not> off_range (ch3 r) \<and> \<not> off_range (ch4 r)"

definition small_int :: "real \<Rightarrow> bool" where
  "small_int x \<longleftrightarrow> (\<exists>k. \<bar>k\<bar> \<le> 5940 \<and> x = of_int k)"

definition sys_inv :: "robot_sys \<Rightarrow> bool" where
  "sys_inv s \<longleftrightarrow> rc_in_range (rc s) \<and> length (rx_buffer s) = 18 \<and> length (moto_macnum s) = 4
     \<and> length (current_macnum s) = 4 \<and> length (set_spd_macnum s) = 4 \<and> length (pid_macnum s) = 4 \<and> length (rcch s) = 3
     \<and> motion_pc s \<le> 10
     \<and> (motion_pc s = 0 \<longrightarrow> pid_yaw s = pid_zero \<and> pid_pit s = pid_zero \<and> pid_macnum s = replicate 4 pid_zero)
     \<and> (0 < motion_pc s \<longrightarrow> pid_safe (pid_yaw s) \<and> pid_safe (pid_pit s) \<and> list_all pid_safe (pid_macnum s))
     \<and> list_all small16 (current_macnum s) \<and> small16 (voltage_yaw s) \<and> small16 (voltage_pit s)
     \<and> list_all small_int (rcch s)
     \<and> list_all (\<lambda>f. list_all small16 (frame_values f)) (can_tx s)"

lemma limits: "limit_of f32 30000 = 30000" "limit_of f32 5000 = 5000" "limit_of f32 0 = 0"
  using f32_int [of 30000] f32_int [of 5000] f32_int [of 0] by (simp_all add: limit_of_def)

lemma pid_safe_calc:
  assumes "pid_safe c" "pid_calc f32 c get target = (c', out)"
  shows "pid_safe c'" "\<exists>v. to_s16 out = Some v \<and> small16 v"
proof -
  have c: "pid_ok f32 c" "MaxOutput c = 30000" "IntegralLimit c = 5000" using assms(1) by (simp_all add: pid_safe_def)
  have c': "c' = fst (pid_calc f32 c get target)" "out = snd (pid_calc f32 c get target)" using assms(2) by simp_all
  show "pid_safe c'" using pid_calc_ok(1) [OF c(1), of get target] by (simp add: c' c pid_safe_def pid_calc_keeps limits)
  show "\<exists>v. to_s16 out = Some v \<and> small16 v"
    using pid_calc_ok(2) [OF c(1), of get target] by (intro to_s16_small) (simp add: c' c limits)
qed

lemma sys_inv_init: "sys_inv robot_init"
  by (simp add: sys_inv_def robot_init_def rc_in_range_def rc_zero_def off_range_def small_int_def eval_nat_numeral)

lemma pid_safe_init: "pid_safe (PID_struct_init POSITION_PID 30000 5000 kp ki kd pid_zero)"
  by (simp add: pid_safe_def pid_ok_def PID_struct_init_def pid_param_init_def pid_zero_def limits)

lemma list_all_update: "list_all P xs \<Longrightarrow> P x \<Longrightarrow> list_all P (xs[k := x])"
  by (induction xs arbitrary: k) (auto split: nat.splits)

lemma channel_small_int:
  assumes "\<not> off_range c"
  shows "f64 (of_int (- sint c) * 9) = of_int (- 9 * sint c)" "small_int (f64 (of_int (- sint c) * 9))"
proof -
  have "\<bar>- 9 * sint c\<bar> < 2 ^ Suc 52" using assms by (simp add: off_range_def)
  then have "f64 (of_int (- 9 * sint c)) = of_int (- 9 * sint c)" by (rule ieee_int) simp
  then show e: "f64 (of_int (- sint c) * 9) = of_int (- 9 * sint c)" by (simp add: mult.commute)
  show "small_int (f64 (of_int (- sint c) * 9))"
    unfolding e small_int_def by (rule exI [of _ "- 9 * sint c"]) (use assms in \<open>simp add: off_range_def\<close>)
qed

lemma sys_inv_pcD:
  assumes "sys_inv s" "0 < motion_pc s"
  shows "pid_safe (pid_yaw s)" "pid_safe (pid_pit s)" "\<And>k. k < 4 \<Longrightarrow> pid_safe (pid_macnum s ! k)"
  using assms by (simp_all add: sys_inv_def list_all_length)

lemma sys_inv_pc:
  "sys_inv s \<Longrightarrow> 0 < motion_pc s \<Longrightarrow> 0 < n \<Longrightarrow> n \<le> 10 \<Longrightarrow> sys_inv (s\<lparr>motion_pc := n\<rparr>)"
  by (simp add: sys_inv_def)

lemma PID_Init_inv:
  assumes "sys_inv s" "motion_pc s = 0"
  shows "sys_inv ((PID_Init s)\<lparr>motion_pc := 1\<rparr>)"
  using assms by (simp add: sys_inv_def PID_Init_def pid_safe_init list_all_length)

lemma set_rcch_inv:
  assumes "sys_inv s" "ch \<in> {ch1 (rc s), ch2 (rc s), ch3 (rc s)}"
  shows "sys_inv (set_rcch k ch s)"
proof -
  have "\<not> off_range ch" using assms by (auto simp: sys_inv_def rc_in_range_def)
  then show ?thesis using assms(1) channel_small_int(2) [of ch]
    by (simp add: sys_inv_def set_rcch_def list_all_update)
qed

lemma yaw_step_inv:
  assumes "sys_inv s" "0 < motion_pc s" shows "\<exists>s'. yaw_step s = Some s' \<and> sys_inv s' \<and> motion_pc s' = motion_pc s"
proof -
  obtain c out where r: "pid_calc f32 (pid_yaw s) (f32 (of_int (uint (angle (moto_yaw s))))) (f32 (of_int (sint (sw (rc s)) + 2690))) = (c, out)"
    by (rule prod.exhaust)
  obtain v where v: "to_s16 out = Some v" "small16 v" "pid_safe c"
    using pid_safe_calc [OF sys_inv_pcD(1) [OF assms] r] by blast
  then have "yaw_step s = Some (s\<lparr>pid_yaw := c, voltage_yaw := v\<rparr>)" by (simp only: yaw_step_def r) simp
  then show ?thesis using assms v by (simp add: sys_inv_def)
qed

lemma pit_step_inv:
  assumes "sys_inv s" "0 < motion_pc s" shows "\<exists>s'. pit_step s = Some s' \<and> sys_inv s' \<and> motion_pc s' = motion_pc s"
proof -
  obtain c out where r: "pid_calc f32 (pid_pit s) (f32 (of_int (uint (angle (moto_pit s)))))
            (f32 (f64 (f64 (of_int (sint (ch4 (rc s))) * f64 (9 / 10)) + 2900))) = (c, out)"
    by (rule prod.exhaust)
  obtain v where v: "to_s16 out = Some v" "small16 v" "pid_safe c"
    using pid_safe_calc [OF sys_inv_pcD(2) [OF assms] r] by blast
  then have "pit_step s = Some (s\<lparr>pid_pit := c, voltage_pit := v\<rparr>)" by (simp only: pit_step_def r) simp
  then show ?thesis using assms v by (simp add: sys_inv_def)
qed

lemma wheel_step_inv:
  assumes "sys_inv s" "0 < motion_pc s" "k < 4"
  shows "\<exists>s'. wheel_step k s = Some s' \<and> sys_inv s' \<and> motion_pc s' = motion_pc s"
proof -
  obtain c out where r: "pid_calc f32 (pid_macnum s ! k) (f32 (of_int (sint (speed_rpm (moto_macnum s ! k)))))
            (f32 (of_int (sint (set_spd_macnum s ! k)))) = (c, out)"
    by (rule prod.exhaust)
  obtain v where v: "to_s16 out = Some v" "small16 v" "pid_safe c"
    using pid_safe_calc [OF sys_inv_pcD(3) [OF assms] r] by blast
  then have "wheel_step k s = Some (s\<lparr>pid_macnum := (pid_macnum s)[k := c], current_macnum := (current_macnum s)[k := v]\<rparr>)"
    by (simp only: wheel_step_def r) simp
  then show ?thesis using assms v by (simp add: sys_inv_def list_all_update)
qed

lemma small_int_f32: "small_int x \<Longrightarrow> f32 x = x"
  by (auto simp: small_int_def intro: f32_int)

lemma mecanum_step_inv:
  assumes "sys_inv s" "0 < motion_pc s" shows "\<exists>s'. mecanum_step s = Some s' \<and> sys_inv s' \<and> motion_pc s' = motion_pc s"
proof -
  have si: "small_int (rcch s ! 0)" "small_int (rcch s ! 1)" "small_int (rcch s ! 2)"
    using assms(1) by (simp_all add: sys_inv_def list_all_length)
  obtain x y z where "\<bar>x\<bar> \<le> 5940" "\<bar>y\<bar> \<le> 5940" "\<bar>z\<bar> \<le> 5940"
    "rcch s ! 0 = of_int x" "rcch s ! 1 = of_int y" "rcch s ! 2 = of_int z"
    using si unfolding small_int_def by blast
  then have "mecanum_step s = Some (s\<lparr>set_spd_macnum :=
      [word_of_int (- x + y - z), word_of_int (- x + - y - z), word_of_int (x + - y - z), word_of_int (x + y - z)]\<rparr>)"
    using Mecanum_calc_ints [of x y z 6000] si [THEN small_int_f32] by (simp add: mecanum_step_def)
  then show ?thesis using assms by (simp add: sys_inv_def)
qed

lemma motion_body_inv:
  assumes "sys_inv s" "0 < motion_pc s"
  shows "\<exists>s'. motion_body s = Some s' \<and> sys_inv s' \<and> motion_pc s' = motion_pc s"
proof -
  have "motion_pc s \<le> 10" using assms(1) by (simp add: sys_inv_def)
  then consider "motion_pc s \<in> {1, 2, 3}" | "motion_pc s = 4" | "motion_pc s = 5" | "motion_pc s = 6"
    | "6 < motion_pc s" "motion_pc s - 7 < 4" using assms(2) by force
  then show ?thesis
  proof cases
    case 1
    then show ?thesis using set_rcch_inv [OF assms(1)] by (auto simp: motion_body_def set_rcch_def)
  next
    case 5
    then show ?thesis using wheel_step_inv [OF assms 5(2)] by (simp add: motion_body_def)
  qed (use yaw_step_inv [OF assms] pit_step_inv [OF assms] mecanum_step_inv [OF assms] in \<open>simp_all add: motion_body_def\<close>)
qed

lemma motion_step_inv:
  assumes "sys_inv s" shows "\<exists>s'. motion_step s = Some s' \<and> sys_inv s'"
proof (cases "motion_pc s = 0")
  case True
  then show ?thesis using PID_Init_inv [OF assms] by (simp add: motion_step_def motion_body_def)
next
  case False
  then obtain s' where s': "motion_body s = Some s'" "sys_inv s'" "motion_pc s' = motion_pc s"
    using motion_body_inv [OF assms] by blast
  have "motion_pc s \<le> 10" using assms by (simp add: sys_inv_def)
  then have "sys_inv (s'\<lparr>motion_pc := (if motion_pc s = 10 then 1 else motion_pc s + 1)\<rparr>)"
    using sys_inv_pc [OF s'(2)] s'(3) False by simp
  then show ?thesis using s'(1) by (simp add: motion_step_def)
qed

lemma can_rx_step_inv:
  assumes "sys_inv s" shows "sys_inv (can_rx_step msg s)"
proof -
  have d: "sys_inv (can_dispatch msg s)"
    using assms by (simp add: sys_inv_def can_dispatch_def Let_def)
  have small: "small16 (current_macnum s ! 0)" "small16 (current_macnum s ! 1)" "small16 (current_macnum s ! 2)"
    "small16 (current_macnum s ! 3)" "small16 (voltage_yaw s)" "small16 (voltage_pit s)"
    using assms by (simp_all add: sys_inv_def list_all_length)
  show ?thesis
    using d small by (simp add: can_rx_step_def Let_def can_dispatch_frame) (simp add: sys_inv_def can_dispatch_frame
      set_motor_current_def set_motor_voltage_def frame_values_motor)
qed

lemma remote_step_inv:
  assumes "sys_inv s" "remote_step received s = Some s'" shows "sys_inv s'"
proof -
  let ?d = "\<lparr>dbus_rx_buffer = rx_buffer s, dbus_rc = rc s\<rparr>"
  let ?b = "received @ drop (length received) (rx_buffer s)"
  have len: "length (rx_buffer s) = 18" using assms(1) by (simp add: sys_inv_def)
  then have l: "length received \<le> 18"
    using assms(2) by (simp add: remote_step_def dbus_input_def split: if_splits)
  have "dbus_input received ?d = Some (?d\<lparr>dbus_rx_buffer := ?b, dbus_rc := rc_process ?b (rc s)\<rparr>)"
    using dbus_input_some [of ?d received] len l by simp
  then have s': "s' = s\<lparr>rx_buffer := ?b, rc := rc_process ?b (rc s)\<rparr>" using assms(2) by (simp add: remote_step_def)
  have "length ?b = 18" "rc_in_range (rc_process ?b (rc s))"
    using len l rc_process_bounds by (simp_all add: rc_in_range_def)
  then show ?thesis using assms(1) unfolding s' by (simp add: sys_inv_def)
qed

lemma sys_step_inv: "sys_step s s' \<Longrightarrow> sys_inv s \<Longrightarrow> sys_inv s'"
proof (erule sys_stepE)
  assume "motion_step s = Some s'" "sys_inv s"
  then show "sys_inv s'" using motion_step_inv by fastforce
qed (simp_all add: remote_step_inv can_rx_step_inv)

lemma sys_reachable_inv: "sys_step\<^sup>*\<^sup>* robot_init s \<Longrightarrow> sys_inv s"
  by (induction rule: rtranclp_induct) (simp_all add: sys_inv_init sys_step_inv)

section \<open>A whole turn\<close>

fun motion_steps :: "nat \<Rightarrow> robot_sys \<Rightarrow> robot_sys option" where
  "motion_steps 0 s = Some s"
| "motion_steps (Suc n) s = (case motion_step s of None \<Rightarrow> None | Some s' \<Rightarrow> motion_steps n s')"

lemma motion_steps_3:
  "motion_step s = Some a \<Longrightarrow> motion_step a = Some b \<Longrightarrow> motion_step b = Some c \<Longrightarrow> motion_steps 3 s = Some c"
  by (simp add: numeral_3_eq_3)

lemma motion_steps_add: "motion_steps m s = Some s1 \<Longrightarrow> motion_steps n s1 = Some s2 \<Longrightarrow> motion_steps (m + n) s = Some s2"
  by (induction m arbitrary: s) (auto split: option.splits)

text \<open>One turn of the loop of \<open>motionTask_entry\<close> that nothing preempts: its ten assignments.\<close>

definition motion_turn :: "robot_sys \<Rightarrow> robot_sys option" where
  "motion_turn s = motion_steps 10 s"

text \<open>The wheel targets the turn should compute, as exact integers.\<close>

definition wheel_targets :: "rc_info \<Rightarrow> int list" where
  "wheel_targets r =
     (let x = sint (ch1 r); y = sint (ch2 r); z = sint (ch3 r) in
      [9 * (x - y + z), 9 * (x + y + z), 9 * (- x + y + z), 9 * (- x - y + z)])"

definition wheel_command :: "robot_sys \<Rightarrow> nat \<Rightarrow> u16" where
  "wheel_command s k =
     the (to_s16 (snd (pid_calc f32 (pid_macnum s ! k) (f32 (of_int (sint (speed_rpm (moto_macnum s ! k)))))
       (of_int (wheel_targets (rc s) ! k)))))"

text \<open>The four wheels, one after the other.\<close>

definition wheels_done :: "robot_sys \<Rightarrow> nat \<Rightarrow> robot_sys \<Rightarrow> bool" where
  "wheels_done s k s' \<longleftrightarrow> motion_pc s' = 7 + k \<and> sys_inv s' \<and> rc s' = rc s \<and> moto_macnum s' = moto_macnum s
     \<and> map sint (set_spd_macnum s') = wheel_targets (rc s)
     \<and> (\<forall>j < 4. k \<le> j \<longrightarrow> pid_macnum s' ! j = pid_macnum s ! j)
     \<and> (\<forall>j < 4. j < k \<longrightarrow> current_macnum s' ! j = wheel_command s j)"

lemma wheels_done_body:
  assumes w: "wheels_done s k s1" and k: "k < 4"
  shows "\<exists>s2. motion_body s1 = Some s2 \<and> sys_inv s2 \<and> rc s2 = rc s \<and> moto_macnum s2 = moto_macnum s
     \<and> map sint (set_spd_macnum s2) = wheel_targets (rc s) \<and> motion_pc s2 = 7 + k
     \<and> (\<forall>j < 4. Suc k \<le> j \<longrightarrow> pid_macnum s2 ! j = pid_macnum s ! j)
     \<and> (\<forall>j < 4. j < Suc k \<longrightarrow> current_macnum s2 ! j = wheel_command s j)"
proof -
  have pc: "motion_pc s1 = 7 + k" and inv: "sys_inv s1" using w by (simp_all add: wheels_done_def)
  have l: "length (current_macnum s1) = 4" "length (pid_macnum s1) = 4" "length (set_spd_macnum s1) = 4" using inv by (simp_all add: sys_inv_def)
  have t: "sint (set_spd_macnum s1 ! k) = wheel_targets (rc s) ! k"
  proof -
    have "map sint (set_spd_macnum s1) ! k = wheel_targets (rc s) ! k" using w by (simp only: wheels_done_def)
    then show ?thesis using k l(3) by simp
  qed
  have b: "\<bar>sint (set_spd_macnum s1 ! k)\<bar> < 2 ^ 24" using sint_range_size [of "set_spd_macnum s1 ! k"] by (auto simp: word_size)
  obtain c out where r: "pid_calc f32 (pid_macnum s1 ! k) (f32 (of_int (sint (speed_rpm (moto_macnum s1 ! k)))))
            (f32 (of_int (sint (set_spd_macnum s1 ! k)))) = (c, out)"
    by (rule prod.exhaust)
  obtain v where v: "to_s16 out = Some v" "small16 v" "pid_safe c"
    using pid_safe_calc [OF sys_inv_pcD(3) [OF inv _ k] r] pc by force
  have "wheel_command s k = v"
    using r v(1) w k unfolding f32_int [OF b] by (simp add: wheel_command_def t wheels_done_def)
  moreover have body: "motion_body s1 = Some (s1\<lparr>pid_macnum := (pid_macnum s1)[k := c], current_macnum := (current_macnum s1)[k := v]\<rparr>)"
    using pc k r v(1) by (simp add: motion_body_def wheel_step_def)
  moreover have "sys_inv (s1\<lparr>pid_macnum := (pid_macnum s1)[k := c], current_macnum := (current_macnum s1)[k := v]\<rparr>)"
    using motion_body_inv [OF inv] pc unfolding body by simp
  moreover have "rc s1 = rc s" "moto_macnum s1 = moto_macnum s" "map sint (set_spd_macnum s1) = wheel_targets (rc s)"
    "\<forall>j < 4. k \<le> j \<longrightarrow> pid_macnum s1 ! j = pid_macnum s ! j" "\<forall>j < 4. j < k \<longrightarrow> current_macnum s1 ! j = wheel_command s j"
    using w by (simp_all add: wheels_done_def)
  ultimately show ?thesis
    using k l pc by (simp add: less_Suc_eq nth_list_update)
qed

lemma wheels_done_step:
  assumes "wheels_done s k s1" "k < 3"
  shows "\<exists>s2. motion_step s1 = Some s2 \<and> wheels_done s (Suc k) s2"
proof -
  obtain s2 where s2: "motion_body s1 = Some s2" "sys_inv s2" "rc s2 = rc s" "moto_macnum s2 = moto_macnum s"
     "map sint (set_spd_macnum s2) = wheel_targets (rc s)" "motion_pc s2 = 7 + k"
     "\<forall>j < 4. Suc k \<le> j \<longrightarrow> pid_macnum s2 ! j = pid_macnum s ! j"
     "\<forall>j < 4. j < Suc k \<longrightarrow> current_macnum s2 ! j = wheel_command s j"
    using wheels_done_body [OF assms(1)] assms(2) by force
  have "motion_pc s1 = 7 + k" using assms(1) by (simp add: wheels_done_def)
  then have "motion_step s1 = Some (s2\<lparr>motion_pc := 7 + Suc k\<rparr>)" using s2(1) assms(2) by (simp add: motion_step_def)
  moreover have "sys_inv (s2\<lparr>motion_pc := 7 + Suc k\<rparr>)" using sys_inv_pc [OF s2(2)] s2(6) assms(2) by simp
  ultimately show ?thesis using s2 by (simp add: wheels_done_def)
qed

text \<open>The first six assignments, up to the wheel targets.\<close>

lemma motion_step_pc:
  assumes "sys_inv s" "0 < motion_pc s" "motion_pc s < 10" "motion_body s = Some s'" "motion_pc s' = motion_pc s"
  shows "motion_step s = Some (s'\<lparr>motion_pc := Suc (motion_pc s)\<rparr>)" "sys_inv (s'\<lparr>motion_pc := Suc (motion_pc s)\<rparr>)"
proof -
  have "sys_inv s'" using motion_body_inv [OF assms(1,2)] assms(4) by simp
  then show "sys_inv (s'\<lparr>motion_pc := Suc (motion_pc s)\<rparr>)" using sys_inv_pc [of s'] assms by simp
  show "motion_step s = Some (s'\<lparr>motion_pc := Suc (motion_pc s)\<rparr>)" using assms(3,4) by (simp add: motion_step_def)
qed

text \<open>What the wheels' part does not see changed.\<close>

definition wheels_view :: "robot_sys \<Rightarrow> robot_sys \<Rightarrow> bool" where
  "wheels_view s s' \<longleftrightarrow> rc s' = rc s \<and> moto_macnum s' = moto_macnum s \<and> pid_macnum s' = pid_macnum s"

lemma motion_head:
  assumes "sys_inv s" "motion_pc s = 1"
  shows "\<exists>s4. motion_steps 3 s = Some s4 \<and> sys_inv s4 \<and> motion_pc s4 = 4 \<and> wheels_view s s4
    \<and> rcch s4 = [of_int (- 9 * sint (ch1 (rc s))), of_int (- 9 * sint (ch2 (rc s))), of_int (- 9 * sint (ch3 (rc s)))]"
proof -
  have c: "\<not> off_range (ch1 (rc s))" "\<not> off_range (ch2 (rc s))" "\<not> off_range (ch3 (rc s))"
    using assms(1) by (simp_all add: sys_inv_def rc_in_range_def)
  obtain a b d where h: "rcch s = [a, b, d]" using assms(1) nth_3 [of "rcch s"] by (auto simp: sys_inv_def)
  let ?s2 = "(set_rcch 0 (ch1 (rc s)) s)\<lparr>motion_pc := 2\<rparr>"
  let ?s3 = "(set_rcch 1 (ch2 (rc s)) ?s2)\<lparr>motion_pc := 3\<rparr>"
  let ?s4 = "(set_rcch 2 (ch3 (rc s)) ?s3)\<lparr>motion_pc := 4\<rparr>"
  have s2: "motion_step s = Some ?s2" "sys_inv ?s2"
    using motion_step_pc [OF assms(1), of "set_rcch 0 (ch1 (rc s)) s"] assms(2)
    by (simp_all add: motion_body_def set_rcch_def numeral_2_eq_2)
  have s3: "motion_step ?s2 = Some ?s3" "sys_inv ?s3"
    using motion_step_pc [OF s2(2), of "set_rcch 1 (ch2 (rc s)) ?s2"]
    by (simp_all add: motion_body_def set_rcch_def numeral_3_eq_3 numeral_2_eq_2)
  have s4: "motion_step ?s3 = Some ?s4" "sys_inv ?s4"
    using motion_step_pc [OF s3(2), of "set_rcch 2 (ch3 (rc s)) ?s3"]
    by (simp_all add: motion_body_def set_rcch_def)
  have "motion_steps 3 s = Some ?s4" by (rule motion_steps_3 [OF s2(1) s3(1) s4(1)])
  moreover have "wheels_view s ?s4" by (simp add: wheels_view_def set_rcch_def)
  moreover have "rcch ?s4 = [of_int (- 9 * sint (ch1 (rc s))), of_int (- 9 * sint (ch2 (rc s))), of_int (- 9 * sint (ch3 (rc s)))]"
    by (simp add: set_rcch_def h channel_small_int(1) [OF c(1)] channel_small_int(1) [OF c(2)] channel_small_int(1) [OF c(3)] del: of_int_minus of_int_mult)
  ultimately show ?thesis using s4(2) by (intro exI [of _ ?s4]) simp
qed

lemma motion_middle:
  assumes "sys_inv s" "motion_pc s = 4"
  shows "\<exists>s6. motion_steps 2 s = Some s6 \<and> sys_inv s6 \<and> motion_pc s6 = 6 \<and> wheels_view s s6 \<and> rcch s6 = rcch s"
proof -
  have pc: "0 < motion_pc s" "motion_pc s < 10" using assms(2) by simp_all
  obtain a where a: "yaw_step s = Some a" using yaw_step_inv [OF assms(1) pc(1)] by blast
  then have va: "wheels_view s a" "rcch a = rcch s" "motion_pc a = motion_pc s"
    by (auto simp: yaw_step_def Let_def wheels_view_def split: prod.splits)
  have ba: "motion_body s = Some a" using a assms(2) by (simp add: motion_body_def)
  let ?s5 = "a\<lparr>motion_pc := Suc (motion_pc s)\<rparr>"
  note s5 = motion_step_pc [OF assms(1) pc ba va(3)]
  have pc5: "motion_pc ?s5 = 5" using assms(2) by simp
  obtain b where b: "pit_step ?s5 = Some b" using pit_step_inv [OF s5(2)] by auto
  then have vb: "wheels_view ?s5 b" "rcch b = rcch ?s5" "motion_pc b = motion_pc ?s5"
    by (auto simp: pit_step_def Let_def wheels_view_def split: prod.splits)
  have bb: "motion_body ?s5 = Some b" using b pc5 by (simp add: motion_body_def)
  let ?s6 = "b\<lparr>motion_pc := Suc (motion_pc ?s5)\<rparr>"
  have s6: "motion_step ?s5 = Some ?s6" "sys_inv ?s6"
    using motion_step_pc [OF s5(2) _ _ bb vb(3)] pc5 by simp_all
  have "motion_steps 2 s = Some ?s6" by (simp only: numeral_2_eq_2 motion_steps.simps s5(1) s6(1) option.case)
  moreover have "wheels_view s ?s6" "rcch ?s6 = rcch s" using va vb by (simp_all add: wheels_view_def)
  moreover have "motion_pc ?s6 = 6" using pc5 by simp
  ultimately show ?thesis using s6(2) by blast
qed

lemma wheel_target_ints:
  assumes "rc_in_range r"
  shows "map sint [word_of_int (9 * sint (ch1 r) + - 9 * sint (ch2 r) - - 9 * sint (ch3 r)) :: u16,
     word_of_int (9 * sint (ch1 r) + 9 * sint (ch2 r) - - 9 * sint (ch3 r)),
     word_of_int (- 9 * sint (ch1 r) + 9 * sint (ch2 r) - - 9 * sint (ch3 r)),
     word_of_int (- 9 * sint (ch1 r) + - 9 * sint (ch2 r) - - 9 * sint (ch3 r))] = wheel_targets r"
proof -
  have c: "\<bar>sint (ch1 r)\<bar> \<le> 660" "\<bar>sint (ch2 r)\<bar> \<le> 660" "\<bar>sint (ch3 r)\<bar> \<le> 660"
    using assms by (simp_all add: rc_in_range_def off_range_def)
  have s: "sint (word_of_int z :: u16) = z" if "\<bar>z\<bar> \<le> 17820" for z using that by (intro sint_s16) auto
  show ?thesis
    unfolding list.map by (subst s, use c in linarith)+ (simp add: wheel_targets_def Let_def)
qed

lemma channel_times_9: "\<not> off_range c \<Longrightarrow> \<bar>- 9 * sint c\<bar> \<le> 5940"
  unfolding off_range_def by linarith

lemma motion_mix:
  assumes "sys_inv s" "motion_pc s = 6"
    "rcch s = [of_int (- 9 * sint (ch1 (rc s))), of_int (- 9 * sint (ch2 (rc s))), of_int (- 9 * sint (ch3 (rc s)))]"
  shows "\<exists>s7. motion_step s = Some s7 \<and> sys_inv s7 \<and> motion_pc s7 = 7 \<and> wheels_view s s7
    \<and> map sint (set_spd_macnum s7) = wheel_targets (rc s)"
proof -
  have r: "rc_in_range (rc s)" using assms(1) by (simp add: sys_inv_def)
  then have c: "\<bar>- 9 * sint (ch1 (rc s))\<bar> \<le> 5940" "\<bar>- 9 * sint (ch2 (rc s))\<bar> \<le> 5940" "\<bar>- 9 * sint (ch3 (rc s))\<bar> \<le> 5940"
    by (intro channel_times_9, simp add: rc_in_range_def)+
  have f: "f32 (of_int k) = of_int k" if "\<bar>k\<bar> \<le> 5940" for k using that by (intro f32_int) auto
  let ?b = "[word_of_int (9 * sint (ch1 (rc s)) + - 9 * sint (ch2 (rc s)) - - 9 * sint (ch3 (rc s))) :: u16,
     word_of_int (9 * sint (ch1 (rc s)) + 9 * sint (ch2 (rc s)) - - 9 * sint (ch3 (rc s))),
     word_of_int (- 9 * sint (ch1 (rc s)) + 9 * sint (ch2 (rc s)) - - 9 * sint (ch3 (rc s))),
     word_of_int (- 9 * sint (ch1 (rc s)) + - 9 * sint (ch2 (rc s)) - - 9 * sint (ch3 (rc s)))]"
  have neg: "- (- 9 * k) = 9 * k" for k :: int by simp
  have "mecanum_step s = Some (s\<lparr>set_spd_macnum := ?b\<rparr>)"
    using Mecanum_calc_ints [OF c, of 6000] unfolding mecanum_step_def assms(3) nth_Cons_0 nth_Cons_Suc numeral_2_eq_2 One_nat_def
      f [OF c(1)] f [OF c(2)] f [OF c(3)] neg by (simp only: option.map)
  then have b: "motion_body s = Some (s\<lparr>set_spd_macnum := ?b\<rparr>)" using assms(2) by (simp add: motion_body_def)
  note st = motion_step_pc [OF assms(1) _ _ b]
  have "motion_step s = Some ((s\<lparr>set_spd_macnum := ?b\<rparr>)\<lparr>motion_pc := Suc (motion_pc s)\<rparr>)"
    "sys_inv ((s\<lparr>set_spd_macnum := ?b\<rparr>)\<lparr>motion_pc := Suc (motion_pc s)\<rparr>)"
    using st assms(2) by simp_all
  moreover have "map sint (set_spd_macnum ((s\<lparr>set_spd_macnum := ?b\<rparr>)\<lparr>motion_pc := Suc (motion_pc s)\<rparr>)) = wheel_targets (rc s)"
    using wheel_target_ints [OF r] by simp
  moreover have "wheels_view s ((s\<lparr>set_spd_macnum := ?b\<rparr>)\<lparr>motion_pc := Suc (motion_pc s)\<rparr>)" by (simp add: wheels_view_def)
  moreover have "motion_pc ((s\<lparr>set_spd_macnum := ?b\<rparr>)\<lparr>motion_pc := Suc (motion_pc s)\<rparr>) = 7" using assms(2) by simp
  ultimately show ?thesis by blast
qed

lemma wheels_done_last:
  assumes "wheels_done s 3 s1"
  shows "\<exists>s2. motion_step s1 = Some s2 \<and> motion_pc s2 = 1 \<and> sys_inv s2 \<and> rc s2 = rc s
    \<and> map sint (set_spd_macnum s2) = wheel_targets (rc s) \<and> (\<forall>j < 4. current_macnum s2 ! j = wheel_command s j)"
proof -
  obtain s2 where s2: "motion_body s1 = Some s2" "sys_inv s2" "rc s2 = rc s"
     "map sint (set_spd_macnum s2) = wheel_targets (rc s)" "motion_pc s2 = 10"
     "\<forall>j < 4. j < Suc 3 \<longrightarrow> current_macnum s2 ! j = wheel_command s j"
    using wheels_done_body [OF assms] by force
  have "motion_pc s1 = 10" using assms by (simp add: wheels_done_def)
  then have "motion_step s1 = Some (s2\<lparr>motion_pc := 1\<rparr>)" using s2(1) by (simp add: motion_step_def)
  moreover have "sys_inv (s2\<lparr>motion_pc := 1\<rparr>)" using sys_inv_pc [OF s2(2)] s2(5) by simp
  ultimately show ?thesis using s2 by simp
qed

lemma motion_turn_wheels:
  assumes "sys_inv s" "motion_pc s = 1"
  shows "\<exists>s7. motion_steps 6 s = Some s7 \<and> wheels_done s 0 s7"
proof -
  obtain s4 where s4: "motion_steps 3 s = Some s4" "sys_inv s4" "motion_pc s4 = 4" "wheels_view s s4"
    "rcch s4 = [of_int (- 9 * sint (ch1 (rc s))), of_int (- 9 * sint (ch2 (rc s))), of_int (- 9 * sint (ch3 (rc s)))]"
    using motion_head [OF assms] by blast
  obtain s6 where s6: "motion_steps 2 s4 = Some s6" "sys_inv s6" "motion_pc s6 = 6" "wheels_view s4 s6" "rcch s6 = rcch s4"
    using motion_middle [OF s4(2,3)] by blast
  have v: "wheels_view s s6" using s4(4) s6(4) by (simp add: wheels_view_def)
  then have "rcch s6 = [of_int (- 9 * sint (ch1 (rc s6))), of_int (- 9 * sint (ch2 (rc s6))), of_int (- 9 * sint (ch3 (rc s6)))]"
    using s4(5) s6(5) by (simp add: wheels_view_def)
  then obtain s7 where s7: "motion_step s6 = Some s7" "sys_inv s7" "motion_pc s7 = 7" "wheels_view s6 s7"
    "map sint (set_spd_macnum s7) = wheel_targets (rc s6)"
    using motion_mix [OF s6(2,3)] by blast
  have "motion_steps 1 s6 = Some s7" using s7(1) by simp
  then have "motion_steps (3 + (2 + 1)) s = Some s7" by (intro motion_steps_add [OF s4(1)] motion_steps_add [OF s6(1)])
  moreover have "wheels_done s 0 s7" using s7 v by (simp add: wheels_done_def wheels_view_def)
  ultimately show ?thesis by auto
qed

lemma motion_turn_done:
  assumes "sys_inv s" "motion_pc s = 1"
  shows "\<exists>s'. motion_turn s = Some s' \<and> motion_pc s' = 1 \<and> sys_inv s' \<and> rc s' = rc s
    \<and> map sint (set_spd_macnum s') = wheel_targets (rc s) \<and> (\<forall>j < 4. current_macnum s' ! j = wheel_command s j)"
proof -
  obtain s7 where s7: "motion_steps 6 s = Some s7" "wheels_done s 0 s7" using motion_turn_wheels [OF assms] by blast
  obtain s8 where s8: "motion_step s7 = Some s8" "wheels_done s 1 s8" using wheels_done_step [OF s7(2)] by auto
  obtain s9 where s9: "motion_step s8 = Some s9" "wheels_done s 2 s9" using wheels_done_step [OF s8(2)] by (auto simp: numeral_2_eq_2)
  obtain s10 where s10: "motion_step s9 = Some s10" "wheels_done s 3 s10" using wheels_done_step [OF s9(2)] by (auto simp: numeral_3_eq_3)
  obtain s' where s': "motion_step s10 = Some s'" "motion_pc s' = 1" "sys_inv s'" "rc s' = rc s"
    "map sint (set_spd_macnum s') = wheel_targets (rc s)" "\<forall>j < 4. current_macnum s' ! j = wheel_command s j"
    using wheels_done_last [OF s10(2)] by blast
  have "motion_steps 1 s10 = Some s'" using s'(1) by simp
  then have "motion_steps (6 + (3 + 1)) s = Some s'"
    by (intro motion_steps_add [OF s7(1)] motion_steps_add [OF motion_steps_3 [OF s8(1) s9(1) s10(1)]])
  then have "motion_turn s = Some s'" by (simp add: motion_turn_def)
  then show ?thesis using s' by blast
qed

section \<open>The properties\<close>

text \<open>C21. Whatever the remote control and the bus deliver, and however the callback, the receive thread and the motion
  task interleave, the motion task never performs an undefined conversion, its channels stay within 660, and every
  value ever put on the bus is a current or voltage of at most 30000 in magnitude.\<close>

theorem robot_commands_bounded:
  assumes "sys_step\<^sup>*\<^sup>* robot_init s"
  shows "motion_step s \<noteq> None \<and> rc_in_range (rc s)
    \<and> (\<forall>f \<in> set (can_tx s). \<forall>v \<in> set (frame_values f). \<bar>sint v\<bar> \<le> 30000)"
proof -
  have inv: "sys_inv s" using assms by (rule sys_reachable_inv)
  obtain s' where "motion_step s = Some s'" using motion_step_inv [OF inv] by blast
  moreover have "rc_in_range (rc s)" "list_all (\<lambda>f. list_all small16 (frame_values f)) (can_tx s)"
    using inv by (simp_all add: sys_inv_def)
  ultimately show ?thesis by (auto simp: list_all_iff small16_def)
qed

lemma robot_sample_remote:
  "remote_step (dbus_frame rc_sample) robot_init = Some (robot_init\<lparr>rx_buffer := dbus_frame rc_sample, rc := rc_sample\<rparr>)"
proof -
  have "rc_valid rc_sample" by code_simp
  then show ?thesis by (simp add: remote_step_def dbus_input_frame robot_init_def)
qed

lemma robot_commands_bounded_witness:
  "let s = can_rx_step (feedback_frame 0x203 0x10 0x00) (robot_init\<lparr>rx_buffer := dbus_frame rc_sample, rc := rc_sample\<rparr>) in
     motion_step s \<noteq> None \<and> length (can_tx s) = 2 \<and> (\<forall>f \<in> set (can_tx s). \<forall>v \<in> set (frame_values f). \<bar>sint v\<bar> \<le> 30000)"
proof -
  let ?r = "robot_init\<lparr>rx_buffer := dbus_frame rc_sample, rc := rc_sample\<rparr>"
  have "sys_step robot_init ?r" by (rule sys_step.remote) (rule robot_sample_remote)
  moreover have "sys_step ?r (can_rx_step (feedback_frame 0x203 0x10 0x00) ?r)" by (rule sys_step.can)
  ultimately have "sys_step\<^sup>*\<^sup>* robot_init (can_rx_step (feedback_frame 0x203 0x10 0x00) ?r)" by auto
  note b = robot_commands_bounded [OF this]
  have "sw1 (rc ?r) = 1" "can_tx ?r = []" by (simp_all add: rc_sample_def robot_init_def)
  then have "length (can_tx (can_rx_step (feedback_frame 0x203 0x10 0x00) ?r)) = 2"
    by (simp add: can_rx_step_def Let_def can_dispatch_frame)
  then show ?thesis using b by (simp only: Let_def) blast
qed

text \<open>C22. From the head of the loop, in any state the robot can reach, a turn of the motion task that is not preempted
  ends after its ten assignments back at the head. It has set the four wheel targets to exactly the mecanum mix of the
  three channels (no rounding, no clamp and no wrap-around touches it) and the four wheel currents to the
  controllers' outputs for those targets.\<close>

theorem motion_turn_completes:
  assumes "sys_step\<^sup>*\<^sup>* robot_init s" "motion_pc s = 1"
  shows "\<exists>s'. motion_turn s = Some s' \<and> motion_pc s' = 1 \<and> rc s' = rc s
    \<and> map sint (set_spd_macnum s') = wheel_targets (rc s)
    \<and> current_macnum s' = map (wheel_command s) [0..<4]"
proof -
  obtain s' where s': "motion_turn s = Some s'" "motion_pc s' = 1" "sys_inv s'" "rc s' = rc s"
    "map sint (set_spd_macnum s') = wheel_targets (rc s)" "\<forall>j < 4. current_macnum s' ! j = wheel_command s j"
    using motion_turn_done [OF sys_reachable_inv [OF assms(1)] assms(2)] by blast
  have "length (current_macnum s') = 4" using s'(3) by (simp add: sys_inv_def)
  then have "current_macnum s' = map (wheel_command s) [0..<4]"
    using s'(6) by (intro nth_equalityI) auto
  then show ?thesis using s' by blast
qed

definition robot_ready :: robot_sys where
  "robot_ready = (PID_Init (robot_init\<lparr>rx_buffer := dbus_frame rc_sample, rc := rc_sample\<rparr>))\<lparr>motion_pc := 1\<rparr>"

lemma robot_ready_reachable: "sys_step\<^sup>*\<^sup>* robot_init robot_ready" "motion_pc robot_ready = 1" "rc robot_ready = rc_sample"
proof -
  let ?r = "robot_init\<lparr>rx_buffer := dbus_frame rc_sample, rc := rc_sample\<rparr>"
  have "sys_step robot_init ?r" by (rule sys_step.remote) (rule robot_sample_remote)
  moreover have "motion_step ?r = Some robot_ready"
    by (simp add: motion_step_def motion_body_def robot_ready_def) (simp add: robot_init_def)
  then have "sys_step ?r robot_ready" by (rule sys_step.motion)
  ultimately show "sys_step\<^sup>*\<^sup>* robot_init robot_ready" by auto
  show "motion_pc robot_ready = 1" "rc robot_ready = rc_sample" by (simp_all add: robot_ready_def PID_Init_def)
qed

lemma motion_turn_completes_witness:
  "\<exists>s'. motion_turn robot_ready = Some s' \<and> map sint (set_spd_macnum s') = [11727, - 153, - 12033, - 153]"
proof -
  have "wheel_targets rc_sample = [11727, - 153, - 12033, - 153]" by code_simp
  then show ?thesis using motion_turn_completes [OF robot_ready_reachable(1,2)] by (auto simp: robot_ready_reachable(3))
qed

text \<open>C23. In exact arithmetic and while no limit bites, the position form and the delta form of the controller, started
  alike and given the same measurements and targets, answer the same: at every call the textbook law
  \<open>p * e + i * (sum of the errors so far) + d * (e - previous e)\<close>.\<close>

theorem pid_forms_agree:
  assumes "unsaturated kp ki kd (of_int (uint il)) (of_int (uint ml)) 0 0 (errors xs)"
  shows "snd (pid_run exact (PID_struct_init POSITION_PID ml il kp ki kd pid_zero) xs) = pid_law kp ki kd 0 0 (errors xs)
    \<and> snd (pid_run exact (PID_struct_init DELTA_PID ml il kp ki kd pid_zero) xs) = pid_law kp ki kd 0 0 (errors xs)"
proof
  let ?p = "\<lambda>mode. PID_struct_init mode ml il kp ki kd pid_zero"
  have s: "pid_p (?p mode) = kp" "pid_i (?p mode) = ki" "pid_d (?p mode) = kd" "limit_of exact (IntegralLimit (?p mode)) = of_int (uint il)"
    "limit_of exact (MaxOutput (?p mode)) = of_int (uint ml)" "max_err (?p mode) = 0" "deadband (?p mode) = 0" "pid_mode (?p mode) = mode"
    "pid_err (?p mode) = [0, 0, 0]" "iout (?p mode) = 0" "last_delta_out (?p mode) = 0" for mode
    by (simp_all add: PID_struct_init_def pid_param_init_def pid_zero_def limit_of_def exact_def)
  show "snd (pid_run exact (?p POSITION_PID) xs) = pid_law kp ki kd 0 0 (errors xs)"
    using pid_run_position [of "?p POSITION_PID" 0 0 xs] assms by (simp add: s)
  show "snd (pid_run exact (?p DELTA_PID) xs) = pid_law kp ki kd 0 0 (errors xs)"
    using pid_run_delta [of "?p DELTA_PID" 0 0 xs] assms by (simp add: s)
qed

text \<open>Gains 2, 1 and 3 bring a first-order plant from 0 towards 10.\<close>

lemma pid_forms_agree_witness:
  "snd (pid_run exact (PID_struct_init DELTA_PID 30000 5000 2 1 3 pid_zero) [(0, 10), (6, 10), (9, 10)]) = [60, 4, 8]"
proof -
  have "unsaturated 2 1 3 (of_int (uint (5000 :: u32))) (of_int (uint (30000 :: u32))) 0 0 (errors [(0, 10), (6, 10), (9, 10)])"
    by (simp add: errors_def)
  then show ?thesis
    using pid_forms_agree [of 2 1 3 5000 30000 "[(0, 10), (6, 10), (9, 10)]"] by (simp add: errors_def)
qed

end
