(* ===== verification/Serial.thy ===== *)
theory Serial
  imports Ring_Slice
begin

text \<open>
  The receiving half of the serial device (\<open>components/drivers/serial/serial.c\<close>): the software FIFO in interrupt
  and in DMA mode, and polling. In DMA mode the buffer is filled by the DMA controller, which is a parameter of the
  runs; its circular mode is the hypothesis \<open>circular_dma\<close>.
\<close>

section \<open>The receive FIFO\<close>

text \<open>\<open>struct rt_serial_rx_fifo\<close>; the buffer's size is the 16-bit field \<open>config.bufsz\<close>.\<close>

record rx_fifo =
  fifo_buf :: "u8 list"
  put_index :: u16
  get_index :: u16
  is_full :: bool

text \<open>The FIFO as \<open>rt_serial_open\<close> makes it.\<close>

definition fifo_open :: "u16 \<Rightarrow> rx_fifo" where
  "fifo_open bufsz = \<lparr>fifo_buf = replicate (unat bufsz) 0, put_index = 0, get_index = 0, is_full = False\<rparr>"

definition fifo_calc_recved_len :: "u16 \<Rightarrow> rx_fifo \<Rightarrow> u32" where
  "fifo_calc_recved_len bufsz f =
     (if put_index f = get_index f then (if \<not> is_full f then 0 else ucast bufsz)
      else if get_index f < put_index f then ucast (put_index f) - ucast (get_index f)
      else ucast bufsz - (ucast (get_index f) - ucast (put_index f)))"

text \<open>\<open>None\<close> is the failed assertion.\<close>

definition rt_dma_recv_update_get_index :: "u16 \<Rightarrow> u32 \<Rightarrow> rx_fifo \<Rightarrow> rx_fifo option" where
  "rt_dma_recv_update_get_index bufsz len f =
     (if fifo_calc_recved_len bufsz f < len then None
      else let g = get_index f + ucast len in
           Some (f\<lparr>is_full := (if is_full f \<and> len \<noteq> 0 then False else is_full f),
                   get_index := (if bufsz \<le> g then g mod bufsz else g)\<rparr>))"

definition rt_dma_recv_update_put_index :: "u16 \<Rightarrow> u32 \<Rightarrow> rx_fifo \<Rightarrow> rx_fifo" where
  "rt_dma_recv_update_put_index bufsz len f =
     (let p = put_index f + ucast len;
          f1 = (if get_index f \<le> put_index f then
                  (if bufsz \<le> p then
                     f\<lparr>put_index := p mod bufsz, is_full := (if get_index f \<le> p mod bufsz then True else is_full f)\<rparr>
                   else f\<lparr>put_index := p\<rparr>)
                else if get_index f \<le> p then
                  f\<lparr>put_index := (if bufsz \<le> p then p mod bufsz else p), is_full := True\<rparr>
                else f\<lparr>put_index := p\<rparr>) in
      if is_full f1 then f1\<lparr>get_index := put_index f1\<rparr> else f1)"

text \<open>Reading in DMA mode, for a buffer size other than 0: the bytes copied out, and the FIFO.\<close>

definition serial_dma_rx :: "u16 \<Rightarrow> u32 \<Rightarrow> rx_fifo \<Rightarrow> (u8 list \<times> rx_fifo) option" where
  "serial_dma_rx bufsz len f =
     (let have = fifo_calc_recved_len bufsz f;
          n = (if sint len < sint have then len else have);
          g = unat (get_index f);
          bytes = (if g + unat n < unat bufsz then take (unat n) (drop g (fifo_buf f))
                   else drop g (fifo_buf f) @ take (unat n + g - unat bufsz) (fifo_buf f)) in
      map_option (Pair bytes) (rt_dma_recv_update_get_index bufsz n f))"

text \<open>Reading in interrupt mode, one byte after the other.\<close>

fun serial_int_rx :: "u16 \<Rightarrow> nat \<Rightarrow> rx_fifo \<Rightarrow> u8 list \<times> rx_fifo" where
  "serial_int_rx bufsz 0 f = ([], f)"
| "serial_int_rx bufsz (Suc n) f =
     (if get_index f = put_index f \<and> \<not> is_full f then ([], f)
      else let ch = fifo_buf f ! unat (get_index f);
               g = get_index f + 1;
               (rest, f') = serial_int_rx bufsz n (f\<lparr>get_index := (if bufsz \<le> g then 0 else g), is_full := False\<rparr>) in
           (ch # rest, f'))"

text \<open>The receive interrupt: each character the hardware has, then the callback's length.\<close>

definition serial_rx_char :: "u16 \<Rightarrow> u8 \<Rightarrow> rx_fifo \<Rightarrow> rx_fifo" where
  "serial_rx_char bufsz ch f =
     (let p = put_index f + 1;
          p1 = (if bufsz \<le> p then 0 else p);
          f1 = f\<lparr>fifo_buf := (fifo_buf f)[unat (put_index f) := ch], put_index := p1\<rparr> in
      if p1 = get_index f then
        (let g = get_index f + 1 in f1\<lparr>get_index := (if bufsz \<le> g then 0 else g), is_full := True\<rparr>)
      else f1)"

definition isr_rx_ind :: "u16 \<Rightarrow> u8 list \<Rightarrow> rx_fifo \<Rightarrow> rx_fifo \<times> u32" where
  "isr_rx_ind bufsz chs f =
     (let f1 = fold (serial_rx_char bufsz) chs f in
      (f1, if get_index f1 \<le> put_index f1 then ucast (put_index f1) - ucast (get_index f1)
           else ucast bufsz - (ucast (get_index f1) - ucast (put_index f1))))"

text \<open>The DMA interrupt: the length comes in the upper 24 bits of the event, and is read back with an
  arithmetic shift.\<close>

definition isr_rx_dmadone :: "u16 \<Rightarrow> u32 \<Rightarrow> rx_fifo \<Rightarrow> rx_fifo \<times> u32" where
  "isr_rx_dmadone bufsz event f =
     (let len = signed_drop_bit 8 (event AND NOT 0xFF);
          f1 = rt_dma_recv_update_put_index bufsz len f in
      (f1, fifo_calc_recved_len bufsz f1))"

text \<open>Polling: the characters the hardware will deliver, up to the end of a line; and writing, with a carriage
  return before each line feed of a stream.\<close>

fun serial_poll_rx :: "nat \<Rightarrow> u8 list \<Rightarrow> u8 list \<times> u8 list" where
  "serial_poll_rx (Suc n) (ch # chs) =
     (if ch = 10 then ([ch], chs) else let (got, rest) = serial_poll_rx n chs in (ch # got, rest))"
| "serial_poll_rx _ chs = ([], chs)"

fun serial_poll_tx :: "bool \<Rightarrow> u8 list \<Rightarrow> u8 list" where
  "serial_poll_tx stream [] = []"
| "serial_poll_tx stream (c # cs) = (if c = 10 \<and> stream then [13, c] else [c]) @ serial_poll_tx stream cs"

section \<open>What the FIFO holds\<close>

definition fifo_ok :: "u16 \<Rightarrow> rx_fifo \<Rightarrow> bool" where
  "fifo_ok bufsz f \<longleftrightarrow> 0 < unat bufsz \<and> unat bufsz \<le> 2 ^ 15 \<and> length (fifo_buf f) = unat bufsz
     \<and> unat (put_index f) < unat bufsz \<and> unat (get_index f) < unat bufsz"

definition fifo_count :: "u16 \<Rightarrow> rx_fifo \<Rightarrow> nat" where
  "fifo_count bufsz f =
     (let p = unat (put_index f); g = unat (get_index f) in
      if p = g then (if is_full f then unat bufsz else 0) else if g < p then p - g else unat bufsz - (g - p))"

definition fifo_contents :: "u16 \<Rightarrow> rx_fifo \<Rightarrow> u8 list" where
  "fifo_contents bufsz f = ring_slice (fifo_buf f) (unat (get_index f)) (fifo_count bufsz f)"

lemma u16_u32: "unat (ucast (x :: u16) :: u32) = unat x"
  using unsigned_less [of x, where 'a = nat] by (simp add: unsigned_ucast_eq take_bit_nat_eq_self)

lemma unat_sub_u32: "b \<le> a \<Longrightarrow> unat ((ucast (a :: u16) :: u32) - ucast (b :: u16)) = unat a - unat b"
  by (subst unat_sub) (simp_all add: word_le_nat_alt u16_u32)

lemma unat_recved:
  assumes "fifo_ok bufsz f"
  shows "unat (fifo_calc_recved_len bufsz f) = fifo_count bufsz f"
proof -
  have b: "unat (get_index f) < unat bufsz" "unat (put_index f) < unat bufsz" using assms by (simp_all add: fifo_ok_def)
  consider "put_index f = get_index f" | "get_index f < put_index f" | "put_index f < get_index f" by force
  then show ?thesis
  proof cases
    case 3
    have "unat ((ucast bufsz :: u32) - (ucast (get_index f) - ucast (put_index f)))
        = unat bufsz - (unat (get_index f) - unat (put_index f))"
      using b 3 by (subst unat_sub) (simp_all add: word_le_nat_alt unat_sub_u32 u16_u32 word_less_nat_alt)
    then show ?thesis using 3 by (auto simp: fifo_calc_recved_len_def fifo_count_def word_less_nat_alt)
  qed (auto simp: fifo_calc_recved_len_def fifo_count_def Let_def u16_u32 unat_sub_u32 word_less_nat_alt word_le_nat_alt)
qed

lemma count_le: "fifo_ok bufsz f \<Longrightarrow> fifo_count bufsz f \<le> unat bufsz"
  by (auto simp: fifo_count_def Let_def fifo_ok_def)

lemma put_is_end:
  assumes "fifo_ok bufsz f"
  shows "(unat (get_index f) + fifo_count bufsz f) mod unat bufsz = unat (put_index f)"
  using assms by (auto simp: fifo_count_def Let_def fifo_ok_def mod_if)

section \<open>DMA mode\<close>

definition dma_ok :: "u16 \<Rightarrow> rx_fifo \<Rightarrow> bool" where
  "dma_ok bufsz f \<longleftrightarrow> fifo_ok bufsz f \<and> (is_full f \<longrightarrow> put_index f = get_index f)"

text \<open>What a circular transfer of \<open>xs\<close> from position \<open>p\<close> on leaves: the newest bytes where they belong, and
  everything it did not reach.\<close>

definition dma_wrote :: "u8 list \<Rightarrow> nat \<Rightarrow> u8 list \<Rightarrow> u8 list \<Rightarrow> bool" where
  "dma_wrote b p xs b' \<longleftrightarrow> length b' = length b
     \<and> (\<forall>j < length xs. length xs \<le> j + length b \<longrightarrow> b' ! ((p + j) mod length b) = xs ! j)
     \<and> (\<forall>i < length b. (\<forall>j < length xs. i \<noteq> (p + j) mod length b) \<longrightarrow> b' ! i = b ! i)"

lemma unat_add_u16:
  assumes "unat (x :: u16) < 2 ^ 15" "unat (len :: u32) \<le> 2 ^ 15"
  shows "unat (x + ucast len) = unat x + unat len"
proof -
  have "unat (ucast len :: u16) = unat len" using assms(2) by (simp add: unat_ucast)
  then show ?thesis using assms by (simp add: unat_word_ariths)
qed

lemma wrap_index:
  assumes "unat bufsz \<le> 2 ^ 15" "unat x < unat bufsz" "unat (len :: u32) \<le> unat bufsz"
  shows "unat (if bufsz \<le> x + ucast len then (x + ucast len) mod bufsz else x + ucast len :: u16) = (unat x + unat len) mod unat bufsz"
    and "bufsz \<le> x + ucast len \<longleftrightarrow> unat bufsz \<le> unat x + unat len"
proof -
  have u: "unat (x + ucast len) = unat x + unat len" using assms by (intro unat_add_u16) linarith+
  show "bufsz \<le> x + ucast len \<longleftrightarrow> unat bufsz \<le> unat x + unat len" by (simp add: word_le_nat_alt u)
  then show "unat (if bufsz \<le> x + ucast len then (x + ucast len) mod bufsz else x + ucast len :: u16) = (unat x + unat len) mod unat bufsz"
    by (simp add: unat_mod u)
qed

lemma put_index_update:
  assumes ok: "dma_ok bufsz f" and n: "unat len \<le> unat bufsz"
  defines "f' \<equiv> rt_dma_recv_update_put_index bufsz len f"
  shows "fifo_buf f' = fifo_buf f"
    and "unat (put_index f') = (unat (put_index f) + unat len) mod unat bufsz"
    and "is_full f' \<longleftrightarrow> is_full f \<or> unat bufsz \<le> fifo_count bufsz f + unat len"
    and "get_index f' = (if is_full f' then put_index f' else get_index f)"
proof -
  have b: "unat bufsz \<le> 2 ^ 15" "unat (put_index f) < unat bufsz" "unat (get_index f) < unat bufsz"
    and full: "is_full f \<Longrightarrow> put_index f = get_index f"
    using ok by (auto simp: dma_ok_def fifo_ok_def)
  note w = wrap_index [OF b(1,2) n]
  have u: "unat (put_index f + ucast len) = unat (put_index f) + unat len"
    using b n by (intro unat_add_u16) linarith+
  show "fifo_buf f' = fifo_buf f" by (simp add: f'_def rt_dma_recv_update_put_index_def Let_def)
  show p: "unat (put_index f') = (unat (put_index f) + unat len) mod unat bufsz"
    using w b by (auto simp: f'_def rt_dma_recv_update_put_index_def Let_def word_le_nat_alt u split: if_splits)
  show "get_index f' = (if is_full f' then put_index f' else get_index f)"
    by (simp add: f'_def rt_dma_recv_update_put_index_def Let_def)
  have m: "unat ((put_index f + ucast len) mod bufsz) = unat (put_index f) + unat len - unat bufsz"
    if "unat bufsz \<le> unat (put_index f) + unat len"
    using that b n by (simp add: unat_mod u mod_if)
  show "is_full f' \<longleftrightarrow> is_full f \<or> unat bufsz \<le> fifo_count bufsz f + unat len"
  proof (cases "is_full f")
    case True
    then show ?thesis by (simp add: f'_def rt_dma_recv_update_put_index_def Let_def)
  next
    case False
    have c: "get_index f \<le> put_index f \<longleftrightarrow> unat (get_index f) \<le> unat (put_index f)"
      "get_index f \<le> put_index f + ucast len \<longleftrightarrow> unat (get_index f) \<le> unat (put_index f) + unat len"
      "get_index f \<le> (put_index f + ucast len) mod bufsz \<longleftrightarrow> unat (get_index f) \<le> unat ((put_index f + ucast len) mod bufsz)"
      by (simp_all add: word_le_nat_alt u)
    have "is_full f' \<longleftrightarrow> (if unat (get_index f) \<le> unat (put_index f)
        then unat bufsz \<le> unat (put_index f) + unat len \<and> unat (get_index f) \<le> unat (put_index f) + unat len - unat bufsz
        else unat (get_index f) \<le> unat (put_index f) + unat len)"
      using False m by (simp add: f'_def rt_dma_recv_update_put_index_def Let_def c w(2))
    moreover have "fifo_count bufsz f = (if unat (get_index f) \<le> unat (put_index f) then unat (put_index f) - unat (get_index f)
        else unat bufsz - (unat (get_index f) - unat (put_index f)))"
      using False by (simp add: fifo_count_def Let_def)
    ultimately show ?thesis using False b by simp linarith
  qed
qed

lemma ring_distance:
  fixes g m B :: nat
  assumes "g < B" "m < B"
  shows "(let p = (g + m) mod B in if p = g then 0 else if g < p then p - g else B - (g - p)) = m"
proof (cases "g + m < B")
  case False
  then have "(g + m) mod B = g + m - B" using assms by (simp add: mod_if)
  then show ?thesis using assms False by (auto simp: Let_def)
qed (simp add: Let_def)

lemma ring_distinct:
  fixes x i j B :: nat
  assumes "i < j" "j - i < B"
  shows "(x + i) mod B \<noteq> (x + j) mod B"
proof
  assume e: "(x + i) mod B = (x + j) mod B"
  have "x + i \<le> x + j" using assms(1) by simp
  then have "B dvd (x + j) - (x + i)" using mod_eq_dvd_iff_nat e by metis
  then have "B dvd j - i" by simp
  then show False using assms by (auto dest: dvd_imp_le)
qed

lemma dma_put_ok:
  assumes ok: "dma_ok bufsz f" and n: "unat len \<le> unat bufsz"
  shows "dma_ok bufsz (rt_dma_recv_update_put_index bufsz len f)"
    and "fifo_count bufsz (rt_dma_recv_update_put_index bufsz len f) = min (unat bufsz) (fifo_count bufsz f + unat len)"
proof -
  note u = put_index_update [OF ok n]
  let ?f' = "rt_dma_recv_update_put_index bufsz len f"
  have b: "0 < unat bufsz" "unat (put_index f) < unat bufsz" "unat (get_index f) < unat bufsz"
    "fifo_ok bufsz f" using ok by (auto simp: dma_ok_def fifo_ok_def)
  show "dma_ok bufsz ?f'" using ok u by (auto simp: dma_ok_def fifo_ok_def)
  show "fifo_count bufsz ?f' = min (unat bufsz) (fifo_count bufsz f + unat len)"
  proof (cases "is_full ?f'")
    case True
    have "fifo_count bufsz f = unat bufsz" if "is_full f"
      using that ok by (auto simp: dma_ok_def fifo_count_def Let_def)
    then have "unat bufsz \<le> fifo_count bufsz f + unat len" using True u(3) by auto
    then show ?thesis using True u(4) by (simp add: fifo_count_def Let_def)
  next
    case False
    then have less: "fifo_count bufsz f + unat len < unat bufsz" and g: "get_index ?f' = get_index f" and nf: "\<not> is_full f"
      using u(3,4) by auto
    have p: "unat (put_index ?f') = (unat (get_index f) + (fifo_count bufsz f + unat len)) mod unat bufsz"
      unfolding u(2) put_is_end [OF b(4), symmetric] by (simp add: mod_simps add.assoc)
    have "fifo_count bufsz ?f' = fifo_count bufsz f + unat len"
      using ring_distance [OF b(3) less] False by (simp only: fifo_count_def [of bufsz ?f'] Let_def p g if_False)
    then show ?thesis using less by simp
  qed
qed

text \<open>The interrupt after a transfer keeps the newest bytes.\<close>

lemma dma_put_contents:
  assumes ok: "dma_ok bufsz f" and n: "length xs \<le> unat bufsz" "unat len = length xs"
    and wrote: "dma_wrote (fifo_buf f) (unat (put_index f)) xs b'"
  shows "fifo_contents bufsz (rt_dma_recv_update_put_index bufsz len (f\<lparr>fifo_buf := b'\<rparr>))
    = newest (unat bufsz) (fifo_contents bufsz f @ xs)"
proof -
  let ?f = "f\<lparr>fifo_buf := b'\<rparr>" let ?f' = "rt_dma_recv_update_put_index bufsz len ?f"
  let ?B = "unat bufsz" let ?c = "fifo_count bufsz f" let ?g = "unat (get_index f)"
  have len: "length (fifo_buf f) = ?B" "length b' = ?B" using ok wrote by (auto simp: dma_ok_def fifo_ok_def dma_wrote_def)
  have okf: "dma_ok bufsz ?f" "fifo_ok bufsz f" using ok len by (simp_all add: dma_ok_def fifo_ok_def)
  have c: "fifo_count bufsz ?f = ?c" by (simp add: fifo_count_def)
  have n': "unat len \<le> ?B" using n by simp
  note u = put_index_update [OF okf(1) n'] and pk = dma_put_ok [OF okf(1) n']
  have B: "0 < ?B" using okf(2) by (simp add: fifo_ok_def)
  have cB: "?c \<le> ?B" using count_le [OF okf(2)] .
  define k where "k = min ?B (?c + length xs) - length xs"
  have k: "k \<le> ?c" "k + length xs \<le> ?B" "fifo_count bufsz ?f' = k + length xs" using n pk(2) c by (auto simp: k_def)
  have p: "unat (put_index f) = (?g + ?c) mod ?B" using put_is_end [OF okf(2)] by simp
  have g': "unat (get_index ?f') mod ?B = (?g + (?c - k)) mod ?B"
  proof (cases "?c + length xs \<le> ?B \<and> \<not> is_full ?f'")
    case True
    then have "k = ?c" by (simp add: k_def)
    then show ?thesis using u(4) True by simp
  next
    case False
    have "is_full ?f \<Longrightarrow> ?c = ?B" using okf(1) c by (auto simp: dma_ok_def fifo_count_def Let_def)
    then have le: "?B \<le> ?c + length xs" "is_full ?f'" using False u(3) c n by auto
    then have "k = ?B - length xs" by (simp add: k_def)
    then have e: "?g + ?c + length xs = ?g + (?c - k) + ?B" using le n by simp
    have "unat (get_index ?f') = (?g + ?c + length xs) mod ?B" using u(2,4) le(2) p n by (simp add: mod_simps)
    then show ?thesis unfolding e by simp
  qed
  have old: "ring_slice b' (unat (get_index ?f')) k = ring_slice (fifo_buf f) (?g + (?c - k)) k"
  proof (rule nth_equalityI)
    fix i assume "i < length (ring_slice b' (unat (get_index ?f')) k)"
    then have i: "i < k" by simp
    have ix: "(unat (get_index ?f') + i) mod ?B = (?g + (?c - k) + i) mod ?B"
      using g' by (metis mod_add_left_eq)
    have "(?g + (?c - k) + i) mod ?B \<noteq> (unat (put_index f) + j) mod ?B" if "j < length xs" for j
    proof -
      have "(?g + (?c - k) + i) mod ?B \<noteq> (?g + (?c - k) + (k + j)) mod ?B"
        using i that k(2) by (intro ring_distinct) auto
      moreover have "?g + (?c - k) + (k + j) = ?g + ?c + j" using k(1) by simp
      moreover have "(unat (put_index f) + j) mod ?B = (?g + ?c + j) mod ?B" by (simp add: p mod_simps)
      ultimately show ?thesis by metis
    qed
    then show "ring_slice b' (unat (get_index ?f')) k ! i = ring_slice (fifo_buf f) (?g + (?c - k)) k ! i"
      using wrote i B by (simp add: dma_wrote_def len ix)
  qed simp
  have start: "(unat (get_index ?f') + k) mod ?B = unat (put_index f) mod ?B"
  proof -
    have "(unat (get_index ?f') + k) mod ?B = (unat (get_index ?f') mod ?B + k) mod ?B" by (rule mod_add_left_eq [symmetric])
    also have "\<dots> = (?g + (?c - k) + k) mod ?B" unfolding g' by (rule mod_add_left_eq)
    also have "?g + (?c - k) + k = ?g + ?c" using k(1) by simp
    finally show ?thesis by (simp add: p)
  qed
  have new: "ring_slice b' (unat (put_index f)) (length xs) = xs"
    using wrote n by (intro nth_equalityI) (simp_all add: dma_wrote_def len)
  have "fifo_contents bufsz ?f' = ring_slice b' (unat (get_index ?f')) (k + length xs)"
    using u(1) by (simp add: fifo_contents_def k(3))
  also have "\<dots> = ring_slice b' (unat (get_index ?f')) k @ ring_slice b' (unat (get_index ?f') + k) (length xs)"
    by (rule ring_slice_add)
  also have "ring_slice b' (unat (get_index ?f') + k) (length xs) = ring_slice b' (unat (put_index f)) (length xs)"
    using start ring_slice_mod [of b' "unat (get_index ?f') + k"] ring_slice_mod [of b' "unat (put_index f)"] by (simp add: len)
  also have "\<dots> = xs" by (rule new)
  also have "ring_slice b' (unat (get_index ?f')) k = drop (?c - k) (fifo_contents bufsz f)"
    using k(1) by (simp add: old fifo_contents_def ring_slice_drop)
  finally show ?thesis
    using k n by (simp add: newest_def fifo_contents_def k_def min_def split: if_splits)
qed


text \<open>Reading takes the oldest bytes.\<close>

lemma fifo_contents_read:
  assumes "fifo_ok bufsz f" "n \<le> fifo_count bufsz f"
  shows "(if unat (get_index f) + n < unat bufsz then take n (drop (unat (get_index f)) (fifo_buf f))
          else drop (unat (get_index f)) (fifo_buf f) @ take (n + unat (get_index f) - unat bufsz) (fifo_buf f))
      = take n (fifo_contents bufsz f)"
proof -
  have l: "length (fifo_buf f) = unat bufsz" "unat (get_index f) < unat bufsz" "n \<le> unat bufsz"
    using assms count_le [OF assms(1)] by (auto simp: fifo_ok_def)
  have "take n (fifo_contents bufsz f) = ring_slice (fifo_buf f) (unat (get_index f)) n"
    using assms(2) by (simp add: fifo_contents_def ring_slice_take)
  then show ?thesis
    using l ring_slice_flat [of "unat (get_index f)" n "fifo_buf f"] ring_slice_wrap [of "unat (get_index f)" "fifo_buf f" n]
    by (simp add: add.commute)
qed

lemma dma_get_ok:
  assumes ok: "dma_ok bufsz f" and n: "unat len \<le> fifo_count bufsz f"
  shows "\<exists>f'. rt_dma_recv_update_get_index bufsz len f = Some f' \<and> dma_ok bufsz f' \<and> fifo_buf f' = fifo_buf f
    \<and> put_index f' = put_index f \<and> fifo_count bufsz f' = fifo_count bufsz f - unat len
    \<and> unat (get_index f') = (unat (get_index f) + unat len) mod unat bufsz"
proof -
  have okf: "fifo_ok bufsz f" using ok by (simp add: dma_ok_def)
  have b: "unat bufsz \<le> 2 ^ 15" "unat (get_index f) < unat bufsz" "unat (put_index f) < unat bufsz" "unat len \<le> unat bufsz"
    and full: "is_full f \<Longrightarrow> put_index f = get_index f"
    using ok n count_le [OF okf] by (auto simp: dma_ok_def fifo_ok_def)
  note w = wrap_index [OF b(1,2,4)]
  have r: "\<not> fifo_calc_recved_len bufsz f < len" using n unat_recved [OF okf] by (simp add: word_less_nat_alt)
  let ?f' = "f\<lparr>is_full := (if is_full f \<and> len \<noteq> 0 then False else is_full f),
      get_index := (if bufsz \<le> get_index f + ucast len then (get_index f + ucast len) mod bufsz else get_index f + ucast len)\<rparr>"
  have s: "rt_dma_recv_update_get_index bufsz len f = Some ?f'"
    using r by (simp add: rt_dma_recv_update_get_index_def Let_def)
  have g': "unat (get_index ?f') = (unat (get_index f) + unat len) mod unat bufsz" using w(1) by simp
  have z: "len = 0 \<longleftrightarrow> unat len = 0" by (simp add: unat_eq_0)
  have cnt: "fifo_count bufsz ?f' = fifo_count bufsz f - unat len"
  proof (cases "len = 0")
    case True
    then have "get_index ?f' = get_index f" using g' b(2) by (simp only: word_unat_eq_iff) simp
    then show ?thesis using True by (simp add: fifo_count_def Let_def)
  next
    case False
    then have lt: "fifo_count bufsz f - unat len < unat bufsz" "\<not> is_full ?f'"
      using b count_le [OF okf] full by (auto simp: z)
    have gB: "unat (get_index ?f') < unat bufsz" using g' b(2) by simp
    have "unat (put_index f) = (unat (get_index f) + unat len + (fifo_count bufsz f - unat len)) mod unat bufsz"
      using put_is_end [OF okf] n by simp
    also have "\<dots> = (unat (get_index ?f') + (fifo_count bufsz f - unat len)) mod unat bufsz"
      unfolding g' by (rule mod_add_left_eq [symmetric])
    finally have p: "unat (put_index ?f') = (unat (get_index ?f') + (fifo_count bufsz f - unat len)) mod unat bufsz" by simp
    show ?thesis using ring_distance [OF gB lt(1)] lt(2) by (simp only: fifo_count_def [of bufsz ?f'] Let_def p if_False)
  qed
  have "is_full ?f' \<longrightarrow> put_index ?f' = get_index ?f'"
    using full g' b(2) by (auto simp: word_unat_eq_iff z split: if_splits)
  moreover have "fifo_ok bufsz ?f'" using okf g' by (auto simp: fifo_ok_def)
  ultimately show ?thesis using s cnt g' by (intro exI [of _ ?f']) (simp add: dma_ok_def)
qed

lemma serial_dma_rx_ok:
  assumes ok: "dma_ok bufsz f" and n: "unat len < 2 ^ 31"
  shows "\<exists>f'. serial_dma_rx bufsz len f = Some (take (unat len) (fifo_contents bufsz f), f') \<and> dma_ok bufsz f'
    \<and> fifo_contents bufsz f' = drop (unat len) (fifo_contents bufsz f) \<and> fifo_buf f' = fifo_buf f \<and> put_index f' = put_index f"
proof -
  let ?have = "fifo_calc_recved_len bufsz f"
  let ?n = "if sint len < sint ?have then len else ?have"
  have okf: "fifo_ok bufsz f" using ok by (simp add: dma_ok_def)
  have h: "unat ?have = fifo_count bufsz f" "unat ?have < 2 ^ 31"
    using unat_recved [OF okf] count_le [OF okf] okf by (auto simp: fifo_ok_def)
  have si: "sint x = int (unat x)" if "unat x < 2 ^ 31" for x :: u32
  proof -
    have "unat x < 2147483648" using that by simp
    then have "uint x < 2147483648" unfolding uint_nat by linarith
    then have hi: "uint x < 2 ^ 31" by simp
    have "- (2 ^ 31) \<le> uint x" by (rule order_trans [of _ 0]) simp_all
    then have "signed_take_bit 31 (uint x) = uint x" using hi by (rule signed_take_bit_int_eq_self)
    then show ?thesis by (simp add: sint_uint)
  qed
  have un: "unat ?n = min (unat len) (fifo_count bufsz f)" 
  proof -
    have "sint len < sint ?have \<longleftrightarrow> unat len < fifo_count bufsz f"
      unfolding si [OF n] si [OF h(2)] h(1) by (rule of_nat_less_iff)
    then show ?thesis using h(1) by simp
  qed
  then have "unat ?n \<le> fifo_count bufsz f" by simp
  from dma_get_ok [OF ok this] obtain f' where f': "rt_dma_recv_update_get_index bufsz ?n f = Some f'" "dma_ok bufsz f'"
    "fifo_buf f' = fifo_buf f" "put_index f' = put_index f" "fifo_count bufsz f' = fifo_count bufsz f - unat ?n"
    "unat (get_index f') = (unat (get_index f) + unat ?n) mod unat bufsz" by blast
  have bytes: "(if unat (get_index f) + unat ?n < unat bufsz then take (unat ?n) (drop (unat (get_index f)) (fifo_buf f))
          else drop (unat (get_index f)) (fifo_buf f) @ take (unat ?n + unat (get_index f) - unat bufsz) (fifo_buf f))
      = take (unat len) (fifo_contents bufsz f)"
  proof -
    have "take (unat ?n) (fifo_contents bufsz f) = take (unat len) (fifo_contents bufsz f)"
      unfolding un by (simp add: fifo_contents_def min_def)
    then show ?thesis using fifo_contents_read [OF okf \<open>unat ?n \<le> fifo_count bufsz f\<close>] by (simp only:)
  qed
  have lb: "length (fifo_buf f) = unat bufsz" using okf by (simp add: fifo_ok_def)
  have "fifo_contents bufsz f' = ring_slice (fifo_buf f) (unat (get_index f) + unat ?n) (fifo_count bufsz f - unat ?n)"
    unfolding fifo_contents_def f'(3,5,6) lb [symmetric] by simp
  also have "\<dots> = drop (unat ?n) (fifo_contents bufsz f)"
    using un by (simp add: fifo_contents_def ring_slice_drop)
  also have "\<dots> = drop (unat len) (fifo_contents bufsz f)"
    unfolding un by (simp add: fifo_contents_def min_def)
  finally have "fifo_contents bufsz f' = drop (unat len) (fifo_contents bufsz f)" .
  moreover have "serial_dma_rx bufsz len f = Some (take (unat len) (fifo_contents bufsz f), f')"
    unfolding serial_dma_rx_def Let_def bytes f'(1) by simp
  ultimately show ?thesis using f' by blast
qed

section \<open>Interrupt mode\<close>

definition int_ok :: "u16 \<Rightarrow> rx_fifo \<Rightarrow> bool" where
  "int_ok bufsz f \<longleftrightarrow> fifo_ok bufsz f \<and> 2 \<le> unat bufsz \<and> (put_index f = get_index f \<longrightarrow> \<not> is_full f)"

lemma next_index:
  assumes "unat (x :: u16) < unat bufsz" "unat bufsz \<le> 2 ^ 15"
  shows "unat (if bufsz \<le> x + 1 then 0 else x + 1) = (unat x + 1) mod unat bufsz"
proof -
  have "unat (x + 1) = unat x + 1" using assms by (simp add: unat_word_ariths)
  then show ?thesis using assms by (auto simp: word_le_nat_alt mod_if)
qed

lemma int_count:
  assumes "int_ok bufsz f"
  shows "fifo_count bufsz f < unat bufsz"
  using assms by (auto simp: int_ok_def fifo_ok_def fifo_count_def Let_def word_unat_eq_iff)

lemma fifo_count_eqI:
  assumes "fifo_ok bufsz f" "unat (put_index f) = (unat (get_index f) + m) mod unat bufsz" "m < unat bufsz"
    "put_index f = get_index f \<Longrightarrow> \<not> is_full f"
  shows "fifo_count bufsz f = m"
  using ring_distance [of "unat (get_index f)" "unat bufsz" m] assms
  by (auto simp: fifo_count_def Let_def fifo_ok_def word_unat_eq_iff)

text \<open>A character that finds the FIFO full displaces the oldest one; the FIFO then holds one byte less than its buffer.\<close>

lemma serial_rx_char_ok:
  assumes ok: "int_ok bufsz f"
  shows "int_ok bufsz (serial_rx_char bufsz ch f)"
    and "fifo_contents bufsz (serial_rx_char bufsz ch f) = newest (unat bufsz - 1) (fifo_contents bufsz f @ [ch])"
proof -
  let ?B = "unat bufsz" let ?c = "fifo_count bufsz f" let ?g = "unat (get_index f)" let ?p = "unat (put_index f)"
  let ?f' = "serial_rx_char bufsz ch f"
  have okf: "fifo_ok bufsz f" and B: "2 \<le> ?B" "?B \<le> 2 ^ 15" "?p < ?B" "?g < ?B" "length (fifo_buf f) = ?B"
    using ok by (auto simp: int_ok_def fifo_ok_def)
  have c: "?c < ?B" "?p = (?g + ?c) mod ?B" using int_count [OF ok] put_is_end [OF okf] by simp_all
  have p1: "unat (if bufsz \<le> put_index f + 1 then 0 else put_index f + 1) = (?g + Suc ?c) mod ?B"
    using next_index [OF B(3,2)] unfolding c(2) by (simp add: mod_Suc_eq)
  have g1: "unat (if bufsz \<le> get_index f + 1 then 0 else get_index f + 1) = (?g + 1) mod ?B" using next_index [OF B(4,2)] .
  have hit: "(if bufsz \<le> put_index f + 1 then 0 else put_index f + 1) = get_index f \<longleftrightarrow> Suc ?c = ?B"
  proof -
    have "(?g + Suc ?c) mod ?B = ?g \<longleftrightarrow> Suc ?c = ?B"
      using ring_distinct [of 0 "Suc ?c" ?B ?g] c(1) B by (cases "Suc ?c = ?B") auto
    then show ?thesis by (simp only: word_unat_eq_iff p1)
  qed
  have snoc: "ring_slice ((fifo_buf f)[?p := ch]) ?g (Suc ?c) = fifo_contents bufsz f @ [ch]"
    using ring_slice_snoc [of ?c "fifo_buf f" ?p ?g ch] c B by (simp add: fifo_contents_def)
  have idx: "unat (put_index ?f') = (?g + Suc ?c) mod ?B" "fifo_buf ?f' = (fifo_buf f)[?p := ch]"
  proof -
    have "put_index ?f' = (if bufsz \<le> put_index f + 1 then 0 else put_index f + 1)" by (simp add: serial_rx_char_def Let_def)
    then show "unat (put_index ?f') = (?g + Suc ?c) mod ?B" by (simp only: p1)
    show "fifo_buf ?f' = (fifo_buf f)[?p := ch]" by (simp add: serial_rx_char_def Let_def)
  qed
  show "int_ok bufsz ?f'"
  proof (cases "Suc ?c = ?B")
    case True
    then have "get_index ?f' = (if bufsz \<le> get_index f + 1 then 0 else get_index f + 1)" using hit by (simp add: serial_rx_char_def Let_def)
    then have g': "unat (get_index ?f') = (?g + 1) mod ?B" by (simp only: g1)
    have "(?g + 1) mod ?B \<noteq> (?g + Suc ?c) mod ?B" using ring_distinct [of 1 "Suc ?c" ?B ?g] True B by auto
    then show ?thesis using okf B idx g' by (auto simp: int_ok_def fifo_ok_def)
  next
    case False
    then have same: "get_index ?f' = get_index f" "put_index ?f' \<noteq> get_index f"
      using hit by (simp_all add: serial_rx_char_def Let_def)
    then show ?thesis using okf B idx by (auto simp: int_ok_def fifo_ok_def)
  qed
  then have ok': "fifo_ok bufsz ?f'" "put_index ?f' = get_index ?f' \<Longrightarrow> \<not> is_full ?f'" by (simp_all add: int_ok_def)
  show "fifo_contents bufsz ?f' = newest (?B - 1) (fifo_contents bufsz f @ [ch])"
  proof (cases "Suc ?c = ?B")
    case True
    then have "get_index ?f' = (if bufsz \<le> get_index f + 1 then 0 else get_index f + 1)" using hit by (simp add: serial_rx_char_def Let_def)
    then have g': "unat (get_index ?f') = (?g + 1) mod ?B" by (simp only: g1)
    have "fifo_count bufsz ?f' = ?c"
      by (rule fifo_count_eqI [OF ok'(1) _ c(1) ok'(2)]) (simp_all add: idx g' mod_simps)
    then have "fifo_contents bufsz ?f' = ring_slice ((fifo_buf f)[?p := ch]) (?g + 1) ?c"
      using ring_slice_mod [of "(fifo_buf f)[?p := ch]" "?g + 1" ?c] by (simp add: fifo_contents_def idx g' B)
    also have "\<dots> = drop 1 (fifo_contents bufsz f @ [ch])" unfolding snoc [symmetric] by (simp add: ring_slice_drop)
    finally show ?thesis using True by (simp add: newest_def fifo_contents_def)
  next
    case False
    then have same: "get_index ?f' = get_index f" using hit by (simp add: serial_rx_char_def Let_def)
    have "fifo_count bufsz ?f' = Suc ?c"
      by (rule fifo_count_eqI [OF ok'(1) _ _ ok'(2)]) (use c False in \<open>simp_all add: idx same\<close>)
    then have "fifo_contents bufsz ?f' = fifo_contents bufsz f @ [ch]" unfolding snoc [symmetric] by (simp add: fifo_contents_def idx same)
    moreover have "length (fifo_contents bufsz f @ [ch]) \<le> ?B - 1" using c False by (simp add: fifo_contents_def)
    ultimately show ?thesis by (simp add: newest_short)
  qed
qed

lemma isr_rx_ind_ok:
  assumes "int_ok bufsz f"
  shows "int_ok bufsz (fst (isr_rx_ind bufsz chs f))"
    and "fifo_contents bufsz (fst (isr_rx_ind bufsz chs f)) = newest (unat bufsz - 1) (fifo_contents bufsz f @ chs)"
proof -
  have "int_ok bufsz (fold (serial_rx_char bufsz) chs f)
    \<and> fifo_contents bufsz (fold (serial_rx_char bufsz) chs f) = newest (unat bufsz - 1) (fifo_contents bufsz f @ chs)"
    using assms
  proof (induction chs arbitrary: f)
    case Nil
    then show ?case using int_count [OF Nil] by (simp add: newest_short fifo_contents_def)
  next
    case (Cons ch chs)
    then show ?case using serial_rx_char_ok [OF Cons.prems, of ch] newest_newest [of _ "fifo_contents bufsz f @ [ch]" chs] by simp
  qed
  then show "int_ok bufsz (fst (isr_rx_ind bufsz chs f))"
    "fifo_contents bufsz (fst (isr_rx_ind bufsz chs f)) = newest (unat bufsz - 1) (fifo_contents bufsz f @ chs)"
    by (simp_all add: isr_rx_ind_def Let_def)
qed

lemma serial_int_rx_ok:
  assumes "int_ok bufsz f"
  shows "fst (serial_int_rx bufsz n f) = take n (fifo_contents bufsz f) \<and> int_ok bufsz (snd (serial_int_rx bufsz n f))
    \<and> fifo_contents bufsz (snd (serial_int_rx bufsz n f)) = drop n (fifo_contents bufsz f)"
  using assms
proof (induction n arbitrary: f)
  case (Suc n)
  have okf: "fifo_ok bufsz f" and B: "2 \<le> unat bufsz" "unat bufsz \<le> 2 ^ 15" "unat (get_index f) < unat bufsz" "length (fifo_buf f) = unat bufsz"
    using Suc.prems by (auto simp: int_ok_def fifo_ok_def)
  show ?case
  proof (cases "get_index f = put_index f")
    case True
    then have "fifo_contents bufsz f = []" "\<not> is_full f"
      using Suc.prems by (auto simp: fifo_contents_def fifo_count_def int_ok_def)
    then show ?thesis using True Suc.prems by simp
  next
    case False
    then obtain m where m: "fifo_count bufsz f = Suc m"
      using okf by (cases "fifo_count bufsz f") (auto simp: fifo_count_def Let_def fifo_ok_def word_unat_eq_iff split: if_splits)
    let ?f1 = "f\<lparr>get_index := (if bufsz \<le> get_index f + 1 then 0 else get_index f + 1), is_full := False\<rparr>"
    have g1: "unat (get_index ?f1) = (unat (get_index f) + 1) mod unat bufsz" using next_index [OF B(3,2)] by simp
    have ok1: "int_ok bufsz ?f1" using okf B g1 by (auto simp: int_ok_def fifo_ok_def)
    have "fifo_count bufsz ?f1 = m"
    proof (rule fifo_count_eqI)
      show "fifo_ok bufsz ?f1" using ok1 by (simp add: int_ok_def)
      show "unat (put_index ?f1) = (unat (get_index ?f1) + m) mod unat bufsz"
        using put_is_end [OF okf] m by (simp only: g1) (simp add: mod_simps)
      show "m < unat bufsz" using int_count [OF Suc.prems] m by simp
    qed simp
    then have "fifo_contents bufsz ?f1 = ring_slice (fifo_buf f) (Suc (unat (get_index f))) m"
      using ring_slice_mod [of "fifo_buf f" "Suc (unat (get_index f))" m] g1 by (simp add: fifo_contents_def B)
    then have cons: "fifo_contents bufsz f = fifo_buf f ! unat (get_index f) # fifo_contents bufsz ?f1"
      using B by (simp add: fifo_contents_def [of bufsz f] m ring_slice_Cons)
    have "serial_int_rx bufsz (Suc n) f = (fifo_buf f ! unat (get_index f) # fst (serial_int_rx bufsz n ?f1), snd (serial_int_rx bufsz n ?f1))"
      using False by (simp add: Let_def case_prod_beta)
    then show ?thesis using Suc.IH [OF ok1] cons by simp
  qed
qed simp

lemma isr_rx_ind_length:
  assumes "int_ok bufsz f"
  shows "unat (snd (isr_rx_ind bufsz chs f)) = length (newest (unat bufsz - 1) (fifo_contents bufsz f @ chs))"
proof -
  let ?f1 = "fst (isr_rx_ind bufsz chs f)"
  have ok: "int_ok bufsz ?f1" using isr_rx_ind_ok [OF assms] by blast
  then have "snd (isr_rx_ind bufsz chs f) = fifo_calc_recved_len bufsz ?f1"
    by (auto simp: isr_rx_ind_def Let_def fifo_calc_recved_len_def int_ok_def)
  moreover have "unat (fifo_calc_recved_len bufsz ?f1) = length (fifo_contents bufsz ?f1)"
    using ok by (simp add: unat_recved int_ok_def fifo_contents_def)
  ultimately show ?thesis using isr_rx_ind_ok(2) [OF assms, of chs] by simp
qed

section \<open>Runs\<close>

datatype serial_op = Recv "u8 list" | Read nat

text \<open>The DMA controller, a parameter: from the buffer, the position it has reached and the bytes that arrive, the
  buffer it leaves. Its documented circular mode is the hypothesis.\<close>

type_synonym dma = "u8 list \<Rightarrow> nat \<Rightarrow> u8 list \<Rightarrow> u8 list"

definition circular_dma :: "dma \<Rightarrow> bool" where
  "circular_dma dma \<longleftrightarrow> (\<forall>b p xs. p < length b \<longrightarrow> dma_wrote b p xs (dma b p xs))"

text \<open>The event the driver raises when \<open>len\<close> bytes have arrived.\<close>

definition dma_event :: "u32 \<Rightarrow> u32" where
  "dma_event len = 0x03 OR push_bit 8 len"

fun dma_run :: "dma \<Rightarrow> u16 \<Rightarrow> serial_op list \<Rightarrow> rx_fifo \<Rightarrow> (rx_fifo \<times> u8 list list) option" where
  "dma_run dma bufsz [] f = Some (f, [])"
| "dma_run dma bufsz (Recv xs # ops) f =
     dma_run dma bufsz ops (fst (isr_rx_dmadone bufsz (dma_event (of_nat (length xs)))
       (f\<lparr>fifo_buf := dma (fifo_buf f) (unat (put_index f)) xs\<rparr>)))"
| "dma_run dma bufsz (Read n # ops) f =
     (case serial_dma_rx bufsz (of_nat n) f of
        None \<Rightarrow> None
      | Some (bytes, f') \<Rightarrow> map_option (\<lambda>(f'', outs). (f'', bytes # outs)) (dma_run dma bufsz ops f'))"

fun int_run :: "u16 \<Rightarrow> serial_op list \<Rightarrow> rx_fifo \<Rightarrow> rx_fifo \<times> u8 list list" where
  "int_run bufsz [] f = (f, [])"
| "int_run bufsz (Recv xs # ops) f = int_run bufsz ops (fst (isr_rx_ind bufsz xs f))"
| "int_run bufsz (Read n # ops) f =
     (let (bytes, f') = serial_int_rx bufsz n f; (f'', outs) = int_run bufsz ops f' in (f'', bytes # outs))"

text \<open>The abstract FIFO: a list of at most \<open>cap\<close> bytes from which arrivals displace the oldest.\<close>

fun newest_run :: "nat \<Rightarrow> serial_op list \<Rightarrow> u8 list \<Rightarrow> u8 list \<times> u8 list list" where
  "newest_run cap [] l = (l, [])"
| "newest_run cap (Recv xs # ops) l = newest_run cap ops (newest cap (l @ xs))"
| "newest_run cap (Read n # ops) l = (let (l', outs) = newest_run cap ops (drop n l) in (l', take n l # outs))"

definition op_fits :: "u16 \<Rightarrow> serial_op \<Rightarrow> bool" where
  "op_fits bufsz x = (case x of Recv xs \<Rightarrow> length xs \<le> unat bufsz | Read n \<Rightarrow> n < 2 ^ 31)"

lemma signed_take_bit_23: "- (2 ^ 23) \<le> z \<Longrightarrow> z < 2 ^ 23 \<Longrightarrow> signed_take_bit 23 z = (z :: int)"
  by (rule signed_take_bit_int_eq_self)

lemma event_mask: "(3 :: u32) = mask 2" "(0xFF :: u32) = mask 8"
  by (simp_all add: mask_eq_exp_minus_1)

lemma event_mask_off: "dma_event w AND NOT 0xFF = push_bit 8 w"
  unfolding dma_event_def event_mask by (rule bit_word_eqI) (auto simp: bit_simps)

lemma event_length:
  assumes "signed_take_bit 23 z = z"
  shows "signed_drop_bit 8 (dma_event (word_of_int z) AND NOT 0xFF) = word_of_int z"
  unfolding event_mask_off
proof (rule bit_word_eqI)
  fix n assume n: "n < LENGTH(32)"
  have "bit (signed_take_bit 23 z) n \<longleftrightarrow> bit z (min 23 n)" by (simp add: bit_signed_take_bit_iff)
  then have z: "bit z n \<longleftrightarrow> bit z (min 23 n)" unfolding assms .
  have b: "bit (word_of_int z :: u32) k \<longleftrightarrow> k < 32 \<and> bit z k" for k by (simp add: bit_word_of_int_iff)
  have p: "bit (push_bit 8 (word_of_int z :: u32)) k \<longleftrightarrow> 8 \<le> k \<and> k < 32 \<and> bit z (k - 8)" for k
    by (auto simp: bit_push_bit_iff b)
  show "bit (signed_drop_bit 8 (push_bit 8 (word_of_int z :: u32))) n \<longleftrightarrow> bit (word_of_int z :: u32) n"
  proof (cases "24 \<le> n")
    case True
    then have "bit z n \<longleftrightarrow> bit z 23" using z by (simp add: min_def)
    then show ?thesis using n True by (simp add: bit_signed_drop_bit_iff p b)
  next
    case False
    then show ?thesis using n by (simp add: bit_signed_drop_bit_iff p b)
  qed
qed

lemma dma_run_newest:
  assumes "circular_dma dma" "dma_ok bufsz f" "list_all (op_fits bufsz) ops"
  shows "\<exists>f'. dma_run dma bufsz ops f = Some (f', snd (newest_run (unat bufsz) ops (fifo_contents bufsz f)))
    \<and> dma_ok bufsz f' \<and> fifo_contents bufsz f' = fst (newest_run (unat bufsz) ops (fifo_contents bufsz f))"
  using assms(2,3)
proof (induction ops arbitrary: f)
  case (Cons x ops)
  show ?case
  proof (cases x)
    case (Recv xs)
    let ?b = "dma (fifo_buf f) (unat (put_index f)) xs"
    let ?f1 = "rt_dma_recv_update_put_index bufsz (of_nat (length xs)) (f\<lparr>fifo_buf := ?b\<rparr>)"
    have l: "length xs \<le> unat bufsz" "unat bufsz \<le> 2 ^ 15"
      using Cons.prems Recv by (auto simp: op_fits_def dma_ok_def fifo_ok_def)
    then have u: "unat (of_nat (length xs) :: u32) = length xs" by (intro unat_word_of_nat) simp
    have wr: "dma_wrote (fifo_buf f) (unat (put_index f)) xs ?b"
      using assms(1) Cons.prems(1) by (auto simp: circular_dma_def dma_ok_def fifo_ok_def)
    have "dma_ok bufsz (f\<lparr>fifo_buf := ?b\<rparr>)" using Cons.prems(1) wr by (auto simp: dma_ok_def fifo_ok_def dma_wrote_def)
    then have ok1: "dma_ok bufsz ?f1" using dma_put_ok(1) u l(1) by simp
    have c1: "fifo_contents bufsz ?f1 = newest (unat bufsz) (fifo_contents bufsz f @ xs)"
      by (rule dma_put_contents [OF Cons.prems(1) l(1) u wr])
    have "signed_drop_bit 8 (dma_event (of_nat (length xs)) AND NOT 0xFF) = (of_nat (length xs) :: u32)"
      using event_length [of "int (length xs)"] signed_take_bit_23 [of "int (length xs)"] l by simp
    then have "fst (isr_rx_dmadone bufsz (dma_event (of_nat (length xs))) (f\<lparr>fifo_buf := ?b\<rparr>)) = ?f1"
      by (simp add: isr_rx_dmadone_def Let_def)
    then show ?thesis using Cons.IH [OF ok1] Cons.prems(2) c1 Recv by simp
  next
    case (Read n)
    have "unat (of_nat n :: u32) = n" using Cons.prems(2) Read by (intro unat_word_of_nat) (simp add: op_fits_def)
    with serial_dma_rx_ok [OF Cons.prems(1), of "of_nat n"] Cons.prems(2) Read
    obtain f' where f': "serial_dma_rx bufsz (of_nat n) f = Some (take n (fifo_contents bufsz f), f')" "dma_ok bufsz f'"
      "fifo_contents bufsz f' = drop n (fifo_contents bufsz f)" by (auto simp: op_fits_def)
    then show ?thesis using Cons.IH [OF f'(2)] Cons.prems(2) Read by (auto simp: case_prod_beta)
  qed
qed simp

lemma int_run_newest:
  assumes "int_ok bufsz f"
  shows "snd (int_run bufsz ops f) = snd (newest_run (unat bufsz - 1) ops (fifo_contents bufsz f))
    \<and> int_ok bufsz (fst (int_run bufsz ops f))
    \<and> fifo_contents bufsz (fst (int_run bufsz ops f)) = fst (newest_run (unat bufsz - 1) ops (fifo_contents bufsz f))"
  using assms
proof (induction ops arbitrary: f)
  case (Cons x ops)
  show ?case
  proof (cases x)
    case (Recv xs)
    then show ?thesis using isr_rx_ind_ok [OF Cons.prems, of xs] Cons.IH by simp
  next
    case (Read n)
    note r = serial_int_rx_ok [OF Cons.prems, of n]
    then show ?thesis using Cons.IH [of "snd (serial_int_rx bufsz n f)"] Read by (simp add: case_prod_beta Let_def)
  qed
qed simp

lemma fifo_open_ok:
  assumes "0 < unat bufsz" "unat bufsz \<le> 2 ^ 15"
  shows "dma_ok bufsz (fifo_open bufsz)" "2 \<le> unat bufsz \<Longrightarrow> int_ok bufsz (fifo_open bufsz)" "fifo_contents bufsz (fifo_open bufsz) = []"
  using assms by (simp_all add: dma_ok_def int_ok_def fifo_ok_def fifo_open_def fifo_contents_def fifo_count_def)

section \<open>The property\<close>


text \<open>A concrete controller, one byte at a time.\<close>

fun dma_bytes :: "u8 list \<Rightarrow> nat \<Rightarrow> u8 list \<Rightarrow> u8 list" where
  "dma_bytes b p [] = b"
| "dma_bytes b p (x # xs) = dma_bytes (b[p mod length b := x]) (p + 1) xs"

lemma length_dma_bytes [simp]: "length (dma_bytes b p xs) = length b"
  by (induction b p xs rule: dma_bytes.induct) simp_all

lemma dma_bytes_other:
  "(\<forall>j < length xs. i \<noteq> (p + j) mod length b) \<Longrightarrow> dma_bytes b p xs ! i = b ! i"
proof (induction b p xs rule: dma_bytes.induct)
  case (2 b p x xs)
  have "i \<noteq> (p + 1 + j) mod length b" if "j < length xs" for j
    using 2(2)[rule_format, of "Suc j"] that by simp
  moreover have "i \<noteq> p mod length b" using 2(2)[rule_format, of 0] by simp
  ultimately show ?case using 2(1) by simp
qed simp

lemma dma_bytes_newest:
  "0 < length b \<Longrightarrow> j < length xs \<Longrightarrow> length xs \<le> j + length b \<Longrightarrow> dma_bytes b p xs ! ((p + j) mod length b) = xs ! j"
proof (induction b p xs arbitrary: j rule: dma_bytes.induct)
  case (2 b p x xs)
  show ?case
  proof (cases j)
    case 0
    have "p mod length b \<noteq> (p + 1 + i) mod length b" if "i < length xs" for i
      using ring_distinct [of 0 "Suc i" "length b" p] that 2(4) 0 by simp
    then have "dma_bytes (b[p mod length b := x]) (p + 1) xs ! (p mod length b) = b[p mod length b := x] ! (p mod length b)"
      by (intro dma_bytes_other) simp
    then show ?thesis using 0 2(2) by simp
  next
    case (Suc i)
    then show ?thesis using 2(1) [of i] 2(2-4) by simp
  qed
qed simp

lemma circular_dma_bytes: "circular_dma dma_bytes"
  unfolding circular_dma_def dma_wrote_def
proof (intro allI impI conjI)
  fix p and b xs :: "u8 list" and j :: nat
  assume "p < length b" "j < length xs" "length xs \<le> j + length b"
  then show "dma_bytes b p xs ! ((p + j) mod length b) = xs ! j" by (intro dma_bytes_newest) auto
qed (simp_all add: dma_bytes_other)


end
