(* ===== verification/Dbus_Link.thy ===== *)
theory Dbus_Link
  imports Serial Rc_Motor
begin

text \<open>
  How the bytes of the remote control reach \<open>RC_Process\<close>: the DMA controller fills the buffer of the serial
  FIFO in circles, the idle-line interrupt of the driver (\<open>HAL_Drivers/drv_usart.c\<close>) computes from the
  controller's counter how many bytes a burst had, \<open>rt_hw_serial_isr\<close> moves the FIFO's put index and calls
  \<open>dbus_input\<close> (\<open>rc.c\<close>), which reads them. The calls of \<open>dma_isr\<close> in the transfer-complete callbacks are
  commented out in the source, so the idle line is the only event that counts bytes.
\<close>

record uart_link =
  link_fifo :: rx_fifo
  last_index :: u32
  dma_pos :: nat
  link_dbus :: dbus_state

text \<open>\<open>dbus_input\<close> as the callback of the device: it reads through \<open>rt_device_read\<close>.\<close>

definition dbus_indicate :: "u16 \<Rightarrow> u32 \<Rightarrow> uart_link \<Rightarrow> uart_link option" where
  "dbus_indicate bufsz len s =
     do { (bytes, f) \<leftarrow> serial_dma_rx bufsz len (link_fifo s);
          d \<leftarrow> dbus_input bytes (link_dbus s);
          Some (s\<lparr>link_fifo := f, link_dbus := d\<rparr>) }"

text \<open>The idle-line branch of \<open>uart_isr\<close>; \<open>ndtr\<close> is the controller's counter of bytes to go.\<close>

definition uart_idle :: "u16 \<Rightarrow> u32 \<Rightarrow> uart_link \<Rightarrow> uart_link option" where
  "uart_idle bufsz ndtr s =
     (let recv_total_index = ucast bufsz - ndtr;
          recv_len = recv_total_index - last_index s;
          s1 = s\<lparr>last_index := recv_total_index\<rparr> in
      if recv_len \<noteq> 0 then
        (let (f, len) = isr_rx_dmadone bufsz (dma_event recv_len) (link_fifo s1) in
         dbus_indicate bufsz len (s1\<lparr>link_fifo := f\<rparr>))
      else Some s1)"

text \<open>A burst of bytes and the idle line after it. The controller writes from its position on and counts down,
  from the buffer's size again at each wrap.\<close>

definition link_burst :: "dma \<Rightarrow> u16 \<Rightarrow> u8 list \<Rightarrow> uart_link \<Rightarrow> uart_link option" where
  "link_burst dma bufsz xs s =
     (let f = link_fifo s; pos = (dma_pos s + length xs) mod unat bufsz in
      uart_idle bufsz (of_nat (unat bufsz - pos))
        (s\<lparr>link_fifo := f\<lparr>fifo_buf := dma (fifo_buf f) (dma_pos s) xs\<rparr>, dma_pos := pos\<rparr>))"

fun link_run :: "dma \<Rightarrow> u16 \<Rightarrow> u8 list list \<Rightarrow> uart_link \<Rightarrow> uart_link option" where
  "link_run dma bufsz [] s = Some s"
| "link_run dma bufsz (xs # bursts) s = (case link_burst dma bufsz xs s of None \<Rightarrow> None | Some s1 \<Rightarrow> link_run dma bufsz bursts s1)"

text \<open>The device just opened, with the callback set.\<close>

definition link_open :: "u16 \<Rightarrow> dbus_state \<Rightarrow> uart_link" where
  "link_open bufsz d = \<lparr>link_fifo = fifo_open bufsz, last_index = 0, dma_pos = 0, link_dbus = d\<rparr>"

section \<open>What a burst delivers\<close>

text \<open>The bytes counted are those of the burst modulo the buffer's size, the newest of them.\<close>

definition delivered :: "u16 \<Rightarrow> u8 list \<Rightarrow> u8 list" where
  "delivered bufsz xs = newest (length xs mod unat bufsz) xs"

definition decode_burst :: "u16 \<Rightarrow> u8 list \<Rightarrow> dbus_state \<Rightarrow> dbus_state" where
  "decode_burst bufsz xs d =
     (let got = delivered bufsz xs; b = got @ drop (length got) (dbus_rx_buffer d) in
      if got = [] then d else d\<lparr>dbus_rx_buffer := b, dbus_rc := rc_process b (dbus_rc d)\<rparr>)"

definition link_ok :: "u16 \<Rightarrow> uart_link \<Rightarrow> bool" where
  "link_ok bufsz s \<longleftrightarrow> fifo_ok bufsz (link_fifo s) \<and> \<not> is_full (link_fifo s)
     \<and> get_index (link_fifo s) = put_index (link_fifo s) \<and> unat (put_index (link_fifo s)) = dma_pos s
     \<and> last_index s = of_nat (dma_pos s) \<and> length (dbus_rx_buffer (link_dbus s)) = 18"

lemma length_delivered [simp]: "length (delivered bufsz xs) = length xs mod unat bufsz"
  by (simp add: delivered_def newest_def)

text \<open>The put index follows the controller: the count, modulo \<open>2 ^ 32\<close> and through the event's 24 bits, is the
  difference of the positions.\<close>

lemma ucast_word_of_int: "ucast (word_of_int z :: u32) = (word_of_int z :: u16)"
  by (rule bit_word_eqI) (simp add: bit_ucast_iff bit_word_of_int_iff)

lemma idle_put_index:
  assumes ok: "link_ok bufsz s" and pos: "pos < unat bufsz" and b: "length b' = unat bufsz"
    and len: "len = (of_nat pos :: u32) - last_index s"
  shows "isr_rx_dmadone bufsz (dma_event len) ((link_fifo s)\<lparr>fifo_buf := b'\<rparr>)
    = (let f = (link_fifo s)\<lparr>fifo_buf := b', put_index := of_nat pos\<rparr> in (f, fifo_calc_recved_len bufsz f))"
proof -
  let ?f = "link_fifo s"
  have f: "fifo_ok bufsz ?f" "\<not> is_full ?f" "get_index ?f = put_index ?f" "unat (put_index ?f) = dma_pos s"
    "last_index s = of_nat (dma_pos s)" using ok by (simp_all add: link_ok_def)
  have B: "unat bufsz \<le> 2 ^ 15" "dma_pos s < unat bufsz" using f(1,4) by (auto simp: fifo_ok_def)
  let ?z = "int pos - int (dma_pos s)"
  have len': "len = word_of_int ?z" using len f(5) by simp
  have "signed_take_bit 23 ?z = ?z" using B pos by (intro signed_take_bit_23) auto
  then have ev: "signed_drop_bit 8 (dma_event len AND NOT 0xFF) = len" unfolding len' by (rule event_length)
  have "put_index ?f = of_nat (dma_pos s)" unfolding f(4) [symmetric] by simp
  moreover have "(ucast len :: u16) = word_of_int ?z" unfolding len' by (rule ucast_word_of_int)
  ultimately have p: "put_index ?f + ucast len = of_nat pos" by simp
  have "unat (of_nat pos :: u16) = pos" using B pos by (intro unat_word_of_nat) simp
  then have "\<not> bufsz \<le> of_nat pos" using pos by (simp add: word_le_nat_alt)
  then have "rt_dma_recv_update_put_index bufsz len (?f\<lparr>fifo_buf := b'\<rparr>) = ?f\<lparr>fifo_buf := b', put_index := of_nat pos\<rparr>"
    using f p by (simp add: rt_dma_recv_update_put_index_def Let_def)
  then show ?thesis by (simp only: isr_rx_dmadone_def Let_def ev)
qed

lemma delivered_slice:
  assumes "dma_wrote b p xs b'" "length b = unat bufsz" "p < unat bufsz"
  shows "ring_slice b' p (length xs mod unat bufsz) = delivered bufsz xs"
proof (rule nth_equalityI)
  let ?B = "unat bufsz"
  fix k assume "k < length (ring_slice b' p (length xs mod ?B))"
  then have k: "k < length xs mod ?B" by simp
  define j where "j = length xs - length xs mod ?B + k"
  have B: "0 < ?B" using assms(3) by simp
  have d: "length xs mod ?B \<le> length xs" "length xs mod ?B < ?B" using B by simp_all
  have j: "j < length xs" "length xs \<le> j + length b" 
    using k d unfolding j_def assms(2) by linarith+
  have "length xs - length xs mod ?B = ?B * (length xs div ?B)" by (simp add: minus_mod_eq_mult_div)
  then have "p + j = p + k + ?B * (length xs div ?B)" by (simp add: j_def)
  then have "(p + j) mod ?B = (p + k) mod ?B" by (simp only: mod_mult_self2)
  moreover have "b' ! ((p + j) mod ?B) = xs ! j" using assms(1,2) j by (simp add: dma_wrote_def)
  moreover have "delivered bufsz xs ! k = xs ! j" using k d by (simp add: delivered_def newest_def j_def)
  moreover have "length b' = ?B" using assms(1,2) by (simp add: dma_wrote_def)
  ultimately show "ring_slice b' p (length xs mod ?B) ! k = delivered bufsz xs ! k" using k by simp
qed simp

lemma count_empty: "fifo_ok bufsz f \<Longrightarrow> fifo_contents bufsz f = [] \<Longrightarrow> get_index f = put_index f \<and> \<not> is_full f"
  by (auto simp: fifo_contents_def fifo_count_def Let_def fifo_ok_def word_unat_eq_iff ring_slice_def split: if_splits)

lemma link_burst_ok:
  assumes dma: "circular_dma dma" and size: "unat bufsz \<le> 19" and ok: "link_ok bufsz s"
  shows "\<exists>s'. link_burst dma bufsz xs s = Some s' \<and> link_ok bufsz s' \<and> link_dbus s' = decode_burst bufsz xs (link_dbus s)"
proof -
  let ?f = "link_fifo s" let ?B = "unat bufsz" let ?b = "dma (fifo_buf ?f) (dma_pos s) xs"
  define pos where "pos = (dma_pos s + length xs) mod ?B"
  have f: "fifo_ok bufsz ?f" "\<not> is_full ?f" "get_index ?f = put_index ?f" "unat (put_index ?f) = dma_pos s"
    "last_index s = of_nat (dma_pos s)" "length (dbus_rx_buffer (link_dbus s)) = 18" using ok by (simp_all add: link_ok_def)
  have B: "0 < ?B" "?B \<le> 2 ^ 15" "dma_pos s < ?B" "length (fifo_buf ?f) = ?B" using f(1,4) by (auto simp: fifo_ok_def)
  have pos: "pos < ?B" using B by (simp add: pos_def)
  have wr: "dma_wrote (fifo_buf ?f) (dma_pos s) xs ?b" using dma B by (simp add: circular_dma_def)
  have lb: "length ?b = ?B" using wr B by (simp add: dma_wrote_def)
  have up: "unat (of_nat pos :: u16) = pos" using B pos by (intro unat_word_of_nat) simp
  have total: "ucast bufsz - of_nat (?B - pos) = (of_nat pos :: u32)"
  proof -
    have "?B = (?B - pos) + pos" using pos by simp
    then have "(of_nat ?B :: u32) = of_nat (?B - pos) + of_nat pos" by (metis of_nat_add)
    then have "(ucast bufsz :: u32) = of_nat (?B - pos) + of_nat pos" by (simp only: ucast_of_nat [of bufsz])
    then show ?thesis by (simp only: add_diff_cancel_left')
  qed
  let ?s1 = "s\<lparr>link_fifo := ?f\<lparr>fifo_buf := ?b\<rparr>, dma_pos := pos, last_index := of_nat pos\<rparr>"
  define len where "len = (of_nat pos :: u32) - last_index s"
  have zero: "len = 0 \<longleftrightarrow> length xs mod ?B = 0"
  proof -
    have "len = 0 \<longleftrightarrow> (of_nat pos :: u32) = of_nat (dma_pos s)" by (simp add: len_def f(5))
    also have "\<dots> \<longleftrightarrow> pos = dma_pos s" 
    proof -
      have "unat (of_nat pos :: u32) = pos" "unat (of_nat (dma_pos s) :: u32) = dma_pos s"
        using B pos by (intro unat_word_of_nat, simp)+
      then show ?thesis by (simp only: word_unat_eq_iff)
    qed
    also have "\<dots> \<longleftrightarrow> length xs mod ?B = 0"
    proof
      assume "pos = dma_pos s"
      then have "(dma_pos s + length xs mod ?B) mod ?B = dma_pos s" by (simp add: pos_def mod_simps)
      then show "length xs mod ?B = 0"
        using ring_distinct [of 0 "length xs mod ?B" ?B "dma_pos s"] B by (cases "length xs mod ?B = 0") auto
    next
      assume "length xs mod ?B = 0"
      then show "pos = dma_pos s" using B by (simp add: pos_def mod_add_right_eq [symmetric])
    qed
    finally show ?thesis .
  qed
  show ?thesis
  proof (cases "len = 0")
    case True
    have "link_burst dma bufsz xs s = Some ?s1"
      using True by (simp add: link_burst_def Let_def uart_idle_def pos_def [symmetric] total len_def)
    moreover have "pos = dma_pos s" using True zero B by (simp add: pos_def mod_add_right_eq [symmetric])
    then have "link_ok bufsz ?s1" using f lb by (auto simp: link_ok_def fifo_ok_def)
    moreover have "decode_burst bufsz xs (link_dbus s) = link_dbus s"
      using True zero by (simp add: decode_burst_def delivered_def newest_def)
    ultimately show ?thesis by simp
  next
    case False
    let ?f1 = "?f\<lparr>fifo_buf := ?b, put_index := of_nat pos\<rparr>"
    let ?got = "delivered bufsz xs"
    have okf1: "fifo_ok bufsz ?f1" using f(1) lb up pos by (simp add: fifo_ok_def)
    have r: "length xs mod ?B < ?B" "0 < length xs mod ?B" using B False zero by simp_all
    have count: "fifo_count bufsz ?f1 = length xs mod ?B"
      by (rule fifo_count_eqI [OF okf1 _ r(1)]) (simp_all add: f up, simp add: pos_def mod_simps)
    have cont: "fifo_contents bufsz ?f1 = ?got"
      using delivered_slice [OF wr B(4,3)] unfolding fifo_contents_def count by (simp add: f)
    have rl: "unat (fifo_calc_recved_len bufsz ?f1) = length ?got" using unat_recved [OF okf1] count by simp
    have "dma_ok bufsz ?f1" using okf1 f(2) by (simp add: dma_ok_def)
    from serial_dma_rx_ok [OF this, of "fifo_calc_recved_len bufsz ?f1"] rl size r
    obtain f2 where f2: "serial_dma_rx bufsz (fifo_calc_recved_len bufsz ?f1) ?f1 = Some (?got, f2)" "dma_ok bufsz f2"
      "fifo_contents bufsz f2 = []" "put_index f2 = put_index ?f1" by (auto simp: cont)
    have got: "length ?got \<le> 18" "?got \<noteq> []" using r size by (auto simp flip: length_0_conv)
    let ?s2 = "?s1\<lparr>link_fifo := f2, link_dbus := decode_burst bufsz xs (link_dbus s)\<rparr>"
    have "dbus_input ?got (link_dbus s) = Some (decode_burst bufsz xs (link_dbus s))"
      using dbus_input_some [OF f(6) got(1)] got(2) by (simp add: decode_burst_def Let_def)
    then have "dbus_indicate bufsz (fifo_calc_recved_len bufsz ?f1) (?s1\<lparr>link_fifo := ?f1\<rparr>) = Some ?s2"
      by (simp add: dbus_indicate_def f2(1))
    then have "link_burst dma bufsz xs s = Some ?s2"
      using False idle_put_index [OF ok pos lb len_def]
      by (simp add: link_burst_def Let_def uart_idle_def pos_def [symmetric] total len_def)
    moreover have "fifo_ok bufsz f2" using f2(2) by (simp add: dma_ok_def)
    then have "link_ok bufsz ?s2"
      using count_empty [OF _ f2(3)] f2(4) up f(6) got(1)
      by (simp add: link_ok_def decode_burst_def Let_def)
    ultimately show ?thesis by auto
  qed
qed

lemma link_run_ok:
  assumes "circular_dma dma" "unat bufsz \<le> 19"
  shows "link_ok bufsz s \<Longrightarrow>
    \<exists>s'. link_run dma bufsz bursts s = Some s' \<and> link_ok bufsz s' \<and> link_dbus s' = fold (decode_burst bufsz) bursts (link_dbus s)"
proof (induction bursts arbitrary: s)
  case (Cons xs bursts)
  obtain s1 where s1: "link_burst dma bufsz xs s = Some s1" "link_ok bufsz s1" "link_dbus s1 = decode_burst bufsz xs (link_dbus s)"
    using link_burst_ok [OF assms Cons.prems] by blast
  then show ?case using Cons.IH [OF s1(2)] by simp
qed simp

lemma link_open_ok:
  assumes "0 < unat bufsz" "unat bufsz \<le> 2 ^ 15" "length (dbus_rx_buffer d) = 18"
  shows "link_ok bufsz (link_open bufsz d)"
  using fifo_open_ok(1) [OF assms(1,2)] assms(3) by (simp add: link_ok_def link_open_def dma_ok_def fifo_open_def)

lemma decode_frame_19:
  assumes "rc_valid r" "length (dbus_rx_buffer d) = 18"
  shows "decode_burst 19 (dbus_frame r) d = d\<lparr>dbus_rx_buffer := dbus_frame r, dbus_rc := r\<rparr>"
proof -
  have ne: "dbus_frame r \<noteq> []" using length_dbus_frame [of r] by (cases "dbus_frame r") auto
  then have "delivered 19 (dbus_frame r) = dbus_frame r" by (simp add: delivered_def length_dbus_frame newest_def)
  then show ?thesis using ne assms by (simp add: decode_burst_def Let_def length_dbus_frame rc_process_frame)
qed

lemma decode_frame_18: "decode_burst 18 (dbus_frame r) d = d"
  by (simp add: decode_burst_def delivered_def length_dbus_frame newest_def)

lemma decode_frames_19:
  "list_all rc_valid rs \<Longrightarrow> rs \<noteq> [] \<Longrightarrow> length (dbus_rx_buffer d) = 18 \<Longrightarrow>
    dbus_rc (fold (decode_burst 19) (map dbus_frame rs) d) = last rs"
proof (induction rs arbitrary: d)
  case (Cons r rs)
  have step: "decode_burst 19 (dbus_frame r) d = d\<lparr>dbus_rx_buffer := dbus_frame r, dbus_rc := r\<rparr>"
    using Cons.prems by (intro decode_frame_19) auto
  show ?case
  proof (cases rs)
    case Nil
    then show ?thesis by (simp add: step)
  next
    case Cons': Cons
    then show ?thesis using Cons.IH [of "d\<lparr>dbus_rx_buffer := dbus_frame r, dbus_rc := r\<rparr>"] Cons.prems
      by (simp add: step length_dbus_frame)
  qed
qed simp

lemma decode_frames_18: "fold (decode_burst 18) (map dbus_frame rs) d = d"
  by (induction rs) (simp_all add: decode_frame_18)

section \<open>The property\<close>

text \<open>C25. Every burst of the remote control is eventually decoded, or never, depending on the buffer's size. With a
  circular controller and a buffer of at most 19 bytes, each burst followed by an idle line is handed to the callback
  as its newest \<open>length mod bufsz\<close> bytes, whatever came before, and the link is ready for the next. So with the
  configured 19 bytes every frame of 18 arrives whole and after any number of frames the globals are the last
  remote control sent; with 18 bytes, which the source says does not work for an unknown reason, no frame ever
  reaches the callback.\<close>

theorem dbus_link_delivers:
  assumes "circular_dma dma" "0 < unat bufsz" "unat bufsz \<le> 19" "length (dbus_rx_buffer d) = 18"
  shows "(\<exists>s. link_run dma bufsz bursts (link_open bufsz d) = Some s \<and> link_dbus s = fold (decode_burst bufsz) bursts d)
    \<and> (list_all rc_valid rs \<and> rs \<noteq> [] \<longrightarrow>
        (\<exists>s. link_run dma 19 (map dbus_frame rs) (link_open 19 d) = Some s \<and> dbus_rc (link_dbus s) = last rs))
    \<and> (\<exists>s. link_run dma 18 (map dbus_frame rs) (link_open 18 d) = Some s \<and> link_dbus s = d)"
proof -
  have run: "\<exists>s. link_run dma bz xss (link_open bz d) = Some s \<and> link_dbus s = fold (decode_burst bz) xss d"
    if "0 < unat bz" "unat bz \<le> 19" for bz xss
    using link_run_ok [OF assms(1) that(2) link_open_ok [OF that(1) _ assms(4)], of xss] that(2) by (auto simp: link_open_def)
  show ?thesis
    using run [OF assms(2,3), of bursts] run [of 19 "map dbus_frame rs"] run [of 18 "map dbus_frame rs"]
      decode_frames_19 [of rs d] assms(4) by (auto simp: decode_frames_18)
qed

lemma dbus_link_delivers_witness:
  "\<exists>s. link_run dma_bytes 19 (map dbus_frame [rc_zero, rc_sample, rc_sample\<lparr>ch1 := 5\<rparr>])
      (link_open 19 \<lparr>dbus_rx_buffer = replicate 18 0, dbus_rc = rc_zero\<rparr>) = Some s \<and> dbus_rc (link_dbus s) = rc_sample\<lparr>ch1 := 5\<rparr>"
proof -
  have "list_all rc_valid [rc_zero, rc_sample, rc_sample\<lparr>ch1 := 5\<rparr>]" by code_simp
  then show ?thesis
    using dbus_link_delivers [OF circular_dma_bytes, of 19 "\<lparr>dbus_rx_buffer = replicate 18 0, dbus_rc = rc_zero\<rparr>" "[]"
      "[rc_zero, rc_sample, rc_sample\<lparr>ch1 := 5\<rparr>]"] by simp
qed

end
