(* ===== verification/CanDevice.thy ===== *)
theory CanDevice
  imports Rc_Motor
begin

text \<open>
  The receiving half of the CAN framework (\<open>components/drivers/can/can.c\<close>): the software FIFO between the
  interrupt and the readers, and the header table that sorts messages by filter. The nodes of the FIFO's
  buffer are named by their index; an intrusive list is the list of the nodes linked into it, so
  \<open>rt_list_remove\<close> takes a node out of the ring it is in and is without effect on an unlinked one. A section
  between \<open>rt_hw_interrupt_disable\<close> and \<open>rt_hw_interrupt_enable\<close> is one definition, and the interleavings
  of readers and interrupts are sequences of them. \<open>None\<close> is a failed \<open>RT_ASSERT\<close> or an access outside
  the program's objects, or a list head that is initialised again while nodes are linked to it. The driver
  below (\<open>can->ops\<close>) is an argument; callbacks are booleans that say whether they are set. The mutex that
  serialises \<open>rt_can_open\<close> and \<open>rt_can_close\<close> is that of \<open>Mutex\<close> and left out.
\<close>

section \<open>Data\<close>

text \<open>\<open>struct rt_can_msg\<close> with the fields only the framework reads.\<close>

record rt_can_msg = can_msg +
  msg_priv :: u8
  msg_hdr :: u8

record can_filter_item =
  fi_id :: u32
  fi_ide :: bool
  fi_rtr :: bool
  fi_mode :: bool
  fi_mask :: u32
  fi_hdr :: u32
  fi_ind :: bool

record rt_can_hdr =
  connected :: u32
  hdr_msgs :: u32
  hdr_filter :: can_filter_item
  hdr_list :: "nat list"

record can_node =
  node_msg :: rt_can_msg
  owner :: "nat option"

record can_rx_fifo =
  rx_nodes :: "can_node list"
  freenumbers :: u32
  freelist :: "nat list"
  uselist :: "nat list"

record can_box =
  box_result :: u32
  box_done :: bool

record can_tx_fifo =
  tx_boxes :: "can_box list"
  tx_sem :: u16
  tx_freelist :: "nat list"

record can_device =
  msgboxsz :: u32
  sndboxnumber :: u32
  privmode :: u32
  maxhdr :: u32
  rcvpkg :: u32
  dropedrcvpkg :: u32
  sndpkg :: u32
  dropedsndpkg :: u32
  rcvchange :: u32
  sndchange :: u32
  hdrs :: "rt_can_hdr list option"
  dev_rx :: "can_rx_fifo option"
  dev_tx :: "can_tx_fifo option"
  open_flag :: u32
  ref_count :: u8
  rx_indicate :: bool
  dev_flag :: u32
  status_ind :: bool
  timerinitflag :: u32
  timer_runs :: bool

text \<open>\<open>sizeof(struct rt_can_msg)\<close>, and the open flags of \<open>rtdef.h\<close>.\<close>

abbreviation (input) MSG_SIZE :: int where "MSG_SIZE \<equiv> 16"
abbreviation (input) RT_DEVICE_FLAG_INT_RX :: u32 where "RT_DEVICE_FLAG_INT_RX \<equiv> 0x100"
abbreviation (input) RT_DEVICE_FLAG_INT_TX :: u32 where "RT_DEVICE_FLAG_INT_TX \<equiv> 0x400"

section \<open>The lists\<close>

definition upd_rx :: "(can_rx_fifo \<Rightarrow> can_rx_fifo) \<Rightarrow> can_device \<Rightarrow> can_device" where
  "upd_rx f d = d\<lparr>dev_rx := map_option f (dev_rx d)\<rparr>"

definition upd_hdr :: "nat \<Rightarrow> (rt_can_hdr \<Rightarrow> rt_can_hdr) \<Rightarrow> can_device \<Rightarrow> can_device" where
  "upd_hdr h f d = d\<lparr>hdrs := map_option (\<lambda>hs. hs[h := f (hs ! h)]) (hdrs d)\<rparr>"

definition upd_node :: "nat \<Rightarrow> (can_node \<Rightarrow> can_node) \<Rightarrow> can_device \<Rightarrow> can_device" where
  "upd_node i f = upd_rx (\<lambda>x. x\<lparr>rx_nodes := (rx_nodes x)[i := f (rx_nodes x ! i)]\<rparr>)"

text \<open>\<open>rt_list_remove\<close> of a node's \<open>list\<close>, and of its \<open>hdrlist\<close>.\<close>

definition unlink_list :: "nat \<Rightarrow> can_device \<Rightarrow> can_device" where
  "unlink_list i = upd_rx (\<lambda>x. x\<lparr>freelist := removeAll i (freelist x), uselist := removeAll i (uselist x)\<rparr>)"

definition unlink_hdr :: "nat \<Rightarrow> can_device \<Rightarrow> can_device" where
  "unlink_hdr i d = d\<lparr>hdrs := map_option (map (\<lambda>h. h\<lparr>hdr_list := removeAll i (hdr_list h)\<rparr>)) (hdrs d)\<rparr>"

text \<open>The owner's count goes down, if it is not 0, and the node has no owner any more. An owner pointer
  whose table has been freed is dereferenced.\<close>

definition can_disown :: "nat \<Rightarrow> can_device \<Rightarrow> can_device option" where
  "can_disown i d = do {
     f \<leftarrow> dev_rx d;
     d1 \<leftarrow> (case owner (rx_nodes f ! i) of
              None \<Rightarrow> Some d
            | Some h \<Rightarrow> do {
                hs \<leftarrow> hdrs d;
                Some (if hdr_msgs (hs ! h) \<noteq> 0 then upd_hdr h (\<lambda>x. x\<lparr>hdr_msgs := hdr_msgs x - 1\<rparr>) d else d)
              });
     Some (upd_node i (\<lambda>n. n\<lparr>owner := None\<rparr>) d1)
   }"

text \<open>The three removals that start every use of a node.\<close>

definition can_detach :: "nat \<Rightarrow> can_device \<Rightarrow> can_device option" where
  "can_detach i d = can_disown i (unlink_hdr i (unlink_list i d))"

section \<open>Reading\<close>

text \<open>The first section of \<open>_can_int_rx\<close>'s loop: the node for header \<open>hdr\<close>.\<close>

definition can_take :: "u8 \<Rightarrow> can_device \<Rightarrow> (nat option \<times> can_device) option" where
  "can_take hdr d = do {
     f \<leftarrow> dev_rx d;
     (case (if 0 \<le> sint hdr \<and> unat hdr < unat (maxhdr d)
            then map_option (\<lambda>hs. hdr_list (hs ! unat hdr)) (hdrs d) else None) of
        Some (i # _) \<Rightarrow>
          (let d1 = unlink_hdr i (unlink_list i d);
               d2 = upd_hdr (unat hdr) (\<lambda>x. x\<lparr>hdr_msgs := (if hdr_msgs x \<noteq> 0 then hdr_msgs x - 1 else hdr_msgs x)\<rparr>) d1 in
           Some (Some i, upd_node i (\<lambda>n. n\<lparr>owner := None\<rparr>) d2))
      | _ \<Rightarrow>
          (if hdr = - 1 then
             (case uselist f of
                i # _ \<Rightarrow> map_option (Pair (Some i)) (can_detach i d)
              | [] \<Rightarrow> Some (None, d))
           else Some (None, d)))
   }"

text \<open>The message is copied out of the node the reader holds, and the node goes back to the free list.\<close>

definition can_copy :: "nat \<Rightarrow> can_device \<Rightarrow> rt_can_msg option" where
  "can_copy i d = map_option (\<lambda>f. node_msg (rx_nodes f ! i)) (dev_rx d)"

definition can_release :: "nat \<Rightarrow> can_device \<Rightarrow> can_device option" where
  "can_release i d = do {
     f \<leftarrow> dev_rx d;
     if freenumbers f + 1 \<le> msgboxsz d
     then Some (upd_rx (\<lambda>x. x\<lparr>freelist := freelist x @ [i], freenumbers := freenumbers x + 1\<rparr>) d)
     else None
   }"

text \<open>The loop without an interrupt between its sections. The buffer is a list of messages, whose \<open>hdr\<close>
  fields say what to read; the result is the buffer with the messages read and the bytes left to read.
  \<open>msgs\<close> is an \<open>int\<close> that is compared with 0 only: the loop passes the end of the buffer when it is not a
  multiple of the message size.\<close>

fun can_int_rx :: "rt_can_msg list \<Rightarrow> int \<Rightarrow> can_device \<Rightarrow> (rt_can_msg list \<times> int \<times> can_device) option" where
  "can_int_rx [] left d = (if left = 0 then Some ([], 0, d) else None)"
| "can_int_rx (b # bs) left d =
     (if left = 0 then Some (b # bs, 0, d)
      else do {
        (taken, d1) \<leftarrow> can_take (msg_hdr b) d;
        (case taken of
           None \<Rightarrow> Some (b # bs, left, d1)
         | Some i \<Rightarrow> do {
             m \<leftarrow> can_copy i d1;
             d2 \<leftarrow> can_release i d1;
             (ms, left', d3) \<leftarrow> can_int_rx bs (left - MSG_SIZE) d2;
             Some (m # ms, left', d3)
           })
      })"

text \<open>\<open>rt_can_read\<close>: the count it returns is in bytes.\<close>

definition rt_can_read :: "rt_can_msg list \<Rightarrow> u32 \<Rightarrow> can_device \<Rightarrow> (rt_can_msg list \<times> u32 \<times> can_device) option" where
  "rt_can_read buf sz d =
     (if sz = 0 then Some (buf, 0, d)
      else if open_flag d AND RT_DEVICE_FLAG_INT_RX \<noteq> 0 \<and> 0 < ref_count d then do {
        (buf', left, d') \<leftarrow> can_int_rx buf (sint sz) d;
        Some (buf', word_of_int (sint sz - left), d')
      }
      else Some (buf, 0, d))"

section \<open>The interrupt\<close>

text \<open>The section that finds a node for the message received: a free one, or else the oldest one in use.\<close>

definition can_isr_alloc :: "can_device \<Rightarrow> (nat option \<times> can_device) option" where
  "can_isr_alloc d0 = (let d = d0\<lparr>rcvpkg := rcvpkg d0 + 1, rcvchange := 1\<rparr> in do {
     f \<leftarrow> dev_rx d;
     (case freelist f of
        i # _ \<Rightarrow> do {
          d1 \<leftarrow> can_detach i d;
          if 0 < freenumbers f then Some (Some i, upd_rx (\<lambda>x. x\<lparr>freenumbers := freenumbers x - 1\<rparr>) d1) else None
        }
      | [] \<Rightarrow>
          (case uselist f of
             i # _ \<Rightarrow> map_option (Pair (Some i)) (can_detach i (d\<lparr>dropedrcvpkg := dropedrcvpkg d + 1\<rparr>))
           | [] \<Rightarrow> Some (None, d)))
   })"

text \<open>The section that queues it.\<close>

definition can_isr_link :: "nat \<Rightarrow> rt_can_msg \<Rightarrow> can_device \<Rightarrow> can_device option" where
  "can_isr_link i m d =
     (let d1 = upd_rx (\<lambda>x. x\<lparr>uselist := uselist x @ [i]\<rparr>) (upd_node i (\<lambda>n. n\<lparr>node_msg := m\<rparr>) d); h = unat (msg_hdr m) in
      case hdrs d1 of
        None \<Rightarrow> Some d1
      | Some hs \<Rightarrow>
          if 0 \<le> sint (msg_hdr m) \<and> h < unat (maxhdr d1) then
            Some (if connected (hs ! h) \<noteq> 0
                  then upd_node i (\<lambda>n. n\<lparr>owner := Some h\<rparr>)
                         (upd_hdr h (\<lambda>x. x\<lparr>hdr_list := hdr_list x @ [i], hdr_msgs := hdr_msgs x + 1\<rparr>) d1)
                  else d1)
          else None)"

text \<open>The callback that is called, with its length argument. \<open>hdr\<close> is \<open>None\<close> while the variable has not
  been assigned.\<close>

datatype can_ind = No_ind | Hdr_ind u8 u32 | Rx_ind u32

definition can_isr_indicate :: "u8 option \<Rightarrow> can_device \<Rightarrow> can_ind option" where
  "can_isr_indicate hdr d = do {
     f \<leftarrow> dev_rx d;
     own \<leftarrow> (case hdrs d of
               None \<Rightarrow> Some None
             | Some hs \<Rightarrow> do {
                 h \<leftarrow> hdr;
                 Some (if connected (hs ! unat h) \<noteq> 0 \<and> fi_ind (hdr_filter (hs ! unat h))
                       then Some (h, hdr_msgs (hs ! unat h) * 16) else None)
               });
     Some (case own of
        Some (h, len) \<Rightarrow> if len \<noteq> 0 then Hdr_ind h len else No_ind
      | None \<Rightarrow>
          (let len = of_nat (length (uselist f)) * 16 in
           if rx_indicate d \<and> len \<noteq> 0 then Rx_ind len else No_ind))
   }"

text \<open>The case \<open>RT_CAN_EVENT_RX_IND\<close>; \<open>recv\<close> is what \<open>ops->recvmsg\<close> fetches, \<open>None\<close> for its \<open>-1\<close>.\<close>

definition can_isr_rx :: "rt_can_msg option \<Rightarrow> can_device \<Rightarrow> (can_ind \<times> can_device) option" where
  "can_isr_rx recv d =
     (if dev_rx d = None \<or> open_flag d AND RT_DEVICE_FLAG_INT_RX = 0 then None
      else case recv of
        None \<Rightarrow> Some (No_ind, d)
      | Some m \<Rightarrow> do {
          (node, d1) \<leftarrow> can_isr_alloc d;
          (hdr, d2) \<leftarrow> (case node of
                          None \<Rightarrow> Some (None, d1)
                        | Some i \<Rightarrow> map_option (Pair (Some (msg_hdr m))) (can_isr_link i m d1));
          ind \<leftarrow> can_isr_indicate hdr d2;
          Some (ind, d2)
        })"

section \<open>Opening and closing\<close>

text \<open>The driver: every call returns an error code and may change the device.\<close>

datatype can_cmd = Ctrl_Resume | Ctrl_Suspend | Ctrl_Config | Ctrl_Set_Int u32 | Ctrl_Clr_Int u32
  | Set_Filter bool "can_filter_item list" | Set_Priv u32 | Get_Status | Set_Status_Ind bool | Other_Cmd u32

record can_ops =
  configure :: "can_device \<Rightarrow> int \<times> can_device"
  control :: "can_cmd \<Rightarrow> can_device \<Rightarrow> int \<times> can_device"

abbreviation (input) RT_DEVICE_CAN_INT_ERR :: u32 where "RT_DEVICE_CAN_INT_ERR \<equiv> 0x1000"

definition zero_msg :: rt_can_msg where
  "zero_msg = \<lparr>can_id = 0, can_ide = 0, can_rtr = 0, can_len = 0, can_data = replicate 8 0, msg_priv = 0, msg_hdr = 0\<rparr>"

definition zero_filter :: can_filter_item where
  "zero_filter = \<lparr>fi_id = 0, fi_ide = False, fi_rtr = False, fi_mode = False, fi_mask = 0, fi_hdr = 0, fi_ind = False\<rparr>"

definition rx_fifo_init :: "u32 \<Rightarrow> can_rx_fifo" where
  "rx_fifo_init n = \<lparr>rx_nodes = replicate (unat n) \<lparr>node_msg = zero_msg, owner = None\<rparr>, freenumbers = n,
     freelist = [0..<unat n], uselist = []\<rparr>"

definition tx_fifo_init :: "u32 \<Rightarrow> can_tx_fifo" where
  "tx_fifo_init n = \<lparr>tx_boxes = replicate (unat n) \<lparr>box_result = 0, box_done = False\<rparr>, tx_sem = ucast n,
     tx_freelist = [0..<unat n]\<rparr>"

definition hdr_init :: rt_can_hdr where
  "hdr_init = \<lparr>connected = 0, hdr_msgs = 0, hdr_filter = zero_filter, hdr_list = []\<rparr>"

text \<open>\<open>rt_hw_can_register\<close> leaves the configuration as the driver wrote it.\<close>

definition rt_hw_can_register :: "can_device \<Rightarrow> can_device" where
  "rt_hw_can_register d = d\<lparr>rx_indicate := False, hdrs := None, dev_rx := None, dev_tx := None, status_ind := False,
     rcvpkg := 0, dropedrcvpkg := 0, sndpkg := 0, dropedsndpkg := 0, rcvchange := 0, sndchange := 0,
     timerinitflag := 0, timer_runs := False\<rparr>"

definition rt_can_init :: "can_ops \<Rightarrow> can_device \<Rightarrow> int \<times> can_device" where
  "rt_can_init ops d = configure ops (d\<lparr>dev_rx := None, dev_tx := None, hdrs := None\<rparr>)"

text \<open>\<open>got\<close> tells whether \<open>rt_malloc\<close> returns memory; the code asserts it. The results of \<open>ops->control\<close> are
  not looked at.\<close>

definition rt_can_open :: "can_ops \<Rightarrow> bool \<Rightarrow> u16 \<Rightarrow> can_device \<Rightarrow> (int \<times> can_device) option" where
  "rt_can_open ops got oflag d0 = (let ofl = ucast oflag :: u32; d = d0\<lparr>open_flag := ofl AND 0xff\<rparr> in do {
     d1 \<leftarrow> (if dev_rx d = None \<and> ofl AND RT_DEVICE_FLAG_INT_RX \<noteq> 0 then
              if got then
                Some (snd (control ops (Ctrl_Set_Int RT_DEVICE_FLAG_INT_RX)
                  (d\<lparr>dev_rx := Some (rx_fifo_init (msgboxsz d)), open_flag := open_flag d OR RT_DEVICE_FLAG_INT_RX\<rparr>)))
              else None
            else Some d);
     d2 \<leftarrow> (if dev_tx d1 = None \<and> ofl AND RT_DEVICE_FLAG_INT_TX \<noteq> 0 then
              if got \<and> sndboxnumber d1 < 0x10000 then
                Some (snd (control ops (Ctrl_Set_Int RT_DEVICE_FLAG_INT_TX)
                  (d1\<lparr>dev_tx := Some (tx_fifo_init (sndboxnumber d1)), open_flag := open_flag d1 OR RT_DEVICE_FLAG_INT_TX\<rparr>)))
              else None
            else Some d1);
     let d3 = snd (control ops (Ctrl_Set_Int RT_DEVICE_CAN_INT_ERR) d2);
     d4 \<leftarrow> (if hdrs d3 = None then
              if got then Some (d3\<lparr>hdrs := Some (replicate (unat (maxhdr d3)) hdr_init)\<rparr>) else None
            else Some d3);
     Some (RT_EOK, if timerinitflag d4 = 0 then d4\<lparr>timerinitflag := 1, timer_runs := True\<rparr> else d4)
   })"

text \<open>\<open>rt_can_close\<close>, up to the point where an interrupt may still come: the FIFO and the header table are freed
  before the driver is told to disable the interrupts.\<close>

definition can_close_rx :: "can_device \<Rightarrow> can_device option" where
  "can_close_rx d =
     (let d1 = (if timerinitflag d \<noteq> 0 then d\<lparr>timerinitflag := 0, timer_runs := False\<rparr> else d);
          d2 = d1\<lparr>status_ind := False, hdrs := None\<rparr> in
      if open_flag d2 AND RT_DEVICE_FLAG_INT_RX \<noteq> 0 then
        if dev_rx d2 = None then None
        else Some (d2\<lparr>open_flag := open_flag d2 AND NOT RT_DEVICE_FLAG_INT_RX, dev_rx := None\<rparr>)
      else Some d2)"

definition can_close_tx :: "can_device \<Rightarrow> can_device option" where
  "can_close_tx d =
     (if open_flag d AND RT_DEVICE_FLAG_INT_TX \<noteq> 0 then
        if dev_tx d = None then None
        else Some (d\<lparr>open_flag := open_flag d AND NOT RT_DEVICE_FLAG_INT_TX, dev_tx := None\<rparr>)
      else Some d)"

definition rt_can_close :: "can_ops \<Rightarrow> can_device \<Rightarrow> (int \<times> can_device) option" where
  "rt_can_close ops d =
     (if 1 < ref_count d then Some (RT_EOK, d)
      else do {
        d1 \<leftarrow> can_close_rx d;
        let d2 = (if open_flag d AND RT_DEVICE_FLAG_INT_RX \<noteq> 0
                  then snd (control ops (Ctrl_Clr_Int RT_DEVICE_FLAG_INT_RX) d1) else d1);
        d3 \<leftarrow> can_close_tx d2;
        let d4 = (if open_flag d2 AND RT_DEVICE_FLAG_INT_TX \<noteq> 0
                  then snd (control ops (Ctrl_Clr_Int RT_DEVICE_FLAG_INT_TX) d3) else d3);
        Some (RT_EOK, snd (control ops (Ctrl_Clr_Int RT_DEVICE_CAN_INT_ERR) d4))
      })"

section \<open>Filters\<close>

definition skip_item :: "can_filter_item \<Rightarrow> can_device \<Rightarrow> bool" where
  "skip_item item d \<longleftrightarrow> maxhdr d \<le> fi_hdr item \<or> sint (fi_hdr item) < 0"

definition can_connect :: "can_filter_item \<Rightarrow> can_device \<Rightarrow> can_device option" where
  "can_connect item d =
     (if skip_item item d then Some d
      else do {
        hs \<leftarrow> hdrs d;
        let h = unat (fi_hdr item);
        if connected (hs ! h) = 0 then
          if hdr_list (hs ! h) = []
          then Some (upd_hdr h (\<lambda>x. x\<lparr>hdr_filter := item, connected := 1, hdr_msgs := 0, hdr_list := []\<rparr>) d)
          else None
        else Some d
      })"

text \<open>Of the messages queued for the header only the first is unlinked.\<close>

definition can_disconnect :: "can_filter_item \<Rightarrow> can_device \<Rightarrow> can_device option" where
  "can_disconnect item d =
     (if skip_item item d then Some d
      else do {
        hs \<leftarrow> hdrs d;
        let h = unat (fi_hdr item);
        Some (if connected (hs ! h) \<noteq> 0
              then upd_hdr h (\<lambda>x. x\<lparr>connected := 0, hdr_msgs := 0, hdr_list := tl (hdr_list x), hdr_filter := zero_filter\<rparr>) d
              else d)
      })"

fun can_filter_items :: "(can_filter_item \<Rightarrow> can_device \<Rightarrow> can_device option) \<Rightarrow> can_filter_item list \<Rightarrow> can_device \<Rightarrow> can_device option" where
  "can_filter_items f [] d = Some d"
| "can_filter_items f (item # items) d = Option.bind (f item d) (can_filter_items f items)"

definition can_set_filter :: "can_ops \<Rightarrow> bool \<Rightarrow> can_filter_item list \<Rightarrow> can_device \<Rightarrow> (int \<times> can_device) option" where
  "can_set_filter ops actived items d =
     (let (res, d1) = control ops (Set_Filter actived items) d in
      if res \<noteq> RT_EOK \<or> hdrs d1 = None then Some (res, d1)
      else map_option (Pair res) (can_filter_items (if actived then can_connect else can_disconnect) items d1))"

section \<open>What the sections do to the lists\<close>

lemmas can_upd = upd_rx_def upd_hdr_def upd_node_def unlink_list_def unlink_hdr_def

definition hdr_gone :: "nat \<Rightarrow> nat option \<Rightarrow> nat \<Rightarrow> rt_can_hdr \<Rightarrow> rt_can_hdr" where
  "hdr_gone i own h x = x\<lparr>hdr_list := removeAll i (hdr_list x),
     hdr_msgs := (if own = Some h \<and> hdr_msgs x \<noteq> 0 then hdr_msgs x - 1 else hdr_msgs x)\<rparr>"

definition fifo_gone :: "nat \<Rightarrow> can_rx_fifo \<Rightarrow> can_rx_fifo" where
  "fifo_gone i f = f\<lparr>freelist := removeAll i (freelist f), uselist := removeAll i (uselist f),
     rx_nodes := (rx_nodes f)[i := (rx_nodes f ! i)\<lparr>owner := None\<rparr>]\<rparr>"

definition hdrs_gone :: "nat \<Rightarrow> nat option \<Rightarrow> rt_can_hdr list \<Rightarrow> rt_can_hdr list" where
  "hdrs_gone i own hs = map (\<lambda>h. hdr_gone i own h (hs ! h)) [0..<length hs]"

lemma length_hdrs_gone [simp]: "length (hdrs_gone i own hs) = length hs"
  and nth_hdrs_gone [simp]: "h < length hs \<Longrightarrow> hdrs_gone i own hs ! h = hdr_gone i own h (hs ! h)"
  by (simp_all add: hdrs_gone_def)

lemma hdrs_gone_None: "hdrs_gone i None hs = map (\<lambda>h. h\<lparr>hdr_list := removeAll i (hdr_list h)\<rparr>) hs"
  by (rule nth_equalityI) (simp_all add: hdr_gone_def)

lemma hdrs_gone_Some:
  "hdrs_gone i (Some h) hs = (let us = map (\<lambda>h. h\<lparr>hdr_list := removeAll i (hdr_list h)\<rparr>) hs in
     us[h := (us ! h)\<lparr>hdr_msgs := (if hdr_msgs (us ! h) \<noteq> 0 then hdr_msgs (us ! h) - 1 else hdr_msgs (us ! h))\<rparr>])"
proof (cases "h < length hs")
  case True
  then show ?thesis by (intro nth_equalityI) (auto simp: hdr_gone_def Let_def nth_list_update)
next
  case False
  then have "hdr_gone i (Some h) k (hs ! k) = (hs ! k)\<lparr>hdr_list := removeAll i (hdr_list (hs ! k))\<rparr>" if "k < length hs" for k
    using that by (simp add: hdr_gone_def)
  then show ?thesis using False by (intro nth_equalityI) (simp_all add: Let_def list_update_beyond)
qed

lemma msgs_dec_if: "(if hdr_msgs (us ! h) \<noteq> 0 then us[h := (us ! h)\<lparr>hdr_msgs := hdr_msgs (us ! h) - 1\<rparr>] else us)
    = us[h := (us ! h)\<lparr>hdr_msgs := (if hdr_msgs (us ! h) \<noteq> 0 then hdr_msgs (us ! h) - 1 else hdr_msgs (us ! h))\<rparr>]"
proof (cases "hdr_msgs (us ! h) = 0")
  case True
  then have "(us ! h)\<lparr>hdr_msgs := 0\<rparr> = us ! h" by simp
  then show ?thesis using True by (simp only: if_True if_False simp_thms list_update_id)
qed simp

text \<open>A detached node is in no list and has no owner.\<close>

lemma can_detach_eq:
  assumes "dev_rx d = Some f" "owner (rx_nodes f ! i) \<noteq> None \<longrightarrow> hdrs d \<noteq> None"
  shows "can_detach i d = Some (d\<lparr>dev_rx := Some (fifo_gone i f),
    hdrs := map_option (hdrs_gone i (owner (rx_nodes f ! i))) (hdrs d)\<rparr>)"
proof (cases "owner (rx_nodes f ! i)")
  case None
  then show ?thesis using assms(1)
    by (simp add: can_detach_def can_disown_def can_upd fifo_gone_def hdrs_gone_None cong: option.map_cong)
next
  case (Some h)
  then obtain hs where hs: "hdrs d = Some hs" using assms(2) by auto
  let ?us = "map (\<lambda>h. h\<lparr>hdr_list := removeAll i (hdr_list h)\<rparr>) hs"
  have "hdrs_gone i (Some h) hs = (if hdr_msgs (?us ! h) \<noteq> 0 then ?us[h := (?us ! h)\<lparr>hdr_msgs := hdr_msgs (?us ! h) - 1\<rparr>] else ?us)"
    unfolding msgs_dec_if hdrs_gone_Some Let_def ..
  then show ?thesis using assms(1) Some hs
    by (simp add: can_detach_def can_disown_def can_upd fifo_gone_def)
qed

text \<open>The list a reader takes from: a header's, or for \<open>hdr = -1\<close> the list of all messages.\<close>

definition hdr_source :: "u8 \<Rightarrow> can_device \<Rightarrow> nat list option" where
  "hdr_source hdr d = (if 0 \<le> sint hdr \<and> unat hdr < unat (maxhdr d)
     then map_option (\<lambda>hs. hdr_list (hs ! unat hdr)) (hdrs d) else None)"

definition read_list :: "u8 \<Rightarrow> can_device \<Rightarrow> can_rx_fifo \<Rightarrow> nat list" where
  "read_list hdr d f =
     (case hdr_source hdr d of Some (i # is) \<Rightarrow> i # is | _ \<Rightarrow> if hdr = - 1 then uselist f else [])"

text \<open>Taking from a header's list detaches its first node, which the header owns.\<close>

lemma can_take_eq:
  assumes f: "dev_rx d = Some f" and own: "\<And>hs h i. hdrs d = Some hs \<Longrightarrow> h < unat (maxhdr d) \<Longrightarrow> i \<in> set (hdr_list (hs ! h))
      \<Longrightarrow> owner (rx_nodes f ! i) = Some h"
    and len: "\<And>hs. hdrs d = Some hs \<Longrightarrow> length hs = unat (maxhdr d)"
  shows "can_take hdr d =
    (case read_list hdr d f of [] \<Rightarrow> Some (None, d) | i # _ \<Rightarrow> map_option (Pair (Some i)) (can_detach i d))"
proof (cases "\<exists>i is. hdr_source hdr d = Some (i # is)")
  case False
  then have "case hdr_source hdr d of Some (i # is) \<Rightarrow> False | _ \<Rightarrow> True" by (auto split: option.splits list.splits)
  then show ?thesis using f unfolding can_take_def hdr_source_def [symmetric] read_list_def
    by (auto split: option.splits list.splits)
next
  case True
  then obtain i "is" where q: "hdr_source hdr d = Some (i # is)" by blast
  then obtain hs where hs: "hdrs d = Some hs" "hdr_list (hs ! unat hdr) = i # is" "unat hdr < unat (maxhdr d)"
    unfolding hdr_source_def by (auto split: if_splits)
  then have o: "owner (rx_nodes f ! i) = Some (unat hdr)" using own [OF hs(1,3), of i] by simp
  have "hdrs_gone i (Some (unat hdr)) hs = (map (\<lambda>h. h\<lparr>hdr_list := removeAll i (hdr_list h)\<rparr>) hs)
    [unat hdr := (hs ! unat hdr)\<lparr>hdr_list := removeAll i (hdr_list (hs ! unat hdr)),
       hdr_msgs := (if hdr_msgs (hs ! unat hdr) \<noteq> 0 then hdr_msgs (hs ! unat hdr) - 1 else hdr_msgs (hs ! unat hdr))\<rparr>]"
    using len [OF hs(1)] hs(3) by (simp add: hdrs_gone_Some Let_def)
  then show ?thesis unfolding can_take_def hdr_source_def [symmetric] read_list_def q
    using f hs len [OF hs(1)] o by (simp add: can_detach_eq can_upd fifo_gone_def)
qed

section \<open>The invariant\<close>

text \<open>Every node is free, in use or held by a reader, and in one of them only; the free ones are counted.\<close>

definition nodes_ok :: "nat list \<Rightarrow> u32 \<Rightarrow> can_rx_fifo \<Rightarrow> bool" where
  "nodes_ok held n f \<longleftrightarrow> distinct (freelist f @ uselist f @ held)
     \<and> set (freelist f @ uselist f @ held) = {..<unat n} \<and> length (rx_nodes f) = unat n
     \<and> unat (freenumbers f) = length (freelist f)"

text \<open>A header's list is a part of the list of messages in use, in its order. \<open>ex\<close> adds what holds until
  a filter is disconnected: the list has every message the header owns, the count is its length, and a
  header that is not connected has none.\<close>

definition hdr_ok :: "bool \<Rightarrow> can_rx_fifo \<Rightarrow> nat \<Rightarrow> rt_can_hdr \<Rightarrow> bool" where
  "hdr_ok ex f h x \<longleftrightarrow> hdr_list x = filter (\<lambda>i. i \<in> set (hdr_list x)) (uselist f)
     \<and> (\<forall>i\<in>set (hdr_list x). owner (rx_nodes f ! i) = Some h) \<and> unat (hdr_msgs x) \<le> length (hdr_list x)
     \<and> (ex \<longrightarrow> unat (hdr_msgs x) = length (hdr_list x)
         \<and> (\<forall>i\<in>set (uselist f). owner (rx_nodes f ! i) = Some h \<longrightarrow> i \<in> set (hdr_list x))
         \<and> (connected x = 0 \<longrightarrow> hdr_list x = []))"

definition table_ok :: "bool \<Rightarrow> rt_can_hdr list option \<Rightarrow> u32 \<Rightarrow> can_rx_fifo \<Rightarrow> bool" where
  "table_ok ex ho m f \<longleftrightarrow>
     (\<forall>i<length (rx_nodes f). \<forall>h. owner (rx_nodes f ! i) = Some h \<longrightarrow>
        i \<in> set (uselist f) \<and> (case ho of None \<Rightarrow> False | Some hs \<Rightarrow> h < length hs))
     \<and> (case ho of None \<Rightarrow> True | Some hs \<Rightarrow> length hs = unat m \<and> (\<forall>h<length hs. hdr_ok ex f h (hs ! h)))"

definition can_ok :: "bool \<Rightarrow> nat list \<Rightarrow> can_device \<Rightarrow> bool" where
  "can_ok ex held d \<longleftrightarrow> (case dev_rx d of None \<Rightarrow> False
     | Some f \<Rightarrow> nodes_ok held (msgboxsz d) f \<and> table_ok ex (hdrs d) (maxhdr d) f)"

lemma hdr_ok_distinct: "hdr_ok ex f h x \<Longrightarrow> distinct (uselist f) \<Longrightarrow> distinct (hdr_list x)"
  by (metis hdr_ok_def distinct_filter)

lemma hdr_ok_subset: "hdr_ok ex f h x \<Longrightarrow> set (hdr_list x) \<subseteq> set (uselist f)"
  by (metis filter_is_subset hdr_ok_def)

lemma length_removeAll_distinct:
  "distinct xs \<Longrightarrow> length (removeAll x xs) = (if x \<in> set xs then length xs - 1 else length xs)"
  by (metis distinct_remove1_removeAll length_remove1)

lemma unat_minus_one_u32: "x \<noteq> 0 \<Longrightarrow> unat (x - 1 :: u32) = unat x - 1"
  by (simp add: unat_minus_one)

lemma hdr_okI:
  assumes "hdr_list x = L" "uselist f = U" "L = filter (\<lambda>i. i \<in> set L) U"
    "\<And>i. i \<in> set L \<Longrightarrow> owner (rx_nodes f ! i) = Some h" "unat (hdr_msgs x) \<le> length L"
    "ex \<Longrightarrow> unat (hdr_msgs x) = length L"
    "\<And>i. ex \<Longrightarrow> i \<in> set U \<Longrightarrow> owner (rx_nodes f ! i) = Some h \<Longrightarrow> i \<in> set L" "ex \<Longrightarrow> connected x = 0 \<Longrightarrow> L = []"
  shows "hdr_ok ex f h x"
  unfolding hdr_ok_def assms(1,2) using assms(3-) by blast

lemma hdr_ok_gone:
  assumes ok: "hdr_ok ex f h x" and d: "distinct (uselist f)" and i: "i < length (rx_nodes f)"
    and own: "owner (rx_nodes f ! i) = Some h \<Longrightarrow> i \<in> set (uselist f)"
  shows "hdr_ok ex (fifo_gone i f) h (hdr_gone i (owner (rx_nodes f ! i)) h x)"
proof -
  let ?L = "hdr_list x" and ?o = "owner (rx_nodes f ! i)"
  have L: "?L = filter (\<lambda>i. i \<in> set ?L) (uselist f)" "\<forall>i\<in>set ?L. owner (rx_nodes f ! i) = Some h"
    "unat (hdr_msgs x) \<le> length ?L"
    and em: "ex \<Longrightarrow> connected x = 0 \<Longrightarrow> ?L = []"
    and ex: "ex \<Longrightarrow> unat (hdr_msgs x) = length ?L" "ex \<Longrightarrow> j \<in> set (uselist f) \<Longrightarrow> owner (rx_nodes f ! j) = Some h \<Longrightarrow> j \<in> set ?L" for j
    using ok by (simp_all add: hdr_ok_def)
  have em': "ex \<Longrightarrow> connected (hdr_gone i ?o h x) = 0 \<Longrightarrow> removeAll i ?L = []" using em by (simp add: hdr_gone_def)
  have dist: "distinct ?L" by (rule hdr_ok_distinct [OF ok d])
  have "removeAll i ?L = filter (\<lambda>j. i \<noteq> j) (filter (\<lambda>j. j \<in> set ?L) (uselist f))"
    using L(1) by (simp add: removeAll_filter_not_eq)
  also have "\<dots> = filter (\<lambda>j. j \<in> set (removeAll i ?L)) (removeAll i (uselist f))"
    by (auto simp: removeAll_filter_not_eq intro: filter_cong)
  finally have 1: "removeAll i ?L = filter (\<lambda>j. j \<in> set (removeAll i ?L)) (removeAll i (uselist f))" .
  have nz: "?o = Some h \<Longrightarrow> ex \<Longrightarrow> i \<in> set ?L" using ex(2) own by blast
  have mem: "i \<in> set ?L \<Longrightarrow> ?o = Some h" using L(2) by blast
  have lt: "j \<in> set ?L \<Longrightarrow> j \<noteq> i \<Longrightarrow> (rx_nodes f)[i := n] ! j = rx_nodes f ! j" for j n by simp
  have m: "hdr_msgs x \<noteq> 0 \<Longrightarrow> unat (hdr_msgs x - 1) = unat (hdr_msgs x) - 1" by (rule unat_minus_one_u32)
  have z: "ex \<Longrightarrow> i \<in> set ?L \<Longrightarrow> hdr_msgs x \<noteq> 0"
  proof
    assume "ex" "i \<in> set ?L" "hdr_msgs x = 0"
    then show False using ex(1) by simp
  qed
  have "unat (hdr_msgs (hdr_gone i ?o h x)) \<le> length (removeAll i ?L)"
    using L(3) mem m unfolding length_removeAll_distinct [OF dist] by (auto simp: hdr_gone_def)
  moreover have "ex \<Longrightarrow> unat (hdr_msgs (hdr_gone i ?o h x)) = length (removeAll i ?L)"
    using ex(1) mem nz m z unfolding length_removeAll_distinct [OF dist]
    by (cases "i \<in> set ?L") (auto simp add: hdr_gone_def)
  ultimately show ?thesis
  proof (intro hdr_okI [OF _ _ 1])
    fix j assume "j \<in> set (removeAll i ?L)"
    with L(2) show "owner (rx_nodes (fifo_gone i f) ! j) = Some h" by (auto simp: fifo_gone_def)
  next
    fix j assume "ex" "j \<in> set (removeAll i (uselist f))" "owner (rx_nodes (fifo_gone i f) ! j) = Some h"
    then show "j \<in> set (removeAll i ?L)" using ex(2) by (auto simp: fifo_gone_def)
  next
    assume "ex" "connected (hdr_gone i ?o h x) = 0"
    then show "removeAll i ?L = []" by (rule em')
  qed (simp_all add: hdr_gone_def fifo_gone_def)
qed

lemma table_ok_gone:
  assumes ok: "table_ok ex ho m f" and d: "distinct (uselist f)" and i: "i < length (rx_nodes f)"
  shows "table_ok ex (map_option (hdrs_gone i (owner (rx_nodes f ! i))) ho) m (fifo_gone i f)"
proof -
  have own: "j < length (rx_nodes f) \<Longrightarrow> owner (rx_nodes f ! j) = Some h \<Longrightarrow>
      j \<in> set (uselist f) \<and> (case ho of None \<Rightarrow> False | Some hs \<Rightarrow> h < length hs)" for j h
    using ok by (auto simp: table_ok_def)
  have h: "hdr_ok ex f h (hs ! h)" if "ho = Some hs" "h < length hs" for hs h using ok that by (simp add: table_ok_def)
  have "hdr_ok ex (fifo_gone i f) h (hdr_gone i (owner (rx_nodes f ! i)) h (hs ! h))" if "ho = Some hs" "h < length hs" for hs h
    using hdr_ok_gone [OF h [OF that] d i] own [OF i] by blast
  moreover have "length hs = unat m" if "ho = Some hs" for hs using ok that by (simp add: table_ok_def)
  moreover have "\<forall>j<length (rx_nodes f). \<forall>k. owner (rx_nodes (fifo_gone i f) ! j) = Some k \<longrightarrow>
      j \<in> set (uselist (fifo_gone i f)) \<and> (case ho of None \<Rightarrow> False | Some hs \<Rightarrow> k < length hs)"
    using own i by (auto simp: fifo_gone_def nth_list_update split: if_splits)
  moreover have "length (rx_nodes (fifo_gone i f)) = length (rx_nodes f)" by (simp add: fifo_gone_def)
  ultimately show ?thesis unfolding table_ok_def by (cases ho) simp_all
qed

section \<open>What the sections do under the invariant\<close>

definition can_gone :: "nat \<Rightarrow> can_rx_fifo \<Rightarrow> can_device \<Rightarrow> can_device" where
  "can_gone i f d = d\<lparr>dev_rx := Some (fifo_gone i f), hdrs := map_option (hdrs_gone i (owner (rx_nodes f ! i))) (hdrs d)\<rparr>"

text \<open>The messages waiting to be read, the oldest first, each with the header that owns it.\<close>

definition node_entry :: "can_rx_fifo \<Rightarrow> nat \<Rightarrow> rt_can_msg \<times> nat option" where
  "node_entry f i = (node_msg (rx_nodes f ! i), owner (rx_nodes f ! i))"

lemma node_entry_free [simp]:
  "node_entry (f\<lparr>freenumbers := n\<rparr>) = node_entry f" "node_entry (f\<lparr>freelist := l\<rparr>) = node_entry f"
  by (rule ext, simp add: node_entry_def)+

definition can_queue :: "can_device \<Rightarrow> (rt_can_msg \<times> nat option) list" where
  "can_queue d = (case dev_rx d of None \<Rightarrow> [] | Some f \<Rightarrow> map (node_entry f) (uselist f))"

text \<open>What no section of a reader or of the interrupt changes.\<close>

definition can_same :: "can_device \<Rightarrow> can_device \<Rightarrow> bool" where
  "can_same d d' \<longleftrightarrow> msgboxsz d' = msgboxsz d \<and> maxhdr d' = maxhdr d \<and> open_flag d' = open_flag d
     \<and> ref_count d' = ref_count d \<and> rx_indicate d' = rx_indicate d \<and> dev_tx d' = dev_tx d
     \<and> map_option (map (\<lambda>h. (connected h, hdr_filter h))) (hdrs d') = map_option (map (\<lambda>h. (connected h, hdr_filter h))) (hdrs d)"

lemma can_same_refl [simp]: "can_same d d" by (simp add: can_same_def)

lemma can_same_trans: "can_same d d1 \<Longrightarrow> can_same d1 d2 \<Longrightarrow> can_same d d2" by (simp add: can_same_def)

lemma can_same_hdrs: "can_same d d' \<Longrightarrow> hdrs d' = None \<longleftrightarrow> hdrs d = None"
  by (cases "hdrs d"; cases "hdrs d'") (auto simp: can_same_def)

lemma hdrs_gone_conn: "map (\<lambda>h. (connected h, hdr_filter h)) (hdrs_gone i own hs) = map (\<lambda>h. (connected h, hdr_filter h)) hs"
  by (rule nth_equalityI) (simp_all add: hdr_gone_def)

lemma can_same_gone: "can_same d (can_gone i f d)"
  by (cases "hdrs d") (simp_all add: can_same_def can_gone_def hdrs_gone_conn)

lemma can_okE:
  assumes "can_ok ex held d"
  obtains f where "dev_rx d = Some f" "nodes_ok held (msgboxsz d) f" "table_ok ex (hdrs d) (maxhdr d) f"
  using assms by (auto simp: can_ok_def split: option.splits)

lemma can_okI:
  "dev_rx d = Some f \<Longrightarrow> nodes_ok held (msgboxsz d) f \<Longrightarrow> table_ok ex (hdrs d) (maxhdr d) f \<Longrightarrow> can_ok ex held d"
  by (simp add: can_ok_def)

lemma table_owner:
  assumes "table_ok ex ho m f" "i < length (rx_nodes f)" "owner (rx_nodes f ! i) = Some h"
  shows "i \<in> set (uselist f)" "ho \<noteq> None"
  using assms by (auto simp: table_ok_def split: option.splits)

lemma nodes_ok_D:
  assumes "nodes_ok held n f"
  shows "distinct (uselist f)" "distinct (freelist f)" "distinct held"
    "i \<in> set (uselist f) \<Longrightarrow> i < length (rx_nodes f) \<and> i \<notin> set (freelist f) \<and> i \<notin> set held"
    "i \<in> set (freelist f) \<Longrightarrow> i < length (rx_nodes f) \<and> i \<notin> set (uselist f) \<and> i \<notin> set held"
    "i \<in> set held \<Longrightarrow> i < length (rx_nodes f) \<and> i \<notin> set (uselist f) \<and> i \<notin> set (freelist f)"
    "length (freelist f) + length (uselist f) + length held = unat n"
proof -
  have d: "distinct (freelist f @ uselist f @ held)" and s: "set (freelist f @ uselist f @ held) = {..<unat n}"
    and l: "length (rx_nodes f) = unat n" using assms by (simp_all add: nodes_ok_def)
  show "distinct (uselist f)" "distinct (freelist f)" "distinct held" using d by simp_all
  have "card (set (freelist f @ uselist f @ held)) = unat n" unfolding s by simp
  then show "length (freelist f) + length (uselist f) + length held = unat n" unfolding distinct_card [OF d] by simp
  have b: "j \<in> set (freelist f @ uselist f @ held) \<Longrightarrow> j < length (rx_nodes f)" for j unfolding s l by simp
  show "i \<in> set (uselist f) \<Longrightarrow> i < length (rx_nodes f) \<and> i \<notin> set (freelist f) \<and> i \<notin> set held"
    "i \<in> set (freelist f) \<Longrightarrow> i < length (rx_nodes f) \<and> i \<notin> set (uselist f) \<and> i \<notin> set held"
    "i \<in> set held \<Longrightarrow> i < length (rx_nodes f) \<and> i \<notin> set (uselist f) \<and> i \<notin> set (freelist f)"
    using d b [of i] by auto
qed

text \<open>A node leaves the list of messages in use, or the free list, into the hands of the one that detached it.\<close>

lemma use_gone_ok:
  assumes ok: "nodes_ok held n f" and i: "i \<in> set (uselist f)"
  shows "nodes_ok (i # held) n (fifo_gone i f)"
proof -
  note D = nodes_ok_D [OF ok]
  have "removeAll i (freelist f) = freelist f" using D(4) [OF i] by (simp add: removeAll_id)
  then show ?thesis using ok i D(1,4) unfolding nodes_ok_def fifo_gone_def
    by (auto simp: distinct_removeAll)
qed

lemma free_gone_ok:
  assumes ok: "nodes_ok held n f" and i: "i \<in> set (freelist f)"
  shows "nodes_ok (i # held) n ((fifo_gone i f)\<lparr>freenumbers := freenumbers f - 1\<rparr>)" "0 < freenumbers f"
proof -
  note D = nodes_ok_D [OF ok]
  have u: "removeAll i (uselist f) = uselist f" using D(5) [OF i] by (simp add: removeAll_id)
  have c: "unat (freenumbers f) = length (freelist f)" using ok by (simp add: nodes_ok_def)
  then have nz: "freenumbers f \<noteq> 0" using i by auto
  then show "0 < freenumbers f" by (simp add: word_neq_0_conv)
  have "unat (freenumbers f - 1) = length (removeAll i (freelist f))"
    using unat_minus_one_u32 [OF nz] c i D(2) by (simp add: length_removeAll_distinct)
  then show "nodes_ok (i # held) n ((fifo_gone i f)\<lparr>freenumbers := freenumbers f - 1\<rparr>)"
    using ok i u D(5) unfolding nodes_ok_def fifo_gone_def by (auto simp: distinct_removeAll)
qed

lemma can_detach_ok:
  assumes "can_ok ex held d" "dev_rx d = Some f" "i < length (rx_nodes f)"
  shows "can_detach i d = Some (can_gone i f d)"
    and "table_ok ex (hdrs (can_gone i f d)) (maxhdr d) (fifo_gone i f)"
proof -
  have t: "nodes_ok held (msgboxsz d) f" "table_ok ex (hdrs d) (maxhdr d) f" using assms(1,2) by (auto elim: can_okE)
  show "can_detach i d = Some (can_gone i f d)"
    unfolding can_gone_def using table_owner(2) [OF t(2) assms(3)] by (intro can_detach_eq assms(2)) auto
  show "table_ok ex (hdrs (can_gone i f d)) (maxhdr d) (fifo_gone i f)"
    using table_ok_gone [OF t(2) nodes_ok_D(1) [OF t(1)] assms(3)] by (simp add: can_gone_def)
qed

lemma read_list_use:
  assumes "table_ok ex (hdrs d) (maxhdr d) f"
  shows "set (read_list hdr d f) \<subseteq> set (uselist f)"
proof -
  have "set (hdr_list (hs ! unat hdr)) \<subseteq> set (uselist f)" if "hdrs d = Some hs" "unat hdr < unat (maxhdr d)" for hs
    using hdr_ok_subset [of ex f "unat hdr" "hs ! unat hdr"] assms that by (simp add: table_ok_def)
  then have "hdr_source hdr d = Some l \<Longrightarrow> set l \<subseteq> set (uselist f)" for l
    by (auto simp: hdr_source_def split: if_splits)
  then show ?thesis by (cases "hdr_source hdr d") (auto simp: read_list_def split: list.split)
qed

lemma can_take_ok:
  assumes ok: "can_ok ex held d" and f: "dev_rx d = Some f"
  shows "read_list hdr d f = [] \<Longrightarrow> can_take hdr d = Some (None, d)"
    and "read_list hdr d f = i # is \<Longrightarrow> can_take hdr d = Some (Some i, can_gone i f d) \<and> can_ok ex (i # held) (can_gone i f d)
      \<and> i \<in> set (uselist f)"
proof -
  have t: "nodes_ok held (msgboxsz d) f" "table_ok ex (hdrs d) (maxhdr d) f" using ok f by (auto elim: can_okE)
  have eq: "can_take hdr d = (case read_list hdr d f of [] \<Rightarrow> Some (None, d) | i # _ \<Rightarrow> map_option (Pair (Some i)) (can_detach i d))"
    using t(2) by (intro can_take_eq f) (auto simp: table_ok_def hdr_ok_def)
  then show "read_list hdr d f = [] \<Longrightarrow> can_take hdr d = Some (None, d)" by simp
  assume r: "read_list hdr d f = i # is"
  then have i: "i \<in> set (uselist f)" using read_list_use [OF t(2), of hdr] by auto
  note n = nodes_ok_D(4) [OF t(1) i]
  have "can_ok ex (i # held) (can_gone i f d)"
    using use_gone_ok [OF t(1) i] can_detach_ok(2) [OF ok f, of i] n
    by (intro can_okI [of _ "fifo_gone i f"]) (simp_all add: can_gone_def)
  then show "can_take hdr d = Some (Some i, can_gone i f d) \<and> can_ok ex (i # held) (can_gone i f d) \<and> i \<in> set (uselist f)"
    using eq r i can_detach_ok(1) [OF ok f] n by simp
qed

lemma can_release_ok:
  assumes ok: "can_ok ex held d" and f: "dev_rx d = Some f" and i: "i \<in> set held"
  defines "d' \<equiv> d\<lparr>dev_rx := Some (f\<lparr>freelist := freelist f @ [i], freenumbers := freenumbers f + 1\<rparr>)\<rparr>"
  shows "can_release i d = Some d'" "can_ok ex (remove1 i held) d'"
proof -
  let ?f = "f\<lparr>freelist := freelist f @ [i], freenumbers := freenumbers f + 1\<rparr>"
  have t: "nodes_ok held (msgboxsz d) f" "table_ok ex (hdrs d) (maxhdr d) f" using ok f by (auto elim: can_okE)
  note D = nodes_ok_D [OF t(1)]
  have h: "length held \<noteq> 0" using i by auto
  have u: "unat (freenumbers f) + 1 \<le> unat (msgboxsz d)" using t(1) D(7) h unfolding nodes_ok_def by linarith
  then have s: "unat (freenumbers f + 1) = unat (freenumbers f) + 1" using unat_u32 [of "msgboxsz d"] by (simp add: unat_word_ariths)
  with u show "can_release i d = Some d'" using f by (simp add: can_release_def d'_def upd_rx_def word_le_nat_alt)
  have "nodes_ok (remove1 i held) (msgboxsz d) ?f"
    using t(1) i s D(3) D(6) [OF i] unfolding nodes_ok_def by (auto simp: distinct_remove1_removeAll distinct_removeAll)
  moreover have "table_ok ex (hdrs d) (maxhdr d) ?f"
    using t(2) by (simp add: table_ok_def hdr_ok_def cong: option.case_cong)
  ultimately show "can_ok ex (remove1 i held) d'" unfolding d'_def by (intro can_okI [of _ ?f]) simp_all
qed

lemma node_msg_disowned: "node_msg (xs[i := (xs ! i)\<lparr>owner := None\<rparr>] ! j) = node_msg (xs ! j)"
  by (cases "i < length xs"; cases "j = i") (simp_all add: list_update_beyond)

lemma can_copy_gone [simp]: "dev_rx d = Some f \<Longrightarrow> can_copy j (can_gone i f d) = can_copy j d"
  by (simp add: can_copy_def can_gone_def fifo_gone_def node_msg_disowned)

lemma can_queue_gone:
  assumes "dev_rx d = Some f"
  shows "can_queue (can_gone i f d) = map (node_entry f) (removeAll i (uselist f))"
  using assms by (auto simp: can_queue_def can_gone_def fifo_gone_def node_entry_def)

lemma can_queue_length: "dev_rx d = Some f \<Longrightarrow> length (can_queue d) = length (uselist f)"
  by (simp add: can_queue_def)

lemma owner_gone: "i < length (rx_nodes f) \<Longrightarrow> owner (rx_nodes (fifo_gone i f) ! i) = None"
  by (simp add: fifo_gone_def)

text \<open>The interrupt counts the message, and detaches a node while any is not held.\<close>

definition can_counted :: "can_device \<Rightarrow> can_device" where
  "can_counted d = d\<lparr>rcvpkg := rcvpkg d + 1, rcvchange := 1\<rparr>"

lemma can_counted_simps [simp]:
  "dev_rx (can_counted d) = dev_rx d" "can_queue (can_counted d) = can_queue d" "can_copy j (can_counted d) = can_copy j d"
  "can_same d (can_counted d)" "rcvpkg (can_counted d) = rcvpkg d + 1" "dropedrcvpkg (can_counted d) = dropedrcvpkg d"
  "can_ok ex held (can_counted d) = can_ok ex held d" "msgboxsz (can_counted d) = msgboxsz d"
  by (simp_all add: can_counted_def can_queue_def can_copy_def can_same_def can_ok_def cong: option.case_cong)

text \<open>What the interrupt has once it has its node: the node, as one more that is held, and the queue without the
  oldest message when there was no free node.\<close>

definition allocated :: "bool \<Rightarrow> nat list \<Rightarrow> can_device \<Rightarrow> nat \<Rightarrow> can_device \<Rightarrow> bool" where
  "allocated ex held d i d' \<longleftrightarrow> can_ok ex (i # held) d' \<and> can_same d d'
     \<and> (case dev_rx d' of None \<Rightarrow> False | Some f' \<Rightarrow> owner (rx_nodes f' ! i) = None)
     \<and> can_queue d' = newest (unat (msgboxsz d) - length held - 1) (can_queue d)
     \<and> (\<forall>j. can_copy j d' = can_copy j d) \<and> rcvpkg d' = rcvpkg d + 1
     \<and> dropedrcvpkg d' = dropedrcvpkg d + (if length (can_queue d) = unat (msgboxsz d) - length held then 1 else 0)"

lemma can_isr_alloc_cases:
  assumes "dev_rx d = Some f"
  shows "can_isr_alloc d = (let d1 = can_counted d in case freelist f of
        i # _ \<Rightarrow> Option.bind (can_detach i d1) (\<lambda>d2.
          if 0 < freenumbers f then Some (Some i, upd_rx (\<lambda>x. x\<lparr>freenumbers := freenumbers x - 1\<rparr>) d2) else None)
      | [] \<Rightarrow> (case uselist f of
             i # _ \<Rightarrow> map_option (Pair (Some i)) (can_detach i (d1\<lparr>dropedrcvpkg := dropedrcvpkg d + 1\<rparr>))
           | [] \<Rightarrow> Some (None, d1)))"
  using assms by (simp add: can_isr_alloc_def Let_def can_counted_def cong: list.case_cong)

lemma can_isr_alloc_free:
  assumes ok: "can_ok ex held d" and f: "dev_rx d = Some f" and u: "freelist f = i # is"
  shows "\<exists>d'. can_isr_alloc d = Some (Some i, d') \<and> allocated ex held d i d'"
proof -
  let ?d = "can_counted d"
  have t: "nodes_ok held (msgboxsz d) f" using ok f by (auto elim: can_okE)
  have okc: "can_ok ex held ?d" "dev_rx ?d = Some f" using ok f by simp_all
  have i: "i \<in> set (freelist f)" using u by simp
  note nd = nodes_ok_D(5) [OF t i]
  let ?f = "(fifo_gone i f)\<lparr>freenumbers := freenumbers f - 1\<rparr>"
  let ?e = "(can_gone i f ?d)\<lparr>dev_rx := Some ?f\<rparr>"
  have m: "msgboxsz ?e = msgboxsz d" "maxhdr ?e = maxhdr d" "hdrs ?e = hdrs (can_gone i f ?d)"
    "dropedrcvpkg ?e = dropedrcvpkg d" "rcvpkg ?e = rcvpkg d + 1"
    by (simp_all add: can_gone_def can_counted_def)
  have r: "can_isr_alloc d = Some (Some i, ?e)"
    using can_isr_alloc_cases [OF f] u can_detach_ok(1) [OF okc, of i] free_gone_ok(2) [OF t i] nd
    by (simp add: upd_rx_def can_gone_def fifo_gone_def)
  have "table_ok ex (hdrs (can_gone i f ?d)) (maxhdr d) ?f"
    using can_detach_ok(2) [OF okc, of i] nd
    by (simp add: table_ok_def hdr_ok_def can_counted_def cong: option.case_cong)
  then have "can_ok ex (i # held) ?e"
    using free_gone_ok(1) [OF t i] m by (intro can_okI [of _ ?f]) simp_all
  moreover have "can_same d ?e"
    using can_same_trans [OF can_counted_simps(4) can_same_gone, of d i f] by (simp add: can_same_def)
  moreover have "owner (rx_nodes ?f ! i) = None" using nd owner_gone by simp
  moreover have "can_queue ?e = can_queue d"
    using can_queue_gone [OF okc(2), of i] nd f by (simp add: can_queue_def can_gone_def removeAll_id)
  moreover have "can_copy j ?e = can_copy j d" for j
    using can_copy_gone [OF okc(2), of j i] by (simp add: can_copy_def can_gone_def)
  moreover have "length (can_queue d) < unat (msgboxsz d) - length held"
    using nodes_ok_D(7) [OF t] u by (simp add: can_queue_length [OF f])
  ultimately show ?thesis using m r by (intro exI [of _ ?e]) (simp add: allocated_def newest_short)
qed

lemma can_isr_alloc_use:
  assumes ok: "can_ok ex held d" and f: "dev_rx d = Some f" and n: "freelist f = []" and u: "uselist f = i # is"
  shows "\<exists>d'. can_isr_alloc d = Some (Some i, d') \<and> allocated ex held d i d'"
proof -
  let ?d2 = "(can_counted d)\<lparr>dropedrcvpkg := dropedrcvpkg d + 1\<rparr>"
  let ?e = "can_gone i f ?d2"
  have t: "nodes_ok held (msgboxsz d) f" using ok f by (auto elim: can_okE)
  have l: "length (uselist f) = unat (msgboxsz d) - length held" using nodes_ok_D(7) [OF t] n by simp
  have i: "i \<in> set (uselist f)" using u by simp
  note nd = nodes_ok_D(4) [OF t i]
  have "can_ok ex held (can_counted d)" "dev_rx (can_counted d) = Some f" using ok f by simp_all
  then have ok2: "can_ok ex held ?d2" "dev_rx ?d2 = Some f" by (simp_all add: can_ok_def)
  have m: "msgboxsz ?e = msgboxsz d" "maxhdr ?e = maxhdr d" "dropedrcvpkg ?e = dropedrcvpkg d + 1" "rcvpkg ?e = rcvpkg d + 1"
    "dev_rx ?e = Some (fifo_gone i f)"
    by (simp_all add: can_gone_def can_counted_def)
  have r: "can_isr_alloc d = Some (Some i, ?e)"
    using can_isr_alloc_cases [OF f] n u can_detach_ok(1) [OF ok2, of i] nd by simp
  have "can_ok ex (i # held) ?e"
    using use_gone_ok [OF t i] can_detach_ok(2) [OF ok2, of i] nd m
    by (intro can_okI [of _ "fifo_gone i f"]) (simp_all add: can_counted_def)
  moreover have "can_same d ?e"
    using can_same_trans [OF _ can_same_gone, of d ?d2 i f] by (simp add: can_same_def can_counted_def)
  moreover have "owner (rx_nodes (fifo_gone i f) ! i) = None" using nd owner_gone by simp
  moreover have "removeAll i (uselist f) = is" using u nodes_ok_D(1) [OF t] by (simp add: removeAll_id)
  then have "can_queue ?e = tl (can_queue d)"
    using can_queue_gone [OF ok2(2), of i] f u by (simp add: can_queue_def)
  moreover have "tl (can_queue d) = newest (unat (msgboxsz d) - length held - 1) (can_queue d)"
    using l u f by (simp add: newest_def can_queue_length drop_Suc flip: l)
  moreover have "can_copy j ?e = can_copy j d" for j
    using can_copy_gone [OF ok2(2), of j i] by (simp add: can_copy_def)
  ultimately show ?thesis using m r l by (intro exI [of _ ?e]) (simp add: allocated_def can_queue_length [OF f])
qed

lemma can_isr_alloc_ok:
  assumes ok: "can_ok ex held d" and n: "length held < unat (msgboxsz d)"
  shows "\<exists>i d'. can_isr_alloc d = Some (Some i, d') \<and> allocated ex held d i d'"
proof -
  obtain f where f: "dev_rx d = Some f" "nodes_ok held (msgboxsz d) f" using ok by (rule can_okE)
  have "freelist f \<noteq> [] \<or> uselist f \<noteq> []" using nodes_ok_D(7) [OF f(2)] n by auto
  then show ?thesis
    using can_isr_alloc_free [OF ok f(1)] can_isr_alloc_use [OF ok f(1)] by (cases "freelist f"; cases "uselist f") blast+
qed

definition fifo_linked :: "nat \<Rightarrow> rt_can_msg \<Rightarrow> nat option \<Rightarrow> can_rx_fifo \<Rightarrow> can_rx_fifo" where
  "fifo_linked i m own f = f\<lparr>rx_nodes := (rx_nodes f)[i := \<lparr>node_msg = m, owner = own\<rparr>], uselist := uselist f @ [i]\<rparr>"

lemma hdr_ok_other:
  assumes ok: "hdr_ok ex f h x" and i: "i \<notin> set (uselist f)" "i < length (rx_nodes f)" and own: "own \<noteq> Some h"
  shows "hdr_ok ex (fifo_linked i m own f) h x"
proof -
  let ?L = "hdr_list x"
  have L: "?L = filter (\<lambda>i. i \<in> set ?L) (uselist f)" "\<forall>i\<in>set ?L. owner (rx_nodes f ! i) = Some h"
    "unat (hdr_msgs x) \<le> length ?L" "ex \<Longrightarrow> unat (hdr_msgs x) = length ?L"
    and em: "ex \<Longrightarrow> connected x = 0 \<Longrightarrow> ?L = []"
    and ex: "ex \<Longrightarrow> j \<in> set (uselist f) \<Longrightarrow> owner (rx_nodes f ! j) = Some h \<Longrightarrow> j \<in> set ?L" for j
    using ok by (simp_all add: hdr_ok_def)
  have n: "i \<notin> set ?L" using hdr_ok_subset [OF ok] i by blast
  then have 1: "?L = filter (\<lambda>i. i \<in> set ?L) (uselist f @ [i])" using L(1) by simp
  show ?thesis
  proof (rule hdr_okI [OF refl _ 1])
    show "uselist (fifo_linked i m own f) = uselist f @ [i]" by (simp add: fifo_linked_def)
    fix j
    show "j \<in> set ?L \<Longrightarrow> owner (rx_nodes (fifo_linked i m own f) ! j) = Some h"
      using L(2) n by (cases "j = i") (simp_all add: fifo_linked_def)
    show "ex \<Longrightarrow> j \<in> set (uselist f @ [i]) \<Longrightarrow> owner (rx_nodes (fifo_linked i m own f) ! j) = Some h \<Longrightarrow> j \<in> set ?L"
      using ex own i by (auto simp: fifo_linked_def nth_list_update split: if_splits)
  qed (use L(3,4) em in simp_all)
qed

lemma hdr_ok_own:
  assumes ok: "hdr_ok ex f h x" and i: "i \<notin> set (uselist f)" "i < length (rx_nodes f)"
    and n: "distinct (uselist f)" "length (uselist f) < unat (n :: u32)" and conn: "connected x \<noteq> 0"
  shows "hdr_ok ex (fifo_linked i m (Some h) f) h (x\<lparr>hdr_list := hdr_list x @ [i], hdr_msgs := hdr_msgs x + 1\<rparr>)"
proof -
  let ?L = "hdr_list x"
  have L: "?L = filter (\<lambda>i. i \<in> set ?L) (uselist f)" "\<forall>i\<in>set ?L. owner (rx_nodes f ! i) = Some h"
    "unat (hdr_msgs x) \<le> length ?L" "ex \<Longrightarrow> unat (hdr_msgs x) = length ?L"
    and em: "ex \<Longrightarrow> connected x = 0 \<Longrightarrow> ?L = []"
    and ex: "ex \<Longrightarrow> j \<in> set (uselist f) \<Longrightarrow> owner (rx_nodes f ! j) = Some h \<Longrightarrow> j \<in> set ?L" for j
    using ok by (simp_all add: hdr_ok_def)
  have ni: "i \<notin> set ?L" using hdr_ok_subset [OF ok] i by blast
  have "filter (\<lambda>j. j \<in> set (?L @ [i])) (uselist f) = filter (\<lambda>j. j \<in> set ?L) (uselist f)"
    using i(1) by (intro filter_cong) auto
  also have "\<dots> = ?L" using L(1) by (rule sym)
  finally have 1: "?L @ [i] = filter (\<lambda>j. j \<in> set (?L @ [i])) (uselist f @ [i])" by simp
  have "length ?L \<le> length (uselist f)" by (subst L(1)) (rule length_filter_le)
  then have s: "unat (hdr_msgs x + 1) = unat (hdr_msgs x) + 1"
    using L(3) n(2) unat_u32 [of n] by (simp add: unat_word_ariths)
  show ?thesis
  proof (rule hdr_okI [OF _ _ 1])
    show "uselist (fifo_linked i m (Some h) f) = uselist f @ [i]" by (simp add: fifo_linked_def)
    fix j
    show "j \<in> set (?L @ [i]) \<Longrightarrow> owner (rx_nodes (fifo_linked i m (Some h) f) ! j) = Some h"
      using L(2) i(2) by (auto simp: fifo_linked_def nth_list_update)
    show "ex \<Longrightarrow> j \<in> set (uselist f @ [i]) \<Longrightarrow> owner (rx_nodes (fifo_linked i m (Some h) f) ! j) = Some h \<Longrightarrow> j \<in> set (?L @ [i])"
      using ex i by (auto simp: fifo_linked_def nth_list_update split: if_splits)
  qed (use L(3,4) s conn in simp_all)
qed

text \<open>The header that will own a message of header \<open>h\<close>, and the device with the message queued.\<close>

definition hdr_conn :: "can_device \<Rightarrow> nat \<Rightarrow> nat option" where
  "hdr_conn d h = (case hdrs d of None \<Rightarrow> None | Some hs \<Rightarrow> if h < length hs \<and> connected (hs ! h) \<noteq> 0 then Some h else None)"

definition can_linked :: "nat \<Rightarrow> rt_can_msg \<Rightarrow> can_rx_fifo \<Rightarrow> can_device \<Rightarrow> can_device" where
  "can_linked i m f d = (let h = unat (msg_hdr m) in
     d\<lparr>dev_rx := Some (fifo_linked i m (hdr_conn d h) f), hdrs := map_option (\<lambda>hs. if hdr_conn d h = None then hs
     else hs[h := (hs ! h)\<lparr>hdr_list := hdr_list (hs ! h) @ [i], hdr_msgs := hdr_msgs (hs ! h) + 1\<rparr>]) (hdrs d)\<rparr>)"

lemma can_same_conn: "can_same d d' \<Longrightarrow> hdr_conn d' h = hdr_conn d h"
proof -
  assume s: "can_same d d'"
  show ?thesis
  proof (cases "hdrs d")
    case None
    then show ?thesis using can_same_hdrs [OF s] by (simp add: hdr_conn_def)
  next
    case (Some hs)
    then obtain hs' where hs': "hdrs d' = Some hs'" using can_same_hdrs [OF s] by auto
    have "map (\<lambda>h. (connected h, hdr_filter h)) hs' = map (\<lambda>h. (connected h, hdr_filter h)) hs"
      using s Some hs' by (simp add: can_same_def)
    from arg_cong [OF this, of "map fst"] have c: "map connected hs' = map connected hs" by (simp add: comp_def)
    then have l: "length hs' = length hs" by (rule map_eq_imp_length_eq)
    have "connected (hs' ! h) = connected (hs ! h)" if "h < length hs"
      using arg_cong [OF c, of "\<lambda>xs. xs ! h"] that l by simp
    then show ?thesis using Some hs' l by (cases "h < length hs") (simp_all add: hdr_conn_def)
  qed
qed

lemma linked_ok:
  assumes ok: "can_ok ex (i # held) d" and f: "dev_rx d = Some f" and own: "owner (rx_nodes f ! i) = None"
  shows "can_ok ex held (can_linked i m f d)"
proof -
  define h where "h = unat (msg_hdr m)"
  let ?f = "fifo_linked i m (hdr_conn d h) f"
  let ?T = "\<lambda>hs. if hdr_conn d h = None then hs
     else hs[h := (hs ! h)\<lparr>hdr_list := hdr_list (hs ! h) @ [i], hdr_msgs := hdr_msgs (hs ! h) + 1\<rparr>]"
  have t: "nodes_ok (i # held) (msgboxsz d) f" "table_ok ex (hdrs d) (maxhdr d) f" using ok f by (auto elim: can_okE)
  note D = nodes_ok_D [OF t(1)]
  have i: "i \<notin> set (uselist f)" "i < length (rx_nodes f)" using D(6) [of i] by auto
  have lt: "length (uselist f) < unat (msgboxsz d)" using D(7) by simp
  have n: "nodes_ok held (msgboxsz d) ?f" using t(1) unfolding nodes_ok_def fifo_linked_def by auto
  have c: "\<forall>h'. hdr_conn d h = Some h' \<longrightarrow> h' = h \<and> (\<exists>hs. hdrs d = Some hs \<and> h < length hs)"
    by (auto simp: hdr_conn_def split: option.splits if_splits)
  have c2: "hdr_conn d h = Some k \<Longrightarrow> hdrs d = Some hs \<Longrightarrow> connected (hs ! k) \<noteq> 0" for k hs
    by (auto simp: hdr_conn_def split: if_splits)
  have "\<forall>j<length (rx_nodes f). \<forall>k. owner (rx_nodes ?f ! j) = Some k \<longrightarrow>
      j \<in> set (uselist ?f) \<and> (case hdrs d of None \<Rightarrow> False | Some hs \<Rightarrow> k < length hs)"
    using t(2) c i(2) by (auto simp: fifo_linked_def nth_list_update table_ok_def split: option.splits if_splits)
  moreover have "\<forall>k<length hs. hdr_ok ex ?f k (?T hs ! k)" if hs: "hdrs d = Some hs" for hs
  proof (intro allI impI)
    fix k assume k: "k < length hs"
    have o: "hdr_ok ex f k (hs ! k)" using t(2) hs k by (simp add: table_ok_def)
    show "hdr_ok ex ?f k (?T hs ! k)"
    proof (cases "hdr_conn d h = Some k")
      case True
      then show ?thesis using hdr_ok_own [OF o i D(1) lt c2 [OF True hs]] c True k by simp
    next
      case False
      then have "?T hs ! k = hs ! k" using c by (cases "hdr_conn d h") (auto simp: nth_list_update)
      then show ?thesis using hdr_ok_other [OF o i False] by simp
    qed
  qed
  moreover have "length (?T hs) = length hs" for hs by simp
  moreover have "length (rx_nodes ?f) = length (rx_nodes f)" by (simp add: fifo_linked_def)
  ultimately have "table_ok ex (hdrs (can_linked i m f d)) (maxhdr d) ?f"
    using t(2) unfolding table_ok_def can_linked_def h_def [symmetric] Let_def by (cases "hdrs d"; cases "hdr_conn d h") simp_all
  then show ?thesis using n by (intro can_okI [of _ ?f]) (simp_all add: can_linked_def h_def Let_def)
qed

lemma can_linked_simps:
  "can_same d (can_linked i m f d)" "rcvpkg (can_linked i m f d) = rcvpkg d"
  "dropedrcvpkg (can_linked i m f d) = dropedrcvpkg d"
proof -
  have "map (\<lambda>h. (connected h, hdr_filter h)) (hs[k := (hs ! k)\<lparr>hdr_list := l, hdr_msgs := n\<rparr>]) = map (\<lambda>h. (connected h, hdr_filter h)) hs"
    for hs k l n by (cases "k < length hs") (simp_all add: map_update list_update_same_conv list_update_beyond)
  then show "can_same d (can_linked i m f d)"
    by (cases "hdrs d"; cases "hdr_conn d (unat (msg_hdr m))") (simp_all add: can_same_def can_linked_def Let_def)
qed (simp_all add: can_linked_def Let_def)

lemma can_isr_link_ok:
  assumes ok: "can_ok ex (i # held) d" and own: "case dev_rx d of None \<Rightarrow> False | Some f \<Rightarrow> owner (rx_nodes f ! i) = None"
    and m: "hdrs d \<noteq> None \<Longrightarrow> 0 \<le> sint (msg_hdr m) \<and> unat (msg_hdr m) < unat (maxhdr d)"
  shows "\<exists>d'. can_isr_link i m d = Some d' \<and> can_ok ex held d' \<and> can_same d d' \<and> can_queue d' = can_queue d @ [(m, hdr_conn d (unat (msg_hdr m)))]
    \<and> (\<forall>j\<in>set held. can_copy j d' = can_copy j d) \<and> rcvpkg d' = rcvpkg d \<and> dropedrcvpkg d' = dropedrcvpkg d"
proof -
  obtain f where f: "dev_rx d = Some f" "nodes_ok (i # held) (msgboxsz d) f" "table_ok ex (hdrs d) (maxhdr d) f"
    using ok by (rule can_okE)
  let ?h = "unat (msg_hdr m)" and ?d' = "can_linked i m f d"
  have o: "owner (rx_nodes f ! i) = None" using own f(1) by simp
  have i: "i < length (rx_nodes f)" "i \<notin> set (uselist f)" "i \<notin> set held" using nodes_ok_D(3,6) [OF f(2)] by auto
  have len: "hdrs d = Some hs \<Longrightarrow> length hs = unat (maxhdr d)" for hs using f(3) by (simp add: table_ok_def)
  obtain n where nd: "rx_nodes f ! i = \<lparr>node_msg = n, owner = None\<rparr>" using o by (cases "rx_nodes f ! i") simp
  have "can_isr_link i m d = Some ?d'"
  proof (cases "hdrs d")
    case None
    then show ?thesis using f(1) nd
      by (simp add: can_isr_link_def can_upd can_linked_def fifo_linked_def hdr_conn_def Let_def)
  next
    case (Some hs)
    have l: "0 \<le> sint (msg_hdr m)" "?h < unat (maxhdr d)" "length hs = unat (maxhdr d)" using m len Some by simp_all
    show ?thesis
    proof (cases "connected (hs ! ?h) = 0")
      case True
      then show ?thesis using f(1) nd l Some
        by (simp add: can_isr_link_def can_upd can_linked_def fifo_linked_def hdr_conn_def Let_def)
    next
      case False
      then show ?thesis using f(1) nd l Some i(1)
        by (simp add: can_isr_link_def can_upd can_linked_def fifo_linked_def hdr_conn_def Let_def)
    qed
  qed
  moreover have "map (node_entry (fifo_linked i m own f)) (uselist f) = map (node_entry f) (uselist f)" for own
    using i(1,2) by (auto simp: node_entry_def fifo_linked_def nth_list_update)
  then have "can_queue ?d' = can_queue d @ [(m, hdr_conn d ?h)]"
    using f(1) i by (simp add: can_queue_def can_linked_def Let_def) (simp add: fifo_linked_def node_entry_def)
  moreover have "\<forall>j\<in>set held. can_copy j ?d' = can_copy j d"
    using f(1) i by (auto simp: can_copy_def can_linked_def fifo_linked_def Let_def nth_list_update)
  ultimately show ?thesis using linked_ok [OF ok f(1) o] can_linked_simps by blast
qed

lemma can_isr_indicate_some:
  "dev_rx d \<noteq> None \<Longrightarrow> hdr \<noteq> None \<or> hdrs d = None \<Longrightarrow> \<exists>ind. can_isr_indicate hdr d = Some ind"
  by (cases "hdrs d"; cases hdr) (auto simp: can_isr_indicate_def)

text \<open>The whole interrupt: with a node for it, the message is queued and the oldest one is dropped if need be.\<close>

lemma can_isr_rx_ok:
  assumes ok: "can_ok ex held d" and n: "length held < unat (msgboxsz d)" and fl: "open_flag d AND RT_DEVICE_FLAG_INT_RX \<noteq> 0"
    and m: "hdrs d \<noteq> None \<Longrightarrow> 0 \<le> sint (msg_hdr m) \<and> unat (msg_hdr m) < unat (maxhdr d)"
  shows "\<exists>ind d'. can_isr_rx (Some m) d = Some (ind, d') \<and> can_isr_indicate (Some (msg_hdr m)) d' = Some ind
    \<and> can_ok ex held d' \<and> can_same d d'
    \<and> can_queue d' = newest (unat (msgboxsz d) - length held) (can_queue d @ [(m, hdr_conn d (unat (msg_hdr m)))])
    \<and> (\<forall>j\<in>set held. can_copy j d' = can_copy j d) \<and> rcvpkg d' = rcvpkg d + 1
    \<and> dropedrcvpkg d' = dropedrcvpkg d + (if length (can_queue d) = unat (msgboxsz d) - length held then 1 else 0)"
proof -
  obtain f where f: "dev_rx d = Some f" "nodes_ok held (msgboxsz d) f" using ok by (rule can_okE)
  obtain i d1 where 1: "can_isr_alloc d = Some (Some i, d1)" "allocated ex held d i d1"
    using can_isr_alloc_ok [OF ok n] by blast
  have a: "can_ok ex (i # held) d1" "can_same d d1"
    "case dev_rx d1 of None \<Rightarrow> False | Some f' \<Rightarrow> owner (rx_nodes f' ! i) = None"
    "can_queue d1 = newest (unat (msgboxsz d) - length held - 1) (can_queue d)"
    "\<forall>j. can_copy j d1 = can_copy j d" "rcvpkg d1 = rcvpkg d + 1"
    "dropedrcvpkg d1 = dropedrcvpkg d + (if length (can_queue d) = unat (msgboxsz d) - length held then 1 else 0)"
    using 1(2) unfolding allocated_def by blast+
  have "hdrs d1 \<noteq> None \<Longrightarrow> 0 \<le> sint (msg_hdr m) \<and> unat (msg_hdr m) < unat (maxhdr d1)"
    using m can_same_hdrs [OF a(2)] a(2) by (simp add: can_same_def)
  from can_isr_link_ok [OF a(1,3) this] obtain d2 where 2: "can_isr_link i m d1 = Some d2" "can_ok ex held d2"
    "can_same d1 d2" "can_queue d2 = can_queue d1 @ [(m, hdr_conn d1 (unat (msg_hdr m)))]" "\<forall>j\<in>set held. can_copy j d2 = can_copy j d1"
    "rcvpkg d2 = rcvpkg d1" "dropedrcvpkg d2 = dropedrcvpkg d1" by blast
  have "dev_rx d2 \<noteq> None" using 2(2) by (auto elim: can_okE)
  then obtain ind where ind: "can_isr_indicate (Some (msg_hdr m)) d2 = Some ind" using can_isr_indicate_some by blast
  have "length (can_queue d) \<le> unat (msgboxsz d) - length held" using nodes_ok_D(7) [OF f(2)] by (simp add: can_queue_length [OF f(1)])
  then have "newest (unat (msgboxsz d) - length held - 1) (can_queue d) @ [x] = newest (unat (msgboxsz d) - length held) (can_queue d @ [x])" for x
    using n by (simp add: newest_def Suc_diff_le)
  moreover have "can_isr_rx (Some m) d = Some (ind, d2)" using f(1) fl 1(1) 2(1) ind by (simp add: can_isr_rx_def)
  moreover have "hdr_conn d1 (unat (msg_hdr m)) = hdr_conn d (unat (msg_hdr m))" using a(2) by (rule can_same_conn)
  ultimately show ?thesis using ind 2 a can_same_trans [OF a(2) 2(3)] by auto
qed

section \<open>Filters under the invariant\<close>

lemma upd_hdr_ok:
  assumes ok: "can_ok ex held d" and hs: "hdrs d = Some hs" and h: "h < length hs"
    and x: "\<And>f. dev_rx d = Some f \<Longrightarrow> distinct (uselist f) \<Longrightarrow> hdr_ok ex f h (hs ! h) \<Longrightarrow> hdr_ok ex' f h (g (hs ! h))"
    and ex: "ex' \<Longrightarrow> ex"
  shows "can_ok ex' held (upd_hdr h g d)"
proof -
  obtain f where f: "dev_rx d = Some f" "nodes_ok held (msgboxsz d) f" "table_ok ex (hdrs d) (maxhdr d) f"
    using ok by (rule can_okE)
  have k: "hdr_ok ex f k (hs ! k)" if "k < length hs" for k using f(3) hs that by (simp add: table_ok_def)
  have "\<forall>k<length hs. hdr_ok ex' f k (hs[h := g (hs ! h)] ! k)"
  proof (intro allI impI)
    fix j assume j: "j < length hs"
    show "hdr_ok ex' f j (hs[h := g (hs ! h)] ! j)"
    proof (cases "j = h")
      case True
      then show ?thesis using x [OF f(1) nodes_ok_D(1) [OF f(2)]] k [OF h] h by simp
    next
      case False
      then show ?thesis using k [OF j] ex by (simp add: hdr_ok_def)
    qed
  qed
  then have "table_ok ex' (Some (hs[h := g (hs ! h)])) (maxhdr d) f" using f(3) hs unfolding table_ok_def by auto
  then show ?thesis using f(1,2) hs by (intro can_okI [of _ f]) (simp_all add: upd_hdr_def)
qed

lemma skip_item_less: "\<not> skip_item item d \<Longrightarrow> unat (fi_hdr item) < unat (maxhdr d)"
  by (simp add: skip_item_def word_less_nat_alt not_le)

lemma can_ok_hdrs_length: "can_ok ex held d \<Longrightarrow> hdrs d = Some hs \<Longrightarrow> length hs = unat (maxhdr d)"
  by (auto elim!: can_okE simp: table_ok_def)

text \<open>A header is connected only while nothing is linked to it; before any filter has been disconnected that is
  always so.\<close>

lemma can_connect_ok:
  assumes ok: "can_ok ex held d" and r: "can_connect item d = Some d'"
  shows "can_ok ex held d' \<and> can_queue d' = can_queue d \<and> (\<forall>j. can_copy j d' = can_copy j d)
    \<and> dev_rx d' = dev_rx d \<and> maxhdr d' = maxhdr d \<and> msgboxsz d' = msgboxsz d \<and> open_flag d' = open_flag d"
proof (cases "skip_item item d")
  case True
  then show ?thesis using ok r by (simp add: can_connect_def)
next
  case False
  let ?h = "unat (fi_hdr item)"
  obtain hs where hs: "hdrs d = Some hs" using r False by (auto simp: can_connect_def bind_eq_Some_conv)
  have h: "?h < length hs" using skip_item_less [OF False] can_ok_hdrs_length [OF ok hs] by simp
  let ?g = "\<lambda>x. x\<lparr>hdr_filter := item, connected := 1, hdr_msgs := 0, hdr_list := []\<rparr>"
  show ?thesis
  proof (cases "connected (hs ! ?h) = 0")
    case True
    then have e: "hdr_list (hs ! ?h) = []" and d': "d' = upd_hdr ?h ?g d" using r False hs
      by (auto simp: can_connect_def Let_def split: if_splits)
    have "can_ok ex held (upd_hdr ?h ?g d)" by (rule upd_hdr_ok [OF ok hs h]) (auto simp: hdr_ok_def e)
    then show ?thesis using d' by (simp add: upd_hdr_def can_queue_def can_copy_def)
  qed (use ok r False hs in \<open>simp add: can_connect_def\<close>)
qed

lemma can_connect_some:
  assumes ok: "can_ok True held d" and hs: "hdrs d \<noteq> None"
  shows "\<exists>d'. can_connect item d = Some d'"
proof (cases "skip_item item d")
  case False
  let ?h = "unat (fi_hdr item)"
  obtain hs where hs: "hdrs d = Some hs" using hs by auto
  obtain f where f: "table_ok True (hdrs d) (maxhdr d) f" using ok by (rule can_okE)
  have "?h < length hs" using skip_item_less [OF False] can_ok_hdrs_length [OF ok hs] by simp
  then have "hdr_ok True f ?h (hs ! ?h)" using f hs by (simp add: table_ok_def)
  then have "connected (hs ! ?h) = 0 \<Longrightarrow> hdr_list (hs ! ?h) = []" unfolding hdr_ok_def by blast
  then show ?thesis using False hs by (simp add: can_connect_def Let_def)
qed (simp add: can_connect_def)

lemma tl_filter:
  assumes d: "distinct xs" and L: "L = filter (\<lambda>i. i \<in> set L) xs"
  shows "tl L = filter (\<lambda>i. i \<in> set (tl L)) xs"
proof (cases L)
  case (Cons a T)
  have "distinct L" by (subst L) (rule distinct_filter [OF d])
  then have a: "filter (\<lambda>i. i \<in> set T) L = T" unfolding Cons by simp
  have "filter (\<lambda>i. i \<in> set T) xs = filter (\<lambda>i. i \<in> set T) (filter (\<lambda>i. i \<in> set L) xs)"
    unfolding filter_filter Cons by (intro filter_cong) auto
  also have "\<dots> = T" unfolding L [symmetric] by (rule a)
  finally show ?thesis unfolding Cons by simp
qed simp

lemma hdr_ok_weaken: "hdr_ok ex f h x \<Longrightarrow> hdr_ok False f h x"
  unfolding hdr_ok_def by blast

lemma can_ok_weaken: "can_ok ex held d \<Longrightarrow> can_ok False held d"
  using hdr_ok_weaken by (auto simp: can_ok_def table_ok_def split: option.splits)

text \<open>Disconnecting keeps the weaker invariant; the stronger one only when nothing is queued for the header.\<close>

lemma can_disconnect_ok:
  assumes ok: "can_ok ex held d" and hs: "hdrs d \<noteq> None"
  shows "\<exists>d'. can_disconnect item d = Some d' \<and> can_ok False held d' \<and> can_queue d' = can_queue d"
proof (cases "skip_item item d")
  case True
  have "can_ok False held d" using ok by (rule can_ok_weaken)
  then show ?thesis using True by (simp add: can_disconnect_def)
next
  case False
  let ?h = "unat (fi_hdr item)"
  let ?g = "\<lambda>x. x\<lparr>connected := 0, hdr_msgs := 0, hdr_list := tl (hdr_list x), hdr_filter := zero_filter\<rparr>"
  obtain hs where hs: "hdrs d = Some hs" using hs by auto
  have h: "?h < length hs" using skip_item_less [OF False] can_ok_hdrs_length [OF ok hs] by simp
  have "can_ok False held (upd_hdr ?h ?g d)"
  proof (rule upd_hdr_ok [OF ok hs h])
    fix f assume d: "distinct (uselist f)" and o: "hdr_ok ex f ?h (hs ! ?h)"
    then have "hdr_list (hs ! ?h) = filter (\<lambda>i. i \<in> set (hdr_list (hs ! ?h))) (uselist f)" by (simp add: hdr_ok_def)
    from tl_filter [OF d this] show "hdr_ok False f ?h (?g (hs ! ?h))"
    proof (rule hdr_okI [rotated 2])
      fix i assume "i \<in> set (tl (hdr_list (hs ! ?h)))"
      then have "i \<in> set (hdr_list (hs ! ?h))" by (cases "hdr_list (hs ! ?h)") simp_all
      with o show "owner (rx_nodes f ! i) = Some ?h" unfolding hdr_ok_def by blast
    qed simp_all
  qed simp
  moreover have "can_ok False held d" using ok by (rule can_ok_weaken)
  ultimately show ?thesis using False hs by (simp add: can_disconnect_def upd_hdr_def can_queue_def Let_def)
qed

section \<open>Interleavings of readers and interrupts\<close>

text \<open>The sections as the steps of a system: readers, which hold the nodes they have taken and have not given
  back, the interrupt, and a filter that is connected. A step that cannot happen is skipped: only a node that
  is held is given back, and a message arrives while some node is not held (as many readers as nodes would
  have to be inside \<open>_can_int_rx\<close> otherwise) and with a header the driver computes from a filter bank.\<close>

datatype can_op = Take_Node u8 | Give_Back nat | Receive rt_can_msg | Connect_Hdr can_filter_item

record can_sys =
  sys_dev :: can_device
  sys_held :: "nat list"
  sys_out :: "rt_can_msg list"

definition drop_nth :: "nat \<Rightarrow> 'a list \<Rightarrow> 'a list" where
  "drop_nth p xs = take p xs @ drop (Suc p) xs"

fun can_may :: "can_op \<Rightarrow> can_sys \<Rightarrow> bool" where
  "can_may (Give_Back p) s \<longleftrightarrow> p < length (sys_held s)"
| "can_may (Receive m) s \<longleftrightarrow> length (sys_held s) < unat (msgboxsz (sys_dev s))
     \<and> 0 \<le> sint (msg_hdr m) \<and> unat (msg_hdr m) < unat (maxhdr (sys_dev s))"
| "can_may _ s \<longleftrightarrow> True"

fun can_exec :: "can_op \<Rightarrow> can_sys \<Rightarrow> can_sys option" where
  "can_exec (Take_Node hdr) s = do {
     (taken, d) \<leftarrow> can_take hdr (sys_dev s);
     Some (s\<lparr>sys_dev := d, sys_held := (case taken of None \<Rightarrow> sys_held s | Some i \<Rightarrow> i # sys_held s)\<rparr>)
   }"
| "can_exec (Give_Back p) s = do {
     m \<leftarrow> can_copy (sys_held s ! p) (sys_dev s);
     d \<leftarrow> can_release (sys_held s ! p) (sys_dev s);
     Some (s\<lparr>sys_dev := d, sys_held := drop_nth p (sys_held s), sys_out := sys_out s @ [m]\<rparr>)
   }"
| "can_exec (Receive m) s = do {
     (_, d) \<leftarrow> can_isr_rx (Some m) (sys_dev s);
     Some (s\<lparr>sys_dev := d\<rparr>)
   }"
| "can_exec (Connect_Hdr item) s = map_option (\<lambda>d. s\<lparr>sys_dev := d\<rparr>) (can_connect item (sys_dev s))"

fun can_run :: "can_op list \<Rightarrow> can_sys \<Rightarrow> can_sys option" where
  "can_run [] s = Some s"
| "can_run (op # ops) s = (if can_may op s then Option.bind (can_exec op s) (can_run ops) else can_run ops s)"

text \<open>The contract: a queue of messages, each marked with the connected header it belongs to, that keeps the newest
  ones; a reader gets the oldest message of its header, or for \<open>-1\<close> the oldest of all.\<close>

record can_spec =
  sp_queue :: "(rt_can_msg \<times> nat option) list"
  sp_held :: "rt_can_msg list"
  sp_conn :: "nat \<Rightarrow> bool"
  sp_out :: "rt_can_msg list"

definition wants :: "u8 \<Rightarrow> rt_can_msg \<times> nat option \<Rightarrow> bool" where
  "wants hdr e \<longleftrightarrow> hdr = - 1 \<or> 0 \<le> sint hdr \<and> snd e = Some (unat hdr)"

fun spec_exec :: "nat \<Rightarrow> nat \<Rightarrow> can_op \<Rightarrow> can_spec \<Rightarrow> can_spec" where
  "spec_exec n m (Take_Node hdr) s =
     (case List.extract (wants hdr) (sp_queue s) of
        None \<Rightarrow> s
      | Some (ys, e, zs) \<Rightarrow> s\<lparr>sp_queue := ys @ zs, sp_held := fst e # sp_held s\<rparr>)"
| "spec_exec n m (Give_Back p) s =
     (if p < length (sp_held s)
      then s\<lparr>sp_held := drop_nth p (sp_held s), sp_out := sp_out s @ [sp_held s ! p]\<rparr> else s)"
| "spec_exec n m (Receive msg) s =
     (let h = unat (msg_hdr msg) in
      if length (sp_held s) < n \<and> 0 \<le> sint (msg_hdr msg) \<and> h < m
      then s\<lparr>sp_queue := newest (n - length (sp_held s)) (sp_queue s @ [(msg, if sp_conn s h then Some h else None)])\<rparr>
      else s)"
| "spec_exec n m (Connect_Hdr item) s =
     (let h = unat (fi_hdr item) in
      if h < m \<and> 0 \<le> sint (fi_hdr item) then s\<lparr>sp_conn := (sp_conn s)(h := True)\<rparr> else s)"

definition can_abs :: "can_sys \<Rightarrow> can_spec" where
  "can_abs s = \<lparr>sp_queue = can_queue (sys_dev s), sp_held = map (\<lambda>i. the (can_copy i (sys_dev s))) (sys_held s),
     sp_conn = (\<lambda>h. hdr_conn (sys_dev s) h \<noteq> None), sp_out = sys_out s\<rparr>"

definition sys_ok :: "u32 \<Rightarrow> u32 \<Rightarrow> can_sys \<Rightarrow> bool" where
  "sys_ok n m s \<longleftrightarrow> can_ok True (sys_held s) (sys_dev s) \<and> msgboxsz (sys_dev s) = n \<and> maxhdr (sys_dev s) = m
     \<and> open_flag (sys_dev s) AND RT_DEVICE_FLAG_INT_RX \<noteq> 0 \<and> hdrs (sys_dev s) \<noteq> None"

lemma sint_minus_one_u8: "sint (- 1 :: u8) < 0" by simp

text \<open>Under the invariant a reader's list is what it wants of the queue.\<close>

lemma read_list_wants:
  assumes t: "table_ok True (hdrs d) (maxhdr d) f" and n: "nodes_ok held k f" and f: "dev_rx d = Some f"
  shows "read_list hdr d f = filter (\<lambda>i. wants hdr (node_entry f i)) (uselist f)"
proof (cases "0 \<le> sint hdr \<and> unat hdr < unat (maxhdr d) \<and> hdrs d \<noteq> None")
  case True
  then obtain hs where hs: "hdrs d = Some hs" by auto
  let ?x = "hs ! unat hdr"
  have "hdr_ok True f (unat hdr) ?x" using t hs True by (simp add: table_ok_def)
  then have l: "hdr_list ?x = filter (\<lambda>i. i \<in> set (hdr_list ?x)) (uselist f)"
    and o: "\<forall>i\<in>set (hdr_list ?x). owner (rx_nodes f ! i) = Some (unat hdr)"
    and b: "\<forall>i\<in>set (uselist f). owner (rx_nodes f ! i) = Some (unat hdr) \<longrightarrow> i \<in> set (hdr_list ?x)"
    unfolding hdr_ok_def by blast+
  have w: "wants hdr (node_entry f i) \<longleftrightarrow> owner (rx_nodes f ! i) = Some (unat hdr)" for i
    using True sint_minus_one_u8 by (auto simp: wants_def node_entry_def)
  have "filter (\<lambda>i. wants hdr (node_entry f i)) (uselist f) = filter (\<lambda>i. i \<in> set (hdr_list ?x)) (uselist f)"
    unfolding w using o b by (intro filter_cong) auto
  moreover have "read_list hdr d f = hdr_list ?x"
    using True hs sint_minus_one_u8 by (auto simp: read_list_def hdr_source_def split: list.split)
  ultimately show ?thesis using l by argo
next
  case False
  then have s: "hdr_source hdr d = None" by (auto simp: hdr_source_def)
  have "\<not> wants hdr (node_entry f i)" if "i \<in> set (uselist f)" "hdr \<noteq> - 1" for i
    using t False that nodes_ok_D(4) [OF n that(1)]
    by (auto simp: wants_def node_entry_def table_ok_def split: option.splits)
  then show ?thesis using s by (auto simp: read_list_def wants_def filter_empty_conv)
qed

lemma extract_filter:
  assumes "filter P xs = i # is" "distinct xs" "\<And>x. Q (g x) \<longleftrightarrow> P x"
  shows "\<exists>ys zs. List.extract Q (map g xs) = Some (ys, g i, zs) \<and> map g (removeAll i xs) = ys @ zs"
proof -
  obtain us vs where x: "xs = us @ i # vs" "\<forall>u\<in>set us. \<not> P u" "P i"
    using assms(1) by (auto simp: filter_eq_Cons_iff)
  then have "removeAll i xs = us @ vs" using assms(2) by (simp add: removeAll_id)
  moreover have "List.extract Q (map g xs) = Some (map g us, g i, map g vs)"
    using x assms(3) by (simp add: extract_Some_iff)
  ultimately show ?thesis by (intro exI [of _ "map g us"] exI [of _ "map g vs"]) simp
qed

lemma extract_none: "filter P xs = [] \<Longrightarrow> (\<And>x. Q (g x) \<longleftrightarrow> P x) \<Longrightarrow> List.extract Q (map g xs) = None"
  by (auto simp: extract_None_iff filter_empty_conv)

lemma drop_nth_remove1: "distinct xs \<Longrightarrow> p < length xs \<Longrightarrow> remove1 (xs ! p) xs = drop_nth p xs"
proof (induction xs arbitrary: p)
  case (Cons x xs)
  then show ?case by (cases p) (auto simp: drop_nth_def)
qed simp

lemma map_drop_nth: "map f (drop_nth p xs) = drop_nth p (map f xs)"
  by (simp add: drop_nth_def take_map drop_map)

text \<open>Each step does what the contract says.\<close>

lemma sys_same:
  assumes "sys_ok n m s" "can_same (sys_dev s) d" "can_ok True held d"
  shows "sys_ok n m (s\<lparr>sys_dev := d, sys_held := held\<rparr>)" "(\<lambda>h. hdr_conn d h \<noteq> None) = (\<lambda>h. hdr_conn (sys_dev s) h \<noteq> None)"
  using assms can_same_hdrs [OF assms(2)] can_same_conn [OF assms(2)] by (simp_all add: sys_ok_def can_same_def)

lemma take_sim:
  assumes ok: "sys_ok n m s"
  shows "\<exists>s'. can_exec (Take_Node hdr) s = Some s' \<and> sys_ok n m s' \<and> can_abs s' = spec_exec u v (Take_Node hdr) (can_abs s)"
proof -
  let ?d = "sys_dev s" and ?held = "sys_held s"
  have c: "can_ok True ?held ?d" using ok by (simp add: sys_ok_def)
  obtain f where f: "dev_rx ?d = Some f" "nodes_ok ?held (msgboxsz ?d) f" "table_ok True (hdrs ?d) (maxhdr ?d) f"
    using c by (rule can_okE)
  have q: "can_queue ?d = map (node_entry f) (uselist f)" using f(1) by (simp add: can_queue_def)
  note r = read_list_wants [OF f(3,2,1), of hdr]
  show ?thesis
  proof (cases "read_list hdr ?d f")
    case Nil
    then have "List.extract (wants hdr) (can_queue ?d) = None" unfolding q r by (rule extract_none) simp
    then show ?thesis using can_take_ok(1) [OF c f(1) Nil] ok by (simp add: can_abs_def)
  next
    case (Cons i "is")
    note t = can_take_ok(2) [OF c f(1) Cons]
    obtain ys zs where e: "List.extract (wants hdr) (can_queue ?d) = Some (ys, node_entry f i, zs)"
      "map (node_entry f) (removeAll i (uselist f)) = ys @ zs"
      using extract_filter [OF _ nodes_ok_D(1) [OF f(2)], of "\<lambda>i. wants hdr (node_entry f i)" i "is" "wants hdr" "node_entry f"]
        Cons r unfolding q by auto
    let ?s = "s\<lparr>sys_dev := can_gone i f ?d, sys_held := i # ?held\<rparr>"
    have "can_exec (Take_Node hdr) s = Some ?s" using t by simp
    moreover have "sys_ok n m ?s" using sys_same(1) [OF ok can_same_gone] t by blast
    moreover have "fst (node_entry f i) = the (can_copy i ?d)" using f(1) by (simp add: node_entry_def can_copy_def)
    then have "can_abs ?s = spec_exec u v (Take_Node hdr) (can_abs s)"
      using e f(1) sys_same(2) [OF ok can_same_gone, of "i # ?held" i f] t
      by (simp add: can_abs_def can_queue_gone [OF f(1)])
    ultimately show ?thesis by blast
  qed
qed

lemma give_sim:
  assumes ok: "sys_ok n m s" and p: "p < length (sys_held s)"
  shows "\<exists>s'. can_exec (Give_Back p) s = Some s' \<and> sys_ok n m s' \<and> can_abs s' = spec_exec u v (Give_Back p) (can_abs s)"
proof -
  let ?d = "sys_dev s" and ?held = "sys_held s"
  let ?i = "?held ! p"
  have c: "can_ok True ?held ?d" using ok by (simp add: sys_ok_def)
  obtain f where f: "dev_rx ?d = Some f" "nodes_ok ?held (msgboxsz ?d) f" using c by (rule can_okE)
  let ?e = "?d\<lparr>dev_rx := Some (f\<lparr>freelist := freelist f @ [?i], freenumbers := freenumbers f + 1\<rparr>)\<rparr>"
  have r: "can_release ?i ?d = Some ?e" "can_ok True (drop_nth p ?held) ?e"
    using can_release_ok [OF c f(1), of ?i] p drop_nth_remove1 [OF nodes_ok_D(3) [OF f(2)] p] by simp_all
  have same: "can_same ?d ?e" by (simp add: can_same_def)
  let ?m = "node_msg (rx_nodes f ! ?i)"
  let ?s = "s\<lparr>sys_dev := ?e, sys_held := drop_nth p ?held, sys_out := sys_out s @ [?m]\<rparr>"
  have "can_exec (Give_Back p) s = Some ?s" using r(1) f(1) by (simp add: can_copy_def)
  moreover have "sys_ok n m ?s" using sys_same(1) [OF ok same r(2)] by (simp add: sys_ok_def)
  moreover have "can_queue ?e = can_queue ?d" using f(1) by (simp add: can_queue_def node_entry_def)
  moreover have "can_copy j ?e = can_copy j ?d" for j using f(1) by (simp add: can_copy_def)
  moreover have "map (\<lambda>i. the (can_copy i ?d)) ?held ! p = ?m" using p f(1) by (simp add: can_copy_def)
  ultimately show ?thesis using sys_same(2) [OF ok same r(2)] p
    by (intro exI [of _ ?s]) (simp add: can_abs_def map_drop_nth)
qed

lemma receive_sim:
  assumes ok: "sys_ok n m s" and may: "can_may (Receive msg) s"
  shows "\<exists>s'. can_exec (Receive msg) s = Some s' \<and> sys_ok n m s'
    \<and> can_abs s' = spec_exec (unat n) (unat m) (Receive msg) (can_abs s)"
proof -
  let ?d = "sys_dev s" and ?held = "sys_held s" and ?h = "unat (msg_hdr msg)"
  have c: "can_ok True ?held ?d" "open_flag ?d AND RT_DEVICE_FLAG_INT_RX \<noteq> 0" "msgboxsz ?d = n" "maxhdr ?d = m"
    using ok by (simp_all add: sys_ok_def)
  obtain ind d where r: "can_isr_rx (Some msg) ?d = Some (ind, d)" "can_ok True ?held d" "can_same ?d d"
    "can_queue d = newest (unat n - length ?held) (can_queue ?d @ [(msg, hdr_conn ?d ?h)])"
    "\<forall>j\<in>set ?held. can_copy j d = can_copy j ?d"
    using can_isr_rx_ok [OF c(1) _ c(2), of msg] may c(3) by auto
  have "sys_ok n m (s\<lparr>sys_dev := d\<rparr>)" using sys_same(1) [OF ok r(3,2)] by (simp add: sys_ok_def)
  moreover have "(if hdr_conn ?d ?h \<noteq> None then Some ?h else None) = hdr_conn ?d ?h"
    by (auto simp: hdr_conn_def split: option.splits)
  then have "can_abs (s\<lparr>sys_dev := d\<rparr>) = spec_exec (unat n) (unat m) (Receive msg) (can_abs s)"
    using may r(4,5) c(3,4) sys_same(2) [OF ok r(3,2)] by (simp add: can_abs_def Let_def cong: if_cong)
  ultimately show ?thesis using r(1) by simp
qed

lemma connect_sim:
  assumes ok: "sys_ok n m s"
  shows "\<exists>s'. can_exec (Connect_Hdr item) s = Some s' \<and> sys_ok n m s'
    \<and> can_abs s' = spec_exec (unat n) (unat m) (Connect_Hdr item) (can_abs s)"
proof -
  let ?d = "sys_dev s" and ?held = "sys_held s" and ?h = "unat (fi_hdr item)"
  have c: "can_ok True ?held ?d" "maxhdr ?d = m" using ok by (simp_all add: sys_ok_def)
  obtain hs where hs: "hdrs ?d = Some hs" using ok by (auto simp: sys_ok_def)
  have l: "length hs = unat m" using can_ok_hdrs_length [OF c(1) hs] c(2) by simp
  obtain d where r: "can_connect item ?d = Some d" using can_connect_some [OF c(1)] hs by auto
  note k = can_connect_ok [OF c(1) r]
  have skip: "skip_item item ?d \<longleftrightarrow> \<not> (?h < unat m \<and> 0 \<le> sint (fi_hdr item))"
    using c(2) by (auto simp: skip_item_def word_le_nat_alt not_le not_less)
  have conn: "(\<lambda>h. hdr_conn d h \<noteq> None) = (if skip_item item ?d then (\<lambda>h. hdr_conn ?d h \<noteq> None)
      else (\<lambda>h. hdr_conn ?d h \<noteq> None)(?h := True))" and "hdrs d \<noteq> None"
    using r hs l skip by (auto simp: can_connect_def hdr_conn_def upd_hdr_def Let_def nth_list_update fun_eq_iff split: if_splits)
  have "sys_ok n m (s\<lparr>sys_dev := d\<rparr>)" using ok k \<open>hdrs d \<noteq> None\<close> by (simp add: sys_ok_def)
  moreover have "can_abs (s\<lparr>sys_dev := d\<rparr>) = spec_exec (unat n) (unat m) (Connect_Hdr item) (can_abs s)"
    using k conn skip by (simp add: can_abs_def Let_def)
  ultimately show ?thesis using r by simp
qed

lemma exec_sim:
  assumes ok: "sys_ok n m s" and may: "can_may op s"
  shows "\<exists>s'. can_exec op s = Some s' \<and> sys_ok n m s' \<and> can_abs s' = spec_exec (unat n) (unat m) op (can_abs s)"
proof (cases op)
  case (Take_Node hdr)
  show ?thesis unfolding Take_Node by (rule take_sim [OF ok])
next
  case (Give_Back p)
  then have "p < length (sys_held s)" using may by simp
  then show ?thesis unfolding Give_Back by (rule give_sim [OF ok])
next
  case (Receive msg)
  show ?thesis unfolding Receive by (rule receive_sim [OF ok may [unfolded Receive]])
next
  case (Connect_Hdr item)
  show ?thesis unfolding Connect_Hdr by (rule connect_sim [OF ok])
qed

lemma run_sim:
  assumes "sys_ok n m s"
  shows "\<exists>s'. can_run ops s = Some s' \<and> sys_ok n m s' \<and> can_abs s' = fold (spec_exec (unat n) (unat m)) ops (can_abs s)"
  using assms
proof (induction ops arbitrary: s)
  case (Cons op ops)
  have nm: "msgboxsz (sys_dev s) = n" "maxhdr (sys_dev s) = m" using Cons.prems by (simp_all add: sys_ok_def)
  show ?case
  proof (cases "can_may op s")
    case True
    then obtain s1 where 1: "can_exec op s = Some s1" "sys_ok n m s1" "can_abs s1 = spec_exec (unat n) (unat m) op (can_abs s)"
      using exec_sim [OF Cons.prems True] by blast
    then show ?thesis using Cons.IH [OF 1(2)] True by simp
  next
    case False
    then have "spec_exec (unat n) (unat m) op (can_abs s) = can_abs s"
      using nm by (cases op) (auto simp: can_abs_def Let_def)
    then show ?thesis using Cons False by simp
  qed
qed simp

section \<open>The device just opened\<close>

lemma rx_fifo_init_ok:
  "nodes_ok [] n (rx_fifo_init n)" "table_ok ex (Some (replicate (unat m) hdr_init)) m (rx_fifo_init n)"
proof -
  show "nodes_ok [] n (rx_fifo_init n)" by (auto simp: nodes_ok_def rx_fifo_init_def)
  have "hdr_ok ex (rx_fifo_init n) h hdr_init" for h
    by (rule hdr_okI [of _ "[]" _ "[]"]) (simp_all add: hdr_init_def rx_fifo_init_def)
  then show "table_ok ex (Some (replicate (unat m) hdr_init)) m (rx_fifo_init n)"
    by (simp add: table_ok_def rx_fifo_init_def)
qed

text \<open>The driver's \<open>RT_DEVICE_CTRL_SET_INT\<close> programs registers and leaves the framework's fields alone.\<close>

definition set_int_quiet :: "can_ops \<Rightarrow> bool" where
  "set_int_quiet ops \<longleftrightarrow> (\<forall>b d. snd (control ops (Ctrl_Set_Int b) d) = d)"

abbreviation (input) RX_TX :: u16 where "RX_TX \<equiv> 0x500"

lemma rt_can_open_fresh:
  assumes q: "set_int_quiet ops" and n: "sndboxnumber d < 0x10000"
    and r: "dev_rx d = None" "dev_tx d = None" "hdrs d = None"
  shows "\<exists>d0. rt_can_open ops True RX_TX d = Some (RT_EOK, d0) \<and> sys_ok (msgboxsz d) (maxhdr d) \<lparr>sys_dev = d0, sys_held = [], sys_out = []\<rparr>
    \<and> can_abs \<lparr>sys_dev = d0, sys_held = [], sys_out = []\<rparr> = \<lparr>sp_queue = [], sp_held = [], sp_conn = (\<lambda>_. False), sp_out = []\<rparr>
    \<and> dev_rx d0 = Some (rx_fifo_init (msgboxsz d)) \<and> dev_tx d0 = Some (tx_fifo_init (sndboxnumber d))
    \<and> hdrs d0 = Some (replicate (unat (maxhdr d)) hdr_init)"
proof -
  let ?d1 = "d\<lparr>open_flag := 0x500, dev_rx := Some (rx_fifo_init (msgboxsz d)), dev_tx := Some (tx_fifo_init (sndboxnumber d)),
    hdrs := Some (replicate (unat (maxhdr d)) hdr_init)\<rparr>"
  let ?d0 = "if timerinitflag d = 0 then ?d1\<lparr>timerinitflag := 1, timer_runs := True\<rparr> else ?d1"
  have "rt_can_open ops True RX_TX d = Some (RT_EOK, ?d0)"
    using q n r by (simp add: rt_can_open_def set_int_quiet_def Let_def)
  moreover have "can_ok True [] ?d0"
    using rx_fifo_init_ok by (intro can_okI [of _ "rx_fifo_init (msgboxsz d)"]) simp_all
  then have "sys_ok (msgboxsz d) (maxhdr d) \<lparr>sys_dev = ?d0, sys_held = [], sys_out = []\<rparr>" by (simp add: sys_ok_def)
  moreover have "hdr_conn ?d0 h = None" for h by (simp add: hdr_conn_def hdr_init_def)
  then have "can_abs \<lparr>sys_dev = ?d0, sys_held = [], sys_out = []\<rparr> = \<lparr>sp_queue = [], sp_held = [], sp_conn = (\<lambda>_. False), sp_out = []\<rparr>"
    by (simp add: can_abs_def can_queue_def rx_fifo_init_def)
  ultimately show ?thesis by (intro exI [of _ ?d0]) simp
qed

text \<open>The CAN device of the firmware: \<open>CANDEFAULTCONFIG\<close> and the two fields \<open>rt_hw_can_init\<close> sets.\<close>

definition demo_can :: can_device where
  "demo_can = \<lparr>msgboxsz = 16, sndboxnumber = 1, privmode = 0, maxhdr = 28, rcvpkg = 0, dropedrcvpkg = 0, sndpkg = 0,
     dropedsndpkg = 0, rcvchange = 0, sndchange = 0, hdrs = None, dev_rx = None, dev_tx = None, open_flag = 0, ref_count = 0,
     rx_indicate = False, dev_flag = 0, status_ind = False, timerinitflag = 0, timer_runs = False\<rparr>"

definition demo_ops :: can_ops where
  "demo_ops = \<lparr>configure = (\<lambda>d. (0, d)), control = (\<lambda>_ d. (0, d))\<rparr>"

lemma demo_quiet: "set_int_quiet demo_ops" by (simp add: set_int_quiet_def demo_ops_def)

section \<open>The properties\<close>



text \<open>Reading without an interrupt in between.\<close>

lemma can_int_rx_ok:
  assumes "can_ok ex [] d" "\<forall>b\<in>set bufs. msg_hdr b = - 1"
  shows "\<exists>d'. can_int_rx bufs (16 * int (length bufs)) d
      = Some (map fst (take (length bufs) (can_queue d)) @ drop (length (can_queue d)) bufs,
              16 * int (length bufs - length (can_queue d)), d')
    \<and> can_ok ex [] d' \<and> can_same d d' \<and> can_queue d' = drop (length bufs) (can_queue d)"
  using assms
proof (induction bufs arbitrary: d)
  case (Cons b bs)
  obtain f where f: "dev_rx d = Some f" "nodes_ok [] (msgboxsz d) f" using Cons.prems(1) by (rule can_okE)
  have q: "can_queue d = map (node_entry f) (uselist f)" using f(1) by (simp add: can_queue_def)
  have b: "msg_hdr b = - 1" using Cons.prems(2) by simp
  have r: "read_list (- 1) d f = uselist f" by (simp add: read_list_def hdr_source_def)
  show ?case
  proof (cases "uselist f")
    case Nil
    then show ?thesis using can_take_ok(1) [OF Cons.prems(1) f(1), of "- 1"] r b q Cons.prems(1) by simp
  next
    case (Cons i "is")
    let ?e = "can_gone i f d"
    have t: "can_take (- 1) d = Some (Some i, ?e)" "can_ok ex [i] ?e" using can_take_ok(2) [OF Cons.prems(1) f(1)] r Cons by auto
    have fe: "dev_rx ?e = Some (fifo_gone i f)" by (simp add: can_gone_def)
    let ?d = "?e\<lparr>dev_rx := Some ((fifo_gone i f)\<lparr>freelist := freelist (fifo_gone i f) @ [i], freenumbers := freenumbers (fifo_gone i f) + 1\<rparr>)\<rparr>"
    have rel: "can_release i ?e = Some ?d" "can_ok ex [] ?d" using can_release_ok [OF t(2) fe, of i] by simp_all
    have m: "can_copy i ?e = Some (node_msg (rx_nodes f ! i))"
      unfolding can_copy_gone [OF f(1)] using f(1) by (simp add: can_copy_def)
    have same: "can_same d ?d" using can_same_gone [of d i f] by (simp add: can_same_def)
    have "removeAll i (uselist f) = is" using Cons nodes_ok_D(1) [OF f(2)] by (simp add: removeAll_id)
    then have "can_queue ?d = map (node_entry f) is"
      using can_queue_gone [OF f(1), of i] by (simp add: can_queue_def can_gone_def node_entry_def)
    then have qd: "can_queue ?d = tl (can_queue d)" using q Cons by simp
    from Cons.IH [OF rel(2)] Cons.prems(2) obtain d' where d': "can_int_rx bs (16 * int (length bs)) ?d
      = Some (map fst (take (length bs) (can_queue ?d)) @ drop (length (can_queue ?d)) bs,
              16 * int (length bs - length (can_queue ?d)), d')"
      "can_ok ex [] d'" "can_same ?d d'" "can_queue d' = drop (length bs) (can_queue ?d)" by auto
    have "16 * int (length (b # bs)) - MSG_SIZE = 16 * int (length bs)" by simp
    then have "can_int_rx (b # bs) (16 * int (length (b # bs))) d = Some (node_msg (rx_nodes f ! i)
        # map fst (take (length bs) (can_queue ?d)) @ drop (length (can_queue ?d)) bs, 16 * int (length bs - length (can_queue ?d)), d')"
      using t(1) m rel(1) d'(1) b by simp
    then show ?thesis using d'(2,4) can_same_trans [OF same d'(3)] qd q Cons by (simp add: node_entry_def drop_Suc)
  qed
qed simp

lemma can_int_rx_overruns:
  assumes "can_ok ex [] d" "\<forall>b\<in>set bufs. msg_hdr b = - 1" "length bufs \<le> length (can_queue d)" "left mod 16 \<noteq> 0"
  shows "can_int_rx bufs left d = None"
  using assms
proof (induction bufs arbitrary: d left)
  case Nil
  then show ?case by auto
next
  case (Cons b bs)
  have l: "left \<noteq> 0" "(left - 16) mod 16 \<noteq> 0" using Cons.prems(4) by auto
  obtain d' where 1: "can_int_rx [b] 16 d = Some (map fst (take 1 (can_queue d)) @ drop (length (can_queue d)) [b], 0, d')"
    "can_ok ex [] d'" "can_queue d' = drop 1 (can_queue d)"
    using can_int_rx_ok [OF Cons.prems(1), of "[b]"] Cons.prems(2,3) by (auto simp: numeral_eq_Suc)
  then obtain i d1 m where t: "can_take (msg_hdr b) d = Some (Some i, d1)" "can_copy i d1 = Some m" "can_release i d1 = Some d'"
    by (auto simp: bind_eq_Some_conv split: option.splits)
  have "can_int_rx bs (left - 16) d' = None"
    using Cons.IH [OF 1(2)] Cons.prems(2,3) 1(3) l(2) by simp
  then show ?case using t l(1) by simp
qed

text \<open>\<open>rt_can_read\<close> with room for \<open>n\<close> messages whose \<open>hdr\<close> is \<open>-1\<close> delivers the \<open>n\<close> oldest messages, or all of them
  if there are fewer, in the order they came, leaves the rest of the buffer and of the queue as they were, and returns the bytes.\<close>

theorem can_read_delivers_oldest:
  assumes "can_ok ex [] d" "open_flag d AND RT_DEVICE_FLAG_INT_RX \<noteq> 0" "0 < ref_count d"
    "\<forall>b\<in>set bufs. msg_hdr b = - 1" "16 * length bufs < 2 ^ 31"
  shows "\<exists>d'. rt_can_read bufs (of_nat (16 * length bufs)) d
      = Some (map fst (take (length bufs) (can_queue d)) @ drop (length (can_queue d)) bufs,
              of_nat (16 * min (length bufs) (length (can_queue d))), d')
    \<and> can_ok ex [] d' \<and> can_queue d' = drop (length bufs) (can_queue d)"
proof -
  let ?n = "length bufs" and ?q = "can_queue d"
  obtain d' where d': "can_int_rx bufs (16 * int ?n) d = Some (map fst (take ?n ?q) @ drop (length ?q) bufs, 16 * int (?n - length ?q), d')"
    "can_ok ex [] d'" "can_queue d' = drop ?n ?q"
    using can_int_rx_ok [OF assms(1,4)] by blast
  have "unat (of_nat (16 * ?n) :: u32) = 16 * ?n" using assms(5) by (intro unat_word_of_nat) simp
  then have s: "sint (of_nat (16 * ?n) :: u32) = 16 * int ?n" using assms(5) by (subst sint_of_small) simp_all
  have "16 * int ?n - 16 * int (?n - length ?q) = int (16 * min ?n (length ?q))" by (simp add: min_def of_nat_diff)
  then have w: "(word_of_int (16 * int ?n - 16 * int (?n - length ?q)) :: u32) = of_nat (16 * min ?n (length ?q))"
    by (simp only: of_int_of_nat_eq)
  show ?thesis
  proof (cases "(of_nat (16 * ?n) :: u32) = 0")
    case True
    then have "?n = 0" using s by simp
    then show ?thesis using d' assms(1) by (simp add: rt_can_read_def)
  next
    case False
    then have "rt_can_read bufs (of_nat (16 * ?n)) d = Some (map fst (take ?n ?q) @ drop (length ?q) bufs,
        of_nat (16 * min ?n (length ?q)), d')"
      unfolding rt_can_read_def s d'(1) using assms(2,3) w by simp
    then show ?thesis using d'(2,3) by blast
  qed
qed

text \<open>A size that is not a multiple of the message size makes the loop pass the end of the caller's buffer once there
  are enough messages: it tests the bytes left for being 0, and they never are.\<close>

theorem can_read_overruns:
  assumes "can_ok ex [] d" "open_flag d AND RT_DEVICE_FLAG_INT_RX \<noteq> 0" "0 < ref_count d"
    "\<forall>b\<in>set bufs. msg_hdr b = - 1" "length bufs \<le> length (can_queue d)" "unat sz mod 16 \<noteq> 0" "unat sz < 2 ^ 31"
  shows "rt_can_read bufs sz d = None"
proof -
  have "sint sz = int (unat sz)" using assms(7) by (intro sint_of_small) simp
  then have "sint sz mod 16 \<noteq> 0" using assms(6) by presburger
  then have "can_int_rx bufs (sint sz) d = None" using can_int_rx_overruns assms(1,4,5) by blast
  moreover have "sz \<noteq> 0" using assms(6) by auto
  ultimately show ?thesis using assms(2,3) by (simp add: rt_can_read_def)
qed

definition demo_busy :: can_device where
  "demo_busy = demo_can\<lparr>msgboxsz := 2, maxhdr := 0, open_flag := 0x100, ref_count := 1, hdrs := Some [],
     dev_rx := Some \<lparr>rx_nodes = [\<lparr>node_msg = zero_msg\<lparr>can_id := 0x201\<rparr>, owner = None\<rparr>, \<lparr>node_msg = zero_msg\<lparr>can_id := 0x202\<rparr>, owner = None\<rparr>],
       freenumbers = 0, freelist = [], uselist = [1, 0]\<rparr>\<rparr>"

lemma demo_busy_ok: "can_ok True [] demo_busy"
proof -
  have "{..<2 :: nat} = {1, 0}" by auto
  then show ?thesis by (simp add: demo_busy_def demo_can_def can_ok_def nodes_ok_def table_ok_def nth_Cons')
qed

lemma demo_busy_queue: "can_queue demo_busy = [(zero_msg\<lparr>can_id := 0x202\<rparr>, None), (zero_msg\<lparr>can_id := 0x201\<rparr>, None)]"
  by (simp add: demo_busy_def can_queue_def node_entry_def)

theorem can_read_delivers_oldest_witness:
  "\<exists>d'. rt_can_read [zero_msg\<lparr>msg_hdr := - 1\<rparr>] 16 demo_busy = Some ([zero_msg\<lparr>can_id := 0x202\<rparr>], 16, d')
    \<and> can_ok True [] d' \<and> can_queue d' = [(zero_msg\<lparr>can_id := 0x201\<rparr>, None)]"
proof -
  have "open_flag demo_busy AND RT_DEVICE_FLAG_INT_RX \<noteq> 0" "0 < ref_count demo_busy" by (simp_all add: demo_busy_def)
  from can_read_delivers_oldest [OF demo_busy_ok this, of "[zero_msg\<lparr>msg_hdr := - 1\<rparr>]"] show ?thesis
    by (simp add: demo_busy_queue)
qed

theorem can_read_overruns_witness: "rt_can_read [zero_msg\<lparr>msg_hdr := - 1\<rparr>] 20 demo_busy = None"
proof -
  have "open_flag demo_busy AND RT_DEVICE_FLAG_INT_RX \<noteq> 0" "0 < ref_count demo_busy" by (simp_all add: demo_busy_def)
  from can_read_overruns [OF demo_busy_ok this, of "[zero_msg\<lparr>msg_hdr := - 1\<rparr>]" 20] show ?thesis
    by (simp add: demo_busy_queue)
qed

text \<open>A second \<open>rt_can_open\<close> of an open device clears the flag of interrupt reception, since only the branch that creates the FIFO
  sets it: reads return nothing from then on and the next reception fails its assertion. So does a reception that comes while
  \<open>rt_can_close\<close> has freed the FIFO and not yet told the driver to disable the interrupt.\<close>

theorem can_receive_breaks_after_reopen:
  assumes "set_int_quiet ops" "dev_rx d \<noteq> None" "dev_tx d \<noteq> None" "hdrs d \<noteq> None"
    "open_flag d AND RT_DEVICE_FLAG_INT_RX \<noteq> 0"
  shows "(\<exists>d'. rt_can_open ops got oflag d = Some (RT_EOK, d') \<and> dev_rx d' = dev_rx d
      \<and> (\<forall>bufs sz. rt_can_read bufs sz d' = Some (bufs, 0, d')) \<and> (\<forall>recv. can_isr_rx recv d' = None))
    \<and> (\<exists>d1. can_close_rx d = Some d1 \<and> (\<forall>recv. can_isr_rx recv d1 = None))"
proof
  let ?d1 = "d\<lparr>open_flag := ucast oflag AND 0xff\<rparr>"
  let ?d = "if timerinitflag d = 0 then ?d1\<lparr>timerinitflag := 1, timer_runs := True\<rparr> else ?d1"
  obtain f t hs where "dev_rx d = Some f" "dev_tx d = Some t" "hdrs d = Some hs" using assms(2-4) by auto
  then have "rt_can_open ops got oflag d = Some (RT_EOK, ?d)"
    using assms(1) by (simp add: rt_can_open_def set_int_quiet_def Let_def)
  moreover have "(ucast oflag AND 0xff) AND RT_DEVICE_FLAG_INT_RX = 0" by (simp add: and.assoc)
  then have "open_flag ?d AND RT_DEVICE_FLAG_INT_RX = 0" "dev_rx ?d = dev_rx d" by simp_all
  ultimately obtain d' where "rt_can_open ops got oflag d = Some (RT_EOK, d')" "dev_rx d' = dev_rx d"
    "open_flag d' AND RT_DEVICE_FLAG_INT_RX = 0" by blast
  then show "\<exists>d'. rt_can_open ops got oflag d = Some (RT_EOK, d') \<and> dev_rx d' = dev_rx d
      \<and> (\<forall>bufs sz. rt_can_read bufs sz d' = Some (bufs, 0, d')) \<and> (\<forall>recv. can_isr_rx recv d' = None)"
    by (intro exI [of _ d']) (simp add: rt_can_read_def can_isr_rx_def)
  show "\<exists>d1. can_close_rx d = Some d1 \<and> (\<forall>recv. can_isr_rx recv d1 = None)"
    using assms(2,5) by (simp add: can_close_rx_def can_isr_rx_def Let_def)
qed

theorem can_receive_breaks_after_reopen_witness:
  "(\<exists>d'. rt_can_open demo_ops True RX_TX (demo_busy\<lparr>dev_tx := Some (tx_fifo_init 1)\<rparr>) = Some (RT_EOK, d')
      \<and> dev_rx d' = dev_rx demo_busy
      \<and> (\<forall>bufs sz. rt_can_read bufs sz d' = Some (bufs, 0, d')) \<and> (\<forall>recv. can_isr_rx recv d' = None))
    \<and> (\<exists>d1. can_close_rx (demo_busy\<lparr>dev_tx := Some (tx_fifo_init 1)\<rparr>) = Some d1 \<and> (\<forall>recv. can_isr_rx recv d1 = None))"
proof -
  have "dev_rx (demo_busy\<lparr>dev_tx := Some (tx_fifo_init 1)\<rparr>) \<noteq> None" "dev_tx (demo_busy\<lparr>dev_tx := Some (tx_fifo_init 1)\<rparr>) \<noteq> None"
    "hdrs (demo_busy\<lparr>dev_tx := Some (tx_fifo_init 1)\<rparr>) \<noteq> None"
    "open_flag (demo_busy\<lparr>dev_tx := Some (tx_fifo_init 1)\<rparr>) AND RT_DEVICE_FLAG_INT_RX \<noteq> 0"
    by (simp_all add: demo_busy_def)
  from can_receive_breaks_after_reopen [OF demo_quiet this, of True RX_TX] show ?thesis by simp
qed

end
