(* ===== verification/CanSend.thy ===== *)
theory CanSend
  imports CanDevice "HOL-Library.Multiset"
begin

text \<open>
  The sending half of \<open>can.c\<close>: \<open>_can_int_tx\<close>, the transmission events of \<open>rt_hw_can_isr\<close>, and \<open>rt_can_control\<close>.
  A sender is a small machine whose state names the place in the loop where another thread or an interrupt may
  come in between; the steps of several senders and the events interleave freely. Waiting for the semaphore is
  a step that is possible while its value is not 0, waiting for the completion one that is possible once it is
  done; how a thread blocks and is woken is in \<open>Semaphore\<close> and \<open>Driver_Wait\<close>. The driver's \<open>sendmsg\<close> is an argument
  of the step: whether it accepts the message. \<open>None\<close> is as in \<open>CanDevice\<close>. The private mode, in which the caller
  names the mailbox and which the board's configuration switches off, is a machine of its own.
\<close>

section \<open>The sections of a sender\<close>

abbreviation (input) SND_OK :: u32 where "SND_OK \<equiv> 0"
abbreviation (input) SND_ERR :: u32 where "SND_ERR \<equiv> 1"
abbreviation (input) SND_WAIT :: u32 where "SND_WAIT \<equiv> 2"

definition upd_tx :: "(can_tx_fifo \<Rightarrow> can_tx_fifo) \<Rightarrow> can_device \<Rightarrow> can_device" where
  "upd_tx f d = d\<lparr>dev_tx := map_option f (dev_tx d)\<rparr>"

definition upd_box :: "nat \<Rightarrow> (can_box \<Rightarrow> can_box) \<Rightarrow> can_device \<Rightarrow> can_device" where
  "upd_box no f = upd_tx (\<lambda>x. x\<lparr>tx_boxes := (tx_boxes x)[no := f (tx_boxes x ! no)]\<rparr>)"

text \<open>The first node of the free list; of an empty list it would be the list head, which is not a box.\<close>

definition tx_take_box :: "can_device \<Rightarrow> (nat \<times> can_device) option" where
  "tx_take_box d = do {
     f \<leftarrow> dev_tx d;
     (case tx_freelist f of [] \<Rightarrow> None | no # nos \<Rightarrow> Some (no, upd_tx (\<lambda>x. x\<lparr>tx_freelist := nos\<rparr>) d))
   }"

definition tx_put_back :: "nat \<Rightarrow> can_device \<Rightarrow> can_device" where
  "tx_put_back no = upd_tx (\<lambda>x. x\<lparr>tx_freelist := no # tx_freelist x\<rparr>)"

definition tx_collect :: "nat \<Rightarrow> can_device \<Rightarrow> (u32 \<times> can_device) option" where
  "tx_collect no d = do {
     f \<leftarrow> dev_tx d;
     Some (box_result (tx_boxes f ! no), upd_tx (\<lambda>x. x\<lparr>tx_freelist := removeAll no (tx_freelist x) @ [no]\<rparr>) d)
   }"

text \<open>\<open>rt_sem_take\<close> on a value that is not 0, and \<open>rt_sem_release\<close> without waiters.\<close>

definition tx_sem_take :: "can_device \<Rightarrow> can_device" where
  "tx_sem_take = upd_tx (\<lambda>x. x\<lparr>tx_sem := tx_sem x - 1\<rparr>)"

definition tx_sem_release :: "can_device \<Rightarrow> can_device" where
  "tx_sem_release = upd_tx (\<lambda>x. x\<lparr>tx_sem := tx_sem x + 1\<rparr>)"

section \<open>The loop\<close>

text \<open>Where a sender is. \<open>At_Head\<close> is the loop's condition; \<open>Retry\<close> is before the \<open>rt_sem_release\<close> of the branch that
  goes on with \<open>continue\<close>, \<open>Collected\<close> before the one after the wait.\<close>

datatype tx_pc = At_Head | With_Token | Has_Box nat | Marked nat | Rejected nat | Retry | Waiting nat
  | Completed nat | Collected u32 | Counting u32 | Finished

record sender =
  snd_pc :: tx_pc
  snd_data :: "rt_can_msg list"
  snd_left :: int

text \<open>The senders, the device, and the messages the driver accepted with their mailbox.\<close>

record tx_sys =
  tx_dev :: can_device
  tx_senders :: "sender list"
  tx_log :: "(nat \<times> rt_can_msg) list"

text \<open>One step of a sender. \<open>ok\<close> is the driver's answer.\<close>

fun tx_step :: "bool \<Rightarrow> sender \<Rightarrow> can_device \<Rightarrow> (sender \<times> can_device \<times> (nat \<times> rt_can_msg) list) option" where
  "tx_step ok p d =
     (case snd_pc p of
        At_Head \<Rightarrow>
          if snd_left p = 0 then Some (p\<lparr>snd_pc := Finished\<rparr>, d, [])
          else Some (p\<lparr>snd_pc := With_Token\<rparr>, tx_sem_take d, [])
      | With_Token \<Rightarrow> map_option (\<lambda>(no, d1). (p\<lparr>snd_pc := Has_Box no\<rparr>, d1, [])) (tx_take_box d)
      | Has_Box no \<Rightarrow> Some (p\<lparr>snd_pc := Marked no\<rparr>, upd_box no (\<lambda>b. b\<lparr>box_result := SND_WAIT\<rparr>) d, [])
      | Marked no \<Rightarrow>
          (case snd_data p of
             [] \<Rightarrow> None
           | m # _ \<Rightarrow>
               if ok then Some (p\<lparr>snd_pc := Waiting no\<rparr>, d\<lparr>sndchange := 1\<rparr>, [(no, m)])
               else Some (p\<lparr>snd_pc := Rejected no\<rparr>, d, []))
      | Rejected no \<Rightarrow> Some (p\<lparr>snd_pc := Retry\<rparr>, tx_put_back no d, [])
      | Retry \<Rightarrow> Some (p\<lparr>snd_pc := At_Head\<rparr>, tx_sem_release d, [])
      | Waiting no \<Rightarrow> Some (p\<lparr>snd_pc := Completed no\<rparr>, upd_box no (\<lambda>b. b\<lparr>box_done := False\<rparr>) d, [])
      | Completed no \<Rightarrow> map_option (\<lambda>(r, d1). (p\<lparr>snd_pc := Collected r\<rparr>, d1, [])) (tx_collect no d)
      | Collected r \<Rightarrow> Some (p\<lparr>snd_pc := Counting r\<rparr>, tx_sem_release d, [])
      | Counting r \<Rightarrow>
          if r = SND_OK then
            (let left = snd_left p - MSG_SIZE in
             Some (p\<lparr>snd_pc := (if left = 0 then Finished else At_Head), snd_data := tl (snd_data p), snd_left := left\<rparr>,
                   d\<lparr>sndpkg := sndpkg d + 1\<rparr>, []))
          else Some (p\<lparr>snd_pc := Finished\<rparr>, d\<lparr>dropedsndpkg := dropedsndpkg d + 1\<rparr>, [])
      | Finished \<Rightarrow> Some (p, d, []))"

text \<open>The cases \<open>RT_CAN_EVENT_TX_DONE\<close> and \<open>RT_CAN_EVENT_TX_FAIL\<close>: \<open>rt_completion_done\<close> sets the flag.\<close>

definition can_isr_tx :: "bool \<Rightarrow> nat \<Rightarrow> can_device \<Rightarrow> can_device option" where
  "can_isr_tx done no d = do {
     f \<leftarrow> dev_tx d;
     if no < length (tx_boxes f)
     then Some (upd_box no (\<lambda>b. b\<lparr>box_result := (if done then SND_OK else SND_ERR), box_done := True\<rparr>) d)
     else None
   }"

text \<open>\<open>rt_hw_can_isr\<close>; \<open>recv\<close> is what \<open>ops->recvmsg\<close> fetches from FIFO \<open>event >> 8\<close>. The overflow event
  goes on into the case of a reception.\<close>

definition rt_hw_can_isr :: "(u32 \<Rightarrow> rt_can_msg option) \<Rightarrow> u32 \<Rightarrow> can_device \<Rightarrow> (can_ind \<times> can_device) option" where
  "rt_hw_can_isr recv event d =
     (let ev = event AND 0xff; no = signed_drop_bit 8 event in
      if ev = 0x06 then can_isr_rx (recv no) (d\<lparr>dropedrcvpkg := dropedrcvpkg d + 1\<rparr>)
      else if ev = 0x01 then can_isr_rx (recv no) d
      else if ev = 0x02 \<or> ev = 0x03 then map_option (Pair No_ind) (can_isr_tx (ev = 0x02) (unat no) d)
      else Some (No_ind, d))"

section \<open>Control\<close>

text \<open>The switch of the private mode moves the boxes out of the free list and the semaphore, and back.\<close>

fun priv_on :: "nat \<Rightarrow> nat \<Rightarrow> can_device \<Rightarrow> can_device option" where
  "priv_on i 0 d = Some d"
| "priv_on i (Suc n) d = do {
     f \<leftarrow> dev_tx d;
     priv_on (Suc i) n (if i \<in> set (tx_freelist f) then upd_tx (\<lambda>x. x\<lparr>tx_freelist := removeAll i (tx_freelist x)\<rparr>) d
                        else tx_sem_release d)
   }"

fun priv_off :: "nat \<Rightarrow> nat \<Rightarrow> can_device \<Rightarrow> can_device option" where
  "priv_off i 0 d = Some d"
| "priv_off i (Suc n) d = do {
     f \<leftarrow> dev_tx d;
     if box_result (tx_boxes f ! i) = SND_OK then
       if i \<in> set (tx_freelist f) then None
       else priv_off (Suc i) n (upd_tx (\<lambda>x. x\<lparr>tx_freelist := tx_freelist x @ [i]\<rparr>) d)
     else priv_off (Suc i) n d
   }"

definition can_set_priv :: "can_ops \<Rightarrow> u32 \<Rightarrow> can_device \<Rightarrow> (int \<times> can_device) option" where
  "can_set_priv ops v d =
     (if v \<noteq> privmode d then
        (let (res, d1) = control ops (Set_Priv v) d in
         if res \<noteq> RT_EOK then Some (res, d1)
         else map_option (Pair res)
           ((if privmode d1 \<noteq> 0 then priv_on else priv_off) 0 (unat (sndboxnumber d1)) d1))
      else Some (RT_EOK, d))"

definition rt_can_control :: "can_ops \<Rightarrow> can_cmd \<Rightarrow> can_device \<Rightarrow> (int \<times> can_device) option" where
  "rt_can_control ops cmd d =
     (case cmd of
        Ctrl_Suspend \<Rightarrow> Some (RT_EOK, d\<lparr>dev_flag := dev_flag d OR 0x20\<rparr>)
      | Ctrl_Resume \<Rightarrow> Some (RT_EOK, d\<lparr>dev_flag := dev_flag d AND NOT 0x20\<rparr>)
      | Ctrl_Config \<Rightarrow> Some (configure ops d)
      | Set_Priv v \<Rightarrow> can_set_priv ops v d
      | Set_Status_Ind b \<Rightarrow> Some (RT_EOK, d\<lparr>status_ind := b\<rparr>)
      | Set_Filter actived items \<Rightarrow> can_set_filter ops actived items d
      | _ \<Rightarrow> Some (control ops cmd d))"

text \<open>The periodic timer: the status is fetched from the driver, and the callback is told; the result says whether
  it was called.\<close>

definition cantimeout :: "can_ops \<Rightarrow> can_device \<Rightarrow> bool \<times> can_device" where
  "cantimeout ops d =
     (let d1 = snd (control ops Get_Status d) in
      (status_ind d1, if timerinitflag d1 = 1 then d1\<lparr>timerinitflag := 0xFF\<rparr> else d1))"

section \<open>Interleavings\<close>

datatype tx_ev = Go nat bool | Event bool nat

fun tx_may :: "tx_ev \<Rightarrow> tx_sys \<Rightarrow> bool" where
  "tx_may (Go t ok) s \<longleftrightarrow> t < length (tx_senders s) \<and>
     (case dev_tx (tx_dev s) of None \<Rightarrow> False
      | Some f \<Rightarrow> (case snd_pc (tx_senders s ! t) of
          At_Head \<Rightarrow> snd_left (tx_senders s ! t) = 0 \<or> tx_sem f \<noteq> 0
        | Waiting no \<Rightarrow> box_done (tx_boxes f ! no)
        | Finished \<Rightarrow> False
        | _ \<Rightarrow> True))"
| "tx_may (Event done no) s \<longleftrightarrow> (case dev_tx (tx_dev s) of None \<Rightarrow> False | Some f \<Rightarrow> no < length (tx_boxes f))"

fun tx_exec :: "tx_ev \<Rightarrow> tx_sys \<Rightarrow> tx_sys option" where
  "tx_exec (Go t ok) s = do {
     (p, d, l) \<leftarrow> tx_step ok (tx_senders s ! t) (tx_dev s);
     Some (s\<lparr>tx_dev := d, tx_senders := (tx_senders s)[t := p], tx_log := tx_log s @ l\<rparr>)
   }"
| "tx_exec (Event done no) s = map_option (\<lambda>d. s\<lparr>tx_dev := d\<rparr>) (can_isr_tx done no (tx_dev s))"

fun tx_run :: "tx_ev list \<Rightarrow> tx_sys \<Rightarrow> tx_sys option" where
  "tx_run [] s = Some s"
| "tx_run (e # es) s = (if tx_may e s then Option.bind (tx_exec e s) (tx_run es) else tx_run es s)"

section \<open>The private mode\<close>

text \<open>\<open>_can_int_tx_priv\<close>: a mailbox whose last result is not \<open>RT_CAN_SND_RESULT_OK\<close> is waited for.\<close>

datatype priv_pc = P_Head | P_Blocked nat | P_Marked nat | P_Waiting nat | P_Result nat | P_Finished

record priv_sender =
  prv_pc :: priv_pc
  prv_data :: "rt_can_msg list"
  prv_left :: int

fun priv_step :: "bool \<Rightarrow> priv_sender \<Rightarrow> can_device \<Rightarrow> (priv_sender \<times> can_device) option" where
  "priv_step ok p d =
     (case prv_pc p of
        P_Head \<Rightarrow>
          if prv_left p = 0 then Some (p\<lparr>prv_pc := P_Finished\<rparr>, d)
          else (case prv_data p of
             [] \<Rightarrow> None
           | m # _ \<Rightarrow> do {
               f \<leftarrow> dev_tx d;
               let no = unat (msg_priv m);
               Some (if unat (sndboxnumber d) \<le> no then (p\<lparr>prv_pc := P_Finished\<rparr>, d)
                     else if box_result (tx_boxes f ! no) \<noteq> SND_OK then (p\<lparr>prv_pc := P_Blocked no\<rparr>, d)
                     else (p\<lparr>prv_pc := P_Marked no\<rparr>, upd_box no (\<lambda>b. b\<lparr>box_result := SND_WAIT\<rparr>) d))
             })
      | P_Blocked no \<Rightarrow> Some (p\<lparr>prv_pc := P_Head\<rparr>, upd_box no (\<lambda>b. b\<lparr>box_done := False\<rparr>) d)
      | P_Marked no \<Rightarrow>
          if ok then Some (p\<lparr>prv_pc := P_Waiting no\<rparr>, d\<lparr>sndchange := 1\<rparr>)
          else Some (p\<lparr>prv_pc := P_Head\<rparr>, d)
      | P_Waiting no \<Rightarrow> Some (p\<lparr>prv_pc := P_Result no\<rparr>, upd_box no (\<lambda>b. b\<lparr>box_done := False\<rparr>) d)
      | P_Result no \<Rightarrow> do {
          f \<leftarrow> dev_tx d;
          if box_result (tx_boxes f ! no) = SND_OK then
            (let left = prv_left p - MSG_SIZE in
             Some (p\<lparr>prv_pc := (if left = 0 then P_Finished else P_Head), prv_data := tl (prv_data p), prv_left := left\<rparr>,
                   d\<lparr>sndpkg := sndpkg d + 1\<rparr>))
          else Some (p\<lparr>prv_pc := P_Finished\<rparr>, d\<lparr>dropedsndpkg := dropedsndpkg d + 1\<rparr>)
        }
      | P_Finished \<Rightarrow> Some (p, d))"

text \<open>The steps that wait for a completion are possible once it is done.\<close>

definition priv_may :: "priv_sender \<Rightarrow> can_device \<Rightarrow> bool" where
  "priv_may p d \<longleftrightarrow> (case dev_tx d of None \<Rightarrow> False
     | Some f \<Rightarrow> (case prv_pc p of
         P_Blocked no \<Rightarrow> box_done (tx_boxes f ! no)
       | P_Waiting no \<Rightarrow> box_done (tx_boxes f ! no)
       | P_Finished \<Rightarrow> False
       | _ \<Rightarrow> True))"

text \<open>The entry, \<open>rt_can_write\<close>: nothing to do, or the loop of either mode.\<close>

datatype write_entry = Write_Returns_0 | Write_Priv priv_sender | Write_Tx sender

definition rt_can_write :: "rt_can_msg list \<Rightarrow> u32 \<Rightarrow> can_device \<Rightarrow> write_entry" where
  "rt_can_write buf sz d =
     (if sz = 0 then Write_Returns_0
      else if open_flag d AND RT_DEVICE_FLAG_INT_TX \<noteq> 0 \<and> 0 < ref_count d then
        if privmode d \<noteq> 0 then Write_Priv \<lparr>prv_pc = P_Head, prv_data = buf, prv_left = sint sz\<rparr>
        else Write_Tx \<lparr>snd_pc = At_Head, snd_data = buf, snd_left = sint sz\<rparr>
      else Write_Returns_0)"

section \<open>The invariant\<close>

text \<open>The box a sender holds, and whether it has a token: a unit of the semaphore it has taken and not used, or a
  box it has put back and not announced.\<close>

fun holds :: "tx_pc \<Rightarrow> nat multiset" where
  "holds (Has_Box no) = {#no#}"
| "holds (Marked no) = {#no#}"
| "holds (Rejected no) = {#no#}"
| "holds (Waiting no) = {#no#}"
| "holds (Completed no) = {#no#}"
| "holds _ = {#}"

fun token :: "tx_pc \<Rightarrow> nat" where
  "token With_Token = 1"
| "token Retry = 1"
| "token (Collected r) = 1"
| "token _ = 0"

definition sender_ok :: "sender \<Rightarrow> bool" where
  "sender_ok p \<longleftrightarrow> snd_left p = 16 * int (length (snd_data p))
     \<and> (snd_pc p \<noteq> At_Head \<and> snd_pc p \<noteq> Finished \<longrightarrow> snd_data p \<noteq> [])"

text \<open>Of \<open>n\<close> boxes \<open>held\<close> are with senders and the rest is free; the semaphore's value and the \<open>tok\<close> tokens
  are as many as the free ones.\<close>

definition boxes_ok :: "nat \<Rightarrow> can_device \<Rightarrow> nat multiset \<Rightarrow> nat \<Rightarrow> bool" where
  "boxes_ok n d held tok \<longleftrightarrow> (case dev_tx d of None \<Rightarrow> False | Some f \<Rightarrow>
     mset (tx_freelist f) + held = mset [0..<n] \<and> unat (tx_sem f) + tok = length (tx_freelist f)
     \<and> length (tx_boxes f) = n \<and> n < 65536)"

definition tx_ok :: "nat \<Rightarrow> tx_sys \<Rightarrow> bool" where
  "tx_ok n s \<longleftrightarrow> boxes_ok n (tx_dev s) (\<Sum>p\<leftarrow>tx_senders s. holds (snd_pc p)) (\<Sum>p\<leftarrow>tx_senders s. token (snd_pc p))
     \<and> (\<forall>p\<in>set (tx_senders s). sender_ok p)"

lemma boxes_okE:
  assumes "boxes_ok n d held tok"
  obtains f where "dev_tx d = Some f" "mset (tx_freelist f) + held = mset [0..<n]"
    "unat (tx_sem f) + tok = length (tx_freelist f)" "length (tx_boxes f) = n" "n < 65536"
    "length (tx_freelist f) + size held = n" "distinct (tx_freelist f)" "set_mset held \<subseteq> {..<n}"
    "\<forall>no\<in>#held. no \<notin> set (tx_freelist f)"
proof -
  obtain f where f: "dev_tx d = Some f" "mset (tx_freelist f) + held = mset [0..<n]"
    "unat (tx_sem f) + tok = length (tx_freelist f)" "length (tx_boxes f) = n" "n < 65536"
    using assms by (auto simp: boxes_ok_def split: option.splits)
  have "size (mset (tx_freelist f) + held) = n" unfolding f(2) by simp
  then have s: "length (tx_freelist f) + size held = n" by simp
  have c: "count (mset (tx_freelist f)) x + count held x = count (mset [0..<n]) x" for x
    using arg_cong [OF f(2), of "\<lambda>m. count m x"] by simp
  have le: "count (mset [0..<n]) x \<le> 1" for x using distinct_count_atmost_1 [of "[0..<n]"] by simp
  have "distinct (tx_freelist f)"
    unfolding distinct_count_atmost_1
  proof
    fix x
    have "count (mset (tx_freelist f)) x \<le> 1" using c [of x] le [of x] by linarith
    moreover have "x \<in> set (tx_freelist f) \<longleftrightarrow> count (mset (tx_freelist f)) x \<noteq> 0" by (simp add: count_mset_0_iff)
    ultimately show "count (mset (tx_freelist f)) x = (if x \<in> set (tx_freelist f) then 1 else 0)" by presburger
  qed
  note d = this
  have "set_mset held \<subseteq> set_mset (mset [0..<n])" unfolding f(2) [symmetric] by simp
  then have h: "set_mset held \<subseteq> {..<n}" by auto
  have "no \<notin> set (tx_freelist f)" if "no \<in># held" for no
  proof
    assume "no \<in> set (tx_freelist f)"
    then have "0 < count (mset (tx_freelist f)) no" "0 < count held no" using that by simp_all
    then show False using c [of no] le [of no] by linarith
  qed
  then show thesis using that f s d h by blast
qed

text \<open>What the sections do to the boxes.\<close>

lemma sem_take_ok:
  assumes "boxes_ok n d held tok" "dev_tx d = Some f" "tx_sem f \<noteq> 0"
  shows "boxes_ok n (tx_sem_take d) held (Suc tok)"
proof -
  have "unat (tx_sem f - 1) = unat (tx_sem f) - 1" "0 < unat (tx_sem f)"
    using assms(3) by (simp_all add: unat_minus_one unat_gt_0)
  moreover have "unat (tx_sem f) + tok = length (tx_freelist f)" using assms(1,2) by (simp add: boxes_ok_def)
  ultimately have "unat (tx_sem f - 1) + Suc tok = length (tx_freelist f)" by linarith
  then show ?thesis using assms(1,2) by (simp add: boxes_ok_def tx_sem_take_def upd_tx_def)
qed

lemma sem_release_ok:
  assumes "boxes_ok n d held (Suc tok)"
  shows "boxes_ok n (tx_sem_release d) held tok"
proof -
  obtain f where f: "dev_tx d = Some f" "unat (tx_sem f) + Suc tok = length (tx_freelist f)" "n < 65536"
    "length (tx_freelist f) + size held = n" using assms by (rule boxes_okE)
  then have l: "unat (tx_sem f) < 65535" by linarith
  then have "unat (tx_sem f + 1) = unat (tx_sem f) + 1" by (simp add: unat_word_ariths)
  then show ?thesis using assms f by (simp add: boxes_ok_def tx_sem_release_def upd_tx_def)
qed

lemma take_box_ok:
  assumes "boxes_ok n d held (Suc tok)"
  shows "\<exists>no d'. tx_take_box d = Some (no, d') \<and> boxes_ok n d' (add_mset no held) tok \<and> no < n"
proof -
  obtain f where f: "dev_tx d = Some f" "unat (tx_sem f) + Suc tok = length (tx_freelist f)"
    "mset (tx_freelist f) + held = mset [0..<n]" using assms by (rule boxes_okE)
  then obtain no nos where l: "tx_freelist f = no # nos" by (cases "tx_freelist f") auto
  have "no \<in># mset (tx_freelist f) + held" using l by simp
  then have "no < n" unfolding f(3) by simp
  then show ?thesis using assms f l
    by (simp add: tx_take_box_def boxes_ok_def upd_tx_def)
qed

lemma put_back_ok: "boxes_ok n d (add_mset no held) tok \<Longrightarrow> boxes_ok n (tx_put_back no d) held (Suc tok)"
  by (auto simp: boxes_ok_def tx_put_back_def upd_tx_def split: option.splits)

lemma collect_ok:
  assumes "boxes_ok n d (add_mset no held) tok"
  shows "\<exists>r d'. tx_collect no d = Some (r, d') \<and> boxes_ok n d' held (Suc tok)"
proof -
  obtain f where f: "dev_tx d = Some f" "\<forall>x\<in>#add_mset no held. x \<notin> set (tx_freelist f)" using assms by (rule boxes_okE)
  then have "removeAll no (tx_freelist f) = tx_freelist f" by (simp add: removeAll_id)
  then show ?thesis using assms f(1) by (simp add: tx_collect_def boxes_ok_def upd_tx_def)
qed

lemma upd_box_ok: "boxes_ok n d held tok \<Longrightarrow> boxes_ok n (upd_box no g d) held tok"
  by (auto simp: boxes_ok_def upd_box_def upd_tx_def split: option.splits)

lemma boxes_ok_stat [simp]:
  "boxes_ok n (d\<lparr>sndchange := c\<rparr>) held tok = boxes_ok n d held tok"
  "boxes_ok n (d\<lparr>sndpkg := c\<rparr>) held tok = boxes_ok n d held tok"
  "boxes_ok n (d\<lparr>dropedsndpkg := c\<rparr>) held tok = boxes_ok n d held tok"
  by (simp_all add: boxes_ok_def)

text \<open>One step of a sender, with everything the others hold.\<close>

definition step_may :: "sender \<Rightarrow> can_device \<Rightarrow> bool" where
  "step_may p d \<longleftrightarrow> (case dev_tx d of None \<Rightarrow> False
      | Some f \<Rightarrow> (case snd_pc p of
          At_Head \<Rightarrow> snd_left p = 0 \<or> tx_sem f \<noteq> 0
        | Waiting no \<Rightarrow> box_done (tx_boxes f ! no)
        | Finished \<Rightarrow> False
        | _ \<Rightarrow> True))"

lemma tx_step_ok:
  assumes b: "boxes_ok n d (holds (snd_pc p) + H) (token (snd_pc p) + K)" and p: "sender_ok p" and may: "step_may p d"
  shows "\<exists>p' d' l. tx_step ok p d = Some (p', d', l) \<and> sender_ok p' \<and> boxes_ok n d' (holds (snd_pc p') + H) (token (snd_pc p') + K)"
proof (cases "snd_pc p")
  case At_Head
  obtain f where f: "dev_tx d = Some f" using b by (rule boxes_okE)
  show ?thesis
  proof (cases "snd_left p = 0")
    case True
    then show ?thesis using At_Head b p by (simp add: sender_ok_def)
  next
    case False
    then have "tx_sem f \<noteq> 0" using may f At_Head by (simp add: step_may_def)
    then show ?thesis using sem_take_ok [OF b f] At_Head False p by (simp add: sender_ok_def)
  qed
next
  case With_Token
  then show ?thesis using take_box_ok [of n d H K] b p by (auto simp: sender_ok_def)
next
  case (Has_Box no)
  then show ?thesis using upd_box_ok [OF b] p by (simp add: sender_ok_def)
next
  case (Marked no)
  then obtain m ms where "snd_data p = m # ms" using p by (cases "snd_data p") (simp_all add: sender_ok_def)
  then show ?thesis using Marked b p by (simp add: sender_ok_def)
next
  case (Rejected no)
  then show ?thesis using put_back_ok [of n d no H K] b p by (simp add: sender_ok_def)
next
  case Retry
  then show ?thesis using sem_release_ok [of n d H K] b p by (simp add: sender_ok_def)
next
  case (Waiting no)
  then show ?thesis using upd_box_ok [OF b] p by (simp add: sender_ok_def)
next
  case (Completed no)
  then show ?thesis using collect_ok [of n d no H K] b p by (auto simp: sender_ok_def)
next
  case (Collected r)
  then show ?thesis using sem_release_ok [of n d H K] b p by (simp add: sender_ok_def)
next
  case (Counting r)
  then obtain m ms where "snd_data p = m # ms" using p by (cases "snd_data p") (simp_all add: sender_ok_def)
  then show ?thesis using Counting b p by (simp add: sender_ok_def Let_def)
next
  case Finished
  then show ?thesis using may by (simp add: step_may_def split: option.splits)
qed

lemma tx_may_step: "tx_may (Go t ok) s \<longleftrightarrow> t < length (tx_senders s) \<and> step_may (tx_senders s ! t) (tx_dev s)"
  by (simp add: step_may_def)

lemma tx_exec_ok:
  assumes ok: "tx_ok n s" and may: "tx_may e s"
  shows "\<exists>s'. tx_exec e s = Some s' \<and> tx_ok n s'"
proof (cases e)
  case (Go t a)
  let ?ps = "tx_senders s"
  let ?p = "?ps ! t"
  have t: "t < length ?ps" "step_may ?p (tx_dev s)" using may tx_may_step unfolding Go by blast+
  define us vs where "us = take t ?ps" and "vs = drop (Suc t) ?ps"
  have ps: "?ps = us @ ?p # vs" using t(1) by (simp add: us_def vs_def id_take_nth_drop)
  have upd: "?ps[t := q] = us @ q # vs" for q using t(1) by (simp add: us_def vs_def upd_conv_take_nth_drop)
  let ?H = "(\<Sum>p\<leftarrow>us @ vs. holds (snd_pc p))" and ?K = "(\<Sum>p\<leftarrow>us @ vs. token (snd_pc p))"
  have sums: "(\<Sum>p\<leftarrow>us @ q # vs. holds (snd_pc p)) = holds (snd_pc q) + ?H"
    "(\<Sum>p\<leftarrow>us @ q # vs. token (snd_pc p)) = token (snd_pc q) + ?K" for q by simp_all
  have b: "boxes_ok n (tx_dev s) (holds (snd_pc ?p) + ?H) (token (snd_pc ?p) + ?K)"
    using ok ps sums [of ?p] by (metis tx_ok_def)
  have p: "sender_ok ?p" using ok t(1) by (simp add: tx_ok_def)
  obtain p' d' l where r: "tx_step a ?p (tx_dev s) = Some (p', d', l)" "sender_ok p'"
    "boxes_ok n d' (holds (snd_pc p') + ?H) (token (snd_pc p') + ?K)"
    using tx_step_ok [OF b p t(2), of a] by blast
  have "\<forall>q\<in>set (us @ p' # vs). sender_ok q"
    using ok r(2) by (auto simp: tx_ok_def us_def vs_def dest: in_set_takeD in_set_dropD)
  then have "tx_ok n (s\<lparr>tx_dev := d', tx_senders := ?ps[t := p'], tx_log := tx_log s @ l\<rparr>)"
    using r(3) unfolding upd tx_ok_def sums [of p', symmetric] by simp
  then show ?thesis using r(1) unfolding Go by simp
next
  case (Event b no)
  obtain f where "dev_tx (tx_dev s) = Some f" "no < length (tx_boxes f)"
    using may Event by (auto split: option.splits)
  then show ?thesis using ok upd_box_ok Event by (auto simp: tx_ok_def can_isr_tx_def)
qed

lemma tx_run_ok: "tx_ok n s \<Longrightarrow> \<exists>s'. tx_run es s = Some s' \<and> tx_ok n s'"
proof (induction es arbitrary: s)
  case (Cons e es)
  show ?case
  proof (cases "tx_may e s")
    case True
    then obtain s1 where "tx_exec e s = Some s1" "tx_ok n s1" using tx_exec_ok Cons.prems by blast
    then show ?thesis using Cons.IH True by simp
  qed (use Cons in simp)
qed simp

text \<open>The system after \<open>rt_can_open\<close>, with callers of \<open>rt_can_write\<close> at the head of the loop.\<close>

definition caller :: "rt_can_msg list \<Rightarrow> sender" where
  "caller ms = \<lparr>snd_pc = At_Head, snd_data = ms, snd_left = 16 * int (length ms)\<rparr>"

definition tx_start :: "can_device \<Rightarrow> rt_can_msg list list \<Rightarrow> tx_sys" where
  "tx_start d mss = \<lparr>tx_dev = d, tx_senders = map caller mss, tx_log = []\<rparr>"

lemma rt_can_write_caller:
  assumes "open_flag d AND RT_DEVICE_FLAG_INT_TX \<noteq> 0" "0 < ref_count d" "privmode d = 0" "ms \<noteq> []" "16 * length ms < 2 ^ 31"
  shows "rt_can_write ms (of_nat (16 * length ms)) d = Write_Tx (caller ms)"
proof -
  have "unat (of_nat (16 * length ms) :: u32) = 16 * length ms" using assms(5) by (intro unat_word_of_nat) simp
  then have s: "sint (of_nat (16 * length ms) :: u32) = 16 * int (length ms)" using assms(5) by (subst sint_of_small) simp_all
  moreover have "(of_nat (16 * length ms) :: u32) \<noteq> 0"
  proof
    assume "(of_nat (16 * length ms) :: u32) = 0"
    then have "sint (0 :: u32) = 16 * int (length ms)" using s by argo
    then show False using assms(4) by simp
  qed
  ultimately show ?thesis using assms(1-3) unfolding rt_can_write_def s by (simp add: caller_def)
qed

lemma tx_start_ok:
  assumes "dev_tx d = Some (tx_fifo_init n)" "n < 0x10000"
  shows "tx_ok (unat n) (tx_start d mss)"
proof -
  have n: "unat n < 65536" using assms(2) by (simp add: word_less_nat_alt)
  have "unat (ucast n :: u16) = unat n" using n by (simp add: unat_ucast)
  moreover have "(\<Sum>p\<leftarrow>map caller mss. holds (snd_pc p)) = {#}" "(\<Sum>p\<leftarrow>map caller mss. token (snd_pc p)) = 0"
    by (induction mss) (simp_all add: caller_def)
  ultimately show ?thesis using assms(1) n
    by (auto simp: tx_ok_def boxes_ok_def tx_start_def tx_fifo_init_def sender_ok_def caller_def)
qed

section \<open>The properties\<close>

lemma holds_unique:
  assumes b: "boxes_ok n d (\<Sum>p\<leftarrow>ps. holds (snd_pc p)) tok"
    and t: "t < length ps" "u < length ps" "t \<noteq> u" and no: "no \<in># holds (snd_pc (ps ! t))"
  shows "no \<notin># holds (snd_pc (ps ! u))"
proof
  assume u: "no \<in># holds (snd_pc (ps ! u))"
  let ?c = "\<lambda>i. count (holds (snd_pc (ps ! i))) no"
  obtain f where "dev_tx d = Some f" "mset (tx_freelist f) + (\<Sum>p\<leftarrow>ps. holds (snd_pc p)) = mset [0..<n]"
    using b by (rule boxes_okE)
  then have le: "count (\<Sum>p\<leftarrow>ps. holds (snd_pc p)) no \<le> count (mset [0..<n]) no"
    by (metis count_union le_add2)
  have "count (mset [0..<n]) no \<le> 1" using distinct_count_atmost_1 [of "[0..<n]"] by simp
  moreover have "count (\<Sum>p\<leftarrow>ps. holds (snd_pc p)) no = (\<Sum>i<length ps. ?c i)"
    by (simp add: sum_list_sum_nth count_sum atLeast0LessThan)
  moreover have "(\<Sum>i\<in>{t, u}. ?c i) \<le> (\<Sum>i<length ps. ?c i)" using t(1,2) by (intro sum_mono2) auto
  moreover have "0 < ?c t" "0 < ?c u" using no u by simp_all
  moreover have "(\<Sum>i\<in>{t, u}. ?c i) = ?c t + ?c u" using t(3) by simp
  ultimately show False using le by linarith
qed

text \<open>C31. However many callers of \<open>rt_can_write\<close> and transmission events interleave after \<open>rt_can_open\<close>: no step takes a
  box from an empty list, no two callers hold the same mailbox at a time, and the semaphore counts the free boxes that are not
  already spoken for.\<close>

theorem can_senders_share_no_box:
  assumes "dev_tx d = Some (tx_fifo_init n)" "n < 0x10000"
  shows "\<exists>s. tx_run es (tx_start d mss) = Some s \<and> tx_ok (unat n) s
    \<and> (\<forall>t<length (tx_senders s). \<forall>u<length (tx_senders s). t \<noteq> u \<longrightarrow>
         holds (snd_pc (tx_senders s ! t)) \<inter># holds (snd_pc (tx_senders s ! u)) = {#})"
proof -
  obtain s where s: "tx_run es (tx_start d mss) = Some s" "tx_ok (unat n) s"
    using tx_run_ok [OF tx_start_ok [OF assms]] by blast
  have "holds (snd_pc (tx_senders s ! t)) \<inter># holds (snd_pc (tx_senders s ! u)) = {#}"
    if "t < length (tx_senders s)" "u < length (tx_senders s)" "t \<noteq> u" for t u
    using holds_unique [OF _ that] s(2) unfolding tx_ok_def by (auto simp: disjunct_not_in)
  then show ?thesis using s by blast
qed

theorem can_senders_share_no_box_witness:
  "\<exists>s. tx_run [Go 0 True, Go 1 True, Go 0 True, Go 0 True, Go 0 True, Event True 0]
      (tx_start (demo_can\<lparr>dev_tx := Some (tx_fifo_init 1)\<rparr>) [[zero_msg], [zero_msg]]) = Some s \<and> tx_ok 1 s
    \<and> (\<forall>t<length (tx_senders s). \<forall>u<length (tx_senders s). t \<noteq> u \<longrightarrow>
         holds (snd_pc (tx_senders s ! t)) \<inter># holds (snd_pc (tx_senders s ! u)) = {#})"
proof -
  have "dev_tx (demo_can\<lparr>dev_tx := Some (tx_fifo_init 1)\<rparr>) = Some (tx_fifo_init 1)" "(1 :: u32) < 0x10000" by simp_all
  from can_senders_share_no_box [OF this] show ?thesis unfolding unsigned_1 .
qed

text \<open>One message through the one mailbox of the firmware's configuration, and the answer of the bus.\<close>

definition tx_round :: "bool \<Rightarrow> tx_ev list" where
  "tx_round b = replicate 4 (Go 0 True) @ [Event b 0] @ replicate 4 (Go 0 True)"

definition tx_one :: "can_device \<Rightarrow> sender \<Rightarrow> (nat \<times> rt_can_msg) list \<Rightarrow> tx_sys" where
  "tx_one d p l = \<lparr>tx_dev = d, tx_senders = [p], tx_log = l\<rparr>"

lemma tx_one_inject [simp]: "tx_one d p l = tx_one d' p' l' \<longleftrightarrow> d = d' \<and> p = p' \<and> l = l'"
  by (auto simp: tx_one_def)

definition idle_box :: "can_device \<Rightarrow> bool" where
  "idle_box d \<longleftrightarrow> (\<exists>b. dev_tx d = Some \<lparr>tx_boxes = [b], tx_sem = 1, tx_freelist = [0]\<rparr> \<and> \<not> box_done b)"

lemma tx_run_append: "tx_run (es @ es') s = Option.bind (tx_run es s) (tx_run es')"
  by (induction es arbitrary: s) (auto simp: bind_eq_Some_conv split: Option.bind_splits)

lemma tx_round_run:
  assumes "idle_box d"
  shows "\<exists>d'. tx_run (tx_round b) (tx_one d (caller (m # ms)) l) =
      Some (tx_one d' (if b then (caller ms)\<lparr>snd_pc := (if ms = [] then Finished else At_Head)\<rparr>
                       else (caller (m # ms))\<lparr>snd_pc := Finished\<rparr>) (l @ [(0, m)]))
    \<and> idle_box d' \<and> sndpkg d' = (if b then sndpkg d + 1 else sndpkg d)
    \<and> dropedsndpkg d' = (if b then dropedsndpkg d else dropedsndpkg d + 1)"
proof -
  obtain x where d: "dev_tx d = Some \<lparr>tx_boxes = [x], tx_sem = 1, tx_freelist = [0]\<rparr>" "\<not> box_done x"
    using assms by (auto simp: idle_box_def)
  show ?thesis using d
    by (cases b) (simp_all add: tx_round_def tx_one_def caller_def numeral_eq_Suc tx_sem_take_def tx_take_box_def
      upd_box_def upd_tx_def can_isr_tx_def tx_collect_def tx_sem_release_def idle_box_def)
qed

text \<open>\<open>k\<close> messages that go out, and a failure if there is a message left.\<close>

definition tx_rounds :: "nat \<Rightarrow> nat \<Rightarrow> tx_ev list" where
  "tx_rounds k n = concat (replicate k (tx_round True)) @ (if k < n then tx_round False else [])"

lemma tx_rounds_run:
  assumes "idle_box d" "k \<le> length ms" "ms \<noteq> []"
  shows "\<exists>p d'. tx_run (tx_rounds k (length ms)) (tx_one d (caller ms) l) = Some (tx_one d' p (l @ map (Pair 0) (take (Suc k) ms)))
      \<and> idle_box d' \<and> snd_pc p = Finished \<and> snd_left p = 16 * int (length ms - k) \<and> sndpkg d' = sndpkg d + of_nat k
      \<and> dropedsndpkg d' = dropedsndpkg d + (if k < length ms then 1 else 0)"
  using assms
proof (induction k arbitrary: ms d l)
  case 0
  then obtain m ms' where ms: "ms = m # ms'" by (cases ms) auto
  show ?case using tx_round_run [OF 0(1), of False m ms' l] unfolding ms
    by (auto simp: tx_rounds_def caller_def)
next
  case (Suc k)
  then obtain m ms' where ms: "ms = m # ms'" by (cases ms) auto
  obtain d1 where 1: "tx_run (tx_round True) (tx_one d (caller ms) l) =
      Some (tx_one d1 ((caller ms')\<lparr>snd_pc := (if ms' = [] then Finished else At_Head)\<rparr>) (l @ [(0, m)]))"
    "idle_box d1" "sndpkg d1 = sndpkg d + 1" "dropedsndpkg d1 = dropedsndpkg d"
    using tx_round_run [OF Suc.prems(1), of True m ms' l] unfolding ms by auto
  have e: "tx_rounds (Suc k) (length ms) = tx_round True @ tx_rounds k (length ms')" by (simp add: tx_rounds_def ms)
  show ?case
  proof (cases "ms' = []")
    case True
    then have "k = 0" using Suc.prems(2) ms by simp
    then show ?thesis using 1 True unfolding e tx_run_append by (simp add: ms tx_rounds_def caller_def)
  next
    case False
    have c: "(caller ms')\<lparr>snd_pc := At_Head\<rparr> = caller ms'" by (simp add: caller_def)
    have k: "k \<le> length ms'" using Suc.prems(2) ms by simp
    show ?thesis using Suc.IH [OF 1(2) k False, of "l @ [(0, m)]"] False 1 c
      unfolding e tx_run_append by (simp add: ms add.assoc)
  qed
qed

text \<open>One caller and the firmware's one mailbox: if the driver accepts each message and the bus answers each once, the messages
  go out in the caller's order up to the first failure. The count of bytes the call returns, the caller's size less what is left,
  is that of the messages sent; the statistics say the same, and the box is free and clean for the next call.\<close>

theorem can_write_sends_in_order:
  assumes "dev_tx d = Some (tx_fifo_init 1)" "k \<le> length ms" "ms \<noteq> []"
  shows "\<exists>s p. tx_run (tx_rounds k (length ms)) (tx_start d [ms]) = Some s \<and> tx_senders s = [p] \<and> snd_pc p = Finished
    \<and> tx_log s = map (Pair 0) (take (Suc k) ms) \<and> 16 * int (length ms) - snd_left p = 16 * int k
    \<and> sndpkg (tx_dev s) = sndpkg d + of_nat k \<and> dropedsndpkg (tx_dev s) = dropedsndpkg d + (if k < length ms then 1 else 0)
    \<and> idle_box (tx_dev s)"
proof -
  have "idle_box d" using assms(1) by (simp add: idle_box_def tx_fifo_init_def)
  from tx_rounds_run [OF this assms(2,3), of "[]"] obtain p d' where
    r: "tx_run (tx_rounds k (length ms)) (tx_one d (caller ms) []) = Some (tx_one d' p (map (Pair 0) (take (Suc k) ms)))"
    "idle_box d'" "snd_pc p = Finished" "snd_left p = 16 * int (length ms - k)" "sndpkg d' = sndpkg d + of_nat k"
    "dropedsndpkg d' = dropedsndpkg d + (if k < length ms then 1 else 0)" by auto
  have "tx_one d (caller ms) [] = tx_start d [ms]" by (simp add: tx_one_def tx_start_def)
  then show ?thesis using r assms(2) by (intro exI [of _ "tx_one d' p (map (Pair 0) (take (Suc k) ms))"] exI [of _ p]) (simp add: tx_one_def of_nat_diff)
qed

theorem can_write_sends_in_order_witness:
  "\<exists>s p. tx_run (tx_rounds 1 2) (tx_start (demo_can\<lparr>dev_tx := Some (tx_fifo_init 1)\<rparr>) [[zero_msg, zero_msg\<lparr>can_id := 0x1FF\<rparr>]]) = Some s
    \<and> tx_senders s = [p] \<and> snd_pc p = Finished \<and> tx_log s = [(0, zero_msg), (0, zero_msg\<lparr>can_id := 0x1FF\<rparr>)]
    \<and> 32 - snd_left p = 16 \<and> sndpkg (tx_dev s) = 1 \<and> dropedsndpkg (tx_dev s) = 1"
proof -
  have "dev_tx (demo_can\<lparr>dev_tx := Some (tx_fifo_init 1)\<rparr>) = Some (tx_fifo_init 1)"
    "1 \<le> length [zero_msg, zero_msg\<lparr>can_id := 0x1FF\<rparr>]" "[zero_msg, zero_msg\<lparr>can_id := 0x1FF\<rparr>] \<noteq> []" by simp_all
  from can_write_sends_in_order [OF this] obtain s p where
    "tx_run (tx_rounds 1 2) (tx_start (demo_can\<lparr>dev_tx := Some (tx_fifo_init 1)\<rparr>) [[zero_msg, zero_msg\<lparr>can_id := 0x1FF\<rparr>]]) = Some s"
    "tx_senders s = [p]" "snd_pc p = Finished" "tx_log s = [(0, zero_msg), (0, zero_msg\<lparr>can_id := 0x1FF\<rparr>)]"
    "32 - snd_left p = 16" "sndpkg (tx_dev s) = 1" "dropedsndpkg (tx_dev s) = 1"
    by (auto simp: numeral_2_eq_2 demo_can_def simp del: tx_run.simps)
  then show ?thesis by blast
qed

text \<open>A sender that is not finished and cannot step waits for its event, or for a box that others have.\<close>

lemma sender_blocked:
  assumes "dev_tx d = Some f" "\<not> step_may p d" "snd_pc p \<noteq> Finished"
  shows "(snd_pc p = At_Head \<and> tx_sem f = 0) \<or> (\<exists>no. snd_pc p = Waiting no)"
  using assms by (cases "snd_pc p") (auto simp: step_may_def)

lemma sum_list_zero: "(\<Sum>p\<leftarrow>ps. token (snd_pc p)) = 0" if "\<And>p. p \<in> set ps \<Longrightarrow> token (snd_pc p) = 0"
  using that by (induction ps) simp_all

lemma sum_list_empty: "(\<Sum>p\<leftarrow>ps. holds (snd_pc p)) = {#}" if "\<And>p. p \<in> set ps \<Longrightarrow> holds (snd_pc p) = {#}"
  using that by (induction ps) simp_all

text \<open>The senders do not deadlock: while a call has not returned, some call can go on, or some call waits for the bus to
  answer for the message it has handed over.\<close>

theorem can_senders_not_stuck:
  assumes "tx_ok n s" "0 < n" "p \<in> set (tx_senders s)" "snd_pc p \<noteq> Finished"
  shows "\<exists>t<length (tx_senders s). (\<forall>ok. tx_may (Go t ok) s) \<or> (\<exists>no. snd_pc (tx_senders s ! t) = Waiting no \<and> tx_may (Event True no) s)"
proof (rule ccontr)
  let ?ps = "tx_senders s" and ?d = "tx_dev s"
  assume "\<not> ?thesis"
  then have a: "\<not> step_may q ?d" "\<nexists>no. snd_pc q = Waiting no \<and> tx_may (Event True no) s" if "q \<in> set ?ps" for q
    using that tx_may_step by (metis in_set_conv_nth)+
  have ok: "boxes_ok n ?d (\<Sum>p\<leftarrow>?ps. holds (snd_pc p)) (\<Sum>p\<leftarrow>?ps. token (snd_pc p))" using assms(1) by (simp add: tx_ok_def)
  then obtain f where f: "dev_tx ?d = Some f" "unat (tx_sem f) + (\<Sum>p\<leftarrow>?ps. token (snd_pc p)) = length (tx_freelist f)"
    "length (tx_boxes f) = n" "length (tx_freelist f) + size (\<Sum>p\<leftarrow>?ps. holds (snd_pc p)) = n"
    "set_mset (\<Sum>p\<leftarrow>?ps. holds (snd_pc p)) \<subseteq> {..<n}" by (rule boxes_okE)
  have w: "no < n" if q: "q \<in> set ?ps" and qn: "snd_pc q = Waiting no" for q no
  proof -
    obtain us vs where "?ps = us @ q # vs" using split_list [OF q] by blast
    then have "no \<in># (\<Sum>p\<leftarrow>?ps. holds (snd_pc p))" using qn by simp
    then show ?thesis using f(5) by blast
  qed
  have "snd_pc q = Finished \<or> snd_pc q = At_Head \<and> tx_sem f = 0" if "q \<in> set ?ps" for q
    using sender_blocked [OF f(1) a(1) [OF that]] a(2) [OF that] w [OF that] f(1,3) by auto
  then have "holds (snd_pc q) = {#}" "token (snd_pc q) = 0" "tx_sem f = 0" if "q \<in> set ?ps" for q
    using that assms(3,4) by fastforce+
  then have z: "(\<Sum>p\<leftarrow>?ps. holds (snd_pc p)) = {#}" "(\<Sum>p\<leftarrow>?ps. token (snd_pc p)) = 0" "tx_sem f = 0"
    using sum_list_zero sum_list_empty assms(3) by blast+
  from f(2,4) show False using assms(2) unfolding z by simp
qed

theorem can_senders_not_stuck_witness:
  "\<exists>t<length (tx_senders (tx_start (demo_can\<lparr>dev_tx := Some (tx_fifo_init 1)\<rparr>) [[zero_msg]])).
     (\<forall>ok. tx_may (Go t ok) (tx_start (demo_can\<lparr>dev_tx := Some (tx_fifo_init 1)\<rparr>) [[zero_msg]]))
   \<or> (\<exists>no. snd_pc (tx_senders (tx_start (demo_can\<lparr>dev_tx := Some (tx_fifo_init 1)\<rparr>) [[zero_msg]]) ! t) = Waiting no
        \<and> tx_may (Event True no) (tx_start (demo_can\<lparr>dev_tx := Some (tx_fifo_init 1)\<rparr>) [[zero_msg]]))"
proof (rule can_senders_not_stuck [where n = "unat (1 :: u32)" and p = "caller [zero_msg]"])
  show "tx_ok (unat (1 :: u32)) (tx_start (demo_can\<lparr>dev_tx := Some (tx_fifo_init 1)\<rparr>) [[zero_msg]])"
    by (rule tx_start_ok) simp_all
qed (simp_all add: tx_start_def caller_def)

text \<open>A rejected message is tried again for ever.\<close>

fun rejects :: "tx_ev \<Rightarrow> bool" where
  "rejects (Go t ok) \<longleftrightarrow> \<not> ok"
| "rejects (Event b no) \<longleftrightarrow> True"

fun retrying :: "tx_pc \<Rightarrow> bool" where
  "retrying At_Head = True"
| "retrying With_Token = True"
| "retrying (Has_Box no) = True"
| "retrying (Marked no) = True"
| "retrying (Rejected no) = True"
| "retrying Retry = True"
| "retrying _ = False"

definition all_retry :: "tx_sys \<Rightarrow> bool" where
  "all_retry s \<longleftrightarrow> tx_log s = [] \<and> (\<forall>p\<in>set (tx_senders s). retrying (snd_pc p) \<and> snd_left p \<noteq> 0)"

lemma all_retry_step:
  assumes "all_retry s" "rejects e" "tx_may e s" "tx_exec e s = Some s'"
  shows "all_retry s'"
proof (cases e)
  case (Go t ok)
  then have t: "t < length (tx_senders s)" "\<not> ok" using assms(2,3) by (simp_all)
  then have r: "retrying (snd_pc (tx_senders s ! t))" "snd_left (tx_senders s ! t) \<noteq> 0" using assms(1) by (simp_all add: all_retry_def)
  obtain p d l where p: "tx_step ok (tx_senders s ! t) (tx_dev s) = Some (p, d, l)"
    "s' = s\<lparr>tx_dev := d, tx_senders := (tx_senders s)[t := p], tx_log := tx_log s @ l\<rparr>"
    using assms(4) Go by (auto simp: bind_eq_Some_conv)
  have "retrying (snd_pc p) \<and> snd_left p \<noteq> 0 \<and> l = []"
    using p(1) r t(2) by (cases "snd_pc (tx_senders s ! t)") (auto split: list.splits)
  then show ?thesis using assms(1) p(2) by (auto simp: all_retry_def dest: set_update_subset_insert [THEN subsetD])
next
  case (Event b no)
  then show ?thesis using assms(1,4) by (auto simp: all_retry_def)
qed

lemma all_retry_run: "tx_run es s = Some s' \<Longrightarrow> all_retry s \<Longrightarrow> \<forall>e\<in>set es. rejects e \<Longrightarrow> all_retry s'"
proof (induction es arbitrary: s)
  case (Cons e es)
  then show ?case using all_retry_step [of s e] by (auto simp: bind_eq_Some_conv split: if_splits)
qed simp

text \<open>Two ways in which the driver's answers break the sending of frames. While the driver rejects every message, no call of
  \<open>rt_can_write\<close> returns, whatever its schedule, since the loop goes on with \<open>continue\<close>. And an event for an idle mailbox is kept in
  its completion, so the next call does not wait: with no event after the driver has accepted the message, it reports it as
  dropped and frees the mailbox.\<close>

theorem can_write_retries_and_stale_events:
  assumes "dev_tx d = Some (tx_fifo_init 1)"
  shows "(\<forall>n mss es. dev_tx d' = Some (tx_fifo_init n) \<and> n < 0x10000 \<and> [] \<notin> set mss \<and> (\<forall>e\<in>set es. rejects e) \<longrightarrow>
      (\<exists>s. tx_run es (tx_start d' mss) = Some s \<and> tx_log s = [] \<and> (\<forall>p\<in>set (tx_senders s). snd_pc p \<noteq> Finished)))
    \<and> (\<exists>s p. tx_run (Event b 0 # replicate 8 (Go 0 True)) (tx_start d [[m]]) = Some s \<and> tx_senders s = [p] \<and> snd_pc p = Finished
        \<and> snd_left p = 16 \<and> tx_log s = [(0, m)] \<and> dropedsndpkg (tx_dev s) = dropedsndpkg d + 1 \<and> idle_box (tx_dev s))"
proof (intro conjI allI impI)
  fix n :: u32 and mss :: "rt_can_msg list list" and es
  assume a: "dev_tx d' = Some (tx_fifo_init n) \<and> n < 0x10000 \<and> [] \<notin> set mss \<and> (\<forall>e\<in>set es. rejects e)"
  then obtain s where s: "tx_run es (tx_start d' mss) = Some s" using tx_run_ok [OF tx_start_ok] by blast
  have "all_retry (tx_start d' mss)" using a by (auto simp: all_retry_def tx_start_def caller_def)
  then have "all_retry s" using all_retry_run [OF s] a by blast
  then show "\<exists>s. tx_run es (tx_start d' mss) = Some s \<and> tx_log s = [] \<and> (\<forall>p\<in>set (tx_senders s). snd_pc p \<noteq> Finished)"
    using s by (auto simp: all_retry_def)
next
  show "\<exists>s p. tx_run (Event b 0 # replicate 8 (Go 0 True)) (tx_start d [[m]]) = Some s \<and> tx_senders s = [p] \<and> snd_pc p = Finished
        \<and> snd_left p = 16 \<and> tx_log s = [(0, m)] \<and> dropedsndpkg (tx_dev s) = dropedsndpkg d + 1 \<and> idle_box (tx_dev s)"
    using assms by (simp add: tx_start_def caller_def numeral_eq_Suc tx_sem_take_def tx_take_box_def tx_fifo_init_def
      upd_box_def upd_tx_def can_isr_tx_def tx_collect_def tx_sem_release_def idle_box_def)
qed

theorem can_write_retries_and_stale_events_witness:
  "\<exists>s p. tx_run (Event False 0 # replicate 8 (Go 0 True)) (tx_start (demo_can\<lparr>dev_tx := Some (tx_fifo_init 1)\<rparr>) [[zero_msg]]) = Some s
     \<and> tx_senders s = [p] \<and> snd_pc p = Finished \<and> tx_log s = [(0, zero_msg)] \<and> dropedsndpkg (tx_dev s) = 1"
proof -
  have "dev_tx (demo_can\<lparr>dev_tx := Some (tx_fifo_init 1)\<rparr>) = Some (tx_fifo_init 1)" by simp
  from can_write_retries_and_stale_events [OF this, of demo_can False zero_msg] obtain s p where
    "tx_run (Event False 0 # replicate 8 (Go 0 True)) (tx_start (demo_can\<lparr>dev_tx := Some (tx_fifo_init 1)\<rparr>) [[zero_msg]]) = Some s"
    "tx_senders s = [p]" "snd_pc p = Finished" "tx_log s = [(0, zero_msg)]"
    "dropedsndpkg (tx_dev s) = dropedsndpkg (demo_can\<lparr>dev_tx := Some (tx_fifo_init 1)\<rparr>) + 1" by blast
  then show ?thesis by (intro exI [of _ s] exI [of _ p]) (simp add: demo_can_def del: tx_run.simps)
qed

text \<open>In the private mode a message the driver rejects leaves its mailbox marked as waiting: the loop then blocks on a
  completion that only an event for that mailbox could set, and nothing is being sent from it.\<close>

theorem priv_rejection_blocks:
  assumes "dev_tx d = Some f" "unat (msg_priv m) < unat (sndboxnumber d)" "unat (msg_priv m) < length (tx_boxes f)"
    "box_result (tx_boxes f ! unat (msg_priv m)) = SND_OK" "\<not> box_done (tx_boxes f ! unat (msg_priv m))"
  defines "p \<equiv> \<lparr>prv_pc = P_Head, prv_data = [m], prv_left = 16\<rparr>"
  shows "\<exists>p1 d1 p2 p3. priv_step False p d = Some (p1, d1) \<and> priv_step False p1 d1 = Some (p2, d1)
    \<and> priv_step ok p2 d1 = Some (p3, d1) \<and> prv_pc p3 = P_Blocked (unat (msg_priv m)) \<and> \<not> priv_may p3 d1"
  using assms by (simp add: Let_def upd_box_def upd_tx_def priv_may_def)

end
