(* ===== verification/CanLink.thy ===== *)
theory CanLink
  imports CanSend
begin

text \<open>
  How the motors' frames reach the decoder: the driver fetches a frame from the controller
  (\<open>_can_recvmsg\<close> and \<open>_can_rx_isr\<close> of \<open>HAL_Drivers/drv_can.c\<close>), \<open>rt_hw_can_isr\<close> queues it and calls \<open>can_rx_call\<close>
  (\<open>can_rw.c\<close>), which releases \<open>rx_sem\<close>; \<open>can_rx_thread\<close> takes the semaphore, reads one message with \<open>hdr = -1\<close> and
  decodes what is in \<open>rxmsg\<close>. Between its turns the other threads may change the globals of \<open>robot\<close> at will.
\<close>

section \<open>The driver\<close>

text \<open>\<open>CAN_RxHeaderTypeDef\<close> as \<open>HAL_CAN_GetRxMessage\<close> fills it; \<open>rx_ide\<close> and \<open>rx_rtr\<close> are 0 for \<open>CAN_ID_STD\<close> and
  \<open>CAN_RTR_DATA\<close>.\<close>

record rx_header =
  std_id :: u32
  ext_id :: u32
  rx_ide :: u32
  rx_rtr :: u32
  rx_dlc :: u32
  filter_match :: u32

text \<open>\<open>hal\<close> is what \<open>HAL_CAN_GetRxMessage\<close> returns, \<open>None\<close> if not \<open>HAL_OK\<close>, and \<open>m\<close> the caller's message before.\<close>

definition can_recvmsg :: "bool \<Rightarrow> (rx_header \<times> u8 list) option \<Rightarrow> rt_can_msg \<Rightarrow> rt_can_msg option" where
  "can_recvmsg can1 hal m =
     (case hal of None \<Rightarrow> None
      | Some (h, bytes) \<Rightarrow> Some (m\<lparr>can_data := bytes,
          can_ide := (if rx_ide h = 0 then 0 else 1),
          can_id := (if rx_ide h = 0 then std_id h else ext_id h) AND 0x1FFFFFFF,
          can_rtr := (if rx_rtr h = 0 then 0 else 1), can_len := ucast (rx_dlc h),
          msg_hdr := (if can1 then ucast (drop_bit 1 (filter_match h + 1)) else ucast (drop_bit 1 (filter_match h) + 14))\<rparr>))"

text \<open>\<open>_can_rx_isr\<close> for one of the two FIFOs. \<open>pending\<close> and \<open>overrun\<close> are the flags of the controller with their
  interrupts enabled; each event fetches a message of its own.\<close>

definition can_rx_isr ::
  "(u32 \<Rightarrow> rt_can_msg option) \<Rightarrow> (u32 \<Rightarrow> rt_can_msg option) \<Rightarrow> bool \<Rightarrow> bool \<Rightarrow> u32 \<Rightarrow> can_device \<Rightarrow> (can_ind list \<times> can_device) option" where
  "can_rx_isr recv1 recv2 pending overrun fifo d = do {
     (is1, d1) \<leftarrow> (if pending then map_option (\<lambda>(i, d'). ([i], d')) (rt_hw_can_isr recv1 (0x01 OR push_bit 8 fifo) d)
                   else Some ([], d));
     (is2, d2) \<leftarrow> (if overrun then map_option (\<lambda>(i, d'). ([i], d')) (rt_hw_can_isr recv2 (0x06 OR push_bit 8 fifo) d1)
                   else Some ([], d1));
     Some (is1 @ is2, d2)
   }"

section \<open>The receive thread\<close>

record can_link =
  lk_dev :: can_device
  lk_sem :: u16
  lk_msg :: rt_can_msg
  lk_robot :: robot

text \<open>\<open>can_rx_call\<close>, for the callback the interrupt asks for.\<close>

definition can_rx_call :: "can_ind \<Rightarrow> can_link \<Rightarrow> can_link" where
  "can_rx_call ind s = (case ind of Rx_ind _ \<Rightarrow> s\<lparr>lk_sem := lk_sem s + 1\<rparr> | _ \<Rightarrow> s)"

definition link_receive :: "rt_can_msg \<Rightarrow> can_link \<Rightarrow> can_link option" where
  "link_receive m s = do {
     (ind, d) \<leftarrow> can_isr_rx (Some m) (lk_dev s);
     Some (can_rx_call ind (s\<lparr>lk_dev := d\<rparr>))
   }"

text \<open>One turn of \<open>can_rx_thread\<close>, once the semaphore's value is not 0. The result of \<open>rt_device_read\<close> is not looked
  at.\<close>

definition can_rx_turn :: "can_link \<Rightarrow> can_link option" where
  "can_rx_turn s = do {
     (buf, _, d) \<leftarrow> rt_can_read [(lk_msg s)\<lparr>msg_hdr := - 1\<rparr>] 16 (lk_dev s);
     let m = buf ! 0;
     Some (s\<lparr>lk_dev := d, lk_sem := lk_sem s - 1, lk_msg := m, lk_robot := can_rx_step (can_msg.truncate m) (lk_robot s)\<rparr>)
   }"

datatype link_op = Frame rt_can_msg | Turn | Others "robot \<Rightarrow> robot"

fun link_may :: "link_op \<Rightarrow> can_link \<Rightarrow> bool" where
  "link_may (Frame m) s \<longleftrightarrow> 0 \<le> sint (msg_hdr m) \<and> unat (msg_hdr m) < unat (maxhdr (lk_dev s)) \<and> lk_sem s \<noteq> 0xffff"
| "link_may Turn s \<longleftrightarrow> lk_sem s \<noteq> 0"
| "link_may (Others g) s \<longleftrightarrow> True"

fun link_exec :: "link_op \<Rightarrow> can_link \<Rightarrow> can_link option" where
  "link_exec (Frame m) s = link_receive m s"
| "link_exec Turn s = can_rx_turn s"
| "link_exec (Others g) s = Some (s\<lparr>lk_robot := g (lk_robot s)\<rparr>)"

fun can_link_run :: "link_op list \<Rightarrow> can_link \<Rightarrow> can_link option" where
  "can_link_run [] s = Some s"
| "can_link_run (x # xs) s = (if link_may x s then Option.bind (link_exec x s) (can_link_run xs) else can_link_run xs s)"

section \<open>What the link does\<close>

text \<open>The frames that wait, the number of turns that are due, the frame decoded last, and the robot.\<close>

record link_spec =
  sl_queue :: "can_msg list"
  sl_due :: nat
  sl_last :: can_msg
  sl_robot :: robot

fun link_step :: "nat \<Rightarrow> nat \<Rightarrow> link_op \<Rightarrow> link_spec \<Rightarrow> link_spec" where
  "link_step n m (Frame msg) s =
     (if 0 \<le> sint (msg_hdr msg) \<and> unat (msg_hdr msg) < m \<and> sl_due s < 65535
      then s\<lparr>sl_queue := newest n (sl_queue s @ [can_msg.truncate msg]), sl_due := sl_due s + 1\<rparr> else s)"
| "link_step n m Turn s =
     (if sl_due s = 0 then s
      else let f = (case sl_queue s of [] \<Rightarrow> sl_last s | f # _ \<Rightarrow> f) in
        s\<lparr>sl_queue := tl (sl_queue s), sl_due := sl_due s - 1, sl_last := f, sl_robot := can_rx_step f (sl_robot s)\<rparr>)"
| "link_step n m (Others g) s = s\<lparr>sl_robot := g (sl_robot s)\<rparr>"

definition link_abs :: "can_link \<Rightarrow> link_spec" where
  "link_abs s = \<lparr>sl_queue = map (\<lambda>e. can_msg.truncate (fst e)) (can_queue (lk_dev s)), sl_due = unat (lk_sem s),
     sl_last = can_msg.truncate (lk_msg s), sl_robot = lk_robot s\<rparr>"

text \<open>The device is open for one reader, no filter has been given a header (those of the firmware have \<open>hdr = -1\<close>),
  and every waiting frame has its turn due.\<close>

definition canlink_ok :: "u32 \<Rightarrow> u32 \<Rightarrow> can_link \<Rightarrow> bool" where
  "canlink_ok n m s \<longleftrightarrow> (let d = lk_dev s in can_ok True [] d \<and> msgboxsz d = n \<and> maxhdr d = m \<and> rx_indicate d
     \<and> open_flag d AND RT_DEVICE_FLAG_INT_RX \<noteq> 0 \<and> 0 < ref_count d \<and> hdrs d \<noteq> None \<and> (\<forall>h. hdr_conn d h = None)
     \<and> length (can_queue d) \<le> unat (lk_sem s))"

lemma link_step_frame:
  assumes ok: "canlink_ok n m s" and n: "0 < n" "n < 0x10000" and may: "link_may (Frame msg) s"
  shows "\<exists>s'. link_exec (Frame msg) s = Some s' \<and> canlink_ok n m s' \<and> link_abs s' = link_step (unat n) (unat m) (Frame msg) (link_abs s)"
proof -
  let ?d = "lk_dev s" and ?h = "unat (msg_hdr msg)"
  have d: "can_ok True [] ?d" "msgboxsz ?d = n" "maxhdr ?d = m" "rx_indicate ?d" "open_flag ?d AND RT_DEVICE_FLAG_INT_RX \<noteq> 0"
    "0 < ref_count ?d" "hdrs ?d \<noteq> None" "\<forall>h. hdr_conn ?d h = None" "length (can_queue ?d) \<le> unat (lk_sem s)"
    using ok by (simp_all add: canlink_ok_def Let_def)
  have h: "0 \<le> sint (msg_hdr msg)" "?h < unat (maxhdr ?d)" "lk_sem s \<noteq> 0xffff" using may by simp_all
  have un: "0 < unat n" "unat n < 65536" using n by (simp_all add: word_less_nat_alt)
  obtain ind d' where r: "can_isr_rx (Some msg) ?d = Some (ind, d')" "can_isr_indicate (Some (msg_hdr msg)) d' = Some ind"
    "can_ok True [] d'" "can_same ?d d'" "can_queue d' = newest (unat n) (can_queue ?d @ [(msg, hdr_conn ?d ?h)])"
    using can_isr_rx_ok [OF d(1) _ d(5), of msg] un(1) h d(2) by auto
  obtain f where f: "dev_rx d' = Some f" using r(3) by (rule can_okE)
  obtain hs where hs: "hdrs d' = Some hs" "length hs = unat (maxhdr d')"
    using can_same_hdrs [OF r(4)] d(7) can_ok_hdrs_length [OF r(3)] by (cases "hdrs d'") auto
  have c: "hdr_conn d' k = None" for k using can_same_conn [OF r(4)] d(8) by simp
  have "?h < length hs" using hs(2) h(2) r(4) by (simp add: can_same_def)
  then have nc: "connected (hs ! ?h) = 0" using c [of ?h] hs(1) by (simp add: hdr_conn_def split: if_splits)
  let ?k = "length (uselist f)"
  have k: "?k = min (unat n) (Suc (length (can_queue ?d)))" using can_queue_length [OF f] r(5) by simp
  then have "unat (of_nat ?k * 16 :: u32) = ?k * 16" using un by (simp add: unat_word_ariths unat_word_of_nat)
  then have len: "(of_nat ?k * 16 :: u32) \<noteq> 0" using k un(1) by (metis mult_is_0 min_def nat.distinct(1) neq0_conv unsigned_0 zero_neq_numeral)
  have "ind = Rx_ind (of_nat ?k * 16)"
    using r(2) f hs(1) nc len d(4) r(4) by (simp add: can_isr_indicate_def can_same_def Let_def)
  then have e: "link_exec (Frame msg) s = Some (s\<lparr>lk_dev := d', lk_sem := lk_sem s + 1\<rparr>)"
    using r(1) by (simp add: link_receive_def can_rx_call_def)
  have "unat (lk_sem s) \<noteq> 65535" using h(3) by (simp add: word_eq_unat)
  then have sm: "unat (lk_sem s) < 65535" using unat_u16 [of "lk_sem s"] by linarith
  then have s1: "unat (lk_sem s + 1) = unat (lk_sem s) + 1" by (simp add: unat_word_ariths)
  have "canlink_ok n m (s\<lparr>lk_dev := d', lk_sem := lk_sem s + 1\<rparr>)"
    using d r(3-5) c hs(1) s1 by (simp add: canlink_ok_def Let_def can_same_def)
  moreover have "link_abs (s\<lparr>lk_dev := d', lk_sem := lk_sem s + 1\<rparr>) = link_step (unat n) (unat m) (Frame msg) (link_abs s)"
    using r(5) s1 sm h d(3) by (simp add: link_abs_def map_newest)
  ultimately show ?thesis using e by blast
qed

lemma link_step_turn:
  assumes ok: "canlink_ok n m s" and may: "link_may Turn s"
  shows "\<exists>s'. link_exec Turn s = Some s' \<and> canlink_ok n m s' \<and> link_abs s' = link_step u v Turn (link_abs s)"
proof -
  let ?d = "lk_dev s" and ?b = "(lk_msg s)\<lparr>msg_hdr := - 1\<rparr>"
  have d: "can_ok True [] ?d" "open_flag ?d AND RT_DEVICE_FLAG_INT_RX \<noteq> 0" "0 < ref_count ?d"
    "length (can_queue ?d) \<le> unat (lk_sem s)" using ok by (simp_all add: canlink_ok_def Let_def)
  obtain d' where r: "can_int_rx [?b] 16 ?d = Some (map fst (take 1 (can_queue ?d)) @ drop (length (can_queue ?d)) [?b],
      16 * int (1 - length (can_queue ?d)), d')" "can_ok True [] d'" "can_same ?d d'" "can_queue d' = drop 1 (can_queue ?d)"
    using can_int_rx_ok [OF d(1), of "[?b]"] by auto
  have z: "lk_sem s \<noteq> 0" using may by simp
  then have s1: "unat (lk_sem s - 1) = unat (lk_sem s) - 1" "0 < unat (lk_sem s)" by (simp_all add: unat_minus_one unat_gt_0)
  let ?m = "(map fst (take 1 (can_queue ?d)) @ drop (length (can_queue ?d)) [?b]) ! 0"
  let ?s = "s\<lparr>lk_dev := d', lk_sem := lk_sem s - 1, lk_msg := ?m, lk_robot := can_rx_step (can_msg.truncate ?m) (lk_robot s)\<rparr>"
  have e: "link_exec Turn s = Some ?s"
    using r(1) d(2,3) by (simp add: can_rx_turn_def rt_can_read_def Let_def)
  have c: "hdr_conn d' k = hdr_conn ?d k" for k using can_same_conn [OF r(3)] .
  have "canlink_ok n m ?s"
    using ok r(2-4) c can_same_hdrs [OF r(3)] s1 d(4) by (auto simp: canlink_ok_def Let_def can_same_def)
  moreover have "can_msg.truncate ?b = can_msg.truncate (lk_msg s)" by (simp add: can_msg.truncate_def)
  then have "link_abs ?s = link_step u v Turn (link_abs s)"
    using r(4) s1 by (cases "can_queue ?d") (simp_all add: link_abs_def Let_def)
  ultimately show ?thesis using e by blast
qed

lemma link_run_sim:
  assumes "canlink_ok n m s" "0 < n" "n < 0x10000"
  shows "\<exists>s'. can_link_run xs s = Some s' \<and> canlink_ok n m s' \<and> link_abs s' = fold (link_step (unat n) (unat m)) xs (link_abs s)"
  using assms(1)
proof (induction xs arbitrary: s)
  case (Cons x xs)
  have m: "maxhdr (lk_dev s) = m" using Cons.prems by (simp add: canlink_ok_def Let_def)
  show ?case
  proof (cases "link_may x s")
    case True
    have "\<exists>s1. link_exec x s = Some s1 \<and> canlink_ok n m s1 \<and> link_abs s1 = link_step (unat n) (unat m) x (link_abs s)"
    proof (cases x)
      case (Frame msg)
      show ?thesis unfolding Frame by (rule link_step_frame [OF Cons.prems assms(2,3) True [unfolded Frame]])
    next
      case Turn
      show ?thesis unfolding Turn by (rule link_step_turn [OF Cons.prems True [unfolded Turn]])
    next
      case (Others g)
      then show ?thesis using Cons.prems by (simp add: canlink_ok_def link_abs_def)
    qed
    then obtain s1 where "link_exec x s = Some s1" "canlink_ok n m s1" "link_abs s1 = link_step (unat n) (unat m) x (link_abs s)"
      by blast
    then show ?thesis using Cons.IH [of s1] True by simp
  next
    case False
    have w: "lk_sem s = 0xffff \<longleftrightarrow> unat (lk_sem s) = 65535" by (simp add: word_eq_unat)
    have "unat (lk_sem s) < 65536" by (rule unat_u16)
    then have "link_step (unat n) (unat m) x (link_abs s) = link_abs s"
      using False m w by (cases x) (auto simp: link_abs_def unat_eq_0)
    then show ?thesis using Cons False by simp
  qed
qed simp

section \<open>The properties\<close>

text \<open>\<open>can_rx\<close>: the device opened by \<open>rt_device_open\<close>, with its callback set, and the semaphore at 0.\<close>

definition link_start :: "can_device \<Rightarrow> robot \<Rightarrow> can_link" where
  "link_start d r = \<lparr>lk_dev = d\<lparr>ref_count := 1, rx_indicate := True\<rparr>, lk_sem = 0, lk_msg = zero_msg, lk_robot = r\<rparr>"

lemma link_start_ok:
  assumes "set_int_quiet ops" "sndboxnumber d < 0x10000" "dev_rx d = None" "dev_tx d = None" "hdrs d = None"
  shows "\<exists>d0. rt_can_open ops True RX_TX d = Some (RT_EOK, d0) \<and> canlink_ok (msgboxsz d) (maxhdr d) (link_start d0 r)
    \<and> link_abs (link_start d0 r) = \<lparr>sl_queue = [], sl_due = 0, sl_last = can_msg.truncate zero_msg, sl_robot = r\<rparr>"
proof -
  obtain d0 where d0: "rt_can_open ops True RX_TX d = Some (RT_EOK, d0)"
    "sys_ok (msgboxsz d) (maxhdr d) \<lparr>sys_dev = d0, sys_held = [], sys_out = []\<rparr>"
    "can_abs \<lparr>sys_dev = d0, sys_held = [], sys_out = []\<rparr> = \<lparr>sp_queue = [], sp_held = [], sp_conn = (\<lambda>_. False), sp_out = []\<rparr>"
    using rt_can_open_fresh [OF assms] by blast
  have q: "can_queue d0 = []" "hdr_conn d0 h = None" for h using d0(3) by (simp_all add: can_abs_def fun_eq_iff)
  have "can_queue (d0\<lparr>ref_count := 1, rx_indicate := True\<rparr>) = []" "hdr_conn (d0\<lparr>ref_count := 1, rx_indicate := True\<rparr>) h = None" for h
    using q by (simp_all add: can_queue_def hdr_conn_def)
  then have "canlink_ok (msgboxsz d) (maxhdr d) (link_start d0 r)"
    using d0(2) by (cases "dev_rx d0") (auto simp: canlink_ok_def link_start_def sys_ok_def can_ok_def Let_def)
  then show ?thesis using d0(1) q(1) by (auto simp: link_start_def link_abs_def can_queue_def)
qed

text \<open>What the robot should see: each frame once, in its order. \<open>None\<close> when a frame comes while \<open>n\<close> others wait, or with a
  header the device has no place for.\<close>

fun ideal_run :: "nat \<Rightarrow> nat \<Rightarrow> link_op list \<Rightarrow> can_msg list \<times> robot \<Rightarrow> (can_msg list \<times> robot) option" where
  "ideal_run n m [] s = Some s"
| "ideal_run n m (Frame msg # xs) (q, r) =
     (if length q < n \<and> 0 \<le> sint (msg_hdr msg) \<and> unat (msg_hdr msg) < m
      then ideal_run n m xs (q @ [can_msg.truncate msg], r) else None)"
| "ideal_run n m (Turn # xs) (q, r) = ideal_run n m xs (case q of [] \<Rightarrow> (q, r) | f # fs \<Rightarrow> (fs, can_rx_step f r))"
| "ideal_run n m (Others g # xs) (q, r) = ideal_run n m xs (q, g r)"

lemma ideal_link:
  assumes "ideal_run n m xs (sl_queue s, sl_robot s) = Some (q, r)" "sl_due s = length (sl_queue s)" "n < 65536"
    "length (sl_queue s) \<le> n"
  shows "let s' = fold (link_step n m) xs s in sl_queue s' = q \<and> sl_robot s' = r \<and> sl_due s' = length q"
  using assms
proof (induction xs arbitrary: s)
  case (Cons x xs)
  show ?case
  proof (cases x)
    case (Frame msg)
    have "newest n (sl_queue s @ [can_msg.truncate msg]) = sl_queue s @ [can_msg.truncate msg]" if "length (sl_queue s) < n"
      using that by (intro newest_short) simp
    then show ?thesis using Cons.prems Cons.IH [of "link_step n m x s"] Frame by (simp split: if_splits)
  next
    case Turn
    then show ?thesis using Cons.prems Cons.IH [of "link_step n m x s"]
      by (cases "sl_queue s") (simp_all add: Let_def)
  next
    case (Others g)
    then show ?thesis using Cons.prems Cons.IH [of "link_step n m x s"] by simp
  qed
qed simp

text \<open>C30. From the device that \<open>can_rx\<close> opens on, as long as no more frames wait than the FIFO has nodes, each motor frame that
  arrives is decoded exactly once and in its order, whatever the other threads do to the globals in between; the frames that still
  wait are those not yet decoded.\<close>

theorem can_link_decodes_each_frame_once:
  assumes dev: "set_int_quiet ops" "sndboxnumber d < 0x10000" "dev_rx d = None" "dev_tx d = None" "hdrs d = None"
    and n: "0 < msgboxsz d" "msgboxsz d < 0x10000"
    and fits: "ideal_run (unat (msgboxsz d)) (unat (maxhdr d)) xs ([], r) = Some (q, r')"
  shows "\<exists>d0 s. rt_can_open ops True RX_TX d = Some (RT_EOK, d0) \<and> can_link_run xs (link_start d0 r) = Some s
    \<and> lk_robot s = r' \<and> map (\<lambda>e. can_msg.truncate (fst e)) (can_queue (lk_dev s)) = q \<and> unat (lk_sem s) = length q"
proof -
  obtain d0 where d0: "rt_can_open ops True RX_TX d = Some (RT_EOK, d0)" "canlink_ok (msgboxsz d) (maxhdr d) (link_start d0 r)"
    "link_abs (link_start d0 r) = \<lparr>sl_queue = [], sl_due = 0, sl_last = can_msg.truncate zero_msg, sl_robot = r\<rparr>"
    using link_start_ok [OF dev] by blast
  obtain s where s: "can_link_run xs (link_start d0 r) = Some s"
    "link_abs s = fold (link_step (unat (msgboxsz d)) (unat (maxhdr d))) xs (link_abs (link_start d0 r))"
    using link_run_sim [OF d0(2) n] by blast
  have "unat (msgboxsz d) < 65536" using n(2) by (simp add: word_less_nat_alt)
  then have "sl_queue (link_abs s) = q \<and> sl_robot (link_abs s) = r' \<and> sl_due (link_abs s) = length q"
    using ideal_link [of "unat (msgboxsz d)" "unat (maxhdr d)" xs "link_abs (link_start d0 r)" q r'] fits
    unfolding s(2) by (simp add: d0(3) Let_def)
  then have "lk_robot s = r'" "map (\<lambda>e. can_msg.truncate (fst e)) (can_queue (lk_dev s)) = q" "unat (lk_sem s) = length q"
    by (simp_all add: link_abs_def)
  then show ?thesis using d0(1) s(1) by blast
qed

lemma demo_can_simps:
  "sndboxnumber demo_can < 0x10000" "dev_rx demo_can = None" "dev_tx demo_can = None" "hdrs demo_can = None"
  "0 < msgboxsz demo_can" "msgboxsz demo_can < 0x10000" "unat (msgboxsz demo_can) = 16" "unat (maxhdr demo_can) = 28"
  by (simp_all add: demo_can_def)

text \<open>Two frames of the left front wheel's motor.\<close>

definition wheel_msg :: "u8 \<Rightarrow> rt_can_msg" where
  "wheel_msg b = zero_msg\<lparr>can_id := 0x201, can_len := 8, can_data := [b, 0, 0, 0, 0, 0, 0, 0]\<rparr>"

theorem can_link_decodes_each_frame_once_witness:
  "\<exists>d0 s. rt_can_open demo_ops True RX_TX demo_can = Some (RT_EOK, d0)
    \<and> can_link_run [Frame (wheel_msg 1), Frame (wheel_msg 2), Turn] (link_start d0 robot_sample) = Some s
    \<and> lk_robot s = can_rx_step (can_msg.truncate (wheel_msg 1)) robot_sample
    \<and> map (\<lambda>e. can_msg.truncate (fst e)) (can_queue (lk_dev s)) = [can_msg.truncate (wheel_msg 2)] \<and> unat (lk_sem s) = 1"
proof -
  have "ideal_run (unat (msgboxsz demo_can)) (unat (maxhdr demo_can)) [Frame (wheel_msg 1), Frame (wheel_msg 2), Turn] ([], robot_sample)
    = Some ([can_msg.truncate (wheel_msg 2)], can_rx_step (can_msg.truncate (wheel_msg 1)) robot_sample)"
    by (simp add: demo_can_simps wheel_msg_def zero_msg_def)
  from can_link_decodes_each_frame_once [OF demo_quiet demo_can_simps(1-6) this] show ?thesis
    by (simp only: list.size One_nat_def add_0)
qed

text \<open>A burst that is longer than the FIFO.\<close>

lemma link_frames:
  assumes "\<forall>f\<in>set ms. 0 \<le> sint (msg_hdr f) \<and> unat (msg_hdr f) < m" "sl_due s + length ms < 65536" "length (sl_queue s) \<le> n"
  shows "fold (link_step n m) (map Frame ms) s = s\<lparr>sl_queue := newest n (sl_queue s @ map can_msg.truncate ms), sl_due := sl_due s + length ms\<rparr>"
  using assms
proof (induction ms arbitrary: s)
  case (Cons f ms)
  let ?s = "s\<lparr>sl_queue := newest n (sl_queue s @ [can_msg.truncate f]), sl_due := sl_due s + 1\<rparr>"
  have "link_step n m (Frame f) s = ?s" using Cons.prems by simp
  then show ?case using Cons.IH [of ?s] Cons.prems newest_newest [of n "sl_queue s @ [can_msg.truncate f]"] by simp
qed (simp add: newest_short)

lemma link_turns:
  assumes "length (sl_queue s) \<le> sl_due s"
  shows "fold (link_step n m) (replicate (length (sl_queue s)) Turn) s
    = s\<lparr>sl_queue := [], sl_due := sl_due s - length (sl_queue s), sl_last := last (sl_last s # sl_queue s),
        sl_robot := fold can_rx_step (sl_queue s) (sl_robot s)\<rparr>"
  using assms
proof (induction "sl_queue s" arbitrary: s)
  case (Cons f fs)
  let ?s = "link_step n m Turn s"
  have q: "sl_queue s = f # fs" using Cons.hyps(2) by simp
  then have "sl_due s \<noteq> 0" using Cons.prems by auto
  then have s: "?s = s\<lparr>sl_queue := fs, sl_due := sl_due s - 1, sl_last := f, sl_robot := can_rx_step f (sl_robot s)\<rparr>"
    using q by (simp add: Let_def)
  then show ?case using Cons.hyps(1) [of ?s] Cons.prems q by simp
qed simp

text \<open>When one frame more arrives than the FIFO holds before the thread runs, the oldest is lost, as it must be, but
  its turn of the semaphore stays: the last turn reads nothing and decodes the last frame a second time.\<close>

theorem can_link_overflow_decodes_twice:
  assumes dev: "set_int_quiet ops" "sndboxnumber d < 0x10000" "dev_rx d = None" "dev_tx d = None" "hdrs d = None"
    and n: "0 < msgboxsz d" "msgboxsz d < 0xffff" and ms: "length ms = unat (msgboxsz d) + 1"
    "\<forall>f\<in>set ms. 0 \<le> sint (msg_hdr f) \<and> unat (msg_hdr f) < unat (maxhdr d)"
  shows "\<exists>d0 s. rt_can_open ops True RX_TX d = Some (RT_EOK, d0)
    \<and> can_link_run (map Frame ms @ replicate (length ms) Turn) (link_start d0 r) = Some s
    \<and> lk_robot s = fold can_rx_step (map can_msg.truncate (tl ms @ [last ms])) r"
proof -
  let ?n = "unat (msgboxsz d)" and ?m = "unat (maxhdr d)"
  obtain d0 where d0: "rt_can_open ops True RX_TX d = Some (RT_EOK, d0)" "canlink_ok (msgboxsz d) (maxhdr d) (link_start d0 r)"
    "link_abs (link_start d0 r) = \<lparr>sl_queue = [], sl_due = 0, sl_last = can_msg.truncate zero_msg, sl_robot = r\<rparr>"
    using link_start_ok [OF dev] by blast
  have un: "0 < ?n" "?n < 65535" using n by (simp_all add: word_less_nat_alt)
  then have "msgboxsz d < 0x10000" by (simp add: word_less_nat_alt)
  from link_run_sim [OF d0(2) n(1) this] obtain s where s: "can_link_run (map Frame ms @ replicate (length ms) Turn) (link_start d0 r) = Some s"
    "link_abs s = fold (link_step ?n ?m) (map Frame ms @ replicate (length ms) Turn) (link_abs (link_start d0 r))" by blast
  let ?q = "map can_msg.truncate (tl ms)"
  let ?s1 = "\<lparr>sl_queue = ?q, sl_due = ?n + 1, sl_last = can_msg.truncate zero_msg, sl_robot = r\<rparr>"
  have q: "newest ?n (map can_msg.truncate ms) = ?q" "length ?q = ?n" "?q \<noteq> []" using ms(1) un(1)
    by (cases ms; auto simp: newest_def)+
  have "fold (link_step ?n ?m) (map Frame ms) (link_abs (link_start d0 r)) = ?s1"
    using link_frames [OF ms(2), of "link_abs (link_start d0 r)" ?n] ms(1) un(2) q(1) by (simp add: d0(3))
  moreover have "replicate (length ms) Turn = replicate (length (sl_queue ?s1)) Turn @ [Turn]"
    using ms(1) q(2) by (simp add: replicate_append_same)
  ultimately have "link_abs s = link_step ?n ?m Turn (fold (link_step ?n ?m) (replicate (length (sl_queue ?s1)) Turn) ?s1)"
    unfolding s(2) fold_append by simp
  also have "\<dots> = link_step ?n ?m Turn \<lparr>sl_queue = [], sl_due = 1, sl_last = last ?q, sl_robot = fold can_rx_step ?q r\<rparr>"
    using link_turns [of ?s1 ?n ?m] q(2,3) by simp
  finally have "lk_robot s = can_rx_step (last ?q) (fold can_rx_step ?q r)" by (simp add: link_abs_def Let_def)
  moreover have "tl ms \<noteq> []" using q(3) by simp
  then have "last ?q = can_msg.truncate (last ms)" by (simp add: last_map last_tl)
  ultimately show ?thesis using d0(1) s(1) by (intro exI [of _ d0] exI [of _ s]) simp
qed

theorem can_link_overflow_decodes_twice_witness:
  "\<exists>d0 s. rt_can_open demo_ops True RX_TX demo_can = Some (RT_EOK, d0)
    \<and> can_link_run (map Frame (replicate 16 (wheel_msg 1) @ [wheel_msg 2]) @ replicate 17 Turn) (link_start d0 robot_sample) = Some s
    \<and> lk_robot s = fold can_rx_step (map can_msg.truncate (replicate 15 (wheel_msg 1) @ [wheel_msg 2, wheel_msg 2])) robot_sample"
proof -
  let ?ms = "replicate 16 (wheel_msg 1) @ [wheel_msg 2]"
  have n: "msgboxsz demo_can < 0xffff" by (simp add: demo_can_def)
  have l: "length ?ms = unat (msgboxsz demo_can) + 1" by (simp add: demo_can_simps)
  have v: "\<forall>f\<in>set ?ms. 0 \<le> sint (msg_hdr f) \<and> unat (msg_hdr f) < unat (maxhdr demo_can)"
    by (auto simp: demo_can_simps wheel_msg_def zero_msg_def)
  have e: "length ?ms = 17" "tl ?ms @ [last ?ms] = replicate 15 (wheel_msg 1) @ [wheel_msg 2, wheel_msg 2]"
    by (simp_all add: numeral_eq_Suc)
  from can_link_overflow_decodes_twice [OF demo_quiet demo_can_simps(1-5) n l v, of robot_sample]
  show ?thesis unfolding e .
qed

end
