(* ===== verification/RtList.thy ===== *)
theory RtList
  imports Linked KState
begin

text \<open>
  The linked lists of \<open>rtservice.h\<close> with their pointers. A doubly linked list is a ring of nodes through its
  head; the operations are the assignments of the source, in their order. \<open>realises\<close> says that the links
  implement a family of lists: that every operation keeps it is what lets the other theories speak of
  HOL lists, and it is stated for the thread lists of \<open>KState\<close>. The last section has the singly linked
  lists, with the chains of \<open>Linked\<close>.
\<close>

section \<open>Doubly linked lists\<close>

text \<open>\<open>struct rt_list_node\<close>, for all nodes at once.\<close>

record 'a links =
  nxt :: "'a \<Rightarrow> 'a"
  prv :: "'a \<Rightarrow> 'a"

definition set_nxt :: "'a \<Rightarrow> 'a \<Rightarrow> 'a links \<Rightarrow> 'a links" where
  "set_nxt a b m = m\<lparr>nxt := (nxt m)(a := b)\<rparr>"

definition set_prv :: "'a \<Rightarrow> 'a \<Rightarrow> 'a links \<Rightarrow> 'a links" where
  "set_prv a b m = m\<lparr>prv := (prv m)(a := b)\<rparr>"

definition rt_list_init :: "'a \<Rightarrow> 'a links \<Rightarrow> 'a links" where
  "rt_list_init l m = set_nxt l l (set_prv l l m)"

definition rt_list_insert_after_p :: "'a \<Rightarrow> 'a \<Rightarrow> 'a links \<Rightarrow> 'a links" where
  "rt_list_insert_after_p l n m =
     (let m1 = set_prv (nxt m l) n m;
          m2 = set_nxt n (nxt m1 l) m1;
          m3 = set_nxt l n m2 in
      set_prv n l m3)"

definition rt_list_insert_before_p :: "'a \<Rightarrow> 'a \<Rightarrow> 'a links \<Rightarrow> 'a links" where
  "rt_list_insert_before_p l n m =
     (let m1 = set_nxt (prv m l) n m;
          m2 = set_prv n (prv m1 l) m1;
          m3 = set_prv l n m2 in
      set_nxt n l m3)"

definition rt_list_remove_p :: "'a \<Rightarrow> 'a links \<Rightarrow> 'a links" where
  "rt_list_remove_p n m =
     (let m1 = set_prv (nxt m n) (prv m n) m;
          m2 = set_nxt (prv m1 n) (nxt m1 n) m1 in
      set_nxt n n (set_prv n n m2))"

definition rt_list_isempty :: "'a \<Rightarrow> 'a links \<Rightarrow> bool" where
  "rt_list_isempty l m \<longleftrightarrow> nxt m l = l"

text \<open>The loop of \<open>rt_list_len\<close> and the traversal \<open>rt_list_for_each\<close>: on links that do not lead back to
  the head neither ends.\<close>

partial_function (option) list_len_loop :: "'a links \<Rightarrow> 'a \<Rightarrow> 'a \<Rightarrow> u32 \<Rightarrow> u32 option" where
  "list_len_loop m l p len =
     (if nxt m p \<noteq> l then list_len_loop m l (nxt m p) (len + 1) else Some len)"

definition rt_list_len :: "'a \<Rightarrow> 'a links \<Rightarrow> u32 option" where
  "rt_list_len l m = list_len_loop m l l 0"

partial_function (option) for_each_from :: "'a links \<Rightarrow> 'a \<Rightarrow> 'a \<Rightarrow> 'a list option" where
  "for_each_from m head pos =
     (if pos \<noteq> head
      then do { rest \<leftarrow> for_each_from m head (nxt m pos); Some (pos # rest) }
      else Some [])"

definition rt_list_for_each :: "'a \<Rightarrow> 'a links \<Rightarrow> 'a list option" where
  "rt_list_for_each head m = for_each_from m head (nxt m head)"

lemma set_links_simps [simp]:
  "nxt (set_nxt a b m) = (nxt m)(a := b)" "prv (set_nxt a b m) = prv m"
  "prv (set_prv a b m) = (prv m)(a := b)" "nxt (set_prv a b m) = nxt m"
  by (simp_all add: set_nxt_def set_prv_def)

section \<open>Rings\<close>

text \<open>\<open>seg m a xs b\<close>: from \<open>a\<close> the links lead through \<open>xs\<close> to \<open>b\<close>, and back.\<close>

primrec seg :: "'a links \<Rightarrow> 'a \<Rightarrow> 'a list \<Rightarrow> 'a \<Rightarrow> bool" where
  "seg m a [] b \<longleftrightarrow> nxt m a = b \<and> prv m b = a"
| "seg m a (x # xs) b \<longleftrightarrow> nxt m a = x \<and> prv m x = a \<and> seg m x xs b"

definition ring :: "'a links \<Rightarrow> 'a \<Rightarrow> 'a list \<Rightarrow> bool" where
  "ring m h xs \<longleftrightarrow> distinct (h # xs) \<and> seg m h xs h"

lemma seg_append: "seg m a (xs @ y # ys) b \<longleftrightarrow> seg m a xs y \<and> seg m y ys b"
  by (induction xs arbitrary: a) auto

lemma seg_cong:
  "seg m a xs b \<Longrightarrow> (\<forall>y \<in> set (a # xs). nxt m' y = nxt m y) \<Longrightarrow> (\<forall>y \<in> set (xs @ [b]). prv m' y = prv m y) \<Longrightarrow>
   seg m' a xs b"
  by (induction xs arbitrary: a) auto

lemma seg_nxt: "seg m a xs b \<Longrightarrow> nxt m a = hd (xs @ [b])"
  by (cases xs) auto

lemma seg_prv: "seg m a xs b \<Longrightarrow> prv m b = last (a # xs)"
  by (induction xs arbitrary: a) auto

lemma seg_closed: "seg m a xs b \<Longrightarrow> y \<in> set (a # xs) \<Longrightarrow> nxt m y \<in> set (xs @ [b])"
  by (induction xs arbitrary: a) auto

text \<open>A ring may be entered at any of its nodes.\<close>

lemma ring_rotate: "ring m h (ys @ y # zs) \<Longrightarrow> ring m y (zs @ h # ys)"
  by (auto simp: ring_def seg_append)

lemma ring_insert_after:
  assumes "ring m h xs" "n \<notin> set (h # xs)"
  shows "ring (rt_list_insert_after_p h n m) h (n # xs)"
proof (cases xs)
  case Nil
  with assms show ?thesis by (auto simp: ring_def rt_list_insert_after_p_def Let_def)
next
  case (Cons x ys)
  then have "seg m x ys h" using assms(1) by (simp add: ring_def)
  then have "seg (rt_list_insert_after_p h n m) x ys h"
    by (rule seg_cong) (use assms Cons in \<open>auto simp: rt_list_insert_after_p_def Let_def ring_def\<close>)
  with assms Cons show ?thesis by (auto simp: ring_def rt_list_insert_after_p_def Let_def)
qed

lemma insert_before_eq:
  assumes "ring m h xs" "n \<notin> set (h # xs)"
  shows "rt_list_insert_before_p h n m = rt_list_insert_after_p (last (h # xs)) n m"
proof -
  have p: "prv m h = last (h # xs)" and s: "seg m h xs h"
    using assms(1) by (auto simp: ring_def dest: seg_prv)
  have "nxt m (last (h # xs)) = h"
    by (cases xs rule: rev_cases) (use s in \<open>auto simp: seg_append\<close>)
  moreover have "last (h # xs) \<noteq> n" using assms(2) by (metis last_in_set list.distinct(1))
  ultimately show ?thesis
    using p assms(2)
    by (intro links.equality)
      (auto simp: rt_list_insert_before_p_def rt_list_insert_after_p_def Let_def fun_eq_iff)
qed

lemma ring_insert_before:
  assumes "ring m h xs" "n \<notin> set (h # xs)"
  shows "ring (rt_list_insert_before_p h n m) h (xs @ [n])"
proof (cases xs rule: rev_cases)
  case Nil
  with ring_insert_after [OF assms] insert_before_eq [OF assms] show ?thesis by simp
next
  case (snoc ys y)
  then have "ring m y (h # ys)" using ring_rotate [of m h ys y "[]"] assms(1) by simp
  then have "ring (rt_list_insert_after_p y n m) y (n # h # ys)"
    by (rule ring_insert_after) (use assms(2) snoc in auto)
  then have "ring (rt_list_insert_after_p y n m) h (ys @ [y, n])"
    using ring_rotate [of "rt_list_insert_after_p y n m" y "[n]" h ys] by simp
  with insert_before_eq [OF assms] snoc show ?thesis by simp
qed

lemma seg_snoc_head: "seg m a (xs @ [y]) b \<longleftrightarrow> seg m a xs y \<and> nxt m y = b \<and> prv m b = y"
  by (simp add: seg_append)

lemma ring_remove_first:
  assumes "ring m h (n # xs)"
  shows "ring (rt_list_remove_p n m) h xs"
proof (cases xs)
  case Nil
  with assms show ?thesis by (auto simp: ring_def rt_list_remove_p_def Let_def)
next
  case (Cons x ys)
  then have "seg m x ys h" using assms by (simp add: ring_def)
  then have "seg (rt_list_remove_p n m) x ys h"
    by (rule seg_cong) (use assms Cons in \<open>auto simp: rt_list_remove_p_def Let_def ring_def\<close>)
  with assms Cons show ?thesis by (auto simp: ring_def rt_list_remove_p_def Let_def)
qed

lemma ring_remove:
  assumes "ring m h (ys @ n # zs)"
  shows "ring (rt_list_remove_p n m) h (ys @ zs)"
proof (cases ys rule: rev_cases)
  case Nil
  with ring_remove_first assms show ?thesis by simp
next
  case (snoc us y)
  then have "ring m y (n # zs @ h # us)" using ring_rotate [of m h us y "n # zs"] assms by simp
  then have "ring (rt_list_remove_p n m) y (zs @ h # us)" by (rule ring_remove_first)
  then have "ring (rt_list_remove_p n m) h (us @ y # zs)" by (rule ring_rotate)
  with snoc show ?thesis by simp
qed

lemma remove_self: "nxt (rt_list_remove_p n m) n = n" "prv (rt_list_remove_p n m) n = n"
  by (simp_all add: rt_list_remove_p_def Let_def)

lemma remove_twice:
  "nxt m n = n \<Longrightarrow> prv m n = n \<Longrightarrow> rt_list_remove_p n m = m"
  by (intro links.equality) (auto simp: rt_list_remove_p_def Let_def fun_eq_iff)

text \<open>What an operation does not touch: rings of other nodes.\<close>

lemma ring_frame:
  assumes "ring m h xs" "\<forall>y \<in> set (h # xs). nxt m' y = nxt m y \<and> prv m' y = prv m y"
  shows "ring m' h xs"
  using assms seg_cong [of m h xs h m'] by (auto simp: ring_def)

lemma insert_after_frame:
  "ring m h xs \<Longrightarrow> y \<notin> set (h # xs) \<Longrightarrow> y \<noteq> n \<Longrightarrow>
   nxt (rt_list_insert_after_p h n m) y = nxt m y \<and> prv (rt_list_insert_after_p h n m) y = prv m y"
  using seg_nxt [of m h xs h] by (cases xs) (auto simp: ring_def rt_list_insert_after_p_def Let_def)

lemma insert_before_frame:
  assumes "ring m h xs" "y \<notin> set (h # xs)" "y \<noteq> n" "n \<notin> set (h # xs)"
  shows "nxt (rt_list_insert_before_p h n m) y = nxt m y \<and> prv (rt_list_insert_before_p h n m) y = prv m y"
proof -
  have "prv m h \<in> set (h # xs)"
    using seg_prv [of m h xs h] assms(1) last_in_set [of "h # xs"] by (auto simp: ring_def)
  with assms show ?thesis by (auto simp: rt_list_insert_before_p_def Let_def)
qed

lemma remove_frame:
  assumes "ring m h xs" "n \<in> set xs" "y \<notin> set (h # xs)"
  shows "nxt (rt_list_remove_p n m) y = nxt m y \<and> prv (rt_list_remove_p n m) y = prv m y"
proof -
  obtain us vs where xs: "xs = us @ n # vs" using assms(2) by (meson split_list)
  then have s: "seg m h us n" "seg m n vs h" using assms(1) by (auto simp: ring_def seg_append)
  have "nxt m n \<in> set (h # xs)" using seg_nxt [OF s(2)] xs by (cases vs) auto
  moreover have "prv m n \<in> set (h # xs)" using seg_prv [OF s(1)] xs last_in_set [of "h # us"] by auto
  ultimately show ?thesis using assms(3) xs by (auto simp: rt_list_remove_p_def Let_def)
qed

text \<open>The loops: the length and the members of a ring, and no end where the links miss the head.\<close>

lemma for_each_seg: "seg m a xs h \<Longrightarrow> h \<notin> set xs \<Longrightarrow> for_each_from m h (nxt m a) = Some xs"
proof (induction xs arbitrary: a)
  case Nil
  then show ?case by (simp add: for_each_from.simps)
next
  case (Cons x xs)
  then show ?case by (subst for_each_from.simps) auto
qed

lemma len_seg: "seg m a xs h \<Longrightarrow> h \<notin> set xs \<Longrightarrow> list_len_loop m h a c = Some (c + of_nat (length xs))"
proof (induction xs arbitrary: a c)
  case Nil
  then show ?case by (simp add: list_len_loop.simps)
next
  case (Cons x xs)
  then show ?case by (subst list_len_loop.simps) (auto simp: algebra_simps)
qed

lemma for_each_ring: "ring m h xs \<Longrightarrow> rt_list_for_each h m = Some xs"
  by (simp add: ring_def rt_list_for_each_def for_each_seg)

lemma len_ring: "ring m h xs \<Longrightarrow> rt_list_len h m = Some (of_nat (length xs))"
  by (simp add: ring_def rt_list_len_def len_seg [of m h xs h 0])

lemma isempty_ring: "ring m h xs \<Longrightarrow> rt_list_isempty h m \<longleftrightarrow> xs = []"
  by (cases xs) (auto simp: ring_def rt_list_isempty_def)

lemma for_each_diverges:
  assumes "\<forall>p \<in> S. nxt m p \<in> S" "h \<notin> S" "p \<in> S"
  shows "for_each_from m h p = None"
proof -
  have "for_each_from m h p \<noteq> Some r" if "p \<in> S" for r p
    using that
  proof (induction r arbitrary: p)
    case Nil
    with assms(2) show ?case by (subst for_each_from.simps) (auto split: Option.bind_splits)
  next
    case (Cons x r)
    have "p \<noteq> h" "nxt m p \<in> S" using Cons.prems assms(1,2) by auto
    with Cons.IH [of "nxt m p"] show ?case
      by (subst for_each_from.simps) (auto split: Option.bind_splits)
  qed
  with assms(3) show ?thesis by (cases "for_each_from m h p") auto
qed

section \<open>A family of lists\<close>

text \<open>The nodes of the kernel: the heads of lists, and the nodes embedded in threads or objects.\<close>

datatype ('h, 'n) cell = Head 'h | Node 'n

text \<open>The links implement the lists \<open>L\<close>: the initialised heads \<open>H\<close> lead through their lists, no node is on
  two lists, and an initialised node (of \<open>N\<close>) on no list is linked to itself.\<close>

definition unlinked :: "'h set \<Rightarrow> ('h \<Rightarrow> 'n list) \<Rightarrow> 'n \<Rightarrow> bool" where
  "unlinked H L n \<longleftrightarrow> (\<forall>h \<in> H. n \<notin> set (L h))"

definition realises :: "'h set \<Rightarrow> 'n set \<Rightarrow> ('h, 'n) cell links \<Rightarrow> ('h \<Rightarrow> 'n list) \<Rightarrow> bool" where
  "realises H N m L \<longleftrightarrow>
     (\<forall>h \<in> H. ring m (Head h) (map Node (L h)) \<and> set (L h) \<subseteq> N)
     \<and> (\<forall>h \<in> H. \<forall>h' \<in> H. h \<noteq> h' \<longrightarrow> set (L h) \<inter> set (L h') = {})
     \<and> (\<forall>n \<in> N. unlinked H L n \<longrightarrow> nxt m (Node n) = Node n \<and> prv m (Node n) = Node n)"

lemma realises_ring: "realises H N m L \<Longrightarrow> h \<in> H \<Longrightarrow> ring m (Head h) (map Node (L h))"
  by (auto simp: realises_def)

lemma realises_distinct: "realises H N m L \<Longrightarrow> h \<in> H \<Longrightarrow> distinct (L h)"
  by (auto simp: realises_def ring_def distinct_map)

lemma realises_apart:
  "realises H N m L \<Longrightarrow> h \<in> H \<Longrightarrow> h' \<in> H \<Longrightarrow> h \<noteq> h' \<Longrightarrow> n \<in> set (L h) \<Longrightarrow> n \<notin> set (L h')"
  unfolding realises_def by blast

lemma realises_sub: "realises H N m L \<Longrightarrow> h \<in> H \<Longrightarrow> n \<in> set (L h) \<Longrightarrow> n \<in> N"
  by (auto simp: realises_def)

lemma realises_self:
  "realises H N m L \<Longrightarrow> n \<in> N \<Longrightarrow> unlinked H L n \<Longrightarrow> nxt m (Node n) = Node n \<and> prv m (Node n) = Node n"
  by (auto simp: realises_def)

text \<open>An operation that turns one ring into another and leaves the other nodes alone.\<close>

lemma realises_change:
  assumes r: "realises H N m L" and h: "h \<in> H" and xs: "ring m' (Head h) (map Node xs)" "set xs \<subseteq> N"
    and new: "\<forall>n \<in> set xs. n \<in> set (L h) \<or> unlinked H L n"
    and left: "\<forall>n \<in> set (L h) - set xs. nxt m' (Node n) = Node n \<and> prv m' (Node n) = Node n"
    and frame: "\<forall>y. y \<notin> insert (Head h) (Node ` (set (L h) \<union> set xs)) \<longrightarrow> nxt m' y = nxt m y \<and> prv m' y = prv m y"
  shows "realises H N m' (L(h := xs))"
proof -
  have apart: "set (L h') \<inter> (set (L h) \<union> set xs) = {}" if "h' \<in> H" "h' \<noteq> h" for h'
  proof -
    have "n \<notin> set (L h) \<and> n \<notin> set xs" if n: "n \<in> set (L h')" for n
      using realises_apart [OF r \<open>h' \<in> H\<close> h \<open>h' \<noteq> h\<close> n] new n \<open>h' \<in> H\<close> unfolding unlinked_def by blast
    then show ?thesis by blast
  qed
  have other: "ring m' (Head h') (map Node (L h'))" if "h' \<in> H" "h' \<noteq> h" for h'
  proof (rule ring_frame [OF realises_ring [OF r that(1)]], intro ballI)
    fix y assume "y \<in> set (Head h' # map Node (L h'))"
    then have "y \<notin> insert (Head h) (Node ` (set (L h) \<union> set xs))" using apart [OF that] that(2) by auto
    with frame show "nxt m' y = nxt m y \<and> prv m' y = prv m y" by blast
  qed
  have self: "nxt m' (Node n) = Node n \<and> prv m' (Node n) = Node n" if "n \<in> N" "unlinked H (L(h := xs)) n" for n
  proof (cases "n \<in> set (L h)")
    case True
    with left that h show ?thesis by (auto simp: unlinked_def)
  next
    case False
    then have "unlinked H L n" "n \<notin> set xs" using that(2) h by (auto simp: unlinked_def split: if_splits)
    with False frame realises_self [OF r that(1)] show ?thesis by auto
  qed
  have sub: "set (L h') \<subseteq> N" if "h' \<in> H" for h' using r that by (simp add: realises_def)
  have dis: "set ((L(h := xs)) a) \<inter> set ((L(h := xs)) b) = {}" if "a \<in> H" "b \<in> H" "a \<noteq> b" for a b
    using apart [of a] apart [of b] realises_apart [OF r that] that by auto
  show ?thesis
    unfolding realises_def
  proof (intro conjI ballI impI)
    fix h' assume "h' \<in> H"
    then show "ring m' (Head h') (map Node ((L(h := xs)) h'))" "set ((L(h := xs)) h') \<subseteq> N"
      using xs other sub by (auto simp del: map_map)
  next
    fix a b assume "a \<in> H" "b \<in> H" "a \<noteq> b"
    then show "set ((L(h := xs)) a) \<inter> set ((L(h := xs)) b) = {}" by (rule dis)
  next
    fix n assume "n \<in> N" "unlinked H (L(h := xs)) n"
    from self [OF this] show "nxt m' (Node n) = Node n" "prv m' (Node n) = Node n" by auto
  qed
qed

lemma realises_insert_after:
  assumes r: "realises H N m L" and h: "h \<in> H" and n: "n \<in> N" "unlinked H L n"
  shows "realises H N (rt_list_insert_after_p (Head h) (Node n) m) (L(h := n # L h))"
proof -
  have g: "ring m (Head h) (map Node (L h))" and o: "Node n \<notin> set (Head h # map Node (L h))"
    using realises_ring [OF r h] n(2) h by (auto simp: unlinked_def)
  show ?thesis
    using ring_insert_after [OF g o] r n h insert_after_frame [OF g]
    by (intro realises_change [OF r h]) (auto simp: realises_def)
qed

lemma realises_insert_before:
  assumes r: "realises H N m L" and h: "h \<in> H" and n: "n \<in> N" "unlinked H L n"
  shows "realises H N (rt_list_insert_before_p (Head h) (Node n) m) (L(h := L h @ [n]))"
proof -
  have g: "ring m (Head h) (map Node (L h))" and o: "Node n \<notin> set (Head h # map Node (L h))"
    using realises_ring [OF r h] n(2) h by (auto simp: unlinked_def)
  show ?thesis
    using ring_insert_before [OF g o] r n h insert_before_frame [OF g _ _ o]
    by (intro realises_change [OF r h]) (auto simp: realises_def)
qed

text \<open>Insertion before a member of a list, as the lists ordered by priority or time do it.\<close>

definition insert_before_member :: "'n \<Rightarrow> 'n \<Rightarrow> 'n list \<Rightarrow> 'n list" where
  "insert_before_member y n xs = takeWhile (\<lambda>x. x \<noteq> y) xs @ n # dropWhile (\<lambda>x. x \<noteq> y) xs"

lemma insert_before_member_split:
  "y \<notin> set us \<Longrightarrow> insert_before_member y n (us @ y # vs) = us @ n # y # vs"
  by (induction us) (auto simp: insert_before_member_def)

lemma realises_insert_before_node:
  assumes r: "realises H N m L" and h: "h \<in> H" and n: "n \<in> N" "unlinked H L n" and y: "y \<in> set (L h)"
  shows "realises H N (rt_list_insert_before_p (Node y) (Node n) m) (L(h := insert_before_member y n (L h)))"
proof -
  obtain us vs where e: "L h = us @ y # vs" and u: "y \<notin> set us" using split_list_first [OF y] by blast
  have g: "ring m (Node y) (map Node vs @ Head h # map Node us)"
    using ring_rotate [of m "Head h" "map Node us" "Node y" "map Node vs"] realises_ring [OF r h] e by simp
  have o: "Node n \<notin> set (Node y # map Node vs @ Head h # map Node us)"
    using n(2) h e by (auto simp: unlinked_def)
  let ?m = "rt_list_insert_before_p (Node y) (Node n) m"
  have "ring ?m (Node y) (map Node vs @ Head h # map Node (us @ [n]))"
    using ring_insert_before [OF g o] by simp
  then have "ring ?m (Head h) (map Node (us @ n # y # vs))" using ring_rotate by fastforce
  then show ?thesis
    using n h e insert_before_frame [OF g _ _ o] realises_sub [OF r h]
    by (intro realises_change [OF r h]) (auto simp: insert_before_member_split [OF u])
qed

lemma realises_remove:
  assumes r: "realises H N m L" and n: "n \<in> N"
  shows "realises H N (rt_list_remove_p (Node n) m) (\<lambda>h. removeAll n (L h))"
proof (cases "unlinked H L n")
  case True
  then have "rt_list_remove_p (Node n) m = m" using realises_self [OF r n] remove_twice by metis
  moreover have "\<forall>h \<in> H. removeAll n (L h) = L h" using True by (auto simp: unlinked_def)
  ultimately show ?thesis using r by (simp add: realises_def unlinked_def)
next
  case False
  then obtain h where h: "h \<in> H" "n \<in> set (L h)" by (auto simp: unlinked_def)
  obtain us vs where e: "L h = us @ n # vs" using split_list [OF h(2)] by blast
  then have u: "n \<notin> set us" "n \<notin> set vs" using realises_distinct [OF r h(1)] by auto
  note g = realises_ring [OF r h(1)]
  have "ring (rt_list_remove_p (Node n) m) (Head h) (map Node (us @ vs))"
    using ring_remove [of m "Head h" "map Node us" "Node n" "map Node vs"] g e by simp
  then have "realises H N (rt_list_remove_p (Node n) m) (L(h := us @ vs))"
    using e u h remove_self [of "Node n" m] remove_frame [OF g, of "Node n"] realises_sub [OF r h(1)]
    by (intro realises_change [OF r h(1)]) auto
  moreover have "\<forall>h' \<in> H. (L(h := us @ vs)) h' = removeAll n (L h')"
    using e u realises_apart [OF r h(1) _ _ h(2)] by auto
  ultimately show ?thesis by (simp add: realises_def unlinked_def)
qed

lemma realises_init_head:
  assumes r: "realises H N m L" and h: "h \<notin> H"
  shows "realises (insert h H) N (rt_list_init (Head h) m) (L(h := []))"
proof -
  have "ring (rt_list_init (Head h) m) (Head h') (map Node (L h'))" if "h' \<in> H" for h'
    using that h by (intro ring_frame [OF realises_ring [OF r]]) (auto simp: rt_list_init_def)
  with r h show ?thesis
    by (auto simp: realises_def unlinked_def ring_def rt_list_init_def)
qed

lemma realises_init_node:
  assumes r: "realises H N m L" and n: "unlinked H L n"
  shows "realises H (insert n N) (rt_list_init (Node n) m) L"
proof -
  have "ring (rt_list_init (Node n) m) (Head h') (map Node (L h'))" if "h' \<in> H" for h'
    using that n by (intro ring_frame [OF realises_ring [OF r]]) (auto simp: rt_list_init_def unlinked_def)
  with r n show ?thesis
    by (auto simp: realises_def rt_list_init_def)
qed

text \<open>A node that was never initialised may be inserted: the insertion writes both its links.\<close>

lemma insert_after_uninitialised:
  "ring m h xs \<Longrightarrow> n \<notin> set (h # xs) \<Longrightarrow> rt_list_insert_after_p h n (rt_list_init n m) = rt_list_insert_after_p h n m"
  using seg_nxt [of m h xs h]
  by (intro links.equality; cases xs)
    (auto simp: ring_def rt_list_insert_after_p_def rt_list_init_def Let_def fun_eq_iff)

lemma realises_attach:
  assumes r: "realises H N m L" and h: "h \<in> H" and n: "unlinked H L n"
  shows "realises H (insert n N) (rt_list_insert_after_p (Head h) (Node n) m) (L(h := n # L h))"
proof -
  have g: "ring m (Head h) (map Node (L h))" and o: "Node n \<notin> set (Head h # map Node (L h))"
    using realises_ring [OF r h] n h by (auto simp: unlinked_def)
  from realises_insert_after [OF realises_init_node [OF r n] h _ n]
  show ?thesis by (simp add: insert_after_uninitialised [OF g o])
qed

lemma realises_reads:
  "realises H N m L \<Longrightarrow> h \<in> H \<Longrightarrow>
   rt_list_for_each (Head h) m = Some (map Node (L h)) \<and> rt_list_isempty (Head h) m = (L h = [])
   \<and> rt_list_len (Head h) m = Some (of_nat (length (L h)))"
  using realises_ring [of H N m L h] by (simp add: for_each_ring isempty_ring len_ring)

section \<open>Runs\<close>

text \<open>A sequence of operations on links, and what it means for the lists.\<close>

datatype ('h, 'n) list_op = Init_Head 'h | Init_Node 'n | Insert_After 'h 'n | Insert_Before 'h 'n
  | Insert_Before_Node 'n 'n | Remove 'n

fun links_step :: "('h, 'n) cell links \<Rightarrow> ('h, 'n) list_op \<Rightarrow> ('h, 'n) cell links" where
  "links_step m (Init_Head h) = rt_list_init (Head h) m"
| "links_step m (Init_Node n) = rt_list_init (Node n) m"
| "links_step m (Insert_After h n) = rt_list_insert_after_p (Head h) (Node n) m"
| "links_step m (Insert_Before h n) = rt_list_insert_before_p (Head h) (Node n) m"
| "links_step m (Insert_Before_Node y n) = rt_list_insert_before_p (Node y) (Node n) m"
| "links_step m (Remove n) = rt_list_remove_p (Node n) m"

type_synonym ('h, 'n) family = "'h set \<times> 'n set \<times> ('h \<Rightarrow> 'n list)"

fun lists_step :: "('h, 'n) family \<Rightarrow> ('h, 'n) list_op \<Rightarrow> ('h, 'n) family" where
  "lists_step (H, N, L) (Init_Head h) = (insert h H, N, L(h := []))"
| "lists_step (H, N, L) (Init_Node n) = (H, insert n N, L)"
| "lists_step (H, N, L) (Insert_After h n) = (H, N, L(h := n # L h))"
| "lists_step (H, N, L) (Insert_Before h n) = (H, N, L(h := L h @ [n]))"
| "lists_step (H, N, L) (Insert_Before_Node y n) =
     (H, N, \<lambda>h. if y \<in> set (L h) then insert_before_member y n (L h) else L h)"
| "lists_step (H, N, L) (Remove n) = (H, N, \<lambda>h. removeAll n (L h))"

text \<open>What the callers see to: a head or a node is initialised while it is not in use, and only an
  initialised node that is on no list is inserted.\<close>

fun list_op_ok :: "('h, 'n) family \<Rightarrow> ('h, 'n) list_op \<Rightarrow> bool" where
  "list_op_ok (H, N, L) (Init_Head h) \<longleftrightarrow> h \<notin> H"
| "list_op_ok (H, N, L) (Init_Node n) \<longleftrightarrow> unlinked H L n"
| "list_op_ok (H, N, L) (Insert_After h n) \<longleftrightarrow> h \<in> H \<and> n \<in> N \<and> unlinked H L n"
| "list_op_ok (H, N, L) (Insert_Before h n) \<longleftrightarrow> h \<in> H \<and> n \<in> N \<and> unlinked H L n"
| "list_op_ok (H, N, L) (Insert_Before_Node y n) \<longleftrightarrow> \<not> unlinked H L y \<and> n \<in> N \<and> unlinked H L n"
| "list_op_ok (H, N, L) (Remove n) \<longleftrightarrow> n \<in> N"

fun list_ops_ok :: "('h, 'n) family \<Rightarrow> ('h, 'n) list_op list \<Rightarrow> bool" where
  "list_ops_ok F [] \<longleftrightarrow> True"
| "list_ops_ok F (e # es) \<longleftrightarrow> list_op_ok F e \<and> list_ops_ok (lists_step F e) es"

lemma realises_cong:
  "realises H N m L \<Longrightarrow> (\<forall>h \<in> H. L' h = L h) \<Longrightarrow> realises H N m L'"
  by (simp add: realises_def unlinked_def)

lemma links_step_realises:
  assumes r: "realises H N m L" and ok: "list_op_ok (H, N, L) e" and F: "lists_step (H, N, L) e = (H', N', L')"
  shows "realises H' N' (links_step m e) L'"
proof (cases e)
  case (Insert_Before_Node y n)
  then obtain h where h: "h \<in> H" "y \<in> set (L h)" and n: "n \<in> N" "unlinked H L n"
    using ok by (auto simp: unlinked_def)
  have "realises H N (links_step m e) (L(h := insert_before_member y n (L h)))"
    using realises_insert_before_node [OF r h(1) n h(2)] Insert_Before_Node by simp
  moreover have "\<forall>h' \<in> H. h' \<noteq> h \<longrightarrow> y \<notin> set (L h')" using realises_apart [OF r h(1) _ _ h(2)] by blast
  ultimately show ?thesis using F Insert_Before_Node h by (auto elim!: realises_cong)
qed (use assms realises_init_head realises_init_node realises_insert_after realises_insert_before realises_remove
    in \<open>fastforce+\<close>)

lemma links_run_realises:
  "realises H N m L \<Longrightarrow> list_ops_ok (H, N, L) es \<Longrightarrow> foldl lists_step (H, N, L) es = (H', N', L') \<Longrightarrow>
   realises H' N' (foldl links_step m es) L'"
proof (induction es arbitrary: H N m L)
  case (Cons e es)
  obtain H1 N1 L1 where F: "lists_step (H, N, L) e = (H1, N1, L1)" by (metis prod_cases3)
  have "realises H1 N1 (links_step m e) L1"
    by (rule links_step_realises [OF Cons.prems(1) _ F]) (use Cons.prems(2) in simp)
  with Cons.IH [of H1 N1 _ L1] Cons.prems(2,3) F show ?case by simp
qed simp

lemma realises_empty: "realises {} {} m L"
  by (simp add: realises_def)

text \<open>Inserting a node that is still on another list: the walk over that list passes into the new one
  and never comes back to its head.\<close>

lemma insert_linked_diverges:
  assumes r: "realises H N m L" and h: "h1 \<in> H" "h2 \<in> H" "h1 \<noteq> h2" and n: "n \<in> set (L h1)"
  defines "m' \<equiv> rt_list_insert_after_p (Head h2) (Node n) m"
  shows "rt_list_for_each (Head h1) m' = None"
    "rt_list_for_each (Head h2) m' = Some (map Node (n # L h2))"
proof -
  obtain us vs where e: "L h1 = us @ n # vs" and u: "n \<notin> set us" using split_list_first [OF n] by blast
  note g1 = realises_ring [OF r h(1)] and g2 = realises_ring [OF r h(2)]
  have apart: "x \<notin> set (L h2)" if "x \<in> set (L h1)" for x using realises_apart [OF r h that] .
  have s1: "seg m (Head h1) (map Node us) (Node n)" using g1 e by (simp add: ring_def seg_append)
  have s2: "seg m (Head h2) (map Node (L h2)) (Head h2)" using g2 by (simp add: ring_def)
  have nx: "nxt m' = (nxt m)(Node n := nxt m (Head h2), Head h2 := Node n)"
    using apart [OF n] by (auto simp: m'_def rt_list_insert_after_p_def Let_def)
  let ?S = "Node ` set us \<union> {Node n, Head h2} \<union> Node ` set (L h2)"
  have "\<forall>p \<in> ?S. nxt m' p \<in> ?S"
  proof
    fix p assume "p \<in> ?S"
    then consider "p \<in> Node ` set us" | "p = Node n \<or> p = Head h2" | "p \<in> Node ` set (L h2)" by blast
    then show "nxt m' p \<in> ?S"
    proof cases
      case 1
      then have "nxt m p \<in> set (map Node us @ [Node n])" using seg_closed [OF s1] by auto
      moreover have "p \<noteq> Node n" "p \<noteq> Head h2" using 1 u by auto
      ultimately show ?thesis using nx by auto
    next
      case 2
      have "nxt m (Head h2) \<in> set (map Node (L h2) @ [Head h2])" using seg_closed [OF s2] by auto
      with 2 show ?thesis using nx by auto
    next
      case 3
      then have "nxt m p \<in> set (map Node (L h2) @ [Head h2])" using seg_closed [OF s2] by auto
      moreover have "p \<noteq> Node n" "p \<noteq> Head h2" using 3 apart [OF n] by auto
      ultimately show ?thesis using nx by auto
    qed
  qed
  moreover have "Head h1 \<notin> ?S" using h by auto
  moreover have "nxt m' (Head h1) \<in> ?S" using seg_nxt [OF s1] nx h by (cases us) auto
  ultimately show "rt_list_for_each (Head h1) m' = None"
    unfolding rt_list_for_each_def by (rule for_each_diverges)
  have "Node n \<notin> set (Head h2 # map Node (L h2))" using apart [OF n] by auto
  from for_each_ring [OF ring_insert_after [OF g2 this]]
  show "rt_list_for_each (Head h2) m' = Some (map Node (n # L h2))" by (simp add: m'_def)
qed

section \<open>The thread lists of the kernel\<close>

text \<open>The operations of \<open>KState\<close> on lists are what the pointer operations do to the lists.\<close>

lemma kernel_links:
  assumes "realises H N m (lists k)" "t \<in> N"
  shows "realises H N (rt_list_remove_p (Node t) m) (lists (rt_list_remove t k))"
    and "q \<in> H \<Longrightarrow> \<not> is_linked k t \<Longrightarrow>
      realises H N (rt_list_insert_before_p (Head q) (Node t) m) (lists (rt_list_insert_before q t k))"
    and "q \<in> H \<Longrightarrow> \<not> is_linked k t \<Longrightarrow>
      realises H N (rt_list_insert_after_p (Head q) (Node t) m) (lists (rt_list_insert_after q t k))"
  using realises_remove [OF assms] realises_insert_before [OF assms(1) _ assms(2)]
    realises_insert_after [OF assms(1) _ assms(2)]
  by (auto simp: is_linked_def unlinked_def)

section \<open>Singly linked lists\<close>

text \<open>\<open>struct rt_slist_node\<close>: a next pointer per node, \<open>NULL\<close> at the end. The head is a node itself.\<close>

type_synonym 'a slinks = "'a \<Rightarrow> 'a option"

definition rt_slist_init :: "'a \<Rightarrow> 'a slinks \<Rightarrow> 'a slinks" where
  "rt_slist_init l nx = nx(l := None)"

partial_function (option) rt_slist_tail :: "'a \<Rightarrow> 'a slinks \<Rightarrow> 'a option" where
  "rt_slist_tail l nx = (case nx l of Some p \<Rightarrow> rt_slist_tail p nx | None \<Rightarrow> Some l)"

definition rt_slist_append :: "'a \<Rightarrow> 'a \<Rightarrow> 'a slinks \<Rightarrow> 'a slinks option" where
  "rt_slist_append l n nx = do {
     node \<leftarrow> rt_slist_tail l nx;
     Some ((nx(node := Some n))(n := None))
   }"

definition rt_slist_insert :: "'a \<Rightarrow> 'a \<Rightarrow> 'a slinks \<Rightarrow> 'a slinks" where
  "rt_slist_insert l n nx = (let nx1 = nx(n := nx l) in nx1(l := Some n))"

partial_function (option) slist_len_loop :: "'a slinks \<Rightarrow> 'a option \<Rightarrow> u32 \<Rightarrow> u32 option" where
  "slist_len_loop nx list len = (case list of Some p \<Rightarrow> slist_len_loop nx (nx p) (len + 1) | None \<Rightarrow> Some len)"

definition rt_slist_len :: "'a \<Rightarrow> 'a slinks \<Rightarrow> u32 option" where
  "rt_slist_len l nx = slist_len_loop nx (nx l) 0"

partial_function (option) slist_before :: "'a \<Rightarrow> 'a \<Rightarrow> 'a slinks \<Rightarrow> 'a option" where
  "slist_before node n nx =
     (case nx node of Some p \<Rightarrow> if p \<noteq> n then slist_before p n nx else Some node | None \<Rightarrow> Some node)"

definition rt_slist_remove :: "'a \<Rightarrow> 'a \<Rightarrow> 'a slinks \<Rightarrow> 'a slinks option" where
  "rt_slist_remove l n nx = do {
     node \<leftarrow> slist_before l n nx;
     Some (case nx node of Some p \<Rightarrow> nx(node := nx p) | None \<Rightarrow> nx)
   }"

definition rt_slist_first :: "'a \<Rightarrow> 'a slinks \<Rightarrow> 'a option" where
  "rt_slist_first l nx = nx l"

definition rt_slist_next :: "'a \<Rightarrow> 'a slinks \<Rightarrow> 'a option" where
  "rt_slist_next n nx = nx n"

definition rt_slist_isempty :: "'a \<Rightarrow> 'a slinks \<Rightarrow> bool" where
  "rt_slist_isempty l nx \<longleftrightarrow> nx l = None"

definition slist :: "'a slinks \<Rightarrow> 'a \<Rightarrow> 'a list \<Rightarrow> bool" where
  "slist nx l xs \<longleftrightarrow> chain nx (nx l) xs \<and> distinct (l # xs)"

lemma slist_tail_chain: "chain nx (nx l) xs \<Longrightarrow> rt_slist_tail l nx = Some (last (l # xs))"
proof (induction xs arbitrary: l)
  case Nil
  then show ?case by (simp add: rt_slist_tail.simps)
next
  case (Cons x xs)
  then show ?case by (subst rt_slist_tail.simps) auto
qed

lemma slist_len_chain: "chain nx p xs \<Longrightarrow> slist_len_loop nx p c = Some (c + of_nat (length xs))"
proof (induction xs arbitrary: p c)
  case Nil
  then show ?case by (simp add: slist_len_loop.simps)
next
  case (Cons x xs)
  then show ?case by (subst slist_len_loop.simps) (auto simp: algebra_simps)
qed

lemma slist_before_chain:
  "chain nx (nx l) (us @ n # vs) \<Longrightarrow> n \<notin> set us \<Longrightarrow> slist_before l n nx = Some (last (l # us))"
proof (induction us arbitrary: l)
  case Nil
  then show ?case by (simp add: slist_before.simps)
next
  case (Cons x us)
  then show ?case by (subst slist_before.simps) auto
qed

lemma slist_before_none: "chain nx (nx l) xs \<Longrightarrow> n \<notin> set xs \<Longrightarrow> slist_before l n nx = Some (last (l # xs))"
proof (induction xs arbitrary: l)
  case Nil
  then show ?case by (simp add: slist_before.simps)
next
  case (Cons x xs)
  then show ?case by (subst slist_before.simps) auto
qed

lemma chain_last: "chain nx (nx l) xs \<Longrightarrow> nx (last (l # xs)) = None"
  by (induction xs arbitrary: l) auto

lemma chain_cut:
  "chain nx (nx l) (us @ n # vs) \<Longrightarrow> distinct (l # us @ n # vs) \<Longrightarrow>
   nx (last (l # us)) = Some n \<and> chain (nx(last (l # us) := nx n)) ((nx(last (l # us) := nx n)) l) (us @ vs)"
proof (induction us arbitrary: l)
  case Nil
  then show ?case using chain_fun_upd [of l vs nx "nx n" "nx n"] by (auto simp: fun_upd_def)
next
  case (Cons x us)
  then have "last (x # us) \<noteq> l" by (metis Cons_eq_appendI distinct.simps(2) in_set_conv_decomp last_in_set list.distinct(1) set_ConsD set_append UnI1)
  with Cons show ?case by auto
qed

lemma slist_operations:
  assumes s: "slist nx l xs"
  shows "n \<notin> set (l # xs) \<Longrightarrow> \<exists>nx'. rt_slist_append l n nx = Some nx' \<and> slist nx' l (xs @ [n])"
    and "n \<notin> set (l # xs) \<Longrightarrow> slist (rt_slist_insert l n nx) l (n # xs)"
    and "n \<noteq> l \<Longrightarrow> \<exists>nx'. rt_slist_remove l n nx = Some nx' \<and> slist nx' l (remove1 n xs)"
    and "rt_slist_len l nx = Some (of_nat (length xs))"
    and "rt_slist_tail l nx = Some (last (l # xs))"
    and "rt_slist_first l nx = (if xs = [] then None else Some (hd xs))"
    and "rt_slist_isempty l nx \<longleftrightarrow> xs = []"
proof -
  have c: "chain nx (nx l) xs" and d: "distinct (l # xs)" using s by (auto simp: slist_def)
  show "\<exists>nx'. rt_slist_append l n nx = Some nx' \<and> slist nx' l (xs @ [n])" if "n \<notin> set (l # xs)"
  proof (cases xs rule: rev_cases)
    case Nil
    with that c show ?thesis by (auto simp: rt_slist_append_def slist_tail_chain slist_def)
  next
    case (snoc ys y)
    have "chain (nx(n := None)) (nx l) xs" using c that by simp
    then have "chain ((nx(n := None))(last xs := Some n)) (nx l) (xs @ [n])"
      using d that snoc by (intro chain_snoc) auto
    moreover have "(nx(n := None))(last xs := Some n) = nx(last xs := Some n, n := None)"
      using that snoc by (auto simp: fun_eq_iff)
    moreover have "last xs \<noteq> l" using d snoc by auto
    ultimately show ?thesis
      using that d snoc slist_tail_chain [OF c] by (auto simp: rt_slist_append_def slist_def)
  qed
  show "slist (rt_slist_insert l n nx) l (n # xs)" if "n \<notin> set (l # xs)"
    using that c d by (auto simp: rt_slist_insert_def slist_def)
  show "\<exists>nx'. rt_slist_remove l n nx = Some nx' \<and> slist nx' l (remove1 n xs)" if "n \<noteq> l"
  proof (cases "n \<in> set xs")
    case True
    then obtain us vs where e: "xs = us @ n # vs" "n \<notin> set us" using split_list_first [of n xs] by blast
    with chain_cut [of nx l us n vs] c d show ?thesis
      by (auto simp: rt_slist_remove_def slist_before_chain slist_def remove1_append)
  next
    case False
    with c d chain_last [OF c] show ?thesis
      by (auto simp: rt_slist_remove_def slist_before_none slist_def remove1_idem split del: if_split)
  qed
  show "rt_slist_len l nx = Some (of_nat (length xs))" using c by (simp add: rt_slist_len_def slist_len_chain)
  show "rt_slist_tail l nx = Some (last (l # xs))" by (rule slist_tail_chain [OF c])
  show "rt_slist_first l nx = (if xs = [] then None else Some (hd xs))" "rt_slist_isempty l nx \<longleftrightarrow> xs = []"
    using c by (cases xs; simp add: rt_slist_first_def rt_slist_isempty_def)+
qed

section \<open>Properties\<close>

text \<open>C32. The pointer lists are lists. Start from memory with any contents and run any sequence of the
  list operations in which heads and nodes are initialised while they are not in use and only
  initialised nodes that are on no list are inserted: every head then leads through exactly the members
  that the same operations on lists (put in front, append, put before a member, take out) give, in
  that order; traversal and length end; emptiness is told correctly; a node on no list is
  linked to itself, so removing it once more changes nothing.\<close>

theorem rt_list_run_refines_lists:
  assumes "list_ops_ok ({}, {}, L) es" "foldl lists_step ({}, {}, L) es = (H, N, L')"
  shows "(\<forall>h \<in> H. rt_list_for_each (Head h) (foldl links_step m es) = Some (map Node (L' h))
      \<and> rt_list_isempty (Head h) (foldl links_step m es) = (L' h = [])
      \<and> rt_list_len (Head h) (foldl links_step m es) = Some (of_nat (length (L' h))))
    \<and> (\<forall>n \<in> N. unlinked H L' n \<longrightarrow>
      rt_list_remove_p (Node n) (foldl links_step m es) = foldl links_step m es)"
proof
  have r: "realises H N (foldl links_step m es) L'"
    by (rule links_run_realises [OF realises_empty assms])
  show "\<forall>h \<in> H. rt_list_for_each (Head h) (foldl links_step m es) = Some (map Node (L' h))
      \<and> rt_list_isempty (Head h) (foldl links_step m es) = (L' h = [])
      \<and> rt_list_len (Head h) (foldl links_step m es) = Some (of_nat (length (L' h)))"
    using realises_reads [OF r] by blast
  show "\<forall>n \<in> N. unlinked H L' n \<longrightarrow>
      rt_list_remove_p (Node n) (foldl links_step m es) = foldl links_step m es"
    using realises_self [OF r] remove_twice by metis
qed

theorem rt_list_run_refines_lists_witness:
  "rt_list_for_each (Head 0) (foldl links_step \<lparr>nxt = id, prv = id\<rparr>
     [Init_Head (0 :: nat), Init_Head 1, Init_Node (7 :: nat), Init_Node 8, Init_Node 9, Insert_After 0 7,
      Insert_Before 0 8, Insert_Before_Node 8 9, Remove 7, Insert_After 1 7]) = Some [Node 9, Node 8]"
proof -
  let ?es = "[Init_Head (0 :: nat), Init_Head 1, Init_Node (7 :: nat), Init_Node 8, Init_Node 9, Insert_After 0 7,
      Insert_Before 0 8, Insert_Before_Node 8 9, Remove 7, Insert_After 1 7]"
  have ok: "list_ops_ok ({}, {}, \<lambda>_. []) ?es" by (simp add: unlinked_def insert_before_member_def)
  obtain H N L' where F: "foldl lists_step ({}, {}, \<lambda>_. []) ?es = (H, N, L')" by (metis prod_cases3)
  then have "0 \<in> H" "L' 0 = [9, 8]" by (auto simp: insert_before_member_def)
  with rt_list_run_refines_lists [OF ok F, of "\<lparr>nxt = id, prv = id\<rparr>"] show ?thesis by auto
qed

text \<open>A node inserted twice. Inserting a node that is still on another list is not noticed; from
  then on the new list reads as if nothing had happened, but a traversal of the old one runs into the new
  one and never ends.\<close>

theorem rt_list_double_insert_never_ends:
  assumes "realises H N m L" "h1 \<in> H" "h2 \<in> H" "h1 \<noteq> h2" "n \<in> set (L h1)"
  shows "rt_list_for_each (Head h1) (rt_list_insert_after_p (Head h2) (Node n) m) = None
    \<and> rt_list_for_each (Head h2) (rt_list_insert_after_p (Head h2) (Node n) m) = Some (map Node (n # L h2))"
  using insert_linked_diverges [OF assms] by simp

theorem rt_list_double_insert_never_ends_witness:
  "rt_list_for_each (Head 0) (rt_list_insert_after_p (Head 1) (Node 7) (foldl links_step \<lparr>nxt = id, prv = id\<rparr>
     [Init_Head (0 :: nat), Init_Head 1, Init_Node (7 :: nat), Insert_After 0 7])) = None"
proof -
  let ?es = "[Init_Head (0 :: nat), Init_Head 1, Init_Node (7 :: nat), Insert_After 0 7]"
  have ok: "list_ops_ok ({}, {}, \<lambda>_. []) ?es" by (simp add: unlinked_def)
  obtain H N L' where F: "foldl lists_step ({}, {}, \<lambda>_. []) ?es = (H, N, L')" by (metis prod_cases3)
  then have "0 \<in> H" "1 \<in> H" "7 \<in> set (L' 0)" by auto
  with rt_list_double_insert_never_ends [OF links_run_realises [OF realises_empty ok F], of 0 1 7 "\<lparr>nxt = id, prv = id\<rparr>"]
  show ?thesis by simp
qed

end
