(* ===== verification/ObjectReg.thy ===== *)
theory ObjectReg
  imports RtList Heap_Service
begin

text \<open>
  The object registry (\<open>object.c\<close>): per class of kernel objects a list of the objects that exist, linked
  through the objects with the pointers of \<open>RtList\<close>; registration of static objects, creation and
  deletion of dynamic ones on the heap, and lookup by name.
\<close>

unbundle bit_operations_syntax

section \<open>Names\<close>

text \<open>What \<open>rt_strncpy\<close> writes to a field of \<open>n\<close> bytes, and \<open>rt_strncmp\<close> of two fields, each as the
  bytes it works on. That they are the functions of \<open>kservice.c\<close> on memory is shown below.\<close>

definition strncpy_field :: "nat \<Rightarrow> u8 list \<Rightarrow> u8 list" where
  "strncpy_field n s = take n (s @ replicate n 0)"

fun strncmp_field :: "u8 list \<Rightarrow> u8 list \<Rightarrow> u8 \<Rightarrow> u8" where
  "strncmp_field (c # cs) (d # ds) res =
     (let r = word_of_int (uint c - uint d) in if r \<noteq> 0 \<or> c = 0 then r else strncmp_field cs ds r)"
| "strncmp_field _ _ res = res"

lemma strncpy_field_simps [simp]:
  "strncpy_field 0 s = []" "strncpy_field (Suc n) [] = 0 # strncpy_field n []"
  "strncpy_field (Suc n) (c # s) = c # strncpy_field n s"
proof -
  have "take n (s @ replicate n 0 @ [0 :: u8]) = take n (s @ replicate n 0)"
    by (cases "length s \<le> n") (simp_all add: min_def)
  then show "strncpy_field 0 s = []" "strncpy_field (Suc n) [] = 0 # strncpy_field n []"
    "strncpy_field (Suc n) (c # s) = c # strncpy_field n s"
    by (simp_all add: strncpy_field_def replicate_append_same [symmetric] del: replicate.simps(2))
      (simp_all add: replicate_append_same)
qed

lemma nth_strncpy_field: "i < n \<Longrightarrow> strncpy_field n s ! i = (if i < length s then s ! i else 0)"
  by (auto simp: strncpy_field_def nth_append)

lemma bytes_at_nth: "bytes_at m p n = map (\<lambda>i. m (p + of_nat i)) [0..<n]"
  by (induction n arbitrary: p) (simp_all add: upt_conv_Cons map_Suc_upt [symmetric] add.assoc del: upt_Suc)

lemma strncpy_field_memory:
  assumes "cstr m s cs" "\<And>a. a - d < n \<Longrightarrow> a \<notin> cstr_area s cs"
  shows "bytes_at (rt_strncpy d s n m) d (unat n) = strncpy_field (unat n) cs"
proof (rule nth_equalityI)
  fix i assume "i < length (bytes_at (rt_strncpy d s n m) d (unat n))"
  then have i: "i < unat n" by (simp add: bytes_at_nth)
  then have "unat (of_nat i :: u32) = i" using unat_u32 [of n] by (intro unat_word_of_nat) simp
  moreover from this have "(of_nat i :: u32) < n" using i by (simp add: word_less_nat_alt)
  ultimately show "bytes_at (rt_strncpy d s n m) d (unat n) ! i = strncpy_field (unat n) cs ! i"
    using i by (simp add: bytes_at_nth rt_strncpy_spec [OF assms] padded_copy_def nth_strncpy_field)
qed (simp add: bytes_at_nth strncpy_field_def)

lemma strncmp_field_memory:
  "strncmp_from p q n m r = strncmp_field (bytes_at m p (unat n)) (bytes_at m q (unat n)) r"
proof (induction "unat n" arbitrary: p q n r)
  case 0
  then show ?case by (simp add: strncmp_from.simps unat_eq_0 [symmetric])
next
  case (Suc k)
  then have n: "n \<noteq> 0" "unat (n - 1) = k" by (auto simp: unat_eq_0 [symmetric] unat_minus_one)
  with Suc.hyps(1) [of "n - 1"] Suc.hyps(2) [symmetric] show ?case
    by (subst strncmp_from.simps) (simp add: Let_def)
qed

lemma strncmp_field_0:
  "0 \<notin> set s \<Longrightarrow> 0 \<notin> set t \<Longrightarrow>
   strncmp_field (strncpy_field n s) (strncpy_field n t) 0 = 0 \<longleftrightarrow> take n s = take n t"
proof (induction n arbitrary: s t)
  case (Suc n)
  show ?case
    by (cases s; cases t) (use Suc in \<open>auto simp: Let_def byte_diff_0\<close>)
qed simp

lemma length_strncpy_field [simp]: "length (strncpy_field n s) = n"
  by (simp add: strncpy_field_def)

section \<open>Data\<close>

abbreviation (input) RT_NAME_MAX :: nat where "RT_NAME_MAX \<equiv> 16"
abbreviation (input) RT_Object_Class_Thread :: u8 where "RT_Object_Class_Thread \<equiv> 1"
abbreviation (input) RT_Object_Class_Device :: u8 where "RT_Object_Class_Device \<equiv> 9"
abbreviation (input) RT_Object_Class_Unknown :: u8 where "RT_Object_Class_Unknown \<equiv> 12"
abbreviation (input) RT_Object_Class_Static :: u8 where "RT_Object_Class_Static \<equiv> 0x80"

text \<open>\<open>struct rt_object\<close> without its links, and \<open>struct rt_object_information\<close> without its list head,
  which is the cell \<open>Head i\<close> of the entry's index \<open>i\<close>. An object is named by its address.\<close>

record rt_object =
  o_name :: "u8 list"
  o_type :: u8
  o_flag :: u8

record rt_object_information =
  i_type :: u8
  object_size :: u32

text \<open>The table of the configured classes: thread, semaphore, mutex, event, mailbox, message queue,
  memory pool, device, timer. The sizes are the compiler's.\<close>

definition rt_object_container :: "(u8 \<Rightarrow> u32) \<Rightarrow> rt_object_information list" where
  "rt_object_container sizeof = map (\<lambda>c. \<lparr>i_type = c, object_size = sizeof c\<rparr>) [1, 2, 3, 4, 5, 6, 8, 9, 10]"

text \<open>A hook is named by its address too; a call of it is noted in \<open>hook_calls\<close> and changes nothing else.\<close>

record registry =
  sizeof :: "u8 \<Rightarrow> u32"
  olinks :: "(nat, u32) cell links"
  objs :: "u32 \<Rightarrow> rt_object"
  oheap :: heap
  isr_nest :: u8
  attach_hook :: "nat option"
  detach_hook :: "nat option"
  trytake_hook :: "nat option"
  take_hook :: "nat option"
  put_hook :: "nat option"
  hook_calls :: "(nat \<times> u32) list"

section \<open>Operations\<close>

definition rt_object_attach_sethook :: "nat option \<Rightarrow> 'a registry_scheme \<Rightarrow> 'a registry_scheme" where
  "rt_object_attach_sethook f r = r\<lparr>attach_hook := f\<rparr>"

definition rt_object_detach_sethook :: "nat option \<Rightarrow> 'a registry_scheme \<Rightarrow> 'a registry_scheme" where
  "rt_object_detach_sethook f r = r\<lparr>detach_hook := f\<rparr>"

definition rt_object_trytake_sethook :: "nat option \<Rightarrow> 'a registry_scheme \<Rightarrow> 'a registry_scheme" where
  "rt_object_trytake_sethook f r = r\<lparr>trytake_hook := f\<rparr>"

definition rt_object_take_sethook :: "nat option \<Rightarrow> 'a registry_scheme \<Rightarrow> 'a registry_scheme" where
  "rt_object_take_sethook f r = r\<lparr>take_hook := f\<rparr>"

definition rt_object_put_sethook :: "nat option \<Rightarrow> 'a registry_scheme \<Rightarrow> 'a registry_scheme" where
  "rt_object_put_sethook f r = r\<lparr>put_hook := f\<rparr>"

definition object_hook_call :: "nat option \<Rightarrow> u32 \<Rightarrow> 'a registry_scheme \<Rightarrow> 'a registry_scheme" where
  "object_hook_call hook obj r =
     (case hook of Some f \<Rightarrow> r\<lparr>hook_calls := hook_calls r @ [(f, obj)]\<rparr> | None \<Rightarrow> r)"

fun information_from :: "nat \<Rightarrow> rt_object_information list \<Rightarrow> u8 \<Rightarrow> nat option" where
  "information_from index [] ty = None"
| "information_from index (x # xs) ty = (if i_type x = ty then Some index else information_from (Suc index) xs ty)"

definition rt_object_get_information :: "u8 \<Rightarrow> 'a registry_scheme \<Rightarrow> nat option" where
  "rt_object_get_information ty r = information_from 0 (rt_object_container (sizeof r)) ty"

definition upd_obj :: "u32 \<Rightarrow> (rt_object \<Rightarrow> rt_object) \<Rightarrow> 'a registry_scheme \<Rightarrow> 'a registry_scheme" where
  "upd_obj obj f r = r\<lparr>objs := (objs r)(obj := f (objs r obj))\<rparr>"

definition upd_links :: "((nat, u32) cell links \<Rightarrow> (nat, u32) cell links) \<Rightarrow> 'a registry_scheme \<Rightarrow> 'a registry_scheme" where
  "upd_links f r = r\<lparr>olinks := f (olinks r)\<rparr>"

text \<open>\<open>rt_object_init\<close>: first the search for the object in its class, with the scheduler locked, then
  the fields, and the insertion with interrupts disabled.\<close>

definition rt_object_init_check :: "u32 \<Rightarrow> u8 \<Rightarrow> 'a registry_scheme \<Rightarrow> nat option" where
  "rt_object_init_check obj ty r = do {
     i \<leftarrow> rt_object_get_information ty r;
     nodes \<leftarrow> rt_list_for_each (Head i) (olinks r);
     if Node obj \<in> set nodes then None else Some i
   }"

definition rt_object_init_insert :: "u32 \<Rightarrow> u8 \<Rightarrow> u8 list \<Rightarrow> nat \<Rightarrow> 'a registry_scheme \<Rightarrow> 'a registry_scheme" where
  "rt_object_init_insert obj ty name i r =
     (let r1 = upd_obj obj (\<lambda>x. x\<lparr>o_type := ty OR RT_Object_Class_Static, o_name := strncpy_field RT_NAME_MAX name\<rparr>) r;
          r2 = object_hook_call (attach_hook r1) obj r1 in
      upd_links (rt_list_insert_after_p (Head i) (Node obj)) r2)"

definition rt_object_init :: "u32 \<Rightarrow> u8 \<Rightarrow> u8 list \<Rightarrow> 'a registry_scheme \<Rightarrow> 'a registry_scheme option" where
  "rt_object_init obj ty name r = do {
     i \<leftarrow> rt_object_init_check obj ty r;
     Some (rt_object_init_insert obj ty name i r)
   }"

definition rt_object_detach :: "u32 \<Rightarrow> 'a registry_scheme \<Rightarrow> 'a registry_scheme option" where
  "rt_object_detach obj r =
     (if obj \<noteq> 0
      then
        (let r1 = object_hook_call (detach_hook r) obj r;
             r2 = upd_obj obj (\<lambda>x. x\<lparr>o_type := 0\<rparr>) r1 in
         Some (upd_links (rt_list_remove_p (Node obj)) r2))
      else None)"

definition rt_object_allocate :: "u8 \<Rightarrow> u8 list \<Rightarrow> 'a registry_scheme \<Rightarrow> (u32 \<times> 'a registry_scheme) option" where
  "rt_object_allocate ty name r =
     (if isr_nest r = 0
      then do {
        i \<leftarrow> rt_object_get_information ty r;
        let sz = object_size (rt_object_container (sizeof r) ! i);
        (obj, h) \<leftarrow> rt_malloc sz (oheap r);
        if obj = 0 then Some (0, r\<lparr>oheap := h\<rparr>)
        else
          (let r1 = r\<lparr>oheap := fill_bytes obj 0 sz h\<rparr>;
               r2 = upd_obj obj (\<lambda>_. \<lparr>o_name = strncpy_field RT_NAME_MAX name, o_type = ty, o_flag = 0\<rparr>) r1;
               r3 = object_hook_call (attach_hook r2) obj r2 in
           Some (obj, upd_links (rt_list_insert_after_p (Head i) (Node obj)) r3))
      }
      else None)"

definition rt_object_delete :: "u32 \<Rightarrow> 'a registry_scheme \<Rightarrow> 'a registry_scheme option" where
  "rt_object_delete obj r =
     (if obj \<noteq> 0 \<and> o_type (objs r obj) AND RT_Object_Class_Static = 0
      then
        (let r1 = object_hook_call (detach_hook r) obj r;
             r2 = upd_obj obj (\<lambda>x. x\<lparr>o_type := 0\<rparr>) r1;
             r3 = upd_links (rt_list_remove_p (Node obj)) r2 in
         map_option (\<lambda>h. r3\<lparr>oheap := h\<rparr>) (rt_free obj (oheap r3)))
      else None)"

definition rt_object_is_systemobject :: "u32 \<Rightarrow> 'a registry_scheme \<Rightarrow> bool option" where
  "rt_object_is_systemobject obj r =
     (if obj \<noteq> 0 then Some (o_type (objs r obj) AND RT_Object_Class_Static \<noteq> 0) else None)"

definition rt_object_get_type :: "u32 \<Rightarrow> 'a registry_scheme \<Rightarrow> u8 option" where
  "rt_object_get_type obj r =
     (if obj \<noteq> 0 then Some (o_type (objs r obj) AND NOT RT_Object_Class_Static) else None)"

text \<open>The search of \<open>rt_object_find\<close> and \<open>rt_device_find\<close>, from a cell of the list to its head. On links
  that lead to another head the code would read that head as an object: \<open>None\<close>.\<close>

partial_function (option) find_from :: "'a registry_scheme \<Rightarrow> nat \<Rightarrow> u8 list \<Rightarrow> (nat, u32) cell \<Rightarrow> u32 option option" where
  "find_from r i name node =
     (case node of
        Head j \<Rightarrow> (if j = i then Some None else None)
      | Node obj \<Rightarrow>
          if strncmp_field (o_name (objs r obj)) (strncpy_field RT_NAME_MAX name) 0 = 0 then Some (Some obj)
          else find_from r i name (nxt (olinks r) node))"

definition rt_object_find :: "u8 list option \<Rightarrow> u8 \<Rightarrow> 'a registry_scheme \<Rightarrow> u32 option option" where
  "rt_object_find name ty r =
     (case name of
        None \<Rightarrow> Some None
      | Some s \<Rightarrow>
          if RT_Object_Class_Unknown < ty then Some None
          else if isr_nest r \<noteq> 0 then None
          else do {
            i \<leftarrow> rt_object_get_information ty r;
            find_from r i s (nxt (olinks r) (Head i))
          })"

section \<open>The registry as bindings\<close>

text \<open>The abstract registry: per class the objects with the names they were given, the newest first, and
  the objects whose nodes have been linked once. An operation is refused (\<open>None\<close>) where an assertion
  of the source fails.\<close>

type_synonym bindings = "nat \<Rightarrow> (u32 \<times> u8 list) list"

definition class_of :: "nat \<Rightarrow> u8" where
  "class_of i = [1, 2, 3, 4, 5, 6, 8, 9, 10] ! i"

definition class_index :: "u8 \<Rightarrow> nat option" where
  "class_index ty = information_from 0 (rt_object_container (\<lambda>_. 0)) ty"

datatype reg_op = Register u32 u8 "u8 list" | Unregister u32 | Lookup "u8 list option" u8

datatype reg_result = Done | Found "u32 option"

fun bindings_step :: "u32 set \<times> bindings \<Rightarrow> reg_op \<Rightarrow> (reg_result \<times> u32 set \<times> bindings) option" where
  "bindings_step (N, B) (Register obj ty s) =
     (case class_index ty of
        None \<Rightarrow> None
      | Some i \<Rightarrow> if obj \<in> fst ` set (B i) then None else Some (Done, insert obj N, B(i := (obj, s) # B i)))"
| "bindings_step (N, B) (Unregister obj) =
     (if obj = 0 then None else Some (Done, N, \<lambda>i. filter (\<lambda>b. fst b \<noteq> obj) (B i)))"
| "bindings_step (N, B) (Lookup None ty) = Some (Found None, N, B)"
| "bindings_step (N, B) (Lookup (Some s) ty) =
     (if RT_Object_Class_Unknown < ty then Some (Found None, N, B)
      else case class_index ty of
        None \<Rightarrow> None
      | Some i \<Rightarrow> Some (Found (map_option fst (List.find (\<lambda>b. take RT_NAME_MAX (snd b) = take RT_NAME_MAX s) (B i))), N, B))"

fun registry_step :: "'a registry_scheme \<Rightarrow> reg_op \<Rightarrow> (reg_result \<times> 'a registry_scheme) option" where
  "registry_step r (Register obj ty s) = map_option (Pair Done) (rt_object_init obj ty s r)"
| "registry_step r (Unregister obj) = map_option (Pair Done) (rt_object_detach obj r)"
| "registry_step r (Lookup s ty) = map_option (\<lambda>x. (Found x, r)) (rt_object_find s ty r)"

text \<open>What the callers see to: names are C strings, an object is not registered while it is in another
  class, and only an object that was registered once is taken out.\<close>

fun reg_op_ok :: "u32 set \<times> bindings \<Rightarrow> reg_op \<Rightarrow> bool" where
  "reg_op_ok (N, B) (Register obj ty s) \<longleftrightarrow> obj \<noteq> 0 \<and> 0 \<notin> set s
     \<and> (\<forall>i < 9. obj \<in> fst ` set (B i) \<longrightarrow> class_index ty = Some i)"
| "reg_op_ok (N, B) (Unregister obj) \<longleftrightarrow> obj = 0 \<or> obj \<in> N"
| "reg_op_ok (N, B) (Lookup s ty) \<longleftrightarrow> (\<forall>n. s = Some n \<longrightarrow> 0 \<notin> set n)"

fun run_ops :: "('s \<Rightarrow> 'o \<Rightarrow> ('r \<times> 's) option) \<Rightarrow> 's \<Rightarrow> 'o list \<Rightarrow> ('r list \<times> 's) option" where
  "run_ops step s [] = Some ([], s)"
| "run_ops step s (e # es) = do {
     (x, s1) \<leftarrow> step s e;
     (xs, s2) \<leftarrow> run_ops step s1 es;
     Some (x # xs, s2)
   }"

fun reg_ops_ok :: "u32 set \<times> bindings \<Rightarrow> reg_op list \<Rightarrow> bool" where
  "reg_ops_ok S [] \<longleftrightarrow> True"
| "reg_ops_ok S (e # es) \<longleftrightarrow> reg_op_ok S e \<and> (\<forall>x S'. bindings_step S e = Some (x, S') \<longrightarrow> reg_ops_ok S' es)"

definition entry_ok :: "rt_object \<Rightarrow> nat \<Rightarrow> u32 \<times> u8 list \<Rightarrow> bool" where
  "entry_ok x i b \<longleftrightarrow> fst b \<noteq> 0 \<and> 0 \<notin> set (snd b) \<and> o_name x = strncpy_field RT_NAME_MAX (snd b)
     \<and> o_type x AND NOT RT_Object_Class_Static = class_of i"

definition represents :: "'a registry_scheme \<Rightarrow> u32 set \<Rightarrow> bindings \<Rightarrow> bool" where
  "represents r N B \<longleftrightarrow> realises {..<9} N (olinks r) (\<lambda>i. map fst (B i))
     \<and> (\<forall>i < 9. \<forall>b \<in> set (B i). entry_ok (objs r (fst b)) i b)"

subsection \<open>Classes\<close>

lemma get_information_eq: "rt_object_get_information ty r = class_index ty"
  by (simp add: rt_object_get_information_def class_index_def rt_object_container_def)

lemma class_index_Some: "class_index ty = Some i \<Longrightarrow> i < 9 \<and> class_of i = ty"
  by (auto simp: class_index_def rt_object_container_def class_of_def split: if_splits)

lemma class_index_of: "i < 9 \<Longrightarrow> class_index (class_of i) = Some i"
proof -
  have "\<forall>i \<in> {..<9}. class_index (class_of i) = Some i"
    by (simp add: lessThan_nat_numeral lessThan_Suc class_index_def rt_object_container_def class_of_def)
  then show "i < 9 \<Longrightarrow> class_index (class_of i) = Some i" by simp
qed

lemma class_bits: "class_index ty = Some i \<Longrightarrow> ty AND 0x80 = 0 \<and> (ty OR 0x80) AND NOT 0x80 = ty \<and> ty AND NOT 0x80 = ty"
  by (auto simp: class_index_def rt_object_container_def split: if_splits)

subsection \<open>The operations\<close>

lemma map_fst_filter: "map fst (filter (\<lambda>b. fst b \<noteq> x) bs) = removeAll x (map fst bs)"
  by (induction bs) auto

lemma find_map_fst: "List.find P (map fst bs) = map_option fst (List.find (\<lambda>b. P (fst b)) bs)"
  by (induction bs) auto

lemma hook_call_simps [simp]:
  "objs (object_hook_call h x r) = objs r" "olinks (object_hook_call h x r) = olinks r"
  "oheap (object_hook_call h x r) = oheap r" "isr_nest (object_hook_call h x r) = isr_nest r"
  "sizeof (object_hook_call h x r) = sizeof r"
  by (simp_all add: object_hook_call_def split: option.split)

lemma represents_walk:
  "represents r N B \<Longrightarrow> i < 9 \<Longrightarrow> rt_list_for_each (Head i) (olinks r) = Some (map Node (map fst (B i)))"
  using realises_reads [of "{..<9}" N "olinks r" "\<lambda>i. map fst (B i)" i] by (auto simp: represents_def)

lemma represents_insert:
  assumes rep: "represents r N B" and i: "i < 9" and x: "entry_ok x i (obj, s)"
    and new: "\<forall>j < 9. obj \<notin> fst ` set (B j)"
    and l: "olinks r' = rt_list_insert_after_p (Head i) (Node obj) (olinks r)" and o: "objs r' = (objs r)(obj := x)"
  shows "represents r' (insert obj N) (B(i := (obj, s) # B i))"
proof -
  let ?L = "\<lambda>i. map fst (B i)"
  have r: "realises {..<9} N (olinks r) ?L" using rep by (simp add: represents_def)
  have "unlinked {..<9} ?L obj" using new by (auto simp: unlinked_def)
  then have "realises {..<9} (insert obj N) (olinks r') (?L(i := obj # ?L i))"
    unfolding l using i by (intro realises_attach [OF r]) auto
  moreover have "?L(i := obj # ?L i) = (\<lambda>j. map fst ((B(i := (obj, s) # B i)) j))" by auto
  moreover have "entry_ok (objs r' (fst b)) j b" if "j < 9" "b \<in> set ((B(i := (obj, s) # B i)) j)" for j b
  proof (cases "j = i \<and> b = (obj, s)")
    case True
    with x o show ?thesis by simp
  next
    case False
    then have b: "b \<in> set (B j)" using that by (auto split: if_splits)
    then have "fst b \<noteq> obj" using new that(1) by force
    with b rep that(1) o show ?thesis by (auto simp: represents_def)
  qed
  ultimately show ?thesis by (simp add: represents_def)
qed

lemma represents_remove:
  assumes rep: "represents r N B" and n: "obj \<in> N"
    and l: "olinks r' = rt_list_remove_p (Node obj) (olinks r)" and o: "\<forall>p. p \<noteq> obj \<longrightarrow> objs r' p = objs r p"
  shows "represents r' N (\<lambda>i. filter (\<lambda>b. fst b \<noteq> obj) (B i))"
  using realises_remove [of "{..<9}" N "olinks r" "\<lambda>i. map fst (B i)" obj] rep n o
  by (auto simp: represents_def l map_fst_filter)

lemma find_from_seg:
  "seg (olinks r) a (map Node xs) (Head i) \<Longrightarrow>
   find_from r i name (nxt (olinks r) a) =
     Some (List.find (\<lambda>x. strncmp_field (o_name (objs r x)) (strncpy_field 16 name) 0 = 0) xs)"
proof (induction xs arbitrary: a)
  case Nil
  then show ?case by (simp add: find_from.simps)
next
  case (Cons x xs)
  then show ?case by (subst find_from.simps) auto
qed

lemma find_from_represents:
  assumes rep: "represents r N B" and i: "i < 9" and s: "0 \<notin> set name"
  shows "find_from r i name (nxt (olinks r) (Head i)) =
    Some (map_option fst (List.find (\<lambda>b. take 16 (snd b) = take 16 name) (B i)))"
proof -
  have "ring (olinks r) (Head i) (map Node (map fst (B i)))"
    using realises_ring [of "{..<9}" N "olinks r" "\<lambda>i. map fst (B i)" i] rep i by (simp add: represents_def)
  then have "seg (olinks r) (Head i) (map Node (map fst (B i))) (Head i)" by (simp add: ring_def)
  from find_from_seg [OF this, of name]
  have "find_from r i name (nxt (olinks r) (Head i)) = Some (map_option fst
      (List.find (\<lambda>b. strncmp_field (o_name (objs r (fst b))) (strncpy_field 16 name) 0 = 0) (B i)))"
    by (simp only: find_map_fst)
  also have "List.find (\<lambda>b. strncmp_field (o_name (objs r (fst b))) (strncpy_field 16 name) 0 = 0) (B i)
    = List.find (\<lambda>b. take 16 (snd b) = take 16 name) (B i)"
    using rep i s by (intro find_cong) (auto simp: represents_def entry_ok_def strncmp_field_0)
  finally show ?thesis .
qed

lemma registry_step_simulates:
  assumes rep: "represents r N B" and nest: "isr_nest r = 0" and ok: "reg_op_ok (N, B) e"
  shows "bindings_step (N, B) e = None \<Longrightarrow> registry_step r e = None"
    and "bindings_step (N, B) e = Some (x, N', B') \<Longrightarrow>
      \<exists>r'. registry_step r e = Some (x, r') \<and> represents r' N' B' \<and> isr_nest r' = 0"
proof -
  have "case bindings_step (N, B) e of None \<Rightarrow> registry_step r e = None
    | Some (x, N', B') \<Rightarrow> \<exists>r'. registry_step r e = Some (x, r') \<and> represents r' N' B' \<and> isr_nest r' = 0"
  proof (cases e)
    case (Register obj ty s)
    show ?thesis
    proof (cases "class_index ty")
      case None
      then show ?thesis by (simp add: Register rt_object_init_def rt_object_init_check_def get_information_eq)
    next
      case (Some i)
      note i = class_index_Some [OF Some]
      have chk: "rt_object_init_check obj ty r = (if obj \<in> fst ` set (B i) then None else Some i)"
        using represents_walk [OF rep, of i] i Some
        by (auto simp: rt_object_init_check_def get_information_eq)
      show ?thesis
      proof (cases "obj \<in> fst ` set (B i)")
        case True
        then show ?thesis by (simp add: Register Some rt_object_init_def chk)
      next
        case False
        let ?x = "(objs r obj)\<lparr>o_type := ty OR 0x80, o_name := strncpy_field 16 s\<rparr>"
        have "represents (rt_object_init_insert obj ty s i r) (insert obj N) (B(i := (obj, s) # B i))"
          using i False ok Some class_bits [OF Some]
          by (intro represents_insert [OF rep, where x = ?x])
            (auto simp: Register rt_object_init_insert_def Let_def upd_links_def upd_obj_def entry_ok_def)
        with False nest show ?thesis
          by (auto simp: Register Some rt_object_init_def chk rt_object_init_insert_def Let_def upd_links_def upd_obj_def)
      qed
    qed
  next
    case (Unregister obj)
    show ?thesis
    proof (cases "obj = 0")
      case True
      then show ?thesis by (simp add: Unregister rt_object_detach_def)
    next
      case False
      then obtain r' where r': "rt_object_detach obj r = Some r'"
        "olinks r' = rt_list_remove_p (Node obj) (olinks r)" "\<forall>p. p \<noteq> obj \<longrightarrow> objs r' p = objs r p" "isr_nest r' = 0"
        using nest by (simp add: rt_object_detach_def Let_def upd_links_def upd_obj_def)
      with represents_remove [OF rep _ r'(2,3)] False ok show ?thesis by (auto simp: Unregister)
    qed
  next
    case (Lookup s ty)
    show ?thesis
    proof (cases s)
      case None
      with rep nest show ?thesis by (simp add: Lookup rt_object_find_def)
    next
      case (Some n)
      with rep nest ok find_from_represents [OF rep, of _ n] show ?thesis
        by (auto simp: Lookup rt_object_find_def get_information_eq dest: class_index_Some split: option.split)
    qed
  qed
  then show "bindings_step (N, B) e = None \<Longrightarrow> registry_step r e = None"
    "bindings_step (N, B) e = Some (x, N', B') \<Longrightarrow>
      \<exists>r'. registry_step r e = Some (x, r') \<and> represents r' N' B' \<and> isr_nest r' = 0"
    by auto
qed

lemma registry_run_simulates:
  "represents r N B \<Longrightarrow> isr_nest r = 0 \<Longrightarrow> reg_ops_ok (N, B) es \<Longrightarrow>
   (case run_ops bindings_step (N, B) es of
      None \<Rightarrow> run_ops registry_step r es = None
    | Some (xs, N', B') \<Rightarrow> \<exists>r'. run_ops registry_step r es = Some (xs, r') \<and> represents r' N' B' \<and> isr_nest r' = 0)"
proof (induction es arbitrary: r N B)
  case Nil
  then show ?case by simp
next
  case (Cons e es)
  have ok: "reg_op_ok (N, B) e" using Cons.prems(3) by simp
  show ?case
  proof (cases "bindings_step (N, B) e")
    case None
    with registry_step_simulates(1) [OF Cons.prems(1,2) ok] show ?thesis by simp
  next
    case (Some y)
    then obtain x N1 B1 where st: "bindings_step (N, B) e = Some (x, N1, B1)" by (metis prod_cases3)
    from registry_step_simulates(2) [OF Cons.prems(1,2) ok st] obtain r1 where
      r1: "registry_step r e = Some (x, r1)" "represents r1 N1 B1" "isr_nest r1 = 0" by blast
    have "reg_ops_ok (N1, B1) es" using Cons.prems(3) st by simp
    from Cons.IH [OF r1(2,3) this] show ?thesis
      by (auto simp: st r1(1) split: option.splits)
  qed
qed

subsection \<open>Objects on the heap\<close>

definition in_heap :: "heap \<Rightarrow> u32 \<Rightarrow> bool" where
  "in_heap h p \<longleftrightarrow> heap_ptr h \<le> p \<and> p < heap_ptr h + heap_end h"

definition dynamic :: "rt_object \<Rightarrow> bool" where
  "dynamic x \<longleftrightarrow> o_type x AND RT_Object_Class_Static = 0"

text \<open>The registered objects that lie in the heap, and all that are not static, are blocks in use.\<close>

definition objects_in_heap :: "'a registry_scheme \<Rightarrow> bindings \<Rightarrow> bool" where
  "objects_in_heap r B \<longleftrightarrow> heap_ok (oheap r)
     \<and> (\<forall>i < 9. \<forall>b \<in> set (B i). in_heap (oheap r) (fst b) \<or> dynamic (objs r (fst b)) \<longrightarrow> fst b \<in> heap_live (oheap r))"

lemma rt_malloc_cases:
  assumes "heap_ok h"
  obtains "rt_malloc sz h = Some (0, h)"
  | p h' where "rt_malloc sz h = Some (p, h')" "p \<noteq> 0" "heap_alloc h sz = Some (p, h')" "in_heap h p" "same_heap h h'"
proof -
  have hb: "heap_blocks h (heap_offsets h)" and g: "geom h (heap_offsets h)"
    using assms by (auto simp: heap_ok_def heap_blocks_def)
  from rt_malloc_spec [OF hb, of sz] show ?thesis
  proof (elim disjE conjE exE)
    fix m h'
    assume m: "rt_malloc sz h = Some (user_ptr h m, h')" "first_fit h (heap_offsets h) (req_len sz) m" "same_heap h h'"
    then have "m \<in> set (heap_offsets h)" by (simp add: first_fit_def)
    note u = user_ptr_facts [OF g this]
    show ?thesis by (rule that(2) [OF m(1)]) (use u m in \<open>simp_all add: heap_alloc_def in_heap_def\<close>)
  qed (use that(1) in simp_all)
qed

lemma in_heap_same: "same_heap h h' \<Longrightarrow> in_heap h' = in_heap h"
  by (auto simp: in_heap_def same_heap_def heap_end_def fun_eq_iff)

lemma in_heap_bytes [simp]: "in_heap (h\<lparr>bytes := f\<rparr>) = in_heap h"
  by (auto simp: in_heap_def heap_end_def fun_eq_iff)

lemma object_allocate_spec:
  assumes rep: "represents r N B" and oh: "objects_in_heap r B" and nest: "isr_nest r = 0"
    and ty: "class_index ty = Some i" and s: "0 \<notin> set s"
  obtains "rt_object_allocate ty s r = Some (0, r)"
  | obj r' where "rt_object_allocate ty s r = Some (obj, r')" "obj \<noteq> 0" "obj \<notin> heap_live (oheap r)"
    "heap_live (oheap r') = insert obj (heap_live (oheap r))"
    "\<forall>c \<in> heap_live (oheap r). heap_region (oheap r') c = heap_region (oheap r) c"
    "represents r' (insert obj N) (B(i := (obj, s) # B i))" "objects_in_heap r' (B(i := (obj, s) # B i))"
    "isr_nest r' = 0" "objs r' = (objs r)(obj := \<lparr>o_name = strncpy_field 16 s, o_type = ty, o_flag = 0\<rparr>)"
    "\<forall>j < 9. obj \<notin> fst ` set (B j)"
proof -
  note i = class_index_Some [OF ty] and bits = class_bits [OF ty]
  let ?sz = "object_size (rt_object_container (sizeof r) ! i)"
  have ok: "heap_ok (oheap r)" using oh by (simp add: objects_in_heap_def)
  show ?thesis
  proof (rule rt_malloc_cases [OF ok, of ?sz])
    assume "rt_malloc ?sz (oheap r) = Some (0, oheap r)"
    then have "rt_object_allocate ty s r = Some (0, r)"
      by (simp add: rt_object_allocate_def nest get_information_eq ty)
    then show ?thesis by (rule that(1))
  next
    fix p h' assume m: "rt_malloc ?sz (oheap r) = Some (p, h')" "p \<noteq> 0" "heap_alloc (oheap r) ?sz = Some (p, h')"
      "in_heap (oheap r) p" "same_heap (oheap r) h'"
    note f = heap_alloc_fresh [OF ok m(3)]
    define r' where "r' = upd_links (rt_list_insert_after_p (Head i) (Node p))
      (object_hook_call (attach_hook r) p
        (upd_obj p (\<lambda>_. \<lparr>o_name = strncpy_field 16 s, o_type = ty, o_flag = 0\<rparr>) (r\<lparr>oheap := fill_bytes p 0 ?sz h'\<rparr>)))"
    have a: "rt_object_allocate ty s r = Some (p, r')"
      using m(1,2) by (simp add: rt_object_allocate_def nest get_information_eq ty r'_def Let_def upd_obj_def)
    have e: "oheap r' = h'\<lparr>bytes := bytes (oheap r')\<rparr>" "isr_nest r' = 0"
      "objs r' = (objs r)(p := \<lparr>o_name = strncpy_field 16 s, o_type = ty, o_flag = 0\<rparr>)"
      "olinks r' = rt_list_insert_after_p (Head i) (Node p) (olinks r)"
      using nest by (simp_all add: r'_def upd_links_def upd_obj_def fill_bytes_def)
    have h: "heap_live (oheap r') = heap_live h'" "heap_ok (oheap r') = heap_ok h'"
      "heap_region (oheap r') = heap_region h'" "in_heap (oheap r') = in_heap (oheap r)"
      using in_heap_same [OF m(5)] by (subst e(1), simp)+
    have new: "\<forall>j < 9. p \<notin> fst ` set (B j)"
      using oh m(4) f by (auto simp: objects_in_heap_def)
    have rep': "represents r' (insert p N) (B(i := (p, s) # B i))"
      using i s m(2) new bits e(3,4) by (intro represents_insert [OF rep]) (auto simp: entry_ok_def)
    have "objects_in_heap r' (B(i := (p, s) # B i))"
      using oh f new i by (auto simp: objects_in_heap_def h e(3) split: if_splits)
    with a m(2) f h rep' e(2,3) new show ?thesis by (intro that(2)) auto
  qed
qed

lemma object_delete_spec:
  assumes rep: "represents r N B" and oh: "objects_in_heap r B"
    and b: "i < 9" "b \<in> set (B i)" "fst b = obj" and d: "dynamic (objs r obj)"
  obtains r' where "rt_object_delete obj r = Some r'"
    "represents r' N (\<lambda>i. filter (\<lambda>b. fst b \<noteq> obj) (B i))" "objects_in_heap r' (\<lambda>i. filter (\<lambda>b. fst b \<noteq> obj) (B i))"
    "heap_live (oheap r') = heap_live (oheap r) - {obj}" "isr_nest r' = isr_nest r"
    "\<forall>c \<in> heap_live (oheap r'). heap_region (oheap r') c = heap_region (oheap r) c"
    "objs r' = (objs r)(obj := (objs r obj)\<lparr>o_type := 0\<rparr>)"
proof -
  have nz: "obj \<noteq> 0" using rep b by (auto simp: represents_def entry_ok_def)
  have n: "obj \<in> N" using rep b realises_sub [of "{..<9}" N "olinks r" "\<lambda>i. map fst (B i)" i obj]
    by (auto simp: represents_def)
  have ok: "heap_ok (oheap r)" "obj \<in> heap_live (oheap r)" using oh b d by (auto simp: objects_in_heap_def)
  from heap_free_live [OF this] obtain h' where h': "rt_free obj (oheap r) = Some h'" "heap_ok h'"
    "heap_live h' = heap_live (oheap r) - {obj}" "same_heap (oheap r) h'"
    "\<forall>c \<in> heap_live h'. heap_region h' c = heap_region (oheap r) c" by (auto simp: heap_free_def)
  define r' where "r' = (upd_links (rt_list_remove_p (Node obj))
    (upd_obj obj (\<lambda>x. x\<lparr>o_type := 0\<rparr>) (object_hook_call (detach_hook r) obj r)))\<lparr>oheap := h'\<rparr>"
  have e: "oheap r' = h'" "isr_nest r' = isr_nest r" "objs r' = (objs r)(obj := (objs r obj)\<lparr>o_type := 0\<rparr>)"
    "olinks r' = rt_list_remove_p (Node obj) (olinks r)"
    by (simp_all add: r'_def upd_links_def upd_obj_def)
  have "rt_object_delete obj r = Some r'"
    using d nz h'(1) by (simp add: rt_object_delete_def dynamic_def r'_def Let_def upd_links_def upd_obj_def)
  moreover have "represents r' N (\<lambda>i. filter (\<lambda>b. fst b \<noteq> obj) (B i))"
    by (rule represents_remove [OF rep n]) (simp_all add: e)
  moreover have "objects_in_heap r' (\<lambda>i. filter (\<lambda>b. fst b \<noteq> obj) (B i))"
    using oh h' in_heap_same [OF h'(4)] by (auto simp: objects_in_heap_def e)
  ultimately show ?thesis using h' e by (intro that) auto
qed

section \<open>The start\<close>

text \<open>The static table: nine heads linked to themselves, no object, no hook.\<close>

definition registry_start :: "(u8 \<Rightarrow> u32) \<Rightarrow> heap \<Rightarrow> registry" where
  "registry_start sz h = \<lparr>sizeof = sz, olinks = \<lparr>nxt = (\<lambda>c. c), prv = (\<lambda>c. c)\<rparr>,
     objs = (\<lambda>_. \<lparr>o_name = [], o_type = 0, o_flag = 0\<rparr>), oheap = h, isr_nest = 0, attach_hook = None,
     detach_hook = None, trytake_hook = None, take_hook = None, put_hook = None, hook_calls = []\<rparr>"

lemma registry_start_represents: "represents (registry_start sz h) {} (\<lambda>_. [])"
  by (simp add: represents_def registry_start_def realises_def ring_def)

section \<open>The registry as an allocator\<close>

definition obj_inv :: "'a registry_scheme \<Rightarrow> bool" where
  "obj_inv r \<longleftrightarrow> isr_nest r = 0 \<and> (\<exists>N B. represents r N B \<and> objects_in_heap r B)"

text \<open>The dynamic objects that exist: those a walk over the lists meets.\<close>

definition obj_live :: "'a registry_scheme \<Rightarrow> u32 set" where
  "obj_live r = {obj. dynamic (objs r obj) \<and>
     (\<exists>i < 9. \<exists>ns. rt_list_for_each (Head i) (olinks r) = Some ns \<and> Node obj \<in> set ns)}"

definition obj_region :: "'a registry_scheme \<Rightarrow> u32 \<Rightarrow> nat set" where
  "obj_region r obj = heap_region (oheap r) obj"

definition obj_alloc :: "'a registry_scheme \<Rightarrow> u8 \<times> u8 list \<Rightarrow> (u32 \<times> 'a registry_scheme) option" where
  "obj_alloc r q = Option.bind (rt_object_allocate (fst q) (snd q) r) (\<lambda>(p, r'). if p = 0 then None else Some (p, r'))"

definition obj_free :: "'a registry_scheme \<Rightarrow> u32 \<Rightarrow> 'a registry_scheme option" where
  "obj_free r obj = rt_object_delete obj r"

definition obj_request_ok :: "u8 \<times> u8 list \<Rightarrow> bool" where
  "obj_request_ok q \<longleftrightarrow> class_index (fst q) \<noteq> None \<and> 0 \<notin> set (snd q)"

lemma obj_live_eq:
  assumes "represents r N B"
  shows "obj_live r = {obj. dynamic (objs r obj) \<and> (\<exists>i < 9. obj \<in> fst ` set (B i))}"
proof -
  have "(\<exists>ns. rt_list_for_each (Head i) (olinks r) = Some ns \<and> Node obj \<in> set ns) \<longleftrightarrow> obj \<in> fst ` set (B i)"
    if "i < 9" for i obj
    unfolding represents_walk [OF assms that] by auto
  then show ?thesis unfolding obj_live_def by blast
qed

lemma live_in_heap: "represents r N B \<Longrightarrow> objects_in_heap r B \<Longrightarrow> obj_live r \<subseteq> heap_live (oheap r)"
  by (auto simp: obj_live_eq objects_in_heap_def)

lemma obj_alloc_fresh:
  assumes inv: "obj_inv r" and q: "obj_request_ok q" and a: "obj_alloc r q = Some (obj, r')"
  shows "obj_inv r' \<and> obj \<notin> obj_live r \<and> obj_live r' = insert obj (obj_live r)
    \<and> (\<forall>c \<in> obj_live r. obj_region r' c = obj_region r c)"
proof -
  obtain N B where rep: "represents r N B" and oh: "objects_in_heap r B" and nest: "isr_nest r = 0"
    using inv by (auto simp: obj_inv_def)
  obtain i where ty: "class_index (fst q) = Some i" and s: "0 \<notin> set (snd q)" using q by (auto simp: obj_request_ok_def)
  note i = class_index_Some [OF ty]
  show ?thesis
  proof (rule object_allocate_spec [OF rep oh nest ty s])
    assume "rt_object_allocate (fst q) (snd q) r = Some (0, r)"
    with a show ?thesis by (simp add: obj_alloc_def)
  next
    fix p r1
    assume m: "rt_object_allocate (fst q) (snd q) r = Some (p, r1)" "p \<noteq> 0" "p \<notin> heap_live (oheap r)"
      "\<forall>c \<in> heap_live (oheap r). heap_region (oheap r1) c = heap_region (oheap r) c"
      "represents r1 (insert p N) (B(i := (p, snd q) # B i))" "objects_in_heap r1 (B(i := (p, snd q) # B i))"
      "isr_nest r1 = 0" "objs r1 = (objs r)(p := \<lparr>o_name = strncpy_field 16 (snd q), o_type = fst q, o_flag = 0\<rparr>)"
      "\<forall>j < 9. p \<notin> fst ` set (B j)"
    have e: "p = obj" "r1 = r'" using a m(1,2) by (auto simp: obj_alloc_def)
    have "obj_live r' = insert obj (obj_live r)"
      using m(9) i class_bits [OF ty]
      by (auto simp: obj_live_eq [OF rep] obj_live_eq [OF m(5)] e [symmetric] m(8) dynamic_def split: if_splits)
    moreover have "obj_live r \<subseteq> heap_live (oheap r)" by (rule live_in_heap [OF rep oh])
    ultimately show ?thesis using m e by (auto simp: obj_inv_def obj_region_def)
  qed
qed

lemma obj_free_live:
  assumes inv: "obj_inv r" and o: "obj \<in> obj_live r"
  shows "\<exists>r'. obj_free r obj = Some r' \<and> obj_inv r' \<and> obj_live r' = obj_live r - {obj}
    \<and> (\<forall>c \<in> obj_live r'. obj_region r' c = obj_region r c)"
proof -
  obtain N B where rep: "represents r N B" and oh: "objects_in_heap r B" and nest: "isr_nest r = 0"
    using inv by (auto simp: obj_inv_def)
  obtain i b where b: "i < 9" "b \<in> set (B i)" "fst b = obj" and d: "dynamic (objs r obj)"
    using o by (auto simp: obj_live_eq [OF rep])
  obtain r' where r': "rt_object_delete obj r = Some r'"
    "represents r' N (\<lambda>i. filter (\<lambda>b. fst b \<noteq> obj) (B i))" "objects_in_heap r' (\<lambda>i. filter (\<lambda>b. fst b \<noteq> obj) (B i))"
    "isr_nest r' = isr_nest r" "\<forall>c \<in> heap_live (oheap r'). heap_region (oheap r') c = heap_region (oheap r) c"
    "objs r' = (objs r)(obj := (objs r obj)\<lparr>o_type := 0\<rparr>)"
    by (rule object_delete_spec [OF rep oh b d])
  have l: "obj_live r' = obj_live r - {obj}"
  proof -
    have "fst ` set (filter (\<lambda>b. fst b \<noteq> obj) (B i)) = fst ` set (B i) - {obj}" for i by force
    then show ?thesis by (auto simp only: obj_live_eq [OF rep] obj_live_eq [OF r'(2)] r'(6) fun_upd_apply split: if_splits)
  qed
  moreover have "obj_live r' \<subseteq> heap_live (oheap r')" by (rule live_in_heap [OF r'(2,3)])
  ultimately show ?thesis using r' nest by (auto simp: obj_free_def obj_inv_def obj_region_def)
qed

lemma obj_regions_apart: "obj_inv r \<Longrightarrow> apart (obj_region r) (obj_live r)"
proof -
  assume "obj_inv r"
  then obtain N B where rep: "represents r N B" and oh: "objects_in_heap r B" by (auto simp: obj_inv_def)
  then have "apart (heap_region (oheap r)) (heap_live (oheap r))"
    by (intro heap_regions_apart) (simp add: objects_in_heap_def)
  moreover have "obj_live r \<subseteq> heap_live (oheap r)" by (rule live_in_heap [OF rep oh])
  ultimately show "apart (obj_region r) (obj_live r)" unfolding apart_def obj_region_def by blast
qed

interpretation obr: block_allocator "obj_inv :: registry \<Rightarrow> bool" obj_live obj_region obj_alloc obj_free obj_request_ok
  by unfold_locales (use obj_alloc_fresh obj_free_live obj_regions_apart in blast)+

section \<open>Properties\<close>

text \<open>C33. The registry keeps bindings. Any sequence of registrations, removals and searches does on the
  pointer lists what it does on lists of bindings: a search for a name in a class finds the object
  bound most recently whose name agrees with it in the first \<open>RT_NAME_MAX\<close> characters, so a name that is taken shadows the
  older object until it is removed again; searching without a name or for a type above the classes finds nothing.
  An assertion fails exactly when the class is not configured, an object is registered twice in its class,
  or the object is \<open>NULL\<close>.\<close>

theorem registry_run_refines_bindings:
  assumes "represents r N B" "isr_nest r = 0" "reg_ops_ok (N, B) es"
  shows "case run_ops bindings_step (N, B) es of None \<Rightarrow> run_ops registry_step r es = None
    | Some (xs, N', B') \<Rightarrow> \<exists>r'. run_ops registry_step r es = Some (xs, r') \<and> represents r' N' B'"
  using registry_run_simulates [OF assms] by (auto split: option.splits)

theorem registry_run_refines_bindings_witness:
  "\<exists>r'. run_ops registry_step (registry_start (\<lambda>_. 40) demo_heap)
     [Register 0x100 2 [0x61, 0x62], Register 0x200 2 [0x61, 0x62], Lookup (Some [0x61, 0x62]) 2, Unregister 0x200,
      Lookup (Some [0x61, 0x62]) 2, Lookup (Some [0x61]) 2] =
     Some ([Done, Done, Found (Some 0x200), Done, Found (Some 0x100), Found None], r')"
proof -
  let ?es = "[Register 0x100 2 [0x61, 0x62], Register 0x200 2 [0x61, 0x62], Lookup (Some [0x61, 0x62]) 2, Unregister 0x200,
      Lookup (Some [0x61, 0x62]) 2, Lookup (Some [0x61]) 2]"
  have c: "class_index 2 = Some 1" by (simp add: class_index_def rt_object_container_def)
  have ok: "reg_ops_ok ({}, \<lambda>_. []) ?es" by (auto simp: c)
  have nest: "isr_nest (registry_start (\<lambda>_. 40) demo_heap) = 0" by (simp add: registry_start_def)
  have "\<exists>N B. run_ops bindings_step ({}, \<lambda>_. []) ?es =
      Some ([Done, Done, Found (Some 0x200), Done, Found (Some 0x100), Found None], N, B)"
    by (simp add: c)
  with registry_run_refines_bindings [OF registry_start_represents nest ok] show ?thesis by auto
qed

text \<open>Dynamic objects own their memory. Whatever objects of configured classes a client creates and
  whichever of its own it deletes, the dynamic objects registered are exactly those it holds, no assertion fails
  and the heap blocks that hold them do not overlap.\<close>

theorem object_client_owns_objects:
  assumes "obj_inv r" "list_all (request_ok obj_request_ok) es"
    "client_run obj_alloc obj_free (r, obj_live r) es = (r' :: registry, T)"
  shows "obj_inv r' \<and> obj_live r' = T \<and> apart (obj_region r') T"
  by (rule obr.client_run_owns [OF assms(1) refl assms(2,3)])

theorem object_client_owns_objects_witness:
  "\<exists>r' T. client_run obj_alloc obj_free (registry_start (\<lambda>_. 40) demo_heap, {})
     [Alloc (2, [0x61]), Alloc (9, [0x62]), Free 0x100C] = (r', T) \<and> obj_live r' = T \<and> apart (obj_region r') T"
proof -
  let ?r = "registry_start (\<lambda>_. 40) demo_heap"
  let ?es = "[Alloc (2, [0x61]), Alloc (9, [0x62]), Free 0x100C] :: (u8 \<times> u8 list, u32) alloc_op list"
  have "heap_ok demo_heap" using demo_heap_facts(1) by (simp add: heap_tidy_def)
  then have inv: "obj_inv ?r"
    using registry_start_represents [of "\<lambda>_. 40" demo_heap]
    by (auto simp: obj_inv_def objects_in_heap_def registry_start_def intro!: exI [of _ "{}"] exI [of _ "\<lambda>_. []"])
  have live: "obj_live ?r = {}" using obj_live_eq [OF registry_start_represents] by simp
  have ok: "list_all (request_ok obj_request_ok) ?es"
    by (simp add: obj_request_ok_def class_index_def rt_object_container_def)
  obtain r' T where r: "client_run obj_alloc obj_free (?r, obj_live ?r) ?es = (r', T)" by (metis prod.exhaust)
  from object_client_owns_objects [OF inv ok r] r live show ?thesis by auto
qed

section \<open>Registration in a second class\<close>

text \<open>The links followed forwards only.\<close>

primrec fwd :: "'a links \<Rightarrow> 'a \<Rightarrow> 'a list \<Rightarrow> 'a \<Rightarrow> bool" where
  "fwd m a [] b \<longleftrightarrow> nxt m a = b"
| "fwd m a (x # xs) b \<longleftrightarrow> nxt m a = x \<and> fwd m x xs b"

lemma fwd_append: "fwd m a (xs @ y # ys) b \<longleftrightarrow> fwd m a xs y \<and> fwd m y ys b"
  by (induction xs arbitrary: a) auto

lemma seg_fwd: "seg m a xs b \<Longrightarrow> (\<forall>y \<in> set (a # xs). nxt m' y = nxt m y) \<Longrightarrow> fwd m' a xs b"
  by (induction xs arbitrary: a) auto

lemma find_from_fwd:
  "fwd (olinks r) a (map Node xs) (Head k) \<Longrightarrow> k \<noteq> i \<Longrightarrow>
   \<forall>x \<in> set xs. strncmp_field (o_name (objs r x)) (strncpy_field 16 name) 0 \<noteq> 0 \<Longrightarrow>
   find_from r i name (nxt (olinks r) a) = None"
proof (induction xs arbitrary: a)
  case Nil
  then show ?case by (simp add: find_from.simps)
next
  case (Cons x xs)
  then show ?case by (subst find_from.simps) auto
qed

text \<open>Inserting a node that is still on another list: the way from the old head now leads to the new one.\<close>

lemma insert_linked_path:
  assumes R: "realises H N m L" "i \<in> H" "j \<in> H" "i \<noteq> j" "obj \<in> set (L i)"
    and m': "m' = rt_list_insert_after_p (Head j) (Node obj) m"
  obtains us where "set us \<subseteq> set (L i)" "fwd m' (Head i) (map Node (us @ obj # L j)) (Head j)"
    "seg m' (Head j) (map Node (obj # L j)) (Head j)"
proof -
  have nj: "obj \<notin> set (L j)" using realises_apart [OF R(1), of i j obj] R by auto
  obtain us vs where e: "L i = us @ obj # vs" and u: "obj \<notin> set us"
    using split_list_first [OF R(5)] by auto
  have gi: "ring m (Head i) (map Node (us @ obj # vs))" and gj: "ring m (Head j) (map Node (L j))"
    using realises_ring [OF R(1), of i] realises_ring [OF R(1), of j] R e by auto
  have "ring m' (Head j) (Node obj # map Node (L j))"
    unfolding m' using nj by (intro ring_insert_after [OF gj]) auto
  then have sj: "seg m' (Head j) (map Node (obj # L j)) (Head j)" by (simp add: ring_def)
  have nx: "nxt m' y = nxt m y" if "y \<noteq> Node obj" "y \<noteq> Head j" for y
    unfolding m' using that by (simp add: rt_list_insert_after_p_def Let_def)
  have "fwd m' (Head i) (map Node us) (Node obj)"
    using gi u R(4) by (intro seg_fwd [of m]) (auto simp: ring_def seg_append intro!: nx)
  moreover have "fwd m' (Node obj) (map Node (L j)) (Head j)"
    using sj by (intro seg_fwd [of m']) auto
  ultimately have "fwd m' (Head i) (map Node (us @ obj # L j)) (Head j)" by (simp add: fwd_append)
  with sj e show ?thesis by (intro that [of us]) auto
qed

text \<open>C40. The assertion of \<open>rt_object_init\<close> looks only into the new class. An object that is registered is
  registered again in another class without complaint; the list of its old class then leads into that
  of the new one, and a search there for a name that nobody has takes the head of the other list for an
  object instead of ending (\<open>None\<close>). In the new class the object is found.\<close>

theorem rt_object_init_misses_other_class:
  assumes rep: "represents r N B" and nest: "isr_nest r = 0" and obj: "i < 9" "obj \<in> fst ` set (B i)"
    and ty: "class_index ty = Some j" "i \<noteq> j" and s: "0 \<notin> set s" "0 \<notin> set name"
    and free: "\<forall>b \<in> set (B i) \<union> set (B j). take 16 (snd b) \<noteq> take 16 name" "take 16 s \<noteq> take 16 name"
  shows "\<exists>r'. rt_object_init obj ty s r = Some r' \<and> rt_object_find (Some name) (class_of i) r' = None
    \<and> rt_object_find (Some s) ty r' = Some (Some obj)"
proof -
  let ?L = "\<lambda>i. map fst (B i)"
  note j = class_index_Some [OF ty(1)]
  define r' where "r' = rt_object_init_insert obj ty s j r"
  have R: "realises {..<9} N (olinks r) ?L" using rep by (simp add: represents_def)
  have nj: "obj \<notin> set (?L j)" using realises_apart [OF R, of i j obj] obj j ty(2) by auto
  have init: "rt_object_init obj ty s r = Some r'"
    using represents_walk [OF rep, of j] j ty(1) nj
    by (auto simp: rt_object_init_def rt_object_init_check_def get_information_eq r'_def)
  have l: "olinks r' = rt_list_insert_after_p (Head j) (Node obj) (olinks r)" and nest': "isr_nest r' = 0"
    using nest by (simp_all add: r'_def rt_object_init_insert_def Let_def upd_links_def upd_obj_def)
  have o: "objs r' = (objs r)(obj := (objs r obj)\<lparr>o_type := ty OR 0x80, o_name := strncpy_field 16 s\<rparr>)"
    by (simp add: r'_def rt_object_init_insert_def Let_def upd_links_def upd_obj_def)
  obtain us where us: "set us \<subseteq> set (?L i)"
    and path: "fwd (olinks r') (Head i) (map Node (us @ obj # ?L j)) (Head j)"
    and sj: "seg (olinks r') (Head j) (map Node (obj # ?L j)) (Head j)"
    using insert_linked_path [OF R _ _ ty(2) _ l] obj j by auto
  have nm: "strncmp_field (o_name (objs r' x)) (strncpy_field 16 name) 0 \<noteq> 0" if x: "x \<in> set (us @ obj # ?L j)" for x
  proof (cases "x = obj")
    case True
    with o s free(2) show ?thesis by (simp add: strncmp_field_0)
  next
    case False
    with x have "x \<in> set (?L i) \<or> x \<in> set (?L j)" using us by auto
    then obtain k b where b: "k = i \<or> k = j" "b \<in> set (B k)" "x = fst b" by auto
    then have "entry_ok (objs r (fst b)) k b" using rep obj(1) j by (auto simp: represents_def)
    with False b free(1) s(2) o show ?thesis by (auto simp: entry_ok_def strncmp_field_0)
  qed
  have "class_of i \<le> 12" "class_of j \<le> 12"
  proof -
    have "\<forall>i \<in> {..<9}. class_of i \<le> 12" by (simp add: lessThan_nat_numeral lessThan_Suc class_of_def)
    then show "class_of i \<le> 12" "class_of j \<le> 12" using obj(1) j by auto
  qed
  then have small: "\<not> 12 < class_of i" "\<not> 12 < ty" using j by auto
  have "find_from r' i name (nxt (olinks r') (Head i)) = None"
    using find_from_fwd [OF path ty(2) [symmetric]] nm by blast
  moreover have "find_from r' j s (nxt (olinks r') (Head j)) = Some (Some obj)"
    using find_from_seg [OF sj, of s] o s(1) by (simp add: strncmp_field_0)
  ultimately show ?thesis
    using init small by (auto simp: rt_object_find_def nest' get_information_eq class_index_of [OF obj(1)] ty(1))
qed

theorem rt_object_init_misses_other_class_witness:
  "\<exists>r r'. rt_object_init 0x100 2 [0x61] (registry_start (\<lambda>_. 40) demo_heap) = Some r \<and> rt_object_init 0x100 3 [0x62] r = Some r'
    \<and> rt_object_find (Some [0x63]) 2 r' = None"
proof -
  have c: "class_index 2 = Some 1" "class_index 3 = Some 2" "class_of 1 = 2"
    by (simp_all add: class_index_def rt_object_container_def class_of_def)
  have "bindings_step ({}, \<lambda>_. []) (Register 0x100 2 [0x61]) = Some (Done, {0x100}, (\<lambda>_. [])(1 := [(0x100, [0x61])]))"
    by (simp add: c)
  from registry_step_simulates(2) [OF registry_start_represents _ _ this, of "\<lambda>_. 40" demo_heap]
  obtain r where r: "rt_object_init 0x100 2 [0x61] (registry_start (\<lambda>_. 40) demo_heap) = Some r"
    "represents r {0x100} ((\<lambda>_. [])(1 := [(0x100, [0x61])]))" "isr_nest r = 0"
    by (auto simp: registry_start_def)
  from rt_object_init_misses_other_class [OF r(2,3), where i = 1 and obj = "0x100" and ty = 3 and j = 2
      and s = "[0x62]" and name = "[0x63]"] r(1) c
  show ?thesis by auto
qed

end
