(* ===== verification/DeviceReg.thy ===== *)
theory DeviceReg
  imports ObjectReg
begin

text \<open>
  The device framework (\<open>device.c\<close>) over the registry of \<open>ObjectReg\<close>: registration and lookup of drivers,
  creation of device objects, opening and closing with a count of users, and the calls that are passed on
  to the driver. The functions of a driver are parameters (\<open>device_ops\<close>, \<open>RT_NULL\<close> is \<open>None\<close>): they work on
  the device and the driver's own state.
\<close>

unbundle bit_operations_syntax

section \<open>Data\<close>

abbreviation (input) RT_ENOSYS :: int where "RT_ENOSYS \<equiv> 6"
abbreviation (input) RT_EBUSY :: int where "RT_EBUSY \<equiv> 7"
abbreviation (input) RT_DEVICE_FLAG_STANDALONE :: u16 where "RT_DEVICE_FLAG_STANDALONE \<equiv> 0x008"
abbreviation (input) RT_DEVICE_FLAG_ACTIVATED :: u16 where "RT_DEVICE_FLAG_ACTIVATED \<equiv> 0x010"
abbreviation (input) RT_DEVICE_OFLAG_CLOSE :: u16 where "RT_DEVICE_OFLAG_CLOSE \<equiv> 0x000"
abbreviation (input) RT_DEVICE_OFLAG_OPEN :: u16 where "RT_DEVICE_OFLAG_OPEN \<equiv> 0x008"
abbreviation (input) RT_DEVICE_OFLAG_MASK :: u16 where "RT_DEVICE_OFLAG_MASK \<equiv> 0xf0f"

text \<open>\<open>struct rt_device\<close> without its object and its functions; \<open>priv\<close> is the driver's state.\<close>

record 'd rt_device =
  d_type :: int
  d_flag :: u16
  open_flag :: u16
  ref_count :: u8
  device_id :: u8
  rx_indicate :: "nat option"
  tx_complete :: "nat option"
  user_data :: u32
  priv :: 'd

record 'd device_ops =
  dop_init :: "('d rt_device \<Rightarrow> int \<times> 'd rt_device) option"
  dop_open :: "(u16 \<Rightarrow> 'd rt_device \<Rightarrow> int \<times> 'd rt_device) option"
  dop_close :: "('d rt_device \<Rightarrow> int \<times> 'd rt_device) option"
  dop_read :: "(u32 \<Rightarrow> u32 \<Rightarrow> 'd rt_device \<Rightarrow> (u32 \<times> u8 list) \<times> 'd rt_device) option"
  dop_write :: "(u32 \<Rightarrow> u8 list \<Rightarrow> u32 \<Rightarrow> 'd rt_device \<Rightarrow> u32 \<times> 'd rt_device) option"
  dop_control :: "(int \<Rightarrow> u32 \<Rightarrow> 'd rt_device \<Rightarrow> int \<times> 'd rt_device) option"

record 'd devices = registry +
  devs :: "u32 \<Rightarrow> 'd rt_device"
  dops :: "u32 \<Rightarrow> 'd device_ops"
  errno :: int

definition upd_dev :: "u32 \<Rightarrow> ('d rt_device \<Rightarrow> 'd rt_device) \<Rightarrow> 'd devices \<Rightarrow> 'd devices" where
  "upd_dev dev f s = s\<lparr>devs := (devs s)(dev := f (devs s dev))\<rparr>"

section \<open>Registration\<close>

definition rt_device_find :: "u8 list \<Rightarrow> 'd devices \<Rightarrow> u32 option option" where
  "rt_device_find name s = do {
     i \<leftarrow> rt_object_get_information RT_Object_Class_Device s;
     find_from s i name (nxt (olinks s) (Head i))
   }"

definition rt_device_register :: "u32 \<Rightarrow> u8 list \<Rightarrow> u16 \<Rightarrow> 'd devices \<Rightarrow> (int \<times> 'd devices) option" where
  "rt_device_register dev name flags s =
     (if dev = 0 then Some (- RT_ERROR, s)
      else do {
        found \<leftarrow> rt_device_find name s;
        if found \<noteq> None then Some (- RT_ERROR, s)
        else do {
          s1 \<leftarrow> rt_object_init dev RT_Object_Class_Device name s;
          Some (RT_EOK, upd_dev dev (\<lambda>d. d\<lparr>d_flag := flags, ref_count := 0, open_flag := 0\<rparr>) s1)
        }
      })"

text \<open>\<open>RT_ASSERT(rt_object_get_type(&dev->parent) == RT_Object_Class_Device)\<close>, after the one on \<open>RT_NULL\<close>.\<close>

definition assert_device :: "u32 \<Rightarrow> 'd devices \<Rightarrow> unit option" where
  "assert_device dev s =
     (if dev \<noteq> 0 \<and> rt_object_get_type dev s = Some RT_Object_Class_Device then Some () else None)"

definition rt_device_unregister :: "u32 \<Rightarrow> 'd devices \<Rightarrow> (int \<times> 'd devices) option" where
  "rt_device_unregister dev s = do {
     _ \<leftarrow> assert_device dev s;
     if rt_object_is_systemobject dev s = Some True
     then map_option (Pair RT_EOK) (rt_object_detach dev s)
     else None
   }"

definition rt_device_init_all :: "'d devices \<Rightarrow> int \<times> 'd devices" where
  "rt_device_init_all s = (RT_EOK, s)"

text \<open>\<open>rt_memset\<close> over \<open>struct rt_device\<close> clears the object with its links, the fields and the functions.\<close>

definition rt_device_create :: "int \<Rightarrow> u32 \<Rightarrow> 'd devices \<Rightarrow> (u32 \<times> 'd devices) option" where
  "rt_device_create ty attach_size s = do {
     let sz = rt_align (sizeof s RT_Object_Class_Device) + rt_align attach_size;
     (device, h) \<leftarrow> rt_malloc sz (oheap s);
     if device \<noteq> 0
     then
       (let s1 = s\<lparr>oheap := fill_bytes device 0 (sizeof s RT_Object_Class_Device) h\<rparr>;
            s2 = upd_obj device (\<lambda>_. \<lparr>o_name = replicate RT_NAME_MAX 0, o_type = 0, o_flag = 0\<rparr>) s1;
            s3 = upd_links (\<lambda>m. set_nxt (Node device) (Node 0) (set_prv (Node device) (Node 0) m)) s2;
            s4 = upd_dev device (\<lambda>d. \<lparr>d_type = 0, d_flag = 0, open_flag = 0, ref_count = 0, device_id = 0,
                   rx_indicate = None, tx_complete = None, user_data = 0, priv = priv d\<rparr>) s3;
            s5 = s4\<lparr>dops := (dops s4)(device := \<lparr>dop_init = None, dop_open = None, dop_close = None,
                   dop_read = None, dop_write = None, dop_control = None\<rparr>)\<rparr> in
        Some (device, upd_dev device (\<lambda>d. d\<lparr>d_type := ty\<rparr>) s5))
     else Some (0, s\<lparr>oheap := h\<rparr>)
   }"

definition rt_device_destroy :: "u32 \<Rightarrow> 'd devices \<Rightarrow> 'd devices option" where
  "rt_device_destroy dev s = do {
     _ \<leftarrow> assert_device dev s;
     if rt_object_is_systemobject dev s = Some False
     then do {
       s1 \<leftarrow> rt_object_detach dev s;
       h \<leftarrow> rt_free dev (oheap s1);
       Some (s1\<lparr>oheap := h\<rparr>)
     }
     else None
   }"

section \<open>Opening and closing\<close>

definition rt_device_init :: "u32 \<Rightarrow> 'd devices \<Rightarrow> (int \<times> 'd devices) option" where
  "rt_device_init dev s =
     (if dev \<noteq> 0
      then Some
        (case dop_init (dops s dev) of
           None \<Rightarrow> (RT_EOK, s)
         | Some f \<Rightarrow>
             if d_flag (devs s dev) AND RT_DEVICE_FLAG_ACTIVATED = 0
             then
               (let (result, d) = f (devs s dev); s1 = upd_dev dev (\<lambda>_. d) s in
                if result \<noteq> RT_EOK then (result, s1)
                else (result, upd_dev dev (\<lambda>d. d\<lparr>d_flag := d_flag d OR RT_DEVICE_FLAG_ACTIVATED\<rparr>) s1))
             else (RT_EOK, s))
      else None)"

text \<open>The first part of \<open>rt_device_open\<close>: whether it goes on, with the result so far.\<close>

definition open_activate :: "u32 \<Rightarrow> 'd devices \<Rightarrow> bool \<times> int \<times> 'd devices" where
  "open_activate dev s =
     (if d_flag (devs s dev) AND RT_DEVICE_FLAG_ACTIVATED = 0
      then
        (let (result, s1) = (case dop_init (dops s dev) of
               None \<Rightarrow> (RT_EOK, s)
             | Some f \<Rightarrow> (let (e, d) = f (devs s dev) in (e, upd_dev dev (\<lambda>_. d) s))) in
         if result \<noteq> RT_EOK then (False, result, s1)
         else (True, result, upd_dev dev (\<lambda>d. d\<lparr>d_flag := d_flag d OR RT_DEVICE_FLAG_ACTIVATED\<rparr>) s1))
      else (True, RT_EOK, s))"

definition rt_device_open :: "u32 \<Rightarrow> u16 \<Rightarrow> 'd devices \<Rightarrow> (int \<times> 'd devices) option" where
  "rt_device_open dev oflag s = do {
     _ \<leftarrow> assert_device dev s;
     let (go, result0, s1) = open_activate dev s;
     let d = devs s1 dev;
     if \<not> go then Some (result0, s1)
     else if d_flag d AND RT_DEVICE_FLAG_STANDALONE \<noteq> 0 \<and> open_flag d AND RT_DEVICE_OFLAG_OPEN \<noteq> 0
     then Some (- RT_EBUSY, s1)
     else
       (let (result, d1) = (case dop_open (dops s1 dev) of
              Some f \<Rightarrow> f oflag d
            | None \<Rightarrow> (result0, d\<lparr>open_flag := oflag AND RT_DEVICE_OFLAG_MASK\<rparr>)) in
        if result = RT_EOK \<or> result = - RT_ENOSYS
        then
          (let d2 = d1\<lparr>open_flag := open_flag d1 OR RT_DEVICE_OFLAG_OPEN, ref_count := ref_count d1 + 1\<rparr> in
           if ref_count d2 \<noteq> 0 then Some (result, upd_dev dev (\<lambda>_. d2) s1) else None)
        else Some (result, upd_dev dev (\<lambda>_. d1) s1))
   }"

definition rt_device_close :: "u32 \<Rightarrow> 'd devices \<Rightarrow> (int \<times> 'd devices) option" where
  "rt_device_close dev s = do {
     _ \<leftarrow> assert_device dev s;
     let d = devs s dev;
     if ref_count d = 0 then Some (- RT_ERROR, s)
     else
       (let d1 = d\<lparr>ref_count := ref_count d - 1\<rparr> in
        if ref_count d1 \<noteq> 0 then Some (RT_EOK, upd_dev dev (\<lambda>_. d1) s)
        else
          (let (result, d2) = (case dop_close (dops s dev) of Some f \<Rightarrow> f d1 | None \<Rightarrow> (RT_EOK, d1)) in
           Some (result, upd_dev dev (\<lambda>_.
             if result = RT_EOK \<or> result = - RT_ENOSYS then d2\<lparr>open_flag := RT_DEVICE_OFLAG_CLOSE\<rparr> else d2) s)))
   }"

section \<open>Calls passed on\<close>

definition rt_device_read :: "u32 \<Rightarrow> u32 \<Rightarrow> u32 \<Rightarrow> 'd devices \<Rightarrow> ((u32 \<times> u8 list) \<times> 'd devices) option" where
  "rt_device_read dev pos n s = do {
     _ \<leftarrow> assert_device dev s;
     if ref_count (devs s dev) = 0 then Some ((0, []), s\<lparr>errno := - RT_ERROR\<rparr>)
     else Some (case dop_read (dops s dev) of
         Some f \<Rightarrow> (let (x, d) = f pos n (devs s dev) in (x, upd_dev dev (\<lambda>_. d) s))
       | None \<Rightarrow> ((0, []), s\<lparr>errno := - RT_ENOSYS\<rparr>))
   }"

definition rt_device_write :: "u32 \<Rightarrow> u32 \<Rightarrow> u8 list \<Rightarrow> u32 \<Rightarrow> 'd devices \<Rightarrow> (u32 \<times> 'd devices) option" where
  "rt_device_write dev pos buf n s = do {
     _ \<leftarrow> assert_device dev s;
     if ref_count (devs s dev) = 0 then Some (0, s\<lparr>errno := - RT_ERROR\<rparr>)
     else Some (case dop_write (dops s dev) of
         Some f \<Rightarrow> (let (x, d) = f pos buf n (devs s dev) in (x, upd_dev dev (\<lambda>_. d) s))
       | None \<Rightarrow> (0, s\<lparr>errno := - RT_ENOSYS\<rparr>))
   }"

definition rt_device_control :: "u32 \<Rightarrow> int \<Rightarrow> u32 \<Rightarrow> 'd devices \<Rightarrow> (int \<times> 'd devices) option" where
  "rt_device_control dev cmd arg s = do {
     _ \<leftarrow> assert_device dev s;
     Some (case dop_control (dops s dev) of
         Some f \<Rightarrow> (let (x, d) = f cmd arg (devs s dev) in (x, upd_dev dev (\<lambda>_. d) s))
       | None \<Rightarrow> (- RT_ENOSYS, s))
   }"

definition rt_device_set_rx_indicate :: "u32 \<Rightarrow> nat option \<Rightarrow> 'd devices \<Rightarrow> (int \<times> 'd devices) option" where
  "rt_device_set_rx_indicate dev f s = do {
     _ \<leftarrow> assert_device dev s;
     Some (RT_EOK, upd_dev dev (\<lambda>d. d\<lparr>rx_indicate := f\<rparr>) s)
   }"

definition rt_device_set_tx_complete :: "u32 \<Rightarrow> nat option \<Rightarrow> 'd devices \<Rightarrow> (int \<times> 'd devices) option" where
  "rt_device_set_tx_complete dev f s = do {
     _ \<leftarrow> assert_device dev s;
     Some (RT_EOK, upd_dev dev (\<lambda>d. d\<lparr>tx_complete := f\<rparr>) s)
   }"

section \<open>Names of devices\<close>

lemma upd_dev_simps [simp]:
  "objs (upd_dev dev f s) = objs s" "olinks (upd_dev dev f s) = olinks s" "oheap (upd_dev dev f s) = oheap s"
  "isr_nest (upd_dev dev f s) = isr_nest s" "sizeof (upd_dev dev f s) = sizeof s" "dops (upd_dev dev f s) = dops s"
  "devs (upd_dev dev f s) = (devs s)(dev := f (devs s dev))"
  by (simp_all add: upd_dev_def)

lemma hook_call_devices [simp]:
  "devs (object_hook_call h x s) = devs s" "dops (object_hook_call h x s) = dops s"
  by (simp_all add: object_hook_call_def split: option.split)

lemma class_index_device: "class_index 9 = Some 7"
  by (simp add: class_index_def rt_object_container_def)

text \<open>The abstract device registry: a map from names, cut at \<open>RT_NAME_MAX\<close>, to devices.\<close>

datatype device_op = Dev_Register u32 "u8 list" u16 | Dev_Unregister u32 | Dev_Find "u8 list"

datatype device_result = Err int | Dev_Found "u32 option"

type_synonym device_map = "u8 list \<rightharpoonup> u32"

fun device_map_step :: "device_map \<Rightarrow> device_op \<Rightarrow> (device_result \<times> device_map) option" where
  "device_map_step M (Dev_Register dev name flags) =
     (if dev = 0 \<or> M (take RT_NAME_MAX name) \<noteq> None then Some (Err (- RT_ERROR), M)
      else if dev \<in> ran M then None
      else Some (Err RT_EOK, M(take RT_NAME_MAX name \<mapsto> dev)))"
| "device_map_step M (Dev_Unregister dev) =
     (if dev \<in> ran M then Some (Err RT_EOK, \<lambda>n. if M n = Some dev then None else M n) else None)"
| "device_map_step M (Dev_Find name) = Some (Dev_Found (M (take RT_NAME_MAX name)), M)"

fun device_step :: "'d devices \<Rightarrow> device_op \<Rightarrow> (device_result \<times> 'd devices) option" where
  "device_step s (Dev_Register dev name flags) = map_option (\<lambda>(e, s'). (Err e, s')) (rt_device_register dev name flags s)"
| "device_step s (Dev_Unregister dev) = map_option (\<lambda>(e, s'). (Err e, s')) (rt_device_unregister dev s)"
| "device_step s (Dev_Find name) = map_option (\<lambda>x. (Dev_Found x, s)) (rt_device_find name s)"

text \<open>Names are C strings, and what is registered is not an object of another class.\<close>

fun device_op_ok :: "u32 set \<Rightarrow> device_op \<Rightarrow> bool" where
  "device_op_ok X (Dev_Register dev name flags) \<longleftrightarrow> 0 \<notin> set name \<and> dev \<notin> X"
| "device_op_ok X (Dev_Unregister dev) \<longleftrightarrow> True"
| "device_op_ok X (Dev_Find name) \<longleftrightarrow> 0 \<notin> set name"

definition device_names :: "(u32 \<times> u8 list) list \<Rightarrow> device_map" where
  "device_names bs n = map_option fst (List.find (\<lambda>b. take RT_NAME_MAX (snd b) = n) bs)"

definition device_inv :: "u32 set \<Rightarrow> 'd devices \<Rightarrow> device_map \<Rightarrow> bool" where
  "device_inv X s M \<longleftrightarrow> (\<exists>N B. represents s N B
     \<and> (\<forall>i < 9. i \<noteq> 7 \<longrightarrow> fst ` set (B i) \<subseteq> X)
     \<and> (\<forall>x. o_type (objs s x) AND NOT RT_Object_Class_Static = RT_Object_Class_Device \<longleftrightarrow> x \<in> fst ` set (B 7))
     \<and> (\<forall>x \<in> fst ` set (B 7). o_type (objs s x) AND RT_Object_Class_Static \<noteq> 0)
     \<and> distinct (map fst (B 7)) \<and> distinct (map (\<lambda>b. take RT_NAME_MAX (snd b)) (B 7)) \<and> M = device_names (B 7))"

lemma device_names_simps [simp]:
  "device_names [] = Map.empty"
  "device_names (b # bs) = (device_names bs)(take 16 (snd b) \<mapsto> fst b)"
  by (auto simp: device_names_def fun_eq_iff)

lemma device_names_None: "device_names bs n = None \<longleftrightarrow> n \<notin> (\<lambda>b. take 16 (snd b)) ` set bs"
  by (induction bs) auto

lemma device_names_ran:
  "distinct (map (\<lambda>b. take 16 (snd b)) bs) \<Longrightarrow> ran (device_names bs) = fst ` set bs"
proof (induction bs)
  case (Cons b bs)
  then have "device_names bs (take 16 (snd b)) = None" by (simp add: device_names_None)
  then have "ran (device_names (b # bs)) = insert (fst b) (ran (device_names bs))"
    unfolding device_names_simps by (rule ran_map_upd)
  moreover have "ran (device_names bs) = fst ` set bs" using Cons by simp
  ultimately show ?case by (simp only: list.set image_insert)
qed simp

lemma device_names_remove:
  "distinct (map (\<lambda>b. take 16 (snd b)) bs) \<Longrightarrow>
   device_names (filter (\<lambda>b. fst b \<noteq> dev) bs) = (\<lambda>n. if device_names bs n = Some dev then None else device_names bs n)"
proof (induction bs)
  case (Cons b bs)
  then have "device_names bs (take 16 (snd b)) = None" by (simp add: device_names_None)
  with Cons show ?case by (auto simp: fun_eq_iff)
qed (simp add: fun_eq_iff)

lemma device_find_names:
  assumes "represents s N B" "0 \<notin> set name"
  shows "rt_device_find name s = Some (device_names (B 7) (take 16 name))"
  using find_from_represents [OF assms(1) _ assms(2), of 7]
  by (simp add: rt_device_find_def get_information_eq class_index_device device_names_def)

lemma device_step_simulates:
  assumes inv: "device_inv X s M" and ok: "device_op_ok X e"
  shows "case device_map_step M e of None \<Rightarrow> device_step s e = None
    | Some (x, M') \<Rightarrow> \<exists>s'. device_step s e = Some (x, s') \<and> device_inv X s' M'"
proof -
  obtain N B where rep: "represents s N B" and X: "\<forall>i < 9. i \<noteq> 7 \<longrightarrow> fst ` set (B i) \<subseteq> X"
    and ty: "\<forall>x. o_type (objs s x) AND NOT 0x80 = 9 \<longleftrightarrow> x \<in> fst ` set (B 7)"
    and st: "\<forall>x \<in> fst ` set (B 7). o_type (objs s x) AND 0x80 \<noteq> 0"
    and d: "distinct (map fst (B 7))" "distinct (map (\<lambda>b. take 16 (snd b)) (B 7))" and M: "M = device_names (B 7)"
    using inv by (auto simp: device_inv_def)
  note ran = device_names_ran [OF d(2)]
  show ?thesis
  proof (cases e)
    case (Dev_Register dev name flags)
    then have n: "0 \<notin> set name" "dev \<notin> X" using ok by auto
    note f = device_find_names [OF rep n(1)]
    show ?thesis
    proof (cases "dev = 0 \<or> M (take 16 name) \<noteq> None")
      case True
      with inv show ?thesis by (auto simp: Dev_Register rt_device_register_def f M)
    next
      case False
      have chk: "rt_object_init_check dev 9 s = (if dev \<in> fst ` set (B 7) then None else Some 7)"
        using represents_walk [OF rep, of 7]
        by (auto simp: rt_object_init_check_def get_information_eq class_index_device)
      show ?thesis
      proof (cases "dev \<in> fst ` set (B 7)")
        case True
        with False show ?thesis
          by (simp add: Dev_Register rt_device_register_def f M rt_object_init_def chk ran)
      next
        case new: False
        define s' where "s' = upd_dev dev (\<lambda>d. d\<lparr>d_flag := flags, ref_count := 0, open_flag := 0\<rparr>)
          (rt_object_init_insert dev 9 name 7 s)"
        have o: "objs s' = (objs s)(dev := (objs s dev)\<lparr>o_type := 0x89, o_name := strncpy_field 16 name\<rparr>)"
          "olinks s' = rt_list_insert_after_p (Head 7) (Node dev) (olinks s)"
          by (simp_all add: s'_def rt_object_init_insert_def Let_def upd_links_def upd_obj_def)
        have st': "device_step s e = Some (Err 0, s')"
          using False by (simp add: Dev_Register rt_device_register_def f M rt_object_init_def chk new s'_def)
        have "represents s' (insert dev N) (B(7 := (dev, name) # B 7))"
          using False n new X o
          by (intro represents_insert [OF rep]) (auto simp: entry_ok_def class_of_def)
        moreover have "take 16 name \<notin> (\<lambda>b. take 16 (snd b)) ` set (B 7)"
          using False by (auto simp: M device_names_None)
        ultimately have "device_inv X s' (M(take 16 name \<mapsto> dev))"
          unfolding device_inv_def using X ty st d new M o
          by (intro exI [of _ "insert dev N"] exI [of _ "B(7 := (dev, name) # B 7)"]) (auto simp: image_iff)
        with st' False new show ?thesis by (simp add: Dev_Register M ran)
      qed
    qed
  next
    case (Dev_Unregister dev)
    show ?thesis
    proof (cases "dev \<in> fst ` set (B 7)")
      case False
      with ty show ?thesis
        by (auto simp: Dev_Unregister M ran rt_device_unregister_def assert_device_def rt_object_get_type_def)
    next
      case True
      then obtain b where b: "b \<in> set (B 7)" "dev = fst b" by blast
      have "entry_ok (objs s (fst b)) 7 b" using rep b(1) by (simp add: represents_def)
      then have nz: "dev \<noteq> 0" by (simp add: entry_ok_def b(2))
      have nN: "dev \<in> N" using rep True realises_sub [of "{..<9}" N "olinks s" "\<lambda>i. map fst (B i)" 7 dev]
        by (auto simp: represents_def)
      obtain s' where s': "rt_object_detach dev s = Some s'" "olinks s' = rt_list_remove_p (Node dev) (olinks s)"
        "objs s' = (objs s)(dev := (objs s dev)\<lparr>o_type := 0\<rparr>)"
        using nz by (simp add: rt_object_detach_def Let_def upd_links_def upd_obj_def)
      let ?B = "\<lambda>i. filter (\<lambda>b. fst b \<noteq> dev) (B i)"
      have "represents s' N ?B" by (rule represents_remove [OF rep nN s'(2)]) (simp add: s'(3))
      moreover have fs: "fst ` set (?B i) = fst ` set (B i) - {dev}" for i by force
      moreover have "\<forall>i < 9. i \<noteq> 7 \<longrightarrow> fst ` set (?B i) \<subseteq> X" using X unfolding fs by blast
      moreover have "\<forall>x. o_type (objs s' x) AND NOT 0x80 = 9 \<longleftrightarrow> x \<in> fst ` set (?B 7)"
        using ty unfolding fs s'(3) by simp
      moreover have "\<forall>x \<in> fst ` set (?B 7). o_type (objs s' x) AND 0x80 \<noteq> 0"
        using st unfolding fs s'(3) by auto
      moreover have "distinct (map fst (?B 7))" "distinct (map (\<lambda>b. take 16 (snd b)) (?B 7))"
        using d by (auto intro: distinct_map_filter)
      ultimately have "device_inv X s' (\<lambda>n. if M n = Some dev then None else M n)"
        unfolding device_inv_def M device_names_remove [OF d(2), symmetric] by blast
      moreover have "device_step s e = Some (Err 0, s')"
        using True ty st nz s'(1)
        by (auto simp: Dev_Unregister rt_device_unregister_def assert_device_def rt_object_get_type_def
            rt_object_is_systemobject_def)
      moreover have "dev \<in> ran M" using True by (simp add: M ran)
      ultimately show ?thesis by (simp add: Dev_Unregister)
    qed
  next
    case (Dev_Find name)
    with inv ok device_find_names [OF rep] show ?thesis by (simp add: M)
  qed
qed

section \<open>Users of a device\<close>

datatype use_op = Open u16 | Close

fun use_step :: "u32 \<Rightarrow> 'd devices \<Rightarrow> use_op \<Rightarrow> (int \<times> 'd devices) option" where
  "use_step dev s (Open oflag) = rt_device_open dev oflag s"
| "use_step dev s Close = rt_device_close dev s"

text \<open>The results for which \<open>device.c\<close> takes an opening or closing for done.\<close>

definition accepted :: "int \<Rightarrow> bool" where
  "accepted e \<longleftrightarrow> e = RT_EOK \<or> e = - RT_ENOSYS"

text \<open>The users that the results speak of: one more after each accepted opening, one fewer after each
  closing, never below none.\<close>

fun users :: "nat \<Rightarrow> use_op \<Rightarrow> int \<Rightarrow> nat" where
  "users n (Open oflag) e = (if accepted e then Suc n else n)"
| "users n Close e = n - 1"

definition users_after :: "nat \<Rightarrow> use_op list \<Rightarrow> int list \<Rightarrow> nat" where
  "users_after n es rs = foldl (\<lambda>m (e, r). users m e r) n (zip es rs)"

text \<open>What a driver must leave alone: the count and the standalone flag, and the open bit where it does
  not open the device. Its initialisation does not fail with \<open>-RT_ENOSYS\<close>, which a caller could not tell
  from an accepted opening. \<open>closes\<close>: its close does not fail.\<close>

definition counts :: "'d rt_device \<Rightarrow> 'd rt_device \<Rightarrow> bool" where
  "counts d d' \<longleftrightarrow> ref_count d' = ref_count d
     \<and> d_flag d' AND RT_DEVICE_FLAG_STANDALONE = d_flag d AND RT_DEVICE_FLAG_STANDALONE"

definition keeps :: "'d rt_device \<Rightarrow> 'd rt_device \<Rightarrow> bool" where
  "keeps d d' \<longleftrightarrow> counts d d' \<and> open_flag d' AND RT_DEVICE_OFLAG_OPEN = open_flag d AND RT_DEVICE_OFLAG_OPEN"

definition tame :: "'d device_ops \<Rightarrow> bool" where
  "tame p \<longleftrightarrow> (\<forall>f d. dop_init p = Some f \<longrightarrow> keeps d (snd (f d)) \<and> fst (f d) \<noteq> - RT_ENOSYS)
     \<and> (\<forall>f g d. dop_open p = Some f \<longrightarrow> counts d (snd (f g d)) \<and> (accepted (fst (f g d)) \<or> keeps d (snd (f g d))))
     \<and> (\<forall>f d. dop_close p = Some f \<longrightarrow> counts d (snd (f d)))"

definition closes :: "'d device_ops \<Rightarrow> bool" where
  "closes p \<longleftrightarrow> (\<forall>f d. dop_close p = Some f \<longrightarrow> accepted (fst (f d)))"

definition standalone :: "'d rt_device \<Rightarrow> bool" where
  "standalone d \<longleftrightarrow> d_flag d AND RT_DEVICE_FLAG_STANDALONE \<noteq> 0"

definition use_inv :: "'d devices \<Rightarrow> u32 \<Rightarrow> nat \<Rightarrow> bool" where
  "use_inv s dev n \<longleftrightarrow> assert_device dev s = Some () \<and> unat (ref_count (devs s dev)) = n
     \<and> (open_flag (devs s dev) AND RT_DEVICE_OFLAG_OPEN \<noteq> 0 \<longleftrightarrow> n \<noteq> 0)
     \<and> (standalone (devs s dev) \<longrightarrow> n \<le> 1)"

lemma device_flag_bits:
  "(x OR 8) AND 8 = (8 :: u16)" "(x OR 16) AND 8 = x AND (8 :: u16)"
proof -
  show "(x OR 8) AND 8 = (8 :: u16)" by (rule bit_word_eqI) (auto simp: bit_simps)
  have "(x OR 16) AND 8 = (x AND 8) OR (16 AND (8 :: u16))" by (rule bit.conj_disj_distrib2)
  then show "(x OR 16) AND 8 = x AND (8 :: u16)" by simp
qed

lemma assert_upd_dev [simp]: "assert_device dev (upd_dev dev' f s) = assert_device dev s"
  by (simp add: assert_device_def rt_object_get_type_def)

lemma upd_dev_twice [simp]: "upd_dev dev f (upd_dev dev g s) = upd_dev dev (\<lambda>d. f (g d)) s"
  by (simp add: upd_dev_def)

text \<open>The first part of an opening.\<close>

lemma open_activate_spec:
  assumes t: "tame (dops s dev)"
  obtains go e d where "open_activate dev s = (go, e, upd_dev dev (\<lambda>_. d) s)" "keeps (devs s dev) d"
    "go \<longrightarrow> e = 0" "\<not> go \<longrightarrow> \<not> accepted e"
proof (cases "d_flag (devs s dev) AND 0x10 = 0")
  case False
  then have "open_activate dev s = (True, 0, upd_dev dev (\<lambda>_. devs s dev) s)"
    by (simp add: open_activate_def upd_dev_def)
  then show ?thesis by (rule that) (simp_all add: keeps_def counts_def)
next
  case True
  show ?thesis
  proof (cases "dop_init (dops s dev)")
    case None
    with True have "open_activate dev s = (True, 0, upd_dev dev (\<lambda>_. (devs s dev)\<lparr>d_flag := d_flag (devs s dev) OR 0x10\<rparr>) s)"
      by (simp add: open_activate_def upd_dev_def)
    then show ?thesis by (rule that) (simp_all add: keeps_def counts_def device_flag_bits)
  next
    case (Some f)
    obtain e d where f: "f (devs s dev) = (e, d)" by fastforce
    with t Some have k: "keeps (devs s dev) d" "e \<noteq> - 6" unfolding tame_def by (metis fst_conv snd_conv)+
    show ?thesis
    proof (cases "e = 0")
      case False
      with True Some f have "open_activate dev s = (False, e, upd_dev dev (\<lambda>_. d) s)"
        by (simp add: open_activate_def)
      then show ?thesis by (rule that) (use k False in \<open>simp_all add: accepted_def\<close>)
    next
      case e: True
      with True Some f have "open_activate dev s = (True, 0, upd_dev dev (\<lambda>_. d\<lparr>d_flag := d_flag d OR 0x10\<rparr>) s)"
        by (simp add: open_activate_def)
      then show ?thesis by (rule that) (use k in \<open>simp_all add: keeps_def counts_def device_flag_bits\<close>)
    qed
  qed
qed

lemma open_spec:
  assumes t: "tame (dops s dev)" and inv: "use_inv s dev n"
  shows "case rt_device_open dev g s of
      None \<Rightarrow> \<not> standalone (devs s dev) \<and> n = 255
    | Some (e, s') \<Rightarrow> use_inv s' dev (users n (Open g) e) \<and> dops s' = dops s
        \<and> standalone (devs s' dev) = standalone (devs s dev)
        \<and> (standalone (devs s dev) \<and> n = 1 \<longrightarrow> \<not> accepted e)"
proof -
  from open_activate_spec [OF t] obtain go e d where a: "open_activate dev s = (go, e, upd_dev dev (\<lambda>_. d) s)"
    and k: "keeps (devs s dev) d" and e: "go \<longrightarrow> e = 0" "\<not> go \<longrightarrow> \<not> accepted e" by blast
  have n: "unat (ref_count d) = n" "open_flag d AND 8 \<noteq> 0 \<longleftrightarrow> n \<noteq> 0" "standalone d = standalone (devs s dev)"
    "standalone d \<longrightarrow> n \<le> 1" and as: "assert_device dev s = Some ()"
    using inv k by (auto simp: use_inv_def keeps_def counts_def standalone_def)
  consider "\<not> go" | "go" "standalone d" "n \<noteq> 0" | "go" "\<not> (standalone d \<and> n \<noteq> 0)" by blast
  then show ?thesis
  proof cases
    case 1
    with e a as n inv show ?thesis
      by (auto simp: rt_device_open_def use_inv_def)
  next
    case 2
    with e a as n inv show ?thesis
      by (auto simp: rt_device_open_def use_inv_def standalone_def accepted_def)
  next
    case 3
    obtain r d1 where o: "(case dop_open (dops s dev) of Some f \<Rightarrow> f g d
        | None \<Rightarrow> (e, d\<lparr>open_flag := g AND 0xf0f\<rparr>)) = (r, d1)" by fastforce
    have "counts d d1 \<and> (accepted r \<or> keeps d d1)"
    proof (cases "dop_open (dops s dev)")
      case None
      with o e 3 show ?thesis by (auto simp: counts_def accepted_def)
    next
      case (Some f)
      with o have "f g d = (r, d1)" by simp
      moreover have "counts d (snd (f g d)) \<and> (accepted (fst (f g d)) \<or> keeps d (snd (f g d)))"
        using t Some by (simp add: tame_def)
      ultimately show ?thesis by simp
    qed
    then have c: "counts d d1" "accepted r \<or> keeps d d1" by simp_all
    then have n1: "unat (ref_count d1) = n" "standalone d1 = standalone d" using n by (auto simp: counts_def standalone_def)
    have st: "\<not> (d_flag d AND 8 \<noteq> 0 \<and> open_flag d AND 8 \<noteq> 0)" using 3 n by (auto simp: standalone_def)
    have eq: "rt_device_open dev g s =
      (if accepted r
       then (if ref_count d1 + 1 \<noteq> 0
             then Some (r, upd_dev dev (\<lambda>_. d1\<lparr>open_flag := open_flag d1 OR 8, ref_count := ref_count d1 + 1\<rparr>) s) else None)
       else Some (r, upd_dev dev (\<lambda>_. d1) s))"
      using 3(1) a as st o by (auto simp: rt_device_open_def accepted_def)
    have z: "ref_count d1 + 1 = 0 \<longleftrightarrow> n = 255" "n \<noteq> 255 \<longrightarrow> unat (ref_count d1 + 1) = Suc n"
    proof -
      have "unat (ref_count d1 + 1) = Suc n mod 256" using n1(1) by (simp add: unat_word_ariths)
      also have "\<dots> = (if n = 255 then 0 else Suc n)" using n1(1) unat_u8 [of "ref_count d1"] by auto
      finally have u: "unat (ref_count d1 + 1) = (if n = 255 then 0 else Suc n)" .
      then show "n \<noteq> 255 \<longrightarrow> unat (ref_count d1 + 1) = Suc n" by simp
      show "ref_count d1 + 1 = 0 \<longleftrightarrow> n = 255" using u unat_eq_0 [of "ref_count d1 + 1"] by (auto split: if_splits)
    qed
    show ?thesis
    proof (cases "accepted r")
      case True
      have sa: "standalone (d1\<lparr>open_flag := x, ref_count := y\<rparr>) = standalone (devs s dev)" for x y
        using n1 n by (simp add: standalone_def)
      show ?thesis using eq True z n 3 as by (auto simp: use_inv_def sa device_flag_bits)
    next
      case False
      with c have "keeps d d1" by simp
      with eq False n n1 as show ?thesis by (auto simp: use_inv_def keeps_def)
    qed
  qed
qed

lemma close_spec:
  assumes t: "tame (dops s dev)" "closes (dops s dev)" and inv: "use_inv s dev n"
  shows "\<exists>e s'. rt_device_close dev s = Some (e, s') \<and> use_inv s' dev (n - 1) \<and> dops s' = dops s
    \<and> standalone (devs s' dev) = standalone (devs s dev)"
proof -
  let ?d = "devs s dev"
  define d1 where "d1 = ?d\<lparr>ref_count := ref_count ?d - 1\<rparr>"
  have as: "assert_device dev s = Some ()" and n: "unat (ref_count ?d) = n" using inv by (auto simp: use_inv_def)
  have z: "n \<noteq> 0 \<longrightarrow> unat (ref_count ?d - 1) = n - 1" "ref_count ?d = 0 \<longleftrightarrow> n = 0"
    using n by (auto simp: unat_eq_0 [symmetric] unat_minus_one)
  then have z1: "n \<noteq> 0 \<longrightarrow> (ref_count ?d - 1 = 0 \<longleftrightarrow> n = 1)" by (auto simp: unat_eq_0 [symmetric])
  have d1: "n \<noteq> 0 \<longrightarrow> unat (ref_count d1) = n - 1" "n \<noteq> 0 \<longrightarrow> (ref_count d1 = 0 \<longleftrightarrow> n = 1)"
    "open_flag d1 = open_flag ?d" "d_flag d1 = d_flag ?d"
    using z z1 by (simp_all add: d1_def)
  have eq: "rt_device_close dev s = (if n = 0 then Some (- 1, s) else if ref_count d1 \<noteq> 0 then Some (0, upd_dev dev (\<lambda>_. d1) s)
    else (let (r, d2) = (case dop_close (dops s dev) of Some f \<Rightarrow> f d1 | None \<Rightarrow> (0, d1)) in
      Some (r, upd_dev dev (\<lambda>_. if r = 0 \<or> r = - 6 then d2\<lparr>open_flag := 0\<rparr> else d2) s)))"
    unfolding rt_device_close_def Let_def as d1_def [symmetric] z(2) [symmetric] by simp
  consider "n = 0" | "1 < n" | "n = 1" by linarith
  then show ?thesis
  proof cases
    case 1
    with inv show ?thesis by (simp add: eq)
  next
    case 2
    then have "rt_device_close dev s = Some (0, upd_dev dev (\<lambda>_. d1) s)"
      using d1 by (simp add: eq)
    with 2 as d1 inv show ?thesis by (auto simp: use_inv_def standalone_def)
  next
    case 3
    obtain r d2 where o: "(case dop_close (dops s dev) of Some f \<Rightarrow> f d1 | None \<Rightarrow> (0, d1)) = (r, d2)" by fastforce
    have c: "counts d1 d2 \<and> accepted r"
    proof (cases "dop_close (dops s dev)")
      case None
      with o show ?thesis by (auto simp: counts_def accepted_def)
    next
      case (Some f)
      with o have "f d1 = (r, d2)" by simp
      moreover have "counts d1 (snd (f d1)) \<and> accepted (fst (f d1))"
        using t Some by (simp add: tame_def closes_def)
      ultimately show ?thesis by simp
    qed
    have "rt_device_close dev s = Some (r, upd_dev dev (\<lambda>_. d2\<lparr>open_flag := 0\<rparr>) s)"
      using d1 o c 3 by (simp add: eq accepted_def)
    with 3 as d1 c inv show ?thesis by (auto simp: use_inv_def counts_def standalone_def)
  qed
qed

lemma device_run_simulates:
  "device_inv X s M \<Longrightarrow> list_all (device_op_ok X) es \<Longrightarrow>
   case run_ops device_map_step M es of None \<Rightarrow> run_ops device_step s es = None
   | Some (xs, M') \<Rightarrow> \<exists>s'. run_ops device_step s es = Some (xs, s') \<and> device_inv X s' M'"
proof (induction es arbitrary: s M)
  case (Cons e es)
  have ok: "device_op_ok X e" using Cons.prems(2) by simp
  show ?case
  proof (cases "device_map_step M e")
    case None
    with device_step_simulates [OF Cons.prems(1) ok] show ?thesis by simp
  next
    case (Some y)
    then obtain x M1 where st: "device_map_step M e = Some (x, M1)" by fastforce
    with device_step_simulates [OF Cons.prems(1) ok] obtain s1 where
      s1: "device_step s e = Some (x, s1)" "device_inv X s1 M1" by auto
    from Cons.IH [OF s1(2)] Cons.prems(2) show ?thesis by (auto simp: st s1(1) split: option.splits)
  qed
qed simp

text \<open>A run of openings and closings.\<close>

definition opens :: "use_op list \<Rightarrow> nat" where
  "opens es = length (filter (\<lambda>e. e \<noteq> Close) es)"

lemma users_after_simps [simp]:
  "users_after n [] rs = n" "users_after n (e # es) (r # rs) = users_after (users n e r) es rs"
  by (simp_all add: users_after_def)

lemma opens_simps [simp]: "opens [] = 0" "opens (Open g # es) = Suc (opens es)" "opens (Close # es) = opens es"
  by (simp_all add: opens_def)

lemma use_run:
  "tame (dops s dev) \<Longrightarrow> closes (dops s dev) \<Longrightarrow> use_inv s dev n \<Longrightarrow>
   case run_ops (use_step dev) s es of
     None \<Rightarrow> \<not> standalone (devs s dev) \<and> 255 < n + opens es
   | Some (rs, s') \<Rightarrow> use_inv s' dev (users_after n es rs) \<and> standalone (devs s' dev) = standalone (devs s dev)"
proof (induction es arbitrary: s n)
  case (Cons e es)
  show ?case
  proof (cases e)
    case (Open g)
    show ?thesis
    proof (cases "rt_device_open dev g s")
      case None
      with open_spec [OF Cons.prems(1,3), of g] show ?thesis by (simp add: Open)
    next
      case (Some y)
      then obtain r s1 where y: "rt_device_open dev g s = Some (r, s1)" by fastforce
      with open_spec [OF Cons.prems(1,3), of g] have s1: "use_inv s1 dev (users n (Open g) r)" "dops s1 = dops s"
        "standalone (devs s1 dev) = standalone (devs s dev)" by auto
      have "users n (Open g) r \<le> Suc n" by simp
      with Cons.IH [OF _ _ s1(1)] Cons.prems(1,2) s1(2,3) y show ?thesis
        by (auto simp: Open split: option.splits)
    qed
  next
    case Close
    from close_spec [OF Cons.prems] obtain r s1 where s1: "rt_device_close dev s = Some (r, s1)"
      "use_inv s1 dev (n - 1)" "dops s1 = dops s" "standalone (devs s1 dev) = standalone (devs s dev)" by blast
    with Cons.IH [OF _ _ s1(2)] Cons.prems(1,2) show ?thesis
      by (auto simp: Close split: option.splits)
  qed
qed simp

lemma object_init_frame:
  assumes "rt_object_init obj ty name s = Some s1"
  shows "devs s1 = devs s" "dops s1 = dops s" "o_type (objs s1 obj) = ty OR 0x80"
    "\<And>x. x \<noteq> obj \<Longrightarrow> objs s1 x = objs s x" "isr_nest s1 = isr_nest s"
  using assms
  by (auto simp: rt_object_init_def rt_object_init_insert_def Let_def upd_links_def upd_obj_def split: Option.bind_splits)

lemma device_registered:
  assumes "rt_device_register dev name flags s = Some (0, s0)"
  shows "use_inv s0 dev 0" "standalone (devs s0 dev) \<longleftrightarrow> flags AND 8 \<noteq> 0" "dops s0 = dops s"
proof -
  obtain s1 where dev: "dev \<noteq> 0" and s1: "rt_object_init dev 9 name s = Some s1"
    "s0 = upd_dev dev (\<lambda>d. d\<lparr>d_flag := flags, ref_count := 0, open_flag := 0\<rparr>) s1"
    using assms by (auto simp: rt_device_register_def split: if_splits Option.bind_splits)
  note f = object_init_frame [OF s1(1)]
  show "use_inv s0 dev 0" "standalone (devs s0 dev) \<longleftrightarrow> flags AND 8 \<noteq> 0" "dops s0 = dops s"
    using dev f by (auto simp: s1(2) use_inv_def assert_device_def rt_object_get_type_def standalone_def)
qed

text \<open>A device whose last close failed.\<close>

definition stranded :: "'d devices \<Rightarrow> u32 \<Rightarrow> bool" where
  "stranded s dev \<longleftrightarrow> assert_device dev s = Some () \<and> ref_count (devs s dev) = 0 \<and> standalone (devs s dev)
     \<and> d_flag (devs s dev) AND RT_DEVICE_FLAG_ACTIVATED \<noteq> 0 \<and> open_flag (devs s dev) AND RT_DEVICE_OFLAG_OPEN \<noteq> 0"

lemma stranded_run:
  "stranded s dev \<Longrightarrow> run_ops (use_step dev) s es = Some (map (\<lambda>e. if e = Close then - 1 else - 7) es, s)"
proof (induction es)
  case (Cons e es)
  have "use_step dev s e = Some (if e = Close then - 1 else - 7, s)"
    using Cons.prems by (cases e)
      (auto simp: stranded_def rt_device_open_def rt_device_close_def open_activate_def standalone_def)
  with Cons show ?case by simp
qed simp

section \<open>Creation and destruction\<close>

datatype life_op = Dev_Create int u32 | Dev_Op device_op

fun life_step :: "'d devices \<Rightarrow> life_op \<Rightarrow> (unit \<times> 'd devices) option" where
  "life_step s (Dev_Create ty n) = map_option (\<lambda>(p, s'). ((), s')) (rt_device_create ty n s)"
| "life_step s (Dev_Op e) = map_option (\<lambda>(x, s'). ((), s')) (device_step s e)"

definition no_dynamic_device :: "'d devices \<Rightarrow> bool" where
  "no_dynamic_device s \<longleftrightarrow> (\<forall>x. o_type (objs s x) \<noteq> RT_Object_Class_Device)"

lemma no_dynamic_destroy:
  assumes "no_dynamic_device s"
  shows "rt_device_destroy dev s = None"
proof -
  have "\<not> (x AND NOT 0x80 = 9 \<and> x AND 0x80 = 0)" if "x \<noteq> 9" for x :: u8
  proof -
    have "x = (x AND NOT 0x80) OR (x AND 0x80)" by (rule bit_word_eqI) (auto simp: bit_simps)
    with that show ?thesis by (metis or.right_neutral)
  qed
  with assms show ?thesis
    unfolding rt_device_destroy_def assert_device_def rt_object_get_type_def rt_object_is_systemobject_def no_dynamic_device_def
    by (auto split: Option.bind_splits if_splits)
qed

lemma no_dynamic_step:
  assumes "no_dynamic_device s" "life_step s e = Some (x, s')"
  shows "no_dynamic_device s'"
proof (cases e)
  case (Dev_Create ty n)
  with assms show ?thesis
    by (auto simp: no_dynamic_device_def rt_device_create_def Let_def upd_links_def upd_obj_def
        split: Option.bind_splits if_splits)
next
  case (Dev_Op d)
  show ?thesis
  proof (cases d)
    case (Dev_Register dev name flags)
    with assms(2) Dev_Op have "s' = s \<or> (\<exists>s1. rt_object_init dev 9 name s = Some s1 \<and> objs s' = objs s1)"
      by (auto simp: rt_device_register_def split: Option.bind_splits if_splits)
    then show ?thesis
    proof
      assume "\<exists>s1. rt_object_init dev 9 name s = Some s1 \<and> objs s' = objs s1"
      then obtain s1 where s1: "rt_object_init dev 9 name s = Some s1" "objs s' = objs s1" by blast
      have "o_type (objs s' x) \<noteq> 9" for x
      proof (cases "x = dev")
        case True
        then show ?thesis using object_init_frame(3) [OF s1(1)] s1(2) by simp
      next
        case False
        then show ?thesis using object_init_frame(4) [OF s1(1)] s1(2) assms(1) by (simp add: no_dynamic_device_def)
      qed
      then show ?thesis by (simp add: no_dynamic_device_def)
    qed (use assms(1) in simp)
  qed (use assms Dev_Op in \<open>auto simp: no_dynamic_device_def rt_device_unregister_def rt_object_detach_def Let_def
      upd_links_def upd_obj_def split: Option.bind_splits if_splits\<close>)
qed

lemma no_dynamic_run:
  "no_dynamic_device s \<Longrightarrow> run_ops life_step s es = Some (xs, s') \<Longrightarrow> no_dynamic_device s'"
proof (induction es arbitrary: s xs)
  case (Cons e es)
  from Cons.prems(2) obtain x s1 ys where e: "life_step s e = Some (x, s1)" "run_ops life_step s1 es = Some (ys, s')"
    by (auto split: Option.bind_splits)
  show ?case by (rule Cons.IH [OF no_dynamic_step [OF Cons.prems(1) e(1)] e(2)])
qed simp

section \<open>Properties\<close>

text \<open>A system without devices, for the witnesses: the driver at every address is \<open>p\<close>.\<close>

definition devices_start :: "heap \<Rightarrow> 'd rt_device \<Rightarrow> 'd device_ops \<Rightarrow> 'd devices" where
  "devices_start h d p = registry.extend (registry_start (\<lambda>_. 40) h) (devices.fields (\<lambda>_. d) (\<lambda>_. p) 0)"

definition no_ops :: "'d device_ops" where
  "no_ops = \<lparr>dop_init = None, dop_open = None, dop_close = None, dop_read = None, dop_write = None, dop_control = None\<rparr>"

definition closed_device :: "unit rt_device" where
  "closed_device = \<lparr>d_type = 0, d_flag = 0, open_flag = 0, ref_count = 0, device_id = 0, rx_indicate = None,
     tx_complete = None, user_data = 0, priv = ()\<rparr>"

lemma devices_start_simps [simp]:
  "olinks (devices_start h d p) = \<lparr>nxt = (\<lambda>c. c), prv = (\<lambda>c. c)\<rparr>" "isr_nest (devices_start h d p) = 0"
  "objs (devices_start h d p) = (\<lambda>_. \<lparr>o_name = [], o_type = 0, o_flag = 0\<rparr>)" "oheap (devices_start h d p) = h"
  "devs (devices_start h d p) = (\<lambda>_. d)" "dops (devices_start h d p) = (\<lambda>_. p)" "sizeof (devices_start h d p) = (\<lambda>_. 40)"
  by (simp_all add: devices_start_def registry.defs devices.defs registry_start_def)

lemma devices_start_inv: "device_inv {} (devices_start h d p) Map.empty"
  unfolding device_inv_def
  by (intro exI [of _ "{}"] exI [of _ "\<lambda>_. []"]) (simp add: represents_def realises_def ring_def)

text \<open>C34. The device registry is a map. Any sequence of registrations, removals and searches of devices does
  what it does on a partial map from names, cut at \<open>RT_NAME_MAX\<close> characters, to devices: a name that is taken
  (or \<open>RT_NULL\<close>) is refused with \<open>-RT_ERROR\<close>, a search finds the one device of that name; an assertion fails
  exactly when a registered device is registered under a second name or something that is no registered
  device is removed.\<close>

theorem device_run_refines_map:
  assumes "device_inv X s M" "list_all (device_op_ok X) es"
  shows "case run_ops device_map_step M es of None \<Rightarrow> run_ops device_step s es = None
    | Some (xs, M') \<Rightarrow> \<exists>s'. run_ops device_step s es = Some (xs, s') \<and> device_inv X s' M'"
  by (rule device_run_simulates [OF assms])

theorem device_run_refines_map_witness:
  "\<exists>s'. run_ops device_step (devices_start demo_heap closed_device no_ops)
     [Dev_Register 0x100 [0x61] 0, Dev_Register 0x200 [0x61] 0, Dev_Find [0x61], Dev_Unregister 0x100, Dev_Find [0x61]] =
     Some ([Err 0, Err (- 1), Dev_Found (Some 0x100), Err 0, Dev_Found None], s')"
proof -
  let ?es = "[Dev_Register 0x100 [0x61] 0, Dev_Register 0x200 [0x61] 0, Dev_Find [0x61], Dev_Unregister 0x100, Dev_Find [0x61]]"
  have ok: "list_all (device_op_ok {}) ?es" by simp
  have "\<exists>M. run_ops device_map_step Map.empty ?es =
      Some ([Err 0, Err (- 1), Dev_Found (Some 0x100), Err 0, Dev_Found None], M)"
    by simp
  with device_run_refines_map [OF devices_start_inv ok, of demo_heap closed_device no_ops] show ?thesis by auto
qed



text \<open>C39. A close that fails strands the device. If the driver of an open standalone device with one user
  fails to close it, the count is already 0 and the open flag stays: from then on every opening is
  answered \<open>-RT_EBUSY\<close> and every closing \<open>-RT_ERROR\<close>, whatever is tried, and nothing changes any more.\<close>

theorem device_close_failure_strands:
  assumes "use_inv s dev 1" "standalone (devs s dev)" "dop_close (dops s dev) = Some f"
    and "f ((devs s dev)\<lparr>ref_count := 0\<rparr>) = (e, d)" "\<not> accepted e" "keeps ((devs s dev)\<lparr>ref_count := 0\<rparr>) d"
    and "d_flag d AND RT_DEVICE_FLAG_ACTIVATED \<noteq> 0"
  shows "\<exists>s1. rt_device_close dev s = Some (e, s1)
    \<and> (\<forall>es. run_ops (use_step dev) s1 es = Some (map (\<lambda>e. if e = Close then - RT_ERROR else - RT_EBUSY) es, s1))"
proof -
  have c: "ref_count (devs s dev) = 1" using assms(1) by (simp add: use_inv_def word_eq_unat)
  have "rt_device_close dev s = Some (e, upd_dev dev (\<lambda>_. d) s)"
    using assms c by (auto simp: rt_device_close_def use_inv_def Let_def accepted_def)
  moreover have "stranded (upd_dev dev (\<lambda>_. d) s) dev"
    using assms by (auto simp: stranded_def use_inv_def keeps_def counts_def standalone_def)
  ultimately show ?thesis using stranded_run by blast
qed

theorem device_close_failure_strands_witness:
  "\<exists>(s :: unit devices) s1. rt_device_close 0x100 s = Some (- 8, s1)
    \<and> run_ops (use_step 0x100) s1 [Open 3, Close, Open 3] = Some ([- 7, - 1, - 7], s1)"
proof -
  let ?f = "\<lambda>d :: unit rt_device. (- 8 :: int, d)"
  define s where "s = upd_obj 0x100 (\<lambda>x. x\<lparr>o_type := 0x89\<rparr>)
    (devices_start demo_heap (closed_device\<lparr>d_flag := 0x018, open_flag := 0x00B, ref_count := 1\<rparr>) (no_ops\<lparr>dop_close := Some ?f\<rparr>))"
  have "use_inv s 0x100 1" "standalone (devs s 0x100)" "dop_close (dops s 0x100) = Some ?f"
    "d_flag ((devs s 0x100)\<lparr>ref_count := 0\<rparr>) AND 0x010 \<noteq> 0"
    by (simp_all add: s_def use_inv_def assert_device_def rt_object_get_type_def standalone_def upd_obj_def)
  from device_close_failure_strands [OF this(1,2,3) _ _ _ this(4), of "- 8"]
  obtain s1 where "rt_device_close 0x100 s = Some (- 8, s1)"
    and all: "\<And>es. run_ops (use_step 0x100) s1 es = Some (map (\<lambda>e. if e = Close then - 1 else - 7) es, s1)"
    by (auto simp: accepted_def keeps_def counts_def)
  moreover from all [of "[Open 3, Close, Open 3]"]
  have "run_ops (use_step 0x100) s1 [Open 3, Close, Open 3] = Some ([- 7, - 1, - 7], s1)" by (simp del: run_ops.simps)
  ultimately show ?thesis by blast
qed

text \<open>C38. No device can be destroyed. \<open>rt_device_destroy\<close> wants a registered device that is not static, but
  \<open>rt_device_register\<close> makes every device static and \<open>rt_device_create\<close> leaves the class unset: whatever
  devices are created, registered, removed and searched, the call fails an assertion for every
  device, so the memory of a created device is never given back.\<close>

theorem device_destroy_always_asserts:
  assumes "no_dynamic_device s" "run_ops life_step s es = Some (xs, s')"
  shows "rt_device_destroy dev s' = None"
  by (rule no_dynamic_destroy [OF no_dynamic_run [OF assms]])

theorem device_destroy_always_asserts_witness:
  "\<exists>xs s'. run_ops life_step (devices_start demo_heap closed_device no_ops) [Dev_Create 0 4] = Some (xs, s')
    \<and> rt_device_destroy 0x100C s' = None"
proof -
  let ?s = "devices_start demo_heap closed_device no_ops"
  have ok: "heap_ok demo_heap" using demo_heap_facts(1) by (simp add: heap_tidy_def)
  have "\<exists>p s'. rt_device_create 0 4 ?s = Some (p, s')"
    by (rule rt_malloc_cases [OF ok, of "rt_align 40 + rt_align 4"]) (simp_all add: rt_device_create_def Let_def)
  then obtain p s' where c: "rt_device_create 0 4 ?s = Some (p, s')" by blast
  then have r: "run_ops life_step ?s [Dev_Create 0 4] = Some ([()], s')" by simp
  have "no_dynamic_device ?s" by (simp add: no_dynamic_device_def)
  from device_destroy_always_asserts [OF this r] r show ?thesis by blast
qed

end
