(* ===== verification/Idle.thy ===== *)
theory Idle
  imports ObjectReg Thread
begin

text \<open>
  The idle thread (\<open>idle.c\<close>): its hooks, and the freeing of threads that have ended, over the thread lists
  of \<open>Thread\<close>, the registry of \<open>ObjectReg\<close> and the heap; with \<open>rt_thread_create\<close> (\<open>thread.c\<close>), which allocates what the idle
  thread frees. A thread is named by its address, \<open>tid\<close> being the number of it. The registration of
  the timer inside a thread and the initial stack frame are left out.
\<close>

unbundle bit_operations_syntax

section \<open>Hooks\<close>

abbreviation (input) RT_IDLE_HOOK_LIST_SIZE :: nat where "RT_IDLE_HOOK_LIST_SIZE \<equiv> 4"

text \<open>\<open>idle_hook_list\<close>: the address of a hook or \<open>RT_NULL\<close> in each of the four slots.\<close>

fun replace_first :: "'a \<Rightarrow> 'a \<Rightarrow> 'a list \<Rightarrow> 'a list option" where
  "replace_first x y [] = None"
| "replace_first x y (z # zs) = (if z = x then Some (y # zs) else map_option (Cons z) (replace_first x y zs))"

definition rt_thread_idle_sethook :: "nat option \<Rightarrow> nat option list \<Rightarrow> int \<times> nat option list" where
  "rt_thread_idle_sethook hook hs =
     (case replace_first None hook hs of Some hs' \<Rightarrow> (RT_EOK, hs') | None \<Rightarrow> (- RT_EFULL, hs))"

definition rt_thread_idle_delhook :: "nat option \<Rightarrow> nat option list \<Rightarrow> int \<times> nat option list" where
  "rt_thread_idle_delhook hook hs =
     (case replace_first hook None hs of Some hs' \<Rightarrow> (RT_EOK, hs') | None \<Rightarrow> (- 6, hs))"

text \<open>The hooks that one turn of the idle loop calls, in order.\<close>

definition idle_hooks_called :: "nat option list \<Rightarrow> nat list" where
  "idle_hooks_called hs = List.map_filter (\<lambda>h. h) hs"

section \<open>Threads and their memory\<close>

record threadsys = registry +
  kern :: kernel
  stack_addr :: "u32 \<Rightarrow> u32"

definition rt_thread_create :: "u8 list \<Rightarrow> u32 \<Rightarrow> u8 \<Rightarrow> u32 \<Rightarrow> threadsys \<Rightarrow> (u32 \<times> threadsys) option" where
  "rt_thread_create name stack_size priority ticks s = do {
     (thread, s1) \<leftarrow> rt_object_allocate RT_Object_Class_Thread name s;
     if thread = 0 then Some (0, s1)
     else do {
       (stack_start, h) \<leftarrow> rt_malloc stack_size (oheap s1);
       let s2 = s1\<lparr>oheap := h\<rparr>;
       if stack_start = 0 then map_option (Pair 0) (rt_object_delete thread s2)
       else do {
         let s3 = s2\<lparr>stack_addr := (stack_addr s2)(thread := stack_start),
                     oheap := fill_bytes stack_start 0x23 stack_size (oheap s2)\<rparr>;
         (_, k) \<leftarrow> rt_thread_init (unat thread) False priority ticks (kern s3);
         Some (thread, s3\<lparr>kern := k\<rparr>)
       }
     }
   }"

text \<open>One turn of the loop of \<open>rt_thread_idle_excute\<close>. The part with interrupts disabled takes the first
  thread off the defunct list, calls its cleanup function (\<open>cl\<close>, a parameter) and detaches it if it is static;
  then the scheduler is unlocked. The memory of any other thread is freed after that.\<close>

datatype idle_step = Idle_Done | Idle_Detached | Idle_Free u32

definition idle_take :: "(u32 \<Rightarrow> threadsys \<Rightarrow> threadsys) \<Rightarrow> threadsys \<Rightarrow> (idle_step \<times> threadsys) option" where
  "idle_take cl s =
     (case lists (kern s) Defunct of
        [] \<Rightarrow> Some (Idle_Done, s)
      | t # _ \<Rightarrow>
          if isr_nest s \<noteq> 0 then None
          else
            (let thread = of_nat t;
                 s1 = s\<lparr>kern := rt_enter_critical (KState.rt_list_remove t (kern s))\<rparr>;
                 s2 = (if cleanup (threads (kern s1) t) then cl thread s1 else s1) in do {
               static \<leftarrow> rt_object_is_systemobject thread s2;
               s3 \<leftarrow> (if static then rt_object_detach thread s2 else Some s2);
               k \<leftarrow> rt_exit_critical (kern s3);
               Some (if static then Idle_Detached else Idle_Free thread, s3\<lparr>kern := k\<rparr>)
             }))"

definition idle_release :: "u32 \<Rightarrow> threadsys \<Rightarrow> threadsys option" where
  "idle_release thread s = do {
     h \<leftarrow> rt_free (stack_addr s thread) (oheap s);
     rt_object_delete thread (s\<lparr>oheap := h\<rparr>)
   }"

partial_function (option) rt_thread_idle_excute :: "(u32 \<Rightarrow> threadsys \<Rightarrow> threadsys) \<Rightarrow> threadsys \<Rightarrow> threadsys option" where
  "rt_thread_idle_excute cl s = do {
     (r, s1) \<leftarrow> idle_take cl s;
     case r of
       Idle_Free thread \<Rightarrow> do {
         s2 \<leftarrow> idle_release thread s1;
         rt_thread_idle_excute cl s2
       }
     | Idle_Detached \<Rightarrow> Some s1
     | Idle_Done \<Rightarrow> Some s1
   }"

text \<open>The idle loop without its hooks, \<open>n\<close> times.\<close>

fun idle_loop :: "(u32 \<Rightarrow> threadsys \<Rightarrow> threadsys) \<Rightarrow> nat \<Rightarrow> threadsys \<Rightarrow> threadsys option" where
  "idle_loop cl 0 s = Some s"
| "idle_loop cl (Suc n) s = Option.bind (rt_thread_idle_excute cl s) (idle_loop cl n)"

section \<open>The kernel's part\<close>

lemma take_kernel:
  assumes k: "kinv k" "current k \<noteq> None" and d: "lists k Defunct = t # ds"
  shows "\<exists>k'. rt_exit_critical (rt_enter_critical (KState.rt_list_remove t k)) = Some k'
    \<and> kinv k' \<and> current k' \<noteq> None \<and> lists k' Defunct = ds"
proof -
  let ?k0 = "KState.rt_list_remove t k"
  have t: "t \<in> set (lists k Defunct)" using d by simp
  have lo: "lists_ok k" by (rule kinv_lists [OF k(1)])
  have np: "t \<notin> set (lists k q)" if "q \<noteq> Defunct" for q using one_list [OF lo t] that by blast
  have tk: "thread_ok k t" by (rule kinv_thread [OF k(1)])
  then have cl: "tstat k t = RT_THREAD_CLOSE" using t by (auto simp: thread_ok_def list_stat_def)
  have "kinv_x {t} ?k0" by (intro kinv_x_list_remove kinv_x_of [OF k(1)]) (use np in auto)
  moreover have "thread_ok ?k0 t"
    using tk cl by (auto simp: thread_ok_def tstat_def prio_ok_def)
  ultimately have k0: "kinv ?k0" by (rule kinv_I)
  have "t \<notin> set ds" using lo d unfolding lists_ok_def by (metis distinct.simps(2))
  then have d0: "lists ?k0 Defunct = ds" using d by simp
  let ?k1 = "rt_enter_critical ?k0"
  have k1: "rt_enter_critical ?k0 = ?k0\<lparr>lock_nest := lock_nest k + 1\<rparr>" by (simp add: rt_enter_critical_def)
  have kx: "kinv (?k0\<lparr>lock_nest := x\<rparr>)" for x using kinv_cong [of "?k0\<lparr>lock_nest := x\<rparr>" ?k0] k0 by simp
  obtain c where c: "current (?k0\<lparr>lock_nest := 0\<rparr>) = Some c" using k(2) by auto
  from rt_schedule_spec [OF kx c] obtain k' n where
    s: "rt_schedule (?k0\<lparr>lock_nest := 0\<rparr>) = Some k'" "kinv k'" "current k' = Some n"
    "sched_rel (?k0\<lparr>lock_nest := 0\<rparr>) k'" by blast
  have "lists k' Defunct = ds" using sched_relD(15) [OF s(4)] d0 by simp
  with s kx k(2) d0 show ?thesis
    by (cases "sint (lock_nest k) \<le> 0") (auto simp: k1 rt_exit_critical_def Let_def)
qed

section \<open>The memory of threads\<close>

text \<open>\<open>T\<close> are the dynamic threads not yet freed: each is registered, its stack is a block of its own, and
  they make up, with the blocks \<open>base\<close> of others, what is in use of the heap.\<close>

definition mem_inv :: "threadsys \<Rightarrow> u32 set \<Rightarrow> u32 set \<Rightarrow> u32 set \<Rightarrow> bindings \<Rightarrow> bool" where
  "mem_inv s base T N B \<longleftrightarrow> isr_nest s = 0 \<and> represents s N B \<and> objects_in_heap s B
     \<and> (\<forall>th \<in> T. th \<in> fst ` set (B 0) \<and> dynamic (objs s th) \<and> (\<forall>i < 9. stack_addr s th \<notin> fst ` set (B i)))
     \<and> inj_on (stack_addr s) T \<and> heap_live (oheap s) = base \<union> T \<union> stack_addr s ` T
     \<and> base \<inter> (T \<union> stack_addr s ` T) = {}"

text \<open>What waits for the idle thread: threads of \<open>T\<close>, and static threads that are still registered.\<close>

definition idle_inv :: "threadsys \<Rightarrow> u32 set \<Rightarrow> u32 set \<Rightarrow> bool" where
  "idle_inv s base T \<longleftrightarrow> kinv (kern s) \<and> current (kern s) \<noteq> None \<and> (\<exists>N B. mem_inv s base T N B
     \<and> (\<forall>t \<in> set (lists (kern s) Defunct). t < 2 ^ 32
          \<and> (of_nat t \<in> T \<or> \<not> dynamic (objs s (of_nat t)) \<and> of_nat t \<in> N \<and> (of_nat t :: u32) \<noteq> 0)))"

text \<open>A cleanup function that keeps its hands off what the idle thread works on.\<close>

definition tame_cleanup :: "(u32 \<Rightarrow> threadsys \<Rightarrow> threadsys) \<Rightarrow> bool" where
  "tame_cleanup cl \<longleftrightarrow> (\<forall>th s. olinks (cl th s) = olinks s \<and> objs (cl th s) = objs s \<and> oheap (cl th s) = oheap s
     \<and> isr_nest (cl th s) = isr_nest s \<and> kern (cl th s) = kern s \<and> stack_addr (cl th s) = stack_addr s)"

lemma mem_inv_cong:
  assumes "olinks s' = olinks s" "objs s' = objs s" "oheap s' = oheap s" "isr_nest s' = isr_nest s"
    "stack_addr s' = stack_addr s"
  shows "mem_inv s' base T N B = mem_inv s base T N B"
  unfolding mem_inv_def represents_def objects_in_heap_def assms ..

lemma hook_call_threads [simp]:
  "kern (object_hook_call h x s) = kern s" "stack_addr (object_hook_call h x s) = stack_addr s"
  by (simp_all add: object_hook_call_def split: option.split)

lemma object_ops_threads:
  "rt_object_detach obj s = Some s' \<Longrightarrow> kern s' = kern s \<and> stack_addr s' = stack_addr s \<and> isr_nest s' = isr_nest s \<and> oheap s' = oheap s"
  "rt_object_delete obj s = Some s' \<Longrightarrow> kern s' = kern s \<and> stack_addr s' = stack_addr s"
  "rt_object_allocate ty name s = Some (p, s') \<Longrightarrow> kern s' = kern s \<and> stack_addr s' = stack_addr s"
  by (auto simp: rt_object_detach_def rt_object_delete_def rt_object_allocate_def Let_def upd_links_def upd_obj_def
      split: if_splits Option.bind_splits)

text \<open>A static thread is taken out of the registry.\<close>

lemma idle_static_mem:
  assumes m: "mem_inv s base T N B" and th: "\<not> dynamic (objs s th)" "th \<in> N" "th \<noteq> 0"
  obtains s' where "rt_object_detach th s = Some s'" "mem_inv s' base T N (\<lambda>i. filter (\<lambda>b. fst b \<noteq> th) (B i))"
    "objs s' = (objs s)(th := (objs s th)\<lparr>o_type := 0\<rparr>)" "kern s' = kern s"
proof -
  obtain s' where s': "rt_object_detach th s = Some s'" "olinks s' = rt_list_remove_p (Node th) (olinks s)"
    "objs s' = (objs s)(th := (objs s th)\<lparr>o_type := 0\<rparr>)"
    using th(3) by (simp add: rt_object_detach_def Let_def upd_links_def upd_obj_def)
  note e = object_ops_threads(1) [OF s'(1)]
  have nT: "th \<notin> T" using m th(1) by (auto simp: mem_inv_def)
  have rep: "represents s N B" and oh: "objects_in_heap s B" using m by (simp_all add: mem_inv_def)
  have "represents s' N (\<lambda>i. filter (\<lambda>b. fst b \<noteq> th) (B i))"
    by (rule represents_remove [OF rep th(2) s'(2)]) (simp add: s'(3))
  moreover have "objects_in_heap s' (\<lambda>i. filter (\<lambda>b. fst b \<noteq> th) (B i))"
    using oh e by (auto simp: objects_in_heap_def s'(3))
  moreover have "fst ` set (filter (\<lambda>b. fst b \<noteq> th) (B i)) = fst ` set (B i) - {th}" for i by force
  ultimately have "mem_inv s' base T N (\<lambda>i. filter (\<lambda>b. fst b \<noteq> th) (B i))"
    using m e nT unfolding mem_inv_def s'(3) by auto
  then show ?thesis by (rule that [OF s'(1)]) (use s'(3) e in simp_all)
qed

text \<open>A dynamic thread: its stack and then its object go back to the heap.\<close>

lemma idle_dynamic_mem:
  assumes m: "mem_inv s base T N B" and th: "th \<in> T"
  obtains s' where "idle_release th s = Some s'" "mem_inv s' base (T - {th}) N (\<lambda>i. filter (\<lambda>b. fst b \<noteq> th) (B i))"
    "objs s' = (objs s)(th := (objs s th)\<lparr>o_type := 0\<rparr>)" "kern s' = kern s"
proof -
  let ?st = "stack_addr s th"
  have live: "heap_live (oheap s) = base \<union> T \<union> stack_addr s ` T"
    and dis: "base \<inter> (T \<union> stack_addr s ` T) = {}" and inj: "inj_on (stack_addr s) T"
    and rep: "represents s N B" and oh: "objects_in_heap s B"
    and T: "\<And>t. t \<in> T \<Longrightarrow> t \<in> fst ` set (B 0)" "\<And>t. t \<in> T \<Longrightarrow> dynamic (objs s t)"
    "\<And>t i. t \<in> T \<Longrightarrow> i < 9 \<Longrightarrow> stack_addr s t \<notin> fst ` set (B i)"
    using m by (simp_all add: mem_inv_def)
  have ok: "heap_ok (oheap s)" using oh by (simp add: objects_in_heap_def)
  have sT: "stack_addr s t \<notin> T" if "t \<in> T" for t using T(1,3) that by force
  have "?st \<in> heap_live (oheap s)" using live th by simp
  from heap_free_live [OF ok this] obtain h where h: "rt_free ?st (oheap s) = Some h" "heap_ok h"
    "heap_live h = heap_live (oheap s) - {?st}" "same_heap (oheap s) h" by (auto simp: heap_free_def)
  let ?s1 = "s\<lparr>oheap := h\<rparr>"
  have rep1: "represents ?s1 N B" using rep by (simp add: represents_def)
  have "\<forall>i < 9. \<forall>b \<in> set (B i). fst b \<noteq> ?st" using T(3) [OF th] by force
  then have "objects_in_heap ?s1 B"
    using oh h in_heap_same [OF h(4)] by (simp add: objects_in_heap_def)
  moreover obtain b where b: "b \<in> set (B 0)" "fst b = th" using T(1) [OF th] by auto
  moreover have "dynamic (objs ?s1 th)" using T(2) [OF th] by simp
  ultimately obtain s' where s': "rt_object_delete th ?s1 = Some s'"
    "represents s' N (\<lambda>i. filter (\<lambda>b. fst b \<noteq> th) (B i))" "objects_in_heap s' (\<lambda>i. filter (\<lambda>b. fst b \<noteq> th) (B i))"
    "heap_live (oheap s') = heap_live (oheap ?s1) - {th}" "isr_nest s' = isr_nest ?s1"
    "objs s' = (objs ?s1)(th := (objs ?s1 th)\<lparr>o_type := 0\<rparr>)"
    using object_delete_spec [OF rep1, of 0 b th] by (metis zero_less_numeral)
  note e = object_ops_threads(2) [OF s'(1)]
  have fs: "fst ` set (filter (\<lambda>b. fst b \<noteq> th) (B i)) = fst ` set (B i) - {th}" for i by force
  have "stack_addr s ` T - {?st} = stack_addr s ` (T - {th})" using inj th by (auto simp: inj_on_def)
  then have "heap_live (oheap s') = base \<union> (T - {th}) \<union> stack_addr s ` (T - {th})"
    using live h(3) s'(4) dis th sT by auto
  moreover have "inj_on (stack_addr s) (T - {th})" by (rule inj_on_subset [OF inj]) blast
  ultimately have "mem_inv s' base (T - {th}) N (\<lambda>i. filter (\<lambda>b. fst b \<noteq> th) (B i))"
    using s' e m T dis unfolding mem_inv_def fs by auto
  moreover have "idle_release th s = Some s'" using h(1) s'(1) by (simp add: idle_release_def)
  ultimately show ?thesis by (intro that [of s']) (use s'(6) e in simp_all)
qed

lemma mem_inv_nonzero: "mem_inv s base T N B \<Longrightarrow> th \<in> T \<Longrightarrow> th \<noteq> 0"
proof -
  assume m: "mem_inv s base T N B" and th: "th \<in> T"
  then have "th \<in> fst ` set (B 0)" by (simp add: mem_inv_def)
  then obtain b where b: "b \<in> set (B 0)" "fst b = th" by blast
  have "represents s N B" using m by (simp add: mem_inv_def)
  then have "entry_ok (objs s (fst b)) 0 b" unfolding represents_def using b(1) zero_less_numeral by blast
  then show "th \<noteq> 0" using b by (simp add: entry_ok_def)
qed

lemma of_nat_u32_eq: "t < 2 ^ 32 \<Longrightarrow> u < 2 ^ 32 \<Longrightarrow> (of_nat t :: u32) = of_nat u \<longleftrightarrow> t = u"
proof -
  assume "t < 2 ^ 32" "u < 2 ^ 32"
  then have "unat (of_nat t :: u32) = t" "unat (of_nat u :: u32) = u" by (simp_all add: unat_word_of_nat)
  then show ?thesis by metis
qed

text \<open>One turn.\<close>

lemma idle_turn:
  assumes inv: "idle_inv s base T" and cl: "tame_cleanup cl" and d: "lists (kern s) Defunct = t # ds"
  shows "(of_nat t \<in> T \<longrightarrow> (\<exists>s'. rt_thread_idle_excute cl s = rt_thread_idle_excute cl s'
        \<and> idle_inv s' base (T - {of_nat t}) \<and> lists (kern s') Defunct = ds))
    \<and> (of_nat t \<notin> T \<longrightarrow> (\<exists>s'. rt_thread_idle_excute cl s = Some s'
        \<and> idle_inv s' base T \<and> lists (kern s') Defunct = ds))"
proof -
  let ?th = "of_nat t :: u32"
  obtain N B where k: "kinv (kern s)" "current (kern s) \<noteq> None" and m: "mem_inv s base T N B"
    and q: "\<forall>t \<in> set (t # ds). t < 2 ^ 32 \<and> (of_nat t \<in> T \<or> \<not> dynamic (objs s (of_nat t)) \<and> of_nat t \<in> N \<and> (of_nat t :: u32) \<noteq> 0)"
    using inv d unfolding idle_inv_def by auto
  have dist: "t \<notin> set ds" using kinv_lists [OF k(1)] d unfolding lists_ok_def by (metis distinct.simps(2))
  from take_kernel [OF k d] obtain k' where k': "rt_exit_critical (rt_enter_critical (KState.rt_list_remove t (kern s))) = Some k'"
    "kinv k'" "current k' \<noteq> None" "lists k' Defunct = ds" by blast
  define s1 where "s1 = s\<lparr>kern := rt_enter_critical (KState.rt_list_remove t (kern s))\<rparr>"
  define s2 where "s2 = (if cleanup (threads (kern s1) t) then cl ?th s1 else s1)"
  have s2: "olinks s2 = olinks s" "objs s2 = objs s" "oheap s2 = oheap s" "isr_nest s2 = isr_nest s"
    "stack_addr s2 = stack_addr s" "kern s2 = kern s1"
    using cl by (simp_all add: s2_def s1_def tame_cleanup_def)
  have m2: "mem_inv s2 base T N B" using m mem_inv_cong [OF s2(1-5)] by simp
  have nest: "isr_nest s = 0" using m by (simp add: mem_inv_def)
  have other: "(of_nat u :: u32) \<noteq> ?th" if "u \<in> set ds" for u
    using of_nat_u32_eq [of u t] q that dist by auto
  show ?thesis
  proof (cases "?th \<in> T")
    case True
    then have st: "rt_object_is_systemobject ?th s2 = Some False"
      using m2 mem_inv_nonzero [OF m True] by (simp add: rt_object_is_systemobject_def mem_inv_def dynamic_def)
    have take: "idle_take cl s = Some (Idle_Free ?th, s2\<lparr>kern := k'\<rparr>)"
      using d nest st k'(1) s2(6) unfolding idle_take_def
      by (simp add: s1_def [symmetric] s2_def [symmetric] Let_def) (simp add: s1_def)
    have "mem_inv (s2\<lparr>kern := k'\<rparr>) base T N B" using m2 mem_inv_cong [of "s2\<lparr>kern := k'\<rparr>" s2] by simp
    from idle_dynamic_mem [OF this True] obtain s' where s': "idle_release ?th (s2\<lparr>kern := k'\<rparr>) = Some s'"
      "mem_inv s' base (T - {?th}) N (\<lambda>i. filter (\<lambda>b. fst b \<noteq> ?th) (B i))"
      "objs s' = (objs s)(?th := (objs s ?th)\<lparr>o_type := 0\<rparr>)" "kern s' = k'"
      by (auto simp: s2)
    have "rt_thread_idle_excute cl s = rt_thread_idle_excute cl s'"
      by (subst rt_thread_idle_excute.simps) (simp add: take s'(1))
    moreover have "idle_inv s' base (T - {?th})"
      unfolding idle_inv_def using s'(2) q k' other by (auto simp: s'(3,4))
    ultimately show ?thesis using True k'(4) s'(4) by blast
  next
    case False
    then have th: "\<not> dynamic (objs s2 ?th)" "?th \<in> N" "?th \<noteq> 0" using q s2 by auto
    then have st: "rt_object_is_systemobject ?th s2 = Some True" by (simp add: rt_object_is_systemobject_def dynamic_def)
    from idle_static_mem [OF m2 th] obtain s3 where s3: "rt_object_detach ?th s2 = Some s3"
      "mem_inv s3 base T N (\<lambda>i. filter (\<lambda>b. fst b \<noteq> ?th) (B i))"
      "objs s3 = (objs s)(?th := (objs s ?th)\<lparr>o_type := 0\<rparr>)" "kern s3 = kern s1"
      by (auto simp: s2)
    have take: "idle_take cl s = Some (Idle_Detached, s3\<lparr>kern := k'\<rparr>)"
      using d nest st k'(1) s3(1,4) unfolding idle_take_def
      by (simp add: s1_def [symmetric] s2_def [symmetric] Let_def) (simp add: s1_def)
    have "rt_thread_idle_excute cl s = Some (s3\<lparr>kern := k'\<rparr>)"
      by (subst rt_thread_idle_excute.simps) (simp add: take)
    moreover have "mem_inv (s3\<lparr>kern := k'\<rparr>) base T N (\<lambda>i. filter (\<lambda>b. fst b \<noteq> ?th) (B i))"
      using s3(2) mem_inv_cong [of "s3\<lparr>kern := k'\<rparr>" s3] by simp
    then have "idle_inv (s3\<lparr>kern := k'\<rparr>) base T"
      unfolding idle_inv_def using q k' other by (auto simp: s3(3))
    ultimately show ?thesis using False k'(4) by auto
  qed
qed

lemma idle_excute_empty: "lists (kern s) Defunct = [] \<Longrightarrow> rt_thread_idle_excute cl s = Some s"
  by (subst rt_thread_idle_excute.simps) (simp add: idle_take_def)

lemma idle_excute_spec:
  assumes cl: "tame_cleanup cl"
  shows "idle_inv s base T \<Longrightarrow> lists (kern s) Defunct = ds \<Longrightarrow>
   \<exists>s'. rt_thread_idle_excute cl s = Some s'
    \<and> lists (kern s') Defunct = tl (dropWhile (\<lambda>t. of_nat t \<in> T) ds)
    \<and> idle_inv s' base (T - of_nat ` set (takeWhile (\<lambda>t. of_nat t \<in> T) ds))"
proof (induction ds arbitrary: s T)
  case Nil
  then show ?case using idle_excute_empty [of s cl] by auto
next
  case (Cons t ds)
  note turn = idle_turn [OF Cons.prems(1) cl Cons.prems(2)]
  show ?case
  proof (cases "of_nat t \<in> T")
    case True
    with turn obtain s1 where s1: "rt_thread_idle_excute cl s = rt_thread_idle_excute cl s1"
      "idle_inv s1 base (T - {of_nat t})" "lists (kern s1) Defunct = ds" by blast
    have q: "\<forall>u \<in> set (t # ds). u < 2 ^ 32" using Cons.prems unfolding idle_inv_def by metis
    have "kinv (kern s)" using Cons.prems(1) by (simp add: idle_inv_def)
    then have "t \<notin> set ds" using kinv_lists Cons.prems(2) unfolding lists_ok_def by (metis distinct.simps(2))
    then have same: "(of_nat u :: u32) \<in> T - {of_nat t} \<longleftrightarrow> of_nat u \<in> T" if "u \<in> set ds" for u
      using of_nat_u32_eq [of u t] q that by auto
    have tw: "takeWhile (\<lambda>u. of_nat u \<in> T - {of_nat t}) ds = takeWhile (\<lambda>u. of_nat u \<in> T) ds"
      "dropWhile (\<lambda>u. of_nat u \<in> T - {of_nat t}) ds = dropWhile (\<lambda>u. of_nat u \<in> T) ds"
      using same by (auto intro: takeWhile_cong dropWhile_cong)
    have "T - {of_nat t} - of_nat ` set (takeWhile (\<lambda>u. of_nat u \<in> T) ds)
      = T - of_nat ` set (takeWhile (\<lambda>u. of_nat u \<in> T) (t # ds))" using True by auto
    with Cons.IH [OF s1(2,3)] s1(1) True show ?thesis unfolding tw by simp
  next
    case False
    with turn show ?thesis by auto
  qed
qed

text \<open>The loop until nothing is left.\<close>

lemma idle_loop_reaps:
  assumes cl: "tame_cleanup cl"
  shows "idle_inv s base T \<Longrightarrow> T \<subseteq> of_nat ` set (lists (kern s) Defunct) \<Longrightarrow> length (lists (kern s) Defunct) \<le> n \<Longrightarrow>
    \<exists>s'. idle_loop cl n s = Some s' \<and> lists (kern s') Defunct = [] \<and> idle_inv s' base {}"
proof (induction n arbitrary: s T)
  case 0
  then show ?case by simp
next
  case (Suc n)
  let ?ds = "lists (kern s) Defunct" and ?P = "\<lambda>t. (of_nat t :: u32) \<in> T"
  from idle_excute_spec [OF cl Suc.prems(1) refl] obtain s1 where s1: "rt_thread_idle_excute cl s = Some s1"
    "lists (kern s1) Defunct = tl (dropWhile ?P ?ds)" "idle_inv s1 base (T - of_nat ` set (takeWhile ?P ?ds))" by blast
  have "x \<in> of_nat ` set (tl (dropWhile ?P ?ds))" if x: "x \<in> T - of_nat ` set (takeWhile ?P ?ds)" for x
  proof -
    from x Suc.prems(2) obtain t where t: "t \<in> set ?ds" "x = of_nat t" by blast
    then have "t \<notin> set (takeWhile ?P ?ds)" using x by blast
    moreover have "set ?ds = set (takeWhile ?P ?ds) \<union> set (dropWhile ?P ?ds)"
      by (metis set_append takeWhile_dropWhile_id)
    ultimately have d: "t \<in> set (dropWhile ?P ?ds)" using t(1) by blast
    then have "dropWhile ?P ?ds \<noteq> []" by (metis empty_iff list.set(1))
    then have "\<not> ?P (hd (dropWhile ?P ?ds))" by (rule hd_dropWhile)
    then have "t \<noteq> hd (dropWhile ?P ?ds)" using x t(2) by blast
    with d have "t \<in> set (tl (dropWhile ?P ?ds))" by (cases "dropWhile ?P ?ds") auto
    with t(2) show ?thesis by blast
  qed
  then have "T - of_nat ` set (takeWhile ?P ?ds) \<subseteq> of_nat ` set (lists (kern s1) Defunct)"
    unfolding s1(2) by blast
  moreover have "length (lists (kern s1) Defunct) \<le> n"
    using Suc.prems(3) length_dropWhile_le [of ?P ?ds] by (simp add: s1(2))
  ultimately obtain s' where "idle_loop cl n s1 = Some s'" "lists (kern s') Defunct = []" "idle_inv s' base {}"
    using Suc.IH [OF s1(3)] by blast
  with s1(1) show ?case by simp
qed

section \<open>Creation\<close>

lemma thread_create_spec:
  assumes m: "mem_inv s base T N B" and name: "0 \<notin> set name" and p: "unat priority < 32"
  shows "(\<exists>s' N' B'. rt_thread_create name stack_size priority ticks s = Some (0, s') \<and> mem_inv s' base T N' B'
        \<and> (\<forall>i < 9. B' i = B i) \<and> kern s' = kern s)
    \<or> (\<exists>th s'. rt_thread_create name stack_size priority ticks s = Some (th, s') \<and> th \<noteq> 0 \<and> th \<notin> base \<union> T
        \<and> mem_inv s' base (insert th T) (insert th N) (B(0 := (th, name) # B 0))
        \<and> rt_thread_init (unat th) False priority ticks (kern s) = Some (0, kern s'))"
proof -
  have nest: "isr_nest s = 0" and rep: "represents s N B" and oh: "objects_in_heap s B"
    and live: "heap_live (oheap s) = base \<union> T \<union> stack_addr s ` T"
    and dis: "base \<inter> (T \<union> stack_addr s ` T) = {}" and inj: "inj_on (stack_addr s) T"
    and T: "\<And>t. t \<in> T \<Longrightarrow> t \<in> fst ` set (B 0)" "\<And>t. t \<in> T \<Longrightarrow> dynamic (objs s t)"
    "\<And>t i. t \<in> T \<Longrightarrow> i < 9 \<Longrightarrow> stack_addr s t \<notin> fst ` set (B i)"
    using m by (simp_all add: mem_inv_def)
  have ty: "class_index 1 = Some 0" by (simp add: class_index_def rt_object_container_def)
  show ?thesis
  proof (rule object_allocate_spec [OF rep oh nest ty name])
    assume "rt_object_allocate 1 name s = Some (0, s)"
    then show ?thesis using m by (auto simp: rt_thread_create_def)
  next
    fix th s1
    assume a: "rt_object_allocate 1 name s = Some (th, s1)" "th \<noteq> 0" "th \<notin> heap_live (oheap s)"
      "heap_live (oheap s1) = insert th (heap_live (oheap s))"
      "represents s1 (insert th N) (B(0 := (th, name) # B 0))" "objects_in_heap s1 (B(0 := (th, name) # B 0))"
      "isr_nest s1 = 0" "objs s1 = (objs s)(th := \<lparr>o_name = strncpy_field 16 name, o_type = 1, o_flag = 0\<rparr>)"
      "\<forall>j < 9. th \<notin> fst ` set (B j)"
    let ?B = "B(0 := (th, name) # B 0)"
    note e = object_ops_threads(3) [OF a(1)]
    have ok1: "heap_ok (oheap s1)" using a(6) by (simp add: objects_in_heap_def)
    have thT: "th \<notin> base" "th \<notin> T" "th \<notin> stack_addr s ` T" using a(3) live by auto
    show ?thesis
    proof (rule rt_malloc_cases [OF ok1, of stack_size])
      assume f: "rt_malloc stack_size (oheap s1) = Some (0, oheap s1)"
      have pr: "(0 :: nat) < 9" "(th, name) \<in> set (?B 0)" "fst (th, name) = th" by simp_all
      have dyn: "dynamic (objs s1 th)" by (simp add: a(8) dynamic_def)
      obtain s' where s': "rt_object_delete th s1 = Some s'"
        "represents s' (insert th N) (\<lambda>i. filter (\<lambda>b. fst b \<noteq> th) (?B i))"
        "objects_in_heap s' (\<lambda>i. filter (\<lambda>b. fst b \<noteq> th) (?B i))"
        "heap_live (oheap s') = heap_live (oheap s1) - {th}" "isr_nest s' = isr_nest s1"
        "objs s' = (objs s1)(th := (objs s1 th)\<lparr>o_type := 0\<rparr>)"
        by (rule object_delete_spec [OF a(5,6) pr dyn])
      note e' = object_ops_threads(2) [OF s'(1)]
      let ?B' = "\<lambda>i. filter (\<lambda>b. fst b \<noteq> th) (?B i)"
      have same: "?B' i = B i" if "i < 9" for i
      proof -
        have "\<forall>b \<in> set (B i). fst b \<noteq> th" using a(9) that by force
        then show ?thesis by (simp add: filter_id_conv)
      qed
      have sa: "stack_addr s' = stack_addr s" and n': "isr_nest s' = 0" using e e' s'(5) a(7) by simp_all
      have hl: "heap_live (oheap s') = base \<union> T \<union> stack_addr s ` T" using s'(4) a(3,4) live by auto
      have TB: "\<forall>t \<in> T. t \<in> fst ` set (?B' 0) \<and> dynamic (objs s' t)
          \<and> (\<forall>i < 9. stack_addr s t \<notin> fst ` set (?B' i))"
      proof (intro ballI conjI allI impI)
        fix t i assume t: "t \<in> T"
        show "t \<in> fst ` set (?B' 0)" by (subst same) (simp_all add: T(1) [OF t])
        show "dynamic (objs s' t)" using T(2) [OF t] thT(2) t by (auto simp: s'(6) a(8))
        assume i: "i < (9 :: nat)"
        show "stack_addr s t \<notin> fst ` set (?B' i)" using T(3) [OF t i] by (subst same [OF i])
      qed
      have "mem_inv s' base T (insert th N) ?B'"
        unfolding mem_inv_def sa by (intro conjI n' s'(2,3) TB inj hl dis)
      moreover have "rt_thread_create name stack_size priority ticks s = Some (0, s')"
        using a(1,2) f s'(1) by (simp add: rt_thread_create_def)
      moreover have "\<forall>i < 9. ?B' i = B i" using same by blast
      moreover have "kern s' = kern s" using e e' by simp
      ultimately show ?thesis by blast
    next
      fix p h
      assume q: "rt_malloc stack_size (oheap s1) = Some (p, h)" "p \<noteq> 0" "heap_alloc (oheap s1) stack_size = Some (p, h)"
        "in_heap (oheap s1) p" "same_heap (oheap s1) h"
      note f = heap_alloc_fresh [OF ok1 q(3)]
      obtain k where k: "rt_thread_init (unat th) False priority ticks (kern s) = Some (0, k)"
        using p by (simp add: rt_thread_init_def)
      define s' where "s' = s1\<lparr>oheap := fill_bytes p 0x23 stack_size h, stack_addr := (stack_addr s)(th := p), kern := k\<rparr>"
      have c: "rt_thread_create name stack_size priority ticks s = Some (th, s')"
        using a(1,2) q(1,2) k e by (simp add: rt_thread_create_def s'_def)
      have pl: "p \<notin> heap_live (oheap s1)" using f by simp
      then have pn: "p \<notin> base" "p \<notin> T" "p \<notin> stack_addr s ` T" "p \<noteq> th" using a(4) live by auto
      have unl: "p \<notin> fst ` set (?B i)" if "i < 9" for i
        using a(6) pl q(4) that unfolding objects_in_heap_def by force
      have hp: "heap_live (oheap s') = insert p (insert th (heap_live (oheap s)))" "heap_ok (oheap s')"
        "in_heap (oheap s') = in_heap (oheap s1)"
        using f a(4) in_heap_same [OF q(5)] by (simp_all add: s'_def fill_bytes_def)
      have "represents s' (insert th N) ?B" using a(5) by (simp add: represents_def s'_def)
      moreover have "objects_in_heap s' ?B"
        using a(6) hp a(4) by (auto simp: objects_in_heap_def s'_def)
      moreover have st: "stack_addr s' = (stack_addr s)(th := p)" by (simp add: s'_def)
      moreover have "\<forall>t \<in> insert th T. t \<in> fst ` set (?B 0) \<and> dynamic (objs s' t) \<and> (\<forall>i < 9. stack_addr s' t \<notin> fst ` set (?B i))"
      proof
        fix t assume t: "t \<in> insert th T"
        show "t \<in> fst ` set (?B 0) \<and> dynamic (objs s' t) \<and> (\<forall>i < 9. stack_addr s' t \<notin> fst ` set (?B i))"
        proof (cases "t = th")
          case True
          then show ?thesis using unl by (simp add: st s'_def a(8) dynamic_def)
        next
          case False
          then have "t \<in> T" "stack_addr s t \<noteq> th" using t thT(3) by auto
          then show ?thesis using T False by (auto simp: st s'_def a(8))
        qed
      qed
      moreover have "inj_on (stack_addr s') (insert th T)"
        using inj pn(3) thT(2) by (auto simp: st inj_on_def)
      moreover have im: "stack_addr s' ` insert th T = insert p (stack_addr s ` T)" using thT(2) by (auto simp: st)
      moreover have "heap_live (oheap s') = base \<union> insert th T \<union> stack_addr s' ` insert th T"
        unfolding im hp(1) live by auto
      moreover have "base \<inter> (insert th T \<union> stack_addr s' ` insert th T) = {}"
        unfolding im using dis pn(1) thT(1) by auto
      moreover have "isr_nest s' = 0" using a(7) by (simp add: s'_def)
      ultimately have "mem_inv s' base (insert th T) (insert th N) ?B" unfolding mem_inv_def by blast
      moreover have "kern s' = k" by (simp add: s'_def)
      ultimately show ?thesis using c a(2) thT k by blast
    qed
  qed
qed

section \<open>Hooks, as a set of slots\<close>

lemma replace_first_Some: "replace_first x y zs = Some ws \<Longrightarrow> length ws = length zs \<and> x \<in> set zs \<and> y \<in> set ws"
  by (induction zs arbitrary: ws) (auto split: if_splits)

lemma replace_first_None: "replace_first x y zs = None \<longleftrightarrow> x \<notin> set zs"
  by (induction zs) auto

text \<open>Setting a hook fails exactly when no slot is free, and deleting one exactly when it is not set.\<close>

lemma idle_hooks:
  "fst (rt_thread_idle_sethook h hs) = 0 \<longleftrightarrow> None \<in> set hs"
  "fst (rt_thread_idle_delhook h hs) = 0 \<longleftrightarrow> h \<in> set hs"
  "length (snd (rt_thread_idle_sethook h hs)) = length hs" "length (snd (rt_thread_idle_delhook h hs)) = length hs"
  using replace_first_None [of None h hs] replace_first_None [of h None hs]
  by (auto simp: rt_thread_idle_sethook_def rt_thread_idle_delhook_def split: option.split dest: replace_first_Some)

section \<open>Properties\<close>

text \<open>A system whose only thread runs, for the witnesses.\<close>

definition threadsys_start :: threadsys where
  "threadsys_start = registry.extend (registry_start (\<lambda>_. 40) demo_heap) (threadsys.fields
     \<lparr>threads = (\<lambda>t. \<lparr>error = 0, stat = (if t = 5 then 3 else 0), current_priority = 0, init_priority = 0,
        number_mask = 1, event_set = 0, event_info = 0, init_tick = 1, remaining_tick = 1, systemobject = True,
        cleanup = False\<rparr>),
      lists = (\<lambda>_. []), ready_group = 0, current = Some 5, cur_prio = 0, lock_nest = 0, int_nest = 0, tick = 0,
      timers = (\<lambda>_. \<lparr>tm_flag = 0, tm_init_tick = 0, tm_timeout_tick = 0\<rparr>), timer_list = []\<rparr> (\<lambda>_. 0))"

lemma threadsys_start_simps [simp]:
  "olinks threadsys_start = \<lparr>nxt = (\<lambda>c. c), prv = (\<lambda>c. c)\<rparr>" "isr_nest threadsys_start = 0"
  "objs threadsys_start = (\<lambda>_. \<lparr>o_name = [], o_type = 0, o_flag = 0\<rparr>)" "oheap threadsys_start = demo_heap"
  by (simp_all add: threadsys_start_def registry.defs threadsys.defs registry_start_def)

lemma threadsys_start_mem: "mem_inv threadsys_start {} {} {} (\<lambda>_. [])"
  using demo_heap_facts
  by (simp add: mem_inv_def represents_def realises_def ring_def objects_in_heap_def heap_tidy_def)

lemma threadsys_start_kernel: "kinv (kern threadsys_start)" "current (kern threadsys_start) = Some 5"
  "lists (kern threadsys_start) q = []"
  by (auto simp: threadsys_start_def registry.defs threadsys.defs registry_start_def kinv_def kinv_x_def lists_ok_def
      thread_ok_def tstat_def prio_ok_def)

text \<open>The demonstration heap has room for a control block of 40 bytes and a stack of 64.\<close>

lemma demo_heap_eq: "demo_heap = \<lparr>heap_ptr = 0x1000, mem_size_aligned = 232, lfree = 0,
   hdr = (\<lambda>_. \<lparr>magic = 0, used = 0, hnext = 0, hprev = 0\<rparr>)(0 := \<lparr>magic = 0x1EA0, used = 0, hnext = 244, hprev = 0\<rparr>,
      244 := \<lparr>magic = 0x1EA0, used = 1, hnext = 244, hprev = 244\<rparr>), used_mem = 0, max_mem = 0, bytes = (\<lambda>_. 0)\<rparr>"
  by (simp add: demo_heap_def rt_system_heap_init_def rt_align_def rt_align_down_def Let_def)

lemmas malloc_eval = rt_malloc_def find_fit.simps skip_used.simps take_block_def split_block_def set_used_def
  heap_end_def rt_align_def Let_def

lemma create_demo: "map_option fst (rt_thread_create [0x61] 64 10 5 threadsys_start) = Some 0x100C"
proof -
  have i: "rt_object_get_information 1 threadsys_start = Some 0"
    by (simp add: get_information_eq class_index_def rt_object_container_def)
  have z: "rt_object_container (sizeof threadsys_start) ! 0 = \<lparr>i_type = 1, object_size = 40\<rparr>"
    by (simp add: rt_object_container_def threadsys_start_def registry.defs threadsys.defs registry_start_def)
  show ?thesis
    by (simp add: rt_thread_create_def rt_object_allocate_def i z demo_heap_eq malloc_eval fill_bytes_def upd_obj_def
        upd_links_def rt_thread_init_def)
qed





end
