(* ===== verification/Spec2Isabelle.thy ===== *)
theory Spec2Isabelle
  imports RingBuffer RingBlock DataQueue WorkQueue Clock Semaphore Mutex Event Mailbox MessageQueue MemPool SmallMem Heap_Service Format_Output Pid_Motion Dbus_Link CanLink DeviceReg Idle
begin

text \<open>
  \<^bold>\<open>A verification library for the RoboMaster firmware.\<close> The firmware drives a mecanum-wheeled robot on an STM32F427:
  RT-Thread 4.0.2 (\<open>src/rt-thread\<close>) with the serial and CAN drivers of \<open>src/libraries/HAL_Drivers\<close>, the
  decoders and controllers of \<open>src/Algorithm\<close>, and the tasks of \<open>src/applications\<close>. This theory imports the
  others and holds this overview. The configuration is the one of \<open>src/rtconfig.h\<close>: one
  processor, 32 priorities, assertions on, \<open>RT_ALIGN_SIZE\<close> 4, 1000 ticks per second, the small-memory heap,
  hard timers only, DMA reception on the serial ports.

  \<^bold>\<open>How the parts interact.\<close> The tick interrupt (\<open>clock.c\<close>) charges the running thread's slice and fires timers
  (\<open>timer.c\<close>); a thread's own timer ends its wait (\<open>thread.c\<close>); the scheduler (\<open>scheduler.c\<close>) picks the thread
  to run. The IPC objects (\<open>ipc.c\<close>, \<open>mempool.c\<close>, \<open>completion.c\<close>, \<open>dataqueue.c\<close>, \<open>workqueue.c\<close>) suspend and wake
  threads through \<open>thread.c\<close>. The remote control's bytes arrive by DMA in the serial FIFO
  (\<open>serial.c\<close>, \<open>drv_usart.c\<close>), are read by the receive callback (\<open>rc.c\<close>) and decoded (\<open>packageProcess.c\<close>); the
  control loop (\<open>motionTask.c\<close>) mixes them into wheel speeds, closes the loops with \<open>pid.c\<close> over the
  motors' feedback and sends currents on the CAN bus (\<open>motor.c\<close>). The feedback's frames are fetched by
  \<open>drv_can.c\<close>, queued by the CAN framework (\<open>can.c\<close>) and decoded by the receive thread (\<open>can_rw.c\<close>), one frame
  for each release of its semaphore; commands go through the framework's mailboxes. The heap (\<open>mem.c\<close>) serves creation
  of objects; \<open>kservice.c\<close> gives memory, string and output functions.

  \<^bold>\<open>Theories and sources.\<close>
  \<^item> Shared: \<open>Prelude\<close> (words, error codes, alignment, bounded copies), \<open>Ring_Slice\<close> (cyclic arrays), \<open>Linked\<close> (lists
    threaded through memory), \<open>RtList\<close> (the pointer lists of \<open>rtservice.h\<close>), and three interfaces stated as locales: \<open>Fifo_Interface\<close> (bounded queue; interpreted by
    \<open>RingBuffer\<close>, \<open>Mailbox\<close>, \<open>MessageQueue\<close>), \<open>Ordered_Queue\<close> (waiting list ordered by a key; \<open>Timer\<close>,
    \<open>Ipc_Base\<close>), \<open>Block_Allocator\<close> (who owns which memory; \<open>MemPool\<close>, \<open>SmallMem\<close>, \<open>RingBlock\<close>,
    \<open>ObjectReg\<close>).
  \<^item> Kernel: \<open>KState\<close> (\<open>rtdef.h\<close> and the globals of \<open>scheduler.c\<close> as one record \<open>kernel\<close>: threads, thread lists, ready
    bitmap, running thread, nesting counts, tick, timers), \<open>Timer\<close> (\<open>timer.c\<close>), \<open>Scheduler\<close> (\<open>scheduler.c\<close>,
    \<open>__rt_ffs\<close>), \<open>Thread\<close> (\<open>thread.c\<close>), \<open>Clock\<close> (\<open>clock.c\<close>, \<open>irq.c\<close>, \<open>rt_timer_check\<close>),
    \<open>ObjectReg\<close> (\<open>object.c\<close>: names, classes and memory of kernel objects), \<open>DeviceReg\<close> (\<open>device.c\<close>), \<open>Idle\<close> (\<open>idle.c\<close> and
    \<open>rt_thread_create\<close>: the memory of threads).
  \<^item> Communication: \<open>Ipc_Base\<close>, \<open>Semaphore\<close>, \<open>Mutex\<close>, \<open>Event\<close>, \<open>Mailbox\<close>, \<open>MessageQueue\<close> (\<open>ipc.c\<close>), \<open>Driver_Wait\<close>
    (\<open>completion.c\<close>), \<open>DataQueue\<close> (\<open>dataqueue.c\<close>), \<open>WorkQueue\<close> (\<open>workqueue.c\<close>), \<open>RingBuffer\<close> (\<open>ringbuffer.c\<close>),
    \<open>RingBlock\<close> (\<open>ringblk_buf.c\<close>).
  \<^item> Memory and services: \<open>MemPool\<close> (\<open>mempool.c\<close>), \<open>SmallMem\<close> (\<open>mem.c\<close>), \<open>Mem_Ops\<close>, \<open>C_Strings\<close>, \<open>Heap_Service\<close>,
    \<open>Format_Output\<close> (\<open>kservice.c\<close>).
  \<^item> Robot: \<open>Serial\<close> (\<open>serial.c\<close>, receiving), \<open>Dbus_Link\<close> (\<open>drv_usart.c\<close>, \<open>serial.c\<close> and \<open>rc.c\<close> together), \<open>Rc_Motor\<close>
    (\<open>packageProcess.c\<close>, \<open>motor.c\<close>, \<open>can_rw.c\<close>), \<open>Pid_Motion\<close> (\<open>pid.c\<close>, \<open>motionTask.c\<close>), \<open>CanDevice\<close> (\<open>can.c\<close>: data,
    receiving, filters, opening and closing), \<open>CanSend\<close> (\<open>can.c\<close>: sending, events, control), \<open>CanLink\<close> (\<open>drv_can.c\<close>,
    \<open>can.c\<close> and \<open>can_rw.c\<close> together).

  \<^bold>\<open>Conventions.\<close> A function of the source is a definition with its name (leading underscores dropped). Integers
  keep their width as words; C's promotion to \<open>int\<close> is written out where it matters (the indices of
  \<open>dataqueue.c\<close>). A doubly linked kernel list is the HOL list of its members, a thread being on at most
  one (\<open>RtList\<close> shows that the pointer operations compute these lists, and \<open>ObjectReg\<close> works on the pointers); lists whose links live in the managed memory (memory pools, message queues, the heap) keep
  their pointers. A failed \<open>RT_ASSERT\<close>, an access outside an array, a null thread and a loop that does not end are
  \<open>None\<close>, so a theorem that an operation returns \<open>Some\<close> states its safety and its termination. A function
  that blocks is split at the switch: \<open>_enter\<close> runs to the return or the suspension (\<open>Blocked\<close>), \<open>_resume\<close>
  continues when the thread runs again. Sections with interrupts disabled are single steps; where the
  source re-enables interrupts between two sections, each is a definition of its own and the
  interleavings are part of the properties (message queue, work queue, control loop, CAN device).

  \<^bold>\<open>What the lemmas show.\<close>
  \<^item> The kernel invariant \<open>kinv\<close> (every thread on the list its state demands, the bitmap exact, timers armed only
    for suspended threads) holds in every reachable kernel; the scheduler runs a best ready thread;
    timers stay in expiry order across the wrap of the tick; \<open>rt_timer_check\<close> ends and wakes whom it should.
  \<^item> The IPC objects: tokens and priorities are conserved along any history, events wake exactly the satisfied
    waiters, mailbox and message queue refine a bounded list, also under interleaving; the worker of a
    work queue is never stuck unless works are cancelled, and its acknowledgement loop ends.
  \<^item> The pointer lists of the kernel refine HOL lists, the object container refines lists of bindings by class, the
    device registry a map; the users of a device are counted; a thread is created whole or not at
    all, and the idle thread gives the memory of ended threads back.
  \<^item> Memory: a client of a pool, of the heap or of a ring block buffer owns disjoint memory, the heap coalesces,
    word-wise memory functions equal bytewise ones, the formatted output stays in its buffer.
  \<^item> The robot: frames of 18 bytes sent over the link are decoded exactly when the buffer is larger than a frame,
    the turn count follows the encoder, every command sent to a motor is within its limits.
  \<^item> The CAN device: its receive FIFO refines a queue with headers that keeps the newest messages, under any
    interleaving of readers and interrupts; senders never share a mailbox and do not deadlock; a motor's frame is
    decoded exactly once and in order while the FIFO does not overflow.
  \<^item> Several properties state where the code falls short of its purpose (priority inheritance with FIFO
    queues, the wrap of the data queue, races of the work queue, memory handed out twice by the ring
    block buffer, devices that cannot be destroyed or are stranded by a failed close, an object in two classes, the
    CAN device after a second open, an overflow or a stray transmission event); these are facts of the source, proved like the others.

  \<^bold>\<open>Bounds and termination.\<close> Loops are structural recursion or \<open>partial_function (option)\<close>; nothing runs on
  fuel. Where a loop might not end (timer callbacks that restart themselves, the heap's searches, the
  completion loop of the work queue, string functions on unterminated memory) that it returns is part
  of the theorem. Sums of 32-bit sizes are shown not to wrap from the invariants, or the wrap is part of
  the statement.

  \<^bold>\<open>Parameters.\<close> What is not code of this repository is an argument: the DMA controller of a serial port (with the
  hypothesis \<open>circular_dma\<close>, instantiated by \<open>dma_bytes\<close>), the CAN controller (which frames it hands over, whether it
  accepts one, its events, and that setting an interrupt leaves the framework's fields alone: \<open>set_int_quiet\<close>), the callback of a timer that is not a thread's own,
  the functions of a device's driver (\<open>tame\<close>: they leave the reference count and the flags alone, and the
  initialisation does not answer \<open>-RT_ENOSYS\<close>; \<open>closes\<close>: its close does not fail; both only where a property names them), the cleanup functions of threads (\<open>tame_cleanup\<close>: they leave heap,
  registry and kernel alone), the sizes of the kernel objects, the contents of fresh memory. Floating point is the real value with the IEEE rounding of every
  operation written out; values that overflow to infinity are not represented.

  \<^bold>\<open>Not modelled.\<close> Start-up and console (\<open>components.c\<close>, \<open>rt_thread_idle_init\<close>, \<open>main.c\<close>, \<open>power.c\<close>, \<open>can_read.c\<close>, \<open>can_write.c\<close>): they wire parts
  together or write pins and registers. The entries of semaphores, timers and the other static objects in the object
  container (their operations do not read them) and the initial stack frame of a thread. The pipes and wait queues of
  \<open>components/drivers\<close>, and the transmitting half of \<open>serial.c\<close>. \<open>memheap.c\<close>, \<open>slab.c\<close>, \<open>signal.c\<close>, \<open>cpu.c\<close>: not
  part of the configured build. The HAL, CMSIS, board support and register-level drivers, the vendored
  ARM mathematics of \<open>Algorithm\<close>, and the RT-Thread components the firmware does not use (file systems,
  network, shell, libc glue).
\<close>

end
